(* ===== verification/Prelude.thy ===== *)
theory Prelude
  imports Main "HOL-Library.Word" "HOL-Library.Monad_Syntax"
begin

text \<open>
  Shared vocabulary of the development.

  Outcomes. A C++ function that can fail an \<open>assert\<close>, call \<open>exit\<close> or \<open>abort\<close>, touch memory
  outside an array or never return is modelled with an \<open>option\<close> result: \<^term>\<open>None\<close> is each of these
  (the call does not come back in a defined way), \<^term>\<open>Some r\<close> is the normal return of \<open>r\<close>.
  The \<open>do\<close> notation of Monad\_Syntax sequences such calls.

  Return codes. The integer \<open>0 or Unix error code\<close> of the source is the datatype \<open>rc\<close>.
\<close>

named_theorems abort_simps \<open>unfolding of assertions and bounds-checked array accesses\<close>

subsection \<open>Unix error codes and return codes\<close>

datatype errno =
    E2BIG | EACCES | EADDRINUSE | EALREADY | EINPROGRESS | EINTR | EINVAL | EISCONN
  | EMSGSIZE | ENOENT | ENOMEM | ENOSPC | ENOSYS | EPIPE | EWOULDBLOCK
  | EOTHER nat \<comment> \<open>any other value of \<open>errno\<close>\<close>

datatype rc = OK | Fail errno

subsection \<open>Assertions and array accesses\<close>

definition assertion :: "bool \<Rightarrow> unit option" where
  "assertion b = (if b then Some () else None)"

definition rd :: "'a list \<Rightarrow> nat \<Rightarrow> 'a option" where
  "rd xs i = (if i < length xs then Some (xs ! i) else None)"

definition wr :: "'a list \<Rightarrow> nat \<Rightarrow> 'a \<Rightarrow> 'a list option" where
  "wr xs i x = (if i < length xs then Some (xs[i := x]) else None)"

text \<open>The same with the \<open>int\<close> subscripts of the source, which may be negative.\<close>

definition rdi :: "'a list \<Rightarrow> int \<Rightarrow> 'a option" where
  "rdi xs i = (if 0 \<le> i then rd xs (nat i) else None)"

definition wri :: "'a list \<Rightarrow> int \<Rightarrow> 'a \<Rightarrow> 'a list option" where
  "wri xs i x = (if 0 \<le> i then wr xs (nat i) x else None)"

text \<open>\<open>memcpy(xs + i, ys, length ys)\<close>\<close>

definition memcpy :: "'a list \<Rightarrow> nat \<Rightarrow> 'a list \<Rightarrow> 'a list option" where
  "memcpy xs i ys =
     (if i + length ys \<le> length xs then Some (take i xs @ ys @ drop (i + length ys) xs) else None)"

lemma assertion_simps [simp, abort_simps]:
  "assertion True = Some ()" "assertion False = None"
  "(assertion b = Some u) = b" "(assertion b = None) = (\<not> b)"
  by (auto simp: assertion_def)

lemma rd_Some [simp, abort_simps]: "i < length xs \<Longrightarrow> rd xs i = Some (xs ! i)"
  by (simp add: rd_def)

lemma wr_Some [simp, abort_simps]: "i < length xs \<Longrightarrow> wr xs i x = Some (xs[i := x])"
  by (simp add: wr_def)

lemma rdi_Some [simp, abort_simps]: "0 \<le> i \<Longrightarrow> nat i < length xs \<Longrightarrow> rdi xs i = Some (xs ! nat i)"
  by (simp add: rdi_def)

lemma wri_Some [simp, abort_simps]:
  "0 \<le> i \<Longrightarrow> nat i < length xs \<Longrightarrow> wri xs i x = Some (xs[nat i := x])"
  by (simp add: wri_def)

lemma rd_eq_Some: "rd xs i = Some x \<longleftrightarrow> i < length xs \<and> x = xs ! i"
  by (auto simp: rd_def)

lemma wr_eq_Some: "wr xs i x = Some ys \<longleftrightarrow> i < length xs \<and> ys = xs[i := x]"
  by (auto simp: wr_def)

lemma rdi_eq_Some: "rdi xs i = Some x \<longleftrightarrow> 0 \<le> i \<and> nat i < length xs \<and> x = xs ! nat i"
  by (auto simp: rdi_def rd_def)

lemma wri_eq_Some: "wri xs i x = Some ys \<longleftrightarrow> 0 \<le> i \<and> nat i < length xs \<and> ys = xs[nat i := x]"
  by (auto simp: wri_def wr_def)

lemmas access_iffs = rd_eq_Some wr_eq_Some rdi_eq_Some wri_eq_Some

lemma memcpy_Some [simp, abort_simps]:
  "i + length ys \<le> length xs \<Longrightarrow> memcpy xs i ys = Some (take i xs @ ys @ drop (i + length ys) xs)"
  by (simp add: memcpy_def)

subsection \<open>Characters\<close>

abbreviation CR :: char where "CR \<equiv> CHR 0x0D"
abbreviation LF :: char where "LF \<equiv> CHR 0x0A"
abbreviation NUL :: char where "NUL \<equiv> CHR 0x00"

subsection \<open>Allocation\<close>

text \<open>
  What \<open>realloc\<close> promises: a block of the size asked for that starts with the old elements, or
  nothing. Sizes are in elements.
\<close>

definition realloc_ok :: "(nat \<Rightarrow> 'a list \<Rightarrow> 'a list option) \<Rightarrow> bool" where
  "realloc_ok ralloc = (\<forall>n xs ys. ralloc n xs = Some ys \<longrightarrow> length xs \<le> n \<longrightarrow>
                          length ys = n \<and> take (length xs) ys = xs)"

lemma realloc_okD:
  assumes "realloc_ok ralloc" "ralloc n xs = Some ys" "length xs \<le> n"
  shows "length ys = n" "i < length xs \<Longrightarrow> ys ! i = xs ! i"
  using assms unfolding realloc_ok_def by (metis, metis nth_take)

subsection \<open>Integer division\<close>

text \<open>C's division and remainder, which round towards zero.\<close>

definition cdiv :: "int \<Rightarrow> int \<Rightarrow> int" where
  "cdiv a b = sgn a * sgn b * (\<bar>a\<bar> div \<bar>b\<bar>)"

definition cmod :: "int \<Rightarrow> int \<Rightarrow> int" where
  "cmod a b = a - b * cdiv a b"

lemma cdiv_nonneg: "0 \<le> a \<Longrightarrow> 0 < b \<Longrightarrow> cdiv a b = a div b \<and> cmod a b = a mod b"
  by (cases "a = 0") (simp_all add: cdiv_def cmod_def minus_mult_div_eq_mod)

end
