(* ===== verification/Cstring.thy ===== *)
theory Cstring
  imports Prelude
begin

text \<open>
  The C library's string functions the program calls, on character arrays. An array is the list of
  all its elements; a C string in it ends at the first NUL, and what lies behind is kept, since the
  program reads it in places. A write outside an array, a string without a NUL and a number that is
  not an \<open>int\<close> are undefined in C and have no result here.
\<close>

definition cstr :: "char list \<Rightarrow> char list" where
  "cstr buf = takeWhile (\<lambda>c. c \<noteq> NUL) buf"

definition is_cstr :: "char list \<Rightarrow> bool" where
  "is_cstr buf = (NUL \<in> set buf)"

text \<open>\<open>strcpy\<close> of a string, and what \<open>sprintf\<close> does with its formatted text.\<close>

definition store_str :: "char list \<Rightarrow> char list \<Rightarrow> char list option" where
  "store_str buf s = memcpy buf 0 (s @ [NUL])"

definition strncpy :: "char list \<Rightarrow> char list \<Rightarrow> nat \<Rightarrow> char list option" where
  "strncpy dst src n = do {
     assertion (is_cstr src \<or> n \<le> length src);
     memcpy dst 0 (take n (cstr src) @ replicate (n - length (cstr src)) NUL)
   }"

definition digit_chars :: "char list" where
  "digit_chars = ''0123456789''"

definition isspace :: "char \<Rightarrow> bool" where
  "isspace c = (c \<in> set [CHR '' '', CHR 0x09, CHR 0x0A, CHR 0x0B, CHR 0x0C, CHR 0x0D])"

definition isdigit :: "char \<Rightarrow> bool" where
  "isdigit c = (c \<in> set digit_chars)"

definition digit_val :: "char \<Rightarrow> int" where
  "digit_val c = int (length (takeWhile (\<lambda>x. x \<noteq> c) digit_chars))"

definition digits_val :: "char list \<Rightarrow> int" where
  "digits_val ds = foldl (\<lambda>n d. 10 * n + digit_val d) 0 ds"

text \<open>One \<open>%d\<close> conversion: the number and the rest of the text, None when there is no number.\<close>

definition parse_int :: "char list \<Rightarrow> (int \<times> char list) option" where
  "parse_int s =
     (let s1 = dropWhile isspace s;
          neg = (case s1 of c # r \<Rightarrow> c = CHR ''-'' | [] \<Rightarrow> False);
          s2 = (case s1 of c # r \<Rightarrow> if c = CHR ''-'' \<or> c = CHR ''+'' then r else s1 | [] \<Rightarrow> []);
          ds = takeWhile isdigit s2
      in if ds = [] then None
         else Some (if neg then - digits_val ds else digits_val ds, dropWhile isdigit s2))"

definition is_int :: "int \<Rightarrow> bool" where
  "is_int v = (- (2 ^ 31) \<le> v \<and> v < 2 ^ 31)"

definition atoi :: "char list \<Rightarrow> int option" where
  "atoi s = (case parse_int s of None \<Rightarrow> Some 0 | Some (v, r) \<Rightarrow> do { assertion (is_int v); Some v })"

text \<open>\<open>sscanf(s, "%d,%d,...,%d")\<close> with \<open>n\<close> conversions: the values converted.\<close>

fun scan_commas :: "nat \<Rightarrow> char list \<Rightarrow> int list" where
  "scan_commas 0 s = []"
| "scan_commas (Suc n) s =
     (case parse_int s of
        None \<Rightarrow> []
      | Some (v, []) \<Rightarrow> [v]
      | Some (v, c # r) \<Rightarrow> v # (if c = CHR '','' then scan_commas n r else []))"

definition sscanf_commas :: "nat \<Rightarrow> char list \<Rightarrow> int list option" where
  "sscanf_commas n s = (let vs = scan_commas n s in do { assertion (list_all is_int vs); Some vs })"

text \<open>\<open>%d\<close> output of a non-negative number.\<close>

definition digit_char :: "nat \<Rightarrow> char" where
  "digit_char d = digit_chars ! d"

fun dec :: "nat \<Rightarrow> char list" where
  "dec n = (if n < 10 then [digit_char n] else dec (n div 10) @ [digit_char (n mod 10)])"

declare dec.simps [simp del]

subsection \<open>Facts\<close>

lemma less_10_cases: "(d::nat) < 10 \<Longrightarrow> d \<in> {0, 1, 2, 3, 4, 5, 6, 7, 8, 9}"
  by auto

lemma digit_char: "d < 10 \<Longrightarrow> isdigit (digit_char d)" "d < 10 \<Longrightarrow> digit_val (digit_char d) = int d"
  using less_10_cases[of d] by (auto simp: isdigit_def digit_val_def digit_char_def digit_chars_def)

lemma isdigit_simps [simp]:
  "\<not> isdigit CHR '',''" "\<not> isdigit CHR '' ''" "\<not> isdigit CHR ''-''" "\<not> isdigit CHR ''+''" "\<not> isdigit NUL"
  "\<not> isdigit CHR ''(''" "\<not> isdigit CHR '')''"
  by (simp_all add: isdigit_def digit_chars_def)

lemma dec_digits: "\<forall>c \<in> set (dec n). isdigit c"
proof (induction n rule: dec.induct)
  case (1 n)
  then show ?case by (cases "n < 10") (auto simp: dec.simps[of n] digit_char)
qed

lemma dec_nonempty [simp]: "dec n \<noteq> []"
  by (subst dec.simps) simp

lemma digits_val_snoc: "digits_val (ds @ [d]) = 10 * digits_val ds + digit_val d"
  by (simp add: digits_val_def)

lemma digits_val_dec: "digits_val (dec n) = int n"
proof (induction n rule: dec.induct)
  case (1 n)
  show ?case
  proof (cases "n < 10")
    case True
    then show ?thesis by (simp add: dec.simps[of n] digits_val_def digit_char)
  next
    case False
    with 1 have "digits_val (dec n) = 10 * int (n div 10) + int (n mod 10)"
      by (simp add: dec.simps[of n] digits_val_snoc digit_char)
    also have "\<dots> = int n" by (metis div_mult_mod_eq mult.commute of_nat_add of_nat_mult of_nat_numeral)
    finally show ?thesis .
  qed
qed

lemma isdigit_not: "isdigit c \<Longrightarrow> \<not> isspace c \<and> c \<noteq> CHR ''-'' \<and> c \<noteq> CHR ''+'' \<and> c \<noteq> CHR '','' \<and> c \<noteq> NUL \<and> c \<noteq> LF"
  by (auto simp: isdigit_def isspace_def digit_chars_def)

text \<open>Reading back what was printed.\<close>

lemma parse_int_dec:
  assumes "case rest of [] \<Rightarrow> True | c # cs \<Rightarrow> \<not> isdigit c"
  shows "parse_int (dec n @ rest) = Some (int n, rest)"
proof -
  obtain d ds where d: "dec n = d # ds" using dec_nonempty[of n] by (cases "dec n") auto
  have dig: "isdigit d" using dec_digits[of n] d by simp
  note nots = isdigit_not[OF dig]
  have tw: "takeWhile isdigit (dec n @ rest) = dec n" "dropWhile isdigit (dec n @ rest) = rest"
    using dec_digits[of n] assms by (auto simp: takeWhile_append dropWhile_append split: list.splits)
  have "dropWhile isspace (dec n @ rest) = dec n @ rest" using d nots by simp
  with tw nots d show ?thesis by (simp add: parse_int_def Let_def digits_val_dec[symmetric])
qed

definition commas :: "char list list \<Rightarrow> char list" where
  "commas ws = concat (map (\<lambda>w. w @ '','') (butlast ws)) @ last ws"

lemma scan_commas_dec:
  assumes "ns \<noteq> []" "case rest of [] \<Rightarrow> True | c # cs \<Rightarrow> \<not> isdigit c"
  shows "scan_commas (length ns) (commas (map dec ns) @ rest) = map int ns"
  using assms(1)
proof (induction ns)
  case (Cons n ns)
  show ?case
  proof (cases ns)
    case Nil
    with parse_int_dec[OF assms(2), of n] show ?thesis by (auto simp: commas_def split: list.splits)
  next
    case (Cons m ms)
    let ?more = "commas (map dec ns) @ rest"
    have eq: "commas (map dec (n # ns)) @ rest = dec n @ CHR '','' # ?more"
      using Cons by (simp add: commas_def)
    have "parse_int (dec n @ CHR '','' # ?more) = Some (int n, CHR '','' # ?more)"
      by (intro parse_int_dec) simp
    with eq Cons.IH Cons show ?thesis by simp
  qed
qed simp

lemma cstr_append_NUL [simp]: "NUL \<notin> set s \<Longrightarrow> cstr (s @ NUL # r) = s"
  by (induction s) (auto simp: cstr_def)

lemma cstr_behind: "cstr (s @ NUL # r) = cstr (s @ [NUL])"
  unfolding cstr_def by (induction s) auto

lemma is_cstr_append_NUL [simp]: "is_cstr (s @ NUL # r)"
  by (simp add: is_cstr_def)

lemma NUL_notin_cstr [simp]: "NUL \<notin> set (cstr buf)"
  by (auto simp: cstr_def dest: set_takeWhileD)

lemma length_cstr: "is_cstr buf \<Longrightarrow> length (cstr buf) < length buf"
  unfolding is_cstr_def cstr_def by (induction buf) auto

lemma store_str_Some [simp]:
  "length s < length buf \<Longrightarrow> store_str buf s = Some (s @ NUL # drop (Suc (length s)) buf)"
  by (simp add: store_str_def)

lemma store_str_None: "length buf \<le> length s \<Longrightarrow> store_str buf s = None"
  by (simp add: store_str_def memcpy_def)

text \<open>\<open>strncpy(dst, t, n); dst[n-1] = 0\<close>\<close>

lemma truncate_copy:
  assumes "0 < n"
  shows "(take n t @ replicate (n - length t) NUL)[n - 1 := NUL] = take (n - 1) t @ NUL # replicate (n - 1 - length t) NUL"
proof (cases "n \<le> length t")
  case True
  then have "take n t = take (n - 1) t @ [t ! (n - 1)]"
    using assms by (metis Suc_diff_1 Suc_le_eq take_Suc_conv_app_nth)
  moreover have "length (take (n - 1) t) = n - 1" using True by simp
  ultimately have "(take n t)[n - 1 := NUL] = take (n - 1) t @ [NUL]" by (metis list_update_length)
  with True show ?thesis by simp
next
  case False
  then have e: "n - length t = Suc (n - 1 - length t)" using assms by simp
  let ?q = "t @ replicate (n - 1 - length t) NUL"
  have "take n t @ replicate (n - length t) NUL = ?q @ [NUL]"
    using False unfolding e by (simp add: replicate_append_same)
  moreover have "length ?q = n - 1" using False by simp
  ultimately have "(take n t @ replicate (n - length t) NUL)[n - 1 := NUL] = ?q @ [NUL]"
    by (metis list_update_length)
  with False show ?thesis by (simp add: replicate_append_same)
qed

end
