(* ===== verification/Interfaces.thy ===== *)
theory Interfaces
  imports Prelude
begin

text \<open>
  The contracts between the components, as locales. Each is interpreted on the model of the code
  that provides it, in that component's theory.
\<close>

subsection \<open>The scheduler as its clients see it\<close>

text \<open>
  \<open>addClient\<close> and \<open>delClient\<close> of Sked.h. \<open>sched s\<close> maps each scheduled client to its wake-up time,
  \<open>room s\<close> says that the allocator will find room for one more event, \<open>ok t\<close> that a time can be
  compared with the times in use.
\<close>

locale timer_queue =
  fixes add :: "'s \<Rightarrow> 'c \<Rightarrow> 't \<Rightarrow> (rc \<times> 's) option"
    and del :: "'s \<Rightarrow> 'c \<Rightarrow> (rc \<times> 's) option"
    and sched :: "'s \<Rightarrow> 'c \<Rightarrow> 't option"
    and inv :: "'s \<Rightarrow> bool" and room :: "'s \<Rightarrow> bool" and ok :: "'t \<Rightarrow> bool"
  assumes add_law: "inv s \<Longrightarrow> room s \<Longrightarrow> sched s c = None \<Longrightarrow> ok t \<Longrightarrow>
      \<exists>s'. add s c t = Some (OK, s') \<and> inv s' \<and> sched s' = (sched s)(c \<mapsto> t)"
    and del_law: "inv s \<Longrightarrow>
      \<exists>s'. del s c = Some (OK, s') \<and> inv s' \<and> sched s' = (sched s)(c := None) \<and> (room s \<longrightarrow> room s')"
begin

text \<open>Cancelling and scheduling again, as \<open>Platoon::wakeUp\<close> does, never fails an assertion.\<close>

lemma reschedule:
  assumes "inv s" "room s" "ok t"
  shows "\<exists>s1 s2. del s c = Some (OK, s1) \<and> add s1 c t = Some (OK, s2) \<and> inv s2 \<and>
                 sched s2 = (sched s)(c \<mapsto> t)"
proof -
  obtain s1 where s1: "del s c = Some (OK, s1)" "inv s1" "sched s1 = (sched s)(c := None)" "room s1"
    using del_law[OF assms(1), of c] assms(2) by blast
  moreover obtain s2 where "add s1 c t = Some (OK, s2)" "inv s2" "sched s2 = (sched s1)(c \<mapsto> t)"
    using add_law[OF s1(2,4), of c t] s1(3) assms(3) by auto
  ultimately show ?thesis by auto
qed

lemma add_del_cancel:
  assumes "inv s" "room s" "sched s c = None" "ok t"
  shows "\<exists>s1 s2. add s c t = Some (OK, s1) \<and> del s1 c = Some (OK, s2) \<and> inv s2 \<and> sched s2 = sched s"
proof -
  obtain s1 where s1: "add s c t = Some (OK, s1)" "inv s1" "sched s1 = (sched s)(c \<mapsto> t)"
    using add_law[OF assms] by blast
  moreover obtain s2 where "del s1 c = Some (OK, s2)" "inv s2" "sched s2 = (sched s1)(c := None)"
    using del_law[OF s1(2), of c] by blast
  ultimately show ?thesis using assms(3) by auto
qed

text \<open>Cancelling a list of clients, as \<open>Platoon::reset\<close> and \<open>reap\<close> do.\<close>

lemma cancel_all:
  "inv s \<Longrightarrow> \<exists>s'. foldl (\<lambda>so c. do { s \<leftarrow> so; (r, t) \<leftarrow> del s c; Some t }) (Some s) cs = Some s' \<and> inv s' \<and>
     sched s' = (\<lambda>c. if c \<in> set cs then None else sched s c)"
proof (induction cs arbitrary: s)
  case (Cons c cs)
  obtain s1 where s1: "del s c = Some (OK, s1)" "inv s1" "sched s1 = (sched s)(c := None)"
    using del_law[OF Cons.prems, of c] by blast
  with Cons.IH[OF s1(2)] show ?case by (auto simp: fun_eq_iff)
qed simp

end

subsection \<open>A bounded byte queue\<close>

text \<open>
  The contract of nbbio.h's \<open>put\<close>, \<open>readc\<close> and \<open>isEmpty\<close>: a queue of at most \<open>cap\<close> elements, where a
  refused \<open>put\<close> changes nothing. Sequences of operations on it are run beside a plain list.
\<close>

datatype 'a fifo_op = FPut "'a list" | FGet

fun fifo_spec :: "nat \<Rightarrow> 'a list \<Rightarrow> 'a fifo_op list \<Rightarrow> 'a list \<times> 'a list" where
  "fifo_spec cap q [] = ([], q)"
| "fifo_spec cap q (FPut ys # ops) =
     fifo_spec cap (if length q + length ys \<le> cap then q @ ys else q) ops"
| "fifo_spec cap q (FGet # ops) =
     (case q of [] \<Rightarrow> fifo_spec cap [] ops
      | c # cs \<Rightarrow> (case fifo_spec cap cs ops of (out, q') \<Rightarrow> (c # out, q')))"

fun fifo_run ::
  "('b \<Rightarrow> 'a list \<Rightarrow> (rc \<times> 'b) option) \<Rightarrow> ('b \<Rightarrow> ('a \<times> 'b) option) \<Rightarrow> ('b \<Rightarrow> bool) \<Rightarrow>
   'b \<Rightarrow> 'a fifo_op list \<Rightarrow> ('a list \<times> 'b) option" where
  "fifo_run put get emp b [] = Some ([], b)"
| "fifo_run put get emp b (FPut ys # ops) = do { (r, b') \<leftarrow> put b ys; fifo_run put get emp b' ops }"
| "fifo_run put get emp b (FGet # ops) =
     (if emp b then fifo_run put get emp b ops
      else do { (c, b') \<leftarrow> get b; (out, b'') \<leftarrow> fifo_run put get emp b' ops; Some (c # out, b'') })"

locale bounded_fifo =
  fixes put :: "'b \<Rightarrow> 'a list \<Rightarrow> (rc \<times> 'b) option"
    and get :: "'b \<Rightarrow> ('a \<times> 'b) option"
    and emp :: "'b \<Rightarrow> bool" and contents :: "'b \<Rightarrow> 'a list" and inv :: "'b \<Rightarrow> bool" and cap :: nat
  assumes put_room: "inv b \<Longrightarrow> length (contents b) + length ys \<le> cap \<Longrightarrow>
      \<exists>b'. put b ys = Some (OK, b') \<and> inv b' \<and> contents b' = contents b @ ys"
    and put_refused: "inv b \<Longrightarrow> cap < length (contents b) + length ys \<Longrightarrow> \<exists>e. put b ys = Some (Fail e, b)"
    and get_head: "inv b \<Longrightarrow> contents b = c # cs \<Longrightarrow> \<exists>b'. get b = Some (c, b') \<and> inv b' \<and> contents b' = cs"
    and emp_iff: "inv b \<Longrightarrow> emp b \<longleftrightarrow> contents b = []"
begin

lemma run_refines:
  "inv b \<Longrightarrow> \<exists>b'. fifo_run put get emp b ops = Some (fst (fifo_spec cap (contents b) ops), b') \<and> inv b' \<and>
                   contents b' = snd (fifo_spec cap (contents b) ops)"
proof (induction ops arbitrary: b)
  case (Cons oper ops)
  show ?case
  proof (cases oper)
    case (FPut ys)
    show ?thesis
    proof (cases "length (contents b) + length ys \<le> cap")
      case True
      from put_room[OF Cons.prems True] Cons.IH FPut True show ?thesis by fastforce
    next
      case False
      then have "cap < length (contents b) + length ys" by simp
      from put_refused[OF Cons.prems this] Cons.IH[OF Cons.prems] FPut False show ?thesis by auto
    qed
  next
    case FGet
    show ?thesis
    proof (cases "contents b")
      case Nil
      with Cons.IH[OF Cons.prems] emp_iff[OF Cons.prems] FGet show ?thesis by auto
    next
      case q: (Cons c cs)
      obtain b' where b': "get b = Some (c, b')" "inv b'" "contents b' = cs"
        using get_head[OF Cons.prems q] by blast
      from Cons.IH[OF b'(2)] b' emp_iff[OF Cons.prems] q FGet show ?thesis
        by (auto split: prod.splits)
    qed
  qed
qed simp

text \<open>What fits comes out again, unchanged and in order.\<close>

lemma spec_gets: "fifo_spec cap q (replicate (length q) FGet) = (q, [])"
  by (induction q) auto

lemma put_get_roundtrip:
  assumes "inv b" "contents b = []" "length ys \<le> cap"
  shows "\<exists>b'. fifo_run put get emp b (FPut ys # replicate (length ys) FGet) = Some (ys, b') \<and> contents b' = []"
proof -
  have "fifo_spec cap [] (FPut ys # replicate (length ys) FGet) = (ys, [])"
    using assms(3) spec_gets by simp
  with run_refines[OF assms(1), of "FPut ys # replicate (length ys) FGet"] assms(2) show ?thesis
    by (auto simp del: fifo_spec.simps fifo_run.simps)
qed

end

subsection \<open>A set of monitored descriptors\<close>

text \<open>
  The part of Poller.h that all back ends share: \<open>mon s fd\<close> is the client and the event mask of a
  monitored descriptor. A back end keeps of a mask what \<open>norm\<close> leaves, and takes descriptors that
  satisfy \<open>okfd\<close>. Sequences of the five calls are run beside a plain map; \<open>allowed\<close> is the
  discipline of the callers: no descriptor is added twice, none is used after \<open>del\<close>.
\<close>

datatype ('f, 'c, 'm) poll_op = PAdd 'f 'c 'm | PDel 'f | PSet 'f 'm | POr 'f 'm | PAnd 'f 'm

fun poll_allowed :: "('f \<Rightarrow> bool) \<Rightarrow> ('f \<Rightarrow> ('c \<times> 'm) option) \<Rightarrow> ('f, 'c, 'm) poll_op \<Rightarrow> bool" where
  "poll_allowed okfd M (PAdd f c m) = (okfd f \<and> M f = None)"
| "poll_allowed okfd M (PDel f) = (M f \<noteq> None)"
| "poll_allowed okfd M (PSet f m) = (M f \<noteq> None)"
| "poll_allowed okfd M (POr f m) = (M f \<noteq> None)"
| "poll_allowed okfd M (PAnd f m) = (M f \<noteq> None)"

fun poll_spec ::
  "('m \<Rightarrow> 'm) \<Rightarrow> ('m \<Rightarrow> 'm \<Rightarrow> 'm) \<Rightarrow> ('m \<Rightarrow> 'm \<Rightarrow> 'm) \<Rightarrow> ('f \<Rightarrow> ('c \<times> 'm) option) \<Rightarrow>
   ('f, 'c, 'm) poll_op \<Rightarrow> ('f \<Rightarrow> ('c \<times> 'm) option)" where
  "poll_spec norm bor band M (PAdd f c m) = M(f \<mapsto> (c, norm m))"
| "poll_spec norm bor band M (PDel f) = M(f := None)"
| "poll_spec norm bor band M (PSet f m) = M(f := map_option (\<lambda>(c, k). (c, norm m)) (M f))"
| "poll_spec norm bor band M (POr f m) = M(f := map_option (\<lambda>(c, k). (c, norm (bor k m))) (M f))"
| "poll_spec norm bor band M (PAnd f m) = M(f := map_option (\<lambda>(c, k). (c, norm (band k m))) (M f))"

fun poll_all_allowed where
  "poll_all_allowed okfd norm bor band M [] = True"
| "poll_all_allowed okfd norm bor band M (oper # ops) =
     (poll_allowed okfd M oper \<and> poll_all_allowed okfd norm bor band (poll_spec norm bor band M oper) ops)"

fun poll_step ::
  "('s \<Rightarrow> 'f \<Rightarrow> 'c \<Rightarrow> 'm \<Rightarrow> (rc \<times> 's) option) \<Rightarrow> ('s \<Rightarrow> 'f \<Rightarrow> (rc \<times> 's) option) \<Rightarrow>
   ('s \<Rightarrow> 'f \<Rightarrow> 'm \<Rightarrow> (rc \<times> 's) option) \<Rightarrow> ('s \<Rightarrow> 'f \<Rightarrow> 'm \<Rightarrow> (rc \<times> 's) option) \<Rightarrow>
   ('s \<Rightarrow> 'f \<Rightarrow> 'm \<Rightarrow> (rc \<times> 's) option) \<Rightarrow> 's \<Rightarrow> ('f, 'c, 'm) poll_op \<Rightarrow> (rc \<times> 's) option" where
  "poll_step add del setm orm andm s (PAdd f c m) = add s f c m"
| "poll_step add del setm orm andm s (PDel f) = del s f"
| "poll_step add del setm orm andm s (PSet f m) = setm s f m"
| "poll_step add del setm orm andm s (POr f m) = orm s f m"
| "poll_step add del setm orm andm s (PAnd f m) = andm s f m"

fun poll_run where
  "poll_run step s [] = Some s"
| "poll_run step s (oper # ops) = do { (r, s') \<leftarrow> step s oper; assertion (r = OK); poll_run step s' ops }"

locale monitor =
  fixes add :: "'s \<Rightarrow> 'f \<Rightarrow> 'c \<Rightarrow> 'm \<Rightarrow> (rc \<times> 's) option"
    and del :: "'s \<Rightarrow> 'f \<Rightarrow> (rc \<times> 's) option"
    and setm :: "'s \<Rightarrow> 'f \<Rightarrow> 'm \<Rightarrow> (rc \<times> 's) option"
    and orm :: "'s \<Rightarrow> 'f \<Rightarrow> 'm \<Rightarrow> (rc \<times> 's) option"
    and andm :: "'s \<Rightarrow> 'f \<Rightarrow> 'm \<Rightarrow> (rc \<times> 's) option"
    and mon :: "'s \<Rightarrow> 'f \<Rightarrow> ('c \<times> 'm) option" and inv :: "'s \<Rightarrow> bool" and okfd :: "'f \<Rightarrow> bool"
    and norm :: "'m \<Rightarrow> 'm" and bor :: "'m \<Rightarrow> 'm \<Rightarrow> 'm" and band :: "'m \<Rightarrow> 'm \<Rightarrow> 'm"
  assumes add_law: "inv s \<Longrightarrow> okfd f \<Longrightarrow> mon s f = None \<Longrightarrow>
      \<exists>s'. add s f c m = Some (OK, s') \<and> inv s' \<and> mon s' = (mon s)(f \<mapsto> (c, norm m))"
    and del_law: "inv s \<Longrightarrow> mon s f = Some (c, k) \<Longrightarrow>
      \<exists>s'. del s f = Some (OK, s') \<and> inv s' \<and> mon s' = (mon s)(f := None)"
    and set_law: "inv s \<Longrightarrow> mon s f = Some (c, k) \<Longrightarrow>
      \<exists>s'. setm s f m = Some (OK, s') \<and> inv s' \<and> mon s' = (mon s)(f \<mapsto> (c, norm m))"
    and or_law: "inv s \<Longrightarrow> mon s f = Some (c, k) \<Longrightarrow>
      \<exists>s'. orm s f m = Some (OK, s') \<and> inv s' \<and> mon s' = (mon s)(f \<mapsto> (c, norm (bor k m)))"
    and and_law: "inv s \<Longrightarrow> mon s f = Some (c, k) \<Longrightarrow>
      \<exists>s'. andm s f m = Some (OK, s') \<and> inv s' \<and> mon s' = (mon s)(f \<mapsto> (c, norm (band k m)))"
begin

lemma step_refines:
  assumes "inv s" "poll_allowed okfd (mon s) oper"
  shows "\<exists>s'. poll_step add del setm orm andm s oper = Some (OK, s') \<and> inv s' \<and>
              mon s' = poll_spec norm bor band (mon s) oper"
proof (cases oper)
  case (PAdd f c m)
  with add_law[OF assms(1), of f c m] assms(2) show ?thesis by simp
next
  case (PDel f)
  with del_law[OF assms(1), of f] assms(2) show ?thesis by auto
next
  case (PSet f m)
  with set_law[OF assms(1), of f _ _ m] assms(2) show ?thesis by (auto simp: fun_eq_iff)
next
  case (POr f m)
  with or_law[OF assms(1), of f _ _ m] assms(2) show ?thesis by (auto simp: fun_eq_iff)
next
  case (PAnd f m)
  with and_law[OF assms(1), of f _ _ m] assms(2) show ?thesis by (auto simp: fun_eq_iff)
qed

text \<open>Any disciplined sequence of calls succeeds and does to the back end what it does to the map.\<close>

lemma run_refines:
  "inv s \<Longrightarrow> poll_all_allowed okfd norm bor band (mon s) ops \<Longrightarrow>
   \<exists>s'. poll_run (poll_step add del setm orm andm) s ops = Some s' \<and> inv s' \<and>
        mon s' = foldl (poll_spec norm bor band) (mon s) ops"
proof (induction ops arbitrary: s)
  case (Cons oper ops)
  then obtain s1 where s1: "poll_step add del setm orm andm s oper = Some (OK, s1)" "inv s1"
    "mon s1 = poll_spec norm bor band (mon s) oper"
    using step_refines[of s oper] by auto
  with Cons.IH[OF s1(2)] Cons.prems(2) show ?case by simp
qed simp

end

subsection \<open>Delivery of events\<close>

text \<open>
  \<open>getNextEvent\<close> of Poller.h: \<open>ready s\<close> lists the events that are still to be delivered.
\<close>

fun next_events :: "('s \<Rightarrow> (rc \<times> 'e option \<times> 's) option) \<Rightarrow> nat \<Rightarrow> 's \<Rightarrow> ('e list \<times> 's) option" where
  "next_events nxt 0 s = Some ([], s)"
| "next_events nxt (Suc n) s = do {
     (r, e, s') \<leftarrow> nxt s;
     (case e of None \<Rightarrow> Some ([], s')
      | Some ev \<Rightarrow> do { (es, s'') \<leftarrow> next_events nxt n s'; Some (ev # es, s'') })
   }"

locale event_queue =
  fixes nxt :: "'s \<Rightarrow> (rc \<times> 'e option \<times> 's) option"
    and ready :: "'s \<Rightarrow> 'e list" and inv :: "'s \<Rightarrow> bool"
  assumes next_law: "inv s \<Longrightarrow> ready s = e # es \<Longrightarrow>
      \<exists>s'. nxt s = Some (OK, Some e, s') \<and> inv s' \<and> ready s' = es"
    and next_none: "inv s \<Longrightarrow> ready s = [] \<Longrightarrow>
      \<exists>s'. nxt s = Some (Fail EWOULDBLOCK, None, s') \<and> inv s' \<and> ready s' = []"
begin

lemma drain:
  "inv s \<Longrightarrow> length (ready s) < n \<Longrightarrow>
   \<exists>s'. next_events nxt n s = Some (ready s, s') \<and> inv s' \<and> ready s' = []"
proof (induction n arbitrary: s)
  case (Suc n)
  show ?case
  proof (cases "ready s")
    case Nil
    with next_none[OF Suc.prems(1)] show ?thesis by auto
  next
    case (Cons e es)
    obtain s1 where s1: "nxt s = Some (OK, Some e, s1)" "inv s1" "ready s1 = es"
      using next_law[OF Suc.prems(1) Cons] by blast
    with Suc.IH[OF s1(2)] Suc.prems(2) Cons show ?thesis by auto
  qed
qed simp

end

text \<open>
  Handlers delete descriptors between two deliveries. \<open>dq_spec\<close> says what a caller should see then: an
  event of a descriptor deleted meanwhile is never delivered, every other event is, once and in order.
\<close>

datatype 'f disp_op = DNext | DDel 'f

fun dq_spec :: "('e \<Rightarrow> 'f) \<Rightarrow> 'e list \<Rightarrow> 'f disp_op list \<Rightarrow> 'e option list" where
  "dq_spec key q [] = []"
| "dq_spec key [] (DNext # ops) = None # dq_spec key [] ops"
| "dq_spec key (e # q) (DNext # ops) = Some e # dq_spec key q ops"
| "dq_spec key q (DDel f # ops) = dq_spec key (filter (\<lambda>e. key e \<noteq> f) q) ops"

fun dq_allowed :: "'f set \<Rightarrow> 'f disp_op list \<Rightarrow> bool" where
  "dq_allowed D [] = True"
| "dq_allowed D (DNext # ops) = dq_allowed D ops"
| "dq_allowed D (DDel f # ops) = (f \<in> D \<and> dq_allowed (D - {f}) ops)"

fun dq_run ::
  "('s \<Rightarrow> (rc \<times> 'e option \<times> 's) option) \<Rightarrow> ('s \<Rightarrow> 'f \<Rightarrow> (rc \<times> 's) option) \<Rightarrow> 's \<Rightarrow> 'f disp_op list \<Rightarrow> 'e option list option" where
  "dq_run nxt del s [] = Some []"
| "dq_run nxt del s (DNext # ops) = do { (r, e, s') \<leftarrow> nxt s; es \<leftarrow> dq_run nxt del s' ops; Some (e # es) }"
| "dq_run nxt del s (DDel f # ops) = do { (r, s') \<leftarrow> del s f; assertion (r = OK); dq_run nxt del s' ops }"

locale safe_event_queue = event_queue nxt ready inv
  for nxt :: "'s \<Rightarrow> (rc \<times> 'e option \<times> 's) option" and ready :: "'s \<Rightarrow> 'e list" and inv :: "'s \<Rightarrow> bool" +
  fixes del :: "'s \<Rightarrow> 'f \<Rightarrow> (rc \<times> 's) option" and watched :: "'s \<Rightarrow> 'f set" and key :: "'e \<Rightarrow> 'f"
  assumes del_ready: "inv s \<Longrightarrow> f \<in> watched s \<Longrightarrow>
      \<exists>s'. del s f = Some (OK, s') \<and> inv s' \<and> watched s' = watched s - {f} \<and>
           ready s' = filter (\<lambda>e. key e \<noteq> f) (ready s)"
    and next_watched: "inv s \<Longrightarrow> nxt s = Some (r, e, s') \<Longrightarrow> watched s' = watched s"
begin

lemma run_delivers:
  "inv s \<Longrightarrow> dq_allowed (watched s) ops \<Longrightarrow> dq_run nxt del s ops = Some (dq_spec key (ready s) ops)"
proof (induction ops arbitrary: s)
  case (Cons oper ops)
  show ?case
  proof (cases oper)
    case DNext
    show ?thesis
    proof (cases "ready s")
      case Nil
      then obtain s1 where s1: "nxt s = Some (Fail EWOULDBLOCK, None, s1)" "inv s1" "ready s1 = []"
        using next_none[OF Cons.prems(1)] by blast
      with Cons.IH[OF s1(2)] Cons.prems next_watched[OF Cons.prems(1) s1(1)] Nil DNext show ?thesis by simp
    next
      case ev: (Cons e es)
      then obtain s1 where s1: "nxt s = Some (OK, Some e, s1)" "inv s1" "ready s1 = es"
        using next_law[OF Cons.prems(1)] by blast
      with Cons.IH[OF s1(2)] Cons.prems next_watched[OF Cons.prems(1) s1(1)] ev DNext show ?thesis by simp
    qed
  next
    case (DDel f)
    then obtain s1 where s1: "del s f = Some (OK, s1)" "inv s1" "watched s1 = watched s - {f}"
      "ready s1 = filter (\<lambda>e. key e \<noteq> f) (ready s)"
      using del_ready[OF Cons.prems(1), of f] Cons.prems(2) by auto
    with Cons.IH[OF s1(2)] Cons.prems(2) DDel show ?thesis by simp
  qed
qed simp

end

text \<open>
  The dispatch loop: handlers \<open>h\<close> that leave the poller alone are called on the events in order, and the
  descriptors whose handler returns an error are deleted. \<open>disp_all\<close> is the list of those events and the
  final world.
\<close>

fun disp_all :: "('e \<Rightarrow> 'x \<Rightarrow> int \<times> 'x) \<Rightarrow> 'e list \<Rightarrow> 'x \<Rightarrow> 'e list \<times> 'x" where
  "disp_all h [] x = ([], x)"
| "disp_all h (e # es) x =
     (case h e x of (err, x1) \<Rightarrow> (case disp_all h es x1 of (bad, x2) \<Rightarrow> (if err \<noteq> 0 then e # bad else bad, x2)))"

locale dispatcher = event_queue nxt ready inv
  for nxt :: "'s \<Rightarrow> (rc \<times> 'e option \<times> 's) option" and ready :: "'s \<Rightarrow> 'e list" and inv :: "'s \<Rightarrow> bool" +
  fixes del :: "'s \<Rightarrow> 'f \<Rightarrow> (rc \<times> 's) option" and mon :: "'s \<Rightarrow> 'f \<Rightarrow> 'v option" and key :: "'e \<Rightarrow> 'f"
    and loop :: "('e \<Rightarrow> 'x \<Rightarrow> int \<times> 'x) \<Rightarrow> 's \<times> 'x \<Rightarrow> ('s \<times> 'x) option"
  assumes next_mon: "inv s \<Longrightarrow> nxt s = Some (r, ev, s1) \<Longrightarrow> mon s1 = mon s"
    and del_current: "inv s \<Longrightarrow> ready s = e # es \<Longrightarrow> nxt s = Some (OK, Some e, s1) \<Longrightarrow>
      \<exists>s2. del s1 (key e) = Some (OK, s2) \<and> inv s2 \<and> ready s2 = es \<and> mon s2 = (mon s1)(key e := None)"
    and loop_step: "inv s \<Longrightarrow> ready s = e # es \<Longrightarrow> nxt s = Some (OK, Some e, s1) \<Longrightarrow>
      loop h (s, x) = (case h e x of (err, x1) \<Rightarrow>
        if err \<noteq> 0 then do { (q, s2) \<leftarrow> del s1 (key e); loop h (s2, x1) } else loop h (s1, x1))"
    and loop_end: "inv s \<Longrightarrow> ready s = [] \<Longrightarrow> \<exists>s'. loop h (s, x) = Some (s', x) \<and> inv s' \<and> mon s' = mon s"
begin

lemma loop_dispatches:
  "inv s \<Longrightarrow> disp_all h (ready s) x = (bad, x') \<Longrightarrow>
   \<exists>s'. loop h (s, x) = Some (s', x') \<and> inv s' \<and> mon s' = mon s |` (- (key ` set bad))"
proof (induction "ready s" arbitrary: s x bad)
  case Nil
  from loop_end[OF Nil.prems(1) Nil.hyps[symmetric]] Nil show ?case by fastforce
next
  case (Cons e es)
  note r = Cons.hyps(2)[symmetric]
  obtain s1 where s1: "nxt s = Some (OK, Some e, s1)" "inv s1" "ready s1 = es" using next_law[OF Cons.prems(1) r] by blast
  obtain s2 where s2: "del s1 (key e) = Some (OK, s2)" "inv s2" "ready s2 = es" "mon s2 = (mon s1)(key e := None)"
    using del_current[OF Cons.prems(1) r s1(1)] by blast
  obtain err x1 where h: "h e x = (err, x1)" by fastforce
  obtain bad1 where d: "disp_all h es x1 = (bad1, x')" "bad = (if err \<noteq> 0 then e # bad1 else bad1)"
    using Cons.prems(2) h r by (auto split: prod.splits)
  have m: "mon s1 = mon s" by (rule next_mon[OF Cons.prems(1) s1(1)])
  have step: "loop h (s, x) = (if err \<noteq> 0 then loop h (s2, x1) else loop h (s1, x1))"
    using loop_step[OF Cons.prems(1) r s1(1), of h x] h s2(1) by simp
  show ?case
  proof (cases "err \<noteq> 0")
    case True
    obtain s' where "loop h (s2, x1) = Some (s', x')" "inv s'" "mon s' = mon s2 |` (- (key ` set bad1))"
      using Cons.hyps(1)[OF s2(3)[symmetric] s2(2)] d(1) s2(3) by auto
    moreover have "(mon s)(key e := None) |` (- (key ` set bad1)) = mon s |` (- (key ` set bad))"
      using d(2) True by (auto simp: restrict_map_def fun_eq_iff)
    ultimately show ?thesis using step True s2(4) m by simp
  next
    case False
    obtain s' where "loop h (s1, x1) = Some (s', x')" "inv s'" "mon s' = mon s1 |` (- (key ` set bad1))"
      using Cons.hyps(1)[OF s1(3)[symmetric] s1(2)] d(1) s1(3) by auto
    with step False d(2) m show ?thesis by simp
  qed
qed

end

subsection \<open>A server as its controllers see it\<close>

text \<open>The requests of a session, served one after the other, and the sessions that a machine of phases allows.\<close>

inductive run_of :: "('r \<Rightarrow> 's \<Rightarrow> 's \<Rightarrow> bool) \<Rightarrow> 's \<Rightarrow> 'r list \<Rightarrow> 's \<Rightarrow> bool" for serves where
  run_nil: "run_of serves s [] s"
| run_cons: "serves r s s1 \<Longrightarrow> run_of serves s1 rs s2 \<Longrightarrow> run_of serves s (r # rs) s2"

inductive_simps run_of_simps [simp]: "run_of serves s [] s'" "run_of serves s (r # rs) s'"

fun session_ok :: "('r \<Rightarrow> 'p \<Rightarrow> 'p) \<Rightarrow> ('r \<Rightarrow> 'p \<Rightarrow> bool) \<Rightarrow> 'p \<Rightarrow> 'r list \<Rightarrow> 'p \<Rightarrow> bool" where
  "session_ok phase fits bad [] p = True"
| "session_ok phase fits bad (r # rs) p = (fits r p \<and> phase r p \<noteq> bad \<and> session_ok phase fits bad rs (phase r p))"

text \<open>
  The operations of CorbaPlatoon.idl. \<open>sim p s\<close> relates the server to its phase; a request that leads to
  the phase \<open>bad\<close> crashes it.
\<close>

locale phase_server =
  fixes serves :: "'r \<Rightarrow> 's \<Rightarrow> 's \<Rightarrow> bool" and crashes :: "'r \<Rightarrow> 's \<Rightarrow> bool"
    and sim :: "'p \<Rightarrow> 's \<Rightarrow> bool" and phase :: "'r \<Rightarrow> 'p \<Rightarrow> 'p" and fits :: "'r \<Rightarrow> 'p \<Rightarrow> bool" and bad :: 'p
  assumes serve_law: "sim p s \<Longrightarrow> fits r p \<Longrightarrow> phase r p \<noteq> bad \<Longrightarrow> \<exists>s'. serves r s s' \<and> sim (phase r p) s'"
    and serve_once: "serves r s s1 \<Longrightarrow> serves r s s2 \<Longrightarrow> s1 = s2"
    and crash_law: "sim p s \<Longrightarrow> fits r p \<Longrightarrow> phase r p = bad \<Longrightarrow> crashes r s"
begin

lemma session:
  "sim p s \<Longrightarrow> session_ok phase fits bad rs p \<Longrightarrow> \<exists>s'. run_of serves s rs s' \<and> sim (fold phase rs p) s'"
proof (induction rs arbitrary: p s)
  case (Cons r rs)
  then obtain s1 where s1: "serves r s s1" "sim (phase r p) s1" using serve_law[OF Cons.prems(1), of r] by auto
  moreover obtain s2 where "run_of serves s1 rs s2" "sim (fold phase rs (phase r p)) s2"
    using Cons.IH[OF s1(2)] Cons.prems(2) by auto
  ultimately show ?case by auto
qed simp

lemma run_once: "run_of serves s rs s1 \<Longrightarrow> run_of serves s rs s2 \<Longrightarrow> s1 = s2"
  by (induction rs arbitrary: s) (use serve_once in \<open>force+\<close>)

lemma session_end:
  assumes "sim p s" "session_ok phase fits bad rs p" "run_of serves s rs s'"
  shows "sim (fold phase rs p) s'" "fits r (fold phase rs p) \<Longrightarrow> phase r (fold phase rs p) = bad \<Longrightarrow> crashes r s'"
proof -
  show *: "sim (fold phase rs p) s'" using session[OF assms(1,2)] run_once[OF assms(3)] by blast
  show "fits r (fold phase rs p) \<Longrightarrow> phase r (fold phase rs p) = bad \<Longrightarrow> crashes r s'" by (rule crash_law[OF *])
qed

end

end
