(* ===== verification/Eclock.thy ===== *)
theory Eclock
  imports Prelude
begin

text \<open>
  The clock of eclock.h. \<open>clock_t\<close> is a \<open>long\<close>, whose width depends on the platform: the
  development keeps it as a parameter \<open>'w\<close> (32 on ILP32 systems, 64 on LP64 ones). Subtraction
  wraps, as two's complement \<open>long\<close> subtraction does on every platform the program builds on.
\<close>

type_synonym 'w clock = "'w word"

definition eclock_HERTZ :: int where
  "eclock_HERTZ = 10000"

definition eclock_TICKSPERUSEC :: int where
  "eclock_TICKSPERUSEC = 100"

text \<open>
  \<open>eclock()\<close> at the time of day \<open>tv_sec, tv_usec\<close>: the sum is cast to (32-bit) \<open>int\<close> and widened
  to \<open>clock_t\<close> where it is used.
\<close>

definition eclock :: "int \<Rightarrow> int \<Rightarrow> 'w::len clock" where
  "eclock tv_sec tv_usec =
     scast (word_of_int (tv_sec * eclock_HERTZ + tv_usec div eclock_TICKSPERUSEC) :: 32 word)"

definition eclock_after :: "'w::len clock \<Rightarrow> 'w clock \<Rightarrow> bool" where
  "eclock_after a b = (0 < sint (a - b))"

definition eclock_before :: "'w::len clock \<Rightarrow> 'w clock \<Rightarrow> bool" where
  "eclock_before a b = (sint (a - b) < 0)"

subsection \<open>Half-range windows\<close>

text \<open>
  The header's assumption: all compared times lie within half the range of the type. A window is
  given by its start \<open>b\<close>; \<open>ticks b t\<close> is the distance of \<open>t\<close> from the start.
\<close>

definition ticks :: "'w::len clock \<Rightarrow> 'w clock \<Rightarrow> nat" where
  "ticks b t = unat (t - b)"

definition in_window :: "'w::len clock \<Rightarrow> 'w clock \<Rightarrow> bool" where
  "in_window b t = (ticks b t < 2 ^ (LENGTH('w) - 1))"

lemma sint_diff_ticks:
  fixes x y b :: "'w::len clock"
  assumes "in_window b x" "in_window b y"
  shows "sint (x - y) = int (ticks b x) - int (ticks b y)"
proof -
  have "x - y = (x - b) - (y - b)" by simp
  also have "\<dots> = of_int (int (ticks b x) - int (ticks b y))"
    by (simp add: ticks_def)
  finally have eq: "x - y = of_int (int (ticks b x) - int (ticks b y))" .
  have "int (ticks b x) < 2 ^ (LENGTH('w) - 1)" "int (ticks b y) < 2 ^ (LENGTH('w) - 1)"
    using assms by (simp_all add: in_window_def of_nat_less_iff [symmetric] del: of_nat_less_iff)
  then show ?thesis
    unfolding eq sint_sbintrunc' by (intro signed_take_bit_int_eq_self) linarith+
qed

lemma eclock_after_ticks:
  "in_window b x \<Longrightarrow> in_window b y \<Longrightarrow> eclock_after x y \<longleftrightarrow> ticks b y < ticks b x"
  by (simp add: eclock_after_def sint_diff_ticks)

lemma eclock_before_ticks:
  "in_window b x \<Longrightarrow> in_window b y \<Longrightarrow> eclock_before x y \<longleftrightarrow> ticks b x < ticks b y"
  by (simp add: eclock_before_def sint_diff_ticks)

lemma ticks_inject: "ticks b x = ticks b y \<longleftrightarrow> x = y"
  unfolding ticks_def by (metis diff_add_cancel word_unat_eq_iff)

lemma eclock_after_irrefl [simp]: "\<not> eclock_after x x"
  by (simp add: eclock_after_def)

subsection \<open>Properties\<close>

text \<open>
  Within half the range of the type, \<open>eclock_after\<close> is a strict total order: it is irreflexive,
  transitive and any two different times are ordered one way, also across a wrap-around.
\<close>

theorem eclock_after_order:
  assumes "in_window b x" "in_window b y" "in_window b z"
  shows "\<not> eclock_after x x \<and> (eclock_after x y \<or> x = y \<or> eclock_after y x) \<and>
         (eclock_after x y \<and> eclock_after y z \<longrightarrow> eclock_after x z) \<and>
         (eclock_after x y \<longleftrightarrow> eclock_before y x)"
  using assms ticks_inject[of b x y] by (auto simp: eclock_after_ticks eclock_before_ticks)

theorem eclock_after_order_witness:
  "(eclock_after (5 :: 32 word) (- 5) \<or> (5 :: 32 word) = - 5 \<or> eclock_after (- 5) (5 :: 32 word)) \<and> \<not> eclock_after (5 :: 32 word) 5"
proof -
  have w: "in_window (- 10) (5 :: 32 word)" "in_window (- 10) (- 5 :: 32 word)"
    by (simp_all add: in_window_def ticks_def)
  from eclock_after_order[OF w w(1)] show ?thesis by blast
qed

lemma eclock_32: "(eclock sec usec :: 32 clock) = word_of_int (sec * eclock_HERTZ + usec div eclock_TICKSPERUSEC)"
  by (simp add: eclock_def scast_id)

text \<open>
  With a 32-bit \<open>clock_t\<close> the clock is monotone over every interval of less than \<open>2^31\<close> ticks (about
  two and a half days), whenever it is read: the later reading is after the earlier one.
\<close>

theorem eclock_monotone_32:
  assumes "0 < (sec2 * eclock_HERTZ + usec2 div eclock_TICKSPERUSEC) - (sec1 * eclock_HERTZ + usec1 div eclock_TICKSPERUSEC)"
    "(sec2 * eclock_HERTZ + usec2 div eclock_TICKSPERUSEC) - (sec1 * eclock_HERTZ + usec1 div eclock_TICKSPERUSEC) < 2 ^ 31"
  shows "eclock_after (eclock sec2 usec2 :: 32 clock) (eclock sec1 usec1)"
proof -
  let ?d = "(sec2 * eclock_HERTZ + usec2 div eclock_TICKSPERUSEC) - (sec1 * eclock_HERTZ + usec1 div eclock_TICKSPERUSEC)"
  have "(eclock sec2 usec2 :: 32 clock) - eclock sec1 usec1 = word_of_int ?d" by (simp add: eclock_32)
  moreover have "sint (word_of_int ?d :: 32 word) = ?d"
    using assms unfolding sint_sbintrunc' by (intro signed_take_bit_int_eq_self) auto
  ultimately show ?thesis using assms(1) by (simp add: eclock_after_def)
qed

theorem eclock_monotone_32_witness: "eclock_after (eclock 214749 0 :: 32 clock) (eclock 214748 0)"
  by (rule eclock_monotone_32) (simp_all add: eclock_HERTZ_def)

lemma word_of_int_mod_32: "(word_of_int n :: 32 word) = word_of_int (n mod 2 ^ 32)"
  by (simp add: word_of_int_eq_iff take_bit_eq_mod)

text \<open>
  With a 64-bit \<open>clock_t\<close> the guarantee fails: \<open>eclock()\<close> is cast to \<open>int\<close>, so when the 32-bit count
  wraps (every five days) the next reading is \<open>2^32\<close> ticks in the past and is before every earlier
  one, although the two are one tick apart.
\<close>

theorem eclock_wraps_64:
  assumes "(sec * eclock_HERTZ + usec div eclock_TICKSPERUSEC) mod 2 ^ 32 = 2 ^ 31 - 1"
    "sec' * eclock_HERTZ + usec' div eclock_TICKSPERUSEC = sec * eclock_HERTZ + usec div eclock_TICKSPERUSEC + 1"
  shows "eclock_before (eclock sec' usec' :: 64 clock) (eclock sec usec)"
proof -
  let ?n = "sec * eclock_HERTZ + usec div eclock_TICKSPERUSEC"
  have n: "(word_of_int ?n :: 32 word) = 0x7FFFFFFF"
    using word_of_int_mod_32[of ?n] unfolding assms(1) by simp
  have "(word_of_int (?n + 1) :: 32 word) = word_of_int ?n + 1" by simp
  then have n1: "(word_of_int (?n + 1) :: 32 word) = 0x80000000" using n by simp
  show ?thesis unfolding eclock_before_def eclock_def assms(2) n n1 by simp
qed

theorem eclock_wraps_64_witness: "eclock_before (eclock 214748 364800 :: 64 clock) (eclock 214748 364700)"
  by (rule eclock_wraps_64) (simp_all add: eclock_HERTZ_def eclock_TICKSPERUSEC_def)

end
