(* ===== verification/Heap_order.thy ===== *)
theory Heap_order
  imports Main
begin

text \<open>
  The order-theoretic part of the scheduler's heap, on the keys alone: \<open>k i\<close> is the key stored at
  position \<open>i\<close> of a 1-based implicit tree with \<open>n\<close> nodes. \<open>heap k n\<close> is the heap property,
  \<open>heap_up k n j\<close> the state in the middle of a sift-up (position \<open>j\<close> may be smaller than its
  parent), \<open>heap_down k n j\<close> the state in the middle of a sift-down (position \<open>j\<close> may be greater
  than its children).
\<close>

definition heap :: "(nat \<Rightarrow> nat) \<Rightarrow> nat \<Rightarrow> bool" where
  "heap k n = (\<forall>i \<in> {2..n}. k (i div 2) \<le> k i)"

definition heap_up :: "(nat \<Rightarrow> nat) \<Rightarrow> nat \<Rightarrow> nat \<Rightarrow> bool" where
  "heap_up k n j = ((\<forall>i \<in> {2..n}. i \<noteq> j \<longrightarrow> k (i div 2) \<le> k i) \<and>
                    (\<forall>i \<in> {2..n}. i div 2 = j \<and> 2 \<le> j \<longrightarrow> k (j div 2) \<le> k i))"

definition heap_down :: "(nat \<Rightarrow> nat) \<Rightarrow> nat \<Rightarrow> nat \<Rightarrow> bool" where
  "heap_down k n j = ((\<forall>i \<in> {2..n}. i div 2 \<noteq> j \<longrightarrow> k (i div 2) \<le> k i) \<and>
                      (\<forall>i \<in> {2..n}. i div 2 = j \<and> 2 \<le> j \<longrightarrow> k (j div 2) \<le> k i))"

definition swapped :: "(nat \<Rightarrow> nat) \<Rightarrow> nat \<Rightarrow> nat \<Rightarrow> nat \<Rightarrow> nat" where
  "swapped k p i = k(p := k i, i := k p)"

lemma heapD: "heap k n \<Longrightarrow> 2 \<le> i \<Longrightarrow> i \<le> n \<Longrightarrow> k (i div 2) \<le> k i"
  by (simp add: heap_def)

lemma heap_mono: "heap k n \<Longrightarrow> m \<le> n \<Longrightarrow> heap k m"
  by (auto simp: heap_def)

lemma heap_cong:
  assumes "\<And>i. 1 \<le> i \<Longrightarrow> i \<le> n \<Longrightarrow> k i = k' i"
  shows "heap k n = heap k' n"
  unfolding heap_def
proof (intro ball_cong refl)
  fix i assume "i \<in> {2..n}"
  then have "1 \<le> i div 2" "i div 2 \<le> n" "1 \<le> i" "i \<le> n" by auto
  then show "(k (i div 2) \<le> k i) = (k' (i div 2) \<le> k' i)" using assms by simp
qed

text \<open>The root holds the least key.\<close>

lemma heap_root_least: "heap k n \<Longrightarrow> 1 \<le> i \<Longrightarrow> i \<le> n \<Longrightarrow> k 1 \<le> k i"
proof (induction i rule: less_induct)
  case (less i)
  show ?case
  proof (cases "i = 1")
    case False
    with less.prems have "1 \<le> i div 2" "i div 2 < i" "i div 2 \<le> n" by auto
    with less.IH less.prems have "k 1 \<le> k (i div 2)" by blast
    also have "\<dots> \<le> k i" using less.prems False by (intro heapD) auto
    finally show ?thesis .
  qed simp
qed

subsection \<open>Sifting up\<close>

lemma heap_up_last: "heap k n \<Longrightarrow> (\<And>i. i \<le> n \<Longrightarrow> k' i = k i) \<Longrightarrow> heap_up k' (Suc n) (Suc n)"
  by (auto simp: heap_up_def heap_def)

lemma heap_up_root: "heap_up k n j \<Longrightarrow> j \<le> 1 \<Longrightarrow> heap k n"
  by (auto simp: heap_up_def heap_def)

lemma heap_up_done: "heap_up k n j \<Longrightarrow> k (j div 2) \<le> k j \<Longrightarrow> heap k n"
  by (auto simp: heap_up_def heap_def)

lemma heap_up_swap:
  assumes up: "heap_up k n j" and j: "2 \<le> j" "j \<le> n" and le: "k j \<le> k (j div 2)"
  shows "heap_up (swapped k (j div 2) j) n (j div 2)"
proof -
  let ?p = "j div 2"
  have p: "?p < j" "1 \<le> ?p" using j by auto
  have other: "k (i div 2) \<le> k i" if "2 \<le> i" "i \<le> n" "i \<noteq> j" for i
    using up that by (simp add: heap_up_def)
  have child: "k ?p \<le> k i" if "2 \<le> i" "i \<le> n" "i div 2 = j" for i
    using up that j by (auto simp: heap_up_def)
  have below: "k ?p \<le> k i" if "i \<le> n" "i div 2 = ?p" "i \<noteq> j" for i
    using other[of i] that p by fastforce
  have above: "k (?p div 2) \<le> k ?p" if "2 \<le> ?p"
    using other[of ?p] that p j by simp
  have "swapped k ?p j (i div 2) \<le> swapped k ?p j i" if i: "2 \<le> i" "i \<le> n" "i \<noteq> ?p" for i
  proof -
    consider "i = j" | "i \<noteq> j" "i div 2 = ?p" | "i div 2 = j" | "i \<noteq> j" "i div 2 \<noteq> ?p" "i div 2 \<noteq> j"
      by blast
    then show ?thesis
    proof cases
      case 1 with p le show ?thesis by (simp add: swapped_def)
    next
      case 2 with below[of i] i p le show ?thesis by (simp add: swapped_def)
    next
      case 3 with child[of i] i p j show ?thesis by (auto simp: swapped_def)
    next
      case 4 with other[of i] i show ?thesis by (simp add: swapped_def)
    qed
  qed
  moreover have "swapped k ?p j (?p div 2) \<le> swapped k ?p j i"
    if i: "2 \<le> i" "i \<le> n" "i div 2 = ?p" "2 \<le> ?p" for i
  proof -
    have "?p div 2 < ?p" "i \<noteq> ?p" using that p by auto
    then show ?thesis
      using above below[of i] i p by (cases "i = j") (auto simp: swapped_def)
  qed
  ultimately show ?thesis by (simp add: heap_up_def)
qed

subsection \<open>Sifting down\<close>

lemma heap_down_root: "heap k n \<Longrightarrow> (\<And>i. 2 \<le> i \<Longrightarrow> i \<le> n \<Longrightarrow> k' i = k i) \<Longrightarrow> heap_down k' n 1"
  by (auto simp: heap_down_def heap_def)

lemma heap_down_leaf: "heap_down k n j \<Longrightarrow> n < 2 * j \<Longrightarrow> heap k n"
  by (auto simp: heap_down_def heap_def)

lemma heap_down_done:
  "heap_down k n j \<Longrightarrow> (\<And>i. i \<le> n \<Longrightarrow> i div 2 = j \<Longrightarrow> k j \<le> k i) \<Longrightarrow> heap k n"
  by (auto simp: heap_down_def heap_def)

lemma heap_down_swap:
  assumes down: "heap_down k n j" and c: "2 \<le> c" "c \<le> n" "c div 2 = j"
    and least: "\<And>i. i \<le> n \<Longrightarrow> i div 2 = j \<Longrightarrow> k c \<le> k i" and le: "k c \<le> k j"
  shows "heap_down (swapped k c j) n c"
proof -
  have j: "1 \<le> j" "j < c" using c by auto
  have other: "k (i div 2) \<le> k i" if "2 \<le> i" "i \<le> n" "i div 2 \<noteq> j" for i
    using down that by (simp add: heap_down_def)
  have gp: "k (j div 2) \<le> k i" if "2 \<le> i" "i \<le> n" "i div 2 = j" "2 \<le> j" for i
    using down that by (auto simp: heap_down_def)
  have "swapped k c j (i div 2) \<le> swapped k c j i" if i: "2 \<le> i" "i \<le> n" "i div 2 \<noteq> c" for i
  proof -
    consider "i = j" | "i = c" | "i \<noteq> c" "i div 2 = j" | "i \<noteq> j" "i \<noteq> c" "i div 2 \<noteq> j" by blast
    then show ?thesis
    proof cases
      case 1
      then have "j div 2 \<noteq> j" "j div 2 \<noteq> c" using i j by auto
      with 1 gp[of c] c i show ?thesis by (simp add: swapped_def)
    next
      case 2 with c j le show ?thesis by (auto simp: swapped_def)
    next
      case 3 with least[of i] i j show ?thesis by (auto simp: swapped_def)
    next
      case 4 with other[of i] i show ?thesis by (simp add: swapped_def)
    qed
  qed
  moreover have "swapped k c j (c div 2) \<le> swapped k c j i" if i: "2 \<le> i" "i \<le> n" "i div 2 = c" for i
  proof -
    have "i \<noteq> j" "i \<noteq> c" using i j by auto
    with other[of i] i j c show ?thesis by (auto simp: swapped_def)
  qed
  ultimately show ?thesis by (simp add: heap_down_def)
qed

subsection \<open>Removing from the middle\<close>

text \<open>Position \<open>j\<close> holds a key that is being moved to the root and does not count.\<close>

definition heap_hole :: "(nat \<Rightarrow> nat) \<Rightarrow> nat \<Rightarrow> nat \<Rightarrow> bool" where
  "heap_hole k n j = ((\<forall>i \<in> {2..n}. i \<noteq> j \<and> i div 2 \<noteq> j \<longrightarrow> k (i div 2) \<le> k i) \<and>
                      (\<forall>i \<in> {2..n}. i div 2 = j \<and> 2 \<le> j \<longrightarrow> k (j div 2) \<le> k i))"

lemma heap_hole_start:
  assumes "heap k n" "1 \<le> j" "j \<le> n"
  shows "heap_hole k n j"
proof -
  have "k (j div 2) \<le> k i" if "2 \<le> i" "i \<le> n" "i div 2 = j" "2 \<le> j" for i
    using heapD[OF assms(1), of i] heapD[OF assms(1), of j] that assms by simp
  then show ?thesis using assms by (auto simp: heap_hole_def heap_def)
qed

lemma heap_hole_swap:
  assumes hole: "heap_hole k n j" and j: "2 \<le> j" "j \<le> n"
  shows "heap_hole (swapped k (j div 2) j) n (j div 2)"
proof -
  let ?p = "j div 2"
  have p: "?p < j" "1 \<le> ?p" using j by auto
  have other: "k (i div 2) \<le> k i" if "2 \<le> i" "i \<le> n" "i \<noteq> j" "i div 2 \<noteq> j" for i
    using hole that by (simp add: heap_hole_def)
  have child: "k ?p \<le> k i" if "2 \<le> i" "i \<le> n" "i div 2 = j" for i
    using hole that j by (auto simp: heap_hole_def)
  have above: "k (?p div 2) \<le> k ?p" if "2 \<le> ?p"
  proof -
    have "?p div 2 \<noteq> j" "?p \<noteq> j" "?p \<le> n" using p j by auto
    then show ?thesis using other[of ?p] that by simp
  qed
  have below: "k ?p \<le> k i" if "i \<le> n" "i div 2 = ?p" "i \<noteq> j" for i
  proof -
    have "?p \<noteq> j" "2 \<le> i" using p that by auto
    then show ?thesis using other[of i] that by simp
  qed
  have "swapped k ?p j (i div 2) \<le> swapped k ?p j i"
    if i: "2 \<le> i" "i \<le> n" "i \<noteq> ?p" "i div 2 \<noteq> ?p" for i
    using other[of i] child[of i] i p j by (cases "i div 2 = j") (auto simp: swapped_def)
  moreover have "swapped k ?p j (?p div 2) \<le> swapped k ?p j i"
    if i: "2 \<le> i" "i \<le> n" "i div 2 = ?p" "2 \<le> ?p" for i
  proof -
    have "?p div 2 < ?p" "i \<noteq> ?p" using that p by auto
    then show ?thesis
      using above below[of i] i p by (cases "i = j") (auto simp: swapped_def)
  qed
  ultimately show ?thesis by (simp add: heap_hole_def)
qed

lemma heap_hole_refill:
  assumes "heap_hole k n 1" "m \<le> n" "\<And>i. 2 \<le> i \<Longrightarrow> i \<le> m \<Longrightarrow> k' i = k i"
  shows "heap_down k' m 1"
proof -
  have "k' (i div 2) \<le> k' i" if i: "2 \<le> i" "i \<le> m" "i div 2 \<noteq> 1" for i
  proof -
    have "2 \<le> i div 2" "i div 2 \<le> m" using i by auto
    then show ?thesis using assms i by (simp add: heap_hole_def)
  qed
  then show ?thesis by (simp add: heap_down_def)
qed

end
