(* ===== verification/Sked.thy ===== *)
theory Sked
  imports Prelude Eclock Heap_order Interfaces
begin

text \<open>
  The scheduler of Sked.h and Sked.cc: a 1-based binary heap of \<open>(client, time)\<close> records in the
  array \<open>m_records\<close>, with the position of each client kept in the client's own \<open>skedIndex\<close>.

  Clients are identified by values of a type \<open>'c\<close> (their addresses); the \<open>skedIndex\<close> members of
  all client objects are the function \<open>skedIndex\<close> of the state, 0 for a client that is not queued.
  The list \<open>m_records\<close> has the allocated size, element 0 included; what \<open>malloc\<close> and \<open>realloc\<close>
  return is an argument of the operations that call them.
\<close>

subsection \<open>State\<close>

record ('c, 't) SkedRecord =
  skc :: 'c
  rec_when :: 't

record ('c, 't) sked_state =
  m_records :: "('c, 't) SkedRecord list"
  m_allocated :: nat
  m_used :: nat
  skedIndex :: "'c \<Rightarrow> nat"

type_synonym ('c, 'w) skrec = "('c, 'w clock) SkedRecord"
type_synonym ('c, 'w) sked = "('c, 'w clock) sked_state"

text \<open>The macro \<open>storeAt(i, r)\<close>.\<close>

definition storeAt :: "('c, 'w::len) sked \<Rightarrow> nat \<Rightarrow> ('c, 'w) skrec \<Rightarrow> ('c, 'w) sked option" where
  "storeAt s i r = do {
     xs \<leftarrow> wr (m_records s) i r;
     Some (s\<lparr>m_records := xs, skedIndex := (skedIndex s)(skc r := i)\<rparr>)
   }"

definition sked_empty :: "('c, 'w::len) sked \<Rightarrow> bool" where
  "sked_empty s = (m_used s = 0)"

definition top :: "('c, 'w::len) sked \<Rightarrow> ('c, 'w) skrec option option" where
  "top s = (if sked_empty s then Some None else map_option Some (rd (m_records s) 1))"

definition nextTime :: "('c, 'w::len) sked \<Rightarrow> 'w word \<Rightarrow> 'w word option" where
  "nextTime s defval = do { t \<leftarrow> top s; Some (case t of None \<Rightarrow> defval | Some r \<Rightarrow> rec_when r) }"

subsection \<open>The heap\<close>

text \<open>The swap the loops share: \<open>tmp = m_records[p]; storeAt(p, m_records[i]); storeAt(i, tmp)\<close>.\<close>

definition swapAt :: "('c, 'w::len) sked \<Rightarrow> nat \<Rightarrow> nat \<Rightarrow> ('c, 'w) sked option" where
  "swapAt s p i = do {
     tmp \<leftarrow> rd (m_records s) p;
     r \<leftarrow> rd (m_records s) i;
     s1 \<leftarrow> storeAt s p r;
     storeAt s1 i tmp
   }"

function siftUp :: "('c, 'w::len) sked \<Rightarrow> nat \<Rightarrow> ('c, 'w) sked option" where
  "siftUp s index =
     (if index > 1 then
        do {
          ri \<leftarrow> rd (m_records s) index;
          rp \<leftarrow> rd (m_records s) (index div 2);
          if eclock_after (rec_when ri) (rec_when rp) then Some s
          else do { s' \<leftarrow> swapAt s (index div 2) index; siftUp s' (index div 2) }
        }
      else Some s)"
  by pat_completeness auto
termination by (relation "measure snd") auto

text \<open>
  The search for the least child in \<open>siftDown\<close>: None when the node is a leaf.
\<close>

definition least_child :: "('c, 'w::len) sked \<Rightarrow> nat \<Rightarrow> nat option option" where
  "least_child s index =
     (let child = index * 2 in
      if child > m_used s then Some None
      else if child < m_used s then
        do {
          r1 \<leftarrow> rd (m_records s) (child + 1);
          r0 \<leftarrow> rd (m_records s) child;
          Some (Some (if \<not> eclock_after (rec_when r1) (rec_when r0) then child + 1 else child))
        }
      else Some (Some child))"

lemma least_child_bounds:
  "least_child s index = Some (Some child) \<Longrightarrow>
     child \<le> m_used s \<and> (child = 2 * index \<or> child = 2 * index + 1)"
  by (auto simp: least_child_def Let_def bind_eq_Some_conv split: if_splits)

lemma m_used_swapAt: "swapAt s p i = Some s' \<Longrightarrow> m_used s' = m_used s"
  by (auto simp: swapAt_def storeAt_def bind_eq_Some_conv)

function siftDown :: "('c, 'w::len) sked \<Rightarrow> nat \<Rightarrow> ('c, 'w) sked option" where
  "siftDown s index =
     (if index = 0 then None
      else case least_child s index of
        None \<Rightarrow> None
      | Some None \<Rightarrow> Some s
      | Some (Some child) \<Rightarrow>
          do {
            assertion (child \<le> m_used s);
            rc \<leftarrow> rd (m_records s) child;
            ri \<leftarrow> rd (m_records s) index;
            if eclock_after (rec_when rc) (rec_when ri) then Some s
            else do { s' \<leftarrow> swapAt s child index; siftDown s' child }
          })"
  by pat_completeness auto
termination
  by (relation "measure (\<lambda>(s, i). m_used s + 1 - i)")
    (auto dest!: least_child_bounds m_used_swapAt)

declare siftUp.simps [simp del] siftDown.simps [simp del]


subsection \<open>The unconditional move to the root in \<open>remove\<close>\<close>

function moveToTop :: "('c, 'w::len) sked \<Rightarrow> nat \<Rightarrow> ('c, 'w) sked option" where
  "moveToTop s index =
     (if index > 1 then do { s' \<leftarrow> swapAt s (index div 2) index; moveToTop s' (index div 2) }
      else Some s)"
  by pat_completeness auto
termination by (relation "measure snd") auto

declare moveToTop.simps [simp del]

definition remove :: "('c, 'w::len) sked \<Rightarrow> nat \<Rightarrow> ('c, 'w) sked option" where
  "remove s index = do {
     assertion (index \<le> m_used s);
     assertion (m_used s \<noteq> 0);
     let s0 = s\<lparr>m_used := m_used s - 1\<rparr>;
     if m_used s > 1 then do {
       s1 \<leftarrow> moveToTop s0 index;
       r \<leftarrow> rd (m_records s1) (m_used s1 + 1);
       s2 \<leftarrow> storeAt s1 1 r;
       if m_used s2 > 1 then siftDown s2 1 else Some s2
     } else Some s0
   }"

definition pop :: "('c, 'w::len) sked \<Rightarrow> ('c, 'w) sked option" where
  "pop s =
     (if sked_empty s then Some s
      else do {
        r1 \<leftarrow> rd (m_records s) 1;
        assertion (skedIndex s (skc r1) = 1);
        let s1 = s\<lparr>skedIndex := (skedIndex s)(skc r1 := 0), m_used := m_used s - 1\<rparr>;
        if m_used s1 > 0 then do {
          r \<leftarrow> rd (m_records s1) (m_used s1 + 1);
          s2 \<leftarrow> storeAt s1 1 r;
          s3 \<leftarrow> (if m_used s2 > 1 then siftDown s2 1 else Some s2);
          t \<leftarrow> rd (m_records s3) 1;
          assertion (skedIndex s3 (skc t) = 1);
          Some s3
        } else Some s1
      })"

subsection \<open>Allocation and insertion\<close>

text \<open>
  \<open>Sked()\<close> then \<open>init()\<close>: the argument is what \<open>malloc\<close> returns, None for a null pointer.
\<close>

definition sked_init ::
  "('c, 'w::len) skrec list option \<Rightarrow> ('c, 'w) sked \<Rightarrow> rc \<times> ('c, 'w) sked" where
  "sked_init mem s =
     (case mem of
        None \<Rightarrow> (Fail ENOMEM, s\<lparr>m_records := [], m_allocated := 0, m_used := 0\<rparr>)
      | Some xs \<Rightarrow> (OK, s\<lparr>m_records := xs, m_allocated := 256, m_used := 0\<rparr>))"

text \<open>
  \<open>push\<close>: \<open>ralloc n xs\<close> is \<open>realloc\<close> of the block \<open>xs\<close> to \<open>n\<close> records. The byte count is an
  \<open>int\<close> (16 bytes per record on LP64); where it does not fit the model stops.
\<close>

definition sizeof_SkedRecord :: nat where
  "sizeof_SkedRecord = 16"

type_synonym ('c, 'w) reallocator = "nat \<Rightarrow> ('c, 'w) skrec list \<Rightarrow> ('c, 'w) skrec list option"

definition push ::
  "('c, 'w::len) reallocator \<Rightarrow> ('c, 'w) sked \<Rightarrow> ('c, 'w) skrec \<Rightarrow> (rc \<times> ('c, 'w) sked) option" where
  "push ralloc s skr = do {
     grown \<leftarrow>
       (if m_used s + 1 = m_allocated s then
          do {
            let new_alloc = m_allocated s * 2;
            assertion (new_alloc * sizeof_SkedRecord < 2 ^ 31);
            Some (case ralloc new_alloc (m_records s) of
                    None \<Rightarrow> None
                  | Some tmp \<Rightarrow> Some (s\<lparr>m_allocated := new_alloc, m_records := tmp\<rparr>))
          }
        else Some (Some s));
     case grown of
       None \<Rightarrow> Some (Fail ENOMEM, s)
     | Some s1 \<Rightarrow> do {
         s2 \<leftarrow> storeAt (s1\<lparr>m_used := m_used s1 + 1\<rparr>) (m_used s1 + 1) skr;
         s3 \<leftarrow> siftUp s2 (m_used s2);
         Some (OK, s3)
       }
   }"

subsection \<open>The public operations\<close>

definition addClient ::
  "('c, 'w::len) reallocator \<Rightarrow> ('c, 'w) sked \<Rightarrow> 'c \<Rightarrow> 'w clock \<Rightarrow> (rc \<times> ('c, 'w) sked) option" where
  "addClient ralloc s c t = do {
     assertion (skedIndex s c = 0);
     push ralloc s \<lparr>skc = c, rec_when = t\<rparr>
   }"

definition delClient :: "('c, 'w::len) sked \<Rightarrow> 'c \<Rightarrow> (rc \<times> ('c, 'w) sked) option" where
  "delClient s c =
     (if skedIndex s c = 0 then Some (OK, s)
      else do {
        assertion (m_used s > 0);
        s' \<leftarrow> remove s (skedIndex s c);
        Some (OK, s'\<lparr>skedIndex := (skedIndex s')(c := 0)\<rparr>)
      })"

text \<open>
  \<open>runAll\<close>. The callback \<open>skedCallback(now)\<close> of a client may change the scheduler (it may add and
  delete clients) and the rest of the program's state, of type \<open>'x\<close>. Nothing bounds the number of
  iterations when callbacks keep queueing events that are already due, hence \<open>partial_function\<close>.
\<close>

type_synonym ('c, 'w, 'x) callback =
  "'c \<Rightarrow> 'w clock \<Rightarrow> ('c, 'w) sked \<times> 'x \<Rightarrow> (('c, 'w) sked \<times> 'x) option"

partial_function (option) runAll ::
  "('c, 'w::len, 'x) callback \<Rightarrow> 'w clock \<Rightarrow> ('c, 'w) sked \<times> 'x \<Rightarrow> (rc \<times> ('c, 'w) sked \<times> 'x) option"
where
  "runAll cb now sx = do {
     t \<leftarrow> top (fst sx);
     case t of
       None \<Rightarrow> Some (OK, sx)
     | Some p \<Rightarrow>
         if eclock_after (rec_when p) now then Some (OK, sx)
         else do {
           let i = skedIndex (fst sx) (skc p);
           bad \<leftarrow> (if i < 1 \<or> i > m_used (fst sx) then Some True
                  else do { r \<leftarrow> rd (m_records (fst sx)) i; Some (skc r \<noteq> skc p) });
           if bad then Some (Fail EINVAL, sx)
           else do {
             assertion (i = 1);
             s1 \<leftarrow> pop (fst sx);
             assertion (skedIndex s1 (skc p) = 0);
             sx' \<leftarrow> cb (skc p) now (s1, snd sx);
             runAll cb now sx'
           }
         }
   }"

subsection \<open>Invariants\<close>

text \<open>
  \<open>links n s\<close>: the first \<open>n\<close> records are in the array and every one of them points to a client whose
  \<open>skedIndex\<close> points back. \<open>recset n s\<close> is the set of these records.
\<close>

definition links :: "nat \<Rightarrow> ('c, 'w::len) sked \<Rightarrow> bool" where
  "links n s = (n < length (m_records s) \<and>
                (\<forall>i \<in> {1..n}. skedIndex s (skc (m_records s ! i)) = i))"

definition recset :: "nat \<Rightarrow> ('c, 'w::len) sked \<Rightarrow> ('c, 'w) skrec set" where
  "recset n s = (\<lambda>i. m_records s ! i) ` {1..n}"

definition key :: "'w::len clock \<Rightarrow> ('c, 'w) sked \<Rightarrow> nat \<Rightarrow> nat" where
  "key b s i = ticks b (rec_when (m_records s ! i))"

definition windowed :: "nat \<Rightarrow> 'w::len clock \<Rightarrow> ('c, 'w) sked \<Rightarrow> bool" where
  "windowed n b s = (\<forall>r \<in> recset n s. in_window b (rec_when r))"

text \<open>
  The well-formed states: the array has the allocated size and room for a record, the links hold,
  and only queued clients have a non-zero index. \<open>sked_inv b\<close> adds the half-range window at \<open>b\<close>
  and the heap property.
\<close>

definition sked_wf :: "('c, 'w::len) sked \<Rightarrow> bool" where
  "sked_wf s = (length (m_records s) = m_allocated s \<and> links (m_used s) s \<and>
                (\<forall>c. skedIndex s c \<noteq> 0 \<longrightarrow>
                     skedIndex s c \<le> m_used s \<and> skc (m_records s ! skedIndex s c) = c))"

definition sked_inv :: "'w::len clock \<Rightarrow> ('c, 'w) sked \<Rightarrow> bool" where
  "sked_inv b s = (sked_wf s \<and> windowed (m_used s) b s \<and> heap (key b s) (m_used s))"

text \<open>The abstraction: which clients are scheduled, and for when.\<close>

definition schedule :: "('c, 'w::len) sked \<Rightarrow> 'c \<Rightarrow> 'w clock option" where
  "schedule s c = (if skedIndex s c = 0 then None
                   else Some (rec_when (m_records s ! skedIndex s c)))"

text \<open>What a step that only moves records inside the first \<open>n\<close> positions keeps.\<close>

definition shuffled :: "nat \<Rightarrow> ('c, 'w::len) sked \<Rightarrow> ('c, 'w) sked \<Rightarrow> bool" where
  "shuffled n s s' = (links n s' \<and> recset n s' = recset n s \<and>
     length (m_records s') = length (m_records s) \<and> m_used s' = m_used s \<and>
     m_allocated s' = m_allocated s \<and>
     (\<forall>c. c \<notin> skc ` recset n s \<longrightarrow> skedIndex s' c = skedIndex s c) \<and>
     (\<forall>i. i \<notin> {1..n} \<longrightarrow> m_records s' ! i = m_records s ! i))"

lemma shuffled_refl [simp]: "links n s \<Longrightarrow> shuffled n s s"
  by (simp add: shuffled_def)

lemma shuffled_trans [trans]: "shuffled n s t \<Longrightarrow> shuffled n t u \<Longrightarrow> shuffled n s u"
  by (simp add: shuffled_def)

lemma shuffled_links [simp]: "shuffled n s t \<Longrightarrow> links n t"
  by (simp add: shuffled_def)

lemma linksD: "links n s \<Longrightarrow> 1 \<le> i \<Longrightarrow> i \<le> n \<Longrightarrow>
    i < length (m_records s) \<and> skedIndex s (skc (m_records s ! i)) = i"
  by (auto simp: links_def)

lemma links_inj: "links n s \<Longrightarrow> 1 \<le> i \<Longrightarrow> i \<le> n \<Longrightarrow> 1 \<le> j \<Longrightarrow> j \<le> n \<Longrightarrow>
    skc (m_records s ! i) = skc (m_records s ! j) \<Longrightarrow> i = j"
  by (metis linksD)

lemma links_mono: "links n s \<Longrightarrow> m \<le> n \<Longrightarrow> links m s"
  by (auto simp: links_def)

lemma recsetI: "1 \<le> i \<Longrightarrow> i \<le> n \<Longrightarrow> m_records s ! i \<in> recset n s"
  by (auto simp: recset_def)

lemma storeAt_Some: "i < length (m_records s) \<Longrightarrow>
    storeAt s i r = Some (s\<lparr>m_records := (m_records s)[i := r], skedIndex := (skedIndex s)(skc r := i)\<rparr>)"
  by (simp add: storeAt_def)

subsection \<open>The swap\<close>

lemma swapAt_Some:
  assumes "links n s" "1 \<le> p" "p \<le> n" "1 \<le> i" "i \<le> n" "p \<noteq> i"
  obtains s' where "swapAt s p i = Some s'" "shuffled n s s'"
    "m_records s' = (m_records s)[p := m_records s ! i, i := m_records s ! p]"
    "key b s' = swapped (key b s) p i"
proof -
  let ?xs = "m_records s"
  have len: "p < length ?xs" "i < length ?xs" using assms linksD by blast+
  define s' where "s' = s\<lparr>m_records := ?xs[p := ?xs ! i, i := ?xs ! p],
    skedIndex := (skedIndex s)(skc (?xs ! i) := p, skc (?xs ! p) := i)\<rparr>"
  have ret: "swapAt s p i = Some s'"
    using len by (simp add: swapAt_def storeAt_Some s'_def)
  have nth: "m_records s' ! q = (if q = i then ?xs ! p else if q = p then ?xs ! i else ?xs ! q)" for q
    using len by (simp add: s'_def nth_list_update)
  have "skedIndex s' (skc (m_records s' ! q)) = q" if q: "1 \<le> q" "q \<le> n" for q
  proof -
    have "skc (?xs ! q) \<noteq> skc (?xs ! i)" if "q \<noteq> i" using links_inj[OF assms(1)] q that assms by metis
    moreover have "skc (?xs ! q) \<noteq> skc (?xs ! p)" if "q \<noteq> p"
      using links_inj[OF assms(1)] q that assms by metis
    moreover have "skc (?xs ! i) \<noteq> skc (?xs ! p)" using links_inj[OF assms(1)] assms by metis
    moreover have "skedIndex s (skc (?xs ! q)) = q" using linksD[OF assms(1) q] by simp
    ultimately show ?thesis unfolding nth by (simp add: s'_def)
  qed
  then have links': "links n s'" using assms(1) by (simp add: links_def s'_def)
  have "(\<lambda>j. m_records s' ! j) ` {1..n} = (\<lambda>j. ?xs ! j) ` {1..n}"
  proof (intro equalityI image_subsetI)
    fix j assume "j \<in> {1..n}"
    then show "m_records s' ! j \<in> (\<lambda>j. ?xs ! j) ` {1..n}" using assms by (simp add: nth)
  next
    fix j assume j: "j \<in> {1..n}"
    let ?j = "if j = p then i else if j = i then p else j"
    have "?xs ! j = m_records s' ! ?j" "?j \<in> {1..n}" using j assms by (auto simp: nth)
    then show "?xs ! j \<in> (\<lambda>j. m_records s' ! j) ` {1..n}" by (rule image_eqI)
  qed
  then have rs: "recset n s' = recset n s" by (simp add: recset_def)
  have in_q: "skc (?xs ! i) \<in> skc ` recset n s" "skc (?xs ! p) \<in> skc ` recset n s"
    using assms recsetI[of p n s] recsetI[of i n s] by blast+
  have idx: "skedIndex s' c = skedIndex s c" if "c \<notin> skc ` recset n s" for c
  proof -
    from that in_q have "c \<noteq> skc (?xs ! i)" "c \<noteq> skc (?xs ! p)" by metis+
    then show ?thesis by (simp add: s'_def)
  qed
  have outer: "m_records s' ! q = ?xs ! q" if "q \<notin> {1..n}" for q
  proof -
    from that assms have "q \<noteq> i" "q \<noteq> p" by auto
    then show ?thesis by (simp add: nth)
  qed
  have "length (m_records s') = length ?xs \<and> m_used s' = m_used s \<and> m_allocated s' = m_allocated s"
    by (simp add: s'_def)
  with links' rs idx outer have "shuffled n s s'" unfolding shuffled_def by blast
  moreover have "key b s' = swapped (key b s) p i"
    using assms by (simp add: key_def nth swapped_def fun_eq_iff)
  moreover have "m_records s' = ?xs[p := ?xs ! i, i := ?xs ! p]" by (simp add: s'_def)
  ultimately show ?thesis using that ret by metis
qed

lemma windowed_shuffled: "shuffled n s s' \<Longrightarrow> windowed n b s' = windowed n b s"
  by (simp add: windowed_def shuffled_def)

lemma after_key:
  assumes "windowed n b s" "1 \<le> i" "i \<le> n" "1 \<le> j" "j \<le> n"
  shows "eclock_after (rec_when (m_records s ! i)) (rec_when (m_records s ! j)) = (key b s j < key b s i)"
  unfolding key_def using assms recsetI[of i n s] recsetI[of j n s]
  by (intro eclock_after_ticks) (simp_all add: windowed_def)

subsection \<open>The loops\<close>

lemma siftUp_correct:
  assumes "links n s" "windowed n b s" "1 \<le> j" "j \<le> n" "heap_up (key b s) n j"
  shows "\<exists>s'. siftUp s j = Some s' \<and> shuffled n s s' \<and> heap (key b s') n"
  using assms
proof (induction s j rule: siftUp.induct)
  case (1 s j)
  show ?case
  proof (cases "j > 1")
    case False
    with 1 show ?thesis by (auto simp: siftUp.simps[of s j] intro: heap_up_root)
  next
    case True
    let ?p = "j div 2"
    have p: "1 \<le> ?p" "?p \<le> n" "?p \<noteq> j" using True 1 by auto
    have rds: "rd (m_records s) j = Some (m_records s ! j)" "rd (m_records s) ?p = Some (m_records s ! ?p)"
      using 1 p linksD[OF "1.prems"(1)] by auto
    show ?thesis
    proof (cases "key b s ?p < key b s j")
      case after: True
      then show ?thesis
        using 1 True p rds after_key[of n b s j ?p]
        by (auto simp: siftUp.simps[of s j] intro: heap_up_done)
    next
      case before: False
      obtain s' where s': "swapAt s ?p j = Some s'" "shuffled n s s'" "key b s' = swapped (key b s) ?p j"
        using swapAt_Some[of n s ?p j] 1 p by metis
      have "\<exists>s''. siftUp s' ?p = Some s'' \<and> shuffled n s' s'' \<and> heap (key b s'') n"
      proof (rule "1.IH"[OF True rds _ s'(1)])
        show "heap_up (key b s') n ?p"
          unfolding s'(3) using "1.prems" True before by (intro heap_up_swap) auto
      qed (use "1.prems" True p s' before after_key[of n b s j ?p] in \<open>auto simp: windowed_shuffled\<close>)
      then show ?thesis
        using 1 True p rds after_key[of n b s j ?p] before s'
        by (auto simp: siftUp.simps[of s j] intro: shuffled_trans)
    qed
  qed
qed


lemma least_child_correct:
  assumes "links (m_used s) s" "windowed (m_used s) b s" "1 \<le> j" "2 * j \<le> m_used s"
  shows "\<exists>c. least_child s j = Some (Some c) \<and> 2 \<le> c \<and> c \<le> m_used s \<and> c div 2 = j \<and>
             (\<forall>i \<le> m_used s. i div 2 = j \<longrightarrow> key b s c \<le> key b s i)"
proof (cases "2 * j < m_used s")
  case True
  let ?c = "if key b s (2 * j) < key b s (2 * j + 1) then 2 * j else 2 * j + 1"
  have "least_child s j = Some (Some ?c)"
    using assms True linksD[OF assms(1)] after_key[OF assms(2), of "2 * j + 1" "2 * j"]
    by (auto simp: least_child_def Let_def mult.commute[of j])
  moreover have "key b s ?c \<le> key b s i" if "i div 2 = j" for i
  proof -
    from that have "i = 2 * j \<or> i = 2 * j + 1" by arith
    then show ?thesis by auto
  qed
  ultimately show ?thesis using assms True by (intro exI[of _ ?c]) auto
next
  case False
  have only: "i = 2 * j" if "i \<le> m_used s" "i div 2 = j" for i using that False by arith
  have "least_child s j = Some (Some (2 * j))"
    using False assms(4) by (simp add: least_child_def Let_def mult.commute[of j])
  moreover have "\<forall>i \<le> m_used s. i div 2 = j \<longrightarrow> key b s (2 * j) \<le> key b s i"
    by (metis only order_refl)
  ultimately show ?thesis using assms(3,4) by (intro exI[of _ "2 * j"]) simp
qed

lemma siftDown_correct:
  assumes "links (m_used s) s" "windowed (m_used s) b s" "1 \<le> j" "j \<le> m_used s"
    "heap_down (key b s) (m_used s) j"
  shows "\<exists>s'. siftDown s j = Some s' \<and> shuffled (m_used s) s s' \<and> heap (key b s') (m_used s)"
  using assms
proof (induction s j rule: siftDown.induct)
  case (1 s j)
  show ?case
  proof (cases "2 * j \<le> m_used s")
    case False
    with 1 show ?thesis
      by (auto simp: siftDown.simps[of s j] least_child_def Let_def mult.commute[of j]
               intro: heap_down_leaf)
  next
    case True
    then obtain c where c: "least_child s j = Some (Some c)" "2 \<le> c" "c \<le> m_used s" "c div 2 = j"
      and least: "\<And>i. i \<le> m_used s \<Longrightarrow> i div 2 = j \<Longrightarrow> key b s c \<le> key b s i"
      using least_child_correct[of s b j] 1 by blast
    have rds: "rd (m_records s) c = Some (m_records s ! c)" "rd (m_records s) j = Some (m_records s ! j)"
      using 1 c linksD[OF "1.prems"(1)] by auto
    have after: "eclock_after (rec_when (m_records s ! c)) (rec_when (m_records s ! j))
                 = (key b s j < key b s c)"
      using after_key[of "m_used s" b s c j] 1 c by simp
    show ?thesis
    proof (cases "key b s j < key b s c")
      case True
      have "heap (key b s) (m_used s)"
        using heap_down_done[OF "1.prems"(5)] least True by (meson less_imp_le order_trans)
      with 1 True c rds after show ?thesis by (auto simp: siftDown.simps[of s j])
    next
      case False
      have "c \<noteq> j" using c by arith
      then obtain s' where s': "swapAt s c j = Some s'" "shuffled (m_used s) s s'"
        "key b s' = swapped (key b s) c j"
        using swapAt_Some[of "m_used s" s c j] 1 c by (metis le_trans one_le_numeral)
      have mu: "m_used s' = m_used s" using s'(2) by (simp add: shuffled_def)
      have IH: "\<exists>s''. siftDown s' c = Some s'' \<and> shuffled (m_used s') s' s'' \<and> heap (key b s'') (m_used s')"
      proof (rule "1.IH"[OF _ c(1) refl _ rds _ s'(1)])
        show "heap_down (key b s') (m_used s') c"
          unfolding s'(3) mu using "1.prems" c least False by (intro heap_down_swap) auto
      qed (use "1.prems" c s' mu False after in \<open>auto simp: windowed_shuffled\<close>)
      then show ?thesis
        using "1.prems" c rds after False s' mu
        by (auto simp: siftDown.simps[of s j] intro: shuffled_trans)
    qed
  qed
qed

lemma moveToTop_correct:
  assumes "links n s" "1 \<le> j" "j \<le> n" "heap_hole (key b s) n j"
  shows "\<exists>s'. moveToTop s j = Some s' \<and> shuffled n s s' \<and> heap_hole (key b s') n 1 \<and>
              m_records s' ! 1 = m_records s ! j"
  using assms
proof (induction s j rule: moveToTop.induct)
  case (1 s j)
  show ?case
  proof (cases "j > 1")
    case False
    then have "j = 1" using "1.prems" by simp
    from False have "moveToTop s j = Some s" by (simp add: moveToTop.simps[of s j])
    with \<open>j = 1\<close> "1.prems" show ?thesis by simp
  next
    case True
    let ?p = "j div 2"
    have p: "1 \<le> ?p" "?p \<le> n" "?p \<noteq> j" using True 1 by auto
    obtain s' where s': "swapAt s ?p j = Some s'" "shuffled n s s'" "key b s' = swapped (key b s) ?p j"
      "m_records s' = (m_records s)[?p := m_records s ! j, j := m_records s ! ?p]"
      using swapAt_Some[of n s ?p j] 1 p by metis
    have "m_records s' ! ?p = m_records s ! j"
      using s'(4) p linksD[OF "1.prems"(1)] by (simp add: nth_list_update)
    moreover have "\<exists>s''. moveToTop s' ?p = Some s'' \<and> shuffled n s' s'' \<and> heap_hole (key b s'') n 1 \<and>
              m_records s'' ! 1 = m_records s' ! ?p"
    proof (rule "1.IH"[OF True s'(1)])
      show "heap_hole (key b s') n ?p"
        unfolding s'(3) using "1.prems" True by (intro heap_hole_swap) auto
    qed (use s' p in auto)
    ultimately show ?thesis using True s' by (auto simp: moveToTop.simps[of s j] intro: shuffled_trans)
  qed
qed


subsection \<open>From records to the schedule\<close>

lemma sked_wf_alt:
  "sked_wf s = (length (m_records s) = m_allocated s \<and> links (m_used s) s \<and>
                (\<forall>c. c \<notin> skc ` recset (m_used s) s \<longrightarrow> skedIndex s c = 0))"
proof -
  have "(skedIndex s c \<noteq> 0 \<longrightarrow> skedIndex s c \<le> m_used s \<and> skc (m_records s ! skedIndex s c) = c)
        = (c \<notin> skc ` recset (m_used s) s \<longrightarrow> skedIndex s c = 0)" if "links (m_used s) s" for c
  proof
    assume l: "skedIndex s c \<noteq> 0 \<longrightarrow> skedIndex s c \<le> m_used s \<and> skc (m_records s ! skedIndex s c) = c"
    show "c \<notin> skc ` recset (m_used s) s \<longrightarrow> skedIndex s c = 0"
    proof (intro impI, rule ccontr)
      assume "c \<notin> skc ` recset (m_used s) s" "skedIndex s c \<noteq> 0"
      with l recsetI[of "skedIndex s c" "m_used s" s] show False by (metis Suc_le_eq imageI neq0_conv One_nat_def)
    qed
  next
    assume r: "c \<notin> skc ` recset (m_used s) s \<longrightarrow> skedIndex s c = 0"
    show "skedIndex s c \<noteq> 0 \<longrightarrow> skedIndex s c \<le> m_used s \<and> skc (m_records s ! skedIndex s c) = c"
    proof
      assume "skedIndex s c \<noteq> 0"
      with r obtain i where i: "1 \<le> i" "i \<le> m_used s" "c = skc (m_records s ! i)"
        by (auto simp: recset_def)
      with linksD[OF that i(1,2)] show "skedIndex s c \<le> m_used s \<and> skc (m_records s ! skedIndex s c) = c"
        by simp
    qed
  qed
  then show ?thesis unfolding sked_wf_def by blast
qed

lemma schedule_iff:
  assumes "sked_wf s"
  shows "schedule s c = Some t \<longleftrightarrow> \<lparr>skc = c, rec_when = t\<rparr> \<in> recset (m_used s) s"
proof
  assume "schedule s c = Some t"
  then have "1 \<le> skedIndex s c" "rec_when (m_records s ! skedIndex s c) = t"
    by (auto simp: schedule_def split: if_splits)
  moreover have "skedIndex s c \<le> m_used s" "skc (m_records s ! skedIndex s c) = c"
    using assms calculation by (auto simp: sked_wf_def)
  ultimately have "m_records s ! skedIndex s c = \<lparr>skc = c, rec_when = t\<rparr>" by simp
  with \<open>1 \<le> skedIndex s c\<close> \<open>skedIndex s c \<le> m_used s\<close>
  show "\<lparr>skc = c, rec_when = t\<rparr> \<in> recset (m_used s) s" by (metis recsetI)
next
  assume "\<lparr>skc = c, rec_when = t\<rparr> \<in> recset (m_used s) s"
  then obtain i where i: "1 \<le> i" "i \<le> m_used s" "m_records s ! i = \<lparr>skc = c, rec_when = t\<rparr>"
    by (auto simp: recset_def)
  with assms linksD[of "m_used s" s i] have "skedIndex s c = i" by (simp add: sked_wf_def)
  with i show "schedule s c = Some t" by (simp add: schedule_def)
qed

lemma schedule_eqI:
  assumes "sked_wf s" "\<And>c t. f c = Some t \<longleftrightarrow> \<lparr>skc = c, rec_when = t\<rparr> \<in> recset (m_used s) s"
  shows "schedule s = f"
proof
  fix c
  show "schedule s c = f c"
    using schedule_iff[OF assms(1), of c] assms(2)[of c] by (metis not_None_eq)
qed

lemma sked_wf_client_unique:
  assumes "links n s" "r \<in> recset n s" "r' \<in> recset n s" "skc r = skc r'"
  shows "r = r'"
proof -
  from assms obtain i j where "1 \<le> i" "i \<le> n" "r = m_records s ! i" "1 \<le> j" "j \<le> n" "r' = m_records s ! j"
    by (auto simp: recset_def)
  with assms links_inj[OF assms(1), of i j] show ?thesis by simp
qed

subsection \<open>Insertion\<close>

text \<open>Room for one more record: a free slot, or a successful \<open>realloc\<close> of a representable size.\<close>

definition room :: "('c, 'w::len) reallocator \<Rightarrow> ('c, 'w) sked \<Rightarrow> bool" where
  "room ralloc s = (m_used s + 1 = m_allocated s \<longrightarrow>
     m_allocated s < 2 ^ 26 \<and> ralloc (m_allocated s * 2) (m_records s) \<noteq> None)"

lemma push_into_slot:
  assumes inv: "sked_inv b s" and free: "skedIndex s (skc r) = 0" and win: "in_window b (rec_when r)"
    and grown: "m_used s1 = m_used s" "skedIndex s1 = skedIndex s" "length (m_records s1) = m_allocated s1"
      "m_used s + 1 < m_allocated s1" "\<And>i. i \<le> m_used s \<Longrightarrow> m_records s1 ! i = m_records s ! i"
  shows "\<exists>s2 s3. storeAt (s1\<lparr>m_used := m_used s1 + 1\<rparr>) (m_used s1 + 1) r = Some s2 \<and>
                 siftUp s2 (m_used s2) = Some s3 \<and> sked_inv b s3 \<and>
                 schedule s3 = (schedule s)(skc r \<mapsto> rec_when r)"
proof -
  let ?n = "m_used s"
  have wf: "sked_wf s" and lk: "links ?n s" and wn: "windowed ?n b s" and hp: "heap (key b s) ?n"
    using inv by (auto simp: sked_inv_def sked_wf_def)
  define s2 where "s2 = s1\<lparr>m_used := ?n + 1, m_records := (m_records s1)[?n + 1 := r],
                           skedIndex := (skedIndex s)(skc r := ?n + 1)\<rparr>"
  have store: "storeAt (s1\<lparr>m_used := m_used s1 + 1\<rparr>) (m_used s1 + 1) r = Some s2"
    using grown by (simp add: storeAt_Some s2_def)
  have nth: "m_records s2 ! i = (if i = ?n + 1 then r else m_records s ! i)" if "i \<le> ?n + 1" for i
    using grown that by (simp add: s2_def nth_list_update)
  have old: "skc r \<notin> skc ` recset ?n s" using free linksD[OF lk] by (force simp: recset_def)
  have "skedIndex s2 (skc (m_records s2 ! i)) = i" if i: "1 \<le> i" "i \<le> ?n + 1" for i
  proof (cases "i = ?n + 1")
    case True
    then show ?thesis using nth[OF i(2)] by (simp add: s2_def)
  next
    case False
    then have "i \<le> ?n" using i by simp
    with old recsetI[OF i(1), of ?n s] have "skc (m_records s ! i) \<noteq> skc r" by (metis imageI)
    with linksD[OF lk i(1) \<open>i \<le> ?n\<close>] nth[OF i(2)] False show ?thesis by (simp add: s2_def)
  qed
  then have lk2: "links (?n + 1) s2" using grown by (simp add: links_def s2_def)
  have rs2: "recset (?n + 1) s2 = insert r (recset ?n s)"
  proof -
    have "{1..?n + 1} = insert (?n + 1) {1..?n}" by auto
    then have "recset (?n + 1) s2 = insert (m_records s2 ! (?n + 1)) ((\<lambda>i. m_records s2 ! i) ` {1..?n})"
      by (simp add: recset_def)
    also have "(\<lambda>i. m_records s2 ! i) ` {1..?n} = recset ?n s"
      unfolding recset_def by (intro image_cong refl) (simp add: nth)
    finally show ?thesis by (simp add: nth)
  qed
  have wn2: "windowed (?n + 1) b s2" using wn win rs2 by (simp add: windowed_def)
  have "heap_up (key b s2) (?n + 1) (?n + 1)"
    using heap_up_last[OF hp, of "key b s2"] by (simp add: key_def nth)
  then obtain s3 where s3: "siftUp s2 (?n + 1) = Some s3" "shuffled (?n + 1) s2 s3" "heap (key b s3) (?n + 1)"
    using siftUp_correct[OF lk2 wn2, of "?n + 1"] by auto
  have fields: "m_used s3 = ?n + 1" "recset (?n + 1) s3 = insert r (recset ?n s)"
    "length (m_records s3) = m_allocated s3"
    using s3(2) grown rs2 by (auto simp: shuffled_def s2_def)
  have "skedIndex s3 c = 0" if "c \<notin> skc ` recset (?n + 1) s3" for c
  proof -
    from that fields rs2 have "c \<notin> skc ` recset (?n + 1) s2" "c \<noteq> skc r" "c \<notin> skc ` recset ?n s" by auto
    with s3(2) wf show ?thesis by (auto simp: shuffled_def sked_wf_alt s2_def)
  qed
  then have wf3: "sked_wf s3" using s3(2) fields by (simp add: sked_wf_alt)
  have "sked_inv b s3"
    using wf3 s3 fields wn2 windowed_shuffled[OF s3(2)] by (simp add: sked_inv_def)
  moreover have "schedule s3 = (schedule s)(skc r \<mapsto> rec_when r)"
  proof (rule schedule_eqI[OF wf3])
    fix c t
    have "((schedule s)(skc r \<mapsto> rec_when r)) c = Some t \<longleftrightarrow>
          (c = skc r \<and> t = rec_when r) \<or> (c \<noteq> skc r \<and> \<lparr>skc = c, rec_when = t\<rparr> \<in> recset ?n s)"
      using schedule_iff[OF wf, of c t] by auto
    also have "\<dots> \<longleftrightarrow> \<lparr>skc = c, rec_when = t\<rparr> \<in> insert r (recset ?n s)"
      using old by (cases r) (auto simp: image_iff)
    finally show "((schedule s)(skc r \<mapsto> rec_when r)) c = Some t \<longleftrightarrow>
          \<lparr>skc = c, rec_when = t\<rparr> \<in> recset (m_used s3) s3"
      using fields by simp
  qed
  ultimately show ?thesis using store s3(1) by (auto simp: s2_def)
qed

lemma addClient_lemma:
  assumes inv: "sked_inv b s" and ra: "realloc_ok ralloc" and rm: "room ralloc s"
    and free: "schedule s c = None" and win: "in_window b t"
  shows "\<exists>s'. addClient ralloc s c t = Some (OK, s') \<and> sked_inv b s' \<and> schedule s' = (schedule s)(c \<mapsto> t)"
proof -
  have idx: "skedIndex s c = 0" using free by (auto simp: schedule_def split: if_splits)
  have len: "length (m_records s) = m_allocated s" "m_used s < m_allocated s"
    using inv by (auto simp: sked_inv_def sked_wf_def links_def)
  show ?thesis
  proof (cases "m_used s + 1 = m_allocated s")
    case False
    then have "m_used s + 1 < m_allocated s" using len by simp
    then obtain s2 s3 where "storeAt (s\<lparr>m_used := m_used s + 1\<rparr>) (m_used s + 1) \<lparr>skc = c, rec_when = t\<rparr> = Some s2"
      "siftUp s2 (m_used s2) = Some s3" "sked_inv b s3" "schedule s3 = (schedule s)(c \<mapsto> t)"
      using push_into_slot[OF inv, of "\<lparr>skc = c, rec_when = t\<rparr>" s] idx win len by auto
    with idx False show ?thesis by (simp add: addClient_def push_def)
  next
    case True
    let ?na = "m_allocated s * 2"
    from rm True obtain xs where xs: "ralloc ?na (m_records s) = Some xs" and small: "m_allocated s < 2 ^ 26"
      by (auto simp: room_def)
    have "length (m_records s) \<le> ?na" using len by simp
    with ra xs have "length xs = ?na \<and> take (length (m_records s)) xs = m_records s"
      unfolding realloc_ok_def by blast
    then have xs': "length xs = ?na" "take (m_allocated s) xs = m_records s" using len by auto
    let ?s1 = "s\<lparr>m_allocated := ?na, m_records := xs\<rparr>"
    have "xs ! i = m_records s ! i" if "i \<le> m_used s" for i
      using xs'(2) that len by (metis le_less_trans nth_take)
    then obtain s2 s3 where "storeAt (?s1\<lparr>m_used := m_used ?s1 + 1\<rparr>) (m_used ?s1 + 1) \<lparr>skc = c, rec_when = t\<rparr> = Some s2"
      "siftUp s2 (m_used s2) = Some s3" "sked_inv b s3" "schedule s3 = (schedule s)(c \<mapsto> t)"
      using push_into_slot[OF inv, of "\<lparr>skc = c, rec_when = t\<rparr>" ?s1] idx win len xs' by auto
    with idx True xs small show ?thesis
      by (simp add: addClient_def push_def sizeof_SkedRecord_def)
  qed
qed


subsection \<open>Removal\<close>

text \<open>
  The end of both \<open>remove\<close> and \<open>pop\<close>: the last record overwrites the first, then sifts down. The
  record at position 1 is on its way out, so its client's index does not matter.
\<close>

lemma refill_root:
  assumes n: "2 \<le> n" "n < length (m_records s)" and mu: "m_used s = n - 1"
    and idx: "\<And>i. 2 \<le> i \<Longrightarrow> i \<le> n \<Longrightarrow> skedIndex s (skc (m_records s ! i)) = i"
    and root: "\<And>i. 2 \<le> i \<Longrightarrow> i \<le> n \<Longrightarrow> skc (m_records s ! i) \<noteq> skc (m_records s ! 1)"
    and win: "windowed n b s" and hole: "heap_hole (key b s) n 1"
  shows "\<exists>s2 s3. storeAt s 1 (m_records s ! n) = Some s2 \<and> m_used s2 = n - 1 \<and>
           (if n - 1 > 1 then siftDown s2 1 else Some s2) = Some s3 \<and>
           links (n - 1) s3 \<and> m_used s3 = n - 1 \<and> m_allocated s3 = m_allocated s \<and>
           length (m_records s3) = length (m_records s) \<and>
           recset (n - 1) s3 = recset n s - {m_records s ! 1} \<and>
           windowed (n - 1) b s3 \<and> heap (key b s3) (n - 1) \<and>
           (\<forall>c. c \<notin> skc ` recset (n - 1) s3 \<longrightarrow> skedIndex s3 c = skedIndex s c)"
proof -
  let ?l = "m_records s ! n"
  define s2 where "s2 = s\<lparr>m_records := (m_records s)[1 := ?l], skedIndex := (skedIndex s)(skc ?l := 1)\<rparr>"
  have store: "storeAt s 1 ?l = Some s2" using n by (simp add: storeAt_Some s2_def)
  have nth: "m_records s2 ! i = (if i = 1 then ?l else m_records s ! i)" for i
    using n by (simp add: s2_def nth_list_update)
  have inj: "i = j" if "2 \<le> i" "i \<le> n" "2 \<le> j" "j \<le> n" "skc (m_records s ! i) = skc (m_records s ! j)" for i j
    using idx that by metis
  have "skedIndex s2 (skc (m_records s2 ! i)) = i" if "1 \<le> i" "i \<le> n - 1" for i
  proof (cases "i = 1")
    case True then show ?thesis by (simp add: nth) (simp add: s2_def)
  next
    case False
    then have "2 \<le> i" "i \<le> n" "i \<noteq> n" using that n by auto
    moreover have "skc (m_records s ! i) \<noteq> skc ?l" using inj[of i n] calculation n by auto
    ultimately show ?thesis using idx[of i] by (simp add: nth) (simp add: s2_def)
  qed
  then have lk2: "links (n - 1) s2" using n by (simp add: links_def s2_def)
  have "{1..n - 1} = insert 1 {2..n - 1}" "{1..n} = insert 1 (insert n {2..n - 1})" using n by auto
  moreover have "(\<lambda>i. m_records s2 ! i) ` {2..n - 1} = (\<lambda>i. m_records s ! i) ` {2..n - 1}"
    by (intro image_cong refl) (simp add: nth)
  moreover have "m_records s ! 1 \<notin> insert ?l ((\<lambda>i. m_records s ! i) ` {2..n - 1})"
  proof
    assume "m_records s ! 1 \<in> insert ?l ((\<lambda>i. m_records s ! i) ` {2..n - 1})"
    then obtain i where "2 \<le> i" "i \<le> n" "m_records s ! 1 = m_records s ! i" using n by auto
    with root[of i] show False by simp
  qed
  ultimately have rs2: "recset (n - 1) s2 = recset n s - {m_records s ! 1}"
    by (simp add: recset_def nth) blast
  then have wn2: "windowed (n - 1) b s2" using win by (simp add: windowed_def)
  have down: "heap_down (key b s2) (n - 1) 1"
    using hole by (rule heap_hole_refill) (auto simp: key_def nth)
  have mu2: "m_used s2 = n - 1" using mu by (simp add: s2_def)
  obtain s3 where s3: "(if n - 1 > 1 then siftDown s2 1 else Some s2) = Some s3"
    "shuffled (n - 1) s2 s3" "heap (key b s3) (n - 1)"
  proof (cases "n - 1 > 1")
    case True
    with that siftDown_correct[of s2 b 1] lk2 wn2 down mu2 show ?thesis by auto
  next
    case False
    then have "heap (key b s2) (n - 1)" by (auto simp: heap_def)
    with that[of s2] False lk2 show ?thesis by simp
  qed
  have idx3: "skedIndex s3 c = skedIndex s c" if "c \<notin> skc ` recset (n - 1) s3" for c
  proof -
    have rs3: "recset (n - 1) s3 = recset (n - 1) s2" using s3(2) by (simp add: shuffled_def)
    have "?l \<in> recset (n - 1) s2" using recsetI[of 1 "n - 1" s2] n by (simp add: nth)
    with that rs3 have "c \<noteq> skc ?l" by auto
    then have "skedIndex s2 c = skedIndex s c" by (simp add: s2_def)
    with that rs3 s3(2) show ?thesis by (simp add: shuffled_def)
  qed
  show ?thesis
    using store mu2 s3 rs2 idx3 wn2 windowed_shuffled[OF s3(2), of b] mu
    by (intro exI[of _ s2] exI[of _ s3]) (simp add: shuffled_def, simp add: s2_def)
qed

text \<open>What removing the client \<open>c\<close> must achieve.\<close>

definition removed :: "'w::len clock \<Rightarrow> 'c \<Rightarrow> ('c, 'w) sked \<Rightarrow> ('c, 'w) sked \<Rightarrow> bool" where
  "removed b c s s' = (sked_inv b s' \<and> schedule s' = (schedule s)(c := None) \<and>
                       m_used s' = m_used s - 1 \<and> m_allocated s' = m_allocated s)"

lemma removedI:
  assumes wf: "sked_wf s" and lk: "links n s'" and n: "m_used s' = n" "n = m_used s - 1"
    and al: "m_allocated s' = m_allocated s" and len: "length (m_records s') = m_allocated s"
    and rs: "recset n s' = recset (m_used s) s - {r}" and r: "r \<in> recset (m_used s) s" "skc r = c"
    and wn: "windowed n b s'" and hp: "heap (key b s') n"
    and zero: "\<And>d. d \<notin> skc ` recset n s' \<Longrightarrow> skedIndex s' d = 0"
  shows "removed b c s s'"
proof -
  have wf': "sked_wf s'" using lk n al len zero by (simp add: sked_wf_alt)
  moreover have "schedule s' = (schedule s)(c := None)"
  proof (rule schedule_eqI[OF wf'])
    fix d t
    have "\<lparr>skc = d, rec_when = t\<rparr> = r \<Longrightarrow> d = c" using r(2) by auto
    moreover have "d = c \<Longrightarrow> \<lparr>skc = d, rec_when = t\<rparr> = r" if "\<lparr>skc = d, rec_when = t\<rparr> \<in> recset (m_used s) s"
      using sked_wf_client_unique[OF _ that r(1)] r(2) wf by (simp add: sked_wf_def)
    ultimately have "\<lparr>skc = d, rec_when = t\<rparr> \<in> recset (m_used s) s - {r} \<longleftrightarrow>
        d \<noteq> c \<and> \<lparr>skc = d, rec_when = t\<rparr> \<in> recset (m_used s) s" by blast
    then show "((schedule s)(c := None)) d = Some t \<longleftrightarrow> \<lparr>skc = d, rec_when = t\<rparr> \<in> recset (m_used s') s'"
      using schedule_iff[OF wf, of d t] n(1) rs by simp
  qed
  ultimately show ?thesis using n al wn hp by (simp add: removed_def sked_inv_def)
qed

lemma delClient_lemma:
  assumes inv: "sked_inv b s" and c: "schedule s c \<noteq> None"
  shows "\<exists>s'. delClient s c = Some (OK, s') \<and> removed b c s s'"
proof -
  let ?n = "m_used s" and ?i = "skedIndex s c"
  have wf: "sked_wf s" and lk: "links ?n s" and wn: "windowed ?n b s" and hp: "heap (key b s) ?n"
    using inv by (auto simp: sked_inv_def sked_wf_def)
  have i: "1 \<le> ?i" "?i \<le> ?n" "skc (m_records s ! ?i) = c"
    using c wf by (auto simp: schedule_def sked_wf_def split: if_splits)
  have len: "length (m_records s) = m_allocated s" "?n < m_allocated s"
    using wf by (auto simp: sked_wf_def links_def)
  have out: "skedIndex s d = 0" if "d \<notin> skc ` recset ?n s" for d using wf that by (simp add: sked_wf_alt)
  have ri: "m_records s ! ?i \<in> recset ?n s" using i by (simp add: recsetI)
  show ?thesis
  proof (cases "?n > 1")
    case False
    with i have one: "?n = 1" "?i = 1" by auto
    let ?s = "s\<lparr>m_used := 0, skedIndex := (skedIndex s)(c := 0)\<rparr>"
    have ret: "delClient s c = Some (OK, ?s)" using one i by (simp add: delClient_def remove_def)
    have "removed b c s ?s"
    proof (rule removedI[OF wf, of 0 _ "m_records s ! 1"])
      fix d assume "d \<notin> skc ` recset 0 ?s"
      show "skedIndex ?s d = 0" using out[of d] i one by (auto simp: recset_def)
    qed (use one i len ri in \<open>auto simp: links_def recset_def windowed_def heap_def\<close>)
    with ret show ?thesis by blast
  next
    case True
    let ?s0 = "s\<lparr>m_used := ?n - 1\<rparr>"
    have same: "links ?n ?s0" "key b ?s0 = key b s" "recset k ?s0 = recset k s" for k
      using lk by (auto simp: links_def key_def recset_def fun_eq_iff)
    obtain s1 where s1: "moveToTop ?s0 ?i = Some s1" "shuffled ?n ?s0 s1" "heap_hole (key b s1) ?n 1"
      "m_records s1 ! 1 = m_records s ! ?i"
      using moveToTop_correct[OF same(1) i(1,2), of b] heap_hole_start[OF hp i(1,2)] same(2) by auto
    have f1: "recset ?n s1 = recset ?n s" "m_used s1 = ?n - 1" "m_allocated s1 = m_allocated s"
      "length (m_records s1) = m_allocated s" "links ?n s1"
      using s1(2) len same(3) by (auto simp: shuffled_def)
    have "windowed ?n b s1" using wn f1 by (simp add: windowed_def)
    moreover have "skc (m_records s1 ! j) \<noteq> skc (m_records s1 ! 1)" if "2 \<le> j" "j \<le> ?n" for j
      using links_inj[OF f1(5), of j 1] that by auto
    ultimately obtain s2 s3 where s3: "storeAt s1 1 (m_records s1 ! ?n) = Some s2" "m_used s2 = ?n - 1"
      "(if ?n - 1 > 1 then siftDown s2 1 else Some s2) = Some s3" "links (?n - 1) s3"
      "m_used s3 = ?n - 1" "m_allocated s3 = m_allocated s1"
      "length (m_records s3) = length (m_records s1)"
      "recset (?n - 1) s3 = recset ?n s1 - {m_records s1 ! 1}" "windowed (?n - 1) b s3"
      "heap (key b s3) (?n - 1)" "\<forall>d. d \<notin> skc ` recset (?n - 1) s3 \<longrightarrow> skedIndex s3 d = skedIndex s1 d"
      using refill_root[of ?n s1 b] True f1 s1(3) len linksD[OF f1(5)] by auto
    let ?s = "s3\<lparr>skedIndex := (skedIndex s3)(c := 0)\<rparr>"
    have "Suc (?n - Suc 0) = ?n" "?n < length (m_records s1)" using True f1 len by auto
    then have "remove s ?i = Some s3"
      using True i s1(1) f1 s3(1,2,3) by (simp add: remove_def Let_def)
    then have ret: "delClient s c = Some (OK, ?s)" using True i by (simp add: delClient_def)
    have notin: "c \<notin> skc ` recset (?n - 1) s3"
    proof
      assume "c \<in> skc ` recset (?n - 1) s3"
      then obtain r where r: "r \<in> recset ?n s" "r \<noteq> m_records s ! ?i" "skc r = c"
        using s3(8) f1(1) s1(4) by auto
      from r(3) i(3) have "skc r = skc (m_records s ! ?i)" by simp
      with sked_wf_client_unique[OF lk r(1) ri] r(2) show False by simp
    qed
    have "removed b c s ?s"
    proof (rule removedI[OF wf, of "?n - 1" _ "m_records s ! ?i"])
      have "m_records s3 ! j \<in> recset (?n - 1) s3" if "1 \<le> j" "j \<le> ?n - 1" for j using that by (rule recsetI)
      then show "links (?n - 1) ?s" using s3(4) notin by (auto simp: links_def)
      show "skedIndex ?s d = 0" if "d \<notin> skc ` recset (?n - 1) ?s" for d
      proof (cases "d = c")
        case False
        have d: "d \<notin> skc ` recset (?n - 1) s3" using that by (simp add: recset_def)
        with False s3(8) f1(1) s1(4) i(3) have d': "d \<notin> skc ` recset ?n s" by auto
        then have "skedIndex s1 d = skedIndex s d" using s1(2) same(3) by (auto simp: shuffled_def)
        with d d' s3(11) out show ?thesis by simp
      qed simp
      show "recset (?n - 1) ?s = recset ?n s - {m_records s ! ?i}"
        using s3(8) f1(1) s1(4) by (simp add: recset_def)
      show "windowed (?n - 1) b ?s" using s3(9) by (simp add: windowed_def recset_def)
      have "key b ?s = key b s3" by (simp add: key_def fun_eq_iff)
      with s3(10) show "heap (key b ?s) (?n - 1)" by (simp del: One_nat_def)
    qed (use s3(5,6,7) f1(3,4) ri i(3) in simp_all)
    with ret show ?thesis by blast
  qed
qed


lemma pop_lemma:
  assumes inv: "sked_inv b s" and pos: "m_used s > 0"
  shows "\<exists>s'. pop s = Some s' \<and> removed b (skc (m_records s ! 1)) s s'"
proof -
  let ?n = "m_used s" and ?c = "skc (m_records s ! 1)"
  have wf: "sked_wf s" and lk: "links ?n s" and wn: "windowed ?n b s" and hp: "heap (key b s) ?n"
    using inv by (auto simp: sked_inv_def sked_wf_def)
  have len: "length (m_records s) = m_allocated s" "?n < length (m_records s)"
    using wf by (auto simp: sked_wf_def links_def)
  have out: "skedIndex s d = 0" if "d \<notin> skc ` recset ?n s" for d using wf that by (simp add: sked_wf_alt)
  have r1: "m_records s ! 1 \<in> recset ?n s" using pos by (intro recsetI) auto
  have i1: "skedIndex s ?c = 1" using linksD[OF lk, of 1] pos by simp
  let ?s1 = "s\<lparr>skedIndex := (skedIndex s)(?c := 0), m_used := ?n - 1\<rparr>"
  have same: "key b ?s1 = key b s" "recset k ?s1 = recset k s" for k
    by (auto simp: key_def recset_def fun_eq_iff)
  show ?thesis
  proof (cases "?n > 1")
    case False
    with pos have one: "?n = 1" by simp
    have ret: "pop s = Some ?s1" using one len i1 by (simp add: pop_def sked_empty_def)
    have "removed b ?c s ?s1"
    proof (rule removedI[OF wf, of 0 _ "m_records s ! 1"])
      fix d assume "d \<notin> skc ` recset 0 ?s1"
      show "skedIndex ?s1 d = 0" using out[of d] one by (auto simp: recset_def)
    qed (use one len r1 in \<open>auto simp: links_def recset_def windowed_def heap_def\<close>)
    with ret show ?thesis by blast
  next
    case True
    have other: "skc (m_records s ! j) \<noteq> ?c" if "2 \<le> j" "j \<le> ?n" for j
      using links_inj[OF lk, of j 1] that by auto
    have idx: "skedIndex ?s1 (skc (m_records s ! j)) = j" if "2 \<le> j" "j \<le> ?n" for j
      using other[OF that] linksD[OF lk, of j] that by simp
    have hole: "heap_hole (key b ?s1) ?n 1" using heap_hole_start[OF hp, of 1] True same(1) by simp
    obtain s2 s3 where s3: "storeAt ?s1 1 (m_records s ! ?n) = Some s2" "m_used s2 = ?n - 1"
      "(if ?n - 1 > 1 then siftDown s2 1 else Some s2) = Some s3" "links (?n - 1) s3"
      "m_used s3 = ?n - 1" "m_allocated s3 = m_allocated s"
      "length (m_records s3) = length (m_records s)"
      "recset (?n - 1) s3 = recset ?n s - {m_records s ! 1}" "windowed (?n - 1) b s3"
      "heap (key b s3) (?n - 1)" "\<forall>d. d \<notin> skc ` recset (?n - 1) s3 \<longrightarrow> skedIndex s3 d = skedIndex ?s1 d"
      using refill_root[of ?n ?s1 b] True len wn hole idx other same(2) by (auto simp: windowed_def)
    have "skedIndex s3 (skc (m_records s3 ! 1)) = 1" "1 < length (m_records s3)"
      using linksD[OF s3(4), of 1] True by auto
    then have ret: "pop s = Some s3"
      using True len i1 s3(1,2,3) by (simp add: pop_def sked_empty_def Let_def)
    have "removed b ?c s s3"
    proof (rule removedI[OF wf s3(4) s3(5) refl s3(6) _ s3(8) r1 refl s3(9,10)])
      fix d assume d: "d \<notin> skc ` recset (?n - 1) s3"
      show "skedIndex s3 d = 0"
      proof (cases "d = ?c")
        case False
        with d s3(8) have "d \<notin> skc ` recset ?n s" by auto
        with out s3(11) d show ?thesis by simp
      qed (use d s3(11) in simp)
    qed (use s3(7) len in simp)
    with ret show ?thesis by blast
  qed
qed

lemma top_least:
  assumes inv: "sked_inv b s" and pos: "m_used s > 0"
  shows "top s = Some (Some (m_records s ! 1))"
    and "schedule s (skc (m_records s ! 1)) = Some (rec_when (m_records s ! 1))"
    and "schedule s d = Some t \<Longrightarrow> ticks b (rec_when (m_records s ! 1)) \<le> ticks b t"
proof -
  have wf: "sked_wf s" and lk: "links (m_used s) s" and hp: "heap (key b s) (m_used s)"
    using inv by (auto simp: sked_inv_def sked_wf_def)
  show "top s = Some (Some (m_records s ! 1))"
    using pos linksD[OF lk, of 1] by (simp add: top_def sked_empty_def)
  show "schedule s (skc (m_records s ! 1)) = Some (rec_when (m_records s ! 1))"
    using linksD[OF lk, of 1] pos by (simp add: schedule_def)
  assume "schedule s d = Some t"
  then have "\<lparr>skc = d, rec_when = t\<rparr> \<in> recset (m_used s) s" using schedule_iff[OF wf] by simp
  then obtain i where i: "1 \<le> i" "i \<le> m_used s" "m_records s ! i = \<lparr>skc = d, rec_when = t\<rparr>"
    by (auto simp: recset_def)
  with heap_root_least[OF hp i(1,2)] show "ticks b (rec_when (m_records s ! 1)) \<le> ticks b t"
    by (simp add: key_def)
qed

lemma schedule_window:
  "sked_inv b s \<Longrightarrow> schedule s c = Some t \<Longrightarrow> in_window b t"
  using schedule_iff[of s c t] by (auto simp: sked_inv_def windowed_def)

lemma finite_schedule: "sked_wf s \<Longrightarrow> finite (dom (schedule s))"
proof -
  assume wf: "sked_wf s"
  have "dom (schedule s) \<subseteq> skc ` recset (m_used s) s"
    using schedule_iff[OF wf] by (force simp: image_iff)
  moreover have "finite (skc ` recset (m_used s) s)" by (simp add: recset_def)
  ultimately show ?thesis by (rule finite_subset)
qed

lemma schedule_empty_iff: "sked_wf s \<Longrightarrow> schedule s = Map.empty \<longleftrightarrow> m_used s = 0"
proof
  assume wf: "sked_wf s" and e: "schedule s = Map.empty"
  show "m_used s = 0"
  proof (rule ccontr)
    assume "m_used s \<noteq> 0"
    then have "m_records s ! 1 \<in> recset (m_used s) s" by (intro recsetI) auto
    then have "\<lparr>skc = skc (m_records s ! 1), rec_when = rec_when (m_records s ! 1)\<rparr> \<in> recset (m_used s) s"
      by (cases "m_records s ! 1") simp
    with schedule_iff[OF wf] e show False by (metis option.distinct(1))
  qed
next
  assume wf: "sked_wf s" and "m_used s = 0"
  then show "schedule s = Map.empty" by (auto simp: sked_wf_def schedule_def fun_eq_iff)
qed

subsection \<open>Running the due events\<close>

definition due :: "'w::len clock \<Rightarrow> ('c, 'w) sked \<Rightarrow> 'c set" where
  "due now s = {c. \<exists>t. schedule s c = Some t \<and> \<not> eclock_after t now}"

text \<open>One iteration: either nothing is due and the loop stops, or the least event is delivered.\<close>

text \<open>The body of the loop, with the next iteration as an argument.\<close>

definition runAll_body ::
  "(('c, 'w::len, 'x) callback \<Rightarrow> 'w clock \<Rightarrow> ('c, 'w) sked \<times> 'x \<Rightarrow> (rc \<times> ('c, 'w) sked \<times> 'x) option) \<Rightarrow>
   ('c, 'w, 'x) callback \<Rightarrow> 'w clock \<Rightarrow> ('c, 'w) sked \<times> 'x \<Rightarrow> (rc \<times> ('c, 'w) sked \<times> 'x) option" where
  "runAll_body rec cb now sx = do {
     t \<leftarrow> top (fst sx);
     case t of
       None \<Rightarrow> Some (OK, sx)
     | Some p \<Rightarrow>
         if eclock_after (rec_when p) now then Some (OK, sx)
         else do {
           let i = skedIndex (fst sx) (skc p);
           bad \<leftarrow> (if i < 1 \<or> i > m_used (fst sx) then Some True
                  else do { r \<leftarrow> rd (m_records (fst sx)) i; Some (skc r \<noteq> skc p) });
           if bad then Some (Fail EINVAL, sx)
           else do {
             assertion (i = 1);
             s1 \<leftarrow> pop (fst sx);
             assertion (skedIndex s1 (skc p) = 0);
             sx' \<leftarrow> cb (skc p) now (s1, snd sx);
             rec cb now sx'
           }
         }
   }"

lemma runAll_unfold: "runAll cb now sx = runAll_body runAll cb now sx"
  unfolding runAll_body_def by (rule runAll.simps)

lemma runAll_body_stop:
  assumes inv: "sked_inv b s" and now: "in_window b now" and none: "due now s = {}"
  shows "runAll_body rec cb now (s, x) = Some (OK, s, x)"
proof (cases "m_used s = 0")
  case True
  then show ?thesis by (simp add: runAll_body_def top_def sked_empty_def)
next
  case False
  then have pos: "m_used s > 0" by simp
  have "eclock_after (rec_when (m_records s ! 1)) now"
    using none top_least(2)[OF inv pos] by (auto simp: due_def)
  then show ?thesis using top_least(1)[OF inv pos] by (simp add: runAll_body_def)
qed

lemma runAll_body_next:
  assumes inv: "sked_inv b s" and now: "in_window b now" and some: "due now s \<noteq> {}"
  shows "schedule s (skc (m_records s ! 1)) = Some (rec_when (m_records s ! 1))" "\<not> eclock_after (rec_when (m_records s ! 1)) now"
    "\<And>d u. schedule s d = Some u \<Longrightarrow> ticks b (rec_when (m_records s ! 1)) \<le> ticks b u"
    "removed b (skc (m_records s ! 1)) s (the (pop s))"
    "\<And>rec cb x. runAll_body rec cb now (s, x) = do { sx' \<leftarrow> cb (skc (m_records s ! 1)) now (the (pop s), x); rec cb now sx' }"
proof -
  from some obtain e v where du: "schedule s e = Some v" "\<not> eclock_after v now" by (auto simp: due_def)
  have pos: "m_used s > 0" using schedule_empty_iff[of s] inv du(1) by (auto simp: sked_inv_def)
  let ?r = "m_records s ! 1"
  have lk: "links (m_used s) s" using inv by (auto simp: sked_inv_def sked_wf_def)
  note tl = top_least[OF inv pos]
  show ndue: "\<not> eclock_after (rec_when ?r) now"
    using eclock_after_ticks[of b "rec_when ?r" now] eclock_after_ticks[of b v now]
      schedule_window[OF inv tl(2)] schedule_window[OF inv du(1)] now du(2) tl(3)[OF du(1)] by simp
  obtain s1 where s1: "pop s = Some s1" "removed b (skc ?r) s s1" using pop_lemma[OF inv pos] by blast
  then have "schedule s1 (skc ?r) = None" by (simp add: removed_def)
  then have z: "skedIndex s1 (skc ?r) = 0" by (simp add: schedule_def split: if_splits)
  show "\<And>rec cb x. runAll_body rec cb now (s, x) = do { sx' \<leftarrow> cb (skc ?r) now (the (pop s), x); rec cb now sx' }"
    using tl(1) ndue linksD[OF lk, of 1] pos s1(1) z by (simp add: runAll_body_def Let_def)
  show "schedule s (skc ?r) = Some (rec_when ?r)" "removed b (skc ?r) s (the (pop s))"
    using tl(2) s1 by simp_all
  show "\<And>d u. schedule s d = Some u \<Longrightarrow> ticks b (rec_when ?r) \<le> ticks b u" by (rule tl(3))
qed

lemma runAll_stop:
  assumes "sked_inv b s" "in_window b now" "due now s = {}"
  shows "runAll cb now (s, x) = Some (OK, s, x)"
  unfolding runAll_unfold[of cb now "(s, x)"] by (rule runAll_body_stop[OF assms])

lemma runAll_deliver:
  fixes s :: "('a, 'b::len) sked"
  assumes "sked_inv b s" "in_window b now" "due now s \<noteq> {}"
  obtains c t s1 where "schedule s c = Some t" "\<not> eclock_after t now"
    "\<And>d u. schedule s d = Some u \<Longrightarrow> ticks b t \<le> ticks b u" "removed b c s s1"
    "\<And>(cb :: ('a, 'b, 'c) callback) x. runAll cb now (s, x) = do { sx' \<leftarrow> cb c now (s1, x); runAll cb now sx' }"
proof (rule that[OF runAll_body_next(1-4)[OF assms]])
  fix cb :: "('a, 'b, 'c) callback" and x
  show "runAll cb now (s, x) = do { sx' \<leftarrow> cb (skc (m_records s ! 1)) now (the (pop s), x); runAll cb now sx' }"
    unfolding runAll_unfold[of cb now "(s, x)"] by (rule runAll_body_next(5)[OF assms])
qed

text \<open>
  A callback that returns, keeps the invariant and queues nothing that is already due. It may
  delete any client and queue later events.
\<close>

definition cb_ok :: "'w::len clock \<Rightarrow> 'w clock \<Rightarrow> ('c, 'w, 'x) callback \<Rightarrow> bool" where
  "cb_ok b now cb = (\<forall>c s x. sked_inv b s \<longrightarrow> schedule s c = None \<longrightarrow>
     (\<exists>s' x'. cb c now (s, x) = Some (s', x') \<and> sked_inv b s' \<and> due now s' \<subseteq> due now s))"

lemma due_removed:
  assumes "removed b c s s1" "schedule s c = Some t" "\<not> eclock_after t now"
  shows "due now s1 = due now s - {c}" "c \<in> due now s"
  using assms by (auto simp: removed_def due_def)

lemma finite_due: "sked_inv b s \<Longrightarrow> finite (due now s)"
  by (rule finite_subset[OF _ finite_schedule[of s]]) (auto simp: due_def sked_inv_def)

lemma runAll_drains:
  assumes "sked_inv b s" "in_window b now" "cb_ok b now cb"
  shows "\<exists>s' x'. runAll cb now (s, x) = Some (OK, s', x') \<and> sked_inv b s' \<and> due now s' = {}"
  using assms(1)
proof (induction "card (due now s)" arbitrary: s x rule: less_induct)
  case less
  show ?case
  proof (cases "due now s = {}")
    case True
    with runAll_stop[OF less.prems assms(2) True, of cb x] less.prems show ?thesis by blast
  next
    case False
    then obtain c t s1 where d: "schedule s c = Some t" "\<not> eclock_after t now" "removed b c s s1"
      and step: "runAll cb now (s, x) = do { sx' \<leftarrow> cb c now (s1, x); runAll cb now sx' }"
      using runAll_deliver[OF less.prems assms(2)] by metis
    have "sked_inv b s1" "schedule s1 c = None" using d(3) by (auto simp: removed_def)
    then obtain s2 x2 where s2: "cb c now (s1, x) = Some (s2, x2)" "sked_inv b s2" "due now s2 \<subseteq> due now s1"
      using assms(3) unfolding cb_ok_def by blast
    have "due now s2 \<subset> due now s" using s2(3) due_removed[OF d(3,1,2)] by auto
    then have "card (due now s2) < card (due now s)"
      by (rule psubset_card_mono[OF finite_due[OF less.prems]])
    from less.hyps[OF this s2(2), of x2] show ?thesis using step s2(1) by simp
  qed
qed

text \<open>A callback that only records who was called, to observe the order of delivery.\<close>

definition record_cb :: "('c, 'w::len, 'c list) callback" where
  "record_cb c now sx = Some (fst sx, snd sx @ [c])"

text \<open>
  What a callback does, observed: \<open>logged_cb\<close> keeps a list of the clients called, each with the
  queue as it finds it and as it leaves it.
\<close>

type_synonym ('c, 'w) queue = "'c \<rightharpoonup> 'w clock"
type_synonym ('c, 'w) delivery = "'c \<times> ('c, 'w) queue \<times> ('c, 'w) queue"

definition logged_cb :: "('c, 'w::len, 'x) callback \<Rightarrow> ('c, 'w, 'x \<times> ('c, 'w) delivery list) callback" where
  "logged_cb cb c now = (\<lambda>(s, x, l). do { (s', x') \<leftarrow> cb c now (s, x); Some (s', x', l @ [(c, schedule s, schedule s')]) })"

text \<open>
  The order of delivery: as long as something is due, the client with the least time is taken off the
  queue and called, and what its callback leaves is the queue from there on.
\<close>

fun delivered :: "'w::len clock \<Rightarrow> 'w clock \<Rightarrow> ('c, 'w) queue \<Rightarrow> ('c, 'w) delivery list \<Rightarrow> ('c, 'w) queue \<Rightarrow> bool" where
  "delivered b now q [] q' = (q' = q \<and> (\<forall>c t. q c = Some t \<longrightarrow> eclock_after t now))"
| "delivered b now q ((c, q1, q2) # l) q' =
     ((\<exists>t. q c = Some t \<and> \<not> eclock_after t now \<and> (\<forall>d u. q d = Some u \<longrightarrow> ticks b t \<le> ticks b u)) \<and>
      q1 = q(c := None) \<and> delivered b now q2 l q')"

text \<open>
  A callback that keeps the queue well-formed if it returns; and one that besides returns, and queues
  nothing for \<open>now\<close> or before.
\<close>

definition cb_keeps :: "'w::len clock \<Rightarrow> 'w clock \<Rightarrow> ('c, 'w, 'x) callback \<Rightarrow> bool" where
  "cb_keeps b now cb = (\<forall>c s x s' x'. sked_inv b s \<longrightarrow> schedule s c = None \<longrightarrow> cb c now (s, x) = Some (s', x') \<longrightarrow> sked_inv b s')"

definition cb_later :: "'w::len clock \<Rightarrow> 'w clock \<Rightarrow> ('c, 'w, 'x) callback \<Rightarrow> bool" where
  "cb_later b now cb = (\<forall>c s x. sked_inv b s \<longrightarrow> schedule s c = None \<longrightarrow>
     (\<exists>s' x'. cb c now (s, x) = Some (s', x') \<and> sked_inv b s' \<and> (\<forall>d \<in> due now s'. schedule s' d = schedule s d)))"

lemma cb_laterD:
  assumes "cb_later b now cb"
  shows "cb_ok b now cb" "cb_keeps b now cb"
    and "sked_inv b s \<Longrightarrow> schedule s c = None \<Longrightarrow> cb c now (s, x) = Some (s', x') \<Longrightarrow> d \<in> due now s' \<Longrightarrow> schedule s' d = schedule s d"
proof -
  have "due now s' \<subseteq> due now s" if "\<forall>d \<in> due now s'. schedule s' d = schedule s d" for s s' :: "('b, 'a) sked"
    using that by (auto simp: due_def)
  then show "cb_ok b now cb" using assms unfolding cb_later_def cb_ok_def by meson
  show "cb_keeps b now cb" unfolding cb_keeps_def
  proof (intro allI impI)
    fix c s x s' x' assume a: "sked_inv b s" "schedule s c = None" "cb c now (s, x) = Some (s', x')"
    show "sked_inv b s'" using assms[unfolded cb_later_def, rule_format, OF a(1,2), of x] a(3) by auto
  qed
  show "sked_inv b s \<Longrightarrow> schedule s c = None \<Longrightarrow> cb c now (s, x) = Some (s', x') \<Longrightarrow> d \<in> due now s' \<Longrightarrow> schedule s' d = schedule s d"
  proof -
    assume a: "sked_inv b s" "schedule s c = None" "cb c now (s, x) = Some (s', x')" and d: "d \<in> due now s'"
    show "schedule s' d = schedule s d" using assms[unfolded cb_later_def, rule_format, OF a(1,2), of x] a(3) d by auto
  qed
qed

text \<open>Every entry of the log is a call.\<close>

definition called :: "'w::len clock \<Rightarrow> 'w clock \<Rightarrow> ('c, 'w, 'x) callback \<Rightarrow> ('c, 'w) delivery \<Rightarrow> bool" where
  "called b now cb = (\<lambda>(c, q1, q2). \<exists>s x s' x'. sked_inv b s \<and> q1 = schedule s \<and> q1 c = None \<and> cb c now (s, x) = Some (s', x') \<and> q2 = schedule s')"

lemma runAll_delivers:
  fixes cb :: "('c, 'w::len, 'x) callback"
  assumes keeps: "cb_keeps b now cb" and now: "in_window b now"
  shows "runAll cb now (s, x) = Some res \<Longrightarrow> sked_inv b s \<Longrightarrow>
    \<exists>s' x' l. res = (OK, s', x') \<and> sked_inv b s' \<and> delivered b now (schedule s) l (schedule s') \<and> list_all (called b now cb) l \<and>
      (\<forall>l0. runAll (logged_cb cb) now (s, x, l0) = Some (OK, s', x', l0 @ l))"
proof -
  have "cb0 = cb \<longrightarrow> now0 = now \<longrightarrow> (\<forall>s x. sx0 = (s, x) \<longrightarrow> sked_inv b s \<longrightarrow>
    (\<exists>s' x' l. r0 = (OK, s', x') \<and> sked_inv b s' \<and> delivered b now (schedule s) l (schedule s') \<and> list_all (called b now cb) l \<and>
      (\<forall>l0. runAll (logged_cb cb) now (s, x, l0) = Some (OK, s', x', l0 @ l))))"
    if "runAll cb0 now0 sx0 = Some r0" for cb0 :: "('c, 'w, 'x) callback" and now0 sx0 r0
    using that
  proof (induction rule: runAll.raw_induct[rotated, consumes 1, case_names round])
    case (round rec cb0 now0 sx0 r0)
    show ?case
    proof (intro impI allI)
      fix s x assume eqs: "cb0 = cb" "now0 = now" "sx0 = (s, x)" and inv: "sked_inv b s"
      note body = round(2)[folded runAll_body_def, unfolded eqs]
      show "\<exists>s' x' l. r0 = (OK, s', x') \<and> sked_inv b s' \<and> delivered b now (schedule s) l (schedule s') \<and> list_all (called b now cb) l \<and>
        (\<forall>l0. runAll (logged_cb cb) now (s, x, l0) = Some (OK, s', x', l0 @ l))"
      proof (cases "due now s = {}")
        case True
        have "r0 = (OK, s, x)" using body unfolding runAll_body_stop[OF inv now True] by simp
        moreover have "delivered b now (schedule s) [] (schedule s)" using True by (auto simp: due_def)
        ultimately show ?thesis using inv runAll_stop[OF inv now True, of "logged_cb cb"]
          by (intro exI[of _ s] exI[of _ x] exI[of _ "[]"]) simp
      next
        case False
        let ?c = "skc (m_records s ! 1)" and ?s1 = "the (pop s)"
        note nx = runAll_body_next[OF inv now False]
        obtain s2 x2 where c: "cb ?c now (?s1, x) = Some (s2, x2)" "rec cb now (s2, x2) = Some r0"
          using body unfolding nx(5) by (auto simp: bind_eq_Some_conv)
        have s1: "sked_inv b ?s1" "schedule ?s1 = (schedule s)(?c := None)" using nx(4) by (simp_all add: removed_def)
        then have s2: "sked_inv b s2" using keeps c(1) unfolding cb_keeps_def by (metis fun_upd_same)
        obtain s' x' l where l: "r0 = (OK, s', x')" "sked_inv b s'" "delivered b now (schedule s2) l (schedule s')"
          "list_all (called b now cb) l" "\<And>l0. runAll (logged_cb cb) now (s2, x2, l0) = Some (OK, s', x', l0 @ l)"
          using round(1)[OF c(2)] s2 by blast
        have "runAll (logged_cb cb) now (s, x, l0) = Some (OK, s', x', l0 @ (?c, schedule ?s1, schedule s2) # l)" for l0
          unfolding runAll_unfold[of _ _ "(s, x, l0)"] nx(5) using c(1) l(5) by (simp add: logged_cb_def)
        moreover have "delivered b now (schedule s) ((?c, schedule ?s1, schedule s2) # l) (schedule s')"
          using nx(1-3) s1(2) l(3) by auto
        moreover have "called b now cb (?c, schedule ?s1, schedule s2)"
          unfolding called_def prod.case using s1 c(1) by (intro exI[of _ ?s1] exI[of _ x] exI[of _ s2] exI[of _ x2]) simp
        ultimately show ?thesis using l(1,2,4)
          by (intro exI[of _ s'] exI[of _ x'] exI[of _ "(?c, schedule ?s1, schedule s2) # l"]) simp
      qed
    qed
  qed
  then show "runAll cb now (s, x) = Some res \<Longrightarrow> sked_inv b s \<Longrightarrow>
    \<exists>s' x' l. res = (OK, s', x') \<and> sked_inv b s' \<and> delivered b now (schedule s) l (schedule s') \<and> list_all (called b now cb) l \<and>
      (\<forall>l0. runAll (logged_cb cb) now (s, x, l0) = Some (OK, s', x', l0 @ l))" by blast
qed

lemma delivered_none: "delivered b now q l q' \<Longrightarrow> q' c = Some t \<Longrightarrow> eclock_after t now"
  by (induction b now q l q' rule: delivered.induct) auto

lemma delivered_called:
  "delivered b now q l q' \<Longrightarrow> q c = Some t \<Longrightarrow> \<not> eclock_after t now \<Longrightarrow> c \<in> fst ` set l \<or> (\<exists>(d, q1, q2) \<in> set l. q1 c = q c \<and> q2 c \<noteq> q c)"
proof (induction l arbitrary: q)
  case (Cons e l)
  obtain d q1 q2 where e: "e = (d, q1, q2)" by (cases e)
  have d: "q1 = q(d := None)" "delivered b now q2 l q'" using Cons.prems(1) by (simp_all add: e)
  show ?case
  proof (cases "c = d \<or> q2 c \<noteq> q c")
    case True
    then show ?thesis using d(1) by (auto simp: e)
  next
    case False
    with Cons.IH[OF d(2)] Cons.prems(2,3) have "c \<in> fst ` set l \<or> (\<exists>(d, q1, q2) \<in> set l. q1 c = q c \<and> q2 c \<noteq> q c)" by simp
    then show ?thesis by (simp, blast)
  qed
qed auto

lemma delivered_later:
  assumes "delivered b now q l q'" "\<forall>(c, q1, q2) \<in> set l. \<forall>d t. q2 d = Some t \<longrightarrow> \<not> eclock_after t now \<longrightarrow> q1 d = Some t"
  shows "distinct (map fst l) \<and> sorted (map (\<lambda>e. ticks b (the (q (fst e)))) l) \<and> (\<forall>e \<in> set l. \<exists>t. q (fst e) = Some t \<and> \<not> eclock_after t now)"
  using assms
proof (induction b now q l q' rule: delivered.induct)
  case (2 b now q c q1 q2 l q')
  obtain t where t: "q c = Some t" "\<not> eclock_after t now" "\<forall>d u. q d = Some u \<longrightarrow> ticks b t \<le> ticks b u" "q1 = q(c := None)"
    using "2.prems"(1) by auto
  have ih: "distinct (map fst l)" "sorted (map (\<lambda>e. ticks b (the (q2 (fst e)))) l)" "\<forall>e \<in> set l. \<exists>t. q2 (fst e) = Some t \<and> \<not> eclock_after t now"
    using "2.IH" "2.prems" by auto
  have same: "\<exists>u. q2 (fst e) = Some u \<and> q (fst e) = Some u \<and> fst e \<noteq> c \<and> \<not> eclock_after u now" if e: "e \<in> set l" for e
  proof -
    obtain u where u: "q2 (fst e) = Some u" "\<not> eclock_after u now" using ih(3) e by blast
    then have "q1 (fst e) = Some u" using "2.prems"(2) by auto
    with u t(4) show ?thesis by (auto split: if_splits)
  qed
  have eq: "map (\<lambda>e. ticks b (the (q2 (fst e)))) l = map (\<lambda>e. ticks b (the (q (fst e)))) l"
    using same by (intro map_cong) fastforce+
  have "\<forall>e \<in> set l. ticks b t \<le> ticks b (the (q (fst e)))" using same t(3) by fastforce
  moreover have "c \<notin> fst ` set l" using same by blast
  ultimately show ?case using ih(1,2) same t(1,2) unfolding eq by fastforce
qed simp

subsection \<open>The self-check\<close>

text \<open>
  \<open>isHeap(lb, ub)\<close>, compiled in under \<open>EXPENSIVE_TESTS\<close>: its two loops, with the assertions that
  each record's client points back.
\<close>

definition isHeap :: "('c, 'w::len) sked \<Rightarrow> nat \<Rightarrow> nat \<Rightarrow> bool option" where
  "isHeap s lb ub = do {
     assertion (1 \<le> lb \<and> lb \<le> m_used s);
     assertion (1 \<le> ub \<and> ub \<le> m_used s);
     assertion (\<forall>i \<in> set [lb..<min (2 * lb) ub]. skedIndex s (skc (m_records s ! i)) = i);
     Some (\<forall>i \<in> set [2 * lb..<ub + 1].
             \<not> eclock_after (rec_when (m_records s ! (i div 2))) (rec_when (m_records s ! i)) \<and>
             i = skedIndex s (skc (m_records s ! i)))
   }"

lemma isHeap_lemma:
  assumes inv: "sked_inv b s" and pos: "m_used s > 0"
  shows "isHeap s 1 (m_used s) = Some True"
proof -
  have wf: "links (m_used s) s" "windowed (m_used s) b s" "heap (key b s) (m_used s)"
    using inv by (auto simp: sked_inv_def sked_wf_def)
  have "\<not> eclock_after (rec_when (m_records s ! (i div 2))) (rec_when (m_records s ! i))"
    if "2 \<le> i" "i \<le> m_used s" for i
    using after_key[OF wf(2), of "i div 2" i] heapD[OF wf(3) that] that by auto
  then have "\<forall>i \<in> set [2 * 1..<m_used s + 1].
      \<not> eclock_after (rec_when (m_records s ! (i div 2))) (rec_when (m_records s ! i)) \<and>
      i = skedIndex s (skc (m_records s ! i))"
    using linksD[OF wf(1)] by auto
  moreover have "\<forall>i \<in> set [1..<min (2 * 1) (m_used s)]. skedIndex s (skc (m_records s ! i)) = i"
    using linksD[OF wf(1)] by auto
  moreover have "(1::nat) \<le> 1 \<and> 1 \<le> m_used s" "1 \<le> m_used s \<and> m_used s \<le> m_used s" using pos by auto
  ultimately show ?thesis unfolding isHeap_def by (simp del: set_upt One_nat_def)
qed

subsection \<open>Sked provides the scheduler interface\<close>

lemma delClient_total:
  assumes inv: "sked_inv b s"
  shows "\<exists>s'. delClient s c = Some (OK, s') \<and> sked_inv b s' \<and> schedule s' = (schedule s)(c := None) \<and>
              (room ralloc s \<longrightarrow> room ralloc s')"
proof (cases "schedule s c")
  case None
  then have "delClient s c = Some (OK, s)" by (auto simp: delClient_def schedule_def split: if_splits)
  with None inv show ?thesis by auto
next
  case (Some t)
  obtain s' where s': "delClient s c = Some (OK, s')" "removed b c s s'"
    using delClient_lemma[OF inv, of c] Some by auto
  have "m_used s < m_allocated s" using inv by (auto simp: sked_inv_def sked_wf_def links_def)
  moreover have "m_used s \<noteq> 0" using Some inv schedule_empty_iff[of s] by (auto simp: sked_inv_def)
  ultimately have "room ralloc s'" using s'(2) by (auto simp: removed_def room_def)
  with s' show ?thesis by (auto simp: removed_def)
qed

interpretation sk: timer_queue "addClient ralloc" delClient schedule
  "\<lambda>s. realloc_ok ralloc \<and> sked_inv b s" "room ralloc" "in_window b"
  for ralloc :: "('c, 'w::len) reallocator" and b :: "'w clock"
proof unfold_locales
  fix s :: "('c, 'w) sked" and c :: 'c and t :: "'w clock"
  assume "realloc_ok ralloc \<and> sked_inv b s" "room ralloc s" "schedule s c = None" "in_window b t"
  then show "\<exists>s'. addClient ralloc s c t = Some (OK, s') \<and> (realloc_ok ralloc \<and> sked_inv b s') \<and>
                  schedule s' = (schedule s)(c \<mapsto> t)"
    using addClient_lemma[of b s ralloc c t] by simp
next
  fix s :: "('c, 'w) sked" and c :: 'c
  assume "realloc_ok ralloc \<and> sked_inv b s"
  then show "\<exists>s'. delClient s c = Some (OK, s') \<and> (realloc_ok ralloc \<and> sked_inv b s') \<and>
                  schedule s' = (schedule s)(c := None) \<and> (room ralloc s \<longrightarrow> room ralloc s')"
    using delClient_total[of b s c ralloc] by simp
qed

lemma sked_init_inv:
  assumes "length xs = 256" "\<And>c. skedIndex s c = 0"
  shows "sked_inv b (snd (sked_init (Some xs) s))" "schedule (snd (sked_init (Some xs) s)) = Map.empty"
  using assms
  by (auto simp: sked_init_def sked_inv_def sked_wf_def links_def windowed_def recset_def heap_def schedule_def)

subsection \<open>Properties\<close>

text \<open>
  C15. Scheduling: on a well-formed queue \<open>addClient\<close> of a client that is not queued returns 0, fails
  no assertion and stays inside the array (which it doubles when full), keeps the heap, the back
  links and the window, and changes the schedule at that client only.
\<close>

theorem addClient_schedules:
  assumes "sked_inv b s" "realloc_ok ralloc" "room ralloc s" "schedule s c = None" "in_window b t"
  shows "\<exists>s'. addClient ralloc s c t = Some (OK, s') \<and> sked_inv b s' \<and> schedule s' = (schedule s)(c \<mapsto> t)"
  by (rule addClient_lemma[OF assms])

text \<open>A queue as \<open>init\<close> leaves it, for numbered clients, and an allocator that never fails.\<close>

definition sk0 :: "(nat, 64) sked" where
  "sk0 = snd (sked_init (Some (replicate 256 \<lparr>skc = 0, rec_when = 0\<rparr>))
            \<lparr>m_records = [], m_allocated = 0, m_used = 0, skedIndex = (\<lambda>c. 0)\<rparr>)"

definition grow :: "(nat, 64) reallocator" where
  "grow n xs = Some (take n xs @ replicate (n - length xs) \<lparr>skc = 0, rec_when = 0\<rparr>)"

lemma sk0 [simp]: "sked_inv b sk0" "schedule sk0 = Map.empty" "room ralloc sk0" "realloc_ok grow"
  unfolding sk0_def by (intro sked_init_inv; simp)+ (auto simp: room_def sked_init_def realloc_ok_def grow_def)

theorem addClient_schedules_witness:
  "\<exists>s'. addClient grow sk0 7 100 = Some (OK, s') \<and> sked_inv 0 s' \<and> schedule s' = [7 \<mapsto> 100]"
  using addClient_schedules[of 0 sk0 grow 7 100] by (simp add: in_window_def ticks_def)

text \<open>A queue with one event, for the other witnesses.\<close>

definition sk1 :: "(nat, 64) sked" where
  "sk1 = snd (the (addClient grow sk0 7 100))"

lemma sk1: "sked_inv 0 sk1" "schedule sk1 = [7 \<mapsto> 100]"
  using addClient_lemma[of 0 sk0 grow 7 100] by (auto simp: in_window_def ticks_def sk1_def)

lemma sk1_due: "due t sk1 = (if eclock_after 100 t then {} else {7})"
  by (auto simp: due_def sk1(2) split: if_splits)

lemma delClient_effect:
  assumes "sked_inv b s"
  shows "\<exists>s'. delClient s c = Some (OK, s') \<and> sked_inv b s' \<and> schedule s' = (schedule s)(c := None) \<and>
              (schedule s c = None \<longrightarrow> s' = s)"
proof (cases "schedule s c")
  case None
  then have "delClient s c = Some (OK, s)" by (auto simp: delClient_def schedule_def split: if_splits)
  with None assms show ?thesis by auto
next
  case (Some t)
  then show ?thesis using delClient_lemma[OF assms, of c] by (auto simp: removed_def)
qed

text \<open>
  C16. Cancelling: \<open>delClient\<close> from anywhere in the heap returns 0, fails no assertion, keeps every
  invariant, and removes that client and nothing else; on a client that is not queued it is a no-op.
\<close>

theorem delClient_unschedules:
  assumes "sked_inv b s"
  shows "\<exists>s'. delClient s c = Some (OK, s') \<and> sked_inv b s' \<and> schedule s' = (schedule s)(c := None) \<and>
              (schedule s c = None \<longrightarrow> s' = s)"
  by (rule delClient_effect[OF assms])

theorem delClient_unschedules_witness:
  "\<exists>s'. delClient sk1 7 = Some (OK, s') \<and> sked_inv 0 s' \<and> schedule s' = Map.empty"
  using delClient_unschedules[OF sk1(1), of 7] sk1(2) by auto

text \<open>
  C2. \<open>runAll(now)\<close>, for every callback that keeps the queue well-formed, also one that cancels and queues
  clients, of its own time or earlier: if it returns, it returns 0 with nothing due left; and what it did was, as
  long as something was due, to take the client with the least time off the queue and to call it, on the queue
  that the call before left. A client that was due at the start was called, or a callback took it
  out of its place. If no callback queues anything for \<open>now\<close> or before (it may cancel anything and queue later
  events), \<open>runAll\<close> returns, and it calls only clients that were due, each once, in non-decreasing order of
  their times.
\<close>

theorem runAll_order:
  assumes "sked_inv b s" "in_window b now" "cb_keeps b now cb"
  shows "(\<forall>r s' x'. runAll cb now (s, x) = Some (r, s', x') \<longrightarrow>
            r = OK \<and> sked_inv b s' \<and> due now s' = {} \<and>
            (\<exists>l. runAll (logged_cb cb) now (s, x, []) = Some (OK, s', x', l) \<and> delivered b now (schedule s) l (schedule s') \<and>
                 (\<forall>c \<in> due now s. c \<in> fst ` set l \<or> (\<exists>(d, q1, q2) \<in> set l. q1 c = schedule s c \<and> q2 c \<noteq> schedule s c)))) \<and>
         (cb_later b now cb \<longrightarrow>
            (\<exists>s' x' l. runAll cb now (s, x) = Some (OK, s', x') \<and> runAll (logged_cb cb) now (s, x, []) = Some (OK, s', x', l) \<and>
               distinct (map fst l) \<and> fst ` set l \<subseteq> due now s \<and> sorted (map (\<lambda>e. ticks b (the (schedule s (fst e)))) l)))"
proof (intro conjI allI impI)
  fix r s' x' assume run: "runAll cb now (s, x) = Some (r, s', x')"
  obtain l where l: "r = OK" "sked_inv b s'" "delivered b now (schedule s) l (schedule s')"
    "runAll (logged_cb cb) now (s, x, []) = Some (OK, s', x', l)"
    using runAll_delivers[OF assms(3,2) run assms(1)] by auto
  show "r = OK" "sked_inv b s'" by fact+
  show "due now s' = {}" using delivered_none[OF l(3)] by (auto simp: due_def)
  show "\<exists>l. runAll (logged_cb cb) now (s, x, []) = Some (OK, s', x', l) \<and> delivered b now (schedule s) l (schedule s') \<and>
      (\<forall>c \<in> due now s. c \<in> fst ` set l \<or> (\<exists>(d, q1, q2) \<in> set l. q1 c = schedule s c \<and> q2 c \<noteq> schedule s c))"
  proof (intro exI[of _ l] conjI ballI)
    fix c assume "c \<in> due now s"
    then obtain t where "schedule s c = Some t" "\<not> eclock_after t now" by (auto simp: due_def)
    then show "c \<in> fst ` set l \<or> (\<exists>(d, q1, q2) \<in> set l. q1 c = schedule s c \<and> q2 c \<noteq> schedule s c)"
      by (rule delivered_called[OF l(3)])
  qed (fact l)+
next
  assume later: "cb_later b now cb"
  obtain s' x' where run: "runAll cb now (s, x) = Some (OK, s', x')"
    using runAll_drains[OF assms(1,2) cb_laterD(1)[OF later]] by blast
  obtain l where l: "delivered b now (schedule s) l (schedule s')" "list_all (called b now cb) l"
    "runAll (logged_cb cb) now (s, x, []) = Some (OK, s', x', l)"
    using runAll_delivers[OF assms(3,2) run assms(1)] by auto
  have "\<forall>d t. q2 d = Some t \<longrightarrow> \<not> eclock_after t now \<longrightarrow> q1 d = Some t" if e: "(c, q1, q2) \<in> set l" for c q1 q2
  proof -
    obtain u x u' x' where u: "sked_inv b u" "q1 = schedule u" "schedule u c = None" "cb c now (u, x) = Some (u', x')" "q2 = schedule u'"
    proof -
      have "called b now cb (c, q1, q2)" using l(2) e by (simp add: list_all_iff)
      then show ?thesis using that unfolding called_def prod.case by metis
    qed
    show ?thesis using cb_laterD(3)[OF later u(1,3,4)] unfolding u(2,5) by (force simp: due_def)
  qed
  then have "\<forall>(c, q1, q2) \<in> set l. \<forall>d t. q2 d = Some t \<longrightarrow> \<not> eclock_after t now \<longrightarrow> q1 d = Some t" by blast
  from delivered_later[OF l(1) this] have d: "distinct (map fst l)" "sorted (map (\<lambda>e. ticks b (the (schedule s (fst e)))) l)"
    "fst ` set l \<subseteq> due now s" by (auto simp: due_def)
  with run l(3) show "\<exists>s' x' l. runAll cb now (s, x) = Some (OK, s', x') \<and> runAll (logged_cb cb) now (s, x, []) = Some (OK, s', x', l) \<and>
      distinct (map fst l) \<and> fst ` set l \<subseteq> due now s \<and> sorted (map (\<lambda>e. ticks b (the (schedule s (fst e)))) l)" by blast
qed


definition sk2 :: "(nat, 64) sked" where
  "sk2 = snd (the (addClient grow sk1 8 150))"

lemma sk2: "sked_inv 0 sk2" "schedule sk2 = [7 \<mapsto> 100, 8 \<mapsto> 150]"
proof -
  have "m_used sk1 + 1 \<noteq> m_allocated sk1" by code_simp
  then have "room grow sk1" by (simp add: room_def)
  then show "sked_inv 0 sk2" "schedule sk2 = [7 \<mapsto> 100, 8 \<mapsto> 150]"
    using addClient_lemma[of 0 sk1 grow 8 150] sk1 by (auto simp: in_window_def ticks_def sk2_def)
qed

definition cancel_cb :: "(nat, 64, unit) callback" where
  "cancel_cb c now = (\<lambda>(s, x). do { (r, s') \<leftarrow> delClient s (c + 1); Some (s', x) })"

lemma cancel_cb_later: "cb_later 0 now cancel_cb"
proof -
  have del: "\<exists>s'. cancel_cb c now (s, x) = Some (s', x) \<and> sked_inv 0 s' \<and> schedule s' = (schedule s)(c + 1 := None)" if "sked_inv 0 s" for c s x
    using delClient_effect[OF that, of "c + 1"] by (auto simp: cancel_cb_def)
  have "\<exists>s' x'. cancel_cb c now (s, x) = Some (s', x') \<and> sked_inv 0 s' \<and> (\<forall>d \<in> due now s'. schedule s' d = schedule s d)"
    if inv: "sked_inv 0 s" for c s x
  proof -
    obtain s' where s': "cancel_cb c now (s, x) = Some (s', x)" "sked_inv 0 s'" "schedule s' = (schedule s)(c + 1 := None)"
      using del[OF inv] by blast
    have "schedule s' d = schedule s d" if "d \<in> due now s'" for d using that s'(3) by (auto simp: due_def split: if_splits)
    with s'(1,2) show ?thesis by blast
  qed
  then show ?thesis by (simp add: cb_later_def)
qed

theorem runAll_order_witness:
  "\<exists>s' l. runAll (logged_cb cancel_cb) 200 (sk2, (), []) = Some (OK, s', (), l) \<and> distinct (map fst l) \<and> fst ` set l \<subseteq> {7, 8} \<and>
     delivered 0 200 [7 \<mapsto> 100, 8 \<mapsto> 150] l (schedule s') \<and> due 200 s' = {}"
proof -
  note later = cancel_cb_later[of 200]
  have keeps: "cb_keeps 0 200 cancel_cb" by (rule cb_laterD(2)[OF later])
  have win: "in_window 0 (200 :: 64 clock)" by (simp add: in_window_def ticks_def)
  note t = runAll_order[OF sk2(1) win keeps, of "()"]
  obtain s' l where l: "runAll cancel_cb 200 (sk2, ()) = Some (OK, s', ())" "runAll (logged_cb cancel_cb) 200 (sk2, (), []) = Some (OK, s', (), l)"
    "distinct (map fst l)" "fst ` set l \<subseteq> due 200 sk2" using t[THEN conjunct2, THEN mp, OF later] by auto
  have "due 200 sk2 \<subseteq> {7, 8}" by (auto simp: due_def sk2(2) split: if_splits)
  then have "fst ` set l \<subseteq> {7, 8}" using l(4) by blast
  moreover have "due 200 s' = {}" "delivered 0 200 (schedule sk2) l (schedule s')"
    using t[THEN conjunct1, rule_format, OF l(1)] l(2) by auto
  ultimately show ?thesis using l(2,3) by (auto simp: sk2(2))
qed

text \<open>
  C17. \<open>runAll\<close> ends, with 0 and nothing due, for every callback that returns, keeps the queue
  well-formed and adds no event that is due at once, whatever else it adds or cancels.
\<close>

theorem runAll_terminates:
  assumes "sked_inv b s" "in_window b now" "cb_ok b now cb"
  shows "\<exists>s' x'. runAll cb now (s, x) = Some (OK, s', x') \<and> sked_inv b s' \<and> due now s' = {}"
  by (rule runAll_drains[OF assms])

lemma record_cb_ok: "cb_ok b now record_cb"
  by (simp add: cb_ok_def record_cb_def)

theorem runAll_terminates_witness:
  "\<exists>s' x'. runAll record_cb 200 (sk1, []) = Some (OK, s', x') \<and> due 200 s' = {}"
  using runAll_terminates[OF sk1(1) _ record_cb_ok, of 200 "[]"] by (auto simp: in_window_def ticks_def)

lemma runAll_starves_lemma:
  fixes cb :: "('c, 'w::len, 'x) callback"
  assumes cb: "\<And>c s x s' x'. sked_inv b s \<Longrightarrow> cb c now (s, x) = Some (s', x') \<Longrightarrow>
                 sked_inv b s' \<and> due now s' \<noteq> {}"
    and win: "in_window b now"
  shows "runAll cb now sx = Some r \<Longrightarrow> sked_inv b (fst sx) \<longrightarrow> due now (fst sx) = {}"
proof -
  have "cb0 = cb \<longrightarrow> now0 = now \<longrightarrow> sked_inv b (fst sx0) \<longrightarrow> due now (fst sx0) = {}"
    if "runAll cb0 now0 sx0 = Some r0" for cb0 :: "('c, 'w, 'x) callback" and now0 sx0 r0
    using that
  proof (induction rule: runAll.raw_induct[rotated, consumes 1, case_names round])
    case (round rec cb0 now0 sx0 r0)
    show ?case
    proof (intro impI)
      assume eqs: "cb0 = cb" "now0 = now" and inv: "sked_inv b (fst sx0)"
      show "due now (fst sx0) = {}"
      proof (rule ccontr)
        assume ne: "due now (fst sx0) \<noteq> {}"
        let ?s1 = "the (pop (fst sx0))"
        note nx = runAll_body_next[OF inv win ne]
        obtain sx1 where sx1: "cb (skc (m_records (fst sx0) ! 1)) now (?s1, snd sx0) = Some sx1" "rec cb now sx1 = Some r0"
          using round(2)[folded runAll_body_def, unfolded eqs] nx(5)[of rec cb "snd sx0", unfolded prod.collapse]
          by (auto simp: bind_eq_Some_conv simp del: split_paired_All split_paired_Ex)
        have s1: "sked_inv b ?s1" using nx(4) by (simp add: removed_def)
        from cb[OF s1, of _ "snd sx0" "fst sx1" "snd sx1"] sx1(1)
        have "sked_inv b (fst sx1)" "due now (fst sx1) \<noteq> {}" by auto
        with round(1)[OF sx1(2)] show False by simp
      qed
    qed
  qed
  then show "runAll cb now sx = Some r \<Longrightarrow> sked_inv b (fst sx) \<longrightarrow> due now (fst sx) = {}" by blast
qed

text \<open>
  The condition on the callbacks is needed for \<open>runAll\<close> to end: when every callback leaves something due (say the client
  queues itself again for \<open>now\<close>), \<open>runAll\<close> never returns to the event loop.
\<close>

theorem runAll_starves:
  fixes cb :: "('c, 'w::len, 'x) callback"
  assumes "sked_inv b s" "in_window b now" "due now s \<noteq> {}"
    "\<And>c s x s' x'. sked_inv b s \<Longrightarrow> cb c now (s, x) = Some (s', x') \<Longrightarrow> sked_inv b s' \<and> due now s' \<noteq> {}"
  shows "runAll cb now (s, x) = None"
proof (rule ccontr)
  assume "runAll cb now (s, x) \<noteq> None"
  then obtain r where "runAll cb now (s, x) = Some r" by blast
  from runAll_starves_lemma[of b cb now, OF assms(4,2) this] assms(1,3) show False by simp
qed

text \<open>A client that keeps the queue as a whole occupied: it restores the queue it was called from.\<close>

definition again_cb :: "(nat, 64, unit) callback" where
  "again_cb c now sx = Some (sk1, ())"

theorem runAll_starves_witness: "runAll again_cb 200 (sk1, ()) = None"
proof (rule runAll_starves[where b = 0, OF sk1(1)])
  show "in_window 0 (200 :: 64 clock)" by (simp add: in_window_def ticks_def)
  show "due 200 sk1 \<noteq> {}" by (simp add: sk1_due eclock_after_def)
  fix c s and x :: unit and s' x'
  assume "again_cb c 200 (s, x) = Some (s', x')"
  then show "sked_inv 0 s' \<and> due 200 s' \<noteq> {}"
    using sk1(1) by (auto simp: again_cb_def sk1_due eclock_after_def)
qed

text \<open>
  \<open>nextTime\<close> returns the default on an empty queue and otherwise the least time scheduled: no
  event is due earlier than the time the event loop sleeps until.
\<close>

theorem nextTime_least:
  assumes "sked_inv b s"
  shows "if schedule s = Map.empty then nextTime s d = Some d
         else \<exists>c t. nextTime s d = Some t \<and> schedule s c = Some t \<and>
                    (\<forall>e u. schedule s e = Some u \<longrightarrow> \<not> eclock_after t u)"
proof (cases "m_used s = 0")
  case True
  then show ?thesis using schedule_empty_iff[of s] assms
    by (simp add: nextTime_def top_def sked_empty_def sked_inv_def)
next
  case False
  then have pos: "m_used s > 0" by simp
  note top = top_least[OF assms pos]
  have "\<not> eclock_after (rec_when (m_records s ! 1)) u" if "schedule s e = Some u" for e u
    using top(3)[OF that] schedule_window[OF assms top(2)] schedule_window[OF assms that]
    by (simp add: eclock_after_ticks)
  moreover have "schedule s \<noteq> Map.empty" using top(2) by (metis option.distinct(1))
  ultimately show ?thesis using top(1,2) by (auto simp: nextTime_def)
qed

theorem nextTime_least_witness: "nextTime sk1 5 = Some 100"
proof -
  have "schedule sk1 \<noteq> Map.empty" using sk1(2) by (metis fun_upd_same option.distinct(1))
  with nextTime_least[OF sk1(1), of 5] show ?thesis by (auto simp: sk1(2) split: if_splits)
qed

text \<open>
  When \<open>realloc\<close> fails, \<open>addClient\<close> returns ENOMEM and leaves the whole queue, the client's
  index included, as it was.
\<close>

theorem addClient_enomem:
  assumes "sked_wf s" "schedule s c = None" "m_used s + 1 = m_allocated s" "m_allocated s < 2 ^ 26"
    "ralloc (2 * m_allocated s) (m_records s) = None"
  shows "addClient ralloc s c t = Some (Fail ENOMEM, s)"
proof -
  have "skedIndex s c = 0" using assms(2) by (auto simp: schedule_def split: if_splits)
  with assms(3-5) show ?thesis by (simp add: addClient_def push_def sizeof_SkedRecord_def Let_def mult.commute)
qed

definition sk_full :: "(nat, 64) sked" where
  "sk_full = \<lparr>m_records = [\<lparr>skc = 0, rec_when = 0\<rparr>], m_allocated = 1, m_used = 0, skedIndex = (\<lambda>c. 0)\<rparr>"

theorem addClient_enomem_witness:
  "addClient (\<lambda>n xs. None) sk_full 7 100 = Some (Fail ENOMEM, sk_full)"
  by (rule addClient_enomem) (simp_all add: sk_full_def sked_wf_def links_def schedule_def)

text \<open>
  The self-check of the source, \<open>isHeap(1, m_used)\<close>, is true on every well-formed queue that is
  not empty: none of the assertions compiled in under EXPENSIVE\_TESTS fails between operations.
\<close>

theorem isHeap_holds:
  assumes "sked_inv b s" "m_used s > 0"
  shows "isHeap s 1 (m_used s) = Some True"
  by (rule isHeap_lemma[OF assms])

theorem isHeap_holds_witness: "isHeap sk1 1 (m_used sk1) = Some True"
proof (rule isHeap_holds[OF sk1(1)])
  have "schedule sk1 \<noteq> Map.empty" using sk1(2) by (metis fun_upd_same option.distinct(1))
  with schedule_empty_iff[of sk1] sk1(1) show "m_used sk1 > 0" by (auto simp: sked_inv_def)
qed

end
