(* ===== verification/Nbbio.thy ===== *)
theory Nbbio
  imports Prelude Interfaces
begin

unbundle bit_operations_syntax

text \<open>
  The non-blocking byte buffer of nbbio.h and nbbio.cc: a circular buffer of 1024 bytes with one
  byte always free, read by \<open>readline\<close> and \<open>flushTo\<close> and written by \<open>put\<close> and \<open>fillFrom\<close>.
  The system calls \<open>read\<close> and \<open>write\<close> are arguments of the operations that issue them; they act on
  a state \<open>'x\<close> of the operating system.
\<close>

definition nbbio_BUFLEN :: nat where
  "nbbio_BUFLEN = 1024"

record nbbio =
  m_buf :: "char list"
  m_getFrom :: nat
  m_putTo :: nat
  m_linelen :: nat
  m_lastchar :: char

definition nbbio_init :: "nbbio \<Rightarrow> nbbio" where
  "nbbio_init b = b\<lparr>m_putTo := 0, m_getFrom := 0, m_linelen := 0, m_lastchar := NUL\<rparr>"

definition bytesUsed :: "nbbio \<Rightarrow> int" where
  "bytesUsed b = (int (m_putTo b) - int (m_getFrom b)) AND (int nbbio_BUFLEN - 1)"

definition bytesFree :: "nbbio \<Rightarrow> int" where
  "bytesFree b = int nbbio_BUFLEN - 1 - bytesUsed b"

definition isEmpty :: "nbbio \<Rightarrow> bool" where
  "isEmpty b = (m_putTo b = m_getFrom b)"

definition isFull :: "nbbio \<Rightarrow> bool" where
  "isFull b = (bytesFree b = 0)"

definition contigBytesUsed :: "nbbio \<Rightarrow> int" where
  "contigBytesUsed b =
     int (if m_putTo b \<ge> m_getFrom b then m_putTo b else nbbio_BUFLEN) - int (m_getFrom b)"

definition contigBytesFree :: "nbbio \<Rightarrow> int" where
  "contigBytesFree b =
     ((if m_getFrom b > m_putTo b then int (m_getFrom b) - 1 else int nbbio_BUFLEN) - int (m_putTo b))
     - (if m_getFrom b = 0 then 1 else 0)"

definition readc :: "nbbio \<Rightarrow> (char \<times> nbbio) option" where
  "readc b = do {
     c \<leftarrow> rd (m_buf b) (m_getFrom b);
     Some (c, b\<lparr>m_getFrom := nat (int (m_getFrom b + 1) AND (int nbbio_BUFLEN - 1))\<rparr>)
   }"

text \<open>\<open>put(p, n)\<close>; \<open>p\<close> is the caller's buffer.\<close>

definition put :: "nbbio \<Rightarrow> char list \<Rightarrow> nat \<Rightarrow> (rc \<times> nbbio) option" where
  "put b p n =
     (if bytesFree b < int n then
        (if n \<ge> nbbio_BUFLEN then Some (Fail EMSGSIZE, b) else Some (Fail EWOULDBLOCK, b))
      else do {
        let ncopy = nat (if contigBytesFree b > int n then int n else contigBytesFree b);
        assertion (n \<le> length p \<and> 0 \<le> contigBytesFree b);
        buf \<leftarrow> memcpy (m_buf b) (m_putTo b) (take ncopy p);
        let b1 = b\<lparr>m_buf := buf, m_putTo := m_putTo b + ncopy\<rparr>;
        let n1 = n - ncopy;
        if m_putTo b1 = nbbio_BUFLEN then do {
          let b2 = b1\<lparr>m_putTo := 0\<rparr>;
          if n1 > 0 then do {
            buf2 \<leftarrow> memcpy (m_buf b2) 0 (take n1 (drop ncopy p));
            Some (OK, b2\<lparr>m_buf := buf2, m_putTo := n1\<rparr>)
          } else Some (OK, b2)
        } else Some (OK, b1)
      })"

text \<open>
  \<open>readline(linebuf, maxlen)\<close>; the line buffer is returned updated. The loop ends because every
  round takes a byte out of the buffer; that it returns is proved with the properties of \<open>readline\<close> below.
\<close>

partial_function (option) readline_loop :: "nbbio \<Rightarrow> char list \<Rightarrow> nat \<Rightarrow> (rc \<times> char list \<times> nbbio) option"
where
  "readline_loop b linebuf maxlen =
     (if \<not> isEmpty b \<and> m_linelen b < maxlen then do {
        (c, b1) \<leftarrow> readc b;
        if c = LF then
          (if m_lastchar b1 \<noteq> CR then do {
             linebuf1 \<leftarrow> wr linebuf (m_linelen b1) NUL;
             Some (OK, linebuf1, b1\<lparr>m_lastchar := c, m_linelen := 0\<rparr>)
           }
           else readline_loop b1 linebuf maxlen)
        else if c = CR then do {
          linebuf1 \<leftarrow> wr linebuf (m_linelen b1) NUL;
          Some (OK, linebuf1, b1\<lparr>m_lastchar := c, m_linelen := 0\<rparr>)
        }
        else do {
          linebuf1 \<leftarrow> wr linebuf (m_linelen b1) c;
          readline_loop (b1\<lparr>m_linelen := m_linelen b1 + 1, m_lastchar := c\<rparr>) linebuf1 maxlen
        }
      }
      else Some (if m_linelen b = maxlen then Fail ENOSPC else Fail EWOULDBLOCK, linebuf, b))"

definition readline :: "nbbio \<Rightarrow> char list \<Rightarrow> nat \<Rightarrow> (rc \<times> char list \<times> nbbio) option" where
  "readline b linebuf maxlen =
     (if isEmpty b then Some (Fail EWOULDBLOCK, linebuf, b) else readline_loop b linebuf maxlen)"

subsection \<open>I/O\<close>

type_synonym 'x write_call = "int \<Rightarrow> char list \<Rightarrow> 'x \<Rightarrow> (errno + nat) \<times> 'x"
type_synonym 'x read_call = "int \<Rightarrow> nat \<Rightarrow> 'x \<Rightarrow> (errno + char list) \<times> 'x"

partial_function (option) flushTo :: "'x write_call \<Rightarrow> int \<Rightarrow> nbbio \<Rightarrow> 'x \<Rightarrow> (rc \<times> nbbio \<times> 'x) option"
where
  "flushTo wcall fd b x = do {
     let contigused = contigBytesUsed b;
     if contigused = 0 then Some (OK, b, x)
     else do {
       assertion (m_getFrom b + nat contigused \<le> length (m_buf b));
       case wcall fd (take (nat contigused) (drop (m_getFrom b) (m_buf b))) x of
         (Inl e, x1) \<Rightarrow> Some (Fail e, b, x1)
       | (Inr nwrite, x1) \<Rightarrow>
           let b1 = b\<lparr>m_getFrom := m_getFrom b + nwrite\<rparr> in
           if m_getFrom b1 = nbbio_BUFLEN then
             let b2 = b1\<lparr>m_getFrom := 0\<rparr> in
             if \<not> isEmpty b2 then flushTo wcall fd b2 x1 else Some (OK, b2, x1)
           else Some (OK, b1, x1)
     }
   }"

definition fillFrom :: "'x read_call \<Rightarrow> int \<Rightarrow> nbbio \<Rightarrow> 'x \<Rightarrow> (rc \<times> nbbio \<times> 'x) option" where
  "fillFrom rcall fd b x = do {
     assertion (fd \<noteq> -1);
     let contigfree = contigBytesFree b;
     if contigfree = 0 then Some (OK, b, x)
     else case rcall fd (nat contigfree) x of
       (Inl e, x1) \<Rightarrow> Some (Fail e, b, x1)
     | (Inr [], x1) \<Rightarrow> Some (Fail EPIPE, b, x1)
     | (Inr (d # ds), x1) \<Rightarrow> do {
         buf \<leftarrow> memcpy (m_buf b) (m_putTo b) (d # ds);
         let b1 = b\<lparr>m_buf := buf, m_putTo := m_putTo b + length (d # ds)\<rparr>;
         if m_putTo b1 = nbbio_BUFLEN then do {
           let b2 = b1\<lparr>m_putTo := 0\<rparr>;
           if int (length (d # ds)) = contigfree then do {
             let contigfree2 = contigBytesFree b2;
             if contigfree2 = 0 then Some (OK, b2, x1)
             else case rcall fd (nat contigfree2) x1 of
               (Inl e, x2) \<Rightarrow> Some (Fail e, b2, x2)
             | (Inr ds2, x2) \<Rightarrow> do {
                 buf2 \<leftarrow> memcpy (m_buf b2) 0 ds2;
                 Some (OK, b2\<lparr>m_buf := buf2, m_putTo := length ds2\<rparr>, x2)
               }
           } else Some (OK, b2, x1)
         } else Some (OK, b1, x1)
       }
   }"

subsection \<open>Invariant and contents\<close>

definition nb_inv :: "nbbio \<Rightarrow> bool" where
  "nb_inv b = (length (m_buf b) = nbbio_BUFLEN \<and> m_getFrom b < nbbio_BUFLEN \<and> m_putTo b < nbbio_BUFLEN)"

text \<open>The bytes in the buffer, oldest first.\<close>

definition contents :: "nbbio \<Rightarrow> char list" where
  "contents b =
     (if m_getFrom b \<le> m_putTo b then take (m_putTo b - m_getFrom b) (drop (m_getFrom b) (m_buf b))
      else drop (m_getFrom b) (m_buf b) @ take (m_putTo b) (m_buf b))"

definition room_left :: "nbbio \<Rightarrow> nat" where
  "room_left b = nbbio_BUFLEN - 1 - length (contents b)"

lemma length_contents:
  "nb_inv b \<Longrightarrow> length (contents b) =
     (if m_getFrom b \<le> m_putTo b then m_putTo b - m_getFrom b
      else m_putTo b + nbbio_BUFLEN - m_getFrom b)"
  by (auto simp: nb_inv_def contents_def)

lemma and_BUFLEN: "(k::int) AND (int nbbio_BUFLEN - 1) = k mod 1024"
proof -
  have "(1023::int) = mask 10" by (simp add: mask_eq_exp_minus_1)
  then have "k AND (int nbbio_BUFLEN - 1) = take_bit 10 k"
    by (simp add: nbbio_BUFLEN_def take_bit_eq_mask)
  then show ?thesis by (simp add: take_bit_eq_mod)
qed

lemma mod_BUFLEN_lt: "0 \<le> k \<Longrightarrow> k < 1024 \<Longrightarrow> (k::int) mod 1024 = k"
  by simp

lemma bytesUsed_contents: "nb_inv b \<Longrightarrow> bytesUsed b = int (length (contents b))"
proof -
  assume inv: "nb_inv b"
  let ?g = "int (m_getFrom b)" and ?p = "int (m_putTo b)"
  have bnd: "?g < 1024" "?p < 1024" using inv by (auto simp: nb_inv_def nbbio_BUFLEN_def)
  show ?thesis
  proof (cases "m_getFrom b \<le> m_putTo b")
    case True
    then have "(?p - ?g) mod 1024 = ?p - ?g" using bnd by (intro mod_BUFLEN_lt) auto
    with True show ?thesis
      unfolding bytesUsed_def and_BUFLEN length_contents[OF inv] by (simp add: of_nat_diff)
  next
    case False
    have "(?p - ?g) mod 1024 = (?p - ?g + 1024) mod 1024" by simp
    also have "\<dots> = ?p - ?g + 1024" using False bnd by (intro mod_BUFLEN_lt) auto
    finally show ?thesis using False bnd
      unfolding bytesUsed_def and_BUFLEN length_contents[OF inv] by (simp add: nbbio_BUFLEN_def of_nat_diff)
  qed
qed

lemma isEmpty_contents: "nb_inv b \<Longrightarrow> isEmpty b \<longleftrightarrow> contents b = []"
  by (auto simp: isEmpty_def nb_inv_def contents_def split: if_splits)

lemma length_contents_le: "nb_inv b \<Longrightarrow> length (contents b) \<le> nbbio_BUFLEN - 1"
  by (auto simp: length_contents nb_inv_def)

lemma bytesFree_room: "nb_inv b \<Longrightarrow> bytesFree b = int (room_left b)"
  using length_contents_le[of b] by (simp add: bytesFree_def bytesUsed_contents room_left_def of_nat_diff nbbio_BUFLEN_def)

lemma contigBytesFree_nonneg: "nb_inv b \<Longrightarrow> 0 \<le> contigBytesFree b"
  by (auto simp: contigBytesFree_def nb_inv_def)

subsection \<open>Writing at the tail\<close>

text \<open>
  Bytes copied to the contiguous free space extend the contents; \<open>wrap\<close> is the reset of an index
  that has reached the end of the array.
\<close>

definition wrap :: "nat \<Rightarrow> nat" where
  "wrap i = (if i = nbbio_BUFLEN then 0 else i)"

lemma append_contig:
  assumes inv: "nb_inv b" and fits: "int (length ys) \<le> contigBytesFree b"
  shows "\<exists>buf. memcpy (m_buf b) (m_putTo b) ys = Some buf \<and>
           nb_inv (b\<lparr>m_buf := buf, m_putTo := wrap (m_putTo b + length ys)\<rparr>) \<and>
           contents (b\<lparr>m_buf := buf, m_putTo := wrap (m_putTo b + length ys)\<rparr>) = contents b @ ys"
proof -
  let ?buf = "take (m_putTo b) (m_buf b) @ ys @ drop (m_putTo b + length ys) (m_buf b)"
  have len: "length (m_buf b) = nbbio_BUFLEN" "m_putTo b < nbbio_BUFLEN" "m_getFrom b < nbbio_BUFLEN"
    using inv by (auto simp: nb_inv_def)
  have fit: "if m_getFrom b > m_putTo b then m_putTo b + length ys < m_getFrom b
             else m_putTo b + length ys + (if m_getFrom b = 0 then 1 else 0) \<le> nbbio_BUFLEN"
    using fits by (auto simp: contigBytesFree_def split: if_splits)
  have "memcpy (m_buf b) (m_putTo b) ys = Some ?buf"
    using len fit by (intro memcpy_Some) (auto split: if_splits)
  moreover have "nb_inv (b\<lparr>m_buf := ?buf, m_putTo := wrap (m_putTo b + length ys)\<rparr>)"
    using len fit by (auto simp: nb_inv_def wrap_def split: if_splits)
  moreover have "contents (b\<lparr>m_buf := ?buf, m_putTo := wrap (m_putTo b + length ys)\<rparr>) = contents b @ ys"
  proof (cases "m_getFrom b > m_putTo b")
    case True
    then show ?thesis using len fit by (simp add: contents_def wrap_def)
  next
    case False
    then have old: "contents b = drop (m_getFrom b) (take (m_putTo b) (m_buf b))"
      by (simp add: contents_def drop_take)
    show ?thesis
    proof (cases "m_putTo b + length ys = nbbio_BUFLEN")
      case True
      then have "m_getFrom b \<noteq> 0" using fit False by (auto split: if_splits)
      with True False len show ?thesis unfolding old by (simp add: contents_def wrap_def)
    next
      case no_wrap: False
      then have "wrap (m_putTo b + length ys) = m_putTo b + length ys" by (simp add: wrap_def)
      moreover have "m_putTo b + length ys - m_getFrom b = (m_putTo b - m_getFrom b) + length ys"
        using False by simp
      ultimately show ?thesis using False len unfolding old by (simp add: contents_def)
    qed
  qed
  ultimately show ?thesis by blast
qed

text \<open>The contiguous free space is the whole free space unless the tail wraps.\<close>

lemma contig_or_wrap:
  assumes "nb_inv b" "contigBytesFree b < bytesFree b"
  shows "m_putTo b + nat (contigBytesFree b) = nbbio_BUFLEN"
  using assms bytesFree_room[OF assms(1)] length_contents[OF assms(1)]
  by (auto simp: contigBytesFree_def room_left_def nb_inv_def split: if_splits)

lemma contigBytesFree_le: "nb_inv b \<Longrightarrow> contigBytesFree b \<le> bytesFree b"
  using bytesFree_room[of b] length_contents[of b]
  by (auto simp: contigBytesFree_def room_left_def nb_inv_def split: if_splits)

lemma bytesFree_append:
  assumes "nb_inv b" "nb_inv b'" "contents b' = contents b @ ys"
  shows "bytesFree b' = bytesFree b - int (length ys)"
  using assms by (simp add: bytesFree_def bytesUsed_contents)


lemma wrap_eqs: "wrap nbbio_BUFLEN = 0" "i \<noteq> nbbio_BUFLEN \<Longrightarrow> wrap i = i"
  by (simp_all add: wrap_def)

lemma nb_frame [simp]:
  "contents (b\<lparr>m_linelen := i\<rparr>) = contents b" "contents (b\<lparr>m_lastchar := c\<rparr>) = contents b"
  "nb_inv (b\<lparr>m_linelen := i\<rparr>) = nb_inv b" "nb_inv (b\<lparr>m_lastchar := c\<rparr>) = nb_inv b"
  by (simp_all add: contents_def nb_inv_def)

lemma put_lemma:
  assumes inv: "nb_inv b" and n: "n \<le> length p" and fits: "n \<le> room_left b"
  shows "\<exists>b'. put b p n = Some (OK, b') \<and> nb_inv b' \<and> contents b' = contents b @ take n p \<and>
              m_linelen b' = m_linelen b \<and> m_lastchar b' = m_lastchar b"
proof -
  let ?c = "contigBytesFree b"
  define k where "k = nat (if ?c > int n then int n else ?c)"
  have free: "\<not> bytesFree b < int n" "0 \<le> ?c"
    using fits bytesFree_room[OF inv] contigBytesFree_nonneg[OF inv] by auto
  have k: "k \<le> n" "int (length (take k p)) \<le> ?c" "length (take k p) = k" "k = n \<or> k = nat ?c \<and> ?c < int n"
    using n free by (auto simp: k_def)
  obtain buf where buf: "memcpy (m_buf b) (m_putTo b) (take k p) = Some buf"
    "nb_inv (b\<lparr>m_buf := buf, m_putTo := wrap (m_putTo b + k)\<rparr>)"
    "contents (b\<lparr>m_buf := buf, m_putTo := wrap (m_putTo b + k)\<rparr>) = contents b @ take k p"
    using append_contig[OF inv k(2)] k(3) by auto
  have unfold: "put b p n = (let b1 = b\<lparr>m_buf := buf, m_putTo := m_putTo b + k\<rparr> in
      if m_putTo b1 = nbbio_BUFLEN then
        (let b2 = b1\<lparr>m_putTo := 0\<rparr> in
         if n - k > 0 then do {
           buf2 \<leftarrow> memcpy buf 0 (take (n - k) (drop k p));
           Some (OK, b2\<lparr>m_buf := buf2, m_putTo := n - k\<rparr>)
         } else Some (OK, b2))
      else Some (OK, b1))"
    unfolding put_def k_def[symmetric] using free n buf(1) by (simp add: Let_def)
  show ?thesis
  proof (cases "m_putTo b + k = nbbio_BUFLEN")
    case False
    have "k = n"
      using k(4) free contig_or_wrap[OF inv] False by auto
    with buf False show ?thesis by (simp add: unfold wrap_eqs)
  next
    case True
    let ?b2 = "b\<lparr>m_buf := buf, m_putTo := 0\<rparr>" and ?ys = "take (n - k) (drop k p)"
    have b2: "nb_inv ?b2" "contents ?b2 = contents b @ take k p" using buf True by (auto simp: wrap_eqs)
    have split: "take k p @ ?ys = take n p" using k(1) by (metis take_add le_add_diff_inverse)
    show ?thesis
    proof (cases "n - k > 0")
      case False
      with k(1) have "k = n" by simp
      with b2 True show ?thesis by (simp add: unfold)
    next
      case more: True
      have len: "length ?ys = n - k" using n by simp
      have "bytesFree ?b2 = bytesFree b - int k"
        using bytesFree_append[OF inv b2(1,2)] k(3) by simp
      then have "int (n - k) \<le> bytesFree ?b2" using free k(1) by (simp add: of_nat_diff)
      moreover have lt: "contigBytesFree ?b2 < int nbbio_BUFLEN"
        using b2(1) by (auto simp: contigBytesFree_def nb_inv_def)
      moreover have "contigBytesFree ?b2 = bytesFree ?b2"
      proof (rule ccontr)
        assume "contigBytesFree ?b2 \<noteq> bytesFree ?b2"
        then have "contigBytesFree ?b2 < bytesFree ?b2" using contigBytesFree_le[OF b2(1)] by simp
        from contig_or_wrap[OF b2(1) this] lt contigBytesFree_nonneg[OF b2(1)] show False by simp
      qed
      ultimately have fit: "int (length ?ys) \<le> contigBytesFree ?b2" using len by simp
      have small: "wrap (n - k) = n - k" using fit len lt by (simp add: wrap_def)
      obtain buf2 where "memcpy buf 0 ?ys = Some buf2"
        "nb_inv (b\<lparr>m_buf := buf2, m_putTo := n - k\<rparr>)"
        "contents (b\<lparr>m_buf := buf2, m_putTo := n - k\<rparr>) = contents b @ take k p @ ?ys"
        using append_contig[OF b2(1) fit] b2(2) unfolding len small by (auto simp: small)
      with True more show ?thesis unfolding unfold split by simp
    qed
  qed
qed

lemma put_full:
  assumes "nb_inv b" "room_left b < n"
  shows "put b p n = Some (Fail (if n \<ge> nbbio_BUFLEN then EMSGSIZE else EWOULDBLOCK), b)"
  using assms by (simp add: put_def bytesFree_room)

subsection \<open>Reading at the head\<close>

lemma readc_lemma:
  assumes inv: "nb_inv b" and c: "contents b = c # cs"
  shows "\<exists>b'. readc b = Some (c, b') \<and> nb_inv b' \<and> contents b' = cs \<and>
              m_linelen b' = m_linelen b \<and> m_lastchar b' = m_lastchar b"
proof -
  let ?g = "m_getFrom b"
  have len: "length (m_buf b) = nbbio_BUFLEN" "m_putTo b < nbbio_BUFLEN" "?g < nbbio_BUFLEN"
    using inv by (auto simp: nb_inv_def)
  have head: "m_buf b ! ?g = c"
    using c len by (auto simp: contents_def take_Suc_conv_app_nth Cons_nth_drop_Suc [symmetric]
      take_Cons' split: if_splits)
  have wr: "nat (int (?g + 1) AND (int nbbio_BUFLEN - 1)) = wrap (?g + 1)"
    using len unfolding and_BUFLEN by (auto simp: wrap_def nbbio_BUFLEN_def nat_mod_distrib nat_add_distrib)
  let ?b = "b\<lparr>m_getFrom := wrap (?g + 1)\<rparr>"
  have "contents ?b = cs"
  proof (cases "?g \<le> m_putTo b")
    case True
    then have lt: "?g < m_putTo b" using c isEmpty_contents[OF inv] by (auto simp: isEmpty_def)
    then have "wrap (?g + 1) = ?g + 1" using len by (simp add: wrap_def)
    moreover have "drop ?g (take (m_putTo b) (m_buf b)) = c # cs"
      using c True by (simp add: contents_def drop_take)
    then have "drop (Suc ?g) (take (m_putTo b) (m_buf b)) = cs" by (metis drop_Suc tl_drop list.sel(3))
    ultimately show ?thesis using lt by (simp add: contents_def drop_take)
  next
    case False
    then have all: "drop ?g (m_buf b) @ take (m_putTo b) (m_buf b) = c # cs"
      using c by (simp add: contents_def)
    have tl: "drop (Suc ?g) (m_buf b) @ take (m_putTo b) (m_buf b) = cs"
      using all len by (metis Cons_nth_drop_Suc append_Cons list.inject)
    show ?thesis
    proof (cases "Suc ?g = nbbio_BUFLEN")
      case True
      with tl len show ?thesis by (simp add: contents_def wrap_def)
    next
      case no: False
      with False tl show ?thesis by (simp add: contents_def wrap_def)
    qed
  qed
  moreover have "nb_inv ?b" using inv by (auto simp: nb_inv_def wrap_def nbbio_BUFLEN_def)
  ultimately show ?thesis using head len wr by (simp add: readc_def)
qed

text \<open>
  The line splitter on plain byte streams: \<open>acc\<close> is the unfinished line, \<open>prev\<close> the last byte kept.
  The result is the return code, the line (or its unfinished part), the last byte and the rest.
\<close>

fun scan_line :: "nat \<Rightarrow> char list \<Rightarrow> char \<Rightarrow> char list \<Rightarrow> rc \<times> char list \<times> char \<times> char list" where
  "scan_line maxlen acc prev [] =
     (if length acc = maxlen then Fail ENOSPC else Fail EWOULDBLOCK, acc, prev, [])"
| "scan_line maxlen acc prev (c # cs) =
     (if length acc \<ge> maxlen then
        (if length acc = maxlen then Fail ENOSPC else Fail EWOULDBLOCK, acc, prev, c # cs)
      else if c = LF then
        (if prev \<noteq> CR then (OK, acc, LF, cs) else scan_line maxlen acc prev cs)
      else if c = CR then (OK, acc, CR, cs)
      else scan_line maxlen (acc @ [c]) c cs)"

text \<open>How the buffer and the caller's line buffer represent the splitter's state.\<close>

definition line_state :: "nbbio \<Rightarrow> char list \<Rightarrow> nat \<Rightarrow> char list \<Rightarrow> char \<Rightarrow> char list \<Rightarrow> bool" where
  "line_state b linebuf maxlen acc prev stream =
     (nb_inv b \<and> maxlen \<le> length linebuf \<and> m_linelen b = length acc \<and>
      take (length acc) linebuf = acc \<and> m_lastchar b = prev \<and> contents b = stream)"

definition line_result :: "nbbio \<Rightarrow> char list \<Rightarrow> nat \<Rightarrow> rc \<times> char list \<times> char \<times> char list \<Rightarrow> bool" where
  "line_result b linebuf maxlen res =
     (case res of (r, line, prev, rest) \<Rightarrow>
        if r = OK then length line < maxlen \<and> take (length line + 1) linebuf = line @ [NUL] \<and>
                       line_state b linebuf maxlen [] prev rest
        else line_state b linebuf maxlen line prev rest)"

lemma readline_loop_lemma:
  assumes "line_state b linebuf maxlen acc prev stream"
  shows "\<exists>r linebuf' b'. readline_loop b linebuf maxlen = Some (r, linebuf', b') \<and>
           r = fst (scan_line maxlen acc prev stream) \<and> length linebuf' = length linebuf \<and>
           line_result b' linebuf' maxlen (scan_line maxlen acc prev stream)"
  using assms
proof (induction maxlen acc prev stream arbitrary: b linebuf rule: scan_line.induct)
  case (1 maxlen acc prev)
  then have "isEmpty b" by (simp add: line_state_def isEmpty_contents)
  with 1 show ?case by (simp add: readline_loop.simps[of b] line_result_def line_state_def)
next
  case (2 maxlen acc prev c cs)
  have inv: "nb_inv b" and cont: "contents b = c # cs" and st: "maxlen \<le> length linebuf"
    "m_linelen b = length acc" "take (length acc) linebuf = acc" "m_lastchar b = prev"
    using "2.prems" by (auto simp: line_state_def)
  have ne: "\<not> isEmpty b" using cont isEmpty_contents[OF inv] by simp
  show ?case
  proof (cases "length acc \<ge> maxlen")
    case True
    with "2.prems" st show ?thesis by (simp add: readline_loop.simps[of b] line_result_def)
  next
    case False
    then have lt: "length acc < length linebuf" "\<not> maxlen \<le> length acc" using st by auto
    obtain b1 where b1: "readc b = Some (c, b1)" "nb_inv b1" "contents b1 = cs"
      "m_linelen b1 = length acc" "m_lastchar b1 = prev"
      using readc_lemma[OF inv cont] st by auto
    note unfold = readline_loop.simps[of b] b1(1) ne lt st(2) b1(4,5)
    have lm: "length acc < maxlen" using False by simp
    have fin: "take (Suc (length acc)) (linebuf[length acc := NUL]) = acc @ [NUL]"
      using st(3) lt by (simp add: take_Suc_conv_app_nth)
    consider "c = LF" "prev \<noteq> CR" | "c = LF" "prev = CR" | "c = CR" | "c \<noteq> LF" "c \<noteq> CR" by blast
    then show ?thesis
    proof cases
      case 1
      with b1 lt lm fin st(1) show ?thesis
        by (simp add: unfold line_result_def line_state_def)
    next
      case 2
      have "line_state b1 linebuf maxlen acc prev cs" using b1 st by (simp add: line_state_def)
      from "2.IH"(1)[OF lt(2) 2(1) _ this] 2 lt lm show ?thesis by (simp add: unfold)
    next
      case 3
      with b1 lt lm fin st(1) show ?thesis
        by (simp add: unfold line_result_def line_state_def)
    next
      case 4
      let ?b = "b1\<lparr>m_linelen := m_linelen b1 + 1, m_lastchar := c\<rparr>"
      have "line_state ?b (linebuf[length acc := c]) maxlen (acc @ [c]) c cs"
        using b1 st lt by (simp add: line_state_def take_Suc_conv_app_nth)
      from "2.IH"(2)[OF lt(2) 4 this] 4 lt lm b1(4) show ?thesis by (simp add: unfold)
    qed
  qed
qed

lemma scan_line_lastchar_free:
  "prev \<noteq> CR \<Longrightarrow> prev' \<noteq> CR \<Longrightarrow>
     (case scan_line maxlen acc prev cs of (r, l, p, rest) \<Rightarrow> (r, l, rest)) =
     (case scan_line maxlen acc prev' cs of (r, l, p, rest) \<Rightarrow> (r, l, rest))"
  by (cases cs) (auto simp: split_def)

lemma readline_lemma:
  assumes "line_state b linebuf maxlen acc prev stream"
  shows "\<exists>r linebuf' b'. readline b linebuf maxlen = Some (r, linebuf', b') \<and> length linebuf' = length linebuf \<and>
           (if stream = [] then r = Fail EWOULDBLOCK \<and> linebuf' = linebuf \<and> b' = b
            else r = fst (scan_line maxlen acc prev stream) \<and>
                 line_result b' linebuf' maxlen (scan_line maxlen acc prev stream))"
proof (cases "stream = []")
  case True
  with assms have "isEmpty b" by (simp add: line_state_def isEmpty_contents)
  with True show ?thesis by (simp add: readline_def)
next
  case False
  with assms have "\<not> isEmpty b" by (auto simp: line_state_def isEmpty_contents)
  then have eq: "readline b linebuf maxlen = readline_loop b linebuf maxlen" by (simp add: readline_def)
  show ?thesis using readline_loop_lemma[OF assms] False unfolding eq by auto
qed

subsection \<open>Lines\<close>

text \<open>A line is a run of bytes other than CR and LF.\<close>

definition is_line :: "char list \<Rightarrow> bool" where
  "is_line l = (CR \<notin> set l \<and> LF \<notin> set l)"

lemma scan_line_text:
  assumes "is_line l" "length acc + length l < maxlen"
  shows "scan_line maxlen acc prev (l @ CR # rest) = (OK, acc @ l, CR, rest)"
  using assms
proof (induction l arbitrary: acc prev)
  case (Cons c l)
  then have "scan_line maxlen (acc @ [c]) c (l @ CR # rest) = (OK, acc @ c # l, CR, rest)"
    by (simp add: is_line_def)
  with Cons.prems show ?case by (auto simp: is_line_def)
qed simp

lemma scan_line_pending_LF:
  assumes "is_line l" "length l < maxlen"
  shows "scan_line maxlen [] CR (LF # l @ CR # rest) = (OK, l, CR, rest)"
  using assms scan_line_text[of l "[]" maxlen CR rest] by (auto simp: Let_def)

text \<open>\<open>readline\<close> called until it has returned \<open>k\<close> lines; the lines are read as C strings.\<close>

fun read_lines :: "nat \<Rightarrow> nbbio \<Rightarrow> char list \<Rightarrow> nat \<Rightarrow> (char list list \<times> nbbio) option" where
  "read_lines 0 b linebuf maxlen = Some ([], b)"
| "read_lines (Suc k) b linebuf maxlen = do {
     (r, linebuf1, b1) \<leftarrow> readline b linebuf maxlen;
     assertion (r = OK);
     (ls, b2) \<leftarrow> read_lines k b1 linebuf1 maxlen;
     Some (takeWhile (\<lambda>c. c \<noteq> NUL) linebuf1 # ls, b2)
   }"

definition crlf_lines :: "char list list \<Rightarrow> char list" where
  "crlf_lines ls = concat (map (\<lambda>l. l @ [CR, LF]) ls)"

text \<open>Either nothing of the previous line end is left, or its LF is still in the buffer.\<close>

definition at_line_start :: "nbbio \<Rightarrow> char list \<Rightarrow> bool" where
  "at_line_start b stream =
     (nb_inv b \<and> m_linelen b = 0 \<and>
      (m_lastchar b \<noteq> CR \<and> contents b = stream \<or> m_lastchar b = CR \<and> contents b = LF # stream))"

lemma takeWhile_line:
  assumes "NUL \<notin> set l" "take (Suc (length l)) buf = l @ [NUL]"
  shows "takeWhile (\<lambda>c. c \<noteq> NUL) buf = l"
proof -
  have "buf = (l @ [NUL]) @ drop (Suc (length l)) buf"
    using append_take_drop_id[of "Suc (length l)" buf] assms(2) by simp
  then have "takeWhile (\<lambda>c. c \<noteq> NUL) buf = takeWhile (\<lambda>c. c \<noteq> NUL) (l @ NUL # drop (Suc (length l)) buf)"
    by simp
  also have "\<dots> = l @ takeWhile (\<lambda>c. c \<noteq> NUL) (NUL # drop (Suc (length l)) buf)"
    using assms(1) by (intro takeWhile_append2) auto
  finally show ?thesis by simp
qed

lemma readline_one:
  assumes "at_line_start b (l @ CR # LF # rest)" "is_line l" "NUL \<notin> set l" "length l < maxlen"
    "maxlen \<le> length linebuf"
  shows "\<exists>linebuf' b'. readline b linebuf maxlen = Some (OK, linebuf', b') \<and> length linebuf' = length linebuf \<and>
           takeWhile (\<lambda>c. c \<noteq> NUL) linebuf' = l \<and> at_line_start b' rest"
proof -
  let ?prev = "m_lastchar b" and ?stream = "contents b"
  have scan: "scan_line maxlen [] ?prev ?stream = (OK, l, CR, LF # rest)"
    using assms scan_line_text[of l "[]" maxlen ?prev "LF # rest"]
      scan_line_pending_LF[of l maxlen "LF # rest"] by (auto simp: at_line_start_def)
  have "line_state b linebuf maxlen [] ?prev ?stream"
    using assms by (simp add: line_state_def at_line_start_def)
  moreover have "?stream \<noteq> []" using assms(1) by (auto simp: at_line_start_def)
  ultimately obtain linebuf' b' where r: "readline b linebuf maxlen = Some (OK, linebuf', b')"
    "length linebuf' = length linebuf" "line_result b' linebuf' maxlen (OK, l, CR, LF # rest)"
    using readline_lemma[of b linebuf maxlen "[]" ?prev ?stream] unfolding scan by auto
  then have "at_line_start b' rest" "takeWhile (\<lambda>c. c \<noteq> NUL) linebuf' = l"
    using takeWhile_line[OF assms(3), of linebuf']
    by (simp_all add: line_result_def line_state_def at_line_start_def)
  with r show ?thesis by blast
qed

lemma read_lines_lemma:
  assumes "at_line_start b (crlf_lines ls @ rest)" "maxlen \<le> length linebuf"
    "\<forall>l \<in> set ls. is_line l \<and> NUL \<notin> set l \<and> length l < maxlen"
  shows "\<exists>b'. read_lines (length ls) b linebuf maxlen = Some (ls, b') \<and> at_line_start b' rest"
  using assms
proof (induction ls arbitrary: b linebuf)
  case Nil
  then show ?case by (simp add: crlf_lines_def)
next
  case (Cons l ls)
  have start: "at_line_start b (l @ CR # LF # crlf_lines ls @ rest)"
    using Cons.prems(1) by (simp add: crlf_lines_def)
  obtain linebuf1 b1 where 1: "readline b linebuf maxlen = Some (OK, linebuf1, b1)"
    "length linebuf1 = length linebuf" "takeWhile (\<lambda>c. c \<noteq> NUL) linebuf1 = l"
    "at_line_start b1 (crlf_lines ls @ rest)"
    using readline_one[OF start _ _ _ Cons.prems(2)] Cons.prems(3) by auto
  from Cons.IH[OF 1(4), of linebuf1] 1 Cons.prems show ?case by auto
qed

subsection \<open>Conservation of bytes\<close>

text \<open>
  What POSIX promises of \<open>read\<close> and \<open>write\<close> on one descriptor: \<open>pending\<close> is the stream of bytes that
  the descriptor still delivers, \<open>sent\<close> the bytes it has accepted.
\<close>

definition read_ok :: "'x read_call \<Rightarrow> int \<Rightarrow> ('x \<Rightarrow> char list) \<Rightarrow> bool" where
  "read_ok rcall fd pending = (\<forall>n x. case rcall fd n x of
      (Inl e, x') \<Rightarrow> pending x' = pending x
    | (Inr ds, x') \<Rightarrow> length ds \<le> n \<and> pending x = ds @ pending x')"

definition write_ok :: "'x write_call \<Rightarrow> int \<Rightarrow> ('x \<Rightarrow> char list) \<Rightarrow> bool" where
  "write_ok wcall fd sent = (\<forall>ds x. case wcall fd ds x of
      (Inl e, x') \<Rightarrow> sent x' = sent x
    | (Inr n, x') \<Rightarrow> n \<le> length ds \<and> sent x' = sent x @ take n ds)"

lemma read_okD:
  assumes "read_ok rcall fd pending"
  shows "rcall fd n x = (Inl e, x') \<Longrightarrow> pending x' = pending x"
    "rcall fd n x = (Inr ds, x') \<Longrightarrow> length ds \<le> n \<and> pending x = ds @ pending x'"
  using assms[unfolded read_ok_def, rule_format, of x n] by simp_all

lemma write_okD:
  assumes "write_ok wcall fd sent"
  shows "wcall fd ds x = (Inl e, x') \<Longrightarrow> sent x' = sent x"
    "wcall fd ds x = (Inr n, x') \<Longrightarrow> n \<le> length ds \<and> sent x' = sent x @ take n ds"
  using assms[unfolded write_ok_def, rule_format, of x ds] by simp_all

text \<open>Taking \<open>k\<close> bytes from the contiguous run at the head.\<close>

lemma consume_contig:
  assumes inv: "nb_inv b" and k: "int k \<le> contigBytesUsed b"
  shows "nb_inv (b\<lparr>m_getFrom := wrap (m_getFrom b + k)\<rparr>)"
    "contents b = take k (drop (m_getFrom b) (m_buf b)) @ contents (b\<lparr>m_getFrom := wrap (m_getFrom b + k)\<rparr>)"
proof -
  have len: "length (m_buf b) = nbbio_BUFLEN" "m_putTo b < nbbio_BUFLEN" "m_getFrom b < nbbio_BUFLEN"
    using inv by (auto simp: nb_inv_def)
  show "nb_inv (b\<lparr>m_getFrom := wrap (m_getFrom b + k)\<rparr>)"
    using len k by (auto simp: nb_inv_def wrap_def contigBytesUsed_def split: if_splits)
  show "contents b = take k (drop (m_getFrom b) (m_buf b)) @ contents (b\<lparr>m_getFrom := wrap (m_getFrom b + k)\<rparr>)"
  proof (cases "m_getFrom b \<le> m_putTo b")
    case True
    then have "m_getFrom b + k \<le> m_putTo b" using k by (simp add: contigBytesUsed_def)
    then obtain j where j: "m_putTo b = m_getFrom b + (k + j)" by (metis add.assoc le_Suc_ex)
    then have "m_getFrom b + k \<noteq> nbbio_BUFLEN" using len by simp
    moreover have "take (k + j) (drop (m_getFrom b) (m_buf b)) =
        take k (drop (m_getFrom b) (m_buf b)) @ take j (drop (m_getFrom b + k) (m_buf b))"
      by (simp only: take_add drop_drop) (simp add: add.commute)
    ultimately show ?thesis using j by (simp add: contents_def wrap_def)
  next
    case False
    have split: "drop (m_getFrom b) (m_buf b) =
        take k (drop (m_getFrom b) (m_buf b)) @ drop (m_getFrom b + k) (m_buf b)"
      by (metis append_take_drop_id drop_drop add.commute)
    show ?thesis
    proof (cases "m_getFrom b + k = nbbio_BUFLEN")
      case True
      with False len show ?thesis by (simp add: contents_def wrap_def)
    next
      case no: False
      with False split show ?thesis
        by (simp add: contents_def wrap_def)
    qed
  qed
qed


lemma contigBytesUsed_nonneg: "nb_inv b \<Longrightarrow> 0 \<le> contigBytesUsed b"
  by (auto simp: contigBytesUsed_def nb_inv_def)

text \<open>One \<open>write\<close>: the bytes accepted leave the buffer in order.\<close>

lemma flush_step:
  assumes inv: "nb_inv b" and os: "write_ok wcall fd sent"
    and w: "wcall fd (take (nat (contigBytesUsed b)) (drop (m_getFrom b) (m_buf b))) x = (Inr n, x')"
  shows "nb_inv (b\<lparr>m_getFrom := wrap (m_getFrom b + n)\<rparr>)"
    "\<exists>ds. contents b = ds @ contents (b\<lparr>m_getFrom := wrap (m_getFrom b + n)\<rparr>) \<and> sent x' = sent x @ ds"
proof -
  let ?run = "take (nat (contigBytesUsed b)) (drop (m_getFrom b) (m_buf b))"
  have n: "n \<le> length ?run" "sent x' = sent x @ take n ?run" using write_okD(2)[OF os w] by auto
  then have le: "n \<le> nat (contigBytesUsed b)" by simp
  then have k: "int n \<le> contigBytesUsed b" using contigBytesUsed_nonneg[OF inv] by linarith
  show "nb_inv (b\<lparr>m_getFrom := wrap (m_getFrom b + n)\<rparr>)" by (rule consume_contig(1)[OF inv k])
  have "take n ?run = take n (drop (m_getFrom b) (m_buf b))" using le by (simp add: min_def)
  with n consume_contig(2)[OF inv k]
  show "\<exists>ds. contents b = ds @ contents (b\<lparr>m_getFrom := wrap (m_getFrom b + n)\<rparr>) \<and> sent x' = sent x @ ds"
    by metis
qed

definition flushed :: "nbbio \<Rightarrow> nbbio \<Rightarrow> char list \<Rightarrow> char list \<Rightarrow> bool" where
  "flushed b b' s s' = (nb_inv b' \<and> m_linelen b' = m_linelen b \<and> m_lastchar b' = m_lastchar b \<and>
                        (\<exists>ds. contents b = ds @ contents b' \<and> s' = s @ ds))"

lemma flushed_refl [simp]: "nb_inv b \<Longrightarrow> flushed b b s s"
  by (simp add: flushed_def)

lemma flushed_trans: "flushed b b1 s s1 \<Longrightarrow> flushed b1 b2 s1 s2 \<Longrightarrow> flushed b b2 s s2"
  by (auto simp: flushed_def)

lemma contigBytesUsed_in_buf: "nb_inv b \<Longrightarrow> m_getFrom b + nat (contigBytesUsed b) \<le> length (m_buf b)"
  by (auto simp: contigBytesUsed_def nb_inv_def split: if_splits)

text \<open>
  From a head at or below the tail one \<open>write\<close> is issued; otherwise at most two. This is why the
  recursion in \<open>flushTo\<close> ends.
\<close>

lemma flushTo_straight:
  assumes inv: "nb_inv b" and os: "write_ok wcall fd sent" and le: "m_getFrom b \<le> m_putTo b"
  shows "\<exists>r b' x'. flushTo wcall fd b x = Some (r, b', x') \<and> flushed b b' (sent x) (sent x')"
proof (cases "contigBytesUsed b = 0")
  case True
  then show ?thesis using inv by (simp add: flushTo.simps[of wcall fd b])
next
  case False
  note unf = flushTo.simps[of wcall fd b x] False contigBytesUsed_in_buf[OF inv]
  obtain res x1 where w: "wcall fd (take (nat (contigBytesUsed b)) (drop (m_getFrom b) (m_buf b))) x = (res, x1)"
    by fastforce
  show ?thesis
  proof (cases res)
    case (Inl e)
    with w write_okD(1)[OF os, of _ x e x1] inv show ?thesis by (simp add: unf)
  next
    case (Inr n)
    note step = flush_step[OF inv os w[unfolded Inr]]
    have "n \<le> nat (contigBytesUsed b)" using write_okD(2)[OF os w[unfolded Inr]] by simp
    then have "m_getFrom b + n \<noteq> nbbio_BUFLEN" using le inv by (auto simp: contigBytesUsed_def nb_inv_def)
    with step w Inr show ?thesis by (simp add: unf wrap_eqs flushed_def)
  qed
qed

lemma flushTo_lemma:
  assumes inv: "nb_inv b" and os: "write_ok wcall fd sent"
  shows "\<exists>r b' x'. flushTo wcall fd b x = Some (r, b', x') \<and> flushed b b' (sent x) (sent x')"
proof (cases "contigBytesUsed b = 0")
  case True
  then show ?thesis using inv by (simp add: flushTo.simps[of wcall fd b])
next
  case False
  note unf = flushTo.simps[of wcall fd b x] False contigBytesUsed_in_buf[OF inv]
  obtain res x1 where w: "wcall fd (take (nat (contigBytesUsed b)) (drop (m_getFrom b) (m_buf b))) x = (res, x1)"
    by fastforce
  show ?thesis
  proof (cases res)
    case (Inl e)
    with w write_okD(1)[OF os, of _ x e x1] inv show ?thesis by (simp add: unf)
  next
    case (Inr n)
    note step = flush_step[OF inv os w[unfolded Inr]]
    let ?b1 = "b\<lparr>m_getFrom := wrap (m_getFrom b + n)\<rparr>"
    have fl: "flushed b ?b1 (sent x) (sent x1)" using step by (simp add: flushed_def)
    show ?thesis
    proof (cases "m_getFrom b + n = nbbio_BUFLEN \<and> \<not> isEmpty ?b1")
      case True
      then have b1: "?b1 = b\<lparr>m_getFrom := 0\<rparr>" by (simp add: wrap_def)
      obtain r b' x' where "flushTo wcall fd ?b1 x1 = Some (r, b', x')" "flushed ?b1 b' (sent x1) (sent x')"
        using flushTo_straight[OF step(1) os, of x1] b1 by auto
      with True w Inr flushed_trans[OF fl] b1 show ?thesis by (auto simp: unf)
    next
      case no: False
      show ?thesis
      proof (cases "m_getFrom b + n = nbbio_BUFLEN")
        case True
        with no w Inr fl show ?thesis by (simp add: unf wrap_def Let_def)
      next
        case False
        with w Inr fl show ?thesis by (simp add: unf wrap_def)
      qed
    qed
  qed
qed

definition filled :: "nbbio \<Rightarrow> nbbio \<Rightarrow> char list \<Rightarrow> char list \<Rightarrow> bool" where
  "filled b b' p p' = (nb_inv b' \<and> m_linelen b' = m_linelen b \<and> m_lastchar b' = m_lastchar b \<and>
                       (\<exists>ds. contents b' = contents b @ ds \<and> p = ds @ p'))"

lemma filled_refl [simp]: "nb_inv b \<Longrightarrow> filled b b s s"
  by (simp add: filled_def)

lemma filled_trans: "filled b b1 s s1 \<Longrightarrow> filled b1 b2 s1 s2 \<Longrightarrow> filled b b2 s s2"
  by (auto simp: filled_def)

lemma fill_step:
  assumes inv: "nb_inv b" and os: "read_ok rcall fd pending"
    and r: "rcall fd (nat (contigBytesFree b)) x = (Inr ds, x')"
  shows "\<exists>buf. memcpy (m_buf b) (m_putTo b) ds = Some buf \<and>
           filled b (b\<lparr>m_buf := buf, m_putTo := wrap (m_putTo b + length ds)\<rparr>) (pending x) (pending x')"
proof -
  have p: "length ds \<le> nat (contigBytesFree b)" "pending x = ds @ pending x'"
    using read_okD(2)[OF os r] by auto
  then have "int (length ds) \<le> contigBytesFree b" using contigBytesFree_nonneg[OF inv] by linarith
  from append_contig[OF inv this] p(2) show ?thesis by (auto simp: filled_def)
qed

lemma fillFrom_lemma:
  assumes inv: "nb_inv b" and os: "read_ok rcall fd pending" and fd: "fd \<noteq> -1"
  shows "\<exists>r b' x'. fillFrom rcall fd b x = Some (r, b', x') \<and> filled b b' (pending x) (pending x')"
proof (cases "contigBytesFree b = 0")
  case True
  then show ?thesis using inv fd by (simp add: fillFrom_def)
next
  case False
  obtain res x1 where r: "rcall fd (nat (contigBytesFree b)) x = (res, x1)" by fastforce
  note unf = fillFrom_def False fd r Let_def
  show ?thesis
  proof (cases res)
    case (Inl e)
    with r read_okD(1)[OF os r[unfolded Inl]] inv show ?thesis by (simp add: unf)
  next
    case (Inr ds)
    note r1 = r[unfolded Inr]
    obtain buf where buf: "memcpy (m_buf b) (m_putTo b) ds = Some buf"
      and fl: "filled b (b\<lparr>m_buf := buf, m_putTo := wrap (m_putTo b + length ds)\<rparr>) (pending x) (pending x1)"
      using fill_step[OF inv os r1] by blast
    show ?thesis
    proof (cases ds)
      case Nil
      with read_okD(2)[OF os r1] inv Inr show ?thesis by (simp add: unf)
    next
      case (Cons d ds')
      let ?b2 = "b\<lparr>m_buf := buf, m_putTo := 0\<rparr>"
      show ?thesis
      proof (cases "m_putTo b + length ds = nbbio_BUFLEN")
        case False
        with Inr buf fl Cons show ?thesis by (simp add: unf wrap_eqs)
      next
        case wrapped: True
        have fl2: "filled b ?b2 (pending x) (pending x1)" and inv2: "nb_inv ?b2"
          using fl wrapped by (simp_all add: wrap_eqs filled_def)
        show ?thesis
        proof (cases "int (length ds) = contigBytesFree b \<and> contigBytesFree ?b2 \<noteq> 0")
          case False
          with wrapped Inr buf fl2 Cons show ?thesis by (auto simp: unf)
        next
          case True
          obtain res2 x2 where r2: "rcall fd (nat (contigBytesFree ?b2)) x1 = (res2, x2)" by fastforce
          show ?thesis
          proof (cases res2)
            case (Inl e)
            with read_okD(1)[OF os r2[unfolded Inl]] wrapped True Inr buf fl2 Cons r2 show ?thesis
              by (simp add: unf)
          next
            case res2: (Inr ds2)
            obtain buf2 where "memcpy buf 0 ds2 = Some buf2"
              "filled ?b2 (?b2\<lparr>m_buf := buf2, m_putTo := wrap (length ds2)\<rparr>) (pending x1) (pending x2)"
              using fill_step[OF inv2 os r2[unfolded res2]] by auto
            moreover have "length ds2 \<le> nat (contigBytesFree ?b2)"
              using read_okD(2)[OF os r2[unfolded res2]] by simp
            then have "wrap (length ds2) = length ds2" using inv2
              by (auto simp: wrap_def contigBytesFree_def nb_inv_def split: if_splits)
            ultimately show ?thesis using filled_trans[OF fl2] wrapped True Inr buf Cons r2 res2
              by (auto simp: unf)
          qed
        qed
      qed
    qed
  qed
qed

subsection \<open>The buffer provides the byte queue\<close>

definition put_all :: "nbbio \<Rightarrow> char list \<Rightarrow> (rc \<times> nbbio) option" where
  "put_all b ys = put b ys (length ys)"

interpretation nb: bounded_fifo put_all readc isEmpty contents nb_inv "nbbio_BUFLEN - 1"
proof unfold_locales
  fix b and ys :: "char list"
  assume inv: "nb_inv b" and "length (contents b) + length ys \<le> nbbio_BUFLEN - 1"
  then have "length ys \<le> room_left b" by (simp add: room_left_def)
  from put_lemma[OF inv, of "length ys" ys] this
  show "\<exists>b'. put_all b ys = Some (OK, b') \<and> nb_inv b' \<and> contents b' = contents b @ ys"
    by (auto simp: put_all_def)
next
  fix b and ys :: "char list"
  assume inv: "nb_inv b" and "nbbio_BUFLEN - 1 < length (contents b) + length ys"
  then have "room_left b < length ys" using length_contents_le[OF inv] by (simp add: room_left_def)
  from put_full[OF inv this] show "\<exists>e. put_all b ys = Some (Fail e, b)" by (simp add: put_all_def)
next
  fix b c cs
  assume "nb_inv b" "contents b = c # cs"
  from readc_lemma[OF this] show "\<exists>b'. readc b = Some (c, b') \<and> nb_inv b' \<and> contents b' = cs" by blast
next
  fix b
  assume "nb_inv b"
  then show "isEmpty b \<longleftrightarrow> contents b = []" by (rule isEmpty_contents)
qed

subsection \<open>Properties\<close>

text \<open>
  C3. A buffer is a bounded byte queue: any sequence of \<open>put\<close> and \<open>readc\<close> calls (a \<open>readc\<close> only when
  \<open>isEmpty\<close> is false) returns without a bad access and delivers what a plain list of at most 1023
  bytes would, a \<open>put\<close> that does not fit leaving the queue as it was.
\<close>

theorem nbbio_refines_queue:
  assumes "nb_inv b"
  shows "\<exists>b'. fifo_run put_all readc isEmpty b ops =
                Some (fst (fifo_spec (nbbio_BUFLEN - 1) (contents b) ops), b') \<and> nb_inv b' \<and>
              contents b' = snd (fifo_spec (nbbio_BUFLEN - 1) (contents b) ops)"
  by (rule nb.run_refines[OF assms])

definition nb0 :: nbbio where
  "nb0 = nbbio_init \<lparr>m_buf = replicate nbbio_BUFLEN NUL, m_getFrom = 0, m_putTo = 0, m_linelen = 0,
                     m_lastchar = NUL\<rparr>"

lemma nb0_inv [simp]: "nb_inv nb0" "contents nb0 = []" "m_lastchar nb0 = NUL" "m_linelen nb0 = 0"
  by (simp_all add: nb0_def nbbio_init_def nb_inv_def contents_def nbbio_BUFLEN_def)

lemma nb0_start [simp]: "at_line_start nb0 []"
  by (simp add: at_line_start_def)

theorem nbbio_refines_queue_witness:
  "\<exists>b'. fifo_run put_all readc isEmpty nb0 [FPut ''ab'', FGet, FGet, FGet] = Some (''ab'', b')"
  using nbbio_refines_queue[of nb0 "[FPut ''ab'', FGet, FGet, FGet]"]
  by (auto simp: nbbio_BUFLEN_def simp del: fifo_run.simps)

text \<open>
  C18. Lines survive the buffer: when the stream holds CRLF-terminated lines and nothing is pending,
  \<open>readline\<close> called once per line returns exactly these lines, in order, the CR and LF stripped,
  whichever way the bytes wrap around the buffer.
\<close>

theorem readline_roundtrip:
  assumes "at_line_start b []" "length (crlf_lines ls) \<le> room_left b"
    "\<forall>l \<in> set ls. is_line l \<and> NUL \<notin> set l \<and> length l < maxlen" "maxlen \<le> length linebuf"
  shows "\<exists>b1 b2. put b (crlf_lines ls) (length (crlf_lines ls)) = Some (OK, b1) \<and>
           read_lines (length ls) b1 linebuf maxlen = Some (ls, b2) \<and> at_line_start b2 []"
proof -
  have "nb_inv b" using assms(1) by (simp add: at_line_start_def)
  from put_lemma[OF this _ assms(2), of "crlf_lines ls"] obtain b1 where
    b1: "put b (crlf_lines ls) (length (crlf_lines ls)) = Some (OK, b1)" "nb_inv b1"
      "contents b1 = contents b @ crlf_lines ls" "m_linelen b1 = m_linelen b" "m_lastchar b1 = m_lastchar b"
    by auto
  then have "at_line_start b1 (crlf_lines ls @ [])" using assms(1) by (auto simp: at_line_start_def)
  from read_lines_lemma[OF this assms(4,3)] b1(1) show ?thesis by blast
qed

theorem readline_roundtrip_witness:
  "\<exists>b1 b2. put nb0 (crlf_lines [''220'', []]) (length (crlf_lines [''220'', []])) = Some (OK, b1) \<and>
     read_lines 2 b1 (replicate 10 NUL) 8 = Some ([''220'', []], b2)"
  using readline_roundtrip[of nb0 "[''220'', []]" 8 "replicate 10 NUL"]
  by (auto simp: crlf_lines_def is_line_def room_left_def nbbio_BUFLEN_def numeral_2_eq_2 simp del: read_lines.simps)

text \<open>
  C19. \<open>readline\<close> always returns, within the caller's buffer, and its result is that of the plain
  line splitter \<open>scan_line\<close> on the bytes buffered: a finished line is followed by a NUL and the
  scan restarts after it, an unfinished one is kept for the next call.
\<close>

theorem readline_refines:
  assumes "line_state b linebuf maxlen acc prev stream" "stream \<noteq> []"
  shows "\<exists>linebuf' b'. readline b linebuf maxlen = Some (fst (scan_line maxlen acc prev stream), linebuf', b') \<and>
           length linebuf' = length linebuf \<and> line_result b' linebuf' maxlen (scan_line maxlen acc prev stream)"
  using readline_lemma[OF assms(1)] assms(2) by auto

definition nb1 :: nbbio where
  "nb1 = nb0\<lparr>m_buf := ''ok'' @ [CR] @ replicate 1021 NUL, m_putTo := 3\<rparr>"

theorem readline_refines_witness:
  "\<exists>linebuf' b'. readline nb1 (replicate 4 NUL) 4 = Some (OK, linebuf', b') \<and> take 3 linebuf' = ''ok'' @ [NUL]"
proof -
  have "contents nb1 = ''ok'' @ [CR]"
    by (simp add: nb1_def nb0_def nbbio_init_def contents_def)
  then have "line_state nb1 (replicate 4 NUL) 4 [] NUL (''ok'' @ [CR])"
    by (simp add: line_state_def) (simp add: nb1_def nb0_def nbbio_init_def nb_inv_def nbbio_BUFLEN_def)
  from readline_refines[OF this] show ?thesis
    by (auto simp: line_result_def numeral_3_eq_3)
qed

text \<open>
  Filling neither loses nor reorders nor duplicates bytes, whatever \<open>read\<close> returns: after
  \<open>fillFrom\<close> the buffer has grown by exactly the bytes taken from the descriptor, and the call
  returns on every input.
\<close>

theorem fillFrom_conserves:
  assumes "nb_inv b" "read_ok rcall fd pending" "fd \<noteq> -1"
  shows "\<exists>r b' x'. fillFrom rcall fd b x = Some (r, b', x') \<and> nb_inv b' \<and>
           (\<exists>ds. contents b' = contents b @ ds \<and> pending x = ds @ pending x')"
  using fillFrom_lemma[OF assms] unfolding filled_def by blast

text \<open>A descriptor whose incoming bytes are the state; \<open>sink\<close> accepts everything.\<close>

definition source_read :: "char list read_call" where
  "source_read fd n x = (Inr (take n x), drop n x)"

definition sink_write :: "char list write_call" where
  "sink_write fd ds x = (Inr (length ds), x @ ds)"

theorem fillFrom_conserves_witness:
  "\<exists>r b' x'. fillFrom source_read 3 nb0 ''hello'' = Some (r, b', x') \<and> nb_inv b' \<and>
             contents b' @ x' = ''hello''"
proof -
  have "read_ok source_read 3 (\<lambda>x. x)" by (simp add: read_ok_def source_read_def)
  from fillFrom_conserves[OF nb0_inv(1) this, of "''hello''"] show ?thesis by force
qed

text \<open>
  Flushing sends the oldest bytes in order: after \<open>flushTo\<close> the bytes sent followed by the bytes
  left are the bytes there were, also when the run wraps around and two \<open>write\<close>s are issued. The
  recursion of the source always ends.
\<close>

theorem flushTo_conserves:
  assumes "nb_inv b" "write_ok wcall fd sent"
  shows "\<exists>r b' x'. flushTo wcall fd b x = Some (r, b', x') \<and> nb_inv b' \<and>
           (\<exists>ds. contents b = ds @ contents b' \<and> sent x' = sent x @ ds)"
  using flushTo_lemma[OF assms] unfolding flushed_def by blast

theorem flushTo_conserves_witness:
  "\<exists>r b' x'. flushTo sink_write 3 nb1 ''>'' = Some (r, b', x') \<and> x' @ contents b' = ''>ok'' @ [CR]"
proof -
  have "write_ok sink_write 3 (\<lambda>x. x)" by (simp add: write_ok_def sink_write_def)
  moreover have "nb_inv nb1" "contents nb1 = ''ok'' @ [CR]"
    by (simp_all add: nb1_def nb0_def nbbio_init_def nb_inv_def contents_def nbbio_BUFLEN_def)
  ultimately show ?thesis using flushTo_conserves[of nb1 sink_write 3 "\<lambda>x. x" "''>''"] by fastforce
qed

text \<open>
  The comment of nbbio.h says that \<open>m_lastchar\<close> is cleared after a line; the code leaves a CR
  there when it swallows the LF of a CRLF pair, so a bare LF that follows (an empty line) is
  swallowed with it, and \<open>readline\<close> reports that no line is complete.
\<close>

theorem readline_loses_empty_line:
  assumes "at_line_start b []" "m_lastchar b \<noteq> CR" "2 \<le> maxlen" "maxlen \<le> length linebuf"
    "length l < maxlen" "is_line l" "NUL \<notin> set l" "length l + 3 \<le> room_left b"
  shows "\<exists>b1 lb b2 lb' b3. put b (l @ [CR, LF, LF]) (length l + 3) = Some (OK, b1) \<and>
           readline b1 linebuf maxlen = Some (OK, lb, b2) \<and>
           readline b2 lb maxlen = Some (Fail EWOULDBLOCK, lb', b3) \<and> contents b3 = []"
proof -
  have inv: "nb_inv b" and b: "contents b = []" "m_linelen b = 0"
    using assms(1,2) by (simp_all add: at_line_start_def)
  have len: "length l + 3 \<le> length (l @ [CR, LF, LF])" by simp
  obtain b1 where b1: "put b (l @ [CR, LF, LF]) (length l + 3) = Some (OK, b1)" "nb_inv b1"
    "contents b1 = l @ [CR, LF, LF]" "m_linelen b1 = 0" "m_lastchar b1 = m_lastchar b"
    using put_lemma[OF inv len assms(8)] b by auto
  then have "at_line_start b1 (l @ CR # LF # [LF])" using assms(2) by (simp add: at_line_start_def)
  from readline_one[OF this assms(6,7,5,4)] obtain lb b2 where
    b2: "readline b1 linebuf maxlen = Some (OK, lb, b2)" "length lb = length linebuf" "at_line_start b2 [LF]"
    by blast
  \<comment> \<open>after the CR the buffer still holds LF LF\<close>
  then have st: "line_state b2 lb maxlen [] (m_lastchar b2) (contents b2)" and ne: "contents b2 \<noteq> []"
    using assms(4) by (auto simp: line_state_def at_line_start_def)
  have "m_lastchar b2 = CR \<and> contents b2 = [LF, LF]"
  proof -
    have st1: "line_state b1 linebuf maxlen [] (m_lastchar b) (l @ CR # [LF, LF])"
      using b1 assms(4) by (simp add: line_state_def)
    have "length ([] :: char list) + length l < maxlen" using assms(5) by simp
    note scan = scan_line_text[OF assms(6) this, of "m_lastchar b" "[LF, LF]"]
    from readline_lemma[OF st1] b2(1) show ?thesis unfolding scan by (auto simp: line_result_def line_state_def)
  qed
  then have "scan_line maxlen [] (m_lastchar b2) (contents b2) = (Fail EWOULDBLOCK, [], CR, [])"
    using assms(3) by simp
  with readline_lemma[OF st] ne obtain lb' b3 where "readline b2 lb maxlen = Some (Fail EWOULDBLOCK, lb', b3)"
    "contents b3 = []" by (auto simp: line_result_def line_state_def)
  with b1(1) b2(1) show ?thesis by blast
qed

theorem readline_loses_empty_line_witness:
  "\<exists>b1 lb b2 lb' b3. put nb0 [CHR ''a'', CR, LF, LF] 4 = Some (OK, b1) \<and>
     readline b1 (replicate 8 NUL) 8 = Some (OK, lb, b2) \<and>
     readline b2 lb 8 = Some (Fail EWOULDBLOCK, lb', b3) \<and> contents b3 = []"
  using readline_loses_empty_line[of nb0 8 "replicate 8 NUL" "''a''"]
  by (simp add: is_line_def room_left_def nbbio_BUFLEN_def)

end
