(* ===== verification/Ftp_proto.thy ===== *)
theory Ftp_proto
  imports Cstring
begin

unbundle bit_operations_syntax

text \<open>
  The FTP client protocol engine of ftp\_client\_proto.h and ftp\_client\_proto.cc: it turns the calls
  of the user (\<open>login\<close>, \<open>cd\<close>, \<open>get\<close>, ...) into command lines and the reply lines of the server into
  state changes, without doing any I/O. Members have the prefix \<open>fp_\<close> where the source has \<open>m_\<close>.

  The host is little-endian: \<open>s_addr\<close> and \<open>sin_port\<close> are the values the program reads from the
  network-order fields.
\<close>

subsection \<open>State\<close>

datatype fcps =
    FCPS_UNINIT | FCPS_INIT | FCPS_CONNECTED | FCPS_USER | FCPS_PASS | FCPS_IDLE | FCPS_CWD
  | FCPS_TYPE | FCPS_SIZE | FCPS_PORT | FCPS_PASV | FCPS_RETR | FCPS_QUIT

definition LINELEN :: nat where "LINELEN = 512"
definition MAXPASSWORD :: nat where "MAXPASSWORD = 32"
definition MAXFNAME :: nat where "MAXFNAME = 256"
definition STACKLEN :: int where "STACKLEN = 3"

record sockaddr_in =
  sin_family :: nat
  s_addr :: "32 word"
  sin_port :: "16 word"

definition AF_INET :: nat where "AF_INET = 2"

record ftp_proto =
  fp_state :: fcps
  fp_stack :: "fcps list"
  fp_stack_ptr :: int
  fp_sent_user :: bool
  fp_obuf :: "char list"
  fp_obuflen :: nat
  fp_multiline :: bool
  fp_status :: int
  fp_response :: "char list"
  fp_password :: "char list"
  fp_fname :: "char list"
  fp_address_ready :: bool
  fp_address :: sockaddr_in

subsection \<open>Byte order\<close>

text \<open>The byte swaps of a little-endian host; \<open>ntohl\<close> and \<open>ntohs\<close> are the same functions.\<close>

definition htonl :: "32 word \<Rightarrow> 32 word" where
  "htonl x = of_nat (unat x mod 256 * 2 ^ 24 + unat x div 2 ^ 8 mod 256 * 2 ^ 16 +
                     unat x div 2 ^ 16 mod 256 * 2 ^ 8 + unat x div 2 ^ 24)"

definition htons :: "16 word \<Rightarrow> 16 word" where
  "htons x = of_nat (unat x mod 256 * 2 ^ 8 + unat x div 2 ^ 8)"

text \<open>\<open>MAKE_INT32(a, b, c, d)\<close>; each argument is converted to \<open>unsigned char\<close>.\<close>

definition uchar :: "int \<Rightarrow> 32 word" where
  "uchar v = word_of_int (v mod 256)"

definition MAKE_INT32 :: "int \<Rightarrow> int \<Rightarrow> int \<Rightarrow> int \<Rightarrow> 32 word" where
  "MAKE_INT32 a b c d = push_bit 24 (uchar a) + push_bit 16 (uchar b) + push_bit 8 (uchar c) + uchar d"

definition GETBYTE3 :: "'w::len word \<Rightarrow> nat" where "GETBYTE3 x = unat (drop_bit 24 x AND 255)"
definition GETBYTE2 :: "'w::len word \<Rightarrow> nat" where "GETBYTE2 x = unat (drop_bit 16 x AND 255)"
definition GETBYTE1 :: "'w::len word \<Rightarrow> nat" where "GETBYTE1 x = unat (drop_bit 8 x AND 255)"
definition GETBYTE0 :: "'w::len word \<Rightarrow> nat" where "GETBYTE0 x = unat (x AND 255)"

subsection \<open>The state stack\<close>

definition callState :: "fcps \<Rightarrow> fcps \<Rightarrow> ftp_proto \<Rightarrow> ftp_proto option" where
  "callState jump_to return_to s =
     (if fp_stack_ptr s \<ge> STACKLEN then None
      else do {
        st \<leftarrow> wri (fp_stack s) (fp_stack_ptr s) return_to;
        Some (s\<lparr>fp_stack := st, fp_stack_ptr := fp_stack_ptr s + 1, fp_state := jump_to\<rparr>)
      })"

definition popState :: "ftp_proto \<Rightarrow> (fcps \<times> ftp_proto) option" where
  "popState s =
     (if fp_stack_ptr s \<le> 0 then None
      else do {
        r \<leftarrow> rdi (fp_stack s) (fp_stack_ptr s - 1);
        st \<leftarrow> wri (fp_stack s) (fp_stack_ptr s - 1) FCPS_UNINIT;
        Some (r, s\<lparr>fp_stack := st, fp_stack_ptr := fp_stack_ptr s - 1\<rparr>)
      })"

definition returnState :: "ftp_proto \<Rightarrow> ftp_proto option" where
  "returnState s = do { (r, s1) \<leftarrow> popState s; Some (s1\<lparr>fp_state := r\<rparr>) }"

text \<open>\<open>popState(); SETSTATE(FCPS_IDLE)\<close>, the failure exit of the two substates.\<close>

definition failSubstate :: "ftp_proto \<Rightarrow> ftp_proto option" where
  "failSubstate s = do { (r, s1) \<leftarrow> popState s; Some (s1\<lparr>fp_state := FCPS_IDLE\<rparr>) }"

definition fp_init :: "ftp_proto \<Rightarrow> ftp_proto" where
  "fp_init s = s\<lparr>fp_status := 0, fp_obuflen := 0, fp_multiline := False, fp_address_ready := False,
                 fp_sent_user := False, fp_stack_ptr := 0, fp_state := FCPS_INIT\<rparr>"

definition isInputReady :: "ftp_proto \<Rightarrow> bool" where
  "isInputReady s = (fp_state s \<noteq> FCPS_IDLE)"

definition isOutputReady :: "ftp_proto \<Rightarrow> bool" where
  "isOutputReady s = (fp_obuflen s \<noteq> 0)"

definition isPortReady :: "ftp_proto \<Rightarrow> sockaddr_in option \<times> ftp_proto" where
  "isPortReady s =
     (if \<not> fp_address_ready s then (None, s)
      else (Some (fp_address s), s\<lparr>fp_address_ready := False\<rparr>))"

definition isQuit :: "ftp_proto \<Rightarrow> bool" where
  "isQuit s = (fp_state s = FCPS_QUIT)"

text \<open>\<open>m_obuflen = sprintf(m_obuf, ...)\<close> with the formatted text \<open>t\<close>.\<close>

definition sprintf_obuf :: "char list \<Rightarrow> ftp_proto \<Rightarrow> ftp_proto option" where
  "sprintf_obuf t s = do {
     buf \<leftarrow> store_str (fp_obuf s) t;
     Some (s\<lparr>fp_obuf := buf, fp_obuflen := length t\<rparr>)
   }"

subsection \<open>Replies\<close>

definition ok2xx :: "int \<Rightarrow> bool" where
  "ok2xx status = (200 \<le> status \<and> status < 300)"

text \<open>
  The position of the address in a reply to PASV: the first comma, then back over digits. Stepping
  back reads \<open>p[-1]\<close>, which is outside the buffer when \<open>p\<close> is its start.
\<close>

fun step_back :: "char list \<Rightarrow> nat \<Rightarrow> nat option" where
  "step_back ibuf 0 = None"
| "step_back ibuf (Suc i) = do {
     c \<leftarrow> rd ibuf i;
     if isdigit c then step_back ibuf i else Some (Suc i)
   }"

definition find_comma :: "char list \<Rightarrow> nat option" where
  "find_comma ibuf =
     (let pre = takeWhile (\<lambda>c. c \<noteq> CHR '','') (cstr ibuf)
      in if length pre < length (cstr ibuf) then Some (length pre) else None)"

text \<open>The case \<open>FCPS_PASV\<close> of \<open>giveInput\<close>.\<close>

definition givePasv :: "ftp_proto \<Rightarrow> char list \<Rightarrow> int \<Rightarrow> ftp_proto option" where
  "givePasv s ibuf status =
     (if ok2xx status then
        (case find_comma ibuf of
           None \<Rightarrow> failSubstate s
         | Some i \<Rightarrow> do {
             p \<leftarrow> step_back ibuf i;
             vs \<leftarrow> sscanf_commas 6 (drop p (cstr ibuf));
             case vs of
               [a1, a2, a3, a4, p1, p2] \<Rightarrow> do {
                 let s1 = s\<lparr>fp_address := \<lparr>sin_family = AF_INET,
                                           s_addr = htonl (MAKE_INT32 a1 a2 a3 a4),
                                           sin_port = htons (ucast (MAKE_INT32 0 0 p1 p2))\<rparr>,
                            fp_address_ready := True\<rparr>;
                 s2 \<leftarrow> returnState s1;
                 if fp_state s2 = FCPS_RETR then do {
                   assertion (is_cstr (fp_fname s2));
                   sprintf_obuf (''RETR '' @ cstr (fp_fname s2) @ [CR, LF]) s2
                 }
                 else Some s2
               }
             | _ \<Rightarrow> failSubstate s
           })
      else failSubstate s)"

text \<open>
  The \<open>switch\<close> of \<open>giveInput\<close>. The argument \<open>ibuf\<close> is the caller's whole array: the function reads
  \<open>ibuf[3]\<close> also when the string in it is shorter.
\<close>

definition giveSwitch :: "ftp_proto \<Rightarrow> char list \<Rightarrow> int \<Rightarrow> (rc \<times> ftp_proto) option" where
  "giveSwitch s ibuf status =
     (case fp_state s of
        FCPS_INIT \<Rightarrow>
          (if ok2xx status then
             (if fp_sent_user s then Some (OK, s\<lparr>fp_state := FCPS_USER, fp_sent_user := False\<rparr>)
              else Some (OK, s\<lparr>fp_state := FCPS_CONNECTED\<rparr>))
           else Some (Fail EACCES, s\<lparr>fp_state := FCPS_UNINIT\<rparr>))
      | FCPS_USER \<Rightarrow>
          (if ok2xx status then Some (OK, s\<lparr>fp_state := FCPS_IDLE\<rparr>)
           else if 300 \<le> status \<and> status < 400 then do {
             assertion (is_cstr (fp_password s));
             s1 \<leftarrow> sprintf_obuf (''PASS '' @ cstr (fp_password s) @ [CR, LF]) s;
             Some (OK, s1\<lparr>fp_state := FCPS_PASS\<rparr>)
           }
           else Some (OK, s\<lparr>fp_state := FCPS_INIT\<rparr>))
      | FCPS_PASS \<Rightarrow>
          (if ok2xx status then Some (OK, s\<lparr>fp_state := FCPS_IDLE\<rparr>)
           else Some (OK, s\<lparr>fp_state := FCPS_INIT\<rparr>))
      | FCPS_CWD \<Rightarrow> Some (OK, s\<lparr>fp_state := FCPS_IDLE\<rparr>)
      | FCPS_TYPE \<Rightarrow> Some (OK, s\<lparr>fp_state := FCPS_IDLE\<rparr>)
      | FCPS_SIZE \<Rightarrow> Some (OK, s\<lparr>fp_state := FCPS_IDLE\<rparr>)
      | FCPS_PORT \<Rightarrow> do { s1 \<leftarrow> (if ok2xx status then returnState s else failSubstate s); Some (OK, s1) }
      | FCPS_PASV \<Rightarrow> do { s1 \<leftarrow> givePasv s ibuf status; Some (OK, s1) }
      | FCPS_RETR \<Rightarrow>
          (if 100 \<le> status \<and> status < 200 then Some (OK, s)
           else Some (OK, s\<lparr>fp_state := FCPS_IDLE\<rparr>))
      | _ \<Rightarrow> Some (Fail EINVAL, s))"

definition giveInput :: "ftp_proto \<Rightarrow> char list \<Rightarrow> (rc \<times> ftp_proto) option" where
  "giveInput s ibuf = do {
     assertion (is_cstr ibuf \<and> LF \<notin> set (cstr ibuf));
     status \<leftarrow> atoi (cstr ibuf);
     c3 \<leftarrow> rd ibuf 3;
     if fp_multiline s then
       Some (OK, if c3 = CHR '' '' \<and> status = fp_status s then s\<lparr>fp_multiline := False\<rparr> else s)
     else do {
       resp \<leftarrow> strncpy (fp_response s) ibuf LINELEN;
       resp' \<leftarrow> wr resp LINELEN NUL;
       let s1 = s\<lparr>fp_status := status, fp_response := resp'\<rparr>;
       let s2 = (if c3 = CHR ''-'' then s1\<lparr>fp_multiline := True\<rparr> else s1);
       giveSwitch s2 ibuf status
     }
   }"

text \<open>\<open>getStatus(buf, buflen)\<close>: the caller's buffer, when there is one, is \<open>buflen\<close> bytes.\<close>

definition getStatus :: "ftp_proto \<Rightarrow> char list option \<Rightarrow> (int \<times> char list option) option" where
  "getStatus s buf =
     (if fp_state s \<noteq> FCPS_IDLE \<and> fp_state s \<noteq> FCPS_INIT then Some (0, buf)
      else case buf of
        None \<Rightarrow> Some (fp_status s, None)
      | Some b \<Rightarrow> do {
          b1 \<leftarrow> strncpy b (fp_response s) (length b);
          b2 \<leftarrow> wri b1 (int (length b) - 1) NUL;
          Some (fp_status s, Some b2)
        })"

definition getOutput :: "ftp_proto \<Rightarrow> (char list \<times> nat) option" where
  "getOutput s = (if \<not> isOutputReady s then None else Some (fp_obuf s, fp_obuflen s))"

definition advanceOutput :: "ftp_proto \<Rightarrow> rc \<times> ftp_proto" where
  "advanceOutput s = (OK, s\<lparr>fp_obuflen := 0\<rparr>)"

subsection \<open>Commands\<close>

text \<open>String arguments are the text before the NUL; \<open>password\<close> is the caller's array.\<close>

definition login :: "ftp_proto \<Rightarrow> char list \<Rightarrow> char list \<Rightarrow> (rc \<times> ftp_proto) option" where
  "login s username password =
     (if fp_state s \<noteq> FCPS_INIT \<and> fp_state s \<noteq> FCPS_CONNECTED then Some (Fail EISCONN, s)
      else if fp_sent_user s then Some (Fail EISCONN, s)
      else if isOutputReady s then Some (Fail EWOULDBLOCK, s)
      else do {
        s1 \<leftarrow> sprintf_obuf (''USER '' @ username @ [CR, LF]) s;
        pw \<leftarrow> strncpy (fp_password s1) (password @ [NUL]) MAXPASSWORD;
        pw' \<leftarrow> wr pw (MAXPASSWORD - 1) NUL;
        let s2 = s1\<lparr>fp_password := pw'\<rparr>;
        Some (OK, if fp_state s2 = FCPS_CONNECTED then s2\<lparr>fp_state := FCPS_USER\<rparr>
                  else s2\<lparr>fp_sent_user := True\<rparr>)
      })"

definition quit_cmd :: "ftp_proto \<Rightarrow> (rc \<times> ftp_proto) option" where
  "quit_cmd s = Some (Fail ENOSYS, s)"

definition cd :: "ftp_proto \<Rightarrow> char list \<Rightarrow> (rc \<times> ftp_proto) option" where
  "cd s dir =
     (if fp_state s \<noteq> FCPS_IDLE then Some (Fail EISCONN, s)
      else if isOutputReady s then Some (Fail EWOULDBLOCK, s)
      else do {
        s1 \<leftarrow> sprintf_obuf (if dir = ''..'' then ''CDUP'' @ [CR, LF] else ''CWD '' @ dir @ [CR, LF]) s;
        Some (OK, s1\<lparr>fp_state := FCPS_CWD\<rparr>)
      })"

definition type_cmd :: "ftp_proto \<Rightarrow> char list \<Rightarrow> (rc \<times> ftp_proto) option" where
  "type_cmd s ttype =
     (if fp_state s \<noteq> FCPS_IDLE then Some (Fail EISCONN, s)
      else if isOutputReady s then Some (Fail EWOULDBLOCK, s)
      else do {
        s1 \<leftarrow> sprintf_obuf (''TYPE '' @ ttype @ [CR, LF]) s;
        Some (OK, s1\<lparr>fp_state := FCPS_TYPE\<rparr>)
      })"

definition size_cmd :: "ftp_proto \<Rightarrow> char list \<Rightarrow> (rc \<times> ftp_proto) option" where
  "size_cmd s fname =
     (if fp_state s \<noteq> FCPS_IDLE then Some (Fail EISCONN, s)
      else if isOutputReady s then Some (Fail EWOULDBLOCK, s)
      else do {
        s1 \<leftarrow> sprintf_obuf (''SIZE '' @ fname @ [CR, LF]) s;
        Some (OK, s1\<lparr>fp_state := FCPS_SIZE\<rparr>)
      })"

definition ls_cmd :: "ftp_proto \<Rightarrow> char list option \<Rightarrow> sockaddr_in option \<Rightarrow> (rc \<times> ftp_proto) option" where
  "ls_cmd s dirname address = Some (Fail ENOSYS, s)"

text \<open>
  \<open>get(fname, adr)\<close>. The port sent is computed from \<open>sin_addr\<close>, as in the source: \<open>ntohs\<close> of its
  low half.
\<close>

definition port_line :: "sockaddr_in \<Rightarrow> char list" where
  "port_line adr =
     (let addr = htonl (s_addr adr); port = htons (ucast (s_addr adr))
      in ''PORT '' @ commas (map dec [GETBYTE3 addr, GETBYTE2 addr, GETBYTE1 addr, GETBYTE0 addr,
                                       GETBYTE1 port, GETBYTE0 port]) @ [CR, LF])"

definition get_cmd :: "ftp_proto \<Rightarrow> char list \<Rightarrow> sockaddr_in option \<Rightarrow> (rc \<times> ftp_proto) option" where
  "get_cmd s fname adr =
     (if fp_state s \<noteq> FCPS_IDLE then Some (Fail EISCONN, s)
      else if isOutputReady s then Some (Fail EWOULDBLOCK, s)
      else if length fname \<ge> MAXFNAME then Some (Fail E2BIG, s)
      else do {
        fn \<leftarrow> store_str (fp_fname s) fname;
        let s1 = s\<lparr>fp_fname := fn\<rparr>;
        case adr of
          Some a \<Rightarrow> do {
            s2 \<leftarrow> sprintf_obuf (port_line a) s1;
            s3 \<leftarrow> callState FCPS_PORT FCPS_RETR s2;
            Some (OK, s3)
          }
        | None \<Rightarrow> do {
            s2 \<leftarrow> sprintf_obuf (''PASV'' @ [CR, LF]) s1;
            s3 \<leftarrow> callState FCPS_PASV FCPS_RETR s2;
            Some (OK, s3)
          }
      })"

subsection \<open>Invariant\<close>

definition substate :: "fcps \<Rightarrow> bool" where
  "substate st = (st = FCPS_PORT \<or> st = FCPS_PASV)"

definition out_ok :: "ftp_proto \<Rightarrow> bool" where
  "out_ok s = (fp_obuflen s = 0 \<or>
     (\<exists>t. fp_obuflen s = length t + 2 \<and> take (fp_obuflen s + 1) (fp_obuf s) = t @ [CR, LF, NUL]))"

text \<open>
  The arrays have their declared sizes, the return stack is empty except in a substate, where it
  holds the state to return to, the strings saved for later states are terminated when those states
  may be reached, and a pending output line is terminated.
\<close>

definition fp_sizes :: "ftp_proto \<Rightarrow> bool" where
  "fp_sizes s = (length (fp_obuf s) = LINELEN + 1 \<and> length (fp_response s) = LINELEN + 1 \<and>
                 length (fp_password s) = MAXPASSWORD \<and> length (fp_fname s) = MAXFNAME \<and>
                 length (fp_stack s) = nat STACKLEN)"

definition fp_inv :: "ftp_proto \<Rightarrow> bool" where
  "fp_inv s = (fp_sizes s \<and> out_ok s \<and>
     (if substate (fp_state s) then fp_stack_ptr s = 1 \<and> fp_stack s ! 0 = FCPS_RETR else fp_stack_ptr s = 0) \<and>
     (substate (fp_state s) \<or> fp_state s = FCPS_RETR \<longrightarrow> is_cstr (fp_fname s)) \<and>
     (fp_state s = FCPS_USER \<or> fp_sent_user s \<longrightarrow> is_cstr (fp_password s)))"

lemmas fp_inv_defs = fp_inv_def fp_sizes_def substate_def LINELEN_def MAXPASSWORD_def MAXFNAME_def STACKLEN_def

lemma fp_init_inv: "fp_sizes s \<Longrightarrow> fp_inv (fp_init s)"
  by (simp add: fp_inv_def fp_init_def fp_sizes_def substate_def out_ok_def)

lemma out_ok_frame [simp]:
  "out_ok (s\<lparr>fp_state := a\<rparr>) = out_ok s" "out_ok (s\<lparr>fp_sent_user := b\<rparr>) = out_ok s"
  "out_ok (s\<lparr>fp_stack := st\<rparr>) = out_ok s" "out_ok (s\<lparr>fp_stack_ptr := i\<rparr>) = out_ok s"
  "out_ok (s\<lparr>fp_multiline := b\<rparr>) = out_ok s" "out_ok (s\<lparr>fp_status := v\<rparr>) = out_ok s"
  "out_ok (s\<lparr>fp_response := l\<rparr>) = out_ok s" "out_ok (s\<lparr>fp_password := l\<rparr>) = out_ok s"
  "out_ok (s\<lparr>fp_fname := l\<rparr>) = out_ok s" "out_ok (s\<lparr>fp_address_ready := b\<rparr>) = out_ok s"
  "out_ok (s\<lparr>fp_address := a'\<rparr>) = out_ok s" "out_ok (s\<lparr>fp_obuflen := 0\<rparr>)"
  by (simp_all add: out_ok_def)

text \<open>Writing a line that fits.\<close>

definition wrote :: "char list \<Rightarrow> ftp_proto \<Rightarrow> ftp_proto" where
  "wrote t s = s\<lparr>fp_obuf := t @ NUL # drop (Suc (length t)) (fp_obuf s), fp_obuflen := length t\<rparr>"

lemma sprintf_obuf_Some:
  "fp_sizes s \<Longrightarrow> length t \<le> LINELEN \<Longrightarrow> sprintf_obuf t s = Some (wrote t s)"
  by (simp add: sprintf_obuf_def wrote_def fp_sizes_def)

lemma sprintf_obuf_None: "fp_sizes s \<Longrightarrow> LINELEN < length t \<Longrightarrow> sprintf_obuf t s = None"
  by (simp add: sprintf_obuf_def store_str_None fp_sizes_def)

lemma wrote_simps [simp]:
  "fp_state (wrote t s) = fp_state s" "fp_stack (wrote t s) = fp_stack s"
  "fp_stack_ptr (wrote t s) = fp_stack_ptr s" "fp_sent_user (wrote t s) = fp_sent_user s"
  "fp_multiline (wrote t s) = fp_multiline s" "fp_status (wrote t s) = fp_status s"
  "fp_response (wrote t s) = fp_response s" "fp_password (wrote t s) = fp_password s"
  "fp_fname (wrote t s) = fp_fname s" "fp_address_ready (wrote t s) = fp_address_ready s"
  "fp_address (wrote t s) = fp_address s" "fp_obuflen (wrote t s) = length t"
  "cstr (fp_obuf (wrote t s)) = cstr (t @ [NUL])"
  using cstr_behind by (simp_all add: wrote_def)

lemma wrote_take: "n = length t \<Longrightarrow> take n (fp_obuf (wrote t s)) = t"
  by (simp add: wrote_def)

lemma wrote_sizes [simp]: "length t \<le> LINELEN \<Longrightarrow> fp_sizes s \<Longrightarrow> fp_sizes (wrote t s)"
  by (simp add: fp_sizes_def wrote_def)

lemma wrote_out [simp]: "out_ok (wrote (t @ [CR, LF]) s)"
proof -
  have "take (fp_obuflen (wrote (t @ [CR, LF]) s) + 1) (fp_obuf (wrote (t @ [CR, LF]) s)) = t @ [CR, LF, NUL]"
    "fp_obuflen (wrote (t @ [CR, LF]) s) = length t + 2"
    by (simp_all add: wrote_def)
  then show ?thesis unfolding out_ok_def by blast
qed

lemma fp_sizes_frame [simp]:
  "fp_sizes (s\<lparr>fp_state := a\<rparr>) = fp_sizes s" "fp_sizes (s\<lparr>fp_sent_user := b\<rparr>) = fp_sizes s"
  "fp_sizes (s\<lparr>fp_stack_ptr := i\<rparr>) = fp_sizes s" "length st = length (fp_stack s) \<Longrightarrow> fp_sizes (s\<lparr>fp_stack := st\<rparr>) = fp_sizes s"
  "fp_sizes (s\<lparr>fp_multiline := b\<rparr>) = fp_sizes s" "fp_sizes (s\<lparr>fp_status := v\<rparr>) = fp_sizes s"
  "fp_sizes (s\<lparr>fp_address_ready := b\<rparr>) = fp_sizes s" "fp_sizes (s\<lparr>fp_address := a'\<rparr>) = fp_sizes s"
  "fp_sizes (s\<lparr>fp_obuflen := n\<rparr>) = fp_sizes s"
  by (simp_all add: fp_sizes_def)

subsection \<open>Replies\<close>

text \<open>
  The lines on which \<open>giveInput\<close> is defined: terminated, without LF, in an array of at least four
  bytes, and with numbers that fit an \<open>int\<close>; a reply to PASV must not start with its address.
\<close>

definition line_defined :: "char list \<Rightarrow> bool" where
  "line_defined ibuf = (is_cstr ibuf \<and> LF \<notin> set (cstr ibuf) \<and> 3 < length ibuf \<and> atoi (cstr ibuf) \<noteq> None)"

definition pasv_defined :: "char list \<Rightarrow> bool" where
  "pasv_defined ibuf = (case find_comma ibuf of None \<Rightarrow> True | Some i \<Rightarrow>
     (case step_back ibuf i of None \<Rightarrow> False | Some p \<Rightarrow> sscanf_commas 6 (drop p (cstr ibuf)) \<noteq> None))"

text \<open>The protocol automaton: state, whether USER was sent ahead, reply code, next state.\<close>

inductive fsm :: "fcps \<Rightarrow> bool \<Rightarrow> int \<Rightarrow> fcps \<Rightarrow> bool" where
  hello: "ok2xx c \<Longrightarrow> fsm FCPS_INIT u c (if u then FCPS_USER else FCPS_CONNECTED)"
| hello_bad: "\<not> ok2xx c \<Longrightarrow> fsm FCPS_INIT u c FCPS_UNINIT"
| user_ok: "ok2xx c \<Longrightarrow> fsm FCPS_USER u c FCPS_IDLE"
| user_pw: "300 \<le> c \<Longrightarrow> c < 400 \<Longrightarrow> fsm FCPS_USER u c FCPS_PASS"
| user_bad: "\<not> ok2xx c \<Longrightarrow> \<not> (300 \<le> c \<and> c < 400) \<Longrightarrow> fsm FCPS_USER u c FCPS_INIT"
| pass_ok: "ok2xx c \<Longrightarrow> fsm FCPS_PASS u c FCPS_IDLE"
| pass_bad: "\<not> ok2xx c \<Longrightarrow> fsm FCPS_PASS u c FCPS_INIT"
| simple: "st = FCPS_CWD \<or> st = FCPS_TYPE \<or> st = FCPS_SIZE \<Longrightarrow> fsm st u c FCPS_IDLE"
| sub_ok: "substate st \<Longrightarrow> ok2xx c \<Longrightarrow> fsm st u c FCPS_RETR"
| sub_bad: "st = FCPS_PORT \<and> \<not> ok2xx c \<or> st = FCPS_PASV \<Longrightarrow> fsm st u c FCPS_IDLE"
| retr_start: "100 \<le> c \<Longrightarrow> c < 200 \<Longrightarrow> fsm FCPS_RETR u c FCPS_RETR"
| retr_end: "\<not> (100 \<le> c \<and> c < 200) \<Longrightarrow> fsm FCPS_RETR u c FCPS_IDLE"
| ignored: "st = FCPS_UNINIT \<or> st = FCPS_CONNECTED \<or> st = FCPS_IDLE \<or> st = FCPS_QUIT \<Longrightarrow> fsm st u c st"

inductive_cases fsm_cases: "fsm st u c st'"

lemmas fsm_rules = fsm.intros

text \<open>What one step of \<open>giveSwitch\<close> guarantees.\<close>

definition switch_post :: "ftp_proto \<Rightarrow> int \<Rightarrow> (rc \<times> ftp_proto) option \<Rightarrow> bool" where
  "switch_post s status res = (\<exists>r s'. res = Some (r, s') \<and> fp_inv s' \<and>
     fsm (fp_state s) (fp_sent_user s) status (fp_state s') \<and>
     fp_status s' = fp_status s \<and> fp_response s' = fp_response s \<and> fp_multiline s' = fp_multiline s)"

lemma switch_postI:
  "fp_inv s' \<Longrightarrow> fsm (fp_state s) (fp_sent_user s) status (fp_state s') \<Longrightarrow>
   fp_status s' = fp_status s \<Longrightarrow> fp_response s' = fp_response s \<Longrightarrow> fp_multiline s' = fp_multiline s \<Longrightarrow>
   switch_post s status (Some (r, s'))"
  by (auto simp: switch_post_def)

lemma pop_substate:
  assumes "fp_inv s" "substate (fp_state s)"
  shows "popState s = Some (FCPS_RETR, s\<lparr>fp_stack := (fp_stack s)[0 := FCPS_UNINIT], fp_stack_ptr := 0\<rparr>)"
  using assms by (simp add: popState_def fp_inv_defs)

lemma fail_substate:
  assumes inv: "fp_inv s" and sub: "substate (fp_state s)" and f: "fsm (fp_state s) (fp_sent_user s) c FCPS_IDLE"
  shows "switch_post s c (do { s1 \<leftarrow> failSubstate s; Some (OK, s1) })"
  using assms pop_substate[OF inv sub]
  by (auto simp: failSubstate_def substate_def fp_inv_def intro!: switch_postI)

lemma return_substate:
  assumes inv: "fp_inv s" and sub: "substate (fp_state s)"
  shows "returnState s = Some (s\<lparr>fp_stack := (fp_stack s)[0 := FCPS_UNINIT], fp_stack_ptr := 0, fp_state := FCPS_RETR\<rparr>)"
  using pop_substate[OF inv sub] by (simp add: returnState_def)

lemma length_fname: "fp_inv s \<Longrightarrow> is_cstr (fp_fname s) \<Longrightarrow> length (''RETR '' @ cstr (fp_fname s) @ [CR, LF]) \<le> LINELEN"
  using length_cstr[of "fp_fname s"] by (simp add: fp_inv_defs)

lemma length_password:
  "fp_inv s \<Longrightarrow> is_cstr (fp_password s) \<Longrightarrow> length (''PASS '' @ cstr (fp_password s) @ [CR, LF]) \<le> LINELEN"
  using length_cstr[of "fp_password s"] by (simp add: fp_inv_defs)

text \<open>The state after a parsed PASV reply.\<close>

definition pasv_result :: "ftp_proto \<Rightarrow> int list \<Rightarrow> ftp_proto" where
  "pasv_result s vs = wrote (''RETR '' @ cstr (fp_fname s) @ [CR, LF])
     (s\<lparr>fp_address := \<lparr>sin_family = AF_INET, s_addr = htonl (MAKE_INT32 (vs!0) (vs!1) (vs!2) (vs!3)),
                       sin_port = htons (ucast (MAKE_INT32 0 0 (vs!4) (vs!5)))\<rparr>,
        fp_address_ready := True, fp_stack := (fp_stack s)[0 := FCPS_UNINIT], fp_stack_ptr := 0,
        fp_state := FCPS_RETR\<rparr>)"

lemma pasv_result_inv:
  "fp_inv s \<Longrightarrow> fp_state s = FCPS_PASV \<Longrightarrow> fp_inv (pasv_result s vs)"
  using length_fname[of s] wrote_out[of "''RETR '' @ cstr (fp_fname s)"]
  by (simp add: fp_inv_def pasv_result_def substate_def)

lemma givePasv_parsed:
  assumes inv: "fp_inv s" and st: "fp_state s = FCPS_PASV" and ok: "ok2xx c"
    and p: "find_comma ibuf = Some i" "step_back ibuf i = Some p" "sscanf_commas 6 (drop p (cstr ibuf)) = Some vs"
    and six: "length vs = 6"
  shows "givePasv s ibuf c = Some (pasv_result s vs)"
proof -
  obtain a1 a2 a3 a4 p1 p2 where vs: "vs = [a1, a2, a3, a4, p1, p2]"
    using six by (auto simp: numeral_eq_Suc length_Suc_conv)
  have sub: "substate (fp_state s)" and fn: "is_cstr (fp_fname s)" and sz: "fp_sizes s"
    using inv st by (auto simp: fp_inv_def substate_def)
  let ?s1 = "s\<lparr>fp_address := \<lparr>sin_family = AF_INET, s_addr = htonl (MAKE_INT32 a1 a2 a3 a4),
                               sin_port = htons (ucast (MAKE_INT32 0 0 p1 p2))\<rparr>, fp_address_ready := True\<rparr>"
  have inv1: "fp_inv ?s1" "substate (fp_state ?s1)" using inv sub by (simp_all add: fp_inv_def)
  note ret = return_substate[OF inv1]
  show ?thesis
    using ok p fn sz length_fname[OF inv fn] unfolding vs
    by (simp add: givePasv_def ret sprintf_obuf_Some pasv_result_def)
qed

lemma givePasv_failed:
  assumes p: "pasv_defined ibuf"
    and no: "\<not> (ok2xx c \<and> (\<exists>i p vs. find_comma ibuf = Some i \<and> step_back ibuf i = Some p \<and>
                 sscanf_commas 6 (drop p (cstr ibuf)) = Some vs \<and> length vs = 6))"
  shows "givePasv s ibuf c = failSubstate s"
proof (cases "ok2xx c \<and> find_comma ibuf \<noteq> None")
  case True
  then obtain i where i: "find_comma ibuf = Some i" by auto
  with p obtain q vs where q: "step_back ibuf i = Some q" "sscanf_commas 6 (drop q (cstr ibuf)) = Some vs"
    by (auto simp: pasv_defined_def split: option.splits)
  with no True i have "length vs \<noteq> 6" by auto
  with True i q show ?thesis by (auto simp: givePasv_def split: list.splits)
next
  case False
  then show ?thesis by (auto simp: givePasv_def)
qed

lemma giveSwitch_lemma:
  assumes inv: "fp_inv s" and pv: "fp_state s = FCPS_PASV \<Longrightarrow> pasv_defined ibuf"
  shows "switch_post s c (giveSwitch s ibuf c)"
proof (cases "fp_state s")
  case FCPS_INIT
  with inv show ?thesis
    by (auto simp: giveSwitch_def fp_inv_def substate_def intro!: switch_postI intro: fsm_rules
      hello[of c True, simplified] hello[of c False, simplified])
next
  case FCPS_USER
  then have pw: "is_cstr (fp_password s)" using inv by (simp add: fp_inv_def)
  consider "ok2xx c" | "300 \<le> c \<and> c < 400" "\<not> ok2xx c" | "\<not> ok2xx c" "\<not> (300 \<le> c \<and> c < 400)" by blast
  then show ?thesis
  proof cases
    case 2
    let ?t = "''PASS '' @ cstr (fp_password s) @ [CR, LF]"
    have "sprintf_obuf ?t s = Some (wrote ?t s)"
      using sprintf_obuf_Some[OF _ length_password[OF inv pw]] inv by (simp add: fp_inv_def)
    moreover have "fp_inv (wrote ?t s\<lparr>fp_state := FCPS_PASS\<rparr>)"
      using inv FCPS_USER length_password[OF inv pw] wrote_out[of "''PASS '' @ cstr (fp_password s)"]
      by (simp add: fp_inv_def substate_def)
    ultimately show ?thesis using FCPS_USER 2 pw
      by (auto simp: giveSwitch_def intro!: switch_postI intro: fsm_rules)
  qed (use FCPS_USER inv in \<open>auto simp: giveSwitch_def fp_inv_def substate_def intro!: switch_postI intro: fsm_rules\<close>)
next
  case FCPS_PORT
  then have sub: "substate (fp_state s)" by (simp add: substate_def)
  show ?thesis
  proof (cases "ok2xx c")
    case True
    from return_substate[OF inv sub] inv sub FCPS_PORT True sub_ok[OF sub True] show ?thesis
      by (auto simp: giveSwitch_def fp_inv_def substate_def intro!: switch_postI)
  next
    case False
    from fail_substate[OF inv sub, of c] sub_bad[of "fp_state s" c] FCPS_PORT False show ?thesis
      by (simp add: giveSwitch_def)
  qed
next
  case FCPS_PASV
  then have sub: "substate (fp_state s)" by (simp add: substate_def)
  show ?thesis
  proof (cases "ok2xx c \<and> (\<exists>i p vs. find_comma ibuf = Some i \<and> step_back ibuf i = Some p \<and>
                 sscanf_commas 6 (drop p (cstr ibuf)) = Some vs \<and> length vs = 6)")
    case True
    then obtain vs where "givePasv s ibuf c = Some (pasv_result s vs)"
      using givePasv_parsed[OF inv FCPS_PASV] by blast
    with pasv_result_inv[OF inv FCPS_PASV] FCPS_PASV True sub_ok[OF sub] show ?thesis
      by (auto simp: giveSwitch_def pasv_result_def intro!: switch_postI)
  next
    case False
    from givePasv_failed[OF pv[OF FCPS_PASV] False] fail_substate[OF inv sub, of c] sub_bad[of "fp_state s" c] FCPS_PASV
    show ?thesis by (simp add: giveSwitch_def)
  qed
qed (use inv in \<open>auto simp: giveSwitch_def fp_inv_def substate_def intro!: switch_postI intro: fsm_rules\<close>)

lemma atoi_Some: "line_defined ibuf \<Longrightarrow> \<exists>c. atoi (cstr ibuf) = Some c"
  by (auto simp: line_defined_def)

text \<open>A reply while a multi-line reply goes on.\<close>

lemma giveInput_multiline:
  assumes "line_defined ibuf" "fp_multiline s"
  shows "giveInput s ibuf = Some (OK, if ibuf ! 3 = CHR '' '' \<and> atoi (cstr ibuf) = Some (fp_status s)
                                      then s\<lparr>fp_multiline := False\<rparr> else s)"
  using assms by (auto simp: giveInput_def line_defined_def)

definition saved_reply :: "char list \<Rightarrow> char list" where
  "saved_reply ibuf = take LINELEN (cstr ibuf) @ replicate (LINELEN - length (cstr ibuf)) NUL @ [NUL]"

lemma length_saved_reply [simp]: "length (saved_reply ibuf) = LINELEN + 1"
  by (simp add: saved_reply_def)

lemma giveInput_reply:
  assumes "line_defined ibuf" "\<not> fp_multiline s" "fp_inv s" "atoi (cstr ibuf) = Some c"
  shows "giveInput s ibuf =
           giveSwitch (s\<lparr>fp_status := c, fp_response := saved_reply ibuf, fp_multiline := (ibuf ! 3 = CHR ''-'')\<rparr>) ibuf c"
proof -
  let ?p = "take LINELEN (cstr ibuf) @ replicate (LINELEN - length (cstr ibuf)) NUL"
  have len: "length (fp_response s) = LINELEN + 1" using assms(3) by (simp add: fp_inv_def fp_sizes_def)
  have lp: "length ?p = LINELEN" by simp
  have "is_cstr ibuf" using assms(1) by (simp add: line_defined_def)
  then have "strncpy (fp_response s) ibuf LINELEN = Some (?p @ drop LINELEN (fp_response s))"
    using len lp by (simp add: strncpy_def memcpy_def)
  moreover have "wr (?p @ drop LINELEN (fp_response s)) LINELEN NUL = Some (saved_reply ibuf)"
  proof -
    obtain x where x: "drop LINELEN (fp_response s) = [x]"
      using len by (metis Cons_nth_drop_Suc drop_all le_refl less_add_one Suc_eq_plus1)
    have "(?p @ [x])[LINELEN := NUL] = ?p @ [NUL]" using lp by (metis list_update_length)
    with x lp show ?thesis by (simp add: saved_reply_def)
  qed
  moreover have "(if b then s\<lparr>fp_status := c, fp_response := r\<rparr>\<lparr>fp_multiline := True\<rparr> else s\<lparr>fp_status := c, fp_response := r\<rparr>) =
      s\<lparr>fp_status := c, fp_response := r, fp_multiline := b\<rparr>" for r b
    using assms(2) by (cases s) simp
  ultimately show ?thesis using assms
    by (simp add: giveInput_def line_defined_def Let_def split del: if_split)
qed

lemma giveInput_lemma:
  assumes "fp_inv s" "line_defined ibuf" "fp_state s = FCPS_PASV \<Longrightarrow> pasv_defined ibuf"
  shows "\<exists>r s'. giveInput s ibuf = Some (r, s') \<and> fp_inv s' \<and>
           (fp_multiline s \<longrightarrow> r = OK \<and> fp_state s' = fp_state s \<and> fp_status s' = fp_status s) \<and>
           (\<not> fp_multiline s \<longrightarrow> atoi (cstr ibuf) = Some (fp_status s') \<and>
              fsm (fp_state s) (fp_sent_user s) (fp_status s') (fp_state s'))"
proof (cases "fp_multiline s")
  case True
  with giveInput_multiline[OF assms(2) True] assms(1) show ?thesis
    by (auto simp: fp_inv_def)
next
  case False
  obtain c where c: "atoi (cstr ibuf) = Some c" using atoi_Some[OF assms(2)] by blast
  let ?s = "s\<lparr>fp_status := c, fp_response := saved_reply ibuf, fp_multiline := (ibuf ! 3 = CHR ''-'')\<rparr>"
  have "fp_inv ?s" using assms(1) by (auto simp: fp_inv_def fp_sizes_def)
  from giveSwitch_lemma[OF this, of ibuf c] assms(3) giveInput_reply[OF assms(2) False assms(1) c] False c
  show ?thesis by (auto simp: switch_post_def)
qed

subsection \<open>Commands and sessions\<close>

datatype fp_cmd =
    CmdLogin "char list" "char list" | CmdQuit | CmdCd "char list" | CmdType "char list"
  | CmdSize "char list" | CmdLs "char list option" "sockaddr_in option"
  | CmdGet "char list" "sockaddr_in option"

fun run_cmd :: "ftp_proto \<Rightarrow> fp_cmd \<Rightarrow> (rc \<times> ftp_proto) option" where
  "run_cmd s (CmdLogin u p) = login s u p"
| "run_cmd s CmdQuit = quit_cmd s"
| "run_cmd s (CmdCd d) = cd s d"
| "run_cmd s (CmdType t) = type_cmd s t"
| "run_cmd s (CmdSize f) = size_cmd s f"
| "run_cmd s (CmdLs d a) = ls_cmd s d a"
| "run_cmd s (CmdGet f a) = get_cmd s f a"

text \<open>The lengths for which the command line fits \<open>m_obuf\<close>.\<close>

fun cmd_fits :: "fp_cmd \<Rightarrow> bool" where
  "cmd_fits (CmdLogin u p) = (length u \<le> LINELEN - 7)"
| "cmd_fits (CmdCd d) = (length d \<le> LINELEN - 6)"
| "cmd_fits (CmdType t) = (length t \<le> LINELEN - 7)"
| "cmd_fits (CmdSize f) = (length f \<le> LINELEN - 7)"
| "cmd_fits c = True"

text \<open>The text of each command line, and the state the command leads to.\<close>

fun cmd_line :: "fp_cmd \<Rightarrow> char list" where
  "cmd_line (CmdLogin u p) = ''USER '' @ u @ [CR, LF]"
| "cmd_line (CmdCd d) = (if d = ''..'' then ''CDUP'' @ [CR, LF] else ''CWD '' @ d @ [CR, LF])"
| "cmd_line (CmdType t) = ''TYPE '' @ t @ [CR, LF]"
| "cmd_line (CmdSize f) = ''SIZE '' @ f @ [CR, LF]"
| "cmd_line (CmdGet f (Some a)) = port_line a"
| "cmd_line (CmdGet f None) = ''PASV'' @ [CR, LF]"
| "cmd_line c = []"

lemma length_dec: "n < 1000 \<Longrightarrow> length (dec n) \<le> 3"
  by (simp add: dec.simps[of n] dec.simps[of "n div 10"] dec.simps[of "n div 10 div 10"])

lemma GETBYTE_lt:
  "GETBYTE3 x < 256" "GETBYTE2 x < 256" "GETBYTE1 x < 256" "GETBYTE0 x < 256"
proof -
  have "unat (y AND 255) < 256" for y :: "'w::len word"
  proof -
    have "y AND 255 = take_bit 8 y" by (simp add: take_bit_eq_mask mask_eq_exp_minus_1)
    then have "unat (y AND 255) = take_bit 8 (unat y)" by (simp add: unsigned_take_bit_eq)
    then show ?thesis by (simp add: take_bit_eq_mod)
  qed
  then show "GETBYTE3 x < 256" "GETBYTE2 x < 256" "GETBYTE1 x < 256" "GETBYTE0 x < 256"
    by (simp_all add: GETBYTE3_def GETBYTE2_def GETBYTE1_def GETBYTE0_def)
qed

lemma length_port_line: "length (port_line a) \<le> LINELEN"
proof -
  have le: "length (dec n) \<le> 3" if "n < 256" for n using that by (simp add: length_dec)
  note b = le[OF GETBYTE_lt(1)] le[OF GETBYTE_lt(2)] le[OF GETBYTE_lt(3)] le[OF GETBYTE_lt(4)]
  show ?thesis using b[of "htonl (s_addr a)"] b(3,4)[of "htons (ucast (s_addr a))"]
    by (simp add: port_line_def Let_def commas_def LINELEN_def)
qed

lemma port_line_CRLF: "\<exists>t. port_line a = t @ [CR, LF]"
  by (simp add: port_line_def Let_def)

lemma cmd_line_CRLF: "fp_state s = FCPS_IDLE \<Longrightarrow> cmd_line c = [] \<or> (\<exists>t. cmd_line c = t @ [CR, LF])"
  using port_line_CRLF by (cases c rule: cmd_line.cases) auto

lemma out_wrote_line: "\<exists>t. l = t @ [CR, LF] \<Longrightarrow> out_ok (wrote l s)"
  by (auto intro: wrote_out)

lemma get_Some:
  assumes inv: "fp_inv s" and st: "fp_state s = FCPS_IDLE" "\<not> isOutputReady s" and len: "length f < MAXFNAME"
  shows "\<exists>s'. get_cmd s f a = Some (OK, s') \<and> fp_inv s' \<and>
           fp_state s' = (if a = None then FCPS_PASV else FCPS_PORT) \<and>
           cstr (fp_obuf s') = cstr (cmd_line (CmdGet f a) @ [NUL]) \<and>
           fp_obuflen s' = length (cmd_line (CmdGet f a)) \<and> fp_multiline s' = fp_multiline s \<and>
           cstr (fp_fname s') = cstr (f @ [NUL]) \<and> fp_address_ready s' = fp_address_ready s"
proof -
  let ?fn = "f @ NUL # drop (Suc (length f)) (fp_fname s)" and ?l = "cmd_line (CmdGet f a)"
  let ?s1 = "s\<lparr>fp_fname := ?fn\<rparr>"
  have fn: "store_str (fp_fname s) f = Some ?fn" using len inv by (simp add: fp_inv_def fp_sizes_def)
  have lf: "length ?fn = MAXFNAME" using len inv by (simp add: fp_inv_def fp_sizes_def)
  then have sz: "fp_sizes ?s1" using inv by (simp add: fp_inv_def fp_sizes_def)
  have l: "length ?l \<le> LINELEN" "\<exists>t. ?l = t @ [CR, LF]"
    using length_port_line port_line_CRLF by (cases a; simp add: LINELEN_def)+
  have pr: "sprintf_obuf ?l ?s1 = Some (wrote ?l ?s1)" by (rule sprintf_obuf_Some[OF sz l(1)])
  let ?st = "if a = None then FCPS_PASV else FCPS_PORT"
  let ?s3 = "(wrote ?l ?s1)\<lparr>fp_stack := (fp_stack s)[0 := FCPS_RETR], fp_stack_ptr := 1, fp_state := ?st\<rparr>"
  have ptr: "fp_stack_ptr s = 0" "length (fp_stack s) = 3" using inv st by (auto simp: fp_inv_defs)
  have "callState ?st FCPS_RETR (wrote ?l ?s1) = Some ?s3"
    using ptr by (simp add: callState_def STACKLEN_def)
  then have "get_cmd s f a = Some (OK, ?s3)" using st len fn pr by (cases a) (simp_all add: get_cmd_def)
  moreover have "fp_inv ?s3"
    using inv st ptr wrote_sizes[OF l(1) sz] out_wrote_line[OF l(2)] by (auto simp: fp_inv_def substate_def)
  moreover have "cstr ?fn = cstr (f @ [NUL])" by (rule cstr_behind)
  ultimately show ?thesis by auto
qed

lemma login_state:
  assumes "fp_inv s" "fp_sizes (wrote l s)" "out_ok (wrote l s)" "\<not> substate (fp_state s)"
    "length q = MAXPASSWORD" "is_cstr q"
  shows "fp_inv (wrote l s\<lparr>fp_password := q, fp_state := FCPS_USER\<rparr>)"
    "fp_state s = FCPS_INIT \<or> fp_state s = FCPS_CONNECTED \<Longrightarrow> fp_inv (wrote l s\<lparr>fp_password := q, fp_sent_user := True\<rparr>)"
  using assms by (auto simp: fp_inv_def substate_def fp_sizes_def)

lemma run_cmd_lemma:
  assumes inv: "fp_inv s" and fits: "cmd_fits c"
  shows "\<exists>r s'. run_cmd s c = Some (r, s') \<and> fp_inv s'"
proof -
  have simple: "\<exists>s'. sprintf_obuf l s = Some s' \<and> fp_inv (s'\<lparr>fp_state := st\<rparr>)"
    if "length l \<le> LINELEN" "\<exists>t. l = t @ [CR, LF]" "fp_state s = FCPS_IDLE"
      "st = FCPS_CWD \<or> st = FCPS_TYPE \<or> st = FCPS_SIZE" for l st
    using that inv sprintf_obuf_Some[of s l] out_wrote_line[OF that(2)]
    by (auto simp: fp_inv_def substate_def)
  show ?thesis
  proof (cases c)
    case (CmdLogin u p)
    show ?thesis
    proof (cases "(fp_state s = FCPS_INIT \<or> fp_state s = FCPS_CONNECTED) \<and> \<not> fp_sent_user s \<and> \<not> isOutputReady s")
      case False
      with inv CmdLogin show ?thesis by (auto simp: login_def)
    next
      case True
      let ?l = "''USER '' @ u @ [CR, LF]"
      let ?p = "take MAXPASSWORD (cstr (p @ [NUL])) @ replicate (MAXPASSWORD - length (cstr (p @ [NUL]))) NUL"
      have l: "length ?l \<le> LINELEN" using fits CmdLogin by (simp add: LINELEN_def)
      have pr: "sprintf_obuf ?l s = Some (wrote ?l s)" using inv l by (intro sprintf_obuf_Some) (simp_all add: fp_inv_def)
      have lp: "length ?p = MAXPASSWORD" by simp
      have pw: "strncpy (fp_password s) (p @ [NUL]) MAXPASSWORD = Some ?p"
        using inv lp by (simp add: strncpy_def memcpy_def fp_inv_def fp_sizes_def)
      have wr: "wr ?p (MAXPASSWORD - 1) NUL = Some (?p[MAXPASSWORD - 1 := NUL])"
        using lp by (intro wr_Some) (simp add: MAXPASSWORD_def)
      have cs: "is_cstr (?p[MAXPASSWORD - 1 := NUL])"
        unfolding is_cstr_def using lp by (intro set_update_memI) (simp add: MAXPASSWORD_def)
      let ?q = "?p[MAXPASSWORD - 1 := NUL]"
      have lq: "length ?q = MAXPASSWORD" using lp by simp
      have "fp_inv s" "out_ok (wrote ?l s)" "fp_sizes (wrote ?l s)" "\<not> substate (fp_state s)"
        using inv True l wrote_out[of "''USER '' @ u" s] wrote_sizes[of ?l s] by (auto simp: fp_inv_def substate_def)
      note invs = login_state[OF this(1) this(3,2,4) lq cs]
      have "run_cmd s c = Some (OK, if fp_state s = FCPS_CONNECTED
          then wrote ?l s\<lparr>fp_password := ?q, fp_state := FCPS_USER\<rparr>
          else wrote ?l s\<lparr>fp_password := ?q, fp_sent_user := True\<rparr>)"
        using True pr pw wr CmdLogin by (auto simp: login_def Let_def)
      with invs True show ?thesis by auto
    qed
  next
    case (CmdCd d)
    have "length (cmd_line c) \<le> LINELEN" "\<exists>t. cmd_line c = t @ [CR, LF]"
      using CmdCd fits by (auto simp: LINELEN_def)
    from simple[OF this, where st = FCPS_CWD] CmdCd inv show ?thesis by (auto simp: cd_def)
  next
    case (CmdType t)
    have "length (cmd_line c) \<le> LINELEN" "\<exists>t. cmd_line c = t @ [CR, LF]"
      using CmdType fits by (auto simp: LINELEN_def)
    from simple[OF this, where st = FCPS_TYPE] CmdType inv show ?thesis by (auto simp: type_cmd_def)
  next
    case (CmdSize f)
    have "length (cmd_line c) \<le> LINELEN" "\<exists>t. cmd_line c = t @ [CR, LF]"
      using CmdSize fits by (auto simp: LINELEN_def)
    from simple[OF this, where st = FCPS_SIZE] CmdSize inv show ?thesis by (auto simp: size_cmd_def)
  next
    case (CmdGet f a)
    show ?thesis
    proof (cases "fp_state s = FCPS_IDLE \<and> \<not> isOutputReady s \<and> length f < MAXFNAME")
      case True
      with get_Some[OF inv, of f a] CmdGet show ?thesis by auto
    next
      case False
      with CmdGet inv show ?thesis by (auto simp: get_cmd_def)
    qed
  qed (use inv in \<open>auto simp: quit_cmd_def ls_cmd_def\<close>)
qed

text \<open>All that can happen to a session, in any order, up to the lines and lengths above.\<close>

inductive session :: "ftp_proto \<Rightarrow> bool" where
  start: "fp_sizes s \<Longrightarrow> session (fp_init s)"
| reply: "session s \<Longrightarrow> line_defined ibuf \<Longrightarrow> (fp_state s = FCPS_PASV \<Longrightarrow> pasv_defined ibuf) \<Longrightarrow>
          giveInput s ibuf = Some (r, s') \<Longrightarrow> session s'"
| command: "session s \<Longrightarrow> cmd_fits c \<Longrightarrow> run_cmd s c = Some (r, s') \<Longrightarrow> session s'"
| sent: "session s \<Longrightarrow> session (snd (advanceOutput s))"
| port: "session s \<Longrightarrow> session (snd (isPortReady s))"

lemma session_inv: "session s \<Longrightarrow> fp_inv s"
proof (induction rule: session.induct)
  case (start s)
  then show ?case by (rule fp_init_inv)
next
  case (reply s ibuf r s')
  then show ?case using giveInput_lemma[of s ibuf] by auto
next
  case (command s c r s')
  then show ?case using run_cmd_lemma[of s c] by auto
qed (auto simp: fp_init_inv advanceOutput_def isPortReady_def fp_inv_def)

subsection \<open>Addresses\<close>

definition quad :: "nat \<Rightarrow> nat \<Rightarrow> nat \<Rightarrow> nat \<Rightarrow> nat" where
  "quad a b c d = a * 2 ^ 24 + b * 2 ^ 16 + c * 2 ^ 8 + d"

definition octets :: "nat list \<Rightarrow> bool" where
  "octets ns = (\<forall>n \<in> set ns. n < 256)"

lemma quad_less: "octets [a, b, c, d] \<Longrightarrow> quad a b c d < 2 ^ 32"
  by (simp add: quad_def octets_def)

lemma unat_quad: "octets [a, b, c, d] \<Longrightarrow> unat (of_nat (quad a b c d) :: 32 word) = quad a b c d"
  using quad_less[of a b c d] by (simp add: unat_of_nat take_bit_eq_mod)

lemma byte_parts: "(d::nat) < 256 \<Longrightarrow> (k * 256 + d) mod 256 = d \<and> (k * 256 + d) div 256 = k"
  by simp

lemma quad_Horner: "quad a b c d = ((a * 256 + b) * 256 + c) * 256 + d"
  by (simp add: quad_def)

lemma quad_parts:
  assumes "octets [a, b, c, d]"
  shows "quad a b c d mod 256 = d" "quad a b c d div 256 mod 256 = c"
    "quad a b c d div 65536 mod 256 = b" "quad a b c d div 16777216 = a" "quad a b c d mod 65536 = c * 256 + d"
proof -
  have lt: "a < 256" "b < 256" "c < 256" "d < 256" using assms by (simp_all add: octets_def)
  note p = byte_parts[OF lt(4), of "(a * 256 + b) * 256 + c"] byte_parts[OF lt(3), of "a * 256 + b"] byte_parts[OF lt(2), of a]
  have d: "(n::nat) div 65536 = n div 256 div 256" "(n::nat) div 16777216 = n div 256 div 256 div 256"
    "(n::nat) mod 65536 = n div 256 mod 256 * 256 + n mod 256" for n
    using mod_mult2_eq[of n 256 256] by (simp_all add: div_mult2_eq[symmetric])
  show "quad a b c d mod 256 = d" "quad a b c d div 256 mod 256 = c" "quad a b c d div 65536 mod 256 = b"
    "quad a b c d div 16777216 = a" "quad a b c d mod 65536 = c * 256 + d"
    unfolding quad_Horner d using p by simp_all
qed

lemma uchar_of_nat: "n < 256 \<Longrightarrow> uchar (int n) = of_nat n"
  by (simp add: uchar_def)

lemma MAKE_INT32_quad:
  assumes "octets [a, b, c, d]"
  shows "MAKE_INT32 (int a) (int b) (int c) (int d) = of_nat (quad a b c d)"
  using assms by (simp add: MAKE_INT32_def uchar_of_nat octets_def push_bit_eq_mult quad_def)

lemma htonl_quad: "octets [a, b, c, d] \<Longrightarrow> htonl (of_nat (quad a b c d)) = of_nat (quad d c b a)"
  using quad_parts[of a b c d] by (simp add: htonl_def unat_quad) (simp add: quad_def)

lemma GETBYTE_nat:
  "GETBYTE3 x = unat x div 2 ^ 24 mod 256" "GETBYTE2 x = unat x div 2 ^ 16 mod 256"
  "GETBYTE1 x = unat x div 2 ^ 8 mod 256" "GETBYTE0 x = unat x mod 256"
proof -
  have m: "unat (y AND 255) = unat y mod 256" for y :: "'w::len word"
  proof -
    have "y AND 255 = take_bit 8 y" by (simp add: take_bit_eq_mask mask_eq_exp_minus_1)
    then have "unat (y AND 255) = take_bit 8 (unat y)" by (simp only: unsigned_take_bit_eq)
    then show ?thesis by (simp add: take_bit_eq_mod)
  qed
  show "GETBYTE3 x = unat x div 2 ^ 24 mod 256" "GETBYTE2 x = unat x div 2 ^ 16 mod 256"
    "GETBYTE1 x = unat x div 2 ^ 8 mod 256" "GETBYTE0 x = unat x mod 256"
    unfolding GETBYTE3_def GETBYTE2_def GETBYTE1_def GETBYTE0_def m unat_drop_bit_eq
    by (simp_all add: drop_bit_eq_div)
qed

lemma GETBYTE_quad:
  assumes "octets [a, b, c, d]"
  shows "GETBYTE3 (of_nat (quad a b c d) :: 32 word) = a" "GETBYTE2 (of_nat (quad a b c d) :: 32 word) = b"
    "GETBYTE1 (of_nat (quad a b c d) :: 32 word) = c" "GETBYTE0 (of_nat (quad a b c d) :: 32 word) = d"
  using quad_parts[OF assms] assms by (simp_all add: GETBYTE_nat unat_quad octets_def)

lemma ucast_quad:
  assumes "octets [a, b, c, d]"
  shows "unat (ucast (of_nat (quad a b c d) :: 32 word) :: 16 word) = c * 256 + d"
proof -
  have "unat (ucast (of_nat (quad a b c d) :: 32 word) :: 16 word) = quad a b c d mod 65536"
    using unat_quad[OF assms] by (simp add: unsigned_ucast_eq take_bit_eq_mod)
  also have "\<dots> = c * 256 + d" by (rule quad_parts(5)[OF assms])
  finally show ?thesis .
qed

lemma htons_pair:
  assumes "octets [c, d]" "unat x = c * 256 + d"
  shows "unat (htons x) = d * 256 + c"
proof -
  have lt: "d * 256 + c < 65536" "d < 256" using assms(1) by (simp_all add: octets_def)
  have "htons x = of_nat (d * 256 + c)"
    using byte_parts[OF lt(2), of c] unfolding htons_def assms(2) by simp
  then have "unat (htons x) = (d * 256 + c) mod 65536"
    by (simp only: unat_of_nat take_bit_eq_mod) simp
  with lt(1) show ?thesis by simp
qed

subsection \<open>Passive replies\<close>

lemma step_back_digits:
  assumes "pre \<noteq> []" "\<not> isdigit (last pre)" "\<forall>c \<in> set ds. isdigit c"
  shows "step_back (pre @ ds @ r) (length pre + length ds) = Some (length pre)"
  using assms(3)
proof (induction ds arbitrary: r rule: rev_induct)
  case Nil
  obtain q c where q: "pre = q @ [c]" using assms(1) by (metis append_butlast_last_id)
  then have "(pre @ r) ! length q = c" by (simp add: nth_append)
  with q assms(2) show ?case by (simp add: rd_def)
next
  case (snoc d ds)
  have "(pre @ (ds @ [d]) @ r) ! (length pre + length ds) = d" by (simp add: nth_append)
  with snoc.IH[of "d # r"] snoc.prems show ?case by (simp add: rd_def)
qed

text \<open>\<open>pre\<close> is the text before the address, \<open>tail\<close> the text behind it, \<open>junk\<close> the rest of the array.\<close>

definition pasv_reply :: "char list \<Rightarrow> nat list \<Rightarrow> char list \<Rightarrow> char list \<Rightarrow> char list" where
  "pasv_reply pre ns tail junk = pre @ commas (map dec ns) @ tail @ NUL # junk"

definition plain :: "char list \<Rightarrow> bool" where
  "plain s = (NUL \<notin> set s \<and> LF \<notin> set s)"

lemma plain_dec: "plain (dec n)" "CHR '','' \<notin> set (dec n)"
  using dec_digits[of n] isdigit_not by (auto simp: plain_def)

lemma set_commas: "ws \<noteq> [] \<Longrightarrow> set (commas ws) \<subseteq> (\<Union>w \<in> set ws. set w) \<union> {CHR '',''}"
  by (auto simp: commas_def dest: in_set_butlastD)

lemma plain_commas: "ns \<noteq> [] \<Longrightarrow> plain (commas (map dec ns))"
  using set_commas[of "map dec ns"] plain_dec by (fastforce simp: plain_def)

lemma commas_Cons: "ns \<noteq> [] \<Longrightarrow> commas (w # ns) = w @ CHR '','' # commas ns"
  by (simp add: commas_def)

lemma is_int_octet: "n < 256 \<Longrightarrow> is_int (int n)"
  by (simp add: is_int_def)

text \<open>The reply is parsed at the right place and to the right numbers.\<close>

lemma pasv_reply_parsed:
  assumes "length ns = 6" "octets ns" and pre: "pre \<noteq> []" "plain pre" "CHR '','' \<notin> set pre" "\<not> isdigit (last pre)"
    and tail: "plain tail" "case tail of [] \<Rightarrow> True | c # cs \<Rightarrow> \<not> isdigit c"
  shows "cstr (pasv_reply pre ns tail junk) = pre @ commas (map dec ns) @ tail"
    and "\<exists>i. find_comma (pasv_reply pre ns tail junk) = Some i \<and>
             step_back (pasv_reply pre ns tail junk) i = Some (length pre)"
    and "sscanf_commas 6 (drop (length pre) (cstr (pasv_reply pre ns tail junk))) = Some (map int ns)"
proof -
  let ?buf = "pasv_reply pre ns tail junk"
  obtain n ms where ns: "ns = n # ms" "ms \<noteq> []" using assms(1) by (cases ns; fastforce)
  have "NUL \<notin> set (pre @ commas (map dec ns) @ tail)"
    using pre tail plain_commas[of ns] ns by (auto simp: plain_def)
  then have "cstr ((pre @ commas (map dec ns) @ tail) @ NUL # junk) = pre @ commas (map dec ns) @ tail"
    by (rule cstr_append_NUL)
  then show c: "cstr ?buf = pre @ commas (map dec ns) @ tail" by (simp add: pasv_reply_def)
  let ?more = "commas (map dec ms) @ tail"
  have split: "cstr ?buf = (pre @ dec n) @ CHR '','' # ?more"
    unfolding c using ns by (simp add: commas_Cons)
  have "takeWhile (\<lambda>c. c \<noteq> CHR '','') ((pre @ dec n) @ CHR '','' # ?more) = pre @ dec n"
    using pre(3) plain_dec(2)[of n] by (subst takeWhile_append2) auto
  then have "find_comma ?buf = Some (length pre + length (dec n))"
    unfolding find_comma_def split by simp
  moreover have "?buf = pre @ dec n @ (CHR '','' # ?more @ NUL # junk)"
    using ns by (simp add: pasv_reply_def commas_Cons)
  then have "step_back ?buf (length pre + length (dec n)) = Some (length pre)"
    using step_back_digits[OF pre(1,4) dec_digits] by simp
  ultimately show "\<exists>i. find_comma ?buf = Some i \<and> step_back ?buf i = Some (length pre)" by blast
  have "scan_commas 6 (commas (map dec ns) @ tail) = map int ns"
    using scan_commas_dec[OF _ tail(2), of ns] unfolding assms(1) using ns by blast
  moreover have "list_all is_int (map int ns)"
    using assms(2) is_int_octet by (auto simp: list_all_iff octets_def)
  ultimately show "sscanf_commas 6 (drop (length pre) (cstr ?buf)) = Some (map int ns)"
    unfolding c by (simp add: sscanf_commas_def)
qed

subsection \<open>Properties\<close>

text \<open>
  C1. No assertion, \<open>exit\<close> or bad access is ever reached in a session: after any sequence of calls,
  replies and sends, every command whose text fits the output line and every reply line in the
  defined form is accepted or refused with an error code, and the arrays, the return stack and the
  pending output line stay well-formed.
\<close>

theorem session_safe:
  assumes "session s"
  shows "fp_inv s \<and> (\<forall>c. cmd_fits c \<longrightarrow> run_cmd s c \<noteq> None) \<and>
         (\<forall>ibuf. line_defined ibuf \<and> (fp_state s = FCPS_PASV \<longrightarrow> pasv_defined ibuf) \<longrightarrow> giveInput s ibuf \<noteq> None)"
  using session_inv[OF assms] run_cmd_lemma[of s] giveInput_lemma[of s] by fastforce

definition fp0 :: ftp_proto where
  "fp0 = fp_init \<lparr>fp_state = FCPS_UNINIT, fp_stack = replicate 3 FCPS_UNINIT, fp_stack_ptr = 0,
     fp_sent_user = False, fp_obuf = replicate 513 NUL, fp_obuflen = 0, fp_multiline = False, fp_status = 0,
     fp_response = replicate 513 NUL, fp_password = replicate 32 NUL, fp_fname = replicate 256 NUL,
     fp_address_ready = False, fp_address = \<lparr>sin_family = 0, s_addr = 0, sin_port = 0\<rparr>\<rparr>"

lemma fp0_session: "session fp0"
  unfolding fp0_def by (rule session.start) (simp add: fp_sizes_def LINELEN_def MAXPASSWORD_def MAXFNAME_def STACKLEN_def)

lemma fp0_inv: "fp_inv fp0"
  by (rule session_inv[OF fp0_session])

lemma fp0_simps [simp]:
  "fp_state fp0 = FCPS_INIT" "fp_obuflen fp0 = 0" "fp_sent_user fp0 = False" "fp_multiline fp0 = False"
  by (simp_all add: fp0_def fp_init_def)

theorem session_safe_witness: "run_cmd fp0 (CmdLogin ''anonymous'' ''ftp@'') \<noteq> None"
  using session_safe[OF fp0_session] by (simp add: LINELEN_def del: run_cmd.simps)

text \<open>
  C14. The states follow the protocol automaton \<open>fsm\<close>: a reply (outside a multi-line reply) moves the
  session along an edge allowed for its three-digit code, and its code is the status reported.
\<close>

theorem giveInput_follows_fsm:
  assumes "fp_inv s" "\<not> fp_multiline s" "line_defined ibuf" "fp_state s = FCPS_PASV \<Longrightarrow> pasv_defined ibuf"
  shows "\<exists>r s' c. giveInput s ibuf = Some (r, s') \<and> fp_inv s' \<and> atoi (cstr ibuf) = Some c \<and> fp_status s' = c \<and>
                  fsm (fp_state s) (fp_sent_user s) c (fp_state s')"
  using giveInput_lemma[OF assms(1,3,4)] assms(2) by auto

definition line :: "char list \<Rightarrow> char list" where
  "line t = t @ replicate 5 NUL"

lemma digit_val_simps [simp]:
  "digit_val CHR ''0'' = 0" "digit_val CHR ''1'' = 1" "digit_val CHR ''2'' = 2" "digit_val CHR ''3'' = 3"
  "digit_val CHR ''5'' = 5" "digit_val CHR ''7'' = 7"
  by (simp_all add: digit_val_def digit_chars_def)

lemma isdigit_digits [simp]:
  "isdigit CHR ''0''" "isdigit CHR ''1''" "isdigit CHR ''2''" "isdigit CHR ''3''" "isdigit CHR ''5''" "isdigit CHR ''7''"
  by (simp_all add: isdigit_def digit_chars_def)

lemmas eval_line = line_def cstr_def is_cstr_def atoi_def parse_int_def digits_val_def is_int_def isspace_def

lemma hello_line: "line_defined (line ''220 hi'')" "atoi (cstr (line ''220 hi'')) = Some 220"
  by (simp_all add: line_defined_def eval_line)

theorem giveInput_follows_fsm_witness: "\<exists>r s'. giveInput fp0 (line ''220 hi'') = Some (r, s') \<and> fp_status s' = 220"
  using giveInput_follows_fsm[of fp0 "line ''220 hi''"] fp0_inv hello_line by auto

text \<open>
  Only a positive reply logs in: a session that was not logged in and is after a reply has just
  received a code 200 to 299 to USER or PASS.
\<close>

definition logged_in :: "fcps \<Rightarrow> bool" where
  "logged_in st = (st \<notin> {FCPS_UNINIT, FCPS_INIT, FCPS_CONNECTED, FCPS_USER, FCPS_PASS})"

theorem login_needs_2xx:
  assumes "fp_inv s" "line_defined ibuf" "fp_state s = FCPS_PASV \<Longrightarrow> pasv_defined ibuf"
    "giveInput s ibuf = Some (r, s')" "\<not> logged_in (fp_state s)" "logged_in (fp_state s')"
  shows "(fp_state s = FCPS_USER \<or> fp_state s = FCPS_PASS) \<and> fp_state s' = FCPS_IDLE \<and>
         (\<exists>c. atoi (cstr ibuf) = Some c \<and> ok2xx c)"
proof -
  obtain c where c: "atoi (cstr ibuf) = Some c" "fsm (fp_state s) (fp_sent_user s) c (fp_state s')"
    using giveInput_lemma[OF assms(1-3)] assms(4-6) by (cases "fp_multiline s") auto
  from c(2) assms(5,6) have "(fp_state s = FCPS_USER \<or> fp_state s = FCPS_PASS) \<and> fp_state s' = FCPS_IDLE \<and> ok2xx c"
    by (auto elim!: fsm_cases simp: logged_in_def substate_def split: if_splits)
  with c(1) show ?thesis by blast
qed

definition fp_pass :: ftp_proto where
  "fp_pass = fp0\<lparr>fp_state := FCPS_PASS\<rparr>"

lemma fp_pass_inv: "fp_inv fp_pass"
  using fp0_inv by (simp add: fp_pass_def fp_inv_def substate_def)

theorem login_needs_2xx_witness:
  "fp_state (snd (the (giveInput fp_pass (line ''220 hi'')))) = FCPS_IDLE \<and> ok2xx 220"
proof -
  have "giveInput fp_pass (line ''220 hi'') =
      giveSwitch (fp_pass\<lparr>fp_status := 220, fp_response := saved_reply (line ''220 hi''),
        fp_multiline := (line ''220 hi'' ! 3 = CHR ''-'')\<rparr>) (line ''220 hi'') 220"
    using giveInput_reply[OF hello_line(1) _ fp_pass_inv hello_line(2)] by (simp add: fp_pass_def)
  then obtain s' where s': "giveInput fp_pass (line ''220 hi'') = Some (OK, s')" "fp_state s' = FCPS_IDLE"
    by (simp add: giveSwitch_def fp_pass_def ok2xx_def)
  have "logged_in (fp_state s')" "\<not> logged_in (fp_state fp_pass)" "fp_state fp_pass = FCPS_PASS"
    using s'(2) by (simp_all add: logged_in_def fp_pass_def)
  with login_needs_2xx[OF fp_pass_inv hello_line(1) _ s'(1)] hello_line(2) s' show ?thesis by auto
qed

text \<open>
  C13. Passive mode round trip: a reply that carries six octets, in the form of RFC 959 with any text
  around them, sets exactly that address and port, in network order, marks it ready once, returns to
  the RETR state and queues the RETR command with the file name given to \<open>get\<close>.
\<close>

theorem pasv_roundtrip:
  assumes "fp_inv s" "fp_state s = FCPS_PASV" "\<not> fp_multiline s"
    and "octets [a1, a2, a3, a4]" "octets [p1, p2]"
    and "pre \<noteq> []" "plain pre" "CHR '','' \<notin> set pre" "\<not> isdigit (last pre)" "3 < length pre"
    and "plain tail" "case tail of [] \<Rightarrow> True | c # cs \<Rightarrow> \<not> isdigit c"
    and "atoi (cstr (pasv_reply pre [a1, a2, a3, a4, p1, p2] tail junk)) = Some c" "ok2xx c"
  shows "\<exists>s'. giveInput s (pasv_reply pre [a1, a2, a3, a4, p1, p2] tail junk) = Some (OK, s') \<and> fp_inv s' \<and>
           isPortReady s' = (Some (fp_address s'), s'\<lparr>fp_address_ready := False\<rparr>) \<and>
           htonl (s_addr (fp_address s')) = of_nat (quad a1 a2 a3 a4) \<and>
           unat (htons (sin_port (fp_address s'))) = p1 * 256 + p2 \<and> fp_state s' = FCPS_RETR \<and>
           map_option (\<lambda>(b, n). take n b) (getOutput s') = Some (''RETR '' @ cstr (fp_fname s) @ [CR, LF])"
proof -
  let ?ns = "[a1, a2, a3, a4, p1, p2]"
  let ?buf = "pasv_reply pre ?ns tail junk"
  have six: "length ?ns = 6" "octets ?ns" using assms(4,5) by (simp_all add: octets_def)
  note parsed = pasv_reply_parsed[OF six assms(6-9,11,12), of junk]
  obtain i where i: "find_comma ?buf = Some i" "step_back ?buf i = Some (length pre)"
    using parsed(2) by blast
  have "plain (pre @ commas (map dec ?ns) @ tail)" using assms(7,11) plain_commas[of ?ns] by (auto simp: plain_def)
  then have ld: "line_defined ?buf"
    using parsed(1) assms(10,13) by (auto simp: line_defined_def plain_def pasv_reply_def is_cstr_def)
  let ?s = "s\<lparr>fp_status := c, fp_response := saved_reply ?buf, fp_multiline := (?buf ! 3 = CHR ''-'')\<rparr>"
  have inv: "fp_inv ?s" "fp_state ?s = FCPS_PASV" using assms(1,2) by (auto simp: fp_inv_def fp_sizes_def)
  have fn: "is_cstr (fp_fname s)" using assms(1,2) by (simp add: fp_inv_def substate_def)
  have "giveInput s ?buf = giveSwitch ?s ?buf c" by (rule giveInput_reply[OF ld assms(3,1,13)])
  also have "\<dots> = Some (OK, pasv_result ?s (map int ?ns))"
    using givePasv_parsed[OF inv assms(14) i parsed(3)] inv(2) by (simp add: giveSwitch_def)
  finally have g: "giveInput s ?buf = Some (OK, pasv_result ?s (map int ?ns))" .
  let ?r = "pasv_result ?s (map int ?ns)"
  have addr: "fp_address ?r = \<lparr>sin_family = AF_INET, s_addr = htonl (MAKE_INT32 (int a1) (int a2) (int a3) (int a4)),
      sin_port = htons (ucast (MAKE_INT32 0 0 (int p1) (int p2)))\<rparr>" "fp_address_ready ?r" "fp_state ?r = FCPS_RETR"
    "fp_obuflen ?r \<noteq> 0" "take (fp_obuflen ?r) (fp_obuf ?r) = ''RETR '' @ cstr (fp_fname s) @ [CR, LF]"
    by (simp_all add: pasv_result_def wrote_def)
  have z: "octets [0, 0, p1, p2]" "octets [a4, a3, a2, a1]" "octets [p1, p2]" "octets [p2, p1]"
    using assms(4,5) by (auto simp: octets_def)
  have "MAKE_INT32 0 0 (int p1) (int p2) = of_nat (quad 0 0 p1 p2)"
    using MAKE_INT32_quad[OF z(1)] by simp
  then have p: "unat (htons (htons (ucast (MAKE_INT32 0 0 (int p1) (int p2))))) = p1 * 256 + p2"
    using htons_pair[OF z(4) htons_pair[OF z(3) ucast_quad[OF z(1)]]] by simp
  have a: "htonl (htonl (MAKE_INT32 (int a1) (int a2) (int a3) (int a4))) = of_nat (quad a1 a2 a3 a4)"
    using MAKE_INT32_quad[OF assms(4)] htonl_quad[OF assms(4)] htonl_quad[OF z(2)] by simp
  show ?thesis using g addr a p pasv_result_inv[OF inv, of "map int ?ns"]
    by (simp add: isPortReady_def getOutput_def isOutputReady_def)
qed

definition fp_pasv :: ftp_proto where
  "fp_pasv = fp0\<lparr>fp_state := FCPS_PASV, fp_stack_ptr := 1, fp_stack := [FCPS_RETR, FCPS_UNINIT, FCPS_UNINIT],
                fp_fname := CHR ''x'' # replicate 255 NUL\<rparr>"

lemma fp_pasv_inv: "fp_inv fp_pasv"
  using fp0_inv by (simp add: fp_pasv_def fp_inv_def substate_def fp_sizes_def STACKLEN_def MAXFNAME_def is_cstr_def)

theorem pasv_roundtrip_witness:
  "\<exists>s'. giveInput fp_pasv (pasv_reply ''227 ('' [10, 0, 0, 1, 4, 210] '')'' []) = Some (OK, s') \<and>
        unat (htons (sin_port (fp_address s'))) = 1234"
proof -
  have "atoi (cstr (pasv_reply ''227 ('' [10, 0, 0, 1, 4, 210] '')'' [])) = Some 227"
    by (simp add: pasv_reply_def commas_def dec.simps digit_char_def digit_chars_def eval_line)
  then show ?thesis
    using pasv_roundtrip[OF fp_pasv_inv, of 10 0 0 1 4 210 "''227 (''" "'')''" "[]" 227]
    by (auto simp: fp_pasv_def octets_def plain_def ok2xx_def)
qed

text \<open>
  A command is accepted only when the previous one is finished: \<open>cd\<close>, \<open>type\<close>, \<open>size\<close> and \<open>get\<close>
  return EISCONN outside the IDLE state and EWOULDBLOCK while a line is still to be sent, and change
  nothing; \<open>quit\<close> and \<open>ls\<close> always return ENOSYS.
\<close>

theorem one_command_at_a_time:
  assumes "fp_state s \<noteq> FCPS_IDLE \<or> fp_obuflen s \<noteq> 0"
    "c \<in> {CmdCd d, CmdType t, CmdSize f, CmdGet g a, CmdQuit, CmdLs l a}"
  shows "run_cmd s c = Some (Fail (if c \<in> {CmdQuit, CmdLs l a} then ENOSYS
                                   else if fp_state s \<noteq> FCPS_IDLE then EISCONN else EWOULDBLOCK), s)"
  using assms by (auto simp: cd_def type_cmd_def size_cmd_def get_cmd_def quit_cmd_def ls_cmd_def isOutputReady_def)

theorem one_command_at_a_time_witness: "run_cmd fp0 (CmdGet ''x'' None) = Some (Fail EISCONN, fp0)"
  using one_command_at_a_time[of fp0 "CmdGet ''x'' None" "[]" "[]" "[]" "''x''" None None] by simp

lemma giveInput_single:
  assumes "fp_inv s" "\<not> fp_multiline s" "line_defined ibuf" "atoi (cstr ibuf) = Some c" "ibuf ! 3 \<noteq> CHR ''-''"
  shows "giveInput s ibuf = giveSwitch (s\<lparr>fp_status := c, fp_response := saved_reply ibuf\<rparr>) ibuf c"
proof -
  have "s\<lparr>fp_status := c, fp_response := saved_reply ibuf, fp_multiline := False\<rparr> =
        s\<lparr>fp_status := c, fp_response := saved_reply ibuf\<rparr>" using assms(2) by (cases s) simp
  with giveInput_reply[OF assms(3,2,1,4)] assms(5) show ?thesis by (simp only: simp_thms)
qed

text \<open>A one-line reply with code \<open>c\<close>.\<close>

definition single_reply :: "char list \<Rightarrow> int \<Rightarrow> bool" where
  "single_reply ibuf c = (line_defined ibuf \<and> atoi (cstr ibuf) = Some c \<and> ibuf ! 3 \<noteq> CHR ''-'')"

lemma fp_inv_saved: "fp_inv s \<Longrightarrow> fp_inv (s\<lparr>fp_status := c, fp_response := saved_reply ibuf\<rparr>)"
  by (auto simp: fp_inv_def fp_sizes_def)

lemma login_password:
  assumes "fp_inv s" "length p < MAXPASSWORD" "NUL \<notin> set p" "length u \<le> LINELEN - 7"
    "fp_state s = FCPS_INIT" "\<not> fp_sent_user s" "fp_obuflen s = 0"
  shows "\<exists>s'. login s u p = Some (OK, s') \<and> fp_inv s' \<and> fp_state s' = FCPS_INIT \<and> fp_sent_user s' \<and>
     cstr (fp_password s') = p \<and> fp_multiline s' = fp_multiline s \<and>
     getOutput s' = Some (fp_obuf s', length u + 7) \<and> take (length u + 7) (fp_obuf s') = ''USER '' @ u @ [CR, LF]"
proof -
  let ?l = "''USER '' @ u @ [CR, LF]"
  let ?p = "p @ replicate (MAXPASSWORD - length p) NUL"
  have l: "length ?l \<le> LINELEN" using assms(4) by (simp add: LINELEN_def)
  have pr: "sprintf_obuf ?l s = Some (wrote ?l s)"
    using assms(1) l by (intro sprintf_obuf_Some) (simp_all add: fp_inv_def)
  have lp: "length ?p = MAXPASSWORD" using assms(2) by simp
  have "strncpy (fp_password s) (p @ [NUL]) MAXPASSWORD = Some ?p"
    using assms(1-3) by (simp add: strncpy_def memcpy_def fp_inv_def fp_sizes_def)
  moreover have "wr ?p (MAXPASSWORD - 1) NUL = Some ?p"
  proof -
    have "?p ! (MAXPASSWORD - 1) = NUL" using assms(2) by (auto simp: nth_append)
    then have "?p[MAXPASSWORD - 1 := NUL] = ?p" by (metis list_update_id)
    moreover have "MAXPASSWORD - 1 < length ?p" unfolding lp by (simp add: MAXPASSWORD_def)
    ultimately show ?thesis by (simp only: wr_Some)
  qed
  ultimately have lg: "login s u p = Some (OK, wrote ?l s\<lparr>fp_password := ?p, fp_sent_user := True\<rparr>)"
    using assms(5-7) pr by (simp add: login_def isOutputReady_def)
  have "fp_inv (wrote ?l s\<lparr>fp_password := ?p, fp_sent_user := True\<rparr>)"
  proof (rule login_state(2)[OF assms(1) _ _ _ lp])
    show "fp_sizes (wrote ?l s)" using assms(1) l by (simp add: fp_inv_def)
    show "out_ok (wrote ?l s)" using wrote_out[of "''USER '' @ u" s] by simp
    show "is_cstr ?p" using assms(2) by (simp add: is_cstr_def)
  qed (use assms(5) in \<open>simp_all add: substate_def\<close>)
  moreover have "cstr ?p = p"
    using assms(2,3) cstr_append_NUL[of p "replicate (MAXPASSWORD - length p - 1) NUL"]
    by (metis Suc_diff_Suc diff_Suc_1 replicate_Suc diff_diff_left plus_1_eq_Suc add.commute)
  moreover have "length ?l = length u + 7" by simp
  then have "take (length u + 7) (fp_obuf (wrote ?l s)) = ?l"
    by (rule wrote_take[OF sym])
  ultimately show ?thesis using lg assms(5)
    by (simp add: getOutput_def isOutputReady_def del: append.simps)
qed

lemma give_hello:
  assumes "fp_inv s" "fp_state s = FCPS_INIT" "\<not> fp_multiline s" "single_reply h c" "ok2xx c"
  shows "\<exists>s'. giveInput s h = Some (OK, s') \<and> fp_inv s' \<and> \<not> fp_multiline s' \<and> fp_status s' = c \<and>
     fp_state s' = (if fp_sent_user s then FCPS_USER else FCPS_CONNECTED) \<and> fp_password s' = fp_password s"
proof -
  let ?s = "s\<lparr>fp_status := c, fp_response := saved_reply h\<rparr>"
  have g: "giveInput s h = giveSwitch ?s h c" using giveInput_single assms(1,3,4) by (simp add: single_reply_def)
  have "giveSwitch ?s h c = Some (OK, if fp_sent_user s then ?s\<lparr>fp_state := FCPS_USER, fp_sent_user := False\<rparr>
      else ?s\<lparr>fp_state := FCPS_CONNECTED\<rparr>)" using assms(2,5) by (simp add: giveSwitch_def)
  with g giveSwitch_lemma[OF fp_inv_saved[OF assms(1), where c = c and ibuf = h], of h c] assms(2,3) show ?thesis
    by (auto simp: switch_post_def)
qed

lemma give_need_password:
  assumes "fp_inv s" "fp_state s = FCPS_USER" "\<not> fp_multiline s" "single_reply h c" "300 \<le> c" "c < 400"
  shows "\<exists>s'. giveInput s h = Some (OK, s') \<and> fp_inv s' \<and> \<not> fp_multiline s' \<and> fp_status s' = c \<and>
     fp_state s' = FCPS_PASS \<and> fp_obuflen s' = length (cstr (fp_password s)) + 7 \<and>
     take (fp_obuflen s') (fp_obuf s') = ''PASS '' @ cstr (fp_password s) @ [CR, LF]"
proof -
  let ?s = "s\<lparr>fp_status := c, fp_response := saved_reply h\<rparr>" and ?l = "''PASS '' @ cstr (fp_password s) @ [CR, LF]"
  have g: "giveInput s h = giveSwitch ?s h c" using giveInput_single assms(1,3,4) by (simp add: single_reply_def)
  note inv = fp_inv_saved[OF assms(1), where c = c and ibuf = h]
  have pw: "is_cstr (fp_password s)" using assms(1,2) by (simp add: fp_inv_def)
  have "sprintf_obuf ?l ?s = Some (wrote ?l ?s)"
    using length_password[OF assms(1) pw] inv by (intro sprintf_obuf_Some) (simp_all add: fp_inv_def)
  then have "giveSwitch ?s h c = Some (OK, wrote ?l ?s\<lparr>fp_state := FCPS_PASS\<rparr>)"
    using assms(2,5,6) pw by (simp add: giveSwitch_def ok2xx_def)
  with g giveSwitch_lemma[OF inv, of h c] assms(2,3) show ?thesis
    by (auto simp: switch_post_def wrote_def)
qed

lemma give_password_ok:
  assumes "fp_inv s" "fp_state s = FCPS_PASS" "\<not> fp_multiline s" "single_reply h c" "ok2xx c"
  shows "\<exists>s'. giveInput s h = Some (OK, s') \<and> fp_inv s' \<and> fp_status s' = c \<and> fp_state s' = FCPS_IDLE"
proof -
  let ?s = "s\<lparr>fp_status := c, fp_response := saved_reply h\<rparr>"
  have g: "giveInput s h = giveSwitch ?s h c" using giveInput_single assms(1,3,4) by (simp add: single_reply_def)
  have "giveSwitch ?s h c = Some (OK, ?s\<lparr>fp_state := FCPS_IDLE\<rparr>)" using assms(2,5) by (simp add: giveSwitch_def)
  with g giveSwitch_lemma[OF fp_inv_saved[OF assms(1), where c = c and ibuf = h], of h c] assms(2) show ?thesis
    by (auto simp: switch_post_def)
qed

lemma advanceOutput_frame:
  "fp_inv s \<Longrightarrow> fp_inv (snd (advanceOutput s))" "fp_state (snd (advanceOutput s)) = fp_state s"
  "fp_multiline (snd (advanceOutput s)) = fp_multiline s" "fp_sent_user (snd (advanceOutput s)) = fp_sent_user s"
  "fp_password (snd (advanceOutput s)) = fp_password s" "fp_status (snd (advanceOutput s)) = fp_status s"
  by (simp_all add: advanceOutput_def fp_inv_def)

text \<open>
  Logging in: from a new session, \<open>login\<close> then the greeting, a 3xx reply to USER and a 2xx reply to
  PASS send exactly the lines USER and PASS with the given name and password and
  end in the IDLE state, where \<open>getStatus\<close> reports the code of the last reply.
\<close>

theorem login_session:
  assumes "fp_inv s" "fp_state s = FCPS_INIT" "\<not> fp_multiline s" "\<not> fp_sent_user s" "fp_obuflen s = 0"
    "length p < MAXPASSWORD" "NUL \<notin> set p" "length u \<le> LINELEN - 7"
    "single_reply h1 c1" "ok2xx c1" "single_reply h2 c2" "300 \<le> c2" "c2 < 400" "single_reply h3 c3" "ok2xx c3"
  shows "\<exists>s1 s2 s3 s4. login s u p = Some (OK, s1) \<and>
           take (fp_obuflen s1) (fp_obuf s1) = ''USER '' @ u @ [CR, LF] \<and>
           giveInput (snd (advanceOutput s1)) h1 = Some (OK, s2) \<and> giveInput s2 h2 = Some (OK, s3) \<and>
           take (fp_obuflen s3) (fp_obuf s3) = ''PASS '' @ p @ [CR, LF] \<and>
           giveInput (snd (advanceOutput s3)) h3 = Some (OK, s4) \<and>
           fp_state s4 = FCPS_IDLE \<and> getStatus s4 None = Some (c3, None)"
proof -
  obtain s1 where s1: "login s u p = Some (OK, s1)" "fp_inv s1" "fp_state s1 = FCPS_INIT" "fp_sent_user s1"
    "cstr (fp_password s1) = p" "\<not> fp_multiline s1" "fp_obuflen s1 = length u + 7"
    "take (length u + 7) (fp_obuf s1) = ''USER '' @ u @ [CR, LF]"
    using login_password[OF assms(1,6,7,8,2,4,5)] assms(3) by (auto simp: getOutput_def split: if_splits)
  obtain s2 where s2: "giveInput (snd (advanceOutput s1)) h1 = Some (OK, s2)" "fp_inv s2" "\<not> fp_multiline s2"
    "fp_state s2 = FCPS_USER" "fp_password s2 = fp_password s1"
    using give_hello[OF advanceOutput_frame(1)[OF s1(2)] _ _ assms(9,10)] s1 by (auto simp: advanceOutput_frame)
  obtain s3 where s3: "giveInput s2 h2 = Some (OK, s3)" "fp_inv s3" "\<not> fp_multiline s3" "fp_state s3 = FCPS_PASS"
    "take (fp_obuflen s3) (fp_obuf s3) = ''PASS '' @ p @ [CR, LF]"
    using give_need_password[OF s2(2,4,3) assms(11-13)] s2(5) s1(5) by auto
  obtain s4 where s4: "giveInput (snd (advanceOutput s3)) h3 = Some (OK, s4)" "fp_status s4 = c3" "fp_state s4 = FCPS_IDLE"
    using give_password_ok[OF advanceOutput_frame(1)[OF s3(2)] _ _ assms(14,15)] s3 by (auto simp: advanceOutput_frame)
  have "getStatus s4 None = Some (c3, None)" using s4 by (simp add: getStatus_def)
  with s1 s2 s3 s4 show ?thesis by fastforce
qed

theorem login_session_witness:
  "\<exists>s1 s2 s3 s4. login fp0 ''ftp'' ''me'' = Some (OK, s1) \<and>
     giveInput (snd (advanceOutput s1)) (line ''220 hi'') = Some (OK, s2) \<and>
     giveInput s2 (line ''331 pw'') = Some (OK, s3) \<and>
     giveInput (snd (advanceOutput s3)) (line ''230 in'') = Some (OK, s4) \<and> getStatus s4 None = Some (230, None)"
proof -
  have r: "single_reply (line ''220 hi'') 220" "single_reply (line ''331 pw'') 331" "single_reply (line ''230 in'') 230"
    by (simp_all add: single_reply_def line_defined_def eval_line)
  show ?thesis
    using login_session[OF fp0_inv _ _ _ _ _ _ _ r(1) _ r(2) _ _ r(3), of "''me''" "''ftp''"]
    by (simp add: MAXPASSWORD_def LINELEN_def ok2xx_def) blast
qed

text \<open>
  A multi-line reply counts once: after the line \<open>ddd-\<close>, every line is skipped until one that has
  the same code and a blank, and the session is then where the first line alone had taken it.
\<close>

fun give_all :: "ftp_proto \<Rightarrow> char list list \<Rightarrow> ftp_proto option" where
  "give_all s [] = Some s"
| "give_all s (l # ls) = do { (r, s') \<leftarrow> giveInput s l; give_all s' ls }"

lemma skip_lines:
  assumes "fp_multiline s" "\<forall>l \<in> set mids. line_defined l \<and> \<not> (l ! 3 = CHR '' '' \<and> atoi (cstr l) = Some (fp_status s))"
    "line_defined final" "final ! 3 = CHR '' ''" "atoi (cstr final) = Some (fp_status s)"
  shows "give_all s (mids @ [final]) = Some (s\<lparr>fp_multiline := False\<rparr>)"
  using assms(2) by (induction mids) (use assms in \<open>auto simp: giveInput_multiline\<close>)

theorem multiline_reply:
  assumes "fp_inv s" "\<not> fp_multiline s" "fp_state s = FCPS_PASV \<Longrightarrow> pasv_defined first"
    "line_defined first" "first ! 3 = CHR ''-''" "atoi (cstr first) = Some c" "giveInput s first = Some (r, s')"
    "\<forall>l \<in> set mids. line_defined l \<and> \<not> (l ! 3 = CHR '' '' \<and> atoi (cstr l) = Some c)"
    "line_defined final" "final ! 3 = CHR '' ''" "atoi (cstr final) = Some c"
  shows "give_all s (first # mids @ [final]) = Some (s'\<lparr>fp_multiline := False\<rparr>)"
proof -
  let ?s = "s\<lparr>fp_status := c, fp_response := saved_reply first, fp_multiline := True\<rparr>"
  have "giveInput s first = giveSwitch ?s first c" using giveInput_reply[OF assms(4,2,1,6)] assms(5) by simp
  moreover have "fp_inv ?s" using assms(1) by (auto simp: fp_inv_def fp_sizes_def)
  ultimately have "fp_multiline s'" "fp_status s' = c"
    using giveSwitch_lemma[of ?s first c] assms(3,7) by (auto simp: switch_post_def)
  with skip_lines[of s' mids final] assms(7-) show ?thesis by simp
qed

theorem multiline_reply_witness:
  "\<exists>r s'. giveInput fp0 (line ''220-hi'') = Some (r, s') \<and>
     give_all fp0 [line ''220-hi'', line ''230 no'', line ''220 ok''] = Some (s'\<lparr>fp_multiline := False\<rparr>)"
proof -
  have l: "line_defined (line ''220-hi'')" "atoi (cstr (line ''220-hi'')) = Some 220" "line_defined (line ''220 ok'')"
    "atoi (cstr (line ''220 ok'')) = Some 220" "line_defined (line ''230 no'')" "atoi (cstr (line ''230 no'')) = Some 230"
    "line ''220-hi'' ! 3 = CHR ''-''" "line ''220 ok'' ! 3 = CHR '' ''"
    by (simp_all add: line_defined_def eval_line)
  obtain r s' where g: "giveInput fp0 (line ''220-hi'') = Some (r, s')"
    using giveInput_lemma[OF fp0_inv l(1)] by auto
  from multiline_reply[OF fp0_inv _ _ l(1,7,2) g, of "[line ''230 no'']" "line ''220 ok''"] l g
  show ?thesis by (auto simp del: give_all.simps)
qed

text \<open>
  \<open>getStatus\<close> reports the reply that finished the command: in the IDLE and INIT states it returns
  the code and copies the text, cut to the caller's buffer and always terminated; in every other
  state it returns 0 and leaves the buffer alone.
\<close>

theorem getStatus_reports:
  assumes "fp_response s = saved_reply ibuf" "b \<noteq> []"
  shows "if fp_state s = FCPS_IDLE \<or> fp_state s = FCPS_INIT
         then \<exists>b'. getStatus s (Some b) = Some (fp_status s, Some b') \<and> length b' = length b \<and>
                   is_cstr b' \<and> cstr b' = take (length b - 1) (take LINELEN (cstr ibuf))
         else getStatus s (Some b) = Some (0, Some b)"
proof (cases "fp_state s = FCPS_IDLE \<or> fp_state s = FCPS_INIT")
  case False
  then show ?thesis by (auto simp: getStatus_def)
next
  case True
  let ?t = "take LINELEN (cstr ibuf)" and ?n = "length b"
  let ?r = "replicate (LINELEN - length (cstr ibuf)) NUL @ [NUL]"
  have t: "NUL \<notin> set ?t" by (meson NUL_notin_cstr in_set_takeD)
  obtain q where q: "?r = NUL # q" by (cases "LINELEN - length (cstr ibuf)") auto
  have c: "cstr (saved_reply ibuf) = ?t" "is_cstr (saved_reply ibuf)"
    using cstr_append_NUL[OF t, of q] is_cstr_append_NUL[of ?t q] unfolding saved_reply_def q by simp_all
  let ?b1 = "take ?n ?t @ replicate (?n - length ?t) NUL"
  have len: "length ?b1 = ?n" by simp
  have n0: "0 < ?n" using assms(2) by simp
  have s1: "strncpy b (fp_response s) ?n = Some ?b1"
    using c assms(1) by (simp add: strncpy_def memcpy_def)
  have w: "wri ?b1 (int ?n - 1) NUL = Some (?b1[?n - 1 := NUL])"
  proof -
    have "nat (int ?n - 1) = ?n - 1" "0 \<le> int ?n - 1" using n0 by linarith+
    moreover have "?n - 1 < length ?b1" unfolding len using n0 by simp
    ultimately show ?thesis by (simp only: wri_Some)
  qed
  define b2 where "b2 = take (?n - 1) ?t @ NUL # replicate (?n - 1 - length ?t) NUL"
  have b2: "?b1[?n - 1 := NUL] = b2" unfolding b2_def by (rule truncate_copy[OF n0])
  have "length b2 = ?n" unfolding b2[symmetric] length_list_update by (rule len)
  moreover have "is_cstr b2" unfolding b2_def by (rule is_cstr_append_NUL)
  moreover have "cstr b2 = take (?n - 1) ?t"
    unfolding b2_def by (rule cstr_append_NUL) (meson in_set_takeD t)
  moreover have "getStatus s (Some b) = Some (fp_status s, Some b2)"
    using True s1 w unfolding b2 by (auto simp: getStatus_def)
  ultimately show ?thesis using True by auto
qed

theorem getStatus_reports_witness:
  "\<exists>b'. getStatus (fp0\<lparr>fp_response := saved_reply (line ''220 hi'')\<rparr>) (Some (replicate 4 NUL)) = Some (0, Some b') \<and>
        cstr b' = ''220''"
  using getStatus_reports[of "fp0\<lparr>fp_response := saved_reply (line ''220 hi'')\<rparr>" "line ''220 hi''" "replicate 4 NUL"]
  by (simp add: fp0_def fp_init_def LINELEN_def line_def cstr_def) auto

text \<open>
  The reply to PASV that starts with its address is not handled: the scan back over the digits
  reads the byte before the start of the caller's buffer.
\<close>

theorem pasv_reads_before_buffer:
  assumes "fp_state s = FCPS_PASV" "\<not> fp_multiline s" "fp_inv s"
    and "line_defined (ds @ CHR '','' # rest)" "\<forall>d \<in> set ds. isdigit d"
    and "atoi (cstr (ds @ CHR '','' # rest)) = Some c" "ok2xx c"
  shows "giveInput s (ds @ CHR '','' # rest) = None"
proof -
  let ?buf = "ds @ CHR '','' # rest"
  have before: "step_back ?buf n = None" if "n \<le> length ds" for n
    using that assms(5) by (induction n) (auto simp: rd_def nth_append)
  have ds: "NUL \<notin> set ds" "CHR '','' \<notin> set ds" using assms(5) isdigit_not by blast+
  have "cstr ?buf = ds @ CHR '','' # cstr rest"
    using ds(1) by (auto simp: cstr_def takeWhile_append)
  moreover have "takeWhile (\<lambda>c. c \<noteq> CHR '','') (ds @ CHR '','' # cstr rest) = ds"
    using ds(2) by (subst takeWhile_append2) auto
  ultimately have "find_comma ?buf = Some (length ds)" by (simp add: find_comma_def)
  with before[of "length ds"] assms(1,7) giveInput_reply[OF assms(4,2,3,6)] show ?thesis
    by (simp add: giveSwitch_def givePasv_def)
qed

theorem pasv_reads_before_buffer_witness: "giveInput fp_pasv (line ''227,0,0,1,4,1'') = None"
proof -
  have "line_defined (''227'' @ CHR '','' # line ''0,0,1,4,1'')"
    "atoi (cstr (''227'' @ CHR '','' # line ''0,0,1,4,1'')) = Some 227"
    by (simp_all add: line_defined_def eval_line)
  then show ?thesis
    using pasv_reads_before_buffer[OF _ _ fp_pasv_inv, of "''227''" "line ''0,0,1,4,1''" 227]
    by (simp add: fp_pasv_def ok2xx_def line_def)
qed

text \<open>
  The PORT command sends the wrong port: the two last numbers are the first two octets of the
  address, whatever \<open>sin_port\<close> is, so the server connects to a port the client does not listen on.
\<close>

theorem port_line_ignores_port:
  assumes "octets [a, b, c, d]"
  shows "port_line \<lparr>sin_family = f, s_addr = htonl (of_nat (quad a b c d)), sin_port = p\<rparr> =
         ''PORT '' @ commas (map dec [a, b, c, d, a, b]) @ [CR, LF]"
proof -
  have z: "octets [d, c, b, a]" "octets [b, a]" using assms by (auto simp: octets_def)
  have "htonl (htonl (of_nat (quad a b c d))) = of_nat (quad a b c d)"
    using htonl_quad[OF assms] htonl_quad[OF z(1)] by simp
  moreover have "unat (htons (ucast (htonl (of_nat (quad a b c d))))) = a * 256 + b"
    using htons_pair[OF z(2) ucast_quad[OF z(1)]] htonl_quad[OF assms] by simp
  ultimately show ?thesis using GETBYTE_quad[OF assms] assms
    by (simp add: port_line_def Let_def GETBYTE_nat octets_def)
qed

theorem port_line_ignores_port_witness:
  "port_line \<lparr>sin_family = 2, s_addr = htonl (of_nat (quad 10 0 0 1)), sin_port = htons 1234\<rparr> =
   ''PORT '' @ commas (map dec [10, 0, 0, 1, 10, 0]) @ [CR, LF]"
  by (rule port_line_ignores_port) (simp add: octets_def)

text \<open>
  In PORT mode the file is never requested: after the server has accepted PORT the session
  waits in the RETR state for a reply, but no RETR line has been queued (the passive branch queues
  it), so there is nothing to send and every further command is refused with EISCONN.
\<close>

theorem port_mode_sends_no_retr:
  assumes "fp_inv s" "fp_state s = FCPS_IDLE" "fp_obuflen s = 0" "\<not> fp_multiline s" "length f < MAXFNAME"
    "single_reply h c" "ok2xx c"
  shows "\<exists>s1 s2. get_cmd s f (Some adr) = Some (OK, s1) \<and> giveInput (snd (advanceOutput s1)) h = Some (OK, s2) \<and>
           fp_state s2 = FCPS_RETR \<and> getOutput s2 = None \<and> get_cmd s2 g a = Some (Fail EISCONN, s2)"
proof -
  obtain s1 where s1: "get_cmd s f (Some adr) = Some (OK, s1)" "fp_inv s1" "fp_state s1 = FCPS_PORT" "\<not> fp_multiline s1"
    using get_Some[OF assms(1,2) _ assms(5), of "Some adr"] assms(3,4) by (auto simp: isOutputReady_def)
  let ?a = "snd (advanceOutput s1)"
  have a: "fp_inv ?a" "fp_state ?a = FCPS_PORT" "\<not> fp_multiline ?a" "fp_obuflen ?a = 0"
    using s1 advanceOutput_frame[of s1] by (simp_all add: advanceOutput_def)
  let ?s = "?a\<lparr>fp_status := c, fp_response := saved_reply h\<rparr>"
  have inv: "fp_inv ?s" "substate (fp_state ?s)"
    using fp_inv_saved[OF a(1), where c = c and ibuf = h] a(2) by (simp_all add: substate_def)
  have "giveInput ?a h = giveSwitch ?s h c" using giveInput_single[OF a(1,3)] assms(6) by (simp add: single_reply_def)
  also have "\<dots> = Some (OK, ?s\<lparr>fp_stack := (fp_stack ?s)[0 := FCPS_UNINIT], fp_stack_ptr := 0, fp_state := FCPS_RETR\<rparr>)"
    using return_substate[OF inv] a(2) assms(7) by (simp add: giveSwitch_def)
  finally show ?thesis using s1(1) a(4)
    by (simp add: getOutput_def isOutputReady_def get_cmd_def)
qed

definition fp_idle :: ftp_proto where
  "fp_idle = fp0\<lparr>fp_state := FCPS_IDLE\<rparr>"

lemma fp_idle_inv: "fp_inv fp_idle"
  using fp0_inv by (simp add: fp_idle_def fp_inv_def substate_def)

theorem port_mode_sends_no_retr_witness:
  "\<exists>s1 s2. get_cmd fp_idle ''x'' (Some \<lparr>sin_family = 2, s_addr = 1, sin_port = 2\<rparr>) = Some (OK, s1) \<and>
     giveInput (snd (advanceOutput s1)) (line ''200 ok'') = Some (OK, s2) \<and> fp_state s2 = FCPS_RETR \<and>
     getOutput s2 = None"
proof -
  have r: "single_reply (line ''200 ok'') 200" by (simp add: single_reply_def line_defined_def eval_line)
  show ?thesis
    using port_mode_sends_no_retr[OF fp_idle_inv _ _ _ _ r, of "''x''" "\<lparr>sin_family = 2, s_addr = 1, sin_port = 2\<rparr>"]
    by (simp add: fp_idle_def MAXFNAME_def ok2xx_def) blast
qed

text \<open>
  The bound in the user name is real: \<open>login\<close> formats the name into a 513-byte array with
  \<open>sprintf\<close> and without a length check, so a name of more than 505 bytes is written past the end.
\<close>

theorem login_overflow:
  assumes "fp_sizes s" "fp_state s = FCPS_INIT \<or> fp_state s = FCPS_CONNECTED" "\<not> fp_sent_user s"
    "fp_obuflen s = 0" "LINELEN - 7 < length u"
  shows "login s u p = None"
  using assms sprintf_obuf_None[of s "''USER '' @ u @ [CR, LF]"]
  by (simp add: login_def isOutputReady_def LINELEN_def)

theorem login_overflow_witness: "login fp0 (replicate 600 CHR ''a'') [] = None"
  using fp0_inv by (intro login_overflow) (simp_all add: fp_inv_def LINELEN_def)

end
