(* ===== verification/Poller_base.thy ===== *)
theory Poller_base
  imports Interfaces
begin

unbundle bit_operations_syntax

text \<open>
  The vocabulary of Poller.h (masks, events) and the wake-up pipe of Poller.cc. Operating system
  calls are arguments that act on a state \<open>'x\<close>.
\<close>

subsection \<open>Masks and events\<close>

type_synonym mask = "16 word"

definition POLLIN :: mask where "POLLIN = 0x01"
definition POLLPRI :: mask where "POLLPRI = 0x02"
definition POLLOUT :: mask where "POLLOUT = 0x04"
definition POLLERR :: mask where "POLLERR = 0x08"
definition POLLHUP :: mask where "POLLHUP = 0x10"

lemmas poll_bits = POLLIN_def POLLPRI_def POLLOUT_def POLLERR_def POLLHUP_def

record 'c poll_event =
  ev_fd :: int
  ev_revents :: mask
  ev_client :: "'c option"

definition has :: "mask \<Rightarrow> mask \<Rightarrow> bool" where
  "has m b = (m AND b \<noteq> 0)"

text \<open>Masks as three flags: input, output, urgent.\<close>

definition mk_mask :: "bool \<Rightarrow> bool \<Rightarrow> bool \<Rightarrow> mask" where
  "mk_mask r w e = (if r then POLLIN else 0) OR (if w then POLLOUT else 0) OR (if e then POLLPRI else 0)"

lemma bit_poll: "bit POLLIN n = (n = 0)" "bit POLLPRI n = (n = 1)" "bit POLLOUT n = (n = 2)" "bit POLLERR n = (n = 3)"
proof -
  have e: "POLLIN = 2 ^ 0" "POLLPRI = 2 ^ 1" "POLLOUT = 2 ^ 2" "POLLERR = 2 ^ 3" by (simp_all add: poll_bits)
  show "bit POLLIN n = (n = 0)" "bit POLLPRI n = (n = 1)" "bit POLLOUT n = (n = 2)" "bit POLLERR n = (n = 3)"
    unfolding e bit_exp_iff by auto
qed

lemma mask_nonzero: "(m :: mask) \<noteq> 0 \<longleftrightarrow> (\<exists>n. bit m n)"
  by (metis bit_0_eq bit_eqI bot_apply bot_bool_def)

lemma has_bit: "has m POLLIN = bit m 0" "has m POLLPRI = bit m 1" "has m POLLOUT = bit m 2" "has m POLLERR = bit m 3"
proof -
  have "has m b = (\<exists>n. bit m n \<and> bit b n)" for b
    using mask_nonzero[of "m AND b"] by (simp add: has_def bit_and_iff)
  then show "has m POLLIN = bit m 0" "has m POLLPRI = bit m 1" "has m POLLOUT = bit m 2" "has m POLLERR = bit m 3"
    by (simp_all add: bit_poll)
qed

lemma bit_mk_mask: "bit (mk_mask r w e) n = (n = 0 \<and> r \<or> n = 2 \<and> w \<or> n = 1 \<and> e)"
  by (auto simp: mk_mask_def bit_or_iff bit_poll)

lemma mk_mask_zero: "mk_mask r w e = 0 \<longleftrightarrow> \<not> r \<and> \<not> w \<and> \<not> e"
  using mask_nonzero[of "mk_mask r w e"] by (auto simp: bit_mk_mask)

lemma has_mk_mask: "has (mk_mask r w e) POLLIN = r" "has (mk_mask r w e) POLLOUT = w" "has (mk_mask r w e) POLLPRI = e"
  by (simp_all add: has_bit bit_mk_mask)

text \<open>A handler: it is given the event and may change the poller (state \<open>'p\<close>) and the world.\<close>

type_synonym ('c, 'p) notify = "'c \<Rightarrow> 'c poll_event \<Rightarrow> 'p \<Rightarrow> (int \<times> 'p) option"

text \<open>A handler that acts on the world only and leaves the poller alone.\<close>

definition on_world :: "('c poll_event \<Rightarrow> 'x \<Rightarrow> int \<times> 'x) \<Rightarrow> ('c, 'p \<times> 'x) notify" where
  "on_world h c ev px = (case h ev (snd px) of (err, x1) \<Rightarrow> Some (err, (fst px, x1)))"

subsection \<open>The wake-up pipe\<close>

record wakeup =
  wk_r :: int
  wk_w :: int
  wk_owner :: bool \<comment> \<open>\<open>m_pipe_client.m_owner\<close> is not null\<close>

definition wakeup_init :: "wakeup \<Rightarrow> rc \<times> wakeup" where
  "wakeup_init w = (OK, w\<lparr>wk_r := -1, wk_w := -1, wk_owner := False\<rparr>)"

text \<open>
  \<open>initWakeUpPipe\<close>: \<open>pipe\<close> and \<open>fcntl(fd, F_SETFL, O_NONBLOCK)\<close> are calls of the system, \<open>add\<close> is the
  virtual \<open>add\<close> of the back end applied to the pipe client and POLLIN; its result is ignored.
\<close>

definition initWakeUpPipe ::
  "('x \<Rightarrow> (errno + int \<times> int) \<times> 'x) \<Rightarrow> (int \<Rightarrow> 'x \<Rightarrow> errno option \<times> 'x) \<Rightarrow>
   (int \<Rightarrow> mask \<Rightarrow> 'x \<Rightarrow> (rc \<times> 'x) option) \<Rightarrow> wakeup \<Rightarrow> 'x \<Rightarrow> (rc \<times> wakeup \<times> 'x) option" where
  "initWakeUpPipe pipe nonblock add w x =
     (case pipe x of
        (Inl e, x1) \<Rightarrow> Some (Fail e, w, x1)
      | (Inr (r, t), x1) \<Rightarrow>
          let w1 = w\<lparr>wk_r := r, wk_w := t\<rparr> in
          (case nonblock r x1 of
             (Some e, x2) \<Rightarrow> Some (Fail e, w1, x2)
           | (None, x2) \<Rightarrow>
               (case nonblock t x2 of
                  (Some e, x3) \<Rightarrow> Some (Fail e, w1, x3)
                | (None, x3) \<Rightarrow> do {
                    (q, x4) \<leftarrow> add r POLLIN x3;
                    Some (OK, w1\<lparr>wk_owner := True\<rparr>, x4)
                  })))"

definition wakeup_shutdown :: "(int \<Rightarrow> 'x \<Rightarrow> 'x) \<Rightarrow> wakeup \<Rightarrow> 'x \<Rightarrow> wakeup \<times> 'x" where
  "wakeup_shutdown close w x =
     (if wk_r w \<noteq> -1 then (w\<lparr>wk_r := -1, wk_w := -1, wk_owner := False\<rparr>, close (wk_w w) (close (wk_r w) x))
      else (w, x))"

text \<open>\<open>wakeUp\<close>; \<open>write\<close> of one byte, whose error (\<open>errno\<close>) is also returned for a short count.\<close>

definition wakeUp :: "(int \<Rightarrow> char list \<Rightarrow> 'x \<Rightarrow> (errno + nat) \<times> 'x) \<Rightarrow> errno \<Rightarrow> wakeup \<Rightarrow> 'x \<Rightarrow> rc \<times> 'x" where
  "wakeUp wcall old_errno w x =
     (case wcall (wk_w w) ''a'' x of
        (Inr n, x1) \<Rightarrow> (if n = 1 then OK else Fail old_errno, x1)
      | (Inl e, x1) \<Rightarrow> (Fail e, x1))"

text \<open>The loop \<open>while (read(fd, buf, 64) == 64);\<close> of the pipe client.\<close>

partial_function (option) read_all :: "(int \<Rightarrow> nat \<Rightarrow> 'x \<Rightarrow> (errno + char list) \<times> 'x) \<Rightarrow> int \<Rightarrow> 'x \<Rightarrow> 'x option" where
  "read_all rcall fd x =
     (case rcall fd 64 x of
        (Inr ds, x1) \<Rightarrow> if length ds = 64 then read_all rcall fd x1 else Some x1
      | (Inl e, x1) \<Rightarrow> Some x1)"

text \<open>\<open>WakeUpClient::notifyPollEvent\<close>; \<open>clear\<close> is the back end's \<open>clearReadiness\<close>.\<close>

definition wakeup_notify ::
  "(int \<Rightarrow> nat \<Rightarrow> 'x \<Rightarrow> (errno + char list) \<times> 'x) \<Rightarrow> (int \<Rightarrow> mask \<Rightarrow> 'x \<Rightarrow> 'x option) \<Rightarrow> wakeup \<Rightarrow>
   'c poll_event \<Rightarrow> 'x \<Rightarrow> (int \<times> 'x) option" where
  "wakeup_notify rcall clear w ev x = do {
     assertion (\<not> has (ev_revents ev) POLLERR);
     if has (ev_revents ev) POLLIN then do {
       x1 \<leftarrow> read_all rcall (ev_fd ev) x;
       assertion (wk_owner w);
       x2 \<leftarrow> clear (ev_fd ev) POLLIN x1;
       Some (0, x2)
     }
     else Some (0, x)
   }"

text \<open>
  A non-blocking pipe: \<open>read\<close> delivers what there is, at most \<open>n\<close> bytes, and fails when it is empty.
\<close>

definition pipe_read :: "(int \<Rightarrow> nat \<Rightarrow> 'x \<Rightarrow> (errno + char list) \<times> 'x) \<Rightarrow> int \<Rightarrow> ('x \<Rightarrow> char list) \<Rightarrow> bool" where
  "pipe_read rcall fd bytes = (\<forall>n x. 0 < n \<longrightarrow>
     (if bytes x = [] then \<exists>e x'. rcall fd n x = (Inl e, x') \<and> bytes x' = []
      else \<exists>x'. rcall fd n x = (Inr (take n (bytes x)), x') \<and> bytes x' = drop n (bytes x)))"

lemma read_all_drains:
  assumes "pipe_read rcall fd bytes"
  shows "\<exists>x'. read_all rcall fd x = Some x' \<and> bytes x' = []"
proof (induction "length (bytes x)" arbitrary: x rule: less_induct)
  case less
  show ?case
  proof (cases "bytes x = []")
    case True
    then obtain e x' where "rcall fd 64 x = (Inl e, x')" "bytes x' = []"
      using assms unfolding pipe_read_def by (metis zero_less_numeral)
    then show ?thesis by (simp add: read_all.simps[of rcall fd x])
  next
    case False
    then obtain x1 where x1: "rcall fd 64 x = (Inr (take 64 (bytes x)), x1)" "bytes x1 = drop 64 (bytes x)"
      using assms unfolding pipe_read_def by (metis zero_less_numeral)
    show ?thesis
    proof (cases "64 \<le> length (bytes x)")
      case True
      then have "length (bytes x1) < length (bytes x)" using x1(2) by simp
      from less.hyps[OF this] x1 True show ?thesis by (simp add: read_all.simps[of rcall fd x])
    next
      case short: False
      with x1 show ?thesis by (auto simp: read_all.simps[of rcall fd x])
    qed
  qed
qed

subsection \<open>Properties\<close>

text \<open>
  The wake-up handler always returns 0 (so that its client is never deleted), ends its read loop
  and leaves the pipe empty, however many wake-ups were written since it last ran.
\<close>

theorem wakeup_drains_pipe:
  assumes "pipe_read rcall (ev_fd ev) bytes" "has (ev_revents ev) POLLIN" "\<not> has (ev_revents ev) POLLERR"
    "wk_owner w" "\<And>x. clear (ev_fd ev) POLLIN x = Some x"
  shows "\<exists>x'. wakeup_notify rcall clear w ev x = Some (0, x') \<and> bytes x' = []"
  using read_all_drains[OF assms(1), of x] assms(2-) by (auto simp: wakeup_notify_def)

definition string_pipe :: "int \<Rightarrow> nat \<Rightarrow> char list \<Rightarrow> (errno + char list) \<times> char list" where
  "string_pipe fd n x = (if x = [] then (Inl EWOULDBLOCK, x) else (Inr (take n x), drop n x))"

theorem wakeup_drains_pipe_witness:
  "\<exists>x'. wakeup_notify string_pipe (\<lambda>fd m x. Some x) \<lparr>wk_r = 3, wk_w = 4, wk_owner = True\<rparr>
          \<lparr>ev_fd = 3, ev_revents = POLLIN, ev_client = None\<rparr> (replicate 130 CHR ''a'') = Some (0, x') \<and> x' = []"
  by (rule wakeup_drains_pipe) (auto simp: pipe_read_def string_pipe_def has_def poll_bits)

end
