(* ===== verification/Poller_poll.thy ===== *)
theory Poller_poll
  imports Poller_base
begin

unbundle bit_operations_syntax

text \<open>
  The back end on \<open>poll()\<close> of Poller\_poll.h and Poller\_poll.cc: a compact array of pollfds, the array
  of their clients beside it, and a table from descriptors to positions. Members have the prefix
  \<open>pp_\<close> where the source has \<open>m_\<close>. The memory that \<open>malloc\<close> returns is not cleared: the table holds
  whatever was there for the descriptors below 16 that were never added.
\<close>

subsection \<open>State\<close>

record pollfd =
  pfd_fd :: int
  pfd_events :: mask
  pfd_revents :: mask

record 'c poller_poll =
  pp_fd2client_used :: nat
  pp_fd2client_alloc :: nat
  pp_pfds :: "pollfd list"
  pp_clients :: "'c option list"
  pp_pfds_used :: nat
  pp_pfds_alloc :: nat
  pp_fd2pfdnum :: "int list"
  pp_rfds :: int
  pp_cur_pfdnum :: int

type_synonym 'a reallocf = "nat \<Rightarrow> 'a list \<Rightarrow> 'a list option"

text \<open>The three \<open>malloc\<close> calls of \<open>init\<close>; an array that is not assigned is not read before \<open>add\<close>.\<close>

definition pp_init ::
  "int list option \<Rightarrow> 'c option list option \<Rightarrow> pollfd list option \<Rightarrow> 'c poller_poll \<Rightarrow> rc \<times> 'c poller_poll" where
  "pp_init mem1 mem2 mem3 s =
     (let s1 = s\<lparr>pp_fd2client_used := 0, pp_fd2client_alloc := 16\<rparr> in
      case mem1 of
        None \<Rightarrow> (Fail ENOMEM, s1\<lparr>pp_fd2pfdnum := []\<rparr>)
      | Some t \<Rightarrow>
          let s2 = s1\<lparr>pp_fd2pfdnum := t, pp_pfds_used := 0, pp_pfds_alloc := 16\<rparr> in
          (case mem2 of
             None \<Rightarrow> (Fail ENOMEM, s2\<lparr>pp_clients := []\<rparr>)
           | Some c \<Rightarrow>
               (case mem3 of
                  None \<Rightarrow> (Fail ENOMEM, s2\<lparr>pp_clients := c, pp_pfds := []\<rparr>)
                | Some p \<Rightarrow> (OK, s2\<lparr>pp_clients := c, pp_pfds := p\<rparr>))))"

definition pp_shutdown :: "'c poller_poll \<Rightarrow> 'c poller_poll" where
  "pp_shutdown s = s\<lparr>pp_fd2pfdnum := [], pp_clients := [], pp_pfds := []\<rparr>"

subsection \<open>Adding and deleting\<close>

text \<open>The two resizing steps of \<open>add\<close>: None inside \<open>Some\<close> is the early return of ENOMEM.\<close>

definition pp_grow_fds :: "int reallocf \<Rightarrow> 'c poller_poll \<Rightarrow> int \<Rightarrow> (rc \<times> 'c poller_poll) option" where
  "pp_grow_fds ra s fd =
     (if fd \<ge> int (pp_fd2client_alloc s) then do {
        let n = nat (max (int (pp_fd2client_alloc s) * 2) (fd + 1));
        assertion (n < 2 ^ 31);
        case ra n (pp_fd2pfdnum s) of
          None \<Rightarrow> Some (Fail ENOMEM, s)
        | Some pn \<Rightarrow> do {
            assertion (n \<le> length pn);
            Some (OK, s\<lparr>pp_fd2pfdnum := take (pp_fd2client_alloc s) pn @
                                       replicate (n - pp_fd2client_alloc s) (-1) @ drop n pn,
                        pp_fd2client_alloc := n\<rparr>)
          }
      }
      else Some (OK, s))"

definition pp_grow_pfds ::
  "'c option reallocf \<Rightarrow> pollfd reallocf \<Rightarrow> 'c poller_poll \<Rightarrow> (rc \<times> 'c poller_poll) option" where
  "pp_grow_pfds rac rap s =
     (if pp_pfds_used s = pp_pfds_alloc s then do {
        let n = pp_pfds_alloc s * 2;
        assertion (n < 2 ^ 31);
        case rac n (pp_clients s) of
          None \<Rightarrow> Some (Fail ENOMEM, s)
        | Some clients \<Rightarrow>
            (let s1 = s\<lparr>pp_clients := clients\<rparr> in
             case rap n (pp_pfds s1) of
               None \<Rightarrow> Some (Fail ENOMEM, s1)
             | Some pfds \<Rightarrow> Some (OK, s1\<lparr>pp_pfds := pfds, pp_pfds_alloc := n\<rparr>))
      }
      else Some (OK, s))"

definition pp_store :: "'c poller_poll \<Rightarrow> int \<Rightarrow> 'c \<Rightarrow> mask \<Rightarrow> 'c poller_poll option" where
  "pp_store s fd client eventmask = do {
     let k = pp_pfds_used s;
     cs \<leftarrow> wr (pp_clients s) k (Some client);
     p \<leftarrow> rd (pp_pfds s) k;
     ps \<leftarrow> wr (pp_pfds s) k (p\<lparr>pfd_fd := fd, pfd_events := eventmask\<rparr>);
     t \<leftarrow> wri (pp_fd2pfdnum s) fd (int k);
     Some (s\<lparr>pp_clients := cs, pp_pfds := ps, pp_fd2pfdnum := t,
             pp_fd2client_used := (if fd \<ge> int (pp_fd2client_used s) then nat (fd + 1) else pp_fd2client_used s),
             pp_pfds_used := k + 1\<rparr>)
   }"

definition pp_add ::
  "int reallocf \<Rightarrow> 'c option reallocf \<Rightarrow> pollfd reallocf \<Rightarrow> 'c poller_poll \<Rightarrow> int \<Rightarrow> 'c \<Rightarrow> mask \<Rightarrow>
   (rc \<times> 'c poller_poll) option" where
  "pp_add raf rac rap s fd client eventmask = do {
     (r1, s1) \<leftarrow> pp_grow_fds raf s fd;
     if r1 \<noteq> OK then Some (r1, s1)
     else do {
       (r2, s2) \<leftarrow> pp_grow_pfds rac rap s1;
       if r2 \<noteq> OK then Some (r2, s2)
       else do { s3 \<leftarrow> pp_store s2 fd client eventmask; Some (OK, s3) }
     }
   }"

fun trim_used :: "int list \<Rightarrow> nat \<Rightarrow> nat option" where
  "trim_used t 0 = Some 0"
| "trim_used t (Suc n) = do { j \<leftarrow> rd t n; if j = -1 then trim_used t n else Some (Suc n) }"

text \<open>Closing up the hole at position \<open>k\<close>.\<close>

definition pp_move_last :: "'c poller_poll \<Rightarrow> nat \<Rightarrow> 'c poller_poll option" where
  "pp_move_last s k =
     (let l = pp_pfds_used s - 1 in
      if k \<noteq> l then do {
        c \<leftarrow> rd (pp_clients s) l;
        cs \<leftarrow> wr (pp_clients s) k c;
        p \<leftarrow> rd (pp_pfds s) l;
        ps \<leftarrow> wr (pp_pfds s) k p;
        t \<leftarrow> wri (pp_fd2pfdnum s) (pfd_fd p) (int k);
        Some (s\<lparr>pp_clients := cs, pp_pfds := ps, pp_fd2pfdnum := t\<rparr>)
      }
      else Some s)"

definition pp_del :: "'c poller_poll \<Rightarrow> int \<Rightarrow> (rc \<times> 'c poller_poll) option" where
  "pp_del s fd =
     (if fd < 0 \<or> fd \<ge> int (pp_fd2client_used s) then Some (Fail EINVAL, s)
      else do {
        assertion (pp_pfds_used s > 0);
        pfdnum \<leftarrow> rdi (pp_fd2pfdnum s) fd;
        if pfdnum = -1 then Some (Fail ENOENT, s)
        else do {
          assertion (0 \<le> pfdnum \<and> pfdnum < int (pp_pfds_used s));
          s1 \<leftarrow> pp_move_last s (nat pfdnum);
          let l = pp_pfds_used s - 1;
          cs \<leftarrow> wr (pp_clients s1) l None;
          p \<leftarrow> rd (pp_pfds s1) l;
          ps \<leftarrow> wr (pp_pfds s1) l (p\<lparr>pfd_fd := -1\<rparr>);
          t \<leftarrow> wri (pp_fd2pfdnum s1) fd (-1);
          u \<leftarrow> trim_used t (pp_fd2client_used s);
          Some (OK, s1\<lparr>pp_clients := cs, pp_pfds := ps, pp_fd2pfdnum := t,
                       pp_fd2client_used := u, pp_pfds_used := l\<rparr>)
        }
      })"

subsection \<open>Masks\<close>

text \<open>The shared tail of \<open>setMask\<close>, \<open>orMask\<close> and \<open>andMask\<close>: update the events of entry \<open>i\<close>.\<close>

definition pp_update :: "'c poller_poll \<Rightarrow> int \<Rightarrow> (mask \<Rightarrow> mask) \<Rightarrow> (rc \<times> 'c poller_poll) option" where
  "pp_update s i f = do {
     assertion (0 \<le> i \<and> i < int (pp_pfds_used s));
     p \<leftarrow> rdi (pp_pfds s) i;
     ps \<leftarrow> wri (pp_pfds s) i (p\<lparr>pfd_events := f (pfd_events p)\<rparr>);
     Some (OK, s\<lparr>pp_pfds := ps\<rparr>)
   }"

definition pp_setMask :: "'c poller_poll \<Rightarrow> int \<Rightarrow> mask \<Rightarrow> (rc \<times> 'c poller_poll) option" where
  "pp_setMask s fd eventmask = do {
     i \<leftarrow> rdi (pp_fd2pfdnum s) fd;
     if i = -1 then Some (Fail ENOENT, s) else pp_update s i (\<lambda>e. eventmask)
   }"

definition pp_orMask :: "'c poller_poll \<Rightarrow> int \<Rightarrow> mask \<Rightarrow> (rc \<times> 'c poller_poll) option" where
  "pp_orMask s fd eventmask = do { i \<leftarrow> rdi (pp_fd2pfdnum s) fd; pp_update s i (\<lambda>e. e OR eventmask) }"

definition pp_andMask :: "'c poller_poll \<Rightarrow> int \<Rightarrow> mask \<Rightarrow> (rc \<times> 'c poller_poll) option" where
  "pp_andMask s fd eventmask = do { i \<leftarrow> rdi (pp_fd2pfdnum s) fd; pp_update s i (\<lambda>e. e AND eventmask) }"

subsection \<open>Events\<close>

text \<open>
  \<open>poll\<close>: given the descriptors and their event masks it returns the \<open>revents\<close> of each, or an error;
  the count it returns is the number of entries whose \<open>revents\<close> is not zero.
\<close>

type_synonym 'x poll_call = "(int \<times> mask) list \<Rightarrow> int \<Rightarrow> 'x \<Rightarrow> (errno + mask list) \<times> 'x"

definition with_revents :: "pollfd list \<Rightarrow> mask list \<Rightarrow> pollfd list" where
  "with_revents ps rs = map2 (\<lambda>p r. p\<lparr>pfd_revents := r\<rparr>) (take (length rs) ps) rs @ drop (length rs) ps"

definition pp_waitForEvents ::
  "'x poll_call \<Rightarrow> int \<Rightarrow> 'c poller_poll \<Rightarrow> 'x \<Rightarrow> (rc \<times> 'c poller_poll \<times> 'x) option" where
  "pp_waitForEvents poll timeout s x = do {
     assertion (pp_pfds_used s \<le> length (pp_pfds s));
     case poll (map (\<lambda>p. (pfd_fd p, pfd_events p)) (take (pp_pfds_used s) (pp_pfds s))) timeout x of
       (Inl e, x1) \<Rightarrow> Some (Fail e, s\<lparr>pp_rfds := -1, pp_cur_pfdnum := -1\<rparr>, x1)
     | (Inr rs, x1) \<Rightarrow> do {
         assertion (length rs = pp_pfds_used s);
         let n = length (filter (\<lambda>r. r \<noteq> 0) rs);
         Some (if n \<noteq> 0 then OK else Fail EWOULDBLOCK,
               s\<lparr>pp_pfds := with_revents (pp_pfds s) rs, pp_rfds := int n, pp_cur_pfdnum := int (pp_pfds_used s)\<rparr>, x1)
       }
   }"

text \<open>\<open>while (--m_cur_pfdnum > -1) if (m_pfds[m_cur_pfdnum].revents) break;\<close>\<close>

function scan_down :: "pollfd list \<Rightarrow> int \<Rightarrow> int option" where
  "scan_down ps c =
     (if c - 1 > -1 then do {
        p \<leftarrow> rdi ps (c - 1);
        if pfd_revents p \<noteq> 0 then Some (c - 1) else scan_down ps (c - 1)
      }
      else Some (c - 1))"
  by pat_completeness auto
termination by (relation "measure (\<lambda>(ps, c). nat c)") auto

declare scan_down.simps [simp del]

definition pp_getNextEvent ::
  "'c poller_poll \<Rightarrow> (rc \<times> 'c poll_event option \<times> 'c poller_poll) option" where
  "pp_getNextEvent s =
     (if pp_rfds s < 1 then Some (Fail EWOULDBLOCK, None, s)
      else do {
        let c0 = (if pp_cur_pfdnum s > int (pp_pfds_used s) then int (pp_pfds_used s) else pp_cur_pfdnum s);
        c \<leftarrow> scan_down (pp_pfds s) c0;
        let s1 = s\<lparr>pp_cur_pfdnum := c\<rparr>;
        if c = -1 then Some (Fail EWOULDBLOCK, None, s1)
        else do {
          p \<leftarrow> rdi (pp_pfds s1) c;
          assertion (0 \<le> pfd_fd p \<and> pfd_fd p < int (pp_fd2client_used s1));
          j \<leftarrow> rdi (pp_fd2pfdnum s1) (pfd_fd p);
          assertion (0 \<le> j \<and> j < int (pp_pfds_used s1));
          assertion (j = c);
          cl \<leftarrow> rdi (pp_clients s1) j;
          Some (OK, Some \<lparr>ev_fd = pfd_fd p, ev_revents = pfd_revents p, ev_client = cl\<rparr>,
                s1\<lparr>pp_rfds := pp_rfds s1 - 1\<rparr>)
        }
      })"

text \<open>
  \<open>waitAndDispatchEvents\<close>. A handler may call any operation of the poller. The loop is not bounded:
  a handler may wait for events itself.
\<close>

partial_function (option) pp_dispatch ::
  "('c, 'c poller_poll \<times> 'x) notify \<Rightarrow> 'c poller_poll \<times> 'x \<Rightarrow> ('c poller_poll \<times> 'x) option" where
  "pp_dispatch notify sx =
     (if pp_rfds (fst sx) > 0 then do {
        (r, e, s1) \<leftarrow> pp_getNextEvent (fst sx);
        case e of
          None \<Rightarrow> Some (s1, snd sx)
        | Some ev \<Rightarrow> (case ev_client ev of
            None \<Rightarrow> None
          | Some c \<Rightarrow> do {
              (err, sx1) \<leftarrow> notify c ev (s1, snd sx);
              if err \<noteq> 0 then do {
                (q, s2) \<leftarrow> pp_del (fst sx1) (ev_fd ev);
                pp_dispatch notify (s2, snd sx1)
              }
              else pp_dispatch notify sx1
            })
      }
      else Some sx)"

definition pp_waitAndDispatchEvents ::
  "'x poll_call \<Rightarrow> ('c, 'c poller_poll \<times> 'x) notify \<Rightarrow> int \<Rightarrow> 'c poller_poll \<Rightarrow> 'x \<Rightarrow>
   (rc \<times> 'c poller_poll \<times> 'x) option" where
  "pp_waitAndDispatchEvents poll notify timeout s x = do {
     (r, s1, x1) \<leftarrow> pp_waitForEvents poll timeout s x;
     if r \<noteq> OK then Some (r, s1, x1)
     else do { sx \<leftarrow> pp_dispatch notify (s1, x1); Some (OK, sx) }
   }"

subsection \<open>Invariant and abstraction\<close>

text \<open>
  Descriptors are below \<open>FDLIMIT\<close>, the largest limit of open files of the systems supported; it keeps
  the sizes computed by \<open>add\<close> inside an \<open>int\<close>.
\<close>

definition FDLIMIT :: nat where
  "FDLIMIT = 2 ^ 20"

definition pp_fd :: "'c poller_poll \<Rightarrow> nat \<Rightarrow> int" where
  "pp_fd s i = pfd_fd (pp_pfds s ! i)"

definition pp_val :: "'c poller_poll \<Rightarrow> nat \<Rightarrow> 'c \<times> mask" where
  "pp_val s i = (the (pp_clients s ! i), pfd_events (pp_pfds s ! i))"

definition pp_sizes :: "'c poller_poll \<Rightarrow> bool" where
  "pp_sizes s = (length (pp_fd2pfdnum s) = pp_fd2client_alloc s \<and> length (pp_clients s) = pp_pfds_alloc s \<and>
     length (pp_pfds s) = pp_pfds_alloc s \<and> pp_pfds_used s \<le> pp_pfds_alloc s \<and> 0 < pp_pfds_alloc s \<and>
     pp_pfds_alloc s \<le> 2 * FDLIMIT \<and> pp_fd2client_used s \<le> pp_fd2client_alloc s \<and>
     pp_fd2client_alloc s \<le> 2 * FDLIMIT)"

definition pp_linked :: "'c poller_poll \<Rightarrow> nat \<Rightarrow> bool" where
  "pp_linked s i = (0 \<le> pp_fd s i \<and> pp_fd s i < int (pp_fd2client_used s) \<and> pp_fd s i < int FDLIMIT \<and>
                    pp_fd2pfdnum s ! nat (pp_fd s i) = int i \<and> pp_clients s ! i \<noteq> None)"

definition pp_inv :: "'c poller_poll \<Rightarrow> bool" where
  "pp_inv s = (pp_sizes s \<and> (\<forall>i < pp_pfds_used s. pp_linked s i))"

definition pp_mon :: "'c poller_poll \<Rightarrow> int \<Rightarrow> ('c \<times> mask) option" where
  "pp_mon s = map_of (map (\<lambda>i. (pp_fd s i, pp_val s i)) [0..<pp_pfds_used s])"

lemma pp_linkedD: "pp_inv s \<Longrightarrow> i < pp_pfds_used s \<Longrightarrow> pp_linked s i"
  by (simp add: pp_inv_def)

lemma pp_fd_inj: "pp_inv s \<Longrightarrow> i < pp_pfds_used s \<Longrightarrow> j < pp_pfds_used s \<Longrightarrow> pp_fd s i = pp_fd s j \<Longrightarrow> i = j"
  using pp_linkedD[of s i] pp_linkedD[of s j] by (auto simp: pp_linked_def)

lemma pp_mon_iff:
  "pp_inv s \<Longrightarrow> pp_mon s f = Some v \<longleftrightarrow> (\<exists>i < pp_pfds_used s. pp_fd s i = f \<and> pp_val s i = v)"
proof -
  assume inv: "pp_inv s"
  have "inj_on (pp_fd s) {0..<pp_pfds_used s}" using pp_fd_inj[OF inv] by (auto simp: inj_on_def)
  then have "distinct (map fst (map (\<lambda>i. (pp_fd s i, pp_val s i)) [0..<pp_pfds_used s]))"
    by (simp add: distinct_map comp_def)
  from map_of_eq_Some_iff[OF this] show ?thesis by (auto simp: pp_mon_def)
qed

lemma pp_mon_None: "pp_inv s \<Longrightarrow> pp_mon s f = None \<longleftrightarrow> (\<forall>i < pp_pfds_used s. pp_fd s i \<noteq> f)"
  using pp_mon_iff[of s f] by (metis option.collapse option.distinct(1))

lemma map_eqI: "(\<And>f v. m f = Some v \<longleftrightarrow> m' f = Some v) \<Longrightarrow> m = m'"
  by (rule ext) (metis option.exhaust)

text \<open>A monitored descriptor is found through the table.\<close>

lemma pp_lookup:
  assumes "pp_inv s" "pp_mon s f = Some v"
  obtains i where "i < pp_pfds_used s" "pp_fd s i = f" "pp_val s i = v" "pp_linked s i"
    "rdi (pp_fd2pfdnum s) f = Some (int i)"
proof -
  obtain i where i: "i < pp_pfds_used s" "pp_fd s i = f" "pp_val s i = v" using assms pp_mon_iff by blast
  with pp_linkedD[OF assms(1) i(1)] assms(1) have "rdi (pp_fd2pfdnum s) f = Some (int i)"
    by (auto simp: pp_linked_def pp_inv_def pp_sizes_def)
  with i pp_linkedD[OF assms(1) i(1)] that show ?thesis by blast
qed

text \<open>There are no more entries than descriptors.\<close>

lemma pp_used_le: "pp_inv s \<Longrightarrow> pp_pfds_used s \<le> FDLIMIT"
proof -
  assume inv: "pp_inv s"
  have "inj_on (\<lambda>i. nat (pp_fd s i)) {..<pp_pfds_used s}"
  proof (rule inj_onI)
    fix i j
    assume a: "i \<in> {..<pp_pfds_used s}" "j \<in> {..<pp_pfds_used s}" "nat (pp_fd s i) = nat (pp_fd s j)"
    then have "pp_fd s i = pp_fd s j"
      using pp_linkedD[OF inv, of i] pp_linkedD[OF inv, of j] by (simp add: pp_linked_def)
    with pp_fd_inj[OF inv] a show "i = j" by simp
  qed
  moreover have "(\<lambda>i. nat (pp_fd s i)) ` {..<pp_pfds_used s} \<subseteq> {..<FDLIMIT}"
    using pp_linkedD[OF inv] by (force simp: pp_linked_def)
  ultimately have "card {..<pp_pfds_used s} \<le> card {..<FDLIMIT}" by (intro card_inj_on_le) auto
  then show ?thesis by simp
qed

subsection \<open>Masks\<close>

lemma pp_mon_update:
  assumes inv: "pp_inv s" and inv': "pp_inv s'" and i: "i < pp_pfds_used s" and n: "pp_pfds_used s' = pp_pfds_used s"
    and ent: "\<And>j. j < pp_pfds_used s \<Longrightarrow> pp_fd s' j = pp_fd s j \<and> pp_val s' j = (if j = i then v else pp_val s j)"
  shows "pp_mon s' = (pp_mon s)(pp_fd s i \<mapsto> v)"
proof (rule map_eqI)
  fix f w
  have "(\<exists>j < pp_pfds_used s. pp_fd s' j = f \<and> pp_val s' j = w) \<longleftrightarrow>
      (if f = pp_fd s i then w = v else \<exists>j < pp_pfds_used s. pp_fd s j = f \<and> pp_val s j = w)"
    using ent i pp_fd_inj[OF inv i] by (metis (full_types))
  then show "pp_mon s' f = Some w \<longleftrightarrow> ((pp_mon s)(pp_fd s i \<mapsto> v)) f = Some w"
    using pp_mon_iff[OF inv'] pp_mon_iff[OF inv] n by auto
qed

lemma pp_update_lemma:
  assumes inv: "pp_inv s" and i: "i < pp_pfds_used s"
  shows "\<exists>s'. pp_update s (int i) g = Some (OK, s') \<and> pp_inv s' \<and>
              pp_mon s' = (pp_mon s)(pp_fd s i \<mapsto> (fst (pp_val s i), g (snd (pp_val s i))))"
proof -
  let ?p = "(pp_pfds s ! i)\<lparr>pfd_events := g (pfd_events (pp_pfds s ! i))\<rparr>"
  let ?s' = "s\<lparr>pp_pfds := (pp_pfds s)[i := ?p]\<rparr>"
  have len: "i < length (pp_pfds s)" using inv i by (auto simp: pp_inv_def pp_sizes_def)
  have fd: "pp_fd ?s' j = pp_fd s j" for j using len by (cases "j = i") (simp_all add: pp_fd_def)
  have val: "pp_val ?s' j = (if j = i then (fst (pp_val s i), g (snd (pp_val s i))) else pp_val s j)" for j
    using len by (simp add: pp_val_def)
  have inv': "pp_inv ?s'" using inv by (simp add: pp_inv_def pp_sizes_def pp_linked_def fd)
  have "pp_mon ?s' = (pp_mon s)(pp_fd s i \<mapsto> (fst (pp_val s i), g (snd (pp_val s i))))"
    by (rule pp_mon_update[OF inv inv' i]) (simp_all add: fd val)
  moreover have "pp_update s (int i) g = Some (OK, ?s')" using i len by (simp add: pp_update_def)
  ultimately show ?thesis using inv' by blast
qed

lemma pp_masks:
  assumes inv: "pp_inv s" and m: "pp_mon s f = Some (c, k)"
  shows "\<exists>s'. pp_setMask s f e = Some (OK, s') \<and> pp_inv s' \<and> pp_mon s' = (pp_mon s)(f \<mapsto> (c, e))"
    and "\<exists>s'. pp_orMask s f e = Some (OK, s') \<and> pp_inv s' \<and> pp_mon s' = (pp_mon s)(f \<mapsto> (c, k OR e))"
    and "\<exists>s'. pp_andMask s f e = Some (OK, s') \<and> pp_inv s' \<and> pp_mon s' = (pp_mon s)(f \<mapsto> (c, k AND e))"
proof -
  obtain i where i: "i < pp_pfds_used s" "pp_fd s i = f" "pp_val s i = (c, k)" "rdi (pp_fd2pfdnum s) f = Some (int i)"
    using pp_lookup[OF inv m] by metis
  note upd = pp_update_lemma[OF inv i(1)]
  show "\<exists>s'. pp_setMask s f e = Some (OK, s') \<and> pp_inv s' \<and> pp_mon s' = (pp_mon s)(f \<mapsto> (c, e))"
    using upd[of "\<lambda>_. e"] i by (simp add: pp_setMask_def)
  show "\<exists>s'. pp_orMask s f e = Some (OK, s') \<and> pp_inv s' \<and> pp_mon s' = (pp_mon s)(f \<mapsto> (c, k OR e))"
    using upd[of "\<lambda>x. x OR e"] i by (simp add: pp_orMask_def)
  show "\<exists>s'. pp_andMask s f e = Some (OK, s') \<and> pp_inv s' \<and> pp_mon s' = (pp_mon s)(f \<mapsto> (c, k AND e))"
    using upd[of "\<lambda>x. x AND e"] i by (simp add: pp_andMask_def)
qed

subsection \<open>Deletion\<close>

lemma trim_used_lemma:
  "n \<le> length t \<Longrightarrow> \<exists>u. trim_used t n = Some u \<and> u \<le> n \<and> (\<forall>j. u \<le> j \<and> j < n \<longrightarrow> t ! j = -1)"
proof (induction n)
  case (Suc n)
  show ?case
  proof (cases "t ! n = -1")
    case True
    with Suc obtain u where "trim_used t n = Some u" "u \<le> n" "\<forall>j. u \<le> j \<and> j < n \<longrightarrow> t ! j = -1" by auto
    with True Suc.prems show ?thesis by (auto simp: less_Suc_eq)
  next
    case False
    with Suc.prems show ?thesis by simp
  qed
qed simp

text \<open>Entry \<open>k\<close> removed by moving the last entry into its place.\<close>

lemma pp_mon_swap:
  assumes inv: "pp_inv s" and inv': "pp_inv s'" and k: "k < pp_pfds_used s" and n: "pp_pfds_used s' = pp_pfds_used s - 1"
    and ent: "\<And>i. i < pp_pfds_used s' \<Longrightarrow> pp_fd s' i = pp_fd s (if i = k then pp_pfds_used s - 1 else i) \<and>
                pp_val s' i = pp_val s (if i = k then pp_pfds_used s - 1 else i)"
  shows "pp_mon s' = (pp_mon s)(pp_fd s k := None)"
proof (rule map_eqI)
  fix f v
  let ?l = "pp_pfds_used s - 1"
  show "pp_mon s' f = Some v \<longleftrightarrow> ((pp_mon s)(pp_fd s k := None)) f = Some v"
  proof
    assume "pp_mon s' f = Some v"
    then obtain i where i: "i < ?l" "pp_fd s' i = f" "pp_val s' i = v" using pp_mon_iff[OF inv'] n by auto
    define j where "j = (if i = k then ?l else i)"
    have j: "j < pp_pfds_used s" "j \<noteq> k" "pp_fd s j = f" "pp_val s j = v"
      using i ent[of i] n by (auto simp: j_def split: if_splits)
    then have "f \<noteq> pp_fd s k" using pp_fd_inj[OF inv j(1) k] by auto
    with j show "((pp_mon s)(pp_fd s k := None)) f = Some v" using pp_mon_iff[OF inv] by auto
  next
    assume a: "((pp_mon s)(pp_fd s k := None)) f = Some v"
    then obtain j where j: "j < pp_pfds_used s" "pp_fd s j = f" "pp_val s j = v" "f \<noteq> pp_fd s k"
      using pp_mon_iff[OF inv] by (auto split: if_splits)
    then have jk: "j \<noteq> k" by auto
    define i where "i = (if j = ?l then k else j)"
    have "i < ?l" "(if i = k then ?l else i) = j" using j jk k by (auto simp: i_def)
    with ent[of i] n j have "i < pp_pfds_used s'" "pp_fd s' i = f" "pp_val s' i = v" by simp_all
    then show "pp_mon s' f = Some v" using pp_mon_iff[OF inv'] by blast
  qed
qed

lemma pp_move_last_lemma:
  assumes inv: "pp_inv s" and k: "k < pp_pfds_used s"
  shows "\<exists>s1. pp_move_last s k = Some s1 \<and> pp_sizes s1 \<and> pp_pfds_used s1 = pp_pfds_used s \<and>
     pp_fd2client_used s1 = pp_fd2client_used s \<and> pp_pfds_alloc s1 = pp_pfds_alloc s \<and>
     pp_rfds s1 = pp_rfds s \<and> pp_cur_pfdnum s1 = pp_cur_pfdnum s \<and>
     (\<forall>i < pp_pfds_used s. pp_pfds s1 ! i = pp_pfds s ! (if i = k then pp_pfds_used s - 1 else i) \<and>
                            pp_clients s1 ! i = pp_clients s ! (if i = k then pp_pfds_used s - 1 else i)) \<and>
     (\<forall>i < pp_pfds_used s - 1. pp_fd2pfdnum s1 ! nat (pp_fd s1 i) = int i)"
proof -
  let ?l = "pp_pfds_used s - 1"
  have sz: "pp_sizes s" and lk: "\<And>i. i < pp_pfds_used s \<Longrightarrow> pp_linked s i" using inv by (auto simp: pp_inv_def)
  have bnd: "?l < length (pp_pfds s)" "?l < length (pp_clients s)" "k < length (pp_pfds s)" "k < length (pp_clients s)"
    using sz k by (auto simp: pp_sizes_def)
  show ?thesis
  proof (cases "k = ?l")
    case True
    then have "pp_move_last s k = Some s" by (simp add: pp_move_last_def)
    with True sz lk show ?thesis by (auto simp: pp_linked_def)
  next
    case False
    let ?f = "nat (pp_fd s ?l)"
    let ?s1 = "s\<lparr>pp_clients := (pp_clients s)[k := pp_clients s ! ?l], pp_pfds := (pp_pfds s)[k := pp_pfds s ! ?l],
                 pp_fd2pfdnum := (pp_fd2pfdnum s)[?f := int k]\<rparr>"
    have l: "?l < pp_pfds_used s" using k by simp
    have f: "0 \<le> pp_fd s ?l" "?f < length (pp_fd2pfdnum s)"
      using lk[OF l] sz by (auto simp: pp_linked_def pp_sizes_def)
    have mv: "pp_move_last s k = Some ?s1"
      using False bnd f by (simp add: pp_move_last_def Let_def pp_fd_def)
    have "pp_fd2pfdnum ?s1 ! nat (pp_fd ?s1 i) = int i" if i: "i < ?l" for i
    proof (cases "i = k")
      case True
      then show ?thesis using bnd f by (simp add: pp_fd_def)
    next
      case ik: False
      have iu: "i < pp_pfds_used s" "i \<noteq> ?l" using i by simp_all
      have "nat (pp_fd s i) \<noteq> ?f"
      proof
        assume "nat (pp_fd s i) = ?f"
        then have "pp_fd s i = pp_fd s ?l"
          using lk[OF iu(1)] f(1) eq_nat_nat_iff[of "pp_fd s i" "pp_fd s ?l"] by (simp add: pp_linked_def)
        with pp_fd_inj[OF inv iu(1) l] iu(2) show False by simp
      qed
      with ik lk[OF iu(1)] show ?thesis by (simp add: pp_fd_def pp_linked_def)
    qed
    moreover have "pp_sizes ?s1" using sz by (simp add: pp_sizes_def)
    ultimately show ?thesis using mv bnd by (simp add: nth_list_update)
  qed
qed

lemma pp_del_lemma:
  assumes inv: "pp_inv s" and m: "pp_mon s f = Some v"
  shows "\<exists>s'. pp_del s f = Some (OK, s') \<and> pp_inv s' \<and> pp_mon s' = (pp_mon s)(f := None) \<and>
              pp_pfds_used s' = pp_pfds_used s - 1 \<and> pp_rfds s' = pp_rfds s \<and> pp_cur_pfdnum s' = pp_cur_pfdnum s \<and>
              (\<exists>k < pp_pfds_used s. pp_fd s k = f \<and>
                 (\<forall>i < k. pp_pfds s' ! i = pp_pfds s ! i \<and> pp_clients s' ! i = pp_clients s ! i))"
proof -
  let ?l = "pp_pfds_used s - 1"
  obtain k where k: "k < pp_pfds_used s" "pp_fd s k = f" "pp_linked s k" "rdi (pp_fd2pfdnum s) f = Some (int k)"
    using pp_lookup[OF inv m] by metis
  have f: "0 \<le> f" "f < int (pp_fd2client_used s)" using k by (auto simp: pp_linked_def)
  obtain s1 where s1: "pp_move_last s k = Some s1" "pp_sizes s1" "pp_pfds_used s1 = pp_pfds_used s"
    "pp_fd2client_used s1 = pp_fd2client_used s" "pp_pfds_alloc s1 = pp_pfds_alloc s"
    "pp_rfds s1 = pp_rfds s" "pp_cur_pfdnum s1 = pp_cur_pfdnum s"
    and ent: "\<And>i. i < pp_pfds_used s \<Longrightarrow> pp_pfds s1 ! i = pp_pfds s ! (if i = k then ?l else i) \<and>
                pp_clients s1 ! i = pp_clients s ! (if i = k then ?l else i)"
    and tab: "\<And>i. i < ?l \<Longrightarrow> pp_fd2pfdnum s1 ! nat (pp_fd s1 i) = int i"
    using pp_move_last_lemma[OF inv k(1)] by blast
  let ?p = "(pp_pfds s1 ! ?l)\<lparr>pfd_fd := -1\<rparr>" and ?t = "(pp_fd2pfdnum s1)[nat f := -1]"
  have len: "?l < length (pp_pfds s1)" "?l < length (pp_clients s1)" "nat f < length (pp_fd2pfdnum s1)"
    using s1 k(1) f by (auto simp: pp_sizes_def)
  have "pp_fd2client_used s \<le> length ?t" using s1(2,4) by (auto simp: pp_sizes_def)
  from trim_used_lemma[OF this] obtain u where u: "trim_used ?t (pp_fd2client_used s) = Some u"
    "u \<le> pp_fd2client_used s" "\<And>j. u \<le> j \<Longrightarrow> j < pp_fd2client_used s \<Longrightarrow> ?t ! j = -1" by auto
  let ?s' = "s1\<lparr>pp_clients := (pp_clients s1)[?l := None], pp_pfds := (pp_pfds s1)[?l := ?p], pp_fd2pfdnum := ?t,
                pp_fd2client_used := u, pp_pfds_used := ?l\<rparr>"
  have del: "pp_del s f = Some (OK, ?s')"
    using f k(1,4) s1(1) len u(1) by (simp add: pp_del_def Let_def)
  have fd: "pp_fd ?s' i = pp_fd s (if i = k then ?l else i) \<and> pp_val ?s' i = pp_val s (if i = k then ?l else i) \<and>
      pp_clients ?s' ! i = pp_clients s ! (if i = k then ?l else i)" if "i < ?l" for i
    using ent[of i] that by (auto simp: pp_fd_def pp_val_def)
  have "pp_linked ?s' i" if i: "i < ?l" for i
  proof -
    define j where "j = (if i = k then ?l else i)"
    have j: "j < pp_pfds_used s" "j \<noteq> k" using i by (auto simp: j_def)
    have e: "pp_fd ?s' i = pp_fd s j" "pp_clients ?s' ! i = pp_clients s ! j" "pp_fd s1 i = pp_fd s j"
      using fd[OF i] ent[of i] i by (auto simp: j_def pp_fd_def)
    note lj = pp_linkedD[OF inv j(1)]
    have "pp_fd s j \<noteq> f" using pp_fd_inj[OF inv j(1) k(1)] j(2) k(2) by auto
    then have nf: "nat (pp_fd s j) \<noteq> nat f"
      using lj f(1) eq_nat_nat_iff[of "pp_fd s j" f] by (simp add: pp_linked_def)
    then have t: "?t ! nat (pp_fd s j) = int i" using tab[OF i] e(3) by simp
    have "nat (pp_fd s j) < u"
    proof (rule ccontr)
      assume "\<not> nat (pp_fd s j) < u"
      moreover have "nat (pp_fd s j) < pp_fd2client_used s" using lj by (simp add: pp_linked_def nat_less_iff)
      ultimately show False using u(3)[of "nat (pp_fd s j)"] t by simp
    qed
    with lj e t show ?thesis by (simp add: pp_linked_def)
  qed
  then have inv': "pp_inv ?s'" using s1 len u(2) k(1) by (auto simp: pp_inv_def pp_sizes_def)
  have "pp_mon ?s' = (pp_mon s)(pp_fd s k := None)"
    using fd by (intro pp_mon_swap[OF inv inv' k(1)]) auto
  moreover have "pp_pfds ?s' ! i = pp_pfds s ! i \<and> pp_clients ?s' ! i = pp_clients s ! i" if "i < k" for i
    using that k(1) ent[of i] by simp
  ultimately show ?thesis using del inv' k(1,2) s1(6,7) by auto
qed

subsection \<open>Insertion\<close>

definition never_fails :: "'a reallocf \<Rightarrow> bool" where
  "never_fails ra = (realloc_ok ra \<and> (\<forall>n xs. ra n xs \<noteq> None))"

lemma never_failsD:
  assumes "never_fails ra" "length xs \<le> n"
  obtains ys where "ra n xs = Some ys" "length ys = n" "\<And>i. i < length xs \<Longrightarrow> ys ! i = xs ! i"
  using assms realloc_okD[of ra n xs] unfolding never_fails_def by (metis option.exhaust)

text \<open>What the resizing keeps: everything but the sizes.\<close>

definition pp_same :: "'c poller_poll \<Rightarrow> 'c poller_poll \<Rightarrow> bool" where
  "pp_same s s' = (pp_pfds_used s' = pp_pfds_used s \<and> (\<forall>i < pp_pfds_used s. pp_fd s' i = pp_fd s i \<and> pp_val s' i = pp_val s i))"

lemma pp_same_mon:
  assumes "pp_same s s'"
  shows "pp_mon s' = pp_mon s"
proof -
  have "map (\<lambda>i. (pp_fd s' i, pp_val s' i)) [0..<pp_pfds_used s] = map (\<lambda>i. (pp_fd s i, pp_val s i)) [0..<pp_pfds_used s]"
    using assms by (intro map_cong) (auto simp: pp_same_def)
  moreover have "pp_pfds_used s' = pp_pfds_used s" using assms by (simp add: pp_same_def)
  ultimately show ?thesis unfolding pp_mon_def by (simp only:)
qed

lemma pp_same_trans: "pp_same s s' \<Longrightarrow> pp_same s' s'' \<Longrightarrow> pp_same s s''"
  by (simp add: pp_same_def)

lemma pp_grow_fds_lemma:
  assumes inv: "pp_inv s" and ra: "never_fails raf" and f: "0 \<le> f" "f < int FDLIMIT"
  shows "\<exists>s'. pp_grow_fds raf s f = Some (OK, s') \<and> pp_inv s' \<and> pp_same s s' \<and> f < int (pp_fd2client_alloc s')"
proof (cases "f \<ge> int (pp_fd2client_alloc s)")
  case False
  with inv show ?thesis by (simp add: pp_grow_fds_def pp_same_def)
next
  case True
  let ?a = "pp_fd2client_alloc s"
  define n where "n = nat (max (int ?a * 2) (f + 1))"
  have n: "?a \<le> n" "n \<le> 2 * FDLIMIT" "f < int n" using True f by (auto simp: n_def)
  then have small: "n < 2 ^ 31" by (simp add: FDLIMIT_def)
  have sz: "pp_sizes s" using inv by (simp add: pp_inv_def)
  then have le: "length (pp_fd2pfdnum s) \<le> n" using n(1) by (simp add: pp_sizes_def)
  obtain pn where pn: "raf n (pp_fd2pfdnum s) = Some pn" "length pn = n"
    "\<And>i. i < length (pp_fd2pfdnum s) \<Longrightarrow> pn ! i = pp_fd2pfdnum s ! i"
    using never_failsD[OF ra le] by metis
  let ?t = "take ?a pn @ replicate (n - ?a) (-1) @ drop n pn"
  let ?s' = "s\<lparr>pp_fd2pfdnum := ?t, pp_fd2client_alloc := n\<rparr>"
  have g: "pp_grow_fds raf s f = Some (OK, ?s')"
    using True pn small by (simp add: pp_grow_fds_def n_def[symmetric] Let_def)
  have t: "?t ! i = pp_fd2pfdnum s ! i" if "i < ?a" for i
    using that pn sz n(1) by (simp add: nth_append pp_sizes_def)
  have "pp_linked ?s' i" if "i < pp_pfds_used s" for i
    using pp_linkedD[OF inv that] sz t[of "nat (pp_fd s i)"]
    by (auto simp: pp_linked_def pp_fd_def pp_sizes_def)
  then have "pp_inv ?s'" using sz n pn by (auto simp: pp_inv_def pp_sizes_def)
  with g n show ?thesis by (auto simp: pp_same_def pp_fd_def pp_val_def)
qed

lemma pp_grow_pfds_lemma:
  assumes inv: "pp_inv s" and ra: "never_fails rac" "never_fails rap"
  shows "\<exists>s'. pp_grow_pfds rac rap s = Some (OK, s') \<and> pp_inv s' \<and> pp_same s s' \<and>
              pp_fd2client_alloc s' = pp_fd2client_alloc s \<and> pp_pfds_used s' < pp_pfds_alloc s'"
proof (cases "pp_pfds_used s = pp_pfds_alloc s")
  case False
  with inv show ?thesis by (auto simp: pp_grow_pfds_def pp_same_def pp_inv_def pp_sizes_def)
next
  case True
  let ?n = "pp_pfds_alloc s * 2"
  have sz: "pp_sizes s" using inv by (simp add: pp_inv_def)
  have le: "?n \<le> 2 * FDLIMIT" using pp_used_le[OF inv] True by simp
  then have small: "?n < 2 ^ 31" by (simp add: FDLIMIT_def)
  have l: "length (pp_clients s) \<le> ?n" "length (pp_pfds s) \<le> ?n" using sz by (auto simp: pp_sizes_def)
  obtain cs where cs: "rac ?n (pp_clients s) = Some cs" "length cs = ?n"
    "\<And>i. i < length (pp_clients s) \<Longrightarrow> cs ! i = pp_clients s ! i" using never_failsD[OF ra(1) l(1)] by metis
  obtain ps where ps: "rap ?n (pp_pfds s) = Some ps" "length ps = ?n"
    "\<And>i. i < length (pp_pfds s) \<Longrightarrow> ps ! i = pp_pfds s ! i" using never_failsD[OF ra(2) l(2)] by metis
  let ?s' = "s\<lparr>pp_clients := cs, pp_pfds := ps, pp_pfds_alloc := ?n\<rparr>"
  have g: "pp_grow_pfds rac rap s = Some (OK, ?s')"
    using True cs(1) ps(1) small by (simp add: pp_grow_pfds_def Let_def)
  have same: "ps ! i = pp_pfds s ! i" "cs ! i = pp_clients s ! i" if "i < pp_pfds_used s" for i
    using that ps(3) cs(3) sz by (auto simp: pp_sizes_def)
  have "pp_linked ?s' i" if "i < pp_pfds_used s" for i
    using pp_linkedD[OF inv that] same[OF that] by (simp add: pp_linked_def pp_fd_def)
  then have "pp_inv ?s'" using sz cs(2) ps(2) le by (auto simp: pp_inv_def pp_sizes_def)
  moreover have "pp_same s ?s'" using same by (simp add: pp_same_def pp_fd_def pp_val_def)
  moreover have "pp_pfds_used s < ?n" using True sz by (auto simp: pp_sizes_def)
  ultimately show ?thesis using g by auto
qed

lemma pp_store_lemma:
  assumes inv: "pp_inv s" and f: "0 \<le> f" "f < int FDLIMIT" "f < int (pp_fd2client_alloc s)"
    and free: "pp_mon s f = None" and lt: "pp_pfds_used s < pp_pfds_alloc s"
  shows "\<exists>s'. pp_store s f c m = Some s' \<and> pp_inv s' \<and> pp_mon s' = (pp_mon s)(f \<mapsto> (c, m))"
proof -
  let ?k = "pp_pfds_used s"
  let ?p = "(pp_pfds s ! ?k)\<lparr>pfd_fd := f, pfd_events := m\<rparr>"
  let ?u = "if f \<ge> int (pp_fd2client_used s) then nat (f + 1) else pp_fd2client_used s"
  let ?s' = "s\<lparr>pp_clients := (pp_clients s)[?k := Some c], pp_pfds := (pp_pfds s)[?k := ?p],
     pp_fd2pfdnum := (pp_fd2pfdnum s)[nat f := int ?k], pp_fd2client_used := ?u, pp_pfds_used := ?k + 1\<rparr>"
  have sz: "pp_sizes s" using inv by (simp add: pp_inv_def)
  have len: "?k < length (pp_clients s)" "?k < length (pp_pfds s)" "nat f < length (pp_fd2pfdnum s)"
    using sz lt f by (auto simp: pp_sizes_def)
  have st: "pp_store s f c m = Some ?s'" using len f by (simp add: pp_store_def Let_def)
  have old: "pp_fd ?s' i = pp_fd s i \<and> pp_val ?s' i = pp_val s i" if "i < ?k" for i
    using that by (simp add: pp_fd_def pp_val_def)
  have new: "pp_fd ?s' ?k = f" "pp_val ?s' ?k = (c, m)" using len by (simp_all add: pp_fd_def pp_val_def)
  have other: "pp_fd s i \<noteq> f" if "i < ?k" for i using pp_mon_None[OF inv] free that by blast
  have "pp_linked ?s' i" if i: "i < ?k + 1" for i
  proof (cases "i = ?k")
    case True
    then show ?thesis using new(1) len f by (auto simp: pp_linked_def)
  next
    case False
    then have ik: "i < ?k" using i by simp
    have "nat (pp_fd s i) \<noteq> nat f"
      using pp_linkedD[OF inv ik] other[OF ik] f eq_nat_nat_iff[of "pp_fd s i" f] by (simp add: pp_linked_def)
    with pp_linkedD[OF inv ik] old[OF ik] ik show ?thesis by (auto simp: pp_linked_def)
  qed
  then have inv': "pp_inv ?s'" using sz lt f by (auto simp: pp_inv_def pp_sizes_def)
  have "pp_mon ?s' = (pp_mon s)(f \<mapsto> (c, m))"
  proof (rule map_eqI)
    fix g v
    have "(\<exists>i < ?k + 1. pp_fd ?s' i = g \<and> pp_val ?s' i = v) \<longleftrightarrow>
        (if g = f then v = (c, m) else \<exists>i < ?k. pp_fd s i = g \<and> pp_val s i = v)"
      using old new other by (auto simp: less_Suc_eq)
    then show "pp_mon ?s' g = Some v \<longleftrightarrow> ((pp_mon s)(f \<mapsto> (c, m))) g = Some v"
      using pp_mon_iff[OF inv'] pp_mon_iff[OF inv] by auto
  qed
  with st inv' show ?thesis by blast
qed

lemma pp_add_lemma:
  assumes inv: "pp_inv s" and ra: "never_fails raf" "never_fails rac" "never_fails rap"
    and f: "0 \<le> f" "f < int FDLIMIT" and free: "pp_mon s f = None"
  shows "\<exists>s'. pp_add raf rac rap s f c m = Some (OK, s') \<and> pp_inv s' \<and> pp_mon s' = (pp_mon s)(f \<mapsto> (c, m))"
proof -
  obtain s1 where s1: "pp_grow_fds raf s f = Some (OK, s1)" "pp_inv s1" "pp_same s s1" "f < int (pp_fd2client_alloc s1)"
    using pp_grow_fds_lemma[OF inv ra(1) f] by blast
  obtain s2 where s2: "pp_grow_pfds rac rap s1 = Some (OK, s2)" "pp_inv s2" "pp_same s1 s2"
    "pp_fd2client_alloc s2 = pp_fd2client_alloc s1" "pp_pfds_used s2 < pp_pfds_alloc s2"
    using pp_grow_pfds_lemma[OF s1(2) ra(2,3)] by blast
  have mon: "pp_mon s2 = pp_mon s" using pp_same_mon[OF pp_same_trans[OF s1(3) s2(3)]] .
  obtain s3 where "pp_store s2 f c m = Some s3" "pp_inv s3" "pp_mon s3 = (pp_mon s2)(f \<mapsto> (c, m))"
    using pp_store_lemma[OF s2(2) f, of c m] s1(4) s2(4,5) free mon by auto
  with s1(1) s2(1) mon show ?thesis by (simp add: pp_add_def)
qed

subsection \<open>The back end provides the monitor interface\<close>

abbreviation "okfd_poll \<equiv> (\<lambda>f::int. 0 \<le> f \<and> f < int FDLIMIT)"

interpretation pp: monitor "pp_add raf rac rap" pp_del pp_setMask pp_orMask pp_andMask pp_mon
  "\<lambda>s. never_fails raf \<and> never_fails rac \<and> never_fails rap \<and> pp_inv s" okfd_poll "\<lambda>m. m" "(OR)" "(AND)"
  for raf :: "int reallocf" and rac :: "'c option reallocf" and rap :: "pollfd reallocf"
proof unfold_locales
  fix s :: "'c poller_poll" and f c and m :: mask
  assume "never_fails raf \<and> never_fails rac \<and> never_fails rap \<and> pp_inv s" "okfd_poll f" "pp_mon s f = None"
  then show "\<exists>s'. pp_add raf rac rap s f c m = Some (OK, s') \<and>
      (never_fails raf \<and> never_fails rac \<and> never_fails rap \<and> pp_inv s') \<and> pp_mon s' = (pp_mon s)(f \<mapsto> (c, m))"
    using pp_add_lemma[of s raf rac rap f c m] by simp
next
  fix s :: "'c poller_poll" and f c and k :: mask
  assume "never_fails raf \<and> never_fails rac \<and> never_fails rap \<and> pp_inv s" "pp_mon s f = Some (c, k)"
  then show "\<exists>s'. pp_del s f = Some (OK, s') \<and>
      (never_fails raf \<and> never_fails rac \<and> never_fails rap \<and> pp_inv s') \<and> pp_mon s' = (pp_mon s)(f := None)"
    using pp_del_lemma[of s f "(c, k)"] by auto
qed (use pp_masks in auto)

subsection \<open>Events\<close>

text \<open>The events still to come: the entries below \<open>m_cur_pfdnum\<close> that are ready, from the top.\<close>

definition pp_event :: "'c poller_poll \<Rightarrow> nat \<Rightarrow> 'c poll_event" where
  "pp_event s i = \<lparr>ev_fd = pp_fd s i, ev_revents = pfd_revents (pp_pfds s ! i), ev_client = pp_clients s ! i\<rparr>"

definition hot :: "pollfd list \<Rightarrow> nat \<Rightarrow> nat list" where
  "hot ps n = filter (\<lambda>i. pfd_revents (ps ! i) \<noteq> 0) [0..<n]"

definition pp_ready :: "'c poller_poll \<Rightarrow> 'c poll_event list" where
  "pp_ready s = map (pp_event s) (rev (hot (pp_pfds s) (nat (pp_cur_pfdnum s))))"

definition pp_ev_inv :: "'c poller_poll \<Rightarrow> bool" where
  "pp_ev_inv s = (pp_inv s \<and> 0 \<le> pp_cur_pfdnum s \<and> pp_cur_pfdnum s \<le> int (pp_pfds_used s) \<and>
                  pp_rfds s = int (length (pp_ready s)))"

lemma hot_Suc: "hot ps (Suc n) = hot ps n @ (if pfd_revents (ps ! n) \<noteq> 0 then [n] else [])"
  by (simp add: hot_def)

lemma scan_down_lemma:
  "n \<le> length ps \<Longrightarrow> scan_down ps (int n) = Some (if hot ps n = [] then -1 else int (last (hot ps n)))"
proof (induction n)
  case 0
  then show ?case by (simp add: scan_down.simps[of ps] hot_def)
next
  case (Suc n)
  then have "rdi ps (int n) = Some (ps ! n)" by simp
  with Suc show ?case by (subst scan_down.simps) (simp add: hot_Suc)
qed

lemma hot_last: "hot ps n \<noteq> [] \<Longrightarrow> hot ps (last (hot ps n)) = butlast (hot ps n) \<and> last (hot ps n) < n \<and>
    pfd_revents (ps ! last (hot ps n)) \<noteq> 0"
  by (induction n) (auto simp: hot_Suc, simp add: hot_def)

lemma pp_ready_ConsD:
  assumes inv: "pp_ev_inv s" and r: "pp_ready s = e # es"
  shows "\<exists>k. k < pp_pfds_used s \<and> e = pp_event s k \<and>
     es = map (pp_event s) (rev (hot (pp_pfds s) k)) \<and>
     pp_getNextEvent s = Some (OK, Some e, s\<lparr>pp_cur_pfdnum := int k, pp_rfds := pp_rfds s - 1\<rparr>) \<and> int k < pp_cur_pfdnum s"
proof -
  define h where "h = hot (pp_pfds s) (nat (pp_cur_pfdnum s))"
  define k where "k = last h"
  have pi: "pp_inv s" and cur: "0 \<le> pp_cur_pfdnum s" "pp_cur_pfdnum s \<le> int (pp_pfds_used s)"
    and rf: "pp_rfds s = int (length (pp_ready s))" using inv by (auto simp: pp_ev_inv_def)
  have h: "h \<noteq> []" "map (pp_event s) (rev h) = e # es" using r by (auto simp: pp_ready_def h_def)
  then have hs: "h = butlast h @ [k]" by (simp add: k_def)
  then have "rev h = k # rev (butlast h)" by (metis rev.simps(2) rev_rev_ident rev_append rev_singleton_conv append_Cons append_Nil)
  then have e: "e = pp_event s k" "es = map (pp_event s) (rev (butlast h))" using h(2) by auto
  have kl: "hot (pp_pfds s) k = butlast h" "k < nat (pp_cur_pfdnum s)" "pfd_revents (pp_pfds s ! k) \<noteq> 0"
    using hot_last[of "pp_pfds s" "nat (pp_cur_pfdnum s)"] h(1) by (auto simp: h_def k_def)
  have ku: "k < pp_pfds_used s" using kl(2) cur by linarith
  have sz: "pp_pfds_used s \<le> length (pp_pfds s)" "pp_pfds_used s \<le> length (pp_clients s)" "0 < pp_rfds s"
    using pi rf r by (auto simp: pp_inv_def pp_sizes_def)
  have "scan_down (pp_pfds s) (pp_cur_pfdnum s) = Some (int k)"
    using scan_down_lemma[of "nat (pp_cur_pfdnum s)" "pp_pfds s"] cur sz(1) h(1) by (simp add: h_def k_def)
  moreover note lk = pp_linkedD[OF pi ku]
  have "rdi (pp_fd2pfdnum s) (pp_fd s k) = Some (int k)"
    using lk pi by (auto simp: pp_linked_def pp_inv_def pp_sizes_def)
  ultimately have "pp_getNextEvent s = Some (OK, Some e, s\<lparr>pp_cur_pfdnum := int k, pp_rfds := pp_rfds s - 1\<rparr>)"
    using lk cur sz ku by (simp add: pp_getNextEvent_def pp_fd_def pp_linked_def pp_event_def e(1))
  moreover have "int k < pp_cur_pfdnum s" using kl(2) by linarith
  ultimately show ?thesis using ku e kl(1) by auto
qed

lemma pp_ev_step:
  assumes inv: "pp_ev_inv s" and r: "pp_ready s = e # es"
    and k: "k < pp_pfds_used s" "es = map (pp_event s) (rev (hot (pp_pfds s) k))"
  shows "pp_ev_inv (s\<lparr>pp_cur_pfdnum := int k, pp_rfds := pp_rfds s - 1\<rparr>) \<and>
     pp_ready (s\<lparr>pp_cur_pfdnum := int k, pp_rfds := pp_rfds s - 1\<rparr>) = es \<and>
     pp_mon (s\<lparr>pp_cur_pfdnum := int k, pp_rfds := pp_rfds s - 1\<rparr>) = pp_mon s"
proof -
  let ?s' = "s\<lparr>pp_cur_pfdnum := int k, pp_rfds := pp_rfds s - 1\<rparr>"
  have rd: "pp_ready ?s' = es" unfolding k(2) by (simp add: pp_ready_def pp_event_def pp_fd_def)
  have "pp_inv ?s'" using inv by (simp add: pp_ev_inv_def pp_inv_def pp_sizes_def pp_linked_def pp_fd_def)
  then have "pp_ev_inv ?s'" using rd inv r k(1) by (simp add: pp_ev_inv_def)
  moreover have "pp_mon ?s' = pp_mon s" by (simp add: pp_mon_def pp_fd_def pp_val_def)
  ultimately show ?thesis using rd by simp
qed

interpretation ppe: event_queue pp_getNextEvent pp_ready pp_ev_inv
proof unfold_locales
  fix s :: "'c poller_poll" and e es
  assume a: "pp_ev_inv s" "pp_ready s = e # es"
  from pp_ready_ConsD[OF a] pp_ev_step[OF a]
  show "\<exists>s'. pp_getNextEvent s = Some (OK, Some e, s') \<and> pp_ev_inv s' \<and> pp_ready s' = es" by blast
next
  fix s :: "'c poller_poll"
  assume "pp_ev_inv s" "pp_ready s = []"
  then show "\<exists>s'. pp_getNextEvent s = Some (Fail EWOULDBLOCK, None, s') \<and> pp_ev_inv s' \<and> pp_ready s' = []"
    by (simp add: pp_getNextEvent_def pp_ev_inv_def)
qed

text \<open>Deleting the descriptor whose event was just returned leaves the entries below the cursor alone.\<close>

lemma pp_del_current:
  assumes inv: "pp_ev_inv s" and r: "pp_ready s = e # es" and n: "pp_getNextEvent s = Some (OK, Some e, s1)"
  shows "\<exists>s2. pp_del s1 (ev_fd e) = Some (OK, s2) \<and> pp_ev_inv s2 \<and> pp_ready s2 = es \<and>
              pp_mon s2 = (pp_mon s1)(ev_fd e := None)"
proof -
  obtain k where k: "k < pp_pfds_used s" "e = pp_event s k" "es = map (pp_event s) (rev (hot (pp_pfds s) k))"
    and s1: "s1 = s\<lparr>pp_cur_pfdnum := int k, pp_rfds := pp_rfds s - 1\<rparr>"
    using pp_ready_ConsD[OF inv r] n by auto
  have e1: "pp_ev_inv s1" "pp_ready s1 = es" using pp_ev_step[OF inv r k(1,3)] s1 by auto
  have i1: "pp_inv s1" and rf: "pp_rfds s1 = int (length es)" and u: "pp_pfds_used s1 = pp_pfds_used s"
    and fdk: "pp_fd s1 k = ev_fd e" and cu: "pp_cur_pfdnum s1 = int k"
    using e1 by (auto simp: pp_ev_inv_def s1 pp_fd_def k(2) pp_event_def)
  then obtain v where v: "pp_mon s1 (ev_fd e) = Some v" using pp_mon_iff[OF i1] k(1) by metis
  obtain s2 where s2: "pp_del s1 (ev_fd e) = Some (OK, s2)" "pp_inv s2" "pp_mon s2 = (pp_mon s1)(ev_fd e := None)"
    "pp_pfds_used s2 = pp_pfds_used s1 - 1" "pp_rfds s2 = pp_rfds s1" "pp_cur_pfdnum s2 = pp_cur_pfdnum s1"
    and j: "\<exists>j < pp_pfds_used s1. pp_fd s1 j = ev_fd e \<and>
       (\<forall>i < j. pp_pfds s2 ! i = pp_pfds s1 ! i \<and> pp_clients s2 ! i = pp_clients s1 ! i)"
    using pp_del_lemma[OF i1 v] by (elim exE conjE) (rule that, assumption+, blast)
  from j obtain j where j: "j < pp_pfds_used s1" "pp_fd s1 j = ev_fd e"
    "\<And>i. i < j \<Longrightarrow> pp_pfds s2 ! i = pp_pfds s1 ! i \<and> pp_clients s2 ! i = pp_clients s1 ! i" by blast
  have jk: "j = k" using pp_fd_inj[OF i1 j(1), of k] k(1) u j(2) fdk by simp
  have hot: "hot (pp_pfds s2) k = hot (pp_pfds s) k"
    unfolding hot_def by (rule filter_cong) (use j(3) jk s1 in auto)
  have "pp_event s2 i = pp_event s i" if "i \<in> set (rev (hot (pp_pfds s) k))" for i
    using that j(3)[of i] jk s1 by (simp add: hot_def pp_event_def pp_fd_def)
  then have "map (pp_event s2) (rev (hot (pp_pfds s) k)) = es" unfolding k(3) by (rule map_cong[OF refl])
  then have rd: "pp_ready s2 = es" by (simp add: pp_ready_def s2(6) cu hot)
  then have "pp_ev_inv s2" using s2 rf u k(1) cu by (simp add: pp_ev_inv_def)
  with s2 rd show ?thesis by blast
qed

interpretation ppd: dispatcher pp_getNextEvent pp_ready pp_ev_inv pp_del pp_mon ev_fd "\<lambda>h. pp_dispatch (on_world h)"
proof unfold_locales
  fix s s1 :: "'c poller_poll" and r and ev
  assume i: "pp_ev_inv s" and n: "pp_getNextEvent s = Some (r, ev, s1)"
  show "pp_mon s1 = pp_mon s"
  proof (cases "pp_ready s")
    case Nil
    with i n show ?thesis by (simp add: pp_getNextEvent_def pp_ev_inv_def)
  next
    case (Cons e es)
    from pp_ready_ConsD[OF i Cons] pp_ev_step[OF i Cons] n show ?thesis by auto
  qed
next
  fix s s1 :: "'c poller_poll" and e es
  assume "pp_ev_inv s" "pp_ready s = e # es" "pp_getNextEvent s = Some (OK, Some e, s1)"
  then show "\<exists>s2. pp_del s1 (ev_fd e) = Some (OK, s2) \<and> pp_ev_inv s2 \<and> pp_ready s2 = es \<and>
              pp_mon s2 = (pp_mon s1)(ev_fd e := None)" by (rule pp_del_current)
next
  fix s s1 :: "'c poller_poll" and e es and h :: "'c poll_event \<Rightarrow> 'x \<Rightarrow> int \<times> 'x" and x
  assume i: "pp_ev_inv s" and r: "pp_ready s = e # es" and n: "pp_getNextEvent s = Some (OK, Some e, s1)"
  obtain k where k: "k < pp_pfds_used s" "e = pp_event s k" using pp_ready_ConsD[OF i r] by blast
  have "pp_linked s k" using i k(1) by (simp add: pp_ev_inv_def pp_linkedD)
  then obtain c where c: "ev_client e = Some c" using k(2) by (auto simp: pp_linked_def pp_event_def)
  have "pp_rfds s > 0" using i r by (simp add: pp_ev_inv_def)
  with n c show "pp_dispatch (on_world h) (s, x) = (case h e x of (err, x1) \<Rightarrow>
        if err \<noteq> 0 then do { (q, s2) \<leftarrow> pp_del s1 (ev_fd e); pp_dispatch (on_world h) (s2, x1) }
        else pp_dispatch (on_world h) (s1, x1))"
    by (subst pp_dispatch.simps) (simp add: on_world_def split: prod.splits)
next
  fix s :: "'c poller_poll" and h :: "'c poll_event \<Rightarrow> 'x \<Rightarrow> int \<times> 'x" and x
  assume "pp_ev_inv s" "pp_ready s = []"
  then show "\<exists>s'. pp_dispatch (on_world h) (s, x) = Some (s', x) \<and> pp_ev_inv s' \<and> pp_mon s' = pp_mon s"
    by (subst pp_dispatch.simps) (simp add: pp_ev_inv_def)
qed

definition pp_reported :: "'c poller_poll \<Rightarrow> mask list \<Rightarrow> 'c poll_event list" where
  "pp_reported s rs = map (\<lambda>i. \<lparr>ev_fd = pp_fd s i, ev_revents = rs ! i, ev_client = pp_clients s ! i\<rparr>)
                          (rev (filter (\<lambda>i. rs ! i \<noteq> 0) [0..<pp_pfds_used s]))"

lemma pp_wait_lemma:
  assumes inv: "pp_inv s" and os: "poll (map (\<lambda>p. (pfd_fd p, pfd_events p)) (take (pp_pfds_used s) (pp_pfds s))) timeout x = (Inr rs, x')"
    and len: "length rs = pp_pfds_used s"
  shows "\<exists>s'. pp_waitForEvents poll timeout s x =
           Some (if \<forall>r \<in> set rs. r = 0 then Fail EWOULDBLOCK else OK, s', x') \<and> pp_ev_inv s' \<and> pp_mon s' = pp_mon s \<and>
         pp_ready s' = pp_reported s rs"
proof -
  let ?n = "length (filter (\<lambda>r. r \<noteq> 0) rs)" and ?u = "pp_pfds_used s"
  let ?s' = "s\<lparr>pp_pfds := with_revents (pp_pfds s) rs, pp_rfds := int ?n, pp_cur_pfdnum := int ?u\<rparr>"
  have sz: "pp_sizes s" using inv by (simp add: pp_inv_def)
  have le: "?u \<le> length (pp_pfds s)" using sz by (simp add: pp_sizes_def)
  have wl: "length (with_revents (pp_pfds s) rs) = length (pp_pfds s)" using le len by (simp add: with_revents_def)
  have wn: "with_revents (pp_pfds s) rs ! i = (pp_pfds s ! i)\<lparr>pfd_revents := rs ! i\<rparr>" if "i < ?u" for i
    using that le len by (simp add: with_revents_def nth_append)
  have ent: "pp_fd ?s' i = pp_fd s i" "pp_val ?s' i = pp_val s i" if "i < ?u" for i
    using wn[OF that] by (simp_all add: pp_fd_def pp_val_def)
  have inv': "pp_inv ?s'" using inv sz wl ent by (simp add: pp_inv_def pp_sizes_def pp_linked_def)
  have mon: "pp_mon ?s' = pp_mon s" by (rule pp_same_mon) (simp add: pp_same_def ent)
  have hot: "hot (with_revents (pp_pfds s) rs) ?u = filter (\<lambda>i. rs ! i \<noteq> 0) [0..<?u]"
    unfolding hot_def by (rule filter_cong) (use wn in auto)
  have rd: "pp_ready ?s' = pp_reported s rs"
    unfolding pp_ready_def pp_reported_def using hot ent wn by (auto simp: pp_event_def)
  have "filter (\<lambda>r. r \<noteq> 0) (map ((!) rs) [0..<length rs]) = map ((!) rs) (filter (\<lambda>i. rs ! i \<noteq> 0) [0..<length rs])"
    by (simp only: filter_map comp_def)
  from arg_cong[OF this, of length] have "length (filter (\<lambda>i. rs ! i \<noteq> 0) [0..<length rs]) = ?n"
    by (simp only: map_nth length_map)
  then have "length (filter (\<lambda>i. rs ! i \<noteq> 0) [0..<?u]) = ?n" unfolding len .
  then have "pp_ev_inv ?s'" using inv' rd by (simp add: pp_ev_inv_def pp_reported_def)
  moreover have "(?n \<noteq> 0) = (\<not> (\<forall>r \<in> set rs. r = 0))" by (auto simp: filter_empty_conv)
  then have "pp_waitForEvents poll timeout s x =
      Some (if \<forall>r \<in> set rs. r = 0 then Fail EWOULDBLOCK else OK, ?s', x')"
    using os le len by (simp add: pp_waitForEvents_def Let_def)
  ultimately show ?thesis using mon rd by blast
qed

subsection \<open>Handlers that call the poller\<close>

text \<open>What an operation leaves alone while events are being delivered: the entries below the cursor.\<close>

definition pp_frame :: "'c poller_poll \<Rightarrow> 'c poller_poll \<Rightarrow> bool" where
  "pp_frame s s' = (pp_rfds s' = pp_rfds s \<and> pp_cur_pfdnum s' = pp_cur_pfdnum s \<and> pp_cur_pfdnum s \<le> int (pp_pfds_used s') \<and>
     (\<forall>i < nat (pp_cur_pfdnum s). pp_event s' i = pp_event s i))"

lemma pp_frame_ready: "pp_frame s s' \<Longrightarrow> pp_ready s' = pp_ready s"
proof -
  assume f: "pp_frame s s'"
  let ?n = "nat (pp_cur_pfdnum s)"
  have e: "pp_event s' i = pp_event s i" if "i < ?n" for i using f that by (simp add: pp_frame_def)
  then have "pfd_revents (pp_pfds s' ! i) = pfd_revents (pp_pfds s ! i)" if "i < ?n" for i
    using that by (metis pp_event_def poll_event.select_convs(2))
  then have h: "hot (pp_pfds s') ?n = hot (pp_pfds s) ?n" unfolding hot_def by (intro filter_cong) auto
  have "map (pp_event s') (rev (hot (pp_pfds s) ?n)) = map (pp_event s) (rev (hot (pp_pfds s) ?n))"
    by (rule map_cong) (use e in \<open>auto simp: hot_def\<close>)
  then show ?thesis using f h by (simp add: pp_ready_def pp_frame_def)
qed

lemma pp_frame_inv: "pp_ev_inv s \<Longrightarrow> pp_frame s s' \<Longrightarrow> pp_inv s' \<Longrightarrow> pp_ev_inv s'"
  using pp_frame_ready[of s s'] by (simp add: pp_ev_inv_def) (simp add: pp_frame_def)

lemma pp_update_frame: "pp_update s i g = Some (r, s') \<Longrightarrow> pp_cur_pfdnum s \<le> int (pp_pfds_used s) \<Longrightarrow> pp_frame s s' \<and> pp_pfds_used s' = pp_pfds_used s \<and> (\<forall>j. pp_fd s' j = pp_fd s j)"
  by (auto simp: pp_update_def pp_frame_def bind_eq_Some_conv pp_event_def pp_fd_def rdi_def wri_def rd_def wr_def nth_list_update split: if_splits)

lemma pp_mask_frame:
  assumes "pp_cur_pfdnum s \<le> int (pp_pfds_used s)"
  shows "pp_setMask s f e = Some (OK, s') \<Longrightarrow> pp_frame s s' \<and> pp_pfds_used s' = pp_pfds_used s \<and> (\<forall>j. pp_fd s' j = pp_fd s j)"
    "pp_orMask s f e = Some (OK, s') \<Longrightarrow> pp_frame s s' \<and> pp_pfds_used s' = pp_pfds_used s \<and> (\<forall>j. pp_fd s' j = pp_fd s j)"
    "pp_andMask s f e = Some (OK, s') \<Longrightarrow> pp_frame s s' \<and> pp_pfds_used s' = pp_pfds_used s \<and> (\<forall>j. pp_fd s' j = pp_fd s j)"
  using pp_update_frame[OF _ assms] by (auto simp: pp_setMask_def pp_orMask_def pp_andMask_def bind_eq_Some_conv split: if_splits)

lemma pp_add_frame:
  assumes a: "pp_add raf rac rap s f c m = Some (OK, s')" and inv: "pp_inv s" and ra: "never_fails rac" "never_fails rap"
    and cur: "pp_cur_pfdnum s \<le> int (pp_pfds_used s)"
  shows "pp_frame s s' \<and> pp_pfds_used s' = pp_pfds_used s + 1 \<and> (\<forall>j < pp_pfds_used s. pp_fd s' j = pp_fd s j)"
proof -
  obtain s1 s2 where g: "pp_grow_fds raf s f = Some (OK, s1)" "pp_grow_pfds rac rap s1 = Some (OK, s2)" "pp_store s2 f c m = Some s'"
    using a by (auto simp: pp_add_def bind_eq_Some_conv split: if_splits)
  have sz: "pp_sizes s" using inv by (simp add: pp_inv_def)
  have 1: "pp_clients s1 = pp_clients s" "pp_pfds s1 = pp_pfds s" "pp_pfds_used s1 = pp_pfds_used s" "pp_pfds_alloc s1 = pp_pfds_alloc s"
    "pp_rfds s1 = pp_rfds s" "pp_cur_pfdnum s1 = pp_cur_pfdnum s"
    using g(1) by (auto simp: pp_grow_fds_def bind_eq_Some_conv Let_def split: if_splits option.splits)
  have l: "length (pp_clients s1) \<le> pp_pfds_alloc s * 2" "length (pp_pfds s1) \<le> pp_pfds_alloc s * 2" using sz 1 by (auto simp: pp_sizes_def)
  obtain cs where cs: "rac (pp_pfds_alloc s * 2) (pp_clients s1) = Some cs" "\<And>i. i < length (pp_clients s1) \<Longrightarrow> cs ! i = pp_clients s1 ! i"
    using never_failsD[OF ra(1) l(1)] by metis
  obtain ps where ps: "rap (pp_pfds_alloc s * 2) (pp_pfds s1) = Some ps" "\<And>i. i < length (pp_pfds s1) \<Longrightarrow> ps ! i = pp_pfds s1 ! i"
    using never_failsD[OF ra(2) l(2)] by metis
  have "s2 = s1 \<or> s2 = s1\<lparr>pp_clients := cs, pp_pfds := ps, pp_pfds_alloc := pp_pfds_alloc s * 2\<rparr>"
    using g(2) cs(1) ps(1) 1(4) by (auto simp: pp_grow_pfds_def bind_eq_Some_conv Let_def split: if_splits)
  then have 2: "pp_pfds_used s2 = pp_pfds_used s" "pp_rfds s2 = pp_rfds s" "pp_cur_pfdnum s2 = pp_cur_pfdnum s"
    and 3: "\<And>i. i < pp_pfds_used s \<Longrightarrow> pp_clients s2 ! i = pp_clients s ! i \<and> pp_pfds s2 ! i = pp_pfds s ! i"
    using 1 cs(2) ps(2) sz by (auto simp: pp_sizes_def)
  have 4: "pp_pfds_used s' = pp_pfds_used s2 + 1" "pp_rfds s' = pp_rfds s2" "pp_cur_pfdnum s' = pp_cur_pfdnum s2"
    using g(3) by (auto simp: pp_store_def bind_eq_Some_conv Let_def)
  have 5: "pp_clients s' ! i = pp_clients s ! i" "pp_pfds s' ! i = pp_pfds s ! i" if "i < pp_pfds_used s" for i
    using g(3) 2(1) 3[OF that] that by (auto simp: pp_store_def bind_eq_Some_conv rd_def wr_def Let_def split: if_splits)
  show ?thesis using 4 2 5 cur by (auto simp: pp_frame_def pp_event_def pp_fd_def)
qed

text \<open>
  Between two events: nothing of \<open>D\<close> (the descriptors whose event has been delivered and those that
  were added since) stands below the cursor.
\<close>

definition pp_mid :: "int set \<Rightarrow> 'c poller_poll \<Rightarrow> bool" where
  "pp_mid D s = (pp_ev_inv s \<and> (\<forall>i < nat (pp_cur_pfdnum s). pp_fd s i \<notin> D))"

lemma pp_frame_mid:
  assumes "pp_mid D s" "pp_frame s s'" "pp_inv s'"
  shows "pp_mid D s' \<and> pp_ready s' = pp_ready s"
proof -
  have "pp_fd s' i = pp_fd s i" if "i < nat (pp_cur_pfdnum s)" for i
    using assms(2) that by (simp add: pp_frame_def pp_event_def)
  then show ?thesis
    using assms pp_frame_inv[of s s'] pp_frame_ready[of s s'] by (simp add: pp_mid_def) (simp add: pp_frame_def)
qed

lemma pp_del_frame:
  assumes mid: "pp_mid D s" and f: "f \<in> D" and m: "pp_mon s f \<noteq> None"
  shows "\<exists>s'. pp_del s f = Some (OK, s') \<and> pp_inv s' \<and> pp_mon s' = (pp_mon s)(f := None) \<and> pp_frame s s'"
proof -
  have ev: "pp_ev_inv s" and inv: "pp_inv s" using mid by (auto simp: pp_mid_def pp_ev_inv_def)
  obtain v where v: "pp_mon s f = Some v" using m by blast
  obtain s' where s': "pp_del s f = Some (OK, s')" "pp_inv s'" "pp_mon s' = (pp_mon s)(f := None)"
    "pp_pfds_used s' = pp_pfds_used s - 1" "pp_rfds s' = pp_rfds s" "pp_cur_pfdnum s' = pp_cur_pfdnum s"
    and j: "\<exists>k < pp_pfds_used s. pp_fd s k = f \<and> (\<forall>i < k. pp_pfds s' ! i = pp_pfds s ! i \<and> pp_clients s' ! i = pp_clients s ! i)"
    using pp_del_lemma[OF inv v] by (elim exE conjE) (rule that, assumption+, blast)
  from j obtain k where k: "k < pp_pfds_used s" "pp_fd s k = f"
    "\<And>i. i < k \<Longrightarrow> pp_pfds s' ! i = pp_pfds s ! i \<and> pp_clients s' ! i = pp_clients s ! i" by blast
  have "\<not> k < nat (pp_cur_pfdnum s)" using mid f k(2) by (auto simp: pp_mid_def)
  then have "pp_frame s s'" using k s'(4-6) ev by (auto simp: pp_frame_def pp_event_def pp_fd_def pp_ev_inv_def)
  with s' show ?thesis by blast
qed

text \<open>What a handler may do to the poller: every operation but the deletion of a descriptor outside \<open>D\<close>.\<close>

fun watch_added :: "int set \<Rightarrow> (int, 'c, mask) poll_op \<Rightarrow> int set" where
  "watch_added D (PAdd f c m) = insert f D"
| "watch_added D _ = D"

fun dels_within :: "int set \<Rightarrow> (int, 'c, mask) poll_op list \<Rightarrow> bool" where
  "dels_within D [] = True"
| "dels_within D (PDel f # ops) = (f \<in> D \<and> dels_within D ops)"
| "dels_within D (oper # ops) = dels_within (watch_added D oper) ops"

abbreviation "pp_step raf rac rap \<equiv> poll_step (pp_add raf rac rap) pp_del pp_setMask pp_orMask pp_andMask"
abbreviation "pp_map_step \<equiv> poll_spec (\<lambda>m :: mask. m) (OR) (AND)"

lemma pp_step_mid:
  assumes mid: "pp_mid D s" and ra: "never_fails raf" "never_fails rac" "never_fails rap"
    and ok: "poll_allowed okfd_poll (pp_mon s) oper" "dels_within D [oper]"
  shows "\<exists>s'. pp_step raf rac rap s oper = Some (OK, s') \<and> pp_mid (watch_added D oper) s' \<and>
     pp_ready s' = pp_ready s \<and> pp_mon s' = pp_map_step (pp_mon s) oper"
proof -
  have inv: "pp_inv s" and cur: "pp_cur_pfdnum s \<le> int (pp_pfds_used s)" using mid by (auto simp: pp_mid_def pp_ev_inv_def)
  obtain s' where s': "pp_step raf rac rap s oper = Some (OK, s')" "pp_inv s'" "pp_mon s' = pp_map_step (pp_mon s) oper"
    using pp.step_refines[of raf rac rap s oper] inv ra ok(1) by blast
  have fr: "pp_frame s s'"
  proof (cases oper)
    case (PAdd f c m)
    then show ?thesis using pp_add_frame[OF _ inv ra(2,3) cur] s'(1) by auto
  next
    case (PDel f)
    then show ?thesis using pp_del_frame[OF mid, of f] ok s'(1) by auto
  qed (use pp_mask_frame[OF cur] s'(1) in auto)
  have "pp_mid (watch_added D oper) s'"
  proof (cases oper)
    case (PAdd f c m)
    have free: "pp_fd s i \<noteq> f" if "i < pp_pfds_used s" for i using ok(1) PAdd pp_mon_None[OF inv, of f] that by auto
    have "pp_fd s' i \<noteq> f" if "i < nat (pp_cur_pfdnum s')" for i
    proof -
      have "i < nat (pp_cur_pfdnum s)" using that fr by (simp add: pp_frame_def)
      moreover from this have "pp_fd s' i = pp_fd s i" using fr by (simp add: pp_frame_def pp_event_def)
      ultimately show ?thesis using free[of i] cur by simp
    qed
    then show ?thesis using pp_frame_mid[OF mid fr s'(2)] PAdd by (simp add: pp_mid_def)
  qed (use pp_frame_mid[OF mid fr s'(2)] in auto)
  with s' pp_frame_mid[OF mid fr s'(2)] show ?thesis by blast
qed

lemma dels_within_Cons: "dels_within D (oper # ops) \<Longrightarrow> dels_within D [oper] \<and> dels_within (watch_added D oper) ops"
  by (cases oper) auto

lemma pp_run_mid:
  "pp_mid D s \<Longrightarrow> never_fails raf \<Longrightarrow> never_fails rac \<Longrightarrow> never_fails rap \<Longrightarrow>
   poll_all_allowed okfd_poll (\<lambda>m. m) (OR) (AND) (pp_mon s) ops \<Longrightarrow> dels_within D ops \<Longrightarrow>
   \<exists>s'. poll_run (pp_step raf rac rap) s ops = Some s' \<and> pp_mid (foldl watch_added D ops) s' \<and>
     pp_ready s' = pp_ready s \<and> pp_mon s' = foldl pp_map_step (pp_mon s) ops"
proof (induction ops arbitrary: D s)
  case (Cons oper ops)
  note w = dels_within_Cons[OF Cons.prems(6)]
  obtain s1 where s1: "pp_step raf rac rap s oper = Some (OK, s1)" "pp_mid (watch_added D oper) s1"
    "pp_ready s1 = pp_ready s" "pp_mon s1 = pp_map_step (pp_mon s) oper"
    using pp_step_mid[OF Cons.prems(1-4), of oper] Cons.prems(5) w by auto
  with Cons.IH[OF s1(2) Cons.prems(2-4)] Cons.prems(5) w show ?case by simp
qed simp

text \<open>
  A handler as a program: on an event and the world it gives its result, the calls it makes of the
  poller, and the new world.
\<close>

type_synonym ('c, 'x) handler = "'c poll_event \<Rightarrow> 'x \<Rightarrow> int \<times> (int, 'c, mask) poll_op list \<times> 'x"

definition calling ::
  "('p \<Rightarrow> (int, 'c, mask) poll_op \<Rightarrow> (rc \<times> 'p) option) \<Rightarrow> ('c, 'x) handler \<Rightarrow> ('c, 'p \<times> 'x) notify" where
  "calling step h c ev px =
     (case h ev (snd px) of (err, ops, x1) \<Rightarrow> do { p1 \<leftarrow> poll_run step (fst px) ops; Some (err, (p1, x1)) })"

text \<open>The handlers run on the events in order, each once, beside the plain map of what is monitored.\<close>

fun disp_prog :: "('c, 'x) handler \<Rightarrow> 'c poll_event list \<Rightarrow> (int \<Rightarrow> ('c \<times> mask) option) \<Rightarrow> 'x \<Rightarrow>
    (int \<Rightarrow> ('c \<times> mask) option) \<times> 'x" where
  "disp_prog h [] M x = (M, x)"
| "disp_prog h (e # es) M x = (case h e x of (err, ops, x1) \<Rightarrow>
     disp_prog h es ((foldl pp_map_step M ops) |` (if err \<noteq> 0 then - {ev_fd e} else UNIV)) x1)"

text \<open>
  The discipline of these handlers: allowed calls only, deletion only of descriptors whose event has
  been delivered (or that were added meanwhile), and an error only while the own descriptor is monitored.
\<close>

fun disp_polite :: "int set \<Rightarrow> ('c, 'x) handler \<Rightarrow> 'c poll_event list \<Rightarrow> (int \<Rightarrow> ('c \<times> mask) option) \<Rightarrow> 'x \<Rightarrow> bool" where
  "disp_polite D h [] M x = True"
| "disp_polite D h (e # es) M x = (case h e x of (err, ops, x1) \<Rightarrow>
     poll_all_allowed okfd_poll (\<lambda>m. m) (OR) (AND) M ops \<and> dels_within (insert (ev_fd e) D) ops \<and>
     (err \<noteq> 0 \<longrightarrow> foldl pp_map_step M ops (ev_fd e) \<noteq> None) \<and>
     disp_polite (foldl watch_added (insert (ev_fd e) D) ops) h es
       ((foldl pp_map_step M ops) |` (if err \<noteq> 0 then - {ev_fd e} else UNIV)) x1)"

lemma watch_added_mono: "f \<in> D \<Longrightarrow> f \<in> foldl watch_added D ops"
proof (induction ops arbitrary: D)
  case (Cons oper ops)
  then have "f \<in> watch_added D oper" by (cases oper) auto
  with Cons show ?case by simp
qed simp

lemma pp_dispatch_prog:
  "pp_mid D s \<Longrightarrow> never_fails raf \<Longrightarrow> never_fails rac \<Longrightarrow> never_fails rap \<Longrightarrow>
   disp_polite D h (pp_ready s) (pp_mon s) x \<Longrightarrow> disp_prog h (pp_ready s) (pp_mon s) x = (M', x') \<Longrightarrow>
   \<exists>s'. pp_dispatch (calling (pp_step raf rac rap) h) (s, x) = Some (s', x') \<and> pp_inv s' \<and> pp_mon s' = M'"
proof (induction "pp_ready s" arbitrary: D s x)
  case Nil
  then show ?case by (subst pp_dispatch.simps) (simp add: pp_ev_inv_def pp_mid_def)
next
  case (Cons e es)
  note r = Cons.hyps(2)[symmetric]
  have ev: "pp_ev_inv s" using Cons.prems(1) by (simp add: pp_mid_def)
  obtain k where k: "k < pp_pfds_used s" "e = pp_event s k" "es = map (pp_event s) (rev (hot (pp_pfds s) k))"
    and kc: "int k < pp_cur_pfdnum s"
    and n: "pp_getNextEvent s = Some (OK, Some e, s\<lparr>pp_cur_pfdnum := int k, pp_rfds := pp_rfds s - 1\<rparr>)"
    using pp_ready_ConsD[OF ev r] by blast
  define s1 where "s1 = s\<lparr>pp_cur_pfdnum := int k, pp_rfds := pp_rfds s - 1\<rparr>"
  have s1: "pp_ev_inv s1" "pp_ready s1 = es" "pp_mon s1 = pp_mon s" using pp_ev_step[OF ev r k(1,3)] by (auto simp: s1_def)
  have pos: "pp_rfds s > 0" using ev r by (simp add: pp_ev_inv_def)
  have "pp_linked s k" using ev k(1) by (simp add: pp_ev_inv_def pp_linkedD)
  then obtain c where c: "ev_client e = Some c" using k(2) by (auto simp: pp_linked_def pp_event_def)
  have "pp_fd s i \<noteq> ev_fd e" if "i < k" for i
    using pp_fd_inj[of s i k] ev that k by (auto simp: pp_ev_inv_def pp_event_def)
  then have mid1: "pp_mid (insert (ev_fd e) D) s1"
    using Cons.prems(1) s1(1) kc by (auto simp: pp_mid_def pp_fd_def s1_def)
  obtain err ops x1 where h: "h e x = (err, ops, x1)" by (cases "h e x") auto
  define D1 where "D1 = insert (ev_fd e) D"
  define M1 where "M1 = foldl pp_map_step (pp_mon s) ops"
  define M2 where "M2 = M1 |` (if err \<noteq> 0 then - {ev_fd e} else UNIV)"
  have p: "poll_all_allowed okfd_poll (\<lambda>m. m) (OR) (AND) (pp_mon s) ops" "dels_within D1 ops" "err \<noteq> 0 \<longrightarrow> M1 (ev_fd e) \<noteq> None"
    "disp_polite (foldl watch_added D1 ops) h es M2 x1"
    using Cons.prems(5) r h by (simp_all add: D1_def M1_def M2_def)
  obtain s2 where s2: "poll_run (pp_step raf rac rap) s1 ops = Some s2" "pp_mid (foldl watch_added D1 ops) s2"
    "pp_ready s2 = es" "pp_mon s2 = M1"
    using pp_run_mid[OF mid1 Cons.prems(2-4), of ops] p(1,2) s1 by (auto simp: D1_def M1_def)
  have step: "pp_dispatch (calling (pp_step raf rac rap) h) (s, x) =
     (if err \<noteq> 0 then do { (q, s3) \<leftarrow> pp_del s2 (ev_fd e); pp_dispatch (calling (pp_step raf rac rap) h) (s3, x1) }
      else pp_dispatch (calling (pp_step raf rac rap) h) (s2, x1))"
    using pos n[folded s1_def] c h s2(1) by (subst pp_dispatch.simps) (simp add: calling_def)
  have d: "disp_prog h es M2 x1 = (M', x')" using Cons.prems(6) r h by (simp add: M1_def M2_def)
  show ?case
  proof (cases "err = 0")
    case True
    then have "M2 = M1" by (auto simp: M2_def restrict_map_def)
    with True Cons.hyps(1)[OF s2(3)[symmetric] s2(2) Cons.prems(2-4)] p(4) d s2(3,4) step show ?thesis by simp
  next
    case False
    have "ev_fd e \<in> foldl watch_added D1 ops" by (rule watch_added_mono) (simp add: D1_def)
    then obtain s3 where s3: "pp_del s2 (ev_fd e) = Some (OK, s3)" "pp_inv s3" "pp_mon s3 = M1(ev_fd e := None)" "pp_frame s2 s3"
      using pp_del_frame[OF s2(2), of "ev_fd e"] p(3) False s2(4) by auto
    have m2: "M2 = M1(ev_fd e := None)" using False by (auto simp: M2_def restrict_map_def)
    from pp_frame_mid[OF s2(2) s3(4,2)] s2(3) have m3: "pp_mid (foldl watch_added D1 ops) s3" "pp_ready s3 = es" by auto
    with Cons.hyps(1)[OF m3(2)[symmetric] m3(1) Cons.prems(2-4)] p(4) d False s3(1,3) step m2 show ?thesis by simp
  qed
qed


subsection \<open>Properties\<close>

text \<open>
  C20. The arrays and the descriptor table implement a map: from a well-formed poller, every sequence
  of \<open>add\<close>, \<open>del\<close>, \<open>setMask\<close>, \<open>orMask\<close> and \<open>andMask\<close> calls that adds no descriptor twice and uses only
  monitored ones succeeds without a failed assertion or a bad access, and leaves exactly the clients
  and masks that the same calls leave in a plain map, through every growth and swap.
\<close>

theorem pp_refines_map:
  assumes "pp_inv s" "never_fails raf" "never_fails rac" "never_fails rap"
    "poll_all_allowed okfd_poll (\<lambda>m. m) (OR) (AND) (pp_mon s) ops"
  shows "\<exists>s'. poll_run (poll_step (pp_add raf rac rap) pp_del pp_setMask pp_orMask pp_andMask) s ops = Some s' \<and>
              pp_inv s' \<and> pp_mon s' = foldl (poll_spec (\<lambda>m. m) (OR) (AND)) (pp_mon s) ops"
  using pp.run_refines[of raf rac rap s ops] assms by blast

text \<open>A poller as \<open>init\<close> leaves it when the memory happens to be zero.\<close>

definition pp0 :: "nat poller_poll" where
  "pp0 = snd (pp_init (Some (replicate 16 0)) (Some (replicate 16 None))
     (Some (replicate 16 \<lparr>pfd_fd = 0, pfd_events = 0, pfd_revents = 0\<rparr>))
     \<lparr>pp_fd2client_used = 0, pp_fd2client_alloc = 0, pp_pfds = [], pp_clients = [], pp_pfds_used = 0,
      pp_pfds_alloc = 0, pp_fd2pfdnum = [], pp_rfds = 0, pp_cur_pfdnum = 0\<rparr>)"

definition grow_with :: "'a \<Rightarrow> 'a reallocf" where
  "grow_with d n xs = Some (take n xs @ replicate (n - length xs) d)"

lemma grow_with [simp]: "never_fails (grow_with d)"
  by (auto simp: never_fails_def realloc_ok_def grow_with_def)

lemma pp0 [simp]: "pp_inv pp0" "pp_mon pp0 = Map.empty"
  by (simp_all add: pp0_def pp_init_def pp_inv_def pp_sizes_def pp_mon_def FDLIMIT_def)

abbreviation "step0 \<equiv> poll_step (pp_add (grow_with 0) (grow_with None)
  (grow_with \<lparr>pfd_fd = 0, pfd_events = 0, pfd_revents = 0\<rparr>)) pp_del pp_setMask pp_orMask pp_andMask"

theorem pp_refines_map_witness:
  "\<exists>s'. poll_run step0 pp0 [PAdd 5 (7::nat) POLLIN, PAdd 20 8 POLLOUT, POr 5 POLLOUT, PDel 20] = Some s' \<and>
        pp_mon s' = [5 \<mapsto> (7, POLLIN OR POLLOUT)]"
proof -
  let ?ops = "[PAdd 5 (7::nat) POLLIN, PAdd 20 8 POLLOUT, POr 5 POLLOUT, PDel (20::int)]"
  have "poll_all_allowed okfd_poll (\<lambda>m. m) (OR) (AND) (pp_mon pp0) ?ops" by (simp add: FDLIMIT_def)
  have "foldl (poll_spec (\<lambda>m. m) (OR) (AND)) (pp_mon pp0) ?ops = [5 \<mapsto> (7, POLLIN OR POLLOUT)]"
    by (rule ext) simp
  note final = this
  from pp_refines_map[OF pp0(1) grow_with grow_with grow_with \<open>poll_all_allowed _ _ _ _ _ ?ops\<close>]
  have "\<exists>s'. poll_run step0 pp0 ?ops = Some s' \<and> pp_inv s' \<and> pp_mon s' = [5 \<mapsto> (7, POLLIN OR POLLOUT)]"
    unfolding final .
  then show ?thesis by (elim exE conjE) (intro exI conjI)
qed

text \<open>
  \<open>waitForEvents\<close> and \<open>getNextEvent\<close> deliver what \<open>poll\<close> reported: after a wait that found
  events, repeated \<open>getNextEvent\<close> calls return every ready descriptor once, from the last entry to
  the first, each with its \<open>revents\<close> and the client registered for it, then EWOULDBLOCK; the
  monitored set does not change.
\<close>

theorem pp_delivers_all:
  assumes "pp_inv s" "length rs = pp_pfds_used s"
    "poll (map (\<lambda>p. (pfd_fd p, pfd_events p)) (take (pp_pfds_used s) (pp_pfds s))) timeout x = (Inr rs, x')"
    "n > pp_pfds_used s"
  shows "\<exists>r s1 s2. pp_waitForEvents poll timeout s x = Some (r, s1, x') \<and> pp_mon s1 = pp_mon s \<and>
     next_events pp_getNextEvent n s1 =
       Some (pp_reported s rs, s2)"
proof -
  obtain r s1 where s1: "pp_waitForEvents poll timeout s x = Some (r, s1, x')" "pp_ev_inv s1" "pp_mon s1 = pp_mon s"
    "pp_ready s1 = pp_reported s rs"
    using pp_wait_lemma[where poll = poll and s = s and timeout = timeout and x = x and rs = rs and x' = x', OF assms(1,3,2)]
    by (elim exE conjE) (rule that, assumption+)
  have "length (pp_ready s1) < n"
    unfolding s1(4) pp_reported_def using assms(4) length_filter_le[of "\<lambda>i. rs ! i \<noteq> 0" "[0..<pp_pfds_used s]"] by simp
  from ppe.drain[OF s1(2) this] s1 show ?thesis by auto
qed

definition pp2 :: "nat poller_poll" where
  "pp2 = the (poll_run step0 pp0 [PAdd 5 7 POLLIN, PAdd 6 8 POLLIN])"

lemma pp2: "pp_inv pp2" "pp_pfds_used pp2 = 2" "pp_fd pp2 0 = 5" "pp_fd pp2 1 = 6"
proof -
  obtain s' where "poll_run step0 pp0 [PAdd 5 7 POLLIN, PAdd 6 8 POLLIN] = Some s'" "pp_inv s'"
    using pp.run_refines[of "grow_with 0" "grow_with None" "grow_with \<lparr>pfd_fd = 0, pfd_events = 0, pfd_revents = 0\<rparr>"
      pp0 "[PAdd 5 (7::nat) POLLIN, PAdd 6 8 POLLIN]"] by (auto simp: FDLIMIT_def simp del: poll_run.simps)
  then show "pp_inv pp2" by (simp add: pp2_def)
  show "pp_pfds_used pp2 = 2" "pp_fd pp2 0 = 5" "pp_fd pp2 1 = 6"
    by (simp_all add: pp2_def pp0_def pp_init_def pp_add_def pp_grow_fds_def pp_grow_pfds_def pp_store_def pp_fd_def Let_def numeral_2_eq_2)
qed

lemma pp2_mon: "pp_mon pp2 = [5 \<mapsto> (7, POLLIN), 6 \<mapsto> (8, POLLIN)]"
proof -
  obtain s' where "poll_run step0 pp0 [PAdd 5 7 POLLIN, PAdd 6 8 POLLIN] = Some s'"
      "pp_mon s' = foldl (poll_spec (\<lambda>m. m) (OR) (AND)) (pp_mon pp0) [PAdd 5 (7::nat) POLLIN, PAdd 6 8 POLLIN]"
    using pp.run_refines[of "grow_with 0" "grow_with None" "grow_with \<lparr>pfd_fd = 0, pfd_events = 0, pfd_revents = 0\<rparr>"
      pp0 "[PAdd 5 (7::nat) POLLIN, PAdd 6 8 POLLIN]"] by (auto simp: FDLIMIT_def simp del: poll_run.simps foldl.simps)
  then show ?thesis by (simp add: pp2_def del: poll_run.simps)
qed

definition all_in :: "unit poll_call" where
  "all_in fds timeout x = (Inr (map snd fds), x)"

theorem pp_delivers_all_witness:
  "\<exists>r s1 s2 ev1 ev2. pp_waitForEvents (\<lambda>fds t x. (Inr [POLLIN, POLLIN], x)) 10 pp2 () = Some (r, s1, ()) \<and>
     next_events pp_getNextEvent 3 s1 = Some ([ev1, ev2], s2) \<and> ev_fd ev1 = 6 \<and> ev_fd ev2 = 5"
proof -
  have "filter (\<lambda>i. [POLLIN, POLLIN] ! i \<noteq> 0) [0..<2] = [0, 1]" by (simp add: POLLIN_def upt_rec numeral_2_eq_2)
  then show ?thesis
    using pp_delivers_all[of pp2 "[POLLIN, POLLIN]" "\<lambda>fds t x. (Inr [POLLIN, POLLIN], x)" 10 "()" "()" 3] pp2
    by (auto simp: pp_reported_def)
qed

text \<open>The same for handlers that leave the poller alone, whatever the allocator does.\<close>

lemma pp_dispatches_quiet:
  assumes "pp_inv s" "length rs = pp_pfds_used s"
    "poll (map (\<lambda>p. (pfd_fd p, pfd_events p)) (take (pp_pfds_used s) (pp_pfds s))) timeout x = (Inr rs, x1)"
    "\<exists>r \<in> set rs. r \<noteq> 0" "disp_all h (pp_reported s rs) x1 = (bad, x2)"
  shows "\<exists>s'. pp_waitAndDispatchEvents poll (on_world h) timeout s x = Some (OK, s', x2) \<and>
     pp_inv s' \<and> pp_mon s' = pp_mon s |` (- (ev_fd ` set bad))"
proof -
  obtain s1 where s1: "pp_waitForEvents poll timeout s x = Some (if \<forall>r \<in> set rs. r = 0 then Fail EWOULDBLOCK else OK, s1, x1)"
    "pp_ev_inv s1" "pp_mon s1 = pp_mon s" "pp_ready s1 = pp_reported s rs"
    using pp_wait_lemma[where poll = poll and s = s and timeout = timeout and x = x and rs = rs and x' = x1, OF assms(1,3,2)]
    by (elim exE conjE) (rule that, assumption+)
  obtain s' where "pp_dispatch (on_world h) (s1, x1) = Some (s', x2)" "pp_ev_inv s'"
      "pp_mon s' = pp_mon s1 |` (- (ev_fd ` set bad))"
    using ppd.loop_dispatches[OF s1(2), of h x1 bad x2] s1(4) assms(5) by auto
  with s1 assms(4) show ?thesis by (simp add: pp_waitAndDispatchEvents_def pp_ev_inv_def)
qed

text \<open>
  C21. \<open>waitAndDispatchEvents\<close> on handlers that call \<open>add\<close>, \<open>del\<close> and the mask operations of the poller
  themselves: when \<open>poll\<close> reports events, the handler of every ready descriptor is called once, from the last
  entry to the first, the loop ends, the poller stays well formed, and what is monitored afterwards is
  what the same calls leave in a plain map, with each descriptor removed whose handler returned an error.
  A handler adds no monitored descriptor, changes the masks of monitored ones, returns an error only
  while its own descriptor is monitored, and deletes only descriptors whose event has already been
  delivered in this round (its own included) or that were added in this round. Deleting another one
  is excluded: \<open>pp_del_redelivers\<close> below shows what it breaks. The allocator does not fail.
\<close>

theorem pp_dispatches_all:
  assumes "pp_inv s" "never_fails raf" "never_fails rac" "never_fails rap" "length rs = pp_pfds_used s"
    "poll (map (\<lambda>p. (pfd_fd p, pfd_events p)) (take (pp_pfds_used s) (pp_pfds s))) timeout x = (Inr rs, x1)"
    "\<exists>r \<in> set rs. r \<noteq> 0" "disp_polite {} h (pp_reported s rs) (pp_mon s) x1"
    "disp_prog h (pp_reported s rs) (pp_mon s) x1 = (M', x2)"
  shows "\<exists>s'. pp_waitAndDispatchEvents poll (calling (pp_step raf rac rap) h) timeout s x = Some (OK, s', x2) \<and>
     pp_inv s' \<and> pp_mon s' = M'"
proof -
  obtain s1 where s1: "pp_waitForEvents poll timeout s x = Some (if \<forall>r \<in> set rs. r = 0 then Fail EWOULDBLOCK else OK, s1, x1)"
    "pp_ev_inv s1" "pp_mon s1 = pp_mon s" "pp_ready s1 = pp_reported s rs"
    using pp_wait_lemma[where poll = poll and s = s and timeout = timeout and x = x and rs = rs and x' = x1, OF assms(1,6,5)]
    by (elim exE conjE) (rule that, assumption+)
  have "pp_mid {} s1" using s1(2) by (simp add: pp_mid_def)
  from pp_dispatch_prog[OF this assms(2-4), of h x1 M' x2] s1(3,4) assms(8,9)
  obtain s' where "pp_dispatch (calling (pp_step raf rac rap) h) (s1, x1) = Some (s', x2)" "pp_inv s'" "pp_mon s' = M'" by auto
  with s1(1) assms(7) show ?thesis by (simp add: pp_waitAndDispatchEvents_def)
qed

definition busy_handler :: "(nat, int list) handler" where
  "busy_handler ev x = (if ev_fd ev = 6 then (0, [PDel 6, PAdd 9 3 POLLOUT], x @ [6]) else (-1, [POr 9 POLLIN], x @ [ev_fd ev]))"

theorem pp_dispatches_all_witness:
  "\<exists>s'. pp_waitAndDispatchEvents (\<lambda>fds t x. (Inr [POLLIN, POLLIN], x))
          (calling step0 busy_handler) 10 pp2 [] = Some (OK, s', [6, 5]) \<and>
        pp_mon s' = [9 \<mapsto> (3, POLLOUT OR POLLIN)]"
proof -
  have "filter (\<lambda>i. [POLLIN, POLLIN] ! i \<noteq> 0) [0..<2] = [0, 1]" by (simp add: POLLIN_def upt_rec numeral_2_eq_2)
  then have r: "pp_reported pp2 [POLLIN, POLLIN] =
      [\<lparr>ev_fd = 6, ev_revents = POLLIN, ev_client = pp_clients pp2 ! 1\<rparr>, \<lparr>ev_fd = 5, ev_revents = POLLIN, ev_client = pp_clients pp2 ! 0\<rparr>]"
    using pp2 by (simp add: pp_reported_def)
  have m: "pp_mon pp2 = [5 \<mapsto> (7, POLLIN), 6 \<mapsto> (8, POLLIN)]" by (rule pp2_mon)
  have po: "disp_polite {} busy_handler (pp_reported pp2 [POLLIN, POLLIN]) (pp_mon pp2) []"
    unfolding r m by (simp add: busy_handler_def FDLIMIT_def)
  have "disp_prog busy_handler (pp_reported pp2 [POLLIN, POLLIN]) (pp_mon pp2) [] = ([9 \<mapsto> (3, POLLOUT OR POLLIN)], [6, 5])"
    unfolding r m by (auto simp: busy_handler_def fun_eq_iff restrict_map_def)
  from pp_dispatches_all[where poll = "\<lambda>fds t x. (Inr [POLLIN, POLLIN], x)" and timeout = 10 and x = "[]",
      OF pp2(1) grow_with[of 0] grow_with[of None] grow_with[of "\<lparr>pfd_fd = 0, pfd_events = 0, pfd_revents = 0\<rparr>"] _ _ _ po this]
  show ?thesis using pp2(2) by (auto simp: POLLIN_def)
qed

text \<open>
  Deleting another descriptor while events are being delivered breaks this: \<open>del\<close> moves the last
  entry, already delivered and with its \<open>revents\<close> still set, below the cursor, so the same event is
  returned again, and the count of events left runs out before the remaining ones are reached.
\<close>

definition pp_scene :: "nat poller_poll" where
  "pp_scene = \<lparr>pp_fd2client_used = 4, pp_fd2client_alloc = 4,
     pp_pfds = [\<lparr>pfd_fd = 0, pfd_events = POLLIN, pfd_revents = POLLIN\<rparr>, \<lparr>pfd_fd = 1, pfd_events = POLLIN, pfd_revents = 0\<rparr>,
                \<lparr>pfd_fd = 2, pfd_events = POLLIN, pfd_revents = 0\<rparr>, \<lparr>pfd_fd = 3, pfd_events = POLLIN, pfd_revents = POLLIN\<rparr>],
     pp_clients = [Some 10, Some 11, Some 12, Some 13], pp_pfds_used = 4, pp_pfds_alloc = 4,
     pp_fd2pfdnum = [0, 1, 2, 3], pp_rfds = 2, pp_cur_pfdnum = 4\<rparr>"

theorem pp_del_redelivers:
  "pp_ev_inv pp_scene \<and> map ev_fd (pp_ready pp_scene) = [3, 0] \<and>
   (\<exists>s1 s2 s3 s4 ev. pp_getNextEvent pp_scene = Some (OK, Some ev, s1) \<and> ev_fd ev = 3 \<and>
      pp_del s1 1 = Some (OK, s2) \<and> pp_getNextEvent s2 = Some (OK, Some ev, s3) \<and>
      pp_getNextEvent s3 = Some (Fail EWOULDBLOCK, None, s4))"
proof -
  have hot: "hot (pp_pfds pp_scene) 4 = [0, 3]"
    by (simp add: hot_def pp_scene_def upt_rec POLLIN_def)
  have sc: "scan_down ps c = (if c - 1 > -1 then do { p \<leftarrow> rdi ps (c - 1);
        if pfd_revents p \<noteq> 0 then Some (c - 1) else scan_down ps (c - 1) } else Some (c - 1))" for ps c
    by (rule scan_down.simps)
  have "pp_linked pp_scene i" if "i < 4" for i
  proof -
    from that consider "i = 0" | "i = 1" | "i = 2" | "i = 3" by linarith
    then show ?thesis by cases (simp_all add: pp_linked_def pp_fd_def pp_scene_def FDLIMIT_def)
  qed
  then have inv: "pp_inv pp_scene" by (simp add: pp_inv_def) (simp add: pp_sizes_def pp_scene_def FDLIMIT_def)
  have rd: "pp_ready pp_scene = map (pp_event pp_scene) [3, 0]"
    using hot by (simp add: pp_ready_def) (simp add: pp_scene_def)
  define s1 where "s1 = pp_scene\<lparr>pp_cur_pfdnum := 3, pp_rfds := 1\<rparr>"
  define ev where "ev = pp_event pp_scene 3"
  have s1: "pp_getNextEvent pp_scene = Some (OK, Some ev, s1)"
    by (simp add: pp_getNextEvent_def sc[of _ 4] s1_def ev_def pp_scene_def pp_event_def pp_fd_def rdi_def rd_def POLLIN_def)
  define s2 where "s2 = s1\<lparr>pp_clients := [Some 10, Some 13, Some 12, None],
     pp_pfds := [pp_pfds s1 ! 0, pp_pfds s1 ! 3, pp_pfds s1 ! 2, (pp_pfds s1 ! 3)\<lparr>pfd_fd := -1\<rparr>],
     pp_fd2pfdnum := [0, -1, 2, 1], pp_pfds_used := 3\<rparr>"
  have s2: "pp_del s1 1 = Some (OK, s2)"
    by (simp add: pp_del_def pp_move_last_def s1_def s2_def pp_scene_def rdi_def rd_def wri_def wr_def Let_def numeral_eq_Suc)
  define s3 where "s3 = s2\<lparr>pp_cur_pfdnum := 1, pp_rfds := 0\<rparr>"
  have s3: "pp_getNextEvent s2 = Some (OK, Some ev, s3)"
    by (simp add: pp_getNextEvent_def sc[of _ 3] sc[of _ 2] s1_def s2_def s3_def ev_def pp_scene_def pp_event_def
        pp_fd_def rdi_def rd_def POLLIN_def)
  have "pp_getNextEvent s3 = Some (Fail EWOULDBLOCK, None, s3)" by (simp add: pp_getNextEvent_def s3_def)
  moreover have "pp_ev_inv pp_scene" using inv rd by (simp add: pp_ev_inv_def) (simp add: pp_scene_def)
  moreover have "ev_fd ev = 3" "map ev_fd (pp_ready pp_scene) = [3, 0]"
    using rd by (simp_all add: ev_def pp_event_def pp_fd_def pp_scene_def)
  ultimately show ?thesis using s1 s2 s3 by blast
qed

text \<open>
  \<open>init\<close> does not clear the descriptor table: when the memory happens to be zero, \<open>del\<close> of a
  descriptor below 16 that was never added deletes the first client that was.
\<close>

theorem pp_del_of_unknown_fd:
  assumes "0 \<le> g" "g < f" "f < 16"
  shows "\<exists>s1 s2. step0 pp0 (PAdd f c m) = Some (OK, s1) \<and> pp_mon s1 = [f \<mapsto> (c, m)] \<and>
                 step0 s1 (PDel g) = Some (OK, s2) \<and> pp_mon s2 = Map.empty"
proof -
  have idx: "nat f < 16" "nat g < 16" "nat g \<noteq> nat f" "nat g < nat (f + 1)" using assms by auto
  have z: "(replicate 16 (0::int))[nat f := 0] = replicate 16 0"
    using list_update_id[of "replicate 16 (0::int)" "nat f"] idx(1) by simp
  define s1 where "s1 = pp0\<lparr>pp_clients := (replicate 16 None)[0 := Some c],
     pp_pfds := (replicate 16 \<lparr>pfd_fd = 0, pfd_events = 0, pfd_revents = 0\<rparr>)[0 := \<lparr>pfd_fd = f, pfd_events = m, pfd_revents = 0\<rparr>],
     pp_fd2client_used := nat (f + 1), pp_pfds_used := 1\<rparr>"
  have a: "step0 pp0 (PAdd f c m) = Some (OK, s1)"
    using assms idx z
    by (simp add: pp_add_def pp_grow_fds_def pp_grow_pfds_def pp_store_def pp0_def pp_init_def s1_def Let_def)
  have m1: "pp_mon s1 = [f \<mapsto> (c, m)]"
    by (simp add: s1_def pp_mon_def pp_fd_def pp_val_def upt_rec)
  let ?u = "(replicate 16 (0::int))[nat g := -1]"
  have le: "nat (f + 1) \<le> length ?u" using idx by simp
  obtain u where u: "trim_used ?u (nat (f + 1)) = Some u" using trim_used_lemma[OF le] by blast
  have "\<exists>s2. step0 s1 (PDel g) = Some (OK, s2) \<and> pp_pfds_used s2 = 0"
    using assms idx u by (simp add: pp_del_def pp_move_last_def s1_def pp0_def pp_init_def Let_def)
  then show ?thesis using a m1 by (auto simp: pp_mon_def)
qed

theorem pp_del_of_unknown_fd_witness:
  "\<exists>s1 s2. step0 pp0 (PAdd 5 (7::nat) POLLIN) = Some (OK, s1) \<and> step0 s1 (PDel 3) = Some (OK, s2) \<and> pp_mon s2 = Map.empty"
  using pp_del_of_unknown_fd[of 3 5 7 POLLIN] by (auto simp del: poll_step.simps)

end
