(* ===== verification/Poller_select.thy ===== *)
theory Poller_select
  imports Poller_base
begin

unbundle bit_operations_syntax

text \<open>
  The back end on \<open>select()\<close> of Poller\_select.h and Poller\_select.cc: a table of clients indexed by
  descriptor and one \<open>fd_set\<close> per kind of event, modelled as sets of descriptors. The argument \<open>urg\<close>
  of the operations is the build option Poller\_URGENT, which adds POLLPRI. Members have the prefix
  \<open>ps_\<close> where the source has \<open>m_\<close>.
\<close>

subsection \<open>State\<close>

definition FD_SETSIZE :: nat where
  "FD_SETSIZE = 1024"

record 'c poller_select =
  ps_clients :: "'c option list"
  ps_max_fd :: int
  ps_rbits :: int
  ps_cur_fd :: int
  ps_readfds :: "int set"
  ps_writefds :: "int set"
  ps_exceptfds :: "int set"
  ps_testrfds :: "int set"
  ps_testwfds :: "int set"
  ps_testefds :: "int set"

definition ps_init :: "bool \<Rightarrow> 'c poller_select \<Rightarrow> rc \<times> 'c poller_select" where
  "ps_init urg s =
     (let s1 = s\<lparr>ps_max_fd := -1, ps_cur_fd := -1, ps_rbits := 0, ps_clients := replicate FD_SETSIZE None,
                 ps_readfds := {}, ps_testrfds := {}, ps_testwfds := {}, ps_writefds := {}\<rparr>
      in (OK, if urg then s1\<lparr>ps_exceptfds := {}, ps_testefds := {}\<rparr> else s1))"

definition ps_shutdown :: "'c poller_select \<Rightarrow> 'c poller_select" where
  "ps_shutdown s = (if ps_max_fd s \<noteq> -1 then s\<lparr>ps_max_fd := -1, ps_cur_fd := -1, ps_rbits := 0\<rparr> else s)"

subsection \<open>Operations\<close>

text \<open>The sanity checks the mask operations and \<open>del\<close> start with: the error, or the client.\<close>

definition ps_check :: "'c poller_select \<Rightarrow> int \<Rightarrow> rc option" where
  "ps_check s fd =
     (if fd < 0 \<or> fd \<ge> int FD_SETSIZE then Some (Fail EINVAL)
      else do {
        c \<leftarrow> rdi (ps_clients s) fd;
        if c = None then Some (Fail EALREADY)
        else do { assertion (ps_max_fd s \<ge> fd); Some OK }
      })"

definition fd_put :: "bool \<Rightarrow> int \<Rightarrow> int set \<Rightarrow> int set" where
  "fd_put b fd A = (if b then insert fd A else A - {fd})"

definition ps_setMask :: "bool \<Rightarrow> 'c poller_select \<Rightarrow> int \<Rightarrow> mask \<Rightarrow> (rc \<times> 'c poller_select) option" where
  "ps_setMask urg s fd eventmask = do {
     r \<leftarrow> ps_check s fd;
     if r \<noteq> OK then Some (r, s)
     else
       let s1 = s\<lparr>ps_readfds := fd_put (has eventmask POLLIN) fd (ps_readfds s),
                  ps_writefds := fd_put (has eventmask POLLOUT) fd (ps_writefds s)\<rparr>
       in Some (OK, if urg then s1\<lparr>ps_exceptfds := fd_put (has eventmask POLLPRI) fd (ps_exceptfds s1)\<rparr> else s1)
   }"

definition ps_orMask :: "bool \<Rightarrow> 'c poller_select \<Rightarrow> int \<Rightarrow> mask \<Rightarrow> (rc \<times> 'c poller_select) option" where
  "ps_orMask urg s fd eventmask = do {
     r \<leftarrow> ps_check s fd;
     if r \<noteq> OK then Some (r, s)
     else
       let s1 = (if has eventmask POLLIN then s\<lparr>ps_readfds := insert fd (ps_readfds s)\<rparr> else s);
           s2 = (if has eventmask POLLOUT then s1\<lparr>ps_writefds := insert fd (ps_writefds s1)\<rparr> else s1)
       in Some (OK, if urg \<and> has eventmask POLLPRI then s2\<lparr>ps_exceptfds := insert fd (ps_exceptfds s2)\<rparr> else s2)
   }"

definition ps_andMask :: "bool \<Rightarrow> 'c poller_select \<Rightarrow> int \<Rightarrow> mask \<Rightarrow> (rc \<times> 'c poller_select) option" where
  "ps_andMask urg s fd eventmask = do {
     r \<leftarrow> ps_check s fd;
     if r \<noteq> OK then Some (r, s)
     else
       let s1 = (if \<not> has eventmask POLLIN then s\<lparr>ps_readfds := ps_readfds s - {fd}\<rparr> else s);
           s2 = (if \<not> has eventmask POLLOUT then s1\<lparr>ps_writefds := ps_writefds s1 - {fd}\<rparr> else s1)
       in Some (OK, if urg \<and> \<not> has eventmask POLLPRI then s2\<lparr>ps_exceptfds := ps_exceptfds s2 - {fd}\<rparr> else s2)
   }"

definition ps_add :: "bool \<Rightarrow> 'c poller_select \<Rightarrow> int \<Rightarrow> 'c \<Rightarrow> mask \<Rightarrow> (rc \<times> 'c poller_select) option" where
  "ps_add urg s fd client eventmask =
     (if fd < 0 \<or> fd \<ge> int FD_SETSIZE then Some (Fail EINVAL, s)
      else do {
        c \<leftarrow> rdi (ps_clients s) fd;
        if c \<noteq> None then Some (Fail EALREADY, s)
        else do {
          let s1 = (if fd > ps_max_fd s then s\<lparr>ps_max_fd := fd\<rparr> else s);
          cs \<leftarrow> wri (ps_clients s1) fd (Some client);
          (r, s2) \<leftarrow> ps_setMask urg (s1\<lparr>ps_clients := cs\<rparr>) fd eventmask;
          Some (OK, s2)
        }
      })"

text \<open>\<open>while ((m_max_fd >= 0) && (m_clients[m_max_fd] == NULL)) m_max_fd--;\<close>\<close>

function trim_max :: "'c option list \<Rightarrow> int \<Rightarrow> int option" where
  "trim_max cs m =
     (if m \<ge> 0 then do { c \<leftarrow> rdi cs m; if c = None then trim_max cs (m - 1) else Some m } else Some m)"
  by pat_completeness auto
termination by (relation "measure (\<lambda>(cs, m). nat (m + 1))") auto

declare trim_max.simps [simp del]

definition ps_del :: "bool \<Rightarrow> 'c poller_select \<Rightarrow> int \<Rightarrow> (rc \<times> 'c poller_select) option" where
  "ps_del urg s fd = do {
     r \<leftarrow> ps_check s fd;
     if r \<noteq> OK then Some (r, s)
     else do {
       (q, s1) \<leftarrow> ps_setMask urg s fd 0;
       let s2 = s1\<lparr>ps_testrfds := ps_testrfds s1 - {fd}, ps_testwfds := ps_testwfds s1 - {fd}\<rparr>;
       let s3 = (if urg then s2\<lparr>ps_testefds := ps_testefds s2 - {fd}\<rparr> else s2);
       cs \<leftarrow> wri (ps_clients s3) fd None;
       m \<leftarrow> trim_max cs (ps_max_fd s3);
       Some (OK, s3\<lparr>ps_clients := cs, ps_max_fd := m\<rparr>)
     }
   }"

subsection \<open>Events\<close>

text \<open>
  \<open>select(nfds, r, w, e, timeout)\<close> returns the sets it leaves behind, or an error, on which it leaves
  them alone; the count it returns is the number of bits in them below \<open>nfds\<close>.
\<close>

type_synonym 'x select_call =
  "int \<Rightarrow> int set \<Rightarrow> int set \<Rightarrow> int set \<Rightarrow> int \<times> int \<Rightarrow> 'x \<Rightarrow> (errno + int set \<times> int set \<times> int set) \<times> 'x"

definition bits_at :: "bool \<Rightarrow> int set \<Rightarrow> int set \<Rightarrow> int set \<Rightarrow> int \<Rightarrow> int" where
  "bits_at urg R W E i = of_bool (i \<in> R) + of_bool (i \<in> W) + of_bool (urg \<and> i \<in> E)"

definition ps_waitForEvents ::
  "bool \<Rightarrow> 'x select_call \<Rightarrow> int \<Rightarrow> 'c poller_select \<Rightarrow> 'x \<Rightarrow> rc \<times> 'c poller_select \<times> 'x" where
  "ps_waitForEvents urg select timeout s x =
     (let s1 = s\<lparr>ps_testrfds := ps_readfds s, ps_testwfds := ps_writefds s\<rparr>;
          s2 = (if urg then s1\<lparr>ps_testefds := ps_exceptfds s1\<rparr> else s1)
      in case select (ps_max_fd s2 + 1) (ps_testrfds s2) (ps_testwfds s2) (if urg then ps_testefds s2 else {})
                (cdiv timeout 1000, cmod timeout 1000 * 1000) x of
           (Inl e, x1) \<Rightarrow> (Fail e, s2\<lparr>ps_rbits := -1\<rparr>, x1)
         | (Inr (R, W, E), x1) \<Rightarrow>
             let n = sum_list (map (bits_at urg R W E) [0..ps_max_fd s2]);
                 s3 = s2\<lparr>ps_testrfds := R, ps_testwfds := W, ps_rbits := n, ps_cur_fd := -1\<rparr>
             in (if n \<noteq> 0 then OK else Fail EWOULDBLOCK, if urg then s3\<lparr>ps_testefds := E\<rparr> else s3, x1))"

definition ps_revents :: "bool \<Rightarrow> 'c poller_select \<Rightarrow> int \<Rightarrow> mask" where
  "ps_revents urg s i =
     (let r0 = (if i \<in> ps_testrfds s then POLLIN else 0);
          r1 = (if i \<in> ps_testwfds s then r0 OR POLLOUT else r0)
      in if urg \<and> i \<in> ps_testefds s then r1 OR POLLPRI else r1)"

text \<open>The search loop: the descriptor it stops at and the events found there.\<close>

function scan_up :: "bool \<Rightarrow> 'c poller_select \<Rightarrow> int \<Rightarrow> int \<times> mask" where
  "scan_up urg s cur =
     (if cur < ps_max_fd s then
        (if ps_revents urg s (cur + 1) \<noteq> 0 then (cur + 1, ps_revents urg s (cur + 1))
         else scan_up urg s (cur + 1))
      else (cur + 1, 0))"
  by pat_completeness auto
termination by (relation "measure (\<lambda>(urg, s, cur). nat (ps_max_fd s - cur))") auto

declare scan_up.simps [simp del]

definition ps_getNextEvent ::
  "bool \<Rightarrow> 'c poller_select \<Rightarrow> (rc \<times> 'c poll_event option \<times> 'c poller_select) option" where
  "ps_getNextEvent urg s =
     (if ps_rbits s < 1 then Some (Fail EWOULDBLOCK, None, s)
      else
        let (cur, revents) = scan_up urg s (ps_cur_fd s); s1 = s\<lparr>ps_cur_fd := cur\<rparr> in
        if revents = 0 then Some (Fail EWOULDBLOCK, None, s1)
        else do {
          let n = ps_rbits s1 - of_bool (has revents POLLIN) - of_bool (has revents POLLOUT)
                  - of_bool (urg \<and> has revents POLLPRI);
          c \<leftarrow> rdi (ps_clients s1) cur;
          Some (OK, Some \<lparr>ev_fd = cur, ev_revents = revents, ev_client = c\<rparr>, s1\<lparr>ps_rbits := n\<rparr>)
        })"

partial_function (option) ps_dispatch ::
  "bool \<Rightarrow> ('c, 'c poller_select \<times> 'x) notify \<Rightarrow> 'c poller_select \<times> 'x \<Rightarrow> ('c poller_select \<times> 'x) option" where
  "ps_dispatch urg notify sx =
     (if ps_rbits (fst sx) > 0 then do {
        (r, e, s1) \<leftarrow> ps_getNextEvent urg (fst sx);
        case e of
          None \<Rightarrow> Some (s1, snd sx)
        | Some ev \<Rightarrow> (case ev_client ev of
            None \<Rightarrow> None
          | Some c \<Rightarrow> do {
              (err, sx1) \<leftarrow> notify c ev (s1, snd sx);
              if err \<noteq> 0 then do {
                (q, s2) \<leftarrow> ps_del urg (fst sx1) (ev_fd ev);
                ps_dispatch urg notify (s2, snd sx1)
              }
              else ps_dispatch urg notify sx1
            })
      }
      else Some sx)"

definition ps_waitAndDispatchEvents ::
  "bool \<Rightarrow> 'x select_call \<Rightarrow> ('c, 'c poller_select \<times> 'x) notify \<Rightarrow> int \<Rightarrow> 'c poller_select \<Rightarrow> 'x \<Rightarrow>
   (rc \<times> 'c poller_select \<times> 'x) option" where
  "ps_waitAndDispatchEvents urg select notify timeout s x =
     (case ps_waitForEvents urg select timeout s x of
        (r, s1, x1) \<Rightarrow> if r \<noteq> OK then Some (r, s1, x1)
                       else do { sx \<leftarrow> ps_dispatch urg notify (s1, x1); Some (OK, sx) })"

subsection \<open>Invariant and abstraction\<close>

definition norm_sel :: "bool \<Rightarrow> mask \<Rightarrow> mask" where
  "norm_sel urg m = m AND (POLLIN OR POLLOUT OR (if urg then POLLPRI else 0))"

lemma norm_sel: "norm_sel urg m = mk_mask (has m POLLIN) (has m POLLOUT) (urg \<and> has m POLLPRI)"
  by (rule bit_word_eqI) (auto simp: norm_sel_def bit_mk_mask has_bit bit_and_iff bit_or_iff bit_poll)

lemma norm_sel_or: "norm_sel urg (mk_mask r w (urg \<and> e) OR m) =
    mk_mask (r \<or> has m POLLIN) (w \<or> has m POLLOUT) (urg \<and> (e \<or> has m POLLPRI))"
  unfolding norm_sel by (rule bit_word_eqI) (auto simp: has_bit bit_or_iff bit_mk_mask)

lemma norm_sel_and: "norm_sel urg (mk_mask r w (urg \<and> e) AND m) =
    mk_mask (r \<and> has m POLLIN) (w \<and> has m POLLOUT) (urg \<and> (e \<and> has m POLLPRI))"
  unfolding norm_sel by (rule bit_word_eqI) (auto simp: has_bit bit_and_iff bit_mk_mask)

definition in_range :: "int \<Rightarrow> bool" where
  "in_range fd = (0 \<le> fd \<and> fd < int FD_SETSIZE)"

definition ps_mon :: "bool \<Rightarrow> 'c poller_select \<Rightarrow> int \<Rightarrow> ('c \<times> mask) option" where
  "ps_mon urg s fd =
     (if in_range fd then map_option (\<lambda>c. (c, mk_mask (fd \<in> ps_readfds s) (fd \<in> ps_writefds s) (urg \<and> fd \<in> ps_exceptfds s)))
                           (ps_clients s ! nat fd)
      else None)"

text \<open>\<open>m_max_fd\<close> bounds the monitored descriptors; only those have bits in the sets handed to \<open>select\<close>.\<close>

definition ps_inv :: "bool \<Rightarrow> 'c poller_select \<Rightarrow> bool" where
  "ps_inv urg s = (length (ps_clients s) = FD_SETSIZE \<and> -1 \<le> ps_max_fd s \<and> ps_max_fd s < int FD_SETSIZE \<and>
     (\<forall>fd. ps_mon urg s fd \<noteq> None \<longrightarrow> fd \<le> ps_max_fd s) \<and>
     (\<forall>fd \<in> ps_readfds s \<union> ps_writefds s \<union> (if urg then ps_exceptfds s else {}). ps_mon urg s fd \<noteq> None) \<and>
     (\<forall>fd \<in> ps_testrfds s \<union> ps_testwfds s \<union> (if urg then ps_testefds s else {}). ps_mon urg s fd \<noteq> None))"

lemma ps_mon_client: "ps_mon urg s fd = None \<longleftrightarrow> \<not> in_range fd \<or> ps_clients s ! nat fd = None"
  by (simp add: ps_mon_def)

lemma ps_check_OK: "ps_inv urg s \<Longrightarrow> ps_mon urg s fd \<noteq> None \<Longrightarrow> ps_check s fd = Some OK"
  by (auto simp: ps_check_def ps_inv_def ps_mon_def in_range_def split: if_splits)

text \<open>The invariant depends on the set of monitored descriptors only through \<open>ps_mon\<close>.\<close>

lemma ps_masks_frame:
  assumes inv: "ps_inv urg s" and mon: "ps_mon urg s fd = Some (c, k)"
    and eq: "\<forall>g. g \<noteq> fd \<longrightarrow> (g \<in> R) = (g \<in> ps_readfds s) \<and> (g \<in> W) = (g \<in> ps_writefds s) \<and>
                          (urg \<longrightarrow> (g \<in> E) = (g \<in> ps_exceptfds s))"
  shows "ps_inv urg (s\<lparr>ps_readfds := R, ps_writefds := W, ps_exceptfds := E\<rparr>)"
    "ps_mon urg (s\<lparr>ps_readfds := R, ps_writefds := W, ps_exceptfds := E\<rparr>) =
       (ps_mon urg s)(fd \<mapsto> (c, mk_mask (fd \<in> R) (fd \<in> W) (urg \<and> fd \<in> E)))"
proof -
  let ?s = "s\<lparr>ps_readfds := R, ps_writefds := W, ps_exceptfds := E\<rparr>"
  show m: "ps_mon urg ?s = (ps_mon urg s)(fd \<mapsto> (c, mk_mask (fd \<in> R) (fd \<in> W) (urg \<and> fd \<in> E)))"
  proof (rule ext)
    fix g
    show "ps_mon urg ?s g = ((ps_mon urg s)(fd \<mapsto> (c, mk_mask (fd \<in> R) (fd \<in> W) (urg \<and> fd \<in> E)))) g"
      using mon eq by (cases "g = fd") (auto simp: ps_mon_def split: if_splits)
  qed
  have dom: "ps_mon urg ?s g = None \<longleftrightarrow> ps_mon urg s g = None" for g using m mon by auto
  have "ps_mon urg s g \<noteq> None" if "g \<in> R \<union> W \<union> (if urg then E else {})" for g
  proof (cases "g = fd")
    case False
    with that eq have "g \<in> ps_readfds s \<union> ps_writefds s \<union> (if urg then ps_exceptfds s else {})"
      by (auto split: if_splits)
    with inv show ?thesis by (simp add: ps_inv_def)
  qed (use mon in simp)
  then have "\<forall>g \<in> R \<union> W \<union> (if urg then E else {}). ps_mon urg s g \<noteq> None" by blast
  with inv show "ps_inv urg ?s" unfolding ps_inv_def dom by (cases urg) simp_all
qed

lemma ps_record_eq:
  "s\<lparr>ps_readfds := R, ps_writefds := W\<rparr> = s\<lparr>ps_readfds := R, ps_writefds := W, ps_exceptfds := ps_exceptfds s\<rparr>"
  by (cases s) simp

lemma ps_masks:
  assumes inv: "ps_inv urg s" and mon: "ps_mon urg s fd = Some (c, k)"
  shows "\<exists>s'. ps_setMask urg s fd m = Some (OK, s') \<and> ps_inv urg s' \<and> ps_mon urg s' = (ps_mon urg s)(fd \<mapsto> (c, norm_sel urg m))"
    and "\<exists>s'. ps_orMask urg s fd m = Some (OK, s') \<and> ps_inv urg s' \<and> ps_mon urg s' = (ps_mon urg s)(fd \<mapsto> (c, norm_sel urg (k OR m)))"
    and "\<exists>s'. ps_andMask urg s fd m = Some (OK, s') \<and> ps_inv urg s' \<and> ps_mon urg s' = (ps_mon urg s)(fd \<mapsto> (c, norm_sel urg (k AND m)))"
proof -
  have chk: "ps_check s fd = Some OK" using ps_check_OK[OF inv] mon by simp
  have k: "k = mk_mask (fd \<in> ps_readfds s) (fd \<in> ps_writefds s) (urg \<and> fd \<in> ps_exceptfds s)"
    using mon by (auto simp: ps_mon_def split: if_splits)
  let ?R = "\<lambda>b. fd_put b fd (ps_readfds s)" and ?W = "\<lambda>b. fd_put b fd (ps_writefds s)"
    and ?E = "\<lambda>b. if urg then fd_put b fd (ps_exceptfds s) else ps_exceptfds s"
  have fr: "ps_inv urg (s\<lparr>ps_readfds := ?R a, ps_writefds := ?W b, ps_exceptfds := ?E d\<rparr>)"
    "ps_mon urg (s\<lparr>ps_readfds := ?R a, ps_writefds := ?W b, ps_exceptfds := ?E d\<rparr>) =
       (ps_mon urg s)(fd \<mapsto> (c, mk_mask a b (urg \<and> d)))" for a b d
  proof -
    have e: "\<forall>g. g \<noteq> fd \<longrightarrow> (g \<in> ?R a) = (g \<in> ps_readfds s) \<and> (g \<in> ?W b) = (g \<in> ps_writefds s) \<and>
        (urg \<longrightarrow> (g \<in> ?E d) = (g \<in> ps_exceptfds s))" by (auto simp: fd_put_def)
    note f = ps_masks_frame[OF inv mon e]
    have "fd \<in> ?R a \<longleftrightarrow> a" "fd \<in> ?W b \<longleftrightarrow> b" "urg \<and> fd \<in> ?E d \<longleftrightarrow> urg \<and> d" by (auto simp: fd_put_def)
    with f show "ps_inv urg (s\<lparr>ps_readfds := ?R a, ps_writefds := ?W b, ps_exceptfds := ?E d\<rparr>)"
      "ps_mon urg (s\<lparr>ps_readfds := ?R a, ps_writefds := ?W b, ps_exceptfds := ?E d\<rparr>) =
       (ps_mon urg s)(fd \<mapsto> (c, mk_mask a b (urg \<and> d)))" by (simp_all only:)
  qed
  have "ps_setMask urg s fd m = Some (OK, s\<lparr>ps_readfds := ?R (has m POLLIN), ps_writefds := ?W (has m POLLOUT),
      ps_exceptfds := ?E (has m POLLPRI)\<rparr>)"
    using chk by (cases s) (simp add: ps_setMask_def Let_def)
  then show "\<exists>s'. ps_setMask urg s fd m = Some (OK, s') \<and> ps_inv urg s' \<and> ps_mon urg s' = (ps_mon urg s)(fd \<mapsto> (c, norm_sel urg m))"
    unfolding norm_sel using fr by blast
  have put_or: "(if b then insert fd A else A) = fd_put (fd \<in> A \<or> b) fd A" for b A by (auto simp: fd_put_def)
  have put_and: "(if \<not> b then A - {fd} else A) = fd_put (fd \<in> A \<and> b) fd A" for b A by (auto simp: fd_put_def)
  have "ps_orMask urg s fd m = Some (OK, s\<lparr>ps_readfds := ?R (fd \<in> ps_readfds s \<or> has m POLLIN),
      ps_writefds := ?W (fd \<in> ps_writefds s \<or> has m POLLOUT), ps_exceptfds := ?E (fd \<in> ps_exceptfds s \<or> has m POLLPRI)\<rparr>)"
    using chk unfolding put_or[symmetric] by (cases s) (simp add: ps_orMask_def Let_def)
  then show "\<exists>s'. ps_orMask urg s fd m = Some (OK, s') \<and> ps_inv urg s' \<and> ps_mon urg s' = (ps_mon urg s)(fd \<mapsto> (c, norm_sel urg (k OR m)))"
    unfolding k norm_sel_or using fr by blast
  have "ps_andMask urg s fd m = Some (OK, s\<lparr>ps_readfds := ?R (fd \<in> ps_readfds s \<and> has m POLLIN),
      ps_writefds := ?W (fd \<in> ps_writefds s \<and> has m POLLOUT), ps_exceptfds := ?E (fd \<in> ps_exceptfds s \<and> has m POLLPRI)\<rparr>)"
    using chk unfolding put_and[symmetric] by (cases s) (simp add: ps_andMask_def Let_def)
  then show "\<exists>s'. ps_andMask urg s fd m = Some (OK, s') \<and> ps_inv urg s' \<and> ps_mon urg s' = (ps_mon urg s)(fd \<mapsto> (c, norm_sel urg (k AND m)))"
    unfolding k norm_sel_and using fr by blast
qed

lemma in_rangeD: "in_range f \<Longrightarrow> 0 \<le> f \<and> nat f < FD_SETSIZE"
  by (auto simp: in_range_def)

lemma trim_max_lemma:
  "m < int (length cs) \<Longrightarrow> -1 \<le> m \<Longrightarrow>
   \<exists>m'. trim_max cs m = Some m' \<and> -1 \<le> m' \<and> m' \<le> m \<and> (\<forall>j. m' < j \<and> j \<le> m \<longrightarrow> cs ! nat j = None)"
proof (induction cs m rule: trim_max.induct)
  case (1 cs m)
  show ?case
  proof (cases "0 \<le> m \<and> cs ! nat m = None")
    case True
    with "1.prems" have r: "rdi cs m = Some None" by (auto simp: rdi_eq_Some)
    obtain m' where m': "trim_max cs (m - 1) = Some m'" "-1 \<le> m'" "m' \<le> m - 1"
      "\<forall>j. m' < j \<and> j \<le> m - 1 \<longrightarrow> cs ! nat j = None"
      using "1.IH"[OF _ r] True "1.prems" by auto
    have "cs ! nat j = None" if "m' < j \<and> j \<le> m" for j
      using m'(4) True that by (cases "j = m") auto
    with m' r True show ?thesis by (subst trim_max.simps) auto
  next
    case False
    with "1.prems" show ?thesis by (subst trim_max.simps) auto
  qed
qed

lemma ps_del_lemma:
  assumes inv: "ps_inv urg s" and mon: "ps_mon urg s f = Some (c, k)"
  shows "\<exists>s' m. ps_del urg s f = Some (OK, s') \<and> ps_inv urg s' \<and> ps_mon urg s' = (ps_mon urg s)(f := None) \<and>
     s' = s\<lparr>ps_readfds := ps_readfds s - {f}, ps_writefds := ps_writefds s - {f},
            ps_exceptfds := (if urg then ps_exceptfds s - {f} else ps_exceptfds s),
            ps_testrfds := ps_testrfds s - {f}, ps_testwfds := ps_testwfds s - {f},
            ps_testefds := (if urg then ps_testefds s - {f} else ps_testefds s),
            ps_clients := (ps_clients s)[nat f := None], ps_max_fd := m\<rparr> \<and> m \<le> ps_max_fd s"
proof -
  let ?cs = "(ps_clients s)[nat f := None]"
  have chk: "ps_check s f = Some OK" using ps_check_OK[OF inv] mon by simp
  have rng: "in_range f" using mon by (auto simp: ps_mon_def split: if_splits)
  have len: "length (ps_clients s) = FD_SETSIZE" "-1 \<le> ps_max_fd s" "ps_max_fd s < int (length ?cs)"
    using inv by (auto simp: ps_inv_def)
  obtain m where m: "trim_max ?cs (ps_max_fd s) = Some m" "-1 \<le> m" "m \<le> ps_max_fd s"
    "\<forall>j. m < j \<and> j \<le> ps_max_fd s \<longrightarrow> ?cs ! nat j = None" using trim_max_lemma[OF len(3,2)] by blast
  let ?s' = "s\<lparr>ps_readfds := ps_readfds s - {f}, ps_writefds := ps_writefds s - {f},
            ps_exceptfds := (if urg then ps_exceptfds s - {f} else ps_exceptfds s),
            ps_testrfds := ps_testrfds s - {f}, ps_testwfds := ps_testwfds s - {f},
            ps_testefds := (if urg then ps_testefds s - {f} else ps_testefds s),
            ps_clients := ?cs, ps_max_fd := m\<rparr>"
  have w: "wri (ps_clients s) f None = Some ?cs" using in_rangeD[OF rng] len by simp
  have run: "ps_del urg s f = Some (OK, ?s')"
    using chk w m(1) by (cases s) (simp add: ps_del_def ps_setMask_def Let_def fd_put_def has_def)
  have mon': "ps_mon urg ?s' = (ps_mon urg s)(f := None)"
  proof (rule ext)
    fix g
    show "ps_mon urg ?s' g = ((ps_mon urg s)(f := None)) g"
    proof (cases "g = f")
      case False
      then have "in_range g \<Longrightarrow> nat g \<noteq> nat f" using rng by (simp add: in_range_def eq_nat_nat_iff)
      with False show ?thesis by (auto simp: ps_mon_def)
    qed (use in_rangeD[OF rng] len in \<open>simp add: ps_mon_def\<close>)
  qed
  have "g \<le> m" if g: "ps_mon urg ?s' g \<noteq> None" for g
  proof (rule ccontr)
    assume "\<not> g \<le> m"
    moreover have "g \<le> ps_max_fd s" using g inv mon' by (auto simp: ps_inv_def split: if_splits)
    ultimately have "?cs ! nat g = None" using m(4) by simp
    with g show False by (auto simp: ps_mon_def split: if_splits)
  qed
  moreover have "\<forall>g \<in> A - {f}. ps_mon urg ?s' g \<noteq> None" if "\<forall>g \<in> A. ps_mon urg s g \<noteq> None" for A
    using that unfolding mon' by auto
  note sub = this
  have "\<forall>g \<in> ps_readfds ?s' \<union> ps_writefds ?s' \<union> (if urg then ps_exceptfds ?s' else {}). ps_mon urg ?s' g \<noteq> None"
    using sub[of "ps_readfds s \<union> ps_writefds s \<union> (if urg then ps_exceptfds s else {})"] inv
    unfolding ps_inv_def by (cases urg) auto
  moreover have "\<forall>g \<in> ps_testrfds ?s' \<union> ps_testwfds ?s' \<union> (if urg then ps_testefds ?s' else {}). ps_mon urg ?s' g \<noteq> None"
    using sub[of "ps_testrfds s \<union> ps_testwfds s \<union> (if urg then ps_testefds s else {})"] inv
    unfolding ps_inv_def by (cases urg) auto
  ultimately have "ps_inv urg ?s'" using len m unfolding ps_inv_def by simp
  with run mon' m(3) show ?thesis by blast
qed

lemma ps_add_lemma:
  assumes inv: "ps_inv urg s" and f: "in_range f" and free: "ps_mon urg s f = None"
  shows "\<exists>s'. ps_add urg s f c m = Some (OK, s') \<and> ps_inv urg s' \<and> ps_mon urg s' = (ps_mon urg s)(f \<mapsto> (c, norm_sel urg m))"
proof -
  let ?cs = "(ps_clients s)[nat f := Some c]"
  let ?s1 = "s\<lparr>ps_max_fd := max f (ps_max_fd s), ps_clients := ?cs\<rparr>"
  have len: "length (ps_clients s) = FD_SETSIZE" using inv by (simp add: ps_inv_def)
  have fr: "rdi (ps_clients s) f = Some None" "wri (ps_clients s) f (Some c) = Some ?cs"
    using in_rangeD[OF f] f len free by (simp_all add: ps_mon_def)
  obtain k where mon1: "ps_mon urg ?s1 = (ps_mon urg s)(f \<mapsto> (c, k))"
  proof
    show "ps_mon urg ?s1 = (ps_mon urg s)(f \<mapsto> (c, mk_mask (f \<in> ps_readfds s) (f \<in> ps_writefds s) (urg \<and> f \<in> ps_exceptfds s)))"
    proof (rule ext)
      fix g
      have "g \<noteq> f \<Longrightarrow> in_range g \<Longrightarrow> nat g \<noteq> nat f" using f by (simp add: in_range_def eq_nat_nat_iff)
      then show "ps_mon urg ?s1 g = ((ps_mon urg s)(f \<mapsto> (c, mk_mask (f \<in> ps_readfds s) (f \<in> ps_writefds s)
          (urg \<and> f \<in> ps_exceptfds s)))) g"
        using f len by (auto simp: ps_mon_def in_range_def)
    qed
  qed
  have "ps_inv urg ?s1" using inv f unfolding ps_inv_def mon1 by (cases urg) (auto simp: in_range_def le_max_iff_disj)
  from ps_masks(1)[OF this, of f c k m] mon1 obtain s2 where s2: "ps_setMask urg ?s1 f m = Some (OK, s2)"
    "ps_inv urg s2" "ps_mon urg s2 = (ps_mon urg s)(f \<mapsto> (c, norm_sel urg m))" by auto
  have "(if f > ps_max_fd s then s\<lparr>ps_max_fd := f\<rparr> else s)\<lparr>ps_clients := ?cs\<rparr> = ?s1"
    by (cases s) (auto simp: max_def)
  then have "ps_add urg s f c m = Some (OK, s2)"
    using fr s2(1) f by (auto simp: ps_add_def in_range_def Let_def)
  with s2 show ?thesis by blast
qed

subsection \<open>The back end provides the monitor interface\<close>

interpretation ps: monitor "ps_add urg" "ps_del urg" "ps_setMask urg" "ps_orMask urg" "ps_andMask urg" "ps_mon urg"
  "ps_inv urg" in_range "norm_sel urg" "(OR)" "(AND)" for urg
proof unfold_locales
  fix s :: "'c poller_select" and f c k
  assume "ps_inv urg s" "ps_mon urg s f = Some (c, k)"
  from ps_del_lemma[OF this]
  show "\<exists>s'. ps_del urg s f = Some (OK, s') \<and> ps_inv urg s' \<and> ps_mon urg s' = (ps_mon urg s)(f := None)" by blast
qed (rule ps_masks ps_add_lemma; assumption)+

subsection \<open>Delivery\<close>

definition ps_event :: "bool \<Rightarrow> 'c poller_select \<Rightarrow> int \<Rightarrow> 'c poll_event" where
  "ps_event urg s i = \<lparr>ev_fd = i, ev_revents = ps_revents urg s i, ev_client = ps_clients s ! nat i\<rparr>"

definition ps_bits :: "bool \<Rightarrow> 'c poller_select \<Rightarrow> int \<Rightarrow> int" where
  "ps_bits urg s = bits_at urg (ps_testrfds s) (ps_testwfds s) (ps_testefds s)"

definition ps_ready :: "bool \<Rightarrow> 'c poller_select \<Rightarrow> 'c poll_event list" where
  "ps_ready urg s = map (ps_event urg s) (filter (\<lambda>i. ps_revents urg s i \<noteq> 0) [ps_cur_fd s + 1..ps_max_fd s])"

text \<open>
  \<open>m_rbits\<close> counts at least the bits still to be delivered: deletions leave it too high.
\<close>

definition ps_ev_inv :: "bool \<Rightarrow> 'c poller_select \<Rightarrow> bool" where
  "ps_ev_inv urg s = (ps_inv urg s \<and> -1 \<le> ps_cur_fd s \<and>
     (\<Sum>i \<in> {ps_cur_fd s + 1..ps_max_fd s}. ps_bits urg s i) \<le> ps_rbits s)"

lemma ps_inv_cur [simp]: "ps_inv urg (s\<lparr>ps_cur_fd := c, ps_rbits := n\<rparr>) = ps_inv urg s"
    "ps_inv urg (s\<lparr>ps_cur_fd := c\<rparr>) = ps_inv urg s"
  unfolding ps_inv_def ps_mon_def by (simp_all cong: if_cong)

lemma ps_revents_mk: "ps_revents urg s i = mk_mask (i \<in> ps_testrfds s) (i \<in> ps_testwfds s) (urg \<and> i \<in> ps_testefds s)"
  by (simp add: ps_revents_def mk_mask_def Let_def or.assoc)

lemma ps_bits_has: "ps_bits urg s i = of_bool (has (ps_revents urg s i) POLLIN) + of_bool (has (ps_revents urg s i) POLLOUT)
    + of_bool (urg \<and> has (ps_revents urg s i) POLLPRI)"
  by (simp add: ps_bits_def bits_at_def ps_revents_mk has_mk_mask)

lemma ps_bits_nonneg [simp]: "0 \<le> ps_bits urg s i"
  by (simp add: ps_bits_has)

lemma ps_bits_pos: "ps_revents urg s i \<noteq> 0 \<longleftrightarrow> 1 \<le> ps_bits urg s i"
  by (auto simp: ps_bits_has ps_revents_mk mk_mask_zero has_mk_mask)

lemma upto_rec: "(i::int) \<le> j \<Longrightarrow> [i..j] = i # [i + 1..j]" "j < i \<Longrightarrow> [i..j] = []"
  by (simp_all add: upto_rec1)

lemma scan_up_lemma:
  "case filter (\<lambda>i. ps_revents urg s i \<noteq> 0) [cur + 1..ps_max_fd s] of
     [] \<Rightarrow> scan_up urg s cur = (max (cur + 1) (ps_max_fd s + 1), 0)
   | k # ks \<Rightarrow> scan_up urg s cur = (k, ps_revents urg s k) \<and> ps_revents urg s k \<noteq> 0 \<and> cur < k \<and> k \<le> ps_max_fd s \<and>
              ks = filter (\<lambda>i. ps_revents urg s i \<noteq> 0) [k + 1..ps_max_fd s]"
proof (induction urg s cur rule: scan_up.induct)
  case (1 urg s cur)
  show ?case
  proof (cases "cur < ps_max_fd s")
    case True
    then have u: "[cur + 1..ps_max_fd s] = (cur + 1) # [cur + 1 + 1..ps_max_fd s]" by (simp add: upto_rec1)
    have sc: "scan_up urg s cur = (if ps_revents urg s (cur + 1) \<noteq> 0 then (cur + 1, ps_revents urg s (cur + 1))
         else scan_up urg s (cur + 1))" using True by (subst scan_up.simps) simp
    show ?thesis
    proof (cases "ps_revents urg s (cur + 1) \<noteq> 0")
      case hit: True
      with True show ?thesis unfolding u sc by simp
    next
      case False
      with "1.IH"[OF True] True show ?thesis unfolding u sc by (auto split: list.splits)
    qed
  next
    case False
    then show ?thesis by (subst scan_up.simps) simp
  qed
qed

lemma sum_from:
  fixes f :: "int \<Rightarrow> int"
  assumes "\<And>i. 0 \<le> f i" "a \<le> k" "k \<le> b"
  shows "f k + (\<Sum>i \<in> {k + 1..b}. f i) \<le> (\<Sum>i \<in> {a..b}. f i)"
proof -
  have "f k + (\<Sum>i \<in> {k + 1..b}. f i) = (\<Sum>i \<in> insert k {k + 1..b}. f i)" by simp
  also have "\<dots> \<le> (\<Sum>i \<in> {a..b}. f i)" by (rule sum_mono2) (use assms in auto)
  finally show ?thesis .
qed

lemma ps_next_lemma:
  assumes inv: "ps_ev_inv urg s" and r: "ps_ready urg s = e # es"
  shows "\<exists>cur n. ps_getNextEvent urg s = Some (OK, Some e, s\<lparr>ps_cur_fd := cur, ps_rbits := n\<rparr>) \<and>
     ps_ev_inv urg (s\<lparr>ps_cur_fd := cur, ps_rbits := n\<rparr>) \<and> ps_ready urg (s\<lparr>ps_cur_fd := cur, ps_rbits := n\<rparr>) = es"
proof -
  let ?P = "\<lambda>i. ps_revents urg s i \<noteq> 0"
  obtain k ks where f: "filter ?P [ps_cur_fd s + 1..ps_max_fd s] = k # ks" "e = ps_event urg s k" "es = map (ps_event urg s) ks"
    using r by (auto simp: ps_ready_def map_eq_Cons_conv)
  from scan_up_lemma[of urg s "ps_cur_fd s"] f(1)
  have sc: "scan_up urg s (ps_cur_fd s) = (k, ps_revents urg s k)" and k: "?P k" "ps_cur_fd s < k" "k \<le> ps_max_fd s"
    and ks: "ks = filter ?P [k + 1..ps_max_fd s]" by auto
  have "ps_bits urg s k + (\<Sum>i \<in> {k + 1..ps_max_fd s}. ps_bits urg s i) \<le> (\<Sum>i \<in> {ps_cur_fd s + 1..ps_max_fd s}. ps_bits urg s i)"
    by (rule sum_from) (use k in auto)
  with inv have b: "ps_bits urg s k + (\<Sum>i \<in> {k + 1..ps_max_fd s}. ps_bits urg s i) \<le> ps_rbits s"
    by (simp add: ps_ev_inv_def)
  have p: "0 \<le> (\<Sum>i \<in> {k + 1..ps_max_fd s}. ps_bits urg s i)" by (rule sum_nonneg) simp
  have pos: "\<not> ps_rbits s < 1" using b p k(1) ps_bits_pos[of urg s k] by linarith
  have rng: "0 \<le> k" "nat k < length (ps_clients s)" using k inv by (auto simp: ps_ev_inv_def ps_inv_def)
  let ?s = "s\<lparr>ps_cur_fd := k, ps_rbits := ps_rbits s - ps_bits urg s k\<rparr>"
  have "ps_getNextEvent urg s = Some (OK, Some e, ?s)"
    using pos sc k(1) rng by (simp add: ps_getNextEvent_def Let_def f(2) ps_event_def ps_bits_has algebra_simps)
  moreover have same: "ps_bits urg ?s = ps_bits urg s" "ps_revents urg ?s = ps_revents urg s" "ps_event urg ?s = ps_event urg s"
    by (simp_all add: ps_bits_def ps_revents_def ps_event_def fun_eq_iff)
  moreover have "ps_ev_inv urg ?s"
    using inv b rng unfolding ps_ev_inv_def same by simp
  moreover have "ps_ready urg ?s = es" by (simp add: ps_ready_def same f(3) ks)
  ultimately show ?thesis by blast
qed

lemma ps_next_none_lemma:
  assumes inv: "ps_ev_inv urg s" and r: "ps_ready urg s = []"
  shows "\<exists>cur. ps_getNextEvent urg s = Some (Fail EWOULDBLOCK, None, s\<lparr>ps_cur_fd := cur\<rparr>) \<and>
     ps_ev_inv urg (s\<lparr>ps_cur_fd := cur\<rparr>) \<and> ps_ready urg (s\<lparr>ps_cur_fd := cur\<rparr>) = []"
proof (cases "ps_rbits s < 1")
  case True
  then have "ps_getNextEvent urg s = Some (Fail EWOULDBLOCK, None, s\<lparr>ps_cur_fd := ps_cur_fd s\<rparr>)"
    by (simp add: ps_getNextEvent_def)
  with inv r show ?thesis by (intro exI[of _ "ps_cur_fd s"]) simp
next
  case False
  let ?s = "s\<lparr>ps_cur_fd := max (ps_cur_fd s + 1) (ps_max_fd s + 1)\<rparr>"
  from scan_up_lemma[of urg s "ps_cur_fd s"] r
  have "scan_up urg s (ps_cur_fd s) = (max (ps_cur_fd s + 1) (ps_max_fd s + 1), 0)" by (simp add: ps_ready_def)
  with False have "ps_getNextEvent urg s = Some (Fail EWOULDBLOCK, None, ?s)" by (simp add: ps_getNextEvent_def Let_def)
  moreover have "ps_ev_inv urg ?s" using inv False unfolding ps_ev_inv_def by (auto simp: max_def)
  moreover have "ps_ready urg ?s = []" by (simp add: ps_ready_def max_def)
  ultimately show ?thesis by blast
qed

lemma filter_upto_trim:
  "m' \<le> m \<Longrightarrow> (\<And>i. m' < i \<Longrightarrow> i \<le> m \<Longrightarrow> \<not> P i) \<Longrightarrow> filter P [a..m] = filter P [a..(m'::int)]"
proof (induction "nat (m - m')" arbitrary: m)
  case (Suc n)
  show ?case
  proof (cases "a \<le> m")
    case True
    have m: "m' \<le> m - 1" "n = nat (m - 1 - m')" using Suc.hyps(2) by auto
    then have "filter P [a..m - 1] = filter P [a..m']" using Suc.hyps(1)[of "m - 1"] Suc.prems by auto
    moreover have "\<not> P m" using Suc.prems(2)[of m] m by simp
    ultimately show ?thesis using True by (simp add: upto_rec2)
  next
    case False
    with Suc.prems(1) show ?thesis by simp
  qed
qed auto

lemma ps_mon_revents: "ps_inv urg s \<Longrightarrow> ps_revents urg s i \<noteq> 0 \<Longrightarrow> ps_mon urg s i \<noteq> None"
  by (cases urg) (auto simp: ps_inv_def ps_revents_mk mk_mask_zero)

lemma ps_del_ready_lemma:
  assumes inv: "ps_ev_inv urg s" and mon: "ps_mon urg s f \<noteq> None"
  shows "\<exists>s'. ps_del urg s f = Some (OK, s') \<and> ps_ev_inv urg s' \<and> ps_mon urg s' = (ps_mon urg s)(f := None) \<and>
     ps_ready urg s' = filter (\<lambda>e. ev_fd e \<noteq> f) (ps_ready urg s)"
proof -
  have i: "ps_inv urg s" using inv by (simp add: ps_ev_inv_def)
  obtain c k where ck: "ps_mon urg s f = Some (c, k)" using mon by auto
  obtain s' m where d: "ps_del urg s f = Some (OK, s')" "ps_inv urg s'" "ps_mon urg s' = (ps_mon urg s)(f := None)"
    and s': "s' = s\<lparr>ps_readfds := ps_readfds s - {f}, ps_writefds := ps_writefds s - {f},
            ps_exceptfds := (if urg then ps_exceptfds s - {f} else ps_exceptfds s),
            ps_testrfds := ps_testrfds s - {f}, ps_testwfds := ps_testwfds s - {f},
            ps_testefds := (if urg then ps_testefds s - {f} else ps_testefds s),
            ps_clients := (ps_clients s)[nat f := None], ps_max_fd := m\<rparr>" and m: "m \<le> ps_max_fd s"
    using ps_del_lemma[OF i ck] by blast
  have rev: "ps_revents urg s' i = (if i = f then 0 else ps_revents urg s i)" for i
    by (auto simp: s' ps_revents_mk mk_mask_zero)
  have bits: "ps_bits urg s' i \<le> ps_bits urg s i" for i by (auto simp: s' ps_bits_def bits_at_def)
  have cur: "ps_cur_fd s' = ps_cur_fd s" "ps_max_fd s' = m" "ps_rbits s' = ps_rbits s" by (simp_all add: s')
  have "(\<Sum>i \<in> {ps_cur_fd s + 1..m}. ps_bits urg s' i) \<le> (\<Sum>i \<in> {ps_cur_fd s + 1..m}. ps_bits urg s i)"
    by (rule sum_mono) (rule bits)
  also have "\<dots> \<le> (\<Sum>i \<in> {ps_cur_fd s + 1..ps_max_fd s}. ps_bits urg s i)" by (rule sum_mono2) (use m in auto)
  finally have inv': "ps_ev_inv urg s'" using inv d(2) cur by (simp add: ps_ev_inv_def)
  have out: "\<not> ps_revents urg s' i \<noteq> 0" if "m < i" "i \<le> ps_max_fd s" for i
  proof
    assume "ps_revents urg s' i \<noteq> 0"
    with d(2) have "ps_mon urg s' i \<noteq> None" by (rule ps_mon_revents)
    with d(2) cur that show False by (force simp: ps_inv_def)
  qed
  have ev: "ps_event urg s' i = ps_event urg s i" if "i \<in> set [ps_cur_fd s + 1..ps_max_fd s]" "i \<noteq> f" for i
  proof -
    have "0 \<le> i" "0 \<le> f" using that inv ck by (auto simp: ps_ev_inv_def ps_mon_def in_range_def split: if_splits)
    then have "nat i \<noteq> nat f" using that(2) by (simp add: eq_nat_nat_iff)
    with that(2) show ?thesis using rev[of i] by (simp add: ps_event_def) (simp add: s')
  qed
  have "ps_ready urg s' = map (ps_event urg s') (filter (\<lambda>i. ps_revents urg s' i \<noteq> 0) [ps_cur_fd s + 1..ps_max_fd s])"
    unfolding ps_ready_def cur using filter_upto_trim[OF m out, where a = "ps_cur_fd s + 1"] by simp
  also have "\<dots> = map (ps_event urg s) (filter (\<lambda>i. ps_revents urg s i \<noteq> 0 \<and> i \<noteq> f) [ps_cur_fd s + 1..ps_max_fd s])"
    by (rule map_cong) (auto simp: rev ev intro: filter_cong)
  also have "\<dots> = filter (\<lambda>e. ev_fd e \<noteq> f) (ps_ready urg s)"
    by (simp add: ps_ready_def filter_map comp_def ps_event_def conj_commute)
  finally show ?thesis using d inv' by blast
qed

interpretation pse: safe_event_queue "ps_getNextEvent urg" "ps_ready urg" "ps_ev_inv urg" "ps_del urg"
  "\<lambda>s. dom (ps_mon urg s)" ev_fd for urg
proof unfold_locales
  fix s :: "'c poller_select" and e es
  assume "ps_ev_inv urg s" "ps_ready urg s = e # es"
  from ps_next_lemma[OF this]
  show "\<exists>s'. ps_getNextEvent urg s = Some (OK, Some e, s') \<and> ps_ev_inv urg s' \<and> ps_ready urg s' = es" by blast
next
  fix s :: "'c poller_select"
  assume "ps_ev_inv urg s" "ps_ready urg s = []"
  from ps_next_none_lemma[OF this]
  show "\<exists>s'. ps_getNextEvent urg s = Some (Fail EWOULDBLOCK, None, s') \<and> ps_ev_inv urg s' \<and> ps_ready urg s' = []" by blast
next
  fix s :: "'c poller_select" and f
  assume "ps_ev_inv urg s" "f \<in> dom (ps_mon urg s)"
  then show "\<exists>s'. ps_del urg s f = Some (OK, s') \<and> ps_ev_inv urg s' \<and> dom (ps_mon urg s') = dom (ps_mon urg s) - {f} \<and>
      ps_ready urg s' = filter (\<lambda>e. ev_fd e \<noteq> f) (ps_ready urg s)"
    using ps_del_ready_lemma[of urg s f] by (auto simp: dom_def)
next
  fix s s' :: "'c poller_select" and r e
  assume "ps_getNextEvent urg s = Some (r, e, s')"
  then obtain c n where "s' = s\<lparr>ps_cur_fd := c, ps_rbits := n\<rparr>"
    using that[of "ps_cur_fd s'" "ps_rbits s'"]
    by (cases s) (auto simp: ps_getNextEvent_def Let_def split: if_splits prod.splits bind_splits)
  then have "ps_mon urg s' = ps_mon urg s" by (simp add: ps_mon_def fun_eq_iff)
  then show "dom (ps_mon urg s') = dom (ps_mon urg s)" by simp
qed

lemma ps_ready_keys: "map ev_fd (ps_ready urg s) = filter (\<lambda>i. ps_revents urg s i \<noteq> 0) [ps_cur_fd s + 1..ps_max_fd s]"
  by (simp add: ps_ready_def ps_event_def comp_def)

lemma ps_ready_distinct: "ps_ready urg s = e # es \<Longrightarrow> filter (\<lambda>d. ev_fd d \<noteq> ev_fd e) es = es"
proof -
  assume r: "ps_ready urg s = e # es"
  have "distinct (map ev_fd (ps_ready urg s))" unfolding ps_ready_keys by simp
  then have "ev_fd e \<notin> ev_fd ` set es" using r by simp
  then have "\<forall>d \<in> set es. ev_fd d \<noteq> ev_fd e" by (metis image_eqI)
  then show ?thesis by (simp add: filter_id_conv)
qed

lemma ps_ready_client:
  assumes "ps_ev_inv urg s" "ps_ready urg s = e # es"
  shows "ps_mon urg s (ev_fd e) \<noteq> None" "\<exists>c. ev_client e = Some c"
proof -
  have inv: "ps_inv urg s" using assms(1) by (simp add: ps_ev_inv_def)
  have "e \<in> set (ps_ready urg s)" using assms(2) by simp
  then obtain i where i: "e = ps_event urg s i" "ps_revents urg s i \<noteq> 0" by (auto simp: ps_ready_def)
  have "ps_mon urg s i \<noteq> None" using ps_mon_revents[OF inv i(2)] .
  then show "ps_mon urg s (ev_fd e) \<noteq> None" "\<exists>c. ev_client e = Some c"
    using i(1) by (auto simp: ps_event_def ps_mon_def split: if_splits)
qed

lemma ps_next_mon: "ps_getNextEvent urg s = Some (r, e, s') \<Longrightarrow> ps_mon urg s' = ps_mon urg s"
proof -
  assume "ps_getNextEvent urg s = Some (r, e, s')"
  then obtain c n where "s' = s\<lparr>ps_cur_fd := c, ps_rbits := n\<rparr>"
    using that[of "ps_cur_fd s'" "ps_rbits s'"]
    by (cases s) (auto simp: ps_getNextEvent_def Let_def split: if_splits prod.splits bind_splits)
  then show "ps_mon urg s' = ps_mon urg s" by (simp add: ps_mon_def fun_eq_iff)
qed

interpretation psd: dispatcher "ps_getNextEvent urg" "ps_ready urg" "ps_ev_inv urg" "ps_del urg" "ps_mon urg" ev_fd
  "\<lambda>h. ps_dispatch urg (on_world h)" for urg
proof unfold_locales
  fix s s' :: "'c poller_select" and r e
  assume "ps_getNextEvent urg s = Some (r, e, s')"
  then show "ps_mon urg s' = ps_mon urg s" by (rule ps_next_mon)
next
  fix s s1 :: "'c poller_select" and e es
  assume i: "ps_ev_inv urg s" and r: "ps_ready urg s = e # es" and n: "ps_getNextEvent urg s = Some (OK, Some e, s1)"
  then have s1: "ps_ev_inv urg s1" "ps_ready urg s1 = es" "ps_mon urg s1 = ps_mon urg s"
    using ps_next_lemma[OF i r] ps_next_mon[OF n] by auto
  from ps_ready_client(1)[OF i r] ps_del_ready_lemma[OF s1(1), of "ev_fd e"] s1 ps_ready_distinct[OF r]
  show "\<exists>s2. ps_del urg s1 (ev_fd e) = Some (OK, s2) \<and> ps_ev_inv urg s2 \<and> ps_ready urg s2 = es \<and>
      ps_mon urg s2 = (ps_mon urg s1)(ev_fd e := None)" by auto
next
  fix s s1 :: "'c poller_select" and e es and h :: "'c poll_event \<Rightarrow> 'x \<Rightarrow> int \<times> 'x" and x
  assume i: "ps_ev_inv urg s" and r: "ps_ready urg s = e # es" and n: "ps_getNextEvent urg s = Some (OK, Some e, s1)"
  obtain c where c: "ev_client e = Some c" using ps_ready_client(2)[OF i r] by blast
  have "\<not> ps_rbits s < 1" using n by (auto simp: ps_getNextEvent_def)
  with n c show "ps_dispatch urg (on_world h) (s, x) = (case h e x of (err, x1) \<Rightarrow>
        if err \<noteq> 0 then do { (q, s2) \<leftarrow> ps_del urg s1 (ev_fd e); ps_dispatch urg (on_world h) (s2, x1) }
        else ps_dispatch urg (on_world h) (s1, x1))"
    by (subst ps_dispatch.simps) (simp add: on_world_def split: prod.splits)
next
  fix s :: "'c poller_select" and h :: "'c poll_event \<Rightarrow> 'x \<Rightarrow> int \<times> 'x" and x
  assume i: "ps_ev_inv urg s" and r: "ps_ready urg s = []"
  obtain s' where s': "ps_getNextEvent urg s = Some (Fail EWOULDBLOCK, None, s')" "ps_ev_inv urg s'"
    using ps_next_none_lemma[OF i r] by blast
  have m: "ps_mon urg s' = ps_mon urg s" by (rule ps_next_mon[OF s'(1)])
  show "\<exists>s'. ps_dispatch urg (on_world h) (s, x) = Some (s', x) \<and> ps_ev_inv urg s' \<and> ps_mon urg s' = ps_mon urg s"
  proof (cases "ps_rbits s > 0")
    case True
    with s' m show ?thesis by (subst ps_dispatch.simps) simp
  next
    case False
    with i show ?thesis by (subst ps_dispatch.simps) simp
  qed
qed

text \<open>\<open>select\<close> clears bits of the sets it is given, and sets none.\<close>

definition ps_reported :: "bool \<Rightarrow> 'c poller_select \<Rightarrow> int set \<Rightarrow> int set \<Rightarrow> int set \<Rightarrow> 'c poll_event list" where
  "ps_reported urg s R W E =
     map (\<lambda>i. \<lparr>ev_fd = i, ev_revents = mk_mask (i \<in> R) (i \<in> W) (urg \<and> i \<in> E), ev_client = map_option fst (ps_mon urg s i)\<rparr>)
       (filter (\<lambda>i. i \<in> R \<or> i \<in> W \<or> urg \<and> i \<in> E) [0..ps_max_fd s])"

lemma ps_wait_lemma:
  assumes inv: "ps_inv urg s"
    and os: "select (ps_max_fd s + 1) (ps_readfds s) (ps_writefds s) (if urg then ps_exceptfds s else {})
         (cdiv t 1000, cmod t 1000 * 1000) x = (Inr (R, W, E), x')"
    and sub: "R \<subseteq> ps_readfds s" "W \<subseteq> ps_writefds s" "E \<subseteq> ps_exceptfds s"
  shows "\<exists>s1. ps_waitForEvents urg select t s x =
      (if ps_reported urg s R W E = [] then Fail EWOULDBLOCK else OK, s1, x') \<and> ps_ev_inv urg s1 \<and>
      ps_mon urg s1 = ps_mon urg s \<and> ps_ready urg s1 = ps_reported urg s R W E"
proof -
  let ?n = "sum_list (map (bits_at urg R W E) [0..ps_max_fd s])"
  let ?s = "s\<lparr>ps_testrfds := R, ps_testwfds := W, ps_testefds := (if urg then E else ps_testefds s),
             ps_rbits := ?n, ps_cur_fd := -1\<rparr>"
  have mon: "ps_mon urg ?s = ps_mon urg s" by (simp add: ps_mon_def fun_eq_iff)
  have inv': "ps_inv urg ?s" using inv sub unfolding ps_inv_def mon by (cases urg) auto
  have n: "?n = (\<Sum>i \<in> {0..ps_max_fd s}. bits_at urg R W E i)" by (simp add: interv_sum_list_conv_sum_set_int)
  have bits: "ps_bits urg ?s = bits_at urg R W E" by (auto simp: ps_bits_def bits_at_def fun_eq_iff)
  have ei: "ps_ev_inv urg ?s" using inv' n bits by (simp add: ps_ev_inv_def)
  have rv: "ps_revents urg ?s i = mk_mask (i \<in> R) (i \<in> W) (urg \<and> i \<in> E)" for i by (auto simp: ps_revents_mk)
  have cl: "ps_clients s ! nat i = map_option fst (ps_mon urg s i)" if "0 \<le> i" "i \<le> ps_max_fd s" for i
  proof -
    have "in_range i" using that inv by (simp add: in_range_def ps_inv_def)
    then show ?thesis by (cases "ps_clients s ! nat i") (simp_all add: ps_mon_def)
  qed
  have rd: "ps_ready urg ?s = ps_reported urg s R W E"
    unfolding ps_ready_def ps_reported_def by (rule map_cong) (auto simp: rv mk_mask_zero ps_event_def cl)
  have nz: "?n \<noteq> 0 \<longleftrightarrow> ps_reported urg s R W E \<noteq> []"
    unfolding n ps_reported_def
    by (subst sum_nonneg_eq_0_iff) (auto simp: bits_at_def filter_empty_conv)
  have "ps_waitForEvents urg select t s x = (if ps_reported urg s R W E = [] then Fail EWOULDBLOCK else OK, ?s, x')"
    using os nz by (cases s; cases urg) (simp_all add: ps_waitForEvents_def Let_def)
  with ei mon rd show ?thesis by blast
qed

subsection \<open>Properties\<close>

text \<open>
  C22. The tables and bit sets implement a map: from a well-formed poller, every sequence of \<open>add\<close>,
  \<open>del\<close>, \<open>setMask\<close>, \<open>orMask\<close> and \<open>andMask\<close> calls that adds no descriptor twice, uses only monitored ones
  and stays below FD\_SETSIZE succeeds without a failed assertion or a bad access, and leaves exactly the
  clients and masks that the calls leave in a plain map, masks cut to the flags the back end knows.
\<close>

theorem ps_refines_map:
  assumes "ps_inv urg s" "poll_all_allowed in_range (norm_sel urg) (OR) (AND) (ps_mon urg s) ops"
  shows "\<exists>s'. poll_run (poll_step (ps_add urg) (ps_del urg) (ps_setMask urg) (ps_orMask urg) (ps_andMask urg)) s ops = Some s' \<and>
              ps_inv urg s' \<and> ps_mon urg s' = foldl (poll_spec (norm_sel urg) (OR) (AND)) (ps_mon urg s) ops"
  by (rule ps.run_refines[OF assms])

definition ps0 :: "nat poller_select" where
  "ps0 = snd (ps_init True \<lparr>ps_clients = [], ps_max_fd = 0, ps_rbits = 0, ps_cur_fd = 0, ps_readfds = {}, ps_writefds = {},
     ps_exceptfds = {}, ps_testrfds = {}, ps_testwfds = {}, ps_testefds = {}\<rparr>)"

lemma ps0 [simp]: "ps_inv True ps0" "ps_mon True ps0 = Map.empty"
proof -
  show m: "ps_mon True ps0 = Map.empty"
    by (rule ext) (auto simp: ps0_def ps_init_def ps_mon_def Let_def dest: in_rangeD)
  show "ps_inv True ps0" unfolding ps_inv_def m by (simp add: ps0_def ps_init_def Let_def FD_SETSIZE_def)
qed

abbreviation "ps_step0 \<equiv> poll_step (ps_add True) (ps_del True) (ps_setMask True) (ps_orMask True) (ps_andMask True)"

theorem ps_refines_map_witness:
  "\<exists>s'. poll_run ps_step0 ps0 [PAdd 5 (7::nat) POLLIN, PAdd 20 8 POLLOUT, POr 5 POLLERR, PDel 20] = Some s' \<and>
        ps_mon True s' = [5 \<mapsto> (7, POLLIN)]"
proof -
  let ?ops = "[PAdd 5 (7::nat) POLLIN, PAdd 20 8 POLLOUT, POr 5 POLLERR, PDel (20::int)]"
  have al: "poll_all_allowed in_range (norm_sel True) (OR) (AND) (ps_mon True ps0) ?ops" by (simp add: in_range_def FD_SETSIZE_def)
  have m: "norm_sel True (norm_sel True POLLIN OR POLLERR) = POLLIN" by (simp add: norm_sel_def poll_bits)
  have "foldl (poll_spec (norm_sel True) (OR) (AND)) (ps_mon True ps0) ?ops = [5 \<mapsto> (7, POLLIN)]"
    by (rule ext) (simp add: m)
  with ps_refines_map[OF ps0(1) al]
  have "\<exists>s'. poll_run ps_step0 ps0 ?ops = Some s' \<and> ps_inv True s' \<and> ps_mon True s' = [5 \<mapsto> (7, POLLIN)]" by (simp only:)
  then show ?thesis by (elim exE conjE) (intro exI conjI)
qed

text \<open>
  C23. After a wait, whatever calls of \<open>getNextEvent\<close> and \<open>del\<close> follow in whatever order, every ready
  descriptor that was not deleted meanwhile is returned once, in ascending order, with the events that
  \<open>select\<close> reported and its client, and a deleted one is never returned; then comes EWOULDBLOCK. (This is
  the case the comment in \<open>del\<close> calls the bug reported by Jeon.)
\<close>

theorem ps_delivery_under_deletion:
  assumes "ps_inv urg s"
    "select (ps_max_fd s + 1) (ps_readfds s) (ps_writefds s) (if urg then ps_exceptfds s else {})
         (cdiv t 1000, cmod t 1000 * 1000) x = (Inr (R, W, E), x')"
    "R \<subseteq> ps_readfds s" "W \<subseteq> ps_writefds s" "E \<subseteq> ps_exceptfds s"
    "dq_allowed (dom (ps_mon urg s)) ops"
  shows "\<exists>r s1. ps_waitForEvents urg select t s x = (r, s1, x') \<and>
     dq_run (ps_getNextEvent urg) (ps_del urg) s1 ops = Some (dq_spec ev_fd (ps_reported urg s R W E) ops)"
proof -
  obtain r s1 where s1: "ps_waitForEvents urg select t s x = (r, s1, x')" "ps_ev_inv urg s1"
      "ps_mon urg s1 = ps_mon urg s" "ps_ready urg s1 = ps_reported urg s R W E"
    using ps_wait_lemma[where urg = urg and s = s and select = select and t = t and x = x and R = R and W = W and E = E and x' = x', OF assms(1-5)] by blast
  from pse.run_delivers[OF s1(2), of ops] s1 assms(6) show ?thesis by simp
qed

text \<open>
  \<open>waitAndDispatchEvents\<close> calls the handler of every ready descriptor once, in ascending order, and
  then stops monitoring exactly those whose handler returned an error.
\<close>

theorem ps_dispatches_all:
  assumes "ps_inv urg s"
    "select (ps_max_fd s + 1) (ps_readfds s) (ps_writefds s) (if urg then ps_exceptfds s else {})
         (cdiv t 1000, cmod t 1000 * 1000) x = (Inr (R, W, E), x1)"
    "R \<subseteq> ps_readfds s" "W \<subseteq> ps_writefds s" "E \<subseteq> ps_exceptfds s"
    "ps_reported urg s R W E \<noteq> []"
    "disp_all h (ps_reported urg s R W E) x1 = (bad, x2)"
  shows "\<exists>s'. ps_waitAndDispatchEvents urg select (on_world h) t s x = Some (OK, s', x2) \<and>
     ps_inv urg s' \<and> ps_mon urg s' = ps_mon urg s |` (- (ev_fd ` set bad))"
proof -
  obtain s1 where s1: "ps_waitForEvents urg select t s x = (OK, s1, x1)" "ps_ev_inv urg s1"
      "ps_mon urg s1 = ps_mon urg s" "ps_ready urg s1 = ps_reported urg s R W E"
    using ps_wait_lemma[where urg = urg and s = s and select = select and t = t and x = x and R = R and W = W and E = E and x' = x1, OF assms(1-5)] assms(6) by auto
  obtain s' where "ps_dispatch urg (on_world h) (s1, x1) = Some (s', x2)" "ps_ev_inv urg s'"
      "ps_mon urg s' = ps_mon urg s1 |` (- (ev_fd ` set bad))"
    using psd.loop_dispatches[OF s1(2), of h x1 bad x2] s1(4) assms(7) by auto
  with s1 show ?thesis by (simp add: ps_waitAndDispatchEvents_def ps_ev_inv_def)
qed

text \<open>Descriptors 3 and 5, both readable.\<close>

definition ps2 :: "nat poller_select" where
  "ps2 = the (poll_run ps_step0 ps0 [PAdd 3 7 POLLIN, PAdd 5 8 POLLIN])"

lemma ps2: "ps_inv True ps2" "ps_mon True ps2 = [3 \<mapsto> (7, POLLIN), 5 \<mapsto> (8, POLLIN)]"
    "ps_max_fd ps2 = 5" "ps_readfds ps2 = {3, 5}" "ps_writefds ps2 = {}" "ps_exceptfds ps2 = {}"
proof -
  let ?ops = "[PAdd 3 (7::nat) POLLIN, PAdd 5 8 POLLIN]"
  have al: "poll_all_allowed in_range (norm_sel True) (OR) (AND) (ps_mon True ps0) ?ops" by (simp add: in_range_def FD_SETSIZE_def)
  have m: "norm_sel True POLLIN = POLLIN" by (simp add: norm_sel_def poll_bits)
  obtain s' where "poll_run ps_step0 ps0 ?ops = Some s'" "ps_inv True s'"
    "ps_mon True s' = foldl (poll_spec (norm_sel True) (OR) (AND)) (ps_mon True ps0) ?ops"
    using ps.run_refines[OF ps0(1) al] by blast
  then show "ps_inv True ps2" "ps_mon True ps2 = [3 \<mapsto> (7, POLLIN), 5 \<mapsto> (8, POLLIN)]" by (simp_all add: ps2_def m)
  show "ps_max_fd ps2 = 5" "ps_readfds ps2 = {3, 5}" "ps_writefds ps2 = {}" "ps_exceptfds ps2 = {}"
    by (simp_all add: ps2_def ps_add_def ps_setMask_def ps_check_def ps0_def ps_init_def Let_def FD_SETSIZE_def fd_put_def
        has_def poll_bits rdi_def rd_def wri_def wr_def insert_commute)
qed

lemma ps2_reported: "ps_reported True ps2 {3, 5} {} {} =
    [\<lparr>ev_fd = 3, ev_revents = POLLIN, ev_client = Some 7\<rparr>, \<lparr>ev_fd = 5, ev_revents = POLLIN, ev_client = Some 8\<rparr>]"
  by (simp add: ps_reported_def ps2 upto_rec mk_mask_def)

theorem ps_delivery_under_deletion_witness:
  "\<exists>r s1. ps_waitForEvents True (\<lambda>n R W E t x. (Inr (R, {}, {}), x)) 10 ps2 () = (r, s1, ()) \<and>
     dq_run (ps_getNextEvent True) (ps_del True) s1 [DNext, DDel 5, DNext] =
       Some [Some \<lparr>ev_fd = 3, ev_revents = POLLIN, ev_client = Some 7\<rparr>, None]"
  using ps_delivery_under_deletion[of True ps2 "\<lambda>n R W E t x. (Inr (R, {}, {}), x)" 10 "()" "{3, 5}" "{}" "{}" "()"
      "[DNext, DDel 5, DNext]"]
  by (simp add: ps2 ps2_reported)

theorem ps_dispatches_all_witness:
  "\<exists>s'. ps_waitAndDispatchEvents True (\<lambda>n R W E t x. (Inr (R, {}, {}), x))
          (on_world (\<lambda>ev x. (if ev_fd ev = 3 then -1 else 0, x @ [ev_fd ev]))) 10 ps2 [] = Some (OK, s', [3, 5]) \<and>
        ps_mon True s' = [5 \<mapsto> (8, POLLIN)]"
proof -
  have r: "[3 \<mapsto> (7::nat, POLLIN), 5 \<mapsto> (8, POLLIN)] |` (- {3::int}) = [5 \<mapsto> (8, POLLIN)]" by (auto simp: restrict_map_def)
  show ?thesis
    using ps_dispatches_all[of True ps2 "\<lambda>n R W E t x. (Inr (R, {}, {}), x)" 10 "[]" "{3, 5}" "{}" "{}" "[]"
        "\<lambda>ev x. (if ev_fd ev = 3 then -1 else 0, x @ [ev_fd ev])"
        "[\<lparr>ev_fd = 3, ev_revents = POLLIN, ev_client = Some 7\<rparr>]" "[3, 5]"]
    by (auto simp: ps2 ps2_reported r)
qed

end
