(* ===== verification/Ftp_pipe.thy ===== *)
theory Ftp_pipe
  imports Sked Nbbio Ftp_proto Poller_base
begin

unbundle bit_operations_syntax

text \<open>
  The FTP connection of ftp\_client\_pipe.h and ftp\_client\_pipe.cc: it ferries lines between the
  control socket and the protocol engine, opens the data socket, throttles the reads on it and tells
  the user when a command is done. Members have the prefix \<open>ip_\<close> where the source has \<open>m_\<close>.

  The event queue \<open>*m_sked\<close> is the one of Sked, shared by all its clients; the poller is an abstract
  class, so its operations are arguments, like the system calls and the user's \<open>handle_data_io\<close> and
  \<open>ftpCmdDone\<close>. They act on the part \<open>'x\<close> of the world, which holds the operating system, the
  poller and the user's own objects.
\<close>

subsection \<open>State\<close>

definition KICKSTART :: mask where "KICKSTART = 0x8000"
definition iline_LEN :: nat where "iline_LEN = 500"
definition O_NONBLOCK :: "32 word" where "O_NONBLOCK = 0x800"

datatype ipstate = IDLE | GETTING | SLEEPING | PUTTING

record 't pipe =
  ip_state :: ipstate
  ip_cfd :: int
  ip_cfd_connecting :: bool
  ip_dfd :: int
  ip_dfd_connecting :: bool
  ip_obuf :: nbbio
  ip_ibuf :: nbbio
  ip_iline :: "char list"
  ip_iline_full :: bool
  ip_bytesPerTick :: int
  ip_bytesPerSec :: int
  ip_bytesUnsleptFor :: int
  ip_dfd_events :: mask
  ip_wakeup :: 't
  ip_in_ftpCmdDone :: nat
  ip_local_addr :: "nat option" \<comment> \<open>null, or a position in the pool of local addresses\<close>
  ip_proto :: ftp_proto

text \<open>The world a connection acts on: the event queue, the pool of local addresses, the rest.\<close>

record ('c, 't, 'x) world =
  wd_sked :: "('c, 't) sked_state"
  wd_locals :: "sockaddr_in list"
  wd_x :: 'x

text \<open>
  What a connection calls: its identity as a client, the system calls, the poller, the \<open>realloc\<close> of
  the event queue and the user's data handler. A failing call returns \<open>errno\<close>. \<open>handle_data_io\<close> returns
  \<open>Inr n\<close> for \<open>n\<close> bytes and \<open>Inl e\<close> for \<open>-e\<close>. \<open>statusbuf0\<close> is what the uninitialised array
  \<open>statusbuf\<close> holds.
\<close>

record ('c, 't, 'x) calls =
  this :: 'c
  sked_realloc :: "nat \<Rightarrow> ('c, 't) SkedRecord list \<Rightarrow> ('c, 't) SkedRecord list option"
  os_gettimeofday :: "'x \<Rightarrow> (int \<times> int) \<times> 'x"
  os_inet_aton :: "char list \<Rightarrow> 32 word option"
  os_gethostbyname :: "char list \<Rightarrow> 'x \<Rightarrow> 32 word option \<times> 'x"
  os_socket :: "'x \<Rightarrow> (errno + int) \<times> 'x"
  os_getfl :: "int \<Rightarrow> 'x \<Rightarrow> (errno + 32 word) \<times> 'x"
  os_setfl :: "int \<Rightarrow> 32 word \<Rightarrow> 'x \<Rightarrow> errno option \<times> 'x"
  os_close :: "int \<Rightarrow> 'x \<Rightarrow> errno option \<times> 'x"
  os_connect :: "int \<Rightarrow> sockaddr_in \<Rightarrow> 'x \<Rightarrow> errno option \<times> 'x"
  os_bind :: "int \<Rightarrow> sockaddr_in \<Rightarrow> 'x \<Rightarrow> errno option \<times> 'x"
  os_so_error :: "int \<Rightarrow> 'x \<Rightarrow> (errno + errno option) \<times> 'x"
  os_read :: "'x read_call"
  os_write :: "'x write_call"
  po_add :: "int \<Rightarrow> mask \<Rightarrow> 'x \<Rightarrow> (rc \<times> 'x) option"
  po_del :: "int \<Rightarrow> 'x \<Rightarrow> (rc \<times> 'x) option"
  po_setMask :: "int \<Rightarrow> mask \<Rightarrow> 'x \<Rightarrow> (rc \<times> 'x) option"
  po_clearReadiness :: "int \<Rightarrow> mask \<Rightarrow> 'x \<Rightarrow> (rc \<times> 'x) option"
  handle_data_io :: "int \<Rightarrow> mask \<Rightarrow> 't \<Rightarrow> ('c, 't, 'x) world \<Rightarrow> ((errno + nat) \<times> ('c, 't, 'x) world) option"
  statusbuf0 :: "char list"

type_synonym ('c, 'w, 'x) ipcalls = "('c, 'w clock, 'x) calls"
type_synonym ('c, 'w, 'x) ipworld = "('c, 'w clock, 'x) world"
type_synonym 'w ipipe = "'w clock pipe"

text \<open>\<open>ftpCmdDone(xerr, status, statusbuf)\<close>; it may call any method of the connection.\<close>

type_synonym ('c, 'w, 'x) cmd_done =
  "rc \<Rightarrow> int \<Rightarrow> char list \<Rightarrow> 'w ipipe \<times> ('c, 'w, 'x) ipworld \<Rightarrow> ('w ipipe \<times> ('c, 'w, 'x) ipworld) option"

definition on_x :: "('x \<Rightarrow> 'a \<times> 'x) \<Rightarrow> ('c, 't, 'x) world \<Rightarrow> 'a \<times> ('c, 't, 'x) world" where
  "on_x f w = (case f (wd_x w) of (a, x) \<Rightarrow> (a, w\<lparr>wd_x := x\<rparr>))"

definition on_xo :: "('x \<Rightarrow> ('a \<times> 'x) option) \<Rightarrow> ('c, 't, 'x) world \<Rightarrow> ('a \<times> ('c, 't, 'x) world) option" where
  "on_xo f w = do { (a, x) \<leftarrow> f (wd_x w); Some (a, w\<lparr>wd_x := x\<rparr>) }"

definition read_eclock :: "('c, 'w::len, 'x) ipcalls \<Rightarrow> ('c, 'w, 'x) ipworld \<Rightarrow> 'w clock \<times> ('c, 'w, 'x) ipworld" where
  "read_eclock E w = (case on_x (os_gettimeofday E) w of ((s, u), w1) \<Rightarrow> (eclock s u, w1))"

text \<open>\<open>m_sked->addClient(this, t)\<close> and \<open>m_sked->delClient(this)\<close>; the callers ignore the results.\<close>

definition sched_at :: "('c, 'w::len, 'x) ipcalls \<Rightarrow> 'w clock \<Rightarrow> ('c, 'w, 'x) ipworld \<Rightarrow> ('c, 'w, 'x) ipworld option" where
  "sched_at E t w = do {
     (r, s) \<leftarrow> addClient (sked_realloc E) (wd_sked w) (this E) t;
     Some (w\<lparr>wd_sked := s\<rparr>)
   }"

definition unsched :: "('c, 'w::len, 'x) ipcalls \<Rightarrow> ('c, 'w, 'x) ipworld \<Rightarrow> ('c, 'w, 'x) ipworld option" where
  "unsched E w = do { (r, s) \<leftarrow> delClient (wd_sked w) (this E); Some (w\<lparr>wd_sked := s\<rparr>) }"

subsection \<open>Connecting\<close>

definition setNonblocking ::
  "('c, 't, 'x) calls \<Rightarrow> int \<Rightarrow> ('c, 't, 'x) world \<Rightarrow> errno option \<times> ('c, 't, 'x) world" where
  "setNonblocking E fd w =
     (case on_x (os_getfl E fd) w of (r, w1) \<Rightarrow>
        let flags = (case r of Inl e \<Rightarrow> 0 | Inr f \<Rightarrow> f)
        in on_x (os_setfl E fd (flags OR O_NONBLOCK)) w1)"

definition ip_init :: "int \<Rightarrow> nat option \<Rightarrow> 'w::len ipipe \<Rightarrow> 'w ipipe" where
  "ip_init max_bytes_per_sec local_addr p =
     p\<lparr>ip_local_addr := local_addr, ip_proto := fp_init (ip_proto p),
       ip_ibuf := nbbio_init (ip_ibuf p), ip_obuf := nbbio_init (ip_obuf p), ip_in_ftpCmdDone := 0,
       ip_cfd := -1, ip_dfd := -1, ip_iline := (ip_iline p)[0 := NUL],
       ip_cfd_connecting := False, ip_dfd_connecting := False,
       ip_bytesPerSec := max_bytes_per_sec, ip_bytesPerTick := cdiv max_bytes_per_sec eclock_HERTZ,
       ip_dfd_events := 0, ip_state := IDLE\<rparr>"

definition minport :: nat where "minport = 1024"
definition maxport :: nat where "maxport = 51023"

text \<open>
  The search for a local port: \<open>Inl e\<close> is the early return of -1, \<open>Inr ()\<close> the end of the loop, with
  or without a bound port. \<open>src\<close> is updated in the pool.
\<close>

fun bind_loop ::
  "('c, 't, 'x) calls \<Rightarrow> nat \<Rightarrow> int \<Rightarrow> nat \<Rightarrow> ('c, 't, 'x) world \<Rightarrow> ((errno + unit) \<times> ('c, 't, 'x) world) option" where
  "bind_loop E 0 sock l w = Some (Inr (), w)"
| "bind_loop E (Suc remaining) sock l w = do {
     src \<leftarrow> rd (wd_locals w) l;
     let port = htons (sin_port src) + 1;
     let port' = (if unat port < minport \<or> unat port > maxport then of_nat minport else port);
     let src' = src\<lparr>sin_port := htons port'\<rparr>;
     ls \<leftarrow> wr (wd_locals w) l src';
     let (r, w1) = on_x (os_bind E sock src') (w\<lparr>wd_locals := ls\<rparr>);
     case r of
       None \<Rightarrow> Some (Inr (), w1)
     | Some e \<Rightarrow> if e \<noteq> EADDRINUSE then Some (Inl e, w1) else bind_loop E remaining sock l w1
   }"

definition ephemeral_connect ::
  "('c, 't, 'x) calls \<Rightarrow> int \<Rightarrow> sockaddr_in \<Rightarrow> nat option \<Rightarrow> ('c, 't, 'x) world \<Rightarrow>
   (errno option \<times> ('c, 't, 'x) world) option" where
  "ephemeral_connect E sock dest src w =
     (case src of
        None \<Rightarrow> Some (on_x (os_connect E sock dest) w)
      | Some l \<Rightarrow> do {
          (r, w1) \<leftarrow> bind_loop E (maxport - minport) sock l w;
          case r of
            Inl e \<Rightarrow> Some (Some e, w1)
          | Inr _ \<Rightarrow> Some (on_x (os_connect E sock dest) w1)
        })"

definition ip_resolve :: "('c, 't, 'x) calls \<Rightarrow> char list \<Rightarrow> ('c, 't, 'x) world \<Rightarrow> 32 word option \<times> ('c, 't, 'x) world" where
  "ip_resolve E hostname w =
     (case os_inet_aton E hostname of
        Some a \<Rightarrow> (Some a, w)
      | None \<Rightarrow> on_x (os_gethostbyname E hostname) w)"

definition ip_connect ::
  "('c, 'w::len, 'x) ipcalls \<Rightarrow> char list \<Rightarrow> int \<Rightarrow> 'w ipipe \<Rightarrow> ('c, 'w, 'x) ipworld \<Rightarrow>
   (rc \<times> 'w ipipe \<times> ('c, 'w, 'x) ipworld) option" where
  "ip_connect E hostname port p w =
     (let p0 = ip_init (ip_bytesPerSec p) (ip_local_addr p) p in
      case ip_resolve E hostname w of
        (None, w1) \<Rightarrow> Some (Fail ENOENT, p0, w1)
      | (Some a, w1) \<Rightarrow>
          let address = \<lparr>sin_family = AF_INET, s_addr = a, sin_port = htons (word_of_int port)\<rparr> in
          (case on_x (os_socket E) w1 of
             (Inl e, w2) \<Rightarrow> Some (Fail e, p0, w2)
           | (Inr sock, w2) \<Rightarrow>
               (case setNonblocking E sock w2 of
                  (Some e, w3) \<Rightarrow> Some (Fail e, p0, snd (on_x (os_close E sock) w3))
                | (None, w3) \<Rightarrow> do {
                    (ce, w4) \<leftarrow> ephemeral_connect E sock address (ip_local_addr p0) w3;
                    if ce \<noteq> None \<and> ce \<noteq> Some EINPROGRESS then
                      Some (Fail (the ce), p0, snd (on_x (os_close E sock) w4))
                    else do {
                      let p1 = p0\<lparr>ip_cfd_connecting := (ce \<noteq> None), ip_cfd := sock\<rparr>;
                      (err, w5) \<leftarrow> on_xo (po_add E sock (POLLIN OR POLLOUT)) w4;
                      if err \<noteq> OK then Some (err, p1, w5)
                      else do {
                        let (now, w6) = read_eclock E w5;
                        w7 \<leftarrow> sched_at E (now + word_of_int (5 * eclock_HERTZ)) w6;
                        Some (OK, p1\<lparr>ip_iline_full := False\<rparr>, w7)
                      }
                    }
                  })))"

text \<open>One half of \<open>shutdown\<close>: take a descriptor out of the poller and close it.\<close>

definition drop_fd :: "('c, 't, 'x) calls \<Rightarrow> int \<Rightarrow> ('c, 't, 'x) world \<Rightarrow> (int \<times> ('c, 't, 'x) world) option" where
  "drop_fd E fd w =
     (if fd \<noteq> -1 then do {
        (r, w1) \<leftarrow> on_xo (po_del E fd) w;
        let (c, w2) = on_x (os_close E fd) w1;
        Some (case c of None \<Rightarrow> 0 | Some e \<Rightarrow> -1, w2)
      }
      else Some (0, w))"

definition ip_shutdown ::
  "('c, 'w::len, 'x) ipcalls \<Rightarrow> 'w ipipe \<Rightarrow> ('c, 'w, 'x) ipworld \<Rightarrow> (int \<times> 'w ipipe \<times> ('c, 'w, 'x) ipworld) option" where
  "ip_shutdown E p w =
     (if ip_cfd p = -1 \<and> ip_dfd p = -1 then Some (0, p, w)
      else do {
        w1 \<leftarrow> unsched E w;
        let p1 = p\<lparr>ip_state := IDLE, ip_cfd_connecting := False, ip_dfd_connecting := False,
                   ip_dfd := -1, ip_cfd := -1\<rparr>;
        (err1, w2) \<leftarrow> drop_fd E (ip_cfd p) w1;
        (err2, w3) \<leftarrow> drop_fd E (ip_dfd p) w2;
        Some (if err1 \<noteq> 0 then err1 else err2, p1, w3)
      })"

definition call_ftpCmdDone ::
  "('c, 'w::len, 'x) cmd_done \<Rightarrow> rc \<Rightarrow> int \<Rightarrow> char list \<Rightarrow> 'w ipipe \<Rightarrow> ('c, 'w, 'x) ipworld \<Rightarrow>
   ('w ipipe \<times> ('c, 'w, 'x) ipworld) option" where
  "call_ftpCmdDone user xerr status statusbuf p w =
     (if ip_in_ftpCmdDone p = 0 then do {
        (p1, w1) \<leftarrow> user xerr status statusbuf (p\<lparr>ip_in_ftpCmdDone := ip_in_ftpCmdDone p + 1\<rparr>, w);
        Some (p1\<lparr>ip_in_ftpCmdDone := ip_in_ftpCmdDone p1 - 1\<rparr>, w1)
      }
      else Some (p, w))"

definition shutdownAndNotify ::
  "('c, 'w::len, 'x) ipcalls \<Rightarrow> ('c, 'w, 'x) cmd_done \<Rightarrow> 'w ipipe \<Rightarrow> ('c, 'w, 'x) ipworld \<Rightarrow>
   ('w ipipe \<times> ('c, 'w, 'x) ipworld) option" where
  "shutdownAndNotify E user p w = do {
     (r, p1, w1) \<leftarrow> ip_shutdown E p w;
     call_ftpCmdDone user (Fail EPIPE) 0 (''shutdown'' @ [NUL]) p1 w1
   }"

subsection \<open>The data descriptor\<close>

text \<open>
  The parts of \<open>notifyPollEvent_dfd\<close>. A result OK means that the handler goes on; \<open>Fail e\<close> is an early
  return of \<open>e\<close>. The first part checks a connection in progress; its condition is the source's
  \<open>(revents & KICKSTART|POLLOUT) == POLLOUT\<close>, in which \<open>&\<close> binds tighter than \<open>|\<close>.
\<close>

definition dfd_connecting ::
  "('c, 't, 'x) calls \<Rightarrow> mask \<Rightarrow> 't pipe \<Rightarrow> ('c, 't, 'x) world \<Rightarrow> (rc \<times> 't pipe \<times> ('c, 't, 'x) world) option" where
  "dfd_connecting E revents p w =
     (if ip_dfd_connecting p \<and> (revents AND KICKSTART) OR POLLOUT = POLLOUT then
        (case on_x (os_so_error E (ip_dfd p)) w of
           (Inl e, w1) \<Rightarrow> Some (Fail e, p, w1)
         | (Inr None, w1) \<Rightarrow> Some (OK, p\<lparr>ip_dfd_connecting := False\<rparr>, w1)
         | (Inr (Some e), w1) \<Rightarrow>
             if e = EINPROGRESS then do {
               (r, w2) \<leftarrow> on_xo (po_clearReadiness E (ip_dfd p) POLLOUT) w1;
               Some (OK, p, w2)
             }
             else Some (Fail e, p, w1))
      else Some (OK, p, w))"

definition dfd_snooze ::
  "('c, 'w::len, 'x) ipcalls \<Rightarrow> mask \<Rightarrow> 'w clock \<Rightarrow> 'w ipipe \<Rightarrow> ('c, 'w, 'x) ipworld \<Rightarrow>
   ('w ipipe \<times> ('c, 'w, 'x) ipworld) option" where
  "dfd_snooze E revents now p w =
     (if ip_state p = GETTING \<and> revents AND (KICKSTART OR POLLHUP) = 0 \<and> eclock_after (ip_wakeup p) now then do {
        assertion (skedIndex (wd_sked w) (this E) = 0);
        w1 \<leftarrow> sched_at E (ip_wakeup p) w;
        Some (p\<lparr>ip_state := SLEEPING\<rparr>, w1)
      }
      else Some (p, w))"

text \<open>The transfer: the result, whether the descriptor is done (\<open>hup\<close>), and \<open>nxfer\<close>.\<close>

definition dfd_transfer ::
  "('c, 'w::len, 'x) ipcalls \<Rightarrow> int \<Rightarrow> mask \<Rightarrow> 'w clock \<Rightarrow> 'w ipipe \<Rightarrow> ('c, 'w, 'x) ipworld \<Rightarrow>
   (rc \<times> bool \<times> int \<times> 'w ipipe \<times> ('c, 'w, 'x) ipworld) option" where
  "dfd_transfer E fd revents now p w =
     (if ip_state p = SLEEPING then Some (OK, False, 0, p\<lparr>ip_dfd_events := ip_dfd_events p OR revents\<rparr>, w)
      else if ip_state p = GETTING \<and> has revents POLLIN \<or> ip_state p = PUTTING \<and> has revents POLLOUT then do {
        w1 \<leftarrow> unsched E w;
        (nxfer, w2) \<leftarrow> handle_data_io E fd revents now w1;
        case nxfer of
          Inr n \<Rightarrow> Some (OK, n = 0, int n, p, w2)
        | Inl e \<Rightarrow>
            if e = EWOULDBLOCK then do {
              (r, w3) \<leftarrow> on_xo (po_clearReadiness E (ip_dfd p) (if ip_state p = GETTING then POLLIN else POLLOUT)) w2;
              Some (OK, False, 0, p, w3)
            }
            else Some (Fail EPIPE, False, 0, p, w2)
      }
      else Some (OK, has revents POLLHUP, 0, p, w))"

definition dfd_close ::
  "('c, 'w::len, 'x) ipcalls \<Rightarrow> 'w ipipe \<Rightarrow> ('c, 'w, 'x) ipworld \<Rightarrow> ('w ipipe \<times> ('c, 'w, 'x) ipworld) option" where
  "dfd_close E p w = do {
     w1 \<leftarrow> unsched E w;
     (r, w2) \<leftarrow> on_xo (po_del E (ip_dfd p)) w1;
     Some (p\<lparr>ip_state := IDLE, ip_dfd := -1\<rparr>, snd (on_x (os_close E (ip_dfd p)) w2))
   }"

text \<open>
  The dead time after a read. The products and quotients of \<open>int\<close>s are undefined when they overflow or
  divide by zero.
\<close>

definition throttle :: "'w::len clock \<Rightarrow> int \<Rightarrow> 'w ipipe \<Rightarrow> 'w ipipe option" where
  "throttle now nxfer p =
     (if ip_state p = GETTING then do {
        let n = nxfer + ip_bytesUnsleptFor p;
        assertion (is_int n);
        (howlong, unslept) \<leftarrow>
          (if ip_bytesPerTick p < 5 then do {
             assertion (is_int (n * eclock_HERTZ) \<and> ip_bytesPerSec p \<noteq> 0);
             let h = cdiv (n * eclock_HERTZ) (ip_bytesPerSec p);
             Some (h, n - cdiv (h * ip_bytesPerSec p) eclock_HERTZ)
           }
           else Some (cdiv n (ip_bytesPerTick p), cmod n (ip_bytesPerTick p)));
        Some (p\<lparr>ip_bytesUnsleptFor := unslept, ip_wakeup := now + word_of_int howlong, ip_dfd_events := 0\<rparr>)
      }
      else Some p)"

definition notifyPollEvent_dfd ::
  "('c, 'w::len, 'x) ipcalls \<Rightarrow> int \<Rightarrow> mask \<Rightarrow> 'w ipipe \<Rightarrow> ('c, 'w, 'x) ipworld \<Rightarrow>
   (rc \<times> 'w ipipe \<times> ('c, 'w, 'x) ipworld) option" where
  "notifyPollEvent_dfd E fd revents p w = do {
     let (now, w0) = read_eclock E w;
     assertion (ip_state p \<noteq> IDLE);
     (r1, p1, w1) \<leftarrow> dfd_connecting E revents p w0;
     if r1 \<noteq> OK then Some (r1, p1, w1)
     else do {
       (p2, w2) \<leftarrow> dfd_snooze E revents now p1 w1;
       (r3, hup, nxfer, p3, w3) \<leftarrow> dfd_transfer E fd revents now p2 w2;
       if r3 \<noteq> OK then Some (r3, p3, w3)
       else if hup then do { (p4, w4) \<leftarrow> dfd_close E p3 w3; Some (Fail EALREADY, p4, w4) }
       else do { p4 \<leftarrow> throttle now nxfer p3; Some (OK, p4, w3) }
     }
   }"

subsection \<open>The control descriptor\<close>

definition cfd_connecting ::
  "('c, 't, 'x) calls \<Rightarrow> mask \<Rightarrow> 't pipe \<Rightarrow> ('c, 't, 'x) world \<Rightarrow> (rc \<times> 't pipe \<times> ('c, 't, 'x) world) option" where
  "cfd_connecting E revents p w =
     (if ip_cfd_connecting p \<and> revents AND (POLLOUT OR KICKSTART) = POLLOUT then
        (case on_x (os_so_error E (ip_cfd p)) w of
           (Inl e, w1) \<Rightarrow> Some (Fail e, p, w1)
         | (Inr None, w1) \<Rightarrow> Some (OK, p\<lparr>ip_cfd_connecting := False\<rparr>, w1)
         | (Inr (Some e), w1) \<Rightarrow>
             if e = EINPROGRESS then do {
               (r, w2) \<leftarrow> on_xo (po_clearReadiness E (ip_cfd p) POLLOUT) w1;
               Some (OK, p, w2)
             }
             else Some (Fail e, p, w1))
      else Some (OK, p, w))"

text \<open>A call that fills or flushes a buffer: EWOULDBLOCK is passed on to the poller, other errors end the handler.\<close>

definition tell_blocked ::
  "('c, 't, 'x) calls \<Rightarrow> int \<Rightarrow> mask \<Rightarrow> rc \<Rightarrow> ('c, 't, 'x) world \<Rightarrow> (rc \<times> ('c, 't, 'x) world) option" where
  "tell_blocked E fd m err w =
     (if err = Fail EWOULDBLOCK then do { (r, w1) \<leftarrow> on_xo (po_clearReadiness E fd m) w; Some (OK, w1) }
      else Some (err, w))"

definition cfd_fill ::
  "('c, 't, 'x) calls \<Rightarrow> mask \<Rightarrow> 't pipe \<Rightarrow> ('c, 't, 'x) world \<Rightarrow> (rc \<times> 't pipe \<times> ('c, 't, 'x) world) option" where
  "cfd_fill E revents p w =
     (if has revents POLLIN then do {
        (err, b, x1) \<leftarrow> fillFrom (os_read E) (ip_cfd p) (ip_ibuf p) (wd_x w);
        (r, w1) \<leftarrow> tell_blocked E (ip_cfd p) POLLIN err (w\<lparr>wd_x := x1\<rparr>);
        Some (r, p\<lparr>ip_ibuf := b\<rparr>, w1)
      }
      else Some (OK, p, w))"

text \<open>\<open>while ((p = m_proto.getOutput(&len)) != NULL)\<close>: \<open>Inl e\<close> is an early return, \<open>Inr puterr\<close> the end of the loop.\<close>

partial_function (option) put_loop :: "rc \<Rightarrow> 'w::len ipipe \<Rightarrow> ((rc + rc) \<times> 'w ipipe) option" where
  "put_loop puterr p =
     (case getOutput (ip_proto p) of
        None \<Rightarrow> Some (Inr puterr, p)
      | Some (buf, len) \<Rightarrow> do {
          (puterr1, b) \<leftarrow> put (ip_obuf p) buf len;
          let p1 = p\<lparr>ip_obuf := b\<rparr>;
          if puterr1 = Fail EWOULDBLOCK then Some (Inr puterr1, p1)
          else if puterr1 \<noteq> OK then Some (Inl puterr1, p1)
          else put_loop puterr1 (p1\<lparr>ip_proto := snd (advanceOutput (ip_proto p1))\<rparr>)
        })"

text \<open>The line step of the main loop, 452-459: \<open>Inl e\<close> is an early return, \<open>Inr geterr\<close> goes on.\<close>

definition get_line :: "rc \<Rightarrow> 'w::len ipipe \<Rightarrow> ((rc + rc) \<times> 'w ipipe) option" where
  "get_line geterr p =
     (if \<not> ip_iline_full p then do {
        (geterr1, l, b) \<leftarrow> readline (ip_ibuf p) (ip_iline p) (iline_LEN + 1);
        let p1 = p\<lparr>ip_iline := l, ip_ibuf := b\<rparr>;
        if geterr1 = OK then Some (Inr geterr1, p1\<lparr>ip_iline_full := True\<rparr>)
        else if geterr1 \<noteq> Fail EWOULDBLOCK then Some (Inl geterr1, p1)
        else Some (Inr geterr1, p1)
      }
      else Some (Inr geterr, p))"

text \<open>A complete line, 460-479: OK means that the loop goes on.\<close>

definition give_line ::
  "('c, 'w::len, 'x) ipcalls \<Rightarrow> 'w ipipe \<Rightarrow> ('c, 'w, 'x) ipworld \<Rightarrow> (rc \<times> 'w ipipe \<times> ('c, 'w, 'x) ipworld) option" where
  "give_line E p w =
     (if ip_iline_full p then do {
        w1 \<leftarrow> (if ip_state p = IDLE then unsched E w else Some w);
        (err, pr) \<leftarrow> giveInput (ip_proto p) (ip_iline p);
        let p1 = p\<lparr>ip_proto := pr, ip_iline_full := (if err = OK then False else ip_iline_full p)\<rparr>;
        if err \<noteq> OK \<and> err \<noteq> Fail EWOULDBLOCK then Some (err, p1, w1)
        else do {
          (status, b) \<leftarrow> getStatus (ip_proto p1) None;
          Some (if status \<noteq> 0 then Fail EALREADY else OK, p1, w1)
        }
      }
      else Some (OK, p, w))"

partial_function (option) cfd_loop ::
  "('c, 'w::len, 'x) ipcalls \<Rightarrow> rc \<Rightarrow> rc \<Rightarrow> 'w ipipe \<Rightarrow> ('c, 'w, 'x) ipworld \<Rightarrow>
   (rc \<times> 'w ipipe \<times> ('c, 'w, 'x) ipworld) option" where
  "cfd_loop E geterr puterr p w =
     (if isInputReady (ip_proto p) \<and> geterr \<noteq> Fail EWOULDBLOCK \<or> isOutputReady (ip_proto p) \<and> puterr \<noteq> Fail EWOULDBLOCK
      then do {
        (g, p1) \<leftarrow> get_line geterr p;
        case g of
          Inl e \<Rightarrow> Some (e, p1, w)
        | Inr geterr1 \<Rightarrow> do {
            (r, p2, w1) \<leftarrow> give_line E p1 w;
            if r \<noteq> OK then Some (r, p2, w1)
            else do {
              (q, p3) \<leftarrow> put_loop puterr p2;
              case q of
                Inl e \<Rightarrow> Some (e, p3, w1)
              | Inr puterr1 \<Rightarrow> cfd_loop E geterr1 puterr1 p3 w1
            }
          }
      }
      else Some (OK, p, w))"

definition cfd_flush ::
  "('c, 't, 'x) calls \<Rightarrow> 't pipe \<Rightarrow> ('c, 't, 'x) world \<Rightarrow> (rc \<times> 't pipe \<times> ('c, 't, 'x) world) option" where
  "cfd_flush E p w = do {
     (r, p1, w1) \<leftarrow>
       (if \<not> ip_cfd_connecting p then do {
          (err, b, x1) \<leftarrow> flushTo (os_write E) (ip_cfd p) (ip_obuf p) (wd_x w);
          (r, w1) \<leftarrow> tell_blocked E (ip_cfd p) POLLOUT err (w\<lparr>wd_x := x1\<rparr>);
          Some (r, p\<lparr>ip_obuf := b\<rparr>, w1)
        }
        else Some (OK, p, w));
     if r \<noteq> OK then Some (r, p1, w1)
     else if isEmpty (ip_obuf p1) \<and> isQuit (ip_proto p1) then Some (Fail EPIPE, p1, w1)
     else Some (OK, p1, w1)
   }"

definition cfd_open_data ::
  "('c, 't, 'x) calls \<Rightarrow> 't pipe \<Rightarrow> ('c, 't, 'x) world \<Rightarrow> (rc \<times> 't pipe \<times> ('c, 't, 'x) world) option" where
  "cfd_open_data E p w =
     (case isPortReady (ip_proto p) of
        (None, pr) \<Rightarrow> Some (OK, p\<lparr>ip_proto := pr\<rparr>, w)
      | (Some address, pr) \<Rightarrow>
          let p1 = p\<lparr>ip_proto := pr\<rparr> in
          (case on_x (os_socket E) w of
             (Inl e, w1) \<Rightarrow> Some (Fail e, p1, w1)
           | (Inr sock, w1) \<Rightarrow>
               (case setNonblocking E sock w1 of
                  (Some e, w2) \<Rightarrow> Some (Fail e, p1, w2)
                | (None, w2) \<Rightarrow> do {
                    let p2 = p1\<lparr>ip_dfd_connecting := True, ip_dfd := sock\<rparr>;
                    (err, w3) \<leftarrow> on_xo (po_add E sock (POLLIN OR POLLOUT)) w2;
                    if err \<noteq> OK then Some (err, p2, w3)
                    else do {
                      (ce, w4) \<leftarrow> ephemeral_connect E sock address (ip_local_addr p2) w3;
                      case ce of
                        None \<Rightarrow> Some (OK, p2\<lparr>ip_dfd_connecting := False\<rparr>, w4)
                      | Some e \<Rightarrow>
                          if e \<noteq> EINPROGRESS then Some (Fail e, p2\<lparr>ip_dfd_connecting := False\<rparr>, w4)
                          else Some (OK, p2, w4)
                    }
                  })))"

definition notifyPollEvent_cfd ::
  "('c, 'w::len, 'x) ipcalls \<Rightarrow> int \<Rightarrow> mask \<Rightarrow> 'w ipipe \<Rightarrow> ('c, 'w, 'x) ipworld \<Rightarrow>
   (rc \<times> 'w ipipe \<times> ('c, 'w, 'x) ipworld) option" where
  "notifyPollEvent_cfd E fd revents p w = do {
     assertion (fd \<noteq> -1);
     if revents AND (POLLERR OR POLLHUP) \<noteq> 0 then Some (Fail EPIPE, p, w)
     else do {
       (r1, p1, w1) \<leftarrow> cfd_connecting E revents p w;
       if r1 \<noteq> OK then Some (r1, p1, w1)
       else do {
         (r2, p2, w2) \<leftarrow> cfd_fill E revents p1 w1;
         if r2 \<noteq> OK then Some (r2, p2, w2)
         else do {
           (r3, p3, w3) \<leftarrow> cfd_loop E OK OK p2 w2;
           if r3 \<noteq> OK then Some (r3, p3, w3)
           else do {
             (r4, p4, w4) \<leftarrow> cfd_flush E p3 w3;
             if r4 \<noteq> OK then Some (r4, p4, w4) else cfd_open_data E p4 w4
           }
         }
       }
     }
   }"

subsection \<open>Events, timeouts and commands\<close>

text \<open>The interest masks, 608-637; a failing \<open>setMask\<close> is \<open>exit(1)\<close>.\<close>

definition set_mask :: "('c, 't, 'x) calls \<Rightarrow> int \<Rightarrow> mask \<Rightarrow> ('c, 't, 'x) world \<Rightarrow> ('c, 't, 'x) world option" where
  "set_mask E fd m w =
     (if fd \<noteq> -1 then do { (err, w1) \<leftarrow> on_xo (po_setMask E fd m) w; assertion (err = OK); Some w1 } else Some w)"

definition cevents :: "'t pipe \<Rightarrow> mask" where
  "cevents p = (if \<not> isFull (ip_ibuf p) then POLLIN else 0) OR (if \<not> isEmpty (ip_obuf p) then POLLOUT else 0)"

definition devents :: "'t pipe \<Rightarrow> mask" where
  "devents p = (if ip_state p = GETTING \<or> ip_state p = SLEEPING \<and> ip_dfd_events p = 0 then POLLIN
                else if ip_state p = PUTTING then POLLOUT else 0)"

definition STATUS_OK :: "int \<Rightarrow> bool" where
  "STATUS_OK s = (200 \<le> s \<and> s \<le> 299)"

text \<open>The tail of \<open>notifyPollEvent\<close>, 639-672.\<close>

definition ip_finish ::
  "('c, 'w::len, 'x) ipcalls \<Rightarrow> ('c, 'w, 'x) cmd_done \<Rightarrow> rc \<Rightarrow> 'w ipipe \<Rightarrow> ('c, 'w, 'x) ipworld \<Rightarrow>
   (rc \<times> 'w ipipe \<times> ('c, 'w, 'x) ipworld) option" where
  "ip_finish E user xerr p w =
     (if xerr = OK then Some (OK, p, w)
      else do {
        let xerr1 = (if xerr = Fail EALREADY then OK else xerr);
        (status, buf) \<leftarrow> getStatus (ip_proto p) (Some (statusbuf0 E));
        (p1, w1) \<leftarrow>
          (if status \<noteq> 0 \<and> \<not> STATUS_OK status \<and> ip_dfd p \<noteq> -1 then do {
             (c, w1) \<leftarrow> drop_fd E (ip_dfd p) w;
             Some (p\<lparr>ip_dfd_connecting := False, ip_dfd := -1\<rparr>, w1)
           }
           else Some (p, w));
        (p2, w2) \<leftarrow>
          (if xerr1 \<noteq> OK \<or> status \<noteq> 0 \<and> ip_dfd p1 = -1 then call_ftpCmdDone user xerr1 status (the buf) p1 w1
           else Some (p1, w1));
        Some (OK, p2, w2)
      })"

definition ip_notifyPollEvent ::
  "('c, 'w::len, 'x) ipcalls \<Rightarrow> ('c, 'w, 'x) cmd_done \<Rightarrow> int \<Rightarrow> mask \<Rightarrow> 'w ipipe \<Rightarrow> ('c, 'w, 'x) ipworld \<Rightarrow>
   (rc \<times> 'w ipipe \<times> ('c, 'w, 'x) ipworld) option" where
  "ip_notifyPollEvent E user fd revents p w = do {
     assertion (fd \<noteq> -1);
     if fd \<noteq> ip_dfd p \<and> fd \<noteq> ip_cfd p then Some (Fail EINVAL, p, w)
     else do {
       (xerr, p1, w1) \<leftarrow> (if fd = ip_dfd p then notifyPollEvent_dfd E fd revents p w else notifyPollEvent_cfd E fd revents p w);
       w2 \<leftarrow> set_mask E (ip_cfd p1) (cevents p1) w1;
       w3 \<leftarrow> set_mask E (ip_dfd p1) (devents p1) w2;
       ip_finish E user xerr p1 w3
     }
   }"

definition ip_skedCallback ::
  "('c, 'w::len, 'x) ipcalls \<Rightarrow> ('c, 'w, 'x) cmd_done \<Rightarrow> 'w clock \<Rightarrow> 'w ipipe \<Rightarrow> ('c, 'w, 'x) ipworld \<Rightarrow>
   ('w ipipe \<times> ('c, 'w, 'x) ipworld) option" where
  "ip_skedCallback E user now p w =
     (case ip_state p of
        IDLE \<Rightarrow> shutdownAndNotify E user p w
      | GETTING \<Rightarrow> shutdownAndNotify E user p w
      | SLEEPING \<Rightarrow>
          let p1 = p\<lparr>ip_state := GETTING\<rparr> in
          if ip_dfd_events p1 \<noteq> 0 then do {
            let events = ip_dfd_events p1;
            assertion (\<not> eclock_after (ip_wakeup p1) now);
            (err, p2, w2) \<leftarrow> ip_notifyPollEvent E user (ip_dfd p1) events (p1\<lparr>ip_dfd_events := 0, ip_wakeup := now\<rparr>) w;
            if err \<noteq> OK then shutdownAndNotify E user p2 w2 else Some (p2, w2)
          }
          else Some (p1, w)
      | PUTTING \<Rightarrow> None)"

definition kickstart ::
  "('c, 'w::len, 'x) ipcalls \<Rightarrow> ('c, 'w, 'x) cmd_done \<Rightarrow> 'w ipipe \<Rightarrow> ('c, 'w, 'x) ipworld \<Rightarrow>
   (rc \<times> 'w ipipe \<times> ('c, 'w, 'x) ipworld) option" where
  "kickstart E user p w = ip_notifyPollEvent E user (ip_cfd p) (POLLOUT OR KICKSTART) p w"

definition ip_login ::
  "('c, 'w::len, 'x) ipcalls \<Rightarrow> ('c, 'w, 'x) cmd_done \<Rightarrow> char list \<Rightarrow> char list \<Rightarrow> 'w ipipe \<Rightarrow> ('c, 'w, 'x) ipworld \<Rightarrow>
   (rc \<times> 'w ipipe \<times> ('c, 'w, 'x) ipworld) option" where
  "ip_login E user username password p w = do {
     (err, pr) \<leftarrow> login (ip_proto p) username password;
     let p1 = p\<lparr>ip_proto := pr\<rparr>;
     if err \<noteq> OK then Some (err, p1, w) else kickstart E user p1 w
   }"

definition ip_quit ::
  "('c, 'w::len, 'x) ipcalls \<Rightarrow> ('c, 'w, 'x) cmd_done \<Rightarrow> 'w ipipe \<Rightarrow> ('c, 'w, 'x) ipworld \<Rightarrow>
   (rc \<times> 'w ipipe \<times> ('c, 'w, 'x) ipworld) option" where
  "ip_quit E user p w = do {
     (err, pr) \<leftarrow> quit_cmd (ip_proto p);
     let p1 = p\<lparr>ip_proto := pr\<rparr>;
     if err \<noteq> OK then Some (err, p1, w) else kickstart E user p1 w
   }"

definition ip_cd ::
  "('c, 'w::len, 'x) ipcalls \<Rightarrow> ('c, 'w, 'x) cmd_done \<Rightarrow> char list \<Rightarrow> 'w ipipe \<Rightarrow> ('c, 'w, 'x) ipworld \<Rightarrow>
   (rc \<times> 'w ipipe \<times> ('c, 'w, 'x) ipworld) option" where
  "ip_cd E user dir p w = do {
     (err, pr) \<leftarrow> cd (ip_proto p) dir;
     let p1 = p\<lparr>ip_proto := pr\<rparr>;
     if err \<noteq> OK then Some (err, p1, w) else kickstart E user p1 w
   }"

definition ip_type ::
  "('c, 'w::len, 'x) ipcalls \<Rightarrow> ('c, 'w, 'x) cmd_done \<Rightarrow> char list \<Rightarrow> 'w ipipe \<Rightarrow> ('c, 'w, 'x) ipworld \<Rightarrow>
   (rc \<times> 'w ipipe \<times> ('c, 'w, 'x) ipworld) option" where
  "ip_type E user ttype p w = do {
     (err, pr) \<leftarrow> type_cmd (ip_proto p) ttype;
     let p1 = p\<lparr>ip_proto := pr\<rparr>;
     if err \<noteq> OK then Some (err, p1, w) else kickstart E user p1 w
   }"

definition ip_size ::
  "('c, 'w::len, 'x) ipcalls \<Rightarrow> ('c, 'w, 'x) cmd_done \<Rightarrow> char list \<Rightarrow> 'w ipipe \<Rightarrow> ('c, 'w, 'x) ipworld \<Rightarrow>
   (rc \<times> 'w ipipe \<times> ('c, 'w, 'x) ipworld) option" where
  "ip_size E user fname p w = do {
     (err, pr) \<leftarrow> size_cmd (ip_proto p) fname;
     let p1 = p\<lparr>ip_proto := pr\<rparr>;
     if err \<noteq> OK then Some (err, p1, w) else kickstart E user p1 w
   }"

definition ip_ls ::
  "('c, 'w::len, 'x) ipcalls \<Rightarrow> ('c, 'w, 'x) cmd_done \<Rightarrow> char list option \<Rightarrow> bool \<Rightarrow> 'w ipipe \<Rightarrow> ('c, 'w, 'x) ipworld \<Rightarrow>
   (rc \<times> 'w ipipe \<times> ('c, 'w, 'x) ipworld) option" where
  "ip_ls E user dirname passive p w = do {
     assertion passive;
     (err, pr) \<leftarrow> ls_cmd (ip_proto p) dirname None;
     let p1 = p\<lparr>ip_proto := pr\<rparr>;
     if err \<noteq> OK then Some (err, p1, w) else kickstart E user (p1\<lparr>ip_state := GETTING\<rparr>) w
   }"

definition ip_get ::
  "('c, 'w::len, 'x) ipcalls \<Rightarrow> ('c, 'w, 'x) cmd_done \<Rightarrow> char list \<Rightarrow> bool \<Rightarrow> 'w ipipe \<Rightarrow> ('c, 'w, 'x) ipworld \<Rightarrow>
   (rc \<times> 'w ipipe \<times> ('c, 'w, 'x) ipworld) option" where
  "ip_get E user fname passive p w = do {
     assertion passive;
     (err, pr) \<leftarrow> get_cmd (ip_proto p) fname None;
     let p1 = p\<lparr>ip_proto := pr\<rparr>;
     if err \<noteq> OK then Some (err, p1, w)
     else do {
       let (now, w1) = read_eclock E w;
       let p2 = p1\<lparr>ip_state := GETTING, ip_bytesUnsleptFor := 0, ip_wakeup := now\<rparr>;
       w2 \<leftarrow> sched_at E (now + word_of_int (5 * eclock_HERTZ)) w1;
       kickstart E user p2 w2
     }
   }"

end
