(* ===== verification/Ftp_pipe_proofs.thy ===== *)
theory Ftp_pipe_proofs
  imports Ftp_pipe
begin

unbundle bit_operations_syntax

text \<open>
  What the connection of Ftp\_pipe guarantees: its handlers end and fail no assertion on well-formed
  replies, reads are throttled, timers and descriptors are released, the user is told exactly once.
\<close>

subsection \<open>Invariant\<close>

text \<open>
  The buffers and the protocol engine are well-formed, and the line buffer holds what \<open>readline\<close> has
  put there: the unfinished line, or a complete one when \<open>m_iline_full\<close> is set.
\<close>

definition part_line :: "'t pipe \<Rightarrow> char list" where
  "part_line p = take (m_linelen (ip_ibuf p)) (ip_iline p)"

definition full_line :: "'t pipe \<Rightarrow> char list \<Rightarrow> bool" where
  "full_line p l = (length l \<le> iline_LEN \<and> take (length l + 1) (ip_iline p) = l @ [NUL] \<and> LF \<notin> set l)"

definition ip_inv :: "'t pipe \<Rightarrow> bool" where
  "ip_inv p = (nb_inv (ip_ibuf p) \<and> nb_inv (ip_obuf p) \<and> fp_inv (ip_proto p) \<and>
     length (ip_iline p) = iline_LEN + 1 \<and> m_linelen (ip_ibuf p) \<le> iline_LEN + 1 \<and> LF \<notin> set (part_line p) \<and>
     (ip_iline_full p \<longrightarrow> m_linelen (ip_ibuf p) = 0 \<and> (\<exists>l. full_line p l)))"

text \<open>The complete lines of a byte stream, given the unfinished line and the last byte read.\<close>

lemma scan_line_rest: "scan_line n acc prev cs = (r, l, p, rest) \<Longrightarrow> length rest \<le> length cs"
proof (induction n acc prev cs rule: scan_line.induct)
  case (2 n acc prev c cs)
  then show ?case by (fastforce split: if_splits)
qed simp

lemma scan_line_OK_shorter: "scan_line n acc prev cs = (OK, l, p, rest) \<Longrightarrow> length rest < length cs"
proof (induction n acc prev cs rule: scan_line.induct)
  case (1 n acc prev)
  then show ?case by (simp split: if_splits)
next
  case (2 n acc prev c cs)
  then show ?case by (auto split: if_splits dest: scan_line_rest)
qed

lemma scan_line_bounds:
  "scan_line n acc prev cs = (r, l, p, rest) \<Longrightarrow> length acc \<le> n \<Longrightarrow> LF \<notin> set acc \<Longrightarrow>
   length l \<le> n \<and> LF \<notin> set l \<and> (r = OK \<longrightarrow> length l < n)"
proof (induction n acc prev cs arbitrary: r l p rest rule: scan_line.induct)
  case (1 n acc prev)
  then show ?case by (auto split: if_splits)
next
  case (2 n acc prev c cs)
  show ?case
  proof (cases "n \<le> length acc")
    case True
    with "2.prems" show ?thesis by (auto split: if_splits)
  next
    case False
    then have "length (acc @ [c]) \<le> n" by simp
    with 2 False show ?thesis by (auto split: if_splits)
  qed
qed

lemma scan_line_result: "scan_line n acc prev cs = (r, l, p, rest) \<Longrightarrow> r = OK \<or> r = Fail ENOSPC \<or> r = Fail EWOULDBLOCK"
  by (induction n acc prev cs rule: scan_line.induct) (auto split: if_splits)

function lines_of :: "char list \<Rightarrow> char \<Rightarrow> char list \<Rightarrow> char list list" where
  "lines_of acc prev cs =
     (case scan_line (iline_LEN + 1) acc prev cs of
        (r, l, p, rest) \<Rightarrow> if r = OK then l # lines_of [] p rest else [])"
  by pat_completeness auto
termination by (relation "measure (\<lambda>(acc, prev, cs). length cs)") (auto dest: scan_line_OK_shorter[OF sym])

declare lines_of.simps [simp del]

text \<open>
  A reply line on which \<open>giveInput\<close> is defined: its numbers fit an \<open>int\<close>, and the octets of a PASV reply
  do not start at the first byte of the line.
\<close>

definition reply_ok :: "char list \<Rightarrow> bool" where
  "reply_ok l = (atoi (cstr (l @ [NUL])) \<noteq> None \<and> pasv_defined (l @ [NUL]))"

definition input_ok :: "'t pipe \<Rightarrow> bool" where
  "input_ok p = ((ip_iline_full p \<longrightarrow> (\<exists>l. full_line p l \<and> reply_ok l)) \<and>
     (\<forall>l \<in> set (lines_of (part_line p) (m_lastchar (ip_ibuf p)) (contents (ip_ibuf p))).
        reply_ok l))"

lemma cstr_append: "cstr ((l @ [NUL]) @ junk) = cstr (l @ [NUL])"
  by (induction l) (auto simp: cstr_def)

lemma step_back_append: "i \<le> length xs \<Longrightarrow> step_back (xs @ ys) i = step_back xs i"
  by (induction i) (auto simp: rd_def nth_append)

lemma line_defined_of:
  assumes "full_line p l" "length (ip_iline p) = iline_LEN + 1" "reply_ok l"
  shows "line_defined (ip_iline p)" "pasv_defined (ip_iline p)"
proof -
  let ?b = "ip_iline p" and ?l = "l @ [NUL]"
  have b: "?b = ?l @ drop (length l + 1) ?b"
    using assms(1) append_take_drop_id[of "length l + 1" ?b] by (simp add: full_line_def)
  then have c: "cstr ?b = cstr ?l" using cstr_append by metis
  have "NUL \<in> set ?b" by (subst b) simp
  then have "is_cstr ?b" by (simp add: is_cstr_def)
  moreover have "LF \<notin> set (cstr ?l)"
    using assms(1) set_takeWhileD by (fastforce simp: cstr_def full_line_def)
  ultimately show "line_defined ?b"
    using assms(2,3) c by (simp add: line_defined_def reply_ok_def iline_LEN_def)
  have fc: "find_comma ?b = find_comma ?l" by (simp only: find_comma_def c)
  have "i \<le> length ?l" if "find_comma ?l = Some i" for i
  proof -
    have "i < length (cstr ?l)" using that by (auto simp: find_comma_def Let_def split: if_splits)
    then show ?thesis using length_takeWhile_le[of "\<lambda>c. c \<noteq> NUL" ?l] by (simp add: cstr_def)
  qed
  then have "step_back ?b i = step_back ?l i" if "find_comma ?l = Some i" for i
    using step_back_append[of i ?l "drop (length l + 1) ?b"] that b by simp
  then have "pasv_defined ?b = pasv_defined ?l"
    unfolding pasv_defined_def fc c by (cases "find_comma ?l") simp_all
  then show "pasv_defined ?b" using assms(3) by (simp add: reply_ok_def)
qed

subsection \<open>The steps of the reply loop\<close>

lemma get_line_lemma:
  assumes inv: "ip_inv p" and ok: "input_ok p" and nf: "\<not> ip_iline_full p"
  shows "\<exists>r il b. readline (ip_ibuf p) (ip_iline p) (iline_LEN + 1) = Some (r, il, b) \<and>
     (r = OK \<longrightarrow> ip_inv (p\<lparr>ip_iline := il, ip_ibuf := b, ip_iline_full := True\<rparr>) \<and>
                 input_ok (p\<lparr>ip_iline := il, ip_ibuf := b, ip_iline_full := True\<rparr>) \<and>
                 length (contents b) < length (contents (ip_ibuf p))) \<and>
     (r \<noteq> OK \<longrightarrow> ip_inv (p\<lparr>ip_iline := il, ip_ibuf := b\<rparr>))"
proof -
  let ?b = "ip_ibuf p" and ?il = "ip_iline p"
  have pl: "length (part_line p) = m_linelen ?b" using inv by (simp add: ip_inv_def part_line_def)
  have st: "line_state ?b ?il (iline_LEN + 1) (part_line p) (m_lastchar ?b) (contents ?b)"
    using inv pl by (simp add: ip_inv_def line_state_def part_line_def)
  obtain r il b where rl: "readline ?b ?il (iline_LEN + 1) = Some (r, il, b)" "length il = length ?il"
    and res: "if contents ?b = [] then r = Fail EWOULDBLOCK \<and> il = ?il \<and> b = ?b
              else r = fst (scan_line (iline_LEN + 1) (part_line p) (m_lastchar ?b) (contents ?b)) \<and>
                 line_result b il (iline_LEN + 1) (scan_line (iline_LEN + 1) (part_line p) (m_lastchar ?b) (contents ?b))"
    using readline_lemma[OF st] by (elim exE conjE) (rule that)
  show ?thesis
  proof (cases "contents ?b = []")
    case True
    then have "r = Fail EWOULDBLOCK" "p\<lparr>ip_iline := il, ip_ibuf := b\<rparr> = p" using res by auto
    with inv rl show ?thesis by simp
  next
    case False
    obtain l pr rest where sc: "scan_line (iline_LEN + 1) (part_line p) (m_lastchar ?b) (contents ?b) = (r, l, pr, rest)"
      using False res by (cases "scan_line (iline_LEN + 1) (part_line p) (m_lastchar ?b) (contents ?b)") auto
    have bd: "length l \<le> iline_LEN + 1 \<and> LF \<notin> set l \<and> (r = OK \<longrightarrow> length l < iline_LEN + 1)"
      using scan_line_bounds[OF sc] pl inv by (simp add: ip_inv_def)
    have lr: "line_result b il (iline_LEN + 1) (r, l, pr, rest)" using False res sc by simp
    show ?thesis
    proof (cases "r = OK")
      case True
      let ?p = "p\<lparr>ip_iline := il, ip_ibuf := b, ip_iline_full := True\<rparr>"
      from lr True have b: "nb_inv b" "m_linelen b = 0" "m_lastchar b = pr" "contents b = rest"
        "take (length l + 1) il = l @ [NUL]" by (auto simp: line_result_def line_state_def)
      have fl: "full_line ?p l" using b bd True by (simp add: full_line_def)
      have "lines_of (part_line p) (m_lastchar ?b) (contents ?b) = l # lines_of [] pr rest"
        using True sc by (subst lines_of.simps) simp
      then have "reply_ok l" "\<forall>l \<in> set (lines_of [] pr rest). reply_ok l" using ok nf by (auto simp: input_ok_def)
      then have "input_ok ?p" using fl b by (auto simp: input_ok_def part_line_def)
      moreover have "ip_inv ?p" using inv b fl rl by (auto simp: ip_inv_def part_line_def)
      moreover have "length rest < length (contents ?b)" using scan_line_OK_shorter sc True by blast
      ultimately show ?thesis using rl(1) b(4) True by blast
    next
      case no: False
      from lr no have b: "nb_inv b" "m_linelen b = length l" "take (length l) il = l"
        by (auto simp: line_result_def line_state_def)
      have "ip_inv (p\<lparr>ip_iline := il, ip_ibuf := b\<rparr>)"
        using inv b bd rl nf by (simp add: ip_inv_def part_line_def)
      with rl(1) no show ?thesis by blast
    qed
  qed
qed

lemma giveInput_codes: "giveInput s ibuf = Some (r, s') \<Longrightarrow> r = OK \<or> r = Fail EACCES \<or> r = Fail EINVAL"
  by (auto simp: giveInput_def giveSwitch_def bind_eq_Some_conv Let_def split: if_splits fcps.splits)

lemma getStatus_None: "getStatus s None = Some (if fp_state s \<noteq> FCPS_IDLE \<and> fp_state s \<noteq> FCPS_INIT then 0 else fp_status s, None)"
  by (simp add: getStatus_def)

text \<open>The event queue as far as a connection needs it: well-formed, with room, for times in a window.\<close>

definition sked_ok :: "('c, 'w::len, 'x) ipcalls \<Rightarrow> 'w clock \<Rightarrow> ('c, 'w, 'x) ipworld \<Rightarrow> bool" where
  "sked_ok E b w = (realloc_ok (sked_realloc E) \<and> sked_inv b (wd_sked w))"

abbreviation timers :: "('c, 'w::len, 'x) ipworld \<Rightarrow> 'c \<Rightarrow> 'w clock option" where
  "timers w \<equiv> schedule (wd_sked w)"

lemma unsched_lemma:
  assumes "sked_ok E b w"
  shows "\<exists>s. unsched E w = Some (w\<lparr>wd_sked := s\<rparr>) \<and> sked_ok E b (w\<lparr>wd_sked := s\<rparr>) \<and>
             schedule s = (timers w)(this E := None)"
  using sk.del_law[of "sked_realloc E" b "wd_sked w" "this E"] assms by (auto simp: unsched_def sked_ok_def)

lemma sched_at_lemma:
  assumes "sked_ok E b w" "room (sked_realloc E) (wd_sked w)" "timers w (this E) = None" "in_window b t"
  shows "\<exists>s. sched_at E t w = Some (w\<lparr>wd_sked := s\<rparr>) \<and> sked_ok E b (w\<lparr>wd_sked := s\<rparr>) \<and>
             schedule s = (timers w)(this E \<mapsto> t)"
  using addClient_lemma[of b "wd_sked w" "sked_realloc E" "this E" t] assms
  by (auto simp: sched_at_def sked_ok_def)

lemma give_line_lemma:
  assumes inv: "ip_inv p" and ok: "input_ok p" and f: "ip_iline_full p" and sk: "sked_ok E b w"
  shows "\<exists>r pr full s. give_line E p w = Some (r, p\<lparr>ip_proto := pr, ip_iline_full := full\<rparr>, w\<lparr>wd_sked := s\<rparr>) \<and>
     ip_inv (p\<lparr>ip_proto := pr, ip_iline_full := full\<rparr>) \<and> sked_ok E b (w\<lparr>wd_sked := s\<rparr>) \<and>
     schedule s = (if ip_state p = IDLE then (timers w)(this E := None) else timers w) \<and>
     (r = OK \<longrightarrow> \<not> full \<and> input_ok (p\<lparr>ip_proto := pr, ip_iline_full := full\<rparr>))"
proof -
  obtain l where l: "full_line p l" "reply_ok l" using ok f by (auto simp: input_ok_def)
  have len: "length (ip_iline p) = iline_LEN + 1" and fp: "fp_inv (ip_proto p)" using inv by (auto simp: ip_inv_def)
  obtain r pr where g: "giveInput (ip_proto p) (ip_iline p) = Some (r, pr)" "fp_inv pr"
    using giveInput_lemma[OF fp line_defined_of(1)[OF l(1) len l(2)]] line_defined_of(2)[OF l(1) len l(2)] by blast
  have code: "r = OK \<or> r = Fail EACCES \<or> r = Fail EINVAL" using giveInput_codes[OF g(1)] .
  obtain s where s: "(if ip_state p = IDLE then unsched E w else Some w) = Some (w\<lparr>wd_sked := s\<rparr>)"
    "sked_ok E b (w\<lparr>wd_sked := s\<rparr>)" "schedule s = (if ip_state p = IDLE then (timers w)(this E := None) else timers w)"
  proof (cases "ip_state p = IDLE")
    case True
    with unsched_lemma[OF sk] that show ?thesis by auto
  next
    case False
    with sk that[of "wd_sked w"] show ?thesis by simp
  qed
  let ?full = "if r = OK then False else ip_iline_full p"
  let ?p = "p\<lparr>ip_proto := pr, ip_iline_full := ?full\<rparr>"
  have inv': "ip_inv ?p" using inv g(2) by (auto simp: ip_inv_def part_line_def full_line_def)
  obtain r1 where r1: "give_line E p w = Some (r1, ?p, w\<lparr>wd_sked := s\<rparr>)" "r1 = OK \<longrightarrow> r = OK"
    using f s(1) g(1) code by (auto simp: give_line_def getStatus_None Let_def)
  have iok: "input_ok ?p" if "r = OK" using ok that by (simp add: input_ok_def part_line_def)
  show ?thesis
    by (rule exI[of _ r1], rule exI[of _ pr], rule exI[of _ ?full], rule exI[of _ s])
      (use r1 inv' s(2,3) iok in simp)
qed

text \<open>The command line waiting in the protocol engine.\<close>

definition pending_out :: "ftp_proto \<Rightarrow> char list" where
  "pending_out pr = take (fp_obuflen pr) (fp_obuf pr)"

lemma pending_length: "fp_inv pr \<Longrightarrow> fp_obuflen pr \<le> LINELEN \<and> length (pending_out pr) = fp_obuflen pr"
proof -
  assume inv: "fp_inv pr"
  then have len: "length (fp_obuf pr) = LINELEN + 1" and o: "out_ok pr" by (auto simp: fp_inv_def fp_sizes_def)
  from o have "fp_obuflen pr \<le> LINELEN"
  proof (cases "fp_obuflen pr = 0")
    case False
    then obtain t where "fp_obuflen pr = length t + 2" "take (fp_obuflen pr + 1) (fp_obuf pr) = t @ [CR, LF, NUL]"
      using o by (auto simp: out_ok_def)
    then have "length (take (fp_obuflen pr + 1) (fp_obuf pr)) = fp_obuflen pr + 1" by simp
    with len show ?thesis by simp
  qed simp
  with len show ?thesis by (simp add: pending_out_def)
qed

lemma put_loop_lemma:
  assumes inv: "ip_inv p"
  shows "\<exists>pe ob pr. put_loop pe0 p = Some (Inr pe, p\<lparr>ip_obuf := ob, ip_proto := pr\<rparr>) \<and>
     ip_inv (p\<lparr>ip_obuf := ob, ip_proto := pr\<rparr>) \<and> (isOutputReady pr \<longrightarrow> pe = Fail EWOULDBLOCK) \<and>
     contents ob @ pending_out pr = contents (ip_obuf p) @ pending_out (ip_proto p)"
proof (cases "isOutputReady (ip_proto p)")
  case False
  then have "put_loop pe0 p = Some (Inr pe0, p\<lparr>ip_obuf := ip_obuf p, ip_proto := ip_proto p\<rparr>)"
    by (subst put_loop.simps) (simp add: getOutput_def)
  with inv False show ?thesis by (intro exI[of _ pe0] exI[of _ "ip_obuf p"] exI[of _ "ip_proto p"]) simp
next
  case True
  let ?pr = "ip_proto p" and ?ob = "ip_obuf p"
  let ?n = "fp_obuflen ?pr"
  have fp: "fp_inv ?pr" and nb: "nb_inv ?ob" using inv by (auto simp: ip_inv_def)
  have n: "?n \<le> LINELEN" "length (fp_obuf ?pr) = LINELEN + 1"
    using pending_length[OF fp] fp by (auto simp: fp_inv_def fp_sizes_def)
  have go: "getOutput ?pr = Some (fp_obuf ?pr, ?n)" using True by (simp add: getOutput_def)
  show ?thesis
  proof (cases "?n \<le> room_left ?ob")
    case fits: True
    obtain ob where ob: "put ?ob (fp_obuf ?pr) ?n = Some (OK, ob)" "nb_inv ob" "contents ob = contents ?ob @ pending_out ?pr"
      using put_lemma[OF nb _ fits, of "fp_obuf ?pr"] n by (auto simp: pending_out_def)
    let ?pr' = "?pr\<lparr>fp_obuflen := 0\<rparr>"
    let ?p' = "p\<lparr>ip_obuf := ob, ip_proto := ?pr'\<rparr>"
    have "put_loop pe0 p = put_loop OK ?p'"
      by (subst put_loop.simps) (simp add: go ob(1) advanceOutput_def)
    also have "\<dots> = Some (Inr OK, ?p')"
      by (subst put_loop.simps) (simp add: getOutput_def isOutputReady_def)
    finally have run: "put_loop pe0 p = Some (Inr OK, ?p')" .
    have "fp_inv ?pr'" using fp by (simp add: fp_inv_def)
    then have "ip_inv ?p'" using inv ob(2) by (auto simp: ip_inv_def part_line_def full_line_def)
    with run ob(3) show ?thesis
      by (intro exI[of _ OK] exI[of _ ob] exI[of _ ?pr']) (simp add: isOutputReady_def pending_out_def)
  next
    case False
    then have "put ?ob (fp_obuf ?pr) ?n = Some (Fail EWOULDBLOCK, ?ob)"
      using put_full[OF nb, of ?n] n(1) by (simp add: LINELEN_def nbbio_BUFLEN_def)
    then have "put_loop pe0 p = Some (Inr (Fail EWOULDBLOCK), p\<lparr>ip_obuf := ?ob, ip_proto := ?pr\<rparr>)"
      by (subst put_loop.simps) (simp add: go)
    with inv show ?thesis
      by (intro exI[of _ "Fail EWOULDBLOCK"] exI[of _ ?ob] exI[of _ ?pr]) simp
  qed
qed

text \<open>What the reply loop may change.\<close>

definition loop_frame :: "('c, 'w::len, 'x) ipcalls \<Rightarrow> 'w ipipe \<Rightarrow> ('c, 'w, 'x) ipworld \<Rightarrow> 'w ipipe \<Rightarrow> ('c, 'w, 'x) ipworld \<Rightarrow> bool" where
  "loop_frame E p w p' w' =
     ((\<exists>il ib full pr ob. p' = p\<lparr>ip_iline := il, ip_ibuf := ib, ip_iline_full := full, ip_proto := pr, ip_obuf := ob\<rparr>) \<and>
      (\<exists>s. w' = w\<lparr>wd_sked := s\<rparr> \<and> (schedule s = timers w \<or> ip_state p = IDLE \<and> schedule s = (timers w)(this E := None))))"

lemma loop_frame_refl: "loop_frame E p w p w"
proof -
  have "p = p\<lparr>ip_iline := ip_iline p, ip_ibuf := ip_ibuf p, ip_iline_full := ip_iline_full p, ip_proto := ip_proto p, ip_obuf := ip_obuf p\<rparr>"
    "w = w\<lparr>wd_sked := wd_sked w\<rparr>" by simp_all
  then show ?thesis unfolding loop_frame_def by blast
qed

lemma loop_frame_trans:
  assumes "loop_frame E p w p1 w1" "loop_frame E p1 w1 p2 w2"
  shows "loop_frame E p w p2 w2"
proof -
  obtain il ib full pr ob s where 1: "p1 = p\<lparr>ip_iline := il, ip_ibuf := ib, ip_iline_full := full, ip_proto := pr, ip_obuf := ob\<rparr>"
    "w1 = w\<lparr>wd_sked := s\<rparr>" "schedule s = timers w \<or> ip_state p = IDLE \<and> schedule s = (timers w)(this E := None)"
    using assms(1) unfolding loop_frame_def by blast
  obtain il2 ib2 full2 pr2 ob2 s2 where 2: "p2 = p1\<lparr>ip_iline := il2, ip_ibuf := ib2, ip_iline_full := full2, ip_proto := pr2, ip_obuf := ob2\<rparr>"
    "w2 = w1\<lparr>wd_sked := s2\<rparr>" "schedule s2 = timers w1 \<or> ip_state p1 = IDLE \<and> schedule s2 = (timers w1)(this E := None)"
    using assms(2) unfolding loop_frame_def by blast
  have "p2 = p\<lparr>ip_iline := il2, ip_ibuf := ib2, ip_iline_full := full2, ip_proto := pr2, ip_obuf := ob2\<rparr>"
    "w2 = w\<lparr>wd_sked := s2\<rparr>" "schedule s2 = timers w \<or> ip_state p = IDLE \<and> schedule s2 = (timers w)(this E := None)"
    using 1 2 by auto
  then show ?thesis unfolding loop_frame_def by blast
qed

lemma cfd_loop_stop:
  "\<not> (isInputReady (ip_proto p) \<and> g \<noteq> Fail EWOULDBLOCK \<or> isOutputReady (ip_proto p) \<and> pe \<noteq> Fail EWOULDBLOCK) \<Longrightarrow>
   cfd_loop E g pe p w = Some (OK, p, w)"
  by (subst cfd_loop.simps, rule if_not_P)

lemma loop_frameI:
  "schedule s = timers w \<or> ip_state p = IDLE \<and> schedule s = (timers w)(this E := None) \<Longrightarrow>
   loop_frame E p w (p\<lparr>ip_iline := il, ip_ibuf := ib, ip_iline_full := full, ip_proto := pr, ip_obuf := ob\<rparr>) (w\<lparr>wd_sked := s\<rparr>)"
  unfolding loop_frame_def by blast

lemma loop_frame_parts:
  "loop_frame E p w (p\<lparr>ip_iline := il, ip_ibuf := ib, ip_iline_full := f\<rparr>) w"
  "loop_frame E p w (p\<lparr>ip_obuf := ob, ip_proto := pr\<rparr>) w"
  "schedule s = timers w \<or> ip_state p = IDLE \<and> schedule s = (timers w)(this E := None) \<Longrightarrow>
   loop_frame E p w (p\<lparr>ip_proto := pr, ip_iline_full := f\<rparr>) (w\<lparr>wd_sked := s\<rparr>)"
  using loop_frameI[where s = "wd_sked w" and w = w and p = p and E = E and il = il and ib = ib and full = f and pr = "ip_proto p" and ob = "ip_obuf p"]
    loop_frameI[where s = "wd_sked w" and w = w and p = p and E = E and il = "ip_iline p" and ib = "ip_ibuf p" and full = "ip_iline_full p" and pr = pr and ob = ob]
    loop_frameI[where s = s and w = w and p = p and E = E and il = "ip_iline p" and ib = "ip_ibuf p" and full = f and pr = pr and ob = "ip_obuf p"]
  by (cases p; simp)+

text \<open>The measure of the loop: every round takes a line out of the input buffer or gives one to the protocol engine.\<close>

definition backlog :: "'t pipe \<Rightarrow> nat" where
  "backlog p = 2 * length (contents (ip_ibuf p)) + (if ip_iline_full p then 1 else 0)"

definition loop_done ::
  "('c, 'w::len, 'x) ipcalls \<Rightarrow> 'w clock \<Rightarrow> 'w ipipe \<Rightarrow> ('c, 'w, 'x) ipworld \<Rightarrow> (rc \<times> 'w ipipe \<times> ('c, 'w, 'x) ipworld) option \<Rightarrow> bool" where
  "loop_done E b p w res = (\<exists>r p' w'. res = Some (r, p', w') \<and> ip_inv p' \<and> sked_ok E b w' \<and> loop_frame E p w p' w')"

lemma loop_done_after: "loop_done E b p1 w1 res \<Longrightarrow> loop_frame E p w p1 w1 \<Longrightarrow> loop_done E b p w res"
  unfolding loop_done_def using loop_frame_trans by blast

text \<open>The rest of a round that has a complete line; \<open>IH\<close> is what is known of the later rounds.\<close>

lemma round_with_line:
  assumes inv: "ip_inv p" and ok: "input_ok p" and full: "ip_iline_full p" and sk: "sked_ok E b w"
    and IH: "\<And>g pe p' w'. ip_inv p' \<Longrightarrow> input_ok p' \<Longrightarrow> sked_ok E b w' \<Longrightarrow> backlog p' < backlog p \<Longrightarrow>
               loop_done E b p' w' (cfd_loop E g pe p' w')"
  shows "loop_done E b p w (do {
           (r, p2, w1) \<leftarrow> give_line E p w;
           if r \<noteq> OK then Some (r, p2, w1)
           else do {
             (q, p3) \<leftarrow> put_loop pe p2;
             case q of Inl e \<Rightarrow> Some (e, p3, w1) | Inr pe1 \<Rightarrow> cfd_loop E g pe1 p3 w1
           }
         })"
proof -
  obtain r pr f s where gl: "give_line E p w = Some (r, p\<lparr>ip_proto := pr, ip_iline_full := f\<rparr>, w\<lparr>wd_sked := s\<rparr>)"
    "ip_inv (p\<lparr>ip_proto := pr, ip_iline_full := f\<rparr>)" "sked_ok E b (w\<lparr>wd_sked := s\<rparr>)"
    "schedule s = (if ip_state p = IDLE then (timers w)(this E := None) else timers w)"
    "r = OK \<longrightarrow> \<not> f \<and> input_ok (p\<lparr>ip_proto := pr, ip_iline_full := f\<rparr>)"
    using give_line_lemma[OF inv ok full sk] by (elim exE conjE) (rule that)
  let ?p2 = "p\<lparr>ip_proto := pr, ip_iline_full := f\<rparr>" and ?w1 = "w\<lparr>wd_sked := s\<rparr>"
  have fr: "loop_frame E p w ?p2 ?w1" using gl(4) by (intro loop_frame_parts(3)) (simp split: if_splits)
  show ?thesis
  proof (cases "r = OK")
    case False
    with gl(1-3) fr show ?thesis by (simp add: loop_done_def)
  next
    case True
    then have nf: "\<not> f" and o2: "input_ok ?p2" using gl(5) by auto
    obtain pe1 ob pr2 where pl: "put_loop pe ?p2 = Some (Inr pe1, ?p2\<lparr>ip_obuf := ob, ip_proto := pr2\<rparr>)"
      "ip_inv (?p2\<lparr>ip_obuf := ob, ip_proto := pr2\<rparr>)"
      using put_loop_lemma[OF gl(2), of pe] by blast
    let ?p3 = "?p2\<lparr>ip_obuf := ob, ip_proto := pr2\<rparr>"
    have "input_ok ?p3" using o2 nf by (simp add: input_ok_def part_line_def)
    moreover have "backlog ?p3 < backlog p" using full nf by (simp add: backlog_def)
    ultimately have "loop_done E b ?p3 ?w1 (cfd_loop E g pe1 ?p3 ?w1)" using IH[OF pl(2) _ gl(3)] by blast
    from loop_done_after[OF this loop_frame_trans[OF fr loop_frame_parts(2)]] gl(1) True pl(1) show ?thesis by simp
  qed
qed

lemma cfd_loop_lemma:
  "ip_inv p \<Longrightarrow> input_ok p \<Longrightarrow> sked_ok E b w \<Longrightarrow> loop_done E b p w (cfd_loop E g pe p w)"
proof (induction "backlog p" arbitrary: g pe p w rule: less_induct)
  case less
  note inv = less.prems(1) and ok = less.prems(2) and sk = less.prems(3)
  show ?case
  proof (cases "isInputReady (ip_proto p) \<and> g \<noteq> Fail EWOULDBLOCK \<or> isOutputReady (ip_proto p) \<and> pe \<noteq> Fail EWOULDBLOCK")
    case False
    with inv sk loop_frame_refl[of E p w] show ?thesis by (simp add: cfd_loop_stop loop_done_def)
  next
    case go: True
    note round = cfd_loop.simps[of E g pe p w, unfolded if_P[OF go]]
    show ?thesis
    proof (cases "ip_iline_full p")
      case full: True
      then have "get_line g p = Some (Inr g, p)" by (simp add: get_line_def)
      with round_with_line[OF inv ok full sk less.hyps, of pe g] show ?thesis unfolding round by simp
    next
      case nf: False
      obtain r il ib where rl: "readline (ip_ibuf p) (ip_iline p) (iline_LEN + 1) = Some (r, il, ib)"
        and r1: "r = OK \<longrightarrow> ip_inv (p\<lparr>ip_iline := il, ip_ibuf := ib, ip_iline_full := True\<rparr>) \<and>
                 input_ok (p\<lparr>ip_iline := il, ip_ibuf := ib, ip_iline_full := True\<rparr>) \<and>
                 length (contents ib) < length (contents (ip_ibuf p))"
        and r2: "r \<noteq> OK \<longrightarrow> ip_inv (p\<lparr>ip_iline := il, ip_ibuf := ib\<rparr>)"
        using get_line_lemma[OF inv ok nf] by (elim exE conjE) (rule that)
      let ?p1 = "p\<lparr>ip_iline := il, ip_ibuf := ib, ip_iline_full := r = OK\<rparr>"
      have fr: "loop_frame E p w ?p1 w" by (rule loop_frame_parts(1))
      have i2: "ip_inv ?p1" if "r \<noteq> OK"
      proof -
        have "?p1 = p\<lparr>ip_iline := il, ip_ibuf := ib\<rparr>" using nf that by simp
        with r2 that show ?thesis by simp
      qed
      consider "r = OK" | "r = Fail EWOULDBLOCK" | "r \<noteq> OK" "r \<noteq> Fail EWOULDBLOCK" by blast
      then show ?thesis
      proof cases
        case 1
        then have gl: "get_line g p = Some (Inr OK, ?p1)" using nf rl by (simp add: get_line_def)
        have i1: "ip_inv ?p1" "input_ok ?p1" "ip_iline_full ?p1" and lt: "backlog ?p1 < backlog p"
          using r1 1 nf by (simp_all add: backlog_def)
        have IH: "loop_done E b p' w' (cfd_loop E g pe p' w')"
          if "ip_inv p'" "input_ok p'" "sked_ok E b w'" "backlog p' < backlog ?p1" for g pe p' w'
          using less.hyps[OF less_trans[OF that(4) lt] that(1-3)] .
        from loop_done_after[OF round_with_line[OF i1 sk IH, of pe OK] fr] show ?thesis unfolding round gl by simp
      next
        case 2
        then have gl: "get_line g p = Some (Inr (Fail EWOULDBLOCK), ?p1)" using nf rl by (simp add: get_line_def)
        have gv: "give_line E ?p1 w = Some (OK, ?p1, w)" using 2 by (simp add: give_line_def)
        obtain pe1 ob pr2 where pl: "put_loop pe ?p1 = Some (Inr pe1, ?p1\<lparr>ip_obuf := ob, ip_proto := pr2\<rparr>)"
          "ip_inv (?p1\<lparr>ip_obuf := ob, ip_proto := pr2\<rparr>)" "isOutputReady pr2 \<longrightarrow> pe1 = Fail EWOULDBLOCK"
          using put_loop_lemma[OF i2, of pe] 2 by blast
        let ?p3 = "?p1\<lparr>ip_obuf := ob, ip_proto := pr2\<rparr>"
        have "cfd_loop E (Fail EWOULDBLOCK) pe1 ?p3 w = Some (OK, ?p3, w)" using pl(3) by (intro cfd_loop_stop) simp
        then have "cfd_loop E g pe p w = Some (OK, ?p3, w)" unfolding round gl using gv pl(1) by simp
        with pl(2) sk loop_frame_trans[OF fr loop_frame_parts(2)] show ?thesis unfolding loop_done_def by blast
      next
        case 3
        then have "get_line g p = Some (Inl r, ?p1)" using nf rl by (simp add: get_line_def)
        then have "cfd_loop E g pe p w = Some (r, ?p1, w)" unfolding round by simp
        with i2[OF 3(1)] sk fr show ?thesis unfolding loop_done_def by blast
      qed
    qed
  qed
qed

subsection \<open>The control handler\<close>

text \<open>
  What a connection relies on: reads and writes conserve the bytes waiting in and sent on a socket,
  asking for a pending error or telling the poller about EWOULDBLOCK does not consume input, and the
  poller's operations do not crash.
\<close>

definition env_ok :: "('c, 't, 'x) calls \<Rightarrow> (int \<Rightarrow> 'x \<Rightarrow> char list) \<Rightarrow> (int \<Rightarrow> 'x \<Rightarrow> char list) \<Rightarrow> bool" where
  "env_ok E pending sent =
     ((\<forall>fd. read_ok (os_read E) fd (pending fd) \<and> write_ok (os_write E) fd (sent fd)) \<and>
      (\<forall>fd g x. pending g (snd (os_so_error E fd x)) = pending g x) \<and>
      (\<forall>fd m x. \<exists>r x'. po_clearReadiness E fd m x = Some (r, x') \<and> (\<forall>g. pending g x' = pending g x)) \<and>
      (\<forall>fd m x. po_add E fd m x \<noteq> None) \<and> (\<forall>fd x. po_del E fd x \<noteq> None))"

definition local_ok :: "'t pipe \<Rightarrow> ('c, 't, 'x) world \<Rightarrow> bool" where
  "local_ok p w = (\<forall>l. ip_local_addr p = Some l \<longrightarrow> l < length (wd_locals w))"

lemma on_x_world: "on_x f w = (a, w') \<Longrightarrow> \<exists>x. w' = w\<lparr>wd_x := x\<rparr>"
  by (auto simp: on_x_def split: prod.splits)

lemma ip_inv_frame [simp]:
  "ip_inv (p\<lparr>ip_cfd_connecting := a\<rparr>) = ip_inv p" "ip_inv (p\<lparr>ip_dfd_connecting := a\<rparr>) = ip_inv p"
  "ip_inv (p\<lparr>ip_cfd := i\<rparr>) = ip_inv p" "ip_inv (p\<lparr>ip_dfd := i\<rparr>) = ip_inv p" "ip_inv (p\<lparr>ip_state := st\<rparr>) = ip_inv p"
  "ip_inv (p\<lparr>ip_dfd_events := m\<rparr>) = ip_inv p" "ip_inv (p\<lparr>ip_wakeup := t\<rparr>) = ip_inv p"
  "ip_inv (p\<lparr>ip_bytesUnsleptFor := n\<rparr>) = ip_inv p" "ip_inv (p\<lparr>ip_in_ftpCmdDone := k\<rparr>) = ip_inv p"
  by (simp_all add: ip_inv_def part_line_def full_line_def)

lemma sked_ok_frame [simp]:
  "sked_ok E b (w\<lparr>wd_x := x\<rparr>) = sked_ok E b w" "sked_ok E b (w\<lparr>wd_locals := ls\<rparr>) = sked_ok E b w"
  by (simp_all add: sked_ok_def)

lemma cfd_connecting_lemma:
  assumes "env_ok E pending sent"
  shows "\<exists>r a x. cfd_connecting E revents p w = Some (r, p\<lparr>ip_cfd_connecting := a\<rparr>, w\<lparr>wd_x := x\<rparr>) \<and>
             (\<forall>g. pending g x = pending g (wd_x w))"
proof (cases "ip_cfd_connecting p \<and> revents AND (POLLOUT OR KICKSTART) = POLLOUT")
  case False
  then show ?thesis by (intro exI[of _ OK] exI[of _ "ip_cfd_connecting p"] exI[of _ "wd_x w"]) (unfold cfd_connecting_def if_not_P[OF False], simp)
next
  case True
  obtain r x1 where so: "os_so_error E (ip_cfd p) (wd_x w) = (r, x1)" by fastforce
  have p1: "pending g x1 = pending g (wd_x w)" for g
    using assms so unfolding env_ok_def by (metis snd_conv)
  obtain r' x2 where c: "po_clearReadiness E (ip_cfd p) POLLOUT x1 = Some (r', x2)" "\<forall>g. pending g x2 = pending g x1"
    using assms unfolding env_ok_def by blast
  have "\<exists>r a x. (x = x1 \<or> x = x2) \<and> cfd_connecting E revents p w = Some (r, p\<lparr>ip_cfd_connecting := a\<rparr>, w\<lparr>wd_x := x\<rparr>)"
    using True so c(1)
    by (cases p, cases r) (auto simp: cfd_connecting_def on_x_def on_xo_def split: option.splits)
  with p1 c(2) show ?thesis by metis
qed

lemma tell_blocked_lemma:
  assumes "env_ok E pending sent"
  shows "\<exists>r x. tell_blocked E fd m err w = Some (r, w\<lparr>wd_x := x\<rparr>) \<and> (\<forall>g. pending g x = pending g (wd_x w))"
proof -
  obtain r x where "po_clearReadiness E fd m (wd_x w) = Some (r, x)" "\<forall>g. pending g x = pending g (wd_x w)"
    using assms unfolding env_ok_def by blast
  then show ?thesis by (cases "err = Fail EWOULDBLOCK") (auto simp: tell_blocked_def on_xo_def intro: exI[of _ "wd_x w"])
qed

lemma cfd_fill_lemma:
  assumes inv: "ip_inv p" and env: "env_ok E pending sent" and fd: "ip_cfd p \<noteq> -1"
  shows "\<exists>r ib x ds. cfd_fill E revents p w = Some (r, p\<lparr>ip_ibuf := ib\<rparr>, w\<lparr>wd_x := x\<rparr>) \<and> ip_inv (p\<lparr>ip_ibuf := ib\<rparr>) \<and>
     contents ib = contents (ip_ibuf p) @ ds \<and> m_linelen ib = m_linelen (ip_ibuf p) \<and>
     m_lastchar ib = m_lastchar (ip_ibuf p) \<and> (\<exists>rest. pending (ip_cfd p) (wd_x w) = ds @ rest)"
proof (cases "has revents POLLIN")
  case False
  with inv show ?thesis
    by (intro exI[of _ OK] exI[of _ "ip_ibuf p"] exI[of _ "wd_x w"] exI[of _ "[]"]) (simp add: cfd_fill_def)
next
  case True
  have ro: "read_ok (os_read E) (ip_cfd p) (pending (ip_cfd p))" using env by (simp add: env_ok_def)
  obtain err b x1 where f: "fillFrom (os_read E) (ip_cfd p) (ip_ibuf p) (wd_x w) = Some (err, b, x1)"
    "filled (ip_ibuf p) b (pending (ip_cfd p) (wd_x w)) (pending (ip_cfd p) x1)"
    using fillFrom_lemma[OF _ ro fd, of "ip_ibuf p" "wd_x w"] inv by (auto simp: ip_inv_def)
  obtain r x where t: "tell_blocked E (ip_cfd p) POLLIN err (w\<lparr>wd_x := x1\<rparr>) = Some (r, w\<lparr>wd_x := x1\<rparr>\<lparr>wd_x := x\<rparr>)"
    using tell_blocked_lemma[OF env] by blast
  have "ip_inv (p\<lparr>ip_ibuf := b\<rparr>)"
    using inv f(2) by (simp add: ip_inv_def filled_def part_line_def full_line_def)
  with True f t show ?thesis by (auto simp: cfd_fill_def filled_def)
qed

lemma scan_line_append:
  "scan_line n acc prev cs = (OK, l, p, rest) \<Longrightarrow> scan_line n acc prev (cs @ ds) = (OK, l, p, rest @ ds)"
  by (induction n acc prev cs rule: scan_line.induct) (auto split: if_splits)

lemma lines_of_append: "set (lines_of acc prev cs) \<subseteq> set (lines_of acc prev (cs @ ds))"
proof (induction acc prev cs rule: lines_of.induct)
  case (1 acc prev cs)
  obtain r l p rest where sc: "scan_line (iline_LEN + 1) acc prev cs = (r, l, p, rest)" by (metis prod_cases4)
  show ?case
  proof (cases "r = OK")
    case True
    have "lines_of acc prev cs = l # lines_of [] p rest" using sc True by (subst lines_of.simps) simp
    moreover have "lines_of acc prev (cs @ ds) = l # lines_of [] p (rest @ ds)"
      using scan_line_append sc True by (subst lines_of.simps) simp
    moreover have "set (lines_of [] p rest) \<subseteq> set (lines_of [] p (rest @ ds))"
      using "1.IH"[OF sc[symmetric] refl refl True] .
    ultimately show ?thesis by auto
  next
    case False
    then have "lines_of acc prev cs = []" using sc by (subst lines_of.simps) simp
    then show ?thesis by simp
  qed
qed

lemma cfd_flush_lemma:
  assumes inv: "ip_inv p" and env: "env_ok E pending sent"
  shows "\<exists>r ob x. cfd_flush E p w = Some (r, p\<lparr>ip_obuf := ob\<rparr>, w\<lparr>wd_x := x\<rparr>) \<and> ip_inv (p\<lparr>ip_obuf := ob\<rparr>)"
proof (cases "ip_cfd_connecting p")
  case True
  with inv show ?thesis
    by (intro exI[of _ "if isEmpty (ip_obuf p) \<and> isQuit (ip_proto p) then Fail EPIPE else OK"] exI[of _ "ip_obuf p"] exI[of _ "wd_x w"])
      (simp add: cfd_flush_def)
next
  case False
  have wo: "write_ok (os_write E) (ip_cfd p) (sent (ip_cfd p))" using env by (simp add: env_ok_def)
  obtain err b x1 where f: "flushTo (os_write E) (ip_cfd p) (ip_obuf p) (wd_x w) = Some (err, b, x1)"
    "flushed (ip_obuf p) b (sent (ip_cfd p) (wd_x w)) (sent (ip_cfd p) x1)"
    using flushTo_lemma[OF _ wo, of "ip_obuf p" "wd_x w"] inv by (auto simp: ip_inv_def)
  obtain r x where t: "tell_blocked E (ip_cfd p) POLLOUT err (w\<lparr>wd_x := x1\<rparr>) = Some (r, w\<lparr>wd_x := x1\<rparr>\<lparr>wd_x := x\<rparr>)"
    using tell_blocked_lemma[OF env] by blast
  have "ip_inv (p\<lparr>ip_obuf := b\<rparr>)"
    using inv f(2) by (simp add: ip_inv_def flushed_def part_line_def full_line_def)
  with False f t show ?thesis by (auto simp: cfd_flush_def)
qed

text \<open>The search for a port keeps its place in the pool of local addresses.\<close>

lemma bind_loop_lemma:
  "l < length (wd_locals w) \<Longrightarrow>
   \<exists>r ls x. bind_loop E n sock l w = Some (r, w\<lparr>wd_locals := ls, wd_x := x\<rparr>) \<and> length ls = length (wd_locals w)"
proof (induction n arbitrary: w)
  case 0
  then show ?case by (intro exI[of _ "Inr ()"] exI[of _ "wd_locals w"] exI[of _ "wd_x w"]) simp
next
  case (Suc n)
  let ?src = "wd_locals w ! l"
  let ?port = "htons (sin_port ?src) + 1"
  let ?src' = "?src\<lparr>sin_port := htons (if unat ?port < minport \<or> unat ?port > maxport then of_nat minport else ?port)\<rparr>"
  let ?ls = "(wd_locals w)[l := ?src']"
  obtain r x where b: "os_bind E sock ?src' (wd_x w) = (r, x)" by fastforce
  have step: "bind_loop E (Suc n) sock l w =
    (case r of None \<Rightarrow> Some (Inr (), w\<lparr>wd_locals := ?ls, wd_x := x\<rparr>)
     | Some e \<Rightarrow> if e \<noteq> EADDRINUSE then Some (Inl e, w\<lparr>wd_locals := ?ls, wd_x := x\<rparr>)
                 else bind_loop E n sock l (w\<lparr>wd_locals := ?ls, wd_x := x\<rparr>))"
    using Suc.prems b by (simp add: on_x_def Let_def)
  obtain r' ls' x' where ih: "bind_loop E n sock l (w\<lparr>wd_locals := ?ls, wd_x := x\<rparr>) = Some (r', w\<lparr>wd_locals := ls', wd_x := x'\<rparr>)"
    "length ls' = length (wd_locals w)"
    using Suc.IH[of "w\<lparr>wd_locals := ?ls, wd_x := x\<rparr>"] Suc.prems by auto
  have len: "length ?ls = length (wd_locals w)" by simp
  show ?case unfolding step using ih len by (cases r) (fastforce+)
qed

lemma ephemeral_connect_lemma:
  assumes "\<forall>l. src = Some l \<longrightarrow> l < length (wd_locals w)"
  shows "\<exists>r ls x. ephemeral_connect E sock dest src w = Some (r, w\<lparr>wd_locals := ls, wd_x := x\<rparr>) \<and>
                  length ls = length (wd_locals w)"
proof (cases src)
  case None
  obtain r x where c: "os_connect E sock dest (wd_x w) = (r, x)" by fastforce
  with None show ?thesis
    by (intro exI[of _ r] exI[of _ "wd_locals w"] exI[of _ x]) (simp add: ephemeral_connect_def on_x_def)
next
  case (Some l)
  then obtain r ls x where b: "bind_loop E (maxport - minport) sock l w = Some (r, w\<lparr>wd_locals := ls, wd_x := x\<rparr>)"
    "length ls = length (wd_locals w)"
    using bind_loop_lemma[of l w E "maxport - minport" sock] assms by auto
  obtain r' x' where c: "os_connect E sock dest x = (r', x')" by fastforce
  show ?thesis using Some b c by (cases r) (auto simp: ephemeral_connect_def on_x_def)
qed

lemma isPortReady_inv: "isPortReady pr = (a, pr') \<Longrightarrow> fp_inv pr \<Longrightarrow> fp_inv pr'"
  by (auto simp: isPortReady_def fp_inv_def fp_sizes_def split: if_splits)

lemma setNonblocking_world: "\<exists>r x. setNonblocking E fd w = (r, w\<lparr>wd_x := x\<rparr>)"
  by (auto simp: setNonblocking_def on_x_def Let_def split: prod.splits)

lemma cfd_open_data_lemma:
  assumes inv: "ip_inv p" and env: "env_ok E pending sent" and loc: "local_ok p w"
  shows "\<exists>r pr c d ls x. cfd_open_data E p w =
             Some (r, p\<lparr>ip_proto := pr, ip_dfd_connecting := c, ip_dfd := d\<rparr>, w\<lparr>wd_locals := ls, wd_x := x\<rparr>) \<and>
           fp_inv pr \<and> length ls = length (wd_locals w)"
proof -
  obtain a pr where ready: "isPortReady (ip_proto p) = (a, pr)" by fastforce
  have fp: "fp_inv pr" using isPortReady_inv[OF ready] inv by (simp add: ip_inv_def)
  let ?res = "\<lambda>c d ls x. (p\<lparr>ip_proto := pr, ip_dfd_connecting := c, ip_dfd := d\<rparr>, w\<lparr>wd_locals := ls, wd_x := x\<rparr>)"
  have goal: ?thesis if "cfd_open_data E p w = Some (r, ?res c d ls x)" "length ls = length (wd_locals w)" for r c d ls x
    using that fp by blast
  show ?thesis
  proof (cases a)
    case None
    then show ?thesis
      by (intro goal[where r = OK and c = "ip_dfd_connecting p" and d = "ip_dfd p" and ls = "wd_locals w" and x = "wd_x w"]) (simp_all add: cfd_open_data_def ready)
  next
    case (Some address)
    obtain s x1 where sock: "os_socket E (wd_x w) = (s, x1)" by fastforce
    show ?thesis
    proof (cases s)
      case (Inl e)
      with Some show ?thesis
        by (intro goal[where r = "Fail e" and c = "ip_dfd_connecting p" and d = "ip_dfd p" and ls = "wd_locals w" and x = x1])
          (simp_all add: cfd_open_data_def ready sock on_x_def Let_def)
    next
      case (Inr fd)
      obtain nb x2 where nb: "setNonblocking E fd (w\<lparr>wd_x := x1\<rparr>) = (nb, w\<lparr>wd_x := x2\<rparr>)"
        using setNonblocking_world[of E fd "w\<lparr>wd_x := x1\<rparr>"] by auto
      obtain err x3 where add: "po_add E fd (POLLIN OR POLLOUT) x2 = Some (err, x3)"
        using env by (fastforce simp: env_ok_def)
      obtain ce ls x4 where con: "ephemeral_connect E fd address (ip_local_addr p) (w\<lparr>wd_x := x3\<rparr>) =
          Some (ce, w\<lparr>wd_locals := ls, wd_x := x4\<rparr>)" "length ls = length (wd_locals w)"
        using ephemeral_connect_lemma[where src = "ip_local_addr p" and w = "w\<lparr>wd_x := x3\<rparr>" and E = E and sock = fd and dest = address] loc
        by (auto simp: local_ok_def)
      note unf = cfd_open_data_def ready sock on_x_def Let_def Some Inr nb on_xo_def add con
      show ?thesis
      proof (cases nb)
        case (Some e)
        then show ?thesis
          by (intro goal[where r = "Fail e" and c = "ip_dfd_connecting p" and d = "ip_dfd p" and ls = "wd_locals w" and x = x2]) (simp_all add: unf)
      next
        case nb: None
        show ?thesis
        proof (cases "err = OK")
          case False
          with nb show ?thesis by (intro goal[where r = err and c = True and d = fd and ls = "wd_locals w" and x = x3]) (simp_all add: unf)
        next
          case True
          with nb show ?thesis
            by (intro goal[where r = "case ce of None \<Rightarrow> OK | Some e \<Rightarrow> if e = EINPROGRESS then OK else Fail e" and c = "ce = Some EINPROGRESS" and d = fd and ls = ls and x = x4]) (auto simp: unf split: option.splits)
        qed
      qed
    qed
  qed
qed

lemma pipe_parts_inv:
  "ip_inv p \<Longrightarrow> fp_inv pr \<Longrightarrow> ip_inv (p\<lparr>ip_proto := pr, ip_dfd_connecting := c, ip_dfd := d\<rparr>)"
  by (simp add: ip_inv_def part_line_def full_line_def)

text \<open>What a run of the control handler keeps.\<close>

definition cfd_kept :: "('c, 'w::len, 'x) ipcalls \<Rightarrow> 'w clock \<Rightarrow> 'w ipipe \<Rightarrow> ('c, 'w, 'x) ipworld \<Rightarrow> 'w ipipe \<Rightarrow> ('c, 'w, 'x) ipworld \<Rightarrow> bool" where
  "cfd_kept E b p w p' w' =
     (ip_inv p' \<and> sked_ok E b w' \<and> local_ok p' w' \<and> ip_state p' = ip_state p \<and> ip_cfd p' = ip_cfd p \<and>
      ip_wakeup p' = ip_wakeup p \<and> ip_dfd_events p' = ip_dfd_events p \<and>
      (timers w' = timers w \<or> ip_state p = IDLE \<and> timers w' = (timers w)(this E := None)))"

lemma input_ok_fill:
  assumes "\<forall>l \<in> set (lines_of (part_line p) (m_lastchar (ip_ibuf p)) (contents (ip_ibuf p) @ ds @ rest)). reply_ok l"
    "ip_iline_full p \<longrightarrow> (\<exists>l. full_line p l \<and> reply_ok l)" "contents ib = contents (ip_ibuf p) @ ds"
    "m_linelen ib = m_linelen (ip_ibuf p)" "m_lastchar ib = m_lastchar (ip_ibuf p)"
  shows "input_ok (p\<lparr>ip_ibuf := ib\<rparr>)"
  using assms lines_of_append[of "part_line p" "m_lastchar (ip_ibuf p)" "contents (ip_ibuf p) @ ds" rest]
  by (auto simp: input_ok_def part_line_def full_line_def)

lemma cfd_tail_lemma:
  assumes inv: "ip_inv p" and env: "env_ok E pending sent" and sk: "sked_ok E b w" and loc: "local_ok p w"
  shows "\<exists>r p' w'. do { (r4, p4, w4) \<leftarrow> cfd_flush E p w; if r4 \<noteq> OK then Some (r4, p4, w4) else cfd_open_data E p4 w4 } =
             Some (r, p', w') \<and> cfd_kept E b p w p' w'"
proof -
  obtain r ob x where f: "cfd_flush E p w = Some (r, p\<lparr>ip_obuf := ob\<rparr>, w\<lparr>wd_x := x\<rparr>)" "ip_inv (p\<lparr>ip_obuf := ob\<rparr>)"
    using cfd_flush_lemma[OF inv env] by blast
  have loc': "local_ok (p\<lparr>ip_obuf := ob\<rparr>) (w\<lparr>wd_x := x\<rparr>)" using loc by (simp add: local_ok_def)
  obtain r' pr c d ls x' where o: "cfd_open_data E (p\<lparr>ip_obuf := ob\<rparr>) (w\<lparr>wd_x := x\<rparr>) =
      Some (r', p\<lparr>ip_obuf := ob\<rparr>\<lparr>ip_proto := pr, ip_dfd_connecting := c, ip_dfd := d\<rparr>, w\<lparr>wd_x := x\<rparr>\<lparr>wd_locals := ls, wd_x := x'\<rparr>)"
    "fp_inv pr" "length ls = length (wd_locals (w\<lparr>wd_x := x\<rparr>))"
    using cfd_open_data_lemma[OF f(2) env loc'] by blast
  show ?thesis
  proof (cases "r = OK")
    case True
    with f o sk loc pipe_parts_inv[OF f(2) o(2), where c = c and d = d] show ?thesis
      by (simp add: cfd_kept_def local_ok_def sked_ok_def)
  next
    case False
    with f sk loc show ?thesis by (simp add: cfd_kept_def local_ok_def)
  qed
qed

text \<open>The handler of the control connection as a whole.\<close>

lemma cfd_returns:
  assumes inv: "ip_inv p" and env: "env_ok E pending sent" and sk: "sked_ok E b w" and loc: "local_ok p w"
    and fd: "ip_cfd p \<noteq> -1"
    and full: "ip_iline_full p \<longrightarrow> (\<exists>l. full_line p l \<and> reply_ok l)"
    and input: "\<forall>l \<in> set (lines_of (part_line p) (m_lastchar (ip_ibuf p))
                  (contents (ip_ibuf p) @ pending (ip_cfd p) (wd_x w))). reply_ok l"
  shows "\<exists>r p' w'. notifyPollEvent_cfd E (ip_cfd p) revents p w = Some (r, p', w') \<and> cfd_kept E b p w p' w'"
proof (cases "revents AND (POLLERR OR POLLHUP) = 0")
  case False
  with inv sk loc fd show ?thesis by (simp add: notifyPollEvent_cfd_def cfd_kept_def)
next
  case ev: True
  obtain r1 a x1 where c: "cfd_connecting E revents p w = Some (r1, p\<lparr>ip_cfd_connecting := a\<rparr>, w\<lparr>wd_x := x1\<rparr>)"
    "pending (ip_cfd p) x1 = pending (ip_cfd p) (wd_x w)"
    using cfd_connecting_lemma[OF env] by blast
  let ?p1 = "p\<lparr>ip_cfd_connecting := a\<rparr>" and ?w1 = "w\<lparr>wd_x := x1\<rparr>"
  have inv1: "ip_inv ?p1" and fd1: "ip_cfd ?p1 \<noteq> -1" using inv fd by simp_all
  obtain r2 ib x2 ds rest where f: "cfd_fill E revents ?p1 ?w1 = Some (r2, ?p1\<lparr>ip_ibuf := ib\<rparr>, ?w1\<lparr>wd_x := x2\<rparr>)"
    "ip_inv (?p1\<lparr>ip_ibuf := ib\<rparr>)" "contents ib = contents (ip_ibuf ?p1) @ ds" "m_linelen ib = m_linelen (ip_ibuf ?p1)"
    "m_lastchar ib = m_lastchar (ip_ibuf ?p1)" "pending (ip_cfd ?p1) (wd_x ?w1) = ds @ rest"
    using cfd_fill_lemma[OF inv1 env fd1, where revents = revents and w = ?w1] by blast
  let ?p2 = "?p1\<lparr>ip_ibuf := ib\<rparr>" and ?w2 = "?w1\<lparr>wd_x := x2\<rparr>"
  have ok2: "input_ok ?p2"
    by (rule input_ok_fill[where ds = ds and rest = rest]) (use input full f c(2) in \<open>auto simp: part_line_def full_line_def\<close>)
  have sk2: "sked_ok E b ?w2" and loc2: "local_ok ?p2 ?w2" using sk loc by (simp_all add: local_ok_def)
  obtain r3 p3 w3 where l: "cfd_loop E OK OK ?p2 ?w2 = Some (r3, p3, w3)" "ip_inv p3" "sked_ok E b w3" "loop_frame E ?p2 ?w2 p3 w3"
    using cfd_loop_lemma[OF f(2) ok2 sk2] unfolding loop_done_def by blast
  have k3: "cfd_kept E b p w p3 w3" and loc3: "local_ok p3 w3"
    using l(2-4) loc2 by (auto simp: cfd_kept_def loop_frame_def local_ok_def)
  note unf = notifyPollEvent_cfd_def c(1) f(1) l(1)[simplified] ev fd
  consider "r1 \<noteq> OK" | "r1 = OK" "r2 \<noteq> OK" | "r1 = OK" "r2 = OK" "r3 \<noteq> OK" | "r1 = OK" "r2 = OK" "r3 = OK" by blast
  then show ?thesis
  proof cases
    case 1
    with inv1 sk loc show ?thesis by (simp add: unf cfd_kept_def local_ok_def)
  next
    case 2
    with f(2) sk loc show ?thesis by (simp add: unf cfd_kept_def local_ok_def)
  next
    case 3
    with k3 show ?thesis by (simp add: unf)
  next
    case 4
    obtain r p' w' where t: "do { (r4, p4, w4) \<leftarrow> cfd_flush E p3 w3; if r4 \<noteq> OK then Some (r4, p4, w4) else cfd_open_data E p4 w4 } =
        Some (r, p', w')" "cfd_kept E b p3 w3 p' w'"
      using cfd_tail_lemma[OF l(2) env l(3) loc3] by blast
    have "cfd_kept E b p w p' w'" using t(2) k3 by (auto simp: cfd_kept_def)
    with 4 t(1) show ?thesis by (simp add: unf)
  qed
qed

text \<open>
  C12. The handler of the control connection returns, without a crash, whatever arrives: with a well-formed
  connection and event queue, if every complete line among the bytes buffered and waiting on the
  socket is one that \<open>giveInput\<close> is defined on, it ends, keeps the invariant, and at most cancels the
  connection's own timeout.
\<close>
theorem cfd_handler_returns:
  assumes inv: "ip_inv p" and env: "env_ok E pending sent" and sk: "sked_ok E b w" and loc: "local_ok p w"
    and fd: "ip_cfd p \<noteq> -1"
    and full: "ip_iline_full p \<longrightarrow> (\<exists>l. full_line p l \<and> reply_ok l)"
    and input: "\<forall>l \<in> set (lines_of (part_line p) (m_lastchar (ip_ibuf p))
                  (contents (ip_ibuf p) @ pending (ip_cfd p) (wd_x w))). reply_ok l"
  shows "\<exists>r p' w'. notifyPollEvent_cfd E (ip_cfd p) revents p w = Some (r, p', w') \<and> cfd_kept E b p w p' w'"
  by (rule cfd_returns[OF assms])

subsection \<open>A small world, for the witnesses\<close>

text \<open>
  Descriptor 3 has bytes to read, writes are collected, the clock stands at a given second, the data
  handler logs what it is asked for and always finds seven bytes, and the poller accepts everything.
\<close>

record osx =
  ox_in :: "char list"
  ox_out :: "char list"
  ox_sec :: int
  ox_log :: "(int \<times> mask) list"
  ox_closed :: "int list"
  ox_told :: "(rc \<times> int) list"

definition ox0 :: osx where
  "ox0 = \<lparr>ox_in = [], ox_out = [], ox_sec = 0, ox_log = [], ox_closed = [], ox_told = []\<rparr>"

definition env0 :: "(nat, 64, osx) ipcalls" where
  "env0 = \<lparr>this = 7, sked_realloc = grow, os_gettimeofday = (\<lambda>x. ((ox_sec x, 0), x)), os_inet_aton = (\<lambda>s. Some 1),
     os_gethostbyname = (\<lambda>s x. (None, x)), os_socket = (\<lambda>x. (Inr 5, x)), os_getfl = (\<lambda>fd x. (Inr 0, x)),
     os_setfl = (\<lambda>fd f x. (None, x)), os_close = (\<lambda>fd x. (None, x\<lparr>ox_closed := ox_closed x @ [fd]\<rparr>)),
     os_connect = (\<lambda>fd a x. (None, x)), os_bind = (\<lambda>fd a x. (None, x)), os_so_error = (\<lambda>fd x. (Inr None, x)),
     os_read = (\<lambda>fd n x. if fd = 3 then (Inr (take n (ox_in x)), x\<lparr>ox_in := drop n (ox_in x)\<rparr>) else (Inl EWOULDBLOCK, x)),
     os_write = (\<lambda>fd ds x. if fd = 3 then (Inr (length ds), x\<lparr>ox_out := ox_out x @ ds\<rparr>) else (Inl EWOULDBLOCK, x)),
     po_add = (\<lambda>fd m x. Some (OK, x)), po_del = (\<lambda>fd x. Some (OK, x)), po_setMask = (\<lambda>fd m x. Some (OK, x)),
     po_clearReadiness = (\<lambda>fd m x. Some (OK, x)),
     handle_data_io = (\<lambda>fd m t w. Some (Inr 7, w\<lparr>wd_x := (wd_x w)\<lparr>ox_log := ox_log (wd_x w) @ [(fd, m)]\<rparr>\<rparr>)),
     statusbuf0 = replicate 513 NUL\<rparr>"

definition pending0 :: "int \<Rightarrow> osx \<Rightarrow> char list" where
  "pending0 fd x = (if fd = 3 then ox_in x else [])"

definition sent0 :: "int \<Rightarrow> osx \<Rightarrow> char list" where
  "sent0 fd x = (if fd = 3 then ox_out x else [])"

definition wd0 :: "(nat, 64, osx) ipworld" where
  "wd0 = \<lparr>wd_sked = sk0, wd_locals = [], wd_x = ox0\<rparr>"

definition pipe0 :: "64 ipipe" where
  "pipe0 = \<lparr>ip_state = IDLE, ip_cfd = 3, ip_cfd_connecting = False, ip_dfd = -1, ip_dfd_connecting = False,
     ip_obuf = nb0, ip_ibuf = nb0, ip_iline = replicate 501 NUL, ip_iline_full = False, ip_bytesPerTick = 100,
     ip_bytesPerSec = 1000000, ip_bytesUnsleptFor = 0, ip_dfd_events = 0, ip_wakeup = 0, ip_in_ftpCmdDone = 0,
     ip_local_addr = None, ip_proto = fp0\<rparr>"

text \<open>A user that logs how its commands end.\<close>

definition user0 :: "(nat, 64, osx) cmd_done" where
  "user0 xerr status buf pw = (case pw of (p, w) \<Rightarrow> Some (p, w\<lparr>wd_x := (wd_x w)\<lparr>ox_told := ox_told (wd_x w) @ [(xerr, status)]\<rparr>\<rparr>))"

lemma env0_ok: "env_ok env0 pending0 sent0"
  by (auto simp: env_ok_def env0_def read_ok_def write_ok_def pending0_def sent0_def)

lemma env0_simps [simp]:
  "this env0 = 7" "sked_realloc env0 = grow" "os_gettimeofday env0 x = ((ox_sec x, 0), x)"
  "po_del env0 fd x = Some (OK, x)" "po_setMask env0 fd m x = Some (OK, x)"
  "os_close env0 fd x = (None, x\<lparr>ox_closed := ox_closed x @ [fd]\<rparr>)"
  "handle_data_io env0 fd m t w = Some (Inr 7, w\<lparr>wd_x := (wd_x w)\<lparr>ox_log := ox_log (wd_x w) @ [(fd, m)]\<rparr>\<rparr>)"
  "statusbuf0 env0 = replicate 513 NUL"
  by (simp_all add: env0_def)

lemma wd0_sked: "sked_ok env0 0 wd0" "room grow sk0" "timers wd0 = Map.empty"
  by (simp_all add: sked_ok_def wd0_def)

lemma pipe0_inv: "ip_inv pipe0" "local_ok pipe0 wd0"
proof -
  have "fp_inv fp0" by (rule fp0_inv)
  then show "ip_inv pipe0" "local_ok pipe0 wd0"
    by (simp_all add: ip_inv_def pipe0_def part_line_def iline_LEN_def local_ok_def)
qed

theorem cfd_handler_returns_witness:
  "\<exists>r p' w'. notifyPollEvent_cfd env0 3 POLLIN pipe0 (wd0\<lparr>wd_x := ox0\<lparr>ox_in := ''220 hi'' @ [CR, LF]\<rparr>\<rparr>) = Some (r, p', w') \<and> ip_inv p'"
proof -
  let ?w = "wd0\<lparr>wd_x := ox0\<lparr>ox_in := ''220 hi'' @ [CR, LF]\<rparr>\<rparr>"
  have "lines_of [] NUL (''220 hi'' @ [CR, LF]) = [''220 hi'']"
    by (simp add: lines_of.simps iline_LEN_def)
  moreover have "reply_ok ''220 hi''"
    by code_simp
  ultimately have "\<forall>l \<in> set (lines_of (part_line pipe0) (m_lastchar (ip_ibuf pipe0)) (contents (ip_ibuf pipe0) @
      pending0 (ip_cfd pipe0) (wd_x ?w))). reply_ok l"
    by (simp add: pipe0_def part_line_def pending0_def)
  from cfd_handler_returns[OF pipe0_inv(1) env0_ok _ _ _ _ this, of 0 POLLIN] show ?thesis
    using wd0_sked(1) pipe0_inv(2) by (auto simp: pipe0_def local_ok_def cfd_kept_def)
qed

end
