(* ===== verification/Ftp_pipe_data.thy ===== *)
theory Ftp_pipe_data
  imports Ftp_pipe_proofs
begin

unbundle bit_operations_syntax

text \<open>
  The data side of a connection: the throttling of the transfer and its sleeping and waking, the end of
  a transfer, shutdown and the notifications of the user.
\<close>

subsection \<open>Sleeping\<close>

lemma read_eclock_world: "\<exists>now x. read_eclock E w = (now, w\<lparr>wd_x := x\<rparr>)"
  by (auto simp: read_eclock_def on_x_def split: prod.splits)

lemma skedIndex_0: "timers w c = None \<Longrightarrow> skedIndex (wd_sked w) c = 0"
  by (simp add: schedule_def split: if_splits)

text \<open>
  A connection reads nothing before its wake-up time: an event on the data socket that comes too
  early, and is no kickstart or hangup, does not reach the data handler. The connection goes to sleep
  with a timer at the wake-up time and remembers the event.
\<close>
theorem early_event_sleeps:
  assumes sk: "sked_ok E b w" and room: "room (sked_realloc E) (wd_sked w)" and free: "timers w (this E) = None"
    and now: "read_eclock E w = (now, w0)" and win: "in_window b (ip_wakeup p)"
    and get: "ip_state p = GETTING" "\<not> ip_dfd_connecting p"
    and early: "eclock_after (ip_wakeup p) now" and ev: "revents AND (KICKSTART OR POLLHUP) = 0"
  shows "\<exists>s. notifyPollEvent_dfd E fd revents p w =
               Some (OK, p\<lparr>ip_state := SLEEPING, ip_dfd_events := ip_dfd_events p OR revents\<rparr>, w0\<lparr>wd_sked := s\<rparr>) \<and>
             sked_ok E b (w0\<lparr>wd_sked := s\<rparr>) \<and> schedule s = (timers w)(this E \<mapsto> ip_wakeup p)"
proof -
  obtain x where w0: "w0 = w\<lparr>wd_x := x\<rparr>" using read_eclock_world[of E w] now by auto
  have sk0: "sked_ok E b w0" "room (sked_realloc E) (wd_sked w0)" "timers w0 (this E) = None" "timers w0 = timers w"
    using sk room free by (simp_all add: w0)
  obtain s where s: "sched_at E (ip_wakeup p) w0 = Some (w0\<lparr>wd_sked := s\<rparr>)" "sked_ok E b (w0\<lparr>wd_sked := s\<rparr>)"
    "schedule s = (timers w0)(this E \<mapsto> ip_wakeup p)"
    using sched_at_lemma[OF sk0(1-3) win] by blast
  have z: "skedIndex (wd_sked w0) (this E) = 0" using skedIndex_0[OF sk0(3)] .
  have c: "dfd_connecting E revents p w0 = Some (OK, p, w0)" using get(2) by (simp add: dfd_connecting_def)
  have sn: "dfd_snooze E revents now p w0 = Some (p\<lparr>ip_state := SLEEPING\<rparr>, w0\<lparr>wd_sked := s\<rparr>)"
    unfolding dfd_snooze_def using get early ev z s(1) by (simp only: simp_thms if_True) simp
  have tr: "dfd_transfer E fd revents now (p\<lparr>ip_state := SLEEPING\<rparr>) (w0\<lparr>wd_sked := s\<rparr>) =
      Some (OK, False, 0, p\<lparr>ip_state := SLEEPING, ip_dfd_events := ip_dfd_events p OR revents\<rparr>, w0\<lparr>wd_sked := s\<rparr>)"
    by (simp add: dfd_transfer_def)
  have "notifyPollEvent_dfd E fd revents p w =
      Some (OK, p\<lparr>ip_state := SLEEPING, ip_dfd_events := ip_dfd_events p OR revents\<rparr>, w0\<lparr>wd_sked := s\<rparr>)"
    using get by (simp add: notifyPollEvent_dfd_def now c sn tr throttle_def)
  with s(2,3) sk0(4) show ?thesis by auto
qed

theorem early_event_sleeps_witness:
  "\<exists>s. notifyPollEvent_dfd env0 5 POLLIN (pipe0\<lparr>ip_state := GETTING, ip_dfd := 5, ip_wakeup := 40\<rparr>) wd0 =
         Some (OK, pipe0\<lparr>ip_state := SLEEPING, ip_dfd := 5, ip_dfd_events := POLLIN, ip_wakeup := 40\<rparr>, wd0\<lparr>wd_sked := s\<rparr>) \<and>
       schedule s = [7 \<mapsto> 40]"
proof -
  let ?p = "pipe0\<lparr>ip_state := GETTING, ip_dfd := 5, ip_wakeup := 40\<rparr>"
  have "read_eclock env0 wd0 = (0, wd0)"
    by (simp add: read_eclock_def on_x_def wd0_def ox0_def eclock_def)
  moreover have "POLLIN AND (KICKSTART OR POLLHUP) = 0" by (simp add: POLLIN_def KICKSTART_def POLLHUP_def)
  ultimately show ?thesis
    using early_event_sleeps[OF wd0_sked(1), of 0 wd0 ?p POLLIN 5] wd0_sked(2,3)
    by (auto simp: wd0_def eclock_after_def in_window_def ticks_def pipe0_def)
qed

subsection \<open>The bandwidth bound\<close>

text \<open>
  One read: the bytes read and those carried over are paid for with \<open>howlong\<close> ticks of dead time, up
  to a remainder carried over to the next read. The rate is in bytes per 10000 ticks.
\<close>

definition carry_max :: "'t pipe \<Rightarrow> int" where
  "carry_max p = max 5 (ip_bytesPerTick p)"

definition rate_ok :: "'t pipe \<Rightarrow> bool" where
  "rate_ok p = (0 < ip_bytesPerSec p \<and> ip_bytesPerTick p = ip_bytesPerSec p div eclock_HERTZ \<and>
                0 \<le> ip_bytesUnsleptFor p \<and> ip_bytesUnsleptFor p \<le> carry_max p)"

text \<open>The products of the slow mode fit an \<open>int\<close>.\<close>

definition read_fits :: "'t pipe \<Rightarrow> int \<Rightarrow> bool" where
  "read_fits p n = (0 \<le> n \<and> (n + carry_max p) * (if ip_bytesPerTick p < 5 then eclock_HERTZ else 1) < 2 ^ 31)"

lemma div_mult_slack:
  fixes n r :: int
  assumes "0 \<le> n" "0 < r" "r < 50000"
  shows "(n * 10000 div r) * r div 10000 \<le> n" "n - (n * 10000 div r) * r div 10000 \<le> 5"
proof -
  let ?h = "n * 10000 div r"
  have "n * 10000 mod r < r" "0 \<le> n * 10000 mod r" "?h * r + n * 10000 mod r = n * 10000" using assms by simp_all
  then have 1: "?h * r \<le> n * 10000" and 2: "n * 10000 - r < ?h * r" by linarith+
  show "?h * r div 10000 \<le> n" using 1 by simp
  show "n - ?h * r div 10000 \<le> 5" using 2 assms(3) by linarith
qed

lemma div_le_int: "0 \<le> a \<Longrightarrow> 0 < c \<Longrightarrow> a div c \<le> (a :: int)"
  using zdiv_mono2[of a 1 c] by simp

lemma throttle_lemma:
  assumes st: "ip_state p = GETTING" and ok: "rate_ok p" and fits: "read_fits p n"
  shows "\<exists>h u. throttle now n p = Some (p\<lparr>ip_bytesUnsleptFor := u, ip_wakeup := now + word_of_int h, ip_dfd_events := 0\<rparr>) \<and>
           0 \<le> h \<and> 0 \<le> u \<and> u \<le> carry_max p \<and> h \<le> (n + carry_max p) * eclock_HERTZ \<and>
           eclock_HERTZ * (n + ip_bytesUnsleptFor p - u) \<le> ip_bytesPerSec p * h"
proof -
  let ?n = "n + ip_bytesUnsleptFor p" and ?r = "ip_bytesPerSec p"
  have n: "0 \<le> ?n" "?n \<le> n + carry_max p" using ok fits by (auto simp: rate_ok_def read_fits_def)
  show ?thesis
  proof (cases "ip_bytesPerTick p < 5")
    case True
    define h u where "h = ?n * 10000 div ?r" and "u = ?n - h * ?r div 10000"
    have r: "0 < ?r" "?r < 50000" using True ok by (auto simp: rate_ok_def eclock_HERTZ_def)
    have i: "is_int ?n" "is_int (?n * eclock_HERTZ)" using True n fits by (auto simp: is_int_def read_fits_def eclock_HERTZ_def)
    have u: "0 \<le> u" "u \<le> 5" using div_mult_slack[OF n(1) r] by (simp_all add: h_def u_def)
    have h: "0 \<le> h" "h \<le> ?n * 10000" using n r by (simp_all add: h_def pos_imp_zdiv_nonneg_iff div_le_int)
    have c: "cdiv (?n * eclock_HERTZ) ?r = h" "cdiv (h * ?r) eclock_HERTZ = h * ?r div 10000"
      using n r h by (simp_all add: cdiv_nonneg h_def eclock_HERTZ_def)
    have "h * ?r div 10000 * 10000 \<le> h * ?r" by simp
    then have bound: "10000 * (?n - u) \<le> ?r * h" by (simp add: u_def mult.commute)
    have "throttle now n p = Some (p\<lparr>ip_bytesUnsleptFor := u, ip_wakeup := now + word_of_int h, ip_dfd_events := 0\<rparr>)"
      using True st i r(1) by (simp add: throttle_def c u_def Let_def)
    moreover have "u \<le> carry_max p" "h \<le> (n + carry_max p) * 10000" using u h n(2) by (auto simp: carry_max_def)
    ultimately show ?thesis using h(1) u(1) bound unfolding eclock_HERTZ_def by blast
  next
    case False
    let ?t = "ip_bytesPerTick p"
    have i: "is_int ?n" using False n fits by (auto simp: is_int_def read_fits_def)
    have "?t * 10000 \<le> ?r" using ok by (simp add: rate_ok_def eclock_HERTZ_def)
    then have "?t * 10000 * (?n div ?t) \<le> ?r * (?n div ?t)" using n False by (intro mult_right_mono) (auto simp: pos_imp_zdiv_nonneg_iff)
    then have "10000 * (?n - ?n mod ?t) \<le> ?r * (?n div ?t)" by (simp add: minus_mod_eq_mult_div algebra_simps)
    moreover have "?n div ?t \<le> (n + carry_max p) * 10000" using div_le_int[of ?n ?t] n False by auto
    moreover have "?n mod ?t < ?t" using False by (intro pos_mod_bound) simp
    then have "?n mod ?t \<le> carry_max p" by (simp add: carry_max_def)
    moreover have "0 \<le> ?n mod ?t" "0 \<le> ?n div ?t" using False n by (auto simp: pos_imp_zdiv_nonneg_iff)
    moreover have "throttle now n p =
        Some (p\<lparr>ip_bytesUnsleptFor := ?n mod ?t, ip_wakeup := now + word_of_int (?n div ?t), ip_dfd_events := 0\<rparr>)"
      using False st i n by (simp add: throttle_def cdiv_nonneg Let_def)
    ultimately show ?thesis unfolding eclock_HERTZ_def by blast
  qed
qed

text \<open>
  \<open>got\<close> counts the bytes the data handler has taken; a single call takes at most \<open>M\<close>, and nothing else
  the data side calls changes the count.
\<close>

definition io_ok :: "('c, 't, 'x) calls \<Rightarrow> ('x \<Rightarrow> int) \<Rightarrow> int \<Rightarrow> bool" where
  "io_ok E got M =
     ((\<forall>fd m t w r w'. handle_data_io E fd m t w = Some (r, w') \<longrightarrow>
         (case r of Inl e \<Rightarrow> got (wd_x w') = got (wd_x w)
                  | Inr n \<Rightarrow> got (wd_x w') = got (wd_x w) + int n \<and> int n \<le> M)) \<and>
      (\<forall>x. got (snd (os_gettimeofday E x)) = got x) \<and> (\<forall>fd x. got (snd (os_so_error E fd x)) = got x) \<and>
      (\<forall>fd m x r x'. po_clearReadiness E fd m x = Some (r, x') \<longrightarrow> got x' = got x) \<and>
      (\<forall>fd m x r x'. po_setMask E fd m x = Some (r, x') \<longrightarrow> got x' = got x) \<and>
      (\<forall>fd x r x'. po_del E fd x = Some (r, x') \<longrightarrow> got x' = got x) \<and> (\<forall>fd x. got (snd (os_close E fd x)) = got x))"

lemma read_eclock_got: "io_ok E got M \<Longrightarrow> read_eclock E w = (now, w') \<Longrightarrow> got (wd_x w') = got (wd_x w)"
  by (auto simp: io_ok_def read_eclock_def on_x_def split: prod.splits) (metis snd_conv)

lemma unsched_x: "unsched E w = Some w' \<Longrightarrow> wd_x w' = wd_x w"
  by (auto simp: unsched_def bind_eq_Some_conv)

lemma sched_at_x: "sched_at E t w = Some w' \<Longrightarrow> wd_x w' = wd_x w"
  by (auto simp: sched_at_def bind_eq_Some_conv)

lemma dfd_connecting_frame:
  assumes "dfd_connecting E revents p w = Some (r, p', w')"
  shows "\<exists>c. p' = p\<lparr>ip_dfd_connecting := c\<rparr>" and "io_ok E got M \<Longrightarrow> got (wd_x w') = got (wd_x w)"
proof -
  obtain so x1 where x1: "os_so_error E (ip_dfd p) (wd_x w) = (so, x1)" by fastforce
  have cases: "(p', w') = (p, w) \<or> (p', w') = (p, w\<lparr>wd_x := x1\<rparr>) \<or> (p', w') = (p\<lparr>ip_dfd_connecting := False\<rparr>, w\<lparr>wd_x := x1\<rparr>) \<or>
      (\<exists>r x2. po_clearReadiness E (ip_dfd p) POLLOUT x1 = Some (r, x2) \<and> (p', w') = (p, w\<lparr>wd_x := x2\<rparr>))"
    using assms x1 unfolding dfd_connecting_def
    by (auto simp: on_x_def on_xo_def bind_eq_Some_conv split: if_splits sum.splits option.splits)
  have "p = p\<lparr>ip_dfd_connecting := ip_dfd_connecting p\<rparr>" by simp
  with cases show "\<exists>c. p' = p\<lparr>ip_dfd_connecting := c\<rparr>" by (metis prod.inject)
  assume "io_ok E got M"
  then have "got x1 = got (wd_x w)" "\<And>r x2. po_clearReadiness E (ip_dfd p) POLLOUT x1 = Some (r, x2) \<Longrightarrow> got x2 = got x1"
    using x1 unfolding io_ok_def by (metis snd_conv, blast)
  with cases show "got (wd_x w') = got (wd_x w)" by auto
qed

lemma io_okD:
  assumes "io_ok E got M"
  shows "handle_data_io E fd m t w = Some (Inr n, w') \<Longrightarrow> got (wd_x w') = got (wd_x w) + int n \<and> int n \<le> M"
    and "handle_data_io E fd m t w = Some (Inl e, w') \<Longrightarrow> got (wd_x w') = got (wd_x w)"
    and "po_clearReadiness E fd m x = Some (r, x') \<Longrightarrow> got x' = got x"
    and "po_setMask E fd m x = Some (r, x') \<Longrightarrow> got x' = got x" and "po_del E fd x = Some (r, x') \<Longrightarrow> got x' = got x"
    and "os_close E fd x = (c, x') \<Longrightarrow> got x' = got x"
proof -
  note io = assms[unfolded io_ok_def]
  note d = conjunct1[OF io, rule_format] and rest = conjunct2[OF io]
  show "handle_data_io E fd m t w = Some (Inr n, w') \<Longrightarrow> got (wd_x w') = got (wd_x w) + int n \<and> int n \<le> M"
    using d[of fd m t w "Inr n" w'] by simp
  show "handle_data_io E fd m t w = Some (Inl e, w') \<Longrightarrow> got (wd_x w') = got (wd_x w)" using d[of fd m t w "Inl e" w'] by simp
  show "po_clearReadiness E fd m x = Some (r, x') \<Longrightarrow> got x' = got x" "po_setMask E fd m x = Some (r, x') \<Longrightarrow> got x' = got x"
    "po_del E fd x = Some (r, x') \<Longrightarrow> got x' = got x" using rest by blast+
  show "os_close E fd x = (c, x') \<Longrightarrow> got x' = got x" using rest by (metis snd_conv)
qed

lemma drop_fd_got: "io_ok E got M \<Longrightarrow> drop_fd E fd w = Some (c, w') \<Longrightarrow> got (wd_x w') = got (wd_x w)"
proof -
  assume io: "io_ok E got M" and d: "drop_fd E fd w = Some (c, w')"
  show ?thesis using d by (auto simp: drop_fd_def on_xo_def on_x_def bind_eq_Some_conv split: if_splits prod.splits
        dest!: io_okD(5)[OF io] io_okD(6)[OF io])
qed

lemma set_mask_got: "io_ok E got M \<Longrightarrow> set_mask E fd m w = Some w' \<Longrightarrow> got (wd_x w') = got (wd_x w)"
  by (auto simp: set_mask_def on_xo_def bind_eq_Some_conv intro: io_okD(4) split: if_splits)

text \<open>The fields of a connection that the throttle uses, and the guard of \<open>ftpCmdDone\<close>.\<close>

definition pace :: "'t pipe \<Rightarrow> nat \<times> 't \<times> int \<times> int \<times> int" where
  "pace p = (ip_in_ftpCmdDone p, ip_wakeup p, ip_bytesPerSec p, ip_bytesPerTick p, ip_bytesUnsleptFor p)"

lemma pace_cong [simp]:
  "pace (p\<lparr>ip_dfd_connecting := c\<rparr>) = pace p" "pace (p\<lparr>ip_state := st\<rparr>) = pace p" "pace (p\<lparr>ip_dfd := fd\<rparr>) = pace p"
  "pace (p\<lparr>ip_dfd_events := v\<rparr>) = pace p" "pace (p\<lparr>ip_cfd_connecting := c\<rparr>) = pace p" "pace (p\<lparr>ip_ibuf := ib\<rparr>) = pace p"
  "pace (p\<lparr>ip_obuf := ob\<rparr>) = pace p" "pace (p\<lparr>ip_iline := il\<rparr>) = pace p" "pace (p\<lparr>ip_iline_full := f\<rparr>) = pace p"
  "pace (p\<lparr>ip_proto := pr\<rparr>) = pace p"
  by (simp_all add: pace_def)

definition held :: "'t pipe \<Rightarrow> ipstate \<times> nat \<times> 't \<times> int \<times> int \<times> int" where
  "held p = (ip_state p, pace p)"

lemma held_cong [simp]:
  "held (p\<lparr>ip_dfd_connecting := c\<rparr>) = held p" "held (p\<lparr>ip_dfd := fd\<rparr>) = held p"
  "held (p\<lparr>ip_cfd_connecting := c\<rparr>) = held p" "held (p\<lparr>ip_ibuf := ib\<rparr>) = held p"
  "held (p\<lparr>ip_obuf := ob\<rparr>) = held p" "held (p\<lparr>ip_iline := il\<rparr>) = held p" "held (p\<lparr>ip_iline_full := f\<rparr>) = held p"
  "held (p\<lparr>ip_proto := pr\<rparr>) = held p"
  by (simp_all add: held_def)

text \<open>The handler of the control descriptor touches neither these fields nor the state.\<close>

lemma give_line_pace:
  assumes "give_line E q u = Some (r, q', u')"
  shows "held q' = held q"
proof (cases "ip_iline_full q")
  case True
  then obtain w1 where "(if ip_state q = IDLE then unsched E u else Some u) = Some w1"
    using assms by (simp add: give_line_def bind_eq_Some_conv Let_def) blast
  moreover obtain err pr where "giveInput (ip_proto q) (ip_iline q) = Some (err, pr)"
    using assms True by (simp add: give_line_def bind_eq_Some_conv Let_def) blast
  ultimately show ?thesis
    using assms True by (auto simp: give_line_def getStatus_None Let_def split: if_split_asm)
next
  case False
  with assms show ?thesis by (simp add: give_line_def)
qed

lemma put_loop_pace: "put_loop pe p = Some res \<Longrightarrow> held (snd res) = held p"
proof (induction rule: put_loop.raw_induct[rotated, consumes 1, case_names step])
  case (step put_loop pe p res)
  then show ?case
    by (auto simp: Let_def bind_eq_Some_conv split: option.split_asm if_split_asm dest!: step.IH)
qed

lemma cfd_loop_pace: "cfd_loop E g pe p w = Some res \<Longrightarrow> held (fst (snd res)) = held p"
proof (induction rule: cfd_loop.raw_induct[rotated, consumes 1, case_names step])
  case (step cfd_loop E g pe p w res)
  have gl: "get_line g q = Some (o1, q') \<Longrightarrow> held q' = held q" for g q o1 q'
    by (auto simp: get_line_def Let_def bind_eq_Some_conv split: if_splits)
  have pl: "put_loop pe q = Some (o1, q') \<Longrightarrow> held q' = held q" for pe q o1 q'
    using put_loop_pace[of pe q "(o1, q')"] by simp
  show ?case
  proof (cases "isInputReady (ip_proto p) \<and> g \<noteq> Fail EWOULDBLOCK \<or> isOutputReady (ip_proto p) \<and> pe \<noteq> Fail EWOULDBLOCK")
    case False
    have "(if isInputReady (ip_proto p) \<and> g \<noteq> Fail EWOULDBLOCK \<or> isOutputReady (ip_proto p) \<and> pe \<noteq> Fail EWOULDBLOCK
        then x else Some (OK, p, w)) = Some (OK, p, w)" for x
      by (rule if_not_P[OF False])
    with step(2) have "res = (OK, p, w)" by (simp only: option.inject)
    then show ?thesis by simp
  next
    case True
    note prems = step(2)[unfolded if_P[OF True]]
    then obtain g1 p1 where 1: "get_line g p = Some (g1, p1)" by (auto simp: bind_eq_Some_conv)
    show ?thesis
    proof (cases g1)
      case (Inl e)
      with prems 1 gl[OF 1] show ?thesis by auto
    next
      case (Inr ge)
      with prems 1 obtain r p2 w1 where 2: "give_line E p1 w = Some (r, p2, w1)" by (auto simp: bind_eq_Some_conv)
      show ?thesis
      proof (cases "r = OK")
        case False
        with prems 1 2 Inr gl[OF 1] give_line_pace[OF 2] show ?thesis by auto
      next
        case True
        with prems 1 2 Inr obtain q p3 where 3: "put_loop pe p2 = Some (q, p3)" by (auto simp: bind_eq_Some_conv)
        with prems 1 2 Inr True gl[OF 1] give_line_pace[OF 2] pl[OF 3] show ?thesis
          by (cases q) (auto dest!: step.IH)
      qed
    qed
  qed
qed

text \<open>The same for results, in a form that goes through the handlers step by step.\<close>

definition paces :: "'t pipe \<Rightarrow> ('r \<times> 't pipe \<times> 'v) option \<Rightarrow> bool" where
  "paces p m = (\<forall>r p' w'. m = Some (r, p', w') \<longrightarrow> held p' = held p)"

lemma paces_bind:
  assumes m: "paces p m" and f: "\<And>r p1 w1. held p1 = held p \<Longrightarrow> paces p (f (r, p1, w1))"
  shows "paces p (m \<bind> f)"
proof (cases m)
  case (Some y)
  with m have "held (fst (snd y)) = held p" by (cases y) (simp add: paces_def)
  with Some f[of "fst (snd y)" "fst y" "snd (snd y)"] show ?thesis by simp
qed (simp add: paces_def)

lemma paces_Some: "held p' = held p \<Longrightarrow> paces p (Some (r, p', w'))"
  by (simp add: paces_def)

lemma paces_pre: "(\<And>a. paces p (f a)) \<Longrightarrow> paces p (m \<bind> f)"
  by (cases m) (simp_all add: paces_def)

lemma paces_assertion: "(b \<Longrightarrow> paces p m) \<Longrightarrow> paces p (assertion b \<bind> (\<lambda>u. m))"
  by (cases b) (simp_all add: paces_def)

lemmas paces_intros = paces_Some paces_pre paces_assertion

lemma paces_cfd_connecting: "held q = held p \<Longrightarrow> paces p (cfd_connecting E v q w)"
  by (auto simp: cfd_connecting_def intro!: paces_intros(1,2) split: prod.split sum.split option.split)

lemma paces_cfd_fill: "held q = held p \<Longrightarrow> paces p (cfd_fill E v q w)"
  by (auto simp: cfd_fill_def intro!: paces_intros(1,2))

lemma paces_cfd_flush: "held q = held p \<Longrightarrow> paces p (cfd_flush E q w)"
  unfolding cfd_flush_def by (rule paces_bind) (auto intro!: paces_intros(1,2))

lemma paces_cfd_open_data: "held q = held p \<Longrightarrow> paces p (cfd_open_data E q w)"
  by (auto simp: cfd_open_data_def Let_def intro!: paces_intros(1,2) split: prod.split sum.split option.split)

lemma paces_cfd_loop: "held q = held p \<Longrightarrow> paces p (cfd_loop E g pe q w)"
  using cfd_loop_pace[of E g pe q w] by (fastforce simp: paces_def)

lemma cfd_keeps_pace: "paces p (notifyPollEvent_cfd E fd v p w)"
  unfolding notifyPollEvent_cfd_def
  by (auto intro!: paces_intros(3) paces_intros(1) paces_cfd_open_data
      paces_bind[OF paces_cfd_connecting] paces_bind[OF paces_cfd_fill]
      paces_bind[OF paces_cfd_loop] paces_bind[OF paces_cfd_flush])

lemma dfd_transfer_got:
  assumes t: "dfd_transfer E fd revents now p w = Some (r3, hup, n, p', w')" and io: "io_ok E got M"
    and awake: "ip_state p \<noteq> SLEEPING"
  shows "p' = p \<and> got (wd_x w') = got (wd_x w) + n \<and> 0 \<le> n \<and> n \<le> max 0 M \<and> (r3 \<noteq> OK \<or> hup \<longrightarrow> n = 0)"
proof (cases "ip_state p = GETTING \<and> has revents POLLIN \<or> ip_state p = PUTTING \<and> has revents POLLOUT")
  case False
  with t awake show ?thesis by (auto simp: dfd_transfer_def)
next
  case True
  then obtain w1 r w2 where u: "unsched E w = Some w1" and d: "handle_data_io E fd revents now w1 = Some (r, w2)"
    using t awake by (auto simp: dfd_transfer_def bind_eq_Some_conv)
  note unf = dfd_transfer_def u d True awake
  show ?thesis
  proof (cases r)
    case (Inr k)
    with t io_okD(1)[OF io d[unfolded Inr]] unsched_x[OF u] show ?thesis by (auto simp: unf)
  next
    case (Inl e)
    show ?thesis
    proof (cases "e = EWOULDBLOCK")
      case False
      with Inl t io_okD(2)[OF io d[unfolded Inl]] unsched_x[OF u] show ?thesis by (auto simp: unf)
    next
      case True
      with Inl t obtain q x where x: "po_clearReadiness E (ip_dfd p) (if ip_state p = GETTING then POLLIN else POLLOUT) (wd_x w2) = Some (q, x)"
        "n = 0" "p' = p" "w' = w2\<lparr>wd_x := x\<rparr>"
        by (auto simp: unf on_xo_def bind_eq_Some_conv)
      with io_okD(2)[OF io d[unfolded Inl]] io_okD(3)[OF io x(1)] unsched_x[OF u] show ?thesis by simp
    qed
  qed
qed

text \<open>A run of the data handler from which the connection does not put: one read, or nothing that the throttle counts.\<close>

lemma dfd_event_cases:
  assumes h: "notifyPollEvent_dfd E fd revents p w = Some (r, p', w')" and now: "read_eclock E w = (now, w0)"
    and io: "io_ok E got M" and st: "ip_state p \<noteq> PUTTING"
  obtains (quiet) "pace p' = pace p" "ip_state p' \<noteq> PUTTING" "got (wd_x w') = got (wd_x w)"
    | (read) c n where "r = OK" "ip_state p = GETTING" "eclock_after (ip_wakeup p) now \<longrightarrow> revents AND (KICKSTART OR POLLHUP) \<noteq> 0"
      "throttle now n (p\<lparr>ip_dfd_connecting := c\<rparr>) = Some p'" "got (wd_x w') = got (wd_x w) + n" "0 \<le> n" "n \<le> max 0 M"
proof -
  have g0: "got (wd_x w0) = got (wd_x w)" using read_eclock_got[OF io now] .
  have ni: "ip_state p \<noteq> IDLE" using h now by (auto simp: notifyPollEvent_dfd_def bind_eq_Some_conv)
  obtain r1 p1 w1 where c: "dfd_connecting E revents p w0 = Some (r1, p1, w1)"
    using h now by (auto simp: notifyPollEvent_dfd_def bind_eq_Some_conv)
  obtain cc where p1: "p1 = p\<lparr>ip_dfd_connecting := cc\<rparr>" using dfd_connecting_frame(1)[OF c] by blast
  have g1: "got (wd_x w1) = got (wd_x w)" using dfd_connecting_frame(2)[OF c io] g0 by simp
  show thesis
  proof (cases "r1 = OK")
    case False
    with h now c have "p' = p1" "w' = w1" by (auto simp: notifyPollEvent_dfd_def bind_eq_Some_conv)
    with g1 st p1 show thesis by (intro quiet) simp_all
  next
    case r1: True
    obtain p2 w2 where s: "dfd_snooze E revents now p1 w1 = Some (p2, w2)"
      using h now c r1 by (auto simp: notifyPollEvent_dfd_def bind_eq_Some_conv)
    obtain r3 hup n p3 w3 where t: "dfd_transfer E fd revents now p2 w2 = Some (r3, hup, n, p3, w3)"
      using h now c r1 s by (auto simp: notifyPollEvent_dfd_def bind_eq_Some_conv)
    have g2: "got (wd_x w2) = got (wd_x w)"
      using s g1 by (auto simp: dfd_snooze_def bind_eq_Some_conv dest!: sched_at_x split: if_splits)
    have th: "if r3 \<noteq> OK then r = r3 \<and> p' = p3 \<and> w' = w3
        else if hup then \<exists>w4. dfd_close E p3 w3 = Some (p', w4) \<and> w' = w4
        else r = OK \<and> w' = w3 \<and> throttle now n p3 = Some p'"
      using h now c r1 s t by (auto simp: notifyPollEvent_dfd_def bind_eq_Some_conv split: if_splits)
    show thesis
    proof (cases "ip_state p2 = SLEEPING")
      case True
      then have "p2 = p1\<lparr>ip_state := SLEEPING\<rparr>"
        using s by (cases p1) (auto simp: dfd_snooze_def bind_eq_Some_conv split: if_splits)
      with True t th g2 show thesis by (intro quiet) (auto simp: dfd_transfer_def throttle_def p1)
    next
      case False
      then have p2: "p2 = p1" "ip_state p = GETTING" "eclock_after (ip_wakeup p) now \<longrightarrow> revents AND (KICKSTART OR POLLHUP) \<noteq> 0"
        using s st ni by (cases "ip_state p"; auto simp: dfd_snooze_def bind_eq_Some_conv p1 split: if_splits)+
      have d: "p3 = p2 \<and> got (wd_x w3) = got (wd_x w2) + n \<and> 0 \<le> n \<and> n \<le> max 0 M \<and> (r3 \<noteq> OK \<or> hup \<longrightarrow> n = 0)"
        by (rule dfd_transfer_got[OF t io False])
      show thesis
      proof (cases "r3 = OK \<and> \<not> hup")
        case True
        with th d p1 p2 g2 show thesis by (intro read[where c = cc and n = n]) simp_all
      next
        case failed: False
        show thesis
        proof (cases "r3 = OK")
          case True
          then obtain w4 where "dfd_close E p3 w3 = Some (p', w4)" "w' = w4" using th failed by auto
          then obtain u q x where u: "unsched E w3 = Some u" "po_del E (ip_dfd p3) (wd_x u) = Some (q, x)"
            "p' = p3\<lparr>ip_state := IDLE, ip_dfd := -1\<rparr>" "w' = snd (on_x (os_close E (ip_dfd p3)) (u\<lparr>wd_x := x\<rparr>))"
            by (auto simp: dfd_close_def bind_eq_Some_conv on_xo_def)
          obtain c x' where x': "os_close E (ip_dfd p3) x = (c, x')" by fastforce
          then have "w' = u\<lparr>wd_x := x'\<rparr>" using u(4) by (simp add: on_x_def)
          with u(3) have "p' = p3\<lparr>ip_state := IDLE, ip_dfd := -1\<rparr>" "got (wd_x w') = got (wd_x w3)"
            using unsched_x[OF u(1)] io_okD(5)[OF io u(2)] io_okD(6)[OF io x'] by simp_all
          with d p1 p2 g2 failed True show thesis by (intro quiet) simp_all
        next
          case False
          with th d p1 p2 g2 st show thesis by (intro quiet) simp_all
        qed
      qed
    qed
  qed
qed

text \<open>
  \<open>stop_here\<close> as \<open>ftpCmdDone\<close>: a run is followed up to the point where the application is told a
  result, which is no result of these runs.
\<close>

definition stop_here :: "('c, 'w::len, 'x) cmd_done" where
  "stop_here xerr status buf pw = None"

lemma ip_finish_quiet:
  fixes E :: "('c, 'w::len, 'x) ipcalls"
  assumes f: "ip_finish E stop_here x p w = Some (r, p', w')" and io: "io_ok E got M" and guard: "ip_in_ftpCmdDone p = 0"
  shows "r = OK \<and> pace p' = pace p \<and> ip_state p' = ip_state p \<and> got (wd_x w') = got (wd_x w) \<and> (x = OK \<longrightarrow> p' = p)"
proof (cases "x = OK")
  case True
  with f show ?thesis by (simp add: ip_finish_def)
next
  case False
  have none: "call_ftpCmdDone stop_here y v s q u = None" if "ip_in_ftpCmdDone q = 0" for y v s q and u :: "('c, 'w, 'x) ipworld"
    using that by (simp add: call_ftpCmdDone_def stop_here_def)
  obtain status buf where g: "getStatus (ip_proto p) (Some (statusbuf0 E)) = Some (status, buf)"
    using f False by (auto simp: ip_finish_def bind_eq_Some_conv Let_def)
  show ?thesis
  proof (cases "status \<noteq> 0 \<and> \<not> STATUS_OK status \<and> ip_dfd p \<noteq> -1")
    case True
    then obtain c w1 where d: "drop_fd E (ip_dfd p) w = Some (c, w1)"
      using f False g by (auto simp: ip_finish_def bind_eq_Some_conv Let_def)
    with f False g True none guard have "r = OK" "p' = p\<lparr>ip_dfd_connecting := False, ip_dfd := -1\<rparr>" "w' = w1"
      by (auto simp: ip_finish_def Let_def split: if_splits)
    with drop_fd_got[OF io d] False show ?thesis by simp
  next
    case no: False
    then have "(if status \<noteq> 0 \<and> \<not> STATUS_OK status \<and> ip_dfd p \<noteq> -1 then do {
             (c, w1) \<leftarrow> drop_fd E (ip_dfd p) w; Some (p\<lparr>ip_dfd_connecting := False, ip_dfd := -1\<rparr>, w1) }
           else Some (p, w)) = Some (p, w)" by (rule if_not_P)
    with f False g none guard have "r = OK" "p' = p" "w' = w"
      by (auto simp: ip_finish_def Let_def simp del: de_Morgan_conj split: if_split_asm)
    with False show ?thesis by simp
  qed
qed

lemma notify_event_cases:
  assumes h: "ip_notifyPollEvent E stop_here (ip_dfd p) revents p w = Some (r, p', w')" and now: "read_eclock E w = (now, w0)"
    and io: "io_ok E got M" and st: "ip_state p \<noteq> PUTTING" and guard: "ip_in_ftpCmdDone p = 0"
  obtains (quiet) "r = OK" "pace p' = pace p" "ip_state p' \<noteq> PUTTING" "got (wd_x w') = got (wd_x w)"
    | (read) c n where "r = OK" "ip_state p = GETTING" "eclock_after (ip_wakeup p) now \<longrightarrow> revents AND (KICKSTART OR POLLHUP) \<noteq> 0"
      "throttle now n (p\<lparr>ip_dfd_connecting := c\<rparr>) = Some p'" "got (wd_x w') = got (wd_x w) + n" "0 \<le> n" "n \<le> max 0 M"
proof -
  obtain x p1 w1 where d: "notifyPollEvent_dfd E (ip_dfd p) revents p w = Some (x, p1, w1)"
    using h by (auto simp: ip_notifyPollEvent_def bind_eq_Some_conv)
  obtain w2 w3 where m: "set_mask E (ip_cfd p1) (cevents p1) w1 = Some w2" "set_mask E (ip_dfd p1) (devents p1) w2 = Some w3"
    "ip_finish E stop_here x p1 w3 = Some (r, p', w')"
    using h d by (auto simp: ip_notifyPollEvent_def bind_eq_Some_conv)
  have g: "got (wd_x w3) = got (wd_x w1)" using set_mask_got[OF io m(1)] set_mask_got[OF io m(2)] by simp
  show thesis
  proof (cases rule: dfd_event_cases[OF d now io st, case_names quiet read])
    case quiet
    then have "ip_in_ftpCmdDone p1 = 0" using guard by (simp add: pace_def)
    from ip_finish_quiet[OF m(3) io this] g quiet show thesis by (intro that(1)) simp_all
  next
    case (read c n)
    have "ip_in_ftpCmdDone p1 = 0" using read(2,4) guard by (auto simp: throttle_def Let_def bind_eq_Some_conv)
    from ip_finish_quiet[OF m(3) io this] g read show thesis by (intro that(2)[where c = c and n = n]) simp_all
  qed
qed

lemma callback_cases:
  fixes E :: "('c, 'w::len, 'x) ipcalls"
  assumes h: "ip_skedCallback E stop_here now p w = Some (p', w')" and st: "ip_state p \<noteq> PUTTING" and guard: "ip_in_ftpCmdDone p = 0"
  obtains (idle) "p' = p\<lparr>ip_state := GETTING\<rparr>" "w' = w"
    | (events) r where "\<not> eclock_after (ip_wakeup p) now"
      "ip_notifyPollEvent E stop_here (ip_dfd (p\<lparr>ip_state := GETTING, ip_dfd_events := 0, ip_wakeup := now\<rparr>)) (ip_dfd_events p)
         (p\<lparr>ip_state := GETTING, ip_dfd_events := 0, ip_wakeup := now\<rparr>) w = Some (r, p', w')" "r = OK"
proof -
  have sh: "shutdownAndNotify E stop_here q u = None" if "ip_in_ftpCmdDone q = 0" for q and u :: "('c, 'w, 'x) ipworld"
  proof (rule ccontr)
    assume "shutdownAndNotify E stop_here q u \<noteq> None"
    then obtain k p1 w1 where s: "ip_shutdown E q u = Some (k, p1, w1)"
      and c: "call_ftpCmdDone stop_here (Fail EPIPE) 0 (''shutdown'' @ [NUL]) p1 w1 \<noteq> None"
      by (cases "ip_shutdown E q u") (auto simp: shutdownAndNotify_def)
    have "ip_in_ftpCmdDone p1 = 0" using s that by (auto simp: ip_shutdown_def Let_def bind_eq_Some_conv split: if_splits)
    with c show False by (simp add: call_ftpCmdDone_def stop_here_def)
  qed
  have sl: "ip_state p = SLEEPING" using h st sh[OF guard] by (cases "ip_state p") (simp_all add: ip_skedCallback_def)
  show thesis
  proof (cases "ip_dfd_events p = 0")
    case True
    with h sl show thesis by (intro idle) (simp_all add: ip_skedCallback_def Let_def)
  next
    case False
    let ?q = "p\<lparr>ip_state := GETTING, ip_dfd_events := 0, ip_wakeup := now\<rparr>"
    obtain r p2 w2 where n: "ip_notifyPollEvent E stop_here (ip_dfd ?q) (ip_dfd_events p) ?q w = Some (r, p2, w2)"
      and res: "(if r \<noteq> OK then shutdownAndNotify E stop_here p2 w2 else Some (p2, w2)) = Some (p', w')"
      and late: "\<not> eclock_after (ip_wakeup p) now"
      using h sl False by (auto simp: ip_skedCallback_def Let_def bind_eq_Some_conv)
    obtain x p1 w1 w3 where "notifyPollEvent_dfd E (ip_dfd ?q) (ip_dfd_events p) ?q w = Some (x, p1, w1)"
      and fin: "ip_finish E stop_here x p1 w3 = Some (r, p2, w2)"
      using n by (auto simp: ip_notifyPollEvent_def bind_eq_Some_conv)
    then have "r = OK" by (auto simp: ip_finish_def bind_eq_Some_conv Let_def split: if_splits)
    with n res late show thesis by (intro events) simp_all
  qed
qed

text \<open>
  A transfer as it goes: events on the data descriptor of any kind, wake-ups by the event queue, and whatever
  else happens in the world or to the connection that touches neither the state nor the fields of the throttle (the
  handler of the control descriptor does not: \<open>cfd_keeps_pace\<close> below). Each of the first two enters a line in a log: when the
  data handler read the clock, the wake-up time then in force, whether the connection was awake, the
  events, and the bytes taken. \<open>b\<close> is the start of the window the clock stays in, \<open>H\<close> a bound on the
  dead time of one read.
\<close>

record 't reading =
  rd_at :: 't
  rd_due :: 't
  rd_awake :: bool
  rd_events :: mask
  rd_bytes :: int

definition reading :: "'t \<Rightarrow> 't pipe \<Rightarrow> mask \<Rightarrow> int \<Rightarrow> 't reading" where
  "reading now p revents n = \<lparr>rd_at = now, rd_due = ip_wakeup p, rd_awake = (ip_state p = GETTING), rd_events = revents, rd_bytes = n\<rparr>"

definition clock_ok :: "'w::len clock \<Rightarrow> int \<Rightarrow> 'w clock \<Rightarrow> bool" where
  "clock_ok b H now = (int (ticks b now) + H < 2 ^ (LENGTH('w) - 1))"

inductive transfer ::
  "('c, 'w::len, 'x) ipcalls \<Rightarrow> ('x \<Rightarrow> int) \<Rightarrow> 'w clock \<Rightarrow> int \<Rightarrow> 'w ipipe \<Rightarrow> ('c, 'w, 'x) ipworld \<Rightarrow>
   'w clock reading list \<Rightarrow> 'w ipipe \<Rightarrow> ('c, 'w, 'x) ipworld \<Rightarrow> bool" for E got b H p w where
  start: "transfer E got b H p w [] p w"
| event: "transfer E got b H p w l p1 w1 \<Longrightarrow> read_eclock E w1 = (now, w0) \<Longrightarrow> clock_ok b H now \<Longrightarrow>
    ip_notifyPollEvent E stop_here (ip_dfd p1) revents p1 w1 = Some (r, p2, w2) \<Longrightarrow>
    transfer E got b H p w (l @ [reading now p1 revents (got (wd_x w2) - got (wd_x w1))]) p2 w2"
| wake: "transfer E got b H p w l p1 w1 \<Longrightarrow> clock_ok b H now \<Longrightarrow> read_eclock E w1 = (now', w0) \<Longrightarrow> clock_ok b H now' \<Longrightarrow>
    \<not> eclock_after now now' \<Longrightarrow> ip_skedCallback E stop_here now p1 w1 = Some (p2, w2) \<Longrightarrow>
    transfer E got b H p w (l @ [reading now' p1 (ip_dfd_events p1) (got (wd_x w2) - got (wd_x w1))]) p2 w2"
| other: "transfer E got b H p w l p1 w1 \<Longrightarrow> pace p2 = pace p1 \<Longrightarrow> ip_state p2 = ip_state p1 \<Longrightarrow>
    got (wd_x w2) = got (wd_x w1) \<Longrightarrow> transfer E got b H p w l p2 w2"

text \<open>
  An event that hangs up (or is a kickstart) is not put to sleep when it comes early: what was left of the
  dead time is cut short.
\<close>

definition hurried :: "'w::len clock reading \<Rightarrow> bool" where
  "hurried e = (rd_awake e \<and> rd_events e AND (KICKSTART OR POLLHUP) \<noteq> 0 \<and> eclock_after (rd_due e) (rd_at e))"

definition cut_short :: "'w::len clock \<Rightarrow> 'w clock reading \<Rightarrow> int" where
  "cut_short b e = (if hurried e then int (ticks b (rd_due e)) - int (ticks b (rd_at e)) else 0)"

definition paced :: "'w::len clock \<Rightarrow> 'w ipipe \<Rightarrow> 'w ipipe \<Rightarrow> int \<Rightarrow> int \<Rightarrow> bool" where
  "paced b p p1 d lost =
     (ip_state p1 \<noteq> PUTTING \<and> ip_in_ftpCmdDone p1 = 0 \<and> rate_ok p1 \<and> ip_bytesPerSec p1 = ip_bytesPerSec p \<and>
      ip_bytesPerTick p1 = ip_bytesPerTick p \<and> in_window b (ip_wakeup p1) \<and>
      eclock_HERTZ * (d + ip_bytesUnsleptFor p - ip_bytesUnsleptFor p1)
        \<le> ip_bytesPerSec p * (int (ticks b (ip_wakeup p1)) - int (ticks b (ip_wakeup p)) + lost))"

lemma paced_pace: "paced b p p1 d lost \<Longrightarrow> pace p2 = pace p1 \<Longrightarrow> ip_state p2 \<noteq> PUTTING \<Longrightarrow> paced b p p2 d lost"
  by (auto simp: paced_def pace_def rate_ok_def carry_max_def)

lemma paced_lost: "paced b p p1 d lost \<Longrightarrow> 0 \<le> k \<Longrightarrow> paced b p p1 d (lost + k)"
proof -
  assume a: "paced b p p1 d lost" "0 \<le> k"
  then have "0 \<le> ip_bytesPerSec p * k" by (auto simp: paced_def rate_ok_def)
  with a show ?thesis by (simp add: paced_def distrib_left)
qed

lemma carry_max_cong [simp]:
  "carry_max (p\<lparr>ip_dfd_connecting := c\<rparr>) = carry_max p" "rate_ok (p\<lparr>ip_dfd_connecting := c\<rparr>) = rate_ok p"
  "read_fits (p\<lparr>ip_dfd_connecting := c\<rparr>) n = read_fits p n"
  by (simp_all add: carry_max_def rate_ok_def read_fits_def)

lemma ticks_add:
  fixes b now :: "'w::len clock"
  assumes "clock_ok b H now" "0 \<le> h" "h \<le> H"
  shows "int (ticks b (now + word_of_int h)) = int (ticks b now) + h" "in_window b (now + word_of_int h)"
proof -
  have lt: "int (ticks b now) + h < 2 ^ (LENGTH('w) - 1)" using assms by (simp add: clock_ok_def)
  have lt': "int (ticks b now) + h < 2 ^ LENGTH('w)"
    by (rule order.strict_trans2[OF lt]) (rule power_increasing, simp_all)
  have "now + word_of_int h - b = word_of_int (int (ticks b now) + h)" by (simp add: ticks_def)
  then have "int (ticks b (now + word_of_int h)) = uint (word_of_int (int (ticks b now) + h) :: 'w word)"
    by (simp add: ticks_def algebra_simps)
  also have "\<dots> = int (ticks b now) + h" using lt' assms(2) by (intro word_of_int_inverse[OF refl]) simp_all
  finally show "int (ticks b (now + word_of_int h)) = int (ticks b now) + h" .
  with lt show "in_window b (now + word_of_int h)"
    by (simp add: in_window_def of_nat_less_iff [symmetric, where 'a = int] del: of_nat_less_iff)
qed

lemma paced_read:
  assumes old: "paced b p p1 d lost" and time: "clock_ok b H now" and st: "ip_state p1 = GETTING"
    and cut: "int (ticks b (ip_wakeup p1)) \<le> int (ticks b now) + k" "0 \<le> k"
    and th: "throttle now n (p1\<lparr>ip_dfd_connecting := c\<rparr>) = Some p2"
    and fits: "read_fits p1 n" and H: "(n + carry_max p1) * eclock_HERTZ \<le> H"
  shows "paced b p p2 (d + n) (lost + k)"
proof -
  let ?q = "p1\<lparr>ip_dfd_connecting := c\<rparr>" and ?W = "\<lambda>q. int (ticks b (ip_wakeup q))"
  have ok: "rate_ok ?q" "read_fits ?q n" "ip_state ?q = GETTING" using old fits st by (simp_all add: paced_def)
  obtain h u where hu: "p2 = ?q\<lparr>ip_bytesUnsleptFor := u, ip_wakeup := now + word_of_int h, ip_dfd_events := 0\<rparr>"
    "0 \<le> h" "0 \<le> u" "u \<le> carry_max p1" "h \<le> (n + carry_max p1) * eclock_HERTZ"
    "eclock_HERTZ * (n + ip_bytesUnsleptFor p1 - u) \<le> ip_bytesPerSec p1 * h"
    using throttle_lemma[OF ok(3,1,2), of now] th by auto
  have w2: "?W p2 = int (ticks b now) + h" "in_window b (ip_wakeup p2)"
    using ticks_add[OF time hu(2)] hu(5) H by (simp_all add: hu(1))
  let ?r = "ip_bytesPerSec p"
  have r: "ip_bytesPerSec p1 = ?r" "0 \<le> ?r" using old by (auto simp: paced_def rate_ok_def)
  have "?r * (?W p1 - ?W p + lost) + ?r * h \<le> ?r * (?W p2 - ?W p + (lost + k))"
    using cut(1) r(2) w2(1) by (simp add: distrib_left[symmetric] mult_left_mono)
  moreover have "eclock_HERTZ * (d + ip_bytesUnsleptFor p - ip_bytesUnsleptFor p1) \<le> ?r * (?W p1 - ?W p + lost)"
    using old by (simp add: paced_def)
  moreover have "eclock_HERTZ * (n + ip_bytesUnsleptFor p1 - u) \<le> ?r * h" using hu(6) r(1) by simp
  ultimately have "eclock_HERTZ * (d + n + ip_bytesUnsleptFor p - u) \<le> ?r * (?W p2 - ?W p + (lost + k))"
    by (simp add: eclock_HERTZ_def algebra_simps)
  moreover have "rate_ok p2" using ok(1) hu(3,4) by (simp add: hu(1) rate_ok_def carry_max_def)
  ultimately show ?thesis using old st w2(2) hu(1) by (simp add: paced_def)
qed

lemma read_fits_le: "0 \<le> n \<Longrightarrow> n \<le> M \<Longrightarrow> read_fits p M \<Longrightarrow> read_fits p n"
proof -
  assume n: "0 \<le> n" "n \<le> M" and M: "read_fits p M"
  have "(n + carry_max p) * (if ip_bytesPerTick p < 5 then eclock_HERTZ else 1) \<le>
        (M + carry_max p) * (if ip_bytesPerTick p < 5 then eclock_HERTZ else 1)"
    using n by (intro mult_right_mono) (auto simp: eclock_HERTZ_def)
  with M n show ?thesis by (simp add: read_fits_def)
qed

text \<open>What the log shows: no line with bytes before the wake-up time, the cut-short ones apart.\<close>

definition timely :: "'w::len clock reading list \<Rightarrow> bool" where
  "timely l = (\<forall>e \<in> set l. rd_bytes e \<noteq> 0 \<longrightarrow> \<not> eclock_after (rd_due e) (rd_at e) \<or> hurried e)"

lemma paced_event:
  assumes old: "paced b p p1 d lost" and now: "read_eclock E w1 = (now, w0)" and time: "clock_ok b H now"
    and h: "ip_notifyPollEvent E stop_here (ip_dfd p1) revents p1 w1 = Some (r, p2, w2)"
    and io: "io_ok E got M" and fits: "read_fits p M" and H: "(M + carry_max p) * eclock_HERTZ \<le> H"
  shows "paced b p p2 (d + (got (wd_x w2) - got (wd_x w1))) (lost + cut_short b (reading now p1 revents g))"
    and "got (wd_x w2) \<noteq> got (wd_x w1) \<Longrightarrow>
           \<not> eclock_after (ip_wakeup p1) now \<or> ip_state p1 = GETTING \<and> revents AND (KICKSTART OR POLLHUP) \<noteq> 0"
proof -
  let ?e = "reading now p1 revents g"
  have M: "0 \<le> M" "0 \<le> carry_max p" using fits by (simp_all add: read_fits_def carry_max_def)
  have "0 \<le> (M + carry_max p) * eclock_HERTZ" using M by (simp add: eclock_HERTZ_def)
  then have "0 \<le> H" using H by linarith
  then have win: "in_window b now" "in_window b (ip_wakeup p1)" using ticks_add(2)[OF time, of 0] old by (simp_all add: paced_def)
  note after = eclock_after_ticks[OF win(2,1)]
  have k: "0 \<le> cut_short b ?e" using after by (auto simp: cut_short_def hurried_def reading_def)
  have same: "carry_max p1 = carry_max p" "read_fits p1 M" "ip_state p1 \<noteq> PUTTING" "ip_in_ftpCmdDone p1 = 0"
    using old fits by (simp_all add: paced_def carry_max_def read_fits_def)
  have "paced b p p2 (d + (got (wd_x w2) - got (wd_x w1))) (lost + cut_short b ?e) \<and>
      (got (wd_x w2) \<noteq> got (wd_x w1) \<longrightarrow> \<not> eclock_after (ip_wakeup p1) now \<or> ip_state p1 = GETTING \<and> revents AND (KICKSTART OR POLLHUP) \<noteq> 0)"
  proof (cases rule: notify_event_cases[OF h now io same(3,4), case_names quiet read])
    case quiet
    with paced_lost[OF paced_pace[OF old] k] show ?thesis by simp
  next
    case (read c n)
    have n: "read_fits p1 n" "(n + carry_max p1) * eclock_HERTZ \<le> H"
      using read_fits_le[OF read(6) _ same(2)] read(7) M H same(1) by (auto simp: eclock_HERTZ_def)
    have "int (ticks b (ip_wakeup p1)) \<le> int (ticks b now) + cut_short b ?e"
      using after read(2,3) by (cases "eclock_after (ip_wakeup p1) now") (simp_all add: cut_short_def hurried_def reading_def)
    from paced_read[OF old time read(2) this k read(4) n] read(2,3,5) show ?thesis by auto
  qed
  then show "paced b p p2 (d + (got (wd_x w2) - got (wd_x w1))) (lost + cut_short b ?e)"
    "got (wd_x w2) \<noteq> got (wd_x w1) \<Longrightarrow>
           \<not> eclock_after (ip_wakeup p1) now \<or> ip_state p1 = GETTING \<and> revents AND (KICKSTART OR POLLHUP) \<noteq> 0" by blast+
qed

lemma transfer_paced:
  assumes io: "io_ok E got M" and st: "ip_state p = GETTING" "ip_in_ftpCmdDone p = 0" and ok: "rate_ok p" and win: "in_window b (ip_wakeup p)"
    and fits: "read_fits p M" and H: "(M + carry_max p) * eclock_HERTZ \<le> H"
  shows "transfer E got b H p w l p1 w1 \<Longrightarrow>
    paced b p p1 (got (wd_x w1) - got (wd_x w)) (\<Sum>e\<leftarrow>l. cut_short b e) \<and> timely l \<and> (\<Sum>e\<leftarrow>l. rd_bytes e) = got (wd_x w1) - got (wd_x w)"
proof (induction rule: transfer.induct)
  case start
  then show ?case using st ok win by (simp add: paced_def timely_def)
next
  case (event l p1 w1 now w0 revents r p2 w2)
  let ?e = "reading now p1 revents (got (wd_x w2) - got (wd_x w1))"
  note e = paced_event[OF conjunct1[OF event.IH] event.hyps(2,3,4) io fits H]
  have "rd_bytes ?e \<noteq> 0 \<longrightarrow> \<not> eclock_after (rd_due ?e) (rd_at ?e) \<or> hurried ?e"
    using e(2) by (auto simp: reading_def hurried_def)
  with e(1)[of "got (wd_x w2) - got (wd_x w1)"] event.IH show ?case by (simp add: timely_def) (simp add: reading_def)
next
  case (wake l p1 w1 now now' w0 p2 w2)
  let ?q = "p1\<lparr>ip_state := GETTING, ip_dfd_events := 0, ip_wakeup := now\<rparr>"
  let ?e = "reading now' p1 (ip_dfd_events p1) (got (wd_x w2) - got (wd_x w1))"
  have old: "paced b p p1 (got (wd_x w1) - got (wd_x w)) (\<Sum>e\<leftarrow>l. cut_short b e)" using wake.IH by blast
  have "0 \<le> (M + carry_max p) * eclock_HERTZ" using fits by (simp add: read_fits_def carry_max_def eclock_HERTZ_def)
  then have H0: "0 \<le> H" using H by linarith
  then have win': "in_window b now" "in_window b now'" using ticks_add(2)[OF wake.hyps(2), of 0] ticks_add(2)[OF wake.hyps(4), of 0] by simp_all
  have g: "ip_state p1 \<noteq> PUTTING" "ip_in_ftpCmdDone p1 = 0" "in_window b (ip_wakeup p1)" using old by (simp_all add: paced_def)
  show ?case
  proof (cases rule: callback_cases[OF wake.hyps(6) g(1,2), case_names idle events])
    case idle
    then have "paced b p p2 (got (wd_x w1) - got (wd_x w)) (\<Sum>e\<leftarrow>l. cut_short b e)" by (intro paced_pace[OF old]) simp_all
    moreover have "0 \<le> cut_short b ?e" using eclock_after_ticks[OF g(3) win'(2)] by (auto simp: cut_short_def hurried_def reading_def)
    ultimately have "paced b p p2 (got (wd_x w1) - got (wd_x w)) ((\<Sum>e\<leftarrow>l. cut_short b e) + cut_short b ?e)" by (rule paced_lost)
    with idle wake.IH show ?thesis by (simp add: timely_def) (simp add: reading_def)
  next
    case (events r)
    have le: "ticks b (ip_wakeup p1) \<le> ticks b now" "ticks b now \<le> ticks b now'"
      using eclock_after_ticks[OF g(3) win'(1)] eclock_after_ticks[OF win'] events(1) wake.hyps(5) by auto
    have q: "paced b p ?q (got (wd_x w1) - got (wd_x w)) (\<Sum>e\<leftarrow>l. cut_short b e)"
    proof -
      have "ip_bytesPerSec p * (int (ticks b (ip_wakeup p1)) - int (ticks b (ip_wakeup p)) + (\<Sum>e\<leftarrow>l. cut_short b e)) \<le>
          ip_bytesPerSec p * (int (ticks b now) - int (ticks b (ip_wakeup p)) + (\<Sum>e\<leftarrow>l. cut_short b e))"
        using ok le(1) by (intro mult_left_mono) (auto simp: rate_ok_def)
      then have "eclock_HERTZ * (got (wd_x w1) - got (wd_x w) + ip_bytesUnsleptFor p - ip_bytesUnsleptFor p1) \<le>
          ip_bytesPerSec p * (int (ticks b now) - int (ticks b (ip_wakeup p)) + (\<Sum>e\<leftarrow>l. cut_short b e))"
        using old unfolding paced_def by linarith
      with old win'(1) show ?thesis by (auto simp: paced_def rate_ok_def carry_max_def)
    qed
    note e = paced_event[OF q wake.hyps(3,4) events(2) io fits H]
    have z: "cut_short b (reading now' ?q v n) = 0" for v n
      using wake.hyps(5) by (simp add: cut_short_def hurried_def reading_def)
    have notafter: "\<not> eclock_after (rd_due ?e) (rd_at ?e)" using eclock_after_ticks[OF g(3) win'(2)] le by (simp add: reading_def)
    then have "cut_short b ?e = 0" by (simp add: cut_short_def hurried_def)
    with e(1) notafter wake.IH show ?thesis unfolding z by (simp add: timely_def) (simp add: reading_def)
  qed
next
  case (other l p1 w1 p2 w2)
  have old: "paced b p p1 (got (wd_x w1) - got (wd_x w)) (\<Sum>e\<leftarrow>l. cut_short b e)" using other.IH by blast
  have "ip_state p2 \<noteq> PUTTING" using old other.hyps(3) by (simp add: paced_def)
  from paced_pace[OF old other.hyps(2) this] other show ?case by simp
qed

text \<open>
  C11. The throttle works. In every run of a download by events on the data descriptor (of any kind, hang-ups and
  failures included), wake-ups by \<open>skedCallback\<close> and changes of the world, in any order, up to the point
  where the application is told the result: no byte is taken before the wake-up time in force, except by an
  event that hangs up (or is a kickstart) while the connection is awake; and the bytes taken never exceed what the rate \<open>m_bytesPerSec\<close> allows from the
  start up to the current wake-up time, plus the dead time that such events cut short, by more than
  one remainder. The run starts in the state of a download with a positive rate and outside \<open>ftpCmdDone\<close>, one call
  of the data handler takes at most \<open>M\<close> bytes, the products of the throttle fit an \<open>int\<close>, the clock does not
  run backwards between the event queue and the handler and stays in half of its range.
\<close>
theorem transfer_rate:
  assumes "io_ok E got M" and "ip_state p = GETTING" and "ip_in_ftpCmdDone p = 0" and "rate_ok p" and "in_window b (ip_wakeup p)"
    and "read_fits p M" and "(M + carry_max p) * eclock_HERTZ \<le> H" and "transfer E got b H p w l p1 w1"
  shows "(\<forall>e \<in> set l. rd_bytes e \<noteq> 0 \<longrightarrow> \<not> eclock_after (rd_due e) (rd_at e) \<or>
            rd_awake e \<and> rd_events e AND (KICKSTART OR POLLHUP) \<noteq> 0) \<and>
         got (wd_x w1) = got (wd_x w) + (\<Sum>e\<leftarrow>l. rd_bytes e) \<and>
         eclock_HERTZ * (got (wd_x w1) - got (wd_x w)) \<le>
           ip_bytesPerSec p * (int (ticks b (ip_wakeup p1)) - int (ticks b (ip_wakeup p)) + (\<Sum>e\<leftarrow>l. cut_short b e)) +
           eclock_HERTZ * carry_max p"
proof -
  note t = transfer_paced[OF assms]
  have pc: "paced b p p1 (got (wd_x w1) - got (wd_x w)) (\<Sum>e\<leftarrow>l. cut_short b e)" using t by blast
  then have "ip_bytesUnsleptFor p1 \<le> carry_max p" "0 \<le> ip_bytesUnsleptFor p"
    using assms(4) by (auto simp: paced_def rate_ok_def carry_max_def)
  then have "eclock_HERTZ * (got (wd_x w1) - got (wd_x w)) \<le>
      eclock_HERTZ * (got (wd_x w1) - got (wd_x w) + ip_bytesUnsleptFor p - ip_bytesUnsleptFor p1) + eclock_HERTZ * carry_max p"
    by (simp add: eclock_HERTZ_def)
  with pc have "eclock_HERTZ * (got (wd_x w1) - got (wd_x w)) \<le>
      ip_bytesPerSec p * (int (ticks b (ip_wakeup p1)) - int (ticks b (ip_wakeup p)) + (\<Sum>e\<leftarrow>l. cut_short b e)) +
      eclock_HERTZ * carry_max p" unfolding paced_def by linarith
  with t show ?thesis by (auto simp: timely_def hurried_def)
qed

definition got0 :: "osx \<Rightarrow> int" where
  "got0 x = 7 * int (length (ox_log x))"

lemma io_ok0: "io_ok env0 got0 7"
  by (auto simp: io_ok_def got0_def) (auto simp: env0_def)

lemma clock0: "read_eclock env0 w = (eclock (ox_sec (wd_x w)) 0, w)"
  by (simp add: read_eclock_def on_x_def)

definition getting0 :: "64 ipipe" where
  "getting0 = pipe0\<lparr>ip_state := GETTING, ip_dfd := 5\<rparr>"

lemma getting0_read:
  "\<exists>s. notifyPollEvent_dfd env0 5 POLLIN getting0 wd0 =
         Some (OK, getting0\<lparr>ip_bytesUnsleptFor := 7\<rparr>, wd0\<lparr>wd_sked := s, wd_x := ox0\<lparr>ox_log := [(5, POLLIN)]\<rparr>\<rparr>)"
proof -
  obtain s where s: "unsched env0 wd0 = Some (wd0\<lparr>wd_sked := s\<rparr>)" using unsched_lemma[OF wd0_sked(1)] by blast
  have "read_eclock env0 wd0 = (0, wd0)" by (simp add: clock0 wd0_def ox0_def eclock_def)
  moreover have "has POLLIN POLLIN" by (simp add: has_def POLLIN_def)
  ultimately show ?thesis using s
    by (intro exI[of _ s])
      (simp add: notifyPollEvent_dfd_def dfd_connecting_def dfd_snooze_def dfd_transfer_def throttle_def getting0_def pipe0_def
        is_int_def cdiv_def cmod_def wd0_def ox0_def)
qed

theorem transfer_rate_witness:
  "\<exists>l p1 w1. transfer env0 got0 0 2000000 getting0 wd0 l p1 w1 \<and> got0 (wd_x w1) = 7 \<and>
     eclock_HERTZ * (got0 (wd_x w1) - got0 (wd_x wd0)) \<le>
       ip_bytesPerSec getting0 * (int (ticks 0 (ip_wakeup p1)) - int (ticks 0 (ip_wakeup getting0)) + (\<Sum>e\<leftarrow>l. cut_short 0 e)) +
       eclock_HERTZ * carry_max getting0"
proof -
  obtain s where s: "notifyPollEvent_dfd env0 5 POLLIN getting0 wd0 =
      Some (OK, getting0\<lparr>ip_bytesUnsleptFor := 7\<rparr>, wd0\<lparr>wd_sked := s, wd_x := ox0\<lparr>ox_log := [(5, POLLIN)]\<rparr>\<rparr>)"
    using getting0_read by blast
  have n: "ip_notifyPollEvent env0 stop_here (ip_dfd getting0) POLLIN getting0 wd0 =
      Some (OK, getting0\<lparr>ip_bytesUnsleptFor := 7\<rparr>, wd0\<lparr>wd_sked := s, wd_x := ox0\<lparr>ox_log := [(5, POLLIN)]\<rparr>\<rparr>)"
    using s by (simp add: ip_notifyPollEvent_def ip_finish_def set_mask_def on_xo_def getting0_def pipe0_def env0_def)
  have ck: "clock_ok 0 2000000 (eclock (ox_sec (wd_x wd0)) 0 :: 64 clock)"
    by (simp add: clock_ok_def ticks_def wd0_def ox0_def eclock_def)
  note run = transfer.event[OF transfer.start clock0 ck n]
  have "rate_ok getting0" "read_fits getting0 7" "(7 + carry_max getting0) * eclock_HERTZ \<le> 2000000" "ip_state getting0 = GETTING"
    "ip_in_ftpCmdDone getting0 = 0" "in_window 0 (ip_wakeup getting0)"
    by (simp_all add: rate_ok_def read_fits_def carry_max_def getting0_def pipe0_def eclock_HERTZ_def in_window_def ticks_def)
  note rate = transfer_rate[OF io_ok0 this(4,5,1,6,2,3) run]
  have "got0 (wd_x (wd0\<lparr>wd_sked := s, wd_x := ox0\<lparr>ox_log := [(5, POLLIN)]\<rparr>\<rparr>)) = 7" by (simp add: got0_def)
  with run conjunct2[OF conjunct2[OF rate]] show ?thesis by blast
qed

subsection \<open>Waking up\<close>

definition masks_ok :: "('c, 't, 'x) calls \<Rightarrow> bool" where
  "masks_ok E = (\<forall>fd m x. \<exists>x'. po_setMask E fd m x = Some (OK, x'))"

lemma set_mask_lemma: "masks_ok E \<Longrightarrow> \<exists>x. set_mask E fd m w = Some (w\<lparr>wd_x := x\<rparr>)"
proof -
  assume "masks_ok E"
  then obtain x where "po_setMask E fd m (wd_x w) = Some (OK, x)" unfolding masks_ok_def by blast
  then show ?thesis
    by (intro exI[of _ "if fd = -1 then wd_x w else x"]) (simp add: set_mask_def on_xo_def)
qed

lemma set_masks_lemma:
  assumes "masks_ok E"
  shows "\<exists>x. do { w2 \<leftarrow> set_mask E fd m w; w3 \<leftarrow> set_mask E fd' m' w2; ip_finish E user OK p w3 } = Some (OK, p, w\<lparr>wd_x := x\<rparr>)"
proof -
  obtain x where x: "set_mask E fd m w = Some (w\<lparr>wd_x := x\<rparr>)" using set_mask_lemma[OF assms] by blast
  obtain y where "set_mask E fd' m' (w\<lparr>wd_x := x\<rparr>) = Some (w\<lparr>wd_x := y\<rparr>)"
    using set_mask_lemma[OF assms, of fd' m' "w\<lparr>wd_x := x\<rparr>"] by auto
  with x show ?thesis by (intro exI[of _ y]) (simp add: ip_finish_def)
qed

lemma unsched_free: "skedIndex (wd_sked w) (this E) = 0 \<Longrightarrow> unsched E w = Some w"
  by (simp add: unsched_def delClient_def)

text \<open>
  No event is lost in sleep: when the timer of a sleeping connection goes off, the data handler is
  called, once, with the events remembered, and the connection is back in its transfer, throttled by
  what was read, with no event remembered.
\<close>
theorem wakeup_redelivers:
  assumes st: "ip_state p = SLEEPING" "\<not> ip_dfd_connecting p" "ip_dfd p \<noteq> -1" "skedIndex (wd_sked w) (this E) = 0"
    and ev: "has (ip_dfd_events p) POLLIN" and due: "\<not> eclock_after (ip_wakeup p) now"
    and clock: "read_eclock E w = (now', w0)" "\<not> eclock_after now now'"
    and io: "handle_data_io E (ip_dfd p) (ip_dfd_events p) now' w0 = Some (Inr n, w1)" "n \<noteq> 0"
    and masks: "masks_ok E" and rate: "rate_ok p" "read_fits p (int n)"
  shows "\<exists>h u x. ip_skedCallback E user now p w =
           Some (p\<lparr>ip_state := GETTING, ip_dfd_events := 0, ip_bytesUnsleptFor := u, ip_wakeup := now' + word_of_int h\<rparr>, w1\<lparr>wd_x := x\<rparr>) \<and>
           eclock_HERTZ * (int n + ip_bytesUnsleptFor p - u) \<le> ip_bytesPerSec p * h"
proof -
  let ?p = "p\<lparr>ip_state := GETTING, ip_dfd_events := 0, ip_wakeup := now\<rparr>"
  obtain x0 where w0: "w0 = w\<lparr>wd_x := x0\<rparr>" using read_eclock_world[of E w] clock(1) by auto
  have u: "unsched E w0 = Some w0" using unsched_free[of w0 E] st(4) by (simp add: w0)
  have q: "ip_state ?p = GETTING" "rate_ok ?p" "read_fits ?p (int n)"
    using rate by (auto simp: rate_ok_def read_fits_def carry_max_def)
  obtain h v where th: "throttle now' (int n) ?p = Some (?p\<lparr>ip_bytesUnsleptFor := v, ip_wakeup := now' + word_of_int h, ip_dfd_events := 0\<rparr>)"
    "eclock_HERTZ * (int n + ip_bytesUnsleptFor ?p - v) \<le> ip_bytesPerSec ?p * h"
    using throttle_lemma[OF q, of now'] by blast
  let ?p' = "p\<lparr>ip_state := GETTING, ip_dfd_events := 0, ip_bytesUnsleptFor := v, ip_wakeup := now' + word_of_int h\<rparr>"
  have th': "throttle now' (int n) ?p = Some ?p'" using th(1) by (cases p) simp
  have c: "dfd_connecting E (ip_dfd_events p) ?p w0 = Some (OK, ?p, w0)" using st(2) by (simp add: dfd_connecting_def)
  have sn: "dfd_snooze E (ip_dfd_events p) now' ?p w0 = Some (?p, w0)" using clock(2) by (simp add: dfd_snooze_def)
  have tr: "dfd_transfer E (ip_dfd p) (ip_dfd_events p) now' ?p w0 = Some (OK, False, int n, ?p, w1)"
    using ev u io by (simp add: dfd_transfer_def)
  have d: "notifyPollEvent_dfd E (ip_dfd p) (ip_dfd_events p) ?p w = Some (OK, ?p', w1)"
    by (simp add: notifyPollEvent_dfd_def clock(1) c sn tr th')
  obtain x where "do { w2 \<leftarrow> set_mask E (ip_cfd ?p') (cevents ?p') w1; w3 \<leftarrow> set_mask E (ip_dfd ?p') (devents ?p') w2;
      ip_finish E user OK ?p' w3 } = Some (OK, ?p', w1\<lparr>wd_x := x\<rparr>)" using set_masks_lemma[OF masks] by blast
  then have "ip_notifyPollEvent E user (ip_dfd p) (ip_dfd_events p) ?p w = Some (OK, ?p', w1\<lparr>wd_x := x\<rparr>)"
    using st(3) by (simp add: ip_notifyPollEvent_def d)
  moreover have "ip_dfd_events p \<noteq> 0" using ev by (auto simp: has_def)
  ultimately have "ip_skedCallback E user now p w = Some (?p', w1\<lparr>wd_x := x\<rparr>)"
    using st(1) due by (simp add: ip_skedCallback_def Let_def)
  with th(2) show ?thesis by auto
qed

lemma masks0: "masks_ok env0"
  by (simp add: masks_ok_def)

theorem wakeup_redelivers_witness:
  "\<exists>p' w'. ip_skedCallback env0 user0 50 (getting0\<lparr>ip_state := SLEEPING, ip_dfd_events := POLLIN, ip_wakeup := 40\<rparr>)
      (wd0\<lparr>wd_x := ox0\<lparr>ox_sec := 1\<rparr>\<rparr>) = Some (p', w') \<and> ip_state p' = GETTING \<and> ip_dfd_events p' = 0"
proof -
  let ?p = "getting0\<lparr>ip_state := SLEEPING, ip_dfd_events := POLLIN, ip_wakeup := 40\<rparr>" and ?w = "wd0\<lparr>wd_x := ox0\<lparr>ox_sec := 1\<rparr>\<rparr>"
  have rate: "rate_ok ?p" "read_fits ?p (int 7)"
    by (simp_all add: rate_ok_def read_fits_def carry_max_def getting0_def pipe0_def eclock_HERTZ_def)
  have z: "skedIndex (wd_sked ?w) (this env0) = 0" using skedIndex_0[of wd0 7] wd0_sked(3) by simp
  have clock: "read_eclock env0 ?w = (10000, ?w)" by (simp add: clock0 eclock_def eclock_HERTZ_def eclock_TICKSPERUSEC_def)
  have io: "handle_data_io env0 (ip_dfd ?p) (ip_dfd_events ?p) 10000 ?w =
      Some (Inr 7, ?w\<lparr>wd_x := (wd_x ?w)\<lparr>ox_log := [(5, POLLIN)]\<rparr>\<rparr>)"
    by (simp add: getting0_def ox0_def)
  have "has (ip_dfd_events ?p) POLLIN" by (simp add: has_def POLLIN_def)
  from wakeup_redelivers[OF _ _ _ z this _ clock _ io _ masks0 rate, of 50 user0] show ?thesis
    by (force simp: getting0_def pipe0_def eclock_after_def)
qed

subsection \<open>The end of a transfer and of a connection\<close>

text \<open>What taking a descriptor out of the poller and closing it does to the world.\<close>

definition closed_fd :: "('c, 't, 'x) calls \<Rightarrow> int \<Rightarrow> 'x \<Rightarrow> 'x" where
  "closed_fd E fd x = (if fd = -1 then x else snd (os_close E fd (snd (the (po_del E fd x)))))"

lemma drop_fd_lemma:
  assumes "env_ok E pending sent"
  shows "\<exists>c. drop_fd E fd w = Some (c, w\<lparr>wd_x := closed_fd E fd (wd_x w)\<rparr>)"
proof -
  obtain r x where "po_del E fd (wd_x w) = Some (r, x)" using assms by (fastforce simp: env_ok_def)
  then show ?thesis by (auto simp: drop_fd_def closed_fd_def on_xo_def on_x_def split: prod.splits)
qed

text \<open>
  C34. \<open>shutdown\<close> closes both descriptors after taking them out of the poller, cancels the timer and leaves
  the connection idle; a second \<open>shutdown\<close> does nothing and returns 0.
\<close>
theorem shutdown_closes:
  assumes env: "env_ok E pending sent" and sk: "sked_ok E b w" and up: "ip_cfd p \<noteq> -1 \<or> ip_dfd p \<noteq> -1"
  shows "\<exists>r p' w'. ip_shutdown E p w = Some (r, p', w') \<and> ip_cfd p' = -1 \<and> ip_dfd p' = -1 \<and> ip_state p' = IDLE \<and>
           sked_ok E b w' \<and> timers w' = (timers w)(this E := None) \<and>
           wd_x w' = closed_fd E (ip_dfd p) (closed_fd E (ip_cfd p) (wd_x w)) \<and> ip_shutdown E p' w' = Some (0, p', w')"
proof -
  obtain s where s: "unsched E w = Some (w\<lparr>wd_sked := s\<rparr>)" "sked_ok E b (w\<lparr>wd_sked := s\<rparr>)"
    "schedule s = (timers w)(this E := None)" using unsched_lemma[OF sk] by blast
  let ?p = "p\<lparr>ip_state := IDLE, ip_cfd_connecting := False, ip_dfd_connecting := False, ip_dfd := -1, ip_cfd := -1\<rparr>"
  let ?x1 = "closed_fd E (ip_cfd p) (wd_x w)"
  obtain c1 where c1: "drop_fd E (ip_cfd p) (w\<lparr>wd_sked := s\<rparr>) = Some (c1, w\<lparr>wd_sked := s, wd_x := ?x1\<rparr>)"
    using drop_fd_lemma[OF env, of "ip_cfd p" "w\<lparr>wd_sked := s\<rparr>"] by auto
  obtain c2 where c2: "drop_fd E (ip_dfd p) (w\<lparr>wd_sked := s, wd_x := ?x1\<rparr>) =
      Some (c2, w\<lparr>wd_sked := s, wd_x := closed_fd E (ip_dfd p) ?x1\<rparr>)"
    using drop_fd_lemma[OF env, of "ip_dfd p" "w\<lparr>wd_sked := s, wd_x := ?x1\<rparr>"] by auto
  have nc: "\<not> (ip_cfd p = -1 \<and> ip_dfd p = -1)" using up by blast
  have "ip_shutdown E p w = Some (if c1 \<noteq> 0 then c1 else c2, ?p, w\<lparr>wd_sked := s, wd_x := closed_fd E (ip_dfd p) ?x1\<rparr>)"
    unfolding ip_shutdown_def if_not_P[OF nc] using s(1) c1 c2 by simp
  moreover have "ip_shutdown E ?p w' = Some (0, ?p, w')" for w' by (simp add: ip_shutdown_def)
  ultimately show ?thesis using s(2,3) by simp
qed

theorem shutdown_closes_witness:
  "\<exists>r p' w'. ip_shutdown env0 getting0 wd0 = Some (r, p', w') \<and> ip_cfd p' = -1 \<and> ox_closed (wd_x w') = [3, 5]"
  using shutdown_closes[OF env0_ok wd0_sked(1), of getting0]
  by (auto simp: getting0_def pipe0_def closed_fd_def wd0_def ox0_def)

text \<open>
  A hangup on the data descriptor ends the transfer: the socket is closed, the timer cancelled and the
  connection idle. The user hears of it, once and with the server's status, exactly when the final
  reply has already come; otherwise \<open>ftpCmdDone\<close> waits for it.
\<close>
theorem hangup_completes:
  fixes E :: "('c, 'w::len, 'x) ipcalls"
  assumes env: "env_ok E pending sent" and sk: "sked_ok E b w" and masks: "masks_ok E"
    and st: "ip_state p = GETTING" "\<not> ip_dfd_connecting p" "ip_dfd p \<noteq> -1" "ip_in_ftpCmdDone p = 0"
    and status: "getStatus (ip_proto p) (Some (statusbuf0 E)) = Some (v, Some buf)"
  shows "\<exists>p' w'. ip_state p' = IDLE \<and> ip_dfd p' = -1 \<and> ip_proto p' = ip_proto p \<and> ip_cfd p' = ip_cfd p \<and>
           ip_in_ftpCmdDone p' = 0 \<and> sked_ok E b w' \<and> timers w' = (timers w)(this E := None) \<and>
           ip_notifyPollEvent E user (ip_dfd p) POLLHUP p w =
             (if v = 0 then Some (OK, p', w')
              else do { (p1, w1) \<leftarrow> call_ftpCmdDone user OK v buf p' w'; Some (OK, p1, w1) })"
proof -
  obtain now x0 where w0: "read_eclock E w = (now, w\<lparr>wd_x := x0\<rparr>)" using read_eclock_world[of E w] by blast
  let ?w0 = "w\<lparr>wd_x := x0\<rparr>" and ?p = "p\<lparr>ip_state := IDLE, ip_dfd := -1\<rparr>"
  have sk0: "sked_ok E b ?w0" using sk by simp
  obtain s where s: "unsched E ?w0 = Some (?w0\<lparr>wd_sked := s\<rparr>)" "sked_ok E b (?w0\<lparr>wd_sked := s\<rparr>)"
    "schedule s = (timers ?w0)(this E := None)" using unsched_lemma[OF sk0] by blast
  obtain r x1 where d: "po_del E (ip_dfd p) x0 = Some (r, x1)" using env by (fastforce simp: env_ok_def)
  obtain c x2 where cl: "os_close E (ip_dfd p) x1 = (c, x2)" by fastforce
  have close: "dfd_close E p ?w0 = Some (?p, ?w0\<lparr>wd_sked := s, wd_x := x2\<rparr>)"
    using s(1) d cl by (simp add: dfd_close_def on_xo_def on_x_def)
  have "dfd_connecting E POLLHUP p ?w0 = Some (OK, p, ?w0)" using st(2) by (simp add: dfd_connecting_def)
  moreover have "dfd_snooze E POLLHUP now p ?w0 = Some (p, ?w0)"
    by (simp add: dfd_snooze_def KICKSTART_def POLLHUP_def)
  moreover have "dfd_transfer E (ip_dfd p) POLLHUP now p ?w0 = Some (OK, True, 0, p, ?w0)"
    using st(1) by (simp add: dfd_transfer_def has_def POLLHUP_def POLLIN_def)
  ultimately have n: "notifyPollEvent_dfd E (ip_dfd p) POLLHUP p w = Some (Fail EALREADY, ?p, ?w0\<lparr>wd_sked := s, wd_x := x2\<rparr>)"
    using st(1) close by (simp add: notifyPollEvent_dfd_def w0)
  obtain x3 where m: "set_mask E (ip_cfd ?p) (cevents ?p) (?w0\<lparr>wd_sked := s, wd_x := x2\<rparr>) = Some (?w0\<lparr>wd_sked := s, wd_x := x3\<rparr>)"
    using set_mask_lemma[OF masks, of "ip_cfd ?p" "cevents ?p" "?w0\<lparr>wd_sked := s, wd_x := x2\<rparr>"] by auto
  have m': "set_mask E (ip_dfd ?p) (devents ?p) w1 = Some w1" for w1 by (simp add: set_mask_def)
  let ?w = "?w0\<lparr>wd_sked := s, wd_x := x3\<rparr>"
  have "ip_finish E user (Fail EALREADY) ?p ?w =
      (if v = 0 then Some (OK, ?p, ?w) else do { (p1, w1) \<leftarrow> call_ftpCmdDone user OK v buf ?p ?w; Some (OK, p1, w1) })"
    using status by (simp add: ip_finish_def)
  then have "ip_notifyPollEvent E user (ip_dfd p) POLLHUP p w =
      (if v = 0 then Some (OK, ?p, ?w) else do { (p1, w1) \<leftarrow> call_ftpCmdDone user OK v buf ?p ?w; Some (OK, p1, w1) })"
    using st(3) n m m' by (simp add: ip_notifyPollEvent_def)
  moreover have "sked_ok E b ?w" "timers ?w = (timers w)(this E := None)" using s(2,3) by (simp_all add: sked_ok_def)
  ultimately show ?thesis using st(4) by (intro exI[of _ ?p] exI[of _ ?w]) simp
qed

theorem hangup_completes_witness:
  "\<exists>p' w'. ip_notifyPollEvent env0 user0 5 POLLHUP (getting0\<lparr>ip_proto := fp0\<lparr>fp_state := FCPS_IDLE, fp_status := 226\<rparr>\<rparr>) wd0 =
      Some (OK, p', w') \<and> ip_dfd p' = -1 \<and> ox_told (wd_x w') \<noteq> []"
proof -
  let ?p = "getting0\<lparr>ip_proto := fp0\<lparr>fp_state := FCPS_IDLE, fp_status := 226\<rparr>\<rparr>"
  have "getStatus (ip_proto ?p) (Some (statusbuf0 env0)) \<noteq> None"
    by (simp add: getStatus_def fp0_def fp_init_def strncpy_def memcpy_def cstr_def is_cstr_def takeWhile_replicate wri_def)
  then obtain v buf where v: "getStatus (ip_proto ?p) (Some (statusbuf0 env0)) = Some (v, Some buf)" "v = 226"
    by (auto simp: getStatus_def bind_eq_Some_conv split: if_splits)
  from hangup_completes[OF env0_ok wd0_sked(1) masks0 _ _ _ _ v(1), of user0] v(2) show ?thesis
    by (auto simp: getting0_def pipe0_def call_ftpCmdDone_def user0_def)
qed

subsection \<open>Nested notifications\<close>

text \<open>No handler touches the guard \<open>m_in_ftpCmdDone\<close>.\<close>

lemma dfd_transfer_guard:
  assumes t: "dfd_transfer E fd v now q u = Some (r, h, n, q', u')"
  shows "ip_in_ftpCmdDone q' = ip_in_ftpCmdDone q"
proof (cases "ip_state q \<noteq> SLEEPING \<and> (ip_state q = GETTING \<and> has v POLLIN \<or> ip_state q = PUTTING \<and> has v POLLOUT)")
  case True
  then obtain w1 x w2 where "unsched E u = Some w1" "handle_data_io E fd v now w1 = Some (x, w2)"
    using t by (auto simp: dfd_transfer_def bind_eq_Some_conv)
  with True t show ?thesis by (cases x) (auto simp: dfd_transfer_def bind_eq_Some_conv split: if_splits)
next
  case False
  with t show ?thesis by (cases "ip_state q = SLEEPING") (auto simp: dfd_transfer_def)
qed

lemma notifyPollEvent_dfd_guard:
  assumes "notifyPollEvent_dfd E fd revents p w = Some (r, p', w')"
  shows "ip_in_ftpCmdDone p' = ip_in_ftpCmdDone p"
proof -
  have c: "dfd_connecting E v q u = Some (r1, q', u') \<Longrightarrow> ip_in_ftpCmdDone q' = ip_in_ftpCmdDone q" for v q u r1 q' u'
    using dfd_connecting_frame(1) by fastforce
  have s: "dfd_snooze E v now q u = Some (q', u') \<Longrightarrow> ip_in_ftpCmdDone q' = ip_in_ftpCmdDone q" for v now q u q' u'
    by (auto simp: dfd_snooze_def bind_eq_Some_conv split: if_splits)
  have th: "throttle now n q = Some q' \<Longrightarrow> ip_in_ftpCmdDone q' = ip_in_ftpCmdDone q" for now n q q'
    by (auto simp: throttle_def Let_def bind_eq_Some_conv split: if_splits)
  have cl: "dfd_close E q u = Some (q', u') \<Longrightarrow> ip_in_ftpCmdDone q' = ip_in_ftpCmdDone q" for q u q' u'
    by (auto simp: dfd_close_def bind_eq_Some_conv)
  from assms show ?thesis
    by (auto simp: notifyPollEvent_dfd_def bind_eq_Some_conv split: if_splits prod.splits dest!: c s dfd_transfer_guard th cl)
qed

text \<open>The same for the handler of the control descriptor, by \<open>cfd_keeps_pace\<close>.\<close>

lemma notifyPollEvent_cfd_guard:
  "notifyPollEvent_cfd E fd v p w = Some (r, p', w') \<Longrightarrow> ip_in_ftpCmdDone p' = ip_in_ftpCmdDone p"
  using cfd_keeps_pace[of p E fd v w] by (auto simp: paces_def held_def pace_def)

text \<open>
  While \<open>ftpCmdDone\<close> runs it is not entered again: any event handled and any command given from inside
  it does the same whatever \<open>ftpCmdDone\<close> is, so a command that ends at once is never reported.
\<close>
theorem no_reentry:
  assumes inside: "0 < ip_in_ftpCmdDone p"
  shows "ip_notifyPollEvent E user fd revents p w = ip_notifyPollEvent E user' fd revents p w \<and>
         ip_type E user t p w = ip_type E user' t p w \<and> ip_get E user f b p w = ip_get E user' f b p w"
proof -
  have fin: "ip_finish E user x q = ip_finish E user' x q" if "0 < ip_in_ftpCmdDone q" for x q
  proof -
    have "call_ftpCmdDone user y v s q1 u1 = call_ftpCmdDone user' y v s q1 u1" if "0 < ip_in_ftpCmdDone q1" for y v s q1 u1
      using that by (simp add: call_ftpCmdDone_def)
    with that show ?thesis
      by (intro ext) (auto simp: ip_finish_def Let_def bind_eq_Some_conv intro!: bind_option_cong split: if_split_asm)
  qed
  have n: "ip_notifyPollEvent E user fd revents q u = ip_notifyPollEvent E user' fd revents q u"
    if q: "0 < ip_in_ftpCmdDone q" for fd revents q u
  proof -
    let ?h = "if fd = ip_dfd q then notifyPollEvent_dfd E fd revents q u else notifyPollEvent_cfd E fd revents q u"
    have "0 < ip_in_ftpCmdDone q'" if "?h = Some (r, q', u')" for r q' u'
      using that q notifyPollEvent_dfd_guard[of E fd revents q u] notifyPollEvent_cfd_guard[of E fd revents q u] by (auto split: if_splits)
    then have "do { (xerr, p1, w1) \<leftarrow> ?h; w2 \<leftarrow> set_mask E (ip_cfd p1) (cevents p1) w1;
          w3 \<leftarrow> set_mask E (ip_dfd p1) (devents p1) w2; ip_finish E user xerr p1 w3 } =
        do { (xerr, p1, w1) \<leftarrow> ?h; w2 \<leftarrow> set_mask E (ip_cfd p1) (cevents p1) w1;
          w3 \<leftarrow> set_mask E (ip_dfd p1) (devents p1) w2; ip_finish E user' xerr p1 w3 }"
      using fin by (cases ?h) auto
    then show ?thesis unfolding ip_notifyPollEvent_def by (simp only:)
  qed
  have k: "kickstart E user q u = kickstart E user' q u" if "0 < ip_in_ftpCmdDone q" for q u
    using n[OF that] by (simp add: kickstart_def)
  show ?thesis using inside n[OF inside] k
    by (auto simp: ip_type_def ip_get_def Let_def intro!: bind_option_cong split: prod.split)
qed

theorem no_reentry_witness:
  "ip_notifyPollEvent env0 user0 5 POLLHUP (getting0\<lparr>ip_in_ftpCmdDone := 1\<rparr>) wd0 =
   ip_notifyPollEvent env0 (\<lambda>xerr status buf pw. None) 5 POLLHUP (getting0\<lparr>ip_in_ftpCmdDone := 1\<rparr>) wd0"
  using no_reentry[of "getting0\<lparr>ip_in_ftpCmdDone := 1\<rparr>" env0 user0 5 POLLHUP wd0 "\<lambda>xerr status buf pw. None"] by simp

subsection \<open>Two defects\<close>

text \<open>
  A failure reply that arrives while the connection sleeps with an event remembered closes the data
  socket but leaves the connection asleep with its timer: when the timer goes off, the remembered
  event is handled on descriptor -1 and an assertion fails, unless the user has shut the connection
  down before.
\<close>
theorem failed_command_then_wakeup:
  fixes E :: "('c, 'w::len, 'x) ipcalls"
  assumes env: "env_ok E pending sent" and st: "ip_state p = SLEEPING" "ip_dfd p \<noteq> -1" "ip_dfd_events p \<noteq> 0"
    and status: "getStatus (ip_proto p) (Some (statusbuf0 E)) = Some (v, Some buf)" "v \<noteq> 0" "\<not> STATUS_OK v"
    and user: "\<And>xerr s t q u. ip_state q = SLEEPING \<Longrightarrow> \<exists>u'. user xerr s t (q, u) = Some (q, u') \<and> wd_sked u' = wd_sked u"
  shows "\<exists>p' w'. ip_finish E user (Fail EALREADY) p w = Some (OK, p', w') \<and> ip_dfd p' = -1 \<and> wd_sked w' = wd_sked w \<and>
           (\<forall>now w''. ip_skedCallback E user now p' w'' = None)"
proof -
  obtain c where c: "drop_fd E (ip_dfd p) w = Some (c, w\<lparr>wd_x := closed_fd E (ip_dfd p) (wd_x w)\<rparr>)"
    using drop_fd_lemma[OF env] by blast
  let ?w = "w\<lparr>wd_x := closed_fd E (ip_dfd p) (wd_x w)\<rparr>" and ?p = "p\<lparr>ip_dfd_connecting := False, ip_dfd := -1\<rparr>"
  let ?q = "?p\<lparr>ip_in_ftpCmdDone := ip_in_ftpCmdDone ?p + 1\<rparr>"
  obtain w' where u: "user OK v buf (?q, ?w) = Some (?q, w')" "wd_sked w' = wd_sked ?w"
    using user[of ?q OK v buf ?w] st(1) by auto
  have stuck: "ip_skedCallback E user now p' w'' = None" if "ip_state p' = SLEEPING" "ip_dfd p' = -1" "ip_dfd_events p' \<noteq> 0"
    for now p' w''
    using that by (cases "eclock_after (ip_wakeup p') now") (simp_all add: ip_skedCallback_def ip_notifyPollEvent_def Let_def)
  obtain p1 w1 where call: "call_ftpCmdDone user OK v buf ?p ?w = Some (p1, w1)" "ip_state p1 = SLEEPING" "ip_dfd p1 = -1"
    "ip_dfd_events p1 \<noteq> 0" "wd_sked w1 = wd_sked w"
  proof (cases "ip_in_ftpCmdDone p = 0")
    case True
    with u st show thesis
      by (intro that[of "?q\<lparr>ip_in_ftpCmdDone := ip_in_ftpCmdDone ?q - 1\<rparr>" w']) (simp_all add: call_ftpCmdDone_def)
  next
    case False
    with st show thesis by (intro that[of ?p ?w]) (simp_all add: call_ftpCmdDone_def)
  qed
  have "ip_finish E user (Fail EALREADY) p w = Some (OK, p1, w1)"
    using c st(2) status call(1) by (simp add: ip_finish_def)
  with call(3,5) stuck[OF call(2-4)] show ?thesis by blast
qed

theorem failed_command_then_wakeup_witness:
  "\<exists>p' w'. ip_finish env0 user0 (Fail EALREADY)
       (getting0\<lparr>ip_state := SLEEPING, ip_dfd_events := POLLIN, ip_proto := fp0\<lparr>fp_state := FCPS_IDLE, fp_status := 451\<rparr>\<rparr>) wd0 = Some (OK, p', w') \<and>
     (\<forall>now w''. ip_skedCallback env0 user0 now p' w'' = None)"
proof -
  let ?p = "getting0\<lparr>ip_state := SLEEPING, ip_dfd_events := POLLIN, ip_proto := fp0\<lparr>fp_state := FCPS_IDLE, fp_status := 451\<rparr>\<rparr>"
  have "getStatus (ip_proto ?p) (Some (statusbuf0 env0)) \<noteq> None"
    by (simp add: getStatus_def fp0_def fp_init_def strncpy_def memcpy_def cstr_def is_cstr_def takeWhile_replicate wri_def)
  then obtain v buf where v: "getStatus (ip_proto ?p) (Some (statusbuf0 env0)) = Some (v, Some buf)" "v = 451"
    by (auto simp: getStatus_def bind_eq_Some_conv split: if_splits)
  have user: "\<exists>u'. user0 xerr s t (q, u) = Some (q, u') \<and> wd_sked u' = wd_sked u" for xerr s t q u
    by (simp add: user0_def)
  have "ip_dfd ?p \<noteq> -1" "ip_dfd_events ?p \<noteq> 0" "v \<noteq> 0" "\<not> STATUS_OK v"
    using v(2) by (simp_all add: getting0_def POLLIN_def STATUS_OK_def)
  from failed_command_then_wakeup[where user = user0 and w = wd0, OF env0_ok _ this(1,2) v(1) this(3,4) user] show ?thesis by auto
qed

text \<open>
  A reply that is handled during a \<open>get\<close> leaves the timer of the \<open>get\<close> in the event queue, also when
  it is the final failure reply and no data connection was ever opened; the next \<open>get\<close> on the
  connection then fails the assertion of \<open>addClient\<close> that the client is not queued.
\<close>
theorem failed_get_leaves_timer:
  assumes inv: "ip_inv p" and env: "env_ok E pending sent" and sk: "sked_ok E b w" and loc: "local_ok p w"
    and fd: "ip_cfd p \<noteq> -1" and st: "ip_state p = GETTING" and timer: "timers w (this E) = Some t"
    and full: "ip_iline_full p \<longrightarrow> (\<exists>l. full_line p l \<and> reply_ok l)"
    and input: "\<forall>l \<in> set (lines_of (part_line p) (m_lastchar (ip_ibuf p))
                  (contents (ip_ibuf p) @ pending (ip_cfd p) (wd_x w))). reply_ok l"
  shows "\<exists>r p' w'. notifyPollEvent_cfd E (ip_cfd p) revents p w = Some (r, p', w') \<and> timers w' (this E) = Some t \<and>
           (\<forall>q f pr x. get_cmd (ip_proto q) f None = Some (OK, pr) \<longrightarrow> ip_get E user f True q (w'\<lparr>wd_x := x\<rparr>) = None)"
proof -
  obtain r p' w' where h: "notifyPollEvent_cfd E (ip_cfd p) revents p w = Some (r, p', w')" "cfd_kept E b p w p' w'"
    using cfd_returns[OF assms(1-5,8,9)] by blast
  have t: "timers w' (this E) = Some t" using h(2) st timer by (simp add: cfd_kept_def)
  then have idx: "skedIndex (wd_sked w') (this E) \<noteq> 0" by (auto simp: schedule_def split: if_splits)
  have "ip_get E user f True q (w'\<lparr>wd_x := x\<rparr>) = None" if "get_cmd (ip_proto q) f None = Some (OK, pr)" for q f pr x
  proof -
    obtain now y where "read_eclock E (w'\<lparr>wd_x := x\<rparr>) = (now, w'\<lparr>wd_x := y\<rparr>)"
      using read_eclock_world[of E "w'\<lparr>wd_x := x\<rparr>"] by auto
    with that idx show ?thesis by (simp add: ip_get_def sched_at_def addClient_def Let_def)
  qed
  with h(1) t show ?thesis by blast
qed

theorem failed_get_leaves_timer_witness:
  "\<exists>r p' w'. notifyPollEvent_cfd env0 3 POLLIN (pipe0\<lparr>ip_state := GETTING\<rparr>)
      (wd0\<lparr>wd_sked := sk1, wd_x := ox0\<lparr>ox_in := ''550 no'' @ [CR, LF]\<rparr>\<rparr>) = Some (r, p', w') \<and>
    (\<forall>q f pr x. get_cmd (ip_proto q) f None = Some (OK, pr) \<longrightarrow> ip_get env0 user0 f True q (w'\<lparr>wd_x := x\<rparr>) = None)"
proof -
  let ?p = "pipe0\<lparr>ip_state := GETTING\<rparr>" and ?w = "wd0\<lparr>wd_sked := sk1, wd_x := ox0\<lparr>ox_in := ''550 no'' @ [CR, LF]\<rparr>\<rparr>"
  have "lines_of [] NUL (''550 no'' @ [CR, LF]) = [''550 no'']"
    by (simp add: lines_of.simps iline_LEN_def)
  moreover have "reply_ok ''550 no''"
    by code_simp
  ultimately have lines: "\<forall>l \<in> set (lines_of (part_line ?p) (m_lastchar (ip_ibuf ?p)) (contents (ip_ibuf ?p) @
      pending0 (ip_cfd ?p) (wd_x ?w))). reply_ok l"
    by (simp add: pipe0_def part_line_def pending0_def)
  have sk: "sked_ok env0 0 ?w" "timers ?w (this env0) = Some 100" using sk1 by (simp_all add: sked_ok_def)
  have "ip_cfd ?p \<noteq> -1" "ip_iline_full ?p \<longrightarrow> (\<exists>l. full_line ?p l \<and> reply_ok l)" "ip_state ?p = GETTING" "local_ok ?p ?w" "ip_inv ?p"
    using pipe0_inv(1) by (simp_all add: local_ok_def) (simp_all add: pipe0_def)
  from failed_get_leaves_timer[OF this(5) env0_ok sk(1) this(4,1,3) sk(2) this(2) lines, of POLLIN user0] show ?thesis
    by (fastforce simp: pipe0_def)
qed

end
