(* ===== verification/Platoon.thy ===== *)
theory Platoon
  imports Ftp_pipe_data "HOL-Library.Log_Nat"
begin

unbundle bit_operations_syntax

text \<open>
  The load generator's own objects: the simulated users of robouser.h and the \<open>Platoon\<close> of Platoon.h
  that owns them, and the operations of Platoon.cc a user calls. The users live in a heap, a map from
  addresses; a pointer to freed memory is an address outside the map, and following one is None.

  \<open>size_t\<close> and \<open>clock_t\<close> have the same width \<open>'w\<close> (they are both \<open>long\<close>s of the platform). The counters
  of users and reads are \<open>int\<close>s that are assumed not to reach \<open>2^31\<close>.
\<close>

subsection \<open>State\<close>

datatype state_t = UNINIT | CONNECT | CONNECTING | START_TYPE | FINISH_TYPE | GET | GETTING_FILE | STOPPED

text \<open>The enumerators in order; the numerical value of a state is its position.\<close>

definition states :: "state_t list" where
  "states = [UNINIT, CONNECT, CONNECTING, START_TYPE, FINISH_TYPE, GET, GETTING_FILE, STOPPED]"

fun state_no :: "state_t \<Rightarrow> nat" where
  "state_no UNINIT = 0" | "state_no CONNECT = 1" | "state_no CONNECTING = 2" | "state_no START_TYPE = 3"
| "state_no FINISH_TYPE = 4" | "state_no GET = 5" | "state_no GETTING_FILE = 6" | "state_no STOPPED = 7"

definition NUMSTATES :: nat where "NUMSTATES = state_no STOPPED + 1"

definition Platoon_MAXUSERS :: nat where "Platoon_MAXUSERS = 2 ^ 16"

record 't robouser_rec =
  ru_user :: nat
  ru_state :: state_t
  ru_startedAt :: 't
  ru_bytesFetched :: 't
  ru_reads :: int
  ru_fcp :: "'t pipe"

text \<open>
  The pool of local addresses is the one of the connections' world; \<open>pl_local_addrs\<close> says whether
  \<open>m_local_addrs\<close> is set. The addresses in \<open>pl_users\<close> are null or those of users.
\<close>

record 't platoon_rec =
  pl_servername :: "char list"
  pl_port :: int
  pl_username :: "char list"
  pl_passwd :: "char list"
  pl_minBytesPerSec :: int
  pl_maxBytesPerSec :: int
  pl_bytesPerRead :: int
  pl_filename :: "char list"
  pl_verbosity :: int
  pl_lastConnectingState :: state_t
  pl_nconnectingTarget :: int
  pl_nuserTarget :: int
  pl_nInState :: "int list"
  pl_users :: "nat option list"
  pl_deadlist :: "nat list"
  pl_bytesFetched :: 't
  pl_nreads :: int
  pl_local_addrs :: bool
  pl_n_local_addrs :: nat

text \<open>The clients of the event queue, and the world: the platoon, the heap of users and the system.\<close>

datatype client = CPlatoon | CRobo nat | CPipe nat

record ('t, 'o) farm_rec =
  fm_platoon :: "'t platoon_rec"
  fm_users :: "nat \<Rightarrow> 't robouser_rec option"
  fm_os :: 'o

type_synonym 'w robouser = "'w clock robouser_rec"
type_synonym 'w platoon = "'w clock platoon_rec"
type_synonym ('w, 'o) farm = "('w clock, 'o) farm_rec"
type_synonym ('w, 'o) farm_world = "(client, 'w, ('w, 'o) farm) ipworld"
type_synonym ('w, 'o) farm_calls = "(client, 'w, ('w, 'o) farm) ipcalls"

text \<open>
  The system calls are given on the system's own state; \<open>base_calls S c\<close> are those of a client \<open>c\<close>, on
  the whole world. \<open>new_user\<close> is what \<open>new\<close> returns: an address and what the memory there holds.
\<close>

record ('t, 'o) sys_calls = "(client, 't, 'o) calls" +
  new_user :: "(nat \<Rightarrow> 't robouser_rec option) \<Rightarrow> nat \<times> 't robouser_rec"

type_synonym ('w, 'o) system = "('w clock, 'o) sys_calls"

definition on_os :: "('o \<Rightarrow> 'a \<times> 'o) \<Rightarrow> ('w::len, 'o) farm \<Rightarrow> 'a \<times> ('w, 'o) farm" where
  "on_os f x = (case f (fm_os x) of (a, o') \<Rightarrow> (a, x\<lparr>fm_os := o'\<rparr>))"

definition on_oso :: "('o \<Rightarrow> ('a \<times> 'o) option) \<Rightarrow> ('w::len, 'o) farm \<Rightarrow> ('a \<times> ('w, 'o) farm) option" where
  "on_oso f x = do { (a, o') \<leftarrow> f (fm_os x); Some (a, x\<lparr>fm_os := o'\<rparr>) }"

definition base_calls :: "('w::len, 'o) system \<Rightarrow> client \<Rightarrow> ('w, 'o) farm_calls" where
  "base_calls S c =
     \<lparr>this = c, sked_realloc = sked_realloc S, os_gettimeofday = on_os (os_gettimeofday S), os_inet_aton = os_inet_aton S,
      os_gethostbyname = (\<lambda>s. on_os (os_gethostbyname S s)), os_socket = on_os (os_socket S),
      os_getfl = (\<lambda>fd. on_os (os_getfl S fd)), os_setfl = (\<lambda>fd f. on_os (os_setfl S fd f)),
      os_close = (\<lambda>fd. on_os (os_close S fd)), os_connect = (\<lambda>fd a. on_os (os_connect S fd a)),
      os_bind = (\<lambda>fd a. on_os (os_bind S fd a)), os_so_error = (\<lambda>fd. on_os (os_so_error S fd)),
      os_read = (\<lambda>fd n. on_os (os_read S fd n)), os_write = (\<lambda>fd ds. on_os (os_write S fd ds)),
      po_add = (\<lambda>fd m. on_oso (po_add S fd m)), po_del = (\<lambda>fd. on_oso (po_del S fd)),
      po_setMask = (\<lambda>fd m. on_oso (po_setMask S fd m)), po_clearReadiness = (\<lambda>fd m. on_oso (po_clearReadiness S fd m)),
      handle_data_io = (\<lambda>fd m t w. None), statusbuf0 = statusbuf0 S\<rparr>"

abbreviation platoon_of :: "('w::len, 'o) farm_world \<Rightarrow> 'w platoon" where
  "platoon_of w \<equiv> fm_platoon (wd_x w)"

abbreviation users_of :: "('w::len, 'o) farm_world \<Rightarrow> nat \<Rightarrow> 'w robouser option" where
  "users_of w \<equiv> fm_users (wd_x w)"

definition put_platoon :: "'w::len platoon \<Rightarrow> ('w, 'o) farm_world \<Rightarrow> ('w, 'o) farm_world" where
  "put_platoon P w = w\<lparr>wd_x := (wd_x w)\<lparr>fm_platoon := P\<rparr>\<rparr>"

definition put_users :: "(nat \<Rightarrow> 'w::len robouser option) \<Rightarrow> ('w, 'o) farm_world \<Rightarrow> ('w, 'o) farm_world" where
  "put_users h w = w\<lparr>wd_x := (wd_x w)\<lparr>fm_users := h\<rparr>\<rparr>"

subsection \<open>Operations of the platoon\<close>

definition sumInState :: "'w::len platoon \<Rightarrow> state_t \<Rightarrow> state_t \<Rightarrow> int" where
  "sumInState P first l = sum_list (map (\<lambda>i. pl_nInState P ! i) [state_no first..<state_no l + 1])"

definition platoon_wakeUp :: "('w::len, 'o) system \<Rightarrow> ('w, 'o) farm_world \<Rightarrow> ('w, 'o) farm_world option" where
  "platoon_wakeUp S w = do {
     w1 \<leftarrow> unsched (base_calls S CPlatoon) w;
     let (now, w2) = read_eclock (base_calls S CPlatoon) w1;
     sched_at (base_calls S CPlatoon) now w2
   }"

definition countStateChange ::
  "('w::len, 'o) system \<Rightarrow> state_t \<Rightarrow> state_t \<Rightarrow> ('w, 'o) farm_world \<Rightarrow> ('w, 'o) farm_world option" where
  "countStateChange S oldstate newstate w = do {
     assertion (newstate \<noteq> UNINIT);
     let P = platoon_of w;
     n1 \<leftarrow> (if oldstate \<noteq> UNINIT then do { k \<leftarrow> rd (pl_nInState P) (state_no oldstate); wr (pl_nInState P) (state_no oldstate) (k - 1) }
           else Some (pl_nInState P));
     k \<leftarrow> rd n1 (state_no newstate);
     n2 \<leftarrow> wr n1 (state_no newstate) (k + 1);
     platoon_wakeUp S (put_platoon (P\<lparr>pl_nInState := n2\<rparr>) w)
   }"

definition set_nuserTarget :: "('w::len, 'o) system \<Rightarrow> int \<Rightarrow> ('w, 'o) farm_world \<Rightarrow> ('w, 'o) farm_world option" where
  "set_nuserTarget S n w = platoon_wakeUp S (put_platoon ((platoon_of w)\<lparr>pl_nuserTarget := n\<rparr>) w)"

definition set_nconnectingTarget :: "('w::len, 'o) system \<Rightarrow> int \<Rightarrow> ('w, 'o) farm_world \<Rightarrow> ('w, 'o) farm_world option" where
  "set_nconnectingTarget S n w = platoon_wakeUp S (put_platoon ((platoon_of w)\<lparr>pl_nconnectingTarget := n\<rparr>) w)"

definition set_lastConnectingState :: "('w::len, 'o) system \<Rightarrow> state_t \<Rightarrow> ('w, 'o) farm_world \<Rightarrow> ('w, 'o) farm_world option" where
  "set_lastConnectingState S s w = platoon_wakeUp S (put_platoon ((platoon_of w)\<lparr>pl_lastConnectingState := s\<rparr>) w)"

definition setVerbosity :: "int \<Rightarrow> ('w::len, 'o) farm_world \<Rightarrow> ('w, 'o) farm_world" where
  "setVerbosity v w = put_platoon ((platoon_of w)\<lparr>pl_verbosity := v\<rparr>) w"

definition addToDeadlist :: "nat \<Rightarrow> ('w::len, 'o) farm_world \<Rightarrow> ('w, 'o) farm_world" where
  "addToDeadlist a w = put_platoon ((platoon_of w)\<lparr>pl_deadlist := pl_deadlist (platoon_of w) @ [a]\<rparr>) w"

text \<open>
  The end of a user, which \<open>reap\<close> and \<open>reset\<close> share: take it and its connection out of the event queue,
  shut the connection down, forget the user and free it. The connection's \<open>shutdown\<close> changes neither
  the list of the dead nor the table of users.
\<close>

definition bury :: "('w::len, 'o) system \<Rightarrow> nat \<Rightarrow> ('w, 'o) farm_world \<Rightarrow> ('w, 'o) farm_world option" where
  "bury S r w = do {
     u \<leftarrow> users_of w r;
     w1 \<leftarrow> unsched (base_calls S (CRobo r)) w;
     (c, p, w2) \<leftarrow> ip_shutdown (base_calls S (CPipe r)) (ru_fcp u) w1;
     let P = platoon_of w2;
     us \<leftarrow> wr (pl_users P) (ru_user u) None;
     Some (put_users ((users_of w2)(r := None)) (put_platoon (P\<lparr>pl_users := us\<rparr>) w2))
   }"

fun reap_loop :: "('w::len, 'o) system \<Rightarrow> nat list \<Rightarrow> ('w, 'o) farm_world \<Rightarrow> ('w, 'o) farm_world option" where
  "reap_loop S [] w = Some w"
| "reap_loop S (r # dead) w = do {
     w1 \<leftarrow> bury S r (put_platoon ((platoon_of w)\<lparr>pl_deadlist := dead\<rparr>) w);
     reap_loop S dead w1
   }"

definition reap :: "('w::len, 'o) system \<Rightarrow> ('w, 'o) farm_world \<Rightarrow> ('w, 'o) farm_world option" where
  "reap S w = reap_loop S (pl_deadlist (platoon_of w)) w"

text \<open>The counts connecting, alive and dead, and the bytes so far; the pointers are not null in any call.\<close>

definition getStatus_pl ::
  "('w::len, 'o) system \<Rightarrow> ('w, 'o) farm_world \<Rightarrow> ((int \<times> int \<times> int \<times> 'w word) \<times> ('w, 'o) farm_world) option" where
  "getStatus_pl S w = do {
     w1 \<leftarrow> reap S w;
     let P = platoon_of w1;
     Some ((sumInState P CONNECT (pl_lastConnectingState P), sumInState P CONNECT GETTING_FILE,
            sumInState P STOPPED STOPPED, pl_bytesFetched P), w1)
   }"

end
