(* ===== verification/Robouser.thy ===== *)
theory Robouser
  imports Platoon
begin

unbundle bit_operations_syntax

text \<open>
  The simulated user of robouser.cc: it is the \<open>datainterface\<close> of its own connection and a client of the
  event queue. \<open>ftpCmdDone\<close> is entered from the connection while the connection is in a call, so it
  works on the connection handed to it; the user's own copy in the heap is then out of date.
\<close>

subsection \<open>Rates\<close>

text \<open>
  The bandwidth is a \<open>float\<close> computed with a \<open>double\<close> product and quotient. \<open>rnd p q\<close> is the value with
  \<open>p\<close> significant bits next to \<open>q\<close>, ties to even; the exponents here are far from the limits of both
  types. A quotient by zero is an infinity, which is less than no \<open>int\<close>.
\<close>

definition half_even :: "rat \<Rightarrow> int" where
  "half_even x = (let f = \<lfloor>x\<rfloor>; d = x - of_int f in
     if d < 1 / 2 then f else if d > 1 / 2 then f + 1 else if even f then f else f + 1)"

definition pow2 :: "int \<Rightarrow> rat" where
  "pow2 k = (if 0 \<le> k then 2 ^ nat k else 1 / 2 ^ nat (- k))"

definition exponent :: "rat \<Rightarrow> int" where
  "exponent q = (case quotient_of q of (a, b) \<Rightarrow>
     let e = int (floorlog 2 (nat \<bar>a\<bar>)) - int (floorlog 2 (nat b))
     in if pow2 e \<le> \<bar>q\<bar> then e else e - 1)"

definition rnd :: "nat \<Rightarrow> rat \<Rightarrow> rat" where
  "rnd p q = (if q = 0 then 0 else
     let s = pow2 (exponent q - int p + 1) in of_int (half_even (q / s)) * s)"

definition rate_below :: "'w::len word \<Rightarrow> 'w clock \<Rightarrow> int \<Rightarrow> bool" where
  "rate_below bytes ticks_taken minimum =
     (sint ticks_taken \<noteq> 0 \<and>
      rnd 24 (rnd 53 (rnd 53 (rnd 53 (of_int (uint bytes)) * of_int eclock_HERTZ) / rnd 53 (of_int (sint ticks_taken))))
        < rnd 24 (of_int minimum))"

subsection \<open>States\<close>

definition gotoState ::
  "('w::len, 'o) system \<Rightarrow> nat \<Rightarrow> state_t \<Rightarrow> ('w, 'o) farm_world \<Rightarrow> ('w, 'o) farm_world option" where
  "gotoState S r newstate w = do {
     u \<leftarrow> users_of w r;
     w1 \<leftarrow> countStateChange S (ru_state u) newstate w;
     u1 \<leftarrow> users_of w1 r;
     Some (put_users ((users_of w1)(r \<mapsto> u1\<lparr>ru_state := newstate\<rparr>)) w1)
   }"

definition stop :: "('w::len, 'o) system \<Rightarrow> nat \<Rightarrow> ('w, 'o) farm_world \<Rightarrow> ('w, 'o) farm_world option" where
  "stop S r w = do { w1 \<leftarrow> gotoState S r STOPPED w; Some (addToDeadlist r w1) }"

text \<open>\<open>strcpy(fname, m_platoon->getFilename())\<close> into an array of 1024 bytes.\<close>

definition pick_random_file :: "'w::len platoon \<Rightarrow> char list option" where
  "pick_random_file P = do { assertion (length (pl_filename P) < 1024); Some (pl_filename P) }"

definition start ::
  "('w::len, 'o) system \<Rightarrow> nat \<Rightarrow> nat \<Rightarrow> ('w, 'o) farm_world \<Rightarrow> (rc \<times> ('w, 'o) farm_world) option" where
  "start S r usernum w = do {
     u \<leftarrow> users_of w r;
     let P = platoon_of w;
     local_addr \<leftarrow> (if pl_local_addrs P then do { assertion (pl_n_local_addrs P \<noteq> 0); Some (Some (usernum mod pl_n_local_addrs P)) }
                   else Some None);
     let u1 = u\<lparr>ru_user := usernum, ru_fcp := ip_init (pl_maxBytesPerSec P) local_addr (ru_fcp u), ru_startedAt := 0,
                ru_bytesFetched := 0, ru_reads := 0\<rparr>;
     let (now, w2) = read_eclock (base_calls S (CRobo r)) (put_users ((users_of w)(r \<mapsto> u1)) w);
     w3 \<leftarrow> sched_at (base_calls S (CRobo r)) now w2;
     w4 \<leftarrow> gotoState S r CONNECT w3;
     Some (OK, w4)
   }"

subsection \<open>Data\<close>

text \<open>
  \<open>handle_data_io\<close>, 130-204. The \<open>read\<close> returns at most \<open>getBytesPerRead()\<close> bytes, which an assertion
  bounds by the size of the buffer; a negative length is undefined. The counting of a read of \<open>n > 0\<close>
  bytes comes first; its result tells whether the user was stopped for being too slow.
\<close>

definition count_read ::
  "('w::len, 'o) system \<Rightarrow> nat \<Rightarrow> nat \<Rightarrow> 'w clock \<Rightarrow> ('w, 'o) farm_world \<Rightarrow> (bool \<times> ('w, 'o) farm_world) option" where
  "count_read S r nread now w = do {
     u \<leftarrow> users_of w r;
     let (started, w1) = (if ru_bytesFetched u = 0 then read_eclock (base_calls S (CRobo r)) w else (ru_startedAt u, w));
     let fetched = ru_bytesFetched u + of_nat nread;
     let w2 = put_users ((users_of w1)(r \<mapsto> u\<lparr>ru_startedAt := started, ru_bytesFetched := fetched\<rparr>)) w1;
     let P = platoon_of w2;
     let w3 = put_platoon (P\<lparr>pl_bytesFetched := pl_bytesFetched P + of_nat nread, pl_nreads := pl_nreads P + 1\<rparr>) w2;
     if sint (scast fetched :: 32 word) > 10 * pl_bytesPerRead P \<and> rate_below fetched (now - started) (pl_minBytesPerSec P)
     then do { w4 \<leftarrow> stop S r w3; Some (True, w4) }
     else Some (False, w3)
   }"

definition robo_handle_data_io ::
  "('w::len, 'o) system \<Rightarrow> nat \<Rightarrow> int \<Rightarrow> mask \<Rightarrow> 'w clock \<Rightarrow> ('w, 'o) farm_world \<Rightarrow> ((errno + nat) \<times> ('w, 'o) farm_world) option" where
  "robo_handle_data_io S r fd revents now w = do {
     let bpr = pl_bytesPerRead (platoon_of w);
     assertion (0 \<le> bpr \<and> bpr \<le> 16384);
     let (res, w1) = on_x (os_read (base_calls S (CPipe r)) fd (nat bpr)) w;
     u \<leftarrow> users_of w1 r;
     let w2 = put_users ((users_of w1)(r \<mapsto> u\<lparr>ru_reads := ru_reads u + 1\<rparr>)) w1;
     case res of
       Inl e \<Rightarrow> Some (Inl e, w2)
     | Inr buf \<Rightarrow>
         if length buf = 0 then Some (Inr 0, w2)
         else do {
           (stopped, w3) \<leftarrow> count_read S r (length buf) now w2;
           if stopped then Some (Inr 0, w3)
           else do { w4 \<leftarrow> reap S w3; Some (Inr (length buf), w4) }
         }
   }"

definition robo_calls :: "('w::len, 'o) system \<Rightarrow> nat \<Rightarrow> ('w, 'o) farm_calls" where
  "robo_calls S r = (base_calls S (CPipe r))\<lparr>handle_data_io := robo_handle_data_io S r\<rparr>"

subsection \<open>Commands\<close>

text \<open>
  The connection calls \<open>ftpCmdDone\<close>, which gives it commands, which may call \<open>ftpCmdDone\<close> again: a true
  recursion, defined as the least fixed point. The operations of the connection are monotone in it.
\<close>

lemma case_prod_mono [partial_function_mono]:
  "(\<And>a b. mono_option (\<lambda>f. C a b f)) \<Longrightarrow> mono_option (\<lambda>f. case y of (a, b) \<Rightarrow> C a b f)"
  by (cases y) simp

lemma call_ftpCmdDone_mono [partial_function_mono]:
  assumes "\<And>a b c d. mono_option (\<lambda>f. B f a b c d)"
  shows "mono_option (\<lambda>f. call_ftpCmdDone (B f) x s t p w)"
  unfolding call_ftpCmdDone_def by (intro partial_function_mono assms)

lemma ip_finish_mono [partial_function_mono]:
  assumes "\<And>a b c d. mono_option (\<lambda>f. B f a b c d)"
  shows "mono_option (\<lambda>f. ip_finish E (B f) x p w)"
  unfolding ip_finish_def by (intro partial_function_mono assms)

lemma ip_notifyPollEvent_mono [partial_function_mono]:
  assumes "\<And>a b c d. mono_option (\<lambda>f. B f a b c d)"
  shows "mono_option (\<lambda>f. ip_notifyPollEvent E (B f) fd revents p w)"
  unfolding ip_notifyPollEvent_def by (intro partial_function_mono assms)

lemma kickstart_mono [partial_function_mono]:
  assumes "\<And>a b c d. mono_option (\<lambda>f. B f a b c d)"
  shows "mono_option (\<lambda>f. kickstart E (B f) p w)"
  unfolding kickstart_def by (intro partial_function_mono assms)

lemma ip_login_mono [partial_function_mono]:
  assumes "\<And>a b c d. mono_option (\<lambda>f. B f a b c d)"
  shows "mono_option (\<lambda>f. ip_login E (B f) u q p w)"
  unfolding ip_login_def Let_def by (intro partial_function_mono assms)

lemma ip_type_mono [partial_function_mono]:
  assumes "\<And>a b c d. mono_option (\<lambda>f. B f a b c d)"
  shows "mono_option (\<lambda>f. ip_type E (B f) t p w)"
  unfolding ip_type_def Let_def by (intro partial_function_mono assms)

lemma ip_get_mono [partial_function_mono]:
  assumes "\<And>a b c d. mono_option (\<lambda>f. B f a b c d)"
  shows "mono_option (\<lambda>f. ip_get E (B f) n b p w)"
  unfolding ip_get_def Let_def by (intro partial_function_mono assms)

text \<open>\<open>stop(); return;\<close> and the same for an error of a command.\<close>

definition stop_here ::
  "('w::len, 'o) system \<Rightarrow> nat \<Rightarrow> 'w ipipe \<Rightarrow> ('w, 'o) farm_world \<Rightarrow> ('w ipipe \<times> ('w, 'o) farm_world) option" where
  "stop_here S r p w = do { w1 \<leftarrow> stop S r w; Some (p, w1) }"

definition goto_here ::
  "('w::len, 'o) system \<Rightarrow> nat \<Rightarrow> state_t \<Rightarrow> 'w ipipe \<Rightarrow> ('w, 'o) farm_world \<Rightarrow> ('w ipipe \<times> ('w, 'o) farm_world) option" where
  "goto_here S r st p w = do { w1 \<leftarrow> gotoState S r st w; Some (p, w1) }"

text \<open>The end of a file, 309-342: whether the user was stopped for being too slow.\<close>

definition file_done ::
  "('w::len, 'o) system \<Rightarrow> nat \<Rightarrow> ('w, 'o) farm_world \<Rightarrow> (bool \<times> ('w, 'o) farm_world) option" where
  "file_done S r w = do {
     let (now, w1) = read_eclock (base_calls S (CRobo r)) w;
     u \<leftarrow> users_of w1 r;
     let total = now - ru_startedAt u;
     Some (0 < sint total \<and> rate_below (ru_bytesFetched u) total (pl_minBytesPerSec (platoon_of w1)), w1)
   }"

text \<open>
  \<open>ftpCmdDone\<close>, 211-356. The loop runs the body again where the source breaks out of the switch; there
  \<open>xerr\<close> is 0, so an iteration is a call with the same arguments.
\<close>

partial_function (option) robo_ftpCmdDone ::
  "('w::len, 'o) system \<Rightarrow> nat \<Rightarrow> rc \<Rightarrow> int \<Rightarrow> char list \<Rightarrow> 'w ipipe \<times> ('w, 'o) farm_world \<Rightarrow>
   ('w ipipe \<times> ('w, 'o) farm_world) option" where
  "robo_ftpCmdDone S r xerr status buf pw =
     (if xerr \<noteq> OK then stop_here S r (fst pw) (snd pw)
      else do {
        u \<leftarrow> users_of (snd pw) r;
        let P = platoon_of (snd pw);
        case ru_state u of
          CONNECT \<Rightarrow> do {
            (err, p1, w1) \<leftarrow> ip_connect (robo_calls S r) (cstr (pl_servername P)) (pl_port P) (fst pw) (snd pw);
            if err \<noteq> OK then stop_here S r p1 w1
            else do {
              (err2, p2, w2) \<leftarrow> ip_login (robo_calls S r) (\<lambda>e st b pw2. robo_ftpCmdDone S r e st b pw2)
                                 (cstr (pl_username P)) (cstr (pl_passwd P)) p1 w1;
              if err2 \<noteq> OK then stop_here S r p2 w2 else goto_here S r CONNECTING p2 w2
            }
          }
        | CONNECTING \<Rightarrow>
            if \<not> STATUS_OK status then stop_here S r (fst pw) (snd pw)
            else do { pw1 \<leftarrow> goto_here S r START_TYPE (fst pw) (snd pw); robo_ftpCmdDone S r xerr status buf pw1 }
        | START_TYPE \<Rightarrow> do {
            (err, p1, w1) \<leftarrow> ip_type (robo_calls S r) (\<lambda>e st b pw2. robo_ftpCmdDone S r e st b pw2) ''I'' (fst pw) (snd pw);
            if err \<noteq> OK then stop_here S r p1 w1 else goto_here S r FINISH_TYPE p1 w1
          }
        | FINISH_TYPE \<Rightarrow>
            if \<not> STATUS_OK status then stop_here S r (fst pw) (snd pw)
            else do { pw1 \<leftarrow> goto_here S r GET (fst pw) (snd pw); robo_ftpCmdDone S r xerr status buf pw1 }
        | GET \<Rightarrow> do {
            fname \<leftarrow> pick_random_file P;
            (err, p1, w1) \<leftarrow> ip_get (robo_calls S r) (\<lambda>e st b pw2. robo_ftpCmdDone S r e st b pw2) fname True (fst pw) (snd pw);
            if err \<noteq> OK then stop_here S r p1 w1
            else do {
              let (now, w2) = read_eclock (base_calls S (CRobo r)) w1;
              u2 \<leftarrow> users_of w2 r;
              let w3 = put_users ((users_of w2)(r \<mapsto> u2\<lparr>ru_startedAt := now, ru_bytesFetched := 0, ru_reads := 0\<rparr>)) w2;
              goto_here S r GETTING_FILE p1 w3
            }
          }
        | GETTING_FILE \<Rightarrow>
            if \<not> STATUS_OK status then stop_here S r (fst pw) (snd pw)
            else do {
              (slow, w1) \<leftarrow> file_done S r (snd pw);
              if slow then stop_here S r (fst pw) w1
              else do { pw1 \<leftarrow> goto_here S r GET (fst pw) w1; robo_ftpCmdDone S r xerr status buf pw1 }
            }
        | _ \<Rightarrow> Some pw
      })"

text \<open>
  The connection's own entry points, on the user in the heap: the connection is handed out, and put
  back into the user when the call ends. A user that was freed in between is a use after free.
\<close>

definition with_fcp ::
  "nat \<Rightarrow> ('w ipipe \<Rightarrow> ('w::len, 'o) farm_world \<Rightarrow> ('w ipipe \<times> ('w, 'o) farm_world) option) \<Rightarrow>
   ('w, 'o) farm_world \<Rightarrow> ('w, 'o) farm_world option" where
  "with_fcp r f w = do {
     u \<leftarrow> users_of w r;
     (p, w1) \<leftarrow> f (ru_fcp u) w;
     u1 \<leftarrow> users_of w1 r;
     Some (put_users ((users_of w1)(r \<mapsto> u1\<lparr>ru_fcp := p\<rparr>)) w1)
   }"

definition robo_skedCallback ::
  "('w::len, 'o) system \<Rightarrow> nat \<Rightarrow> 'w clock \<Rightarrow> ('w, 'o) farm_world \<Rightarrow> ('w, 'o) farm_world option" where
  "robo_skedCallback S r now = with_fcp r (\<lambda>p w. robo_ftpCmdDone S r OK (-1) [] (p, w))"

end
