(* ===== verification/Rampup.thy ===== *)
theory Rampup
  imports Robouser
begin

text \<open>
  The operations of Platoon.cc that make and unmake users, and the callbacks of the event queue: the
  platoon's own, which starts users until the targets are met, and those of the users and of their
  connections.
\<close>

subsection \<open>Operations\<close>

definition pl_init ::
  "char list \<Rightarrow> int \<Rightarrow> int \<Rightarrow> int \<Rightarrow> char list \<Rightarrow> int \<Rightarrow> char list \<Rightarrow> char list \<Rightarrow> bool \<Rightarrow> nat \<Rightarrow>
   'w::len platoon \<Rightarrow> 'w platoon option" where
  "pl_init filename maxBytesPerSec minBytesPerSec bytesPerRead servername port username passwd local_addrs n_local_addrs P = do {
     pw \<leftarrow> store_str (pl_passwd P) passwd;
     sn \<leftarrow> store_str (pl_servername P) servername;
     un \<leftarrow> store_str (pl_username P) username;
     Some (P\<lparr>pl_filename := filename, pl_bytesPerRead := bytesPerRead, pl_minBytesPerSec := minBytesPerSec,
       pl_maxBytesPerSec := maxBytesPerSec, pl_port := port, pl_passwd := pw, pl_servername := sn, pl_username := un,
       pl_verbosity := 0, pl_local_addrs := local_addrs, pl_n_local_addrs := n_local_addrs,
       pl_lastConnectingState := CONNECTING, pl_users := replicate Platoon_MAXUSERS None, pl_nconnectingTarget := 1,
       pl_nuserTarget := 0, pl_nInState := replicate NUMSTATES 0, pl_deadlist := [], pl_bytesFetched := 0, pl_nreads := 0\<rparr>)
   }"

text \<open>The search for an empty slot: None in the result when every slot was looked at.\<close>

fun find_slot :: "nat option list \<Rightarrow> nat \<Rightarrow> int \<Rightarrow> nat option option" where
  "find_slot us 0 i = Some None"
| "find_slot us (Suc k) i = do {
     let j = (if i = int Platoon_MAXUSERS then 0 else i);
     u \<leftarrow> rdi us j;
     if u = None then Some (Some (nat j)) else find_slot us k (j + 1)
   }"

text \<open>\<open>new robouser_t(this)\<close>: the constructors set the state and the two positions in the event queue.\<close>

definition new_robouser :: "('w::len, 'o) system \<Rightarrow> ('w, 'o) farm_world \<Rightarrow> nat \<times> ('w, 'o) farm_world" where
  "new_robouser S w =
     (case new_user S (users_of w) of (r, mem) \<Rightarrow>
        (r, put_users ((users_of w)(r \<mapsto> mem\<lparr>ru_state := UNINIT\<rparr>))
              (w\<lparr>wd_sked := (wd_sked w)\<lparr>skedIndex := (skedIndex (wd_sked w))(CRobo r := 0, CPipe r := 0)\<rparr>\<rparr>)))"

definition startUser :: "('w::len, 'o) system \<Rightarrow> ('w, 'o) farm_world \<Rightarrow> (rc \<times> ('w, 'o) farm_world) option" where
  "startUser S w = do {
     slot \<leftarrow> find_slot (pl_users (platoon_of w)) Platoon_MAXUSERS (sumInState (platoon_of w) CONNECT GETTING_FILE);
     case slot of
       None \<Rightarrow> Some (Fail EALREADY, w)
     | Some i \<Rightarrow> do {
         let (r, w1) = new_robouser S w;
         us \<leftarrow> wr (pl_users (platoon_of w1)) i (Some r);
         (err, w2) \<leftarrow> start S r i (put_platoon ((platoon_of w1)\<lparr>pl_users := us\<rparr>) w1);
         Some (err, w2)
       }
   }"

definition wants_more :: "'w::len platoon \<Rightarrow> bool" where
  "wants_more P = (sumInState P STOPPED STOPPED = 0 \<and> sumInState P CONNECT GETTING_FILE < pl_nuserTarget P \<and>
                   sumInState P CONNECT (pl_lastConnectingState P) < pl_nconnectingTarget P)"

partial_function (option) platoon_skedCallback ::
  "('w::len, 'o) system \<Rightarrow> ('w, 'o) farm_world \<Rightarrow> ('w, 'o) farm_world option" where
  "platoon_skedCallback S w =
     (if wants_more (platoon_of w) then do {
        (err, w1) \<leftarrow> startUser S w;
        if err \<noteq> OK then Some w1 else platoon_skedCallback S w1
      }
      else Some w)"

fun reset_loop :: "('w::len, 'o) system \<Rightarrow> nat list \<Rightarrow> ('w, 'o) farm_world \<Rightarrow> ('w, 'o) farm_world option" where
  "reset_loop S [] w = Some w"
| "reset_loop S (i # is) w = do {
     u \<leftarrow> rd (pl_users (platoon_of w)) i;
     w1 \<leftarrow> (case u of None \<Rightarrow> Some w | Some r \<Rightarrow> bury S r w);
     reset_loop S is w1
   }"

definition pl_reset :: "('w::len, 'o) system \<Rightarrow> ('w, 'o) farm_world \<Rightarrow> ('w, 'o) farm_world option" where
  "pl_reset S w = do {
     w1 \<leftarrow> reap S w;
     w2 \<leftarrow> reset_loop S [0..<Platoon_MAXUSERS] w1;
     w3 \<leftarrow> unsched (base_calls S CPlatoon) w2;
     assertion (sked_empty (wd_sked w3));
     Some w3
   }"

subsection \<open>Callbacks\<close>

definition farm_skedCallback ::
  "('w::len, 'o) system \<Rightarrow> client \<Rightarrow> 'w clock \<Rightarrow> ('w, 'o) farm_world \<Rightarrow> ('w, 'o) farm_world option" where
  "farm_skedCallback S c now w =
     (case c of
        CPlatoon \<Rightarrow> platoon_skedCallback S w
      | CRobo r \<Rightarrow> robo_skedCallback S r now w
      | CPipe r \<Rightarrow> with_fcp r (\<lambda>p w. ip_skedCallback (robo_calls S r) (robo_ftpCmdDone S r) now p w) w)"

end
