(* ===== verification/Farm.thy ===== *)
theory Farm
  imports Rampup
begin

unbundle bit_operations_syntax

text \<open>
  The invariant of the load generator, across the platoon, the users in the heap, their connections and
  the event queue, and what the platoon's operations do under it.
\<close>

subsection \<open>The size of the event queue\<close>

lemma card_schedule:
  assumes wf: "sked_wf s"
  shows "card (dom (schedule s)) = m_used s"
proof -
  let ?f = "\<lambda>i. skc (m_records s ! i)"
  have lk: "links (m_used s) s" using wf by (simp add: sked_wf_def)
  have "c \<in> dom (schedule s) \<longleftrightarrow> c \<in> ?f ` {1..m_used s}" for c
  proof -
    have "(\<exists>t. schedule s c = Some t) \<longleftrightarrow> (\<exists>t. \<lparr>skc = c, rec_when = t\<rparr> \<in> recset (m_used s) s)"
      using schedule_iff[OF wf] by blast
    also have "\<dots> \<longleftrightarrow> c \<in> skc ` recset (m_used s) s"
      by (metis (mono_tags, lifting) SkedRecord.select_convs(1) image_iff SkedRecord.surjective old.unit.exhaust)
    finally show ?thesis by (auto simp: recset_def)
  qed
  then have "dom (schedule s) = ?f ` {1..m_used s}" by blast
  moreover have "inj_on ?f {1..m_used s}" using links_inj[OF lk] by (intro inj_onI) auto
  ultimately show ?thesis by (simp add: card_image)
qed

lemma siftUp_allocated: "siftUp s i = Some s' \<Longrightarrow> m_allocated s' = m_allocated s"
proof (induction s i rule: siftUp.induct)
  case (1 s i)
  then show ?case
    by (subst (asm) (2) siftUp.simps) (auto simp: bind_eq_Some_conv swapAt_def storeAt_def Let_def split: if_splits)
qed

lemma addClient_allocated:
  "addClient ralloc s c t = Some (OK, s') \<Longrightarrow>
   m_allocated s' = (if m_used s + 1 = m_allocated s then 2 * m_allocated s else m_allocated s)"
  by (auto simp: addClient_def push_def bind_eq_Some_conv storeAt_def Let_def dest!: siftUp_allocated
      split: if_splits option.splits)

subsection \<open>Worlds by their parts\<close>

definition mk :: "sockaddr_in list \<Rightarrow> (client, 'w::len) sked \<Rightarrow> 'w platoon \<Rightarrow> (nat \<Rightarrow> 'w robouser option) \<Rightarrow> 'o \<Rightarrow> ('w, 'o) farm_world" where
  "mk ls s P h x = \<lparr>wd_sked = s, wd_locals = ls, wd_x = \<lparr>fm_platoon = P, fm_users = h, fm_os = x\<rparr>\<rparr>"

lemma mk_parts [simp]:
  "wd_sked (mk ls s P h x) = s" "wd_locals (mk ls s P h x) = ls" "platoon_of (mk ls s P h x) = P" "users_of (mk ls s P h x) = h"
  "fm_os (wd_x (mk ls s P h x)) = x" "put_platoon P' (mk ls s P h x) = mk ls s P' h x" "put_users h' (mk ls s P h x) = mk ls s P h' x"
  "(mk ls s P h x)\<lparr>wd_sked := s'\<rparr> = mk ls s' P h x"
  by (simp_all add: mk_def put_platoon_def put_users_def)

lemma mk_inject [simp]:
  "mk ls s P h x = mk ls' s' P' h' x' \<longleftrightarrow> ls = ls' \<and> s = s' \<and> P = P' \<and> h = h' \<and> x = x'"
  by (auto simp: mk_def)

lemma world_mk: "w = mk (wd_locals w) (wd_sked w) (platoon_of w) (users_of w) (fm_os (wd_x w))"
  by (simp add: mk_def)

lemma mk_cases: obtains ls s P h x where "w = mk ls s P h x"
  using world_mk by blast

subsection \<open>The event queue of the program\<close>

text \<open>
  What is assumed of the system: \<open>realloc\<close> succeeds and keeps the old records, the clock stays in a
  window, taking a descriptor out of the poller does not crash, and \<open>new\<close> returns an address not in use.
\<close>

definition sys_ok :: "('w::len, 'o) system \<Rightarrow> 'w clock \<Rightarrow> bool" where
  "sys_ok S b =
     (realloc_ok (sked_realloc S) \<and> (\<forall>n xs. sked_realloc S n xs \<noteq> None) \<and>
      (\<forall>x. in_window b (case os_gettimeofday S x of ((s, u), x') \<Rightarrow> eclock s u)) \<and>
      (\<forall>fd x. po_del S fd x \<noteq> None) \<and> (\<forall>h. finite (dom h) \<longrightarrow> h (fst (new_user S h)) = None))"

definition clients_of :: "(nat \<Rightarrow> 'w::len robouser option) \<Rightarrow> client set" where
  "clients_of h = {CPlatoon} \<union> CRobo ` dom h \<union> CPipe ` dom h"

definition few :: "(nat \<Rightarrow> 'w::len robouser option) \<Rightarrow> bool" where
  "few h = (finite (dom h) \<and> card (dom h) \<le> Platoon_MAXUSERS)"

text \<open>Only the platoon, live users and their connections are queued; the queue never grows past \<open>2^19\<close> records.\<close>

definition queue_ok :: "'w::len clock \<Rightarrow> (client, 'w) sked \<Rightarrow> (nat \<Rightarrow> 'w robouser option) \<Rightarrow> bool" where
  "queue_ok b s h = (sked_inv b s \<and> m_allocated s \<le> 2 ^ 19 \<and> dom (schedule s) \<subseteq> clients_of h \<and> few h)"

lemma queue_used: "queue_ok b s h \<Longrightarrow> m_used s \<le> 2 ^ 17 + 1"
proof -
  assume q: "queue_ok b s h"
  have fin: "finite (dom h)" "card (dom h) \<le> 2 ^ 16" using q by (simp_all add: queue_ok_def few_def Platoon_MAXUSERS_def)
  have "card (clients_of h) \<le> 1 + card (dom h) + card (dom h)"
    unfolding clients_of_def
    by (rule order_trans[OF card_Un_le] add_mono order_trans[OF card_Un_le] card_image_le fin | simp)+
  also have "\<dots> \<le> 2 ^ 17 + 1" using fin(2) by simp
  finally have "card (clients_of h) \<le> 2 ^ 17 + 1" .
  moreover have "card (dom (schedule s)) \<le> card (clients_of h)"
    using q fin(1) by (intro card_mono) (auto simp: queue_ok_def clients_of_def)
  moreover have "card (dom (schedule s)) = m_used s" using q by (intro card_schedule) (simp add: queue_ok_def sked_inv_def)
  ultimately show ?thesis by simp
qed

lemma base_calls_simps [simp]: "this (base_calls S c) = c" "sked_realloc (base_calls S c) = sked_realloc S"
  by (simp_all add: base_calls_def)

lemma queue_add:
  assumes sys: "sys_ok S b" and q: "queue_ok b s h" and c: "c \<in> clients_of h" "schedule s c = None" and t: "in_window b t"
  shows "\<exists>s'. sched_at (base_calls S c) t (mk ls s P h x) = Some (mk ls s' P h x) \<and> queue_ok b s' h \<and>
              schedule s' = (schedule s)(c \<mapsto> t)"
proof -
  have used: "m_used s \<le> 2 ^ 17 + 1" using queue_used[OF q] .
  have "room (sked_realloc S) s" using used sys by (simp add: room_def sys_ok_def)
  then obtain s' where s': "addClient (sked_realloc S) s c t = Some (OK, s')" "sked_inv b s'" "schedule s' = (schedule s)(c \<mapsto> t)"
    using addClient_lemma[of b s "sked_realloc S" c t] sys q c(2) t by (auto simp: sys_ok_def queue_ok_def)
  have "m_allocated s' \<le> 2 ^ 19"
    using addClient_allocated[OF s'(1)] used q by (simp add: queue_ok_def)
  then have "queue_ok b s' h" using s'(2,3) q c(1) by (auto simp: queue_ok_def)
  with s'(1,3) show ?thesis by (simp add: sched_at_def)
qed

lemma queue_del:
  assumes q: "queue_ok b s h"
  shows "\<exists>s'. unsched (base_calls S c) (mk ls s P h x) = Some (mk ls s' P h x) \<and> queue_ok b s' h \<and>
              schedule s' = (schedule s)(c := None)"
proof (cases "schedule s c = None")
  case True
  then have "skedIndex s c = 0" by (auto simp: schedule_def split: if_splits)
  with True q show ?thesis by (simp add: unsched_def delClient_def fun_upd_idem)
next
  case False
  then obtain s' where "delClient s c = Some (OK, s')" "removed b c s s'"
    using delClient_lemma[of b s c] q by (auto simp: queue_ok_def)
  with q show ?thesis by (auto simp: unsched_def removed_def queue_ok_def)
qed

lemma clock_read:
  assumes "sys_ok S b"
  shows "\<exists>now x'. read_eclock (base_calls S c) (mk ls s P h x) = (now, mk ls s P h x') \<and> in_window b now"
proof -
  obtain t u x' where g: "os_gettimeofday S x = ((t, u), x')" by (metis surj_pair)
  have "in_window b (case os_gettimeofday S x of ((s, u), x') \<Rightarrow> eclock s u)" using assms by (simp add: sys_ok_def)
  then have "in_window b (eclock t u :: 'a clock)" by (simp add: g)
  then show ?thesis by (simp add: read_eclock_def on_x_def base_calls_def on_os_def g mk_def)
qed

lemma platoon_wakeUp_lemma:
  assumes sys: "sys_ok S b" and q: "queue_ok b s h"
  shows "\<exists>s' x' now. platoon_wakeUp S (mk ls s P h x) = Some (mk ls s' P h x') \<and> queue_ok b s' h \<and>
              schedule s' = (schedule s)(CPlatoon \<mapsto> now)"
proof -
  obtain s1 where s1: "unsched (base_calls S CPlatoon) (mk ls s P h x) = Some (mk ls s1 P h x)" "queue_ok b s1 h"
    "schedule s1 = (schedule s)(CPlatoon := None)" using queue_del[OF q, of S CPlatoon ls P x] by blast
  obtain now x' where r: "read_eclock (base_calls S CPlatoon) (mk ls s1 P h x) = (now, mk ls s1 P h x')" "in_window b now"
    using clock_read[OF sys, of CPlatoon ls s1 P h x] by blast
  obtain s2 where s2: "sched_at (base_calls S CPlatoon) now (mk ls s1 P h x') = Some (mk ls s2 P h x')" "queue_ok b s2 h"
    "schedule s2 = (schedule s1)(CPlatoon \<mapsto> now)"
    using queue_add[OF sys s1(2) _ _ r(2), of CPlatoon ls P x'] s1(3) by (auto simp: clients_of_def)
  show ?thesis using s1 r(1) s2 by (auto simp: platoon_wakeUp_def)
qed

subsection \<open>Users and counts\<close>

definition in_state :: "(nat \<Rightarrow> 'w::len robouser option) \<Rightarrow> state_t \<Rightarrow> nat set" where
  "in_state h st = {r. \<exists>u. h r = Some u \<and> ru_state u = st}"

text \<open>The table of users and the heap agree.\<close>

definition table_ok :: "nat option list \<Rightarrow> (nat \<Rightarrow> 'w::len robouser option) \<Rightarrow> bool" where
  "table_ok us h =
     (length us = Platoon_MAXUSERS \<and> finite (dom h) \<and>
      (\<forall>r u. h r = Some u \<longrightarrow> ru_user u < Platoon_MAXUSERS \<and> us ! ru_user u = Some r) \<and>
      (\<forall>i < Platoon_MAXUSERS. \<forall>r. us ! i = Some r \<longrightarrow> (\<exists>u. h r = Some u \<and> ru_user u = i)))"

text \<open>
  The counts are those of the users in the heap, except that a stopped user stays counted after it is
  reaped; the list of the dead holds the stopped users of the heap, each once.
\<close>

definition counts_ok :: "int list \<Rightarrow> (nat \<Rightarrow> 'w::len robouser option) \<Rightarrow> bool" where
  "counts_ok n h =
     (length n = NUMSTATES \<and> in_state h UNINIT = {} \<and>
      (\<forall>st. st \<noteq> UNINIT \<and> st \<noteq> STOPPED \<longrightarrow> n ! state_no st = int (card (in_state h st))) \<and>
      int (card (in_state h STOPPED)) \<le> n ! state_no STOPPED)"

definition farm_inv :: "'w::len platoon \<Rightarrow> (nat \<Rightarrow> 'w robouser option) \<Rightarrow> bool" where
  "farm_inv P h =
     (table_ok (pl_users P) h \<and> counts_ok (pl_nInState P) h \<and>
      distinct (pl_deadlist P) \<and> set (pl_deadlist P) = in_state h STOPPED \<and>
      (pl_local_addrs P \<longrightarrow> pl_n_local_addrs P \<noteq> 0))"

text \<open>A connection that is queued has an open descriptor, so that \<open>shutdown\<close> takes it out of the queue.\<close>

definition pipes_ok :: "(client, 'w::len) sked \<Rightarrow> (nat \<Rightarrow> 'w robouser option) \<Rightarrow> bool" where
  "pipes_ok s h = (\<forall>r u. h r = Some u \<and> schedule s (CPipe r) \<noteq> None \<longrightarrow> ip_cfd (ru_fcp u) \<noteq> -1 \<or> ip_dfd (ru_fcp u) \<noteq> -1)"

definition farm_ok :: "'w::len clock \<Rightarrow> ('w, 'o) farm_world \<Rightarrow> bool" where
  "farm_ok b w = (farm_inv (platoon_of w) (users_of w) \<and> queue_ok b (wd_sked w) (users_of w) \<and> pipes_ok (wd_sked w) (users_of w))"

lemma farm_ok_mk [simp]: "farm_ok b (mk ls s P h x) = (farm_inv P h \<and> queue_ok b s h \<and> pipes_ok s h)"
  by (simp add: farm_ok_def)

lemma state_no_less: "state_no st < NUMSTATES"
  by (cases st) (simp_all add: NUMSTATES_def)

lemma state_no_inject [simp]: "state_no a = state_no b \<longleftrightarrow> a = b"
  by (cases a; cases b) simp_all

definition count_move :: "state_t \<Rightarrow> state_t \<Rightarrow> int list \<Rightarrow> int list" where
  "count_move old new n =
     (let n1 = (if old \<noteq> UNINIT then n[state_no old := n ! state_no old - 1] else n)
      in n1[state_no new := n1 ! state_no new + 1])"

lemma countStateChange_lemma:
  assumes sys: "sys_ok S b" and q: "queue_ok b s h" and len: "length (pl_nInState P) = NUMSTATES" and new: "new \<noteq> UNINIT"
  shows "\<exists>s' x' now. countStateChange S old new (mk ls s P h x) =
           Some (mk ls s' (P\<lparr>pl_nInState := count_move old new (pl_nInState P)\<rparr>) h x') \<and> queue_ok b s' h \<and>
           schedule s' = (schedule s)(CPlatoon \<mapsto> now)"
proof -
  obtain s' x' now where w: "platoon_wakeUp S (mk ls s (P\<lparr>pl_nInState := count_move old new (pl_nInState P)\<rparr>) h x) =
      Some (mk ls s' (P\<lparr>pl_nInState := count_move old new (pl_nInState P)\<rparr>) h x')" "queue_ok b s' h"
    "schedule s' = (schedule s)(CPlatoon \<mapsto> now)"
    using platoon_wakeUp_lemma[OF sys q] by blast
  have "state_no old < length (pl_nInState P)" "state_no new < length (pl_nInState P)" using len state_no_less by simp_all
  then have "countStateChange S old new (mk ls s P h x) =
      platoon_wakeUp S (mk ls s (P\<lparr>pl_nInState := count_move old new (pl_nInState P)\<rparr>) h x)"
    using new by (cases "old = UNINIT") (simp_all add: countStateChange_def count_move_def Let_def)
  with w show ?thesis by auto
qed

lemma gotoState_lemma:
  assumes sys: "sys_ok S b" and q: "queue_ok b s h" and len: "length (pl_nInState P) = NUMSTATES" and new: "new \<noteq> UNINIT"
    and u: "h r = Some u"
  shows "\<exists>s' x' now. gotoState S r new (mk ls s P h x) =
           Some (mk ls s' (P\<lparr>pl_nInState := count_move (ru_state u) new (pl_nInState P)\<rparr>) (h(r \<mapsto> u\<lparr>ru_state := new\<rparr>)) x') \<and>
           queue_ok b s' (h(r \<mapsto> u\<lparr>ru_state := new\<rparr>)) \<and> schedule s' = (schedule s)(CPlatoon \<mapsto> now)"
proof -
  obtain s' x' now where c: "countStateChange S (ru_state u) new (mk ls s P h x) =
      Some (mk ls s' (P\<lparr>pl_nInState := count_move (ru_state u) new (pl_nInState P)\<rparr>) h x')" "queue_ok b s' h"
    "schedule s' = (schedule s)(CPlatoon \<mapsto> now)"
    using countStateChange_lemma[OF sys q len new, of "ru_state u" ls x] by blast
  have "dom (h(r \<mapsto> u\<lparr>ru_state := new\<rparr>)) = dom h" using u by auto
  then have "queue_ok b s' (h(r \<mapsto> u\<lparr>ru_state := new\<rparr>))" using c(2) by (simp add: queue_ok_def clients_of_def few_def)
  with c u show ?thesis by (auto simp: gotoState_def)
qed

text \<open>Changing a user in the heap, and its effect on the sets of users by state.\<close>

lemma in_state_upd: "in_state (h(r \<mapsto> u)) st = (if ru_state u = st then insert r (in_state h st) else in_state h st - {r})"
  by (auto simp: in_state_def)

lemma in_state_dom: "in_state h st \<subseteq> dom h"
  by (auto simp: in_state_def)

lemma counts_ok_move:
  assumes ok: "counts_ok n h" and fin: "finite (dom h)" and u: "h r = Some u" and new: "new \<noteq> UNINIT"
    and live: "ru_state u \<noteq> STOPPED" and v: "ru_state v = new"
  shows "counts_ok (count_move (ru_state u) new n) (h(r \<mapsto> v))"
proof -
  let ?old = "ru_state u"
  have fs: "finite (in_state h st)" for st using finite_subset[OF in_state_dom fin] .
  have old: "?old \<noteq> UNINIT" "r \<in> in_state h ?old" using ok u by (auto simp: counts_ok_def in_state_def)
  have other: "r \<notin> in_state h st" if "st \<noteq> ?old" for st using u that by (auto simp: in_state_def)
  have less: "state_no st < length n" for st using ok state_no_less by (simp add: counts_ok_def)
  have card_old: "int (card (in_state h ?old - {r})) = int (card (in_state h ?old)) - 1"
    using fs old(2) by (simp add: card_Diff_singleton) (metis One_nat_def Suc_leI card_gt_0_iff empty_iff of_nat_diff of_nat_1)
  have nth: "count_move ?old new n ! state_no st =
      n ! state_no st - (if st = ?old then 1 else 0) + (if st = new then 1 else 0)" for st
    using less[of ?old] less[of new] old(1) by (auto simp: count_move_def Let_def nth_list_update)
  have card: "int (card (in_state (h(r \<mapsto> v)) st)) =
      int (card (in_state h st)) - (if st = ?old then 1 else 0) + (if st = new then 1 else 0)" for st
    using card_old other[of st] fs[of st] old(2) v by (auto simp: in_state_upd insert_absorb)
  have "in_state (h(r \<mapsto> v)) UNINIT = {}" using ok v new by (auto simp: in_state_upd counts_ok_def)
  moreover have "length (count_move ?old new n) = length n" by (simp add: count_move_def Let_def)
  ultimately show ?thesis using ok nth card live unfolding counts_ok_def by (simp del: state_no.simps)
qed

lemma table_few: "table_ok us h \<Longrightarrow> few h"
proof -
  assume t: "table_ok us h"
  let ?f = "\<lambda>r. ru_user (the (h r))"
  have "inj_on ?f (dom h)" using t by (intro inj_onI) (auto simp: table_ok_def, metis option.inject)
  moreover have "?f ` dom h \<subseteq> {..<Platoon_MAXUSERS}" using t by (auto simp: table_ok_def)
  ultimately have "card (dom h) \<le> card {..<Platoon_MAXUSERS}" by (intro card_inj_on_le) simp_all
  then show "few h" using t by (simp add: few_def table_ok_def)
qed

lemma counts_ok_new:
  assumes ok: "counts_ok n h" and fin: "finite (dom h)" and free: "h r = None" and new: "ru_state v \<noteq> UNINIT" "ru_state v \<noteq> STOPPED"
  shows "counts_ok (count_move UNINIT (ru_state v) n) (h(r \<mapsto> v))"
proof -
  have fs: "finite (in_state h st)" for st using finite_subset[OF in_state_dom fin] .
  have out: "r \<notin> in_state h st" for st using free by (simp add: in_state_def)
  have nth: "count_move UNINIT (ru_state v) n ! state_no st = n ! state_no st + (if st = ru_state v then 1 else 0)" for st
    using ok state_no_less[of "ru_state v"] by (auto simp: count_move_def Let_def nth_list_update counts_ok_def)
  have card: "int (card (in_state (h(r \<mapsto> v)) st)) = int (card (in_state h st)) + (if st = ru_state v then 1 else 0)" for st
    using fs out by (simp add: in_state_upd)
  have "in_state (h(r \<mapsto> v)) UNINIT = {}" using ok new by (auto simp: in_state_upd counts_ok_def)
  moreover have "length (count_move UNINIT (ru_state v) n) = length n" by (simp add: count_move_def Let_def)
  ultimately show ?thesis using ok nth card new unfolding counts_ok_def by (simp del: state_no.simps)
qed

lemma table_ok_new:
  assumes t: "table_ok us h" and i: "i < Platoon_MAXUSERS" "us ! i = None" and r: "h r = None" and v: "ru_user v = i"
  shows "table_ok (us[i := Some r]) (h(r \<mapsto> v))"
  using assms by (auto simp: table_ok_def nth_list_update)

text \<open>The number of users that are alive.\<close>

definition alive :: "(nat \<Rightarrow> 'w::len robouser option) \<Rightarrow> nat set" where
  "alive h = dom h - in_state h STOPPED"

lemma alive_count:
  assumes ok: "counts_ok (pl_nInState P) h" and fin: "finite (dom h)"
  shows "sumInState P CONNECT GETTING_FILE = int (card (alive h))"
proof -
  let ?A = "{CONNECT, CONNECTING, START_TYPE, FINISH_TYPE, GET, GETTING_FILE}"
  have fs: "finite (in_state h st)" for st using finite_subset[OF in_state_dom fin] .
  have "alive h = (\<Union>st \<in> ?A. in_state h st)"
  proof (intro set_eqI iffI)
    fix r assume "r \<in> alive h"
    then obtain u where u: "h r = Some u" "ru_state u \<noteq> STOPPED" by (auto simp: alive_def in_state_def)
    moreover have "ru_state u \<noteq> UNINIT" using ok u(1) by (auto simp: counts_ok_def in_state_def)
    ultimately show "r \<in> (\<Union>st \<in> ?A. in_state h st)" by (cases "ru_state u") (auto simp: in_state_def)
  qed (auto simp: alive_def in_state_def)
  then have "card (alive h) = (\<Sum>st \<in> ?A. card (in_state h st))"
    using fs by (simp only:) (rule card_UN_disjoint, auto simp: in_state_def)
  moreover have "(\<Sum>st \<in> ?A. int (card (in_state h st))) = (\<Sum>st \<in> ?A. pl_nInState P ! state_no st)"
    using ok by (intro sum.cong) (auto simp: counts_ok_def)
  then have "sumInState P CONNECT GETTING_FILE = (\<Sum>st \<in> ?A. int (card (in_state h st)))"
    by (simp add: sumInState_def upt_rec eval_nat_numeral)
  ultimately show ?thesis by simp
qed

subsection \<open>Starting users\<close>

lemma find_slot_Some:
  "length us = Platoon_MAXUSERS \<Longrightarrow> 0 \<le> i \<Longrightarrow> i \<le> int Platoon_MAXUSERS \<Longrightarrow>
   (\<exists>j. find_slot us k i = Some (Some j) \<and> j < Platoon_MAXUSERS \<and> us ! j = None) \<or>
   find_slot us k i = Some None \<and> (\<forall>t < k. us ! ((nat i + t) mod Platoon_MAXUSERS) \<noteq> None)"
proof (induction us k i rule: find_slot.induct)
  case (1 us i)
  then show ?case by simp
next
  case (2 us k i)
  let ?M = "Platoon_MAXUSERS"
  define j where "j = (if i = int ?M then 0 else i)"
  have j: "0 \<le> j" "j < int ?M" "nat i mod ?M = nat j"
    using "2.prems" by (auto simp: j_def Platoon_MAXUSERS_def nat_mod_distrib[symmetric] nat_less_iff)
  have rd: "rdi us j = Some (us ! nat j)" using j "2.prems"(1) by (intro rdi_Some) auto
  have step: "find_slot us (Suc k) i = (if us ! nat j = None then Some (Some (nat j)) else find_slot us k (j + 1))"
    using rd by (simp add: j_def Let_def)
  show ?case
  proof (cases "us ! nat j = None")
    case True
    with j step show ?thesis by auto
  next
    case False
    have ih: "(\<exists>l. find_slot us k (j + 1) = Some (Some l) \<and> l < ?M \<and> us ! l = None) \<or>
        find_slot us k (j + 1) = Some None \<and> (\<forall>t < k. us ! ((nat (j + 1) + t) mod ?M) \<noteq> None)"
      using "2.IH"[OF j_def rd False "2.prems"(1)] j by simp
    have "us ! ((nat i + t) mod ?M) \<noteq> None" if "\<forall>t < k. us ! ((nat (j + 1) + t) mod ?M) \<noteq> None" "t < Suc k" for t
    proof (cases t)
      case 0
      with j False show ?thesis by simp
    next
      case (Suc t')
      have "(nat i + t) mod ?M = (nat j + t) mod ?M" using j(3) by (metis mod_add_left_eq)
      also have "nat j + t = nat (j + 1) + t'" using j(1) Suc by simp
      finally show ?thesis using that Suc by simp
    qed
    with ih step False show ?thesis by auto
  qed
qed

lemma find_slot_none:
  assumes len: "length us = Platoon_MAXUSERS" and i: "0 \<le> i" "i \<le> int Platoon_MAXUSERS"
    and f: "find_slot us Platoon_MAXUSERS i = Some None"
  shows "\<forall>j < Platoon_MAXUSERS. us ! j \<noteq> None"
proof (intro allI impI)
  let ?M = "Platoon_MAXUSERS"
  fix j assume j: "j < ?M"
  have all: "\<forall>t < ?M. us ! ((nat i + t) mod ?M) \<noteq> None" using find_slot_Some[OF len i, of ?M] f by auto
  have "\<exists>t < ?M. (nat i + t) mod ?M = j"
  proof (cases "nat i \<le> j")
    case True
    with j show ?thesis by (intro exI[of _ "j - nat i"]) simp
  next
    case False
    with i j have "(nat i + (j + ?M - nat i)) mod ?M = j" "j + ?M - nat i < ?M" by auto
    then show ?thesis by blast
  qed
  with all show "us ! j \<noteq> None" by metis
qed

lemma queue_ok_more: "queue_ok b s h \<Longrightarrow> few (h(r \<mapsto> v)) \<Longrightarrow> queue_ok b s (h(r \<mapsto> v))"
  by (auto simp: queue_ok_def clients_of_def)

lemma not_queued: "queue_ok b s h \<Longrightarrow> h r = None \<Longrightarrow> schedule s (CRobo r) = None \<and> schedule s (CPipe r) = None"
  by (auto simp: queue_ok_def clients_of_def)

lemma queue_fresh: "schedule s c = None \<Longrightarrow> skedIndex s c = 0"
  by (simp add: schedule_def split: if_splits)

lemma new_robouser_lemma:
  assumes sys: "sys_ok S b" and q: "queue_ok b s h"
  shows "\<exists>r mem. new_robouser S (mk ls s P h x) = (r, mk ls s P (h(r \<mapsto> mem\<lparr>ru_state := UNINIT\<rparr>)) x) \<and> h r = None"
proof -
  obtain r mem where n: "new_user S h = (r, mem)" by fastforce
  have "finite (dom h)" using q by (simp add: queue_ok_def few_def)
  then have "h (fst (new_user S h)) = None" using sys by (simp add: sys_ok_def)
  then have r: "h r = None" using n by simp
  have "skedIndex s (CRobo r) = 0" "skedIndex s (CPipe r) = 0" using not_queued[OF q r] by (simp_all add: queue_fresh)
  then have "(skedIndex s)(CRobo r := 0, CPipe r := 0) = skedIndex s" by (simp add: fun_upd_idem)
  with n r show ?thesis by (intro exI[of _ r] exI[of _ mem]) (simp add: new_robouser_def)
qed

lemma start_lemma:
  assumes sys: "sys_ok S b" and q: "queue_ok b s h" and u: "h r = Some u" "ru_state u = UNINIT" and len: "length (pl_nInState P) = NUMSTATES"
    and loc: "pl_local_addrs P \<longrightarrow> pl_n_local_addrs P \<noteq> 0" and free: "schedule s (CRobo r) = None"
  shows "\<exists>s' x' v now now'. start S r i (mk ls s P h x) =
           Some (OK, mk ls s' (P\<lparr>pl_nInState := count_move UNINIT CONNECT (pl_nInState P)\<rparr>) (h(r \<mapsto> v)) x') \<and>
           ru_user v = i \<and> ru_state v = CONNECT \<and> queue_ok b s' (h(r \<mapsto> v)) \<and>
           schedule s' = (schedule s)(CRobo r \<mapsto> now, CPlatoon \<mapsto> now')"
proof -
  let ?loc = "if pl_local_addrs P then Some (i mod pl_n_local_addrs P) else None"
  let ?u = "u\<lparr>ru_user := i, ru_fcp := ip_init (pl_maxBytesPerSec P) ?loc (ru_fcp u), ru_startedAt := 0, ru_bytesFetched := 0, ru_reads := 0\<rparr>"
  let ?h = "h(r \<mapsto> ?u)"
  have dom: "dom ?h = dom h" using u(1) by auto
  then have q1: "queue_ok b s ?h" using q by (simp add: queue_ok_def clients_of_def few_def)
  obtain now x1 where c: "read_eclock (base_calls S (CRobo r)) (mk ls s P ?h x) = (now, mk ls s P ?h x1)" "in_window b now"
    using clock_read[OF sys, of "CRobo r" ls s P ?h x] by blast
  have "CRobo r \<in> clients_of ?h" by (simp add: clients_of_def)
  then obtain s1 where a: "sched_at (base_calls S (CRobo r)) now (mk ls s P ?h x1) = Some (mk ls s1 P ?h x1)" "queue_ok b s1 ?h"
    "schedule s1 = (schedule s)(CRobo r \<mapsto> now)"
    using queue_add[OF sys q1 _ free c(2), of ls P x1] by blast
  have ur: "?h r = Some ?u" by simp
  obtain s2 x2 now' where g: "gotoState S r CONNECT (mk ls s1 P ?h x1) =
      Some (mk ls s2 (P\<lparr>pl_nInState := count_move (ru_state ?u) CONNECT (pl_nInState P)\<rparr>) (?h(r \<mapsto> ?u\<lparr>ru_state := CONNECT\<rparr>)) x2)"
    "queue_ok b s2 (?h(r \<mapsto> ?u\<lparr>ru_state := CONNECT\<rparr>))" "schedule s2 = (schedule s1)(CPlatoon \<mapsto> now')"
    using gotoState_lemma[OF sys a(2) len state_t.distinct(1)[symmetric] ur, of ls x1] by blast
  have hh: "?h(r \<mapsto> ?u\<lparr>ru_state := CONNECT\<rparr>) = h(r \<mapsto> ?u\<lparr>ru_state := CONNECT\<rparr>)" by simp
  have "start S r i (mk ls s P h x) =
      Some (OK, mk ls s2 (P\<lparr>pl_nInState := count_move UNINIT CONNECT (pl_nInState P)\<rparr>) (h(r \<mapsto> ?u\<lparr>ru_state := CONNECT\<rparr>)) x2)"
    using u loc c(1) a(1) g(1) unfolding hh by (cases "pl_local_addrs P") (simp_all add: start_def Let_def)
  with g(2,3) a(3) show ?thesis unfolding hh
    by (intro exI[of _ s2] exI[of _ x2] exI[of _ "?u\<lparr>ru_state := CONNECT\<rparr>"] exI[of _ now] exI[of _ now']) simp
qed

text \<open>The new user: in an empty slot, connecting, queued for now; everything else as it was.\<close>

definition user_added :: "('w::len, 'o) farm_world \<Rightarrow> ('w, 'o) farm_world \<Rightarrow> bool" where
  "user_added w w' =
     (\<exists>r v i now now'. users_of w r = None \<and> users_of w' = (users_of w)(r \<mapsto> v) \<and> ru_state v = CONNECT \<and> ru_user v = i \<and>
        pl_users (platoon_of w) ! i = None \<and> pl_users (platoon_of w') = (pl_users (platoon_of w))[i := Some r] \<and>
        timers w' = (timers w)(CRobo r \<mapsto> now, CPlatoon \<mapsto> now') \<and>
        pl_nInState (platoon_of w') ! state_no STOPPED = pl_nInState (platoon_of w) ! state_no STOPPED \<and>
        pl_nuserTarget (platoon_of w') = pl_nuserTarget (platoon_of w) \<and>
        pl_nconnectingTarget (platoon_of w') = pl_nconnectingTarget (platoon_of w) \<and>
        pl_lastConnectingState (platoon_of w') = pl_lastConnectingState (platoon_of w))"

definition full_table :: "'w::len platoon \<Rightarrow> bool" where
  "full_table P = (\<forall>i < Platoon_MAXUSERS. pl_users P ! i \<noteq> None)"

lemma startUser_lemma:
  assumes sys: "sys_ok S b" and ok: "farm_ok b w"
  shows "startUser S w = Some (Fail EALREADY, w) \<and> full_table (platoon_of w) \<or>
         (\<exists>w'. startUser S w = Some (OK, w') \<and> farm_ok b w' \<and> user_added w w')"
proof -
  obtain ls s P h x where w: "w = mk ls s P h x" by (rule mk_cases)
  have inv: "farm_inv P h" "queue_ok b s h" "pipes_ok s h" using ok by (simp_all add: w)
  have tab: "table_ok (pl_users P) h" "length (pl_users P) = Platoon_MAXUSERS" and cnt: "counts_ok (pl_nInState P) h" "length (pl_nInState P) = NUMSTATES"
    using inv(1) by (simp_all add: farm_inv_def table_ok_def counts_ok_def)
  have fin: "finite (dom h)" using tab(1) by (simp add: table_ok_def)
  have "card (alive h) \<le> card (dom h)" using fin by (intro card_mono) (auto simp: alive_def)
  then have i0: "0 \<le> sumInState P CONNECT GETTING_FILE" "sumInState P CONNECT GETTING_FILE \<le> int Platoon_MAXUSERS"
    using alive_count[OF cnt(1) fin] table_few[OF tab(1)] by (simp_all add: few_def)
  show ?thesis
  proof (cases "find_slot (pl_users P) Platoon_MAXUSERS (sumInState P CONNECT GETTING_FILE) = Some None")
    case True
    then have "full_table P" using find_slot_none[OF tab(2) i0] by (simp add: full_table_def)
    with True show ?thesis by (simp add: startUser_def w)
  next
    case False
    then obtain i where i: "find_slot (pl_users P) Platoon_MAXUSERS (sumInState P CONNECT GETTING_FILE) = Some (Some i)"
      "i < Platoon_MAXUSERS" "pl_users P ! i = None"
      using find_slot_Some[OF tab(2) i0, of Platoon_MAXUSERS] by blast
    obtain r mem where n: "new_robouser S (mk ls s P h x) = (r, mk ls s P (h(r \<mapsto> mem\<lparr>ru_state := UNINIT\<rparr>)) x)" "h r = None"
      using new_robouser_lemma[OF sys inv(2)] by blast
    let ?P = "P\<lparr>pl_users := (pl_users P)[i := Some r]\<rparr>" and ?h = "h(r \<mapsto> mem\<lparr>ru_state := UNINIT\<rparr>)"
    have few: "few (h(r \<mapsto> v))" if "ru_user v = i" for v using table_few[OF table_ok_new[OF tab(1) i(2,3) n(2) that]] .
    have "dom ?h = dom (h(r \<mapsto> v))" for v by auto
    then have "few ?h" using few[of "undefined\<lparr>ru_user := i\<rparr>"] by (simp add: few_def)
    then have q: "queue_ok b s ?h" using queue_ok_more[OF inv(2)] by simp
    have pre: "?h r = Some (mem\<lparr>ru_state := UNINIT\<rparr>)" "ru_state (mem\<lparr>ru_state := UNINIT\<rparr>) = UNINIT"
      "length (pl_nInState ?P) = NUMSTATES" "pl_local_addrs ?P \<longrightarrow> pl_n_local_addrs ?P \<noteq> 0"
      using cnt(2) inv(1) by (simp_all add: farm_inv_def)
    obtain s' x' v now now' where st: "start S r i (mk ls s ?P ?h x) =
        Some (OK, mk ls s' (?P\<lparr>pl_nInState := count_move UNINIT CONNECT (pl_nInState ?P)\<rparr>) (?h(r \<mapsto> v)) x')"
      "ru_user v = i" "ru_state v = CONNECT" "queue_ok b s' (?h(r \<mapsto> v))" "schedule s' = (schedule s)(CRobo r \<mapsto> now, CPlatoon \<mapsto> now')"
      using start_lemma[OF sys q pre not_queued[OF inv(2) n(2), THEN conjunct1], of i ls x] by blast
    let ?P' = "?P\<lparr>pl_nInState := count_move UNINIT CONNECT (pl_nInState P)\<rparr>" and ?h' = "h(r \<mapsto> v)"
    have hh: "?h(r \<mapsto> v) = ?h'" by simp
    have res: "startUser S w = Some (OK, mk ls s' ?P' ?h' x')"
      using i n st(1) tab(2) unfolding hh by (simp add: startUser_def w)
    have c': "counts_ok (count_move UNINIT CONNECT (pl_nInState P)) ?h'"
      using counts_ok_new[OF cnt(1) fin n(2), of v] st(3) by simp
    have "r \<notin> in_state h STOPPED" using n(2) by (simp add: in_state_def)
    then have "in_state ?h' STOPPED = in_state h STOPPED" using st(3) by (simp add: in_state_upd)
    then have "farm_inv ?P' ?h'" using inv(1) c' table_ok_new[OF tab(1) i(2,3) n(2) st(2)] by (simp add: farm_inv_def)
    moreover have "pipes_ok s' ?h'" using inv(3) st(5) not_queued[OF inv(2) n(2)] by (auto simp: pipes_ok_def)
    moreover have "queue_ok b s' ?h'" using st(4) unfolding hh .
    moreover have "user_added w (mk ls s' ?P' ?h' x')"
      unfolding user_added_def w
      by (rule exI[of _ r], rule exI[of _ v], rule exI[of _ i], rule exI[of _ now], rule exI[of _ now'])
        (use n(2) st(2,3,5) i(3) cnt(2) in \<open>simp add: count_move_def NUMSTATES_def Let_def\<close>)
    ultimately show ?thesis using res by auto
  qed
qed

lemma farm_ok_counts: "farm_ok b w \<Longrightarrow> counts_ok (pl_nInState (platoon_of w)) (users_of w) \<and> finite (dom (users_of w))"
  by (simp add: farm_ok_def farm_inv_def table_ok_def)

definition connecting :: "state_t \<Rightarrow> (nat \<Rightarrow> 'w::len robouser option) \<Rightarrow> nat set" where
  "connecting l h = {r. \<exists>u. h r = Some u \<and> ru_state u \<noteq> UNINIT \<and> state_no (ru_state u) \<le> state_no l}"

lemma connecting_count:
  assumes cnt: "counts_ok (pl_nInState P) h" and fin: "finite (dom h)" and none: "sumInState P STOPPED STOPPED = 0"
  shows "sumInState P CONNECT l = int (card (connecting l h))"
proof -
  have fs: "finite (in_state h st)" for st using fin finite_subset[OF in_state_dom] by auto
  have "card (in_state h STOPPED) = 0" using cnt none by (simp add: counts_ok_def sumInState_def)
  then have st: "pl_nInState P ! state_no st = int (card (in_state h st))" if "st \<noteq> UNINIT" for st
    using cnt none that by (cases "st = STOPPED") (simp_all add: counts_ok_def sumInState_def)
  have dis: "in_state h s1 \<inter> in_state h s2 = {}" if "s1 \<noteq> s2" for s1 s2 using that by (auto simp: in_state_def)
  define A where "A = filter (\<lambda>s. s \<noteq> UNINIT \<and> state_no s \<le> state_no l) states"
  have A: "s \<in> set A \<longleftrightarrow> s \<noteq> UNINIT \<and> state_no s \<le> state_no l" for s
    by (cases s) (simp_all add: A_def states_def)
  have "connecting l h = (\<Union>s \<in> set A. in_state h s)"
    unfolding connecting_def in_state_def using A by blast
  moreover have "card (\<Union>s \<in> set A. in_state h s) = (\<Sum>s \<in> set A. card (in_state h s))"
    using fs dis by (intro card_UN_disjoint) auto
  moreover have "distinct A" by (simp add: A_def states_def)
  moreover have "sumInState P CONNECT l = sum_list (map (\<lambda>s. pl_nInState P ! state_no s) A)"
  proof -
    have "[state_no CONNECT..<state_no l + 1] = map state_no A" by (cases l) (simp_all add: A_def states_def upt_rec)
    then show ?thesis by (simp add: sumInState_def comp_def)
  qed
  moreover have "map (\<lambda>s. pl_nInState P ! state_no s) A = map (\<lambda>s. int (card (in_state h s))) A"
    using st A by (intro map_cong) auto
  moreover have "sum_list (map (\<lambda>s. int (card (in_state h s))) A) = (\<Sum>s \<in> set A. int (card (in_state h s)))"
    using \<open>distinct A\<close> by (rule sum_list_distinct_conv_sum_set)
  ultimately show ?thesis by simp
qed

lemma full_table_card:
  assumes t: "table_ok (pl_users P) h" and full: "full_table P"
  shows "card (dom h) = Platoon_MAXUSERS"
proof -
  let ?f = "\<lambda>i. the (pl_users P ! i)"
  have s: "\<exists>u. h (?f i) = Some u \<and> ru_user u = i" if i: "i < Platoon_MAXUSERS" for i
  proof -
    obtain r where "pl_users P ! i = Some r" using full i by (auto simp: full_table_def)
    then show ?thesis using t i by (simp add: table_ok_def)
  qed
  have "inj_on ?f {..<Platoon_MAXUSERS}"
  proof (rule inj_onI)
    fix i j assume a: "i \<in> {..<Platoon_MAXUSERS}" "j \<in> {..<Platoon_MAXUSERS}" "?f i = ?f j"
    obtain u where u: "h (?f i) = Some u" "ru_user u = i" using s[of i] a(1) by auto
    obtain v where v: "h (?f j) = Some v" "ru_user v = j" using s[of j] a(2) by auto
    show "i = j" using u v a(3) by simp
  qed
  moreover have "?f ` {..<Platoon_MAXUSERS} \<subseteq> dom h" using s by blast
  moreover have "finite (dom h)" using t by (simp add: table_ok_def)
  ultimately have "card {..<Platoon_MAXUSERS} \<le> card (dom h)" by (rule card_inj_on_le)
  moreover have "card (dom h) \<le> Platoon_MAXUSERS" using table_few[OF t] by (simp add: few_def)
  ultimately show ?thesis by simp
qed

text \<open>How many users the platoon may start: no more than are wanted, than may connect, and than have a slot.\<close>

definition to_start :: "'w::len platoon \<Rightarrow> (nat \<Rightarrow> 'w robouser option) \<Rightarrow> nat" where
  "to_start P h =
     (if pl_nInState P ! state_no STOPPED \<noteq> 0 then 0
      else nat (min (pl_nuserTarget P - int (card (alive h)))
             (min (pl_nconnectingTarget P - int (card (connecting (pl_lastConnectingState P) h))) (int Platoon_MAXUSERS - int (card (dom h))))))"

definition users_started :: "nat \<Rightarrow> ('w::len, 'o) farm_world \<Rightarrow> ('w, 'o) farm_world \<Rightarrow> bool" where
  "users_started k w w' =
     (users_of w \<subseteq>\<^sub>m users_of w' \<and> card (dom (users_of w')) = card (dom (users_of w)) + k \<and>
      (\<forall>r \<in> dom (users_of w') - dom (users_of w). \<exists>u. users_of w' r = Some u \<and> ru_state u = CONNECT \<and> timers w' (CRobo r) \<noteq> None) \<and>
      (\<forall>c. c \<noteq> CPlatoon \<and> c \<notin> CRobo ` (dom (users_of w') - dom (users_of w)) \<longrightarrow> timers w' c = timers w c) \<and>
      pl_nuserTarget (platoon_of w') = pl_nuserTarget (platoon_of w) \<and>
      pl_nconnectingTarget (platoon_of w') = pl_nconnectingTarget (platoon_of w) \<and>
      pl_lastConnectingState (platoon_of w') = pl_lastConnectingState (platoon_of w))"

lemma wants_more_cards:
  assumes "farm_ok b w"
  shows "wants_more (platoon_of w) = (pl_nInState (platoon_of w) ! state_no STOPPED = 0 \<and>
     int (card (alive (users_of w))) < pl_nuserTarget (platoon_of w) \<and>
     int (card (connecting (pl_lastConnectingState (platoon_of w)) (users_of w))) < pl_nconnectingTarget (platoon_of w))"
proof -
  note c = farm_ok_counts[OF assms]
  have "sumInState (platoon_of w) STOPPED STOPPED = pl_nInState (platoon_of w) ! state_no STOPPED" by (simp add: sumInState_def)
  with c alive_count[of "platoon_of w" "users_of w"] connecting_count[of "platoon_of w" "users_of w"] show ?thesis
    unfolding wants_more_def by auto
qed

lemma user_added_cards:
  assumes ok: "farm_ok b w" and add: "user_added w w1" and l: "l \<noteq> UNINIT"
  shows "card (dom (users_of w1)) = card (dom (users_of w)) + 1" "card (alive (users_of w1)) = card (alive (users_of w)) + 1"
    "card (connecting l (users_of w1)) = card (connecting l (users_of w)) + 1"
proof -
  obtain r v where a: "users_of w r = None" "users_of w1 = (users_of w)(r \<mapsto> v)" "ru_state v = CONNECT"
    using add unfolding user_added_def by blast
  have fin: "finite (dom (users_of w))" using farm_ok_counts[OF ok] by simp
  have sub: "alive (users_of w) \<subseteq> dom (users_of w)" "connecting l (users_of w) \<subseteq> dom (users_of w)"
    by (auto simp: alive_def connecting_def)
  have ins: "alive (users_of w1) = insert r (alive (users_of w))" "connecting l (users_of w1) = insert r (connecting l (users_of w))"
    "dom (users_of w1) = insert r (dom (users_of w))"
    using a l by (cases l; auto simp: alive_def in_state_def connecting_def)+
  have "r \<notin> dom (users_of w)" using a(1) by auto
  then show "card (dom (users_of w1)) = card (dom (users_of w)) + 1" "card (alive (users_of w1)) = card (alive (users_of w)) + 1"
    "card (connecting l (users_of w1)) = card (connecting l (users_of w)) + 1"
    unfolding ins using sub fin finite_subset[OF sub(1) fin] finite_subset[OF sub(2) fin] by (auto simp: card_insert_if)
qed

lemma added_started:
  assumes ok: "farm_ok b w" "farm_ok b w1" and more: "wants_more (platoon_of w)" "pl_lastConnectingState (platoon_of w) \<noteq> UNINIT"
    and add: "user_added w w1"
  shows "to_start (platoon_of w) (users_of w) = Suc (to_start (platoon_of w1) (users_of w1))"
    "users_started k w1 w' \<Longrightarrow> users_started (Suc k) w w'"
proof -
  have cnt: "pl_nInState (platoon_of w1) ! state_no STOPPED = pl_nInState (platoon_of w) ! state_no STOPPED"
    using add unfolding user_added_def by blast
  have a: "pl_nuserTarget (platoon_of w1) = pl_nuserTarget (platoon_of w)"
    "pl_nconnectingTarget (platoon_of w1) = pl_nconnectingTarget (platoon_of w)"
    "pl_lastConnectingState (platoon_of w1) = pl_lastConnectingState (platoon_of w)"
    using add unfolding user_added_def by blast+
  note cards = user_added_cards[OF ok(1) add more(2)]
  have "card (dom (users_of w1)) \<le> Platoon_MAXUSERS"
    using ok(2) by (simp add: farm_ok_def queue_ok_def few_def)
  then show "to_start (platoon_of w) (users_of w) = Suc (to_start (platoon_of w1) (users_of w1))"
    using cards more(1) unfolding wants_more_cards[OF ok(1)] to_start_def cnt a
    by (simp add: Suc_nat_eq_nat_zadd1)
  assume rest: "users_started k w1 w'"
  obtain r v now now' where r: "users_of w r = None" "users_of w1 = (users_of w)(r \<mapsto> v)" "ru_state v = CONNECT"
    "timers w1 = (timers w)(CRobo r \<mapsto> now, CPlatoon \<mapsto> now')"
    using add unfolding user_added_def by blast
  let ?N = "dom (users_of w') - dom (users_of w)" and ?N1 = "dom (users_of w') - dom (users_of w1)"
  note st = rest[unfolded users_started_def]
  have r': "users_of w' r = Some v" using st r(2) by (auto simp: map_le_def)
  then have N: "?N = insert r ?N1" using r(1,2) by auto
  have "users_of w \<subseteq>\<^sub>m users_of w1" using r(1,2) by (auto simp: map_le_def)
  then have le: "users_of w \<subseteq>\<^sub>m users_of w'" by (rule map_le_trans) (use st in simp)
  have t: "timers w' c = timers w1 c" if "c \<noteq> CPlatoon" "c \<notin> CRobo ` ?N1" for c using st that by blast
  have "timers w' (CRobo r) = Some now" using t[of "CRobo r"] r(2,4) by auto
  moreover have "timers w' c = timers w c" if "c \<noteq> CPlatoon" "c \<notin> CRobo ` ?N" for c
    using t[of c] r(4) that unfolding N by auto
  ultimately show "users_started (Suc k) w w'" using st r(3) r' cards(1) a le unfolding users_started_def N by simp
qed

lemma rampup_exact:
  assumes sys: "sys_ok S b" and "farm_ok b w" "pl_lastConnectingState (platoon_of w) \<noteq> UNINIT"
  shows "\<exists>w'. platoon_skedCallback S w = Some w' \<and> farm_ok b w' \<and> users_started (to_start (platoon_of w) (users_of w)) w w'"
  using assms(2,3)
proof (induction "to_start (platoon_of w) (users_of w)" arbitrary: w rule: less_induct)
  case less
  show ?case
  proof (cases "wants_more (platoon_of w)")
    case False
    then have "to_start (platoon_of w) (users_of w) = 0" using wants_more_cards[OF less.prems(1)] by (auto simp: to_start_def)
    with False less.prems(1) show ?thesis by (simp add: platoon_skedCallback.simps[of S w] users_started_def)
  next
    case True
    note round = platoon_skedCallback.simps[of S w, unfolded if_P[OF True]]
    from startUser_lemma[OF sys less.prems(1)] show ?thesis
    proof (elim disjE exE conjE)
      assume full: "startUser S w = Some (Fail EALREADY, w)" "full_table (platoon_of w)"
      then have "card (dom (users_of w)) = Platoon_MAXUSERS"
        using full_table_card less.prems(1) by (auto simp: farm_ok_def farm_inv_def)
      then have "to_start (platoon_of w) (users_of w) = 0" by (simp add: to_start_def)
      with full(1) less.prems(1) show ?thesis unfolding round by (simp add: users_started_def)
    next
      fix w1 assume w1: "startUser S w = Some (OK, w1)" "farm_ok b w1" "user_added w w1"
      note add = added_started[OF less.prems(1) w1(2) True less.prems(2) w1(3)]
      have "pl_lastConnectingState (platoon_of w1) \<noteq> UNINIT" using w1(3) less.prems(2) unfolding user_added_def by metis
      then obtain w' where "platoon_skedCallback S w1 = Some w'" "farm_ok b w'" "users_started (to_start (platoon_of w1) (users_of w1)) w1 w'"
        using less.hyps[OF _ w1(2)] add(1) by auto
      with w1(1) add show ?thesis unfolding round by simp
    qed
  qed
qed

lemma started_cards:
  assumes ok: "farm_ok b w" "farm_ok b w'" and st: "users_started k w w'" and l: "l \<noteq> UNINIT"
  shows "card (alive (users_of w')) = card (alive (users_of w)) + k" "card (connecting l (users_of w')) = card (connecting l (users_of w)) + k"
proof -
  let ?h = "users_of w" and ?h' = "users_of w'"
  let ?N = "dom ?h' - dom ?h"
  have fin: "finite (dom ?h')" "finite (dom ?h)" using farm_ok_counts[OF ok(2)] farm_ok_counts[OF ok(1)] by simp_all
  have le: "?h \<subseteq>\<^sub>m ?h'" and n: "\<And>r. r \<in> ?N \<Longrightarrow> \<exists>u. ?h' r = Some u \<and> ru_state u = CONNECT" using st by (auto simp: users_started_def)
  have same: "?h' r = ?h r" if "r \<in> dom ?h" for r using le that by (simp add: map_le_def)
  have "dom ?h \<subseteq> dom ?h'" using le by (rule map_le_implies_dom_le)
  then have N: "card ?N = k" using st fin by (simp add: users_started_def card_Diff_subset)
  have "alive ?h' = alive ?h \<union> ?N" "connecting l ?h' = connecting l ?h \<union> ?N"
  proof -
    have r: "r \<in> alive ?h' \<longleftrightarrow> r \<in> alive ?h \<union> ?N" "r \<in> connecting l ?h' \<longleftrightarrow> r \<in> connecting l ?h \<union> ?N" for r
      using same[of r] n[of r] l by (cases "r \<in> dom ?h"; cases l; auto simp: alive_def in_state_def connecting_def domIff)+
    then show "alive ?h' = alive ?h \<union> ?N" "connecting l ?h' = connecting l ?h \<union> ?N" by blast+
  qed
  moreover have "alive ?h \<subseteq> dom ?h" "connecting l ?h \<subseteq> dom ?h" by (auto simp: alive_def connecting_def)
  ultimately show "card (alive ?h') = card (alive ?h) + k" "card (connecting l ?h') = card (connecting l ?h) + k"
    using N fin finite_subset[of _ "dom ?h"] by (simp_all add: card_Un_disjoint disjoint_iff subset_iff)
qed
text \<open>
  C5. The platoon's callback ends, and it starts exactly as many users as it may: none while a stopped user is
  counted, else the least of what is missing to the number of users wanted, of what is missing to the number
  that may be connecting at a time, and of the free slots of the table. So many users are alive and
  connecting more than before; the new ones are connecting and queued, and nothing else changes for the
  users there are. (Without a state up to which a user counts as connecting, \<open>UNINIT\<close>, there is no such bound.)
\<close>
theorem rampup_reaches_target:
  assumes sys: "sys_ok S b" and ok: "farm_ok b w" and l: "l = pl_lastConnectingState (platoon_of w)" "l \<noteq> UNINIT"
    and k: "k = (if pl_nInState (platoon_of w) ! state_no STOPPED \<noteq> 0 then 0
                 else nat (min (pl_nuserTarget (platoon_of w) - int (card (alive (users_of w))))
                        (min (pl_nconnectingTarget (platoon_of w) - int (card (connecting l (users_of w))))
                             (int Platoon_MAXUSERS - int (card (dom (users_of w)))))))"
  shows "\<exists>w'. platoon_skedCallback S w = Some w' \<and> farm_ok b w' \<and> users_of w \<subseteq>\<^sub>m users_of w' \<and>
           card (dom (users_of w')) = card (dom (users_of w)) + k \<and> card (alive (users_of w')) = card (alive (users_of w)) + k \<and>
           card (connecting l (users_of w')) = card (connecting l (users_of w)) + k \<and>
           (\<forall>r \<in> dom (users_of w') - dom (users_of w). \<exists>u. users_of w' r = Some u \<and> ru_state u = CONNECT \<and> timers w' (CRobo r) \<noteq> None) \<and>
           (\<forall>c. c \<noteq> CPlatoon \<and> c \<notin> CRobo ` (dom (users_of w') - dom (users_of w)) \<longrightarrow> timers w' c = timers w c)"
proof -
  have "k = to_start (platoon_of w) (users_of w)" unfolding k l(1) to_start_def ..
  then obtain w' where w': "platoon_skedCallback S w = Some w'" "farm_ok b w'" "users_started k w w'"
    using rampup_exact[OF sys ok] l by auto
  with started_cards[OF ok w'(2,3) l(2)] show ?thesis unfolding users_started_def by blast
qed

subsection \<open>Burying users\<close>

definition os_closed :: "('w::len, 'o) system \<Rightarrow> int \<Rightarrow> 'o \<Rightarrow> 'o" where
  "os_closed S fd x = (if fd = -1 then x else snd (os_close S fd (snd (the (po_del S fd x)))))"

definition user_closed :: "('w::len, 'o) system \<Rightarrow> 'w robouser \<Rightarrow> 'o \<Rightarrow> 'o" where
  "user_closed S u x = os_closed S (ip_dfd (ru_fcp u)) (os_closed S (ip_cfd (ru_fcp u)) x)"

lemma drop_fd_mk:
  assumes "sys_ok S b"
  shows "\<exists>c. drop_fd (base_calls S d) fd (mk ls s P h x) = Some (c, mk ls s P h (os_closed S fd x))"
proof -
  obtain r x1 where "po_del S fd x = Some (r, x1)" using assms by (fastforce simp: sys_ok_def)
  then show ?thesis
    by (cases "os_close S fd x1") (auto simp: drop_fd_def os_closed_def base_calls_def on_xo_def on_oso_def on_x_def on_os_def mk_def)
qed

lemma ip_shutdown_mk:
  assumes sys: "sys_ok S b" and q: "queue_ok b s h"
    and p: "schedule s (CPipe r) \<noteq> None \<longrightarrow> ip_cfd p \<noteq> -1 \<or> ip_dfd p \<noteq> -1"
  shows "\<exists>c p' s'. ip_shutdown (base_calls S (CPipe r)) p (mk ls s P h x) =
           Some (c, p', mk ls s' P h (os_closed S (ip_dfd p) (os_closed S (ip_cfd p) x))) \<and>
           queue_ok b s' h \<and> schedule s' = (schedule s)(CPipe r := None)"
proof (cases "ip_cfd p = -1 \<and> ip_dfd p = -1")
  case True
  with p q show ?thesis by (intro exI[of _ 0] exI[of _ p] exI[of _ s]) (simp add: ip_shutdown_def os_closed_def fun_upd_idem)
next
  case False
  obtain s' where s': "unsched (base_calls S (CPipe r)) (mk ls s P h x) = Some (mk ls s' P h x)" "queue_ok b s' h"
    "schedule s' = (schedule s)(CPipe r := None)"
    using queue_del[OF q, of S "CPipe r" ls P x] by blast
  let ?x1 = "os_closed S (ip_cfd p) x"
  obtain c1 where c1: "drop_fd (base_calls S (CPipe r)) (ip_cfd p) (mk ls s' P h x) = Some (c1, mk ls s' P h ?x1)"
    using drop_fd_mk[OF sys, of "CPipe r" "ip_cfd p" ls s' P h x] by blast
  obtain c2 where c2: "drop_fd (base_calls S (CPipe r)) (ip_dfd p) (mk ls s' P h ?x1) = Some (c2, mk ls s' P h (os_closed S (ip_dfd p) ?x1))"
    using drop_fd_mk[OF sys, of "CPipe r" "ip_dfd p" ls s' P h ?x1] by blast
  let ?p = "p\<lparr>ip_state := IDLE, ip_cfd_connecting := False, ip_dfd_connecting := False, ip_dfd := -1, ip_cfd := -1\<rparr>"
  have "ip_shutdown (base_calls S (CPipe r)) p (mk ls s P h x) =
      Some (if c1 \<noteq> 0 then c1 else c2, ?p, mk ls s' P h (os_closed S (ip_dfd p) ?x1))"
    unfolding ip_shutdown_def if_not_P[OF False] using s'(1) c1 c2 by simp
  with s'(2,3) show ?thesis by auto
qed

lemma table_ok_del:
  assumes t: "table_ok us h" and u: "h r = Some u"
  shows "table_ok (us[ru_user u := None]) (h(r := None))"
proof -
  have "ru_user v \<noteq> ru_user u" if "h q = Some v" "q \<noteq> r" for q v
    using t u that by (auto simp: table_ok_def) (metis option.inject)
  then show ?thesis using t u by (auto simp: table_ok_def nth_list_update; blast)
qed

lemma queue_ok_less:
  assumes "queue_ok b s h" "schedule s (CRobo r) = None" "schedule s (CPipe r) = None"
  shows "queue_ok b s (h(r := None))"
proof -
  have "card (dom (h(r := None))) \<le> card (dom h)" using assms(1) by (intro card_mono) (auto simp: queue_ok_def few_def)
  then have "few (h(r := None))" using assms(1) by (auto simp: queue_ok_def few_def)
  moreover have "dom (schedule s) \<subseteq> clients_of (h(r := None))"
  proof
    fix c assume c: "c \<in> dom (schedule s)"
    then have "c \<in> clients_of h" "c \<noteq> CRobo r" "c \<noteq> CPipe r" using assms by (auto simp: queue_ok_def)
    then show "c \<in> clients_of (h(r := None))" by (cases c) (auto simp: clients_of_def)
  qed
  ultimately show ?thesis using assms(1) by (simp add: queue_ok_def)
qed

definition unqueued :: "nat \<Rightarrow> (client \<Rightarrow> 'a option) \<Rightarrow> client \<Rightarrow> 'a option" where
  "unqueued r t = t(CRobo r := None, CPipe r := None)"

lemma bury_lemma:
  assumes sys: "sys_ok S b" and q: "queue_ok b s h" and t: "table_ok (pl_users P) h" and p: "pipes_ok s h" and u: "h r = Some u"
  shows "\<exists>s'. bury S r (mk ls s P h x) =
           Some (mk ls s' (P\<lparr>pl_users := (pl_users P)[ru_user u := None]\<rparr>) (h(r := None)) (user_closed S u x)) \<and>
           queue_ok b s' (h(r := None)) \<and> pipes_ok s' (h(r := None)) \<and>
           table_ok ((pl_users P)[ru_user u := None]) (h(r := None)) \<and> schedule s' = unqueued r (schedule s)"
proof -
  obtain s1 where s1: "unsched (base_calls S (CRobo r)) (mk ls s P h x) = Some (mk ls s1 P h x)" "queue_ok b s1 h"
    "schedule s1 = (schedule s)(CRobo r := None)"
    using queue_del[OF q, of S "CRobo r" ls P x] by blast
  have "schedule s1 (CPipe r) \<noteq> None \<longrightarrow> ip_cfd (ru_fcp u) \<noteq> -1 \<or> ip_dfd (ru_fcp u) \<noteq> -1"
    using p u s1(3) by (simp add: pipes_ok_def)
  then obtain c p' s2 where s2: "ip_shutdown (base_calls S (CPipe r)) (ru_fcp u) (mk ls s1 P h x) = Some (c, p', mk ls s2 P h (user_closed S u x))"
    "queue_ok b s2 h" "schedule s2 = (schedule s1)(CPipe r := None)"
    using ip_shutdown_mk[OF sys s1(2), of r "ru_fcp u" ls P x] unfolding user_closed_def by blast
  have i: "ru_user u < length (pl_users P)" using t u by (simp add: table_ok_def)
  have "bury S r (mk ls s P h x) =
      Some (mk ls s2 (P\<lparr>pl_users := (pl_users P)[ru_user u := None]\<rparr>) (h(r := None)) (user_closed S u x))"
    using u s1(1) s2(1) i by (simp add: bury_def Let_def)
  moreover have sch: "schedule s2 = unqueued r (schedule s)" using s1(3) s2(3) by (simp add: unqueued_def)
  moreover have "queue_ok b s2 (h(r := None))" using queue_ok_less[OF s2(2)] sch by (simp add: unqueued_def)
  moreover have "pipes_ok s2 (h(r := None))" using p sch by (auto simp: pipes_ok_def unqueued_def split: if_splits)
  ultimately show ?thesis using table_ok_del[OF t u] by blast
qed

text \<open>A freed user is followed: use after free.\<close>

lemma bury_freed: "users_of w r = None \<Longrightarrow> bury S r w = None"
  by (simp add: bury_def)

lemma reap_loop_lemma:
  assumes sys: "sys_ok S b"
  shows "queue_ok b s h \<Longrightarrow> table_ok (pl_users P) h \<Longrightarrow> pipes_ok s h \<Longrightarrow> distinct dead \<Longrightarrow> set dead \<subseteq> dom h \<Longrightarrow>
    pl_deadlist P = dead \<Longrightarrow>
    \<exists>s' us. reap_loop S dead (mk ls s P h x) =
        Some (mk ls s' (P\<lparr>pl_users := us, pl_deadlist := []\<rparr>) (h |` (- set dead)) (fold (\<lambda>r. user_closed S (the (h r))) dead x)) \<and>
      queue_ok b s' (h |` (- set dead)) \<and> table_ok us (h |` (- set dead)) \<and> pipes_ok s' (h |` (- set dead)) \<and>
      schedule s' = fold unqueued dead (schedule s)"
proof (induction dead arbitrary: s P h x)
  case Nil
  then show ?case by (intro exI[of _ s] exI[of _ "pl_users P"]) (cases P; simp)
next
  case (Cons r dead)
  obtain u where u: "h r = Some u" using Cons.prems(5) by auto
  let ?P = "P\<lparr>pl_deadlist := dead\<rparr>" and ?us = "(pl_users P)[ru_user u := None]" and ?h = "h(r := None)"
  have t: "table_ok (pl_users ?P) h" using Cons.prems(2) by simp
  obtain s1 where b: "bury S r (mk ls s ?P h x) = Some (mk ls s1 (?P\<lparr>pl_users := ?us\<rparr>) ?h (user_closed S u x))"
    "queue_ok b s1 ?h" "pipes_ok s1 ?h" "table_ok ?us ?h" "schedule s1 = unqueued r (schedule s)"
    using bury_lemma[OF sys Cons.prems(1) t Cons.prems(3) u, of ls x] by auto
  have rest: "?h |` (- set dead) = h |` (- set (r # dead))" by (auto simp: restrict_map_def fun_eq_iff)
  have same: "the (?h q) = the (h q)" if "q \<in> set dead" for q using that Cons.prems(4) by auto
  have fold: "fold (\<lambda>r. user_closed S (the (?h r))) dead y = fold (\<lambda>r. user_closed S (the (h r))) dead y" for y
    using same by (intro fold_cong) auto
  have pre: "table_ok (pl_users (?P\<lparr>pl_users := ?us\<rparr>)) ?h" "distinct dead" "set dead \<subseteq> dom ?h" "pl_deadlist (?P\<lparr>pl_users := ?us\<rparr>) = dead"
    using b(4) Cons.prems(4,5) by auto
  obtain s' us where ih: "reap_loop S dead (mk ls s1 (?P\<lparr>pl_users := ?us\<rparr>) ?h (user_closed S u x)) =
        Some (mk ls s' (?P\<lparr>pl_users := ?us\<rparr>\<lparr>pl_users := us, pl_deadlist := []\<rparr>) (?h |` (- set dead))
          (fold (\<lambda>r. user_closed S (the (?h r))) dead (user_closed S u x)))"
      "queue_ok b s' (?h |` (- set dead))" "table_ok us (?h |` (- set dead))" "pipes_ok s' (?h |` (- set dead))"
      "schedule s' = fold unqueued dead (schedule s1)"
    using Cons.IH[OF b(2) pre(1) b(3) pre(2-4), of "user_closed S u x"] by blast
  have P': "?P\<lparr>pl_users := ?us\<rparr>\<lparr>pl_users := us, pl_deadlist := []\<rparr> = P\<lparr>pl_users := us, pl_deadlist := []\<rparr>" by (cases P) simp
  have "reap_loop S (r # dead) (mk ls s P h x) =
      Some (mk ls s' (P\<lparr>pl_users := us, pl_deadlist := []\<rparr>) (h |` (- set (r # dead)))
        (fold (\<lambda>r. user_closed S (the (h r))) (r # dead) x))"
    using b(1) ih(1) unfolding P' rest fold by (simp add: u)
  moreover have "schedule s' = fold unqueued (r # dead) (schedule s)" using ih(5) b(5) by simp
  ultimately show ?case using ih(2-4) unfolding rest by blast
qed

lemma fold_unqueued: "fold unqueued dead t c = (if c \<in> CRobo ` set dead \<union> CPipe ` set dead then None else t c)"
  by (induction dead arbitrary: t) (auto simp: unqueued_def)

lemma in_state_restrict: "in_state (h |` A) st = in_state h st \<inter> A"
  by (auto simp: in_state_def restrict_map_def split: if_splits)

text \<open>Reaping, as every caller of \<open>reap\<close> uses it.\<close>

lemma reap_ok:
  assumes sys: "sys_ok S b" and ok: "farm_ok b w"
  shows "\<exists>w'. reap S w = Some w' \<and> farm_ok b w' \<and>
           platoon_of w' = (platoon_of w)\<lparr>pl_users := pl_users (platoon_of w'), pl_deadlist := []\<rparr> \<and>
           users_of w' = users_of w |` (- in_state (users_of w) STOPPED) \<and>
           (\<forall>c. timers w' c = (if \<exists>r \<in> in_state (users_of w) STOPPED. c = CRobo r \<or> c = CPipe r then None else timers w c)) \<and>
           fm_os (wd_x w') = fold (\<lambda>r. user_closed S (the (users_of w r))) (pl_deadlist (platoon_of w)) (fm_os (wd_x w))"
proof -
  obtain ls s P h x where w: "w = mk ls s P h x" by (rule mk_cases)
  have inv: "farm_inv P h" "queue_ok b s h" "pipes_ok s h" using ok by (simp_all add: w)
  let ?dead = "pl_deadlist P"
  have d: "distinct ?dead" "set ?dead = in_state h STOPPED" "table_ok (pl_users P) h" "counts_ok (pl_nInState P) h"
    using inv(1) by (simp_all add: farm_inv_def)
  have sub: "set ?dead \<subseteq> dom h" using d(2) in_state_dom by blast
  let ?h = "h |` (- in_state h STOPPED)"
  obtain s' us where r: "reap_loop S ?dead (mk ls s P h x) =
        Some (mk ls s' (P\<lparr>pl_users := us, pl_deadlist := []\<rparr>) ?h (fold (\<lambda>r. user_closed S (the (h r))) ?dead x))"
      "queue_ok b s' ?h" "table_ok us ?h" "pipes_ok s' ?h" "schedule s' = fold unqueued ?dead (schedule s)"
    using reap_loop_lemma[OF sys inv(2) d(3) inv(3) d(1) sub refl, of ls x] unfolding d(2) by blast
  have states: "in_state ?h st = (if st = STOPPED then {} else in_state h st)" for st
    unfolding in_state_restrict by (auto simp: in_state_def)
  then have "counts_ok (pl_nInState P) ?h" using d(4) unfolding counts_ok_def by (auto simp del: state_no.simps)
  then have "farm_inv (P\<lparr>pl_users := us, pl_deadlist := []\<rparr>) ?h"
    using inv(1) r(3) states[of STOPPED] by (simp add: farm_inv_def)
  moreover have "schedule s' c = (if \<exists>r \<in> in_state h STOPPED. c = CRobo r \<or> c = CPipe r then None else schedule s c)" for c
    unfolding r(5) fold_unqueued d(2) by auto
  ultimately show ?thesis using r(1,2,4) unfolding w reap_def by simp
qed

text \<open>
  C4. \<open>reap\<close> frees exactly the stopped users, each once: it closes their sockets in the order they stopped,
  takes them and their connections out of the event queue and empties their slots, and keeps the
  counts, the live users and every other event.
\<close>
theorem reap_frees_the_dead:
  assumes sys: "sys_ok S b" and ok: "farm_ok b w"
  shows "\<exists>w'. reap S w = Some w' \<and> farm_ok b w' \<and>
           platoon_of w' = (platoon_of w)\<lparr>pl_users := pl_users (platoon_of w'), pl_deadlist := []\<rparr> \<and>
           users_of w' = users_of w |` (- in_state (users_of w) STOPPED) \<and>
           (\<forall>c. timers w' c = (if \<exists>r \<in> in_state (users_of w) STOPPED. c = CRobo r \<or> c = CPipe r then None else timers w c)) \<and>
           fm_os (wd_x w') = fold (\<lambda>r. user_closed S (the (users_of w r))) (pl_deadlist (platoon_of w)) (fm_os (wd_x w))"
  by (rule reap_ok[OF sys ok])

lemma stop_lemma:
  assumes sys: "sys_ok S b" and q: "queue_ok b s h" and len: "length (pl_nInState P) = NUMSTATES" and u: "h r = Some u"
  shows "\<exists>s' x' now. stop S r (mk ls s P h x) =
           Some (mk ls s' (P\<lparr>pl_nInState := count_move (ru_state u) STOPPED (pl_nInState P), pl_deadlist := pl_deadlist P @ [r]\<rparr>)
                 (h(r \<mapsto> u\<lparr>ru_state := STOPPED\<rparr>)) x') \<and>
           queue_ok b s' (h(r \<mapsto> u\<lparr>ru_state := STOPPED\<rparr>)) \<and> schedule s' = (schedule s)(CPlatoon \<mapsto> now)"
proof -
  have "STOPPED \<noteq> UNINIT" by simp
  from gotoState_lemma[OF sys q len this u, of ls x] show ?thesis
    by (auto simp: stop_def addToDeadlist_def)
qed

lemma table_ok_upd: "table_ok us h \<Longrightarrow> h r = Some u \<Longrightarrow> ru_user v = ru_user u \<Longrightarrow> table_ok us (h(r \<mapsto> v))"
  by (auto simp: table_ok_def insert_absorb)

lemma pipes_ok_upd:
  "pipes_ok s h \<Longrightarrow> h r = Some u \<Longrightarrow> ru_fcp v = ru_fcp u \<Longrightarrow> (\<And>q. schedule s' (CPipe q) = schedule s (CPipe q)) \<Longrightarrow>
   pipes_ok s' (h(r \<mapsto> v))"
  by (auto simp: pipes_ok_def)

lemma stop_farm:
  assumes sys: "sys_ok S b" and ok: "farm_ok b (mk ls s P h x)" and u: "h r = Some u" "ru_state u \<noteq> STOPPED"
  shows "\<exists>s' P' x'. stop S r (mk ls s P h x) = Some (mk ls s' P' (h(r \<mapsto> u\<lparr>ru_state := STOPPED\<rparr>)) x') \<and>
           farm_ok b (mk ls s' P' (h(r \<mapsto> u\<lparr>ru_state := STOPPED\<rparr>)) x') \<and> pl_deadlist P' = pl_deadlist P @ [r] \<and>
           pl_bytesFetched P' = pl_bytesFetched P \<and> pl_nreads P' = pl_nreads P"
proof -
  have inv: "farm_inv P h" "queue_ok b s h" "pipes_ok s h" using ok by simp_all
  have cnt: "counts_ok (pl_nInState P) h" "length (pl_nInState P) = NUMSTATES" "finite (dom h)" "table_ok (pl_users P) h"
    using inv(1) by (simp_all add: farm_inv_def counts_ok_def table_ok_def)
  let ?h = "h(r \<mapsto> u\<lparr>ru_state := STOPPED\<rparr>)"
  let ?P = "P\<lparr>pl_nInState := count_move (ru_state u) STOPPED (pl_nInState P), pl_deadlist := pl_deadlist P @ [r]\<rparr>"
  obtain s' x' now where st: "stop S r (mk ls s P h x) = Some (mk ls s' ?P ?h x')" "queue_ok b s' ?h"
    "schedule s' = (schedule s)(CPlatoon \<mapsto> now)"
    using stop_lemma[OF sys inv(2) cnt(2) u(1), of ls x] by blast
  have "counts_ok (count_move (ru_state u) STOPPED (pl_nInState P)) ?h"
    by (rule counts_ok_move[OF cnt(1,3) u(1) _ u(2)]) simp_all
  moreover have "table_ok (pl_users P) ?h" by (rule table_ok_upd[OF cnt(4) u(1)]) simp
  moreover have "r \<notin> in_state h STOPPED" using u by (simp add: in_state_def)
  moreover have "in_state ?h STOPPED = insert r (in_state h STOPPED)" by (simp add: in_state_upd)
  ultimately have "farm_inv ?P ?h" using inv(1) by (simp add: farm_inv_def)
  moreover have "pipes_ok s' ?h" by (rule pipes_ok_upd[OF inv(3) u(1)]) (simp_all add: st(3))
  ultimately show ?thesis using st(1,2) by (intro exI[of _ s'] exI[of _ ?P] exI[of _ x']) simp
qed

text \<open>Burying frees, and never allocates.\<close>

lemma bury_users:
  assumes "bury S r w = Some w'"
  shows "users_of w r \<noteq> None" "dom (users_of w') \<subseteq> dom (users_of w) - {r}"
proof -
  have u: "users_of w1 = users_of w" if "unsched (base_calls S c) w = Some w1" for c w1 and w :: "('a, 'b) farm_world"
    using unsched_x[OF that] by simp
  have d: "users_of w1 = users_of w" if "drop_fd (base_calls S c) fd w = Some (k, w1)" for c fd k w1 and w :: "('a, 'b) farm_world"
    using that by (auto simp: drop_fd_def on_xo_def on_oso_def on_x_def on_os_def base_calls_def bind_eq_Some_conv split: if_splits prod.splits)
  have s: "users_of w1 = users_of w" if "ip_shutdown (base_calls S c) p w = Some (k, p', w1)" for c p k p' w1 and w :: "('a, 'b) farm_world"
    using that by (auto simp: ip_shutdown_def bind_eq_Some_conv split: if_splits dest!: u d)
  show "users_of w r \<noteq> None" "dom (users_of w') \<subseteq> dom (users_of w) - {r}"
    using assms by (auto simp: bury_def Let_def bind_eq_Some_conv put_users_def put_platoon_def split: if_splits dest!: u s)
qed

lemma reap_loop_distinct:
  "reap_loop S dead w = Some w' \<Longrightarrow> distinct dead \<and> set dead \<subseteq> dom (users_of w)"
proof (induction dead arbitrary: w)
  case (Cons r dead)
  let ?w = "put_platoon ((platoon_of w)\<lparr>pl_deadlist := dead\<rparr>) w"
  obtain w1 where b: "bury S r ?w = Some w1" and rest: "reap_loop S dead w1 = Some w'"
    using Cons.prems by (auto simp: bind_eq_Some_conv)
  have same: "users_of ?w = users_of w" by (simp add: put_platoon_def)
  from Cons.IH[OF rest] bury_users[OF b] show ?case unfolding same by (simp; blast)
qed simp

text \<open>
  C40. Two errors in a row are fatal: \<open>ftpCmdDone\<close> with an error stops the user whatever its state, so a
  second error, before the dead are reaped, puts it on the list of the dead twice and \<open>reap\<close> then
  frees it twice.
\<close>
theorem second_error_double_free:
  assumes sys: "sys_ok S b" and ok: "farm_ok b w" and u: "users_of w r = Some u" "ru_state u \<noteq> STOPPED"
  shows "\<exists>w1 w2. robo_ftpCmdDone S r (Fail e) st buf (p, w) = Some (p, w1) \<and> farm_ok b w1 \<and> reap S w1 \<noteq> None \<and>
           robo_ftpCmdDone S r (Fail e') st' buf' (p, w1) = Some (p, w2) \<and> reap S w2 = None"
proof -
  obtain ls s P h x where w: "w = mk ls s P h x" by (rule mk_cases)
  have ok': "farm_ok b (mk ls s P h x)" "h r = Some u" using ok u(1) by (simp_all add: w)
  have err: "robo_ftpCmdDone S r (Fail c) t bf (p, y) = stop_here S r p y" for c t bf y
    by (subst robo_ftpCmdDone.simps) simp
  obtain s1 P1 x1 where 1: "stop S r (mk ls s P h x) = Some (mk ls s1 P1 (h(r \<mapsto> u\<lparr>ru_state := STOPPED\<rparr>)) x1)"
    "farm_ok b (mk ls s1 P1 (h(r \<mapsto> u\<lparr>ru_state := STOPPED\<rparr>)) x1)" "pl_deadlist P1 = pl_deadlist P @ [r]"
    using stop_farm[OF sys ok' u(2)] by blast
  let ?h = "h(r \<mapsto> u\<lparr>ru_state := STOPPED\<rparr>)"
  have q: "queue_ok b s1 ?h" "length (pl_nInState P1) = NUMSTATES" "?h r = Some (u\<lparr>ru_state := STOPPED\<rparr>)"
    using 1(2) by (simp_all add: farm_inv_def counts_ok_def)
  obtain s2 x2 P2 h2 where 2: "stop S r (mk ls s1 P1 ?h x1) = Some (mk ls s2 P2 h2 x2)" "pl_deadlist P2 = pl_deadlist P1 @ [r]"
    using stop_lemma[OF sys q, of ls x1] by force
  have "\<not> distinct (pl_deadlist P2)" using 1(3) 2(2) by simp
  then have "reap S (mk ls s2 P2 h2 x2) = None"
    using reap_loop_distinct[of S "pl_deadlist P2" "mk ls s2 P2 h2 x2"]
    by (cases "reap_loop S (pl_deadlist P2) (mk ls s2 P2 h2 x2)") (auto simp: reap_def)
  moreover obtain w3 where "reap S (mk ls s1 P1 ?h x1) = Some w3" using reap_ok[OF sys 1(2)] by blast
  ultimately show ?thesis using 1(1,2) 2(1)
    by (intro exI[of _ "mk ls s1 P1 ?h x1"] exI[of _ "mk ls s2 P2 h2 x2"]) (simp add: err stop_here_def w)
qed

lemma on_x_read_mk:
  "os_read S fd n x = (res, x') \<Longrightarrow> on_x (os_read (base_calls S c) fd n) (mk ls s P h x) = (res, mk ls s P h x')"
  by (simp add: on_x_def base_calls_def on_os_def mk_def)

lemma farm_ok_platoon:
  "farm_ok b (mk ls s P h x) \<Longrightarrow> pl_users P' = pl_users P \<Longrightarrow> pl_nInState P' = pl_nInState P \<Longrightarrow> pl_deadlist P' = pl_deadlist P \<Longrightarrow>
   pl_local_addrs P' = pl_local_addrs P \<Longrightarrow> pl_n_local_addrs P' = pl_n_local_addrs P \<Longrightarrow> farm_ok b (mk ls s P' h x')"
  by (simp add: farm_inv_def)

lemma farm_ok_user:
  assumes "farm_ok b (mk ls s P h x)" "h r = Some u" "ru_user v = ru_user u" "ru_state v = ru_state u" "ru_fcp v = ru_fcp u"
  shows "farm_ok b (mk ls s P (h(r \<mapsto> v)) x')"
proof -
  have st: "in_state (h(r \<mapsto> v)) = in_state h" using assms(2,4) by (intro ext) (auto simp: in_state_upd in_state_def)
  have dom: "dom (h(r \<mapsto> v)) = dom h" using assms(2) by auto
  have "table_ok (pl_users P) (h(r \<mapsto> v))" using table_ok_upd[of "pl_users P" h r u v] assms by (simp add: farm_inv_def)
  moreover have "pipes_ok s (h(r \<mapsto> v))" using pipes_ok_upd[of s h r u v s] assms by simp
  ultimately show ?thesis using assms(1) st dom
    by (simp add: farm_inv_def counts_ok_def queue_ok_def clients_of_def few_def del: dom_fun_upd)
qed

text \<open>
  C29. A read of data is counted for the user and for the platoon, and the user's throughput is checked
  after ten reads' worth of bytes: a user below the minimum rate is stopped and the transfer ended;
  any other read returns its size, with the dead reaped.
\<close>
theorem data_read_counted:
  fixes S :: "('w::len, 'o) system"
  assumes sys: "sys_ok S b" and ok: "farm_ok b w" and u: "users_of w r = Some u" "ru_state u \<noteq> STOPPED"
    and bpr: "0 \<le> pl_bytesPerRead (platoon_of w)" "pl_bytesPerRead (platoon_of w) \<le> 16384"
    and rd: "os_read S fd (nat (pl_bytesPerRead (platoon_of w))) (fm_os (wd_x w)) = (Inr buf, x0)" "buf \<noteq> []"
  shows "\<exists>w' u'. robo_handle_data_io S r fd revents now w = Some (Inr (if ru_state u' = STOPPED then 0 else length buf), w') \<and>
           farm_ok b w' \<and> users_of w' r = Some u' \<and>
           ru_bytesFetched u' = ru_bytesFetched u + of_nat (length buf) \<and> ru_reads u' = ru_reads u + 1 \<and>
           pl_bytesFetched (platoon_of w') = pl_bytesFetched (platoon_of w) + of_nat (length buf) \<and>
           pl_nreads (platoon_of w') = pl_nreads (platoon_of w) + 1 \<and>
           (ru_state u' = STOPPED \<longleftrightarrow>
              sint (scast (ru_bytesFetched u') :: 32 word) > 10 * pl_bytesPerRead (platoon_of w) \<and>
              rate_below (ru_bytesFetched u') (now - ru_startedAt u') (pl_minBytesPerSec (platoon_of w)))"
proof -
  obtain ls s P h x where w: "w = mk ls s P h x" by (rule mk_cases)
  have ok': "farm_ok b (mk ls s P h x)" and u': "h r = Some u" using ok u(1) by (simp_all add: w)
  let ?n = "length buf" and ?u1 = "u\<lparr>ru_reads := ru_reads u + 1\<rparr>"
  have read: "on_x (os_read (base_calls S (CPipe r)) fd (nat (pl_bytesPerRead P))) (mk ls s P h x) = (Inr buf, mk ls s P h x0)"
    using rd(1) by (intro on_x_read_mk) (simp add: w)
  have "\<exists>started x1. (if ru_bytesFetched u = 0 then read_eclock (base_calls S (CRobo r)) (mk ls s P (h(r \<mapsto> ?u1)) x0)
      else (ru_startedAt u, mk ls s P (h(r \<mapsto> ?u1)) x0)) = (started, mk ls s P (h(r \<mapsto> ?u1)) x1)"
    using clock_read[OF sys, of "CRobo r" ls s P "h(r \<mapsto> ?u1)" x0] by (auto split: if_splits)
  then obtain started x1 where st: "(if ru_bytesFetched u = 0 then read_eclock (base_calls S (CRobo r)) (mk ls s P (h(r \<mapsto> ?u1)) x0)
      else (ru_startedAt u, mk ls s P (h(r \<mapsto> ?u1)) x0)) = (started, mk ls s P (h(r \<mapsto> ?u1)) x1)" by blast
  let ?f = "ru_bytesFetched u + of_nat ?n"
  let ?u2 = "?u1\<lparr>ru_startedAt := started, ru_bytesFetched := ?f\<rparr>"
  let ?P = "P\<lparr>pl_bytesFetched := pl_bytesFetched P + of_nat ?n, pl_nreads := pl_nreads P + 1\<rparr>"
  let ?h = "h(r \<mapsto> ?u2)"
  let ?slow = "sint (scast ?f :: 32 word) > 10 * pl_bytesPerRead P \<and> rate_below ?f (now - started) (pl_minBytesPerSec P)"
  have ok2: "farm_ok b (mk ls s ?P ?h x1)"
    using farm_ok_platoon[OF farm_ok_user[OF ok' u', of ?u2 x1], of ?P x1] by simp
  have cr: "count_read S r ?n now (mk ls s P (h(r \<mapsto> ?u1)) x0) =
      (if ?slow then do { w4 \<leftarrow> stop S r (mk ls s ?P ?h x1); Some (True, w4) } else Some (False, mk ls s ?P ?h x1))"
    using st by (cases "ru_bytesFetched u = 0") (simp_all add: count_read_def Let_def)
  have unf: "robo_handle_data_io S r fd revents now w =
      do { (stopped, w3) \<leftarrow> count_read S r ?n now (mk ls s P (h(r \<mapsto> ?u1)) x0);
           if stopped then Some (Inr 0, w3) else do { w4 \<leftarrow> reap S w3; Some (Inr ?n, w4) } }"
    using bpr rd(2) read u' by (simp add: robo_handle_data_io_def w Let_def)
  have hr: "?h r = Some ?u2" "ru_state ?u2 \<noteq> STOPPED" using u(2) by simp_all
  show ?thesis
  proof (cases ?slow)
    case True
    obtain s' P' x' where s: "stop S r (mk ls s ?P ?h x1) = Some (mk ls s' P' (?h(r \<mapsto> ?u2\<lparr>ru_state := STOPPED\<rparr>)) x')"
      "farm_ok b (mk ls s' P' (?h(r \<mapsto> ?u2\<lparr>ru_state := STOPPED\<rparr>)) x')"
      "pl_bytesFetched P' = pl_bytesFetched ?P" "pl_nreads P' = pl_nreads ?P"
      using stop_farm[OF sys ok2 hr] by blast
    have cr': "count_read S r ?n now (mk ls s P (h(r \<mapsto> ?u1)) x0) = do { w4 \<leftarrow> stop S r (mk ls s ?P ?h x1); Some (True, w4) }"
      using cr unfolding if_P[OF True] .
    show ?thesis
      by (intro exI[of _ "mk ls s' P' (?h(r \<mapsto> ?u2\<lparr>ru_state := STOPPED\<rparr>)) x'"] exI[of _ "?u2\<lparr>ru_state := STOPPED\<rparr>"])
        (use True s in \<open>simp add: unf[unfolded w] cr' w\<close>)
  next
    case False
    have cr': "count_read S r ?n now (mk ls s P (h(r \<mapsto> ?u1)) x0) = Some (False, mk ls s ?P ?h x1)"
      using cr unfolding if_not_P[OF False] .
    obtain w' where w': "reap S (mk ls s ?P ?h x1) = Some w'" "farm_ok b w'" "users_of w' = ?h |` (- in_state ?h STOPPED)"
      "platoon_of w' = ?P\<lparr>pl_users := pl_users (platoon_of w'), pl_deadlist := []\<rparr>"
      using reap_ok[OF sys ok2] by auto
    have plat: "pl_bytesFetched (platoon_of w') = pl_bytesFetched ?P" "pl_nreads (platoon_of w') = pl_nreads ?P"
      using arg_cong[OF w'(4), of pl_bytesFetched] arg_cong[OF w'(4), of pl_nreads] by simp_all
    have "users_of w' r = Some ?u2" using w'(3) hr(2) by (simp add: restrict_map_def in_state_def)
    then show ?thesis using False w'(1,2) plat hr(2)
      by (intro exI[of _ w'] exI[of _ ?u2]) (simp add: unf[unfolded w] cr' w)
  qed
qed

subsection \<open>A small farm, for the witnesses\<close>

text \<open>
  The system of the witnesses of the connection, with an allocator that takes the first address above
  those in use; a platoon that wants three users, and the same with one user, at address 2, in a given
  state.
\<close>

definition user1 :: "64 robouser" where
  "user1 = \<lparr>ru_user = 0, ru_state = UNINIT, ru_startedAt = 0, ru_bytesFetched = 0, ru_reads = 0, ru_fcp = pipe0\<rparr>"

definition sys0 :: "(64, osx) system" where
  "sys0 = \<lparr>this = CPlatoon, sked_realloc = (\<lambda>n xs. Some (take n xs @ replicate (n - length xs) \<lparr>skc = CPlatoon, rec_when = 0\<rparr>)),
     os_gettimeofday = (\<lambda>x. ((0, 0), x)), os_inet_aton = os_inet_aton env0,
     os_gethostbyname = os_gethostbyname env0, os_socket = os_socket env0, os_getfl = os_getfl env0,
     os_setfl = os_setfl env0, os_close = os_close env0, os_connect = os_connect env0, os_bind = os_bind env0,
     os_so_error = os_so_error env0, os_read = os_read env0, os_write = os_write env0,
     po_add = po_add env0, po_del = po_del env0, po_setMask = po_setMask env0, po_clearReadiness = po_clearReadiness env0,
     handle_data_io = (\<lambda>fd m t w. None), statusbuf0 = statusbuf0 env0,
     new_user = (\<lambda>h. (Suc (Max (insert 0 (dom h))), user1))\<rparr>"

definition fsk :: "(client, 64) sked" where
  "fsk = snd (sked_init (Some (replicate 256 \<lparr>skc = CPlatoon, rec_when = 0\<rparr>))
     \<lparr>m_records = [], m_allocated = 0, m_used = 0, skedIndex = (\<lambda>c. 0)\<rparr>)"

definition platoon0 :: "64 platoon" where
  "platoon0 = \<lparr>pl_servername = replicate 128 NUL, pl_port = 21, pl_username = replicate 128 NUL, pl_passwd = replicate 128 NUL,
     pl_minBytesPerSec = 3000, pl_maxBytesPerSec = 4000, pl_bytesPerRead = 1500, pl_filename = ''x'', pl_verbosity = 0,
     pl_lastConnectingState = CONNECTING, pl_nconnectingTarget = 2, pl_nuserTarget = 3,
     pl_nInState = replicate NUMSTATES 0, pl_users = replicate Platoon_MAXUSERS None, pl_deadlist = [],
     pl_bytesFetched = 0, pl_nreads = 0, pl_local_addrs = False, pl_n_local_addrs = 0\<rparr>"

definition farm0 :: "osx \<Rightarrow> (64, osx) farm_world" where
  "farm0 x = mk [] fsk platoon0 Map.empty x"

definition farm1 :: "state_t \<Rightarrow> osx \<Rightarrow> (64, osx) farm_world" where
  "farm1 st x = mk [] fsk
     (platoon0\<lparr>pl_users := (replicate Platoon_MAXUSERS None)[0 := Some 2], pl_nInState := (replicate NUMSTATES 0)[state_no st := 1],
        pl_deadlist := if st = STOPPED then [2] else []\<rparr>)
     [2 \<mapsto> user1\<lparr>ru_state := st\<rparr>] x"

lemma sys0_ok: "sys_ok sys0 0"
proof -
  have "h (Suc (Max (insert 0 (dom h)))) = None" if "finite (dom h)" for h :: "nat \<Rightarrow> 64 robouser option"
  proof (rule ccontr)
    assume "h (Suc (Max (insert 0 (dom h)))) \<noteq> None"
    then have "Suc (Max (insert 0 (dom h))) \<le> Max (insert 0 (dom h))" using that by (intro Max_ge) auto
    then show False by simp
  qed
  then show ?thesis by (simp add: sys_ok_def sys0_def realloc_ok_def eclock_def in_window_def ticks_def)
qed

lemma fsk [simp]: "sked_inv b fsk" "schedule fsk = Map.empty" "m_allocated fsk = 256"
  unfolding fsk_def by (intro sked_init_inv; simp)+ (simp add: sked_init_def)

lemma farm0_ok: "farm_ok 0 (farm0 x)"
  by (simp add: farm0_def platoon0_def farm_inv_def table_ok_def counts_ok_def in_state_def queue_ok_def few_def pipes_ok_def
      NUMSTATES_def nth_replicate state_no_less[unfolded NUMSTATES_def, simplified])

lemma in_state_farm1: "in_state [2 \<mapsto> user1\<lparr>ru_state := st\<rparr>] st' = (if st' = st then {2} else {})"
  by (auto simp: in_state_def)

lemma farm1_ok:
  assumes "st \<noteq> UNINIT"
  shows "farm_ok 0 (farm1 st x)"
proof -
  have "state_no st' < 8" for st' using state_no_less[of st'] by (simp add: NUMSTATES_def)
  then have "counts_ok ((replicate NUMSTATES 0)[state_no st := 1]) [2 \<mapsto> user1\<lparr>ru_state := st\<rparr>]"
    using assms by (auto simp: counts_ok_def in_state_farm1 NUMSTATES_def nth_list_update)
  moreover have "table_ok ((replicate Platoon_MAXUSERS None)[0 := Some 2]) [2 \<mapsto> user1\<lparr>ru_state := st\<rparr>]"
    by (simp add: table_ok_def user1_def nth_list_update Platoon_MAXUSERS_def)
  ultimately show ?thesis
    by (simp add: farm1_def platoon0_def farm_inv_def in_state_farm1 queue_ok_def few_def pipes_ok_def Platoon_MAXUSERS_def)
qed

theorem rampup_reaches_target_witness:
  "\<exists>w'. platoon_skedCallback sys0 (farm0 ox0) = Some w' \<and> farm_ok 0 w' \<and> card (connecting CONNECTING (users_of w')) = 2"
proof -
  let ?w = "farm0 ox0"
  have P: "platoon_of ?w = platoon0" "users_of ?w = Map.empty" by (simp_all add: farm0_def)
  have z: "alive (users_of ?w) = {}" "connecting CONNECTING (users_of ?w) = {}" unfolding P by (auto simp: alive_def connecting_def)
  have l: "CONNECTING = pl_lastConnectingState (platoon_of ?w)" "CONNECTING \<noteq> UNINIT" unfolding P by (simp_all add: platoon0_def)
  have k: "2 = (if pl_nInState (platoon_of ?w) ! state_no STOPPED \<noteq> 0 then 0
      else nat (min (pl_nuserTarget (platoon_of ?w) - int (card (alive (users_of ?w))))
             (min (pl_nconnectingTarget (platoon_of ?w) - int (card (connecting CONNECTING (users_of ?w))))
                  (int Platoon_MAXUSERS - int (card (dom (users_of ?w)))))))"
    unfolding z unfolding P by (simp add: platoon0_def NUMSTATES_def Platoon_MAXUSERS_def)
  show ?thesis using rampup_reaches_target[OF sys0_ok farm0_ok[of ox0] l k] unfolding z by auto
qed

theorem reap_frees_the_dead_witness:
  "\<exists>w'. reap sys0 (farm1 STOPPED ox0) = Some w' \<and> users_of w' 2 = None \<and> ox_closed (fm_os (wd_x w')) = [3]"
proof -
  obtain w' where "reap sys0 (farm1 STOPPED ox0) = Some w'" "users_of w' = users_of (farm1 STOPPED ox0) |` (- {2})"
    "fm_os (wd_x w') = fold (\<lambda>r. user_closed sys0 (the (users_of (farm1 STOPPED ox0) r))) [2] ox0"
    using reap_frees_the_dead[OF sys0_ok farm1_ok[of STOPPED ox0]] in_state_farm1[of STOPPED STOPPED] by (auto simp: farm1_def)
  then show ?thesis
    by (simp add: farm1_def user1_def pipe0_def user_closed_def os_closed_def sys0_def ox0_def)
qed

theorem second_error_double_free_witness:
  "\<exists>w1 w2. robo_ftpCmdDone sys0 2 (Fail EPIPE) (-1) [] (pipe0, farm1 GETTING_FILE ox0) = Some (pipe0, w1) \<and>
     robo_ftpCmdDone sys0 2 (Fail EPIPE) (-1) [] (pipe0, w1) = Some (pipe0, w2) \<and> reap sys0 w2 = None"
proof -
  have "users_of (farm1 GETTING_FILE ox0) 2 = Some (user1\<lparr>ru_state := GETTING_FILE\<rparr>)" by (simp add: farm1_def)
  then show ?thesis
    using second_error_double_free[OF sys0_ok farm1_ok[of GETTING_FILE ox0], of 2 "user1\<lparr>ru_state := GETTING_FILE\<rparr>"] by force
qed

theorem data_read_counted_witness:
  "\<exists>w' u'. robo_handle_data_io sys0 2 3 POLLIN 0 (farm1 GETTING_FILE (ox0\<lparr>ox_in := ''hello''\<rparr>)) = Some (Inr 5, w') \<and>
     users_of w' 2 = Some u' \<and> ru_bytesFetched u' = 5 \<and> pl_bytesFetched (platoon_of w') = 5"
proof -
  let ?w = "farm1 GETTING_FILE (ox0\<lparr>ox_in := ''hello''\<rparr>)"
  have u: "users_of ?w 2 = Some (user1\<lparr>ru_state := GETTING_FILE\<rparr>)" by (simp add: farm1_def)
  have rd: "os_read sys0 3 (nat (pl_bytesPerRead (platoon_of ?w))) (fm_os (wd_x ?w)) = (Inr ''hello'', ox0)"
    by (simp add: farm1_def platoon0_def sys0_def env0_def ox0_def)
  show ?thesis
    using data_read_counted[OF sys0_ok farm1_ok u _ _ _ rd, of POLLIN 0]
    by (auto simp: farm1_def platoon0_def user1_def)
qed

end
