(* ===== verification/Poller_sigio.thy ===== *)
theory Poller_sigio
  imports Poller_poll
begin

unbundle bit_operations_syntax

text \<open>
  The back end on realtime signals of Poller\_sigio.h and Poller\_sigio.cc. Readiness is edge-triggered:
  the back end remembers it for each descriptor and keeps the descriptors that are ready for what they
  wait for in a circular doubly-linked list threaded through the array \<open>m_fds\<close>. Members have the
  prefix \<open>sg_\<close> where the source has \<open>m_\<close>, those of an entry of the array \<open>sf_\<close>.
\<close>

subsection \<open>State\<close>

definition POLLNVAL :: mask where "POLLNVAL = 0x20"
definition O_ASYNC :: "32 word" where "O_ASYNC = 0x2000"
definition O_NONBLOCK_flag :: "32 word" where "O_NONBLOCK_flag = 0x800"
definition SIGIO :: int where "SIGIO = 29"

record 'c fdstate =
  sf_client :: "'c option"
  sf_next :: int
  sf_prev :: int
  sf_mask :: mask
  sf_bits :: mask

record 'c poller_sigio =
  sg_backup :: "'c poller_poll"
  sg_signum :: int
  sg_head :: int
  sg_next :: int
  sg_count :: int
  sg_fds :: "'c fdstate list"
  sg_alloc :: int
  sg_used :: int

definition cleared :: "'c fdstate" where
  "cleared = \<lparr>sf_client = None, sf_next = -1, sf_prev = -2, sf_mask = 0, sf_bits = -1\<rparr>"

definition isClear :: "'c fdstate \<Rightarrow> bool" where "isClear f = (sf_prev f = -2)"
definition isReady :: "'c fdstate \<Rightarrow> bool" where "isReady f = (sf_mask f AND sf_bits f \<noteq> 0)"
definition isOnReadyList :: "'c fdstate \<Rightarrow> bool" where "isOnReadyList f = (0 \<le> sf_next f)"

text \<open>
  The system calls. \<open>fcntl\<close> with F\_GETFL does not use its third argument, so \<open>flags\<close> keeps what it held,
  \<open>garbage\<close>. \<open>sigtimedwait\<close> returns the signal, its descriptor and its band; the purge is the pair of
  \<open>signal\<close> calls that clears the queue of signals.
\<close>

record ('c, 'x) sig_calls =
  sc_getfl :: "int \<Rightarrow> 'x \<Rightarrow> errno option \<times> 'x"
  sc_setfl :: "int \<Rightarrow> 32 word \<Rightarrow> 'x \<Rightarrow> errno option \<times> 'x"
  sc_setsig :: "int \<Rightarrow> int \<Rightarrow> 'x \<Rightarrow> errno option \<times> 'x"
  sc_setown :: "int \<Rightarrow> 'x \<Rightarrow> errno option \<times> 'x"
  garbage :: "32 word"
  sc_procmask :: "bool \<Rightarrow> int \<Rightarrow> 'x \<Rightarrow> rc \<times> 'x"
  sc_sigwait :: "int \<Rightarrow> int \<times> int \<Rightarrow> 'x \<Rightarrow> (int \<times> int \<times> mask) option \<times> 'x"
  sc_purge :: "int \<Rightarrow> 'x \<Rightarrow> 'x"
  sc_poll :: "'x poll_call"
  sc_realloc :: "'c fdstate reallocf"
  sc_realloc1 :: "int reallocf"
  sc_realloc2 :: "'c option reallocf"
  sc_realloc3 :: "pollfd reallocf"

definition setSignum :: "('c, 'x) sig_calls \<Rightarrow> int \<Rightarrow> 'c poller_sigio \<Rightarrow> 'x \<Rightarrow> rc \<times> 'c poller_sigio \<times> 'x" where
  "setSignum C signum s x = (case sc_procmask C True signum x of (r, x1) \<Rightarrow> (r, s\<lparr>sg_signum := signum\<rparr>, x1))"

text \<open>\<open>init\<close>: \<open>mem\<close> is what \<open>malloc\<close> returns, \<open>mem1\<close> to \<open>mem3\<close> are those of the backup.\<close>

definition sg_init ::
  "'c fdstate list option \<Rightarrow> int list option \<Rightarrow> 'c option list option \<Rightarrow> pollfd list option \<Rightarrow> 'c poller_sigio \<Rightarrow>
   rc \<times> 'c poller_sigio" where
  "sg_init mem mem1 mem2 mem3 s =
     (let s1 = s\<lparr>sg_used := 0, sg_alloc := 16\<rparr> in
      case mem of
        None \<Rightarrow> (Fail ENOMEM, s1\<lparr>sg_fds := []\<rparr>)
      | Some m \<Rightarrow>
          (case pp_init mem1 mem2 mem3 (sg_backup s1) of (r, b) \<Rightarrow>
             (r, s1\<lparr>sg_fds := map (\<lambda>f. cleared) m, sg_head := -1, sg_next := -1, sg_count := 0, sg_backup := b\<rparr>)))"

subsection \<open>The list of ready descriptors\<close>

definition fd_state :: "'c poller_sigio \<Rightarrow> int \<Rightarrow> 'c fdstate option" where
  "fd_state s fd = rdi (sg_fds s) fd"

definition upd_fd :: "'c poller_sigio \<Rightarrow> int \<Rightarrow> ('c fdstate \<Rightarrow> 'c fdstate) \<Rightarrow> 'c poller_sigio option" where
  "upd_fd s fd g = do { f \<leftarrow> fd_state s fd; fs \<leftarrow> wri (sg_fds s) fd (g f); Some (s\<lparr>sg_fds := fs\<rparr>) }"

definition readyListAdd :: "'c poller_sigio \<Rightarrow> int \<Rightarrow> 'c poller_sigio option" where
  "readyListAdd s fd = do {
     f \<leftarrow> fd_state s fd;
     assertion (sf_next f < 0);
     assertion (sf_prev f < 0);
     s1 \<leftarrow> (if sg_count s = 0 then do {
              a \<leftarrow> upd_fd s fd (\<lambda>f. f\<lparr>sf_next := fd, sf_prev := fd\<rparr>);
              Some (a\<lparr>sg_head := fd\<rparr>)
            }
            else do {
              h \<leftarrow> fd_state s (sg_head s);
              let head_prev = sf_prev h;
              a \<leftarrow> upd_fd s fd (\<lambda>f. f\<lparr>sf_prev := head_prev, sf_next := sg_head s\<rparr>);
              b \<leftarrow> upd_fd a head_prev (\<lambda>f. f\<lparr>sf_next := fd\<rparr>);
              upd_fd b (sg_head b) (\<lambda>f. f\<lparr>sf_prev := fd\<rparr>)
            });
     let s2 = s1\<lparr>sg_count := sg_count s1 + 1\<rparr>;
     Some (if sg_next s2 = -1 then s2\<lparr>sg_next := fd\<rparr> else s2)
   }"

definition readyListDel :: "'c poller_sigio \<Rightarrow> int \<Rightarrow> 'c poller_sigio option" where
  "readyListDel s fd = do {
     f \<leftarrow> fd_state s fd;
     let next = sf_next f;
     let prev = sf_prev f;
     assertion (next \<ge> 0);
     assertion (prev \<ge> 0);
     assertion (sg_count s > 0);
     assertion (sg_head s \<ge> 0);
     s1 \<leftarrow> (if sg_count s = 1 then do {
              assertion (fd = sg_head s);
              assertion (next = prev);
              Some (s\<lparr>sg_head := -1, sg_next := -1\<rparr>)
            }
            else do {
              let a = (if sg_head s = fd then s\<lparr>sg_head := next\<rparr> else s);
              let b = (if sg_next a = fd then a\<lparr>sg_next := next\<rparr> else a);
              c \<leftarrow> upd_fd b prev (\<lambda>f. f\<lparr>sf_next := next\<rparr>);
              upd_fd c next (\<lambda>f. f\<lparr>sf_prev := prev\<rparr>)
            });
     s2 \<leftarrow> upd_fd s1 fd (\<lambda>f. f\<lparr>sf_next := -1, sf_prev := -1\<rparr>);
     Some (s2\<lparr>sg_count := sg_count s2 - 1\<rparr>)
   }"

definition readyListUpdate :: "'c poller_sigio \<Rightarrow> int \<Rightarrow> 'c poller_sigio option" where
  "readyListUpdate s fd = do {
     f \<leftarrow> fd_state s fd;
     if isOnReadyList f then (if \<not> isReady f then readyListDel s fd else Some s)
     else (if isReady f then readyListAdd s fd else Some s)
   }"

subsection \<open>Adding, deleting, masks\<close>

definition sg_grow :: "'c fdstate reallocf \<Rightarrow> 'c poller_sigio \<Rightarrow> int \<Rightarrow> (rc \<times> 'c poller_sigio) option" where
  "sg_grow ra s fd =
     (if fd \<ge> sg_alloc s then do {
        let n = max (sg_alloc s * 2) (fd + 1);
        assertion (n < 2 ^ 31);
        case ra (nat n) (sg_fds s) of
          None \<Rightarrow> Some (Fail ENOMEM, s)
        | Some newfds \<Rightarrow> do {
            assertion (nat n \<le> length newfds);
            Some (OK, s\<lparr>sg_fds := take (nat (sg_alloc s)) newfds @ replicate (nat (n - sg_alloc s)) cleared @ drop (nat n) newfds,
                        sg_alloc := n\<rparr>)
          }
      }
      else Some (OK, s))"

text \<open>The four \<open>fcntl\<close> calls of \<open>add\<close>, up to the first that fails.\<close>

definition arm :: "('c, 'x) sig_calls \<Rightarrow> int \<Rightarrow> int \<Rightarrow> 'x \<Rightarrow> errno option \<times> 'x" where
  "arm C signum fd x =
     (case sc_getfl C fd x of (Some e, x1) \<Rightarrow> (Some e, x1) | (None, x1) \<Rightarrow>
     (case sc_setfl C fd (garbage C OR (O_NONBLOCK_flag OR O_ASYNC)) x1 of (Some e, x2) \<Rightarrow> (Some e, x2) | (None, x2) \<Rightarrow>
     (case sc_setsig C fd signum x2 of (Some e, x3) \<Rightarrow> (Some e, x3) | (None, x3) \<Rightarrow>
      sc_setown C fd x3)))"

definition sg_add ::
  "('c, 'x) sig_calls \<Rightarrow> 'c poller_sigio \<Rightarrow> int \<Rightarrow> 'c \<Rightarrow> mask \<Rightarrow> 'x \<Rightarrow> (rc \<times> 'c poller_sigio \<times> 'x) option" where
  "sg_add C s fd client eventmask x = do {
     (r, s1) \<leftarrow> sg_grow (sc_realloc C) s fd;
     if r \<noteq> OK then Some (r, s1, x)
     else (case arm C (sg_signum s1) fd x of
         (Some e, x1) \<Rightarrow> Some (Fail e, s1, x1)
       | (None, x1) \<Rightarrow> do {
           s2 \<leftarrow> upd_fd (s1\<lparr>sg_used := sg_used s1 + 1\<rparr>) fd (\<lambda>f. f\<lparr>sf_mask := eventmask, sf_bits := POLLIN OR POLLOUT, sf_prev := -1\<rparr>);
           s3 \<leftarrow> readyListUpdate s2 fd;
           s4 \<leftarrow> upd_fd s3 fd (\<lambda>f. f\<lparr>sf_client := Some client\<rparr>);
           (q, b) \<leftarrow> pp_add (sc_realloc1 C) (sc_realloc2 C) (sc_realloc3 C) (sg_backup s4) fd client (POLLIN OR POLLPRI OR POLLOUT);
           Some (q, s4\<lparr>sg_backup := b\<rparr>, x1)
         })
   }"

definition sg_del :: "('c, 'x) sig_calls \<Rightarrow> 'c poller_sigio \<Rightarrow> int \<Rightarrow> 'x \<Rightarrow> (rc \<times> 'c poller_sigio \<times> 'x) option" where
  "sg_del C s fd x =
     (if fd < 0 \<or> fd \<ge> sg_alloc s \<or> sg_used s = 0 then Some (Fail EINVAL, s, x)
      else (case sc_getfl C fd x of
          (Some e, x1) \<Rightarrow> Some (Fail e, s, x1)
        | (None, x1) \<Rightarrow> (case sc_setfl C fd (garbage C AND NOT O_ASYNC) x1 of
            (Some e, x2) \<Rightarrow> Some (Fail e, s, x2)
          | (None, x2) \<Rightarrow> do {
              f \<leftarrow> fd_state s fd;
              s1 \<leftarrow> (if isOnReadyList f then readyListDel s fd else Some s);
              s2 \<leftarrow> upd_fd s1 fd (\<lambda>f. cleared);
              (q, b) \<leftarrow> pp_del (sg_backup s2) fd;
              Some (q, s2\<lparr>sg_used := sg_used s2 - 1, sg_backup := b\<rparr>, x2)
            })))"

text \<open>The common part of \<open>setMask\<close>, \<open>orMask\<close> and \<open>andMask\<close>; \<open>watched\<close> is their guard.\<close>

definition watched :: "'c poller_sigio \<Rightarrow> int \<Rightarrow> bool option" where
  "watched s fd =
     (if fd < 0 \<or> fd \<ge> sg_alloc s \<or> sg_used s = 0 then Some False
      else do { f \<leftarrow> fd_state s fd; Some (\<not> isClear f) })"

definition sg_mask :: "(mask \<Rightarrow> mask) \<Rightarrow> 'c poller_sigio \<Rightarrow> int \<Rightarrow> (rc \<times> 'c poller_sigio) option" where
  "sg_mask g s fd = do {
     b \<leftarrow> watched s fd;
     if \<not> b then Some (Fail ENOENT, s)
     else do {
       s1 \<leftarrow> upd_fd s fd (\<lambda>f. f\<lparr>sf_mask := g (sf_mask f)\<rparr>);
       s2 \<leftarrow> readyListUpdate s1 fd;
       Some (OK, s2)
     }
   }"

definition sg_setMask :: "'c poller_sigio \<Rightarrow> int \<Rightarrow> mask \<Rightarrow> (rc \<times> 'c poller_sigio) option" where
  "sg_setMask s fd eventmask = sg_mask (\<lambda>m. eventmask) s fd"

definition sg_orMask :: "'c poller_sigio \<Rightarrow> int \<Rightarrow> mask \<Rightarrow> (rc \<times> 'c poller_sigio) option" where
  "sg_orMask s fd eventmask = sg_mask (\<lambda>m. m OR eventmask) s fd"

definition sg_andMask :: "'c poller_sigio \<Rightarrow> int \<Rightarrow> mask \<Rightarrow> (rc \<times> 'c poller_sigio) option" where
  "sg_andMask s fd eventmask = sg_mask (\<lambda>m. m AND eventmask) s fd"

definition sg_clearReadiness :: "'c poller_sigio \<Rightarrow> int \<Rightarrow> mask \<Rightarrow> 'c poller_sigio option" where
  "sg_clearReadiness s fd eventmask = do {
     b \<leftarrow> watched s fd;
     if \<not> b then Some s
     else do { s1 \<leftarrow> upd_fd s fd (\<lambda>f. f\<lparr>sf_bits := sf_bits f AND NOT eventmask\<rparr>); readyListUpdate s1 fd }
   }"

subsection \<open>Events\<close>

text \<open>The body of the first loop of \<open>waitForEvents\<close>, for a signal of descriptor \<open>fd\<close>, and of the second.\<close>

definition take_signal :: "'c poller_sigio \<Rightarrow> int \<Rightarrow> mask \<Rightarrow> 'c poller_sigio option" where
  "take_signal s fd band = do {
     b \<leftarrow> watched s fd;
     if \<not> b then Some s
     else do {
       s1 \<leftarrow> upd_fd s fd (\<lambda>f. f\<lparr>sf_bits := sf_bits f OR (band AND (POLLIN OR POLLPRI OR POLLOUT OR POLLERR OR POLLHUP OR POLLNVAL))\<rparr>);
       readyListUpdate s1 fd
     }
   }"

definition take_polled :: "'c poller_sigio \<Rightarrow> int \<Rightarrow> mask \<Rightarrow> 'c poller_sigio option" where
  "take_polled s fd revents = do {
     b \<leftarrow> watched s fd;
     if \<not> b then Some s
     else do {
       f \<leftarrow> fd_state s fd;
       if sf_bits f = revents then Some s
       else do { s1 \<leftarrow> upd_fd s fd (\<lambda>f. f\<lparr>sf_bits := revents\<rparr>); readyListUpdate s1 fd }
     }
   }"

text \<open>The loop over the signals: whether the queue of signals has overflowed.\<close>

partial_function (option) pull_signals ::
  "('c, 'x) sig_calls \<Rightarrow> int \<times> int \<Rightarrow> 'c poller_sigio \<times> 'x \<Rightarrow> (bool \<times> 'c poller_sigio \<times> 'x) option" where
  "pull_signals C timeout sx =
     (case sc_sigwait C (sg_signum (fst sx)) timeout (snd sx) of
        (None, x1) \<Rightarrow> Some (False, fst sx, x1)
      | (Some sig, x1) \<Rightarrow>
          if fst sig = SIGIO then Some (True, fst sx, x1)
          else do {
            assertion (fst sig = sg_signum (fst sx));
            s1 \<leftarrow> take_signal (fst sx) (fst (snd sig)) (snd (snd sig));
            pull_signals C (0, 0) (s1, x1)
          })"

partial_function (option) take_backup :: "'c poller_sigio \<Rightarrow> 'c poller_sigio option" where
  "take_backup s = do {
     (r, ev, b) \<leftarrow> pp_getNextEvent (sg_backup s);
     case ev of
       None \<Rightarrow> Some (s\<lparr>sg_backup := b\<rparr>)
     | Some e \<Rightarrow> do {
         s1 \<leftarrow> take_polled (s\<lparr>sg_backup := b\<rparr>) (ev_fd e) (ev_revents e);
         take_backup s1
       }
   }"

definition sg_waitForEvents ::
  "('c, 'x) sig_calls \<Rightarrow> int \<Rightarrow> 'c poller_sigio \<Rightarrow> 'x \<Rightarrow> (rc \<times> 'c poller_sigio \<times> 'x) option" where
  "sg_waitForEvents C timeout s x = do {
     let timeout1 = (if sg_head s < 0 then (cdiv timeout 1000, cmod timeout 1000 * 1000000) else (0, 0));
     (overflowed, s1, x1) \<leftarrow> pull_signals C timeout1 (s\<lparr>sg_next := sg_head s\<rparr>, x);
     (s2, x2) \<leftarrow>
       (if overflowed then do {
          (r, b, x2) \<leftarrow> pp_waitForEvents (sc_poll C) 0 (sg_backup s1) (sc_purge C (sg_signum s1) x1);
          s2 \<leftarrow> take_backup (s1\<lparr>sg_backup := b\<rparr>);
          Some (s2, x2)
        }
        else Some (s1, x1));
     Some (if sg_count s2 \<noteq> 0 then OK else Fail EWOULDBLOCK, s2, x2)
   }"

definition sg_getNextEvent :: "'c poller_sigio \<Rightarrow> (rc \<times> 'c poll_event option \<times> 'c poller_sigio) option" where
  "sg_getNextEvent s =
     (if sg_next s < 1 then Some (Fail EWOULDBLOCK, None, s)
      else do {
        f \<leftarrow> fd_state s (sg_next s);
        Some (OK, Some \<lparr>ev_fd = sg_next s, ev_revents = sf_bits f AND sf_mask f, ev_client = sf_client f\<rparr>,
              s\<lparr>sg_next := (if sf_next f = sg_head s then -1 else sf_next f)\<rparr>)
      })"

partial_function (option) sg_dispatch ::
  "('c, 'x) sig_calls \<Rightarrow> ('c, 'c poller_sigio \<times> 'x) notify \<Rightarrow> 'c poller_sigio \<times> 'x \<Rightarrow> ('c poller_sigio \<times> 'x) option" where
  "sg_dispatch C notify sx = do {
     (r, e, s1) \<leftarrow> sg_getNextEvent (fst sx);
     case e of
       None \<Rightarrow> Some (s1, snd sx)
     | Some ev \<Rightarrow> (case ev_client ev of
         None \<Rightarrow> None
       | Some c \<Rightarrow> do {
           (err, sx1) \<leftarrow> notify c ev (s1, snd sx);
           if err \<noteq> 0 then do {
             (q, sx2) \<leftarrow> sg_del C (fst sx1) (ev_fd ev) (snd sx1);
             sg_dispatch C notify sx2
           }
           else sg_dispatch C notify sx1
         })
   }"

definition sg_waitAndDispatchEvents ::
  "('c, 'x) sig_calls \<Rightarrow> ('c, 'c poller_sigio \<times> 'x) notify \<Rightarrow> int \<Rightarrow> 'c poller_sigio \<Rightarrow> 'x \<Rightarrow>
   (rc \<times> 'c poller_sigio \<times> 'x) option" where
  "sg_waitAndDispatchEvents C notify timeout s x = do {
     (r, s1, x1) \<leftarrow> sg_waitForEvents C timeout s x;
     if r \<noteq> OK then Some (r, s1, x1)
     else do { sx \<leftarrow> sg_dispatch C notify (s1, x1); Some (OK, sx) }
   }"

text \<open>\<open>shutdown\<close>: delete every descriptor, purge the signals, unblock them, free the memory.\<close>

fun del_all :: "('c, 'x) sig_calls \<Rightarrow> nat \<Rightarrow> 'c poller_sigio \<times> 'x \<Rightarrow> ('c poller_sigio \<times> 'x) option" where
  "del_all C 0 sx = Some sx"
| "del_all C (Suc i) sx =
     (if sg_used (fst sx) > 0 then do {
        f \<leftarrow> fd_state (fst sx) (int i);
        sx1 \<leftarrow> (if \<not> isClear f then do { (q, sx1) \<leftarrow> sg_del C (fst sx) (int i) (snd sx); Some sx1 } else Some sx);
        del_all C i sx1
      }
      else Some sx)"

definition sg_shutdown :: "('c, 'x) sig_calls \<Rightarrow> 'c poller_sigio \<Rightarrow> 'x \<Rightarrow> ('c poller_sigio \<times> 'x) option" where
  "sg_shutdown C s x = do {
     (s1, x1) \<leftarrow> del_all C (nat (sg_alloc s)) (s, x);
     (r, s2, x2) \<leftarrow> sg_waitForEvents C 0 s1 x1;
     let (q, x3) = sc_procmask C False (sg_signum s2) x2;
     Some (s2\<lparr>sg_backup := pp_shutdown (sg_backup s2), sg_fds := []\<rparr>, x3)
   }"

end
