(* ===== verification/Poller_sigio_list.thy ===== *)
theory Poller_sigio_list
  imports Poller_sigio
begin

unbundle bit_operations_syntax

text \<open>
  The circular list of ready descriptors: the shape of the links in the array, and what the three
  operations on the list do to the plain list of descriptors it stands for.
\<close>

subsection \<open>Rings\<close>

fun chain :: "('a \<Rightarrow> 'a) \<Rightarrow> ('a \<Rightarrow> 'a) \<Rightarrow> 'a list \<Rightarrow> bool" where
  "chain n p [] = True"
| "chain n p [a] = True"
| "chain n p (a # b # r) = (n a = b \<and> p b = a \<and> chain n p (b # r))"

definition ring :: "('a \<Rightarrow> 'a) \<Rightarrow> ('a \<Rightarrow> 'a) \<Rightarrow> 'a list \<Rightarrow> bool" where
  "ring n p L = (chain n p L \<and> (L \<noteq> [] \<longrightarrow> n (last L) = hd L \<and> p (hd L) = last L))"

lemma chain_append:
  "chain n p (A @ B) \<longleftrightarrow> chain n p A \<and> chain n p B \<and> (A \<noteq> [] \<and> B \<noteq> [] \<longrightarrow> n (last A) = hd B \<and> p (hd B) = last A)"
proof (induction A)
  case (Cons a A)
  then show ?case by (cases A; cases B) auto
qed simp

lemma chain_cong:
  "(\<And>x. x \<in> set (butlast L) \<Longrightarrow> n' x = n x) \<Longrightarrow> (\<And>x. x \<in> set (tl L) \<Longrightarrow> p' x = p x) \<Longrightarrow> chain n' p' L = chain n p L"
proof (induction L)
  case (Cons a L)
  show ?case
  proof (cases L)
    case (Cons b M)
    have "chain n' p' (b # M) = chain n p (b # M)"
      using Cons.IH Cons.prems unfolding Cons by simp
    then show ?thesis using Cons.prems unfolding Cons by auto
  qed simp
qed simp

lemma chain_Cons: "chain n p (x # B) \<longleftrightarrow> chain n p B \<and> (B \<noteq> [] \<longrightarrow> n x = hd B \<and> p (hd B) = x)"
  by (cases B) auto

text \<open>What the neighbours of a node are, and that the rest are chains.\<close>

lemma ring_split:
  assumes "ring n p (A @ x # B)"
  shows "chain n p A" "chain n p B"
    and "n x = hd (B @ A @ [x])" "p x = last (x # B @ A)"
    and "A \<noteq> [] \<Longrightarrow> n (last A) = x" "B \<noteq> [] \<Longrightarrow> p (hd B) = x"
    and "A \<noteq> [] \<Longrightarrow> B \<noteq> [] \<Longrightarrow> n (last B) = hd A \<and> p (hd A) = last B"
  using assms by (auto simp: ring_def chain_append chain_Cons hd_append last_append split: if_splits)

lemma ring_next_in: "ring n p L \<Longrightarrow> x \<in> set L \<Longrightarrow> n x \<in> set L"
proof -
  assume r: "ring n p L" and x: "x \<in> set L"
  obtain A B where L: "L = A @ x # B" using x by (auto simp: in_set_conv_decomp)
  have "hd (B @ A @ [x]) \<in> set (B @ A @ [x])" by (rule hd_in_set) simp
  then show "n x \<in> set L" using ring_split(3)[OF r[unfolded L]] unfolding L by auto
qed

lemma ring_prev_in: "ring n p L \<Longrightarrow> x \<in> set L \<Longrightarrow> p x \<in> set L"
proof -
  assume r: "ring n p L" and x: "x \<in> set L"
  obtain A B where L: "L = A @ x # B" using x by (auto simp: in_set_conv_decomp)
  have "last (x # B @ A) \<in> set (x # B @ A)" by (rule last_in_set) simp
  then show "p x \<in> set L" using ring_split(4)[OF r[unfolded L]] unfolding L by auto
qed

lemma ring_pos:
  fixes n p :: "int \<Rightarrow> int"
  assumes "ring n p L" "\<And>x. x \<in> set L \<Longrightarrow> 0 \<le> x" "x \<in> set L"
  shows "0 \<le> n x" "0 \<le> p x"
  using assms(2)[OF ring_next_in[OF assms(1,3)]] assms(2)[OF ring_prev_in[OF assms(1,3)]] by simp_all

lemma last_not_butlast: "distinct L \<Longrightarrow> last L \<notin> set (butlast L)"
  by (induction L) auto

lemma hd_not_tl: "distinct L \<Longrightarrow> L \<noteq> [] \<Longrightarrow> hd L \<notin> set (tl L)"
  by (cases L) auto

lemma in_set_tl: "x \<in> set (tl L) \<Longrightarrow> x \<in> set L"
  by (cases L) auto

lemma ring_insert:
  assumes r: "ring n p L" and d: "distinct L" and x: "x \<notin> set L" and ne: "L \<noteq> []"
  shows "ring (n(x := hd L, p (hd L) := x)) (p(x := p (hd L), hd L := x)) (L @ [x])"
proof -
  have pl: "p (hd L) = last L" and c: "chain n p L" using r ne by (simp_all add: ring_def)
  have "chain (n(x := hd L, last L := x)) (p(x := last L, hd L := x)) L = chain n p L"
    by (rule chain_cong) (use x last_not_butlast[OF d] hd_not_tl[OF d ne] in \<open>auto dest: in_set_butlastD in_set_tl\<close>)
  then show ?thesis
    using x ne c by (auto simp: ring_def chain_append pl)
qed

lemma ring_delete:
  assumes r: "ring n p (A @ x # B)" and d: "distinct (A @ x # B)" and ne: "A @ B \<noteq> []"
  shows "ring (n(p x := n x, x := k)) (p(n x := p x, x := k')) (A @ B)"
proof -
  let ?n = "n(p x := n x, x := k)" and ?p = "p(n x := p x, x := k')"
  note sp = ring_split[OF r]
  have nx: "n x = (if B = [] then hd A else hd B)" and px: "p x = (if A = [] then last B else last A)"
    using sp(3,4) ne by (auto simp: hd_append last_append)
  have dA: "distinct A" "distinct B" "set A \<inter> set B = {}" "x \<notin> set A" "x \<notin> set B" using d by auto
  have mem: "z \<in> set A \<Longrightarrow> z \<notin> set (butlast B) \<and> z \<notin> set (tl B)" "z \<in> set B \<Longrightarrow> z \<notin> set (butlast A) \<and> z \<notin> set (tl A)" for z
    using dA(3) by (auto dest: in_set_butlastD in_set_tl)
  have own: "last A \<notin> set (butlast A)" "last B \<notin> set (butlast B)" "A \<noteq> [] \<Longrightarrow> hd A \<notin> set (tl A)" "B \<noteq> [] \<Longrightarrow> hd B \<notin> set (tl B)"
    using last_not_butlast hd_not_tl dA(1,2) by metis+
  have ends: "A \<noteq> [] \<Longrightarrow> B \<noteq> [] \<Longrightarrow> last A \<noteq> last B \<and> hd A \<noteq> hd B"
    using dA(3) by (metis disjoint_iff hd_in_set last_in_set)
  have out: "p x \<notin> set (butlast A)" "p x \<notin> set (butlast B)" "n x \<notin> set (tl A)" "n x \<notin> set (tl B)"
    using ne own mem by (cases "A = []"; cases "B = []"; simp add: nx px)+
  define n' p' where "n' = ?n" and "p' = ?p"
  have c: "chain n' p' A = chain n p A" "chain n' p' B = chain n p B"
    unfolding n'_def p'_def by (rule chain_cong; use out dA in_set_butlastD in_set_tl in fastforce)+
  have e: "A \<noteq> [] \<Longrightarrow> n' (last A) = n x" "B \<noteq> [] \<Longrightarrow> p' (hd B) = p x"
    using nx px dA by (auto simp: n'_def p'_def)
  have f: "B \<noteq> [] \<Longrightarrow> n' (last B) = (if A = [] then n x else hd A)" "A \<noteq> [] \<Longrightarrow> p' (hd A) = (if B = [] then p x else last B)"
    using nx px sp(7) dA ends by (cases "A = []"; cases "B = []"; auto simp: n'_def p'_def)+
  have "ring n' p' (A @ B)"
    using sp(1,2) c e f nx px ne by (cases "A = []"; cases "B = []"; simp add: ring_def chain_append)
  then show ?thesis by (simp add: n'_def p'_def)
qed

subsection \<open>The list in the array\<close>

definition nx :: "'c poller_sigio \<Rightarrow> int \<Rightarrow> int" where
  "nx s i = (case fd_state s i of None \<Rightarrow> -1 | Some f \<Rightarrow> sf_next f)"

definition pv :: "'c poller_sigio \<Rightarrow> int \<Rightarrow> int" where
  "pv s i = (case fd_state s i of None \<Rightarrow> -1 | Some f \<Rightarrow> sf_prev f)"

definition data :: "'c poller_sigio \<Rightarrow> int \<Rightarrow> ('c option \<times> mask \<times> mask) option" where
  "data s i = map_option (\<lambda>f. (sf_client f, sf_mask f, sf_bits f)) (fd_state s i)"

definition slot :: "'c poller_sigio \<Rightarrow> int \<Rightarrow> bool" where
  "slot s i = (0 \<le> i \<and> i < int (length (sg_fds s)))"

text \<open>The ready list of \<open>s\<close> is \<open>L\<close>; an entry that is not in it has no neighbours.\<close>

definition sg_list :: "'c poller_sigio \<Rightarrow> int list \<Rightarrow> bool" where
  "sg_list s L =
     (distinct L \<and> (\<forall>i \<in> set L. slot s i) \<and> ring (nx s) (pv s) L \<and> sg_head s = (if L = [] then -1 else hd L) \<and>
      sg_count s = int (length L) \<and> (\<forall>i. slot s i \<and> i \<notin> set L \<longrightarrow> nx s i = -1 \<and> (pv s i = -1 \<or> pv s i = -2)))"

text \<open>What the list operations leave alone.\<close>

definition same_data :: "'c poller_sigio \<Rightarrow> 'c poller_sigio \<Rightarrow> bool" where
  "same_data s s' =
     (length (sg_fds s') = length (sg_fds s) \<and> data s' = data s \<and> (\<forall>i. pv s' i = -2 \<longleftrightarrow> pv s i = -2) \<and>
      sg_backup s' = sg_backup s \<and> sg_signum s' = sg_signum s \<and> sg_alloc s' = sg_alloc s \<and> sg_used s' = sg_used s)"

lemma slot_state: "slot s i \<longleftrightarrow> fd_state s i \<noteq> None"
  by (auto simp: slot_def fd_state_def rdi_def rd_def)

lemma fd_state_Some: "slot s i \<Longrightarrow> fd_state s i = Some (sg_fds s ! nat i)"
  by (auto simp: slot_def fd_state_def)

lemma same_data_refl: "same_data s s" by (simp add: same_data_def)

lemma same_data_slot: "same_data s s' \<Longrightarrow> slot s' = slot s"
  by (simp add: same_data_def slot_def fun_eq_iff)

lemma upd_fd_Some:
  assumes "slot s i"
  shows "\<exists>s'. upd_fd s i g = Some s' \<and> s' = s\<lparr>sg_fds := (sg_fds s)[nat i := g (sg_fds s ! nat i)]\<rparr> \<and>
              fd_state s' = (fd_state s)(i \<mapsto> g (the (fd_state s i)))"
proof -
  let ?s = "s\<lparr>sg_fds := (sg_fds s)[nat i := g (sg_fds s ! nat i)]\<rparr>"
  have "fd_state ?s j = ((fd_state s)(i \<mapsto> g (the (fd_state s i)))) j" for j
    using assms by (auto simp: fd_state_def rdi_def rd_def slot_def nth_list_update nat_eq_iff2)
  then show ?thesis using assms by (auto simp: upd_fd_def fd_state_Some slot_def)
qed

text \<open>What one of the link updates leaves alone beside the links themselves.\<close>

definition same_frame :: "'c poller_sigio \<Rightarrow> 'c poller_sigio \<Rightarrow> bool" where
  "same_frame s s' =
     (data s' = data s \<and> slot s' = slot s \<and> length (sg_fds s') = length (sg_fds s) \<and> sg_backup s' = sg_backup s \<and>
      sg_signum s' = sg_signum s \<and> sg_alloc s' = sg_alloc s \<and> sg_used s' = sg_used s \<and> sg_head s' = sg_head s \<and>
      sg_next s' = sg_next s \<and> sg_count s' = sg_count s)"

text \<open>Changes of the two links only.\<close>

lemma upd_links:
  assumes "slot s i" and g: "\<And>f. sf_client (g f) = sf_client f" "\<And>f. sf_mask (g f) = sf_mask f" "\<And>f. sf_bits (g f) = sf_bits f"
  shows "\<exists>s'. upd_fd s i g = Some s' \<and> same_frame s s' \<and>
     nx s' = (nx s)(i := sf_next (g (the (fd_state s i)))) \<and> pv s' = (pv s)(i := sf_prev (g (the (fd_state s i))))"
proof -
  obtain s' where s': "upd_fd s i g = Some s'" "s' = s\<lparr>sg_fds := (sg_fds s)[nat i := g (sg_fds s ! nat i)]\<rparr>"
    "fd_state s' = (fd_state s)(i \<mapsto> g (the (fd_state s i)))" using upd_fd_Some[OF assms(1), of g] by blast
  have "data s' = data s"
    using assms(1) by (auto simp: fun_eq_iff data_def s'(3) g slot_state)
  moreover have "slot s' = slot s" using s'(2) by (simp add: slot_def fun_eq_iff)
  moreover have "nx s' = (nx s)(i := sf_next (g (the (fd_state s i))))" "pv s' = (pv s)(i := sf_prev (g (the (fd_state s i))))"
    by (auto simp: fun_eq_iff nx_def pv_def s'(3))
  ultimately show ?thesis using s'(1,2) by (simp add: same_frame_def)
qed

lemma nx_pv_state: "slot s i \<Longrightarrow> fd_state s i = Some f \<Longrightarrow> sf_next f = nx s i \<and> sf_prev f = pv s i"
  by (simp add: nx_def pv_def)

lemma upd_both:
  assumes "slot s i" and "\<And>f. g f = f\<lparr>sf_next := a, sf_prev := b\<rparr>"
  shows "\<exists>s'. upd_fd s i g = Some s' \<and> same_frame s s' \<and> nx s' = (nx s)(i := a) \<and> pv s' = (pv s)(i := b)"
  using upd_links[OF assms(1), of g] unfolding assms(2) by simp

lemma upd_next:
  assumes "slot s i"
  shows "\<exists>s'. upd_fd s i (\<lambda>f. f\<lparr>sf_next := a\<rparr>) = Some s' \<and> same_frame s s' \<and> nx s' = (nx s)(i := a) \<and> pv s' = pv s"
proof -
  obtain f where f: "fd_state s i = Some f" using assms slot_state by blast
  have "(pv s)(i := sf_prev f) = pv s" using nx_pv_state[OF assms f] by simp
  then show ?thesis using upd_links[OF assms, of "\<lambda>f. f\<lparr>sf_next := a\<rparr>"] by (simp add: f)
qed

lemma upd_prev:
  assumes "slot s i"
  shows "\<exists>s'. upd_fd s i (\<lambda>f. f\<lparr>sf_prev := b\<rparr>) = Some s' \<and> same_frame s s' \<and> nx s' = nx s \<and> pv s' = (pv s)(i := b)"
proof -
  obtain f where f: "fd_state s i = Some f" using assms slot_state by blast
  have "(nx s)(i := sf_next f) = nx s" using nx_pv_state[OF assms f] by simp
  then show ?thesis using upd_links[OF assms, of "\<lambda>f. f\<lparr>sf_prev := b\<rparr>"] by (simp add: f)
qed

lemma same_frame_trans: "same_frame s t \<Longrightarrow> same_frame t u \<Longrightarrow> same_frame s u"
  by (simp add: same_frame_def)

lemma record_fields:
  "fd_state (s\<lparr>sg_head := a\<rparr>) = fd_state s" "fd_state (s\<lparr>sg_next := a\<rparr>) = fd_state s" "fd_state (s\<lparr>sg_count := a\<rparr>) = fd_state s"
  "fd_state (s\<lparr>sg_used := a\<rparr>) = fd_state s" "fd_state (s\<lparr>sg_backup := b\<rparr>) = fd_state s"
  by (simp_all add: fd_state_def fun_eq_iff)

lemma record_views [simp]:
  "nx (s\<lparr>sg_head := a\<rparr>) = nx s" "nx (s\<lparr>sg_next := a\<rparr>) = nx s" "nx (s\<lparr>sg_count := a\<rparr>) = nx s" "nx (s\<lparr>sg_used := a\<rparr>) = nx s"
  "pv (s\<lparr>sg_head := a\<rparr>) = pv s" "pv (s\<lparr>sg_next := a\<rparr>) = pv s" "pv (s\<lparr>sg_count := a\<rparr>) = pv s" "pv (s\<lparr>sg_used := a\<rparr>) = pv s"
  "data (s\<lparr>sg_head := a\<rparr>) = data s" "data (s\<lparr>sg_next := a\<rparr>) = data s" "data (s\<lparr>sg_count := a\<rparr>) = data s" "data (s\<lparr>sg_used := a\<rparr>) = data s"
  "slot (s\<lparr>sg_head := a\<rparr>) = slot s" "slot (s\<lparr>sg_next := a\<rparr>) = slot s" "slot (s\<lparr>sg_count := a\<rparr>) = slot s" "slot (s\<lparr>sg_used := a\<rparr>) = slot s"
  "nx (s\<lparr>sg_backup := b\<rparr>) = nx s" "pv (s\<lparr>sg_backup := b\<rparr>) = pv s" "data (s\<lparr>sg_backup := b\<rparr>) = data s" "slot (s\<lparr>sg_backup := b\<rparr>) = slot s"
  by (simp_all add: nx_def pv_def data_def slot_state record_fields fun_eq_iff)

lemma sg_listD:
  assumes "sg_list s L"
  shows "distinct L" "\<And>i. i \<in> set L \<Longrightarrow> slot s i" "ring (nx s) (pv s) L" "sg_head s = (if L = [] then -1 else hd L)"
    "sg_count s = int (length L)" "\<And>i. slot s i \<Longrightarrow> i \<notin> set L \<Longrightarrow> nx s i = -1 \<and> (pv s i = -1 \<or> pv s i = -2)"
  using assms by (simp_all add: sg_list_def)

text \<open>Membership is what \<open>isOnReadyList\<close> tests.\<close>

lemma in_list_iff:
  assumes L: "sg_list s L" and f: "fd_state s i = Some f"
  shows "isOnReadyList f \<longleftrightarrow> i \<in> set L"
proof -
  have i: "slot s i" using f slot_state by force
  have nf: "sf_next f = nx s i" using nx_pv_state[OF i f] by simp
  have "0 \<le> nx s i" if "i \<in> set L"
    using ring_next_in[OF sg_listD(3)[OF L] that] sg_listD(2)[OF L] by (auto simp: slot_def)
  moreover have "nx s i = -1" if "i \<notin> set L" using sg_listD(6)[OF L i that] by simp
  ultimately show ?thesis unfolding isOnReadyList_def nf by (cases "i \<in> set L") auto
qed

lemma same_dataI:
  assumes "same_frame s s'" "\<And>i. pv s' i = -2 \<longleftrightarrow> pv s i = -2"
  shows "same_data s (s'\<lparr>sg_count := c\<rparr>)" "same_data s (s'\<lparr>sg_count := c, sg_next := d\<rparr>)"
  using assms by (simp_all add: same_data_def same_frame_def)

lemma readyListAdd_lemma:
  assumes L: "sg_list s L" and i: "slot s i" "i \<notin> set L" and used: "pv s i = -1"
  shows "\<exists>s'. readyListAdd s i = Some s' \<and> sg_list s' (L @ [i]) \<and> same_data s s' \<and>
              sg_next s' = (if sg_next s = -1 then i else sg_next s)"
proof -
  obtain f where f: "fd_state s i = Some f" using i(1) slot_state by blast
  have fl: "sf_next f = -1" "sf_prev f = -1" using nx_pv_state[OF i(1) f] sg_listD(6)[OF L i] used by simp_all
  note l = sg_listD[OF L]
  show ?thesis
  proof (cases "L = []")
    case True
    obtain a where a: "upd_fd s i (\<lambda>f. f\<lparr>sf_next := i, sf_prev := i\<rparr>) = Some a" "same_frame s a"
      "nx a = (nx s)(i := i)" "pv a = (pv s)(i := i)" using upd_both[OF i(1), of "\<lambda>f. f\<lparr>sf_next := i, sf_prev := i\<rparr>" i i] by blast
    let ?b = "a\<lparr>sg_head := i, sg_count := sg_count a + 1\<rparr>"
    let ?c = "if sg_next ?b = -1 then ?b\<lparr>sg_next := i\<rparr> else ?b"
    have "readyListAdd s i = Some ?c" using f fl a(1,2) l(5) True by (simp add: readyListAdd_def same_frame_def Let_def)
    moreover have "same_data s ?c" using a i used by (auto simp: same_data_def same_frame_def slot_def)
    moreover have "sg_list ?c (L @ [i])"
      using a l(5,6) i True by (auto simp: sg_list_def ring_def same_frame_def)
    ultimately show ?thesis using a(2) by (auto simp: same_frame_def)
  next
    case False
    let ?h = "hd L" and ?hp = "pv s (hd L)"
    have head: "sg_head s = ?h" "sg_count s \<noteq> 0" using l(4,5) False by simp_all
    have hin: "?h \<in> set L" "?hp \<in> set L" using False ring_prev_in[OF l(3)] by simp_all
    obtain fh where fh: "fd_state s ?h = Some fh" using l(2)[OF hin(1)] slot_state by blast
    have hp: "sf_prev fh = ?hp" using nx_pv_state[OF l(2)[OF hin(1)] fh] by simp
    obtain a where a: "upd_fd s i (\<lambda>f. f\<lparr>sf_prev := ?hp, sf_next := ?h\<rparr>) = Some a" "same_frame s a"
      "nx a = (nx s)(i := ?h)" "pv a = (pv s)(i := ?hp)" using upd_both[OF i(1), where g = "\<lambda>f. f\<lparr>sf_prev := ?hp, sf_next := ?h\<rparr>" and a = ?h and b = ?hp] by auto
    have "slot a ?hp" using a(2) l(2)[OF hin(2)] by (simp add: same_frame_def)
    then obtain b where b: "upd_fd a ?hp (\<lambda>f. f\<lparr>sf_next := i\<rparr>) = Some b" "same_frame a b" "nx b = (nx a)(?hp := i)" "pv b = pv a"
      using upd_next by blast
    have "slot b ?h" using a(2) b(2) l(2)[OF hin(1)] by (simp add: same_frame_def)
    then obtain c where c: "upd_fd b ?h (\<lambda>f. f\<lparr>sf_prev := i\<rparr>) = Some c" "same_frame b c" "nx c = nx b" "pv c = (pv b)(?h := i)"
      using upd_prev by blast
    have fr: "same_frame s c" by (rule same_frame_trans[OF same_frame_trans[OF a(2) b(2)] c(2)])
    have "sg_head b = ?h" using a(2) b(2) head by (simp add: same_frame_def)
    let ?b = "c\<lparr>sg_count := sg_count c + 1\<rparr>"
    let ?c = "if sg_next ?b = -1 then ?b\<lparr>sg_next := i\<rparr> else ?b"
    have "readyListAdd s i = Some ?c"
      using f fl a(1) b(1) c(1) head fh hp \<open>sg_head b = ?h\<close> by (simp add: readyListAdd_def Let_def)
    moreover have ring: "ring (nx c) (pv c) (L @ [i])"
      using ring_insert[OF l(3,1) i(2) False] unfolding a b c .
    have nn: "nx c j = nx s j" "pv c j = pv s j" if "j \<notin> set L" "j \<noteq> i" for j
      using that hin unfolding a b c by auto
    have ge: "0 \<le> x" if "x \<in> set (L @ [i])" for x using that l(2) i(1) by (auto simp: slot_def)
    have "0 \<le> pv c j" "0 \<le> pv s j" if "j \<in> set L" for j
      using ring_pos(2)[OF ring ge, of j] ring_pos(2)[OF l(3) ge, of j] that by simp_all
    then have pos: "pv c j \<noteq> -2" "pv s j \<noteq> -2" if "j \<in> set L" for j using that by fastforce+
    have "0 \<le> pv c i" using ring_pos(2)[OF ring ge, of i] by simp
    then have ip: "pv c i \<noteq> -2" by simp
    have "pv c j = -2 \<longleftrightarrow> pv s j = -2" for j
      by (cases "j \<in> set L"; cases "j = i") (simp_all add: nn(2) pos ip used)
    then have "same_data s ?c" using fr by (simp add: same_data_def same_frame_def)
    moreover have "sg_list ?c (L @ [i])"
      using fr ring l i head nn by (auto simp: sg_list_def same_frame_def)
    ultimately show ?thesis using fr by (auto simp: same_frame_def)
  qed
qed

lemma remove1_split: "distinct (A @ x # B) \<Longrightarrow> remove1 x (A @ x # B) = A @ B"
  by (auto simp: remove1_append)

text \<open>Where the cursor goes when its node is deleted: to the next node, even past the end of the list.\<close>

lemma readyListDel_lemma:
  assumes L: "sg_list s L" and i: "i \<in> set L"
  shows "\<exists>s'. readyListDel s i = Some s' \<and> sg_list s' (remove1 i L) \<and> same_data s s' \<and>
              sg_next s' = (if length L = 1 then -1 else if sg_next s = i then nx s i else sg_next s) \<and> pv s' i = -1"
proof -
  note l = sg_listD[OF L]
  have si: "slot s i" using l(2)[OF i] .
  obtain f where f: "fd_state s i = Some f" using si slot_state by blast
  have nb: "nx s i \<in> set L" "pv s i \<in> set L" using ring_next_in[OF l(3) i] ring_prev_in[OF l(3) i] .
  have fl: "sf_next f = nx s i" "sf_prev f = pv s i" "0 \<le> nx s i" "0 \<le> pv s i"
    using nx_pv_state[OF si f] l(2)[OF nb(1)] l(2)[OF nb(2)] by (simp_all add: slot_def)
  have "L \<noteq> []" using i by auto
  then have cnt: "sg_count s > 0" "sg_head s = hd L" "hd L \<in> set L" "0 \<le> sg_head s"
    using l(4,5) l(2)[of "hd L"] by (simp_all add: slot_def)
  obtain A B where AB: "L = A @ i # B" using i by (auto simp: in_set_conv_decomp)
  have rm: "remove1 i L = A @ B" using remove1_split[of A i B] l(1) by (simp add: AB)
  show ?thesis
  proof (cases "length L = 1")
    case True
    then have one: "L = [i]" "A = []" "B = []" using AB by (auto simp: length_Suc_conv)
    have eq: "nx s i = i" "pv s i = i" using l(3) one by (simp_all add: ring_def)
    let ?a = "s\<lparr>sg_head := -1, sg_next := -1\<rparr>"
    have "slot ?a i" using si by simp
    then obtain b where b: "upd_fd ?a i (\<lambda>f. f\<lparr>sf_next := -1, sf_prev := -1\<rparr>) = Some b" "same_frame ?a b"
      "nx b = (nx ?a)(i := -1)" "pv b = (pv ?a)(i := -1)"
      using upd_both[of ?a i "\<lambda>f. f\<lparr>sf_next := -1, sf_prev := -1\<rparr>" "-1" "-1"] by auto
    have "readyListDel s i = Some (b\<lparr>sg_count := sg_count b - 1\<rparr>)"
      using f fl cnt eq b(1) l(5) one by (simp add: readyListDel_def Let_def)
    moreover have "sg_list (b\<lparr>sg_count := sg_count b - 1\<rparr>) (remove1 i L)"
      using b one l(5,6) by (auto simp: sg_list_def ring_def same_frame_def)
    moreover have "same_data s (b\<lparr>sg_count := sg_count b - 1\<rparr>)"
      using b eq si by (auto simp: same_data_def same_frame_def slot_def)
    ultimately show ?thesis using b True by (auto simp: same_frame_def)
  next
    case False
    then have ne: "A @ B \<noteq> []" using AB by auto
    let ?a = "if sg_head s = i then s\<lparr>sg_head := nx s i\<rparr> else s"
    let ?b = "if sg_next ?a = i then ?a\<lparr>sg_next := nx s i\<rparr> else ?a"
    have vb: "nx ?b = nx s" "pv ?b = pv s" "slot ?b = slot s" "data ?b = data s" by simp_all
    have "slot ?b (pv s i)" using l(2)[OF nb(2)] vb by simp
    then obtain c where c: "upd_fd ?b (pv s i) (\<lambda>f. f\<lparr>sf_next := nx s i\<rparr>) = Some c" "same_frame ?b c"
      "nx c = (nx ?b)(pv s i := nx s i)" "pv c = pv ?b" using upd_next by blast
    have "slot c (nx s i)" using c(2) l(2)[OF nb(1)] vb by (simp add: same_frame_def)
    then obtain d where d: "upd_fd c (nx s i) (\<lambda>f. f\<lparr>sf_prev := pv s i\<rparr>) = Some d" "same_frame c d" "nx d = nx c"
      "pv d = (pv c)(nx s i := pv s i)" using upd_prev by blast
    have "slot d i" using c(2) d(2) si vb by (simp add: same_frame_def)
    then obtain e where e: "upd_fd d i (\<lambda>f. f\<lparr>sf_next := -1, sf_prev := -1\<rparr>) = Some e" "same_frame d e"
      "nx e = (nx d)(i := -1)" "pv e = (pv d)(i := -1)"
      using upd_both[of d i "\<lambda>f. f\<lparr>sf_next := -1, sf_prev := -1\<rparr>" "-1" "-1"] by auto
    have fr: "same_frame ?b e" by (rule same_frame_trans[OF same_frame_trans[OF c(2) d(2)] e(2)])
    have "readyListDel s i = Some (e\<lparr>sg_count := sg_count e - 1\<rparr>)"
      using f fl cnt c(1) d(1) e(1) l(5) False
      by (cases "sg_head s = i"; cases "sg_next s = i") (simp_all add: readyListDel_def Let_def)
    moreover have ring: "ring (nx e) (pv e) (A @ B)"
      using ring_delete[OF l(3)[unfolded AB] l(1)[unfolded AB] ne, of "-1" "-1"] unfolding e d c vb .
    have nn: "nx e j = nx s j" "pv e j = pv s j" if "j \<notin> set L" for j
      using that nb i unfolding e d c vb by auto
    have head: "sg_head e = hd (A @ B)"
    proof (cases "A = []")
      case True
      then have "nx s i = hd B" using ring_split(3)[OF l(3)[unfolded AB]] ne by (cases B) auto
      then show ?thesis using fr cnt(2) True AB by (auto simp: same_frame_def)
    next
      case False
      then have "hd L \<noteq> i" using l(1) AB by (cases A) auto
      then show ?thesis using fr cnt(2) False AB by (auto simp: same_frame_def)
    qed
    have fr': "slot e = slot s" "sg_count e = sg_count s" using fr by (simp_all add: same_frame_def)
    have out: "nx e j = -1 \<and> (pv e j = -1 \<or> pv e j = -2)" if "slot s j" "j \<notin> set (A @ B)" for j
    proof (cases "j = i")
      case True
      then show ?thesis using e(3,4) by simp
    next
      case False
      then have "j \<notin> set L" using that(2) AB by simp
      then show ?thesis using nn[of j] l(6)[OF that(1)] by simp
    qed
    have "sg_list (e\<lparr>sg_count := sg_count e - 1\<rparr>) (remove1 i L)"
      unfolding rm sg_list_def using ring head ne out fr' l(1,2,5) AB by (cases A) simp_all
    moreover have "same_data s (e\<lparr>sg_count := sg_count e - 1\<rparr>)"
    proof -
      have ge: "0 \<le> x" if "x \<in> set L" for x using that l(2) by (auto simp: slot_def)
      have "pv e j \<noteq> -2" if "j \<in> set L" for j
        using ring_pos(2)[OF ring, of j] ge that e(4) AB by (cases "j = i") auto
      then have "pv e j = -2 \<longleftrightarrow> pv s j = -2" for j
        using ring_pos(2)[OF l(3) ge, of j] nn(2)[of j] by (cases "j \<in> set L") auto
      then show ?thesis using fr by (simp add: same_data_def same_frame_def)
    qed
    moreover have "sg_next e = (if sg_next s = i then nx s i else sg_next s)" using fr by (simp add: same_frame_def)
    ultimately show ?thesis using False e(4) by auto
  qed
qed

end
