(* ===== verification/Poller_sigio_proofs.thy ===== *)
theory Poller_sigio_proofs
  imports Poller_sigio_list
begin

unbundle bit_operations_syntax

text \<open>
  The back end on realtime signals does to its arrays what the plain map of monitored descriptors
  says, its ready list is exact at all times, and a wait reports exactly the ready descriptors.
\<close>

subsection \<open>Invariant and abstraction\<close>

definition sg_mon :: "'c poller_sigio \<Rightarrow> int \<Rightarrow> ('c \<times> mask) option" where
  "sg_mon s i = (case data s i of Some (Some c, m, b) \<Rightarrow> Some (c, m) | _ \<Rightarrow> None)"

definition sg_bits :: "'c poller_sigio \<Rightarrow> int \<Rightarrow> mask" where
  "sg_bits s i = (case data s i of Some (c, m, b) \<Rightarrow> b | None \<Rightarrow> 0)"

definition rdy :: "'c poller_sigio \<Rightarrow> int \<Rightarrow> bool" where
  "rdy s i = (case data s i of Some (c, m, b) \<Rightarrow> m AND b \<noteq> 0 | None \<Rightarrow> False)"

definition all_events :: mask where "all_events = POLLIN OR POLLPRI OR POLLOUT"

text \<open>
  The entries that are not in use are as \<open>clear\<close> leaves them, the backup monitors the same descriptors
  for all events, and the ready list holds exactly the descriptors that are ready for what they wait for.
\<close>

definition sg_base :: "'c poller_sigio \<Rightarrow> bool" where
  "sg_base s =
     (int (length (sg_fds s)) = sg_alloc s \<and> 0 < sg_alloc s \<and> sg_alloc s \<le> 2 * int FDLIMIT \<and>
      sg_used s = int (card (dom (sg_mon s))) \<and>
      (\<forall>i. slot s i \<longrightarrow> (sg_mon s i = None \<longleftrightarrow> pv s i = -2)) \<and>
      (\<forall>i. pv s i = -2 \<longrightarrow> data s i = Some (None, 0, -1)) \<and> (\<forall>i \<in> dom (sg_mon s). i < int FDLIMIT) \<and>
      pp_inv (sg_backup s) \<and> pp_mon (sg_backup s) = (\<lambda>i. map_option (\<lambda>(c, m). (c, all_events)) (sg_mon s i)))"

definition sg_inv :: "'c poller_sigio \<Rightarrow> bool" where
  "sg_inv s = (sg_base s \<and> (\<exists>L. sg_list s L \<and> set L = {i. rdy s i} \<and> (sg_next s = -1 \<or> sg_next s \<in> set L)))"

definition calls_ok :: "('c, 'x) sig_calls \<Rightarrow> bool" where
  "calls_ok C =
     ((\<forall>fd x. fst (sc_getfl C fd x) = None) \<and> (\<forall>fd f x. fst (sc_setfl C fd f x) = None) \<and>
      (\<forall>fd g x. fst (sc_setsig C fd g x) = None) \<and> (\<forall>fd x. fst (sc_setown C fd x) = None) \<and>
      never_fails (sc_realloc C) \<and> never_fails (sc_realloc1 C) \<and> never_fails (sc_realloc2 C) \<and> never_fails (sc_realloc3 C))"

lemma record_mon [simp]:
  "sg_mon (s\<lparr>sg_used := a\<rparr>) = sg_mon s" "sg_mon (s\<lparr>sg_next := a\<rparr>) = sg_mon s" "sg_mon (s\<lparr>sg_backup := b\<rparr>) = sg_mon s"
  "sg_bits (s\<lparr>sg_used := a\<rparr>) = sg_bits s" "sg_bits (s\<lparr>sg_next := a\<rparr>) = sg_bits s" "sg_bits (s\<lparr>sg_backup := b\<rparr>) = sg_bits s"
  "rdy (s\<lparr>sg_used := a\<rparr>) = rdy s" "rdy (s\<lparr>sg_next := a\<rparr>) = rdy s" "rdy (s\<lparr>sg_backup := b\<rparr>) = rdy s"
  by (simp_all add: sg_mon_def sg_bits_def rdy_def fun_eq_iff)

lemma rdy_state: "fd_state s i = Some f \<Longrightarrow> rdy s i = isReady f"
  by (simp add: rdy_def data_def isReady_def)

lemma mon_slot: "sg_mon s i = Some v \<Longrightarrow> slot s i"
  by (auto simp: sg_mon_def data_def slot_state split: option.splits)

lemma data_views: "data s' = data s \<Longrightarrow> sg_mon s' = sg_mon s \<and> sg_bits s' = sg_bits s \<and> rdy s' = rdy s"
  by (simp add: sg_mon_def sg_bits_def rdy_def fun_eq_iff)

lemma same_data_views: "same_data s s' \<Longrightarrow> sg_mon s' = sg_mon s \<and> sg_bits s' = sg_bits s \<and> rdy s' = rdy s"
  by (rule data_views) (simp add: same_data_def)

lemma same_data_base: "same_data s s' \<Longrightarrow> sg_base s \<Longrightarrow> sg_base s'"
  using same_data_views[of s s'] same_data_slot[of s s'] by (simp add: sg_base_def same_data_def)

text \<open>The cursor of the delivery is at the start of the list; updates of the list keep it there.\<close>

definition at_head :: "'c poller_sigio \<Rightarrow> bool" where
  "at_head s = (sg_next s = sg_head s)"

definition keeps_head :: "'c poller_sigio \<Rightarrow> 'c poller_sigio \<Rightarrow> bool" where
  "keeps_head s s' = (at_head s \<longrightarrow> at_head s')"

lemma keeps_head_refl: "keeps_head s s" by (simp add: keeps_head_def)

lemma keeps_head_trans: "keeps_head s t \<Longrightarrow> keeps_head t u \<Longrightarrow> keeps_head s u"
  by (simp add: keeps_head_def)

text \<open>The ready list, read from the head.\<close>

fun walk :: "('a \<Rightarrow> 'a) \<Rightarrow> nat \<Rightarrow> 'a \<Rightarrow> 'a list" where
  "walk n 0 a = []"
| "walk n (Suc k) a = a # walk n k (n a)"

definition sg_readyList :: "'c poller_sigio \<Rightarrow> int list" where
  "sg_readyList s = walk (nx s) (nat (sg_count s)) (sg_head s)"

lemma walk_chain: "chain n p L \<Longrightarrow> L \<noteq> [] \<Longrightarrow> walk n (length L) (hd L) = L"
proof (induction L)
  case (Cons a L)
  then show ?case by (cases "L = []") (simp_all add: chain_Cons)
qed simp

lemma readyList_is:
  assumes "sg_list s L"
  shows "sg_readyList s = L"
proof -
  note l = sg_listD[OF assms]
  have "chain (nx s) (pv s) L" using l(3) by (simp add: ring_def)
  from walk_chain[OF this] l(4,5) show ?thesis by (cases "L = []") (simp_all add: sg_readyList_def)
qed

lemma readyList_set:
  assumes "sg_inv s" "sg_list s L"
  shows "set L = {i. rdy s i}"
proof -
  obtain L' where "sg_list s L'" "set L' = {i. rdy s i}" using assms(1) by (auto simp: sg_inv_def)
  then show ?thesis using readyList_is assms(2) by metis
qed

lemma del_from_list:
  assumes L: "sg_list s L" and i: "i \<in> set L" and nxt: "sg_next s = -1 \<or> sg_next s \<in> set L"
  shows "\<exists>s'. readyListDel s i = Some s' \<and> same_data s s' \<and> sg_list s' (remove1 i L) \<and> set (remove1 i L) = set L - {i} \<and>
            (sg_next s' = -1 \<or> sg_next s' \<in> set L - {i}) \<and> keeps_head s s'"
proof -
  obtain s' where s': "readyListDel s i = Some s'" "sg_list s' (remove1 i L)" "same_data s s'"
    "sg_next s' = (if length L = 1 then -1 else if sg_next s = i then nx s i else sg_next s)"
    using readyListDel_lemma[OF L i] by blast
  have d: "distinct L" using sg_listD(1)[OF L] .
  have "nx s i \<noteq> i" if "length L \<noteq> 1"
  proof
    assume n: "nx s i = i"
    obtain A B where AB: "L = A @ i # B" using i by (auto simp: in_set_conv_decomp)
    have "A \<noteq> [] \<or> B \<noteq> []" using that AB by auto
    then have "hd (B @ A @ [i]) \<in> set A \<union> set B" by (cases B; cases A) auto
    then show False using ring_split(3)[OF sg_listD(3)[OF L, unfolded AB]] n d AB by auto
  qed
  then have "sg_next s' = -1 \<or> sg_next s' \<in> set L - {i}"
    using s'(4) nxt ring_next_in[OF sg_listD(3)[OF L] i] by auto
  moreover have "keeps_head s s'"
  proof (cases "length L = 1")
    case True
    then have "remove1 i L = []" using i by (cases L) auto
    then show ?thesis using sg_listD(4)[OF s'(2)] s'(4) True by (simp add: keeps_head_def at_head_def)
  next
    case False
    obtain A B where AB: "L = A @ i # B" using i by (auto simp: in_set_conv_decomp)
    have "nx s i = hd (B @ A @ [i])" using ring_split(3)[OF sg_listD(3)[OF L, unfolded AB]] .
    then show ?thesis
      using sg_listD(4)[OF s'(2)] sg_listD(4)[OF L] s'(4) False AB d
      by (cases A; cases B) (auto simp: keeps_head_def at_head_def remove1_split remove1_append)
  qed
  ultimately show ?thesis using s'(1-3) d by auto
qed

text \<open>A list that is right except for one descriptor is put right.\<close>

lemma readyListUpdate_lemma:
  assumes L: "sg_list s L" and i: "slot s i" "pv s i \<noteq> -2" and others: "\<And>j. j \<noteq> i \<Longrightarrow> j \<in> set L \<longleftrightarrow> rdy s j"
    and nxt: "sg_next s = -1 \<or> sg_next s \<in> set L"
  shows "\<exists>s' L'. readyListUpdate s i = Some s' \<and> same_data s s' \<and> sg_list s' L' \<and> set L' = {j. rdy s j} \<and>
            (sg_next s' = -1 \<or> sg_next s' \<in> set L') \<and> keeps_head s s'"
proof -
  obtain f where f: "fd_state s i = Some f" using i(1) slot_state by blast
  have on: "isOnReadyList f \<longleftrightarrow> i \<in> set L" by (rule in_list_iff[OF L f])
  have rd: "isReady f \<longleftrightarrow> rdy s i" using rdy_state[OF f] by simp
  note unf = readyListUpdate_def f on rd
  consider "i \<in> set L" "\<not> rdy s i" | "i \<notin> set L" "rdy s i" | "i \<in> set L \<longleftrightarrow> rdy s i" by blast
  then show ?thesis
  proof cases
    case 1
    obtain s' where s': "readyListDel s i = Some s'" "same_data s s'" "sg_list s' (remove1 i L)" "set (remove1 i L) = set L - {i}"
      "sg_next s' = -1 \<or> sg_next s' \<in> set L - {i}" "keeps_head s s'"
      using del_from_list[OF L 1(1) nxt] by blast
    have "j \<in> set L - {i} \<longleftrightarrow> rdy s j" for j using others[of j] 1 by (cases "j = i") auto
    then have "set (remove1 i L) = {j. rdy s j}" unfolding s'(4) by blast
    then show ?thesis using 1 s' by (intro exI[of _ s'] exI[of _ "remove1 i L"]) (auto simp: unf)
  next
    case 2
    have "pv s i = -1" using sg_listD(6)[OF L i(1) 2(1)] i(2) by simp
    then obtain s' where s': "readyListAdd s i = Some s'" "sg_list s' (L @ [i])" "same_data s s'"
      "sg_next s' = (if sg_next s = -1 then i else sg_next s)" using readyListAdd_lemma[OF L i(1) 2(1)] by blast
    moreover have "j \<in> insert i (set L) \<longleftrightarrow> rdy s j" for j using others[of j] 2 by (cases "j = i") auto
    then have "set (L @ [i]) = {j. rdy s j}" by auto
    moreover have "-1 \<notin> set L" using sg_listD(2)[OF L, of "-1"] by (auto simp: slot_def)
    then have "L \<noteq> [] \<longrightarrow> hd L \<noteq> -1" by (cases L) auto
    then have "keeps_head s s'"
      using sg_listD(4)[OF L] sg_listD(4)[OF s'(2)] s'(4) by (cases "L = []") (auto simp: keeps_head_def at_head_def)
    ultimately show ?thesis using 2 nxt by (intro exI[of _ s'] exI[of _ "L @ [i]"]) (auto simp: unf)
  next
    case 3
    have "j \<in> set L \<longleftrightarrow> rdy s j" for j using others[of j] 3 by (cases "j = i") auto
    then have "set L = {j. rdy s j}" by auto
    moreover have "readyListUpdate s i = Some s" using 3 by (auto simp: unf)
    ultimately show ?thesis using L nxt same_data_refl keeps_head_refl by blast
  qed
qed

subsection \<open>Changes of one entry\<close>

text \<open>An update that keeps the links.\<close>

lemma upd_data:
  assumes i: "slot s i" and g: "\<And>f. sf_next (g f) = sf_next f" "\<And>f. sf_prev (g f) = sf_prev f"
  shows "\<exists>s'. upd_fd s i g = Some s' \<and> nx s' = nx s \<and> pv s' = pv s \<and> slot s' = slot s \<and> length (sg_fds s') = length (sg_fds s) \<and>
     data s' = (data s)(i := map_option (\<lambda>f. (sf_client (g f), sf_mask (g f), sf_bits (g f))) (fd_state s i)) \<and>
     sg_backup s' = sg_backup s \<and> sg_signum s' = sg_signum s \<and> sg_alloc s' = sg_alloc s \<and> sg_used s' = sg_used s \<and>
     sg_head s' = sg_head s \<and> sg_next s' = sg_next s \<and> sg_count s' = sg_count s"
proof -
  obtain s' where s': "upd_fd s i g = Some s'" "s' = s\<lparr>sg_fds := (sg_fds s)[nat i := g (sg_fds s ! nat i)]\<rparr>"
    "fd_state s' = (fd_state s)(i \<mapsto> g (the (fd_state s i)))" using upd_fd_Some[OF i, of g] by blast
  obtain f where f: "fd_state s i = Some f" using i slot_state by blast
  have "nx s' = nx s" "pv s' = pv s" by (auto simp: fun_eq_iff nx_def pv_def s'(3) f g)
  moreover have "data s' = (data s)(i := map_option (\<lambda>f. (sf_client (g f), sf_mask (g f), sf_bits (g f))) (fd_state s i))"
    by (auto simp: fun_eq_iff data_def s'(3) f)
  moreover have "slot s' = slot s" by (simp add: s'(2) slot_def fun_eq_iff)
  ultimately show ?thesis using s'(1,2) by simp
qed

lemma sg_list_cong:
  "sg_list s L \<Longrightarrow> nx s' = nx s \<Longrightarrow> pv s' = pv s \<Longrightarrow> slot s' = slot s \<Longrightarrow> sg_head s' = sg_head s \<Longrightarrow> sg_count s' = sg_count s \<Longrightarrow> sg_list s' L"
  by (simp add: sg_list_def)

text \<open>The guard of the mask operations is that the descriptor is monitored.\<close>

lemma watched_lemma:
  assumes "sg_base s"
  shows "watched s i = Some (sg_mon s i \<noteq> None)"
proof (cases "slot s i")
  case True
  obtain f where f: "fd_state s i = Some f" using True slot_state by blast
  have fin: "finite (dom (sg_mon s))"
    by (rule finite_subset[of _ "{0..<int (length (sg_fds s))}"]) (auto dest: mon_slot simp: slot_def)
  have "sg_used s = 0 \<longrightarrow> sg_mon s i = None"
    using assms fin by (auto simp: sg_base_def)
  moreover have "isClear f \<longleftrightarrow> sg_mon s i = None"
    using assms True f by (auto simp: sg_base_def isClear_def pv_def)
  ultimately show ?thesis using True f assms by (auto simp: watched_def slot_def sg_base_def)
next
  case False
  then have "sg_mon s i = None" using mon_slot[of s i] by (cases "sg_mon s i") auto
  then show ?thesis using False assms by (auto simp: watched_def slot_def sg_base_def)
qed

text \<open>A monitored descriptor gets a new mask and new readiness.\<close>

lemma change_entry:
  assumes inv: "sg_inv s" and mon: "sg_mon s i = Some (c, m)"
    and g: "\<And>f. g f = f\<lparr>sf_mask := a (sf_mask f), sf_bits := b (sf_bits f)\<rparr>"
  shows "\<exists>s1 s'. upd_fd s i g = Some s1 \<and> readyListUpdate s1 i = Some s' \<and> sg_inv s' \<and>
     sg_mon s' = (sg_mon s)(i \<mapsto> (c, a m)) \<and> sg_bits s' = (sg_bits s)(i := b (sg_bits s i)) \<and>
     sg_signum s' = sg_signum s \<and> keeps_head s s' \<and> sg_backup s' = sg_backup s"
proof -
  have i: "slot s i" using mon_slot[OF mon] .
  obtain f where f: "fd_state s i = Some f" using i slot_state by blast
  have fv: "sf_client f = Some c" "sf_mask f = m" "sf_bits f = sg_bits s i"
    using mon f by (auto simp: sg_mon_def sg_bits_def data_def split: option.splits)
  have base: "sg_base s" using inv by (simp add: sg_inv_def)
  obtain L where L: "sg_list s L" "set L = {i. rdy s i}" "sg_next s = -1 \<or> sg_next s \<in> set L" using inv by (auto simp: sg_inv_def)
  have ip: "pv s i \<noteq> -2" using base i mon by (auto simp: sg_base_def)
  obtain s1 where s1: "upd_fd s i g = Some s1" "nx s1 = nx s" "pv s1 = pv s" "slot s1 = slot s" "length (sg_fds s1) = length (sg_fds s)"
    "data s1 = (data s)(i \<mapsto> (Some c, a m, b (sg_bits s i)))" "sg_backup s1 = sg_backup s" "sg_signum s1 = sg_signum s"
    "sg_alloc s1 = sg_alloc s" "sg_used s1 = sg_used s" "sg_head s1 = sg_head s" "sg_next s1 = sg_next s" "sg_count s1 = sg_count s"
    using upd_data[OF i, of g] f fv unfolding g by auto
  have mon1: "sg_mon s1 = (sg_mon s)(i \<mapsto> (c, a m))" and bits1: "sg_bits s1 = (sg_bits s)(i := b (sg_bits s i))"
    using s1(6) by (auto simp: sg_mon_def sg_bits_def fun_eq_iff)
  have dom: "dom (sg_mon s1) = dom (sg_mon s)" using mon mon1 by auto
  have "map_option (\<lambda>(c, m). (c, all_events)) (sg_mon s1 j) = map_option (\<lambda>(c, m). (c, all_events)) (sg_mon s j)" for j
    using mon mon1 by simp
  moreover have "sg_mon s1 j = None \<longleftrightarrow> sg_mon s j = None" for j using mon mon1 by simp
  moreover have "pv s j = -2 \<Longrightarrow> data s1 j = data s j" for j using ip s1(6) by auto
  ultimately have base1: "sg_base s1" using base s1 dom unfolding sg_base_def by simp
  have L1: "sg_list s1 L" using sg_list_cong[OF L(1) s1(2-4,11,13)] .
  have oth: "j \<in> set L \<longleftrightarrow> rdy s1 j" if "j \<noteq> i" for j using that L(2) s1(6) by (simp add: rdy_def)
  have i1: "slot s1 i" "pv s1 i \<noteq> -2" and nxt1: "sg_next s1 = -1 \<or> sg_next s1 \<in> set L"
    using s1(3,4,12) i ip L(3) by simp_all
  obtain s' L' where s': "readyListUpdate s1 i = Some s'" "same_data s1 s'" "sg_list s' L'" "set L' = {j. rdy s1 j}"
    "sg_next s' = -1 \<or> sg_next s' \<in> set L'" "keeps_head s1 s'"
    using readyListUpdate_lemma[OF L1 i1 oth nxt1] by blast
  note v = same_data_views[OF s'(2)]
  have "sg_inv s'" using same_data_base[OF s'(2) base1] s'(3-5) v by (auto simp: sg_inv_def)
  moreover have "sg_signum s' = sg_signum s" "sg_backup s' = sg_backup s" using s'(2) s1(7,8) by (simp_all add: same_data_def)
  moreover have "keeps_head s s'" using s'(6) s1(11,12) by (simp add: keeps_head_def at_head_def)
  ultimately show ?thesis using s1(1) s'(1) v mon1 bits1 by auto
qed

lemma sg_mask_lemma:
  assumes inv: "sg_inv s" and mon: "sg_mon s i = Some (c, m)"
  shows "\<exists>s'. sg_mask a s i = Some (OK, s') \<and> sg_inv s' \<and> sg_mon s' = (sg_mon s)(i \<mapsto> (c, a m)) \<and> sg_bits s' = sg_bits s"
proof -
  have w: "watched s i = Some True" using watched_lemma[of s i] inv mon by (simp add: sg_inv_def)
  obtain s1 s' where "upd_fd s i (\<lambda>f. f\<lparr>sf_mask := a (sf_mask f)\<rparr>) = Some s1" "readyListUpdate s1 i = Some s'" "sg_inv s'"
    "sg_mon s' = (sg_mon s)(i \<mapsto> (c, a m))" "sg_bits s' = (sg_bits s)(i := sg_bits s i)"
    using change_entry[OF inv mon, where g = "\<lambda>f. f\<lparr>sf_mask := a (sf_mask f)\<rparr>" and a = a and b = "\<lambda>b. b"] by auto
  with w show ?thesis by (simp add: sg_mask_def)
qed

text \<open>New readiness, as a signal, a poll or \<open>clearReadiness\<close> sets it; nothing for other descriptors.\<close>

lemma sg_bits_lemma:
  assumes inv: "sg_inv s"
  shows "\<exists>s'. do { v \<leftarrow> watched s i;
                   if \<not> v then Some s
                   else do { s1 \<leftarrow> upd_fd s i (\<lambda>f. f\<lparr>sf_bits := b (sf_bits f)\<rparr>); readyListUpdate s1 i } } = Some s' \<and>
     sg_inv s' \<and> sg_mon s' = sg_mon s \<and> sg_signum s' = sg_signum s \<and> sg_backup s' = sg_backup s \<and> keeps_head s s' \<and>
     (\<forall>j. sg_mon s j \<noteq> None \<longrightarrow> sg_bits s' j = (if j = i then b (sg_bits s j) else sg_bits s j))"
proof (cases "sg_mon s i")
  case None
  then show ?thesis using watched_lemma[of s i] inv keeps_head_refl by (auto simp: sg_inv_def)
next
  case (Some v)
  obtain c m where v: "v = (c, m)" by fastforce
  have w: "watched s i = Some True" using watched_lemma[of s i] inv Some by (simp add: sg_inv_def)
  obtain s1 s' where "upd_fd s i (\<lambda>f. f\<lparr>sf_bits := b (sf_bits f)\<rparr>) = Some s1" "readyListUpdate s1 i = Some s'" "sg_inv s'"
    "sg_mon s' = (sg_mon s)(i \<mapsto> (c, m))" "sg_bits s' = (sg_bits s)(i := b (sg_bits s i))" "sg_signum s' = sg_signum s" "sg_backup s' = sg_backup s" "keeps_head s s'"
    using change_entry[OF inv Some[unfolded v], where g = "\<lambda>f. f\<lparr>sf_bits := b (sf_bits f)\<rparr>" and a = "\<lambda>m. m" and b = b] by auto
  with w Some v show ?thesis by (auto simp: fun_upd_idem)
qed

subsection \<open>Adding and deleting\<close>

lemma mon_finite: "finite (dom (sg_mon s))"
  by (rule finite_subset[of _ "{0..<int (length (sg_fds s))}"]) (auto dest: mon_slot simp: slot_def)

text \<open>Resizing adds cleared entries.\<close>

lemma cleared_fields [simp]:
  "sf_next cleared = -1" "sf_prev cleared = -2" "sf_client cleared = None" "sf_mask cleared = 0" "sf_bits cleared = -1"
  by (simp_all add: cleared_def)

lemma sg_grow_lemma:
  assumes inv: "sg_inv s" and ra: "never_fails ra" and f: "0 \<le> fd" "fd < int FDLIMIT"
  shows "\<exists>s'. sg_grow ra s fd = Some (OK, s') \<and> sg_inv s' \<and> sg_mon s' = sg_mon s \<and> slot s' fd \<and> sg_signum s' = sg_signum s"
proof (cases "fd \<ge> sg_alloc s")
  case False
  then show ?thesis using inv f by (auto simp: sg_grow_def sg_inv_def sg_base_def slot_def)
next
  case True
  define n where "n = max (sg_alloc s * 2) (fd + 1)"
  have base: "sg_base s" using inv by (simp add: sg_inv_def)
  have a: "int (length (sg_fds s)) = sg_alloc s" "0 < sg_alloc s" using base by (simp_all add: sg_base_def)
  have n: "sg_alloc s \<le> n" "fd < n" "n \<le> 2 * int FDLIMIT" using True f by (auto simp: n_def)
  have len: "length (sg_fds s) \<le> nat n" using a n by simp
  obtain ys where ys: "ra (nat n) (sg_fds s) = Some ys" "length ys = nat n" "\<And>i. i < length (sg_fds s) \<Longrightarrow> ys ! i = sg_fds s ! i"
    using never_failsD[OF ra len] by metis
  let ?fds = "take (nat (sg_alloc s)) ys @ replicate (nat (n - sg_alloc s)) cleared @ drop (nat n) ys"
  let ?s = "s\<lparr>sg_fds := ?fds, sg_alloc := n\<rparr>"
  have la: "nat (sg_alloc s) = length (sg_fds s)" using a by simp
  have fds: "?fds = sg_fds s @ replicate (nat n - length (sg_fds s)) cleared"
    using ys(2,3) la a n by (intro nth_equalityI) (auto simp: nth_append)
  have g: "sg_grow ra s fd = Some (OK, ?s)"
    using True ys(1,2) n(3) by (simp add: sg_grow_def n_def[symmetric] Let_def FDLIMIT_def)
  have st: "fd_state ?s i = (if slot s i then fd_state s i else if 0 \<le> i \<and> i < n then Some cleared else None)" for i
    unfolding fd_state_def using a n by (auto simp: fds rdi_def rd_def slot_def nth_append)
  have sl: "slot ?s i = (0 \<le> i \<and> i < n)" for i using a n by (simp add: slot_def fds)
  have old: "slot s i \<Longrightarrow> nx ?s i = nx s i \<and> pv ?s i = pv s i \<and> data ?s i = data s i" for i
    by (simp add: nx_def pv_def data_def st)
  have new: "\<not> slot s i \<Longrightarrow> 0 \<le> i \<Longrightarrow> i < n \<Longrightarrow> nx ?s i = -1 \<and> pv ?s i = -2 \<and> data ?s i = Some (None, 0, -1)" for i
    by (simp add: nx_def pv_def data_def st)
  have none: "\<not> slot s i \<Longrightarrow> sg_mon s i = None \<and> \<not> rdy s i \<and> pv s i = -1" for i
    by (simp add: sg_mon_def rdy_def data_def slot_state pv_def)
  have out: "\<not> slot s i \<Longrightarrow> \<not> (0 \<le> i \<and> i < n) \<Longrightarrow> data ?s i = None \<and> pv ?s i = -1" for i
    by (simp add: data_def st pv_def)
  have mon: "sg_mon ?s i = sg_mon s i" "rdy ?s i = rdy s i" for i
    using old[of i] new[of i] none[of i] out[of i] by (cases "slot s i"; cases "0 \<le> i \<and> i < n"; force simp: sg_mon_def rdy_def)+
  obtain L where L: "sg_list s L" "set L = {i. rdy s i}" "sg_next s = -1 \<or> sg_next s \<in> set L" using inv by (auto simp: sg_inv_def)
  note l = sg_listD[OF L(1)]
  have ge: "slot s i \<Longrightarrow> slot ?s i" for i using a n unfolding sl by (simp add: slot_def)
  have ring: "ring (nx ?s) (pv ?s) L"
  proof -
    have "chain (nx ?s) (pv ?s) L = chain (nx s) (pv s) L"
      by (rule chain_cong) (use l(2) old in \<open>auto dest: in_set_butlastD in_set_tl\<close>)
    then show ?thesis using l(2,3) old by (auto simp: ring_def)
  qed
  have "nx ?s i = -1 \<and> (pv ?s i = -1 \<or> pv ?s i = -2)" if "slot ?s i" "i \<notin> set L" for i
    using old[of i] new[of i] l(6)[of i] that by (cases "slot s i") (auto simp: sl)
  then have L': "sg_list ?s L" using l(1,2,4,5) ge ring by (simp add: sg_list_def)
  have "slot ?s i \<longrightarrow> (sg_mon ?s i = None \<longleftrightarrow> pv ?s i = -2)" for i
    using old[of i] new[of i] none[of i] base by (cases "slot s i") (auto simp: sl mon sg_base_def)
  moreover have "pv ?s i = -2 \<longrightarrow> data ?s i = Some (None, 0, -1)" for i
    using old[of i] new[of i] out[of i] base by (cases "slot s i"; cases "0 \<le> i \<and> i < n") (auto simp: sg_base_def)
  moreover have "sg_mon ?s = sg_mon s" using mon(1) by blast
  moreover have "int (length (sg_fds ?s)) = n" using a n by (simp add: fds)
  ultimately have "sg_base ?s" using base a n by (simp add: sg_base_def)
  then have "sg_inv ?s" using L' L(2,3) mon(2) by (auto simp: sg_inv_def)
  then show ?thesis using g mon(1) n(2) f(1) by (auto simp: sl fun_eq_iff)
qed

lemma calls_okD:
  assumes "calls_ok C"
  shows "never_fails (sc_realloc C)" "never_fails (sc_realloc1 C)" "never_fails (sc_realloc2 C)" "never_fails (sc_realloc3 C)"
    and "\<exists>x1. arm C sig fd x = (None, x1)" "\<exists>x1. sc_getfl C fd x = (None, x1)" "\<exists>x1. sc_setfl C fd fl x = (None, x1)"
proof -
  have c: "\<exists>x1. sc_getfl C fd x = (None, x1)" "\<exists>x1. sc_setfl C fd fl x = (None, x1)"
    "\<exists>x1. sc_setsig C fd sig x = (None, x1)" "\<exists>x1. sc_setown C fd x = (None, x1)" for x fl
    using assms unfolding calls_ok_def by (metis prod.collapse)+
  obtain x1 where x1: "sc_getfl C fd x = (None, x1)" using c(1) by blast
  obtain x2 where x2: "sc_setfl C fd (garbage C OR (O_NONBLOCK_flag OR O_ASYNC)) x1 = (None, x2)" using c(2) by blast
  obtain x3 where x3: "sc_setsig C fd sig x2 = (None, x3)" using c(3) by blast
  show "\<exists>x1. arm C sig fd x = (None, x1)" using x1 x2 x3 c(4)[of x3] by (simp add: arm_def)
qed (use assms in \<open>auto simp: calls_ok_def, (metis prod.collapse)+\<close>)

lemma sg_add_lemma:
  assumes inv: "sg_inv s" and ok: "calls_ok C" and f: "0 \<le> fd" "fd < int FDLIMIT" and free: "sg_mon s fd = None"
  shows "\<exists>s' x'. sg_add C s fd c m x = Some (OK, s', x') \<and> sg_inv s' \<and> sg_mon s' = (sg_mon s)(fd \<mapsto> (c, m))"
proof -
  obtain s1 where s1: "sg_grow (sc_realloc C) s fd = Some (OK, s1)" "sg_inv s1" "sg_mon s1 = sg_mon s" "slot s1 fd"
    using sg_grow_lemma[OF inv calls_okD(1)[OF ok] f] by blast
  have base: "sg_base s1" using s1(2) by (simp add: sg_inv_def)
  obtain L where L: "sg_list s1 L" "set L = {i. rdy s1 i}" "sg_next s1 = -1 \<or> sg_next s1 \<in> set L" using s1(2) by (auto simp: sg_inv_def)
  have z: "pv s1 fd = -2" "data s1 fd = Some (None, 0, -1)" using base s1(3,4) free by (auto simp: sg_base_def)
  then have nL: "fd \<notin> set L" using L(2) by (simp add: rdy_def)
  obtain x1 where arm: "arm C (sg_signum s1) fd x = (None, x1)" using calls_okD(5)[OF ok] by blast
  let ?g = "\<lambda>f. f\<lparr>sf_mask := m, sf_bits := POLLIN OR POLLOUT, sf_prev := -1\<rparr> :: 'a fdstate"
  let ?s1 = "s1\<lparr>sg_used := sg_used s1 + 1\<rparr>"
  obtain f where fs: "fd_state s1 fd = Some f" using s1(4) slot_state by blast
  have fv: "sf_client f = None" "sf_next f = -1" using z fs sg_listD(6)[OF L(1) s1(4) nL] nx_pv_state[OF s1(4) fs] by (auto simp: data_def)
  obtain s2 where s2: "upd_fd ?s1 fd ?g = Some s2" "s2 = ?s1\<lparr>sg_fds := (sg_fds ?s1)[nat fd := ?g (sg_fds ?s1 ! nat fd)]\<rparr>"
    "fd_state s2 = (fd_state ?s1)(fd \<mapsto> ?g (the (fd_state ?s1 fd)))" using upd_fd_Some[of ?s1 fd ?g] s1(4) by auto
  have v2: "nx s2 = nx s1" "pv s2 = (pv s1)(fd := -1)" "data s2 = (data s1)(fd \<mapsto> (None, m, POLLIN OR POLLOUT))" "slot s2 = slot s1"
    using fs fv by (auto simp: fun_eq_iff nx_def pv_def data_def s2(3) record_fields slot_state)
  have L2: "sg_list s2 L"
    unfolding sg_list_def
  proof (intro conjI)
    have "chain (nx s2) (pv s2) L = chain (nx s1) (pv s1) L"
      by (rule chain_cong) (use nL v2 in \<open>auto dest: in_set_butlastD in_set_tl\<close>)
    moreover have "pv s2 (hd L) = pv s1 (hd L)" if "L \<noteq> []" using nL v2(2) that by (metis fun_upd_other hd_in_set)
    ultimately show "ring (nx s2) (pv s2) L" using sg_listD(3)[OF L(1)] v2(1) by (simp add: ring_def)
    show "\<forall>i. slot s2 i \<and> i \<notin> set L \<longrightarrow> nx s2 i = -1 \<and> (pv s2 i = -1 \<or> pv s2 i = -2)"
      using sg_listD(6)[OF L(1)] v2 by auto
  qed (use sg_listD[OF L(1)] v2(4) s2(2) in simp_all)
  have oth: "j \<in> set L \<longleftrightarrow> rdy s2 j" if "j \<noteq> fd" for j using that L(2) v2(3) by (simp add: rdy_def)
  have pre: "slot s2 fd" "pv s2 fd \<noteq> -2" "sg_next s2 = -1 \<or> sg_next s2 \<in> set L" using v2 s1(4) L(3) s2(2) by simp_all
  obtain s3 L' where s3: "readyListUpdate s2 fd = Some s3" "same_data s2 s3" "sg_list s3 L'" "set L' = {j. rdy s2 j}"
    "sg_next s3 = -1 \<or> sg_next s3 \<in> set L'" using readyListUpdate_lemma[OF L2 pre(1,2) oth pre(3)] by blast
  have sl3: "slot s3 fd" and d3: "data s3 = data s2" using same_data_slot[OF s3(2)] pre(1) s3(2) by (simp_all add: same_data_def)
  obtain f3 where f3: "fd_state s3 fd = Some f3" using sl3 slot_state by blast
  have f3v: "sf_mask f3 = m" "sf_bits f3 = POLLIN OR POLLOUT" using f3 fun_cong[OF d3, of fd] v2(3) by (auto simp: data_def)
  obtain s4 where s4: "upd_fd s3 fd (\<lambda>f. f\<lparr>sf_client := Some c\<rparr>) = Some s4" "nx s4 = nx s3" "pv s4 = pv s3" "slot s4 = slot s3"
    "length (sg_fds s4) = length (sg_fds s3)" "data s4 = (data s3)(fd \<mapsto> (Some c, m, POLLIN OR POLLOUT))" "sg_backup s4 = sg_backup s3"
    "sg_signum s4 = sg_signum s3" "sg_alloc s4 = sg_alloc s3" "sg_used s4 = sg_used s3" "sg_head s4 = sg_head s3" "sg_next s4 = sg_next s3"
    "sg_count s4 = sg_count s3"
    using upd_data[OF sl3, of "\<lambda>f. f\<lparr>sf_client := Some c\<rparr>"] f3 f3v by auto
  have bk: "sg_backup s4 = sg_backup s1" using s4(7) s3(2) s2(2) by (simp add: same_data_def)
  have free': "pp_mon (sg_backup s1) fd = None" using base free s1(3) by (simp add: sg_base_def)
  obtain b where b: "pp_add (sc_realloc1 C) (sc_realloc2 C) (sc_realloc3 C) (sg_backup s4) fd c (POLLIN OR POLLPRI OR POLLOUT) = Some (OK, b)"
    "pp_inv b" "pp_mon b = (pp_mon (sg_backup s1))(fd \<mapsto> (c, all_events))"
    using pp_add_lemma[of "sg_backup s1" "sc_realloc1 C" "sc_realloc2 C" "sc_realloc3 C" fd c all_events] ok base f free'
    unfolding bk by (auto simp: calls_ok_def sg_base_def all_events_def)
  let ?s = "s4\<lparr>sg_backup := b\<rparr>"
  have mon: "sg_mon ?s = (sg_mon s)(fd \<mapsto> (c, m))"
    using s1(3) d3 v2(3) s4(6) by (auto simp: sg_mon_def fun_eq_iff split: option.splits)
  have rd: "rdy ?s = rdy s2" using d3 v2(3) s4(6) by (auto simp: rdy_def fun_eq_iff)
  have run: "sg_add C s fd c m x = Some (OK, ?s, x1)"
    using s1(1) arm s2(1) s3(1) s4(1) b(1) by (simp add: sg_add_def)
  have pvs: "pv s4 i = -2 \<longleftrightarrow> i \<noteq> fd \<and> pv s1 i = -2" for i
    using s3(2) s4(3) v2(2) by (simp add: same_data_def)
  have card: "card (dom ((sg_mon s)(fd \<mapsto> (c, m)))) = card (dom (sg_mon s)) + 1"
    using free mon_finite[of s] by (simp add: card_insert_if domIff)
  have "sg_base ?s"
    unfolding sg_base_def mon card
  proof (intro conjI)
    show "\<forall>i. slot ?s i \<longrightarrow> (((sg_mon s)(fd \<mapsto> (c, m))) i = None \<longleftrightarrow> pv ?s i = -2)"
      using base s1(3) same_data_slot[OF s3(2)] s4(4) v2(4) by (auto simp: pvs sg_base_def)
    show "\<forall>i. pv ?s i = -2 \<longrightarrow> data ?s i = Some (None, 0, -1)"
      using base d3 v2(3) s4(6) by (auto simp: pvs sg_base_def)
    show "\<forall>i \<in> dom ((sg_mon s)(fd \<mapsto> (c, m))). i < int FDLIMIT" using base f s1(3) by (auto simp: sg_base_def)
    show "pp_mon (sg_backup ?s) = (\<lambda>i. map_option (\<lambda>(c, m). (c, all_events)) (((sg_mon s)(fd \<mapsto> (c, m))) i))"
      using b(3) base s1(3) by (auto simp: fun_eq_iff sg_base_def)
  qed (use base s1(3) b(2) s2(2) s3(2) s4 in \<open>simp_all add: sg_base_def same_data_def\<close>)
  moreover have "sg_list ?s L'" by (rule sg_list_cong[OF s3(3)]) (simp_all add: s4)
  ultimately have "sg_inv ?s" using s3(4,5) s4(12) rd by (auto simp: sg_inv_def)
  with run mon show ?thesis by blast
qed

text \<open>Taking a descriptor that is off the list out of use.\<close>

lemma clear_entry:
  assumes base: "sg_base s" and L: "sg_list s L" "fd \<notin> set L" and rd: "\<And>j. j \<noteq> fd \<Longrightarrow> j \<in> set L \<longleftrightarrow> rdy s j"
    and nxt: "sg_next s = -1 \<or> sg_next s \<in> set L" and mon: "sg_mon s fd = Some v"
    and b: "pp_inv b" "pp_mon b = (pp_mon (sg_backup s))(fd := None)"
  shows "\<exists>s'. upd_fd s fd (\<lambda>f. cleared) = Some s' \<and> sg_backup s' = sg_backup s \<and> sg_used s' = sg_used s \<and>
     sg_inv (s'\<lparr>sg_used := sg_used s' - 1, sg_backup := b\<rparr>) \<and> sg_mon s' = (sg_mon s)(fd := None) \<and> sg_signum s' = sg_signum s"
proof -
  have sl: "slot s fd" using mon_slot[OF mon] .
  obtain s' where s': "upd_fd s fd (\<lambda>f. cleared) = Some s'" "s' = s\<lparr>sg_fds := (sg_fds s)[nat fd := cleared]\<rparr>"
    "fd_state s' = (fd_state s)(fd \<mapsto> cleared)" using upd_fd_Some[OF sl, of "\<lambda>f. cleared"] by blast
  have v: "nx s' = (nx s)(fd := -1)" "pv s' = (pv s)(fd := -2)" "data s' = (data s)(fd \<mapsto> (None, 0, -1))" "slot s' = slot s"
    using sl by (auto simp: fun_eq_iff nx_def pv_def data_def s'(3) slot_state)
  have nx: "nx s fd = -1" using sg_listD(6)[OF L(1) sl L(2)] by simp
  then have vn: "nx s' = nx s" using v(1) by auto
  have mon': "sg_mon s' = (sg_mon s)(fd := None)" using v(3) by (auto simp: sg_mon_def fun_eq_iff)
  have L': "sg_list s' L"
    unfolding sg_list_def
  proof (intro conjI)
    have "chain (nx s') (pv s') L = chain (nx s) (pv s) L"
      by (rule chain_cong) (use L(2) v vn in \<open>auto dest: in_set_butlastD in_set_tl\<close>)
    moreover have "pv s' (hd L) = pv s (hd L)" if "L \<noteq> []" using L(2) v(2) that by (metis fun_upd_other hd_in_set)
    ultimately show "ring (nx s') (pv s') L" using sg_listD(3)[OF L(1)] vn by (simp add: ring_def)
    show "\<forall>i. slot s' i \<and> i \<notin> set L \<longrightarrow> nx s' i = -1 \<and> (pv s' i = -1 \<or> pv s' i = -2)"
      using sg_listD(6)[OF L(1)] v by auto
  qed (use sg_listD[OF L(1)] v(4) s'(2) in simp_all)
  have "card (dom ((sg_mon s)(fd := None))) = card (dom (sg_mon s)) - 1" "0 < card (dom (sg_mon s))"
    using mon_finite[of s] domI[of "sg_mon s", OF mon] by (auto simp: card_gt_0_iff)
  then have used: "sg_used s - 1 = int (card (dom ((sg_mon s)(fd := None))))" using base by (simp add: sg_base_def)
  let ?s = "s'\<lparr>sg_used := sg_used s' - 1, sg_backup := b\<rparr>"
  have "sg_base ?s"
    unfolding sg_base_def
  proof (intro conjI)
    have m: "sg_mon ?s = (sg_mon s)(fd := None)" and us: "sg_used ?s = sg_used s - 1" using mon' s'(2) by simp_all
    show "sg_used ?s = int (card (dom (sg_mon ?s)))" unfolding m us by (rule used)
    show "\<forall>i. slot ?s i \<longrightarrow> (sg_mon ?s i = None \<longleftrightarrow> pv ?s i = -2)" unfolding m using base v by (auto simp: sg_base_def)
    show "\<forall>i \<in> dom (sg_mon ?s). i < int FDLIMIT" unfolding m using base by (auto simp: sg_base_def)
    show "pp_mon (sg_backup ?s) = (\<lambda>i. map_option (\<lambda>(c, m). (c, all_events)) (sg_mon ?s i))"
      unfolding m using b(2) base by (auto simp: sg_base_def fun_eq_iff)
    show "\<forall>i. pv ?s i = -2 \<longrightarrow> data ?s i = Some (None, 0, -1)" using base v by (auto simp: sg_base_def)
  qed (use base s'(2) b(1) in \<open>simp_all add: sg_base_def\<close>)
  moreover have "sg_list ?s L" by (rule sg_list_cong[OF L']) simp_all
  moreover have "j \<in> set L \<longleftrightarrow> rdy ?s j" for j
    using rd[of j] L(2) v(3) by (cases "j = fd") (simp_all add: rdy_def)
  ultimately have "sg_inv ?s" using nxt s'(2) unfolding sg_inv_def by (intro conjI exI[of _ L]) auto
  then show ?thesis using s'(1,2) mon' by simp
qed

lemma sg_del_lemma:
  assumes inv: "sg_inv s" and ok: "calls_ok C" and mon: "sg_mon s fd = Some v"
  shows "\<exists>s' x'. sg_del C s fd x = Some (OK, s', x') \<and> sg_inv s' \<and> sg_mon s' = (sg_mon s)(fd := None)"
proof -
  have base: "sg_base s" using inv by (simp add: sg_inv_def)
  obtain L where L: "sg_list s L" "set L = {i. rdy s i}" "sg_next s = -1 \<or> sg_next s \<in> set L" using inv by (auto simp: sg_inv_def)
  obtain x1 where x1: "sc_getfl C fd x = (None, x1)" using calls_okD(6)[OF ok] by blast
  obtain x2 where x2: "sc_setfl C fd (garbage C AND NOT O_ASYNC) x1 = (None, x2)" using calls_okD(7)[OF ok] by blast
  have sl: "slot s fd" using mon_slot[OF mon] .
  obtain f where f: "fd_state s fd = Some f" using sl slot_state by blast
  have w: "\<not> (fd < 0 \<or> fd \<ge> sg_alloc s \<or> sg_used s = 0)"
    using watched_lemma[OF base, of fd] mon by (auto simp: watched_def split: if_splits)
  have "pp_inv (sg_backup s)" "pp_mon (sg_backup s) fd = Some (fst v, all_events)"
    using base mon by (simp_all add: sg_base_def case_prod_beta)
  then obtain b where b: "pp_del (sg_backup s) fd = Some (OK, b)" "pp_inv b" "pp_mon b = (pp_mon (sg_backup s))(fd := None)"
    using pp_del_lemma by blast
  have "\<exists>s1 L1. (if isOnReadyList f then readyListDel s fd else Some s) = Some s1 \<and> same_data s s1 \<and> sg_list s1 L1 \<and>
      set L1 = set L - {fd} \<and> (sg_next s1 = -1 \<or> sg_next s1 \<in> set L1)"
  proof (cases "fd \<in> set L")
    case True
    then show ?thesis using del_from_list[OF L(1) True L(3)] in_list_iff[OF L(1) f] by auto
  next
    case False
    then show ?thesis using L in_list_iff[OF L(1) f] same_data_refl by auto
  qed
  then obtain s1 L1 where s1: "(if isOnReadyList f then readyListDel s fd else Some s) = Some s1" "same_data s s1" "sg_list s1 L1"
    "set L1 = set L - {fd}" "sg_next s1 = -1 \<or> sg_next s1 \<in> set L1" by blast
  note v1 = same_data_views[OF s1(2)]
  have bk: "sg_backup s1 = sg_backup s" using s1(2) by (simp add: same_data_def)
  have pre: "fd \<notin> set L1" "\<And>j. j \<noteq> fd \<Longrightarrow> j \<in> set L1 \<longleftrightarrow> rdy s1 j" "sg_mon s1 fd = Some v"
    "pp_mon b = (pp_mon (sg_backup s1))(fd := None)" using s1(4) L(2) v1 mon b(3) bk by auto
  obtain s2 where s2: "upd_fd s1 fd (\<lambda>f. cleared) = Some s2" "sg_backup s2 = sg_backup s1" "sg_used s2 = sg_used s1"
    "sg_inv (s2\<lparr>sg_used := sg_used s2 - 1, sg_backup := b\<rparr>)" "sg_mon s2 = (sg_mon s1)(fd := None)"
    using clear_entry[OF same_data_base[OF s1(2) base] s1(3) pre(1,2) s1(5) pre(3) b(2) pre(4)] by blast
  have "sg_del C s fd x = Some (OK, s2\<lparr>sg_used := sg_used s2 - 1, sg_backup := b\<rparr>, x2)"
    using w x1 x2 f s1(1) s2(1,2) b(1) bk by (simp add: sg_del_def)
  moreover have "sg_mon (s2\<lparr>sg_used := sg_used s2 - 1, sg_backup := b\<rparr>) = (sg_mon s)(fd := None)"
    using s2(5) v1 by (simp add: sg_mon_def)
  ultimately show ?thesis using s2(4) by blast
qed

subsection \<open>The back end provides the monitor interface\<close>

text \<open>The calls that the poller's interface makes, on the poller and the world.\<close>

definition sg_add_x :: "('c, 'x) sig_calls \<Rightarrow> 'c poller_sigio \<times> 'x \<Rightarrow> int \<Rightarrow> 'c \<Rightarrow> mask \<Rightarrow> (rc \<times> 'c poller_sigio \<times> 'x) option" where
  "sg_add_x C sx fd c m = sg_add C (fst sx) fd c m (snd sx)"

definition sg_del_x :: "('c, 'x) sig_calls \<Rightarrow> 'c poller_sigio \<times> 'x \<Rightarrow> int \<Rightarrow> (rc \<times> 'c poller_sigio \<times> 'x) option" where
  "sg_del_x C sx fd = sg_del C (fst sx) fd (snd sx)"

definition sg_mask_x ::
  "('c poller_sigio \<Rightarrow> int \<Rightarrow> mask \<Rightarrow> (rc \<times> 'c poller_sigio) option) \<Rightarrow> 'c poller_sigio \<times> 'x \<Rightarrow> int \<Rightarrow> mask \<Rightarrow>
   (rc \<times> 'c poller_sigio \<times> 'x) option" where
  "sg_mask_x h sx fd m = do { (r, s) \<leftarrow> h (fst sx) fd m; Some (r, s, snd sx) }"

interpretation sg: monitor "sg_add_x C" "sg_del_x C" "sg_mask_x sg_setMask" "sg_mask_x sg_orMask" "sg_mask_x sg_andMask"
  "\<lambda>sx. sg_mon (fst sx)" "\<lambda>sx. calls_ok C \<and> sg_inv (fst sx)" okfd_poll "\<lambda>m. m" "(OR)" "(AND)"
  for C :: "('c, 'x) sig_calls"
proof unfold_locales
  fix sx :: "'c poller_sigio \<times> 'x" and f c and m :: mask
  assume "calls_ok C \<and> sg_inv (fst sx)" "okfd_poll f" "sg_mon (fst sx) f = None"
  then show "\<exists>s'. sg_add_x C sx f c m = Some (OK, s') \<and> (calls_ok C \<and> sg_inv (fst s')) \<and>
      sg_mon (fst s') = (sg_mon (fst sx))(f \<mapsto> (c, m))"
    using sg_add_lemma[of "fst sx" C f c m "snd sx"] by (auto simp: sg_add_x_def)
next
  fix sx :: "'c poller_sigio \<times> 'x" and f c and k :: mask
  assume "calls_ok C \<and> sg_inv (fst sx)" "sg_mon (fst sx) f = Some (c, k)"
  then show "\<exists>s'. sg_del_x C sx f = Some (OK, s') \<and> (calls_ok C \<and> sg_inv (fst s')) \<and> sg_mon (fst s') = (sg_mon (fst sx))(f := None)"
    using sg_del_lemma[of "fst sx" C f "(c, k)" "snd sx"] by (auto simp: sg_del_x_def)
next
  fix sx :: "'c poller_sigio \<times> 'x" and f c and k m :: mask
  assume a: "calls_ok C \<and> sg_inv (fst sx)" "sg_mon (fst sx) f = Some (c, k)"
  note l = sg_mask_lemma[OF conjunct2[OF a(1)] a(2)]
  show "\<exists>s'. sg_mask_x sg_setMask sx f m = Some (OK, s') \<and> (calls_ok C \<and> sg_inv (fst s')) \<and> sg_mon (fst s') = (sg_mon (fst sx))(f \<mapsto> (c, m))"
    using l[of "\<lambda>_. m"] a(1) by (auto simp: sg_mask_x_def sg_setMask_def)
  show "\<exists>s'. sg_mask_x sg_orMask sx f m = Some (OK, s') \<and> (calls_ok C \<and> sg_inv (fst s')) \<and> sg_mon (fst s') = (sg_mon (fst sx))(f \<mapsto> (c, k OR m))"
    using l[of "\<lambda>k. k OR m"] a(1) by (auto simp: sg_mask_x_def sg_orMask_def)
  show "\<exists>s'. sg_mask_x sg_andMask sx f m = Some (OK, s') \<and> (calls_ok C \<and> sg_inv (fst s')) \<and> sg_mon (fst s') = (sg_mon (fst sx))(f \<mapsto> (c, k AND m))"
    using l[of "\<lambda>k. k AND m"] a(1) by (auto simp: sg_mask_x_def sg_andMask_def)
qed

subsection \<open>Waiting\<close>

text \<open>
  The queue of signals of number \<open>n\<close>: \<open>sigtimedwait\<close> takes the first, \<open>sigs x\<close> are those still queued, and \<open>poll\<close>
  reports one mask for each descriptor.
\<close>

definition sig_source :: "('c, 'x) sig_calls \<Rightarrow> int \<Rightarrow> ('x \<Rightarrow> (int \<times> int \<times> mask) list) \<Rightarrow> bool" where
  "sig_source C n sigs =
     ((\<forall>t x. case sigs x of
         [] \<Rightarrow> \<exists>x'. sc_sigwait C n t x = (None, x') \<and> sigs x' = []
       | q # qs \<Rightarrow> \<exists>x'. sc_sigwait C n t x = (Some q, x') \<and> sigs x' = qs \<and> (fst q = n \<or> fst q = SIGIO)) \<and>
      (\<forall>ps t x. case sc_poll C ps t x of (Inl e, x') \<Rightarrow> True | (Inr rs, x') \<Rightarrow> length rs = length ps))"

definition known_bits :: mask where
  "known_bits = POLLIN OR POLLPRI OR POLLOUT OR POLLERR OR POLLHUP OR POLLNVAL"

lemma sig_sourceD:
  assumes "sig_source C n sigs"
  shows "sigs x = [] \<Longrightarrow> \<exists>x'. sc_sigwait C n t x = (None, x') \<and> sigs x' = []"
    and "sigs x = q # qs \<Longrightarrow> \<exists>x'. sc_sigwait C n t x = (Some q, x') \<and> sigs x' = qs \<and> (fst q = n \<or> fst q = SIGIO)"
    and "sc_poll C ps tm x = (Inr rs, x1) \<Longrightarrow> length rs = length ps"
proof -
  have a: "case sigs x of
         [] \<Rightarrow> \<exists>x'. sc_sigwait C n t x = (None, x') \<and> sigs x' = []
       | q # qs \<Rightarrow> \<exists>x'. sc_sigwait C n t x = (Some q, x') \<and> sigs x' = qs \<and> (fst q = n \<or> fst q = SIGIO)"
    using assms unfolding sig_source_def by (rule conjE) (erule allE)+
  have b: "case sc_poll C ps tm x of (Inl e, x') \<Rightarrow> True | (Inr rs, x') \<Rightarrow> length rs = length ps"
    using assms unfolding sig_source_def by (rule conjE) (erule allE)+
  show "sigs x = [] \<Longrightarrow> \<exists>x'. sc_sigwait C n t x = (None, x') \<and> sigs x' = []" using a by simp
  show "sigs x = q # qs \<Longrightarrow> \<exists>x'. sc_sigwait C n t x = (Some q, x') \<and> sigs x' = qs \<and> (fst q = n \<or> fst q = SIGIO)"
    using a by simp
  show "sc_poll C ps tm x = (Inr rs, x1) \<Longrightarrow> length rs = length ps" using b by simp
qed

text \<open>The readiness after the signals of a queue.\<close>

fun signalled :: "(int \<times> int \<times> mask) list \<Rightarrow> int \<Rightarrow> mask \<Rightarrow> mask" where
  "signalled [] fd b = b"
| "signalled (q # qs) fd b = signalled qs fd (if fst (snd q) = fd then b OR (snd (snd q) AND known_bits) else b)"

text \<open>The signals up to an overflow, and what is left in the queue after it.\<close>

definition pulled :: "(int \<times> int \<times> mask) list \<Rightarrow> (int \<times> int \<times> mask) list" where
  "pulled qs = takeWhile (\<lambda>q. fst q \<noteq> SIGIO) qs"

definition unpulled :: "(int \<times> int \<times> mask) list \<Rightarrow> (int \<times> int \<times> mask) list" where
  "unpulled qs = tl (dropWhile (\<lambda>q. fst q \<noteq> SIGIO) qs)"

lemma take_signal_lemma:
  assumes inv: "sg_inv s"
  shows "\<exists>s'. take_signal s fd band = Some s' \<and> sg_inv s' \<and> sg_mon s' = sg_mon s \<and> sg_signum s' = sg_signum s \<and> sg_backup s' = sg_backup s \<and> keeps_head s s' \<and>
     (\<forall>j. sg_mon s j \<noteq> None \<longrightarrow> sg_bits s' j = (if j = fd then sg_bits s j OR (band AND known_bits) else sg_bits s j))"
  using sg_bits_lemma[OF inv, of fd "\<lambda>b. b OR (band AND known_bits)"] unfolding take_signal_def known_bits_def .

lemma pull_signals_lemma:
  assumes src: "sig_source C n sigs"
  shows "sg_inv s \<Longrightarrow> sg_signum s = n \<Longrightarrow> \<exists>ov s' x'. pull_signals C t (s, x) = Some (ov, s', x') \<and> sg_inv s' \<and> sg_mon s' = sg_mon s \<and>
     sg_signum s' = sg_signum s \<and> sg_backup s' = sg_backup s \<and> keeps_head s s' \<and>
     (ov \<longleftrightarrow> (\<exists>q \<in> set (sigs x). fst q = SIGIO)) \<and> sigs x' = unpulled (sigs x) \<and>
     (\<forall>j. sg_mon s j \<noteq> None \<longrightarrow> sg_bits s' j = signalled (pulled (sigs x)) j (sg_bits s j))"
proof (induction "sigs x" arbitrary: s x t)
  case Nil
  obtain x' where x': "sc_sigwait C (sg_signum s) t x = (None, x')" "sigs x' = []"
    using sig_sourceD(1)[OF src Nil(1)[symmetric]] Nil(3) by blast
  then have "pull_signals C t (s, x) = Some (False, s, x')" by (subst pull_signals.simps) simp
  then show ?case using x'(2) Nil(2) by (intro exI[of _ False] exI[of _ s] exI[of _ x']) (simp add: keeps_head_refl pulled_def unpulled_def flip: Nil(1))
next
  case (Cons q qs)
  obtain x1 where x1: "sc_sigwait C (sg_signum s) t x = (Some q, x1)" "sigs x1 = qs" "fst q = sg_signum s \<or> fst q = SIGIO"
    using sig_sourceD(2)[OF src Cons(2)[symmetric]] Cons(4) by blast
  show ?case
  proof (cases "fst q = SIGIO")
    case True
    then show ?thesis using x1(1,2) Cons(2,3) keeps_head_refl
      by (subst pull_signals.simps) (auto simp: pulled_def unpulled_def simp flip: Cons(2))
  next
    case False
    obtain s1 where s1: "take_signal s (fst (snd q)) (snd (snd q)) = Some s1" "sg_inv s1" "sg_mon s1 = sg_mon s"
      "sg_signum s1 = sg_signum s" "sg_backup s1 = sg_backup s" "keeps_head s s1"
      "\<forall>j. sg_mon s j \<noteq> None \<longrightarrow> sg_bits s1 j = (if j = fst (snd q) then sg_bits s j OR (snd (snd q) AND known_bits) else sg_bits s j)"
      using take_signal_lemma[OF Cons(3)] by blast
    have step: "pull_signals C t (s, x) = pull_signals C (0, 0) (s1, x1)"
      using x1 s1(1) False by (subst pull_signals.simps) simp
    obtain ov s' x' where r: "pull_signals C (0, 0) (s1, x1) = Some (ov, s', x')" "sg_inv s'" "sg_mon s' = sg_mon s1"
      "sg_signum s' = sg_signum s1" "sg_backup s' = sg_backup s1" "keeps_head s1 s'" "ov \<longleftrightarrow> (\<exists>q \<in> set (sigs x1). fst q = SIGIO)"
      "sigs x' = unpulled (sigs x1)" "\<forall>j. sg_mon s1 j \<noteq> None \<longrightarrow> sg_bits s' j = signalled (pulled (sigs x1)) j (sg_bits s1 j)"
      using Cons(1)[OF x1(2)[symmetric] s1(2), of "(0, 0)"] s1(4) Cons(4) by auto
    show ?thesis unfolding step
      using r s1 False x1(2) keeps_head_trans[OF s1(6) r(6)] by (intro exI[of _ ov] exI[of _ s'] exI[of _ x']) (auto simp: pulled_def unpulled_def simp flip: Cons(2))
  qed
qed

text \<open>The poll that replaces a queue of signals that has overflowed.\<close>

lemma set_backup:
  assumes "sg_inv s" "pp_inv b" "pp_mon b = pp_mon (sg_backup s)"
  shows "sg_inv (s\<lparr>sg_backup := b\<rparr>)"
proof -
  obtain L where L: "sg_list s L" "set L = {i. rdy s i}" "sg_next s = -1 \<or> sg_next s \<in> set L" using assms(1) by (auto simp: sg_inv_def)
  have "sg_list (s\<lparr>sg_backup := b\<rparr>) L" by (rule sg_list_cong[OF L(1)]) simp_all
  moreover have "sg_base (s\<lparr>sg_backup := b\<rparr>)" using assms by (simp add: sg_inv_def sg_base_def)
  ultimately show ?thesis using L(2,3) by (auto simp: sg_inv_def)
qed

lemma set_next:
  assumes "sg_inv s" "sg_list s L" "k = -1 \<or> k \<in> set L"
  shows "sg_inv (s\<lparr>sg_next := k\<rparr>)" "sg_list (s\<lparr>sg_next := k\<rparr>) L"
proof -
  note S = readyList_set[OF assms(1,2)]
  show l: "sg_list (s\<lparr>sg_next := k\<rparr>) L" by (rule sg_list_cong[OF assms(2)]) simp_all
  have "sg_base (s\<lparr>sg_next := k\<rparr>)" using assms(1) by (simp add: sg_inv_def sg_base_def)
  then show "sg_inv (s\<lparr>sg_next := k\<rparr>)" using l S assms(3) by (auto simp: sg_inv_def)
qed

lemma take_polled_lemma:
  assumes inv: "sg_inv s"
  shows "\<exists>s'. take_polled s fd revents = Some s' \<and> sg_inv s' \<and> sg_mon s' = sg_mon s \<and> sg_signum s' = sg_signum s \<and> sg_backup s' = sg_backup s \<and>
     keeps_head s s' \<and> (\<forall>j. sg_mon s j \<noteq> None \<longrightarrow> sg_bits s' j = (if j = fd then revents else sg_bits s j))"
proof (cases "sg_mon s fd")
  case None
  then show ?thesis using watched_lemma[of s fd] inv keeps_head_refl by (auto simp: sg_inv_def take_polled_def)
next
  case (Some v)
  have w: "watched s fd = Some True" using watched_lemma[of s fd] inv Some by (simp add: sg_inv_def)
  obtain f where f: "fd_state s fd = Some f" using mon_slot[OF Some] slot_state by blast
  obtain s' where s': "do { v \<leftarrow> watched s fd; if \<not> v then Some s
                   else do { s1 \<leftarrow> upd_fd s fd (\<lambda>f. f\<lparr>sf_bits := revents\<rparr>); readyListUpdate s1 fd } } = Some s'"
    "sg_inv s'" "sg_mon s' = sg_mon s" "sg_signum s' = sg_signum s" "sg_backup s' = sg_backup s" "keeps_head s s'"
    "\<forall>j. sg_mon s j \<noteq> None \<longrightarrow> sg_bits s' j = (if j = fd then revents else sg_bits s j)"
    using sg_bits_lemma[OF inv, of fd "\<lambda>b. revents"] by blast
  show ?thesis
  proof (cases "sf_bits f = revents")
    case True
    then have "sg_bits s fd = revents" using f by (simp add: sg_bits_def data_def)
    then show ?thesis using True w f inv keeps_head_refl by (auto simp: take_polled_def)
  next
    case False
    then show ?thesis using s' w f by (auto simp: take_polled_def)
  qed
qed

fun polled :: "'c poll_event list \<Rightarrow> int \<Rightarrow> mask \<Rightarrow> mask" where
  "polled [] fd b = b"
| "polled (e # es) fd b = polled es fd (if ev_fd e = fd then ev_revents e else b)"

definition pp_coming :: "'c poller_poll \<Rightarrow> 'c poll_event list" where
  "pp_coming s = (if pp_rfds s < 1 then [] else pp_ready s)"

lemma take_backup_lemma:
  "sg_inv s \<Longrightarrow> pp_ev_inv (sg_backup s) \<or> pp_rfds (sg_backup s) < 1 \<Longrightarrow>
   \<exists>s'. take_backup s = Some s' \<and> sg_inv s' \<and> sg_mon s' = sg_mon s \<and> sg_signum s' = sg_signum s \<and> keeps_head s s' \<and>
     (\<forall>j. sg_mon s j \<noteq> None \<longrightarrow> sg_bits s' j = polled (pp_coming (sg_backup s)) j (sg_bits s j))"
proof (induction "length (pp_ready (sg_backup s))" arbitrary: s rule: less_induct)
  case less
  show ?case
  proof (cases "pp_rfds (sg_backup s) < 1")
    case True
    then have "take_backup s = Some (s\<lparr>sg_backup := sg_backup s\<rparr>)" by (subst take_backup.simps) (simp add: pp_getNextEvent_def)
    then show ?thesis using True less.prems(1) keeps_head_refl by (simp add: pp_coming_def)
  next
    case False
    then have ev: "pp_ev_inv (sg_backup s)" using less.prems(2) by simp
    then obtain e es where r: "pp_ready (sg_backup s) = e # es" using False by (cases "pp_ready (sg_backup s)") (auto simp: pp_ev_inv_def)
    obtain k where k: "k < pp_pfds_used (sg_backup s)" "es = map (pp_event (sg_backup s)) (rev (hot (pp_pfds (sg_backup s)) k))"
      "pp_getNextEvent (sg_backup s) = Some (OK, Some e, (sg_backup s)\<lparr>pp_cur_pfdnum := int k, pp_rfds := pp_rfds (sg_backup s) - 1\<rparr>)"
      using pp_ready_ConsD[OF ev r] by blast
    let ?b = "(sg_backup s)\<lparr>pp_cur_pfdnum := int k, pp_rfds := pp_rfds (sg_backup s) - 1\<rparr>"
    have b: "pp_ev_inv ?b" "pp_ready ?b = es" "pp_mon ?b = pp_mon (sg_backup s)" using pp_ev_step[OF ev r k(1,2)] by simp_all
    have i1: "sg_inv (s\<lparr>sg_backup := ?b\<rparr>)" using set_backup[OF less.prems(1) _ b(3)] b(1) by (simp add: pp_ev_inv_def)
    obtain s1 where s1: "take_polled (s\<lparr>sg_backup := ?b\<rparr>) (ev_fd e) (ev_revents e) = Some s1" "sg_inv s1" "sg_mon s1 = sg_mon s"
      "sg_signum s1 = sg_signum s" "sg_backup s1 = ?b" "keeps_head (s\<lparr>sg_backup := ?b\<rparr>) s1"
      "\<forall>j. sg_mon s j \<noteq> None \<longrightarrow> sg_bits s1 j = (if j = ev_fd e then ev_revents e else sg_bits s j)"
      using take_polled_lemma[OF i1, of "ev_fd e" "ev_revents e"] unfolding record_mon by auto
    have cm: "pp_coming (sg_backup s) = e # pp_coming (sg_backup s1)"
      using False r b(1,2) s1(5) by (auto simp: pp_coming_def pp_ev_inv_def)
    have "length (pp_ready (sg_backup s1)) < length (pp_ready (sg_backup s))" using b(2) r s1(5) by simp
    from less.hyps[OF this s1(2)] b(1) s1(5) obtain s' where "take_backup s1 = Some s'" "sg_inv s'" "sg_mon s' = sg_mon s1" "sg_signum s' = sg_signum s1" "keeps_head s1 s'"
      "\<forall>j. sg_mon s1 j \<noteq> None \<longrightarrow> sg_bits s' j = polled (pp_coming (sg_backup s1)) j (sg_bits s1 j)"
      by auto
    moreover have "keeps_head s s1" using s1(6) by (simp add: keeps_head_def at_head_def)
    moreover have "take_backup s = take_backup s1" using k(3) s1(1) by (subst take_backup.simps) simp
    ultimately show ?thesis using s1(3,4,7) keeps_head_trans unfolding cm by auto
  qed
qed

text \<open>
  The answer of \<open>poll\<close> on the descriptors of the backup replaces the readiness of those it reports as
  ready; an answer of 0, or an error of \<open>poll\<close>, leaves the old readiness.
\<close>

definition sg_polls :: "'c poller_sigio \<Rightarrow> (int \<times> mask) list" where
  "sg_polls s = map (\<lambda>p. (pfd_fd p, pfd_events p)) (take (pp_pfds_used (sg_backup s)) (pp_pfds (sg_backup s)))"

definition answered :: "(int \<times> mask) list \<Rightarrow> errno + mask list \<Rightarrow> int \<Rightarrow> mask \<Rightarrow> mask" where
  "answered ps res fd old =
     (case res of Inl e \<Rightarrow> old
      | Inr rs \<Rightarrow> (case map_of (zip (map fst ps) rs) fd of Some r \<Rightarrow> if r \<noteq> 0 then r else old | None \<Rightarrow> old))"

lemma polled_other: "j \<notin> ev_fd ` set es \<Longrightarrow> polled es j b = b"
  by (induction es arbitrary: b) auto

lemma polled_the: "e \<in> set es \<Longrightarrow> (\<And>e'. e' \<in> set es \<Longrightarrow> ev_fd e' = ev_fd e \<Longrightarrow> e' = e) \<Longrightarrow> polled es (ev_fd e) b = ev_revents e"
proof (induction es arbitrary: b)
  case (Cons a es)
  show ?case
  proof (cases "e \<in> set es")
    case True
    with Cons.IH[OF True] Cons.prems(2) show ?thesis by simp
  next
    case False
    then have "ev_fd e \<notin> ev_fd ` set es" using Cons.prems(2) by (metis imageE list.set_intros(2))
    moreover have "a = e" using Cons.prems(1) False by simp
    ultimately show ?thesis by (simp add: polled_other)
  qed
qed simp

lemma polled_reported:
  assumes inv: "pp_inv b" and len: "length rs = pp_pfds_used b"
  shows "polled (pp_reported b rs) j old =
     answered (map (\<lambda>p. (pfd_fd p, pfd_events p)) (take (pp_pfds_used b) (pp_pfds b))) (Inr rs) j old"
proof -
  let ?fds = "map (pp_fd b) [0..<pp_pfds_used b]"
  have le: "pp_pfds_used b \<le> length (pp_pfds b)" using inv by (simp add: pp_inv_def pp_sizes_def)
  have fds: "map fst (map (\<lambda>p. (pfd_fd p, pfd_events p)) (take (pp_pfds_used b) (pp_pfds b))) = ?fds"
    using le by (auto intro!: nth_equalityI simp: pp_fd_def)
  have d: "distinct ?fds" using pp_fd_inj[OF inv] by (auto simp: distinct_map inj_on_def)
  show ?thesis
  proof (cases "\<exists>i < pp_pfds_used b. pp_fd b i = j")
    case True
    then obtain i where i: "i < pp_pfds_used b" "pp_fd b i = j" by blast
    have m: "map_of (zip ?fds rs) j = Some (rs ! i)" using map_of_zip_nth[OF _ d, of rs i] len i by simp
    show ?thesis
    proof (cases "rs ! i = 0")
      case True
      then have "j \<notin> ev_fd ` set (pp_reported b rs)"
        using pp_fd_inj[OF inv i(1)] i(2) by (auto simp: pp_reported_def)
      then show ?thesis using True m unfolding answered_def sum.case fds by (simp add: polled_other)
    next
      case False
      let ?e = "\<lparr>ev_fd = pp_fd b i, ev_revents = rs ! i, ev_client = pp_clients b ! i\<rparr>"
      have "?e \<in> set (pp_reported b rs)" using i False by (auto simp: pp_reported_def)
      moreover have "e' = ?e" if e': "e' \<in> set (pp_reported b rs)" "ev_fd e' = ev_fd ?e" for e'
      proof -
        obtain x where x: "x < pp_pfds_used b" "e' = \<lparr>ev_fd = pp_fd b x, ev_revents = rs ! x, ev_client = pp_clients b ! x\<rparr>"
          using e'(1) by (auto simp: pp_reported_def)
        then have "pp_fd b i = pp_fd b x" using e'(2) by simp
        then have "i = x" by (rule pp_fd_inj[OF inv i(1) x(1)])
        then show ?thesis unfolding x(2) by simp
      qed
      ultimately have "polled (pp_reported b rs) (ev_fd ?e) old = ev_revents ?e" by (rule polled_the)
      then show ?thesis using False m i(2) unfolding answered_def sum.case fds by simp
    qed
  next
    case False
    then have "map_of (zip ?fds rs) j = None" using len by (auto simp: map_of_zip_is_None)
    moreover have "j \<notin> ev_fd ` set (pp_reported b rs)" using False by (auto simp: pp_reported_def)
    ultimately show ?thesis unfolding answered_def sum.case fds by (simp add: polled_other)
  qed
qed

lemma set_head:
  assumes inv: "sg_inv s"
  shows "sg_inv (s\<lparr>sg_next := sg_head s\<rparr>)"
proof -
  obtain L where L: "sg_list s L" using inv by (auto simp: sg_inv_def)
  have "sg_head s = -1 \<or> sg_head s \<in> set L" using sg_listD(4)[OF L] by auto
  then show ?thesis using set_next(1)[OF inv L] by simp
qed

lemma overflow_lemma:
  assumes inv: "sg_inv s" and src: "sig_source C n sigs"
  shows "\<exists>s' x'. do { (r, b, x2) \<leftarrow> pp_waitForEvents (sc_poll C) 0 (sg_backup s) x; s2 \<leftarrow> take_backup (s\<lparr>sg_backup := b\<rparr>); Some (s2, x2) } =
     Some (s', x') \<and> sg_inv s' \<and> sg_mon s' = sg_mon s \<and> keeps_head s s' \<and>
     (\<exists>res. sc_poll C (sg_polls s) 0 x = (res, x') \<and>
        (\<forall>j. sg_mon s j \<noteq> None \<longrightarrow> sg_bits s' j = answered (sg_polls s) res j (sg_bits s j)))"
proof -
  let ?b = "sg_backup s"
  let ?ps = "map (\<lambda>p. (pfd_fd p, pfd_events p)) (take (pp_pfds_used ?b) (pp_pfds ?b))"
  have pi: "pp_inv ?b" using inv by (simp add: sg_inv_def sg_base_def)
  then have le: "pp_pfds_used ?b \<le> length (pp_pfds ?b)" by (simp add: pp_inv_def pp_sizes_def)
  obtain res x2 where p: "sc_poll C ?ps 0 x = (res, x2)" by fastforce
  have "\<exists>r b. pp_waitForEvents (sc_poll C) 0 ?b x = Some (r, b, x2) \<and> pp_inv b \<and> pp_mon b = pp_mon ?b \<and> (pp_ev_inv b \<or> pp_rfds b < 1) \<and>
      (\<forall>j old. polled (pp_coming b) j old = answered ?ps res j old)"
  proof (cases res)
    case (Inl e)
    let ?b' = "?b\<lparr>pp_rfds := -1, pp_cur_pfdnum := -1\<rparr>"
    have "pp_inv ?b'" using pi by (simp add: pp_inv_def pp_sizes_def pp_linked_def pp_fd_def)
    moreover have "pp_mon ?b' = pp_mon ?b" by (simp add: pp_mon_def pp_fd_def pp_val_def)
    ultimately show ?thesis using p Inl le by (simp add: pp_waitForEvents_def pp_coming_def answered_def)
  next
    case (Inr rs)
    have len: "length rs = pp_pfds_used ?b" using sig_sourceD(3)[OF src p[unfolded Inr]] le by simp
    obtain b where b: "pp_waitForEvents (sc_poll C) 0 ?b x = Some (if \<forall>r \<in> set rs. r = 0 then Fail EWOULDBLOCK else OK, b, x2)"
      "pp_ev_inv b" "pp_mon b = pp_mon ?b" "pp_ready b = pp_reported ?b rs"
      using pp_wait_lemma[where s = ?b and poll = "sc_poll C" and timeout = 0 and x = x and x' = x2 and rs = rs, OF pi _ len] p Inr
      by blast
    have "pp_coming b = pp_reported ?b rs" using b(2,4) by (simp add: pp_coming_def pp_ev_inv_def)
    with b polled_reported[OF pi len] Inr show ?thesis by (auto simp: pp_ev_inv_def)
  qed
  then obtain r b where b: "pp_waitForEvents (sc_poll C) 0 ?b x = Some (r, b, x2)" "pp_inv b" "pp_mon b = pp_mon ?b" "pp_ev_inv b \<or> pp_rfds b < 1"
    "\<forall>j old. polled (pp_coming b) j old = answered ?ps res j old"
    by blast
  have "sg_inv (s\<lparr>sg_backup := b\<rparr>)" using set_backup[OF inv b(2,3)] .
  then obtain s' where s': "take_backup (s\<lparr>sg_backup := b\<rparr>) = Some s'" "sg_inv s'" "sg_mon s' = sg_mon s" "keeps_head (s\<lparr>sg_backup := b\<rparr>) s'"
    "\<forall>j. sg_mon s j \<noteq> None \<longrightarrow> sg_bits s' j = polled (pp_coming b) j (sg_bits s j)"
    using take_backup_lemma[of "s\<lparr>sg_backup := b\<rparr>"] b(4) by auto
  moreover have "keeps_head s s'" using s'(4) by (simp add: keeps_head_def at_head_def)
  ultimately show ?thesis using b(1,5) p unfolding sg_polls_def by auto
qed

lemma sg_wait_lemma:
  assumes inv: "sg_inv s" and src: "sig_source C (sg_signum s) sigs"
  shows "\<exists>s' x'. sg_waitForEvents C t s x = Some (if \<exists>fd. rdy s' fd then OK else Fail EWOULDBLOCK, s', x') \<and>
     sg_inv s' \<and> sg_mon s' = sg_mon s \<and> at_head s' \<and>
     (if SIGIO \<in> fst ` set (sigs x)
      then \<exists>x1 res. sigs x1 = unpulled (sigs x) \<and> sc_poll C (sg_polls s) 0 (sc_purge C (sg_signum s) x1) = (res, x') \<and>
        (\<forall>j. sg_mon s j \<noteq> None \<longrightarrow> sg_bits s' j = answered (sg_polls s) res j (signalled (pulled (sigs x)) j (sg_bits s j)))
      else \<forall>j. sg_mon s j \<noteq> None \<longrightarrow> sg_bits s' j = signalled (sigs x) j (sg_bits s j))"
proof -
  let ?t = "if sg_head s < 0 then (cdiv t 1000, cmod t 1000 * 1000000) else (0, 0)"
  let ?s = "s\<lparr>sg_next := sg_head s\<rparr>"
  have img: "(SIGIO \<in> fst ` set (sigs x)) = (\<exists>q \<in> set (sigs x). fst q = SIGIO)" by force
  obtain ov s1 x1 where p: "pull_signals C ?t (?s, x) = Some (ov, s1, x1)" "sg_inv s1" "sg_mon s1 = sg_mon s" "keeps_head ?s s1"
    "ov \<longleftrightarrow> SIGIO \<in> fst ` set (sigs x)" "sigs x1 = unpulled (sigs x)"
    "\<forall>j. sg_mon s j \<noteq> None \<longrightarrow> sg_bits s1 j = signalled (pulled (sigs x)) j (sg_bits s j)"
    "sg_signum s1 = sg_signum s" "sg_backup s1 = sg_backup s"
    using pull_signals_lemma[OF src set_head[OF inv], of ?t x] unfolding img by auto
  have h1: "at_head s1" using p(4) by (simp add: keeps_head_def at_head_def)
  have cnt: "(sg_count s' \<noteq> 0) = (\<exists>fd. rdy s' fd)" if "sg_inv s'" for s'
  proof -
    obtain L where L: "sg_list s' L" "set L = {i. rdy s' i}" using \<open>sg_inv s'\<close> by (auto simp: sg_inv_def)
    then show ?thesis using sg_listD(5)[OF L(1)] by (cases L) auto
  qed
  show ?thesis
  proof (cases ov)
    case True
    obtain s' x' where o: "do { (r, b, x2) \<leftarrow> pp_waitForEvents (sc_poll C) 0 (sg_backup s1) (sc_purge C (sg_signum s1) x1);
        s2 \<leftarrow> take_backup (s1\<lparr>sg_backup := b\<rparr>); Some (s2, x2) } = Some (s', x')" "sg_inv s'" "sg_mon s' = sg_mon s1" "keeps_head s1 s'"
      "\<exists>res. sc_poll C (sg_polls s1) 0 (sc_purge C (sg_signum s1) x1) = (res, x') \<and>
        (\<forall>j. sg_mon s1 j \<noteq> None \<longrightarrow> sg_bits s' j = answered (sg_polls s1) res j (sg_bits s1 j))"
      using overflow_lemma[OF p(2) src] by blast
    have q: "sg_polls s1 = sg_polls s" using p(9) by (simp add: sg_polls_def)
    have polls: "\<exists>x1 res. sigs x1 = unpulled (sigs x) \<and> sc_poll C (sg_polls s) 0 (sc_purge C (sg_signum s) x1) = (res, x') \<and>
        (\<forall>j. sg_mon s j \<noteq> None \<longrightarrow> sg_bits s' j = answered (sg_polls s) res j (signalled (pulled (sigs x)) j (sg_bits s j)))"
      using o(5) p(3,6-8) unfolding q by (intro exI[of _ x1]) auto
    have "sg_waitForEvents C t s x = Some (if sg_count s' \<noteq> 0 then OK else Fail EWOULDBLOCK, s', x')"
      using p(1) True unfolding sg_waitForEvents_def Let_def by (simp only: bind.bind_lunit prod.case if_True o(1))
    moreover have "at_head s'" using o(4) h1 by (simp add: keeps_head_def)
    ultimately show ?thesis using o(2,3) p(3,5) True unfolding cnt[OF o(2)]
      by (intro exI[of _ s'] exI[of _ x']) (simp only: if_True simp_thms polls)
  next
    case False
    then have "sg_waitForEvents C t s x = Some (if sg_count s1 \<noteq> 0 then OK else Fail EWOULDBLOCK, s1, x1)"
      using p(1) by (simp add: sg_waitForEvents_def Let_def)
    moreover have "pulled (sigs x) = sigs x" using p(5)[unfolded img] False by (simp add: pulled_def takeWhile_eq_all_conv)
    ultimately show ?thesis using p(2,3,5,7) h1 False unfolding cnt[OF p(2)]
      by (intro exI[of _ s1] exI[of _ x1]) simp
  qed
qed

subsection \<open>Delivery\<close>

text \<open>The event for a node of the ready list, and those from the cursor on.\<close>

definition sg_event :: "'c poller_sigio \<Rightarrow> int \<Rightarrow> 'c poll_event" where
  "sg_event s i = \<lparr>ev_fd = i, ev_revents = sg_bits s i AND snd (the (sg_mon s i)), ev_client = Some (fst (the (sg_mon s i)))\<rparr>"

definition sg_ready :: "'c poller_sigio \<Rightarrow> 'c poll_event list" where
  "sg_ready s = (if sg_next s = -1 then [] else map (sg_event s) (dropWhile (\<lambda>i. i \<noteq> sg_next s) (sg_readyList s)))"

lemma rdy_mon:
  assumes "sg_base s" "rdy s i"
  shows "\<exists>c m. sg_mon s i = Some (c, m) \<and> m AND sg_bits s i \<noteq> 0"
proof -
  obtain c m b where d: "data s i = Some (c, m, b)" "m AND b \<noteq> 0" using assms(2) by (auto simp: rdy_def split: option.splits)
  then have "slot s i" by (auto simp: data_def slot_state)
  moreover have "pv s i \<noteq> -2" using assms(1) d by (auto simp: sg_base_def)
  ultimately have "sg_mon s i \<noteq> None" using assms(1) by (simp add: sg_base_def)
  then show ?thesis using d by (auto simp: sg_mon_def sg_bits_def split: option.splits)
qed

lemma rdy_iff:
  assumes "sg_base s"
  shows "rdy s i \<longleftrightarrow> (\<exists>c m. sg_mon s i = Some (c, m) \<and> m AND sg_bits s i \<noteq> 0)"
proof
  show "rdy s i \<Longrightarrow> \<exists>c m. sg_mon s i = Some (c, m) \<and> m AND sg_bits s i \<noteq> 0" by (rule rdy_mon[OF assms])
  show "\<exists>c m. sg_mon s i = Some (c, m) \<and> m AND sg_bits s i \<noteq> 0 \<Longrightarrow> rdy s i"
    by (auto simp: sg_mon_def sg_bits_def rdy_def split: option.splits)
qed

text \<open>What \<open>getNextEvent\<close> does at a node other than descriptor 0.\<close>

lemma sg_getNextEvent_lemma:
  assumes inv: "sg_inv s" and L: "sg_list s (A @ i # B)" and nxt: "sg_next s = i" and pos: "i \<noteq> 0"
  shows "sg_getNextEvent s = Some (OK, Some (sg_event s i), s\<lparr>sg_next := if B = [] then -1 else hd B\<rparr>)"
proof -
  note l = sg_listD[OF L]
  have sl: "slot s i" using l(2)[of i] by simp
  obtain f where f: "fd_state s i = Some f" using sl slot_state by blast
  have base: "sg_base s" using inv by (simp add: sg_inv_def)
  have "rdy s i" using readyList_set[OF inv L] by auto
  then obtain c m where m: "sg_mon s i = Some (c, m)" using rdy_mon[OF base] by blast
  have fv: "sf_client f = Some c" "sf_mask f = m" "sf_bits f = sg_bits s i"
    using m f by (auto simp: sg_mon_def sg_bits_def data_def split: option.splits)
  have nf: "sf_next f = hd (B @ A @ [i])" using ring_split(3)[OF l(3)] nx_pv_state[OF sl f] by simp
  have hd: "sg_head s = hd (A @ [i])" using l(4) by (cases A) auto
  have "(sf_next f = sg_head s) = (B = [])"
    unfolding nf hd using l(1) by (cases A; cases B) auto
  then have "(if sf_next f = sg_head s then -1 else sf_next f) = (if B = [] then -1 else hd B)" using nf by auto
  moreover have "\<not> i < 1" using sl pos by (simp add: slot_def)
  ultimately show ?thesis using f fv m nxt by (simp add: sg_getNextEvent_def sg_event_def)
qed

lemma dropWhile_to: "i \<notin> set A \<Longrightarrow> dropWhile (\<lambda>j. j \<noteq> i) (A @ i # B) = i # B"
  by (induction A) auto

lemma sg_event_next [simp]: "sg_event (s\<lparr>sg_next := k\<rparr>) = sg_event s"
  by (simp add: sg_event_def fun_eq_iff)

text \<open>The ready list is exact.\<close>

lemma readyList_exact:
  assumes "sg_inv s"
  shows "distinct (sg_readyList s)" "set (sg_readyList s) = {fd. \<exists>c m. sg_mon s fd = Some (c, m) \<and> m AND sg_bits s fd \<noteq> 0}"
    "set (sg_readyList s) = {fd. rdy s fd}"
proof -
  obtain L where L: "sg_list s L" using assms by (auto simp: sg_inv_def)
  have b: "sg_base s" using assms by (simp add: sg_inv_def)
  show "distinct (sg_readyList s)" using readyList_is[OF L] sg_listD(1)[OF L] by simp
  show r: "set (sg_readyList s) = {fd. rdy s fd}" using readyList_set[OF assms L] readyList_is[OF L] by simp
  show "set (sg_readyList s) = {fd. \<exists>c m. sg_mon s fd = Some (c, m) \<and> m AND sg_bits s fd \<noteq> 0}"
    unfolding r rdy_iff[OF b] ..
qed

lemma ready_at_head:
  assumes "sg_inv s" "at_head s"
  shows "sg_ready s = map (sg_event s) (sg_readyList s)"
proof -
  obtain L where L: "sg_list s L" using assms(1) by (auto simp: sg_inv_def)
  have "-1 \<notin> set L" using sg_listD(2)[OF L, of "-1"] by (auto simp: slot_def)
  then show ?thesis using sg_listD(4)[OF L] assms(2) readyList_is[OF L]
    by (cases L) (auto simp: sg_ready_def at_head_def)
qed

interpretation sge: event_queue sg_getNextEvent sg_ready "\<lambda>s. sg_inv s \<and> sg_mon s 0 = None"
proof unfold_locales
  fix s :: "'c poller_sigio" and e es
  assume inv: "sg_inv s \<and> sg_mon s 0 = None" and r: "sg_ready s = e # es"
  obtain L where L: "sg_list s L" "set L = {i. rdy s i}" "sg_next s = -1 \<or> sg_next s \<in> set L" using inv by (auto simp: sg_inv_def)
  have n: "sg_next s \<noteq> -1" "sg_next s \<in> set L" using r L(3) by (auto simp: sg_ready_def)
  then obtain A B where AB: "L = A @ sg_next s # B" by (auto simp: in_set_conv_decomp)
  have d: "sg_next s \<notin> set A" "distinct L" using sg_listD(1)[OF L(1)] AB by auto
  have base: "sg_base s" using inv by (simp add: sg_inv_def)
  have "sg_next s \<noteq> 0" using n(2) L(2) inv rdy_mon[OF base, of 0] by auto
  note g = sg_getNextEvent_lemma[OF conjunct1[OF inv] L(1)[unfolded AB] refl this]
  let ?k = "if B = [] then -1 else hd B"
  have k: "?k = -1 \<or> ?k \<in> set L" using AB by auto
  note s1 = set_next[OF conjunct1[OF inv] L(1) k]
  have "-1 \<notin> set L" using sg_listD(2)[OF L(1), of "-1"] by (auto simp: slot_def)
  then have kB: "B \<noteq> [] \<Longrightarrow> hd B \<noteq> -1" using AB by (cases B) auto
  have "dropWhile (\<lambda>j. j \<noteq> hd B) L = B" if ne: "B \<noteq> []"
  proof -
    obtain b B' where B: "B = b # B'" using ne by (cases B) auto
    have "b \<notin> set (A @ [sg_next s])" using d(2) AB B by auto
    from dropWhile_to[OF this, of B'] show ?thesis using AB B by simp
  qed
  then have "sg_ready (s\<lparr>sg_next := ?k\<rparr>) = map (sg_event s) B"
    using readyList_is[OF s1(2)] kB by (simp add: sg_ready_def)
  moreover have "sg_ready s = map (sg_event s) (sg_next s # B)"
    using n(1) readyList_is[OF L(1)] dropWhile_to[OF d(1)] AB by (simp add: sg_ready_def)
  ultimately show "\<exists>s'. sg_getNextEvent s = Some (OK, Some e, s') \<and> (sg_inv s' \<and> sg_mon s' 0 = None) \<and> sg_ready s' = es"
    using g r s1(1) inv by auto
next
  fix s :: "'c poller_sigio"
  assume inv: "sg_inv s \<and> sg_mon s 0 = None" and r: "sg_ready s = []"
  obtain L where L: "sg_list s L" "sg_next s = -1 \<or> sg_next s \<in> set L" using inv by (auto simp: sg_inv_def)
  have "sg_next s = -1"
  proof (rule ccontr)
    assume "sg_next s \<noteq> -1"
    then show False using r L readyList_is[OF L(1)] by (auto simp: sg_ready_def dropWhile_eq_Nil_conv)
  qed
  then show "\<exists>s'. sg_getNextEvent s = Some (Fail EWOULDBLOCK, None, s') \<and> (sg_inv s' \<and> sg_mon s' 0 = None) \<and> sg_ready s' = []"
    using inv r by (simp add: sg_getNextEvent_def)
qed

end
