(* ===== verification/Poller_sigio_props.thy ===== *)
theory Poller_sigio_props
  imports Poller_sigio_proofs
begin

unbundle bit_operations_syntax

text \<open>
  The properties of the back end on realtime signals, and the small poller and queue of signals that
  the witnesses use.
\<close>

subsection \<open>A poller and a queue of signals\<close>

text \<open>The world is the queue: None is an overflow, an entry has the descriptor and the band.\<close>

definition sigq :: "(nat, (int \<times> mask) option list) sig_calls" where
  "sigq = \<lparr>sc_getfl = \<lambda>fd x. (None, x), sc_setfl = \<lambda>fd f x. (None, x), sc_setsig = \<lambda>fd n x. (None, x),
     sc_setown = \<lambda>fd x. (None, x), garbage = 0, sc_procmask = \<lambda>b n x. (OK, x),
     sc_sigwait = \<lambda>n t x. (case x of [] \<Rightarrow> (None, [])
       | None # qs \<Rightarrow> (Some (SIGIO, 0, 0), qs) | Some (fd, band) # qs \<Rightarrow> (Some (n, fd, band), qs)),
     sc_purge = \<lambda>n x. [], sc_poll = \<lambda>ps t x. (Inr (map snd ps), x), sc_realloc = grow_with cleared,
     sc_realloc1 = grow_with 0, sc_realloc2 = grow_with None,
     sc_realloc3 = grow_with \<lparr>pfd_fd = 0, pfd_events = 0, pfd_revents = 0\<rparr>\<rparr>"

definition queued :: "int \<Rightarrow> (int \<times> mask) option list \<Rightarrow> (int \<times> int \<times> mask) list" where
  "queued n = map (\<lambda>q. case q of None \<Rightarrow> (SIGIO, 0, 0) | Some (fd, band) \<Rightarrow> (n, fd, band))"

definition sg0 :: "nat poller_sigio" where
  "sg0 = fst (snd (setSignum sigq 37 (snd (sg_init (Some (replicate 16 cleared)) (Some (replicate 16 0)) (Some (replicate 16 None))
     (Some (replicate 16 \<lparr>pfd_fd = 0, pfd_events = 0, pfd_revents = 0\<rparr>))
     \<lparr>sg_backup = \<lparr>pp_fd2client_used = 0, pp_fd2client_alloc = 0, pp_pfds = [], pp_clients = [], pp_pfds_used = 0,
        pp_pfds_alloc = 0, pp_fd2pfdnum = [], pp_rfds = 0, pp_cur_pfdnum = 0\<rparr>,
      sg_signum = 0, sg_head = 0, sg_next = 0, sg_count = 0, sg_fds = [], sg_alloc = 0, sg_used = 0\<rparr>)) []))"

lemma sigq: "calls_ok sigq" "sig_source sigq n (queued n)"
  by (auto simp: calls_ok_def sig_source_def sigq_def queued_def split: list.splits option.splits)

lemma sg0_is: "sg0 = \<lparr>sg_backup = pp0, sg_signum = 37, sg_head = -1, sg_next = -1, sg_count = 0,
    sg_fds = replicate 16 cleared, sg_alloc = 16, sg_used = 0\<rparr>"
  by (simp add: sg0_def sg_init_def setSignum_def sigq_def pp0_def pp_init_def)

lemma sg0: "sg_inv sg0" "sg_mon sg0 = Map.empty"
proof -
  have st: "fd_state sg0 i = (if 0 \<le> i \<and> i < 16 then Some cleared else None)" for i
    by (auto simp: sg0_is fd_state_def rdi_def rd_def)
  have v: "nx sg0 i = -1" "pv sg0 i = (if 0 \<le> i \<and> i < 16 then -2 else -1)" "slot sg0 i = (0 \<le> i \<and> i < 16)"
    "data sg0 i = (if 0 \<le> i \<and> i < 16 then Some (None, 0, -1) else None)" for i
    by (simp_all add: nx_def pv_def data_def st slot_state)
  show m: "sg_mon sg0 = Map.empty" by (simp add: fun_eq_iff sg_mon_def v(4))
  have r: "\<not> rdy sg0 i" for i by (simp add: rdy_def v(4))
  have "sg_list sg0 []" by (auto simp: sg_list_def ring_def v) (simp_all add: sg0_is)
  moreover have "sg_base sg0" unfolding sg_base_def m by (auto simp: v) (simp_all add: sg0_is FDLIMIT_def)
  moreover have "sg_next sg0 = -1" by (simp add: sg0_is)
  ultimately show "sg_inv sg0" using r by (auto simp: sg_inv_def)
qed

definition sg2 :: "nat poller_sigio" where
  "sg2 = fst (the (poll_run (poll_step (sg_add_x sigq) (sg_del_x sigq) (sg_mask_x sg_setMask) (sg_mask_x sg_orMask) (sg_mask_x sg_andMask))
     (sg0, []) [PAdd 5 7 (POLLIN OR POLLHUP), PAdd 20 8 POLLPRI]))"

text \<open>The backup monitors every descriptor for all events.\<close>

lemma polls_monitored:
  assumes "sg_inv s"
  shows "set (sg_polls s) = (\<lambda>fd. (fd, all_events)) ` dom (sg_mon s)"
proof -
  let ?b = "sg_backup s"
  have pi: "pp_inv ?b" and m: "pp_mon ?b = (\<lambda>i. map_option (\<lambda>(c, m). (c, all_events)) (sg_mon s i))"
    using assms by (auto simp: sg_inv_def sg_base_def)
  have le: "pp_pfds_used ?b \<le> length (pp_pfds ?b)" using pi by (simp add: pp_inv_def pp_sizes_def)
  have p: "sg_polls s = map (\<lambda>i. (pp_fd ?b i, snd (pp_val ?b i))) [0..<pp_pfds_used ?b]"
    using le by (auto intro!: nth_equalityI simp: sg_polls_def pp_fd_def pp_val_def)
  have iff: "(fd, e) \<in> set (sg_polls s) \<longleftrightarrow> (\<exists>c. pp_mon ?b fd = Some (c, e))" for fd e
    unfolding p using pp_mon_iff[OF pi, of fd] by (force simp: prod_eq_iff)
  have "x \<in> set (sg_polls s) \<longleftrightarrow> x \<in> (\<lambda>fd. (fd, all_events)) ` dom (sg_mon s)" for x
  proof (cases x)
    case (Pair fd e)
    then show ?thesis using iff[of fd e] m by auto
  qed
  then show ?thesis by blast
qed

subsection \<open>Properties\<close>

text \<open>
  C24. The arrays of the back end on realtime signals implement a map: from a well-formed state every sequence
  of \<open>add\<close>, \<open>del\<close>, \<open>setMask\<close>, \<open>orMask\<close> and \<open>andMask\<close> that adds no descriptor twice and uses only monitored
  ones succeeds without a failed assertion, keeps the ready list exactly the descriptors ready for what they
  wait for, and leaves the clients and masks that the same calls leave in a plain map.
\<close>

theorem sigio_refines_map:
  assumes "calls_ok C" "sg_inv s" "poll_all_allowed okfd_poll (\<lambda>m. m) (OR) (AND) (sg_mon s) ops"
  shows "\<exists>s' x'. poll_run (poll_step (sg_add_x C) (sg_del_x C) (sg_mask_x sg_setMask) (sg_mask_x sg_orMask) (sg_mask_x sg_andMask)) (s, x) ops =
           Some (s', x') \<and> sg_inv s' \<and> distinct (sg_readyList s') \<and>
         set (sg_readyList s') = {fd. \<exists>c m. sg_mon s' fd = Some (c, m) \<and> m AND sg_bits s' fd \<noteq> 0} \<and>
         sg_mon s' = foldl (poll_spec (\<lambda>m. m) (OR) (AND)) (sg_mon s) ops"
proof -
  obtain s' x' where r: "poll_run (poll_step (sg_add_x C) (sg_del_x C) (sg_mask_x sg_setMask) (sg_mask_x sg_orMask) (sg_mask_x sg_andMask)) (s, x) ops =
      Some (s', x')" "sg_inv s'" "sg_mon s' = foldl (poll_spec (\<lambda>m. m) (OR) (AND)) (sg_mon s) ops"
    using sg.run_refines[of C "(s, x)" ops] assms by (auto simp del: poll_run.simps)
  then show ?thesis using readyList_exact[OF r(2)] by auto
qed

lemma sg2: "sg_inv sg2" "sg_mon sg2 = [5 \<mapsto> (7, POLLIN OR POLLHUP), 20 \<mapsto> (8, POLLPRI)]"
proof -
  let ?ops = "[PAdd 5 (7::nat) (POLLIN OR POLLHUP), PAdd 20 8 POLLPRI]"
  have "poll_all_allowed okfd_poll (\<lambda>m. m) (OR) (AND) (sg_mon sg0) ?ops" using sg0(2) by (simp add: FDLIMIT_def)
  then obtain s' x' where r: "poll_run (poll_step (sg_add_x sigq) (sg_del_x sigq) (sg_mask_x sg_setMask) (sg_mask_x sg_orMask) (sg_mask_x sg_andMask)) (sg0, []) ?ops =
      Some (s', x')" "sg_inv s'" "sg_mon s' = foldl (poll_spec (\<lambda>m. m) (OR) (AND)) (sg_mon sg0) ?ops"
    using sg.run_refines[of sigq "(sg0, [])" ?ops] sigq(1) sg0(1) by (auto simp del: poll_run.simps poll_all_allowed.simps)
  then show "sg_inv sg2" "sg_mon sg2 = [5 \<mapsto> (7, POLLIN OR POLLHUP), 20 \<mapsto> (8, POLLPRI)]"
    using sg0(2) by (simp_all add: sg2_def)
qed

lemmas sg_eval = sg0_is pp0_def pp_init_def sigq_def sg_add_x_def sg_add_def sg_grow_def arm_def upd_fd_def fd_state_def rdi_def rd_def
  wri_def wr_def readyListUpdate_def readyListAdd_def isOnReadyList_def isReady_def cleared_def grow_with_def
  pp_add_def pp_grow_fds_def pp_grow_pfds_def pp_store_def Let_def nth_append

lemma sg2_signum: "sg_signum sg2 = 37"
  by (simp add: sg2_def sg_eval POLLIN_def POLLOUT_def POLLHUP_def POLLPRI_def)

theorem sigio_refines_map_witness:
  "\<exists>s' x'. poll_run (poll_step (sg_add_x sigq) (sg_del_x sigq) (sg_mask_x sg_setMask) (sg_mask_x sg_orMask) (sg_mask_x sg_andMask)) (sg2, [])
       [PSet 20 POLLOUT, PDel 5] = Some (s', x') \<and> sg_mon s' = [20 \<mapsto> (8::nat, POLLOUT)]"
proof -
  let ?ops = "[PSet 20 POLLOUT, PDel (5::int)] :: (int, nat, mask) poll_op list"
  have "poll_all_allowed okfd_poll (\<lambda>m. m) (OR) (AND) (sg_mon sg2) ?ops" by (simp add: sg2(2))
  moreover have "foldl (poll_spec (\<lambda>m. m) (OR) (AND)) (sg_mon sg2) ?ops = [20 \<mapsto> (8, POLLOUT)]"
    by (rule ext) (simp add: sg2(2))
  ultimately show ?thesis using sigio_refines_map[OF sigq(1) sg2(1), of ?ops "[]"] by (auto simp del: poll_run.simps)
qed

text \<open>
  C25. Waiting on the back end of realtime signals: \<open>waitForEvents\<close> returns for every queue of signals, also when
  it has overflowed, reports EWOULDBLOCK exactly when nothing is ready, and makes the ready list exactly the
  descriptors that are ready for what they wait for. Without an overflow the readiness is the old one with
  the band of each signal added. After an overflow the signals in front of SIGIO are added, the queue is purged, and
  \<open>poll\<close> is asked about all monitored descriptors: a descriptor it reports as ready has exactly the reported readiness,
  one it does not report keeps what it had. If descriptor 0 is not monitored, \<open>getNextEvent\<close> then returns
  every entry of the ready list once, in order, with its readiness and its client, and nothing else; descriptor 0
  is excluded there because it stalls the delivery (\<open>sigio_fd0_stalls\<close> below).
\<close>

theorem sigio_wait_delivers:
  assumes "sg_inv s" "sig_source C (sg_signum s) sigs"
  shows "\<exists>s' x'. sg_waitForEvents C timeout s x = Some (if sg_readyList s' = [] then Fail EWOULDBLOCK else OK, s', x') \<and>
     sg_inv s' \<and> sg_mon s' = sg_mon s \<and> distinct (sg_readyList s') \<and>
     set (sg_readyList s') = {fd. \<exists>c m. sg_mon s fd = Some (c, m) \<and> m AND sg_bits s' fd \<noteq> 0} \<and>
     set (sg_polls s) = (\<lambda>fd. (fd, all_events)) ` dom (sg_mon s) \<and>
     (if SIGIO \<in> fst ` set (sigs x)
      then \<exists>x1 res. sigs x1 = unpulled (sigs x) \<and> sc_poll C (sg_polls s) 0 (sc_purge C (sg_signum s) x1) = (res, x') \<and>
        (\<forall>fd. sg_mon s fd \<noteq> None \<longrightarrow> sg_bits s' fd = answered (sg_polls s) res fd (signalled (pulled (sigs x)) fd (sg_bits s fd)))
      else \<forall>fd. sg_mon s fd \<noteq> None \<longrightarrow> sg_bits s' fd = signalled (sigs x) fd (sg_bits s fd)) \<and>
     (sg_mon s 0 = None \<longrightarrow>
        (\<exists>s''. next_events sg_getNextEvent (Suc (length (sg_readyList s'))) s' = Some (map (sg_event s') (sg_readyList s'), s'')))"
proof -
  obtain s' x' where w: "sg_waitForEvents C timeout s x = Some (if \<exists>fd. rdy s' fd then OK else Fail EWOULDBLOCK, s', x')"
    "sg_inv s'" "sg_mon s' = sg_mon s" "at_head s'"
    and bits: "if SIGIO \<in> fst ` set (sigs x)
      then \<exists>x1 res. sigs x1 = unpulled (sigs x) \<and> sc_poll C (sg_polls s) 0 (sc_purge C (sg_signum s) x1) = (res, x') \<and>
        (\<forall>fd. sg_mon s fd \<noteq> None \<longrightarrow> sg_bits s' fd = answered (sg_polls s) res fd (signalled (pulled (sigs x)) fd (sg_bits s fd)))
      else \<forall>fd. sg_mon s fd \<noteq> None \<longrightarrow> sg_bits s' fd = signalled (sigs x) fd (sg_bits s fd)"
    using sg_wait_lemma[OF assms(1,2), of timeout x] by (elim exE conjE) (rule that)
  note e = readyList_exact[OF w(2)]
  have r: "sg_ready s' = map (sg_event s') (sg_readyList s')" by (rule ready_at_head[OF w(2,4)])
  have "\<exists>s''. next_events sg_getNextEvent (Suc (length (sg_readyList s'))) s' = Some (sg_ready s', s'')" if "sg_mon s 0 = None"
    using sge.drain[of s' "Suc (length (sg_readyList s'))"] w(2,3) that r by auto
  then have ev: "sg_mon s 0 = None \<longrightarrow>
        (\<exists>s''. next_events sg_getNextEvent (Suc (length (sg_readyList s'))) s' = Some (map (sg_event s') (sg_readyList s'), s''))"
    unfolding r by blast
  have ne: "(\<exists>fd. rdy s' fd) \<longleftrightarrow> sg_readyList s' \<noteq> []" using e(3) by (metis empty_Collect_eq set_empty)
  have wt: "sg_waitForEvents C timeout s x = Some (if sg_readyList s' = [] then Fail EWOULDBLOCK else OK, s', x')"
    using w(1) unfolding ne by simp
  note b = bits ev polls_monitored[OF assms(1)] w(2,3) e(1,2)
  show ?thesis by (rule exI[of _ s'], rule exI[of _ x'], intro conjI wt b(1-6)) (use b(7) w(3) in simp)
qed

theorem sigio_wait_delivers_witness:
  "(\<exists>s' x'. sg_waitForEvents sigq 100 sg2 [Some (5, POLLHUP), Some (20, POLLHUP)] = Some (OK, s', x') \<and> 5 \<in> set (sg_readyList s')) \<and>
   (\<exists>s' x'. sg_waitForEvents sigq 100 sg2 [Some (5, POLLHUP), None, Some (20, POLLERR)] = Some (OK, s', x') \<and>
      sg_bits s' 5 = all_events \<and> sg_bits s' 20 = all_events)"
proof
  let ?x = "[Some (5, POLLHUP), Some (20, POLLHUP)]"
  obtain s' x' where w: "sg_waitForEvents sigq 100 sg2 ?x = Some (if sg_readyList s' = [] then Fail EWOULDBLOCK else OK, s', x')"
    "set (sg_readyList s') = {fd. \<exists>c m. sg_mon sg2 fd = Some (c, m) \<and> m AND sg_bits s' fd \<noteq> 0}"
    and b: "if SIGIO \<in> fst ` set (queued (sg_signum sg2) ?x)
      then \<exists>x1 res. queued (sg_signum sg2) x1 = unpulled (queued (sg_signum sg2) ?x) \<and>
        sc_poll sigq (sg_polls sg2) 0 (sc_purge sigq (sg_signum sg2) x1) = (res, x') \<and>
        (\<forall>fd. sg_mon sg2 fd \<noteq> None \<longrightarrow> sg_bits s' fd =
           answered (sg_polls sg2) res fd (signalled (pulled (queued (sg_signum sg2) ?x)) fd (sg_bits sg2 fd)))
      else \<forall>fd. sg_mon sg2 fd \<noteq> None \<longrightarrow> sg_bits s' fd = signalled (queued (sg_signum sg2) ?x) fd (sg_bits sg2 fd)"
    using sigio_wait_delivers[OF sg2(1) sigq(2), of 100 ?x] by (elim exE conjE) (rule that)
  have "sg_bits s' 5 = sg_bits sg2 5 OR (POLLHUP AND known_bits)"
    using b by (simp add: queued_def sg2 sg2_signum SIGIO_def)
  then have "(POLLIN OR POLLHUP) AND sg_bits s' 5 \<noteq> 0"
    by (auto simp: bit_eq_iff bit_simps intro!: exI[of _ "4::nat"] simp: known_bits_def POLLHUP_def POLLIN_def POLLPRI_def POLLOUT_def POLLERR_def POLLNVAL_def)
  then have "5 \<in> set (sg_readyList s')" unfolding w(2) by (simp add: sg2(2))
  then show "\<exists>s' x'. sg_waitForEvents sigq 100 sg2 ?x = Some (OK, s', x') \<and> 5 \<in> set (sg_readyList s')"
    using w(1) by (cases "sg_readyList s'") auto
next
  let ?x = "[Some (5, POLLHUP), None, Some (20, POLLERR)]"
  obtain s' x' where w: "sg_waitForEvents sigq 100 sg2 ?x = Some (if sg_readyList s' = [] then Fail EWOULDBLOCK else OK, s', x')"
    "set (sg_readyList s') = {fd. \<exists>c m. sg_mon sg2 fd = Some (c, m) \<and> m AND sg_bits s' fd \<noteq> 0}"
    "set (sg_polls sg2) = (\<lambda>fd. (fd, all_events)) ` dom (sg_mon sg2)"
    and b: "if SIGIO \<in> fst ` set (queued (sg_signum sg2) ?x)
      then \<exists>x1 res. queued (sg_signum sg2) x1 = unpulled (queued (sg_signum sg2) ?x) \<and>
        sc_poll sigq (sg_polls sg2) 0 (sc_purge sigq (sg_signum sg2) x1) = (res, x') \<and>
        (\<forall>fd. sg_mon sg2 fd \<noteq> None \<longrightarrow> sg_bits s' fd =
           answered (sg_polls sg2) res fd (signalled (pulled (queued (sg_signum sg2) ?x)) fd (sg_bits sg2 fd)))
      else \<forall>fd. sg_mon sg2 fd \<noteq> None \<longrightarrow> sg_bits s' fd = signalled (queued (sg_signum sg2) ?x) fd (sg_bits sg2 fd)"
    using sigio_wait_delivers[OF sg2(1) sigq(2), of 100 ?x] by (elim exE conjE) (rule that)
  have polls: "sc_poll sigq (sg_polls sg2) 0 y = (Inr (map snd (sg_polls sg2)), y)" for y by (simp add: sigq_def)
  have bits: "sg_bits s' fd = all_events" if "sg_mon sg2 fd \<noteq> None" for fd
  proof -
    have "map_of (sg_polls sg2) fd = Some all_events"
      using that w(3) by (cases "map_of (sg_polls sg2) fd") (auto simp: map_of_eq_None_iff image_iff dest!: map_of_SomeD)
    moreover have "all_events \<noteq> 0" by (simp add: all_events_def poll_bits)
    ultimately have "answered (sg_polls sg2) (Inr (map snd (sg_polls sg2))) fd old = all_events" for old
      by (simp add: answered_def zip_map_fst_snd)
    then show ?thesis using b that polls by (auto simp: queued_def)
  qed
  have five: "sg_bits s' 5 = all_events" "sg_bits s' 20 = all_events" by (rule bits, simp add: sg2(2))+
  have "(POLLIN OR POLLHUP) AND all_events \<noteq> 0"
    by (simp add: all_events_def poll_bits)
  then have "5 \<in> set (sg_readyList s')" unfolding w(2) using five by (simp add: sg2(2))
  then show "\<exists>s' x'. sg_waitForEvents sigq 100 sg2 ?x = Some (OK, s', x') \<and>
      sg_bits s' 5 = all_events \<and> sg_bits s' 20 = all_events"
    using w(1) five by (cases "sg_readyList s'") auto
qed

text \<open>
  Descriptor 0 stalls the back end of realtime signals: if it is at the head of the ready list and no signal
  is queued, \<open>waitForEvents\<close> reports success and \<open>getNextEvent\<close> then reports that there is no event, however
  many other descriptors are ready; the state is the same after as before, so this repeats for ever.
\<close>

theorem sigio_fd0_stalls:
  assumes "sg_inv s" "sig_source C (sg_signum s) sigs" "sigs x = []" "sg_head s = 0"
  shows "\<exists>x'. sg_waitForEvents C timeout s x = Some (OK, s\<lparr>sg_next := 0\<rparr>, x') \<and>
     sg_getNextEvent (s\<lparr>sg_next := 0\<rparr>) = Some (Fail EWOULDBLOCK, None, s\<lparr>sg_next := 0\<rparr>) \<and>
     sg_inv (s\<lparr>sg_next := 0\<rparr>) \<and> sg_head (s\<lparr>sg_next := 0\<rparr>) = 0 \<and> sigs x' = []"
proof -
  obtain L where L: "sg_list s L" using assms(1) by (auto simp: sg_inv_def)
  have ne: "L \<noteq> []" using sg_listD(4)[OF L] assms(4) by auto
  obtain x' where x': "sc_sigwait C (sg_signum s) (0, 0) x = (None, x')" "sigs x' = []"
    using sig_sourceD(1)[OF assms(2,3)] by blast
  have "pull_signals C (0, 0) (s\<lparr>sg_next := 0\<rparr>, x) = Some (False, s\<lparr>sg_next := 0\<rparr>, x')"
    using x' by (subst pull_signals.simps) simp
  moreover have "sg_count s \<noteq> 0" using sg_listD(5)[OF L] ne by simp
  ultimately have "sg_waitForEvents C timeout s x = Some (OK, s\<lparr>sg_next := 0\<rparr>, x')"
    using assms(4) by (simp add: sg_waitForEvents_def Let_def)
  then show ?thesis using x'(2) set_head[OF assms(1)] assms(4) by (simp add: sg_getNextEvent_def)
qed

text \<open>Two descriptors that are writable, 0 and 6.\<close>

definition sg_fd0 :: "nat poller_sigio" where
  "sg_fd0 = fst (the (poll_run (poll_step (sg_add_x sigq) (sg_del_x sigq) (sg_mask_x sg_setMask) (sg_mask_x sg_orMask) (sg_mask_x sg_andMask))
     (sg0, []) [PAdd 0 7 POLLOUT, PAdd 6 8 POLLOUT]))"

lemma sg_fd0: "sg_inv sg_fd0" "sg_head sg_fd0 = 0" "rdy sg_fd0 6"
proof -
  let ?ops = "[PAdd 0 (7::nat) POLLOUT, PAdd 6 8 POLLOUT]"
  have "poll_all_allowed okfd_poll (\<lambda>m. m) (OR) (AND) (sg_mon sg0) ?ops" using sg0(2) by (simp add: FDLIMIT_def)
  then show "sg_inv sg_fd0"
    using sg.run_refines[of sigq "(sg0, [])" ?ops] sigq(1) sg0(1) by (auto simp: sg_fd0_def simp del: poll_run.simps poll_all_allowed.simps)
  show "sg_head sg_fd0 = 0" "rdy sg_fd0 6"
    by (simp_all add: sg_fd0_def sg_eval POLLIN_def POLLOUT_def rdy_def data_def)
qed

theorem sigio_fd0_stalls_witness:
  "\<exists>x'. sg_waitForEvents sigq 100 sg_fd0 [] = Some (OK, sg_fd0\<lparr>sg_next := 0\<rparr>, x') \<and>
        sg_getNextEvent (sg_fd0\<lparr>sg_next := 0\<rparr>) = Some (Fail EWOULDBLOCK, None, sg_fd0\<lparr>sg_next := 0\<rparr>) \<and> rdy (sg_fd0\<lparr>sg_next := 0\<rparr>) 6"
proof -
  have "queued (sg_signum sg_fd0) [] = []" by (simp add: queued_def)
  from sigio_fd0_stalls[OF sg_fd0(1) sigq(2) this sg_fd0(2), of 100] show ?thesis using sg_fd0(3) by auto
qed

end
