(* ===== verification/Poller_sigfd.thy ===== *)
theory Poller_sigfd
  imports Poller_sigio_props
begin

unbundle bit_operations_syntax

text \<open>
  The back end on one signal per descriptor of Poller\_sigfd.h and Poller\_sigfd.cc: that on realtime
  signals with one more \<open>fcntl\<close> before \<open>add\<close> and \<open>del\<close>, \<open>setaux\<close>, which sets the auxiliary flags of a
  descriptor.
\<close>

definition O_ONESIGFD :: "32 word" where "O_ONESIGFD = 1"

definition sfd_add ::
  "(int \<Rightarrow> 32 word \<Rightarrow> 'x \<Rightarrow> errno option \<times> 'x) \<Rightarrow> ('c, 'x) sig_calls \<Rightarrow> 'c poller_sigio \<times> 'x \<Rightarrow> int \<Rightarrow> 'c \<Rightarrow> mask \<Rightarrow>
   (rc \<times> 'c poller_sigio \<times> 'x) option" where
  "sfd_add setaux C sx fd client eventmask =
     (case setaux fd O_ONESIGFD (snd sx) of
        (Some e, x1) \<Rightarrow> Some (Fail e, fst sx, x1)
      | (None, x1) \<Rightarrow> sg_add C (fst sx) fd client eventmask x1)"

definition sfd_del ::
  "(int \<Rightarrow> 32 word \<Rightarrow> 'x \<Rightarrow> errno option \<times> 'x) \<Rightarrow> ('c, 'x) sig_calls \<Rightarrow> 'c poller_sigio \<times> 'x \<Rightarrow> int \<Rightarrow>
   (rc \<times> 'c poller_sigio \<times> 'x) option" where
  "sfd_del setaux C sx fd =
     (case setaux fd 0 (snd sx) of
        (Some e, x1) \<Rightarrow> Some (Fail e, fst sx, x1)
      | (None, x1) \<Rightarrow> sg_del C (fst sx) fd x1)"

definition aux_ok :: "(int \<Rightarrow> 32 word \<Rightarrow> 'x \<Rightarrow> errno option \<times> 'x) \<Rightarrow> bool" where
  "aux_ok setaux = (\<forall>fd f x. fst (setaux fd f x) = None)"

lemma aux_okD: "aux_ok setaux \<Longrightarrow> \<exists>x1. setaux fd f x = (None, x1)"
  unfolding aux_ok_def by (metis prod.collapse)

text \<open>It provides the interface of the pollers with the masks and the invariant of its base class.\<close>

interpretation sfd: monitor "sfd_add setaux C" "sfd_del setaux C" "sg_mask_x sg_setMask" "sg_mask_x sg_orMask" "sg_mask_x sg_andMask"
  "\<lambda>sx. sg_mon (fst sx)" "\<lambda>sx. aux_ok setaux \<and> calls_ok C \<and> sg_inv (fst sx)" okfd_poll "\<lambda>m. m" "(OR)" "(AND)"
  for setaux and C :: "('c, 'x) sig_calls"
proof unfold_locales
  fix sx :: "'c poller_sigio \<times> 'x" and f c and m :: mask
  assume a: "aux_ok setaux \<and> calls_ok C \<and> sg_inv (fst sx)" "okfd_poll f" "sg_mon (fst sx) f = None"
  obtain x1 where x1: "setaux f O_ONESIGFD (snd sx) = (None, x1)" using aux_okD[OF conjunct1[OF a(1)]] by blast
  show "\<exists>s'. sfd_add setaux C sx f c m = Some (OK, s') \<and> (aux_ok setaux \<and> calls_ok C \<and> sg_inv (fst s')) \<and>
      sg_mon (fst s') = (sg_mon (fst sx))(f \<mapsto> (c, m))"
    using sg_add_lemma[of "fst sx" C f c m x1] a x1 by (auto simp: sfd_add_def)
next
  fix sx :: "'c poller_sigio \<times> 'x" and f c and k :: mask
  assume a: "aux_ok setaux \<and> calls_ok C \<and> sg_inv (fst sx)" "sg_mon (fst sx) f = Some (c, k)"
  obtain x1 where x1: "setaux f 0 (snd sx) = (None, x1)" using aux_okD[OF conjunct1[OF a(1)]] by blast
  show "\<exists>s'. sfd_del setaux C sx f = Some (OK, s') \<and> (aux_ok setaux \<and> calls_ok C \<and> sg_inv (fst s')) \<and>
      sg_mon (fst s') = (sg_mon (fst sx))(f := None)"
    using sg_del_lemma[of "fst sx" C f "(c, k)" x1] a x1 by (auto simp: sfd_del_def)
next
  fix sx :: "'c poller_sigio \<times> 'x" and f c and k m :: mask
  assume a: "aux_ok setaux \<and> calls_ok C \<and> sg_inv (fst sx)" "sg_mon (fst sx) f = Some (c, k)"
  show "\<exists>s'. sg_mask_x sg_setMask sx f m = Some (OK, s') \<and> (aux_ok setaux \<and> calls_ok C \<and> sg_inv (fst s')) \<and> sg_mon (fst s') = (sg_mon (fst sx))(f \<mapsto> (c, m))"
    using sg.set_law[of C sx f c k m] a by auto
  show "\<exists>s'. sg_mask_x sg_orMask sx f m = Some (OK, s') \<and> (aux_ok setaux \<and> calls_ok C \<and> sg_inv (fst s')) \<and> sg_mon (fst s') = (sg_mon (fst sx))(f \<mapsto> (c, k OR m))"
    using sg.or_law[of C sx f c k m] a by auto
  show "\<exists>s'. sg_mask_x sg_andMask sx f m = Some (OK, s') \<and> (aux_ok setaux \<and> calls_ok C \<and> sg_inv (fst s')) \<and> sg_mon (fst s') = (sg_mon (fst sx))(f \<mapsto> (c, k AND m))"
    using sg.and_law[of C sx f c k m] a by auto
qed

end
