(* ===== verification/Poller_devpoll.thy ===== *)
theory Poller_devpoll
  imports Poller_poll
begin

unbundle bit_operations_syntax

text \<open>
  The back end on /dev/poll of Poller\_devpoll.h and Poller\_devpoll.cc: a table of clients and masks by
  descriptor on the program's side, the set of interests in the device on the kernel's. Members have the
  prefix \<open>dp_\<close> where the source has \<open>m_\<close>. \<open>dp_dpfd\<close> is the open device itself, of type \<open>'d\<close>: calls on
  the descriptor \<open>m_dpfd\<close> change it.
\<close>

subsection \<open>State\<close>

definition POLLREMOVE :: mask where "POLLREMOVE = 0x1000"
definition sizeof_pollfd :: int where "sizeof_pollfd = 8"

record 'c clivent =
  cv_client :: "'c option"
  cv_events :: mask

record ('c, 'd) poller_devpoll =
  dp_clivents :: "'c clivent list"
  dp_pfds :: "pollfd list"
  dp_clivent_alloc :: int
  dp_pfds_used :: int
  dp_pfds_alloc :: int
  dp_dpfd :: 'd
  dp_rfds :: int

text \<open>
  \<open>dv_write\<close> is \<open>write\<close> of an array of pollfds to the device and returns the count of bytes, \<open>dv_poll\<close>
  the \<open>ioctl\<close> with DP\_POLL: timeout and capacity to an error or the pollfds it fills in. \<open>dv_solaris\<close>
  says whether SOLARIS is defined.
\<close>

record ('c, 'd) dp_calls =
  dv_solaris :: bool
  dv_write :: "(int \<times> mask) list \<Rightarrow> 'd \<Rightarrow> int \<times> 'd"
  dv_poll :: "int \<Rightarrow> int \<Rightarrow> 'd \<Rightarrow> (errno + pollfd list) \<times> 'd"
  dv_realloc :: "'c clivent reallocf"
  dv_realloc1 :: "pollfd reallocf"

text \<open>\<open>mem1\<close>, \<open>mem2\<close> are what \<open>malloc\<close> returns, \<open>dev\<close> what \<open>open\<close> opens.\<close>

definition dp_init ::
  "'c clivent list option \<Rightarrow> pollfd list option \<Rightarrow> 'd option \<Rightarrow> ('c, 'd) poller_devpoll \<Rightarrow> rc \<times> ('c, 'd) poller_devpoll" where
  "dp_init mem1 mem2 dev s =
     (let s1 = s\<lparr>dp_rfds := 0, dp_clivent_alloc := 16\<rparr> in
      case mem1 of
        None \<Rightarrow> (Fail ENOMEM, s1\<lparr>dp_clivents := []\<rparr>)
      | Some m \<Rightarrow>
          (let s2 = s1\<lparr>dp_clivents := map (\<lambda>v. \<lparr>cv_client = None, cv_events = 0\<rparr>) m, dp_pfds_used := 0, dp_pfds_alloc := 16\<rparr> in
           case mem2 of
             None \<Rightarrow> (Fail ENOMEM, s2\<lparr>dp_pfds := []\<rparr>)
           | Some p \<Rightarrow>
               (case dev of
                  None \<Rightarrow> (Fail ENOENT, s2\<lparr>dp_pfds := p\<rparr>)
                | Some d \<Rightarrow> (OK, s2\<lparr>dp_pfds := p, dp_dpfd := d\<rparr>))))"

definition dp_shutdown :: "('d \<Rightarrow> 'd) \<Rightarrow> ('c, 'd) poller_devpoll \<Rightarrow> ('c, 'd) poller_devpoll" where
  "dp_shutdown close s =
     (if dp_clivents s \<noteq> [] then s\<lparr>dp_dpfd := close (dp_dpfd s), dp_clivents := [], dp_pfds := []\<rparr> else s)"

subsection \<open>Adding, deleting, masks\<close>

definition dp_grow_clivents :: "'c clivent reallocf \<Rightarrow> ('c, 'd) poller_devpoll \<Rightarrow> int \<Rightarrow> (rc \<times> ('c, 'd) poller_devpoll) option" where
  "dp_grow_clivents ra s fd =
     (if fd \<ge> dp_clivent_alloc s then do {
        let n = max (dp_clivent_alloc s * 2) (fd + 1);
        assertion (n < 2 ^ 31);
        case ra (nat n) (dp_clivents s) of
          None \<Rightarrow> Some (Fail ENOMEM, s)
        | Some pcv \<Rightarrow> do {
            assertion (nat n \<le> length pcv);
            let i = nat (dp_clivent_alloc s);
            Some (OK, s\<lparr>dp_clivents := take i pcv @ map (\<lambda>v. v\<lparr>cv_client := None\<rparr>) (take (nat n - i) (drop i pcv)) @ drop (nat n) pcv,
                        dp_clivent_alloc := n\<rparr>)
          }
      }
      else Some (OK, s))"

definition dp_grow_pfds :: "pollfd reallocf \<Rightarrow> ('c, 'd) poller_devpoll \<Rightarrow> (rc \<times> ('c, 'd) poller_devpoll) option" where
  "dp_grow_pfds ra s =
     (if dp_pfds_used s = dp_pfds_alloc s then do {
        let n = dp_pfds_alloc s * 2;
        assertion (n < 2 ^ 31);
        case ra (nat n) (dp_pfds s) of
          None \<Rightarrow> Some (Fail ENOMEM, s)
        | Some pfds \<Rightarrow> Some (OK, s\<lparr>dp_pfds := pfds, dp_pfds_alloc := n\<rparr>)
      }
      else Some (OK, s))"

text \<open>The entry of a descriptor, and its replacement.\<close>

definition clivent_at :: "('c, 'd) poller_devpoll \<Rightarrow> int \<Rightarrow> 'c clivent option" where
  "clivent_at s fd = rdi (dp_clivents s) fd"

definition put_clivent :: "('c, 'd) poller_devpoll \<Rightarrow> int \<Rightarrow> 'c clivent \<Rightarrow> ('c, 'd) poller_devpoll option" where
  "put_clivent s fd v = do { vs \<leftarrow> wri (dp_clivents s) fd v; Some (s\<lparr>dp_clivents := vs\<rparr>) }"

text \<open>Writing pollfds to the device: whether all of them were taken.\<close>

definition write_dev :: "('c, 'd) dp_calls \<Rightarrow> ('c, 'd) poller_devpoll \<Rightarrow> (int \<times> mask) list \<Rightarrow> bool \<times> ('c, 'd) poller_devpoll" where
  "write_dev C s ps = (case dv_write C ps (dp_dpfd s) of (n, d) \<Rightarrow> (n = sizeof_pollfd * int (length ps), s\<lparr>dp_dpfd := d\<rparr>))"

definition dp_add :: "('c, 'd) dp_calls \<Rightarrow> ('c, 'd) poller_devpoll \<Rightarrow> int \<Rightarrow> 'c \<Rightarrow> mask \<Rightarrow> (rc \<times> ('c, 'd) poller_devpoll) option" where
  "dp_add C s fd client eventmask =
     (if fd < 0 then Some (Fail EINVAL, s)
      else do {
        present \<leftarrow> (if fd < dp_clivent_alloc s then do { v \<leftarrow> clivent_at s fd; Some (cv_client v \<noteq> None) } else Some False);
        if present then Some (Fail EINVAL, s)
        else do {
          (r, s1) \<leftarrow> dp_grow_clivents (dv_realloc C) s fd;
          if r \<noteq> OK then Some (r, s1)
          else do {
            (q, s2) \<leftarrow> dp_grow_pfds (dv_realloc1 C) s1;
            if q \<noteq> OK then Some (q, s2)
            else do {
              v \<leftarrow> clivent_at s2 fd;
              s3 \<leftarrow> put_clivent s2 fd (v\<lparr>cv_client := Some client, cv_events := eventmask\<rparr>);
              let (full, s4) = write_dev C s3 [(fd, eventmask)];
              if \<not> full then Some (Fail EINVAL, s4)
              else Some (OK, s4\<lparr>dp_pfds_used := dp_pfds_used s4 + 1\<rparr>)
            }
          }
        }
      })"

definition dp_del :: "('c, 'd) dp_calls \<Rightarrow> ('c, 'd) poller_devpoll \<Rightarrow> int \<Rightarrow> (rc \<times> ('c, 'd) poller_devpoll) option" where
  "dp_del C s fd =
     (if fd < 0 \<or> fd \<ge> dp_clivent_alloc s then Some (Fail EINVAL, s)
      else do {
        v \<leftarrow> clivent_at s fd;
        if cv_client v = None then Some (Fail EINVAL, s)
        else do {
          assertion (dp_pfds_used s > 0);
          let (full, s1) = write_dev C s [(fd, POLLREMOVE)];
          if \<not> full then Some (Fail EINVAL, s1)
          else do {
            s2 \<leftarrow> put_clivent s1 fd (v\<lparr>cv_client := None\<rparr>);
            Some (OK, s2\<lparr>dp_pfds_used := dp_pfds_used s2 - 1\<rparr>)
          }
        }
      })"

text \<open>The common part of \<open>setMask\<close>, \<open>orMask\<close> and \<open>andMask\<close>: new mask \<open>g\<close>, removal first if \<open>rem\<close>.\<close>

definition dp_mask ::
  "('c, 'd) dp_calls \<Rightarrow> bool \<Rightarrow> (mask \<Rightarrow> mask) \<Rightarrow> ('c, 'd) poller_devpoll \<Rightarrow> int \<Rightarrow> (rc \<times> ('c, 'd) poller_devpoll) option" where
  "dp_mask C rem g s fd =
     (if fd < 0 \<or> fd \<ge> dp_clivent_alloc s then Some (Fail EINVAL, s)
      else do {
        v \<leftarrow> clivent_at s fd;
        if cv_client v = None then Some (Fail EINVAL, s)
        else do {
          s1 \<leftarrow> put_clivent s fd (v\<lparr>cv_events := g (cv_events v)\<rparr>);
          let (full, s2) = write_dev C s1 ((if rem then [(fd, POLLREMOVE)] else []) @ [(fd, g (cv_events v))]);
          Some (if \<not> full then Fail EINVAL else OK, s2)
        }
      })"

definition dp_setMask :: "('c, 'd) dp_calls \<Rightarrow> ('c, 'd) poller_devpoll \<Rightarrow> int \<Rightarrow> mask \<Rightarrow> (rc \<times> ('c, 'd) poller_devpoll) option" where
  "dp_setMask C s fd eventmask = dp_mask C (dv_solaris C) (\<lambda>m. eventmask) s fd"

definition dp_orMask :: "('c, 'd) dp_calls \<Rightarrow> ('c, 'd) poller_devpoll \<Rightarrow> int \<Rightarrow> mask \<Rightarrow> (rc \<times> ('c, 'd) poller_devpoll) option" where
  "dp_orMask C s fd eventmask = dp_mask C False (\<lambda>m. m OR eventmask) s fd"

definition dp_andMask :: "('c, 'd) dp_calls \<Rightarrow> ('c, 'd) poller_devpoll \<Rightarrow> int \<Rightarrow> mask \<Rightarrow> (rc \<times> ('c, 'd) poller_devpoll) option" where
  "dp_andMask C s fd eventmask = dp_mask C (dv_solaris C) (\<lambda>m. m AND eventmask) s fd"

subsection \<open>Events\<close>

definition dp_waitForEvents :: "('c, 'd) dp_calls \<Rightarrow> int \<Rightarrow> ('c, 'd) poller_devpoll \<Rightarrow> (rc \<times> ('c, 'd) poller_devpoll) option" where
  "dp_waitForEvents C timeout s =
     (case dv_poll C timeout (dp_pfds_used s) (dp_dpfd s) of
        (Inl e, d) \<Rightarrow> Some (Fail e, s\<lparr>dp_dpfd := d, dp_rfds := -1\<rparr>)
      | (Inr rs, d) \<Rightarrow> do {
          assertion (length rs \<le> length (dp_pfds s));
          Some (if rs \<noteq> [] then OK else Fail EWOULDBLOCK,
                s\<lparr>dp_dpfd := d, dp_pfds := rs @ drop (length rs) (dp_pfds s), dp_rfds := int (length rs)\<rparr>)
        })"

function dp_getNextEvent :: "('c, 'd) poller_devpoll \<Rightarrow> (rc \<times> 'c poll_event option \<times> ('c, 'd) poller_devpoll) option" where
  "dp_getNextEvent s =
     (if dp_rfds s \<ge> 1 then do {
        p \<leftarrow> rdi (dp_pfds s) (dp_rfds s - 1);
        assertion (sint (pfd_revents p) > 0);
        assertion (0 \<le> pfd_fd p \<and> pfd_fd p < dp_clivent_alloc s);
        v \<leftarrow> clivent_at s (pfd_fd p);
        if cv_client v = None then dp_getNextEvent (s\<lparr>dp_rfds := dp_rfds s - 1\<rparr>)
        else Some (OK, Some \<lparr>ev_fd = pfd_fd p, ev_revents = pfd_revents p, ev_client = cv_client v\<rparr>,
                   s\<lparr>dp_rfds := dp_rfds s - 1\<rparr>)
      }
      else Some (Fail EWOULDBLOCK, None, s))"
  by pat_completeness auto
termination by (relation "measure (\<lambda>s. nat (dp_rfds s))") auto

declare dp_getNextEvent.simps [simp del]

partial_function (option) dp_dispatch ::
  "('c, 'd) dp_calls \<Rightarrow> ('c, ('c, 'd) poller_devpoll \<times> 'x) notify \<Rightarrow> ('c, 'd) poller_devpoll \<times> 'x \<Rightarrow>
   (('c, 'd) poller_devpoll \<times> 'x) option" where
  "dp_dispatch C notify sx =
     (if dp_rfds (fst sx) > 0 then do {
        (r, e, s1) \<leftarrow> dp_getNextEvent (fst sx);
        case e of
          None \<Rightarrow> Some (s1, snd sx)
        | Some ev \<Rightarrow> (case ev_client ev of
            None \<Rightarrow> None
          | Some c \<Rightarrow> do {
              (err, sx1) \<leftarrow> notify c ev (s1, snd sx);
              if err \<noteq> 0 then do { (q, s2) \<leftarrow> dp_del C (fst sx1) (ev_fd ev); dp_dispatch C notify (s2, snd sx1) }
              else dp_dispatch C notify sx1
            })
      }
      else Some sx)"

definition dp_waitAndDispatchEvents ::
  "('c, 'd) dp_calls \<Rightarrow> ('c, ('c, 'd) poller_devpoll \<times> 'x) notify \<Rightarrow> int \<Rightarrow> ('c, 'd) poller_devpoll \<Rightarrow> 'x \<Rightarrow>
   (rc \<times> ('c, 'd) poller_devpoll \<times> 'x) option" where
  "dp_waitAndDispatchEvents C notify timeout s x = do {
     (r, s1) \<leftarrow> dp_waitForEvents C timeout s;
     if r \<noteq> OK then Some (r, s1, x)
     else do { sx \<leftarrow> dp_dispatch C notify (s1, x); Some (OK, sx) }
   }"

end
