(* ===== verification/Poller_devpoll_proofs.thy ===== *)
theory Poller_devpoll_proofs
  imports Poller_devpoll
begin

unbundle bit_operations_syntax

text \<open>
  The back end on /dev/poll does to its table what the plain map of monitored descriptors says, the
  device's set of interests is the same map at all times, with and without SOLARIS, and the events are
  delivered correctly while descriptors are being deleted.
\<close>

subsection \<open>The device\<close>

text \<open>
  /dev/poll keeps a mask for each descriptor. Writing a pollfd with POLLREMOVE removes it; any other
  replaces the mask on Linux and is added to it on Solaris. DP\_POLL fills in pollfds of descriptors
  in the set, one for each that is ready, and no more than it is told.
\<close>

fun dev_apply :: "bool \<Rightarrow> (int \<Rightarrow> mask option) \<Rightarrow> int \<times> mask \<Rightarrow> (int \<Rightarrow> mask option)" where
  "dev_apply solaris I (fd, ev) =
     (if ev AND POLLREMOVE \<noteq> 0 then I(fd := None)
      else I(fd \<mapsto> (if solaris then (case I fd of None \<Rightarrow> ev | Some m \<Rightarrow> m OR ev) else ev)))"

definition device_ok :: "('c, 'd) dp_calls \<Rightarrow> ('d \<Rightarrow> int \<Rightarrow> mask option) \<Rightarrow> bool" where
  "device_ok C interest =
     ((\<forall>ps d. fst (dv_write C ps d) = sizeof_pollfd * int (length ps)) \<and>
      (\<forall>ps d. interest (snd (dv_write C ps d)) = foldl (dev_apply (dv_solaris C)) (interest d) ps) \<and>
      (\<forall>t n d. interest (snd (dv_poll C t n d)) = interest d) \<and>
      (\<forall>t n d rs. fst (dv_poll C t n d) = Inr rs \<longrightarrow>
         length rs \<le> nat n \<and> distinct (map pfd_fd rs) \<and>
         (\<forall>p \<in> set rs. pfd_fd p \<in> dom (interest d) \<and> sint (pfd_revents p) > 0)) \<and>
      never_fails (dv_realloc C) \<and> never_fails (dv_realloc1 C))"

lemma device_okD:
  assumes "device_ok C interest"
  shows "\<exists>d'. dv_write C ps d = (sizeof_pollfd * int (length ps), d') \<and> interest d' = foldl (dev_apply (dv_solaris C)) (interest d) ps"
    and "never_fails (dv_realloc C)" "never_fails (dv_realloc1 C)"
proof -
  have "fst (dv_write C ps d) = sizeof_pollfd * int (length ps)"
    "interest (snd (dv_write C ps d)) = foldl (dev_apply (dv_solaris C)) (interest d) ps"
    using assms by (auto simp: device_ok_def)
  then show "\<exists>d'. dv_write C ps d = (sizeof_pollfd * int (length ps), d') \<and> interest d' = foldl (dev_apply (dv_solaris C)) (interest d) ps"
    by (cases "dv_write C ps d") auto
qed (use assms in \<open>simp_all add: device_ok_def\<close>)

lemma device_pollD:
  assumes "device_ok C interest" "dv_poll C t n d = (res, d')"
  shows "interest d' = interest d"
    and "res = Inr rs \<Longrightarrow> length rs \<le> nat n \<and> distinct (map pfd_fd rs) \<and> (\<forall>p \<in> set rs. pfd_fd p \<in> dom (interest d) \<and> sint (pfd_revents p) > 0)"
proof -
  have a: "interest (snd (dv_poll C t n d)) = interest d" using assms(1) by (simp add: device_ok_def)
  have b: "fst (dv_poll C t n d) = Inr rs \<longrightarrow> length rs \<le> nat n \<and> distinct (map pfd_fd rs) \<and>
      (\<forall>p \<in> set rs. pfd_fd p \<in> dom (interest d) \<and> sint (pfd_revents p) > 0)"
    using assms(1) unfolding device_ok_def by blast
  show "interest d' = interest d" using a assms(2) by simp
  show "res = Inr rs \<Longrightarrow> length rs \<le> nat n \<and> distinct (map pfd_fd rs) \<and> (\<forall>p \<in> set rs. pfd_fd p \<in> dom (interest d) \<and> sint (pfd_revents p) > 0)"
    using b assms(2) by simp
qed

lemma write_dev_lemma:
  assumes "device_ok C interest"
  shows "\<exists>d'. write_dev C s ps = (True, s\<lparr>dp_dpfd := d'\<rparr>) \<and> interest d' = foldl (dev_apply (dv_solaris C)) (interest (dp_dpfd s)) ps"
  using device_okD(1)[OF assms, of ps "dp_dpfd s"] by (auto simp: write_dev_def)

subsection \<open>Invariant and abstraction\<close>

definition dp_mon :: "('c, 'd) poller_devpoll \<Rightarrow> int \<Rightarrow> ('c \<times> mask) option" where
  "dp_mon s fd = (case clivent_at s fd of None \<Rightarrow> None | Some v \<Rightarrow> map_option (\<lambda>c. (c, cv_events v)) (cv_client v))"

definition dp_shape :: "('c, 'd) poller_devpoll \<Rightarrow> bool" where
  "dp_shape s =
     (int (length (dp_clivents s)) = dp_clivent_alloc s \<and> 0 < dp_clivent_alloc s \<and> dp_clivent_alloc s \<le> 2 * int FDLIMIT \<and>
      int (length (dp_pfds s)) = dp_pfds_alloc s \<and> 0 < dp_pfds_alloc s \<and> dp_pfds_alloc s \<le> 2 * int FDLIMIT \<and>
      dp_pfds_used s = int (card (dom (dp_mon s))) \<and> dp_pfds_used s \<le> dp_pfds_alloc s \<and> (\<forall>fd \<in> dom (dp_mon s). fd < int FDLIMIT))"

definition dp_inv :: "('d \<Rightarrow> int \<Rightarrow> mask option) \<Rightarrow> ('c, 'd) poller_devpoll \<Rightarrow> bool" where
  "dp_inv interest s =
     (dp_shape s \<and> interest (dp_dpfd s) = (\<lambda>fd. map_option snd (dp_mon s fd)) \<and>
      (\<forall>fd c m. dp_mon s fd = Some (c, m) \<longrightarrow> m AND POLLREMOVE = 0))"

lemma dp_mon_cong: "dp_clivents s' = dp_clivents s \<Longrightarrow> dp_mon s' = dp_mon s"
  by (simp add: dp_mon_def clivent_at_def fun_eq_iff)

lemma clivent_at_Some: "clivent_at s fd = Some v \<Longrightarrow> 0 \<le> fd \<and> fd < int (length (dp_clivents s))"
  by (auto simp: clivent_at_def rdi_def rd_def split: if_splits)

lemma clivent_at_iff: "clivent_at s fd = None \<longleftrightarrow> \<not> (0 \<le> fd \<and> fd < int (length (dp_clivents s)))"
  by (auto simp: clivent_at_def rdi_def rd_def)

lemma dp_mon_Some: "dp_mon s fd = Some (c, m) \<longleftrightarrow> (\<exists>v. clivent_at s fd = Some v \<and> cv_client v = Some c \<and> cv_events v = m)"
  by (auto simp: dp_mon_def split: option.splits)

lemma dp_mon_range: "fd \<in> dom (dp_mon s) \<Longrightarrow> 0 \<le> fd \<and> fd < int (length (dp_clivents s))"
  using clivent_at_Some[of s fd] by (auto simp: dp_mon_def split: option.splits)

lemma dp_mon_finite: "finite (dom (dp_mon s))"
proof (rule finite_subset)
  show "dom (dp_mon s) \<subseteq> {0..<int (length (dp_clivents s))}"
  proof
    fix fd
    assume "fd \<in> dom (dp_mon s)"
    from dp_mon_range[OF this] show "fd \<in> {0..<int (length (dp_clivents s))}" by simp
  qed
qed simp

lemma dp_used_le: "dp_shape s \<Longrightarrow> dp_pfds_used s \<le> int FDLIMIT"
proof -
  assume sh: "dp_shape s"
  have "dom (dp_mon s) \<subseteq> {0..<int FDLIMIT}"
  proof
    fix fd
    assume "fd \<in> dom (dp_mon s)"
    with sh dp_mon_range[OF this] show "fd \<in> {0..<int FDLIMIT}" by (auto simp: dp_shape_def)
  qed
  then have "card (dom (dp_mon s)) \<le> card {0..<int FDLIMIT}" by (rule card_mono[rotated]) simp
  then show ?thesis using sh by (simp add: dp_shape_def)
qed

lemma put_clivent_lemma:
  assumes "clivent_at s fd = Some v"
  shows "\<exists>s'. put_clivent s fd w = Some s' \<and> s' = s\<lparr>dp_clivents := (dp_clivents s)[nat fd := w]\<rparr> \<and>
              clivent_at s' = (clivent_at s)(fd \<mapsto> w) \<and> dp_mon s' = (dp_mon s)(fd := map_option (\<lambda>c. (c, cv_events w)) (cv_client w))"
proof -
  let ?s = "s\<lparr>dp_clivents := (dp_clivents s)[nat fd := w]\<rparr>"
  note r = clivent_at_Some[OF assms]
  have st: "clivent_at ?s i = ((clivent_at s)(fd \<mapsto> w)) i" for i
    using r by (auto simp: clivent_at_def rdi_def rd_def nth_list_update nat_eq_iff2)
  moreover have "dp_mon ?s i = ((dp_mon s)(fd := map_option (\<lambda>c. (c, cv_events w)) (cv_client w))) i" for i
    by (simp add: dp_mon_def st)
  ultimately show ?thesis using r by (auto simp: put_clivent_def fun_eq_iff)
qed

subsection \<open>The operations\<close>

lemma dp_grow_clivents_lemma:
  assumes inv: "dp_shape s" and ra: "never_fails ra" and f: "0 \<le> fd" "fd < int FDLIMIT"
  shows "\<exists>s'. dp_grow_clivents ra s fd = Some (OK, s') \<and> dp_shape s' \<and> dp_mon s' = dp_mon s \<and> dp_dpfd s' = dp_dpfd s \<and>
     (\<exists>v. clivent_at s' fd = Some v)"
proof (cases "fd \<ge> dp_clivent_alloc s")
  case False
  then show ?thesis using inv f clivent_at_iff[of s fd] by (auto simp: dp_grow_clivents_def dp_shape_def)
next
  case True
  define n where "n = max (dp_clivent_alloc s * 2) (fd + 1)"
  have a: "int (length (dp_clivents s)) = dp_clivent_alloc s" "0 < dp_clivent_alloc s" using inv by (simp_all add: dp_shape_def)
  have n: "dp_clivent_alloc s \<le> n" "fd < n" "n \<le> 2 * int FDLIMIT" using True f by (auto simp: n_def)
  have len: "length (dp_clivents s) \<le> nat n" using a n by simp
  obtain ys where ys: "ra (nat n) (dp_clivents s) = Some ys" "length ys = nat n" "\<And>i. i < length (dp_clivents s) \<Longrightarrow> ys ! i = dp_clivents s ! i"
    using never_failsD[OF ra len] by metis
  let ?i = "nat (dp_clivent_alloc s)"
  let ?vs = "take ?i ys @ map (\<lambda>v. v\<lparr>cv_client := None\<rparr>) (take (nat n - ?i) (drop ?i ys)) @ drop (nat n) ys"
  let ?s = "s\<lparr>dp_clivents := ?vs, dp_clivent_alloc := n\<rparr>"
  have g: "dp_grow_clivents ra s fd = Some (OK, ?s)"
    using True ys(1,2) n(3) by (simp add: dp_grow_clivents_def n_def[symmetric] Let_def FDLIMIT_def)
  have i: "?i = length (dp_clivents s)" using a by simp
  have lv: "length ?vs = nat n" using ys(2) len i by simp
  have old: "clivent_at ?s j = clivent_at s j" if "j < dp_clivent_alloc s" for j
  proof (cases "0 \<le> j")
    case True
    then have "nat j < length (dp_clivents s)" "nat j < nat n" using that a n by auto
    then show ?thesis using True ys(2,3) lv by (simp add: clivent_at_def rdi_def rd_def i nth_append)
  qed (simp add: clivent_at_def rdi_def)
  have new: "\<exists>v. clivent_at ?s j = Some v \<and> cv_client v = None" if "dp_clivent_alloc s \<le> j" "j < n" for j
  proof -
    have "length (dp_clivents s) \<le> nat j" "nat j < nat n" "0 \<le> j" using that a by auto
    moreover have "nat j - length (dp_clivents s) < nat n - length (dp_clivents s)" using calculation by linarith
    ultimately show ?thesis using ys(2) lv len by (simp add: clivent_at_def rdi_def rd_def i nth_append min_absorb2)
  qed
  have none: "clivent_at ?s j = None" if "n \<le> j" for j using that a n lv by (simp add: clivent_at_iff)
  have mon: "dp_mon ?s j = dp_mon s j" for j
  proof -
    consider "j < dp_clivent_alloc s" | "dp_clivent_alloc s \<le> j" "j < n" | "n \<le> j" by linarith
    then show ?thesis
    proof cases
      case 2
      then have "clivent_at s j = None" using a by (simp add: clivent_at_iff)
      then show ?thesis using new[OF 2] by (auto simp: dp_mon_def)
    next
      case 3
      then have "clivent_at s j = None" using a n by (simp add: clivent_at_iff)
      then show ?thesis using none[OF 3] by (simp add: dp_mon_def)
    qed (simp add: dp_mon_def old)
  qed
  then have m: "dp_mon ?s = dp_mon s" by blast
  have "dp_shape ?s" unfolding dp_shape_def m using inv a n lv by (simp add: dp_shape_def)
  moreover have "\<exists>v. clivent_at ?s fd = Some v" using new[of fd] True n(2) by blast
  ultimately show ?thesis using g m by auto
qed

lemma dp_grow_pfds_lemma:
  assumes inv: "dp_shape s" and ra: "never_fails ra"
  shows "\<exists>s'. dp_grow_pfds ra s = Some (OK, s') \<and> dp_shape s' \<and> dp_mon s' = dp_mon s \<and> dp_dpfd s' = dp_dpfd s \<and>
     dp_clivents s' = dp_clivents s \<and> dp_pfds_used s' < dp_pfds_alloc s'"
proof (cases "dp_pfds_used s = dp_pfds_alloc s")
  case False
  with inv show ?thesis by (simp add: dp_grow_pfds_def dp_shape_def)
next
  case True
  let ?n = "dp_pfds_alloc s * 2"
  have le: "?n \<le> 2 * int FDLIMIT" using dp_used_le[OF inv] True by simp
  have l: "length (dp_pfds s) \<le> nat ?n" "0 < dp_pfds_alloc s" using inv by (auto simp: dp_shape_def)
  obtain ps where ps: "ra (nat ?n) (dp_pfds s) = Some ps" "length ps = nat ?n" using never_failsD[OF ra l(1)] by metis
  let ?s = "s\<lparr>dp_pfds := ps, dp_pfds_alloc := ?n\<rparr>"
  have m: "dp_mon ?s = dp_mon s" by (rule dp_mon_cong) simp
  have "dp_shape ?s" unfolding dp_shape_def m using inv le l ps(2) by (simp add: dp_shape_def)
  moreover have "dp_grow_pfds ra s = Some (OK, ?s)" using True ps(1) le by (simp add: dp_grow_pfds_def Let_def FDLIMIT_def)
  ultimately show ?thesis using m True l(2) by auto
qed

lemma dp_free_slot:
  assumes "dp_shape s" "0 \<le> fd" "dp_mon s fd = None"
  shows "(if fd < dp_clivent_alloc s then do { v \<leftarrow> clivent_at s fd; Some (cv_client v \<noteq> None) } else Some False) = Some False"
proof (cases "fd < dp_clivent_alloc s")
  case True
  then obtain v where v: "clivent_at s fd = Some v" using assms(1,2) clivent_at_iff[of s fd] by (auto simp: dp_shape_def)
  then have "cv_client v = None" using assms(3) by (simp add: dp_mon_def)
  with v True show ?thesis by simp
qed simp

lemma dp_add_lemma:
  assumes inv: "dp_inv interest s" and ok: "device_ok C interest" and f: "0 \<le> fd" "fd < int FDLIMIT"
    and free: "dp_mon s fd = None" and m: "m AND POLLREMOVE = 0"
  shows "\<exists>s'. dp_add C s fd c m = Some (OK, s') \<and> dp_inv interest s' \<and> dp_mon s' = (dp_mon s)(fd \<mapsto> (c, m))"
proof -
  have sh: "dp_shape s" using inv by (simp add: dp_inv_def)
  note p = dp_free_slot[OF sh f(1) free]
  obtain s1 v where s1: "dp_grow_clivents (dv_realloc C) s fd = Some (OK, s1)" "dp_shape s1" "dp_mon s1 = dp_mon s"
    "dp_dpfd s1 = dp_dpfd s" "clivent_at s1 fd = Some v"
    using dp_grow_clivents_lemma[OF sh device_okD(2)[OF ok] f] by blast
  obtain s2 where s2: "dp_grow_pfds (dv_realloc1 C) s1 = Some (OK, s2)" "dp_shape s2" "dp_mon s2 = dp_mon s1" "dp_dpfd s2 = dp_dpfd s1"
    "dp_clivents s2 = dp_clivents s1" "dp_pfds_used s2 < dp_pfds_alloc s2"
    using dp_grow_pfds_lemma[OF s1(2) device_okD(3)[OF ok]] by blast
  have v: "clivent_at s2 fd = Some v" using s1(5) s2(5) by (simp add: clivent_at_def)
  let ?w = "v\<lparr>cv_client := Some c, cv_events := m\<rparr>"
  obtain s3 where s3: "put_clivent s2 fd ?w = Some s3" "s3 = s2\<lparr>dp_clivents := (dp_clivents s2)[nat fd := ?w]\<rparr>"
    "dp_mon s3 = (dp_mon s2)(fd \<mapsto> (c, m))" using put_clivent_lemma[OF v, of ?w] by auto
  obtain d' where d': "write_dev C s3 [(fd, m)] = (True, s3\<lparr>dp_dpfd := d'\<rparr>)"
    "interest d' = foldl (dev_apply (dv_solaris C)) (interest (dp_dpfd s3)) [(fd, m)]" using write_dev_lemma[OF ok] by blast
  let ?s = "s3\<lparr>dp_dpfd := d', dp_pfds_used := dp_pfds_used s3 + 1\<rparr>"
  have m': "dp_mon ?s = (dp_mon s)(fd \<mapsto> (c, m))" using dp_mon_cong[of ?s s3] s3(3) s2(3) s1(3) by simp
  have card: "card (dom ((dp_mon s)(fd \<mapsto> (c, m)))) = card (dom (dp_mon s)) + 1"
    using free dp_mon_finite[of s] by (simp add: card_insert_if domIff)
  have "dp_shape ?s" unfolding dp_shape_def m' card using s2 s1(3) s3(2) f by (auto simp: dp_shape_def)
  moreover have "interest (dp_dpfd ?s) = (\<lambda>i. map_option snd (dp_mon ?s i))"
    unfolding m' using d'(2) s3(2) s2(4) s1(4) inv free m by (auto simp: fun_eq_iff dp_inv_def)
  ultimately have "dp_inv interest ?s" using m inv unfolding dp_inv_def m' by auto
  moreover have "dp_add C s fd c m = Some (OK, ?s)"
    using f p s1(1) s2(1) v s3(1) d'(1) by (simp add: dp_add_def)
  ultimately show ?thesis using m' by blast
qed

lemma dp_guard:
  assumes "dp_shape s" "dp_mon s fd = Some (c, k)"
  shows "\<not> (fd < 0 \<or> fd \<ge> dp_clivent_alloc s)" "0 < dp_pfds_used s"
    "\<exists>v. clivent_at s fd = Some v \<and> cv_client v = Some c \<and> cv_events v = k"
proof -
  show "\<not> (fd < 0 \<or> fd \<ge> dp_clivent_alloc s)" using dp_mon_range[OF domI[of "dp_mon s", OF assms(2)]] assms(1) by (simp add: dp_shape_def)
  have "dom (dp_mon s) \<noteq> {}" using assms(2) by auto
  then show "0 < dp_pfds_used s" using assms(1) dp_mon_finite[of s] by (simp add: dp_shape_def card_gt_0_iff)
  show "\<exists>v. clivent_at s fd = Some v \<and> cv_client v = Some c \<and> cv_events v = k" using assms(2) by (simp add: dp_mon_Some)
qed

lemma dp_del_lemma:
  assumes inv: "dp_inv interest s" and ok: "device_ok C interest" and mon: "dp_mon s fd = Some (c, k)"
  shows "\<exists>s' d' v. dp_del C s fd = Some (OK, s') \<and> dp_inv interest s' \<and> dp_mon s' = (dp_mon s)(fd := None) \<and>
     clivent_at s fd = Some v \<and> s' = s\<lparr>dp_dpfd := d', dp_clivents := (dp_clivents s)[nat fd := v\<lparr>cv_client := None\<rparr>], dp_pfds_used := dp_pfds_used s - 1\<rparr>"
proof -
  have sh: "dp_shape s" using inv by (simp add: dp_inv_def)
  note g = dp_guard[OF sh mon]
  obtain v where v: "clivent_at s fd = Some v" "cv_client v = Some c" "cv_events v = k" using g(3) by blast
  obtain d' where d': "write_dev C s [(fd, POLLREMOVE)] = (True, s\<lparr>dp_dpfd := d'\<rparr>)"
    "interest d' = foldl (dev_apply (dv_solaris C)) (interest (dp_dpfd s)) [(fd, POLLREMOVE)]" using write_dev_lemma[OF ok] by blast
  let ?s1 = "s\<lparr>dp_dpfd := d'\<rparr>" and ?w = "v\<lparr>cv_client := None\<rparr>"
  have v1: "clivent_at ?s1 fd = Some v" using v(1) by (simp add: clivent_at_def)
  obtain s2 where s2: "put_clivent ?s1 fd ?w = Some s2" "s2 = ?s1\<lparr>dp_clivents := (dp_clivents ?s1)[nat fd := ?w]\<rparr>"
    "dp_mon s2 = (dp_mon ?s1)(fd := None)" using put_clivent_lemma[OF v1, of ?w] by auto
  let ?s = "s2\<lparr>dp_pfds_used := dp_pfds_used s2 - 1\<rparr>"
  have m': "dp_mon ?s = (dp_mon s)(fd := None)" using dp_mon_cong[of ?s s2] s2(3) dp_mon_cong[of ?s1 s] by simp
  have "card (dom ((dp_mon s)(fd := None))) = card (dom (dp_mon s)) - 1" "0 < card (dom (dp_mon s))"
    using dp_mon_finite[of s] domI[of "dp_mon s", OF mon] by (auto simp: card_gt_0_iff)
  then have "dp_pfds_used s - 1 = int (card (dom ((dp_mon s)(fd := None))))" using sh by (simp add: dp_shape_def)
  then have "dp_shape ?s" unfolding dp_shape_def m' using sh s2(2) by (auto simp: dp_shape_def)
  moreover have "POLLREMOVE AND POLLREMOVE \<noteq> 0" by (simp add: POLLREMOVE_def)
  then have "interest (dp_dpfd ?s) = (\<lambda>i. map_option snd (dp_mon ?s i))"
    unfolding m' using d'(2) s2(2) inv by (auto simp: fun_eq_iff dp_inv_def)
  ultimately have "dp_inv interest ?s" using inv unfolding dp_inv_def m' by auto
  moreover have "dp_del C s fd = Some (OK, ?s)"
    using g(1,2) v(1,2) d'(1) s2(1) by (simp add: dp_del_def)
  ultimately show ?thesis using m' v(1) s2(2) by auto
qed

text \<open>
  A new mask reaches the device if the old entry is removed first, or the device replaces masks, or the
  new mask includes the old one.
\<close>

lemma dp_mask_lemma:
  assumes inv: "dp_inv interest s" and ok: "device_ok C interest" and mon: "dp_mon s fd = Some (c, k)"
    and g: "g k AND POLLREMOVE = 0" and sol: "rem \<or> \<not> dv_solaris C \<or> k OR g k = g k"
  shows "\<exists>s'. dp_mask C rem g s fd = Some (OK, s') \<and> dp_inv interest s' \<and> dp_mon s' = (dp_mon s)(fd \<mapsto> (c, g k))"
proof -
  have sh: "dp_shape s" using inv by (simp add: dp_inv_def)
  note gd = dp_guard[OF sh mon]
  obtain v where v: "clivent_at s fd = Some v" "cv_client v = Some c" "cv_events v = k" using gd(3) by blast
  let ?w = "v\<lparr>cv_events := g k\<rparr>"
  obtain s1 where s1: "put_clivent s fd ?w = Some s1" "s1 = s\<lparr>dp_clivents := (dp_clivents s)[nat fd := ?w]\<rparr>"
    "dp_mon s1 = (dp_mon s)(fd \<mapsto> (c, g k))" using put_clivent_lemma[OF v(1), of ?w] v(2) by auto
  let ?ps = "(if rem then [(fd, POLLREMOVE)] else []) @ [(fd, g k)]"
  obtain d' where d': "write_dev C s1 ?ps = (True, s1\<lparr>dp_dpfd := d'\<rparr>)"
    "interest d' = foldl (dev_apply (dv_solaris C)) (interest (dp_dpfd s1)) ?ps" using write_dev_lemma[OF ok] by blast
  let ?s = "s1\<lparr>dp_dpfd := d'\<rparr>"
  have m': "dp_mon ?s = (dp_mon s)(fd \<mapsto> (c, g k))" using dp_mon_cong[of ?s s1] s1(3) by simp
  have dom: "dom ((dp_mon s)(fd \<mapsto> (c, g k))) = dom (dp_mon s)" using mon by auto
  have "dp_shape ?s" unfolding dp_shape_def m' dom using sh s1(2) by (simp add: dp_shape_def)
  moreover have "POLLREMOVE AND POLLREMOVE \<noteq> 0" by (simp add: POLLREMOVE_def)
  then have "interest (dp_dpfd ?s) = (\<lambda>i. map_option snd (dp_mon ?s i))"
    unfolding m' using d'(2) s1(2) inv g sol mon by (auto simp: fun_eq_iff dp_inv_def)
  ultimately have "dp_inv interest ?s" using inv g unfolding dp_inv_def m' by auto
  moreover have "dp_mask C rem g s fd = Some (OK, ?s)"
    using gd(1) v s1(1) d'(1) by (simp add: dp_mask_def)
  ultimately show ?thesis using m' by blast
qed

subsection \<open>The back end provides the monitor interface\<close>

text \<open>Masks are the flags of \<open>poll\<close>; \<open>events\<close> is what is left of a mask without POLLREMOVE.\<close>

definition events :: "mask \<Rightarrow> mask" where
  "events m = m AND NOT POLLREMOVE"

lemma events [simp]: "events m AND POLLREMOVE = 0"
  by (rule bit_word_eqI) (auto simp: events_def bit_simps)

lemma events_id: "m AND POLLREMOVE = 0 \<Longrightarrow> events m = m"
proof -
  assume z: "m AND POLLREMOVE = 0"
  have "bit m n \<and> \<not> bit POLLREMOVE n \<longleftrightarrow> bit m n" for n
    using arg_cong[OF z, of "\<lambda>w. bit w n"] by (auto simp: bit_and_iff)
  then show ?thesis by (intro bit_word_eqI) (simp add: events_def bit_and_iff bit_not_iff)
qed

lemma events_or: "k AND POLLREMOVE = 0 \<Longrightarrow> events (k OR m) = k OR events m"
proof -
  assume "k AND POLLREMOVE = 0"
  then have "k AND NOT POLLREMOVE = k" using events_id[of k] by (simp add: events_def)
  then show ?thesis by (simp add: events_def bit.conj_disj_distrib2)
qed

lemma events_and: "events (k AND m) = k AND events m"
  by (simp add: events_def and.assoc)

interpretation dp: monitor "\<lambda>s fd c m. dp_add C s fd c (events m)" "dp_del C" "\<lambda>s fd m. dp_setMask C s fd (events m)"
  "\<lambda>s fd m. dp_orMask C s fd (events m)" "\<lambda>s fd m. dp_andMask C s fd (events m)" dp_mon
  "\<lambda>s. device_ok C interest \<and> dp_inv interest s" okfd_poll events "(OR)" "(AND)"
  for C :: "('c, 'd) dp_calls" and interest
proof unfold_locales
  fix s :: "('c, 'd) poller_devpoll" and f c and m :: mask
  assume "device_ok C interest \<and> dp_inv interest s" "okfd_poll f" "dp_mon s f = None"
  then show "\<exists>s'. dp_add C s f c (events m) = Some (OK, s') \<and> (device_ok C interest \<and> dp_inv interest s') \<and>
      dp_mon s' = (dp_mon s)(f \<mapsto> (c, events m))"
    using dp_add_lemma[of interest s C f "events m" c] by auto
next
  fix s :: "('c, 'd) poller_devpoll" and f c and k :: mask
  assume "device_ok C interest \<and> dp_inv interest s" "dp_mon s f = Some (c, k)"
  then show "\<exists>s'. dp_del C s f = Some (OK, s') \<and> (device_ok C interest \<and> dp_inv interest s') \<and> dp_mon s' = (dp_mon s)(f := None)"
    using dp_del_lemma[of interest s C f c k] by auto
next
  fix s :: "('c, 'd) poller_devpoll" and f c and k m :: mask
  assume a: "device_ok C interest \<and> dp_inv interest s" "dp_mon s f = Some (c, k)"
  have k: "k AND POLLREMOVE = 0" using a by (auto simp: dp_inv_def)
  note l = dp_mask_lemma[OF conjunct2[OF a(1)] conjunct1[OF a(1)] a(2)]
  show "\<exists>s'. dp_setMask C s f (events m) = Some (OK, s') \<and> (device_ok C interest \<and> dp_inv interest s') \<and>
      dp_mon s' = (dp_mon s)(f \<mapsto> (c, events m))"
    using l[of "\<lambda>_. events m" "dv_solaris C"] a(1) by (auto simp: dp_setMask_def)
  have "k OR (k OR events m) = k OR events m" by (simp add: or.assoc[symmetric])
  then show "\<exists>s'. dp_orMask C s f (events m) = Some (OK, s') \<and> (device_ok C interest \<and> dp_inv interest s') \<and>
      dp_mon s' = (dp_mon s)(f \<mapsto> (c, events (k OR m)))"
    using l[of "\<lambda>k. k OR events m" False] a(1) events[of "k OR m"] by (simp add: dp_orMask_def events_or[OF k])
  show "\<exists>s'. dp_andMask C s f (events m) = Some (OK, s') \<and> (device_ok C interest \<and> dp_inv interest s') \<and>
      dp_mon s' = (dp_mon s)(f \<mapsto> (c, events (k AND m)))"
    using l[of "\<lambda>k. k AND events m" "dv_solaris C"] a(1) events[of "k AND m"] by (simp add: dp_andMask_def events_and)
qed

end
