(* ===== verification/Poller_devpoll_events.thy ===== *)
theory Poller_devpoll_events
  imports Poller_devpoll_proofs
begin

unbundle bit_operations_syntax

text \<open>Delivery of events by the back end on /dev/poll, and the properties of this back end.\<close>

subsection \<open>Pending events\<close>

definition dp_pending :: "('c, 'd) poller_devpoll \<Rightarrow> pollfd list" where
  "dp_pending s = rev (take (nat (dp_rfds s)) (dp_pfds s))"

definition dp_event :: "('c, 'd) poller_devpoll \<Rightarrow> pollfd \<Rightarrow> 'c poll_event" where
  "dp_event s p = \<lparr>ev_fd = pfd_fd p, ev_revents = pfd_revents p, ev_client = map_option fst (dp_mon s (pfd_fd p))\<rparr>"

definition dp_ready :: "('c, 'd) poller_devpoll \<Rightarrow> 'c poll_event list" where
  "dp_ready s = map (dp_event s) (filter (\<lambda>p. dp_mon s (pfd_fd p) \<noteq> None) (dp_pending s))"

definition dp_ev_inv :: "('d \<Rightarrow> int \<Rightarrow> mask option) \<Rightarrow> ('c, 'd) poller_devpoll \<Rightarrow> bool" where
  "dp_ev_inv interest s =
     (dp_inv interest s \<and> dp_rfds s \<le> int (length (dp_pfds s)) \<and> distinct (map pfd_fd (dp_pending s)) \<and>
      (\<forall>p \<in> set (dp_pending s). sint (pfd_revents p) > 0 \<and> 0 \<le> pfd_fd p \<and> pfd_fd p < dp_clivent_alloc s))"

lemma dp_mon_rfds [simp]: "dp_mon (s\<lparr>dp_rfds := n\<rparr>) = dp_mon s" "dp_event (s\<lparr>dp_rfds := n\<rparr>) = dp_event s"
  by (simp_all add: dp_mon_def clivent_at_def dp_event_def fun_eq_iff)

lemma dp_inv_rfds [simp]: "dp_inv interest (s\<lparr>dp_rfds := n\<rparr>) = dp_inv interest s"
  by (simp add: dp_inv_def dp_shape_def)

lemma dp_pending_Cons:
  assumes "1 \<le> dp_rfds s" "dp_rfds s \<le> int (length (dp_pfds s))"
  shows "dp_pending s = dp_pfds s ! nat (dp_rfds s - 1) # dp_pending (s\<lparr>dp_rfds := dp_rfds s - 1\<rparr>)"
proof -
  define k where "k = nat (dp_rfds s - 1)"
  have k: "nat (dp_rfds s) = Suc k" "k < length (dp_pfds s)" using assms by (auto simp: k_def)
  show ?thesis unfolding dp_pending_def k(1) using k(2) by (simp add: take_Suc_conv_app_nth flip: k_def)
qed

text \<open>What \<open>getNextEvent\<close> does to the events that are left.\<close>

lemma dp_next_lemma:
  "dp_ev_inv interest s \<Longrightarrow>
   \<exists>n. dp_getNextEvent s = Some (if dp_ready s = [] then Fail EWOULDBLOCK else OK,
                                 if dp_ready s = [] then None else Some (hd (dp_ready s)), s\<lparr>dp_rfds := n\<rparr>) \<and>
       dp_ev_inv interest (s\<lparr>dp_rfds := n\<rparr>) \<and> dp_ready (s\<lparr>dp_rfds := n\<rparr>) = tl (dp_ready s)"
proof (induction "nat (dp_rfds s)" arbitrary: s)
  case 0
  then have "dp_ready s = []" "dp_rfds s < 1" by (simp_all add: dp_ready_def dp_pending_def)
  then show ?case using 0(2) by (intro exI[of _ "dp_rfds s"]) (simp add: dp_getNextEvent.simps[of s])
next
  case (Suc k)
  let ?s = "s\<lparr>dp_rfds := dp_rfds s - 1\<rparr>" and ?p = "dp_pfds s ! nat (dp_rfds s - 1)"
  have r: "1 \<le> dp_rfds s" "dp_rfds s \<le> int (length (dp_pfds s))" using Suc(2,3) by (auto simp: dp_ev_inv_def)
  note pend = dp_pending_Cons[OF r]
  have p: "sint (pfd_revents ?p) > 0" "0 \<le> pfd_fd ?p" "pfd_fd ?p < dp_clivent_alloc s"
    using Suc(3) pend by (auto simp: dp_ev_inv_def)
  have rd: "rdi (dp_pfds s) (dp_rfds s - 1) = Some ?p" using r by (simp add: rdi_def rd_def)
  have inv': "dp_ev_inv interest ?s" using Suc(3) pend by (simp add: dp_ev_inv_def)
  have "dp_shape s" using Suc(3) by (simp add: dp_ev_inv_def dp_inv_def)
  then obtain v where v: "clivent_at s (pfd_fd ?p) = Some v" using p(2,3) clivent_at_iff[of s "pfd_fd ?p"] by (auto simp: dp_shape_def)
  have step: "dp_getNextEvent s = (if cv_client v = None then dp_getNextEvent ?s
      else Some (OK, Some \<lparr>ev_fd = pfd_fd ?p, ev_revents = pfd_revents ?p, ev_client = cv_client v\<rparr>, ?s))"
    using r(1) rd p v by (simp add: dp_getNextEvent.simps[of s])
  have rdy: "dp_ready s = (if cv_client v = None then [] else [dp_event s ?p]) @ dp_ready ?s"
    using v pend by (auto simp: dp_ready_def dp_mon_def split: option.splits)
  show ?case
  proof (cases "cv_client v")
    case None
    have "k = nat (dp_rfds ?s)" using Suc(2) by simp
    from Suc(1)[OF this inv'] show ?thesis using None step rdy by (cases "dp_ready ?s = []") simp_all
  next
    case (Some c)
    have "dp_event s ?p = \<lparr>ev_fd = pfd_fd ?p, ev_revents = pfd_revents ?p, ev_client = cv_client v\<rparr>"
      using v Some by (simp add: dp_event_def dp_mon_def)
    then show ?thesis using Some step rdy inv' by (intro exI[of _ "dp_rfds s - 1"]) simp
  qed
qed

lemma dp_del_ready_lemma:
  assumes inv: "dp_ev_inv interest s" and ok: "device_ok C interest" and mon: "dp_mon s f \<noteq> None"
  shows "\<exists>s'. dp_del C s f = Some (OK, s') \<and> dp_ev_inv interest s' \<and> dp_mon s' = (dp_mon s)(f := None) \<and>
     dp_ready s' = filter (\<lambda>e. ev_fd e \<noteq> f) (dp_ready s)"
proof -
  obtain c k where "dp_mon s f = Some (c, k)" using mon by auto
  then obtain s' d' v where s': "dp_del C s f = Some (OK, s')" "dp_inv interest s'" "dp_mon s' = (dp_mon s)(f := None)"
    "s' = s\<lparr>dp_dpfd := d', dp_clivents := (dp_clivents s)[nat f := v\<lparr>cv_client := None\<rparr>], dp_pfds_used := dp_pfds_used s - 1\<rparr>"
    using dp_del_lemma[OF _ ok] inv unfolding dp_ev_inv_def by blast
  have pend: "dp_pending s' = dp_pending s" unfolding s'(4) by (simp add: dp_pending_def)
  have "dp_rfds s' = dp_rfds s" "dp_pfds s' = dp_pfds s" "dp_clivent_alloc s' = dp_clivent_alloc s" unfolding s'(4) by simp_all
  then have i: "dp_ev_inv interest s'" using inv s'(2) by (simp add: dp_ev_inv_def pend)
  have "dp_ready s' = map (dp_event s') (filter (\<lambda>p. dp_mon s (pfd_fd p) \<noteq> None \<and> pfd_fd p \<noteq> f) (dp_pending s))"
    unfolding dp_ready_def pend s'(3) by (rule arg_cong[where f = "map _"], rule filter_cong) auto
  also have "\<dots> = map (dp_event s) (filter (\<lambda>p. dp_mon s (pfd_fd p) \<noteq> None \<and> pfd_fd p \<noteq> f) (dp_pending s))"
    by (rule map_cong) (auto simp: dp_event_def s'(3))
  also have "\<dots> = filter (\<lambda>e. ev_fd e \<noteq> f) (dp_ready s)"
    by (simp add: dp_ready_def filter_map comp_def dp_event_def conj_commute)
  finally show ?thesis using s'(1,3) i by blast
qed

interpretation dpe: safe_event_queue dp_getNextEvent dp_ready "\<lambda>s. device_ok C interest \<and> dp_ev_inv interest s" "dp_del C"
  "\<lambda>s. dom (dp_mon s)" ev_fd
  for C :: "('c, 'd) dp_calls" and interest
proof unfold_locales
  fix s :: "('c, 'd) poller_devpoll" and e es
  assume "device_ok C interest \<and> dp_ev_inv interest s" "dp_ready s = e # es"
  then show "\<exists>s'. dp_getNextEvent s = Some (OK, Some e, s') \<and> (device_ok C interest \<and> dp_ev_inv interest s') \<and> dp_ready s' = es"
    using dp_next_lemma[of interest s] by auto
next
  fix s :: "('c, 'd) poller_devpoll"
  assume "device_ok C interest \<and> dp_ev_inv interest s" "dp_ready s = []"
  then show "\<exists>s'. dp_getNextEvent s = Some (Fail EWOULDBLOCK, None, s') \<and> (device_ok C interest \<and> dp_ev_inv interest s') \<and> dp_ready s' = []"
    using dp_next_lemma[of interest s] by auto
next
  fix s :: "('c, 'd) poller_devpoll" and f
  assume "device_ok C interest \<and> dp_ev_inv interest s" "f \<in> dom (dp_mon s)"
  then show "\<exists>s'. dp_del C s f = Some (OK, s') \<and> (device_ok C interest \<and> dp_ev_inv interest s') \<and> dom (dp_mon s') = dom (dp_mon s) - {f} \<and>
      dp_ready s' = filter (\<lambda>e. ev_fd e \<noteq> f) (dp_ready s)"
    using dp_del_ready_lemma[of interest s C f] by (auto simp: dom_def)
next
  fix s s' :: "('c, 'd) poller_devpoll" and r e
  assume "device_ok C interest \<and> dp_ev_inv interest s" "dp_getNextEvent s = Some (r, e, s')"
  then show "dom (dp_mon s') = dom (dp_mon s)" using dp_next_lemma[of interest s] by (auto split: list.splits)
qed

lemma dp_ready_hd:
  assumes "dp_ev_inv interest s" "dp_ready s = e # es"
  shows "dp_mon s (ev_fd e) \<noteq> None" "\<exists>c. ev_client e = Some c" "filter (\<lambda>d. ev_fd d \<noteq> ev_fd e) es = es"
proof -
  have "e \<in> set (dp_ready s)" using assms(2) by simp
  then show "dp_mon s (ev_fd e) \<noteq> None" "\<exists>c. ev_client e = Some c" by (auto simp: dp_ready_def dp_event_def)
  have k: "map ev_fd (dp_ready s) = map pfd_fd (filter (\<lambda>p. dp_mon s (pfd_fd p) \<noteq> None) (dp_pending s))"
    by (simp add: dp_ready_def dp_event_def comp_def)
  have "distinct (map ev_fd (dp_ready s))"
    unfolding k using assms(1) by (intro distinct_map_filter) (simp add: dp_ev_inv_def)
  then have "ev_fd e \<notin> ev_fd ` set es" using assms(2) by simp
  then have "\<forall>d \<in> set es. ev_fd d \<noteq> ev_fd e" by (metis image_eqI)
  then show "filter (\<lambda>d. ev_fd d \<noteq> ev_fd e) es = es" by (simp add: filter_id_conv)
qed

interpretation dpd: dispatcher dp_getNextEvent dp_ready "\<lambda>s. device_ok C interest \<and> dp_ev_inv interest s" "dp_del C" dp_mon ev_fd
  "\<lambda>h. dp_dispatch C (on_world h)"
  for C :: "('c, 'd) dp_calls" and interest
proof unfold_locales
  fix s s' :: "('c, 'd) poller_devpoll" and r e
  assume "device_ok C interest \<and> dp_ev_inv interest s" "dp_getNextEvent s = Some (r, e, s')"
  then show "dp_mon s' = dp_mon s" using dp_next_lemma[of interest s] by (auto split: list.splits)
next
  fix s s1 :: "('c, 'd) poller_devpoll" and e es
  assume i: "device_ok C interest \<and> dp_ev_inv interest s" and r: "dp_ready s = e # es" and n: "dp_getNextEvent s = Some (OK, Some e, s1)"
  have s1: "dp_ev_inv interest s1" "dp_ready s1 = es" "dp_mon s1 = dp_mon s" using dp_next_lemma[of interest s] i r n by auto
  from dp_ready_hd[OF conjunct2[OF i] r] dp_del_ready_lemma[OF s1(1) conjunct1[OF i], of "ev_fd e"] s1 i
  show "\<exists>s2. dp_del C s1 (ev_fd e) = Some (OK, s2) \<and> (device_ok C interest \<and> dp_ev_inv interest s2) \<and> dp_ready s2 = es \<and>
      dp_mon s2 = (dp_mon s1)(ev_fd e := None)" by auto
next
  fix s s1 :: "('c, 'd) poller_devpoll" and e es and h :: "'c poll_event \<Rightarrow> 'x \<Rightarrow> int \<times> 'x" and x
  assume i: "device_ok C interest \<and> dp_ev_inv interest s" and r: "dp_ready s = e # es" and n: "dp_getNextEvent s = Some (OK, Some e, s1)"
  obtain c where c: "ev_client e = Some c" using dp_ready_hd(2)[OF conjunct2[OF i] r] by blast
  have "0 < dp_rfds s" using n by (simp add: dp_getNextEvent.simps[of s] split: if_splits)
  with n c show "dp_dispatch C (on_world h) (s, x) = (case h e x of (err, x1) \<Rightarrow>
        if err \<noteq> 0 then do { (q, s2) \<leftarrow> dp_del C s1 (ev_fd e); dp_dispatch C (on_world h) (s2, x1) }
        else dp_dispatch C (on_world h) (s1, x1))"
    by (subst dp_dispatch.simps) (simp add: on_world_def split: prod.splits)
next
  fix s :: "('c, 'd) poller_devpoll" and h :: "'c poll_event \<Rightarrow> 'x \<Rightarrow> int \<times> 'x" and x
  assume i: "device_ok C interest \<and> dp_ev_inv interest s" and r: "dp_ready s = []"
  obtain n where "dp_getNextEvent s = Some (Fail EWOULDBLOCK, None, s\<lparr>dp_rfds := n\<rparr>)" "dp_ev_inv interest (s\<lparr>dp_rfds := n\<rparr>)"
    using dp_next_lemma[of interest s] i r by auto
  with i show "\<exists>s'. dp_dispatch C (on_world h) (s, x) = Some (s', x) \<and> (device_ok C interest \<and> dp_ev_inv interest s') \<and> dp_mon s' = dp_mon s"
    by (subst dp_dispatch.simps) (cases "dp_rfds s > 0"; simp)
qed

text \<open>The events the device reported, last first.\<close>

definition dp_reported :: "('c, 'd) poller_devpoll \<Rightarrow> pollfd list \<Rightarrow> 'c poll_event list" where
  "dp_reported s rs = map (dp_event s) (rev rs)"

lemma dp_wait_lemma:
  assumes inv: "dp_inv interest s" and ok: "device_ok C interest" and os: "dv_poll C t (dp_pfds_used s) (dp_dpfd s) = (Inr rs, d')"
  shows "\<exists>s'. dp_waitForEvents C t s = Some (if rs = [] then Fail EWOULDBLOCK else OK, s') \<and> dp_ev_inv interest s' \<and>
     dp_mon s' = dp_mon s \<and> dp_ready s' = dp_reported s rs"
proof -
  note d = device_pollD[OF ok os]
  have rs: "length rs \<le> nat (dp_pfds_used s)" "distinct (map pfd_fd rs)"
    "\<And>p. p \<in> set rs \<Longrightarrow> pfd_fd p \<in> dom (interest (dp_dpfd s)) \<and> sint (pfd_revents p) > 0"
    using d(2)[OF refl] by blast+
  have sh: "dp_shape s" and mir: "interest (dp_dpfd s) = (\<lambda>fd. map_option snd (dp_mon s fd))" using inv by (simp_all add: dp_inv_def)
  have le: "length rs \<le> length (dp_pfds s)" using rs(1) sh by (simp add: dp_shape_def)
  let ?s = "s\<lparr>dp_dpfd := d', dp_pfds := rs @ drop (length rs) (dp_pfds s), dp_rfds := int (length rs)\<rparr>"
  have mon: "dp_mon ?s = dp_mon s" by (rule dp_mon_cong) simp
  have pend: "dp_pending ?s = rev rs" by (simp add: dp_pending_def)
  have watched: "p \<in> set rs \<Longrightarrow> dp_mon s (pfd_fd p) \<noteq> None" for p using rs(3)[of p] mir by auto
  have "dp_shape ?s" unfolding dp_shape_def mon using sh le by (simp add: dp_shape_def)
  then have "dp_inv interest ?s" using inv d(1) unfolding dp_inv_def mon by simp
  moreover have "0 \<le> pfd_fd p \<and> pfd_fd p < dp_clivent_alloc s" if "p \<in> set rs" for p
    using watched[OF that] dp_mon_range[of "pfd_fd p" s] sh by (auto simp: dp_shape_def)
  ultimately have "dp_ev_inv interest ?s" using rs le unfolding dp_ev_inv_def pend by (simp flip: rev_map)
  moreover have "dp_ready ?s = dp_reported s rs"
    unfolding dp_ready_def pend mon dp_reported_def dp_event_def[abs_def] using watched by simp
  moreover have "dp_waitForEvents C t s = Some (if rs = [] then Fail EWOULDBLOCK else OK, ?s)"
    using os le by (simp add: dp_waitForEvents_def)
  ultimately show ?thesis using mon by blast
qed

subsection \<open>Properties\<close>

text \<open>
  C26. The table of the /dev/poll back end and the device hold the same map: from a well-formed state every
  sequence of \<open>add\<close>, \<open>del\<close>, \<open>setMask\<close>, \<open>orMask\<close> and \<open>andMask\<close> that adds no descriptor twice and uses only
  monitored ones succeeds and leaves in the table the clients and masks that the same calls leave in a plain
  map, and in the device exactly those masks, whether the device replaces masks or, as with SOLARIS, adds them up.
\<close>

theorem devpoll_refines_map:
  assumes "device_ok C interest" "dp_inv interest s" "poll_all_allowed okfd_poll events (OR) (AND) (dp_mon s) ops"
  shows "\<exists>s'. poll_run (poll_step (\<lambda>s fd c m. dp_add C s fd c (events m)) (dp_del C) (\<lambda>s fd m. dp_setMask C s fd (events m))
             (\<lambda>s fd m. dp_orMask C s fd (events m)) (\<lambda>s fd m. dp_andMask C s fd (events m))) s ops = Some s' \<and>
           dp_inv interest s' \<and> dp_mon s' = foldl (poll_spec events (OR) (AND)) (dp_mon s) ops \<and>
           interest (dp_dpfd s') = (\<lambda>fd. map_option snd (dp_mon s' fd))"
  using dp.run_refines[of C interest s ops] assms by (auto simp: dp_inv_def)

text \<open>A device with 5 and 6 ready when they are watched, and an empty poller on it.\<close>

definition dev_calls :: "bool \<Rightarrow> (nat, int \<Rightarrow> mask option) dp_calls" where
  "dev_calls sol = \<lparr>dv_solaris = sol, dv_write = \<lambda>ps I. (sizeof_pollfd * int (length ps), foldl (dev_apply sol) I ps),
     dv_poll = \<lambda>t n I. (Inr (take (nat n) (filter (\<lambda>p. I (pfd_fd p) \<noteq> None)
       [\<lparr>pfd_fd = 5, pfd_events = 0, pfd_revents = POLLIN\<rparr>, \<lparr>pfd_fd = 6, pfd_events = 0, pfd_revents = POLLOUT\<rparr>])), I),
     dv_realloc = grow_with \<lparr>cv_client = None, cv_events = 0\<rparr>,
     dv_realloc1 = grow_with \<lparr>pfd_fd = 0, pfd_events = 0, pfd_revents = 0\<rparr>\<rparr>"

definition dp0 :: "(nat, int \<Rightarrow> mask option) poller_devpoll" where
  "dp0 = snd (dp_init (Some (replicate 16 \<lparr>cv_client = Some 1, cv_events = 9\<rparr>))
     (Some (replicate 16 \<lparr>pfd_fd = 0, pfd_events = 0, pfd_revents = 0\<rparr>)) (Some Map.empty)
     \<lparr>dp_clivents = [], dp_pfds = [], dp_clivent_alloc = 0, dp_pfds_used = 0, dp_pfds_alloc = 0, dp_dpfd = Map.empty, dp_rfds = 0\<rparr>)"

lemma dev_calls: "device_ok (dev_calls sol) id"
  unfolding device_ok_def by (auto simp: dev_calls_def POLLIN_def POLLOUT_def take_Cons' split: if_splits)

lemma dp0: "dp_inv id dp0" "dp_mon dp0 = Map.empty"
proof -
  show m: "dp_mon dp0 = Map.empty"
    by (auto simp: fun_eq_iff dp_mon_def clivent_at_def rdi_def rd_def dp0_def dp_init_def)
  show "dp_inv id dp0" unfolding dp_inv_def dp_shape_def m by (simp add: dp0_def dp_init_def FDLIMIT_def)
qed

theorem devpoll_refines_map_witness:
  "\<exists>s'. poll_run (poll_step (\<lambda>s fd c m. dp_add (dev_calls True) s fd c (events m)) (dp_del (dev_calls True))
             (\<lambda>s fd m. dp_setMask (dev_calls True) s fd (events m)) (\<lambda>s fd m. dp_orMask (dev_calls True) s fd (events m))
             (\<lambda>s fd m. dp_andMask (dev_calls True) s fd (events m))) dp0 [PAdd 20 7 (POLLIN OR POLLOUT), PSet 20 POLLIN] = Some s' \<and>
        dp_dpfd s' = [20 \<mapsto> POLLIN]"
proof -
  let ?ops = "[PAdd 20 7 (POLLIN OR POLLOUT), PSet (20::int) POLLIN] :: (int, nat, mask) poll_op list"
  have "poll_all_allowed okfd_poll events (OR) (AND) (dp_mon dp0) ?ops" using dp0(2) by (simp add: FDLIMIT_def)
  moreover have e: "events POLLIN = POLLIN" by (simp add: events_def POLLIN_def POLLREMOVE_def)
  have "foldl (poll_spec events (OR) (AND)) (dp_mon dp0) ?ops = [20 \<mapsto> (7, POLLIN)]"
    by (rule ext) (simp add: dp0(2) e)
  moreover have "(\<lambda>fd. map_option snd ([20 \<mapsto> (7::nat, POLLIN)] fd)) = [20 \<mapsto> POLLIN]" by (auto simp: fun_eq_iff)
  ultimately show ?thesis using devpoll_refines_map[OF dev_calls dp0(1), of ?ops True] by (auto simp del: poll_run.simps)
qed

text \<open>
  C27. After a wait on the /dev/poll back end, whatever calls of \<open>getNextEvent\<close> and \<open>del\<close> follow in whatever order,
  every event the device reported is returned once, last first, with its events and client, if its
  descriptor was not deleted meanwhile, and never if it was; no assertion fails.
\<close>

theorem devpoll_delivery_under_deletion:
  assumes "device_ok C interest" "dp_inv interest s" "dv_poll C t (dp_pfds_used s) (dp_dpfd s) = (Inr rs, d')"
    "dq_allowed (dom (dp_mon s)) ops"
  shows "\<exists>s1. dp_waitForEvents C t s = Some (if rs = [] then Fail EWOULDBLOCK else OK, s1) \<and>
     dq_run dp_getNextEvent (dp_del C) s1 ops = Some (dq_spec ev_fd (dp_reported s rs) ops)"
proof -
  obtain s1 where s1: "dp_waitForEvents C t s = Some (if rs = [] then Fail EWOULDBLOCK else OK, s1)" "dp_ev_inv interest s1"
      "dp_mon s1 = dp_mon s" "dp_ready s1 = dp_reported s rs"
    using dp_wait_lemma[OF assms(2,1,3)] by blast
  have "dq_run dp_getNextEvent (dp_del C) s1 ops = Some (dq_spec ev_fd (dp_ready s1) ops)"
    using dpe.run_delivers[of C interest s1 ops] s1(2,3) assms(1,4) by simp
  then show ?thesis using s1(1,4) by auto
qed

definition dp2 :: "(nat, int \<Rightarrow> mask option) poller_devpoll" where
  "dp2 = the (poll_run (poll_step (\<lambda>s fd c m. dp_add (dev_calls False) s fd c (events m)) (dp_del (dev_calls False))
     (\<lambda>s fd m. dp_setMask (dev_calls False) s fd (events m)) (\<lambda>s fd m. dp_orMask (dev_calls False) s fd (events m))
     (\<lambda>s fd m. dp_andMask (dev_calls False) s fd (events m))) dp0 [PAdd 5 7 POLLIN, PAdd 6 8 POLLOUT])"

lemma dp2: "dp_inv id dp2" "dp_mon dp2 = [5 \<mapsto> (7, POLLIN), 6 \<mapsto> (8, POLLOUT)]" "dp_pfds_used dp2 = 2"
  "dp_dpfd dp2 = [5 \<mapsto> POLLIN, 6 \<mapsto> POLLOUT]"
proof -
  let ?ops = "[PAdd 5 7 POLLIN, PAdd 6 8 POLLOUT] :: (int, nat, mask) poll_op list"
  have a: "poll_all_allowed okfd_poll events (OR) (AND) (dp_mon dp0) ?ops" using dp0(2) by (simp add: FDLIMIT_def)
  have e: "events POLLIN = POLLIN" "events POLLOUT = POLLOUT" by (simp_all add: events_def POLLIN_def POLLOUT_def POLLREMOVE_def)
  have i: "dp_inv id dp2 \<and> dp_mon dp2 = foldl (poll_spec events (OR) (AND)) (dp_mon dp0) ?ops"
    unfolding dp2_def using dp.run_refines[of "dev_calls False" id dp0 ?ops] dev_calls dp0(1) a
    by (auto simp del: poll_run.simps poll_all_allowed.simps)
  then show m: "dp_inv id dp2" "dp_mon dp2 = [5 \<mapsto> (7, POLLIN), 6 \<mapsto> (8, POLLOUT)]" using dp0(2) e by simp_all
  then show "dp_pfds_used dp2 = 2" by (simp add: dp_inv_def dp_shape_def)
  have "dp_dpfd dp2 = (\<lambda>fd. map_option snd (dp_mon dp2 fd))" using m(1) by (simp add: dp_inv_def)
  then show "dp_dpfd dp2 = [5 \<mapsto> POLLIN, 6 \<mapsto> POLLOUT]" unfolding m(2) by (auto simp: fun_eq_iff)
qed

theorem devpoll_delivery_under_deletion_witness:
  "\<exists>s1. dp_waitForEvents (dev_calls False) 10 dp2 = Some (OK, s1) \<and>
     dq_run dp_getNextEvent (dp_del (dev_calls False)) s1 [DNext, DDel 5, DNext] =
       Some [Some \<lparr>ev_fd = 6, ev_revents = POLLOUT, ev_client = Some 8\<rparr>, None]"
proof -
  have "dv_poll (dev_calls False) 10 (dp_pfds_used dp2) (dp_dpfd dp2) = (Inr [\<lparr>pfd_fd = 5, pfd_events = 0, pfd_revents = POLLIN\<rparr>,
      \<lparr>pfd_fd = 6, pfd_events = 0, pfd_revents = POLLOUT\<rparr>], dp_dpfd dp2)"
    by (simp add: dev_calls_def dp2(3,4))
  from devpoll_delivery_under_deletion[OF dev_calls dp2(1) this, of "[DNext, DDel 5, DNext]"]
  show ?thesis by (simp add: dp2(2) dp_reported_def dp_event_def)
qed

text \<open>
  An \<open>add\<close> whose write to /dev/poll fails returns EINVAL but leaves the descriptor in the table without
  counting it: it cannot be added again, and when nothing else is monitored \<open>del\<close> fails its assertion.
\<close>

theorem devpoll_failed_add_sticks:
  assumes "dp_shape s" "never_fails (dv_realloc C)" "never_fails (dv_realloc1 C)" "0 \<le> fd" "fd < int FDLIMIT"
    "dp_mon s = Map.empty" "dv_write C [(fd, m)] (dp_dpfd s) = (n, d')" "n \<noteq> sizeof_pollfd"
  shows "\<exists>s1. dp_add C s fd c m = Some (Fail EINVAL, s1) \<and> dp_add C s1 fd c' m' = Some (Fail EINVAL, s1) \<and> dp_del C s1 fd = None"
proof -
  have p: "(if fd < dp_clivent_alloc s then do { v \<leftarrow> clivent_at s fd; Some (cv_client v \<noteq> None) } else Some False) = Some False"
    using dp_free_slot[OF assms(1,4)] assms(6) by simp
  obtain s1 v where s1: "dp_grow_clivents (dv_realloc C) s fd = Some (OK, s1)" "dp_shape s1" "dp_mon s1 = dp_mon s"
    "dp_dpfd s1 = dp_dpfd s" "clivent_at s1 fd = Some v"
    using dp_grow_clivents_lemma[OF assms(1,2,4,5)] by blast
  obtain s2 where s2: "dp_grow_pfds (dv_realloc1 C) s1 = Some (OK, s2)" "dp_shape s2" "dp_mon s2 = dp_mon s1" "dp_dpfd s2 = dp_dpfd s1"
    "dp_clivents s2 = dp_clivents s1" using dp_grow_pfds_lemma[OF s1(2) assms(3)] by blast
  have v: "clivent_at s2 fd = Some v" using s1(5) s2(5) by (simp add: clivent_at_def)
  let ?w = "v\<lparr>cv_client := Some c, cv_events := m\<rparr>"
  obtain s3 where s3: "put_clivent s2 fd ?w = Some s3" "s3 = s2\<lparr>dp_clivents := (dp_clivents s2)[nat fd := ?w]\<rparr>"
    "clivent_at s3 = (clivent_at s2)(fd \<mapsto> ?w)" using put_clivent_lemma[OF v, of ?w] by auto
  let ?s = "s3\<lparr>dp_dpfd := d'\<rparr>"
  have w: "write_dev C s3 [(fd, m)] = (False, ?s)" using assms(7,8) s3(2) s2(4) s1(4) by (simp add: write_dev_def)
  have "dp_add C s fd c m = Some (Fail EINVAL, ?s)" using assms(4) p s1(1) s2(1) v s3(1) w by (simp add: dp_add_def)
  moreover have c: "clivent_at ?s fd = Some ?w" using s3(3) by (simp add: clivent_at_def fun_eq_iff)
  moreover have r: "fd < dp_clivent_alloc ?s" using clivent_at_Some[OF v] s2(2) s3(2) by (simp add: dp_shape_def)
  moreover have "dp_pfds_used ?s = 0" using s2(2,3) s1(3) assms(6) s3(2) by (simp add: dp_shape_def)
  ultimately show ?thesis using assms(4) by (intro exI[of _ ?s]) (simp add: dp_add_def dp_del_def)
qed

theorem devpoll_failed_add_sticks_witness:
  "\<exists>s1. dp_add ((dev_calls False)\<lparr>dv_write := \<lambda>ps I. (-1, I)\<rparr>) dp0 5 7 POLLIN = Some (Fail EINVAL, s1) \<and>
        dp_del ((dev_calls False)\<lparr>dv_write := \<lambda>ps I. (-1, I)\<rparr>) s1 5 = None"
  using devpoll_failed_add_sticks[of dp0 "(dev_calls False)\<lparr>dv_write := \<lambda>ps I. (-1, I)\<rparr>" 5 POLLIN "-1" "dp_dpfd dp0" 7] dp0
  by (auto simp: dp_inv_def dev_calls_def FDLIMIT_def sizeof_pollfd_def)

end
