(* ===== verification/Poller_kqueue.thy ===== *)
theory Poller_kqueue
  imports Poller_poll
begin

unbundle bit_operations_syntax

text \<open>
  The back end on kqueue of Poller\_kqueue.h and Poller\_kqueue.cc. Calls are collected in an array of
  changes, which \<open>waitForEvents\<close> hands to \<open>kevent\<close> together with the array for the results. Members have
  the prefix \<open>kq_\<close> where the source has \<open>m\<close>; \<open>kq_kernelQueue\<close> is the kernel queue itself, of type \<open>'d\<close>.
\<close>

subsection \<open>State\<close>

definition EVFILT_READ :: int where "EVFILT_READ = -1"
definition EVFILT_WRITE :: int where "EVFILT_WRITE = -2"
definition EV_ADD :: "16 word" where "EV_ADD = 1"
definition EV_DELETE :: "16 word" where "EV_DELETE = 2"
definition EV_ENABLE :: "16 word" where "EV_ENABLE = 4"

record 'c kevent =
  ke_ident :: int
  ke_filter :: int
  ke_flags :: "16 word"
  ke_udata :: "'c option"

record ('c, 'd) poller_kqueue =
  kq_kernelQueue :: 'd
  kq_changes :: "'c kevent list"
  kq_results :: "'c kevent list"
  kq_numChanges :: int
  kq_maxChanges :: int
  kq_numResults :: int
  kq_numFds :: int
  kq_maxFds :: int
  kq_curResult :: int

text \<open>\<open>kevent\<close>: the changes, the capacity for results and the timeout to an error or the results.\<close>

type_synonym ('c, 'd) kevent_call =
  "'c kevent list \<Rightarrow> int \<Rightarrow> (int \<times> int) option \<Rightarrow> 'd \<Rightarrow> (errno + 'c kevent list) \<times> 'd"

definition kq_init :: "(errno + 'd) \<Rightarrow> ('c, 'd) poller_kqueue \<Rightarrow> rc \<times> ('c, 'd) poller_kqueue" where
  "kq_init kqueue s =
     (case kqueue of
        Inl e \<Rightarrow> (Fail e, s)
      | Inr d \<Rightarrow> (OK, \<lparr>kq_kernelQueue = d, kq_changes = [], kq_results = [], kq_numChanges = 0, kq_maxChanges = 0,
                     kq_numResults = 0, kq_numFds = 0, kq_maxFds = 0, kq_curResult = 0\<rparr>))"

definition kq_shutdown :: "('c, 'd) poller_kqueue \<Rightarrow> ('c, 'd) poller_kqueue" where
  "kq_shutdown s = s\<lparr>kq_changes := [], kq_results := [], kq_numResults := 0, kq_numChanges := 0, kq_maxChanges := 0, kq_numFds := 0\<rparr>"

subsection \<open>The array of changes\<close>

text \<open>
  Room for two more changes. The result of \<open>realloc\<close> is not checked: if it fails the array is gone, and
  the next access to it is a crash, None.
\<close>

definition room_for_two :: "'c kevent reallocf \<Rightarrow> ('c, 'd) poller_kqueue \<Rightarrow> ('c, 'd) poller_kqueue option" where
  "room_for_two ra s =
     (if kq_numChanges s + 2 > kq_maxChanges s then do {
        let n = kq_maxChanges s + 128;
        assertion (n < 2 ^ 31);
        Some (s\<lparr>kq_maxChanges := n, kq_changes := (case ra (nat n) (kq_changes s) of None \<Rightarrow> [] | Some cs \<Rightarrow> cs)\<rparr>)
      }
      else Some s)"

text \<open>Appending a change computed from what the memory held.\<close>

definition add_change :: "('c kevent \<Rightarrow> 'c kevent) \<Rightarrow> ('c, 'd) poller_kqueue \<Rightarrow> ('c, 'd) poller_kqueue option" where
  "add_change g s = do {
     ke \<leftarrow> rdi (kq_changes s) (kq_numChanges s);
     cs \<leftarrow> wri (kq_changes s) (kq_numChanges s) (g ke);
     Some (s\<lparr>kq_changes := cs, kq_numChanges := kq_numChanges s + 1\<rparr>)
   }"

definition setMaskInternal ::
  "'c kevent reallocf \<Rightarrow> ('c, 'd) poller_kqueue \<Rightarrow> int \<Rightarrow> mask \<Rightarrow> 'c option \<Rightarrow> (rc \<times> ('c, 'd) poller_kqueue) option" where
  "setMaskInternal ra s fd eventmask client = do {
     s1 \<leftarrow> room_for_two ra s;
     s2 \<leftarrow> (if has eventmask POLLIN
             then add_change (\<lambda>ke. \<lparr>ke_ident = fd, ke_filter = EVFILT_READ, ke_flags = EV_ADD OR EV_ENABLE, ke_udata = client\<rparr>) s1
             else Some s1);
     s3 \<leftarrow> (if has eventmask POLLOUT
             then add_change (\<lambda>ke. \<lparr>ke_ident = fd, ke_filter = EVFILT_WRITE, ke_flags = EV_ADD OR EV_ENABLE, ke_udata = client\<rparr>) s2
             else Some s2);
     Some (OK, s3)
   }"

definition clearMaskInternal ::
  "'c kevent reallocf \<Rightarrow> ('c, 'd) poller_kqueue \<Rightarrow> int \<Rightarrow> mask \<Rightarrow> (rc \<times> ('c, 'd) poller_kqueue) option" where
  "clearMaskInternal ra s fd eventmask = do {
     s1 \<leftarrow> room_for_two ra s;
     s2 \<leftarrow> (if \<not> has eventmask POLLIN
             then add_change (\<lambda>ke. \<lparr>ke_ident = fd, ke_filter = EVFILT_READ, ke_flags = EV_DELETE, ke_udata = None\<rparr>) s1
             else Some s1);
     s3 \<leftarrow> (if \<not> has eventmask POLLOUT
             then add_change (\<lambda>ke. \<lparr>ke_ident = fd, ke_filter = EVFILT_WRITE, ke_flags = EV_DELETE, ke_udata = None\<rparr>) s2
             else Some s2);
     Some (OK, s3)
   }"

subsection \<open>Adding, deleting, masks\<close>

definition kq_add ::
  "'c kevent reallocf \<Rightarrow> ('c, 'd) poller_kqueue \<Rightarrow> int \<Rightarrow> 'c \<Rightarrow> mask \<Rightarrow> (rc \<times> ('c, 'd) poller_kqueue) option" where
  "kq_add ra s fd client eventmask = do {
     s1 \<leftarrow> (if kq_numFds s = kq_maxFds s then do {
              let n = kq_maxFds s + 128;
              assertion (2 * n < 2 ^ 31);
              Some (s\<lparr>kq_maxFds := n, kq_results := (case ra (nat (2 * n)) (kq_results s) of None \<Rightarrow> [] | Some rs \<Rightarrow> rs)\<rparr>)
            }
            else Some s);
     setMaskInternal ra (s1\<lparr>kq_numFds := kq_numFds s1 + 1\<rparr>) fd eventmask (Some client)
   }"

definition kq_del :: "'c kevent reallocf \<Rightarrow> ('c, 'd) poller_kqueue \<Rightarrow> int \<Rightarrow> (rc \<times> ('c, 'd) poller_kqueue) option" where
  "kq_del ra s fd =
     (if kq_numFds s = 0 then Some (Fail EINVAL, s)
      else do {
        s1 \<leftarrow> room_for_two ra s;
        s2 \<leftarrow> add_change (\<lambda>ke. ke\<lparr>ke_ident := fd, ke_filter := EVFILT_READ, ke_flags := EV_DELETE\<rparr>) s1;
        s3 \<leftarrow> add_change (\<lambda>ke. ke\<lparr>ke_ident := fd, ke_filter := EVFILT_WRITE, ke_flags := EV_DELETE\<rparr>) s2;
        Some (OK, s3\<lparr>kq_numFds := kq_numFds s3 - 1\<rparr>)
      })"

definition kq_setMask :: "'c kevent reallocf \<Rightarrow> ('c, 'd) poller_kqueue \<Rightarrow> int \<Rightarrow> mask \<Rightarrow> (rc \<times> ('c, 'd) poller_kqueue) option" where
  "kq_setMask ra s fd eventmask = do {
     (n, s1) \<leftarrow> setMaskInternal ra s fd eventmask None;
     if n \<noteq> OK then Some (n, s1)
     else do {
       (n, s2) \<leftarrow> clearMaskInternal ra s1 fd eventmask;
       if n \<noteq> OK then Some (n, s2) else Some (OK, s2)
     }
   }"

definition kq_orMask :: "'c kevent reallocf \<Rightarrow> ('c, 'd) poller_kqueue \<Rightarrow> int \<Rightarrow> mask \<Rightarrow> (rc \<times> ('c, 'd) poller_kqueue) option" where
  "kq_orMask ra s fd eventmask = setMaskInternal ra s fd eventmask None"

definition kq_andMask :: "'c kevent reallocf \<Rightarrow> ('c, 'd) poller_kqueue \<Rightarrow> int \<Rightarrow> mask \<Rightarrow> (rc \<times> ('c, 'd) poller_kqueue) option" where
  "kq_andMask ra s fd eventmask = clearMaskInternal ra s fd eventmask"

subsection \<open>Events\<close>

definition kq_waitForEvents ::
  "('c, 'd) kevent_call \<Rightarrow> int \<Rightarrow> ('c, 'd) poller_kqueue \<Rightarrow> (rc \<times> ('c, 'd) poller_kqueue) option" where
  "kq_waitForEvents kevent timeout s = do {
     assertion (nat (kq_numChanges s) \<le> length (kq_changes s));
     case kevent (take (nat (kq_numChanges s)) (kq_changes s)) (2 * kq_maxFds s)
            (if timeout \<ge> 0 then Some (cdiv timeout 1000, cmod timeout 1000 * 1000000) else None) (kq_kernelQueue s) of
       (Inl e, d) \<Rightarrow> Some (Fail e, s\<lparr>kq_kernelQueue := d, kq_numResults := -1, kq_curResult := 0, kq_numChanges := 0\<rparr>)
     | (Inr rs, d) \<Rightarrow> do {
         assertion (length rs \<le> length (kq_results s));
         Some (if rs = [] then Fail EWOULDBLOCK else OK,
               s\<lparr>kq_kernelQueue := d, kq_results := rs @ drop (length rs) (kq_results s), kq_numResults := int (length rs),
                 kq_curResult := 0, kq_numChanges := 0\<rparr>)
       }
   }"

definition kq_event :: "'c kevent \<Rightarrow> 'c poll_event" where
  "kq_event ke = \<lparr>ev_fd = ke_ident ke,
     ev_revents = (if ke_filter ke = EVFILT_READ then POLLIN else if ke_filter ke = EVFILT_WRITE then POLLOUT else POLLERR),
     ev_client = ke_udata ke\<rparr>"

definition kq_getNextEvent :: "('c, 'd) poller_kqueue \<Rightarrow> (rc \<times> 'c poll_event option \<times> ('c, 'd) poller_kqueue) option" where
  "kq_getNextEvent s =
     (if kq_curResult s = kq_numResults s then Some (Fail EWOULDBLOCK, None, s)
      else do {
        ke \<leftarrow> rdi (kq_results s) (kq_curResult s);
        Some (OK, Some (kq_event ke), s\<lparr>kq_curResult := kq_curResult s + 1\<rparr>)
      })"

partial_function (option) kq_dispatch ::
  "('c, ('c, 'd) poller_kqueue \<times> 'x) notify \<Rightarrow> ('c, 'd) poller_kqueue \<times> 'x \<Rightarrow> (('c, 'd) poller_kqueue \<times> 'x) option" where
  "kq_dispatch notify sx = do {
     (r, e, s1) \<leftarrow> kq_getNextEvent (fst sx);
     case e of
       None \<Rightarrow> Some (s1, snd sx)
     | Some ev \<Rightarrow> (case ev_client ev of
         None \<Rightarrow> kq_dispatch notify (s1, snd sx)
       | Some c \<Rightarrow> do { (err, sx1) \<leftarrow> notify c ev (s1, snd sx); kq_dispatch notify sx1 })
   }"

definition kq_waitAndDispatchEvents ::
  "('c, 'd) kevent_call \<Rightarrow> ('c, ('c, 'd) poller_kqueue \<times> 'x) notify \<Rightarrow> int \<Rightarrow> ('c, 'd) poller_kqueue \<Rightarrow> 'x \<Rightarrow>
   (rc \<times> ('c, 'd) poller_kqueue \<times> 'x) option" where
  "kq_waitAndDispatchEvents kevent notify timeout s x = do {
     (r, s1) \<leftarrow> kq_waitForEvents kevent timeout s;
     if r \<noteq> OK then Some (Fail EWOULDBLOCK, s1, x)
     else do { sx \<leftarrow> kq_dispatch notify (s1, x); Some (OK, sx) }
   }"

subsection \<open>Invariant and abstraction\<close>

text \<open>
  The registrations of the kernel queue are keyed by descriptor and filter. \<open>ke_apply\<close> is what \<open>kevent\<close>
  documents for one change: EV\_DELETE removes the event, EV\_ADD adds it or modifies the existing one.
  \<open>kq_reg\<close> are the registrations once the pending changes are handed over.
\<close>

definition ke_apply :: "(int \<times> int \<Rightarrow> 'c option option) \<Rightarrow> 'c kevent \<Rightarrow> (int \<times> int \<Rightarrow> 'c option option)" where
  "ke_apply R ke =
     (if ke_flags ke AND EV_DELETE \<noteq> 0 then R((ke_ident ke, ke_filter ke) := None)
      else if ke_flags ke AND EV_ADD \<noteq> 0 then R((ke_ident ke, ke_filter ke) \<mapsto> ke_udata ke) else R)"

definition kq_pending :: "('c, 'd) poller_kqueue \<Rightarrow> 'c kevent list" where
  "kq_pending s = take (nat (kq_numChanges s)) (kq_changes s)"

definition kq_reg :: "('d \<Rightarrow> int \<times> int \<Rightarrow> 'c option option) \<Rightarrow> ('c, 'd) poller_kqueue \<Rightarrow> int \<times> int \<Rightarrow> 'c option option" where
  "kq_reg registered s = foldl ke_apply (registered (kq_kernelQueue s)) (kq_pending s)"

definition kq_inv :: "('c, 'd) poller_kqueue \<Rightarrow> bool" where
  "kq_inv s =
     (int (length (kq_changes s)) = kq_maxChanges s \<and> 0 \<le> kq_numChanges s \<and> kq_numChanges s \<le> kq_maxChanges s \<and>
      int (length (kq_results s)) = 2 * kq_maxFds s \<and> 0 \<le> kq_numFds s \<and> kq_numFds s \<le> kq_maxFds s)"

text \<open>The effect that the calls should have, at once.\<close>

definition reg_set :: "int \<Rightarrow> mask \<Rightarrow> 'c option \<Rightarrow> (int \<times> int \<Rightarrow> 'c option option) \<Rightarrow> (int \<times> int \<Rightarrow> 'c option option)" where
  "reg_set fd m u R = (\<lambda>(i, f). if i = fd \<and> (f = EVFILT_READ \<and> has m POLLIN \<or> f = EVFILT_WRITE \<and> has m POLLOUT) then Some u else R (i, f))"

definition reg_clear :: "int \<Rightarrow> mask \<Rightarrow> (int \<times> int \<Rightarrow> 'c option option) \<Rightarrow> (int \<times> int \<Rightarrow> 'c option option)" where
  "reg_clear fd m R = (\<lambda>(i, f). if i = fd \<and> (f = EVFILT_READ \<and> \<not> has m POLLIN \<or> f = EVFILT_WRITE \<and> \<not> has m POLLOUT) then None else R (i, f))"

fun kq_spec ::
  "int \<times> (int \<times> int \<Rightarrow> 'c option option) \<Rightarrow> (int, 'c, mask) poll_op \<Rightarrow> int \<times> (int \<times> int \<Rightarrow> 'c option option)" where
  "kq_spec (n, R) (PAdd fd c m) = (n + 1, reg_set fd m (Some c) R)"
| "kq_spec (n, R) (PDel fd) = (if n = 0 then (n, R) else (n - 1, reg_clear fd 0 R))"
| "kq_spec (n, R) (PSet fd m) = (n, reg_clear fd m (reg_set fd m None R))"
| "kq_spec (n, R) (POr fd m) = (n, reg_set fd m None R)"
| "kq_spec (n, R) (PAnd fd m) = (n, reg_clear fd m R)"

text \<open>
  \<open>kevent\<close>: if no change deletes an event that is not registered, it applies the changes in order and
  returns registered events with their client data, no more than it is told.
\<close>

fun ke_valid :: "(int \<times> int \<Rightarrow> 'c option option) \<Rightarrow> 'c kevent list \<Rightarrow> bool" where
  "ke_valid R [] = True"
| "ke_valid R (ke # kes) =
     ((ke_flags ke AND EV_DELETE \<noteq> 0 \<longrightarrow> R (ke_ident ke, ke_filter ke) \<noteq> None) \<and> ke_valid (ke_apply R ke) kes)"

definition kevent_ok :: "('c, 'd) kevent_call \<Rightarrow> ('d \<Rightarrow> int \<times> int \<Rightarrow> 'c option option) \<Rightarrow> bool" where
  "kevent_ok kevent registered =
     (\<forall>cs n t d rs d'. kevent cs n t d = (Inr rs, d') \<and> ke_valid (registered d) cs \<longrightarrow>
        registered d' = foldl ke_apply (registered d) cs \<and> length rs \<le> nat n \<and>
        (\<forall>ke \<in> set rs. registered d' (ke_ident ke, ke_filter ke) = Some (ke_udata ke)))"

fun kq_run :: "'c kevent reallocf \<Rightarrow> ('c, 'd) poller_kqueue \<Rightarrow> (int, 'c, mask) poll_op list \<Rightarrow> ('c, 'd) poller_kqueue option" where
  "kq_run ra s [] = Some s"
| "kq_run ra s (oper # ops) = do {
     (r, s') \<leftarrow> poll_step (kq_add ra) (kq_del ra) (kq_setMask ra) (kq_orMask ra) (kq_andMask ra) s oper;
     kq_run ra s' ops
   }"

end
