(* ===== verification/Poller_kqueue_proofs.thy ===== *)
theory Poller_kqueue_proofs
  imports Poller_kqueue
begin

unbundle bit_operations_syntax

text \<open>
  The back end on kqueue keeps its array of changes in bounds, its batches of changes amount to the
  effect of the calls one at a time, and it delivers the events of a wait in order.
\<close>

subsection \<open>The array of changes\<close>

text \<open>
  What appending changes does: \<open>n\<close> more are there, the kernel's registrations have the changes applied, and
  everything else is as it was.
\<close>

definition kq_same :: "('c, 'd) poller_kqueue \<Rightarrow> ('c, 'd) poller_kqueue \<Rightarrow> bool" where
  "kq_same s s' = (kq_kernelQueue s' = kq_kernelQueue s \<and> kq_results s' = kq_results s \<and> kq_numResults s' = kq_numResults s \<and>
     kq_numFds s' = kq_numFds s \<and> kq_maxFds s' = kq_maxFds s \<and> kq_curResult s' = kq_curResult s)"

lemma kq_same_refl: "kq_same s s" by (simp add: kq_same_def)

lemma kq_same_trans: "kq_same s t \<Longrightarrow> kq_same t u \<Longrightarrow> kq_same s u" by (simp add: kq_same_def)

lemma room_for_two_lemma:
  assumes inv: "kq_inv s" and ra: "never_fails ra" and b: "kq_maxChanges s + 128 < 2 ^ 31"
  shows "\<exists>s'. room_for_two ra s = Some s' \<and> kq_inv s' \<and> kq_same s s' \<and> kq_pending s' = kq_pending s \<and> kq_numChanges s' = kq_numChanges s \<and>
     kq_numChanges s' + 2 \<le> kq_maxChanges s' \<and> kq_maxChanges s' \<le> kq_maxChanges s + 128"
proof (cases "kq_numChanges s + 2 > kq_maxChanges s")
  case False
  then show ?thesis using inv kq_same_refl by (simp add: room_for_two_def)
next
  case True
  have l: "length (kq_changes s) \<le> nat (kq_maxChanges s + 128)" "0 \<le> kq_maxChanges s" using inv by (auto simp: kq_inv_def)
  obtain cs where cs: "ra (nat (kq_maxChanges s + 128)) (kq_changes s) = Some cs" "length cs = nat (kq_maxChanges s + 128)"
    "\<And>i. i < length (kq_changes s) \<Longrightarrow> cs ! i = kq_changes s ! i" using never_failsD[OF ra l(1)] by metis
  let ?s = "s\<lparr>kq_maxChanges := kq_maxChanges s + 128, kq_changes := cs\<rparr>"
  have "nat (kq_numChanges s) \<le> length (kq_changes s)" using inv by (auto simp: kq_inv_def)
  then have "take (nat (kq_numChanges s)) cs = take (nat (kq_numChanges s)) (kq_changes s)"
    using cs(2,3) l by (intro nth_equalityI) auto
  moreover have "room_for_two ra s = Some ?s" using True b cs(1) by (simp add: room_for_two_def Let_def)
  moreover have "kq_inv ?s" using inv cs(2) l(2) by (auto simp: kq_inv_def)
  moreover have "kq_numChanges s + 2 \<le> kq_maxChanges s + 128" using inv by (simp add: kq_inv_def)
  ultimately show ?thesis by (auto simp: kq_same_def kq_pending_def)
qed

lemma add_change_lemma:
  assumes inv: "kq_inv s" and room: "kq_numChanges s < kq_maxChanges s"
  shows "\<exists>s' ke. add_change g s = Some s' \<and> kq_inv s' \<and> kq_same s s' \<and> kq_pending s' = kq_pending s @ [g ke] \<and>
     kq_numChanges s' = kq_numChanges s + 1 \<and> kq_maxChanges s' = kq_maxChanges s"
proof -
  define k where "k = nat (kq_numChanges s)"
  have k: "kq_numChanges s = int k" "k < length (kq_changes s)" using inv room by (auto simp: kq_inv_def k_def)
  let ?s = "s\<lparr>kq_changes := (kq_changes s)[k := g (kq_changes s ! k)], kq_numChanges := int k + 1\<rparr>"
  have "nat (int k + 1) = Suc k" by simp
  then have "kq_pending ?s = kq_pending s @ [g (kq_changes s ! k)]"
    using k by (simp add: kq_pending_def take_Suc_conv_app_nth)
  moreover have "add_change g s = Some ?s" using k by (simp add: add_change_def rdi_def wri_def)
  moreover have "kq_inv ?s" using inv room k by (simp add: kq_inv_def)
  ultimately show ?thesis using k(1) by (intro exI[of _ ?s] exI[of _ "kq_changes s ! k"]) (simp add: kq_same_def)
qed

text \<open>Two changes at most, each under its condition.\<close>

definition ke_effect :: "('c kevent \<Rightarrow> 'c kevent) \<Rightarrow> ((int \<times> int \<Rightarrow> 'c option option) \<Rightarrow> (int \<times> int \<Rightarrow> 'c option option)) \<Rightarrow> bool" where
  "ke_effect g F = (\<forall>R ke. ke_apply R (g ke) = F R)"

lemma two_changes_lemma:
  assumes inv: "kq_inv s" and ra: "never_fails ra" and b: "kq_maxChanges s + 128 < 2 ^ 31"
    and g: "ke_effect g F" and h: "ke_effect h G"
  shows "\<exists>s'. do { s1 \<leftarrow> room_for_two ra s; s2 \<leftarrow> (if p then add_change g s1 else Some s1);
                   s3 \<leftarrow> (if q then add_change h s2 else Some s2); Some (OK, s3) } = Some (OK, s') \<and> kq_inv s' \<and> kq_same s s' \<and>
     kq_reg registered s' = (if q then G else id) ((if p then F else id) (kq_reg registered s)) \<and> kq_maxChanges s' \<le> kq_maxChanges s + 128"
proof -
  obtain s1 where s1: "room_for_two ra s = Some s1" "kq_inv s1" "kq_same s s1" "kq_pending s1 = kq_pending s"
    "kq_numChanges s1 + 2 \<le> kq_maxChanges s1" "kq_maxChanges s1 \<le> kq_maxChanges s + 128"
    using room_for_two_lemma[OF inv ra b] by blast
  have "\<exists>s2. (if p then add_change g s1 else Some s1) = Some s2 \<and> kq_inv s2 \<and> kq_same s1 s2 \<and>
      kq_reg registered s2 = (if p then F else id) (kq_reg registered s1) \<and> kq_numChanges s2 + 1 \<le> kq_maxChanges s2 \<and> kq_maxChanges s2 = kq_maxChanges s1"
  proof (cases p)
    case True
    then show ?thesis using add_change_lemma[OF s1(2), of g] s1(5) g by (auto simp: kq_reg_def kq_same_def ke_effect_def)
  qed (use s1 kq_same_refl in auto)
  then obtain s2 where s2: "(if p then add_change g s1 else Some s1) = Some s2" "kq_inv s2" "kq_same s1 s2"
    "kq_reg registered s2 = (if p then F else id) (kq_reg registered s1)" "kq_numChanges s2 + 1 \<le> kq_maxChanges s2" "kq_maxChanges s2 = kq_maxChanges s1"
    by blast
  have "\<exists>s3. (if q then add_change h s2 else Some s2) = Some s3 \<and> kq_inv s3 \<and> kq_same s2 s3 \<and>
      kq_reg registered s3 = (if q then G else id) (kq_reg registered s2) \<and> kq_maxChanges s3 = kq_maxChanges s2"
  proof (cases q)
    case True
    then show ?thesis using add_change_lemma[OF s2(2), of h] s2(5) h by (auto simp: kq_reg_def kq_same_def ke_effect_def)
  qed (use s2 kq_same_refl in auto)
  then obtain s3 where s3: "(if q then add_change h s2 else Some s2) = Some s3" "kq_inv s3" "kq_same s2 s3"
    "kq_reg registered s3 = (if q then G else id) (kq_reg registered s2)" "kq_maxChanges s3 = kq_maxChanges s2" by blast
  have "kq_reg registered s1 = kq_reg registered s" using s1(3,4) by (simp add: kq_reg_def kq_same_def)
  then show ?thesis
    using s1(1,3,6) s2(1,3,4,6) s3 kq_same_trans by (intro exI[of _ s3]) (auto intro: kq_same_trans)
qed

subsection \<open>Masks\<close>

lemma ke_add_effect:
  "ke_effect (\<lambda>ke. \<lparr>ke_ident = fd, ke_filter = f, ke_flags = EV_ADD OR EV_ENABLE, ke_udata = u\<rparr>) (\<lambda>R. R((fd, f) \<mapsto> u))"
  by (simp add: ke_effect_def ke_apply_def EV_ADD_def EV_DELETE_def EV_ENABLE_def)

lemma ke_delete_effect:
  "ke_effect (\<lambda>ke. \<lparr>ke_ident = fd, ke_filter = f, ke_flags = EV_DELETE, ke_udata = u\<rparr>) (\<lambda>R. R((fd, f) := None))"
  "ke_effect (\<lambda>ke. ke\<lparr>ke_ident := fd, ke_filter := f, ke_flags := EV_DELETE\<rparr>) (\<lambda>R. R((fd, f) := None))"
  by (simp_all add: ke_effect_def ke_apply_def EV_DELETE_def)

lemma filters: "EVFILT_READ \<noteq> EVFILT_WRITE" by (simp add: EVFILT_READ_def EVFILT_WRITE_def)

lemma reg_set_upd:
  "(if has m POLLOUT then \<lambda>R. R((fd, EVFILT_WRITE) \<mapsto> u) else id) ((if has m POLLIN then \<lambda>R. R((fd, EVFILT_READ) \<mapsto> u) else id) R) =
   reg_set fd m u R"
  using filters by (auto simp: reg_set_def fun_eq_iff)

lemma reg_clear_upd:
  "(if \<not> has m POLLOUT then \<lambda>R. R((fd, EVFILT_WRITE) := None) else id) ((if \<not> has m POLLIN then \<lambda>R. R((fd, EVFILT_READ) := None) else id) R) =
   reg_clear fd m R"
  using filters by (auto simp: reg_clear_def fun_eq_iff)

lemma setMaskInternal_lemma:
  assumes "kq_inv s" "never_fails ra" "kq_maxChanges s + 128 < 2 ^ 31"
  shows "\<exists>s'. setMaskInternal ra s fd m u = Some (OK, s') \<and> kq_inv s' \<and> kq_same s s' \<and>
     kq_reg registered s' = reg_set fd m u (kq_reg registered s) \<and> kq_maxChanges s' \<le> kq_maxChanges s + 128"
  using two_changes_lemma[OF assms ke_add_effect ke_add_effect, of "has m POLLIN" fd EVFILT_READ u "has m POLLOUT" fd EVFILT_WRITE u registered]
  unfolding reg_set_upd by (simp add: setMaskInternal_def)

lemma clearMaskInternal_lemma:
  assumes "kq_inv s" "never_fails ra" "kq_maxChanges s + 128 < 2 ^ 31"
  shows "\<exists>s'. clearMaskInternal ra s fd m = Some (OK, s') \<and> kq_inv s' \<and> kq_same s s' \<and>
     kq_reg registered s' = reg_clear fd m (kq_reg registered s) \<and> kq_maxChanges s' \<le> kq_maxChanges s + 128"
  using two_changes_lemma[OF assms ke_delete_effect(1) ke_delete_effect(1), of "\<not> has m POLLIN" fd EVFILT_READ None "\<not> has m POLLOUT" fd EVFILT_WRITE None registered]
  unfolding reg_clear_upd by (simp add: clearMaskInternal_def)

subsection \<open>Sequences of calls\<close>

definition kq_view :: "('d \<Rightarrow> int \<times> int \<Rightarrow> 'c option option) \<Rightarrow> ('c, 'd) poller_kqueue \<Rightarrow> int \<times> (int \<times> int \<Rightarrow> 'c option option)" where
  "kq_view registered s = (kq_numFds s, kq_reg registered s)"

text \<open>One call, from a state with room to grow.\<close>

definition grows :: "('c, 'd) poller_kqueue \<Rightarrow> ('c, 'd) poller_kqueue \<Rightarrow> bool" where
  "grows s s' = (kq_inv s' \<and> kq_kernelQueue s' = kq_kernelQueue s \<and> kq_maxChanges s' \<le> kq_maxChanges s + 256 \<and> kq_maxFds s' \<le> kq_maxFds s + 128)"

lemma kq_add_lemma:
  assumes inv: "kq_inv s" and ra: "never_fails ra" and b: "kq_maxChanges s + 256 < 2 ^ 31" "2 * (kq_maxFds s + 128) < 2 ^ 31"
  shows "\<exists>s'. kq_add ra s fd c m = Some (OK, s') \<and> grows s s' \<and> kq_view registered s' = kq_spec (kq_view registered s) (PAdd fd c m)"
proof -
  have "\<exists>s1. (if kq_numFds s = kq_maxFds s then do {
              let n = kq_maxFds s + 128;
              assertion (2 * n < 2 ^ 31);
              Some (s\<lparr>kq_maxFds := n, kq_results := (case ra (nat (2 * n)) (kq_results s) of None \<Rightarrow> [] | Some rs \<Rightarrow> rs)\<rparr>)
            } else Some s) = Some s1 \<and> kq_inv (s1\<lparr>kq_numFds := kq_numFds s1 + 1\<rparr>) \<and> kq_reg registered s1 = kq_reg registered s \<and>
      kq_numFds s1 = kq_numFds s \<and> kq_maxChanges s1 = kq_maxChanges s \<and> kq_maxFds s1 \<le> kq_maxFds s + 128 \<and> kq_kernelQueue s1 = kq_kernelQueue s"
  proof (cases "kq_numFds s = kq_maxFds s")
    case True
    have l: "length (kq_results s) \<le> nat (2 * (kq_maxFds s + 128))" "0 \<le> kq_maxFds s" using inv by (auto simp: kq_inv_def)
    obtain rs where "ra (nat (2 * (kq_maxFds s + 128))) (kq_results s) = Some rs" "length rs = nat (2 * (kq_maxFds s + 128))"
      using never_failsD[OF ra l(1)] by metis
    then show ?thesis using True inv b(2) l(2) by (simp add: kq_inv_def kq_reg_def kq_pending_def)
  next
    case False
    then show ?thesis using inv by (simp add: kq_inv_def)
  qed
  then obtain s1 where s1: "(if kq_numFds s = kq_maxFds s then do {
              let n = kq_maxFds s + 128;
              assertion (2 * n < 2 ^ 31);
              Some (s\<lparr>kq_maxFds := n, kq_results := (case ra (nat (2 * n)) (kq_results s) of None \<Rightarrow> [] | Some rs \<Rightarrow> rs)\<rparr>)
            } else Some s) = Some s1" "kq_inv (s1\<lparr>kq_numFds := kq_numFds s1 + 1\<rparr>)" "kq_reg registered s1 = kq_reg registered s"
      "kq_numFds s1 = kq_numFds s" "kq_maxChanges s1 = kq_maxChanges s" "kq_maxFds s1 \<le> kq_maxFds s + 128" "kq_kernelQueue s1 = kq_kernelQueue s"
    by blast
  let ?s1 = "s1\<lparr>kq_numFds := kq_numFds s1 + 1\<rparr>"
  have "kq_maxChanges ?s1 + 128 < 2 ^ 31" using s1(5) b(1) by simp
  from setMaskInternal_lemma[OF s1(2) ra this] obtain s' where s': "setMaskInternal ra ?s1 fd m (Some c) = Some (OK, s')" "kq_inv s'"
    "kq_same ?s1 s'" "kq_reg registered s' = reg_set fd m (Some c) (kq_reg registered ?s1)" "kq_maxChanges s' \<le> kq_maxChanges ?s1 + 128" by blast
  have "kq_add ra s fd c m = Some (OK, s')" unfolding kq_add_def s1(1) using s'(1) by simp
  moreover have "kq_reg registered ?s1 = kq_reg registered s1" by (simp add: kq_reg_def kq_pending_def)
  ultimately show ?thesis using s' s1(3-7) by (auto simp: grows_def kq_view_def kq_same_def)
qed

lemma kq_del_lemma:
  assumes inv: "kq_inv s" and ra: "never_fails ra" and b: "kq_maxChanges s + 256 < 2 ^ 31"
  shows "\<exists>r s'. kq_del ra s fd = Some (r, s') \<and> grows s s' \<and> kq_view registered s' = kq_spec (kq_view registered s) (PDel fd)"
proof (cases "kq_numFds s = 0")
  case True
  then show ?thesis using inv by (simp add: kq_del_def grows_def kq_view_def)
next
  case False
  have b': "kq_maxChanges s + 128 < 2 ^ 31" using b by simp
  obtain s' where s': "do { s1 \<leftarrow> room_for_two ra s; s2 \<leftarrow> (if True then add_change (\<lambda>ke. ke\<lparr>ke_ident := fd, ke_filter := EVFILT_READ, ke_flags := EV_DELETE\<rparr>) s1 else Some s1);
      s3 \<leftarrow> (if True then add_change (\<lambda>ke. ke\<lparr>ke_ident := fd, ke_filter := EVFILT_WRITE, ke_flags := EV_DELETE\<rparr>) s2 else Some s2); Some (OK, s3) } = Some (OK, s')"
    "kq_inv s'" "kq_same s s'" "kq_reg registered s' = ((kq_reg registered s)((fd, EVFILT_READ) := None))((fd, EVFILT_WRITE) := None)"
    "kq_maxChanges s' \<le> kq_maxChanges s + 128"
    using two_changes_lemma[OF inv ra b' ke_delete_effect(2)[where fd = fd and f = EVFILT_READ] ke_delete_effect(2)[where fd = fd and f = EVFILT_WRITE],
      of True True registered] by auto
  have "kq_del ra s fd = Some (OK, s'\<lparr>kq_numFds := kq_numFds s' - 1\<rparr>)"
    using s'(1) False by (auto simp: kq_del_def bind_eq_Some_conv)
  moreover have "kq_inv (s'\<lparr>kq_numFds := kq_numFds s' - 1\<rparr>)" using s'(2,3) False inv by (auto simp: kq_inv_def kq_same_def)
  moreover have "reg_clear fd 0 (kq_reg registered s) = kq_reg registered s'"
    unfolding s'(4) reg_clear_upd[symmetric] by (simp add: has_def)
  moreover have "kq_reg registered (s'\<lparr>kq_numFds := kq_numFds s' - 1\<rparr>) = kq_reg registered s'" by (simp add: kq_reg_def kq_pending_def)
  ultimately show ?thesis using s'(3,5) False by (simp add: grows_def kq_view_def kq_same_def)
qed

lemma kq_setMask_lemma:
  assumes inv: "kq_inv s" and ra: "never_fails ra" and b: "kq_maxChanges s + 256 < 2 ^ 31"
  shows "\<exists>s'. kq_setMask ra s fd m = Some (OK, s') \<and> grows s s' \<and> kq_view registered s' = kq_spec (kq_view registered s) (PSet fd m)"
proof -
  have b1: "kq_maxChanges s + 128 < 2 ^ 31" using b by simp
  obtain s1 where s1: "setMaskInternal ra s fd m None = Some (OK, s1)" "kq_inv s1" "kq_same s s1"
    "kq_reg registered s1 = reg_set fd m None (kq_reg registered s)" "kq_maxChanges s1 \<le> kq_maxChanges s + 128"
    using setMaskInternal_lemma[OF inv ra b1] by blast
  have b2: "kq_maxChanges s1 + 128 < 2 ^ 31" using b s1(5) by simp
  obtain s2 where "clearMaskInternal ra s1 fd m = Some (OK, s2)" "kq_inv s2" "kq_same s1 s2"
    "kq_reg registered s2 = reg_clear fd m (kq_reg registered s1)" "kq_maxChanges s2 \<le> kq_maxChanges s1 + 128"
    using clearMaskInternal_lemma[OF s1(2) ra b2] by blast
  with s1 show ?thesis by (auto simp: kq_setMask_def grows_def kq_view_def kq_same_def)
qed

lemma kq_step_lemma:
  assumes "kq_inv s" "never_fails ra" "kq_maxChanges s + 256 < 2 ^ 31" "2 * (kq_maxFds s + 128) < 2 ^ 31"
  shows "\<exists>r s'. poll_step (kq_add ra) (kq_del ra) (kq_setMask ra) (kq_orMask ra) (kq_andMask ra) s oper = Some (r, s') \<and> grows s s' \<and>
     kq_view registered s' = kq_spec (kq_view registered s) oper"
proof -
  have b: "kq_maxChanges s + 128 < 2 ^ 31" using assms(3) by simp
  show ?thesis
  proof (cases oper)
    case (PAdd fd c m)
    then show ?thesis using kq_add_lemma[OF assms, of fd c m registered] by auto
  next
    case (PDel fd)
    then show ?thesis using kq_del_lemma[OF assms(1-3), of fd registered] by auto
  next
    case (PSet fd m)
    then show ?thesis using kq_setMask_lemma[OF assms(1-3), of fd m registered] by auto
  next
    case (POr fd m)
    then show ?thesis using setMaskInternal_lemma[OF assms(1,2) b, of fd m None registered]
      by (auto simp: kq_orMask_def grows_def kq_view_def kq_same_def)
  next
    case (PAnd fd m)
    then show ?thesis using clearMaskInternal_lemma[OF assms(1,2) b, of fd m registered]
      by (auto simp: kq_andMask_def grows_def kq_view_def kq_same_def)
  qed
qed

lemma kq_run_lemma:
  "kq_inv s \<Longrightarrow> never_fails ra \<Longrightarrow> kq_maxChanges s + 256 * int (length ops) < 2 ^ 31 \<Longrightarrow>
   2 * (kq_maxFds s + 128 * int (length ops)) < 2 ^ 31 \<Longrightarrow>
   \<exists>s'. kq_run ra s ops = Some s' \<and> kq_inv s' \<and> kq_kernelQueue s' = kq_kernelQueue s \<and>
        kq_view registered s' = foldl kq_spec (kq_view registered s) ops"
proof (induction ops arbitrary: s)
  case (Cons oper ops)
  have b: "kq_maxChanges s + 256 < 2 ^ 31" "2 * (kq_maxFds s + 128) < 2 ^ 31" using Cons.prems(3,4) by simp_all
  obtain r s1 where s1: "poll_step (kq_add ra) (kq_del ra) (kq_setMask ra) (kq_orMask ra) (kq_andMask ra) s oper = Some (r, s1)" "grows s s1"
    "kq_view registered s1 = kq_spec (kq_view registered s) oper"
    using kq_step_lemma[OF Cons.prems(1,2) b] by blast
  have n: "kq_inv s1" "kq_maxChanges s1 + 256 * int (length ops) < 2 ^ 31" "2 * (kq_maxFds s1 + 128 * int (length ops)) < 2 ^ 31"
    using s1(2) Cons.prems(3,4) by (auto simp: grows_def)
  from Cons.IH[OF n(1) Cons.prems(2) n(2,3)] s1 show ?case by (auto simp: grows_def)
qed simp

subsection \<open>Delivery\<close>

definition kq_ready :: "('c, 'd) poller_kqueue \<Rightarrow> 'c poll_event list" where
  "kq_ready s = map kq_event (drop (nat (kq_curResult s)) (take (nat (kq_numResults s)) (kq_results s)))"

definition kq_ev_inv :: "('c, 'd) poller_kqueue \<Rightarrow> bool" where
  "kq_ev_inv s = (kq_inv s \<and> 0 \<le> kq_curResult s \<and> kq_curResult s \<le> kq_numResults s \<and> kq_numResults s \<le> int (length (kq_results s)))"

interpretation kqe: event_queue kq_getNextEvent kq_ready kq_ev_inv
proof unfold_locales
  fix s :: "('c, 'd) poller_kqueue" and e es
  assume inv: "kq_ev_inv s" and r: "kq_ready s = e # es"
  define k n where "k = nat (kq_curResult s)" and "n = nat (kq_numResults s)"
  have kn: "kq_curResult s = int k" "kq_numResults s = int n" "n \<le> length (kq_results s)" "k \<le> n" using inv by (auto simp: kq_ev_inv_def k_def n_def)
  have lt: "k < n" using r kn by (cases "k < n") (auto simp: kq_ready_def)
  have d: "drop k (take n (kq_results s)) = kq_results s ! k # drop (Suc k) (take n (kq_results s))"
    using lt kn(3) by (subst Cons_nth_drop_Suc[symmetric]) auto
  have "nat (int k + 1) = Suc k" by simp
  then show "\<exists>s'. kq_getNextEvent s = Some (OK, Some e, s') \<and> kq_ev_inv s' \<and> kq_ready s' = es"
    using r d lt kn inv by (auto simp: kq_getNextEvent_def kq_ready_def kq_ev_inv_def kq_inv_def rdi_def)
next
  fix s :: "('c, 'd) poller_kqueue"
  assume inv: "kq_ev_inv s" and r: "kq_ready s = []"
  then have "kq_curResult s = kq_numResults s" by (auto simp: kq_ready_def kq_ev_inv_def)
  then show "\<exists>s'. kq_getNextEvent s = Some (Fail EWOULDBLOCK, None, s') \<and> kq_ev_inv s' \<and> kq_ready s' = []"
    using inv r by (simp add: kq_getNextEvent_def)
qed

abbreviation kevent_at :: "('c, 'd) kevent_call \<Rightarrow> int \<Rightarrow> ('c, 'd) poller_kqueue \<Rightarrow> (errno + 'c kevent list) \<times> 'd" where
  "kevent_at kevent t s \<equiv> kevent (kq_pending s) (2 * kq_maxFds s) (if t \<ge> 0 then Some (cdiv t 1000, cmod t 1000 * 1000000) else None) (kq_kernelQueue s)"

lemma kq_wait_lemma:
  assumes inv: "kq_inv s" and ok: "kevent_ok kevent registered" and v: "ke_valid (registered (kq_kernelQueue s)) (kq_pending s)"
    and os: "kevent_at kevent t s = (Inr rs, d')"
  shows "\<exists>s'. kq_waitForEvents kevent t s = Some (if rs = [] then Fail EWOULDBLOCK else OK, s') \<and> kq_ev_inv s' \<and> kq_pending s' = [] \<and>
     registered (kq_kernelQueue s') = kq_reg registered s \<and> kq_ready s' = map kq_event rs \<and>
     (\<forall>ke \<in> set rs. kq_reg registered s (ke_ident ke, ke_filter ke) = Some (ke_udata ke))"
proof -
  have k: "registered d' = kq_reg registered s" "length rs \<le> nat (2 * kq_maxFds s)"
    "\<forall>ke \<in> set rs. registered d' (ke_ident ke, ke_filter ke) = Some (ke_udata ke)"
    using ok os v unfolding kevent_ok_def kq_reg_def by blast+
  have l: "length rs \<le> length (kq_results s)" "nat (kq_numChanges s) \<le> length (kq_changes s)" using k(2) inv by (auto simp: kq_inv_def)
  let ?s = "s\<lparr>kq_kernelQueue := d', kq_results := rs @ drop (length rs) (kq_results s), kq_numResults := int (length rs),
                 kq_curResult := 0, kq_numChanges := 0\<rparr>"
  have "kq_waitForEvents kevent t s = Some (if rs = [] then Fail EWOULDBLOCK else OK, ?s)"
    using os l by (simp add: kq_waitForEvents_def kq_pending_def)
  moreover have "kq_ev_inv ?s" using inv l by (auto simp: kq_ev_inv_def kq_inv_def)
  ultimately show ?thesis using k by (auto simp: kq_pending_def kq_ready_def)
qed

text \<open>A negative count of results is never reached.\<close>

lemma stale_runs_off:
  "kq_numResults s < 0 \<Longrightarrow> 0 \<le> kq_curResult s \<Longrightarrow> n = Suc (length (kq_results s) - nat (kq_curResult s)) \<Longrightarrow>
   next_events kq_getNextEvent n s = None"
proof (induction n arbitrary: s)
  case (Suc n)
  have ne: "kq_curResult s \<noteq> kq_numResults s" using Suc.prems by simp
  show ?case
  proof (cases "nat (kq_curResult s) < length (kq_results s)")
    case True
    then have "rdi (kq_results s) (kq_curResult s) = Some (kq_results s ! nat (kq_curResult s))" using Suc.prems(2) by (simp add: rdi_def)
    moreover have "n = Suc (length (kq_results s) - nat (kq_curResult s + 1))" using Suc.prems(2,3) True by (simp add: nat_add_distrib)
    then have "next_events kq_getNextEvent n (s\<lparr>kq_curResult := kq_curResult s + 1\<rparr>) = None"
      by (intro Suc.IH) (use Suc.prems in simp_all)
    ultimately show ?thesis using ne by (simp add: kq_getNextEvent_def[of s])
  next
    case False
    then have "rdi (kq_results s) (kq_curResult s) = None" by (simp add: rdi_def rd_def)
    then show ?thesis using ne by (simp add: kq_getNextEvent_def[of s])
  qed
qed simp

end
