(* ===== verification/Poller_kqueue_props.thy ===== *)
theory Poller_kqueue_props
  imports Poller_kqueue_proofs
begin

unbundle bit_operations_syntax

text \<open>The properties of the back end on kqueue, and the small kernel queue that the witnesses use.\<close>

subsection \<open>A kernel queue\<close>

text \<open>It keeps the registrations and reports descriptor 5 as readable if that is registered.\<close>

definition kev5 :: "(nat, int \<times> int \<Rightarrow> nat option option) kevent_call" where
  "kev5 cs n t R =
     (let R' = foldl ke_apply R cs in
      (Inr (take (nat n) (case R' (5, EVFILT_READ) of
           None \<Rightarrow> []
         | Some u \<Rightarrow> [\<lparr>ke_ident = 5, ke_filter = EVFILT_READ, ke_flags = 0, ke_udata = u\<rparr>])), R'))"

definition kev_new :: "nat kevent" where
  "kev_new = \<lparr>ke_ident = 0, ke_filter = 0, ke_flags = 0, ke_udata = None\<rparr>"

definition kq0 :: "(nat, int \<times> int \<Rightarrow> nat option option) poller_kqueue" where
  "kq0 = snd (kq_init (Inr Map.empty) \<lparr>kq_kernelQueue = Map.empty, kq_changes = [], kq_results = [], kq_numChanges = 0,
     kq_maxChanges = 0, kq_numResults = 0, kq_numFds = 0, kq_maxFds = 0, kq_curResult = 0\<rparr>)"

lemma kev5: "kevent_ok kev5 id"
  unfolding kevent_ok_def by (auto simp: kev5_def Let_def take_Cons' split: option.splits if_splits)

lemma kq0: "kq_inv kq0" "kq_reg id kq0 = Map.empty" "kq_numFds kq0 = 0" "kq_maxFds kq0 = 0" "kq_maxChanges kq0 = 0"
  by (simp_all add: kq0_def kq_init_def kq_inv_def kq_reg_def kq_pending_def)

subsection \<open>Properties\<close>

text \<open>
  C28. The changes that the kqueue back end collects amount to the calls: any sequence of \<open>add\<close>, \<open>del\<close>, \<open>setMask\<close>,
  \<open>orMask\<close> and \<open>andMask\<close>, in any order, runs without leaving its arrays while their sizes fit an int, and
  once the changes are handed over the kernel has exactly the registrations that applying each call to the
  kernel at once would give, with the count of descriptors that the calls give.
\<close>

theorem kqueue_batches_changes:
  assumes "kq_inv s" "never_fails ra" "kq_maxChanges s + 256 * int (length ops) < 2 ^ 31"
    "2 * (kq_maxFds s + 128 * int (length ops)) < 2 ^ 31"
  shows "\<exists>s'. kq_run ra s ops = Some s' \<and> kq_inv s' \<and> kq_kernelQueue s' = kq_kernelQueue s \<and>
     (kq_numFds s', kq_reg registered s') = foldl kq_spec (kq_numFds s, kq_reg registered s) ops"
  using kq_run_lemma[OF assms, of registered] by (simp add: kq_view_def)

theorem kqueue_batches_changes_witness:
  "\<exists>s'. kq_run (grow_with kev_new) kq0 [PAdd 5 7 (POLLIN OR POLLOUT), PAnd 5 POLLIN, PAdd 6 8 POLLOUT, PDel 6] = Some s' \<and>
        kq_numFds s' = 1 \<and> kq_reg id s' = [(5, EVFILT_READ) \<mapsto> Some 7]"
proof -
  let ?ops = "[PAdd 5 7 (POLLIN OR POLLOUT), PAnd 5 POLLIN, PAdd 6 8 POLLOUT, PDel 6] :: (int, nat, mask) poll_op list"
  have h: "has (POLLIN OR POLLOUT) POLLIN" "has (POLLIN OR POLLOUT) POLLOUT" "\<not> has POLLIN POLLOUT" "has POLLIN POLLIN"
    "\<not> has POLLOUT POLLIN" "has POLLOUT POLLOUT" "\<not> has 0 POLLIN" "\<not> has 0 POLLOUT"
    by (simp_all add: has_def POLLIN_def POLLOUT_def)
  have "foldl kq_spec (kq_numFds kq0, kq_reg id kq0) ?ops = (1, [(5, EVFILT_READ) \<mapsto> Some 7])"
    using filters by (auto simp: kq0 reg_set_def reg_clear_def h fun_eq_iff)
  then show ?thesis using kqueue_batches_changes[OF kq0(1) grow_with, of ?ops kev_new id] by (auto simp: kq0)
qed

text \<open>
  Waiting on the kqueue back end hands over the pending changes and delivers: if no pending change deletes an
  event that is not registered, \<open>getNextEvent\<close> then returns the events the kernel reported, in order and
  once each, and each carries the client that is registered for it.
\<close>

theorem kqueue_delivers:
  assumes "kq_inv s" "kevent_ok kevent registered" "ke_valid (registered (kq_kernelQueue s)) (kq_pending s)"
    "kevent (kq_pending s) (2 * kq_maxFds s) (if t \<ge> 0 then Some (cdiv t 1000, cmod t 1000 * 1000000) else None) (kq_kernelQueue s) = (Inr rs, d')"
  shows "\<exists>s1 s2. kq_waitForEvents kevent t s = Some (if rs = [] then Fail EWOULDBLOCK else OK, s1) \<and> kq_inv s1 \<and>
     registered (kq_kernelQueue s1) = kq_reg registered s \<and>
     next_events kq_getNextEvent (Suc (length rs)) s1 = Some (map kq_event rs, s2) \<and>
     (\<forall>ke \<in> set rs. kq_reg registered s (ke_ident ke, ke_filter ke) = Some (ev_client (kq_event ke)))"
proof -
  obtain s1 where s1: "kq_waitForEvents kevent t s = Some (if rs = [] then Fail EWOULDBLOCK else OK, s1)" "kq_ev_inv s1"
    "registered (kq_kernelQueue s1) = kq_reg registered s" "kq_ready s1 = map kq_event rs"
    "\<forall>ke \<in> set rs. kq_reg registered s (ke_ident ke, ke_filter ke) = Some (ke_udata ke)"
    using kq_wait_lemma[OF assms] by blast
  have "length (kq_ready s1) < Suc (length rs)" using s1(4) by simp
  from kqe.drain[OF s1(2) this] s1 show ?thesis by (auto simp: kq_ev_inv_def kq_event_def)
qed

text \<open>The queue after adding descriptor 5 for client 7.\<close>

definition kq5 :: "(nat, int \<times> int \<Rightarrow> nat option option) poller_kqueue" where
  "kq5 = the (kq_run (grow_with kev_new) kq0 [PAdd 5 7 POLLIN])"

lemmas kq_eval = kq0_def kq_init_def kq_add_def setMaskInternal_def clearMaskInternal_def kq_setMask_def room_for_two_def add_change_def
  rdi_def wri_def grow_with_def Let_def has_def

lemma kq5: "kq_inv kq5" "kq_reg id kq5 = [(5, EVFILT_READ) \<mapsto> Some 7]" "kq_kernelQueue kq5 = Map.empty"
  "kq_pending kq5 = [\<lparr>ke_ident = 5, ke_filter = EVFILT_READ, ke_flags = EV_ADD OR EV_ENABLE, ke_udata = Some 7\<rparr>]" "kq_maxFds kq5 = 128"
proof -
  have h: "has POLLIN POLLIN" "\<not> has POLLIN POLLOUT" by (simp_all add: has_def POLLIN_def POLLOUT_def)
  have "(\<lambda>(i, f). if i = 5 \<and> f = EVFILT_READ then Some (Some 7) else None) = [(5, EVFILT_READ) \<mapsto> Some (7::nat)]"
    by (auto simp: fun_eq_iff)
  then have r: "reg_set 5 POLLIN (Some 7) Map.empty = [(5, EVFILT_READ) \<mapsto> Some (7::nat)]" using h by (simp add: reg_set_def)
  obtain s' where "kq_run (grow_with kev_new) kq0 [PAdd 5 7 POLLIN] = Some s'" "kq_inv s'" "kq_kernelQueue s' = kq_kernelQueue kq0"
    "kq_view id s' = foldl kq_spec (kq_view id kq0) [PAdd 5 7 POLLIN]"
    using kq_run_lemma[OF kq0(1) grow_with, of "[PAdd 5 7 POLLIN]" kev_new id] by (auto simp: kq0)
  then show "kq_inv kq5" "kq_reg id kq5 = [(5, EVFILT_READ) \<mapsto> Some 7]" "kq_kernelQueue kq5 = Map.empty"
    using r by (simp_all add: kq5_def kq_view_def kq0) (simp add: kq0_def kq_init_def)
  show "kq_pending kq5 = [\<lparr>ke_ident = 5, ke_filter = EVFILT_READ, ke_flags = EV_ADD OR EV_ENABLE, ke_udata = Some 7\<rparr>]" "kq_maxFds kq5 = 128"
    using h by (simp_all add: kq5_def kq_eval kq_pending_def[abs_def] take_Suc_conv_app_nth flip: has_def)
qed

theorem kqueue_delivers_witness:
  "\<exists>s1 s2. kq_waitForEvents kev5 10 kq5 = Some (OK, s1) \<and>
     next_events kq_getNextEvent 2 s1 = Some ([\<lparr>ev_fd = 5, ev_revents = POLLIN, ev_client = Some 7\<rparr>], s2)"
proof -
  let ?ke = "\<lparr>ke_ident = 5, ke_filter = EVFILT_READ, ke_flags = 0, ke_udata = Some (7::nat)\<rparr>"
  have f: "\<not> has (EV_ADD OR EV_ENABLE) EV_DELETE" "has (EV_ADD OR EV_ENABLE) EV_ADD" by (simp_all add: has_def EV_ADD_def EV_ENABLE_def EV_DELETE_def)
  have v: "ke_valid (id (kq_kernelQueue kq5)) (kq_pending kq5)" using f(1) by (simp add: kq5(4) has_def)
  have "foldl ke_apply Map.empty (kq_pending kq5) = [(5, EVFILT_READ) \<mapsto> Some 7]" using f by (simp add: kq5(4) ke_apply_def has_def)
  then have "kev5 (kq_pending kq5) (2 * kq_maxFds kq5) (if (10::int) \<ge> 0 then Some (cdiv 10 1000, cmod 10 1000 * 1000000) else None) (kq_kernelQueue kq5) =
      (Inr [?ke], [(5, EVFILT_READ) \<mapsto> Some 7])"
    by (simp add: kev5_def kq5(3,5) Let_def)
  from kqueue_delivers[OF kq5(1) kev5 v this] show ?thesis
    by (auto simp: kq_event_def numeral_2_eq_2)
qed

text \<open>
  \<open>setMask\<close> of the kqueue back end loses the client: after it, every event that the kernel reports for input
  or output on the descriptor has a null client, whatever client the descriptor was added with.
\<close>

theorem kqueue_setMask_loses_client:
  assumes "kq_inv s" "never_fails ra" "kq_maxChanges s + 256 < 2 ^ 31" "kevent_ok kevent registered"
  shows "\<exists>s1. kq_setMask ra s fd m = Some (OK, s1) \<and>
     (\<forall>t rs d'. ke_valid (registered (kq_kernelQueue s1)) (kq_pending s1) \<and>
        kevent (kq_pending s1) (2 * kq_maxFds s1) (if t \<ge> 0 then Some (cdiv t 1000, cmod t 1000 * 1000000) else None) (kq_kernelQueue s1) = (Inr rs, d') \<longrightarrow>
        (\<forall>ke \<in> set rs. ke_ident ke = fd \<and> ke_filter ke \<in> {EVFILT_READ, EVFILT_WRITE} \<longrightarrow> ev_client (kq_event ke) = None))"
proof -
  obtain s1 where s1: "kq_setMask ra s fd m = Some (OK, s1)" "grows s s1" "kq_view registered s1 = kq_spec (kq_view registered s) (PSet fd m)"
    using kq_setMask_lemma[OF assms(1-3), of fd m registered] by blast
  have i1: "kq_inv s1" using s1(2) by (simp add: grows_def)
  have "kq_reg registered s1 = reg_clear fd m (reg_set fd m None (kq_reg registered s))" using s1(3) by (simp add: kq_view_def)
  then have r: "kq_reg registered s1 (fd, f) \<in> {None, Some None}" if "f \<in> {EVFILT_READ, EVFILT_WRITE}" for f
    using that by (auto simp: reg_clear_def reg_set_def)
  have "ev_client (kq_event ke) = None"
    if v: "ke_valid (registered (kq_kernelQueue s1)) (kq_pending s1)" and os: "kevent_at kevent t s1 = (Inr rs, d')"
      and ke: "ke \<in> set rs" "ke_ident ke = fd" "ke_filter ke \<in> {EVFILT_READ, EVFILT_WRITE}" for t rs d' ke
  proof -
    have "kq_reg registered s1 (ke_ident ke, ke_filter ke) = Some (ke_udata ke)"
      using kq_wait_lemma[OF i1 assms(4) v os] ke(1) by blast
    then show ?thesis using r[OF ke(3)] ke(2) by (simp add: kq_event_def)
  qed
  then show ?thesis using s1(1) by blast
qed

theorem kqueue_setMask_loses_client_witness:
  "\<exists>s1 rs d'. kq_setMask (grow_with kev_new) kq5 5 (POLLIN OR POLLOUT) = Some (OK, s1) \<and> kevent_at kev5 10 s1 = (Inr rs, d') \<and>
     map kq_event rs = [\<lparr>ev_fd = 5, ev_revents = POLLIN, ev_client = None\<rparr>]"
proof -
  have h: "has POLLIN POLLIN" "\<not> has POLLIN POLLOUT" "has (POLLIN OR POLLOUT) POLLIN" "has (POLLIN OR POLLOUT) POLLOUT"
    by (simp_all add: has_def POLLIN_def POLLOUT_def)
  have f: "\<not> has (EV_ADD OR EV_ENABLE) EV_DELETE" "has (EV_ADD OR EV_ENABLE) EV_ADD" by (simp_all add: has_def EV_ADD_def EV_ENABLE_def EV_DELETE_def)
  have b: "kq_maxChanges kq5 + 256 < 2 ^ 31" using h by (simp add: kq5_def kq_eval flip: has_def)
  obtain s1 where s1: "kq_setMask (grow_with kev_new) kq5 5 (POLLIN OR POLLOUT) = Some (OK, s1)"
    "\<forall>t rs d'. ke_valid (id (kq_kernelQueue s1)) (kq_pending s1) \<and> kevent_at kev5 t s1 = (Inr rs, d') \<longrightarrow>
        (\<forall>ke \<in> set rs. ke_ident ke = 5 \<and> ke_filter ke \<in> {EVFILT_READ, EVFILT_WRITE} \<longrightarrow> ev_client (kq_event ke) = None)"
    using kqueue_setMask_loses_client[OF kq5(1) grow_with b kev5, of kev_new 5 "POLLIN OR POLLOUT"] by blast
  have p: "kq_pending s1 = map (\<lambda>(f, u). \<lparr>ke_ident = 5, ke_filter = f, ke_flags = EV_ADD OR EV_ENABLE, ke_udata = u\<rparr>)
      [(EVFILT_READ, Some 7), (EVFILT_READ, None), (EVFILT_WRITE, None)]" "kq_kernelQueue s1 = Map.empty" "kq_maxFds s1 = 128"
    using s1(1) h by (auto simp: kq5_def kq_eval kq_pending_def[abs_def] take_Suc_conv_app_nth numeral_3_eq_3 numeral_2_eq_2 simp flip: has_def)
  have v: "ke_valid (id (kq_kernelQueue s1)) (kq_pending s1)" using f(1) by (simp add: p has_def)
  have "foldl ke_apply Map.empty (kq_pending s1) (5, EVFILT_READ) = Some None" using f filters by (simp add: p ke_apply_def has_def)
  then have e: "kevent_at kev5 10 s1 = (Inr [\<lparr>ke_ident = 5, ke_filter = EVFILT_READ, ke_flags = 0, ke_udata = None\<rparr>], foldl ke_apply Map.empty (kq_pending s1))"
    by (simp add: kev5_def p Let_def)
  then have "ev_client (kq_event \<lparr>ke_ident = 5, ke_filter = EVFILT_READ, ke_flags = 0, ke_udata = None :: nat option\<rparr>) = None" using s1(2) v by fastforce
  with s1(1) e show ?thesis by (auto simp: kq_event_def)
qed

text \<open>
  After a wait on the kqueue back end that failed, \<open>getNextEvent\<close> does not report that there are no events:
  it returns what an earlier wait left in the array of results, and after that reads past its end.
\<close>

theorem kqueue_failed_wait_stale:
  assumes "kq_inv s" "kq_results s \<noteq> []"
    "kevent (kq_pending s) (2 * kq_maxFds s) (if t \<ge> 0 then Some (cdiv t 1000, cmod t 1000 * 1000000) else None) (kq_kernelQueue s) = (Inl e, d')"
  shows "\<exists>s1 s2. kq_waitForEvents kevent t s = Some (Fail e, s1) \<and>
     kq_getNextEvent s1 = Some (OK, Some (kq_event (hd (kq_results s))), s2) \<and>
     next_events kq_getNextEvent (Suc (length (kq_results s))) s1 = None"
proof -
  let ?s = "s\<lparr>kq_kernelQueue := d', kq_numResults := -1, kq_curResult := 0, kq_numChanges := 0\<rparr>"
  have "nat (kq_numChanges s) \<le> length (kq_changes s)" using assms(1) by (auto simp: kq_inv_def)
  then have "kq_waitForEvents kevent t s = Some (Fail e, ?s)" using assms(3) by (simp add: kq_waitForEvents_def kq_pending_def)
  moreover have "kq_getNextEvent ?s = Some (OK, Some (kq_event (hd (kq_results s))), ?s\<lparr>kq_curResult := 1\<rparr>)"
    using assms(2) by (simp add: kq_getNextEvent_def rdi_def hd_conv_nth)
  moreover have "next_events kq_getNextEvent (Suc (length (kq_results s))) ?s = None"
    by (rule stale_runs_off) simp_all
  ultimately show ?thesis by blast
qed

theorem kqueue_failed_wait_stale_witness:
  "\<exists>s1 s2. kq_waitForEvents (\<lambda>cs n t d. (Inl EINTR, d)) 10 kq5 = Some (Fail EINTR, s1) \<and>
     kq_getNextEvent s1 = Some (OK, Some (kq_event kev_new), s2)"
proof -
  have h: "has POLLIN POLLIN" "\<not> has POLLIN POLLOUT" by (simp_all add: has_def POLLIN_def POLLOUT_def)
  have r: "kq_results kq5 = replicate 256 kev_new" using h by (simp add: kq5_def kq_eval flip: has_def)
  then have "kq_results kq5 \<noteq> []" "hd (kq_results kq5) = kev_new" by (simp_all add: hd_replicate)
  then show ?thesis using kqueue_failed_wait_stale[OF kq5(1), of "\<lambda>cs n t d. (Inl EINTR, d)" 10 EINTR "kq_kernelQueue kq5"] by auto
qed

end
