(* ===== verification/Options.thy ===== *)
theory Options
  imports Cstring Platoon
begin

text \<open>
  The command lines of the two programs that run a load test: bench.cc, which owns its platoon, and
  corbaftpbench.cc, which drives platoons in other processes. An element of \<open>argv\<close> is the list of its
  characters. A number out of the range of \<open>int\<close> is undefined in C and has no result here.
\<close>

subsection \<open>Results of a program part\<close>

text \<open>A part of \<open>main\<close> that does not run to its end calls \<open>exit\<close> with a status.\<close>

datatype 'a outcome = Exit int | Go 'a

text \<open>Going on after a part.\<close>

definition andthen :: "'a outcome option \<Rightarrow> ('a \<Rightarrow> 'b outcome option) \<Rightarrow> 'b outcome option" where
  "andthen m f = do { r \<leftarrow> m; case r of Exit n \<Rightarrow> Some (Exit n) | Go a \<Rightarrow> f a }"

lemma andthen_simps [simp]:
  "andthen (Some (Go a)) f = f a" "andthen (Some (Exit n)) f = Some (Exit n)" "andthen None f = None"
  by (simp_all add: andthen_def)

lemma andthen_Go: "andthen m f = Some (Go b) \<longleftrightarrow> (\<exists>a. m = Some (Go a) \<and> f a = Some (Go b))"
proof (cases m)
  case (Some r)
  then show ?thesis by (cases r) auto
qed simp

lemma andthen_mono [partial_function_mono]:
  assumes "mono_option M" "\<And>a. mono_option (\<lambda>f. F a f)"
  shows "mono_option (\<lambda>f. andthen (M f) (\<lambda>a. F a f))"
  unfolding andthen_def
proof (intro bind_mono assms)
  show "mono_option (\<lambda>f. case r of Exit n \<Rightarrow> Some (Exit n) | Go a \<Rightarrow> F a f)" for r
    using assms(2) by (cases r) (simp_all add: option.const_mono)
qed

subsection \<open>Option values\<close>

record args =
  ar_users :: int
  ar_lastConnectingState :: int
  ar_nconnectingTarget :: int
  ar_duration :: int
  ar_clientBandwidth :: int
  ar_minClientBandwidth :: int
  ar_useAllLocalIfs :: bool
  ar_hostname :: "char list"
  ar_username :: "char list"
  ar_password :: "char list"
  ar_filename :: "char list"
  ar_selector :: char
  ar_portnum :: int
  ar_verbosity :: int
  ar_mtu :: int

definition bench_defaults :: args where
  "bench_defaults =
     \<lparr>ar_users = 0, ar_lastConnectingState = int (state_no CONNECTING), ar_nconnectingTarget = 1, ar_duration = 0,
      ar_clientBandwidth = cdiv 28800 8, ar_minClientBandwidth = 0, ar_useAllLocalIfs = False, ar_hostname = [],
      ar_username = ''anonymous'', ar_password = ''robouser@'', ar_filename = ''usenet/rec.juggling/juggling.FAQ.Z'',
      ar_selector = CHR ''p'', ar_portnum = 21, ar_verbosity = 0, ar_mtu = 1500\<rparr>"

text \<open>corbaftpbench.cc has the same variables but the \<open>-k\<close> one, and another file.\<close>

definition ctl_defaults :: args where
  "ctl_defaults =
     \<lparr>ar_users = 0, ar_lastConnectingState = int (state_no CONNECTING), ar_nconnectingTarget = 1, ar_duration = 0,
      ar_clientBandwidth = cdiv 28800 8, ar_minClientBandwidth = 0, ar_useAllLocalIfs = False, ar_hostname = [],
      ar_username = ''anonymous'', ar_password = ''robouser@'', ar_filename = ''pub/x10k.dat'',
      ar_selector = CHR ''p'', ar_portnum = 21, ar_verbosity = 0, ar_mtu = 1500\<rparr>"

subsection \<open>Parsing\<close>

text \<open>\<open>!strncmp(s, p, 2)\<close> for a \<open>p\<close> of two characters, and the assignment of an \<open>int\<close> to a \<open>short\<close>.\<close>

definition is_opt :: "char list \<Rightarrow> char list \<Rightarrow> bool" where
  "is_opt p s = (take 2 s = p)"

definition to_short :: "int \<Rightarrow> int" where
  "to_short v = sint (word_of_int v :: 16 word)"

definition int_arg :: "char list \<Rightarrow> (int \<Rightarrow> args \<Rightarrow> args) \<Rightarrow> args \<Rightarrow> args outcome option" where
  "int_arg s upd a = do { v \<leftarrow> atoi (drop 2 s); Some (Go (upd v a)) }"

definition verbosity_arg :: "char list \<Rightarrow> args \<Rightarrow> args outcome option" where
  "verbosity_arg s a =
     (if length s > 2 then int_arg s (\<lambda>v. ar_verbosity_update (\<lambda>_. v)) a
      else do { assertion (is_int (ar_verbosity a + 1)); Some (Go (a\<lparr>ar_verbosity := ar_verbosity a + 1\<rparr>)) })"

definition users_arg :: "char list \<Rightarrow> args \<Rightarrow> args outcome option" where
  "users_arg s a = do {
     v \<leftarrow> atoi (drop 2 s);
     if v > int Platoon_MAXUSERS then Some (Exit 1) else Some (Go (a\<lparr>ar_users := v\<rparr>))
   }"

definition bench_arg :: "char list \<Rightarrow> args \<Rightarrow> args outcome option" where
  "bench_arg s a =
     (if is_opt ''-h'' s then Some (Go (a\<lparr>ar_hostname := drop 2 s\<rparr>))
      else if is_opt ''-P'' s then int_arg s (\<lambda>v. ar_portnum_update (\<lambda>_. to_short v)) a
      else if is_opt ''-n'' s then users_arg s a
      else if is_opt ''-c'' s then int_arg s (\<lambda>v. ar_nconnectingTarget_update (\<lambda>_. v)) a
      else if is_opt ''-k'' s then int_arg s (\<lambda>v. ar_lastConnectingState_update (\<lambda>_. v)) a
      else if is_opt ''-t'' s then int_arg s (\<lambda>v. ar_duration_update (\<lambda>_. v)) a
      else if is_opt ''-b'' s then int_arg s (\<lambda>v. ar_clientBandwidth_update (\<lambda>_. v)) a
      else if is_opt ''-B'' s then int_arg s (\<lambda>v. ar_minClientBandwidth_update (\<lambda>_. v)) a
      else if is_opt ''-u'' s then Some (Go (a\<lparr>ar_username := drop 2 s\<rparr>))
      else if is_opt ''-p'' s then Some (Go (a\<lparr>ar_password := drop 2 s\<rparr>))
      else if is_opt ''-f'' s then Some (Go (a\<lparr>ar_filename := drop 2 s\<rparr>))
      else if is_opt ''-m'' s then int_arg s (\<lambda>v. ar_mtu_update (\<lambda>_. v)) a
      else if is_opt ''-s'' s then Some (Go (a\<lparr>ar_selector := (if length s > 2 then s ! 2 else NUL)\<rparr>))
      else if is_opt ''-v'' s then verbosity_arg s a
      else if s = ''-a'' then Some (Go (a\<lparr>ar_useAllLocalIfs := True\<rparr>))
      else Some (Go a))"

text \<open>The controller takes any number of users and knows no \<open>-k\<close>.\<close>

definition ctl_arg :: "char list \<Rightarrow> args \<Rightarrow> args outcome option" where
  "ctl_arg s a =
     (if is_opt ''-h'' s then Some (Go (a\<lparr>ar_hostname := drop 2 s\<rparr>))
      else if is_opt ''-P'' s then int_arg s (\<lambda>v. ar_portnum_update (\<lambda>_. to_short v)) a
      else if is_opt ''-n'' s then int_arg s (\<lambda>v. ar_users_update (\<lambda>_. v)) a
      else if is_opt ''-c'' s then int_arg s (\<lambda>v. ar_nconnectingTarget_update (\<lambda>_. v)) a
      else if is_opt ''-t'' s then int_arg s (\<lambda>v. ar_duration_update (\<lambda>_. v)) a
      else if is_opt ''-b'' s then int_arg s (\<lambda>v. ar_clientBandwidth_update (\<lambda>_. v)) a
      else if is_opt ''-B'' s then int_arg s (\<lambda>v. ar_minClientBandwidth_update (\<lambda>_. v)) a
      else if is_opt ''-u'' s then Some (Go (a\<lparr>ar_username := drop 2 s\<rparr>))
      else if is_opt ''-p'' s then Some (Go (a\<lparr>ar_password := drop 2 s\<rparr>))
      else if is_opt ''-f'' s then Some (Go (a\<lparr>ar_filename := drop 2 s\<rparr>))
      else if is_opt ''-m'' s then int_arg s (\<lambda>v. ar_mtu_update (\<lambda>_. v)) a
      else if is_opt ''-s'' s then Some (Go (a\<lparr>ar_selector := (if length s > 2 then s ! 2 else NUL)\<rparr>))
      else if is_opt ''-v'' s then verbosity_arg s a
      else if s = ''-a'' then Some (Go (a\<lparr>ar_useAllLocalIfs := True\<rparr>))
      else Some (Go a))"

text \<open>The loop over \<open>argv\<close>, which starts at the name of the program.\<close>

fun parse_args :: "(char list \<Rightarrow> args \<Rightarrow> args outcome option) \<Rightarrow> char list list \<Rightarrow> args \<Rightarrow> args outcome option" where
  "parse_args arg [] a = Some (Go a)"
| "parse_args arg (s # ss) a = andthen (arg s a) (parse_args arg ss)"

text \<open>The checks after the loop: \<open>usage()\<close> exits with -1; the product is an \<open>int\<close>.\<close>

definition check_args :: "args \<Rightarrow> args outcome option" where
  "check_args a =
     (if ar_users a = 0 then Some (Exit (-1))
      else if ar_clientBandwidth a = 0 then Some (Exit (-1))
      else if length (ar_hostname a) = 0 then Some (Exit (-1))
      else if ar_minClientBandwidth a = 0 then do {
        assertion (is_int (ar_clientBandwidth a * 3));
        Some (Go (a\<lparr>ar_minClientBandwidth := cdiv (ar_clientBandwidth a * 3) 4\<rparr>))
      }
      else Some (Go a))"

definition options ::
  "(char list \<Rightarrow> args \<Rightarrow> args outcome option) \<Rightarrow> args \<Rightarrow> char list list \<Rightarrow> args outcome option" where
  "options arg defaults argv = andthen (parse_args arg argv defaults) check_args"

subsection \<open>Printing\<close>

text \<open>
  bench.cc prints its option values one to a line, each as an option and a description; these are
  the options.
\<close>

definition sdec :: "int \<Rightarrow> char list" where
  "sdec v = (if v < 0 then CHR ''-'' # dec (nat (- v)) else dec (nat v))"

definition printed :: "args \<Rightarrow> char list list" where
  "printed a =
     [''-h'' @ ar_hostname a, ''-P'' @ sdec (ar_portnum a), ''-n'' @ sdec (ar_users a),
      ''-c'' @ sdec (ar_nconnectingTarget a), ''-k'' @ sdec (ar_lastConnectingState a), ''-t'' @ sdec (ar_duration a),
      ''-b'' @ sdec (ar_clientBandwidth a), ''-B'' @ sdec (ar_minClientBandwidth a), ''-u'' @ ar_username a,
      ''-p'' @ ar_password a, ''-f'' @ ar_filename a, ''-m'' @ sdec (ar_mtu a), ''-v'' @ sdec (ar_verbosity a),
      ''-s'' @ [ar_selector a], ''-a'' @ sdec (if ar_useAllLocalIfs a then 1 else 0)]"

subsection \<open>Reading back numbers\<close>

lemma atoi_sdec: "is_int v \<Longrightarrow> atoi (sdec v) = Some v"
proof (cases "v < 0")
  case True
  assume v: "is_int v"
  obtain d ds where d: "dec (nat (- v)) = d # ds" using dec_nonempty[of "nat (- v)"] by (cases "dec (nat (- v))") auto
  have all: "\<forall>c \<in> set (dec (nat (- v))). isdigit c" by (rule dec_digits)
  have tw: "takeWhile isdigit (dec (nat (- v))) = dec (nat (- v))" "dropWhile isdigit (dec (nat (- v))) = []"
    using all by auto
  have "\<not> isspace CHR ''-''" by (simp add: isspace_def)
  then have "parse_int (sdec v) = Some (v, [])"
    using True by (simp add: sdec_def parse_int_def Let_def digits_val_dec tw del: takeWhile_eq_all_conv dropWhile_eq_Nil_conv)
  with v show ?thesis by (simp add: atoi_def)
next
  case False
  assume v: "is_int v"
  have "parse_int (dec (nat v) @ []) = Some (int (nat v), [])" by (rule parse_int_dec) simp
  with v False show ?thesis by (simp add: atoi_def sdec_def)
qed

lemma sdec_nonempty [simp]: "sdec v \<noteq> []"
  by (simp add: sdec_def)

lemma atoi_int: "atoi s = Some v \<Longrightarrow> is_int v"
  by (auto simp: atoi_def is_int_def bind_eq_Some_conv split: option.splits)

definition is_short :: "int \<Rightarrow> bool" where
  "is_short v = (- (2 ^ 15) \<le> v \<and> v < 2 ^ 15)"

lemma to_short: "is_short (to_short v)"
  using sint_range_size[of "word_of_int v :: 16 word"] by (simp add: to_short_def is_short_def word_size)

lemma to_short_id: "is_short v \<Longrightarrow> to_short v = v"
  unfolding to_short_def is_short_def sint_sbintrunc' by (intro signed_take_bit_int_eq_self) auto

text \<open>The types of the variables, and the bound on the users of bench.cc.\<close>

definition typed :: "args \<Rightarrow> bool" where
  "typed a =
     (is_int (ar_users a) \<and> is_int (ar_lastConnectingState a) \<and> is_int (ar_nconnectingTarget a) \<and> is_int (ar_duration a) \<and>
      is_int (ar_clientBandwidth a) \<and> is_int (ar_minClientBandwidth a) \<and> is_short (ar_portnum a) \<and>
      is_int (ar_verbosity a) \<and> is_int (ar_mtu a))"

lemma short_int: "is_short v \<Longrightarrow> is_int v"
  by (simp add: is_short_def is_int_def)

lemma typed_defaults [simp]: "typed bench_defaults" "typed ctl_defaults"
  by (simp_all add: typed_def bench_defaults_def ctl_defaults_def is_int_def is_short_def cdiv_nonneg)

lemmas arg_defs = int_arg_def verbosity_arg_def users_arg_def

lemma bench_arg_typed:
  "bench_arg s a = Some (Go a') \<Longrightarrow> typed a \<and> ar_users a \<le> int Platoon_MAXUSERS \<Longrightarrow>
   typed a' \<and> ar_users a' \<le> int Platoon_MAXUSERS"
  unfolding bench_arg_def arg_defs
  by (auto simp: typed_def bind_eq_Some_conv to_short dest: atoi_int split: if_splits)

lemma ctl_arg_typed: "ctl_arg s a = Some (Go a') \<Longrightarrow> typed a \<Longrightarrow> typed a'"
  unfolding ctl_arg_def arg_defs
  by (auto simp: typed_def bind_eq_Some_conv to_short dest: atoi_int split: if_splits)

lemma parse_args_inv:
  assumes "\<And>s a a'. arg s a = Some (Go a') \<Longrightarrow> I a \<Longrightarrow> I a'"
  shows "parse_args arg ss a = Some (Go a') \<Longrightarrow> I a \<Longrightarrow> I a'"
  by (induction ss arbitrary: a) (auto simp: andthen_Go intro: assms)

lemma cdiv_int: "is_int v \<Longrightarrow> is_int (cdiv v 4)"
proof -
  assume v: "is_int v"
  have "\<bar>cdiv v 4\<bar> = \<bar>v\<bar> div 4" by (auto simp: cdiv_def abs_mult sgn_if)
  moreover have "\<bar>v\<bar> div 4 < 2 ^ 31" using v by (auto simp: is_int_def)
  ultimately show ?thesis by (auto simp: is_int_def abs_if split: if_splits)
qed

lemma check_args_Go:
  "check_args a = Some (Go b) \<Longrightarrow>
   ar_users a \<noteq> 0 \<and> ar_clientBandwidth a \<noteq> 0 \<and> ar_hostname a \<noteq> [] \<and>
   (b = a \<or> ar_minClientBandwidth a = 0 \<and> is_int (ar_clientBandwidth a * 3) \<and>
             b = a\<lparr>ar_minClientBandwidth := cdiv (ar_clientBandwidth a * 3) 4\<rparr>)"
  by (auto simp: check_args_def bind_eq_Some_conv split: if_splits)

subsection \<open>Properties\<close>

text \<open>
  C33. Whatever the command line, the values bench.cc goes on with are in the ranges of their types, there
  is a bandwidth, a host name and a non-zero number of at most \<open>Platoon_MAXUSERS\<close> users.
\<close>
theorem bench_options_typed:
  assumes "options bench_arg bench_defaults argv = Some (Go a)"
  shows "typed a \<and> ar_users a \<noteq> 0 \<and> ar_users a \<le> int Platoon_MAXUSERS \<and> ar_clientBandwidth a \<noteq> 0 \<and> ar_hostname a \<noteq> []"
proof -
  obtain a0 where p: "parse_args bench_arg argv bench_defaults = Some (Go a0)" "check_args a0 = Some (Go a)"
    using assms by (auto simp: options_def andthen_Go)
  have "ar_users bench_defaults \<le> int Platoon_MAXUSERS" by (simp add: bench_defaults_def)
  then have "typed a0 \<and> ar_users a0 \<le> int Platoon_MAXUSERS"
    using parse_args_inv[of bench_arg "\<lambda>a. typed a \<and> ar_users a \<le> int Platoon_MAXUSERS", OF bench_arg_typed p(1)] by simp
  with check_args_Go[OF p(2)] show ?thesis by (auto simp: typed_def cdiv_int)
qed

definition argv1 :: "char list list" where
  "argv1 = [''bench'', ''-hftp'', ''-n5'', ''-v'', ''-P8021'', ''-a'']"

lemma argv1_parsed:
  "options bench_arg bench_defaults argv1 =
     Some (Go (bench_defaults\<lparr>ar_hostname := ''ftp'', ar_users := 5, ar_verbosity := 1, ar_portnum := 8021, ar_useAllLocalIfs := True,
                             ar_minClientBandwidth := 2700\<rparr>))"
proof -
  have n: "atoi ''5'' = Some 5" "atoi ''8021'' = Some 8021"
    using atoi_sdec[of 5] atoi_sdec[of 8021] by (simp_all add: sdec_def is_int_def dec.simps digit_char_def digit_chars_def)
  show ?thesis
    by (simp add: options_def argv1_def bench_arg_def is_opt_def arg_defs bench_defaults_def n to_short_id is_short_def
        is_int_def check_args_def cdiv_nonneg Platoon_MAXUSERS_def)
qed

theorem bench_options_typed_witness:
  "typed (the (case options bench_arg bench_defaults argv1 of Some (Go a) \<Rightarrow> Some a | _ \<Rightarrow> None))"
  using bench_options_typed[OF argv1_parsed] by (simp add: argv1_parsed)

text \<open>
  The option values bench.cc prints are, but for \<open>-a\<close>, a command line that gives the same values
  again. The last line, \<open>-a1\<close>, is not the option: all local interfaces are used only for a plain \<open>-a\<close>.
\<close>
theorem printed_options_roundtrip:
  assumes "typed a" "ar_users a \<le> int Platoon_MAXUSERS"
  shows "parse_args bench_arg (printed a) bench_defaults = Some (Go (a\<lparr>ar_useAllLocalIfs := False\<rparr>))"
  using assms short_int[of "ar_portnum a"]
  by (cases a) (simp add: printed_def bench_arg_def is_opt_def arg_defs typed_def atoi_sdec to_short_id bench_defaults_def)

theorem printed_options_roundtrip_witness:
  "parse_args bench_arg (printed bench_defaults) bench_defaults = Some (Go bench_defaults)"
proof -
  have "ar_users bench_defaults \<le> int Platoon_MAXUSERS" "bench_defaults\<lparr>ar_useAllLocalIfs := False\<rparr> = bench_defaults"
    by (simp_all add: bench_defaults_def)
  with printed_options_roundtrip[OF typed_defaults(1)] show ?thesis by simp
qed

end
