(* ===== verification/Event_loop.thy ===== *)
theory Event_loop
  imports Options Farm
begin

unbundle bit_operations_syntax

text \<open>
  The parts the main loops of bench.cc, CorbaPlatoon\_impl.cc and corbaftpbench.cc share: running the
  due events, servicing the ready connections, how long to sleep, and the watch over the numbers of
  live and dead users that decides when the test is over.
\<close>

subsection \<open>The poller and the system\<close>

text \<open>
  The main loop's side of Poller.h, for a back end in the system's state. The clients of the poller are
  the users' connections; an event names the user. \<open>None\<close> is a crash or an assertion that fails.
\<close>

record 'o poller =
  po_init :: "'o \<Rightarrow> (rc \<times> 'o) option"
  po_setSignum :: "'o \<Rightarrow> (rc \<times> 'o) option"
  po_shutdown :: "'o \<Rightarrow> 'o option"
  po_getNextEvent :: "'o \<Rightarrow> (rc \<times> nat poll_event option \<times> 'o) option"
  po_waitForEvents :: "int \<Rightarrow> 'o \<Rightarrow> (rc \<times> 'o) option"

definition on_osw :: "('o \<Rightarrow> ('a \<times> 'o) option) \<Rightarrow> ('w::len, 'o) farm_world \<Rightarrow> ('a \<times> ('w, 'o) farm_world) option" where
  "on_osw f w = on_xo (on_oso f) w"

lemma on_osw_mk [simp]: "on_osw f (mk ls s P h x) = do { (a, x') \<leftarrow> f x; Some (a, mk ls s P h x') }"
  by (cases "f x") (auto simp: on_osw_def on_xo_def on_oso_def mk_def)

lemma mk_locals [simp]: "(mk ls s P h x)\<lparr>wd_locals := l\<rparr> = mk l s P h x"
  by (simp add: mk_def)

definition next_event :: "'o poller \<Rightarrow> ('w::len, 'o) farm_world \<Rightarrow> ((rc \<times> nat poll_event option) \<times> ('w, 'o) farm_world) option" where
  "next_event PC w = on_osw (\<lambda>x. do { (r, e, x1) \<leftarrow> po_getNextEvent PC x; Some ((r, e), x1) }) w"

text \<open>
  \<open>CHECK(err, 0)\<close> of CHECK.cc exits with status 1 when the error is not 0.
\<close>

definition check_ok :: "rc \<Rightarrow> 'a \<Rightarrow> 'a outcome" where
  "check_ok err a = (if err \<noteq> OK then Exit 1 else Go a)"

subsection \<open>Running the due events\<close>

text \<open>
  \<open>runAll\<close> of the event queue with the callbacks of the load generator. The queue is handed through; the
  copy of it in the world is put back before a callback and taken out after it.
\<close>

definition farm_callback :: "('w::len, 'o) system \<Rightarrow> (client, 'w, ('w, 'o) farm_world) callback" where
  "farm_callback S c now sw =
     (case sw of (s, w) \<Rightarrow> do { w1 \<leftarrow> farm_skedCallback S c now (w\<lparr>wd_sked := s\<rparr>); Some (wd_sked w1, w1) })"

definition farm_runAll :: "('w::len, 'o) system \<Rightarrow> 'w clock \<Rightarrow> ('w, 'o) farm_world \<Rightarrow> (rc \<times> ('w, 'o) farm_world) option" where
  "farm_runAll S now w = do {
     (r, s, w1) \<leftarrow> runAll (farm_callback S) now (wd_sked w, w);
     Some (r, w1\<lparr>wd_sked := s\<rparr>)
   }"

subsection \<open>Servicing the ready clients\<close>

text \<open>\<open>event.client->notifyPollEvent(&event)\<close>\<close>

definition notify_client ::
  "('w::len, 'o) system \<Rightarrow> nat \<Rightarrow> nat poll_event \<Rightarrow> ('w, 'o) farm_world \<Rightarrow> (rc \<times> ('w, 'o) farm_world) option" where
  "notify_client S r ev w = do {
     u \<leftarrow> users_of w r;
     (err, p, w1) \<leftarrow> ip_notifyPollEvent (robo_calls S r) (\<lambda>e st b pw. robo_ftpCmdDone S r e st b pw)
                      (ev_fd ev) (ev_revents ev) (ru_fcp u) w;
     u1 \<leftarrow> users_of w1 r;
     Some (err, put_users ((users_of w1)(r \<mapsto> u1\<lparr>ru_fcp := p\<rparr>)) w1)
   }"

partial_function (option) service ::
  "('w::len, 'o) system \<Rightarrow> 'o poller \<Rightarrow> ('w, 'o) farm_world \<Rightarrow> ('w, 'o) farm_world outcome option" where
  "service S PC w = do {
     ((err, e), w1) \<leftarrow> next_event PC w;
     if err = Fail EWOULDBLOCK then Some (Go w1)
     else andthen (Some (check_ok err ())) (\<lambda>_. do {
       ev \<leftarrow> e;
       r \<leftarrow> ev_client ev;
       (err2, w2) \<leftarrow> notify_client S r ev w1;
       andthen (Some (check_ok err2 w2)) (\<lambda>w2. do { w3 \<leftarrow> reap S w2; service S PC w3 })
     })
   }"

subsection \<open>How long to sleep\<close>

text \<open>
  \<open>msUntilNextEvent\<close>, from the time of the next event: the product and the quotient are \<open>long\<close>s, the
  result is an \<open>int\<close>.
\<close>

definition ms_until :: "'w::len clock \<Rightarrow> 'w clock \<Rightarrow> int" where
  "ms_until t now =
     (let tix = t - now
      in sint (word_of_int (cdiv (sint (tix * 1000)) eclock_HERTZ + 1) :: 32 word))"

text \<open>A wait, with the clock read and the time of the next event; \<open>clamp\<close> is what is done to a negative time.\<close>

definition sleep_step ::
  "('w::len, 'o) system \<Rightarrow> 'o poller \<Rightarrow> (int \<Rightarrow> int) \<Rightarrow> ('w, 'o) farm_world \<Rightarrow> (rc \<times> ('w, 'o) farm_world) option" where
  "sleep_step S PC clamp w = do {
     let (now, w1) = read_eclock (base_calls S CPlatoon) w;
     t \<leftarrow> nextTime (wd_sked w1) (now + of_int eclock_HERTZ);
     on_osw (po_waitForEvents PC (clamp (ms_until t now))) w1
   }"

definition wait_failed :: "rc \<Rightarrow> bool" where
  "wait_failed err = (err \<noteq> OK \<and> err \<noteq> Fail EINTR \<and> err \<noteq> Fail EWOULDBLOCK)"

subsection \<open>Watching the test\<close>

text \<open>The variables \<open>test_end\<close>, \<open>old_nalive\<close>, \<open>old_ndead\<close> of the main loops.\<close>

record 't watch_rec =
  wt_test_end :: 't
  wt_old_nalive :: int
  wt_old_ndead :: int

type_synonym 'w watch = "'w clock watch_rec"

definition run_ticks :: "int \<Rightarrow> 'w::len clock" where
  "run_ticks duration = of_int duration * of_int eclock_HERTZ"

definition watch_start :: "int \<Rightarrow> 'w::len clock \<Rightarrow> 'w watch" where
  "watch_start duration now = \<lparr>wt_test_end = now + run_ticks duration, wt_old_nalive = 0, wt_old_ndead = 0\<rparr>"

definition time_up :: "int \<Rightarrow> 'w::len clock \<Rightarrow> 'w watch \<Rightarrow> bool" where
  "time_up duration now wt = (duration \<noteq> 0 \<and> eclock_after now (wt_test_end wt))"

definition watch_status :: "int \<Rightarrow> 'w::len clock \<Rightarrow> int \<Rightarrow> int \<Rightarrow> int \<Rightarrow> 'w watch \<Rightarrow> 'w watch outcome" where
  "watch_status duration now nconnecting nalive ndead wt =
     (if nalive \<noteq> wt_old_nalive wt \<or> ndead \<noteq> wt_old_ndead wt then
        if ndead \<noteq> wt_old_ndead wt \<and> nalive = 0 \<and> nconnecting = 0 then Exit 1
        else Go (wt\<lparr>wt_test_end := now + run_ticks duration, wt_old_nalive := nalive, wt_old_ndead := ndead\<rparr>)
      else Go wt)"

text \<open>
  A status report: the time and the numbers of users connecting, alive and dead. \<open>watch_run\<close> is what the
  loops do with a sequence of them, as long as the time is not up.
\<close>

type_synonym 'w report = "'w clock \<times> int \<times> int \<times> int"

fun watch_run :: "int \<Rightarrow> 'w::len report list \<Rightarrow> 'w watch \<Rightarrow> 'w watch outcome option" where
  "watch_run duration [] wt = Some (Go wt)"
| "watch_run duration ((now, nconnecting, nalive, ndead) # rs) wt =
     (if time_up duration now wt then None
      else andthen (Some (watch_status duration now nconnecting nalive ndead wt)) (watch_run duration rs))"

text \<open>The start of the last stretch of reports with the same numbers of live and dead users.\<close>

fun last_change :: "'w::len report list \<Rightarrow> 'w clock \<Rightarrow> int \<times> int \<Rightarrow> 'w clock \<times> int \<times> int" where
  "last_change [] t ad = (t, ad)"
| "last_change ((now, nconnecting, ad) # rs) t ad' = (if ad = ad' then last_change rs t ad' else last_change rs now ad)"

lemma watch_run_append:
  "watch_run d (rs @ qs) wt = andthen (watch_run d rs wt) (watch_run d qs)"
proof (induction d rs wt rule: watch_run.induct)
  case (2 d now nc na nd rs wt)
  then show ?case by (cases "watch_status d now nc na nd wt") auto
qed simp

lemma watch_run_end:
  "watch_run d rs wt = Some (Go wt') \<Longrightarrow> wt_test_end wt = t + run_ticks d \<Longrightarrow>
   last_change rs t (wt_old_nalive wt, wt_old_ndead wt) = (wt_test_end wt' - run_ticks d, wt_old_nalive wt', wt_old_ndead wt')"
proof (induction d rs wt arbitrary: t rule: watch_run.induct)
  case (2 d now nc na nd rs wt)
  from "2.prems"(1) obtain wt1 where wt1: "\<not> time_up d now wt" "watch_status d now nc na nd wt = Go wt1"
    "watch_run d rs wt1 = Some (Go wt')" by (auto simp: andthen_Go split: if_splits)
  note ih = "2.IH"[OF wt1(1), of wt1 "if na \<noteq> wt_old_nalive wt \<or> nd \<noteq> wt_old_ndead wt then now else t"]
  show ?case
  proof (cases "na \<noteq> wt_old_nalive wt \<or> nd \<noteq> wt_old_ndead wt")
    case True
    then have "wt1 = wt\<lparr>wt_test_end := now + run_ticks d, wt_old_nalive := na, wt_old_ndead := nd\<rparr>"
      using wt1(2) by (auto simp: watch_status_def split: if_splits)
    with ih wt1(3) True show ?thesis by auto
  next
    case False
    then have "wt1 = wt" using wt1(2) by (simp add: watch_status_def)
    with ih wt1(3) False "2.prems"(2) show ?thesis by auto
  qed
qed simp

subsection \<open>How long the sleep is\<close>

text \<open>Neither the product nor the result overflows.\<close>

definition no_overflow :: "'w::len clock \<Rightarrow> bool" where
  "no_overflow tix =
     (- (2 ^ (LENGTH('w) - 1)) \<le> sint tix * 1000 \<and> sint tix * 1000 < 2 ^ (LENGTH('w) - 1) \<and>
      is_int (cdiv (sint tix * 1000) eclock_HERTZ + 1))"

lemma sint_times_1000:
  fixes tix :: "'w::len clock"
  shows "sint (tix * 1000) = signed_take_bit (LENGTH('w) - 1) (sint tix * 1000)"
proof -
  have "tix * 1000 = word_of_int (sint tix * 1000)" by simp
  then show ?thesis by (simp only: sint_sbintrunc')
qed

lemma sint_32: "is_int v \<Longrightarrow> sint (word_of_int v :: 32 word) = v"
  unfolding sint_sbintrunc' is_int_def by (intro signed_take_bit_int_eq_self) auto

lemma ms_until_exact:
  assumes "no_overflow (t - now)"
  shows "ms_until t now = cdiv (sint (t - now) * 1000) eclock_HERTZ + 1"
proof -
  have "sint ((t - now) * 1000) = sint (t - now) * 1000"
    unfolding sint_times_1000 using assms by (intro signed_take_bit_int_eq_self) (simp_all add: no_overflow_def)
  then show ?thesis using assms by (simp only: ms_until_def Let_def sint_32 no_overflow_def)
qed

lemma cdiv_ticks: "0 \<le> d \<Longrightarrow> cdiv (d * 1000) eclock_HERTZ = d div 10" "d < 0 \<Longrightarrow> cdiv (d * 1000) eclock_HERTZ = - (- d div 10)"
proof -
  have q: "k * 1000 div 10000 = k div 10" for k :: int
    using div_mult_mult2[of 1000 k 10] by simp
  show "0 \<le> d \<Longrightarrow> cdiv (d * 1000) eclock_HERTZ = d div 10" using q[of d] by (simp add: cdiv_nonneg eclock_HERTZ_def)
  show "cdiv (d * 1000) eclock_HERTZ = - (- d div 10)" if "d < 0"
  proof -
    have "cdiv (d * 1000) eclock_HERTZ = - ((- d) * 1000 div 10000)" using that by (simp add: cdiv_def eclock_HERTZ_def)
    with q[of "- d"] show ?thesis by simp
  qed
qed

lemma ms_until_bounds:
  assumes "no_overflow (t - now)"
  shows "0 \<le> sint (t - now) \<Longrightarrow> sint (t - now) < 10 * ms_until t now \<and> 10 * ms_until t now \<le> sint (t - now) + 10"
    "sint (t - now) < 0 \<Longrightarrow> ms_until t now \<le> 1" "sint (t - now) \<le> -20 \<Longrightarrow> ms_until t now < 0"
  unfolding ms_until_exact[OF assms] using cdiv_ticks[of "sint (t - now)"] by auto

text \<open>What the wait is called with.\<close>

lemma sleep_step_lemma:
  assumes sys: "sys_ok S b" and ok: "farm_ok b w"
  shows "\<exists>now t w1. sleep_step S PC clamp w = on_osw (po_waitForEvents PC (clamp (ms_until t now))) w1 \<and>
           read_eclock (base_calls S CPlatoon) w = (now, w1) \<and> farm_ok b w1 \<and> nextTime (wd_sked w1) (now + of_int eclock_HERTZ) = Some t \<and>
           (if timers w = Map.empty then t = now + of_int eclock_HERTZ
            else (\<exists>c. timers w c = Some t) \<and> (\<forall>e u. timers w e = Some u \<longrightarrow> \<not> eclock_after t u))"
proof -
  obtain ls s P h x where w: "w = mk ls s P h x" by (rule mk_cases)
  obtain now x' where r: "read_eclock (base_calls S CPlatoon) (mk ls s P h x) = (now, mk ls s P h x')"
    using clock_read[OF sys] by blast
  have inv: "sked_inv b s" using ok by (simp add: w queue_ok_def)
  obtain t where t: "nextTime s (now + of_int eclock_HERTZ) = Some t"
    "if schedule s = Map.empty then t = now + of_int eclock_HERTZ
     else (\<exists>c. schedule s c = Some t) \<and> (\<forall>e u. schedule s e = Some u \<longrightarrow> \<not> eclock_after t u)"
  proof (cases "schedule s = Map.empty")
    case True
    with nextTime_least[OF inv, of "now + of_int eclock_HERTZ"] that show ?thesis by simp
  next
    case False
    with nextTime_least[OF inv, of "now + of_int eclock_HERTZ"] that show ?thesis by fastforce
  qed
  have "sleep_step S PC clamp w = on_osw (po_waitForEvents PC (clamp (ms_until t now))) (mk ls s P h x')"
    using r t(1) by (simp add: sleep_step_def w)
  then show ?thesis using r t ok unfolding w by (intro exI[of _ now] exI[of _ t] exI[of _ "mk ls s P h x'"]) simp
qed

subsection \<open>Properties\<close>

text \<open>
  C32. The main loop of bench.cc sleeps until the earliest event, a second if there is none, as long as no
  number overflows: it wakes after the event is due and no more than a millisecond (ten ticks) late,
  and an event that is already due costs at most a millisecond.
\<close>
theorem sleeps_until_next_event:
  assumes sys: "sys_ok S b" and ok: "farm_ok b w"
  shows "\<exists>now t w1 ms. sleep_step S PC (\<lambda>ms. max 0 ms) w = on_osw (po_waitForEvents PC ms) w1 \<and>
           read_eclock (base_calls S CPlatoon) w = (now, w1) \<and> farm_ok b w1 \<and> 0 \<le> ms \<and>
           (if timers w = Map.empty then t = now + of_int eclock_HERTZ
            else (\<exists>c. timers w c = Some t) \<and> (\<forall>e u. timers w e = Some u \<longrightarrow> \<not> eclock_after t u)) \<and>
           (no_overflow (t - now) \<longrightarrow>
              (if 0 \<le> sint (t - now) then sint (t - now) < 10 * ms \<and> 10 * ms \<le> sint (t - now) + 10 else ms \<le> 1))"
proof -
  obtain now t w1 where s: "sleep_step S PC (\<lambda>ms. max 0 ms) w = on_osw (po_waitForEvents PC (max 0 (ms_until t now))) w1"
    "read_eclock (base_calls S CPlatoon) w = (now, w1)" "farm_ok b w1"
    "if timers w = Map.empty then t = now + of_int eclock_HERTZ
     else (\<exists>c. timers w c = Some t) \<and> (\<forall>e u. timers w e = Some u \<longrightarrow> \<not> eclock_after t u)"
    using sleep_step_lemma[OF assms, of PC "\<lambda>ms. max 0 ms"] by metis
  have "no_overflow (t - now) \<longrightarrow>
      (if 0 \<le> sint (t - now) then sint (t - now) < 10 * max 0 (ms_until t now) \<and> 10 * max 0 (ms_until t now) \<le> sint (t - now) + 10
       else max 0 (ms_until t now) \<le> 1)"
    using ms_until_bounds[of t now] by (auto simp: max_def)
  with s show ?thesis by (intro exI[of _ now] exI[of _ t] exI[of _ w1] exI[of _ "max 0 (ms_until t now)"] conjI) (simp_all only: max.cobounded1)
qed

text \<open>A poller that comes up and never has an event, for the witnesses.\<close>

definition po0 :: "osx poller" where
  "po0 = \<lparr>po_init = (\<lambda>x. Some (OK, x)), po_setSignum = (\<lambda>x. Some (OK, x)), po_shutdown = (\<lambda>x. Some x),
     po_getNextEvent = (\<lambda>x. Some (Fail EWOULDBLOCK, None, x)), po_waitForEvents = (\<lambda>ms x. Some (Fail EWOULDBLOCK, x))\<rparr>"

lemma farm0_clock: "read_eclock (base_calls sys0 c) (farm0 x) = (0, farm0 x)"
  by (simp add: read_eclock_def on_x_def base_calls_def on_os_def sys0_def eclock_def farm0_def mk_def)

theorem sleeps_until_next_event_witness:
  "\<exists>w1. sleep_step sys0 po0 (\<lambda>ms. max 0 ms) (farm0 ox0) = on_osw (po_waitForEvents po0 1001) w1"
proof -
  obtain now t w1 ms where s: "sleep_step sys0 po0 (\<lambda>ms. max 0 ms) (farm0 ox0) = on_osw (po_waitForEvents po0 ms) w1"
    "read_eclock (base_calls sys0 CPlatoon) (farm0 ox0) = (now, w1)"
    "timers (farm0 ox0) = Map.empty \<longrightarrow> t = now + of_int eclock_HERTZ"
    "no_overflow (t - now) \<longrightarrow>
       (if 0 \<le> sint (t - now) then sint (t - now) < 10 * ms \<and> 10 * ms \<le> sint (t - now) + 10 else ms \<le> 1)"
    using sleeps_until_next_event[OF sys0_ok farm0_ok, of po0 ox0] by metis
  have "timers (farm0 ox0) = Map.empty" by (simp add: farm0_def)
  then have "t - now = 10000" using s(3) by (simp add: eclock_HERTZ_def)
  moreover have "no_overflow (10000 :: 64 clock)" by (simp add: no_overflow_def is_int_def cdiv_nonneg eclock_HERTZ_def)
  ultimately have "ms = 1001" using s(4) by simp
  with s(1) show ?thesis by blast
qed

text \<open>
  With 32-bit clocks an event between 215 and 429 seconds away makes the product overflow, and the time
  to sleep is negative: bench.cc spins, CorbaPlatoon\_impl.cc waits for ever.
\<close>
theorem sleep_overflows_32:
  fixes t now :: "32 clock"
  assumes "2147484 \<le> sint (t - now)" "sint (t - now) \<le> 4294900"
  shows "ms_until t now < 0"
proof -
  let ?d = "sint (t - now) * 1000"
  have "sint ((t - now) * 1000) = signed_take_bit 31 ?d" using sint_times_1000[of "t - now"] by (simp only: len_num1 len_bit0) simp
  also have "\<dots> = signed_take_bit 31 (?d - 2 ^ 32)"
    by (rule signed_take_bit_eq_iff_take_bit_eq[THEN iffD2]) (simp add: take_bit_eq_mod)
  also have "\<dots> = ?d - 2 ^ 32" using assms by (intro signed_take_bit_int_eq_self) auto
  finally have eq: "sint ((t - now) * 1000) = ?d - 2 ^ 32" .
  have "cdiv (?d - 2 ^ 32) eclock_HERTZ = - ((2 ^ 32 - ?d) div 10000)" using assms by (simp add: cdiv_def eclock_HERTZ_def)
  moreover have "2 \<le> (2 ^ 32 - ?d) div 10000" "(2 ^ 32 - ?d) div 10000 < 2 ^ 31" using assms by auto
  ultimately have "is_int (cdiv (?d - 2 ^ 32) eclock_HERTZ + 1)" "cdiv (?d - 2 ^ 32) eclock_HERTZ + 1 < 0" by (auto simp: is_int_def)
  then show ?thesis by (simp only: ms_until_def eq Let_def sint_32)
qed

theorem sleep_overflows_32_witness: "ms_until (3000000 :: 32 clock) 0 < 0"
  by (rule sleep_overflows_32) simp_all

text \<open>
  Where \<open>clock_t\<close> is 64 bits wide the clock still wraps at 32: a test whose end lies beyond \<open>2^31\<close> ticks
  never ends, whatever the time of day.
\<close>
theorem test_end_unreachable_64:
  fixes t0 :: "64 clock"
  assumes "2 ^ 31 \<le> sint t0 + d * eclock_HERTZ" "sint t0 + d * eclock_HERTZ < 2 ^ 62"
  shows "\<not> time_up d (eclock sec usec) (watch_start d t0)"
proof -
  define m where "m = sint (word_of_int (sec * eclock_HERTZ + usec div eclock_TICKSPERUSEC) :: 32 word)"
  have m: "- (2 ^ 31) \<le> m" "m < 2 ^ 31"
    using sint_range_size[of "word_of_int (sec * eclock_HERTZ + usec div eclock_TICKSPERUSEC) :: 32 word"]
    by (simp_all add: m_def word_size)
  have now: "(eclock sec usec :: 64 clock) = word_of_int m" by (simp only: eclock_def scast_eq m_def)
  define e where "e = sint t0 + d * eclock_HERTZ"
  have "t0 + run_ticks d = word_of_int e" by (simp add: e_def run_ticks_def)
  then have "eclock sec usec - (t0 + run_ticks d) = (word_of_int (m - e) :: 64 word)" by (simp add: now)
  moreover have "sint (word_of_int (m - e) :: 64 word) = m - e"
    unfolding sint_sbintrunc' using m assms[folded e_def] by (intro signed_take_bit_int_eq_self) auto
  ultimately show ?thesis using m assms[folded e_def] by (simp add: time_up_def watch_start_def eclock_after_def)
qed

theorem test_end_unreachable_64_witness: "\<not> time_up 3600 (eclock 214000 0) (watch_start 3600 (2140000000 :: 64 clock))"
proof (rule test_end_unreachable_64)
  have "sint (2140000000 :: 64 word) = 2140000000" by simp
  then show "2 ^ 31 \<le> sint (2140000000 :: 64 clock) + 3600 * eclock_HERTZ" "sint (2140000000 :: 64 clock) + 3600 * eclock_HERTZ < 2 ^ 62"
    by (simp_all add: eclock_HERTZ_def)
qed

end
