(* ===== verification/Bench.thy ===== *)
theory Bench
  imports Event_loop
begin

unbundle bit_operations_syntax

text \<open>
  The program bench.cc: \<open>main\<close> after its options are parsed. It sets up the event queue, a poller and
  the platoon, and runs the main loop until the test is over or has failed.
\<close>

subsection \<open>Local addresses\<close>

text \<open>
  The interface list of \<open>getifaddrs\<close>: what the code reads at the place of an IPv4 address, None where an
  interface has no address. The loopback address is left out.
\<close>

definition localhost :: "32 word" where
  "localhost = htonl (MAKE_INT32 127 0 0 1)"

definition local_addrs :: "32 word option list \<Rightarrow> sockaddr_in list" where
  "local_addrs ifs =
     map (\<lambda>a. \<lparr>sin_family = AF_INET, s_addr = a, sin_port = 0\<rparr>) (filter (\<lambda>a. a \<noteq> localhost) (List.map_filter (\<lambda>p. p) ifs))"

subsection \<open>Choosing the poller\<close>

text \<open>The back ends, and which of them and of the calls are compiled in.\<close>

datatype backend = BPoll | BSelect | BDevpoll | BKqueue | BSigio | BSigfd

record build =
  HAVE_DEVPOLL :: bool
  HAVE_KQUEUE :: bool
  HAVE_F_SETSIG :: bool
  HAVE_F_SETAUXFL :: bool
  SIGRTMIN_defined :: bool

definition pick_poller :: "build \<Rightarrow> char \<Rightarrow> backend option" where
  "pick_poller cf c =
     (if c = CHR ''p'' then Some BPoll
      else if c = CHR ''s'' then Some BSelect
      else if c = CHR ''d'' \<and> HAVE_DEVPOLL cf then Some BDevpoll
      else if c = CHR ''k'' \<and> HAVE_KQUEUE cf then Some BKqueue
      else if c = CHR ''r'' \<and> HAVE_F_SETSIG cf then Some BSigio
      else if c = CHR ''f'' \<and> HAVE_F_SETAUXFL cf then Some BSigfd
      else None)"

definition init_poller :: "build \<Rightarrow> 'o poller \<Rightarrow> ('w::len, 'o) farm_world \<Rightarrow> ('w, 'o) farm_world outcome option" where
  "init_poller cf PC w = do {
     (err, w1) \<leftarrow> on_osw (po_init PC) w;
     andthen (Some (check_ok err w1)) (\<lambda>w1.
       if SIGRTMIN_defined cf then do { (err2, w2) \<leftarrow> on_osw (po_setSignum PC) w1; Some (check_ok err2 w2) }
       else Some (Go w1))
   }"

subsection \<open>Setting up\<close>

text \<open>The cast to \<open>robouser_t::state_t\<close>; a number that is no state has no result.\<close>

definition state_of :: "int \<Rightarrow> state_t option" where
  "state_of k = (if 0 \<le> k \<and> nat k < length states then Some (states ! nat k) else None)"

text \<open>The constructor of the platoon, \<open>init\<close> and the setters.\<close>

definition platoon_start ::
  "('w::len, 'o) system \<Rightarrow> args \<Rightarrow> sockaddr_in list \<Rightarrow> ('w, 'o) farm_world \<Rightarrow> ('w, 'o) farm_world option" where
  "platoon_start S a ls w = do {
     let w1 = w\<lparr>wd_sked := (wd_sked w)\<lparr>skedIndex := (skedIndex (wd_sked w))(CPlatoon := 0)\<rparr>, wd_locals := ls\<rparr>;
     P \<leftarrow> pl_init (ar_filename a) (ar_clientBandwidth a) (ar_minClientBandwidth a) (ar_mtu a) (ar_hostname a) (ar_portnum a)
            (ar_username a) (ar_password a) (ar_useAllLocalIfs a) (length ls) (platoon_of w1);
     w2 \<leftarrow> set_nuserTarget S (ar_users a) (put_platoon P w1);
     w3 \<leftarrow> set_nconnectingTarget S (ar_nconnectingTarget a) w2;
     st \<leftarrow> state_of (ar_lastConnectingState a);
     w4 \<leftarrow> set_lastConnectingState S st w3;
     Some (setVerbosity (ar_verbosity a) w4)
   }"

text \<open>
  \<open>mem\<close> is what the queue's \<open>malloc\<close> returns; \<open>B\<close> gives the system's calls and the poller for each back
  end. The result is the back end, the watch with the end of the test, and the world.
\<close>

definition bench_setup ::
  "build \<Rightarrow> (backend \<Rightarrow> ('w::len, 'o) system \<times> 'o poller) \<Rightarrow> (client, 'w) skrec list option \<Rightarrow> 32 word option list \<Rightarrow> args \<Rightarrow>
   ('w, 'o) farm_world \<Rightarrow> (backend \<times> 'w watch \<times> ('w, 'o) farm_world) outcome option" where
  "bench_setup cf B mem ifs a w =
     (let ls = (if ar_useAllLocalIfs a then local_addrs ifs else []); (r, s) = sked_init mem (wd_sked w) in
      if r \<noteq> OK then Some (Exit 1)
      else case pick_poller cf (ar_selector a) of
        None \<Rightarrow> Some (Exit 1)
      | Some k \<Rightarrow> (case B k of (S, PC) \<Rightarrow>
          andthen (init_poller cf PC (w\<lparr>wd_sked := s\<rparr>)) (\<lambda>w1. do {
            w2 \<leftarrow> platoon_start S a ls w1;
            let (now, w3) = read_eclock (base_calls S CPlatoon) w2;
            Some (Go (k, watch_start (ar_duration a) now, w3))
          })))"

subsection \<open>The main loop\<close>

text \<open>
  The work of a round after the status: the due events, the ready clients, the wait. \<open>status err\<close> is the
  exit status after a failed wait.
\<close>

definition work_step ::
  "('w::len, 'o) system \<Rightarrow> 'o poller \<Rightarrow> (int \<Rightarrow> int) \<Rightarrow> (rc \<Rightarrow> int) \<Rightarrow> 'w clock \<Rightarrow> ('w, 'o) farm_world \<Rightarrow>
   ('w, 'o) farm_world outcome option" where
  "work_step S PC clamp status now w = do {
     (r, w1) \<leftarrow> farm_runAll S now w;
     andthen (service S PC w1) (\<lambda>w2. do {
       (err, w3) \<leftarrow> sleep_step S PC clamp w2;
       Some (if wait_failed err then Exit (status err) else Go w3)
     })
   }"

text \<open>A round: None and the loop is left, or the report of the status.\<close>

definition bench_round ::
  "('w::len, 'o) system \<Rightarrow> 'o poller \<Rightarrow> int \<Rightarrow> 'w watch \<Rightarrow> ('w, 'o) farm_world \<Rightarrow>
   ('w report option \<times> 'w watch \<times> ('w, 'o) farm_world) outcome option" where
  "bench_round S PC duration wt w = do {
     let (now, w1) = read_eclock (base_calls S CPlatoon) w;
     if time_up duration now wt then Some (Go (None, wt, w1))
     else do {
       ((nconnecting, nalive, ndead, bytes), w2) \<leftarrow> getStatus_pl S w1;
       andthen (Some (watch_status duration now nconnecting nalive ndead wt)) (\<lambda>wt1.
         andthen (work_step S PC (\<lambda>ms. max 0 ms) (\<lambda>err. 1) now w2) (\<lambda>w3.
           Some (Go (Some (now, nconnecting, nalive, ndead), wt1, w3))))
     }
   }"

partial_function (option) main_loop ::
  "('w::len, 'o) system \<Rightarrow> 'o poller \<Rightarrow> int \<Rightarrow> 'w watch \<Rightarrow> ('w, 'o) farm_world \<Rightarrow> ('w watch \<times> ('w, 'o) farm_world) outcome option" where
  "main_loop S PC duration wt w =
     andthen (bench_round S PC duration wt w) (\<lambda>q.
       if fst q = None then Some (Go (snd q)) else main_loop S PC duration (fst (snd q)) (snd (snd q)))"

text \<open>The exit status of the program.\<close>

definition bench_main ::
  "build \<Rightarrow> (backend \<Rightarrow> ('w::len, 'o) system \<times> 'o poller) \<Rightarrow> (client, 'w) skrec list option \<Rightarrow> 32 word option list \<Rightarrow>
   char list list \<Rightarrow> ('w, 'o) farm_world \<Rightarrow> int option" where
  "bench_main cf B mem ifs argv w = do {
     r \<leftarrow> andthen (options bench_arg bench_defaults argv) (\<lambda>a.
           andthen (bench_setup cf B mem ifs a w) (\<lambda>(k, wt, w1).
             andthen (main_loop (fst (B k)) (snd (B k)) (ar_duration a) wt w1) (\<lambda>(wt1, w2). do {
               (u, w3) \<leftarrow> on_osw (\<lambda>x. do { x1 \<leftarrow> po_shutdown (snd (B k)) x; Some ((), x1) }) w2;
               Some (Go w3)
             })));
     Some (case r of Exit n \<Rightarrow> n | Go w3 \<Rightarrow> 0)
   }"

subsection \<open>Runs of the main loop\<close>

text \<open>Rounds that go on, with their reports.\<close>

inductive rounds ::
  "('w::len, 'o) system \<Rightarrow> 'o poller \<Rightarrow> int \<Rightarrow> 'w watch \<Rightarrow> ('w, 'o) farm_world \<Rightarrow> 'w report list \<Rightarrow>
   'w watch \<Rightarrow> ('w, 'o) farm_world \<Rightarrow> bool"
  for S :: "('w, 'o) system" and PC d where
  rounds_none: "rounds S PC d wt w [] wt w"
| rounds_next: "bench_round S PC d wt w = Some (Go (Some q, wt1, w1)) \<Longrightarrow> rounds S PC d wt1 w1 qs wt' w' \<Longrightarrow>
    rounds S PC d wt w (q # qs) wt' w'"

lemma rounds_main_loop:
  "rounds S PC d wt w rs wt' w1 \<Longrightarrow> bench_round S PC d wt' w1 = Some (Go (None, wt', w')) \<Longrightarrow>
   main_loop S PC d wt w = Some (Go (wt', w'))"
  by (induction rule: rounds.induct) (simp_all add: main_loop.simps[of S PC d _ _])

lemma bench_round_None:
  "bench_round S PC d wt w = Some (Go (None, wt1, w1)) \<longleftrightarrow>
   wt1 = wt \<and> time_up d (fst (read_eclock (base_calls S CPlatoon) w)) wt \<and> w1 = snd (read_eclock (base_calls S CPlatoon) w)"
proof -
  obtain now w0 where n: "read_eclock (base_calls S CPlatoon) w = (now, w0)" by fastforce
  show ?thesis
  proof (cases "time_up d now wt")
    case True
    then have "bench_round S PC d wt w = Some (Go (None, wt, w0))" using n by (simp add: bench_round_def)
    with True n show ?thesis by auto
  next
    case False
    then show ?thesis using n by (auto simp: bench_round_def bind_eq_Some_conv andthen_Go)
  qed
qed

lemma bench_round_watch:
  "bench_round S PC d wt w = Some (Go (Some q, wt1, w1)) \<Longrightarrow> watch_run d [q] wt = Some (Go wt1)"
  by (auto simp: bench_round_def bind_eq_Some_conv andthen_Go split: prod.splits if_splits)

lemma main_loop_rounds:
  "main_loop S PC d wt w = Some r \<Longrightarrow>
   (\<forall>wt' w'. r = Go (wt', w') \<longrightarrow> (\<exists>rs w1. rounds S PC d wt w rs wt' w1 \<and> bench_round S PC d wt' w1 = Some (Go (None, wt', w'))))"
proof (induction rule: main_loop.raw_induct[rotated, consumes 1, case_names step])
  case (step ml S PC d wt w r)
  show ?case
  proof (intro allI impI)
    fix wt' w'
    assume r: "r = Go (wt', w')"
    obtain q where "bench_round S PC d wt w = Some (Go q)"
      "(if fst q = None then Some (Go (snd q)) else ml S PC d (fst (snd q)) (snd (snd q))) = Some (Go (wt', w'))"
      using step(2) unfolding r andthen_Go by blast
    moreover obtain rep wt1 w1 where eq: "q = (rep, wt1, w1)" by (rule prod_cases3)
    ultimately have q: "bench_round S PC d wt w = Some (Go (rep, wt1, w1))"
      "(if rep = None then Some (Go (wt1, w1)) else ml S PC d wt1 w1) = Some (Go (wt', w'))"
      unfolding eq fst_conv snd_conv by blast+
    show "\<exists>rs w1. rounds S PC d wt w rs wt' w1 \<and> bench_round S PC d wt' w1 = Some (Go (None, wt', w'))"
    proof (cases rep)
      case None
      with q have "bench_round S PC d wt w = Some (Go (None, wt', w'))" by simp
      with bench_round_None[of S PC d wt w wt' w'] show ?thesis using rounds_none[of S PC d wt w] by metis
    next
      case (Some rp)
      with q(2) have "ml S PC d wt1 w1 = Some (Go (wt', w'))" by simp
      from step(1)[OF this] obtain rs w2 where "rounds S PC d wt1 w1 rs wt' w2"
        "bench_round S PC d wt' w2 = Some (Go (None, wt', w'))" by blast
      with rounds_next[OF q(1)[unfolded Some]] show ?thesis by blast
    qed
  qed
qed

lemma main_loop_iff:
  "main_loop S PC d wt w = Some (Go (wt', w')) \<longleftrightarrow>
   (\<exists>rs w1. rounds S PC d wt w rs wt' w1 \<and> bench_round S PC d wt' w1 = Some (Go (None, wt', w')))"
  using main_loop_rounds[of S PC d wt w "Go (wt', w')"] rounds_main_loop[of S PC d wt w _ wt' _ w'] by blast

lemma rounds_watch: "rounds S PC d wt w rs wt' w' \<Longrightarrow> watch_run d rs wt = Some (Go wt')"
proof (induction rule: rounds.induct)
  case (rounds_next wt w q wt1 w1 qs wt' w')
  with watch_run_append[of d "[q]" qs wt] bench_round_watch[OF rounds_next(1)] show ?case by simp
qed simp

subsection \<open>Starting the platoon\<close>

lemma set_target_lemmas:
  assumes sys: "sys_ok S b" and q: "queue_ok b s h"
  shows "\<exists>s' x' now. set_nuserTarget S n (mk ls s P h x) = Some (mk ls s' (P\<lparr>pl_nuserTarget := n\<rparr>) h x') \<and> queue_ok b s' h \<and>
            schedule s' = (schedule s)(CPlatoon \<mapsto> now)"
    "\<exists>s' x' now. set_nconnectingTarget S n (mk ls s P h x) = Some (mk ls s' (P\<lparr>pl_nconnectingTarget := n\<rparr>) h x') \<and> queue_ok b s' h \<and>
            schedule s' = (schedule s)(CPlatoon \<mapsto> now)"
    "\<exists>s' x' now. set_lastConnectingState S st (mk ls s P h x) = Some (mk ls s' (P\<lparr>pl_lastConnectingState := st\<rparr>) h x') \<and> queue_ok b s' h \<and>
            schedule s' = (schedule s)(CPlatoon \<mapsto> now)"
  using platoon_wakeUp_lemma[OF sys q]
  by (simp_all add: set_nuserTarget_def set_nconnectingTarget_def set_lastConnectingState_def)

text \<open>The values \<open>init\<close> and the setters leave in the platoon, for every member.\<close>

definition fresh_platoon :: "args \<Rightarrow> sockaddr_in list \<Rightarrow> state_t \<Rightarrow> 'w::len platoon \<Rightarrow> bool" where
  "fresh_platoon a ls st P =
     (pl_users P = replicate Platoon_MAXUSERS None \<and> pl_nInState P = replicate NUMSTATES 0 \<and> pl_deadlist P = [] \<and>
      pl_local_addrs P = ar_useAllLocalIfs a \<and> pl_n_local_addrs P = length ls \<and> pl_nuserTarget P = ar_users a \<and>
      pl_nconnectingTarget P = ar_nconnectingTarget a \<and> pl_lastConnectingState P = st \<and>
      cstr (pl_servername P) = ar_hostname a \<and> cstr (pl_username P) = ar_username a \<and> cstr (pl_passwd P) = ar_password a \<and>
      pl_port P = ar_portnum a \<and> pl_maxBytesPerSec P = ar_clientBandwidth a \<and> pl_minBytesPerSec P = ar_minClientBandwidth a \<and>
      pl_filename P = ar_filename a \<and> pl_bytesPerRead P = ar_mtu a \<and> pl_verbosity P = ar_verbosity a \<and>
      pl_bytesFetched P = 0 \<and> pl_nreads P = 0)"

definition names_fit :: "args \<Rightarrow> 'w::len platoon \<Rightarrow> bool" where
  "names_fit a P =
     (length (ar_hostname a) < length (pl_servername P) \<and> length (ar_username a) < length (pl_username P) \<and>
      length (ar_password a) < length (pl_passwd P) \<and>
      NUL \<notin> set (ar_hostname a) \<union> set (ar_username a) \<union> set (ar_password a))"

lemma platoon_start_lemma:
  assumes sys: "sys_ok S b" and q: "queue_ok b s Map.empty" and fresh: "schedule s CPlatoon = None" and fit: "names_fit a P"
    and st: "state_of (ar_lastConnectingState a) = Some st"
  shows "\<exists>s' P' x' now. platoon_start S a ls (mk old s P Map.empty x) = Some (mk ls s' P' Map.empty x') \<and>
            queue_ok b s' Map.empty \<and> schedule s' = (schedule s)(CPlatoon \<mapsto> now) \<and> fresh_platoon a ls st P'"
proof -
  have "skedIndex s CPlatoon = 0" using fresh by (rule queue_fresh)
  then have s0: "s\<lparr>skedIndex := (skedIndex s)(CPlatoon := 0)\<rparr> = s" by (simp add: fun_upd_idem)
  have w1: "(mk old s P Map.empty x)\<lparr>wd_sked := s\<lparr>skedIndex := (skedIndex s)(CPlatoon := 0)\<rparr>, wd_locals := ls\<rparr> = mk ls s P Map.empty x"
    unfolding s0 by (simp add: mk_def)
  obtain P0 where P0: "pl_init (ar_filename a) (ar_clientBandwidth a) (ar_minClientBandwidth a) (ar_mtu a) (ar_hostname a) (ar_portnum a)
      (ar_username a) (ar_password a) (ar_useAllLocalIfs a) (length ls) P = Some P0"
    "fresh_platoon a ls st (P0\<lparr>pl_nuserTarget := ar_users a, pl_nconnectingTarget := ar_nconnectingTarget a, pl_lastConnectingState := st,
       pl_verbosity := ar_verbosity a\<rparr>)"
    using fit by (auto simp: pl_init_def names_fit_def fresh_platoon_def)
  obtain s1 x1 t1 where 1: "set_nuserTarget S (ar_users a) (mk ls s P0 Map.empty x) = Some (mk ls s1 (P0\<lparr>pl_nuserTarget := ar_users a\<rparr>) Map.empty x1)"
    "queue_ok b s1 Map.empty" "schedule s1 = (schedule s)(CPlatoon \<mapsto> t1)"
    using set_target_lemmas(1)[OF sys q, of "ar_users a" ls P0 x] by blast
  let ?P1 = "P0\<lparr>pl_nuserTarget := ar_users a\<rparr>"
  obtain s2 x2 t2 where 2: "set_nconnectingTarget S (ar_nconnectingTarget a) (mk ls s1 ?P1 Map.empty x1) =
      Some (mk ls s2 (?P1\<lparr>pl_nconnectingTarget := ar_nconnectingTarget a\<rparr>) Map.empty x2)"
    "queue_ok b s2 Map.empty" "schedule s2 = (schedule s1)(CPlatoon \<mapsto> t2)"
    using set_target_lemmas(2)[OF sys 1(2), of "ar_nconnectingTarget a" ls ?P1 x1] by blast
  let ?P2 = "?P1\<lparr>pl_nconnectingTarget := ar_nconnectingTarget a\<rparr>"
  obtain s3 x3 t3 where 3: "set_lastConnectingState S st (mk ls s2 ?P2 Map.empty x2) =
      Some (mk ls s3 (?P2\<lparr>pl_lastConnectingState := st\<rparr>) Map.empty x3)"
    "queue_ok b s3 Map.empty" "schedule s3 = (schedule s2)(CPlatoon \<mapsto> t3)"
    using set_target_lemmas(3)[OF sys 2(2), of st ls ?P2 x2] by blast
  let ?P = "?P2\<lparr>pl_lastConnectingState := st, pl_verbosity := ar_verbosity a\<rparr>"
  have "platoon_start S a ls (mk old s P Map.empty x) = Some (mk ls s3 ?P Map.empty x3)"
    using P0(1) 1(1) 2(1) 3(1) st unfolding platoon_start_def mk_parts(1) w1 Let_def by (simp add: setVerbosity_def)
  moreover have "fresh_platoon a ls st ?P" using P0(2) by (simp add: fresh_platoon_def)
  ultimately show ?thesis using 1(3) 2(3) 3(2,3)
    by (intro exI[of _ s3] exI[of _ ?P] exI[of _ x3] exI[of _ t3]) simp
qed

lemma fresh_farm_inv:
  assumes "fresh_platoon a ls st P" "ar_useAllLocalIfs a \<longrightarrow> ls \<noteq> []"
  shows "farm_inv P Map.empty"
  using assms by (simp add: fresh_platoon_def farm_inv_def table_ok_def counts_ok_def in_state_def NUMSTATES_def
      nth_replicate state_no_less[unfolded NUMSTATES_def, simplified])

subsection \<open>Failure\<close>

lemma all_dead_status:
  assumes sys: "sys_ok S b" and ok: "farm_ok b w" and dead: "alive (users_of w) = {}"
    and lcs: "pl_lastConnectingState (platoon_of w) \<noteq> STOPPED"
  shows "\<exists>w' bytes. getStatus_pl S w = Some ((0, 0, pl_nInState (platoon_of w) ! state_no STOPPED, bytes), w') \<and> farm_ok b w' \<and>
           users_of w' = Map.empty"
proof -
  obtain w' where w': "reap S w = Some w'" "farm_ok b w'" "users_of w' = users_of w |` (- in_state (users_of w) STOPPED)"
    "platoon_of w' = (platoon_of w)\<lparr>pl_users := pl_users (platoon_of w'), pl_deadlist := []\<rparr>"
    using reap_ok[OF sys ok] by blast
  have empty: "users_of w' = Map.empty"
    unfolding w'(3) using dead in_state_dom[of "users_of w" STOPPED] by (auto simp: alive_def restrict_map_def fun_eq_iff)
  let ?n = "pl_nInState (platoon_of w')"
  have n: "?n = pl_nInState (platoon_of w)" "pl_lastConnectingState (platoon_of w') = pl_lastConnectingState (platoon_of w)"
    using arg_cong[OF w'(4), of pl_nInState] arg_cong[OF w'(4), of pl_lastConnectingState] by simp_all
  have z: "?n ! state_no st = 0" if "st \<noteq> UNINIT" "st \<noteq> STOPPED" for st
    using w'(2) that empty unfolding farm_ok_def farm_inv_def counts_ok_def by (simp add: in_state_def)
  have nums: "?n ! 1 = 0" "?n ! 2 = 0" "?n ! 3 = 0" "?n ! 4 = 0" "?n ! 5 = 0" "?n ! 6 = 0"
    using z[of CONNECT] z[of CONNECTING] z[of START_TYPE] z[of FINISH_TYPE] z[of GET] z[of GETTING_FILE] by simp_all
  have "sumInState (platoon_of w') CONNECT st = 0" if "st \<noteq> STOPPED" for st
    using that nums by (cases st) (simp_all add: sumInState_def upt_rec eval_nat_numeral)
  moreover have "sumInState (platoon_of w') STOPPED STOPPED = pl_nInState (platoon_of w) ! state_no STOPPED"
    unfolding sumInState_def n(1) by simp
  ultimately have "getStatus_pl S w = Some ((0, 0, pl_nInState (platoon_of w) ! state_no STOPPED, pl_bytesFetched (platoon_of w')), w')"
    using w'(1) lcs n(2) by (simp add: getStatus_pl_def Let_def)
  with w'(2) empty show ?thesis by blast
qed

subsection \<open>Properties\<close>

text \<open>
  C7. The set-up: with a supported selector, a poller that comes up, memory for the queue, names that fit
  the platoon's arrays, a last connecting state (\<open>-k\<close>) that is one of the states and, for \<open>-a\<close>, an address that is
  not the loopback one, it succeeds; the farm's invariant holds, every member of the platoon has the value of
  its option or its initial value, the connections have the pool of local addresses, the end of the
  test is set, and the platoon alone is queued.
\<close>
theorem setup_establishes_farm:
  assumes k: "pick_poller cf (ar_selector a) = Some k" "B k = (S, PC)" and sys: "sys_ok S b"
    and po: "\<And>x. \<exists>x'. po_init PC x = Some (OK, x')" "\<And>x. \<exists>x'. po_setSignum PC x = Some (OK, x')"
    and mem: "length xs = 256" and ctor: "\<And>c. skedIndex (wd_sked w) c = 0" "users_of w = Map.empty"
    and fit: "names_fit a (platoon_of w)" and st: "state_of (ar_lastConnectingState a) = Some st"
    and ifs: "ar_useAllLocalIfs a \<longrightarrow> local_addrs ifs \<noteq> []"
  shows "\<exists>w' now t. bench_setup cf B (Some xs) ifs a w = Some (Go (k, watch_start (ar_duration a) now, w')) \<and> farm_ok b w' \<and>
           timers w' = [CPlatoon \<mapsto> t] \<and> users_of w' = Map.empty \<and> wd_locals w' = (if ar_useAllLocalIfs a then local_addrs ifs else []) \<and>
           fresh_platoon a (if ar_useAllLocalIfs a then local_addrs ifs else []) st (platoon_of w')"
proof -
  let ?ls = "if ar_useAllLocalIfs a then local_addrs ifs else []"
  obtain ls0 s0 P h x where w: "w = mk ls0 s0 P h x" by (rule mk_cases)
  have h: "h = Map.empty" using ctor(2) by (simp add: w)
  obtain s where s: "sked_init (Some xs) s0 = (OK, s)" by (simp add: sked_init_def)
  have inv: "sked_inv b s" "schedule s = Map.empty" "m_allocated s = 256"
    using sked_init_inv(1)[of xs s0 b] sked_init_inv(2)[of xs s0] mem ctor(1) s by (auto simp: w sked_init_def)
  then have q: "queue_ok b s Map.empty" by (simp add: queue_ok_def few_def)
  obtain x1 where x1: "init_poller cf PC (mk ls0 s P Map.empty x) = Some (Go (mk ls0 s P Map.empty x1))"
  proof -
    obtain y where y: "po_init PC x = Some (OK, y)" using po(1) by blast
    obtain z where "po_setSignum PC y = Some (OK, z)" using po(2) by blast
    with y that show ?thesis by (cases "SIGRTMIN_defined cf") (auto simp: init_poller_def check_ok_def)
  qed
  obtain s' P' x2 t where p: "platoon_start S a ?ls (mk ls0 s P Map.empty x1) = Some (mk ?ls s' P' Map.empty x2)"
    "queue_ok b s' Map.empty" "schedule s' = (schedule s)(CPlatoon \<mapsto> t)" "fresh_platoon a ?ls st P'"
    using platoon_start_lemma[OF sys q _ _ st, where P = P and ls = ?ls and old = ls0 and x = x1] fit inv(2) unfolding w by auto
  obtain now x3 where r: "read_eclock (base_calls S CPlatoon) (mk ?ls s' P' Map.empty x2) = (now, mk ?ls s' P' Map.empty x3)"
    using clock_read[OF sys] by blast
  have "farm_inv P' Map.empty" using fresh_farm_inv[OF p(4)] ifs by simp
  moreover have "bench_setup cf B (Some xs) ifs a w = Some (Go (k, watch_start (ar_duration a) now, mk ?ls s' P' Map.empty x3))"
    using k x1 p(1) r s unfolding bench_setup_def Let_def w h by (simp del: if_split)
  ultimately show ?thesis using p(2-4) inv(2)
    by (intro exI[of _ "mk ?ls s' P' Map.empty x3"] exI[of _ now] exI[of _ t]) (simp add: pipes_ok_def)
qed

text \<open>
  With \<open>-a\<close> on a machine whose only interface is the loopback one, the pool of local addresses is not
  null but empty: the first user fails the assertion of \<open>start\<close>.
\<close>
theorem loopback_only_aborts:
  assumes sys: "sys_ok S b" and q: "queue_ok b (wd_sked w) Map.empty" "timers w CPlatoon = None" "users_of w = Map.empty"
    and fit: "names_fit a (platoon_of w)" and st: "state_of (ar_lastConnectingState a) = Some st" "st \<noteq> STOPPED"
    and all: "ar_useAllLocalIfs a" "\<forall>p \<in> set ifs. p = None \<or> p = Some localhost"
    and want: "0 < ar_users a" "0 < ar_nconnectingTarget a"
  shows "\<exists>w'. platoon_start S a (local_addrs ifs) w = Some w' \<and> platoon_skedCallback S w' = None"
proof -
  obtain ls0 s P h x where w: "w = mk ls0 s P h x" by (rule mk_cases)
  have none: "local_addrs ifs = []"
    using all(2) by (auto simp: local_addrs_def filter_empty_conv List.map_filter_def)
  obtain s' P' x' t where p: "platoon_start S a [] (mk ls0 s P Map.empty x) = Some (mk [] s' P' Map.empty x')"
    "queue_ok b s' Map.empty" "fresh_platoon a [] st P'"
    using platoon_start_lemma[OF sys _ _ _ st(1), where s = s and P = P and ls = "[]" and old = ls0 and x = x] q fit unfolding w by auto
  let ?w = "mk [] s' P' Map.empty x' :: ('a, 'b) farm_world"
  have P': "pl_users P' = replicate Platoon_MAXUSERS None" "pl_nInState P' = replicate 8 0" "pl_local_addrs P'" "pl_n_local_addrs P' = 0"
    "pl_lastConnectingState P' = st" "pl_nuserTarget P' = ar_users a" "pl_nconnectingTarget P' = ar_nconnectingTarget a"
    using p(3) all(1) by (simp_all add: fresh_platoon_def NUMSTATES_def)
  have sums: "sumInState P' f l = 0" for f l
  proof -
    have "map ((!) (replicate 8 (0 :: int))) [state_no f..<state_no l + 1] = map (\<lambda>i. 0) [state_no f..<state_no l + 1]"
      using state_no_less[of l] by (intro map_cong) (auto simp: NUMSTATES_def)
    then show ?thesis by (simp only: sumInState_def P'(2) sum_list_0)
  qed
  have "wants_more P'" using want by (simp add: wants_more_def sums P')
  moreover have "find_slot (pl_users P') Platoon_MAXUSERS 0 = Some (Some 0)"
  proof -
    have first: "find_slot (replicate Platoon_MAXUSERS None) (Suc k) 0 = Some (Some 0)" for k
      by (simp add: Platoon_MAXUSERS_def)
    obtain k where "Platoon_MAXUSERS = Suc k" using not0_implies_Suc[of Platoon_MAXUSERS] by (auto simp: Platoon_MAXUSERS_def)
    with first[of k] show ?thesis by (simp only: P'(1))
  qed
  moreover have "startUser S ?w = None"
  proof -
    obtain r mem where "new_robouser S ?w = (r, mk [] s' P' [r \<mapsto> mem\<lparr>ru_state := UNINIT\<rparr>] x')"
      using new_robouser_lemma[OF sys p(2), of "[]" P' x'] by metis
    then show ?thesis using P' \<open>find_slot _ _ _ = _\<close> by (simp add: startUser_def sums start_def Let_def Platoon_MAXUSERS_def)
  qed
  ultimately have "platoon_skedCallback S ?w = None" by (simp add: platoon_skedCallback.simps[of S ?w])
  moreover have "platoon_start S a (local_addrs ifs) w = Some ?w" using p(1) q(3) none by (simp add: w)
  ultimately show ?thesis by blast
qed

text \<open>
  C8. The main loop is left exactly when, after some rounds, the full duration has passed since the last report
  with other numbers of live and dead users, or since the start; without a duration it is never left.
\<close>
theorem bench_ends_after_quiet_time:
  "main_loop S PC d (watch_start d t0) w = Some (Go (wt', w')) \<longleftrightarrow>
   (\<exists>rs w1 now t alive_dead. rounds S PC d (watch_start d t0) w rs wt' w1 \<and> read_eclock (base_calls S CPlatoon) w1 = (now, w') \<and>
      d \<noteq> 0 \<and> last_change rs t0 (0, 0) = (t, alive_dead) \<and> eclock_after now (t + run_ticks d))"
proof -
  have "bench_round S PC d wt' w1 = Some (Go (None, wt', w')) \<longleftrightarrow>
      (\<exists>now t alive_dead. read_eclock (base_calls S CPlatoon) w1 = (now, w') \<and> d \<noteq> 0 \<and> last_change rs t0 (0, 0) = (t, alive_dead) \<and>
        eclock_after now (t + run_ticks d))" if "rounds S PC d (watch_start d t0) w rs wt' w1" for rs w1
  proof -
    have "last_change rs t0 (0, 0) = (wt_test_end wt' - run_ticks d, wt_old_nalive wt', wt_old_ndead wt')"
      using watch_run_end[OF rounds_watch[OF that], of t0] by (simp add: watch_start_def)
    then show ?thesis by (auto simp: bench_round_None time_up_def prod_eq_iff)
  qed
  then show ?thesis unfolding main_loop_iff by blast
qed

text \<open>
  C30. When the last live user has died since the last report, the program exits with status 1: the count of
  the dead is one the watch has not seen.
\<close>
theorem bench_fails_when_all_dead:
  assumes sys: "sys_ok S b" and ok: "farm_ok b w" and dead: "alive (users_of w) = {}"
    and lcs: "pl_lastConnectingState (platoon_of w) \<noteq> STOPPED"
    and new: "pl_nInState (platoon_of w) ! state_no STOPPED \<noteq> wt_old_ndead wt"
    and time: "\<not> time_up d (fst (read_eclock (base_calls S CPlatoon) w)) wt"
  shows "main_loop S PC d wt w = Some (Exit 1)"
proof -
  obtain ls s P h x where w: "w = mk ls s P h x" by (rule mk_cases)
  obtain now x' where r: "read_eclock (base_calls S CPlatoon) w = (now, mk ls s P h x')"
    using clock_read[OF sys] unfolding w by blast
  have "farm_ok b (mk ls s P h x')" "alive (users_of (mk ls s P h x')) = {}" using ok dead by (simp_all add: w)
  from all_dead_status[OF sys this] lcs obtain w' bytes where
    g: "getStatus_pl S (mk ls s P h x') = Some ((0, 0, pl_nInState P ! state_no STOPPED, bytes), w')"
    by (auto simp: w)
  have "watch_status d now 0 0 (pl_nInState P ! state_no STOPPED) wt = Exit 1" using new by (simp add: watch_status_def w)
  then have "bench_round S PC d wt w = Some (Exit 1)" using r g time by (simp add: bench_round_def)
  then show ?thesis by (simp add: main_loop.simps[of S PC d wt w])
qed

subsection \<open>Witnesses\<close>

definition build0 :: build where
  "build0 = \<lparr>HAVE_DEVPOLL = False, HAVE_KQUEUE = False, HAVE_F_SETSIG = True, HAVE_F_SETAUXFL = False, SIGRTMIN_defined = True\<rparr>"

definition args1 :: "bool \<Rightarrow> args" where
  "args1 allifs = bench_defaults\<lparr>ar_hostname := ''ftp'', ar_users := 5, ar_minClientBandwidth := 2700, ar_useAllLocalIfs := allifs\<rparr>"

lemma args1: "names_fit (args1 b) platoon0" "state_of (ar_lastConnectingState (args1 b)) = Some CONNECTING"
  "ar_useAllLocalIfs (args1 b) = b" "pick_poller build0 (ar_selector (args1 b)) = Some BPoll" "ar_users (args1 b) = 5"
  "ar_nconnectingTarget (args1 b) = 1"
  by (simp_all add: names_fit_def args1_def bench_defaults_def platoon0_def state_of_def states_def pick_poller_def)

lemma farm0_parts: "users_of (farm0 x) = Map.empty" "platoon_of (farm0 x) = platoon0" "wd_sked (farm0 x) = fsk"
  by (simp_all add: farm0_def)

theorem setup_establishes_farm_witness:
  "\<exists>w' now t. bench_setup build0 (\<lambda>k. (sys0, po0)) (Some (replicate 256 \<lparr>skc = CPlatoon, rec_when = 0\<rparr>)) [None, Some 5, Some 6] (args1 True) (farm0 ox0) =
     Some (Go (BPoll, watch_start 0 now, w')) \<and> farm_ok 0 w' \<and> timers w' = [CPlatoon \<mapsto> t]"
proof -
  have addrs: "ar_useAllLocalIfs (args1 True) \<longrightarrow> local_addrs [None, Some 5, Some 6] \<noteq> []"
  proof -
    have "(5 :: 32 word) \<noteq> 6" by simp
    then have "localhost \<noteq> 5 \<or> localhost \<noteq> 6" by metis
    then show ?thesis by (auto simp: local_addrs_def List.map_filter_def)
  qed
  have "skedIndex fsk c = 0" for c by (simp add: fsk_def sked_init_def)
  moreover have "ar_duration (args1 True) = 0" by (simp add: args1_def bench_defaults_def)
  ultimately show ?thesis
    using setup_establishes_farm[where cf = build0 and B = "\<lambda>k. (sys0, po0)" and S = sys0 and PC = po0 and b = 0 and a = "args1 True" and k = BPoll
        and xs = "replicate 256 \<lparr>skc = CPlatoon, rec_when = 0\<rparr>" and ifs = "[None, Some 5, Some 6]" and w = "farm0 ox0" and st = CONNECTING]
      addrs args1 sys0_ok
    by (simp add: farm0_parts po0_def) blast
qed

theorem loopback_only_aborts_witness:
  "\<exists>w'. platoon_start sys0 (args1 True) (local_addrs [None, Some localhost]) (farm0 ox0) = Some w' \<and> platoon_skedCallback sys0 w' = None"
proof -
  have "queue_ok 0 fsk Map.empty" by (simp add: queue_ok_def few_def)
  then show ?thesis
    using loopback_only_aborts[OF sys0_ok, of "farm0 ox0" "args1 True" CONNECTING "[None, Some localhost]"] args1
    by (simp add: farm0_parts)
qed

theorem bench_fails_when_all_dead_witness:
  "main_loop sys0 po0 0 (watch_start 0 0) (farm1 STOPPED ox0) = Some (Exit 1)"
proof (rule bench_fails_when_all_dead[OF sys0_ok farm1_ok])
  show "alive (users_of (farm1 STOPPED ox0)) = {}" by (auto simp: farm1_def alive_def in_state_def split: if_splits)
qed (simp_all add: farm1_def platoon0_def watch_start_def time_up_def NUMSTATES_def)

end
