(* ===== verification/Frames.thy ===== *)
theory Frames
  imports Ftp_pipe
begin

text \<open>
  What the operations of a connection leave alone. A property \<open>Q\<close> of the world behind the connections that
  all calls of the connection keep, is kept by its operations, whatever they return; the proofs
  compute, for each operation, the weakest condition under which a returning call ends in \<open>R\<close>.
\<close>

subsection \<open>Partial correctness\<close>

definition post :: "'a option \<Rightarrow> ('a \<Rightarrow> bool) \<Rightarrow> bool" where
  "post m R = (\<forall>a. m = Some a \<longrightarrow> R a)"

lemma post_simps [simp]:
  "post None R" "post (Some a) R = R a" "post (m \<bind> f) R = post m (\<lambda>a. post (f a) R)"
  "post (assertion b) R' = (b \<longrightarrow> R' ())"
  by (cases m; auto simp: post_def assertion_def)+

lemma post_if [simp]: "post (if b then m else n) R = (if b then post m R else post n R)"
  by simp

lemma postD: "post m R \<Longrightarrow> m = Some a \<Longrightarrow> R a"
  by (simp add: post_def)

lemma postI: "(\<And>a. m = Some a \<Longrightarrow> R a) \<Longrightarrow> post m R"
  by (simp add: post_def)

lemma post_mono: "post m R \<Longrightarrow> (\<And>a. R a \<Longrightarrow> R' a) \<Longrightarrow> post m R'"
  by (simp add: post_def)

subsection \<open>Properties that the calls keep\<close>

text \<open>What a user may do when it is notified.\<close>

definition user_keeps :: "('x \<Rightarrow> bool) \<Rightarrow> ('c, 'w::len, 'x) cmd_done \<Rightarrow> bool" where
  "user_keeps Q user = (\<forall>e st b pw. Q (wd_x (snd pw)) \<longrightarrow> post (user e st b pw) (\<lambda>pw'. Q (wd_x (snd pw'))))"

locale calls_keep =
  fixes E :: "('c, 'w::len, 'x) ipcalls" and Q :: "'x \<Rightarrow> bool"
  assumes keep_gettimeofday: "Q x \<Longrightarrow> Q (snd (os_gettimeofday E x))"
    and keep_gethostbyname: "Q x \<Longrightarrow> Q (snd (os_gethostbyname E s x))"
    and keep_socket: "Q x \<Longrightarrow> Q (snd (os_socket E x))"
    and keep_getfl: "Q x \<Longrightarrow> Q (snd (os_getfl E fd x))"
    and keep_setfl: "Q x \<Longrightarrow> Q (snd (os_setfl E fd f x))"
    and keep_close: "Q x \<Longrightarrow> Q (snd (os_close E fd x))"
    and keep_connect: "Q x \<Longrightarrow> Q (snd (os_connect E fd a x))"
    and keep_bind: "Q x \<Longrightarrow> Q (snd (os_bind E fd a x))"
    and keep_so_error: "Q x \<Longrightarrow> Q (snd (os_so_error E fd x))"
    and keep_read: "Q x \<Longrightarrow> Q (snd (os_read E fd n x))"
    and keep_write: "Q x \<Longrightarrow> Q (snd (os_write E fd ds x))"
    and keep_add: "Q x \<Longrightarrow> post (po_add E fd m x) (\<lambda>r. Q (snd r))"
    and keep_del: "Q x \<Longrightarrow> post (po_del E fd x) (\<lambda>r. Q (snd r))"
    and keep_setMask: "Q x \<Longrightarrow> post (po_setMask E fd m x) (\<lambda>r. Q (snd r))"
    and keep_clearReadiness: "Q x \<Longrightarrow> post (po_clearReadiness E fd m x) (\<lambda>r. Q (snd r))"
    and keep_handle: "Q (wd_x w) \<Longrightarrow> post (handle_data_io E fd m t w) (\<lambda>r. Q (wd_x (snd r)))"
begin

lemma keep_on_x: "(\<And>x. Q x \<Longrightarrow> Q (snd (f x))) \<Longrightarrow> Q (wd_x w) \<Longrightarrow> Q (wd_x (snd (on_x f w)))"
  by (auto simp: on_x_def split: prod.splits) (metis snd_conv)

lemma keep_on_xo: "(\<And>x. Q x \<Longrightarrow> post (f x) (\<lambda>r. Q (snd r))) \<Longrightarrow> Q (wd_x w) \<Longrightarrow> (\<And>z. Q (wd_x (snd z)) \<Longrightarrow> R z) \<Longrightarrow> post (on_xo f w) R"
  by (force simp: on_xo_def post_def bind_eq_Some_conv)

lemma keep_sys [intro!]:
  assumes "Q (wd_x w)"
  shows "Q (wd_x (snd (on_x (os_gettimeofday E) w)))" "Q (wd_x (snd (on_x (os_gethostbyname E s) w)))"
    "Q (wd_x (snd (on_x (os_socket E) w)))" "Q (wd_x (snd (on_x (os_getfl E fd) w)))" "Q (wd_x (snd (on_x (os_setfl E fd f) w)))"
    "Q (wd_x (snd (on_x (os_close E fd) w)))" "Q (wd_x (snd (on_x (os_connect E fd a) w)))" "Q (wd_x (snd (on_x (os_bind E fd a) w)))"
    "Q (wd_x (snd (on_x (os_so_error E fd) w)))" "Q (wd_x (snd (on_x (os_read E fd n) w)))" "Q (wd_x (snd (on_x (os_write E fd ds) w)))"
  by (rule keep_on_x[OF _ assms], erule keep_gettimeofday keep_gethostbyname keep_socket keep_getfl keep_setfl keep_close keep_connect
    keep_bind keep_so_error keep_read keep_write)+

lemma keep_poll [THEN post_mono, intro!]:
  assumes "Q (wd_x w)"
  shows "post (on_xo (po_add E fd m) w) (\<lambda>z. Q (wd_x (snd z)))" "post (on_xo (po_del E fd) w) (\<lambda>z. Q (wd_x (snd z)))"
    "post (on_xo (po_setMask E fd m) w) (\<lambda>z. Q (wd_x (snd z)))" "post (on_xo (po_clearReadiness E fd m) w) (\<lambda>z. Q (wd_x (snd z)))"
  by (rule keep_on_xo, erule keep_add keep_del keep_setMask keep_clearReadiness, rule assms, assumption)+

lemma keep_clock [intro!]: "Q (wd_x w) \<Longrightarrow> Q (wd_x (snd (read_eclock E w)))"
  using keep_sys(1)[of w] by (auto simp: read_eclock_def split: prod.splits)

lemma keep_sched_at [THEN post_mono, intro!]: "Q (wd_x w) \<Longrightarrow> post (sched_at E t w) (\<lambda>w'. Q (wd_x w'))"
  by (auto simp: sched_at_def post_def bind_eq_Some_conv)

lemma keep_unsched [THEN post_mono, intro!]: "Q (wd_x w) \<Longrightarrow> post (unsched E w) (\<lambda>w'. Q (wd_x w'))"
  by (auto simp: unsched_def post_def bind_eq_Some_conv)

lemma keep_setNonblocking [intro!]: "Q (wd_x w) \<Longrightarrow> Q (wd_x (snd (setNonblocking E fd w)))"
  using keep_sys(4)[of w fd] by (auto simp: setNonblocking_def Let_def split: prod.splits)

lemma keep_resolve [intro!]: "Q (wd_x w) \<Longrightarrow> Q (wd_x (snd (ip_resolve E s w)))"
  by (auto simp: ip_resolve_def split: option.splits)

text \<open>The operations; results are taken apart by projections.\<close>

lemma keep_bind_loop [THEN post_mono, intro!]:
  "Q (wd_x w) \<Longrightarrow> post (bind_loop E k sock l w) (\<lambda>z. Q (wd_x (snd z)))"
proof (induction k arbitrary: w)
  case (Suc k)
  have step: "post (case on_x (os_bind E sock src) (w\<lparr>wd_locals := ls\<rparr>) of (r, w1) \<Rightarrow>
      (case r of None \<Rightarrow> Some (Inr (), w1) | Some e \<Rightarrow> if e \<noteq> EADDRINUSE then Some (Inl e, w1) else bind_loop E k sock l w1))
      (\<lambda>z. Q (wd_x (snd z)))" for src ls
  proof -
    have "Q (wd_x (snd (on_x (os_bind E sock src) (w\<lparr>wd_locals := ls\<rparr>))))" using Suc.prems by (intro keep_sys) simp
    then show ?thesis using Suc.IH by (auto simp: split_beta split: option.splits)
  qed
  show ?case using step by (cases "l < length (wd_locals w)") (simp_all add: Let_def rd_def wr_def del: post_if)
qed simp

lemma keep_ephemeral_connect [THEN post_mono, intro!]:
  "Q (wd_x w) \<Longrightarrow> post (ephemeral_connect E sock dest src w) (\<lambda>z. Q (wd_x (snd z)))"
  by (auto simp: ephemeral_connect_def split_beta split: option.splits sum.splits)

lemma keep_drop_fd [THEN post_mono, intro!]: "Q (wd_x w) \<Longrightarrow> post (drop_fd E fd w) (\<lambda>z. Q (wd_x (snd z)))"
  by (auto simp: drop_fd_def split_beta Let_def)

lemma keep_connect_op [THEN post_mono, intro!]:
  "Q (wd_x w) \<Longrightarrow> post (ip_connect E host port p w) (\<lambda>z. Q (wd_x (snd (snd z))))"
  by (auto simp: ip_connect_def split_beta Let_def split: option.splits sum.splits)

lemma keep_shutdown [THEN post_mono, intro!]:
  "Q (wd_x w) \<Longrightarrow> post (ip_shutdown E p w) (\<lambda>z. Q (wd_x (snd (snd z))))"
  by (auto simp: ip_shutdown_def split_beta Let_def)

lemma keep_call [THEN post_mono, intro!]:
  "user_keeps Q user \<Longrightarrow> Q (wd_x w) \<Longrightarrow> post (call_ftpCmdDone user e st b p w) (\<lambda>z. Q (wd_x (snd z)))"
  by (auto simp: call_ftpCmdDone_def user_keeps_def split_beta intro: post_mono)

lemma keep_shutdownAndNotify [THEN post_mono, intro!]:
  "user_keeps Q user \<Longrightarrow> Q (wd_x w) \<Longrightarrow> post (shutdownAndNotify E user p w) (\<lambda>z. Q (wd_x (snd z)))"
  by (auto simp: shutdownAndNotify_def split_beta)

lemma keep_dfd_connecting [THEN post_mono, intro!]:
  "Q (wd_x w) \<Longrightarrow> post (dfd_connecting E revents p w) (\<lambda>z. Q (wd_x (snd (snd z))))"
  by (auto simp: dfd_connecting_def split_beta split: option.splits sum.splits)

lemma keep_dfd_snooze [THEN post_mono, intro!]:
  "Q (wd_x w) \<Longrightarrow> post (dfd_snooze E revents now p w) (\<lambda>z. Q (wd_x (snd z)))"
  by (auto simp: dfd_snooze_def)

lemma keep_dfd_transfer [THEN post_mono, intro!]:
  "Q (wd_x w) \<Longrightarrow> post (dfd_transfer E fd revents now p w) (\<lambda>z. Q (wd_x (snd (snd (snd (snd z))))))"
  by (auto simp: dfd_transfer_def split_beta split: sum.splits intro!: post_mono[OF keep_handle])

lemma keep_dfd_close [THEN post_mono, intro!]:
  "Q (wd_x w) \<Longrightarrow> post (dfd_close E p w) (\<lambda>z. Q (wd_x (snd z)))"
  by (auto simp: dfd_close_def split_beta)

lemma keep_notify_dfd [THEN post_mono, intro!]:
  "Q (wd_x w) \<Longrightarrow> post (notifyPollEvent_dfd E fd revents p w) (\<lambda>z. Q (wd_x (snd (snd z))))"
  by (auto simp: notifyPollEvent_dfd_def split_beta Let_def intro!: postI[of "throttle now n q" for now n q])

lemma keep_cfd_connecting [THEN post_mono, intro!]:
  "Q (wd_x w) \<Longrightarrow> post (cfd_connecting E revents p w) (\<lambda>z. Q (wd_x (snd (snd z))))"
  by (auto simp: cfd_connecting_def split_beta split: option.splits sum.splits)

lemma keep_tell_blocked [THEN post_mono, intro!]:
  "Q (wd_x w) \<Longrightarrow> post (tell_blocked E fd m err w) (\<lambda>z. Q (wd_x (snd z)))"
  by (auto simp: tell_blocked_def split_beta)

lemma keep_fillFrom [THEN post_mono, intro!]:
  assumes "Q x"
  shows "post (fillFrom (os_read E) fd b x) (\<lambda>z. Q (snd (snd z)))"
proof -
  have 1: "Q (snd (os_read E fd n x))" for n using assms by (rule keep_read)
  then have 2: "Q (snd (os_read E fd m (snd (os_read E fd n x))))" for n m by (rule keep_read)
  show ?thesis using assms 1 2
    by (auto simp: fillFrom_def Let_def split_beta memcpy_def split: sum.splits list.splits)
qed

lemma keep_flushTo [THEN post_mono, intro!]: "Q x \<Longrightarrow> post (flushTo (os_write E) fd b x) (\<lambda>z. Q (snd (snd z)))"
proof (rule postI)
  fix z
  assume q: "Q x" and z: "flushTo (os_write E) fd b x = Some z"
  have "wcall = os_write E \<longrightarrow> Q x \<longrightarrow> Q (snd (snd z))" if "flushTo wcall fd b x = Some z" for wcall fd b x z
    using that
  proof (induction rule: flushTo.raw_induct[of _ "(((wcall, fd), b), x)" for wcall fd b x, unfolded prod.case, rotated 1, consumes 1, case_names step])
    case (step fl wcall fd b x z)
    show ?case
    proof (intro impI)
      assume e: "wcall = os_write E" and q: "Q x"
      have w: "Q (snd (os_write E fd ds x))" for ds using q by (rule keep_write)
      have ih: "post (fl (os_write E) fd b x) (\<lambda>z. Q (snd (snd z)))" if "Q x" for fd b x
        using step(1)[of "os_write E" fd b x] that by (intro postI) blast
      show "Q (snd (snd z))"
        by (rule postD[OF _ step(2)]) (use q w in \<open>auto simp: e Let_def split_beta split: sum.splits intro!: ih\<close>)
    qed
  qed
  with q z show "Q (snd (snd z))" by blast
qed

lemma keep_cfd_fill [THEN post_mono, intro!]:
  "Q (wd_x w) \<Longrightarrow> post (cfd_fill E revents p w) (\<lambda>z. Q (wd_x (snd (snd z))))"
  by (auto simp: cfd_fill_def split_beta)

lemma keep_give_line [THEN post_mono, intro!]:
  "Q (wd_x w) \<Longrightarrow> post (give_line E p w) (\<lambda>z. Q (wd_x (snd (snd z))))"
  by (auto simp: give_line_def split_beta Let_def intro!: postI[of "giveInput a b" for a b] postI[of "getStatus a b" for a b])

lemma keep_cfd_loop [THEN post_mono, intro!]:
  "Q (wd_x w) \<Longrightarrow> post (cfd_loop E geterr puterr p w) (\<lambda>z. Q (wd_x (snd (snd z))))"
proof (rule postI)
  fix z
  assume q: "Q (wd_x w)" and z: "cfd_loop E geterr puterr p w = Some z"
  have "E' = E \<longrightarrow> Q (wd_x w) \<longrightarrow> Q (wd_x (snd (snd z)))" if "cfd_loop E' geterr puterr p w = Some z" for E' geterr puterr p w z
    using that
  proof (induction rule: cfd_loop.raw_induct[rotated 1, consumes 1, case_names step])
    case (step cl E' geterr puterr p w z)
    show ?case
    proof (intro impI)
      assume e: "E' = E" and q: "Q (wd_x w)"
      have ih: "post (cl E g pe p w) (\<lambda>z. Q (wd_x (snd (snd z))))" if "Q (wd_x w)" for g pe p w
        using step(1)[of E g pe p w] that by (intro postI) blast
      show "Q (wd_x (snd (snd z)))"
        by (rule postD[OF _ step(2)])
          (use q in \<open>auto simp: e split_beta split: sum.splits
            intro!: ih postI[of "get_line a b" for a b] postI[of "put_loop a b" for a b]\<close>)
    qed
  qed
  with q z show "Q (wd_x (snd (snd z)))" by blast
qed

lemma keep_cfd_flush [THEN post_mono, intro!]:
  "Q (wd_x w) \<Longrightarrow> post (cfd_flush E p w) (\<lambda>z. Q (wd_x (snd (snd z))))"
  by (auto simp: cfd_flush_def split_beta)

lemma keep_cfd_open_data [THEN post_mono, intro!]:
  "Q (wd_x w) \<Longrightarrow> post (cfd_open_data E p w) (\<lambda>z. Q (wd_x (snd (snd z))))"
  by (auto simp: cfd_open_data_def split_beta Let_def split: option.splits sum.splits)

lemma keep_notify_cfd [THEN post_mono, intro!]:
  "Q (wd_x w) \<Longrightarrow> post (notifyPollEvent_cfd E fd revents p w) (\<lambda>z. Q (wd_x (snd (snd z))))"
  by (auto simp: notifyPollEvent_cfd_def split_beta)

lemma keep_set_mask [THEN post_mono, intro!]: "Q (wd_x w) \<Longrightarrow> post (set_mask E fd m w) (\<lambda>w'. Q (wd_x w'))"
  by (auto simp: set_mask_def split_beta)

lemma keep_finish [THEN post_mono, intro!]:
  "user_keeps Q user \<Longrightarrow> Q (wd_x w) \<Longrightarrow> post (ip_finish E user xerr p w) (\<lambda>z. Q (wd_x (snd (snd z))))"
  by (auto simp: ip_finish_def split_beta Let_def intro!: postI[of "getStatus p q" for p q])

lemma keep_notify [THEN post_mono, intro!]:
  "user_keeps Q user \<Longrightarrow> Q (wd_x w) \<Longrightarrow> post (ip_notifyPollEvent E user fd revents p w) (\<lambda>z. Q (wd_x (snd (snd z))))"
  by (auto simp: ip_notifyPollEvent_def split_beta)

lemma keep_skedCallback [THEN post_mono, intro!]:
  "user_keeps Q user \<Longrightarrow> Q (wd_x w) \<Longrightarrow> post (ip_skedCallback E user now p w) (\<lambda>z. Q (wd_x (snd z)))"
  by (auto simp: ip_skedCallback_def split_beta Let_def split: ipstate.splits)

lemma keep_kickstart [THEN post_mono, intro!]:
  "user_keeps Q user \<Longrightarrow> Q (wd_x w) \<Longrightarrow> post (kickstart E user p w) (\<lambda>z. Q (wd_x (snd (snd z))))"
  by (auto simp: kickstart_def)

lemma keep_login [THEN post_mono, intro!]:
  "user_keeps Q user \<Longrightarrow> Q (wd_x w) \<Longrightarrow> post (ip_login E user u q p w) (\<lambda>z. Q (wd_x (snd (snd z))))"
  by (auto simp: ip_login_def split_beta Let_def intro!: postI[of "login a b c" for a b c])

lemma keep_type [THEN post_mono, intro!]:
  "user_keeps Q user \<Longrightarrow> Q (wd_x w) \<Longrightarrow> post (ip_type E user t p w) (\<lambda>z. Q (wd_x (snd (snd z))))"
  by (auto simp: ip_type_def split_beta Let_def intro!: postI[of "type_cmd a b" for a b])

lemma keep_get [THEN post_mono, intro!]:
  "user_keeps Q user \<Longrightarrow> Q (wd_x w) \<Longrightarrow> post (ip_get E user f b p w) (\<lambda>z. Q (wd_x (snd (snd z))))"
  by (auto simp: ip_get_def split_beta Let_def intro!: postI[of "get_cmd a b c" for a b c])

end

end
