(* ===== verification/User_frame.thy ===== *)
theory User_frame
  imports Bench Frames
begin

text \<open>
  What every operation of the program keeps. A relation \<open>R\<close> between the platoon and the heap of users that
  the few changes to users keep, listed in a locale, is kept by all operations of the users, the
  connections, the platoon and the loop that drives them, whatever the servers send and the system
  answers. The proofs are about calls that return.
\<close>

abbreviation holds :: "('w::len platoon \<Rightarrow> (nat \<Rightarrow> 'w robouser option) \<Rightarrow> bool) \<Rightarrow> ('w, 'o) farm \<Rightarrow> bool" where
  "holds R x \<equiv> R (fm_platoon x) (fm_users x)"

subsection \<open>What the parts of an operation do\<close>

text \<open>The calls of the system change neither the platoon nor the users.\<close>

lemma base_calls_keep: "calls_keep (base_calls S c) (\<lambda>x. R (fm_platoon x) (fm_users x))"
  by unfold_locales (auto simp: base_calls_def on_os_def on_oso_def post_def bind_eq_Some_conv split: prod.splits)

lemma clock_same: "platoon_of (snd (read_eclock (base_calls S c) w)) = platoon_of w" "users_of (snd (read_eclock (base_calls S c) w)) = users_of w"
  using calls_keep.keep_clock[OF base_calls_keep[of S c "\<lambda>P h. P = platoon_of w \<and> h = users_of w"], of w] by simp_all

lemma sched_same:
  "post (sched_at (base_calls S c) t w) (\<lambda>w'. platoon_of w' = platoon_of w \<and> users_of w' = users_of w)"
  "post (unsched (base_calls S c) w) (\<lambda>w'. platoon_of w' = platoon_of w \<and> users_of w' = users_of w)"
  using calls_keep.keep_sched_at[OF base_calls_keep[of S c "\<lambda>P h. P = platoon_of w \<and> h = users_of w"], of w]
    calls_keep.keep_unsched[OF base_calls_keep[of S c "\<lambda>P h. P = platoon_of w \<and> h = users_of w"], of w]
  by simp_all

lemma wakeUp_same: "post (platoon_wakeUp S w) (\<lambda>w'. platoon_of w' = platoon_of w \<and> users_of w' = users_of w)"
  by (auto simp: platoon_wakeUp_def split_beta clock_same intro!: sched_same[THEN post_mono])

lemma countStateChange_post:
  assumes "length (pl_nInState (platoon_of w)) = NUMSTATES"
  shows "post (countStateChange S old new w) (\<lambda>w'. new \<noteq> UNINIT \<and> users_of w' = users_of w \<and>
           platoon_of w' = (platoon_of w)\<lparr>pl_nInState := count_move old new (pl_nInState (platoon_of w))\<rparr>)"
  using assms state_no_less[of old] state_no_less[of new]
  by (auto simp: countStateChange_def count_move_def put_platoon_def Let_def rd_def wr_def intro!: wakeUp_same[THEN post_mono])

lemma gotoState_post:
  assumes "length (pl_nInState (platoon_of w)) = NUMSTATES" "users_of w r = Some u"
  shows "post (gotoState S r new w) (\<lambda>w'. new \<noteq> UNINIT \<and> users_of w' = (users_of w)(r \<mapsto> u\<lparr>ru_state := new\<rparr>) \<and>
           platoon_of w' = (platoon_of w)\<lparr>pl_nInState := count_move (ru_state u) new (pl_nInState (platoon_of w))\<rparr>)"
  using assms(2) by (auto simp: gotoState_def put_users_def intro!: countStateChange_post[THEN post_mono, OF assms(1)])

lemma bury_same: "post (bury S r w) (\<lambda>w'. \<exists>u. users_of w r = Some u \<and> users_of w' = (users_of w)(r := None) \<and>
    platoon_of w' = (platoon_of w)\<lparr>pl_users := (pl_users (platoon_of w))[ru_user u := None]\<rparr>)"
proof -
  have same: "calls_keep (base_calls S c) (\<lambda>x. fm_platoon x = platoon_of w \<and> fm_users x = users_of w)" for c
    by (rule base_calls_keep)
  show ?thesis
    by (auto simp: bury_def put_users_def put_platoon_def split_beta Let_def wr_def
        intro!: postI[of "users_of w r"] sched_same(2)[THEN post_mono] calls_keep.keep_shutdown[OF same, THEN post_mono])
qed

lemma find_slot_empty: "find_slot us n j = Some (Some i) \<Longrightarrow> i < length us \<and> us ! i = None"
  by (induction us n j rule: find_slot.induct) (auto simp: rdi_def rd_def bind_eq_Some_conv Let_def split: if_splits)

text \<open>A property of the rest of the program that the callbacks keep is kept by \<open>runAll\<close>.\<close>

lemma runAll_keeps:
  assumes cb: "\<And>c s x. R x \<Longrightarrow> post (cb c now (s, x)) (\<lambda>z. R (snd z))" and x: "R (snd sx)"
  shows "post (runAll cb now sx) (\<lambda>z. R (snd (snd z)))"
proof (rule postI)
  fix z
  assume z: "runAll cb now sx = Some z"
  have "(\<forall>c s x. R x \<longrightarrow> post (cb c now (s, x)) (\<lambda>z. R (snd z))) \<longrightarrow> R (snd sx) \<longrightarrow> R (snd (snd z))"
    using z
  proof (induction rule: runAll.raw_induct[rotated 1, consumes 1, case_names step])
    case (step f cb now sx z)
    show ?case
    proof (intro impI)
      assume cb: "\<forall>c s x. R x \<longrightarrow> post (cb c now (s, x)) (\<lambda>z. R (snd z))" and x: "R (snd sx)"
      have ih: "R (snd sx) \<Longrightarrow> post (f cb now sx) (\<lambda>z. R (snd (snd z)))" for sx
        using step(1)[of cb now sx] cb by (intro postI) blast
      have cb': "R x \<Longrightarrow> post (cb c now (s, x)) (\<lambda>z. R (snd z))" for c s x using cb by blast
      show "R (snd (snd z))"
        by (rule postD[OF _ step(2)])
          (use x in \<open>auto simp: split_beta Let_def intro!: cb'[THEN post_mono] ih postI[of "top s" for s] postI[of "pop s" for s]
             postI[of "rd a b" for a b] split: option.splits\<close>)
    qed
  qed
  with cb x show "R (snd (snd z))" by blast
qed

text \<open>For what may end the program: nothing is said of an exit.\<close>

definition go_post :: "'a outcome option \<Rightarrow> ('a \<Rightarrow> bool) \<Rightarrow> bool" where
  "go_post m R = (\<forall>a. m = Some (Go a) \<longrightarrow> R a)"

lemma go_post_simps [simp]:
  "go_post None R" "go_post (Some (Go a)) R = R a" "go_post (Some (Exit n)) R" "go_post (andthen m f) R = go_post m (\<lambda>a. go_post (f a) R)"
  "go_post (m' \<bind> g) R = post m' (\<lambda>a. go_post (g a) R)" "go_post (Some (check_ok err b)) R' = (err = OK \<longrightarrow> R' b)"
  by (auto simp: go_post_def andthen_Go post_def bind_eq_Some_conv check_ok_def)

lemma go_postI: "(\<And>a. m = Some (Go a) \<Longrightarrow> R a) \<Longrightarrow> go_post m R"
  by (simp add: go_post_def)

lemma go_postD: "go_post m R \<Longrightarrow> m = Some (Go a) \<Longrightarrow> R a"
  by (simp add: go_post_def)

lemma go_post_mono: "go_post m R \<Longrightarrow> (\<And>a. R a \<Longrightarrow> R' a) \<Longrightarrow> go_post m R'"
  by (simp add: go_post_def)

subsection \<open>The changes to users\<close>

text \<open>
  The laws: \<open>R\<close> does not look at the list of the dead and the numbers of bytes and reads; a user that is
  freed leaves its slot; a user may change, but not its slot; one that changes its state is counted;
  and one that is started has a free slot, at an address that \<open>new\<close> returns.
\<close>

locale users_keep =
  fixes S :: "('w::len, 'o) system" and R :: "'w platoon \<Rightarrow> (nat \<Rightarrow> 'w robouser option) \<Rightarrow> bool"
  assumes deadlist_law: "R P h \<Longrightarrow> R (P\<lparr>pl_deadlist := dl\<rparr>) h"
    and bytes_law: "R P h \<Longrightarrow> R (P\<lparr>pl_bytesFetched := k, pl_nreads := m\<rparr>) h"
    and free_law: "R P h \<Longrightarrow> h r = Some u \<Longrightarrow> R (P\<lparr>pl_users := (pl_users P)[ru_user u := None]\<rparr>) (h(r := None))"
    and update_law: "R P h \<Longrightarrow> h r = Some u \<Longrightarrow> ru_state v = ru_state u \<Longrightarrow> ru_user v = ru_user u \<Longrightarrow> R P (h(r \<mapsto> v))"
    and counts_law: "R P h \<Longrightarrow> length (pl_nInState P) = NUMSTATES"
    and state_law: "R P h \<Longrightarrow> h r = Some u \<Longrightarrow> new \<noteq> UNINIT \<Longrightarrow>
          R (P\<lparr>pl_nInState := count_move (ru_state u) new (pl_nInState P)\<rparr>) (h(r \<mapsto> u\<lparr>ru_state := new\<rparr>))"
    and start_law: "R P h \<Longrightarrow> wants_more P \<Longrightarrow> i < length (pl_users P) \<Longrightarrow> pl_users P ! i = None \<Longrightarrow> r = fst (new_user S h) \<Longrightarrow>
          ru_state v = CONNECT \<Longrightarrow> ru_user v = i \<Longrightarrow>
          R (P\<lparr>pl_users := (pl_users P)[i := Some r], pl_nInState := count_move UNINIT CONNECT (pl_nInState P)\<rparr>) (h(r \<mapsto> v))"

sublocale users_keep < base: calls_keep "base_calls S c" "holds R" for c
  by (rule base_calls_keep)

context users_keep begin

lemma gotoState_keeps [THEN post_mono, intro!]:
  assumes p: "holds R (wd_x w)"
  shows "post (gotoState S r new w) (\<lambda>w'. holds R (wd_x w'))"
proof (cases "users_of w r")
  case (Some u)
  show ?thesis
    by (rule post_mono[OF gotoState_post[OF counts_law[OF p] Some, of S new]]) (use state_law[OF p Some] in auto)
qed (simp add: gotoState_def)

lemma stop_keeps [THEN post_mono, intro!]:
  "holds R (wd_x w) \<Longrightarrow> post (stop S r w) (\<lambda>w'. holds R (wd_x w'))"
  by (auto simp: stop_def addToDeadlist_def put_platoon_def intro: deadlist_law)

lemma here_keeps [THEN post_mono, intro!]:
  assumes "holds R (wd_x w)"
  shows "post (stop_here S r p w) (\<lambda>pw. holds R (wd_x (snd pw)))" "post (goto_here S r st p w) (\<lambda>pw. holds R (wd_x (snd pw)))"
  using assms by (auto simp: stop_here_def goto_here_def)

lemma bury_keeps [THEN post_mono, intro!]:
  "holds R (wd_x w) \<Longrightarrow> post (bury S r w) (\<lambda>w'. holds R (wd_x w'))"
  by (rule post_mono[OF bury_same]) (use free_law in auto)

lemma reap_keeps [THEN post_mono, intro!]:
  "holds R (wd_x w) \<Longrightarrow> post (reap S w) (\<lambda>w'. holds R (wd_x w'))"
proof -
  have "holds R (wd_x w) \<Longrightarrow> post (reap_loop S dead w) (\<lambda>w'. holds R (wd_x w'))" for dead
    by (induction dead arbitrary: w) (auto simp: put_platoon_def intro: deadlist_law)
  then show "holds R (wd_x w) \<Longrightarrow> post (reap S w) (\<lambda>w'. holds R (wd_x w'))" by (simp add: reap_def)
qed

lemma count_read_keeps [THEN post_mono, intro!]:
  assumes p: "holds R (wd_x w)"
  shows "post (count_read S r n now w) (\<lambda>z. holds R (wd_x (snd z)))"
  using bytes_law[OF update_law[OF p]]
  by (auto simp: count_read_def put_users_def put_platoon_def split_beta Let_def clock_same intro!: postI[of "users_of w r"])

lemma handle_keeps [THEN post_mono, intro!]:
  assumes p: "holds R (wd_x w)"
  shows "post (robo_handle_data_io S r fd m t w) (\<lambda>z. holds R (wd_x (snd z)))"
proof -
  have q: "holds R (wd_x (snd (on_x (os_read (base_calls S c) fd n) w)))" for c n using p by blast
  show ?thesis using q update_law[OF q]
    by (auto simp: robo_handle_data_io_def put_users_def split_beta Let_def split: sum.splits intro!: postI[of "users_of w r" for w])
qed

end

sublocale users_keep < robo: calls_keep "robo_calls S r" "holds R" for r
proof -
  have "calls_keep ((base_calls S c)\<lparr>handle_data_io := robo_handle_data_io S r\<rparr>) (holds R)" for c
    using base.calls_keep_axioms[of c] by (auto simp: calls_keep_def intro: handle_keeps)
  then show "calls_keep (robo_calls S r) (holds R)" by (simp add: robo_calls_def)
qed

context users_keep begin

lemma ftpCmdDone_keeps: "user_keeps (holds R) (robo_ftpCmdDone S r)"
proof -
  have "S' = S \<longrightarrow> holds R (wd_x (snd pw)) \<longrightarrow> holds R (wd_x (snd z))" if "robo_ftpCmdDone S' r e st b pw = Some z" for S' r e st b pw z
    using that
  proof (induction rule: robo_ftpCmdDone.raw_induct[rotated 1, consumes 1, case_names step])
    case (step f S' r e st b pw z)
    have ih: "holds R (wd_x (snd pw)) \<Longrightarrow> post (f S r e st b pw) (\<lambda>z. holds R (wd_x (snd z)))" for r e st b pw
      using step(1)[of S r e st b pw] by (intro postI) blast
    then have keeps: "user_keeps (holds R) (f S r)" for r by (simp add: user_keeps_def)
    show ?case
    proof (intro impI)
      assume S: "S' = S" and p: "holds R (wd_x (snd pw))"
      show "holds R (wd_x (snd z))"
        by (rule postD[OF _ step(2)[unfolded S]])
          (use p in \<open>auto simp: split_beta Let_def file_done_def put_users_def clock_same
            intro!: ih keeps postI[of "users_of w r" for w] postI[of "pick_random_file P" for P] update_law
            split: state_t.splits\<close>)
    qed
  qed
  then show ?thesis by (auto simp: user_keeps_def post_def)
qed

lemma with_fcp_keeps:
  assumes "holds R (wd_x w)" "\<And>p. post (f p w) (\<lambda>z. holds R (wd_x (snd z)))"
  shows "post (with_fcp r f w) (\<lambda>w'. holds R (wd_x w'))"
proof -
  have "holds R (wd_x (snd z))" if "f p w = Some z" for p z using postD[OF assms(2) that] .
  then show ?thesis
    by (auto simp: with_fcp_def put_users_def split_beta intro!: postI[of "users_of w r" for w] postI[of "f p w" for p]
        update_law)
qed

lemma robo_skedCallback_keeps [THEN post_mono, intro!]:
  "holds R (wd_x w) \<Longrightarrow> post (robo_skedCallback S r now w) (\<lambda>w'. holds R (wd_x w'))"
  using ftpCmdDone_keeps[of r] unfolding robo_skedCallback_def user_keeps_def
  by (intro with_fcp_keeps) simp_all

lemma pipe_skedCallback_keeps [THEN post_mono, intro!]:
  "holds R (wd_x w) \<Longrightarrow>
   post (with_fcp r (\<lambda>p w. ip_skedCallback (robo_calls S r) (robo_ftpCmdDone S r) now p w) w) (\<lambda>w'. holds R (wd_x w'))"
  by (intro with_fcp_keeps robo.keep_skedCallback ftpCmdDone_keeps)

lemma startUser_keeps [THEN post_mono, intro!]:
  assumes p: "holds R (wd_x w)" and more: "wants_more (platoon_of w)"
  shows "post (startUser S w) (\<lambda>z. holds R (wd_x (snd z)))"
proof -
  let ?P = "platoon_of w" and ?h = "users_of w"
  obtain r mem where new: "new_user S ?h = (r, mem)" by (metis surj_pair)
  have started: "post (start S r i w1) (\<lambda>z. holds R (wd_x (snd z)))"
    if i: "i < length (pl_users ?P)" "pl_users ?P ! i = None" and w1: "platoon_of w1 = ?P\<lparr>pl_users := (pl_users ?P)[i := Some r]\<rparr>"
      "users_of w1 = ?h(r \<mapsto> u)" "ru_state u = UNINIT" for i w1 u
  proof -
    have go: "post (gotoState S r CONNECT w2) (\<lambda>w'. holds R (wd_x w'))"
      if "platoon_of w2 = platoon_of w1" "users_of w2 = ?h(r \<mapsto> v)" "ru_state v = UNINIT" "ru_user v = i" for w2 v
    proof -
      have l: "length (pl_nInState (platoon_of w2)) = NUMSTATES" "users_of w2 r = Some v" using counts_law[OF p] w1 that by simp_all
      show ?thesis
        by (rule post_mono[OF gotoState_post[OF l, of S CONNECT]]) (use that w1 start_law[OF p more i, of r] new in auto)
    qed
    show ?thesis using w1(2,3)
      by (auto simp: start_def Let_def put_users_def split_beta clock_same intro!: sched_same(1)[THEN post_mono] go del: gotoState_keeps)
  qed
  have slot: "post (find_slot us n j) (\<lambda>s. \<forall>i. s = Some i \<longrightarrow> i < length us \<and> us ! i = None)" for us n j
    by (auto simp: post_def dest: find_slot_empty)
  show ?thesis using p new
    by (auto simp: startUser_def new_robouser_def put_users_def put_platoon_def split_beta Let_def wr_def
        intro!: started[THEN post_mono] slot[THEN post_mono] split: option.splits prod.splits)
qed

lemma platoon_skedCallback_keeps [THEN post_mono, intro!]:
  assumes p: "holds R (wd_x w)"
  shows "post (platoon_skedCallback S w) (\<lambda>w'. holds R (wd_x w'))"
proof -
  have "S' = S \<longrightarrow> holds R (wd_x w) \<longrightarrow> holds R (wd_x z)" if "platoon_skedCallback S' w = Some z" for S' w z
    using that
  proof (induction rule: platoon_skedCallback.raw_induct[rotated 1, consumes 1, case_names step])
    case (step f S' w z)
    have ih: "holds R (wd_x w) \<Longrightarrow> post (f S w) (\<lambda>z. holds R (wd_x z))" for w
      using step(1)[of S w] by (intro postI) blast
    show ?case
    proof (intro impI)
      assume S: "S' = S" and p: "holds R (wd_x w)"
      show "holds R (wd_x z)"
        by (rule postD[OF _ step(2)[unfolded S]]) (use p in \<open>auto simp: split_beta intro!: ih\<close>)
    qed
  qed
  with p show ?thesis by (intro postI) blast
qed

lemma farm_skedCallback_keeps [THEN post_mono, intro!]:
  "holds R (wd_x w) \<Longrightarrow> post (farm_skedCallback S c now w) (\<lambda>w'. holds R (wd_x w'))"
  by (cases c) (auto simp: farm_skedCallback_def)

lemma farm_runAll_keeps [THEN post_mono, intro!]:
  assumes "holds R (wd_x w)"
  shows "post (farm_runAll S now w) (\<lambda>z. holds R (wd_x (snd z)))"
proof -
  have "post (runAll (farm_callback S) now (wd_sked w, w)) (\<lambda>z. holds R (wd_x (snd (snd z))))"
    by (rule runAll_keeps) (use assms in \<open>auto simp: farm_callback_def\<close>)
  then show ?thesis by (auto simp: farm_runAll_def split_beta post_def bind_eq_Some_conv)
qed

lemma on_osw_keeps [THEN post_mono, intro!]:
  "holds R (wd_x w) \<Longrightarrow> post (on_osw f w) (\<lambda>z. holds R (wd_x (snd z)))"
  by (auto simp: on_osw_def on_xo_def on_oso_def post_def bind_eq_Some_conv)

lemma notify_client_keeps [THEN post_mono, intro!]:
  "holds R (wd_x w) \<Longrightarrow> post (notify_client S r ev w) (\<lambda>z. holds R (wd_x (snd z)))"
  by (auto simp: notify_client_def put_users_def split_beta intro!: postI[of "users_of w r" for w] ftpCmdDone_keeps update_law)

lemma service_keeps [THEN go_post_mono, intro!]:
  assumes p: "holds R (wd_x w)"
  shows "go_post (service S PC w) (\<lambda>w'. holds R (wd_x w'))"
proof -
  have "S' = S \<longrightarrow> holds R (wd_x w) \<longrightarrow> (\<forall>z. y = Go z \<longrightarrow> holds R (wd_x z))" if "service S' PC w = Some y" for S' PC w y
    using that
  proof (induction rule: service.raw_induct[rotated 1, consumes 1, case_names step])
    case (step f S' PC w y)
    have ih: "holds R (wd_x w) \<Longrightarrow> go_post (f S PC w) (\<lambda>z. holds R (wd_x z))" for PC w
      using step(1)[of S PC w] by (intro go_postI) blast
    show ?case
    proof (intro impI allI)
      fix z
      assume S: "S' = S" and p: "holds R (wd_x w)" and y: "y = Go z"
      show "holds R (wd_x z)"
        by (rule go_postD[OF _ step(2)[unfolded y S]])
          (use p in \<open>auto simp: split_beta next_event_def intro!: ih postI[of "ev_client e" for e] postI[of "fst z" for z] postI[of "snd z" for z]\<close>)
    qed
  qed
  with p show ?thesis by (intro go_postI) blast
qed

lemma sleep_step_keeps [THEN post_mono, intro!]:
  "holds R (wd_x w) \<Longrightarrow> post (sleep_step S PC clamp w) (\<lambda>z. holds R (wd_x (snd z)))"
  by (auto simp: sleep_step_def split_beta Let_def intro!: postI[of "nextTime a b" for a b])

lemma work_step_keeps [THEN go_post_mono, intro!]:
  "holds R (wd_x w) \<Longrightarrow> go_post (work_step S PC clamp status now w) (\<lambda>w'. holds R (wd_x w'))"
  by (auto simp: work_step_def split_beta)

end

end
