(* ===== verification/Population.thy ===== *)
theory Population
  imports User_frame
begin

text \<open>
  How many users there are, in any run of bench.cc: whatever the servers send and the system answers,
  no operation of a user, a connection or the platoon makes more users than the target, or a count
  negative. The proofs are about calls that return; they need nothing of the environment.
\<close>

subsection \<open>The population\<close>

text \<open>
  The counts are bounds on the numbers of users in the states, and all together they do not exceed the
  target. They are not the numbers themselves: a stopped user stays counted after it is reaped, and one
  whose \<open>login\<close> fails at once in \<open>skedCallback\<close> is stopped by the inner call of \<open>ftpCmdDone\<close> and set to \<open>CONNECTING\<close> by
  the outer one, so that it is reaped and stays counted as alive.
\<close>

definition population :: "int \<Rightarrow> 'w::len platoon \<Rightarrow> (nat \<Rightarrow> 'w robouser option) \<Rightarrow> bool" where
  "population N P h =
     (finite (dom h) \<and> in_state h UNINIT = {} \<and> length (pl_nInState P) = NUMSTATES \<and>
      (\<forall>st. st \<noteq> UNINIT \<longrightarrow> int (card (in_state h st)) \<le> pl_nInState P ! state_no st) \<and>
      sumInState P CONNECT STOPPED \<le> max 0 N \<and> pl_nuserTarget P = N)"

abbreviation populated :: "int \<Rightarrow> ('w::len, 'o) farm \<Rightarrow> bool" where
  "populated N x \<equiv> population N (fm_platoon x) (fm_users x)"

lemma sum_states: "sumInState P CONNECT STOPPED =
    pl_nInState P ! 1 + pl_nInState P ! 2 + pl_nInState P ! 3 + pl_nInState P ! 4 + pl_nInState P ! 5 + pl_nInState P ! 6 + pl_nInState P ! 7"
  by (simp add: sumInState_def upt_rec eval_nat_numeral)

lemma population_counts:
  assumes "population N P h" "1 \<le> i" "i < NUMSTATES"
  shows "0 \<le> pl_nInState P ! i"
proof -
  obtain st where "i = state_no st" "st \<noteq> UNINIT"
  proof -
    have "i < 8" using assms(3) by (simp add: NUMSTATES_def)
    then consider "i = 1" | "i = 2" | "i = 3" | "i = 4" | "i = 5" | "i = 6" | "i = 7" using assms(2) by linarith
    then show thesis
      using that[of CONNECT] that[of CONNECTING] that[of START_TYPE] that[of FINISH_TYPE] that[of GET] that[of GETTING_FILE] that[of STOPPED]
      by cases auto
  qed
  with assms(1) show ?thesis unfolding population_def by (metis of_nat_0_le_iff order_trans)
qed

lemma population_sums:
  assumes "population N P h"
  shows "0 \<le> sumInState P CONNECT st" "sumInState P CONNECT st \<le> sumInState P CONNECT STOPPED" "0 \<le> sumInState P STOPPED STOPPED"
    "sumInState P CONNECT GETTING_FILE + sumInState P STOPPED STOPPED = sumInState P CONNECT STOPPED"
proof -
  have n: "0 \<le> pl_nInState P ! 1" "0 \<le> pl_nInState P ! 2" "0 \<le> pl_nInState P ! 3" "0 \<le> pl_nInState P ! 4" "0 \<le> pl_nInState P ! 5"
    "0 \<le> pl_nInState P ! 6" "0 \<le> pl_nInState P ! 7"
    using population_counts[OF assms] by (simp_all add: NUMSTATES_def del: One_nat_def)
  note [simp] = sumInState_def upt_rec eval_nat_numeral
  note n' = n[unfolded eval_nat_numeral One_nat_def]
  show "0 \<le> sumInState P CONNECT st" using n' by (cases st; simp)
  show "sumInState P CONNECT st \<le> sumInState P CONNECT STOPPED" using n' by (cases st; simp)
  show "0 \<le> sumInState P STOPPED STOPPED" using n' by simp
  show "sumInState P CONNECT GETTING_FILE + sumInState P STOPPED STOPPED = sumInState P CONNECT STOPPED" by simp
qed

text \<open>There are no more users in the heap than are counted.\<close>

lemma population_size:
  assumes "population N P h"
  shows "int (card (dom h)) \<le> max 0 N"
proof -
  let ?A = "[CONNECT, CONNECTING, START_TYPE, FINISH_TYPE, GET, GETTING_FILE, STOPPED]"
  have "r \<in> (\<Union>st \<in> set ?A. in_state h st)" if "h r = Some u" for r u
  proof -
    have "ru_state u \<noteq> UNINIT" using assms that by (auto simp: population_def in_state_def)
    then have "ru_state u \<in> set ?A" by (cases "ru_state u") simp_all
    then show ?thesis using that by (auto simp: in_state_def)
  qed
  then have "dom h \<subseteq> (\<Union>st \<in> set ?A. in_state h st)" by auto
  moreover have fin: "finite (in_state h st)" for st using assms finite_subset[OF in_state_dom] by (auto simp: population_def)
  ultimately have "card (dom h) \<le> card (\<Union>st \<in> set ?A. in_state h st)" by (intro card_mono) auto
  also have "\<dots> \<le> (\<Sum>st \<in> set ?A. card (in_state h st))" by (rule card_UN_le) simp
  also have "\<dots> = sum_list (map (\<lambda>st. card (in_state h st)) ?A)" by simp
  finally have "int (card (dom h)) \<le> sum_list (map (\<lambda>st. int (card (in_state h st))) ?A)" by simp
  also have "\<dots> \<le> sum_list (map (\<lambda>st. pl_nInState P ! state_no st) ?A)"
    using assms by (intro sum_list_mono) (auto simp: population_def)
  also have "\<dots> = sumInState P CONNECT STOPPED" by (simp add: sum_states)
  also have "\<dots> \<le> max 0 N" using assms by (simp add: population_def)
  finally show ?thesis .
qed

text \<open>What the invariant does not look at.\<close>

lemma population_cong [simp]:
  "population N (P\<lparr>pl_users := us\<rparr>) h = population N P h" "population N (P\<lparr>pl_deadlist := dl\<rparr>) h = population N P h"
  "population N (P\<lparr>pl_bytesFetched := k\<rparr>) h = population N P h" "population N (P\<lparr>pl_nreads := m\<rparr>) h = population N P h"
  by (simp_all add: population_def sumInState_def)

text \<open>Users that come, go and change.\<close>

lemma population_remove: "population N P h \<Longrightarrow> population N P (h(r := None))"
proof -
  assume p: "population N P h"
  have sub: "in_state (h(r := None)) st \<subseteq> in_state h st" for st by (auto simp: in_state_def)
  have "finite (in_state h st)" for st using p finite_subset[OF in_state_dom] by (auto simp: population_def)
  then have "card (in_state (h(r := None)) st) \<le> card (in_state h st)" for st using sub by (intro card_mono)
  then have "int (card (in_state (h(r := None)) st)) \<le> int (card (in_state h st))" for st by simp
  moreover have "finite (dom (h(r := None)))" using p by (simp add: population_def)
  moreover have "int (card (in_state (h(r := None)) st)) \<le> pl_nInState P ! state_no st" if "st \<noteq> UNINIT" for st
    using p that calculation(1)[of st] unfolding population_def by (blast intro: order_trans)
  moreover have "in_state (h(r := None)) UNINIT = {}" using sub[of UNINIT] p by (auto simp: population_def)
  ultimately show ?thesis using p by (simp add: population_def)
qed

lemma population_update: "population N P h \<Longrightarrow> h r = Some u \<Longrightarrow> ru_state v = ru_state u \<Longrightarrow> population N P (h(r \<mapsto> v))"
proof -
  assume p: "population N P h" and u: "h r = Some u" "ru_state v = ru_state u"
  have "in_state (h(r \<mapsto> v)) st = in_state h st" for st using u by (auto simp: in_state_def)
  then show ?thesis using p by (simp add: population_def)
qed

lemma population_move:
  assumes p: "population N P h" and u: "h r = Some u" and new: "new \<noteq> UNINIT" and v: "ru_state v = new"
  shows "population N (P\<lparr>pl_nInState := count_move (ru_state u) new (pl_nInState P)\<rparr>) (h(r \<mapsto> v))"
proof -
  let ?n = "pl_nInState P" and ?old = "ru_state u"
  have fs: "finite (in_state h st)" for st using p finite_subset[OF in_state_dom] by (auto simp: population_def)
  have old: "?old \<noteq> UNINIT" "r \<in> in_state h ?old" using p u by (auto simp: population_def in_state_def)
  have less: "state_no st < length ?n" for st using p state_no_less by (simp add: population_def)
  have nth: "count_move ?old new ?n ! state_no st =
      ?n ! state_no st - (if st = ?old then 1 else 0) + (if st = new then 1 else 0)" for st
    using less[of ?old] less[of new] old(1) by (auto simp: count_move_def Let_def nth_list_update)
  have card_old: "int (card (in_state h ?old - {r})) = int (card (in_state h ?old)) - 1"
    using fs old(2) by (simp add: card_Diff_singleton) (metis One_nat_def Suc_leI card_gt_0_iff empty_iff of_nat_diff of_nat_1)
  have "int (card (in_state (h(r \<mapsto> v)) st)) \<le> count_move ?old new ?n ! state_no st" if "st \<noteq> UNINIT" for st
  proof -
    have le: "int (card (in_state h st)) \<le> ?n ! state_no st" using p that by (simp add: population_def)
    have other: "r \<notin> in_state h st" if "st \<noteq> ?old" using u that by (auto simp: in_state_def)
    show ?thesis unfolding nth using le card_old other fs[of st] old(2) v by (auto simp: in_state_upd insert_absorb)
  qed
  moreover have "in_state (h(r \<mapsto> v)) UNINIT = {}" using p v new by (auto simp: in_state_upd population_def)
  moreover have "sumInState (P\<lparr>pl_nInState := count_move ?old new ?n\<rparr>) CONNECT STOPPED = sumInState P CONNECT STOPPED"
    using nth[of CONNECT] nth[of CONNECTING] nth[of START_TYPE] nth[of FINISH_TYPE] nth[of GET] nth[of GETTING_FILE] nth[of STOPPED] old(1) new
    by (cases ?old; cases new) (simp_all add: sum_states)
  moreover have "length (count_move ?old new ?n) = length ?n" by (simp add: count_move_def Let_def)
  ultimately show ?thesis using p by (simp add: population_def)
qed

lemma population_start:
  assumes p: "population N P h" and w: "wants_more P" and v: "ru_state v = CONNECT"
  shows "population N (P\<lparr>pl_nInState := count_move UNINIT CONNECT (pl_nInState P)\<rparr>) (h(r \<mapsto> v))"
proof -
  let ?n = "pl_nInState P"
  have len: "length ?n = 8" using p by (simp add: population_def NUMSTATES_def)
  have fs: "finite (in_state h st)" for st using p finite_subset[OF in_state_dom] by (auto simp: population_def)
  have nth: "count_move UNINIT CONNECT ?n ! state_no st = ?n ! state_no st + (if st = CONNECT then 1 else 0)" for st
    using len by (cases st) (simp_all add: count_move_def Let_def)
  have "int (card (in_state (h(r \<mapsto> v)) st)) \<le> count_move UNINIT CONNECT ?n ! state_no st" if "st \<noteq> UNINIT" for st
  proof -
    have le: "int (card (in_state h st)) \<le> ?n ! state_no st" using p that by (simp add: population_def)
    have "card (in_state h st - {r}) \<le> card (in_state h st)" "card (insert r (in_state h st)) \<le> card (in_state h st) + 1"
      using fs[of st] by (simp_all add: card_Diff1_le card_insert_if)
    then show ?thesis unfolding nth using le v by (auto simp: in_state_upd)
  qed
  moreover have "in_state (h(r \<mapsto> v)) UNINIT = {}" using p v by (auto simp: in_state_upd population_def)
  moreover have "sumInState (P\<lparr>pl_nInState := count_move UNINIT CONNECT ?n\<rparr>) CONNECT STOPPED = sumInState P CONNECT STOPPED + 1"
    using len by (simp add: sum_states count_move_def Let_def)
  moreover have "sumInState P CONNECT STOPPED + 1 \<le> max 0 N"
    using w population_sums(4)[OF p] p by (auto simp: wants_more_def population_def)
  ultimately show ?thesis using p len by (simp add: population_def count_move_def Let_def NUMSTATES_def)
qed

subsection \<open>Every operation keeps it\<close>

lemma population_new:
  assumes "population N P h" "wants_more P" "ru_state v = CONNECT"
  shows "population N (P\<lparr>pl_users := us, pl_nInState := count_move UNINIT CONNECT (pl_nInState P)\<rparr>) (h(r \<mapsto> v))"
  using population_start[OF assms] by (simp add: population_def sumInState_def)

interpretation pop: users_keep S "population N" for S :: "('w::len, 'o) system" and N
proof unfold_locales
  show "population N P h \<Longrightarrow> length (pl_nInState P) = NUMSTATES" for P h by (simp add: population_def)
qed (simp_all add: population_remove population_update population_move population_new)

text \<open>The numbers of a report: connecting, alive and dead.\<close>

definition report_fits :: "int \<Rightarrow> 'w::len report \<Rightarrow> bool" where
  "report_fits N = (\<lambda>(now, nconnecting, nalive, ndead).
     0 \<le> nconnecting \<and> 0 \<le> nalive \<and> 0 \<le> ndead \<and> nconnecting \<le> nalive + ndead \<and> nalive + ndead \<le> max 0 N)"

lemma getStatus_populated [THEN post_mono, intro!]:
  "populated N (wd_x w) \<Longrightarrow>
   post (getStatus_pl S w) (\<lambda>z. populated N (wd_x (snd z)) \<and> (\<forall>now. report_fits N (now, fst (fst z), fst (snd (fst z)), fst (snd (snd (fst z))))))"
proof -
  have fits: "report_fits N (now, sumInState P CONNECT (pl_lastConnectingState P), sumInState P CONNECT GETTING_FILE, sumInState P STOPPED STOPPED)"
    if "population N P h" for P :: "'a platoon" and h now
    using population_sums[OF that] that by (simp add: report_fits_def population_def)
  assume p: "populated N (wd_x w)"
  show ?thesis using p by (auto simp: getStatus_pl_def Let_def intro: fits)
qed

lemma bench_round_populated:
  assumes "populated N (wd_x w)"
  shows "go_post (bench_round S PC d wt w) (\<lambda>(q, wt', w'). populated N (wd_x w') \<and> (\<forall>p. q = Some p \<longrightarrow> report_fits N p))"
proof -
  have p: "populated N (wd_x (snd (read_eclock (base_calls S CPlatoon) w)))" using assms by blast
  show ?thesis using p unfolding bench_round_def
    by (auto simp: split_beta simp del: split_paired_All intro!: getStatus_populated[OF p] go_postI[of "Some (watch_status a b c d e f)" for a b c d e f])
qed

lemma rounds_populated:
  "rounds S PC d wt w rs wt' w' \<Longrightarrow> populated N (wd_x w) \<Longrightarrow> populated N (wd_x w') \<and> (\<forall>q \<in> set rs. report_fits N q)"
proof (induction rule: rounds.induct)
  case (rounds_next wt w q wt1 w1 qs wt' w')
  with go_postD[OF bench_round_populated[OF rounds_next.prems] rounds_next(1)] rounds_next.IH show ?case by (simp del: split_paired_All)
qed simp

subsection \<open>From the set-up on\<close>

lemma fresh_population:
  assumes "pl_nInState P = replicate NUMSTATES 0" "pl_nuserTarget P = N"
  shows "population N P Map.empty"
proof -
  have "state_no st < 8" for st using state_no_less[of st] by (simp add: NUMSTATES_def)
  moreover have "sumInState P CONNECT STOPPED = 0" using assms by (simp add: sum_states NUMSTATES_def)
  ultimately show ?thesis using assms by (simp add: population_def in_state_def NUMSTATES_def)
qed

lemma set_targets_post:
  "post (set_nuserTarget S n w) (\<lambda>w'. platoon_of w' = (platoon_of w)\<lparr>pl_nuserTarget := n\<rparr> \<and> users_of w' = users_of w)"
  "post (set_nconnectingTarget S n w) (\<lambda>w'. platoon_of w' = (platoon_of w)\<lparr>pl_nconnectingTarget := n\<rparr> \<and> users_of w' = users_of w)"
  "post (set_lastConnectingState S st w) (\<lambda>w'. platoon_of w' = (platoon_of w)\<lparr>pl_lastConnectingState := st\<rparr> \<and> users_of w' = users_of w)"
  by (auto simp: set_nuserTarget_def set_nconnectingTarget_def set_lastConnectingState_def put_platoon_def intro!: wakeUp_same[THEN post_mono])

lemma pl_init_counts: "post (pl_init f mx mn bpr sn pt un pw la n P) (\<lambda>P'. pl_nInState P' = replicate NUMSTATES 0)"
  by (auto simp: pl_init_def intro!: postI[of "store_str a b" for a b])

lemma platoon_start_populated:
  assumes "users_of w = Map.empty"
  shows "post (platoon_start S a ls w) (\<lambda>w'. populated (ar_users a) (wd_x w'))"
  using assms by (auto simp: platoon_start_def Let_def setVerbosity_def put_platoon_def
      intro!: fresh_population pl_init_counts[THEN post_mono] set_targets_post[THEN post_mono] postI[of "state_of k" for k])

lemma bench_setup_populated:
  assumes "users_of w = Map.empty"
  shows "go_post (bench_setup cf B mem ifs a w) (\<lambda>(k, wt, w'). populated (ar_users a) (wd_x w'))"
proof -
  have none: "post (on_osw f w1) R"
    if "users_of w1 = Map.empty" "\<And>z. users_of (snd z) = Map.empty \<Longrightarrow> R z" for f :: "_ \<Rightarrow> (rc \<times> _) option" and w1 R
    using that by (auto simp: on_osw_def on_xo_def on_oso_def post_def bind_eq_Some_conv)
  show ?thesis using assms
    by (auto simp: bench_setup_def init_poller_def Let_def split_beta split: option.splits
        intro!: none platoon_start_populated[THEN post_mono] del: pop.on_osw_keeps)
qed

text \<open>
  C9. From any set-up on, for every poller, system and behaviour of the servers: no round of the main loop
  leaves more users than \<open>-n\<close> asks for, and every report's numbers of users connecting, alive and dead are
  not negative and, alive and dead together, at most that many.
\<close>
theorem users_never_exceed_target:
  assumes "users_of w = Map.empty" "bench_setup cf B mem ifs a w = Some (Go (k, wt, w0))"
    and "rounds (fst (B k)) (snd (B k)) (ar_duration a) wt w0 rs wt' w'"
  shows "int (card (dom (users_of w'))) \<le> max 0 (ar_users a) \<and> (\<forall>q \<in> set rs. report_fits (ar_users a) q)"
proof -
  have "populated (ar_users a) (wd_x w0)" using go_postD[OF bench_setup_populated[OF assms(1)] assms(2)] by simp
  from rounds_populated[OF assms(3) this] show ?thesis using population_size by blast
qed

subsection \<open>A round in which nothing happens\<close>

lemma sys0_clock: "read_eclock (base_calls sys0 c) (mk ls s P h x) = (0, mk ls s P h x)"
  by (simp add: read_eclock_def on_x_def base_calls_def on_os_def sys0_def eclock_def mk_def)

lemma idle_runAll:
  assumes q: "queue_ok 0 s h" and only: "dom (schedule s) \<subseteq> {CPlatoon}" and no: "\<not> wants_more P"
  shows "\<exists>s'. farm_runAll sys0 0 (mk ls s P h x) = Some (OK, mk ls s' P h x) \<and> sked_inv 0 s'"
proof -
  have inv: "sked_inv 0 s" and now: "in_window 0 (0 :: 64 clock)" using q by (simp_all add: queue_ok_def in_window_def ticks_def)
  show ?thesis
  proof (cases "due 0 s = {}")
    case True
    with runAll_stop[OF inv now True, of "farm_callback sys0"] inv show ?thesis by (intro exI[of _ s]) (simp add: farm_runAll_def)
  next
    case False
    obtain c t s1 where d: "schedule s c = Some t" "removed 0 c s s1"
      "\<And>x :: (64, osx) farm_world. runAll (farm_callback sys0) 0 (s, x) = do { sx' \<leftarrow> farm_callback sys0 c 0 (s1, x); runAll (farm_callback sys0) 0 sx' }"
      using runAll_deliver[OF inv now False] by metis
    have c: "c = CPlatoon" using d(1) only by blast
    have inv1: "sked_inv 0 s1" "schedule s1 = Map.empty" using d(2) only by (auto simp: removed_def c fun_eq_iff)
    have "due 0 s1 = {}" using inv1(2) by (simp add: due_def)
    note stop = runAll_stop[OF inv1(1) now this, of "farm_callback sys0"]
    have "platoon_skedCallback sys0 (mk ls s1 P h x) = Some (mk ls s1 P h x)"
      using no by (simp add: platoon_skedCallback.simps[of sys0 "mk ls s1 P h x"])
    then show ?thesis using stop inv1(1)
      by (intro exI[of _ s1]) (simp add: farm_runAll_def d(3) c farm_callback_def farm_skedCallback_def)
  qed
qed

lemma idle_round:
  assumes q: "queue_ok 0 s h" and only: "dom (schedule s) \<subseteq> {CPlatoon}" and no: "\<not> wants_more P" and dead: "pl_deadlist P = []"
    and zero: "pl_nInState P = replicate NUMSTATES 0"
  shows "\<exists>w'. bench_round sys0 po0 0 (watch_start 0 0) (mk ls s P h x) = Some (Go (Some (0, 0, 0, 0), watch_start 0 0, w'))"
proof -
  obtain s' where s': "farm_runAll sys0 0 (mk ls s P h x) = Some (OK, mk ls s' P h x)" "sked_inv 0 s'"
    using idle_runAll[OF q only no] by blast
  obtain t where t: "nextTime s' (0 + of_int eclock_HERTZ) = Some t" using nextTime_least[OF s'(2), of "0 + of_int eclock_HERTZ"] by (auto split: if_splits)
  have sums: "sumInState P f l = 0" for f l
  proof -
    have "map ((!) (replicate 8 (0 :: int))) [state_no f..<state_no l + 1] = map (\<lambda>i. 0) [state_no f..<state_no l + 1]"
      using state_no_less[of l] by (intro map_cong) (auto simp: NUMSTATES_def)
    moreover have "pl_nInState P = replicate 8 0" using zero by (simp add: NUMSTATES_def)
    ultimately show ?thesis by (simp only: sumInState_def sum_list_0)
  qed
  have "getStatus_pl sys0 (mk ls s P h x) = Some ((0, 0, 0, pl_bytesFetched P), mk ls s P h x)"
    using dead by (simp add: getStatus_pl_def reap_def sums Let_def)
  moreover have "service sys0 po0 (mk ls s' P h x) = Some (Go (mk ls s' P h x))"
    by (simp add: service.simps[of sys0] next_event_def po0_def)
  ultimately show ?thesis using s' t
    by (simp add: bench_round_def sys0_clock time_up_def watch_status_def watch_start_def work_step_def sleep_step_def po0_def wait_failed_def)
qed

definition args_idle :: args where
  "args_idle = (args1 False)\<lparr>ar_nconnectingTarget := 0\<rparr>"

lemma args_idle: "ar_users args_idle = 5" "ar_duration args_idle = 0" "ar_useAllLocalIfs args_idle = False"
    "names_fit args_idle platoon0" "state_of (ar_lastConnectingState args_idle) = Some CONNECTING" "ar_nconnectingTarget args_idle = 0"
    "pick_poller build0 (ar_selector args_idle) = Some BPoll"
  by (simp_all add: args_idle_def names_fit_def args1_def bench_defaults_def platoon0_def state_of_def states_def pick_poller_def)

theorem users_never_exceed_target_witness:
  "\<exists>wt w0 wt' w'. bench_setup build0 (\<lambda>k. (sys0, po0)) (Some (replicate 256 \<lparr>skc = CPlatoon, rec_when = 0\<rparr>)) [] args_idle (farm0 ox0) =
       Some (Go (BPoll, wt, w0)) \<and>
     rounds sys0 po0 0 wt w0 [(0, 0, 0, 0)] wt' w' \<and> int (card (dom (users_of w'))) \<le> 5 \<and> report_fits 5 (0 :: 64 clock, 0, 0, 0)"
proof -
  let ?mem = "Some (replicate 256 \<lparr>skc = CPlatoon, rec_when = 0 :: 64 clock\<rparr>)"
  have q: "queue_ok 0 fsk Map.empty" by (simp add: queue_ok_def few_def)
  have s0: "sked_init ?mem fsk = (OK, fsk)" by (simp add: fsk_def sked_init_def)
  obtain s' P' x' t where p: "platoon_start sys0 args_idle [] (mk [] fsk platoon0 Map.empty ox0) = Some (mk [] s' P' Map.empty x')"
    "queue_ok 0 s' Map.empty" "schedule s' = [CPlatoon \<mapsto> t]" "fresh_platoon args_idle [] CONNECTING P'"
    using platoon_start_lemma[OF sys0_ok q _ args_idle(4,5), of "[]" "[]" ox0] by auto
  let ?w0 = "mk [] s' P' Map.empty x'"
  have started: "bench_setup build0 (\<lambda>k. (sys0, po0)) ?mem [] args_idle (farm0 ox0) = Some (Go (BPoll, watch_start 0 0, ?w0))"
    using p(1) s0 by (simp add: bench_setup_def farm0_def args_idle init_poller_def po0_def check_ok_def sys0_clock)
  have "\<not> wants_more P'" using p(4) by (auto simp: fresh_platoon_def wants_more_def args_idle sumInState_def NUMSTATES_def upt_rec)
  then obtain w' where round: "bench_round sys0 po0 0 (watch_start 0 0) ?w0 = Some (Go (Some (0, 0, 0, 0), watch_start 0 0, w'))"
    using idle_round[OF p(2), of P' "[]" x'] p(3,4) by (simp add: fresh_platoon_def) blast
  have "rounds sys0 po0 0 (watch_start 0 0) ?w0 [(0, 0, 0, 0)] (watch_start 0 0) w'"
    by (rule rounds_next[OF round rounds_none])
  then show ?thesis
    using users_never_exceed_target[OF _ started, of "[(0, 0, 0, 0)]" "watch_start 0 0" w'] started
    by (auto simp: farm0_def args_idle)
qed

end
