(* ===== verification/Platoon_reset.thy ===== *)
theory Platoon_reset
  imports Farm
begin

text \<open>
  \<open>reset\<close> of Platoon.cc: it ends every user, the dead and the living, and leaves the event queue empty,
  which the code asserts.
\<close>

lemma bury_slot:
  assumes sys: "sys_ok S b" and q: "queue_ok b s h" and t: "table_ok (pl_users P) h" and p: "pipes_ok s h"
    and n: "n < Platoon_MAXUSERS"
  shows "\<exists>s' us h' x'. (case pl_users P ! n of None \<Rightarrow> Some (mk ls s P h x) | Some r \<Rightarrow> bury S r (mk ls s P h x)) =
            Some (mk ls s' (P\<lparr>pl_users := us\<rparr>) h' x') \<and> queue_ok b s' h' \<and> table_ok us h' \<and> pipes_ok s' h' \<and>
            h' = h |` {r. \<forall>u. h r = Some u \<longrightarrow> ru_user u \<noteq> n} \<and> dom (schedule s') \<subseteq> dom (schedule s)"
proof (cases "pl_users P ! n")
  case None
  have "ru_user u \<noteq> n" if "h r = Some u" for r u using t that None by (auto simp: table_ok_def)
  then have "h = h |` {r. \<forall>u. h r = Some u \<longrightarrow> ru_user u \<noteq> n}" by (auto simp: restrict_map_def fun_eq_iff)
  with None q t p show ?thesis by (intro exI[of _ s] exI[of _ "pl_users P"] exI[of _ h] exI[of _ x]) (cases P; simp)
next
  case (Some r)
  then have "\<exists>u. h r = Some u \<and> ru_user u = n" using t n by (simp add: table_ok_def)
  then obtain u where u: "h r = Some u" "ru_user u = n" by blast
  have "ru_user v \<noteq> n" if "h q = Some v" "q \<noteq> r" for q v using t that Some by (auto simp: table_ok_def)
  then have h: "h(r := None) = h |` {q. \<forall>u. h q = Some u \<longrightarrow> ru_user u \<noteq> n}"
    using u by (auto simp: restrict_map_def fun_eq_iff)
  obtain s' where b: "bury S r (mk ls s P h x) =
      Some (mk ls s' (P\<lparr>pl_users := (pl_users P)[ru_user u := None]\<rparr>) (h(r := None)) (user_closed S u x))"
    "queue_ok b s' (h(r := None))" "pipes_ok s' (h(r := None))" "table_ok ((pl_users P)[ru_user u := None]) (h(r := None))"
    "schedule s' = unqueued r (schedule s)"
    using bury_lemma[OF sys q t p u(1), of ls x] by auto
  have "dom (schedule s') \<subseteq> dom (schedule s)" unfolding b(5) unqueued_def by (auto split: if_splits)
  with b(1-4) h Some show ?thesis by auto
qed

lemma reset_loop_lemma:
  assumes sys: "sys_ok S b"
  shows "queue_ok b s h \<Longrightarrow> table_ok (pl_users P) h \<Longrightarrow> pipes_ok s h \<Longrightarrow> n \<le> Platoon_MAXUSERS \<Longrightarrow>
    \<exists>s' us h' x'. reset_loop S [n..<Platoon_MAXUSERS] (mk ls s P h x) = Some (mk ls s' (P\<lparr>pl_users := us\<rparr>) h' x') \<and>
      queue_ok b s' h' \<and> table_ok us h' \<and> h' = h |` {r. \<forall>u. h r = Some u \<longrightarrow> ru_user u < n}"
proof (induction "Platoon_MAXUSERS - n" arbitrary: n s P h x)
  case 0
  then have "[n..<Platoon_MAXUSERS] = []" "n = Platoon_MAXUSERS" by simp_all
  moreover have "h = h |` {r. \<forall>u. h r = Some u \<longrightarrow> ru_user u < Platoon_MAXUSERS}"
    using 0(3) by (auto simp: table_ok_def restrict_map_def fun_eq_iff)
  ultimately show ?case using 0 by (intro exI[of _ s] exI[of _ "pl_users P"] exI[of _ h] exI[of _ x]) (cases P; simp)
next
  case (Suc k)
  then have n: "n < Platoon_MAXUSERS" by simp
  have cons: "[n..<Platoon_MAXUSERS] = n # [Suc n..<Platoon_MAXUSERS]" using n by (simp add: upt_conv_Cons)
  obtain s1 us h1 x1 where 1: "(case pl_users P ! n of None \<Rightarrow> Some (mk ls s P h x) | Some r \<Rightarrow> bury S r (mk ls s P h x)) =
      Some (mk ls s1 (P\<lparr>pl_users := us\<rparr>) h1 x1)" "queue_ok b s1 h1" "table_ok us h1" "pipes_ok s1 h1"
    "h1 = h |` {r. \<forall>u. h r = Some u \<longrightarrow> ru_user u \<noteq> n}"
    using bury_slot[OF sys Suc.prems(1-3) n, of ls x] by blast
  have len: "n < length (pl_users P)" using Suc.prems(2) n by (simp add: table_ok_def)
  have "k = Platoon_MAXUSERS - Suc n" "Suc n \<le> Platoon_MAXUSERS" "table_ok (pl_users (P\<lparr>pl_users := us\<rparr>)) h1"
    using Suc.hyps(2) n 1(3) by simp_all
  then obtain s2 us2 h2 x2 where 2: "reset_loop S [Suc n..<Platoon_MAXUSERS] (mk ls s1 (P\<lparr>pl_users := us\<rparr>) h1 x1) =
      Some (mk ls s2 (P\<lparr>pl_users := us, pl_users := us2\<rparr>) h2 x2)" "queue_ok b s2 h2" "table_ok us2 h2"
    "h2 = h1 |` {r. \<forall>u. h1 r = Some u \<longrightarrow> ru_user u < Suc n}"
    using Suc.hyps(1)[OF _ 1(2) _ 1(4), of "Suc n" "P\<lparr>pl_users := us\<rparr>" x1] by blast
  have "reset_loop S [n..<Platoon_MAXUSERS] (mk ls s P h x) = Some (mk ls s2 (P\<lparr>pl_users := us2\<rparr>) h2 x2)"
    using 1(1) 2(1) len unfolding cons by simp
  moreover have "h2 = h |` {r. \<forall>u. h r = Some u \<longrightarrow> ru_user u < n}"
    unfolding 2(4) 1(5) by (auto simp: restrict_map_def fun_eq_iff less_Suc_eq)
  ultimately show ?case using 2(2,3) by blast
qed

lemma pl_reset_lemma:
  assumes sys: "sys_ok S b" and ok: "farm_ok b (mk ls s P h x)"
  shows "\<exists>s' us x'. pl_reset S (mk ls s P h x) = Some (mk ls s' (P\<lparr>pl_users := us, pl_deadlist := []\<rparr>) Map.empty x') \<and>
           queue_ok b s' Map.empty \<and> schedule s' = Map.empty \<and> us = replicate Platoon_MAXUSERS None"
proof -
  have inv: "farm_inv P h" "queue_ok b s h" "pipes_ok s h" using ok by simp_all
  let ?dead = "pl_deadlist P" and ?h1 = "h |` (- set (pl_deadlist P))"
  have d: "distinct ?dead" "set ?dead = in_state h STOPPED" "table_ok (pl_users P) h" using inv(1) by (simp_all add: farm_inv_def)
  have sub: "set ?dead \<subseteq> dom h" using d(2) in_state_dom by blast
  obtain s1 us1 x1 where 1: "reap_loop S ?dead (mk ls s P h x) = Some (mk ls s1 (P\<lparr>pl_users := us1, pl_deadlist := []\<rparr>) ?h1 x1)"
    "queue_ok b s1 ?h1" "table_ok us1 ?h1" "pipes_ok s1 ?h1"
    using reap_loop_lemma[OF sys inv(2) d(3) inv(3) d(1) sub refl, of ls x] by blast
  let ?P1 = "P\<lparr>pl_users := us1, pl_deadlist := []\<rparr>"
  have t1: "table_ok (pl_users ?P1) ?h1" using 1(3) by simp
  obtain s2 us h2 x2 where 2: "reset_loop S [0..<Platoon_MAXUSERS] (mk ls s1 ?P1 ?h1 x1) = Some (mk ls s2 (?P1\<lparr>pl_users := us\<rparr>) h2 x2)"
    "queue_ok b s2 h2" "table_ok us h2" "h2 = ?h1 |` {r. \<forall>u. ?h1 r = Some u \<longrightarrow> ru_user u < 0}"
    using reset_loop_lemma[OF sys 1(2) t1 1(4), of 0 ls x1] by blast
  have h2: "h2 = Map.empty" unfolding 2(4) by (auto simp: restrict_map_def fun_eq_iff)
  obtain s3 where 3: "unsched (base_calls S CPlatoon) (mk ls s2 (?P1\<lparr>pl_users := us\<rparr>) h2 x2) = Some (mk ls s3 (?P1\<lparr>pl_users := us\<rparr>) h2 x2)"
    "queue_ok b s3 h2" "schedule s3 = (schedule s2)(CPlatoon := None)"
    using queue_del[OF 2(2), of S CPlatoon ls "?P1\<lparr>pl_users := us\<rparr>" x2] by blast
  have "dom (schedule s2) \<subseteq> {CPlatoon}" using 2(2) by (auto simp: queue_ok_def clients_of_def h2)
  then have empty: "schedule s3 = Map.empty" unfolding 3(3) by (auto simp: fun_eq_iff)
  then have "sked_empty s3" using 3(2) schedule_empty_iff[of s3] by (simp add: sked_empty_def queue_ok_def sked_inv_def)
  then have "pl_reset S (mk ls s P h x) = Some (mk ls s3 (?P1\<lparr>pl_users := us\<rparr>) h2 x2)"
    using 1(1) 2(1) 3(1) by (simp add: pl_reset_def reap_def del: upt_Suc)
  moreover have "?P1\<lparr>pl_users := us\<rparr> = P\<lparr>pl_users := us, pl_deadlist := []\<rparr>" by simp
  moreover have "us = replicate Platoon_MAXUSERS None"
  proof (rule nth_equalityI)
    show "length us = length (replicate Platoon_MAXUSERS None)" using 2(3) by (simp add: table_ok_def)
    have "us ! i = None" if "i < Platoon_MAXUSERS" for i using 2(3) that unfolding h2 by (cases "us ! i") (simp_all add: table_ok_def)
    then show "us ! i = replicate Platoon_MAXUSERS None ! i" if "i < length us" for i
      using that 2(3) by (simp add: table_ok_def)
  qed
  ultimately show ?thesis using 3(2) empty unfolding h2 by metis
qed

text \<open>
  C6. \<open>reset\<close> returns from every state of the farm: it frees all users, empties every slot and the list of the
  dead, and the event queue is empty, so that the assertion at its end holds.
\<close>
theorem reset_frees_everything:
  assumes "sys_ok S b" "farm_ok b w"
  shows "\<exists>w'. pl_reset S w = Some w' \<and> users_of w' = Map.empty \<and> timers w' = Map.empty \<and>
           pl_users (platoon_of w') = replicate Platoon_MAXUSERS None \<and> pl_deadlist (platoon_of w') = []"
proof -
  obtain ls s P h x where w: "w = mk ls s P h x" by (rule mk_cases)
  obtain s' us x' where "pl_reset S w = Some (mk ls s' (P\<lparr>pl_users := us, pl_deadlist := []\<rparr>) Map.empty x')"
    "schedule s' = Map.empty" "us = replicate Platoon_MAXUSERS None"
    using pl_reset_lemma[OF assms(1) assms(2)[unfolded w]] unfolding w by blast
  then show ?thesis by simp
qed

theorem reset_frees_everything_witness:
  "\<exists>w'. pl_reset sys0 (farm1 GETTING_FILE ox0) = Some w' \<and> users_of w' 2 = None \<and> users_of (farm1 GETTING_FILE ox0) 2 \<noteq> None"
  using reset_frees_everything[OF sys0_ok farm1_ok[of GETTING_FILE ox0]] by (auto simp: farm1_def)

end
