(* ===== verification/Seating.thy ===== *)
theory Seating
  imports User_frame Platoon_reset
begin

text \<open>
  The table of users in any run, whatever the servers send and the system answers: every user has a slot of
  its own and every slot in use has its user. So the loop of \<open>reset\<close> over the slots finds every user,
  also those that the main loop has started, stopped or reaped before.
\<close>

subsection \<open>Users and slots\<close>

text \<open>\<open>new\<close> returns an address at which there is no user.\<close>

definition fresh_addresses :: "('w::len, 'o) system \<Rightarrow> bool" where
  "fresh_addresses S = (\<forall>h. finite (dom h) \<longrightarrow> h (fst (new_user S h)) = None)"

definition seated :: "('w::len, 'o) system \<Rightarrow> 'w platoon \<Rightarrow> (nat \<Rightarrow> 'w robouser option) \<Rightarrow> bool" where
  "seated S P h = (fresh_addresses S \<and> table_ok (pl_users P) h \<and> length (pl_nInState P) = NUMSTATES)"

lemma seated_cong:
  "pl_users P' = pl_users P \<Longrightarrow> pl_nInState P' = pl_nInState P \<Longrightarrow> seated S P' h = seated S P h"
  by (simp add: seated_def)

lemma farm_seated: "sys_ok S b \<Longrightarrow> farm_inv P h \<Longrightarrow> seated S P h"
  by (simp add: seated_def sys_ok_def fresh_addresses_def farm_inv_def counts_ok_def)

interpretation seat: users_keep S "seated S" for S :: "('w::len, 'o) system"
proof unfold_locales
  fix P :: "'w platoon" and h :: "nat \<Rightarrow> 'w robouser option" and i r and v :: "'w robouser"
  assume s: "seated S P h" and i: "i < length (pl_users P)" "pl_users P ! i = None" and r: "r = fst (new_user S h)" and v: "ru_user v = i"
  have "i < Platoon_MAXUSERS" "h r = None" using s i(1) r by (auto simp: seated_def table_ok_def fresh_addresses_def)
  with s i v show "seated S (P\<lparr>pl_users := (pl_users P)[i := Some r], pl_nInState := count_move UNINIT CONNECT (pl_nInState P)\<rparr>) (h(r \<mapsto> v))"
    by (simp add: seated_def table_ok_new count_move_def Let_def)
qed (auto simp: seated_def count_move_def Let_def table_ok_del table_ok_upd)

lemma getStatus_seated: "holds (seated S) (wd_x w) \<Longrightarrow> post (getStatus_pl S w) (\<lambda>z. holds (seated S) (wd_x (snd z)))"
  by (auto simp: getStatus_pl_def Let_def)

lemma setters_same:
  "post (set_nuserTarget S n w) (\<lambda>w'. platoon_of w' = (platoon_of w)\<lparr>pl_nuserTarget := n\<rparr> \<and> users_of w' = users_of w)"
  "post (set_nconnectingTarget S n w) (\<lambda>w'. platoon_of w' = (platoon_of w)\<lparr>pl_nconnectingTarget := n\<rparr> \<and> users_of w' = users_of w)"
  "post (set_lastConnectingState S st w) (\<lambda>w'. platoon_of w' = (platoon_of w)\<lparr>pl_lastConnectingState := st\<rparr> \<and> users_of w' = users_of w)"
  by (auto simp: set_nuserTarget_def set_nconnectingTarget_def set_lastConnectingState_def put_platoon_def intro!: wakeUp_same[THEN post_mono])

subsection \<open>Reset\<close>

lemma reap_post:
  assumes "holds (seated S) (wd_x w)"
  shows "post (reap S w) (\<lambda>w'. holds (seated S) (wd_x w') \<and> pl_deadlist (platoon_of w') = [])"
proof -
  have "holds (seated S) (wd_x w) \<Longrightarrow> pl_deadlist (platoon_of w) = dead \<Longrightarrow>
      post (reap_loop S dead w) (\<lambda>w'. holds (seated S) (wd_x w') \<and> pl_deadlist (platoon_of w') = [])" for dead
  proof (induction dead arbitrary: w)
    case (Cons r dead)
    let ?w = "put_platoon ((platoon_of w)\<lparr>pl_deadlist := dead\<rparr>) w"
    have s: "holds (seated S) (wd_x ?w)" using Cons.prems(1) by (simp add: put_platoon_def seated_def)
    have "post (bury S r ?w) (\<lambda>w1. post (reap_loop S dead w1) (\<lambda>w'. holds (seated S) (wd_x w') \<and> pl_deadlist (platoon_of w') = []))"
    proof (rule postI)
      fix w1
      assume b: "bury S r ?w = Some w1"
      have "holds (seated S) (wd_x w1)" by (rule postD[OF seat.bury_keeps[OF s] b])
      moreover have "pl_deadlist (platoon_of w1) = dead" using postD[OF bury_same b] by (auto simp: put_platoon_def)
      ultimately show "post (reap_loop S dead w1) (\<lambda>w'. holds (seated S) (wd_x w') \<and> pl_deadlist (platoon_of w') = [])" by (rule Cons.IH)
    qed
    then show ?case by simp
  qed simp
  then show ?thesis using assms by (simp add: reap_def)
qed

text \<open>After the loop the slots it has visited are empty, and those that were stay so.\<close>

definition vacated :: "nat set \<Rightarrow> ('w::len, 'o) farm_world \<Rightarrow> ('w, 'o) farm_world \<Rightarrow> bool" where
  "vacated I w w' =
     (pl_deadlist (platoon_of w') = pl_deadlist (platoon_of w) \<and>
      (\<forall>j. pl_users (platoon_of w) ! j = None \<or> j \<in> I \<longrightarrow> pl_users (platoon_of w') ! j = None))"

lemma reset_loop_post:
  "holds (seated S) (wd_x w) \<Longrightarrow> post (reset_loop S is w) (\<lambda>w'. holds (seated S) (wd_x w') \<and> vacated (set is) w w')"
proof (induction "is" arbitrary: w)
  case (Cons i "is")
  let ?us = "pl_users (platoon_of w)"
  have visit: "post (case u of None \<Rightarrow> Some w | Some r \<Rightarrow> bury S r w) (\<lambda>w1. holds (seated S) (wd_x w1) \<and> vacated {i} w w1)"
    if u: "u = ?us ! i" "i < length ?us" for u
  proof (cases u)
    case None
    then show ?thesis using Cons.prems u by (auto simp: vacated_def)
  next
    case (Some r)
    have tab: "table_ok ?us (users_of w)" using Cons.prems by (simp add: seated_def)
    then have i: "i < Platoon_MAXUSERS" "?us ! i = Some r" using u Some by (auto simp: table_ok_def)
    then have "\<exists>v. users_of w r = Some v \<and> ru_user v = i" using tab by (auto simp: table_ok_def)
    then obtain v where v: "users_of w r = Some v" "ru_user v = i" by blast
    have "post (bury S r w) (\<lambda>w1. vacated {i} w w1)"
      by (rule post_mono[OF bury_same]) (use v u in \<open>auto simp: vacated_def nth_list_update\<close>)
    moreover have "post (bury S r w) (\<lambda>w1. holds (seated S) (wd_x w1))" by (rule seat.bury_keeps[OF Cons.prems])
    ultimately show ?thesis using Some by (auto simp: post_def)
  qed
  have "post (reset_loop S is w1) (\<lambda>w'. holds (seated S) (wd_x w') \<and> vacated (set (i # is)) w w')"
    if "holds (seated S) (wd_x w1) \<and> vacated {i} w w1" for w1
    by (rule post_mono[OF Cons.IH]) (use that in \<open>auto simp: vacated_def\<close>)
  then show ?case by (auto simp: rd_def intro!: visit[THEN post_mono])
qed (simp add: vacated_def)

lemma reset_empties:
  assumes "holds (seated S) (wd_x w)"
  shows "post (pl_reset S w) (\<lambda>w'. users_of w' = Map.empty \<and> pl_deadlist (platoon_of w') = [] \<and> sked_empty (wd_sked w'))"
proof -
  have nobody: "users_of w2 = Map.empty" if "holds (seated S) (wd_x w2)" "vacated {0..<Platoon_MAXUSERS} w1 w2" for w1 w2 :: "('a, 'b) farm_world"
  proof -
    have "table_ok (pl_users (platoon_of w2)) (users_of w2)" "\<forall>j < Platoon_MAXUSERS. pl_users (platoon_of w2) ! j = None"
      using that by (auto simp: seated_def vacated_def)
    then have "users_of w2 r \<noteq> Some u" for r u unfolding table_ok_def by (metis option.distinct(1))
    then have "users_of w2 r = None" for r by (cases "users_of w2 r") simp_all
    then show ?thesis by (simp add: fun_eq_iff)
  qed
  have loop: "post (reset_loop S [0..<Platoon_MAXUSERS] w1) (\<lambda>w2. users_of w2 = Map.empty \<and> pl_deadlist (platoon_of w2) = [])"
    if "holds (seated S) (wd_x w1) \<and> pl_deadlist (platoon_of w1) = []" for w1
    by (rule post_mono[OF reset_loop_post[OF that[THEN conjunct1]]]) (use that nobody in \<open>auto simp: vacated_def\<close>)
  show ?thesis
    by (auto simp: pl_reset_def intro!: reap_post[OF assms, THEN post_mono] loop[THEN post_mono] sched_same(2)[THEN post_mono])
qed

end
