(* ===== verification/Corba_platoon.thy ===== *)
theory Corba_platoon
  imports Seating
begin

unbundle bit_operations_syntax

text \<open>
  The server of CorbaPlatoon\_impl.cc: a platoon, its event queue, a pointer to a poller and a mutex, with
  the operations a remote controller calls and \<open>perform_work\<close>, which the program's own loop calls in
  between. All calls come from one thread, so that a locked mutex is a deadlock. The mutex calls of
  the system do not fail.

  The pointers: \<open>cp_poller\<close> is null until \<open>init\<close> and again after \<open>reset\<close>; the platoon's pointers to the
  queue and to its strings are set by \<open>init\<close>, and following them before is undefined.
\<close>

subsection \<open>State\<close>

datatype sessionState_t = CONNECT_START | CONNECT_FINISH

record ('t, 'o) corba_rec =
  cp_farm :: "(client, 't, ('t, 'o) farm_rec) world"
  cp_poller :: "backend option"
  cp_locked :: bool
  cp_inited :: bool

type_synonym ('w, 'o) server = "('w clock, 'o) corba_rec"

definition cp_lock :: "('w::len, 'o) server \<Rightarrow> ('w, 'o) server option" where
  "cp_lock sv = do { assertion (\<not> cp_locked sv); Some (sv\<lparr>cp_locked := True\<rparr>) }"

definition cp_unlock :: "('w::len, 'o) server \<Rightarrow> ('w, 'o) server" where
  "cp_unlock sv = sv\<lparr>cp_locked := False\<rparr>"

text \<open>The constructor; \<open>mem\<close> is what the queue's \<open>malloc\<close> returns.\<close>

definition corba_new :: "(client, 'w::len) skrec list option \<Rightarrow> ('w, 'o) farm_world \<Rightarrow> ('w, 'o) server outcome" where
  "corba_new mem w =
     (let (r, s) = sked_init mem (wd_sked w);
          w1 = put_platoon ((platoon_of w)\<lparr>pl_deadlist := []\<rparr>) (w\<lparr>wd_sked := s\<lparr>skedIndex := (skedIndex s)(CPlatoon := 0)\<rparr>\<rparr>)
      in if r \<noteq> OK then Exit 1
         else Go \<lparr>cp_farm = w1, cp_poller = None, cp_locked = False, cp_inited = False\<rparr>)"

subsection \<open>Operations\<close>

text \<open>The arguments of \<open>init\<close>: unsigned numbers of 32 and 16 bits, which are cast to \<open>int\<close>.\<close>

record init_req =
  iq_filename :: "char list"
  iq_maxBytesPerSec :: nat
  iq_minBytesPerSec :: nat
  iq_bytesPerRead :: nat
  iq_servername :: "char list"
  iq_port :: nat
  iq_username :: "char list"
  iq_passwd :: "char list"
  iq_useAllLocalInterfaces :: bool

definition to_int :: "nat \<Rightarrow> int" where
  "to_int n = sint (of_nat n :: 32 word)"

text \<open>
  \<open>init\<close>. The branch under \<open>SIGRTMIN\<close> and the case of the signal-per-descriptor back end name a variable
  \<open>poller\<close> that does not exist: only a build without both compiles.
\<close>

definition corba_init ::
  "build \<Rightarrow> char \<Rightarrow> (backend \<Rightarrow> 'o poller) \<Rightarrow> 32 word option list \<Rightarrow> init_req \<Rightarrow> ('w::len, 'o) server \<Rightarrow> ('w, 'o) server outcome option" where
  "corba_init cf selector PCs ifs q sv = do {
     assertion (\<not> SIGRTMIN_defined cf \<and> \<not> HAVE_F_SETAUXFL cf);
     let ls = (if iq_useAllLocalInterfaces q then local_addrs ifs else []);
     sv1 \<leftarrow> cp_lock sv;
     case pick_poller cf selector of
       None \<Rightarrow> Some (Exit 1)
     | Some k \<Rightarrow> do {
         (err, w1) \<leftarrow> on_osw (po_init (PCs k)) (cp_farm sv1);
         andthen (Some (check_ok err w1)) (\<lambda>w1. do {
           P \<leftarrow> pl_init (iq_filename q) (to_int (iq_maxBytesPerSec q)) (to_int (iq_minBytesPerSec q)) (to_int (iq_bytesPerRead q))
                  (iq_servername q) (int (iq_port q)) (iq_username q) (iq_passwd q) (iq_useAllLocalInterfaces q) (length ls) (platoon_of w1);
           let w2 = setVerbosity 3 (put_platoon P (w1\<lparr>wd_locals := ls\<rparr>));
           Some (Go (cp_unlock (sv1\<lparr>cp_poller := Some k, cp_inited := True, cp_farm := w2\<rparr>)))
         })
       }
   }"

definition corba_reset ::
  "('w::len, 'o) system \<Rightarrow> (backend \<Rightarrow> 'o poller) \<Rightarrow> ('w, 'o) server \<Rightarrow> ('w, 'o) server option" where
  "corba_reset S PCs sv = do {
     sv1 \<leftarrow> cp_lock sv;
     assertion (cp_inited sv1);
     w1 \<leftarrow> pl_reset S (cp_farm sv1);
     k \<leftarrow> cp_poller sv1;
     (u, w2) \<leftarrow> on_osw (\<lambda>x. do { x1 \<leftarrow> po_shutdown (PCs k) x; Some ((), x1) }) w1;
     Some (cp_unlock (sv1\<lparr>cp_poller := None, cp_farm := w2\<rparr>))
   }"

definition corba_getStatus ::
  "('w::len, 'o) system \<Rightarrow> ('w, 'o) server \<Rightarrow> ((32 word \<times> 32 word \<times> 32 word \<times> 'w word) \<times> ('w, 'o) server) option" where
  "corba_getStatus S sv = do {
     sv1 \<leftarrow> cp_lock sv;
     assertion (cp_inited sv1);
     ((nc, na, nd, bytes), w1) \<leftarrow> getStatus_pl S (cp_farm sv1);
     let sv2 = cp_unlock (sv1\<lparr>cp_farm := w1\<rparr>);
     Some ((of_int nc, of_int na, of_int nd, bytes), sv2)
   }"

text \<open>The setters lock the mutex around one call of the platoon; three of them use its queue.\<close>

definition locked_call ::
  "(('w::len, 'o) farm_world \<Rightarrow> ('w, 'o) farm_world option) \<Rightarrow> ('w, 'o) server \<Rightarrow> ('w, 'o) server option" where
  "locked_call f sv = do { sv1 \<leftarrow> cp_lock sv; w1 \<leftarrow> f (cp_farm sv1); Some (cp_unlock (sv1\<lparr>cp_farm := w1\<rparr>)) }"

definition corba_set_verbosity :: "int \<Rightarrow> ('w::len, 'o) server \<Rightarrow> ('w, 'o) server option" where
  "corba_set_verbosity v = locked_call (\<lambda>w. Some (setVerbosity v w))"

definition corba_set_nuserTarget :: "('w::len, 'o) system \<Rightarrow> nat \<Rightarrow> ('w, 'o) server \<Rightarrow> ('w, 'o) server option" where
  "corba_set_nuserTarget S n sv = do { assertion (cp_inited sv); locked_call (set_nuserTarget S (to_int n)) sv }"

definition corba_set_nconnectingTarget :: "('w::len, 'o) system \<Rightarrow> nat \<Rightarrow> ('w, 'o) server \<Rightarrow> ('w, 'o) server option" where
  "corba_set_nconnectingTarget S n sv = do { assertion (cp_inited sv); locked_call (set_nconnectingTarget S (to_int n)) sv }"

fun session_state :: "sessionState_t \<Rightarrow> state_t" where
  "session_state CONNECT_START = CONNECTING"
| "session_state CONNECT_FINISH = CONNECT"

definition corba_set_lastConnectingState ::
  "('w::len, 'o) system \<Rightarrow> sessionState_t \<Rightarrow> ('w, 'o) server \<Rightarrow> ('w, 'o) server option" where
  "corba_set_lastConnectingState S l sv =
     do { assertion (cp_inited sv); locked_call (set_lastConnectingState S (session_state l)) sv }"

text \<open>\<open>perform_work\<close>: \<open>status err\<close> is the number of an error, with which \<open>die\<close> exits.\<close>

definition corba_perform_work ::
  "('w::len, 'o) system \<Rightarrow> (backend \<Rightarrow> 'o poller) \<Rightarrow> (rc \<Rightarrow> int) \<Rightarrow> ('w, 'o) server \<Rightarrow> ('w, 'o) server outcome option" where
  "corba_perform_work S PCs status sv = do {
     sv1 \<leftarrow> cp_lock sv;
     case cp_poller sv1 of
       None \<Rightarrow> Some (Go (cp_unlock sv1))
     | Some k \<Rightarrow> do {
         let (now, w1) = read_eclock (base_calls S CPlatoon) (cp_farm sv1);
         andthen (work_step S (PCs k) (\<lambda>ms. ms) status now w1) (\<lambda>w2. Some (Go (cp_unlock (sv1\<lparr>cp_farm := w2\<rparr>))))
       }
   }"

definition corba_delete :: "(backend \<Rightarrow> 'o poller) \<Rightarrow> ('w::len, 'o) server \<Rightarrow> ('w, 'o) server option" where
  "corba_delete PCs sv = do {
     sv1 \<leftarrow> cp_lock sv;
     k \<leftarrow> cp_poller sv1;
     (u, w1) \<leftarrow> on_osw (\<lambda>x. do { x1 \<leftarrow> po_shutdown (PCs k) x; Some ((), x1) }) (cp_farm sv1);
     Some (cp_unlock (sv1\<lparr>cp_farm := w1\<rparr>))
   }"

subsection \<open>The server as a state machine\<close>

datatype request =
    RInit init_req "32 word option list"
  | RReset
  | RStatus
  | RVerbosity int
  | RUsers nat
  | RConnecting nat
  | RLast sessionState_t
  | RWork

definition proceed :: "'a option \<Rightarrow> 'a outcome option" where
  "proceed m = do { a \<leftarrow> m; Some (Go a) }"

fun serve ::
  "build \<Rightarrow> char \<Rightarrow> ('w::len, 'o) system \<Rightarrow> (backend \<Rightarrow> 'o poller) \<Rightarrow> (rc \<Rightarrow> int) \<Rightarrow> request \<Rightarrow> ('w, 'o) server \<Rightarrow>
   ('w, 'o) server outcome option" where
  "serve cf c S PCs status (RInit q ifs) sv = corba_init cf c PCs ifs q sv"
| "serve cf c S PCs status RReset sv = proceed (corba_reset S PCs sv)"
| "serve cf c S PCs status RStatus sv = proceed (map_option snd (corba_getStatus S sv))"
| "serve cf c S PCs status (RVerbosity v) sv = proceed (corba_set_verbosity v sv)"
| "serve cf c S PCs status (RUsers n) sv = proceed (corba_set_nuserTarget S n sv)"
| "serve cf c S PCs status (RConnecting n) sv = proceed (corba_set_nconnectingTarget S n sv)"
| "serve cf c S PCs status (RLast l) sv = proceed (corba_set_lastConnectingState S l sv)"
| "serve cf c S PCs status RWork sv = corba_perform_work S PCs status sv"

text \<open>The requests served one after the other.\<close>

definition served ::
  "build \<Rightarrow> char \<Rightarrow> ('w::len, 'o) system \<Rightarrow> (backend \<Rightarrow> 'o poller) \<Rightarrow> (rc \<Rightarrow> int) \<Rightarrow>
   ('w, 'o) server \<Rightarrow> request list \<Rightarrow> ('w, 'o) server \<Rightarrow> bool" where
  "served cf c S PCs status = run_of (\<lambda>r sv sv'. serve cf c S PCs status r sv = Some (Go sv'))"

subsection \<open>The protocol of a controller\<close>

text \<open>
  The abstract machine: a server is fresh, active between \<open>init\<close> and \<open>reset\<close>, or closed. A call that follows
  a null or unset pointer crashes it.
\<close>

datatype phase = Fresh | Active | Closed | Crashed

fun phase_step :: "request \<Rightarrow> phase \<Rightarrow> phase" where
  "phase_step r Crashed = Crashed"
| "phase_step (RInit q ifs) ph = Active"
| "phase_step RReset ph = (if ph = Active then Closed else Crashed)"
| "phase_step (RVerbosity v) ph = ph"
| "phase_step RWork ph = ph"
| "phase_step r ph = (if ph = Fresh then Crashed else ph)"

text \<open>
  What the theorem below is about: \<open>init\<close> is not called on an active server (it would leak the poller and
  the users), with names that fit and some local address where they are asked for; and \<open>perform_work\<close> on
  an active server is the business of the platoon, not of the protocol.
\<close>

definition request_fits :: "request \<Rightarrow> phase \<Rightarrow> bool" where
  "request_fits r ph =
     (case r of
        RInit q ifs \<Rightarrow> ph \<noteq> Active \<and> length (iq_servername q) < 128 \<and> length (iq_username q) < 128 \<and> length (iq_passwd q) < 128 \<and>
          (iq_useAllLocalInterfaces q \<longrightarrow> local_addrs ifs \<noteq> [])
      | RWork \<Rightarrow> ph \<noteq> Active
      | _ \<Rightarrow> True)"

abbreviation run_fits :: "request list \<Rightarrow> phase \<Rightarrow> bool" where
  "run_fits \<equiv> session_ok phase_step request_fits Crashed"

definition arrays_ok :: "'w::len platoon \<Rightarrow> bool" where
  "arrays_ok P = (length (pl_servername P) = 128 \<and> length (pl_username P) = 128 \<and> length (pl_passwd P) = 128)"

definition sim :: "'w::len clock \<Rightarrow> phase \<Rightarrow> ('w, 'o) server \<Rightarrow> bool" where
  "sim b ph sv =
     (\<not> cp_locked sv \<and> arrays_ok (platoon_of (cp_farm sv)) \<and> queue_ok b (wd_sked (cp_farm sv)) (users_of (cp_farm sv)) \<and>
      (case ph of
         Fresh \<Rightarrow> cp_poller sv = None \<and> \<not> cp_inited sv \<and> users_of (cp_farm sv) = Map.empty
       | Active \<Rightarrow> cp_poller sv \<noteq> None \<and> cp_inited sv \<and> farm_ok b (cp_farm sv)
       | Closed \<Rightarrow> cp_poller sv = None \<and> cp_inited sv \<and> users_of (cp_farm sv) = Map.empty \<and> pl_deadlist (platoon_of (cp_farm sv)) = []
       | Crashed \<Rightarrow> False))"

text \<open>The environment: a compiled and supported back end that starts and stops, and a system that works.\<close>

definition server_env :: "'w::len clock \<Rightarrow> build \<Rightarrow> char \<Rightarrow> ('w, 'o) system \<Rightarrow> (backend \<Rightarrow> 'o poller) \<Rightarrow> bool" where
  "server_env b cf c S PCs =
     (sys_ok S b \<and> \<not> SIGRTMIN_defined cf \<and> \<not> HAVE_F_SETAUXFL cf \<and> pick_poller cf c \<noteq> None \<and>
      (\<forall>k x. \<exists>x'. po_init (PCs k) x = Some (OK, x')) \<and> (\<forall>k x. po_shutdown (PCs k) x \<noteq> None))"

lemmas server_defs = cp_lock_def cp_unlock_def proceed_def

lemma server_cases:
  fixes sv :: "('w::len, 'o) server"
  obtains ls s P h x k l i where "sv = \<lparr>cp_farm = mk ls s P h x, cp_poller = k, cp_locked = l, cp_inited = i\<rparr>"
  by (metis corba_rec.cases mk_cases)

lemma store_str_length: "store_str buf s = Some r \<Longrightarrow> length r = length buf"
  by (auto simp: store_str_def memcpy_def split: if_splits)

lemma init_serves:
  assumes env: "server_env b cf c S PCs" and sim: "sim b ph sv" and fits: "request_fits (RInit q ifs) ph"
  shows "\<exists>sv'. serve cf c S PCs status (RInit q ifs) sv = Some (Go sv') \<and> sim b Active sv'"
proof -
  obtain ls s P h x k l i where sv: "sv = \<lparr>cp_farm = mk ls s P h x, cp_poller = k, cp_locked = l, cp_inited = i\<rparr>" by (rule server_cases)
  have s: "\<not> l" "arrays_ok P" "queue_ok b s Map.empty" "h = Map.empty" using sim fits by (auto simp: sim_def sv request_fits_def split: phase.splits)
  obtain k' where k': "pick_poller cf c = Some k'" using env by (auto simp: server_env_def)
  obtain x' where x': "po_init (PCs k') x = Some (OK, x')" using env unfolding server_env_def by blast
  define pool where "pool = (if iq_useAllLocalInterfaces q then local_addrs ifs else [])"
  obtain P' where P': "pl_init (iq_filename q) (to_int (iq_maxBytesPerSec q)) (to_int (iq_minBytesPerSec q)) (to_int (iq_bytesPerRead q))
      (iq_servername q) (int (iq_port q)) (iq_username q) (iq_passwd q) (iq_useAllLocalInterfaces q) (length pool) P = Some P'"
    "arrays_ok P'" "pl_users P' = replicate Platoon_MAXUSERS None" "pl_nInState P' = replicate NUMSTATES 0" "pl_deadlist P' = []"
    "pl_local_addrs P' = iq_useAllLocalInterfaces q" "pl_n_local_addrs P' = length pool"
    using s(2) fits by (auto simp: pl_init_def arrays_ok_def request_fits_def)
  have inv: "farm_inv (P'\<lparr>pl_verbosity := 3\<rparr>) Map.empty"
    using P' fits by (simp add: pool_def farm_inv_def table_ok_def counts_ok_def in_state_def NUMSTATES_def request_fits_def
        nth_replicate state_no_less[unfolded NUMSTATES_def, simplified])
  have "serve cf c S PCs status (RInit q ifs) sv =
      Some (Go \<lparr>cp_farm = mk pool s (P'\<lparr>pl_verbosity := 3\<rparr>) Map.empty x', cp_poller = Some k', cp_locked = False, cp_inited = True\<rparr>)"
    using env k' x' P'(1) s
    by (simp add: server_env_def sv corba_init_def server_defs check_ok_def setVerbosity_def Let_def pool_def[symmetric])
  moreover have "sim b Active \<lparr>cp_farm = mk pool s (P'\<lparr>pl_verbosity := 3\<rparr>) Map.empty x', cp_poller = Some k', cp_locked = False, cp_inited = True\<rparr>"
    using inv s(3) P'(2) by (simp add: sim_def arrays_ok_def pipes_ok_def)
  ultimately show ?thesis by blast
qed

lemma reset_serves:
  assumes env: "server_env b cf c S PCs" and sim: "sim b Active sv"
  shows "\<exists>sv'. serve cf c S PCs status RReset sv = Some (Go sv') \<and> sim b Closed sv'"
proof -
  obtain ls s P h x k l i where sv: "sv = \<lparr>cp_farm = mk ls s P h x, cp_poller = k, cp_locked = l, cp_inited = i\<rparr>" by (rule server_cases)
  obtain k' where k': "k = Some k'" "\<not> l" "i" "arrays_ok P" "farm_ok b (mk ls s P h x)" using sim by (auto simp: sim_def sv)
  obtain s' us x1 where r: "pl_reset S (mk ls s P h x) = Some (mk ls s' (P\<lparr>pl_users := us, pl_deadlist := []\<rparr>) Map.empty x1)"
    "queue_ok b s' Map.empty" using pl_reset_lemma[OF _ k'(5)] env unfolding server_env_def by blast
  obtain x2 where "po_shutdown (PCs k') x1 = Some x2" using env unfolding server_env_def by blast
  with r k' show ?thesis by (auto simp: sv corba_reset_def server_defs sim_def arrays_ok_def)
qed

text \<open>A call under the lock that keeps what the phases say of the farm.\<close>

definition keeps :: "'w::len clock \<Rightarrow> ('w, 'o) farm_world \<Rightarrow> ('w, 'o) farm_world \<Rightarrow> bool" where
  "keeps b w w' =
     (queue_ok b (wd_sked w') (users_of w') \<and> (arrays_ok (platoon_of w) \<longrightarrow> arrays_ok (platoon_of w')) \<and> (farm_ok b w \<longrightarrow> farm_ok b w') \<and>
      (users_of w = Map.empty \<longrightarrow> users_of w' = Map.empty) \<and> (pl_deadlist (platoon_of w) = [] \<longrightarrow> pl_deadlist (platoon_of w') = []))"

lemma keeps_sim:
  assumes "sim b ph sv" "keeps b (cp_farm sv) w'"
  shows "sim b ph (cp_unlock (sv\<lparr>cp_locked := True, cp_farm := w'\<rparr>))"
  using assms by (auto simp: sim_def keeps_def cp_unlock_def split: phase.splits)

lemma locked_serves:
  assumes sim: "sim b ph sv" and f: "f (cp_farm sv) = Some w'" "keeps b (cp_farm sv) w'"
  shows "\<exists>sv'. locked_call f sv = Some sv' \<and> sim b ph sv'"
proof -
  have "\<not> cp_locked sv" using sim by (simp add: sim_def)
  then have "locked_call f sv = Some (cp_unlock (sv\<lparr>cp_locked := True, cp_farm := w'\<rparr>))" using f(1) by (simp add: locked_call_def cp_lock_def)
  with keeps_sim[OF sim f(2)] show ?thesis by blast
qed

lemma keeps_target:
  assumes "queue_ok b s' h" "schedule s' = (schedule s)(CPlatoon \<mapsto> now)"
    "pl_users P' = pl_users P" "pl_nInState P' = pl_nInState P" "pl_deadlist P' = pl_deadlist P" "pl_local_addrs P' = pl_local_addrs P"
    "pl_n_local_addrs P' = pl_n_local_addrs P" "arrays_ok P \<longrightarrow> arrays_ok P'"
  shows "keeps b (mk ls s P h x) (mk ls s' P' h x')"
  using assms by (auto simp: keeps_def farm_inv_def pipes_ok_def)

lemma setters_keep:
  assumes sys: "sys_ok S b" and q: "queue_ok b (wd_sked w) (users_of w)"
  shows "\<exists>w'. set_nuserTarget S n w = Some w' \<and> keeps b w w'" "\<exists>w'. set_nconnectingTarget S n w = Some w' \<and> keeps b w w'"
    "\<exists>w'. set_lastConnectingState S st w = Some w' \<and> keeps b w w'" "keeps b w (setVerbosity v w)"
proof -
  obtain ls s P h x where w: "w = mk ls s P h x" by (rule mk_cases)
  have q': "queue_ok b s h" using q by (simp add: w)
  note t = set_target_lemmas[OF sys q', where ls = ls and P = P and x = x]
  show "\<exists>w'. set_nuserTarget S n w = Some w' \<and> keeps b w w'"
    using t(1)[of n] unfolding w by (fastforce intro: keeps_target simp: arrays_ok_def)
  show "\<exists>w'. set_nconnectingTarget S n w = Some w' \<and> keeps b w w'"
    using t(2)[of n] unfolding w by (fastforce intro: keeps_target simp: arrays_ok_def)
  show "\<exists>w'. set_lastConnectingState S st w = Some w' \<and> keeps b w w'"
    using t(3)[of st] unfolding w by (fastforce intro: keeps_target simp: arrays_ok_def)
  show "keeps b w (setVerbosity v w)"
    using q' by (simp add: w keeps_def setVerbosity_def arrays_ok_def farm_inv_def)
qed

lemma status_serves:
  assumes env: "server_env b cf c S PCs" and sim: "sim b ph sv" and ph: "ph = Active \<or> ph = Closed"
  shows "\<exists>sv'. serve cf c S PCs status RStatus sv = Some (Go sv') \<and> sim b ph sv'"
proof -
  obtain ls s P h x k l i where sv: "sv = \<lparr>cp_farm = mk ls s P h x, cp_poller = k, cp_locked = l, cp_inited = i\<rparr>" by (rule server_cases)
  have i: "i" "\<not> l" using sim ph by (auto simp: sim_def sv)
  have "\<exists>w'. reap S (mk ls s P h x) = Some w' \<and> keeps b (mk ls s P h x) w'"
  proof (cases "ph = Active")
    case True
    then have "farm_ok b (mk ls s P h x)" using sim by (simp add: sim_def sv)
    moreover have "sys_ok S b" using env by (simp add: server_env_def)
    ultimately obtain w' where w': "reap S (mk ls s P h x) = Some w'" "farm_ok b w'" "users_of w' = h |` (- in_state h STOPPED)"
      "platoon_of w' = P\<lparr>pl_users := pl_users (platoon_of w'), pl_deadlist := []\<rparr>"
      using reap_ok[of S b "mk ls s P h x"] by auto
    have "arrays_ok P \<longrightarrow> arrays_ok (platoon_of w')" "pl_deadlist (platoon_of w') = []"
      by (subst w'(4), simp add: arrays_ok_def)+
    with w'(1-3) show ?thesis by (auto simp: keeps_def farm_ok_def)
  next
    case False
    then have "pl_deadlist P = []" "queue_ok b s h" using sim ph by (auto simp: sim_def sv)
    then show ?thesis by (simp add: reap_def keeps_def)
  qed
  then obtain w' where w': "reap S (mk ls s P h x) = Some w'" "keeps b (cp_farm sv) w'" by (auto simp: sv)
  have "serve cf c S PCs status RStatus sv = Some (Go (cp_unlock (sv\<lparr>cp_locked := True, cp_farm := w'\<rparr>)))"
    using i w'(1) by (simp add: sv corba_getStatus_def getStatus_pl_def Let_def cp_lock_def proceed_def)
  with keeps_sim[OF sim w'(2)] show ?thesis by blast
qed

lemma target_serves:
  assumes env: "server_env b cf c S PCs" and sim: "sim b ph sv" and ph: "ph = Active \<or> ph = Closed"
  shows "\<exists>sv'. serve cf c S PCs status (RUsers n) sv = Some (Go sv') \<and> sim b ph sv'"
    "\<exists>sv'. serve cf c S PCs status (RConnecting n) sv = Some (Go sv') \<and> sim b ph sv'"
    "\<exists>sv'. serve cf c S PCs status (RLast l) sv = Some (Go sv') \<and> sim b ph sv'"
proof -
  have i: "cp_inited sv" and q: "queue_ok b (wd_sked (cp_farm sv)) (users_of (cp_farm sv))" using sim ph by (auto simp: sim_def)
  have sys: "sys_ok S b" using env by (simp add: server_env_def)
  note k = setters_keep[OF sys q]
  have go: "\<exists>sv'. locked_call f sv = Some sv' \<and> sim b ph sv'" if "\<exists>w'. f (cp_farm sv) = Some w' \<and> keeps b (cp_farm sv) w'" for f
    using that locked_serves[OF sim] by metis
  show "\<exists>sv'. serve cf c S PCs status (RUsers n) sv = Some (Go sv') \<and> sim b ph sv'"
    using go[of "set_nuserTarget S (to_int n)", OF k(1)] i by (auto simp: corba_set_nuserTarget_def proceed_def)
  show "\<exists>sv'. serve cf c S PCs status (RConnecting n) sv = Some (Go sv') \<and> sim b ph sv'"
    using go[of "set_nconnectingTarget S (to_int n)", OF k(2)] i by (auto simp: corba_set_nconnectingTarget_def proceed_def)
  show "\<exists>sv'. serve cf c S PCs status (RLast l) sv = Some (Go sv') \<and> sim b ph sv'"
    using go[of "set_lastConnectingState S (session_state l)", OF k(3)] i by (auto simp: corba_set_lastConnectingState_def proceed_def)
qed

lemma verbosity_serves:
  assumes env: "server_env b cf c S PCs" and sim: "sim b ph sv"
  shows "\<exists>sv'. serve cf c S PCs status (RVerbosity v) sv = Some (Go sv') \<and> sim b ph sv'"
proof -
  have "queue_ok b (wd_sked (cp_farm sv)) (users_of (cp_farm sv))" "sys_ok S b" using sim env by (auto simp: sim_def server_env_def)
  then have "keeps b (cp_farm sv) (setVerbosity v (cp_farm sv))" by (intro setters_keep(4))
  from locked_serves[OF sim _ this, of "\<lambda>w. Some (setVerbosity v w)"] show ?thesis
    by (auto simp: corba_set_verbosity_def proceed_def)
qed

lemma work_serves:
  assumes "sim b ph sv" "ph \<noteq> Active"
  shows "serve cf c S PCs status RWork sv = Some (Go sv)"
proof -
  have "cp_poller sv = None" "\<not> cp_locked sv" using assms by (auto simp: sim_def split: phase.splits)
  then show ?thesis by (cases sv) (simp add: corba_perform_work_def server_defs)
qed

lemma serve_step:
  assumes env: "server_env b cf c S PCs" and sim: "sim b ph sv" and fits: "request_fits r ph"
  shows "phase_step r ph \<noteq> Crashed \<Longrightarrow> \<exists>sv'. serve cf c S PCs status r sv = Some (Go sv') \<and> sim b (phase_step r ph) sv'"
    "phase_step r ph = Crashed \<Longrightarrow> serve cf c S PCs status r sv = None"
proof -
  have ph: "ph \<noteq> Crashed" using sim by (auto simp: sim_def)
  have inited: "cp_inited sv \<longleftrightarrow> ph \<noteq> Fresh" "cp_poller sv = None \<longleftrightarrow> ph \<noteq> Active" using sim by (auto simp: sim_def split: phase.splits)
  show "\<exists>sv'. serve cf c S PCs status r sv = Some (Go sv') \<and> sim b (phase_step r ph) sv'" if step: "phase_step r ph \<noteq> Crashed"
  proof (cases r)
    case (RInit q ifs)
    with init_serves[OF env sim] fits ph show ?thesis by (cases ph) auto
  next
    case RReset
    then have "ph = Active" using step ph by (cases ph) auto
    with reset_serves[OF env] sim RReset show ?thesis by auto
  next
    case RStatus
    then have "ph = Active \<or> ph = Closed" using step ph by (cases ph) auto
    with status_serves[OF env sim] RStatus show ?thesis by (cases ph) auto
  next
    case (RVerbosity v)
    with verbosity_serves[OF env sim] ph show ?thesis by (cases ph) auto
  next
    case (RUsers n)
    then have "ph = Active \<or> ph = Closed" using step ph by (cases ph) auto
    with target_serves(1)[OF env sim] RUsers show ?thesis by (cases ph) auto
  next
    case (RConnecting n)
    then have "ph = Active \<or> ph = Closed" using step ph by (cases ph) auto
    with target_serves(2)[OF env sim] RConnecting show ?thesis by (cases ph) auto
  next
    case (RLast l)
    then have "ph = Active \<or> ph = Closed" using step ph by (cases ph) auto
    with target_serves(3)[OF env sim] RLast show ?thesis by (cases ph) auto
  next
    case RWork
    then have "ph \<noteq> Active" using fits by (simp add: request_fits_def)
    with work_serves[OF sim] sim RWork ph show ?thesis by (cases ph) auto
  qed
  show "serve cf c S PCs status r sv = None" if step: "phase_step r ph = Crashed"
  proof (cases r)
    case RReset
    then have "cp_poller sv = None" using inited(2) step by (cases ph) auto
    then show ?thesis using RReset by (auto simp: corba_reset_def server_defs bind_eq_None_conv)
  qed (use step ph inited(1) in \<open>cases ph;
        auto simp: corba_getStatus_def corba_set_nuserTarget_def corba_set_nconnectingTarget_def corba_set_lastConnectingState_def
          server_defs\<close>)+
qed

interpretation srv: phase_server "\<lambda>r sv sv'. serve cf c S PCs status r sv = Some (Go sv')"
  "\<lambda>r sv. serve cf c S PCs status r sv = None" "\<lambda>ph sv. server_env b cf c S PCs \<and> sim b ph sv" phase_step request_fits Crashed
  for cf c status and S :: "('w::len, 'o) system" and PCs and b :: "'w clock"
proof unfold_locales
  fix ph r and sv :: "('w, 'o) server"
  assume sim: "server_env b cf c S PCs \<and> sim b ph sv" and fits: "request_fits r ph"
  show "phase_step r ph \<noteq> Crashed \<Longrightarrow> \<exists>sv'. serve cf c S PCs status r sv = Some (Go sv') \<and> server_env b cf c S PCs \<and> sim b (phase_step r ph) sv'"
    using serve_step(1)[of b cf c S PCs ph sv r status] sim fits by blast
  show "phase_step r ph = Crashed \<Longrightarrow> serve cf c S PCs status r sv = None"
    using serve_step(2)[of b cf c S PCs ph sv r status] sim fits by blast
qed simp

lemma corba_new_sim:
  assumes "length xs = 256" "\<And>c. skedIndex (wd_sked w) c = 0" "users_of w = Map.empty" "arrays_ok (platoon_of w)"
  shows "\<exists>sv. corba_new (Some xs) w = Go sv \<and> sim b Fresh sv"
proof -
  obtain ls s P h x where w: "w = mk ls s P h x" by (rule mk_cases)
  obtain s1 where s1: "sked_init (Some xs) s = (OK, s1)" by (simp add: sked_init_def)
  have inv: "sked_inv b s1" "schedule s1 = Map.empty" "m_allocated s1 = 256" "skedIndex s1 = skedIndex s"
    using sked_init_inv(1)[of xs s b] sked_init_inv(2)[of xs s] assms(1,2) s1 by (auto simp: w sked_init_def)
  have "s1\<lparr>skedIndex := (skedIndex s1)(CPlatoon := 0)\<rparr> = s1" using inv(4) assms(2) by (simp add: w fun_upd_idem)
  moreover have "queue_ok b s1 Map.empty" using inv by (simp add: queue_ok_def few_def)
  ultimately show ?thesis using s1 assms(3,4) by (simp add: corba_new_def w sim_def arrays_ok_def)
qed

subsection \<open>Sessions with the server's own work\<close>

text \<open>
  What holds in each phase whatever \<open>perform_work\<close> does on an active server, for every poller, every reply of
  the FTP servers and every answer of the system. The only limit is that \<open>init\<close> is not called on an
  active server: it would start with an empty table and leak the users of the old one.
\<close>

definition at_phase :: "('w::len, 'o) system \<Rightarrow> phase \<Rightarrow> ('w, 'o) server \<Rightarrow> bool" where
  "at_phase S ph sv =
     (\<not> cp_locked sv \<and>
      (case ph of
         Fresh \<Rightarrow> cp_poller sv = None \<and> \<not> cp_inited sv \<and> users_of (cp_farm sv) = Map.empty
       | Active \<Rightarrow> cp_poller sv \<noteq> None \<and> cp_inited sv \<and> holds (seated S) (wd_x (cp_farm sv))
       | Closed \<Rightarrow> cp_poller sv = None \<and> cp_inited sv \<and> users_of (cp_farm sv) = Map.empty \<and> pl_deadlist (platoon_of (cp_farm sv)) = []
       | Crashed \<Rightarrow> False))"

fun init_first :: "request list \<Rightarrow> phase \<Rightarrow> bool" where
  "init_first [] ph = True"
| "init_first (r # rs) ph = ((case r of RInit q ifs \<Rightarrow> ph \<noteq> Active | _ \<Rightarrow> True) \<and> init_first rs (phase_step r ph))"

text \<open>Calls under the lock; \<open>calm\<close> are those that change neither the users nor the list of the dead.\<close>

definition calm :: "('w::len, 'o) system \<Rightarrow> ('w, 'o) farm_world \<Rightarrow> ('w, 'o) farm_world \<Rightarrow> bool" where
  "calm S w w' =
     ((holds (seated S) (wd_x w) \<longrightarrow> holds (seated S) (wd_x w')) \<and>
      (users_of w = Map.empty \<and> pl_deadlist (platoon_of w) = [] \<longrightarrow> users_of w' = Map.empty \<and> pl_deadlist (platoon_of w') = []) \<and>
      (users_of w = Map.empty \<longrightarrow> users_of w' = Map.empty))"

lemma calm_phase:
  "at_phase S ph sv \<Longrightarrow> calm S (cp_farm sv) w' \<Longrightarrow> at_phase S ph (cp_unlock (sv\<lparr>cp_locked := True, cp_farm := w'\<rparr>))"
  by (auto simp: at_phase_def calm_def cp_unlock_def split: phase.splits)

lemma locked_phase:
  assumes "at_phase S ph sv" "post (f (cp_farm sv)) (calm S (cp_farm sv))"
  shows "post (locked_call f sv) (at_phase S ph)"
  using calm_phase[OF assms(1)] assms(2) by (auto simp: locked_call_def cp_lock_def post_def bind_eq_Some_conv)

lemma calm_same:
  "users_of w' = users_of w \<Longrightarrow> pl_users (platoon_of w') = pl_users (platoon_of w) \<Longrightarrow>
   pl_nInState (platoon_of w') = pl_nInState (platoon_of w) \<Longrightarrow> pl_deadlist (platoon_of w') = pl_deadlist (platoon_of w) \<Longrightarrow> calm S w w'"
  by (auto simp: calm_def seated_def)

lemma calm_setters:
  "post (set_nuserTarget S n w) (calm S w)" "post (set_nconnectingTarget S n w) (calm S w)"
  "post (set_lastConnectingState S st w) (calm S w)" "calm S w (setVerbosity v w)"
  by (auto simp: setVerbosity_def put_platoon_def intro!: setters_same[THEN post_mono] calm_same)

lemma calm_status: "post (getStatus_pl S w) (\<lambda>z. calm S w (snd z))"
proof -
  have "calm S w w'" if "reap S w = Some w'" "pl_deadlist (platoon_of w) = []" for w'
    using that by (simp add: reap_def calm_def)
  moreover have "holds (seated S) (wd_x w) \<Longrightarrow> reap S w = Some w' \<Longrightarrow> holds (seated S) (wd_x w')" for w'
    using reap_post by (auto simp: post_def)
  moreover have "users_of w = Map.empty \<Longrightarrow> reap S w = Some w' \<Longrightarrow> pl_deadlist (platoon_of w) = []" for w'
    by (cases "pl_deadlist (platoon_of w)") (auto simp: reap_def bury_def put_platoon_def)
  ultimately show ?thesis by (auto simp: getStatus_pl_def Let_def post_def bind_eq_Some_conv calm_def)
qed

lemma serve_phase:
  fixes sv :: "('w::len, 'o) server"
  assumes at: "at_phase S ph sv" and fresh: "fresh_addresses S" and r: "case r of RInit q ifs \<Rightarrow> ph \<noteq> Active | _ \<Rightarrow> True"
  shows "go_post (serve cf c S PCs status r sv) (at_phase S (phase_step r ph))"
proof -
  have ph: "ph \<noteq> Crashed" using at by (auto simp: at_phase_def)
  have inited: "cp_inited sv \<longleftrightarrow> ph \<noteq> Fresh" "cp_poller sv = None \<longleftrightarrow> ph \<noteq> Active" "\<not> cp_locked sv"
    using at by (auto simp: at_phase_def split: phase.splits)
  have stay: "phase_step r ph = ph" if "r = RStatus \<or> r = RUsers n \<or> r = RConnecting n \<or> r = RLast l" "ph \<noteq> Fresh" for n l
    using that ph by (cases ph) auto
  have keep: "go_post (proceed m) (at_phase S ph)" if "post m (at_phase S ph)" for m
    using that by (auto simp: proceed_def go_post_def post_def bind_eq_Some_conv)
  show ?thesis
  proof (cases r)
    case (RInit q ifs)
    then have none: "users_of (cp_farm sv) = Map.empty" "phase_step r ph = Active" using at r by (auto simp: at_phase_def split: phase.splits)
    have init: "post (pl_init f mx mn bpr sn pt un pw la n P) (\<lambda>P'. seated S P' Map.empty)" for f mx mn bpr sn pt un pw la n P
      using fresh by (auto simp: pl_init_def seated_def table_ok_def NUMSTATES_def intro!: postI[of "store_str a b" for a b])
    have sys: "post (on_osw f w) (\<lambda>z. users_of (snd z) = users_of w)" for f :: "_ \<Rightarrow> (rc \<times> _) option" and w
      by (auto simp: on_osw_def on_xo_def on_oso_def post_def bind_eq_Some_conv)
    have up: "seated S (P\<lparr>pl_verbosity := 3\<rparr>) h = seated S P h" for P h by (simp add: seated_def)
    show ?thesis unfolding none(2) using inited(3) none(1)
      by (auto simp: RInit corba_init_def server_defs at_phase_def setVerbosity_def put_platoon_def Let_def up split_beta
          split: option.splits intro!: sys[THEN post_mono] init[THEN post_mono])
  next
    case RReset
    show ?thesis
    proof (cases "ph = Active")
      case False
      then have "serve cf c S PCs status r sv = None" using inited(2) by (auto simp: RReset proceed_def corba_reset_def server_defs bind_eq_None_conv)
      then show ?thesis by simp
    next
      case True
      then have "holds (seated S) (wd_x (cp_farm sv))" using at by (simp add: at_phase_def)
      note e = reset_empties[OF this]
      show ?thesis using True inited(1)
        by (auto simp: RReset corba_reset_def server_defs on_osw_def on_xo_def on_oso_def at_phase_def split_beta
            intro!: e[THEN post_mono] postI[of "po_shutdown a b" for a b] postI[of "cp_poller a" for a])
    qed
  next
    case RStatus
    have "post (map_option snd (corba_getStatus S sv)) (at_phase S ph)"
      using calm_status[of S "cp_farm sv"] calm_phase[OF at]
      by (auto simp: corba_getStatus_def server_defs post_def bind_eq_Some_conv)
    then show ?thesis using keep inited(1) stay RStatus by (cases "ph = Fresh") (auto simp: proceed_def corba_getStatus_def server_defs)
  next
    case (RVerbosity v)
    have "post (corba_set_verbosity v sv) (at_phase S ph)"
      unfolding corba_set_verbosity_def by (rule locked_phase[OF at]) (simp add: calm_setters)
    then show ?thesis using keep ph by (cases ph) (auto simp: RVerbosity)
  next
    case (RUsers n)
    have "post (corba_set_nuserTarget S n sv) (at_phase S ph)"
      using locked_phase[where f = "set_nuserTarget S (to_int n)", OF at calm_setters(1)] by (simp add: corba_set_nuserTarget_def)
    then show ?thesis using keep inited(1) stay RUsers by (cases "ph = Fresh") (auto simp: proceed_def corba_set_nuserTarget_def)
  next
    case (RConnecting n)
    have "post (corba_set_nconnectingTarget S n sv) (at_phase S ph)"
      using locked_phase[where f = "set_nconnectingTarget S (to_int n)", OF at calm_setters(2)] by (simp add: corba_set_nconnectingTarget_def)
    then show ?thesis using keep inited(1) stay RConnecting by (cases "ph = Fresh") (auto simp: proceed_def corba_set_nconnectingTarget_def)
  next
    case (RLast l)
    have "post (corba_set_lastConnectingState S l sv) (at_phase S ph)"
      using locked_phase[where f = "set_lastConnectingState S (session_state l)", OF at calm_setters(3)] by (simp add: corba_set_lastConnectingState_def)
    then show ?thesis using keep inited(1) stay RLast by (cases "ph = Fresh") (auto simp: proceed_def corba_set_lastConnectingState_def)
  next
    case RWork
    have "go_post (corba_perform_work S PCs status sv) (at_phase S ph)"
    proof (cases "ph = Active")
      case False
      then have "corba_perform_work S PCs status sv = Some (Go sv)"
        using inited(2,3) by (cases sv) (simp add: corba_perform_work_def server_defs)
      with at show ?thesis by simp
    next
      case True
      then have h: "holds (seated S) (wd_x (cp_farm sv))" and k: "cp_poller sv \<noteq> None" "cp_inited sv"
        using at by (auto simp: at_phase_def)
      have "holds (seated S) (wd_x (snd (read_eclock (base_calls S CPlatoon) (cp_farm sv))))" using h by (simp add: clock_same)
      then show ?thesis using True k
        by (auto simp: corba_perform_work_def server_defs split_beta at_phase_def)
    qed
    then show ?thesis using ph by (cases ph) (auto simp: RWork)
  qed
qed

text \<open>The sessions, by rule induction on the calls served.\<close>

lemma served_phase:
  assumes "served cf c S PCs status sv rs sv'" "at_phase S ph sv" "init_first rs ph" "fresh_addresses S"
  shows "at_phase S (fold phase_step rs ph) sv'"
  using assms unfolding served_def
proof (induction arbitrary: ph rule: run_of.induct)
  case (run_cons r sv sv1 rs sv2)
  have "at_phase S (phase_step r ph) sv1"
    using go_postD[OF serve_phase[OF run_cons.prems(1,3)] run_cons.hyps(1)] run_cons.prems(2) by simp
  then show ?case using run_cons by simp
qed simp

subsection \<open>Properties\<close>

text \<open>
  C10. The protocol of the controllers, on a constructed server. With a system and a back end that work
  (\<open>server_env\<close>) it serves every session that sets it up before it is used, with names that fit, does not
  reset it twice and does not call \<open>perform_work\<close> while it is active; after it the farm is as the phase says
  (its full invariant while active), and a next call that breaks the protocol crashes on a pointer.
  And whatever the system, the poller and the FTP servers do, as long as \<open>new\<close> returns free addresses:
  a session with any calls in any order, \<open>perform_work\<close> on an active server included, of which only
  \<open>init\<close> on an active server is excluded, has, if every call of it returns, kept the protocol; the mutex is
  free, the pointers are as the phase says, every user of an active server has its slot, and a closed
  server has no user left, alive or dead.
\<close>
theorem corba_protocol:
  assumes mem: "length xs = 256" and w: "\<And>c. skedIndex (wd_sked w) c = 0" "users_of w = Map.empty" "arrays_ok (platoon_of w)"
  shows "\<exists>sv. corba_new (Some xs) w = Go sv \<and>
           (\<forall>rs. server_env b cf c S PCs \<and> run_fits rs Fresh \<longrightarrow>
              (\<exists>sv'. served cf c S PCs status sv rs sv' \<and> sim b (fold phase_step rs Fresh) sv' \<and>
                 (\<forall>r. request_fits r (fold phase_step rs Fresh) \<and> phase_step r (fold phase_step rs Fresh) = Crashed \<longrightarrow>
                      serve cf c S PCs status r sv' = None))) \<and>
           (\<forall>rs sv'. fresh_addresses S \<and> init_first rs Fresh \<and> served cf c S PCs status sv rs sv' \<longrightarrow>
              at_phase S (fold phase_step rs Fresh) sv' \<and> fold phase_step rs Fresh \<noteq> Crashed \<and>
              (fold phase_step rs Fresh = Closed \<longrightarrow> users_of (cp_farm sv') = Map.empty))"
proof -
  obtain sv where sv: "corba_new (Some xs) w = Go sv" "sim b Fresh sv" using corba_new_sim[OF mem w] by blast
  have at: "at_phase S Fresh sv" using sv(2) by (simp add: at_phase_def sim_def)
  have calm: "\<exists>sv'. served cf c S PCs status sv rs sv' \<and> sim b (fold phase_step rs Fresh) sv' \<and>
      (\<forall>r. request_fits r (fold phase_step rs Fresh) \<and> phase_step r (fold phase_step rs Fresh) = Crashed \<longrightarrow>
           serve cf c S PCs status r sv' = None)" if fit: "server_env b cf c S PCs" "run_fits rs Fresh" for rs
  proof -
    obtain sv' where sv': "served cf c S PCs status sv rs sv'" "sim b (fold phase_step rs Fresh) sv'"
      using srv.session[OF conjI[OF fit(1) sv(2)] fit(2), of status] unfolding served_def by blast
    note crash = srv.session_end(2)[OF conjI[OF fit(1) sv(2)] fit(2) sv'(1)[unfolded served_def]]
    with sv' show ?thesis by blast
  qed
  have "at_phase S (fold phase_step rs Fresh) sv' \<and> fold phase_step rs Fresh \<noteq> Crashed \<and>
      (fold phase_step rs Fresh = Closed \<longrightarrow> users_of (cp_farm sv') = Map.empty)"
    if "fresh_addresses S" "init_first rs Fresh" "served cf c S PCs status sv rs sv'" for rs sv'
    using served_phase[OF that(3) at that(2,1)] by (auto simp: at_phase_def)
  with sv(1) calm show ?thesis by blast
qed

definition init0 :: init_req where
  "init0 = \<lparr>iq_filename = ''x'', iq_maxBytesPerSec = 4000, iq_minBytesPerSec = 3000, iq_bytesPerRead = 1500, iq_servername = ''ftp'',
     iq_port = 21, iq_username = ''anonymous'', iq_passwd = ''p'', iq_useAllLocalInterfaces = False\<rparr>"

definition build1 :: build where
  "build1 = build0\<lparr>SIGRTMIN_defined := False\<rparr>"

lemma env1: "server_env 0 build1 CHR ''p'' sys0 (\<lambda>k. po0)"
  using sys0_ok by (simp add: server_env_def build1_def build0_def pick_poller_def po0_def)

text \<open>
  A session with a user: the clock stands still for two readings and is a second later from the third on, so
  that the user that \<open>perform_work\<close> starts is queued for later and is alive when the server is reset.
\<close>

definition sys3 :: "(64, osx) system" where
  "sys3 = sys0\<lparr>os_gettimeofday := (\<lambda>x. ((if ox_sec x \<le> 0 then 0 else 1, 0), x\<lparr>ox_sec := ox_sec x + 1\<rparr>))\<rparr>"

definition now3 :: "osx \<Rightarrow> 64 clock" where
  "now3 x = (if ox_sec x \<le> 0 then 0 else 10000)"

lemma sys3_ok: "sys_ok sys3 0"
  using sys0_ok by (simp add: sys_ok_def sys3_def eclock_def eclock_HERTZ_def in_window_def ticks_def)

lemma clock3: "read_eclock (base_calls sys3 c) (mk ls s P h x) = (now3 x, mk ls s P h (x\<lparr>ox_sec := ox_sec x + 1\<rparr>))"
  by (simp add: read_eclock_def on_x_def base_calls_def on_os_def sys3_def eclock_def eclock_HERTZ_def now3_def mk_def)

lemma now3_window: "in_window 0 (now3 x)"
  by (cases "ox_sec x \<le> 0") (simp_all add: now3_def in_window_def ticks_def)

lemma wake3:
  assumes q: "queue_ok 0 s h"
  shows "\<exists>s'. platoon_wakeUp sys3 (mk ls s P h x) = Some (mk ls s' P h (x\<lparr>ox_sec := ox_sec x + 1\<rparr>)) \<and> queue_ok 0 s' h \<and>
           schedule s' = (schedule s)(CPlatoon \<mapsto> now3 x)"
proof -
  let ?x = "x\<lparr>ox_sec := ox_sec x + 1\<rparr>"
  obtain s1 where 1: "unsched (base_calls sys3 CPlatoon) (mk ls s P h x) = Some (mk ls s1 P h x)" "queue_ok 0 s1 h"
    "schedule s1 = (schedule s)(CPlatoon := None)" using queue_del[OF q, of sys3 CPlatoon ls P x] by blast
  obtain s2 where 2: "sched_at (base_calls sys3 CPlatoon) (now3 x) (mk ls s1 P h ?x) = Some (mk ls s2 P h ?x)" "queue_ok 0 s2 h"
    "schedule s2 = (schedule s1)(CPlatoon \<mapsto> now3 x)"
    using queue_add[OF sys3_ok 1(2) _ _ now3_window[of x], of CPlatoon ls P ?x] 1(3) by (auto simp: clients_of_def)
  with 1 show ?thesis by (simp add: platoon_wakeUp_def clock3)
qed

lemma users_Suc: "Platoon_MAXUSERS = Suc 65535"
  by (simp add: Platoon_MAXUSERS_def)

lemma first_user3:
  assumes q: "queue_ok 0 s Map.empty" "schedule s = Map.empty" and x: "0 < ox_sec x" and P: "pl_users P = replicate Platoon_MAXUSERS None"
    "pl_nInState P = replicate NUMSTATES 0" "\<not> pl_local_addrs P" "pl_nconnectingTarget P = 1" "pl_lastConnectingState P = CONNECTING"
  shows "\<exists>s' P' v x'. startUser sys3 (mk ls s P Map.empty x) = Some (OK, mk ls s' P' [1 \<mapsto> v] x') \<and> \<not> wants_more P' \<and>
           schedule s' = [CRobo 1 \<mapsto> 10000, CPlatoon \<mapsto> 10000] \<and> (arrays_ok P \<longrightarrow> arrays_ok P')"
proof -
  let ?P = "P\<lparr>pl_users := (replicate Platoon_MAXUSERS None)[0 := Some 1]\<rparr>"
  let ?u = "user1\<lparr>ru_user := 0, ru_fcp := ip_init (pl_maxBytesPerSec P) None (ru_fcp user1), ru_startedAt := 0, ru_bytesFetched := 0, ru_reads := 0\<rparr>"
  let ?x = "x\<lparr>ox_sec := ox_sec x + 1\<rparr>"
  let ?n = "(replicate NUMSTATES 0)[1 := 1]"
  have slot: "find_slot (pl_users P) Platoon_MAXUSERS (sumInState P CONNECT GETTING_FILE) = Some (Some 0)"
  proof -
    have "sumInState P CONNECT GETTING_FILE = 0" by (simp add: sumInState_def P NUMSTATES_def upt_rec)
    moreover have "find_slot (replicate (Suc n) None) (Suc n) 0 = Some (Some 0)" if "int (Suc n) \<noteq> 0" for n
      by (cases "0 = int Platoon_MAXUSERS") (simp_all add: rdi_def rd_def)
    ultimately show ?thesis using P(1) by (metis users_Suc of_nat_eq_0_iff old.nat.distinct(2))
  qed
  have "skedIndex s c = 0" for c using q(2) by (simp add: queue_fresh)
  then have new: "new_robouser sys3 (mk ls s P Map.empty x) = (1, mk ls s P [1 \<mapsto> user1] x)"
    by (simp add: new_robouser_def sys3_def sys0_def user1_def fun_upd_idem)
  have few: "few [1 :: nat \<mapsto> u]" for u :: "64 robouser" by (simp add: few_def Platoon_MAXUSERS_def)
  have q1: "queue_ok 0 s [1 \<mapsto> u]" for u using queue_ok_more[OF q(1) few] .
  obtain s1 where 1: "sched_at (base_calls sys3 (CRobo 1)) (now3 x) (mk ls s ?P [1 \<mapsto> ?u] ?x) = Some (mk ls s1 ?P [1 \<mapsto> ?u] ?x)"
    "queue_ok 0 s1 [1 \<mapsto> ?u]" "schedule s1 = [CRobo 1 \<mapsto> now3 x]"
    using queue_add[OF sys3_ok q1 _ _ now3_window[of x], of "CRobo 1" ?u ls ?P ?x] q(2) by (auto simp: clients_of_def)
  obtain s2 x2 where 2: "platoon_wakeUp sys3 (mk ls s1 (?P\<lparr>pl_nInState := ?n\<rparr>) [1 \<mapsto> ?u] ?x) = Some (mk ls s2 (?P\<lparr>pl_nInState := ?n\<rparr>) [1 \<mapsto> ?u] x2)"
    "schedule s2 = [CRobo 1 \<mapsto> now3 x, CPlatoon \<mapsto> now3 ?x]"
    using wake3[OF 1(2), of ls "?P\<lparr>pl_nInState := ?n\<rparr>" ?x] 1(3) by auto
  have go: "gotoState sys3 1 CONNECT (mk ls s1 ?P [1 \<mapsto> ?u] ?x) =
      Some (mk ls s2 (?P\<lparr>pl_nInState := ?n\<rparr>) [1 \<mapsto> ?u\<lparr>ru_state := CONNECT\<rparr>] x2)"
    using 2(1) by (simp add: gotoState_def countStateChange_def user1_def P NUMSTATES_def rd_def wr_def Let_def)
  have "startUser sys3 (mk ls s P Map.empty x) = Some (OK, mk ls s2 (?P\<lparr>pl_nInState := ?n\<rparr>) [1 \<mapsto> ?u\<lparr>ru_state := CONNECT\<rparr>] x2)"
    using slot new 1(1) go P by (simp add: startUser_def start_def clock3 Platoon_MAXUSERS_def wr_def Let_def)
  moreover have "\<not> wants_more (?P\<lparr>pl_nInState := ?n\<rparr>)" by (simp add: wants_more_def sumInState_def P NUMSTATES_def upt_rec)
  moreover have "arrays_ok P \<longrightarrow> arrays_ok (?P\<lparr>pl_nInState := ?n\<rparr>)" by (simp add: arrays_ok_def)
  moreover have "now3 x = 10000" "now3 ?x = 10000" using x by (simp_all add: now3_def)
  ultimately show ?thesis using 2(2) by metis
qed

lemma work3:
  assumes q: "queue_ok 0 s Map.empty" "schedule s = [CPlatoon \<mapsto> 0]" and x: "ox_sec x = 0" and inv: "farm_inv P Map.empty"
    and P: "pl_users P = replicate Platoon_MAXUSERS None" "pl_nInState P = replicate NUMSTATES 0" "\<not> pl_local_addrs P"
      "pl_nconnectingTarget P = 1" "pl_nuserTarget P = 1" "pl_lastConnectingState P = CONNECTING" "pl_deadlist P = []"
  shows "\<exists>w' v. corba_perform_work sys3 (\<lambda>k. po0) status \<lparr>cp_farm = mk [] s P Map.empty x, cp_poller = Some BPoll, cp_locked = False, cp_inited = True\<rparr> =
           Some (Go \<lparr>cp_farm = w', cp_poller = Some BPoll, cp_locked = False, cp_inited = True\<rparr>) \<and> farm_ok 0 w' \<and> users_of w' = [1 \<mapsto> v] \<and>
           (arrays_ok P \<longrightarrow> arrays_ok (platoon_of w'))"
proof -
  let ?x = "x\<lparr>ox_sec := 1\<rparr>"
  have inv0: "sked_inv 0 s" and now: "in_window 0 (0 :: 64 clock)" using q(1) by (simp_all add: queue_ok_def in_window_def ticks_def)
  have "due 0 s \<noteq> {}" using q(2) by (auto simp: due_def eclock_after_def)
  then obtain c t s1 where d: "schedule s c = Some t" "removed 0 c s s1"
    "\<And>y :: (64, osx) farm_world. runAll (farm_callback sys3) 0 (s, y) = do { sx' \<leftarrow> farm_callback sys3 c 0 (s1, y); runAll (farm_callback sys3) 0 sx' }"
    using runAll_deliver[OF inv0 now] by metis
  have c: "c = CPlatoon" using d(1) q(2) by (simp split: if_splits)
  have 1: "sked_inv 0 s1" "schedule s1 = Map.empty" "queue_ok 0 s1 Map.empty" using d(2) q by (auto simp: removed_def c queue_ok_def)
  have x1: "0 < ox_sec ?x" by simp
  obtain s2 P2 v x2 where 2: "startUser sys3 (mk [] s1 P Map.empty ?x) = Some (OK, mk [] s2 P2 [1 \<mapsto> v] x2)" "\<not> wants_more P2"
    "schedule s2 = [CRobo 1 \<mapsto> 10000, CPlatoon \<mapsto> 10000]" "arrays_ok P \<longrightarrow> arrays_ok P2"
    using first_user3[OF 1(3,2) x1 P(1-4,6)] by blast
  have ok: "farm_ok 0 (mk [] s1 P Map.empty ?x)" using inv 1(3) by (simp add: pipes_ok_def)
  have ok2: "farm_ok 0 (mk [] s2 P2 [1 \<mapsto> v] x2)" using startUser_lemma[OF sys3_ok ok] 2(1) by auto
  have more: "wants_more P" by (simp add: wants_more_def sumInState_def P NUMSTATES_def upt_rec)
  have cb: "platoon_skedCallback sys3 (mk [] s1 P Map.empty ?x) = Some (mk [] s2 P2 [1 \<mapsto> v] x2)"
    using more 2(1,2) by (simp add: platoon_skedCallback.simps[of sys3 "mk [] s1 P Map.empty ?x"] platoon_skedCallback.simps[of sys3 "mk [] s2 P2 [1 \<mapsto> v] x2"]
        del: One_nat_def)
  have inv2: "sked_inv 0 s2" using ok2 by (simp add: queue_ok_def)
  have "due 0 s2 = {}" using 2(3) by (auto simp: due_def eclock_after_def split: if_splits)
  note stop = runAll_stop[OF inv2 now this, of "farm_callback sys3"]
  have run: "farm_runAll sys3 0 (mk [] s P Map.empty ?x) = Some (OK, mk [] s2 P2 [1 \<mapsto> v] x2)"
    using stop cb by (simp add: farm_runAll_def d(3) c farm_callback_def farm_skedCallback_def)
  obtain t where t: "nextTime s2 (now3 x2 + of_int eclock_HERTZ) = Some t"
    using nextTime_least[OF inv2, of "now3 x2 + of_int eclock_HERTZ"] by (auto split: if_splits)
  have "service sys3 po0 (mk [] s2 P2 [1 \<mapsto> v] x2) = Some (Go (mk [] s2 P2 [1 \<mapsto> v] x2))"
    by (simp add: service.simps[of sys3] next_event_def po0_def)
  then have "corba_perform_work sys3 (\<lambda>k. po0) status \<lparr>cp_farm = mk [] s P Map.empty x, cp_poller = Some BPoll, cp_locked = False, cp_inited = True\<rparr> =
      Some (Go \<lparr>cp_farm = mk [] s2 P2 [1 \<mapsto> v] (x2\<lparr>ox_sec := ox_sec x2 + 1\<rparr>), cp_poller = Some BPoll, cp_locked = False, cp_inited = True\<rparr>)"
    using run t x by (simp add: corba_perform_work_def server_defs clock3 now3_def[of x] work_step_def sleep_step_def po0_def wait_failed_def)
  with ok2 2(4) show ?thesis by auto
qed

text \<open>Its session up to the reset: the platoon is set up, asked for one user, and starts it.\<close>

lemma session3:
  assumes new: "corba_new (Some (replicate 256 \<lparr>skc = CPlatoon, rec_when = 0\<rparr>)) (farm0 (ox0\<lparr>ox_sec := -1\<rparr>)) = Go sv"
  shows "\<exists>sv' v. served build1 CHR ''p'' sys3 (\<lambda>k. po0) (\<lambda>e. 5) sv [RInit init0 [], RUsers 1, RWork] sv' \<and>
           users_of (cp_farm sv') = [1 \<mapsto> v] \<and> sim 0 Active sv'"
proof -
  let ?x = "ox0\<lparr>ox_sec := -1\<rparr>"
  have sv: "sv = \<lparr>cp_farm = mk [] fsk platoon0 Map.empty ?x, cp_poller = None, cp_locked = False, cp_inited = False\<rparr>"
    using new by (simp add: corba_new_def farm0_def sked_init_def fsk_def Let_def put_platoon_def platoon0_def fun_upd_idem mk_def)
  obtain P where P: "pl_init ''x'' (to_int 4000) (to_int 3000) (to_int 1500) ''ftp'' 21 ''anonymous'' ''p'' False 0 platoon0 = Some P"
    "pl_users P = replicate Platoon_MAXUSERS None" "pl_nInState P = replicate NUMSTATES 0" "\<not> pl_local_addrs P" "pl_deadlist P = []"
    "pl_nconnectingTarget P = 1" "pl_lastConnectingState P = CONNECTING" "arrays_ok P"
    by (simp add: pl_init_def platoon0_def arrays_ok_def)
  let ?P = "P\<lparr>pl_verbosity := 3\<rparr>" and ?P1 = "P\<lparr>pl_verbosity := 3, pl_nuserTarget := 1\<rparr>"
  let ?sv = "\<lambda>w. \<lparr>cp_farm = w, cp_poller = Some BPoll, cp_locked = False, cp_inited = True\<rparr>"
  have init: "serve build1 CHR ''p'' sys3 (\<lambda>k. po0) (\<lambda>e. 5) (RInit init0 []) sv = Some (Go (?sv (mk [] fsk ?P Map.empty ?x)))"
    using P(1) by (simp add: sv corba_init_def init0_def build1_def build0_def pick_poller_def po0_def server_defs check_ok_def setVerbosity_def)
  have q: "queue_ok 0 fsk Map.empty" by (simp add: queue_ok_def few_def)
  obtain s1 where 1: "platoon_wakeUp sys3 (mk [] fsk ?P1 Map.empty ?x) = Some (mk [] s1 ?P1 Map.empty (ox0\<lparr>ox_sec := 0\<rparr>))"
    "queue_ok 0 s1 Map.empty" "schedule s1 = [CPlatoon \<mapsto> 0]"
    using wake3[OF q, of "[]" ?P1 ?x] by (auto simp: now3_def)
  have one: "to_int (Suc 0) = 1" by (simp add: to_int_def)
  have users: "serve build1 CHR ''p'' sys3 (\<lambda>k. po0) (\<lambda>e. 5) (RUsers 1) (?sv (mk [] fsk ?P Map.empty ?x)) =
      Some (Go (?sv (mk [] s1 ?P1 Map.empty (ox0\<lparr>ox_sec := 0\<rparr>))))"
    using 1(1) by (simp add: corba_set_nuserTarget_def locked_call_def server_defs set_nuserTarget_def one)
  have inv: "farm_inv ?P1 Map.empty"
    using P by (simp add: farm_inv_def table_ok_def counts_ok_def in_state_def NUMSTATES_def nth_replicate state_no_less[unfolded NUMSTATES_def, simplified])
  obtain w' v where w: "corba_perform_work sys3 (\<lambda>k. po0) (\<lambda>e. 5) (?sv (mk [] s1 ?P1 Map.empty (ox0\<lparr>ox_sec := 0\<rparr>))) = Some (Go (?sv w'))"
    "farm_ok 0 w'" "users_of w' = [1 \<mapsto> v]" "arrays_ok ?P1 \<longrightarrow> arrays_ok (platoon_of w')"
    using work3[OF 1(2,3) _ inv, of "ox0\<lparr>ox_sec := 0\<rparr>" "\<lambda>e. 5"] P by auto
  have "arrays_ok (platoon_of w')" using w(4) P(8) by (simp add: arrays_ok_def)
  then have "sim 0 Active (?sv w')" using w(2) by (simp add: sim_def farm_ok_def)
  moreover have "served build1 CHR ''p'' sys3 (\<lambda>k. po0) (\<lambda>e. 5) sv [RInit init0 [], RUsers 1, RWork] (?sv w')"
    unfolding served_def using init users w(1) by (auto simp del: serve.simps(1,5) intro!: run_cons run_nil)
  ultimately show ?thesis using w(3) by (intro exI[of _ "?sv w'"] exI[of _ v]) simp
qed

theorem corba_protocol_witness:
  "\<exists>sv sv1 sv2 sv3 v. corba_new (Some (replicate 256 \<lparr>skc = CPlatoon, rec_when = 0\<rparr>)) (farm0 (ox0\<lparr>ox_sec := -1\<rparr>)) = Go sv \<and>
     served build1 CHR ''p'' sys3 (\<lambda>k. po0) (\<lambda>e. 5) sv [RInit init0 [], RUsers 1, RWork] sv1 \<and> users_of (cp_farm sv1) = [1 \<mapsto> v] \<and>
     serve build1 CHR ''p'' sys3 (\<lambda>k. po0) (\<lambda>e. 5) RReset sv1 = Some (Go sv2) \<and> users_of (cp_farm sv2) = Map.empty \<and>
     served build1 CHR ''p'' sys3 (\<lambda>k. po0) (\<lambda>e. 5) sv [RVerbosity 1, RInit init0 [], RUsers 3, RStatus, RReset, RWork] sv3 \<and>
     serve build1 CHR ''p'' sys3 (\<lambda>k. po0) (\<lambda>e. 5) RReset sv3 = None"
proof -
  let ?w = "farm0 (ox0\<lparr>ox_sec := -1\<rparr>)" and ?rs = "[RVerbosity 1, RInit init0 [], RUsers 3, RStatus, RReset, RWork]"
  let ?run = "served build1 CHR ''p'' sys3 (\<lambda>k. po0) (\<lambda>e. 5)" and ?work = "[RInit init0 [], RUsers 1, RWork, RReset]"
  have w: "skedIndex (wd_sked ?w) c = 0" "users_of ?w = Map.empty" "arrays_ok (platoon_of ?w)" for c
    by (simp_all add: farm0_parts fsk_def sked_init_def arrays_ok_def platoon0_def)
  have env: "server_env 0 build1 CHR ''p'' sys3 (\<lambda>k. po0)" using env1 sys3_ok by (simp add: server_env_def)
  have fresh: "fresh_addresses sys3" using sys3_ok by (simp add: sys_ok_def fresh_addresses_def)
  have run: "run_fits ?rs Fresh" "fold phase_step ?rs Fresh = Closed" by (simp_all add: request_fits_def init0_def)
  have crash: "request_fits RReset Closed" "phase_step RReset Closed = Crashed" by (simp_all add: request_fits_def)
  have work: "init_first ?work Fresh" "fold phase_step ?work Fresh = Closed" by simp_all
  obtain sv where sv: "corba_new (Some (replicate 256 \<lparr>skc = CPlatoon, rec_when = 0\<rparr>)) ?w = Go sv"
    and A: "\<forall>rs. server_env 0 build1 CHR ''p'' sys3 (\<lambda>k. po0) \<and> run_fits rs Fresh \<longrightarrow> (\<exists>sv'. ?run sv rs sv' \<and>
      sim 0 (fold phase_step rs Fresh) sv' \<and> (\<forall>r. request_fits r (fold phase_step rs Fresh) \<and> phase_step r (fold phase_step rs Fresh) = Crashed \<longrightarrow>
           serve build1 CHR ''p'' sys3 (\<lambda>k. po0) (\<lambda>e. 5) r sv' = None))"
    and B: "\<forall>rs sv'. fresh_addresses sys3 \<and> init_first rs Fresh \<and> ?run sv rs sv' \<longrightarrow>
      at_phase sys3 (fold phase_step rs Fresh) sv' \<and> fold phase_step rs Fresh \<noteq> Crashed \<and>
      (fold phase_step rs Fresh = Closed \<longrightarrow> users_of (cp_farm sv') = Map.empty)"
    using corba_protocol[OF _ w, of "replicate 256 \<lparr>skc = CPlatoon, rec_when = 0\<rparr>" 0 build1 "CHR ''p''" sys3 "\<lambda>k. po0" "\<lambda>e. 5"]
    unfolding length_replicate by blast
  obtain sv3 where sv3: "?run sv ?rs sv3" "serve build1 CHR ''p'' sys3 (\<lambda>k. po0) (\<lambda>e. 5) RReset sv3 = None"
    using A env run(1) crash unfolding run(2)[symmetric] by blast
  obtain sv1 v where sv1: "?run sv [RInit init0 [], RUsers 1, RWork] sv1" "users_of (cp_farm sv1) = [1 \<mapsto> v]" "sim 0 Active sv1"
    using session3[OF sv] by blast
  obtain sv2 where sv2: "serve build1 CHR ''p'' sys3 (\<lambda>k. po0) (\<lambda>e. 5) RReset sv1 = Some (Go sv2)"
    using reset_serves[OF env sv1(3)] by blast
  have "?run sv ?work sv2" using sv1(1) sv2 unfolding served_def by (auto simp del: serve.simps)
  then have "users_of (cp_farm sv2) = Map.empty" using B fresh work by blast
  with sv sv1(1,2) sv2 sv3 show ?thesis by metis
qed

text \<open>
  After a \<open>reset\<close> the destructor, like a second \<open>reset\<close>, follows the null pointer to the poller;
  \<open>perform_work\<close> only sleeps.
\<close>
theorem corba_reset_leaves_null:
  assumes "serve cf c S PCs status RReset sv = Some (Go sv1)"
  shows "serve cf c S PCs status RReset sv1 = None \<and> corba_delete PCs sv1 = None \<and>
         serve cf c S PCs status RWork sv1 = Some (Go sv1)"
proof -
  have n: "cp_poller sv1 = None" "\<not> cp_locked sv1"
    using assms by (auto simp: corba_reset_def server_defs bind_eq_Some_conv)
  then show ?thesis
    by (cases sv1) (auto simp: corba_reset_def corba_delete_def corba_perform_work_def server_defs bind_eq_None_conv)
qed

definition corba1 :: "(64, osx) server" where
  "corba1 = \<lparr>cp_farm = farm0 ox0, cp_poller = Some BPoll, cp_locked = False, cp_inited = True\<rparr>"

lemma corba1_sim: "sim 0 Active corba1"
proof -
  have "farm_ok 0 (farm0 ox0)" by (rule farm0_ok)
  then show ?thesis by (simp add: sim_def corba1_def arrays_ok_def farm0_parts platoon0_def farm_ok_def)
qed

theorem corba_reset_leaves_null_witness:
  "\<exists>sv1. serve build1 CHR ''p'' sys0 (\<lambda>k. po0) (\<lambda>e. 5) RReset corba1 = Some (Go sv1) \<and> corba_delete (\<lambda>k. po0) sv1 = None"
proof -
  obtain sv1 where "serve build1 CHR ''p'' sys0 (\<lambda>k. po0) (\<lambda>e. 5) RReset corba1 = Some (Go sv1)"
    using reset_serves[OF env1 corba1_sim] by blast
  with corba_reset_leaves_null[OF this] show ?thesis by blast
qed

text \<open>
  \<open>perform_work\<close> does not cut off a negative time: when the earliest event is two milliseconds overdue, it
  waits with a negative timeout, which every back end takes as no timeout, where bench.cc waits none.
\<close>
theorem overdue_event_waits_forever:
  assumes sys: "sys_ok S b" and ok: "farm_ok b w" and some: "timers w \<noteq> Map.empty"
    and late: "\<And>t. (\<exists>c. timers w c = Some t) \<Longrightarrow> no_overflow (t - now) \<and> sint (t - now) \<le> -20"
    and now: "fst (read_eclock (base_calls S CPlatoon) w) = now"
  shows "\<exists>ms w1. ms < 0 \<and> sleep_step S PC (\<lambda>ms. ms) w = on_osw (po_waitForEvents PC ms) w1 \<and>
           sleep_step S PC (\<lambda>ms. max 0 ms) w = on_osw (po_waitForEvents PC 0) w1"
proof -
  obtain now' t w1 where s: "sleep_step S PC (\<lambda>ms. ms) w = on_osw (po_waitForEvents PC (ms_until t now')) w1"
    "read_eclock (base_calls S CPlatoon) w = (now', w1)" "nextTime (wd_sked w1) (now' + of_int eclock_HERTZ) = Some t"
    "timers w \<noteq> Map.empty \<longrightarrow> (\<exists>c. timers w c = Some t)"
    using sleep_step_lemma[OF sys ok, of PC "\<lambda>ms. ms"] by (metis (lifting))
  have "now' = now" using s(2) now by simp
  with s some have 1: "sleep_step S PC (\<lambda>ms. ms) w = on_osw (po_waitForEvents PC (ms_until t now)) w1"
    "read_eclock (base_calls S CPlatoon) w = (now, w1)" "\<exists>c. timers w c = Some t" "nextTime (wd_sked w1) (now + of_int eclock_HERTZ) = Some t"
    by blast+
  have neg: "ms_until t now < 0" using ms_until_bounds(3)[of t now] late[OF 1(3)] by blast
  then have "sleep_step S PC (\<lambda>ms. max 0 ms) w = on_osw (po_waitForEvents PC 0) w1"
    using 1(2,4) by (simp add: sleep_step_def max_def)
  with 1(1) neg show ?thesis by blast
qed

theorem overdue_event_waits_forever_witness:
  "\<exists>w ms w1. ms < 0 \<and> sleep_step sys0 po0 (\<lambda>ms. ms) (w :: (64, osx) farm_world) = on_osw (po_waitForEvents po0 ms) w1"
proof -
  let ?b = "- 100 :: 64 clock"
  have sys: "sys_ok sys0 ?b"
    using sys0_ok unfolding sys_ok_def by (simp add: sys0_def eclock_def in_window_def ticks_def)
  have q: "queue_ok ?b fsk Map.empty" by (simp add: queue_ok_def few_def)
  have "in_window ?b (- 50)" by (simp add: in_window_def ticks_def)
  then obtain s' where s': "queue_ok ?b s' Map.empty" "schedule s' = [CPlatoon \<mapsto> - 50]"
    using queue_add[OF sys q, of CPlatoon "- 50" "[]" platoon0 ox0] by (auto simp: clients_of_def)
  let ?w = "mk [] s' platoon0 Map.empty ox0"
  have "farm_inv platoon0 (Map.empty :: nat \<Rightarrow> 64 robouser option)" using farm0_ok[of ox0] by (simp add: farm0_def)
  then have ok: "farm_ok ?b ?w" using s' by (simp add: pipes_ok_def)
  have now: "fst (read_eclock (base_calls sys0 CPlatoon) ?w) = 0"
    by (simp add: read_eclock_def on_x_def base_calls_def on_os_def sys0_def eclock_def mk_def)
  have "no_overflow (- 50 :: 64 clock)" by (simp add: no_overflow_def is_int_def cdiv_def eclock_HERTZ_def)
  then have "no_overflow (t - 0) \<and> sint (t - 0) \<le> -20" if "\<exists>c. timers ?w c = Some t" for t
    using that s'(2) by (auto split: if_splits)
  moreover have "timers ?w \<noteq> Map.empty" using s'(2) by simp
  ultimately show ?thesis using overdue_event_waits_forever[OF sys ok _ _ now, of po0] by blast
qed

text \<open>
  The two settings of \<open>set_lastConnectingState\<close> are swapped: CONNECT\_FINISH, documented as after the
  connection is complete, leaves the platoon counting only the users that have not started theirs.
\<close>
theorem last_state_swapped:
  assumes env: "server_env b cf c S PCs" and sim: "sim b Active sv"
  shows "\<exists>sv'. serve cf c S PCs status (RLast l) sv = Some (Go sv') \<and>
           pl_lastConnectingState (platoon_of (cp_farm sv')) = (if l = CONNECT_FINISH then CONNECT else CONNECTING)"
proof -
  obtain ls s P h x k lk i where sv: "sv = \<lparr>cp_farm = mk ls s P h x, cp_poller = k, cp_locked = lk, cp_inited = i\<rparr>" by (rule server_cases)
  have q: "queue_ok b s h" "sys_ok S b" "\<not> lk" "i" using sim env by (auto simp: sim_def sv server_env_def)
  obtain s' x' where "set_lastConnectingState S (session_state l) (mk ls s P h x) =
      Some (mk ls s' (P\<lparr>pl_lastConnectingState := session_state l\<rparr>) h x')"
    using set_target_lemmas(3)[OF q(2,1), of "session_state l" ls P x] by blast
  with q show ?thesis by (cases l) (auto simp: sv corba_set_lastConnectingState_def locked_call_def server_defs)
qed

theorem last_state_swapped_witness:
  "\<exists>sv'. serve build1 CHR ''p'' sys0 (\<lambda>k. po0) (\<lambda>e. 5) (RLast CONNECT_FINISH) corba1 = Some (Go sv') \<and>
     pl_lastConnectingState (platoon_of (cp_farm sv')) = CONNECT"
  using last_state_swapped[OF env1 corba1_sim, of "\<lambda>e. 5" CONNECT_FINISH] by auto

end
