(* ===== verification/Corba_bench.thy ===== *)
theory Corba_bench
  imports Corba_platoon
begin

text \<open>
  The controller of corbaftpbench.cc: it finds platoons in the name service, sets them up, polls their
  status until the test is over and resets them. The ORB, the name service and the platoons are
  reached through one call \<open>rm_call\<close> per message on an environment; the options are those of Options.
\<close>

subsection \<open>Messages and replies\<close>

datatype message = MInit init_req | MUsers nat | MVerbosity int | MStatus | MReset

text \<open>\<open>CORBA::COMM_FAILURE\<close> is caught while the platoons are set up, other exceptions only around the program.\<close>

datatype reply = Replied | Status nat nat nat | Comm_failure | Exception

record 'e remote =
  rm_call :: "nat \<Rightarrow> message \<Rightarrow> 'e \<Rightarrow> reply \<times> 'e"
  rm_gettimeofday :: "'e \<Rightarrow> (int \<times> int) \<times> 'e"
  rm_sleep :: "'e \<Rightarrow> 'e"

text \<open>A binding of the name service: its kind, and the object it is narrowed to, None when that is nil.\<close>

record binding =
  bn_kind :: "char list"
  bn_obj :: "nat option"

text \<open>An uncaught exception ends \<open>main\<close> with status 0, like its normal end.\<close>

definition call :: "'e remote \<Rightarrow> nat \<Rightarrow> message \<Rightarrow> 'e \<Rightarrow> (reply \<times> 'e) outcome" where
  "call R p m e = (case rm_call R p m e of (r, e1) \<Rightarrow> if r = Comm_failure \<or> r = Exception then Exit 0 else Go (r, e1))"

subsection \<open>Setting up the platoons\<close>

definition to_ulong :: "int \<Rightarrow> nat" where
  "to_ulong v = nat (v mod 2 ^ 32)"

definition to_ushort :: "int \<Rightarrow> nat" where
  "to_ushort v = nat (v mod 2 ^ 16)"

definition init_message :: "args \<Rightarrow> init_req" where
  "init_message a =
     \<lparr>iq_filename = ar_filename a, iq_maxBytesPerSec = to_ulong (ar_clientBandwidth a), iq_minBytesPerSec = to_ulong (ar_minClientBandwidth a),
      iq_bytesPerRead = to_ulong (ar_mtu a), iq_servername = ar_hostname a, iq_port = to_ushort (ar_portnum a),
      iq_username = ar_username a, iq_passwd = ar_password a, iq_useAllLocalInterfaces = ar_useAllLocalIfs a\<rparr>"

definition setup_messages :: "args \<Rightarrow> message list" where
  "setup_messages a = [MInit (init_message a), MUsers (to_ulong (ar_users a)), MVerbosity (to_short (ar_verbosity a))]"

text \<open>The calls in the inner \<open>try\<close>: False when a COMM\_FAILURE stops them.\<close>

fun call_all :: "'e remote \<Rightarrow> nat \<Rightarrow> message list \<Rightarrow> 'e \<Rightarrow> (bool \<times> 'e) outcome" where
  "call_all R p [] e = Go (True, e)"
| "call_all R p (m # ms) e =
     (case rm_call R p m e of (r, e1) \<Rightarrow>
        if r = Comm_failure then Go (False, e1) else if r = Exception then Exit 0 else call_all R p ms e1)"

fun enlist :: "'e remote \<Rightarrow> args \<Rightarrow> binding list \<Rightarrow> 'e \<Rightarrow> (nat list \<times> 'e) outcome option" where
  "enlist R a [] e = Some (Go ([], e))"
| "enlist R a (b # bs) e =
     (if bn_kind b \<noteq> ''CorbaPlatoon'' then enlist R a bs e
      else case bn_obj b of
        None \<Rightarrow> enlist R a bs e
      | Some p \<Rightarrow> andthen (Some (call_all R p (setup_messages a) e)) (\<lambda>(ok, e1).
          andthen (enlist R a bs e1) (\<lambda>(ps, e2). Some (Go (if ok then p # ps else ps, e2)))))"

subsection \<open>The test\<close>

text \<open>\<open>int += CORBA::ULong\<close>\<close>

definition add_ulong :: "int \<Rightarrow> nat \<Rightarrow> int" where
  "add_ulong i n = sint (of_int i + of_nat n :: 32 word)"

fun poll_all :: "'e remote \<Rightarrow> nat list \<Rightarrow> int \<times> int \<times> int \<Rightarrow> 'e \<Rightarrow> ((int \<times> int \<times> int) \<times> 'e) outcome option" where
  "poll_all R [] t e = Some (Go (t, e))"
| "poll_all R (p # ps) t e = andthen (Some (call R p MStatus e)) (\<lambda>(r, e1).
     case (r, t) of
       (Status c n d, nc, na, nd) \<Rightarrow> poll_all R ps (add_ulong nc c, add_ulong na n, add_ulong nd d) e1
     | _ \<Rightarrow> None)"

definition ctl_eclock :: "'e remote \<Rightarrow> 'e \<Rightarrow> 'w::len clock \<times> 'e" where
  "ctl_eclock R e = (case rm_gettimeofday R e of ((s, u), e1) \<Rightarrow> (eclock s u, e1))"

text \<open>A round; the product of the duration and the ticks per second is an \<open>int\<close>. None: the loop is left.\<close>

definition ctl_round ::
  "'e remote \<Rightarrow> nat list \<Rightarrow> int \<Rightarrow> 'w::len watch \<Rightarrow> 'e \<Rightarrow> ('w report option \<times> 'w watch \<times> 'e) outcome option" where
  "ctl_round R ps duration wt e = do {
     assertion (is_int (duration * eclock_HERTZ));
     let (now, e1) = ctl_eclock R e;
     if time_up duration now wt then Some (Go (None, wt, e1))
     else andthen (poll_all R ps (0, 0, 0) e1) (\<lambda>((nconnecting, nalive, ndead), e2).
       andthen (Some (watch_status duration now nconnecting nalive ndead wt)) (\<lambda>wt1.
         Some (Go (Some (now, nconnecting, nalive, ndead), wt1, rm_sleep R e2))))
   }"

partial_function (option) ctl_loop ::
  "'e remote \<Rightarrow> nat list \<Rightarrow> int \<Rightarrow> 'w::len watch \<Rightarrow> 'e \<Rightarrow> ('w watch \<times> 'e) outcome option" where
  "ctl_loop R ps duration wt e =
     andthen (ctl_round R ps duration wt e) (\<lambda>q.
       if fst q = None then Some (Go (snd q)) else ctl_loop R ps duration (fst (snd q)) (snd (snd q)))"

fun reset_all :: "'e remote \<Rightarrow> nat list \<Rightarrow> 'e \<Rightarrow> 'e outcome option" where
  "reset_all R [] e = Some (Go e)"
| "reset_all R (p # ps) e = andthen (Some (call R p MReset e)) (\<lambda>(r, e1). reset_all R ps e1)"

text \<open>\<open>main\<close> from the option check on, and the platoons it used.\<close>

definition ctl_test :: "'e remote \<Rightarrow> binding list \<Rightarrow> args \<Rightarrow> 'e \<Rightarrow> 'w::len itself \<Rightarrow> (nat list \<times> 'e) outcome option" where
  "ctl_test R bs a e T = andthen (enlist R a bs e) (\<lambda>(ps, e1).
     if ps = [] then Some (Exit 1)
     else do {
       assertion (is_int (ar_duration a * eclock_HERTZ));
       let (now, e2) = ctl_eclock R e1;
       andthen (ctl_loop R ps (ar_duration a) (watch_start (ar_duration a) (now :: 'w clock)) e2) (\<lambda>(wt, e3).
         andthen (reset_all R ps e3) (\<lambda>e4. Some (Go (ps, e4))))
     })"

definition ctl_main :: "'e remote \<Rightarrow> binding list \<Rightarrow> char list list \<Rightarrow> 'e \<Rightarrow> 'w::len itself \<Rightarrow> int option" where
  "ctl_main R bs argv e T = do {
     r \<leftarrow> andthen (options ctl_arg ctl_defaults argv) (\<lambda>a. ctl_test R bs a e T);
     Some (case r of Exit n \<Rightarrow> n | Go q \<Rightarrow> 0)
   }"

subsection \<open>What a platoon is sent\<close>

text \<open>
  The environment with a record of the calls and of the controller's sleeps; what concerns one platoon, and
  the messages it is sent.
\<close>

datatype event = Sent nat message | Slept

type_synonym 'e logged = "event list \<times> 'e"

definition logged :: "'e remote \<Rightarrow> 'e logged remote" where
  "logged R =
     \<lparr>rm_call = (\<lambda>p m (l, e). case rm_call R p m e of (r, e1) \<Rightarrow> (r, l @ [Sent p m], e1)),
      rm_gettimeofday = (\<lambda>(l, e). case rm_gettimeofday R e of (t, e1) \<Rightarrow> (t, l, e1)),
      rm_sleep = (\<lambda>(l, e). (l @ [Slept], rm_sleep R e))\<rparr>"

definition heard :: "nat \<Rightarrow> 'e logged \<Rightarrow> event list" where
  "heard p le = filter (\<lambda>ev. case ev of Sent q m \<Rightarrow> q = p | Slept \<Rightarrow> True) (fst le)"

definition sent :: "nat \<Rightarrow> 'e logged \<Rightarrow> message list" where
  "sent p le = concat (map (\<lambda>ev. case ev of Sent q m \<Rightarrow> [m] | Slept \<Rightarrow> []) (heard p le))"

lemma logged_call:
  "rm_call (logged R) p m le = (r, le') \<Longrightarrow> heard q le' = heard q le @ (if q = p then [Sent p m] else [])"
  by (auto simp: logged_def heard_def split: prod.splits)

lemma logged_others: "heard q (rm_sleep (logged R) le) = heard q le @ [Slept]" "ctl_eclock (logged R) le = (now, le') \<Longrightarrow> heard q le' = heard q le"
  by (auto simp: logged_def heard_def ctl_eclock_def split: prod.splits)

lemma call_all_sent:
  "call_all (logged R) p ms le = Go (ok, le') \<Longrightarrow>
   (q \<noteq> p \<longrightarrow> heard q le' = heard q le) \<and> (ok \<longrightarrow> heard p le' = heard p le @ map (Sent p) ms)"
proof (induction ms arbitrary: le)
  case (Cons m ms)
  obtain r le1 where c: "rm_call (logged R) p m le = (r, le1)" by (metis surj_pair)
  note s = logged_call[OF c]
  show ?case
  proof (cases "r = Comm_failure \<or> r = Exception")
    case True
    with Cons.prems c s[of q] show ?thesis by auto
  next
    case False
    with Cons.prems c have "call_all (logged R) p ms le1 = Go (ok, le')" by simp
    from Cons.IH[OF this] s[of q] s[of p] show ?thesis by auto
  qed
qed simp

definition objects :: "binding list \<Rightarrow> nat list" where
  "objects bs = List.map_filter bn_obj bs"

lemma objects_simps [simp]: "objects [] = []" "objects (b # bs) = (case bn_obj b of None \<Rightarrow> objects bs | Some p \<Rightarrow> p # objects bs)"
  by (simp_all add: objects_def List.map_filter_simps split: option.split)

lemma enlist_sent:
  "enlist (logged R) a bs le = Some (Go (ps, le')) \<Longrightarrow> distinct (objects bs) \<Longrightarrow>
   set ps \<subseteq> set (objects bs) \<and> distinct ps \<and> (\<forall>p. p \<notin> set (objects bs) \<longrightarrow> heard p le' = heard p le) \<and>
   (\<forall>p \<in> set ps. heard p le' = heard p le @ map (Sent p) (setup_messages a))"
proof (induction bs arbitrary: le ps le')
  case (Cons b bs)
  show ?case
  proof (cases "bn_kind b = ''CorbaPlatoon'' \<and> bn_obj b \<noteq> None")
    case False
    have "enlist (logged R) a bs le = Some (Go (ps, le'))" "distinct (objects bs)"
      using False Cons.prems by (auto split: option.splits if_splits)
    from Cons.IH[OF this] show ?thesis by (auto split: option.splits)
  next
    case True
    then obtain p where p: "bn_obj b = Some p" by blast
    with True Cons.prems(1) obtain ok le1 ps1 where s: "call_all (logged R) p (setup_messages a) le = Go (ok, le1)"
      "enlist (logged R) a bs le1 = Some (Go (ps1, le'))" "ps = (if ok then p # ps1 else ps1)"
      by (auto simp: andthen_Go)
    have d: "distinct (objects bs)" "p \<notin> set (objects bs)" using Cons.prems(2) p by auto
    note ih = Cons.IH[OF s(2) d(1)] and c = call_all_sent[OF s(1)]
    have fresh: "p \<notin> set ps1" using ih d(2) by blast
    have one: "heard p le' = heard p le1" using ih d(2) by blast
    have others: "heard q le1 = heard q le" if "q \<noteq> p" for q using c[of q] that by simp
    have kept: "heard q le1 = heard q le" if "q \<in> set ps1" for q using others[of q] fresh that by blast
    have out: "\<forall>q. q \<notin> set (objects (b # bs)) \<longrightarrow> heard q le' = heard q le" using ih others p by simp
    show ?thesis using ih c[of p] fresh one kept out p s(3) by (cases ok) auto
  qed
qed simp

lemma poll_all_sent:
  "poll_all (logged R) ps t le = Some (Go (t', le')) \<Longrightarrow> distinct ps \<Longrightarrow>
   (\<forall>q. heard q le' = heard q le @ (if q \<in> set ps then [Sent q MStatus] else []))"
proof (induction ps arbitrary: t le)
  case (Cons p ps)
  obtain r le1 where c: "rm_call (logged R) p MStatus le = (r, le1)" by (metis surj_pair)
  obtain nc na nd where t: "t = (nc, na, nd)" by (cases t)
  have "\<exists>t1. poll_all (logged R) ps t1 le1 = Some (Go (t', le'))"
    using Cons.prems(1) c by (cases r) (auto simp: andthen_Go call_def t)
  then obtain t1 where "poll_all (logged R) ps t1 le1 = Some (Go (t', le'))" by blast
  from Cons.IH[OF this] Cons.prems(2) logged_call[OF c] show ?case by auto
qed simp

lemma reset_all_sent:
  "reset_all (logged R) ps le = Some (Go le') \<Longrightarrow> distinct ps \<Longrightarrow>
   (\<forall>q. heard q le' = heard q le @ (if q \<in> set ps then [Sent q MReset] else []))"
proof (induction ps arbitrary: le)
  case (Cons p ps)
  obtain r le1 where c: "rm_call (logged R) p MReset le = (r, le1)" by (metis surj_pair)
  with Cons.prems(1) have "reset_all (logged R) ps le1 = Some (Go le')"
    by (auto simp: andthen_Go call_def split: if_splits)
  from Cons.IH[OF this] Cons.prems(2) logged_call[OF c] show ?case by auto
qed simp

lemma ctl_round_sent:
  fixes wt :: "'w::len watch"
  assumes "ctl_round (logged R) ps d wt le = Some (Go (q, wt1, le1))" "distinct ps" "p \<in> set ps"
  shows "heard p le1 = heard p le @ (if q = None then [] else [Sent p MStatus, Slept])"
proof -
  obtain now :: "'w clock" and le0 where n: "ctl_eclock (logged R) le = (now, le0)" by (metis surj_pair)
  show ?thesis
  proof (cases "time_up d now wt")
    case True
    with assms(1) n logged_others(2)[OF n] show ?thesis by (auto simp: ctl_round_def bind_eq_Some_conv)
  next
    case False
    obtain t le2 where 2: "poll_all (logged R) ps (0, 0, 0) le0 = Some (Go (t, le2))"
      "case t of (nc, na, nd) \<Rightarrow> andthen (Some (watch_status d now nc na nd wt)) (\<lambda>wt1.
         Some (Go (Some (now, nc, na, nd), wt1, rm_sleep (logged R) le2))) = Some (Go (q, wt1, le1))"
      using assms(1) n False by (auto simp: ctl_round_def bind_eq_Some_conv andthen_Go split: prod.splits)
    then have "q \<noteq> None" "le1 = rm_sleep (logged R) le2" by (auto simp: andthen_Go split: prod.splits)
    with poll_all_sent[OF 2(1) assms(2)] assms(3) logged_others(1)[of p R le2] logged_others(2)[OF n, of p] show ?thesis by simp
  qed
qed

lemma ctl_loop_sent:
  "ctl_loop R' ps d wt le = Some r \<Longrightarrow> R' = logged R \<and> distinct ps \<longrightarrow>
    (\<forall>wt' le'. r = Go (wt', le') \<longrightarrow> (\<exists>k. \<forall>p \<in> set ps. heard p le' = heard p le @ concat (replicate k [Sent p MStatus, Slept])))"
proof (induction rule: ctl_loop.raw_induct[rotated 1, consumes 1, case_names step])
  case (step cl R' ps d wt le r)
  show ?case
  proof (intro allI impI)
    fix wt' le'
    assume R: "R' = logged R \<and> distinct ps" and r: "r = Go (wt', le')"
    obtain q where "ctl_round R' ps d wt le = Some (Go q)"
      "(if fst q = None then Some (Go (snd q)) else cl R' ps d (fst (snd q)) (snd (snd q))) = Some (Go (wt', le'))"
      using step(2) unfolding r andthen_Go by blast
    moreover obtain rep wt1 le1 where eq: "q = (rep, wt1, le1)" by (rule prod_cases3)
    ultimately have q: "ctl_round (logged R) ps d wt le = Some (Go (rep, wt1, le1))"
      "(if rep = None then Some (Go (wt1, le1)) else cl R' ps d wt1 le1) = Some (Go (wt', le'))"
      using R unfolding eq fst_conv snd_conv by blast+
    note s = ctl_round_sent[OF q(1) R[THEN conjunct2]]
    show "\<exists>k. \<forall>p \<in> set ps. heard p le' = heard p le @ concat (replicate k [Sent p MStatus, Slept])"
    proof (cases rep)
      case None
      with q(2) s show ?thesis by (intro exI[of _ 0]) auto
    next
      case (Some rp)
      with q(2) have "cl R' ps d wt1 le1 = Some (Go (wt', le'))" by simp
      from step(1)[OF this] R obtain k where "\<forall>p \<in> set ps. heard p le' = heard p le1 @ concat (replicate k [Sent p MStatus, Slept])" by blast
      with s Some show ?thesis by (intro exI[of _ "Suc k"]) auto
    qed
  qed
qed

subsection \<open>Properties\<close>

text \<open>The request a message is for a server with the interfaces \<open>ifs\<close>.\<close>

fun request_of :: "32 word option list \<Rightarrow> message \<Rightarrow> request" where
  "request_of ifs (MInit q) = RInit q ifs"
| "request_of ifs (MUsers n) = RUsers n"
| "request_of ifs (MVerbosity v) = RVerbosity v"
| "request_of ifs MStatus = RStatus"
| "request_of ifs MReset = RReset"

lemma session_fits:
  assumes "length (ar_hostname a) < 128" "length (ar_username a) < 128" "length (ar_password a) < 128"
    "ar_useAllLocalIfs a \<longrightarrow> local_addrs ifs \<noteq> []" "ph = Fresh \<or> ph = Closed"
  shows "run_fits (map (request_of ifs) (setup_messages a @ replicate k MStatus @ [MReset])) ph \<and>
         fold phase_step (map (request_of ifs) (setup_messages a @ replicate k MStatus @ [MReset])) ph = Closed"
proof -
  have polls: "run_fits (map (request_of ifs) (replicate k MStatus @ [MReset])) Active \<and>
      fold phase_step (map (request_of ifs) (replicate k MStatus @ [MReset])) Active = Closed"
    by (induction k) (simp_all add: request_fits_def)
  have "phase_step (RInit (init_message a) ifs) ph = Active" using assms(5) by auto
  then have "run_fits (RInit (init_message a) ifs # RUsers n # RVerbosity v # rs) ph = run_fits rs Active"
    "fold phase_step (RInit (init_message a) ifs # RUsers n # RVerbosity v # rs) ph = fold phase_step rs Active" for n v rs
    using assms by (auto simp: request_fits_def init_message_def)
  with polls show ?thesis by (simp only: setup_messages_def append.simps list.map request_of.simps)
qed

lemma ctl_test_sent:
  assumes run: "ctl_test (logged R) bs a ([], e) TYPE('w::len) = Some (Go (ps, le))" and bs: "distinct (objects bs)"
  shows "ps \<noteq> [] \<and> distinct ps \<and> set ps \<subseteq> set (objects bs) \<and>
    (\<exists>k. \<forall>p \<in> set ps. heard p le = map (Sent p) (setup_messages a) @ concat (replicate k [Sent p MStatus, Slept]) @ [Sent p MReset])"
proof -
  obtain le1 where 1: "enlist (logged R) a bs ([], e) = Some (Go (ps, le1))" "ps \<noteq> []"
    and rest: "(do { assertion (is_int (ar_duration a * eclock_HERTZ));
       let (now, e2) = ctl_eclock (logged R) le1;
       andthen (ctl_loop (logged R) ps (ar_duration a) (watch_start (ar_duration a) (now :: 'w clock)) e2) (\<lambda>(wt, e3).
         andthen (reset_all (logged R) ps e3) (\<lambda>e4. Some (Go (ps, e4)))) }) = Some (Go (ps, le))"
  proof -
    obtain q where q: "enlist (logged R) a bs ([], e) = Some (Go q)"
      "(case q of (ps, e1) \<Rightarrow> if ps = [] then Some (Exit 1)
        else do { assertion (is_int (ar_duration a * eclock_HERTZ));
          let (now, e2) = ctl_eclock (logged R) e1;
          andthen (ctl_loop (logged R) ps (ar_duration a) (watch_start (ar_duration a) (now :: 'w clock)) e2) (\<lambda>(wt, e3).
            andthen (reset_all (logged R) ps e3) (\<lambda>e4. Some (Go (ps, e4)))) }) = Some (Go (ps, le))"
      using run unfolding ctl_test_def andthen_Go by blast
    obtain ps1 le1 where p: "q = (ps1, le1)" by (cases q) auto
    have "ps1 \<noteq> []" using q(2) unfolding p by auto
    with q(2) have r: "(do { assertion (is_int (ar_duration a * eclock_HERTZ));
       let (now, e2) = ctl_eclock (logged R) le1;
       andthen (ctl_loop (logged R) ps1 (ar_duration a) (watch_start (ar_duration a) (now :: 'w clock)) e2) (\<lambda>(wt, e3).
         andthen (reset_all (logged R) ps1 e3) (\<lambda>e4. Some (Go (ps1, e4)))) }) = Some (Go (ps, le))"
      unfolding p by simp
    then have "ps1 = ps" by (auto simp: bind_eq_Some_conv andthen_Go split: prod.splits)
    with q(1) r \<open>ps1 \<noteq> []\<close> p show ?thesis using that by blast
  qed
  obtain now :: "'w clock" and le2 where n: "ctl_eclock (logged R) le1 = (now, le2)" by (metis surj_pair)
  obtain wt le3 where 2: "ctl_loop (logged R) ps (ar_duration a) (watch_start (ar_duration a) now) le2 = Some (Go (wt, le3))"
    "reset_all (logged R) ps le3 = Some (Go le)"
    using rest n by (auto simp: bind_eq_Some_conv andthen_Go)
  note en = enlist_sent[OF 1(1) bs]
  then obtain k where "\<forall>p \<in> set ps. heard p le3 = heard p le2 @ concat (replicate k [Sent p MStatus, Slept])" using ctl_loop_sent[OF 2(1)] by blast
  moreover have "heard p ([], e) = []" for p by (simp add: heard_def)
  ultimately have "\<forall>p \<in> set ps. heard p le = map (Sent p) (setup_messages a) @ concat (replicate k [Sent p MStatus, Slept]) @ [Sent p MReset]"
    using reset_all_sent[OF 2(2)] en logged_others(2)[OF n] by simp
  with en 1(2) show ?thesis by blast
qed

lemma heard_sent:
  assumes "heard p le = map (Sent p) ms @ concat (replicate k [Sent p MStatus, Slept]) @ [Sent p MReset]"
  shows "sent p le = ms @ replicate k MStatus @ [MReset]"
proof -
  have "concat (map (\<lambda>ev. case ev of Sent q m \<Rightarrow> [m] | Slept \<Rightarrow> []) (concat (replicate k [Sent p MStatus, Slept]))) = replicate k MStatus"
    by (induction k) simp_all
  moreover have "concat (map (\<lambda>ev. case ev of Sent q m \<Rightarrow> [m] | Slept \<Rightarrow> []) (map (Sent p) ms)) = ms" by (induction ms) simp_all
  ultimately show ?thesis unfolding sent_def assms by simp
qed

text \<open>Sessions that fit set the server up first; the server's own work in between does not count.\<close>

lemma fits_init: "run_fits rs ph \<Longrightarrow> init_first rs ph"
  by (induction rs arbitrary: ph) (auto simp: request_fits_def split: request.splits)

lemma work_between:
  "fold phase_step rs ph = fold phase_step (filter (\<lambda>r. r \<noteq> RWork) rs) ph" "init_first rs ph = init_first (filter (\<lambda>r. r \<noteq> RWork) rs) ph"
proof -
  have "phase_step RWork ph = ph" for ph by (cases ph) simp_all
  then show "fold phase_step rs ph = fold phase_step (filter (\<lambda>r. r \<noteq> RWork) rs) ph"
    "init_first rs ph = init_first (filter (\<lambda>r. r \<noteq> RWork) rs) ph"
    by (induction rs arbitrary: ph) (auto split: request.splits)
qed

text \<open>
  C31. A controller that runs a test to its end keeps to the protocol of the servers. Every platoon of the test,
  that is one whose set-up did not meet a communication failure, gets exactly this: \<open>init\<close> with the values
  of the options, the target of users, the verbosity, then before each sleep of the controller one
  poll of the status, and at the end one reset. A server that was fresh or closed, with names that fit,
  some local address where they are asked for, and a system and a back end that work, serves all
  of it and is closed after it, when it does no work of its own. And however its own calls of
  \<open>perform_work\<close> come in between, if all calls return, it is closed at the end, with no user left.
\<close>
theorem controller_keeps_protocol:
  assumes run: "ctl_test (logged R) bs a ([], e) TYPE('w::len) = Some (Go (ps, le))" and bs: "distinct (objects bs)"
    and names: "length (ar_hostname a) < 128" "length (ar_username a) < 128" "length (ar_password a) < 128"
    and p: "p \<in> set ps" and env: "server_env b cf c S PCs" and sim: "sim b ph sv" "ph = Fresh \<or> ph = Closed"
    and ifs: "ar_useAllLocalIfs a \<longrightarrow> local_addrs ifs \<noteq> []"
  shows "(\<exists>k. heard p le =
            [Sent p (MInit \<lparr>iq_filename = ar_filename a, iq_maxBytesPerSec = nat (ar_clientBandwidth a mod 2 ^ 32),
                       iq_minBytesPerSec = nat (ar_minClientBandwidth a mod 2 ^ 32), iq_bytesPerRead = nat (ar_mtu a mod 2 ^ 32),
                       iq_servername = ar_hostname a, iq_port = nat (ar_portnum a mod 2 ^ 16), iq_username = ar_username a,
                       iq_passwd = ar_password a, iq_useAllLocalInterfaces = ar_useAllLocalIfs a\<rparr>),
             Sent p (MUsers (nat (ar_users a mod 2 ^ 32))), Sent p (MVerbosity (to_short (ar_verbosity a)))] @
            concat (replicate k [Sent p MStatus, Slept]) @ [Sent p MReset]) \<and>
         (\<exists>sv'. served cf c S PCs status sv (map (request_of ifs) (sent p le)) sv' \<and> sim b Closed sv') \<and>
         (\<forall>rs sv'. filter (\<lambda>r. r \<noteq> RWork) rs = map (request_of ifs) (sent p le) \<and> served cf c S PCs status sv rs sv' \<longrightarrow>
            at_phase S Closed sv' \<and> users_of (cp_farm sv') = Map.empty)"
proof -
  obtain k where h: "heard p le = map (Sent p) (setup_messages a) @ concat (replicate k [Sent p MStatus, Slept]) @ [Sent p MReset]"
    using ctl_test_sent[OF run bs] p by blast
  note k = heard_sent[OF h]
  have fit: "run_fits (map (request_of ifs) (sent p le)) ph" "fold phase_step (map (request_of ifs) (sent p le)) ph = Closed"
    unfolding k using session_fits[OF names ifs sim(2)] by blast+
  have fresh: "fresh_addresses S" using env by (simp add: server_env_def sys_ok_def fresh_addresses_def)
  have at: "at_phase S ph sv" using sim by (auto simp: sim_def at_phase_def)
  have "at_phase S Closed sv'" if rs: "filter (\<lambda>r. r \<noteq> RWork) rs = map (request_of ifs) (sent p le)"
    and run: "served cf c S PCs status sv rs sv'" for rs sv'
  proof -
    have "init_first rs ph" "fold phase_step rs ph = Closed"
      using fits_init[OF fit(1)] fit(2) work_between[of rs ph] by (simp_all only: rs)
    with served_phase[OF run at _ fresh] show ?thesis by metis
  qed
  moreover have "\<exists>sv'. served cf c S PCs status sv (map (request_of ifs) (sent p le)) sv' \<and> sim b Closed sv'"
    using srv.session[OF conjI[OF env sim(1)] fit(1), of status] fit(2) by (auto simp: served_def)
  moreover have "at_phase S Closed sv' \<Longrightarrow> users_of (cp_farm sv') = Map.empty" for sv' by (simp add: at_phase_def)
  ultimately show ?thesis using h by (auto simp: setup_messages_def init_message_def to_ulong_def to_ushort_def)
qed

text \<open>An environment whose clock moves ten seconds in each sleep, with one platoon that has no users yet.\<close>

definition remote0 :: "int remote" where
  "remote0 = \<lparr>rm_call = (\<lambda>p m e. (if m = MStatus then Status 0 0 0 else Replied, e)), rm_gettimeofday = (\<lambda>e. ((e, 0), e)),
     rm_sleep = (\<lambda>e. e + 10)\<rparr>"

definition ctl_args :: args where
  "ctl_args = ctl_defaults\<lparr>ar_hostname := ''ftp'', ar_users := 3, ar_duration := 1\<rparr>"

lemma remote0_test:
  "\<exists>le. ctl_test (logged remote0) [\<lparr>bn_kind = ''Other'', bn_obj = Some 4\<rparr>, \<lparr>bn_kind = ''CorbaPlatoon'', bn_obj = Some 7\<rparr>] ctl_args ([], 0)
     TYPE(64) = Some (Go ([7], le))"
proof -
  have d: "ar_duration ctl_args = 1" by (simp add: ctl_args_def)
  have clock: "ctl_eclock (logged remote0) (l, e) = (eclock e 0, l, e)" for l e
    by (simp add: ctl_eclock_def logged_def remote0_def)
  have prep: "call_all (logged remote0) p (setup_messages a) (l, e) = Go (True, l @ map (Sent p) (setup_messages a), e)" for p a l e
    by (simp add: setup_messages_def logged_def remote0_def)
  have poll: "poll_all (logged remote0) [p] (0, 0, 0) (l, e) = Some (Go ((0, 0, 0), l @ [Sent p MStatus], e))" for p l e
    by (simp add: call_def logged_def remote0_def add_ulong_def)
  have reset: "reset_all (logged remote0) [p] (l, e) = Some (Go (l @ [Sent p MReset], e))" for p l e
    by (simp add: call_def logged_def remote0_def)
  have sleep: "rm_sleep (logged remote0) (l, e) = (l @ [Slept], e + 10)" for l e by (simp add: logged_def remote0_def)
  have times: "(eclock 0 0 :: 64 clock) = 0" "(eclock 10 0 :: 64 clock) = 100000" by (simp_all add: eclock_def eclock_HERTZ_def)
  let ?wt = "watch_start 1 (0 :: 64 clock)"
  have wt: "\<not> time_up 1 0 ?wt" "time_up 1 100000 ?wt" "watch_status 1 0 0 0 0 ?wt = Go ?wt"
    by (simp_all add: time_up_def watch_start_def run_ticks_def eclock_HERTZ_def eclock_after_def watch_status_def)
  have i: "is_int eclock_HERTZ" by (simp add: is_int_def eclock_HERTZ_def)
  have r1: "ctl_round (logged remote0) [7] 1 ?wt (l, 0) = Some (Go (Some (0, 0, 0, 0), ?wt, l @ [Sent 7 MStatus, Slept], 10))" for l
    using wt by (simp add: ctl_round_def clock times poll sleep i del: poll_all.simps)
  have r2: "ctl_round (logged remote0) [7] 1 ?wt (l, 10) = Some (Go (None, ?wt, l, 10))" for l
    using wt by (simp add: ctl_round_def clock times i)
  have lp: "ctl_loop (logged remote0) [7] 1 ?wt (l, 0) = Some (Go (?wt, l @ [Sent 7 MStatus, Slept], 10))" for l
    by (simp add: ctl_loop.simps[of "logged remote0" "[7]" 1 ?wt] r1 r2)
  show ?thesis by (simp add: ctl_test_def prep clock times d i lp reset del: reset_all.simps)
qed

theorem controller_keeps_protocol_witness:
  "\<exists>le k sv sv'. ctl_test (logged remote0) [\<lparr>bn_kind = ''Other'', bn_obj = Some 4\<rparr>, \<lparr>bn_kind = ''CorbaPlatoon'', bn_obj = Some 7\<rparr>] ctl_args ([], 0)
       TYPE(64) = Some (Go ([7], le)) \<and>
     heard 7 le = [Sent 7 (MInit (init_message ctl_args)), Sent 7 (MUsers 3), Sent 7 (MVerbosity 0)] @
       concat (replicate k [Sent 7 MStatus, Slept]) @ [Sent 7 MReset] \<and>
     served build1 CHR ''p'' sys0 (\<lambda>k. po0) (\<lambda>e. 5) sv (map (request_of []) (sent 7 le)) sv' \<and> sim 0 Closed sv' \<and> users_of (cp_farm sv') = Map.empty"
proof -
  let ?bs = "[\<lparr>bn_kind = ''Other'', bn_obj = Some 4\<rparr>, \<lparr>bn_kind = ''CorbaPlatoon'', bn_obj = Some 7\<rparr>]"
  obtain le where le: "ctl_test (logged remote0) ?bs ctl_args ([], 0) TYPE(64) = Some (Go ([7], le))" using remote0_test by blast
  have bs: "distinct (objects ?bs)" by simp
  have a: "length (ar_hostname ctl_args) < 128" "length (ar_username ctl_args) < 128" "length (ar_password ctl_args) < 128"
    "ar_useAllLocalIfs ctl_args \<longrightarrow> local_addrs [] \<noteq> []"
    and v: "ar_users ctl_args = 3" "to_short (ar_verbosity ctl_args) = 0"
    by (simp_all add: ctl_args_def ctl_defaults_def bench_defaults_def to_short_def)
  obtain sv where sv: "sim 0 Fresh (sv :: (64, osx) server)"
    using corba_new_sim[of "replicate 256 \<lparr>skc = CPlatoon, rec_when = 0\<rparr>" "farm0 ox0" 0]
    by (auto simp: farm0_parts fsk_def sked_init_def arrays_ok_def platoon0_def)
  have p: "7 \<in> set [7 :: nat]" and f: "Fresh = Fresh \<or> Fresh = Closed" by simp_all
  note t = controller_keeps_protocol[OF le bs a(1-3) p env1 sv f a(4), of "\<lambda>e. 5"]
  obtain k where k: "heard 7 le = [Sent 7 (MInit (init_message ctl_args)), Sent 7 (MUsers 3), Sent 7 (MVerbosity 0)] @
       concat (replicate k [Sent 7 MStatus, Slept]) @ [Sent 7 MReset]"
    using t[THEN conjunct1] by (auto simp: v init_message_def to_ulong_def to_ushort_def)
  obtain sv' where s: "served build1 CHR ''p'' sys0 (\<lambda>k. po0) (\<lambda>e. 5) sv (map (request_of []) (sent 7 le)) sv'" "sim 0 Closed sv'"
    using t[THEN conjunct2, THEN conjunct1] by blast
  have "filter (\<lambda>r. r \<noteq> RWork) (map (request_of []) ms) = map (request_of []) ms" for ms
  proof (induction ms)
    case (Cons m ms)
    then show ?case by (cases m) simp_all
  qed simp
  with t[THEN conjunct2, THEN conjunct2] s(1) have "users_of (cp_farm sv') = Map.empty" by blast
  with le k s show ?thesis by blast
qed

end
