(* ===== verification/Dklimits.thy ===== *)
theory Dklimits
  imports Options Poller_base
begin

unbundle bit_operations_syntax

text \<open>
  The program dklimits.c, which measures how many descriptors, files, sockets and connections the system
  gives a process. The system is a state \<open>'o\<close> with the calls the program makes; a call that opens something
  returns a descriptor or -1. The global array \<open>fds\<close> of \<open>MAX_TEST\<close> elements is written from its start; the
  part written is the list of what was opened.
\<close>

subsection \<open>The system\<close>

definition MAX_TEST :: nat where "MAX_TEST = 100000"

record 'o limit_calls =
  lc_dup :: "'o \<Rightarrow> int \<times> 'o"
  lc_creat :: "nat \<Rightarrow> 'o \<Rightarrow> int \<times> 'o"
  lc_unlink :: "nat \<Rightarrow> 'o \<Rightarrow> 'o"
  lc_socket :: "'o \<Rightarrow> int \<times> 'o"
  lc_bind :: "int \<Rightarrow> 'o \<Rightarrow> bool \<times> 'o"
  lc_socketpair :: "bool \<Rightarrow> 'o \<Rightarrow> (int \<times> int) option \<times> 'o"
  lc_close :: "int \<Rightarrow> 'o \<Rightarrow> 'o"
  lc_poll :: "nat \<Rightarrow> 'o \<Rightarrow> bool \<times> 'o"
  lc_nonblock :: "int \<Rightarrow> 'o \<Rightarrow> 'o"
  lc_connect :: "int \<Rightarrow> 'o \<Rightarrow> errno option \<times> 'o"
  lc_poll_fds :: "int list \<Rightarrow> 'o \<Rightarrow> mask list option \<times> 'o"
  lc_so_error :: "int \<Rightarrow> 'o \<Rightarrow> errno option option \<times> 'o"
  lc_time :: "'o \<Rightarrow> int \<times> 'o"

subsection \<open>Descriptors, files and sockets\<close>

text \<open>The loop that opens until it fails or has \<open>want\<close>: \<open>k\<close> rounds are left, \<open>i\<close> is the subscript.\<close>

fun open_loop :: "(nat \<Rightarrow> 'o \<Rightarrow> int \<times> 'o) \<Rightarrow> nat \<Rightarrow> nat \<Rightarrow> 'o \<Rightarrow> (int list \<times> 'o) option" where
  "open_loop opn 0 i x = Some ([], x)"
| "open_loop opn (Suc k) i x = do {
     assertion (i < MAX_TEST);
     let (fd, x1) = opn i x;
     if fd = -1 then Some ([], x1)
     else do { (fds, x2) \<leftarrow> open_loop opn k (i + 1) x1; Some (fd # fds, x2) }
   }"

definition close_all :: "'o limit_calls \<Rightarrow> int list \<Rightarrow> 'o \<Rightarrow> 'o" where
  "close_all C fds x = fold (lc_close C) fds x"

definition count_fds :: "'o limit_calls \<Rightarrow> nat \<Rightarrow> 'o \<Rightarrow> (nat \<times> 'o) option" where
  "count_fds C want x = do {
     (fds, x1) \<leftarrow> open_loop (\<lambda>i. lc_dup C) want 0 x;
     Some (length fds, close_all C fds x1)
   }"

text \<open>The files are \<open>/tmp/fd%d\<close>; they are named here by their numbers.\<close>

fun close_files :: "'o limit_calls \<Rightarrow> nat \<Rightarrow> int list \<Rightarrow> 'o \<Rightarrow> 'o" where
  "close_files C i [] x = x"
| "close_files C i (fd # fds) x = close_files C (i + 1) fds (lc_unlink C i (lc_close C fd x))"

definition count_files :: "'o limit_calls \<Rightarrow> nat \<Rightarrow> 'o \<Rightarrow> (nat \<times> 'o) option" where
  "count_files C want x = do {
     (fds, x1) \<leftarrow> open_loop (lc_creat C) want 0 x;
     Some (length fds, close_files C 0 fds x1)
   }"

text \<open>A socket that cannot be bound ends the loop and is not among those that are closed.\<close>

fun bind_sockets :: "'o limit_calls \<Rightarrow> nat \<Rightarrow> nat \<Rightarrow> 'o \<Rightarrow> (int list \<times> 'o) option" where
  "bind_sockets C 0 i x = Some ([], x)"
| "bind_sockets C (Suc k) i x = do {
     assertion (i < MAX_TEST);
     let (fd, x1) = lc_socket C x;
     if fd < 0 then Some ([], x1)
     else case lc_bind C fd x1 of (ok, x2) \<Rightarrow>
       if \<not> ok then Some ([], x2)
       else do { (fds, x3) \<leftarrow> bind_sockets C k (i + 1) x2; Some (fd # fds, x3) }
   }"

definition count_sockets :: "'o limit_calls \<Rightarrow> nat \<Rightarrow> 'o \<Rightarrow> (nat \<times> 'o) option" where
  "count_sockets C want x = do {
     (fds, x1) \<leftarrow> bind_sockets C want 0 x;
     Some (length fds, close_all C fds x1)
   }"

text \<open>Pairs of sockets, of the local family or of the internet one; \<open>k\<close> pairs are left.\<close>

fun open_pairs :: "(bool \<Rightarrow> 'o \<Rightarrow> (int \<times> int) option \<times> 'o) \<Rightarrow> bool \<Rightarrow> nat \<Rightarrow> nat \<Rightarrow> 'o \<Rightarrow> (int list \<times> 'o) option" where
  "open_pairs opn fam 0 i x = Some ([], x)"
| "open_pairs opn fam (Suc k) i x = do {
     assertion (i + 1 < MAX_TEST);
     let (r, x1) = opn fam x;
     case r of
       None \<Rightarrow> Some ([], x1)
     | Some (a, b) \<Rightarrow> do { (fds, x2) \<leftarrow> open_pairs opn fam k (i + 2) x1; Some (a # b # fds, x2) }
   }"

definition count_socketpairs :: "'o limit_calls \<Rightarrow> bool \<Rightarrow> nat \<Rightarrow> 'o \<Rightarrow> (nat \<times> 'o) option" where
  "count_socketpairs C fam want x = do {
     let want1 = (if odd want then want - 1 else want);
     (fds, x1) \<leftarrow> open_pairs (lc_socketpair C) fam (want1 div 2) 0 x;
     Some (length fds, close_all C fds x1)
   }"

subsection \<open>The largest \<open>poll\<close>\<close>

text \<open>
  The first loop doubles the number of descriptors until \<open>poll\<close> fails, the second goes up in steps of one
  from half of where it stopped. The doubling starts at 1.
\<close>

function poll_double :: "(nat \<Rightarrow> 'o \<Rightarrow> bool \<times> 'o) \<Rightarrow> nat \<Rightarrow> nat \<Rightarrow> 'o \<Rightarrow> nat \<times> 'o" where
  "poll_double pl want i x =
     (if 0 < i \<and> i \<le> want then (case pl i x of (ok, x1) \<Rightarrow> if ok then poll_double pl want (i * 2) x1 else (i, x1))
      else (i, x))"
  by pat_completeness auto
termination by (relation "measure (\<lambda>(pl, want, i, x). want + 1 - i)") auto

function poll_step_up :: "(nat \<Rightarrow> 'o \<Rightarrow> bool \<times> 'o) \<Rightarrow> nat \<Rightarrow> nat \<Rightarrow> nat \<Rightarrow> 'o \<Rightarrow> nat \<times> 'o" where
  "poll_step_up pl want i j x =
     (if j < i \<and> j < want then (case pl j x of (ok, x1) \<Rightarrow> if ok then poll_step_up pl want i (j + 1) x1 else (j, x1))
      else (j, x))"
  by pat_completeness auto
termination by (relation "measure (\<lambda>(pl, want, i, j, x). i - j)") auto

declare poll_double.simps [simp del] poll_step_up.simps [simp del]

definition count_poll :: "'o limit_calls \<Rightarrow> nat \<Rightarrow> 'o \<Rightarrow> nat \<times> 'o" where
  "count_poll C want x =
     (case poll_double (lc_poll C) want 1 x of (i, x1) \<Rightarrow> poll_step_up (lc_poll C) want i (i div 2) x1)"

subsection \<open>Connections\<close>

text \<open>
  \<open>count_connects\<close>, which \<open>main\<close> has commented out. Its second array, of 65536 elements, is indexed like the
  first. Starting: a socket whose \<open>connect\<close> fails at once is left open.
\<close>

fun start_connects :: "'o limit_calls \<Rightarrow> nat \<Rightarrow> nat \<Rightarrow> 'o \<Rightarrow> (int list \<times> 'o) option" where
  "start_connects C 0 i x = Some ([], x)"
| "start_connects C (Suc k) i x = do {
     assertion (i < MAX_TEST);
     let (fd, x1) = lc_socket C x;
     if fd < 0 then Some ([], x1)
     else case lc_connect C fd (lc_nonblock C fd x1) of (err, x2) \<Rightarrow>
       if err \<noteq> None \<and> err \<noteq> Some EINPROGRESS then Some ([], x2)
       else do {
         assertion (i < 65536);
         (fds, x3) \<leftarrow> start_connects C k (i + 1) x2;
         Some (fd # fds, x3)
       }
   }"

text \<open>
  The look at the results of one \<open>poll\<close>: the array, and the numbers accepted, rejected and open. None is
  an \<open>exit(1)\<close>. A failure other than ECONNREFUSED is counted as neither and closed later.
\<close>

definition ECONNREFUSED :: errno where "ECONNREFUSED = EOTHER 111"

record tally =
  tl_nok :: nat
  tl_nrej :: nat
  tl_nopen :: nat

definition look :: "'o limit_calls \<Rightarrow> int \<Rightarrow> mask \<Rightarrow> tally \<Rightarrow> 'o \<Rightarrow> (int \<times> tally \<times> 'o) option" where
  "look C fd revents t x =
     (if fd = -1 \<or> revents = 0 then Some (fd, t, x)
      else if has revents (POLLHUP OR POLLERR) then Some (-1, t\<lparr>tl_nrej := tl_nrej t + 1, tl_nopen := tl_nopen t - 1\<rparr>, lc_close C fd x)
      else if has revents POLLOUT then
        (case lc_so_error C fd x of
           (None, x1) \<Rightarrow> None
         | (Some None, x1) \<Rightarrow> Some (-1, t\<lparr>tl_nok := tl_nok t + 1, tl_nopen := tl_nopen t - 1\<rparr>, x1)
         | (Some (Some e), x1) \<Rightarrow>
             if e = ECONNREFUSED then Some (-1, t\<lparr>tl_nrej := tl_nrej t + 1, tl_nopen := tl_nopen t - 1\<rparr>, lc_close C fd x1)
             else Some (-1, t\<lparr>tl_nopen := tl_nopen t - 1\<rparr>, x1))
      else None)"

fun look_all :: "'o limit_calls \<Rightarrow> (int \<times> mask) list \<Rightarrow> tally \<Rightarrow> 'o \<Rightarrow> (int list \<times> tally \<times> 'o) option" where
  "look_all C [] t x = Some ([], t, x)"
| "look_all C ((fd, r) # q) t x = do {
     (fd1, t1, x1) \<leftarrow> look C fd r t x;
     (fds, t2, x2) \<leftarrow> look_all C q t1 x1;
     Some (fd1 # fds, t2, x2)
   }"

partial_function (option) await_connects ::
  "'o limit_calls \<Rightarrow> int \<Rightarrow> int list \<Rightarrow> tally \<Rightarrow> 'o \<Rightarrow> (tally \<times> 'o) option" where
  "await_connects C end_time pfds t x =
     (if tl_nopen t = 0 then Some (t, x)
      else case lc_time C x of (now, x1) \<Rightarrow>
        if end_time - now < 0 then Some (t, x1)
        else case lc_poll_fds C pfds x1 of
          (None, x2) \<Rightarrow> None
        | (Some rs, x2) \<Rightarrow> do {
            assertion (length rs = length pfds);
            q \<leftarrow> look_all C (zip pfds rs) t x2;
            await_connects C end_time (fst q) (fst (snd q)) (snd (snd q))
          })"

definition count_connects :: "'o limit_calls \<Rightarrow> nat \<Rightarrow> 'o \<Rightarrow> (nat \<times> 'o) option" where
  "count_connects C want x = do {
     (fds, x1) \<leftarrow> start_connects C want 0 x;
     let (now, x2) = lc_time C x1;
     (t, x3) \<leftarrow> await_connects C (now + 6) fds \<lparr>tl_nok = 0, tl_nrej = 0, tl_nopen = length fds\<rparr> x2;
     Some (tl_nok t + tl_nrej t + tl_nopen t, close_all C fds x3)
   }"

subsection \<open>The program\<close>

text \<open>
  The arguments after the program's name: what is wanted, and the address and the port, which are checked
  and not used. \<open>inet_addr\<close> returns -1 for a bad address.
\<close>

definition dk_args :: "(char list \<Rightarrow> 32 word) \<Rightarrow> char list list \<Rightarrow> nat outcome option" where
  "dk_args inet_addr argv =
     (if length argv < 2 then Some (Exit 1)
      else do {
        want \<leftarrow> atoi (argv ! 1);
        if want < 1 \<or> want > int MAX_TEST then Some (Exit 1)
        else if inet_addr (if length argv < 3 then ''127.0.0.1'' else argv ! 2) = -1 then Some (Exit 1)
        else if length argv < 4 then Some (Go (nat want))
        else do {
          portnum \<leftarrow> atoi (argv ! 3);
          Some (if portnum \<le> 0 \<or> portnum > 65535 then Exit 1 else Go (nat want))
        }
      })"

definition dk_report :: "'o limit_calls \<Rightarrow> nat \<Rightarrow> 'o \<Rightarrow> (nat list \<times> 'o) option" where
  "dk_report C want x = do {
     (a, x1) \<leftarrow> count_socketpairs C True want x;
     (b, x2) \<leftarrow> count_socketpairs C False want x1;
     (c, x3) \<leftarrow> count_fds C want x2;
     (d, x4) \<leftarrow> count_files C want x3;
     let (e, x5) = count_poll C want x4;
     (f, x6) \<leftarrow> count_sockets C want x5;
     Some ([a, b, c, d, e, f], x6)
   }"

subsection \<open>A table of descriptors\<close>

text \<open>
  What is assumed of a system whose only limit is the number of open descriptors: opening succeeds with an
  unused descriptor while there are fewer than \<open>limit\<close>, and fails otherwise; closing frees one.
\<close>

definition limited :: "(nat \<Rightarrow> 'o \<Rightarrow> int \<times> 'o) \<Rightarrow> (int \<Rightarrow> 'o \<Rightarrow> 'o) \<Rightarrow> ('o \<Rightarrow> int set) \<Rightarrow> nat \<Rightarrow> bool" where
  "limited opn cls opens limit =
     ((\<forall>i x. finite (opens x) \<and> card (opens x) < limit \<longrightarrow>
         fst (opn i x) \<notin> opens x \<and> 0 \<le> fst (opn i x) \<and> opens (snd (opn i x)) = insert (fst (opn i x)) (opens x)) \<and>
      (\<forall>i x. limit \<le> card (opens x) \<longrightarrow> fst (opn i x) = -1 \<and> opens (snd (opn i x)) = opens x) \<and>
      (\<forall>fd x. opens (cls fd x) = opens x - {fd}))"

lemma limitedD:
  assumes l: "limited opn cls opens limit" and o: "opn i x = (fd, x1)"
  shows "finite (opens x) \<Longrightarrow> card (opens x) < limit \<Longrightarrow> fd \<notin> opens x \<and> 0 \<le> fd \<and> opens x1 = insert fd (opens x)"
    "limit \<le> card (opens x) \<Longrightarrow> fd = -1 \<and> opens x1 = opens x"
proof -
  note d = l[unfolded limited_def, THEN conjunct1, rule_format, of x i] l[unfolded limited_def, THEN conjunct2, THEN conjunct1, rule_format, of x i]
  show "finite (opens x) \<Longrightarrow> card (opens x) < limit \<Longrightarrow> fd \<notin> opens x \<and> 0 \<le> fd \<and> opens x1 = insert fd (opens x)"
    using d(1) by (simp add: o)
  show "limit \<le> card (opens x) \<Longrightarrow> fd = -1 \<and> opens x1 = opens x" using d(2) by (simp add: o)
qed

lemma limited_close: "limited opn cls opens limit \<Longrightarrow> opens (cls fd x) = opens x - {fd}"
  by (simp add: limited_def)

lemma open_loop_lemma:
  assumes l: "limited opn cls opens limit"
  shows "finite (opens x) \<Longrightarrow> card (opens x) \<le> limit \<Longrightarrow> i + k \<le> MAX_TEST \<Longrightarrow>
    \<exists>fds x'. open_loop opn k i x = Some (fds, x') \<and> length fds = min k (limit - card (opens x)) \<and>
      opens x' = opens x \<union> set fds \<and> set fds \<inter> opens x = {}"
proof (induction k arbitrary: i x)
  case (Suc k)
  obtain fd x1 where opn: "opn i x = (fd, x1)" by fastforce
  have i: "i < MAX_TEST" using Suc.prems(3) by simp
  show ?case
  proof (cases "card (opens x) < limit")
    case False
    with limitedD(2)[OF l opn] i opn show ?thesis by simp
  next
    case True
    have fd: "fd \<notin> opens x" "fd \<noteq> -1" "opens x1 = insert fd (opens x)" using limitedD(1)[OF l opn Suc.prems(1) True] by auto
    have c: "card (opens x1) = card (opens x) + 1" using fd(1,3) Suc.prems(1) by simp
    have pre: "finite (opens x1)" "card (opens x1) \<le> limit" "i + 1 + k \<le> MAX_TEST" using fd(3) c True Suc.prems(1,3) by simp_all
    obtain fds x' where ih: "open_loop opn k (i + 1) x1 = Some (fds, x')" "length fds = min k (limit - card (opens x1))"
      "opens x' = opens x1 \<union> set fds" "set fds \<inter> opens x1 = {}"
      using Suc.IH[OF pre] by blast
    have "open_loop opn (Suc k) i x = Some (fd # fds, x')" using opn i fd(2) ih(1) by simp
    moreover have "length (fd # fds) = min (Suc k) (limit - card (opens x))" using ih(2) c True by simp
    moreover have "opens x' = opens x \<union> set (fd # fds)" "set (fd # fds) \<inter> opens x = {}" using ih(3,4) fd(1,3) by auto
    ultimately show ?thesis by blast
  qed
qed simp

lemma close_all_opens:
  assumes "\<And>fd x. opens (lc_close C fd x) = opens x - {fd}"
  shows "opens (close_all C fds x) = opens x - set fds"
  unfolding close_all_def by (induction fds arbitrary: x) (auto simp: assms)

lemma close_files_opens:
  assumes "\<And>fd x. opens (lc_close C fd x) = opens x - {fd}" "\<And>i x. opens (lc_unlink C i x) = opens x"
  shows "opens (close_files C i fds x) = opens x - set fds"
  by (induction fds arbitrary: i x) (auto simp: assms)

text \<open>The two loops, for a \<open>poll\<close> that takes up to \<open>l\<close> descriptors.\<close>

lemma poll_double_lemma:
  assumes "\<And>n x. pl n x = (n \<le> l, x)"
  shows "0 < i \<Longrightarrow> i div 2 \<le> l \<and> i div 2 \<le> want \<Longrightarrow>
    \<exists>i'. poll_double pl want i x = (i', x) \<and> i' div 2 \<le> l \<and> i' div 2 \<le> want \<and> min want l < i'"
proof (induction "want + 1 - i" arbitrary: i rule: less_induct)
  case less
  show ?case
  proof (cases "i \<le> want \<and> i \<le> l")
    case True
    then have "want + 1 - i * 2 < want + 1 - i" "0 < i * 2" "i * 2 div 2 \<le> l \<and> i * 2 div 2 \<le> want" using less.prems(1) by auto
    from less.hyps[OF this] True less.prems(1) show ?thesis by (simp add: poll_double.simps[of pl want i] assms)
  next
    case False
    with less.prems show ?thesis by (auto simp: poll_double.simps[of pl want i] assms)
  qed
qed

lemma poll_step_up_lemma:
  assumes "\<And>n x. pl n x = (n \<le> l, x)"
  shows "j \<le> min i (min want (l + 1)) \<Longrightarrow> poll_step_up pl want i j x = (min i (min want (l + 1)), x)"
proof (induction "i - j" arbitrary: j rule: less_induct)
  case less
  show ?case
  proof (cases "j < min i (min want (l + 1))")
    case True
    then have "i - (j + 1) < i - j" "j + 1 \<le> min i (min want (l + 1))" by auto
    from less.hyps[OF this] True show ?thesis by (simp add: poll_step_up.simps[of pl want i j] assms)
  next
    case False
    then have "j = min i (min want (l + 1))" using less.prems by linarith
    moreover have "poll_step_up pl want i j x = (j, x)"
      using False by (auto simp: poll_step_up.simps[of pl want i j] assms)
    ultimately show ?thesis by simp
  qed
qed

subsection \<open>Properties\<close>

text \<open>
  C39. Where the only limit is the number of open descriptors, the program reports how many more can be opened,
  up to what is wanted, of descriptors and of files, and leaves none of its own open.
\<close>
theorem counts_free_descriptors:
  assumes d: "limited (\<lambda>i. lc_dup C) (lc_close C) opens limit" and f: "limited (lc_creat C) (lc_close C) opens limit"
    and u: "\<And>i x. opens (lc_unlink C i x) = opens x"
    and x: "finite (opens x)" "card (opens x) \<le> limit" and want: "want \<le> MAX_TEST"
  shows "\<exists>x1 x2. count_fds C want x = Some (min want (limit - card (opens x)), x1) \<and> opens x1 = opens x \<and>
                 count_files C want x = Some (min want (limit - card (opens x)), x2) \<and> opens x2 = opens x"
proof -
  have want': "0 + want \<le> MAX_TEST" using want by simp
  obtain fds x1 where 1: "open_loop (\<lambda>i. lc_dup C) want 0 x = Some (fds, x1)" "length fds = min want (limit - card (opens x))"
    "opens x1 = opens x \<union> set fds" "set fds \<inter> opens x = {}"
    using open_loop_lemma[OF d x want'] by blast
  obtain gds x2 where 2: "open_loop (lc_creat C) want 0 x = Some (gds, x2)" "length gds = min want (limit - card (opens x))"
    "opens x2 = opens x \<union> set gds" "set gds \<inter> opens x = {}"
    using open_loop_lemma[OF f x want'] by blast
  have "opens (close_all C fds x1) = opens x"
    using close_all_opens[of opens C fds x1] limited_close[OF d] 1(3,4) by auto
  moreover have "opens (close_files C 0 gds x2) = opens x"
    using close_files_opens[of opens C 0 gds x2] limited_close[OF d] u 2(3,4) by auto
  ultimately show ?thesis using 1(1,2) 2(1,2) by (simp add: count_fds_def count_files_def)
qed

text \<open>
  The number of descriptors \<open>poll\<close> takes is reported one too large: the second loop stops at the first
  number that fails and returns it.
\<close>
theorem count_poll_one_too_many:
  assumes "\<And>n x. lc_poll C n x = (n \<le> l, x)" "1 \<le> want"
  shows "count_poll C want x = (min want (l + 1), x)"
proof -
  obtain i where i: "poll_double (lc_poll C) want 1 x = (i, x)" "i div 2 \<le> l" "i div 2 \<le> want" "min want l < i"
    using poll_double_lemma[of "lc_poll C" l 1 want x] assms by auto
  have "i div 2 \<le> min i (min want (l + 1))" using i(2,3) by simp
  moreover have "min i (min want (l + 1)) = min want (l + 1)" using i(4) by (auto simp: min_def split: if_splits)
  ultimately show ?thesis using poll_step_up_lemma[of "lc_poll C" l "i div 2" i want x] assms(1) i(1) by (simp add: count_poll_def)
qed

text \<open>A socket that cannot be bound is never closed.\<close>
theorem unbound_socket_leaks:
  assumes s: "limited (\<lambda>i. lc_socket C) (lc_close C) opens limit"
    and b: "\<And>fd x. fst (lc_bind C fd x) = False \<and> opens (snd (lc_bind C fd x)) = opens x"
    and x: "finite (opens x)" "card (opens x) < limit" and want: "1 \<le> want"
  shows "\<exists>x'. count_sockets C want x = Some (0, x') \<and> card (opens x') = card (opens x) + 1"
proof -
  obtain fd x1 where o1: "lc_socket C x = (fd, x1)" by fastforce
  have fd: "fd \<notin> opens x" "0 \<le> fd" "opens x1 = insert fd (opens x)" using limitedD(1)[OF s o1 x] by auto
  obtain x2 where o2: "lc_bind C fd x1 = (False, x2)" "opens x2 = opens x1" using b[of fd x1] by (cases "lc_bind C fd x1") auto
  obtain k where "want = Suc k" using want by (cases want) auto
  then have "count_sockets C want x = Some (0, x2)" using o1 o2(1) fd(2) by (simp add: count_sockets_def MAX_TEST_def close_all_def)
  with o2(2) fd(1,3) x(1) show ?thesis by simp
qed

text \<open>A table of descriptors for the witnesses: the lowest free one is taken, up to \<open>limit\<close> of them.\<close>

definition lowest :: "int set \<Rightarrow> int" where
  "lowest s = (if finite s then Max (insert (-1) s) + 1 else -1)"

definition take_fd :: "nat \<Rightarrow> int set \<Rightarrow> int \<times> int set" where
  "take_fd limit s = (if card s < limit then (lowest s, insert (lowest s) s) else (-1, s))"

definition calls0 :: "int set limit_calls" where
  "calls0 = \<lparr>lc_dup = take_fd 8, lc_creat = (\<lambda>i. take_fd 8), lc_unlink = (\<lambda>i x. x), lc_socket = take_fd 8,
     lc_bind = (\<lambda>fd x. (False, x)), lc_socketpair = (\<lambda>fam x. (None, x)), lc_close = (\<lambda>fd x. x - {fd}), lc_poll = (\<lambda>n x. (n \<le> 5, x)),
     lc_nonblock = (\<lambda>fd x. x), lc_connect = (\<lambda>fd x. (Some EACCES, x)), lc_poll_fds = (\<lambda>fds x. (None, x)),
     lc_so_error = (\<lambda>fd x. (None, x)), lc_time = (\<lambda>x. (0, x))\<rparr>"

lemma limited0: "limited (\<lambda>i. take_fd 8) (\<lambda>fd x. x - {fd}) (\<lambda>x. x) 8"
proof -
  have "lowest s \<notin> s \<and> 0 \<le> lowest s" if "finite s" for s
  proof -
    have "a < lowest s" if "a \<in> insert (-1) s" for a
      using \<open>finite s\<close> that Max_ge[of "insert (-1) s" a] by (simp add: lowest_def)
    then have "-1 < lowest s" "lowest s \<notin> s" by blast+
    then show ?thesis by simp
  qed
  then show ?thesis by (simp add: limited_def take_fd_def)
qed

theorem counts_free_descriptors_witness:
  "\<exists>x1 x2. count_fds calls0 100 {0, 1, 2} = Some (5, x1) \<and> count_files calls0 4 {0, 1, 2} = Some (4, x2)"
proof -
  have l: "limited (\<lambda>i. lc_dup calls0) (lc_close calls0) (\<lambda>x. x) 8" "limited (lc_creat calls0) (lc_close calls0) (\<lambda>x. x) 8"
    "\<And>i x. (\<lambda>x. x) (lc_unlink calls0 i x) = x"
    using limited0 by (simp_all add: calls0_def)
  note c = counts_free_descriptors[where C = calls0 and opens = "\<lambda>x. x" and limit = 8 and x = "{0, 1, 2}", OF l]
  show ?thesis using c[of 100] c[of 4] by (auto simp: MAX_TEST_def)
qed

theorem count_poll_one_too_many_witness: "fst (count_poll calls0 100 {}) = 6"
  using count_poll_one_too_many[of calls0 5 100 "{}"] by (simp add: calls0_def)

theorem unbound_socket_leaks_witness: "\<exists>x'. count_sockets calls0 10 {0, 1, 2} = Some (0, x') \<and> card x' = 4"
proof -
  have l: "limited (\<lambda>i. lc_socket calls0) (lc_close calls0) (\<lambda>x. x) 8" using limited0 by (simp add: calls0_def)
  have b: "fst (lc_bind calls0 fd x) = False \<and> snd (lc_bind calls0 fd x) = x" for fd x by (simp add: calls0_def)
  from unbound_socket_leaks[OF l b, of "{0, 1, 2}" 10] show ?thesis by (simp add: numeral_eq_Suc)
qed

end
