(* ===== verification/Poller_bench.thy ===== *)
theory Poller_bench
  imports Bench Poller_select
begin

unbundle bit_operations_syntax

text \<open>
  The program Poller\_bench.cc, which measures a back end of the poller: its arguments, the choice of the
  active descriptors, the handler that reads them, and the class that decides how many iterations to run
  when it is not known how long one takes. The clock, the poller and the sockets are calls on an environment
  \<open>'e\<close>. \<open>DIE\<close> exits with status 1, as a failed \<open>CHECK\<close> does.
\<close>

subsection \<open>Controlling the iterations\<close>

record 't iter_rec =
  ic_ticksPerBlock :: int
  ic_iterationsPerBlock :: int
  ic_iterationsLeft :: int
  ic_desiredTicksPerBlock :: int
  ic_start :: 't

type_synonym 'w iter = "'w clock iter_rec"

definition ic_init :: "int \<Rightarrow> 'w::len clock \<Rightarrow> 'w iter option" where
  "ic_init desiredRuntimeSeconds now = do {
     assertion (is_int (eclock_HERTZ * desiredRuntimeSeconds));
     Some \<lparr>ic_ticksPerBlock = 0, ic_iterationsPerBlock = 1, ic_iterationsLeft = 1,
           ic_desiredTicksPerBlock = eclock_HERTZ * desiredRuntimeSeconds, ic_start = now\<rparr>
   }"

text \<open>\<open>anotherIterationNeeded\<close>: the clock is read at the end of a block only. Products and sums are \<open>int\<close>s.\<close>

definition ic_another :: "('e \<Rightarrow> 'w::len clock \<times> 'e) \<Rightarrow> 'w iter \<Rightarrow> 'e \<Rightarrow> (bool \<times> 'w iter \<times> 'e) option" where
  "ic_another clk c e =
     (let left = ic_iterationsLeft c - 1 in
      if left > 0 then Some (True, c\<lparr>ic_iterationsLeft := left\<rparr>, e)
      else case clk e of (now, e1) \<Rightarrow>
        let ticks = sint (scast (now - ic_start c) :: 32 word) in
        if ticks < ic_desiredTicksPerBlock c then do {
          let more = (if ticks < cdiv (ic_desiredTicksPerBlock c) 16 then ic_iterationsPerBlock c * 15 else ic_iterationsPerBlock c);
          assertion (is_int more \<and> is_int (ic_iterationsPerBlock c + more));
          Some (True, c\<lparr>ic_ticksPerBlock := ticks, ic_iterationsLeft := more,
                        ic_iterationsPerBlock := ic_iterationsPerBlock c + more\<rparr>, e1)
        }
        else Some (False, c\<lparr>ic_ticksPerBlock := ticks, ic_iterationsLeft := left\<rparr>, e1))"

text \<open>Seconds per iteration.\<close>

definition ic_result :: "'w::len iter \<Rightarrow> rat" where
  "ic_result c = of_int (ic_ticksPerBlock c) / (of_int (ic_iterationsPerBlock c) * of_int eclock_HERTZ)"

text \<open>\<open>do { body } while (ic.anotherIterationNeeded())\<close>\<close>

partial_function (option) iterate ::
  "('e \<Rightarrow> 'e outcome option) \<Rightarrow> ('e \<Rightarrow> 'w::len clock \<times> 'e) \<Rightarrow> 'w iter \<Rightarrow> 'e \<Rightarrow> ('w iter \<times> 'e) outcome option" where
  "iterate body clk c e = andthen (body e) (\<lambda>e1. do {
     q \<leftarrow> ic_another clk c e1;
     if fst q then iterate body clk (fst (snd q)) (snd (snd q)) else Some (Go (snd q))
   })"

subsection \<open>The benchmark of a back end\<close>

record 'e bench_calls =
  bc_init :: "'e \<Rightarrow> rc \<times> 'e"
  bc_setSignum :: "'e \<Rightarrow> rc \<times> 'e"
  bc_add :: "int \<Rightarrow> 'e \<Rightarrow> rc \<times> 'e"
  bc_dispatch :: "'e \<Rightarrow> (rc \<times> 'e) option"
  bc_clear :: "int \<Rightarrow> mask \<Rightarrow> 'e \<Rightarrow> 'e"
  bc_read :: "int \<Rightarrow> 'e \<Rightarrow> (errno + char list) \<times> 'e"
  bc_write :: "int \<Rightarrow> 'e \<Rightarrow> int \<times> 'e"

text \<open>
  The handler: a read of one byte that finds none is not an error, another failed one is. At the end of
  the file \<open>errno\<close> has its old value.
\<close>

definition bench_notify :: "'e bench_calls \<Rightarrow> errno \<Rightarrow> int \<Rightarrow> mask \<Rightarrow> 'e \<Rightarrow> 'e outcome option" where
  "bench_notify B old_errno fd revents e = do {
     assertion (has revents POLLIN);
     case bc_read B fd e of (r, e1) \<Rightarrow>
       (case r of
          Inl err \<Rightarrow> Some (if err \<noteq> EWOULDBLOCK then Exit 1 else Go (bc_clear B fd POLLIN e1))
        | Inr bs \<Rightarrow> Some (if length bs \<noteq> 1 \<and> old_errno \<noteq> EWOULDBLOCK then Exit 1 else Go (bc_clear B fd POLLIN e1)))
   }"

fun add_all :: "'e bench_calls \<Rightarrow> (int \<times> int) list \<Rightarrow> nat \<Rightarrow> 'e \<Rightarrow> 'e outcome option" where
  "add_all B fdpairs 0 e = Some (Go e)"
| "add_all B fdpairs (Suc n) e = andthen (add_all B fdpairs n e) (\<lambda>e1. do {
     p \<leftarrow> rd fdpairs n;
     let (r, e2) = bc_add B (fst p) e1;
     Some (if r \<noteq> OK then Exit 1 else Go e2)
   })"

text \<open>One byte to each active descriptor; \<open>ks\<close> are the values of \<open>k\<close> left.\<close>

fun write_active :: "'e bench_calls \<Rightarrow> (int \<times> int) list \<Rightarrow> nat \<Rightarrow> nat \<Rightarrow> nat list \<Rightarrow> 'e \<Rightarrow> 'e outcome option" where
  "write_active B fdpairs half spacing [] e = Some (Go e)"
| "write_active B fdpairs half spacing (k # ks) e = do {
     p \<leftarrow> rd fdpairs (half + k * spacing);
     let (n, e1) = bc_write B (snd p) e;
     if n \<noteq> 1 then Some (Exit 1) else write_active B fdpairs half spacing ks e1
   }"

definition bench_body :: "'e bench_calls \<Rightarrow> (int \<times> int) list \<Rightarrow> nat \<Rightarrow> nat \<Rightarrow> nat \<Rightarrow> 'e \<Rightarrow> 'e outcome option" where
  "bench_body B fdpairs half spacing num_active e =
     andthen (write_active B fdpairs half spacing [0..<num_active] e) (\<lambda>e1. do {
       (r, e2) \<leftarrow> bc_dispatch B e1;
       Some (if r \<noteq> OK then Exit 1 else Go e2)
     })"

text \<open>\<open>bench\<close>, without the kernel's profile; the result is in seconds.\<close>

definition bench_backend ::
  "'e bench_calls \<Rightarrow> ('e \<Rightarrow> 'w::len clock \<times> 'e) \<Rightarrow> (int \<times> int) list \<Rightarrow> nat \<Rightarrow> nat \<Rightarrow> int \<Rightarrow> 'e \<Rightarrow> ('w iter \<times> 'e) outcome option" where
  "bench_backend B clk fdpairs num_pipes num_active seconds e =
     (case bc_init B e of (r, e1) \<Rightarrow>
      if r \<noteq> OK then Some (Exit 1)
      else case bc_setSignum B e1 of (r2, e2) \<Rightarrow>
      if r2 \<noteq> OK then Some (Exit 1)
      else andthen (add_all B fdpairs num_pipes e2) (\<lambda>e3. do {
        assertion (num_active \<noteq> 0);
        let spacing = num_pipes div num_active;
        let half = spacing div 2;
        if \<not> (spacing \<ge> 1) \<or> \<not> (spacing * (num_active - 1) + half < num_pipes) then Some (Exit 1)
        else do {
          let (now, e4) = clk e3;
          c \<leftarrow> ic_init seconds now;
          iterate (bench_body B fdpairs half spacing num_active) clk c e4
        }
      }))"

subsection \<open>The arguments\<close>

text \<open>The numbers of pipes, in an array of 128 elements with a 0 behind the last.\<close>

fun parse_pipes :: "int \<Rightarrow> nat \<Rightarrow> char list list \<Rightarrow> nat list outcome option" where
  "parse_pipes num_active i [] = do { assertion (i < 128); Some (Go []) }"
| "parse_pipes num_active i (s # ss) = do {
     p \<leftarrow> atoi s;
     assertion (i < 128);
     if p < 1 \<or> num_active > p then Some (Exit 1)
     else andthen (parse_pipes num_active (i + 1) ss) (\<lambda>ps. Some (Go (nat p # ps)))
   }"

definition pb_args :: "char list list \<Rightarrow> (int \<times> nat \<times> char list \<times> nat list) outcome option" where
  "pb_args argv =
     (if length argv < 5 then Some (Exit 1)
      else do {
        runtime \<leftarrow> atoi (argv ! 1);
        if runtime < 1 then Some (Exit 1)
        else do {
          num_active \<leftarrow> atoi (argv ! 2);
          if num_active < 1 then Some (Exit 1)
          else andthen (parse_pipes num_active 0 (drop 4 argv)) (\<lambda>np. Some (Go (runtime, nat num_active, argv ! 3, np)))
        }
      })"

subsection \<open>The socket pairs\<close>

record 'e pair_calls =
  pr_socketpair :: "'e \<Rightarrow> (int \<times> int) option \<times> 'e"
  pr_getfl :: "int \<Rightarrow> 'e \<Rightarrow> 32 word \<times> 'e"
  pr_setfl :: "int \<Rightarrow> 32 word \<Rightarrow> 'e \<Rightarrow> int \<times> 'e"
  pr_close :: "int \<Rightarrow> 'e \<Rightarrow> int \<times> 'e"

definition pair_nonblocking :: "'e pair_calls \<Rightarrow> int \<Rightarrow> 'e \<Rightarrow> int \<times> 'e" where
  "pair_nonblocking R fd e =
     (case pr_getfl R fd e of (flags, e1) \<Rightarrow> pr_setfl R fd ((if flags = -1 then 0 else flags) OR O_NONBLOCK) e1)"

definition open_pair :: "'e pair_calls \<Rightarrow> 'e \<Rightarrow> ((int \<times> int) \<times> 'e) outcome" where
  "open_pair R e =
     (case pr_socketpair R e of
        (None, e1) \<Rightarrow> Exit 1
      | (Some p, e1) \<Rightarrow>
          if fst p < 0 \<or> snd p < 0 then Exit 1
          else (case pair_nonblocking R (fst p) e1 of (r, e2) \<Rightarrow>
            if r \<noteq> 0 then Exit 1
            else (case pair_nonblocking R (snd p) e2 of (r2, e3) \<Rightarrow> if r2 \<noteq> 0 then Exit 1 else Go (p, e3))))"

fun make_pairs :: "'e pair_calls \<Rightarrow> nat \<Rightarrow> 'e \<Rightarrow> ((int \<times> int) list \<times> 'e) outcome option" where
  "make_pairs R 0 e = Some (Go ([], e))"
| "make_pairs R (Suc n) e =
     andthen (Some (open_pair R e)) (\<lambda>(p, e1). andthen (make_pairs R n e1) (\<lambda>(ps, e2). Some (Go (p # ps, e2))))"

fun close_pairs :: "'e pair_calls \<Rightarrow> (int \<times> int) list \<Rightarrow> 'e \<Rightarrow> 'e outcome" where
  "close_pairs R [] e = Go e"
| "close_pairs R (p # ps) e =
     (case pr_close R (fst p) e of (r, e1) \<Rightarrow>
      if r \<noteq> 0 then Exit 1
      else (case pr_close R (snd p) e1 of (r2, e2) \<Rightarrow> if r2 \<noteq> 0 then Exit 1 else close_pairs R ps e2))"

subsection \<open>The table\<close>

text \<open>
  The row of a method: a number of microseconds for each number of pipes, None for a dash. \<open>select\<close> takes
  no more than \<open>FD_SETSIZE\<close> descriptors, and in the cases of kqueue and of the realtime signals a \<open>break\<close>
  leaves the loop after the first. The result is the exact quotient; the rounding of \<open>double\<close> is not modelled.
\<close>

definition usecs :: "'w::len iter \<Rightarrow> int" where
  "usecs c = \<lfloor>ic_result c * 1000000\<rfloor>"

fun bench_row :: "(nat \<Rightarrow> 'e \<Rightarrow> ('w::len iter \<times> 'e) outcome option) \<Rightarrow> char \<Rightarrow> nat list \<Rightarrow> 'e \<Rightarrow> (int option list \<times> 'e) outcome option" where
  "bench_row run m [] e = Some (Go ([], e))"
| "bench_row run m (n # ns) e =
     (if m = CHR ''s'' \<and> \<not> n * 2 < FD_SETSIZE
      then andthen (bench_row run m ns e) (\<lambda>(rs, e1). Some (Go (None # rs, e1)))
      else andthen (run n e) (\<lambda>(c, e1).
        if m = CHR ''k'' \<or> m = CHR ''r'' then Some (Go ([Some (usecs c)], e1))
        else andthen (bench_row run m ns e1) (\<lambda>(rs, e2). Some (Go (Some (usecs c) # rs, e2)))))"

definition supported :: "build \<Rightarrow> char \<Rightarrow> bool" where
  "supported cf m =
     (m = CHR ''p'' \<or> m = CHR ''s'' \<or> m = CHR ''d'' \<and> HAVE_DEVPOLL cf \<or> m = CHR ''k'' \<and> HAVE_KQUEUE cf \<or>
      m = CHR ''r'' \<and> HAVE_F_SETSIG cf)"

fun bench_rows :: "build \<Rightarrow> (char \<Rightarrow> nat \<Rightarrow> 'e \<Rightarrow> ('w::len iter \<times> 'e) outcome option) \<Rightarrow> nat list \<Rightarrow> char list \<Rightarrow> 'e \<Rightarrow>
    (int option list list \<times> 'e) outcome option" where
  "bench_rows cf run np [] e = Some (Go ([], e))"
| "bench_rows cf run np (m # ms) e =
     (if supported cf m
      then andthen (bench_row (run m) m np e) (\<lambda>(row, e1).
             andthen (bench_rows cf run np ms e1) (\<lambda>(rows, e2). Some (Go (row # rows, e2))))
      else bench_rows cf run np ms e)"

text \<open>
  \<open>main\<close>: \<open>B m\<close> are the calls of a new poller of the method \<open>m\<close>. The array \<open>fdpairs\<close> has as many elements as
  the largest number of pipes, and the divisor of the times printed is an \<open>int\<close>.
\<close>

definition pb_main ::
  "build \<Rightarrow> 'e pair_calls \<Rightarrow> (char \<Rightarrow> 'e bench_calls) \<Rightarrow> ('e \<Rightarrow> 'w::len clock \<times> 'e) \<Rightarrow> char list list \<Rightarrow> 'e \<Rightarrow>
   (int option list list \<times> 'e) outcome option" where
  "pb_main cf R B clk argv e =
     andthen (pb_args argv) (\<lambda>(runtime, num_active, methods, np). do {
       let maxpipes = Max (set np);
       let (start, e1) = clk e;
       andthen (make_pairs R maxpipes e1) (\<lambda>(fdpairs, e2). do {
         let (stop, e3) = clk e2;
         assertion (is_int (eclock_HERTZ * int maxpipes));
         andthen (bench_rows cf (\<lambda>m n. bench_backend (B m) clk fdpairs n num_active runtime) np methods e3) (\<lambda>(rows, e4).
           case clk e4 of (start2, e5) \<Rightarrow>
             andthen (Some (close_pairs R fdpairs e5)) (\<lambda>e6. Some (Go (rows, snd (clk e6)))))
       })
     })"

text \<open>The numbers of pipes that a method is really run on.\<close>

definition measured :: "char \<Rightarrow> nat list \<Rightarrow> nat list" where
  "measured method np =
     (if method = CHR ''s'' then filter (\<lambda>n. n * 2 < FD_SETSIZE) np
      else if method = CHR ''k'' \<or> method = CHR ''r'' then take 1 np
      else np)"

subsection \<open>Lemmas\<close>

text \<open>The iterations done and those left make up the block; every one but the last reading is too early.\<close>

definition counted :: "('e \<Rightarrow> nat) \<Rightarrow> 'w::len iter \<Rightarrow> 'e \<Rightarrow> bool" where
  "counted cnt c e = (1 \<le> ic_iterationsLeft c \<and> int (cnt e) + ic_iterationsLeft c = ic_iterationsPerBlock c)"

lemma ic_another_end:
  assumes "ic_iterationsLeft c = 1" "ic_desiredTicksPerBlock c \<le> sint (scast (fst (clk e) - ic_start c) :: 32 word)"
  shows "\<exists>c'. ic_another clk c e = Some (False, c', snd (clk e)) \<and> ic_iterationsPerBlock c' = ic_iterationsPerBlock c \<and>
           ic_ticksPerBlock c' = sint (scast (fst (clk e) - ic_start c) :: 32 word)"
  using assms by (simp add: ic_another_def Let_def split_beta)

lemma ic_another_more:
  assumes "ic_iterationsLeft c = 1" "sint (scast (fst (clk e) - ic_start c) :: 32 word) < ic_desiredTicksPerBlock c"
    and "1 \<le> ic_iterationsPerBlock c" "16 * ic_iterationsPerBlock c < 2 ^ 31"
  shows "\<exists>c'. ic_another clk c e = Some (True, c', snd (clk e)) \<and> ic_start c' = ic_start c \<and>
           ic_desiredTicksPerBlock c' = ic_desiredTicksPerBlock c \<and> 1 \<le> ic_iterationsLeft c' \<and>
           ic_iterationsPerBlock c' = ic_iterationsPerBlock c + ic_iterationsLeft c' \<and> ic_iterationsPerBlock c' \<le> 16 * ic_iterationsPerBlock c"
  using assms by (auto simp: ic_another_def Let_def split_beta is_int_def)

text \<open>A body that counts itself, and a clock that comes to the time asked for.\<close>

lemma iterate_ends:
  assumes clk: "\<And>e. cnt (snd (clk e)) = cnt e" and body: "\<And>e. \<exists>e1. body e = Some (Go e1) \<and> cnt e1 = cnt e + 1"
    and elapsed: "\<And>e. N \<le> cnt e \<Longrightarrow> D \<le> sint (scast (fst (clk e) - now) :: 32 word)" and N: "16 * N < 2 ^ 31"
    and c: "counted cnt c e" "ic_desiredTicksPerBlock c = D" "ic_start c = now" "ic_iterationsPerBlock c \<le> int (16 * N)"
  shows "\<exists>c' e' e1. iterate body clk c e = Some (Go (c', e')) \<and> ic_iterationsPerBlock c' = int (cnt e') \<and> cnt e' \<le> 16 * N \<and>
           D \<le> ic_ticksPerBlock c' \<and> ic_ticksPerBlock c' = sint (scast (fst (clk e1) - now) :: 32 word)"
  using c
proof (induction "16 * N - cnt e" arbitrary: c e rule: less_induct)
  case less
  obtain e1 where e1: "body e = Some (Go e1)" "cnt e1 = cnt e + 1" using body by blast
  have cnt: "1 \<le> ic_iterationsLeft c" "int (cnt e) + ic_iterationsLeft c = ic_iterationsPerBlock c" using less(2) by (simp_all add: counted_def)
  have small: "16 * N - cnt e1 < 16 * N - cnt e" using cnt less(5) e1(2) by linarith
  let ?t = "sint (scast (fst (clk e1) - now) :: 32 word)"
  show ?case
  proof (cases "ic_iterationsLeft c = 1")
    case False
    then have "ic_another clk c e1 = Some (True, c\<lparr>ic_iterationsLeft := ic_iterationsLeft c - 1\<rparr>, e1)" using cnt(1) by (simp add: ic_another_def)
    then have it: "iterate body clk c e = iterate body clk (c\<lparr>ic_iterationsLeft := ic_iterationsLeft c - 1\<rparr>) e1"
      using e1(1) by (subst iterate.simps) simp
    have "counted cnt (c\<lparr>ic_iterationsLeft := ic_iterationsLeft c - 1\<rparr>) e1" using cnt False e1(2) by (simp add: counted_def)
    from less(1)[OF small this] less(3-5) show ?thesis unfolding it by simp
  next
    case True
    show ?thesis
    proof (cases "D \<le> ?t")
      case end_time: True
      with ic_another_end[OF True, of clk e1] less(3,4) obtain c' where
        "ic_another clk c e1 = Some (False, c', snd (clk e1))" "ic_iterationsPerBlock c' = ic_iterationsPerBlock c" "ic_ticksPerBlock c' = ?t" by auto
      then have "iterate body clk c e = Some (Go (c', snd (clk e1)))" "ic_iterationsPerBlock c' = int (cnt (snd (clk e1)))"
        "cnt (snd (clk e1)) \<le> 16 * N" "D \<le> ic_ticksPerBlock c'" "ic_ticksPerBlock c' = ?t"
        using e1 cnt True clk less(5) end_time by (subst iterate.simps, simp_all)
      then show ?thesis by blast
    next
      case early: False
      then have few: "cnt e1 < N" using elapsed[of e1] by linarith
      have "int N * 16 < 2147483648" using N by simp
      then have "1 \<le> ic_iterationsPerBlock c" "16 * ic_iterationsPerBlock c < 2147483648" using cnt True few e1(2) by linarith+
      then have "1 \<le> ic_iterationsPerBlock c" "16 * ic_iterationsPerBlock c < 2 ^ 31" by simp_all
      with ic_another_more[OF True, of clk e1] early less(3,4) obtain c1 where c1:
        "ic_another clk c e1 = Some (True, c1, snd (clk e1))" "ic_start c1 = now" "ic_desiredTicksPerBlock c1 = D" "1 \<le> ic_iterationsLeft c1"
        "ic_iterationsPerBlock c1 = ic_iterationsPerBlock c + ic_iterationsLeft c1" "ic_iterationsPerBlock c1 \<le> 16 * ic_iterationsPerBlock c" by auto
      have it: "iterate body clk c e = iterate body clk c1 (snd (clk e1))" using e1(1) c1(1) by (subst iterate.simps) simp
      have "counted cnt c1 (snd (clk e1))" using cnt True e1(2) c1(4,5) by (simp add: counted_def clk)
      moreover have "ic_iterationsPerBlock c1 \<le> int (16 * N)" using c1(6) cnt True few e1(2) by linarith
      moreover have "16 * N - cnt (snd (clk e1)) < 16 * N - cnt e" using small by (simp add: clk)
      ultimately show ?thesis using less(1)[of "snd (clk e1)" c1] c1(2,3) unfolding it by blast
    qed
  qed
qed

lemma parse_pipes_Go:
  "parse_pipes na i ss = Some (Go np) \<Longrightarrow> \<forall>n \<in> set np. 1 \<le> n \<and> na \<le> int n"
  by (induction ss arbitrary: i np) (auto simp: bind_eq_Some_conv andthen_Go split: if_splits)

lemma spacing_fits:
  assumes "1 \<le> na" "na \<le> n"
  shows "1 \<le> n div na" "k < na \<Longrightarrow> n div na div 2 + k * (n div na) < (n :: nat)"
proof -
  show one: "1 \<le> n div na" using assms by (simp add: div_greater_zero_iff Suc_le_eq)
  show "n div na div 2 + k * (n div na) < n" if "k < na"
  proof -
    let ?s = "n div na"
    have "?s div 2 < ?s" using one by simp
    then have "?s div 2 + k * ?s < ?s + k * ?s" by simp
    also have "\<dots> = (k + 1) * ?s" by (simp add: algebra_simps)
    also have "\<dots> \<le> na * ?s" using that by (intro mult_right_mono) auto
    also have "\<dots> \<le> n" by (simp add: mult.commute)
    finally show ?thesis .
  qed
qed

lemma write_active_total:
  "\<forall>k \<in> set ks. half + k * spacing < length fdpairs \<Longrightarrow> write_active B fdpairs half spacing ks e \<noteq> None"
  by (induction ks arbitrary: e) (auto split: prod.splits)

lemma make_pairs_length: "make_pairs R n e = Some (Go (ps, e')) \<Longrightarrow> length ps = n"
  by (induction n arbitrary: e ps e') (auto simp: andthen_Go split: outcome.splits)

lemma bench_row_measured:
  "bench_row run m np e = Some (Go (row, e')) \<Longrightarrow> length (filter (\<lambda>r. r \<noteq> None) row) = length (measured m np)"
  by (induction np arbitrary: e row) (fastforce simp: measured_def andthen_Go split: if_splits)+

lemma bench_rows_measured:
  "bench_rows cf run np ms e = Some (Go (rows, e')) \<Longrightarrow>
   map (\<lambda>row. length (filter (\<lambda>r. r \<noteq> None) row)) rows = map (\<lambda>m. length (measured m np)) (filter (supported cf) ms)"
  by (induction ms arbitrary: e rows) (auto simp: andthen_Go dest!: bench_row_measured split: if_splits)

subsection \<open>Properties\<close>

text \<open>
  C38. A benchmark whose body does not fail ends, if the clock shows the time asked for after \<open>N\<close> iterations at the
  latest, within 16 times as many, and it measured what it reports: the divisor is the number of iterations
  really run, the time is that of the clock at the end since the start, and it is at least the time asked for.
\<close>
theorem reports_the_average:
  assumes start: "ic_init seconds now = Some c" "cnt e = 0"
    and clk: "\<And>e. cnt (snd (clk e)) = cnt e" and body: "\<And>e. \<exists>e1. body e = Some (Go e1) \<and> cnt e1 = cnt e + 1"
    and elapsed: "\<And>e. N \<le> cnt e \<Longrightarrow> eclock_HERTZ * seconds \<le> sint (scast (fst (clk e) - now) :: 32 word)"
    and N: "1 \<le> N" "16 * N < 2 ^ 31"
  shows "\<exists>c' e' e1. iterate body clk c e = Some (Go (c', e')) \<and> cnt e' \<le> 16 * N \<and>
           (let ticks = sint (scast (fst (clk e1) - now) :: 32 word) in
            ic_result c' = of_int ticks / (of_nat (cnt e') * of_int eclock_HERTZ) \<and> eclock_HERTZ * seconds \<le> ticks)"
proof -
  have c: "counted cnt c e" "ic_desiredTicksPerBlock c = eclock_HERTZ * seconds" "ic_start c = now" "ic_iterationsPerBlock c \<le> int (16 * N)"
    using start N(1) by (auto simp: ic_init_def counted_def bind_eq_Some_conv)
  obtain c' e' e1 where r: "iterate body clk c e = Some (Go (c', e'))" "ic_iterationsPerBlock c' = int (cnt e')" "cnt e' \<le> 16 * N"
    "eclock_HERTZ * seconds \<le> ic_ticksPerBlock c'" "ic_ticksPerBlock c' = sint (scast (fst (clk e1) - now) :: 32 word)"
    using iterate_ends[where cnt = cnt and clk = clk and body = body, OF clk body elapsed N(2) c] by blast
  show ?thesis using r(1,3,4) unfolding r(5)
    by (intro exI[of _ c'] exI[of _ e'] exI[of _ e1]) (simp only: ic_result_def Let_def r(2,5) of_int_of_nat_eq simp_thms)
qed

text \<open>
  With arguments that pass the checks of \<open>main\<close>, both checks of the benchmark hold for every number of
  pipes, and the active descriptors are inside the array of the socket pairs.
\<close>
theorem active_descriptors_in_bounds:
  assumes "pb_args argv = Some (Go (runtime, na, methods, np))" "n \<in> set np"
    and "make_pairs R (Max (set np)) e0 = Some (Go (fdpairs, e1))"
  shows "1 \<le> n div na \<and> n div na * (na - 1) + n div na div 2 < n \<and>
         write_active B fdpairs (n div na div 2) (n div na) [0..<na] e \<noteq> None"
proof -
  have "\<exists>a. 1 \<le> a \<and> na = nat a \<and> parse_pipes a 0 (drop 4 argv) = Some (Go np)"
    using assms(1) by (auto simp: pb_args_def bind_eq_Some_conv andthen_Go split: if_splits intro!: exI[of _ "the (atoi (argv ! 2))"])
  then obtain a where a: "1 \<le> a" "na = nat a" "parse_pipes a 0 (drop 4 argv) = Some (Go np)" by blast
  then have na: "1 \<le> na" "na \<le> n" using parse_pipes_Go[OF a(3)] assms(2) by auto
  note s = spacing_fits[OF na]
  have len: "n \<le> length fdpairs" using assms(2) make_pairs_length[OF assms(3)] by simp
  have "n div na * (na - 1) + n div na div 2 < n" using s(2)[of "na - 1"] na(1) by (simp add: algebra_simps)
  moreover have "write_active B fdpairs (n div na div 2) (n div na) [0..<na] e \<noteq> None"
    using less_le_trans[OF s(2) len] by (intro write_active_total) simp
  ultimately show ?thesis using s(1) by blast
qed

theorem reports_the_average_witness:
  "\<exists>c' e'. iterate (\<lambda>e :: nat. Some (Go (e + 1))) (\<lambda>e. (if e = 0 then 0 else 20000 :: 64 clock, e)) (the (ic_init 1 0)) 0 = Some (Go (c', e')) \<and>
     e' \<le> 16"
proof -
  let ?clk = "\<lambda>e :: nat. (if e = 0 then 0 else 20000 :: 64 clock, e)"
  have c: "ic_init 1 (0 :: 64 clock) = Some (the (ic_init 1 0))" by (simp add: ic_init_def is_int_def eclock_HERTZ_def)
  have "eclock_HERTZ * 1 \<le> sint (scast (fst (?clk e) - 0) :: 32 word)" if "1 \<le> e" for e using that by (simp add: eclock_HERTZ_def)
  then show ?thesis
    using reports_the_average[where cnt = "\<lambda>e. e" and body = "\<lambda>e. Some (Go (e + 1))" and e = 0 and clk = ?clk and N = 1, OF c] by force
qed

theorem active_descriptors_in_bounds_witness:
  "write_active B (replicate 10 (3, 4)) 2 5 [0..<2] (e :: 'e) \<noteq> None"
proof -
  have n: "is_int 10" "is_int 2" "is_int 1" by (simp_all add: is_int_def)
  have a: "atoi ''10'' = Some 10" "atoi ''2'' = Some 2" "atoi ''1'' = Some 1"
    using atoi_sdec[OF n(1)] atoi_sdec[OF n(2)] atoi_sdec[OF n(3)]
    by (simp_all add: sdec_def dec.simps digit_char_def digit_chars_def)
  have "pb_args [''Poller_bench'', ''1'', ''2'', ''p'', ''10''] = Some (Go (1, 2, ''p'', [10]))"
    by (simp add: pb_args_def a)
  moreover have "make_pairs \<lparr>pr_socketpair = \<lambda>e. (Some (3, 4), e), pr_getfl = \<lambda>fd e. (0, e), pr_setfl = \<lambda>fd f e. (0, e),
      pr_close = \<lambda>fd e. (0, e)\<rparr> n e = Some (Go (replicate n (3, 4), e))" for n and e :: 'e
    by (induction n) (simp_all add: open_pair_def pair_nonblocking_def)
  then have "make_pairs \<lparr>pr_socketpair = \<lambda>e. (Some (3, 4), e), pr_getfl = \<lambda>fd e. (0, e), pr_setfl = \<lambda>fd f e. (0, e),
      pr_close = \<lambda>fd e. (0, e)\<rparr> (Max (set [10])) e = Some (Go (replicate 10 (3, 4), e))" by simp
  ultimately show ?thesis using active_descriptors_in_bounds[where n = 10 and np = "[10]" and B = B and e = e] by fastforce
qed

end
