(* ===== verification/Profile.thy ===== *)
theory Profile
  imports Cstring "HOL-Library.Multiset"
begin

text \<open>
  The kernel profile reader profile.c. A profile is a file of 32-bit words: the step, and then one counter
  for each \<open>step\<close> bytes of the kernel's code; the file System.map names the kernel's symbols by their
  addresses. The program adds up the counters of each symbol and prints them sorted.

  The profile is the list of its words, System.map the list of its characters. \<open>read\<close> and \<open>lseek\<close> are
  those of a regular file, and \<open>malloc\<close> does not fail. \<open>'l\<close> is \<open>unsigned long\<close>; \<open>long long\<close> has 64 bits. An
  array of variable length may have length 0, as in GNU C, in which the loop depends on it.
\<close>

subsection \<open>The histogram\<close>

record 't entry_rec =
  en_time :: int
  en_address :: 't
  en_type :: char
  en_name :: "char list"

type_synonym 'l entry = "'l word entry_rec"

text \<open>What the program writes, to both of its streams; a line is given by the values it prints.\<close>

datatype 't pline =
    PStep int "char list"
  | PNoHits "char list"
  | PFine "char list" int
  | PCell int int int int
  | PEntry int int int 't "char list"
  | PConflict char "char list"
  | PTotal int
  | PSum int
  | PWarnType
  | PWarnEtext
  | PWarnSymbol "char list"

fun insert_entry :: "'l::len entry \<Rightarrow> 'l entry list \<Rightarrow> 'l entry list" where
  "insert_entry e [] = [e]"
| "insert_entry e (x # xs) = (if en_time x > en_time e then e # x # xs else x # insert_entry e xs)"

text \<open>\<open>name + (*name == '_')\<close>\<close>

definition symbol_name :: "char list \<Rightarrow> char list" where
  "symbol_name name = (case name of [] \<Rightarrow> [] | c # cs \<Rightarrow> if c = CHR ''_'' then cs else name)"

definition do_symbol :: "int \<Rightarrow> 'l::len word \<Rightarrow> char list \<Rightarrow> char \<Rightarrow> 'l entry list \<Rightarrow> 'l entry list" where
  "do_symbol time address name type =
     insert_entry \<lparr>en_time = time, en_address = address, en_type = type, en_name = symbol_name name\<rparr>"

definition is_llong :: "int \<Rightarrow> bool" where
  "is_llong v = (- (2 ^ 63) \<le> v \<and> v < 2 ^ 63)"

text \<open>The lines of the entries; a division by zero or a product that overflows is undefined.\<close>

definition text_type :: "char \<Rightarrow> bool" where
  "text_type c = (c = CHR ''t'' \<or> c = CHR ''T'')"

fun show_entries :: "int \<Rightarrow> 'l::len entry list \<Rightarrow> 'l word pline list option" where
  "show_entries tot [] = Some []"
| "show_entries tot (e # es) = do {
     assertion (tot \<noteq> 0 \<and> is_llong (en_time e * 10000));
     let q = cdiv (en_time e * 10000) tot;
     ls \<leftarrow> show_entries tot es;
     Some (PEntry (en_time e) (cdiv q 100) (cmod q 100) (en_address e) (en_name e) #
           (if text_type (en_type e) then [] else [PConflict (en_type e) (en_name e)]) @ ls)
   }"

definition show_symbols :: "int \<Rightarrow> 'l::len entry list \<Rightarrow> 'l word pline list option" where
  "show_symbols tot es = do {
     ls \<leftarrow> show_entries tot es;
     let sanity_total = sum_list (map en_time es);
     assertion (is_llong sanity_total);
     Some (ls @ [PTotal tot] @ (if tot \<noteq> sanity_total then [PSum sanity_total] else []) @
           (if list_ex (\<lambda>e. \<not> text_type (en_type e)) es then [PWarnType] else []))
   }"

text \<open>The counters of one function, read as \<open>int\<close>s.\<close>

definition show_cell :: "int \<Rightarrow> int \<Rightarrow> int \<Rightarrow> nat \<Rightarrow> int \<Rightarrow> 'l::len word pline option" where
  "show_cell tot step addr i c = do {
     assertion (is_int (int i * step) \<and> is_int (int i * step + addr) \<and> is_llong (cmod (c * 100) tot * 1000000));
     Some (PCell (int i * step + addr) (cdiv (c * 100) tot) (cdiv (cmod (c * 100) tot * 1000000) tot) c)
   }"

definition show_finegrained_function :: "32 word list \<Rightarrow> int \<Rightarrow> char list \<Rightarrow> int \<Rightarrow> 'l::len word pline list option" where
  "show_finegrained_function buffer step func addr =
     (let tot = sum_list (map sint buffer) in
      if tot = 0 then Some [PNoHits func]
      else do {
        ls \<leftarrow> those (map (\<lambda>i. show_cell tot step addr i (sint (buffer ! i))) [0..<length buffer]);
        Some (PFine func tot # ls)
      })"

subsection \<open>Reading System.map\<close>

text \<open>The directives of \<open>fscanf\<close>; an input that does not match is left in the stream.\<close>

definition hexval :: "char \<Rightarrow> nat option" where
  "hexval c = (let n = (of_char c :: nat) in
     if 48 \<le> n \<and> n \<le> 57 then Some (n - 48)
     else if 97 \<le> n \<and> n \<le> 102 then Some (n - 87)
     else if 65 \<le> n \<and> n \<le> 70 then Some (n - 55) else None)"

definition isxdigit :: "char \<Rightarrow> bool" where
  "isxdigit c = (hexval c \<noteq> None)"

definition hexnum :: "char list \<Rightarrow> nat" where
  "hexnum = foldl (\<lambda>a c. 16 * a + the (hexval c)) 0"

text \<open>\<open>%x\<close>: None in the result for no match; a number that does not fit \<open>unsigned int\<close> is undefined.\<close>

definition scan_sign :: "char list \<Rightarrow> bool \<times> char list" where
  "scan_sign cs = (case cs of [] \<Rightarrow> (False, []) | c # ds \<Rightarrow>
     if c = CHR ''-'' then (True, ds) else if c = CHR ''+'' then (False, ds) else (False, cs))"

definition scan_prefix :: "char list \<Rightarrow> char list" where
  "scan_prefix cs = (case cs of a # b # ds \<Rightarrow> if a = CHR ''0'' \<and> (b = CHR ''x'' \<or> b = CHR ''X'') then ds else cs | _ \<Rightarrow> cs)"

definition scan_x :: "char list \<Rightarrow> (32 word option \<times> char list) option" where
  "scan_x cs =
     (let (neg, cs1) = scan_sign (dropWhile isspace cs); cs2 = scan_prefix cs1;
          ds = takeWhile isxdigit cs2; rest = dropWhile isxdigit cs2; v = of_nat (hexnum ds)
      in if ds = [] then Some (None, rest)
         else if hexnum ds < 2 ^ 32 then Some (Some (if neg then - v else v), rest) else None)"

definition scan_s :: "char list \<Rightarrow> char list option \<times> char list" where
  "scan_s cs =
     (let cs1 = dropWhile isspace cs; w = takeWhile (\<lambda>c. \<not> isspace c) cs1
      in (if w = [] then None else Some w, dropWhile (\<lambda>c. \<not> isspace c) cs1))"

text \<open>A name, with its NUL, must fit an array of 80 bytes.\<close>

definition fits80 :: "char list option \<Rightarrow> bool" where
  "fits80 n = (case n of None \<Rightarrow> True | Some s \<Rightarrow> length s < 80)"

text \<open>\<open>fscanf(kmap, "%x %c %s\n", ...)\<close>: what is stored in the three variables, and the rest of the stream.\<close>

definition scan_symbol :: "char list \<Rightarrow> (32 word option \<times> char option \<times> char list option \<times> char list) option" where
  "scan_symbol cs = do {
     (v, r1) \<leftarrow> scan_x cs;
     case v of
       None \<Rightarrow> Some (None, None, None, r1)
     | Some x \<Rightarrow>
         (case dropWhile isspace r1 of
            [] \<Rightarrow> Some (v, None, None, [])
          | t # r2 \<Rightarrow> do {
              let (n, r3) = scan_s r2;
              assertion (fits80 n);
              Some (v, Some t, n, if n = None then r3 else dropWhile isspace r3)
            })
   }"

text \<open>\<open>fscanf(kmap, "%x %*s %s\n", ...)\<close>\<close>

definition scan_first :: "char list \<Rightarrow> (32 word option \<times> char list option \<times> char list) option" where
  "scan_first cs = do {
     (v, r1) \<leftarrow> scan_x cs;
     if v = None then Some (None, None, r1)
     else do {
       let (skipped, r2) = scan_s r1;
       if skipped = None then Some (v, None, r2)
       else do {
         let (n, r3) = scan_s r2;
         assertion (fits80 n);
         Some (v, n, if n = None then r3 else dropWhile isspace r3)
       }
     }
   }"

subsection \<open>The main loop\<close>

text \<open>
  The variables of the loop. \<open>current_symbol\<close> and its value have been set when the loop is entered; the
  others have no value as long as nothing was stored in them. \<open>ps_pos\<close> is the position in the profile, in words.
\<close>

record 't pstate_rec =
  ps_map :: "char list"
  ps_cur :: "32 word"
  ps_cname :: "char list"
  ps_next :: "32 word option"
  ps_type :: "char option"
  ps_nname :: "char list option"
  ps_pos :: nat
  ps_list :: "'t entry_rec list"
  ps_total :: "64 word"
  ps_end :: 't
  ps_found :: bool
  ps_just :: bool

type_synonym 'l pstate = "'l word pstate_rec"

definition int_sub :: "int \<Rightarrow> int \<Rightarrow> int option" where
  "int_sub a b = do { assertion (is_int (a - b)); Some (a - b) }"

definition int_div :: "int \<Rightarrow> int \<Rightarrow> int option" where
  "int_div a b = do { assertion (b \<noteq> 0 \<and> is_int (cdiv a b)); Some (cdiv a b) }"

text \<open>\<open>strcpy(current_symbol, next_symbol)\<close> and the next \<open>fscanf\<close>; a variable that is not stored into keeps its value.\<close>

definition advance :: "'l::len pstate \<Rightarrow> 'l pstate option" where
  "advance s = do {
     nn \<leftarrow> ps_nname s;
     (v, t, n, rest) \<leftarrow> scan_symbol (ps_map s);
     Some (s\<lparr>ps_cname := nn, ps_map := rest, ps_next := (if v = None then ps_next s else v),
       ps_type := (if t = None then ps_type s else t), ps_nname := (if n = None then ps_nname s else n)\<rparr>)
   }"

text \<open>
  \<open>lseek\<close> to the counters of the current symbol and \<open>read\<close> of \<open>k\<close> of them: a position before the start of the
  file is refused, and the read goes on where the last one ended.
\<close>

definition read_cells :: "32 word list \<Rightarrow> int \<Rightarrow> nat \<Rightarrow> nat \<Rightarrow> 32 word list \<times> nat" where
  "read_cells prof j k pos =
     (let p = (if 0 \<le> 1 + j then nat (1 + j) else pos); buf = take k (drop p prof) in (buf, p + length buf))"

text \<open>The hits of a symbol, 253-260.\<close>

definition record_hits :: "32 word list \<Rightarrow> 'l::len pstate \<Rightarrow> 'l pstate option" where
  "record_hits buf s =
     (let tiempo = sum_list (map ucast buf) :: 64 word in
      if tiempo \<noteq> 0 then do {
        t \<leftarrow> ps_type s;
        Some (s\<lparr>ps_list := do_symbol (sint tiempo) (scast (ps_cur s)) (ps_cname s) t (ps_list s), ps_total := ps_total s + tiempo\<rparr>)
      }
      else Some s)"

text \<open>One round of the loop: whether it goes on, what is printed, and the variables.\<close>

definition profile_round ::
  "char list \<Rightarrow> int \<Rightarrow> 32 word \<Rightarrow> 32 word list \<Rightarrow> 'l::len pstate \<Rightarrow> (bool \<times> 'l word pline list \<times> 'l pstate) option" where
  "profile_round func step code_offset prof s = do {
     nx \<leftarrow> ps_next s;
     d \<leftarrow> int_sub (sint nx) (sint (ps_cur s));
     k \<leftarrow> int_div d step;
     assertion (0 \<le> k);
     let here = (func = ps_cname s);
     let s1 = s\<lparr>ps_found := ps_found s \<or> here, ps_just := ps_just s \<or> here,
                ps_end := (if ps_cname s = ''_etext'' then scast nx else ps_end s)\<rparr>;
     a \<leftarrow> int_div (sint nx) step;
     b \<leftarrow> int_div (sint (ps_cur s)) step;
     if a = b then do { s2 \<leftarrow> advance s1; Some (True, [], s2) }
     else do {
       o' \<leftarrow> int_sub (sint (ps_cur s)) (sint code_offset);
       j \<leftarrow> int_div o' step;
       let (buf, pos) = read_cells prof j (nat k) (ps_pos s);
       ls \<leftarrow> (if ps_just s1 then show_finegrained_function buf step (ps_cname s) (sint (ps_cur s)) else Some []);
       s2 \<leftarrow> record_hits buf (s1\<lparr>ps_pos := pos, ps_just := False\<rparr>);
       assertion (is_int (k * 4));
       if 4 * int (length buf) < k * 4 \<or> nx = ps_cur s then Some (False, ls, s2)
       else do { s3 \<leftarrow> advance s2; Some (True, ls, s3\<lparr>ps_cur := nx\<rparr>) }
     }
   }"

partial_function (option) profile_loop ::
  "char list \<Rightarrow> int \<Rightarrow> 32 word \<Rightarrow> 32 word list \<Rightarrow> 'l::len pstate \<Rightarrow> ('l word pline list \<times> 'l pstate) option" where
  "profile_loop func step code_offset prof s = do {
     (more, ls, s1) \<leftarrow> profile_round func step code_offset prof s;
     if more then do { (ls', s2) \<leftarrow> profile_loop func step code_offset prof s1; Some (ls @ ls', s2) }
     else Some (ls, s1)
   }"

subsection \<open>The program\<close>

text \<open>
  The check of the profile's size, 274-275: \<open>long\<close> arithmetic is cut to the \<open>int\<close> that \<open>abs\<close> takes.
\<close>

definition etext_ok :: "nat \<Rightarrow> int \<Rightarrow> 32 word \<Rightarrow> 'l::len word \<Rightarrow> bool option" where
  "etext_ok profile_size step code_offset end_address = do {
     let words = (scast (ucast (of_nat profile_size - 4 :: 'l word) :: 32 word) :: 'l word) div 4;
     let d = sint (ucast (words * word_of_int step - (end_address - scast code_offset)) :: 32 word);
     assertion (is_int \<bar>d\<bar>);
     Some (\<not> \<bar>d\<bar> > step)
   }"

text \<open>
  \<open>main\<close>: the arguments, with the program's name first, the two lines of System.map before the loop, the loop
  with the histogram, and the checks. A file that cannot be opened is None. The result is the exit status and
  what was written.
\<close>

definition profile_args :: "char list list \<Rightarrow> char list \<times> char list" where
  "profile_args argv =
     (if length argv \<ge> 2 then argv ! 1 else ''sys_open'', if length argv \<ge> 3 then argv ! 2 else ''/proc/profile'')"

definition system_map :: "(char list \<Rightarrow> char list option) \<Rightarrow> char list option" where
  "system_map fopen = (case fopen ''/System.map'' of Some cs \<Rightarrow> Some cs | None \<Rightarrow> fopen ''/usr/src/linux/System.map'')"

definition profile_start :: "char list \<Rightarrow> (32 word option \<times> 'l::len pstate) option" where
  "profile_start cs = do {
     (v, n, r1) \<leftarrow> scan_first cs;
     (nv, t, nn, r2) \<leftarrow> scan_symbol r1;
     cname \<leftarrow> n;
     Some (v, \<lparr>ps_map = r2, ps_cur = (case v of None \<Rightarrow> 0 | Some x \<Rightarrow> x), ps_cname = cname, ps_next = nv, ps_type = t, ps_nname = nn, ps_pos = 1,
       ps_list = [], ps_total = 0, ps_end = 0, ps_found = False, ps_just = False\<rparr>)
   }"

definition profile_histogram ::
  "char list \<Rightarrow> int \<Rightarrow> 32 word \<Rightarrow> 32 word list \<Rightarrow> 'l::len pstate \<Rightarrow> ('l word pline list \<times> 'l pstate) option" where
  "profile_histogram func step code_offset prof s = do {
     (ls, s1) \<leftarrow> profile_loop func step code_offset prof s;
     hs \<leftarrow> show_symbols (sint (ps_total s1)) (ps_list s1);
     Some (ls @ hs, s1)
   }"

definition profile_main ::
  "char list list \<Rightarrow> (char list \<Rightarrow> 32 word list option) \<Rightarrow> (char list \<Rightarrow> char list option) \<Rightarrow> (int \<times> 'l::len word pline list) option" where
  "profile_main argv open_words fopen =
     (let (func, fname) = profile_args argv in
      case (open_words fname, system_map fopen) of
        (Some prof, Some cs) \<Rightarrow> do {
          (v, s) \<leftarrow> profile_start cs;
          if ps_cname s \<noteq> ''_stext'' \<and> ps_cname s \<noteq> ''_text'' \<or> prof = [] then Some (1, [])
          else do {
            code_offset \<leftarrow> v;
            let step = sint (hd prof);
            (ls, s1) \<leftarrow> profile_histogram func step code_offset prof s;
            ok \<leftarrow> etext_ok (4 * length prof) step code_offset (ps_end s1);
            let out = PStep step func # ls;
            Some (if \<not> ok then (1, out @ [PWarnEtext]) else if \<not> ps_found s1 then (1, out @ [PWarnSymbol func]) else (0, out))
          }
        }
      | _ \<Rightarrow> Some (1, []))"

subsection \<open>The list is the stable sort of what was recorded\<close>

lemma insert_entry_mset [simp]: "mset (insert_entry e l) = add_mset e (mset l)"
  by (induction l) auto

lemma insert_entry_set [simp]: "set (insert_entry e l) = insert e (set l)"
  by (induction l) auto

lemma insert_entry_sorted: "sorted (map en_time l) \<Longrightarrow> sorted (map en_time (insert_entry e l))"
  by (induction l) force+

lemma insert_entry_stable:
  "sorted (map en_time l) \<Longrightarrow> filter (\<lambda>x. k = en_time x) (insert_entry e l) = filter (\<lambda>x. k = en_time x) (l @ [e])"
proof (induction l)
  case (Cons x l)
  show ?case
  proof (cases "en_time x > en_time e")
    case True
    have "filter (\<lambda>y. en_time e = en_time y) (x # l) = []" using Cons.prems True by (auto simp: filter_empty_conv)
    then show ?thesis using True by auto
  qed (use Cons in auto)
qed simp

lemma insert_entry_sort: "insert_entry e (sort_key en_time es) = sort_key en_time (es @ [e])"
proof (rule properties_for_sort_key[symmetric])
  show "filter (\<lambda>x. en_time k = en_time x) (insert_entry e (sort_key en_time es)) = filter (\<lambda>x. en_time k = en_time x) (es @ [e])" for k
    using insert_entry_stable[of "sort_key en_time es" "en_time k" e] by (simp add: sort_key_stable[of en_time "en_time k" es, unfolded eq_commute[of _ "en_time k"]])
qed (simp_all add: insert_entry_sorted)

lemma insert_entries_sort: "foldl (\<lambda>l e. insert_entry e l) (sort_key en_time es) fs = sort_key en_time (es @ fs)"
  by (induction fs arbitrary: es) (simp_all add: insert_entry_sort)

subsection \<open>Reading back a System.map\<close>

text \<open>A symbol: its address, type and name; and the line of it, as \<open>nm\<close> writes it.\<close>

type_synonym symbol = "32 word \<times> char \<times> char list"

definition hexdigit :: "nat \<Rightarrow> char" where
  "hexdigit d = char_of (if d < 10 then 48 + d else 87 + d)"

fun hexdigits :: "nat \<Rightarrow> nat \<Rightarrow> char list" where
  "hexdigits 0 v = []"
| "hexdigits (Suc n) v = hexdigits n (v div 16) @ [hexdigit (v mod 16)]"

definition map_line :: "symbol \<Rightarrow> char list" where
  "map_line = (\<lambda>(v, t, n). hexdigits 8 (unat v) @ [CHR '' '', t, CHR '' ''] @ n @ [LF])"

definition map_text :: "symbol list \<Rightarrow> char list" where
  "map_text syms = concat (map map_line syms)"

definition symbol_ok :: "symbol \<Rightarrow> bool" where
  "symbol_ok = (\<lambda>(v, t, n). \<not> isspace t \<and> n \<noteq> [] \<and> length n < 80 \<and> (\<forall>c \<in> set n. \<not> isspace c))"

lemma hexval_hexdigit [simp]: "d < 16 \<Longrightarrow> hexval (hexdigit d) = Some d"
  by (auto simp: hexval_def hexdigit_def Let_def)

lemma hexdigit_char: "d < 16 \<Longrightarrow> hexdigit d \<in> set ''0123456789abcdef''"
proof -
  have "\<forall>d \<in> set [0..<16]. hexdigit d \<in> set ''0123456789abcdef''"
    unfolding hexdigit_def by code_simp
  then show "d < 16 \<Longrightarrow> hexdigit d \<in> set ''0123456789abcdef''" by simp
qed

lemma hexdigits_chars: "set (hexdigits n v) \<subseteq> set ''0123456789abcdef''"
  using hexdigit_char by (induction n arbitrary: v) auto

lemma hexdigits_length [simp]: "length (hexdigits n v) = n"
  by (induction n arbitrary: v) simp_all

lemma two_chars: "length (xs :: char list) = 8 \<Longrightarrow> \<exists>a b ds. xs = a # b # ds"
  by (cases xs; cases "tl xs") auto

lemma hexnum_hexdigits: "hexnum (hexdigits n v) = v mod 16 ^ n"
proof (induction n arbitrary: v)
  case (Suc n)
  have "v mod 16 ^ Suc n = 16 * (v div 16 mod 16 ^ n) + v mod 16" by (simp add: mod_mult2_eq)
  then show ?case using Suc[of "v div 16"] by (simp add: hexnum_def)
qed (simp add: hexnum_def)

lemma hex_chars:
  assumes "c \<in> set ''0123456789abcdef''"
  shows "isxdigit c" "\<not> isspace c" "c \<noteq> CHR ''-''" "c \<noteq> CHR ''+''" "c \<noteq> CHR ''x''" "c \<noteq> CHR ''X''"
  using assms by (auto simp: isxdigit_def hexval_def isspace_def)

lemma scan_x_digits: "scan_x (hexdigits 8 (unat v) @ CHR '' '' # rest) = Some (Some v, CHR '' '' # rest)"
proof -
  obtain a b ds where h: "hexdigits 8 (unat v) = a # b # ds"
    using two_chars[OF hexdigits_length, of "unat v"] by blast
  have c: "c \<in> set ''0123456789abcdef''" if "c \<in> {a, b} \<union> set ds" for c
    using subsetD[OF hexdigits_chars[of 8 "unat v"]] that unfolding h by (metis UnE empty_iff insertE list.set_intros)
  have ab: "\<not> isspace a" "a \<noteq> CHR ''-''" "a \<noteq> CHR ''+''" "b \<noteq> CHR ''x''" "b \<noteq> CHR ''X''" "isxdigit a" "isxdigit b"
    using c[of a] c[of b] hex_chars by blast+
  have "\<forall>c \<in> set ds. isxdigit c" using c hex_chars(1) by blast
  moreover have "\<not> isxdigit (CHR '' '')" by (simp add: isxdigit_def hexval_def)
  ultimately have tw: "takeWhile isxdigit (ds @ CHR '' '' # rest) = ds" "dropWhile isxdigit (ds @ CHR '' '' # rest) = CHR '' '' # rest"
    by (simp_all add: takeWhile_append2 dropWhile_append2)
  have lt: "unat v < 2 ^ LENGTH(32)" by (rule unsigned_less)
  have num: "hexnum (a # b # ds) = unat v" using hexnum_hexdigits[of 8 "unat v"] lt unfolding h by simp
  have "unat v < 2 ^ 32" using lt by simp
  moreover have "scan_sign (a # b # ds @ CHR '' '' # rest) = (False, a # b # ds @ CHR '' '' # rest)" using ab by (simp add: scan_sign_def)
  moreover have "scan_prefix (a # b # ds @ CHR '' '' # rest) = a # b # ds @ CHR '' '' # rest" using ab by (simp add: scan_prefix_def)
  ultimately show ?thesis using ab(1,6,7) by (simp add: scan_x_def h tw num Let_def)
qed

lemma scan_s_word:
  assumes "n \<noteq> []" "\<forall>c \<in> set n. \<not> isspace c"
  shows "scan_s (CHR '' '' # n @ LF # rest) = (Some n, LF # rest)" "scan_s (n @ CHR '' '' # rest) = (Some n, CHR '' '' # rest)"
proof -
  have sp: "isspace (CHR '' '')" "isspace LF" by (simp_all add: isspace_def)
  obtain c cs where n: "n = c # cs" using assms(1) by (cases n) auto
  have "dropWhile isspace (n @ xs) = n @ xs" for xs using assms(2) by (simp add: n)
  then show "scan_s (CHR '' '' # n @ LF # rest) = (Some n, LF # rest)" "scan_s (n @ CHR '' '' # rest) = (Some n, CHR '' '' # rest)"
    using assms sp by (simp_all add: scan_s_def Let_def takeWhile_append2 dropWhile_append2)
qed

lemma map_text_start: "dropWhile isspace (map_text syms) = map_text syms"
proof (cases syms)
  case (Cons sy syms')
  obtain v t n where sy: "sy = (v, t, n)" by (cases sy)
  obtain a ds where "hexdigits 8 (unat v) = a # ds" using two_chars[OF hexdigits_length, of "unat v"] by blast
  moreover have "\<not> isspace a" using calculation hexdigits_chars[of 8 "unat v"] hex_chars(2)[of a] by simp
  ultimately show ?thesis by (simp add: Cons sy map_text_def map_line_def)
qed (simp add: map_text_def)

lemma scan_symbol_line:
  assumes "symbol_ok (v, t, n)"
  shows "scan_symbol (map_text ((v, t, n) # syms)) = Some (Some v, Some t, Some n, map_text syms)"
proof -
  let ?r = "map_text syms"
  have n: "n \<noteq> []" "\<forall>c \<in> set n. \<not> isspace c" "length n < 80" "\<not> isspace t" using assms by (simp_all add: symbol_ok_def)
  have sp: "isspace (CHR '' '')" "isspace LF" by (simp_all add: isspace_def)
  have "map_text ((v, t, n) # syms) = hexdigits 8 (unat v) @ CHR '' '' # t # CHR '' '' # n @ LF # ?r"
    by (simp add: map_text_def map_line_def)
  then show ?thesis using n sp scan_s_word(1)[OF n(1,2), of ?r]
    by (simp add: scan_symbol_def scan_x_digits fits80_def map_text_start Let_def)
qed

lemma scan_symbol_end [simp]: "scan_symbol [] = Some (None, None, None, [])"
  by (simp add: scan_symbol_def scan_x_def scan_sign_def scan_prefix_def Let_def)

lemma profile_start_text:
  assumes "symbol_ok (v, t, n)" "symbol_ok (v', t', n')"
  shows "profile_start (map_text ((v, t, n) # (v', t', n') # syms)) =
    Some (Some v, \<lparr>ps_map = map_text syms, ps_cur = v, ps_cname = n, ps_next = Some v', ps_type = Some t', ps_nname = Some n', ps_pos = 1,
      ps_list = [], ps_total = 0, ps_end = 0, ps_found = False, ps_just = False\<rparr>)"
proof -
  let ?r = "map_text ((v', t', n') # syms)"
  have n: "n \<noteq> []" "\<forall>c \<in> set n. \<not> isspace c" "length n < 80" "\<not> isspace t" using assms(1) by (simp_all add: symbol_ok_def)
  have sp: "isspace (CHR '' '')" "isspace LF" by (simp_all add: isspace_def)
  have "scan_s (CHR '' '' # t # CHR '' '' # n @ LF # ?r) = (Some [t], CHR '' '' # n @ LF # ?r)"
    using scan_s_word(2)[of "[t]" "n @ LF # ?r"] n(4) sp by (simp add: scan_s_def Let_def)
  moreover have "map_text ((v, t, n) # (v', t', n') # syms) = hexdigits 8 (unat v) @ CHR '' '' # t # CHR '' '' # n @ LF # ?r"
    by (simp add: map_text_def map_line_def)
  ultimately have "scan_first (map_text ((v, t, n) # (v', t', n') # syms)) = Some (Some v, Some n, ?r)"
    using n sp scan_s_word(1)[OF n(1,2), of ?r] by (simp add: scan_first_def scan_x_digits fits80_def map_text_start Let_def)
  then show ?thesis using scan_symbol_line[OF assms(2)] by (simp add: profile_start_def)
qed

subsection \<open>A round\<close>

definition hits :: "32 word list \<Rightarrow> int" where
  "hits c = sum_list (map uint c)"

definition hit_entry :: "32 word \<Rightarrow> char \<Rightarrow> char list \<Rightarrow> 32 word list \<Rightarrow> 'l::len entry list" where
  "hit_entry v t n c =
     (if hits c = 0 then [] else [\<lparr>en_time = hits c, en_address = scast v, en_type = t, en_name = symbol_name n\<rparr>])"

definition small_counters :: "32 word list \<Rightarrow> bool" where
  "small_counters cells = ((\<forall>x \<in> set cells. uint x < 2 ^ 31) \<and> hits cells * 1000000 < 2 ^ 63)"

lemma hits_simps [simp]: "hits [] = 0" "hits (x # c) = uint x + hits c" "hits (c @ d) = hits c + hits d" "0 \<le> hits c"
proof -
  show "0 \<le> hits c" unfolding hits_def by (rule sum_list_nonneg) auto
qed (simp_all add: hits_def)

lemma hits_part: "hits (take k (drop j c)) \<le> hits c"
proof -
  have "hits c = hits (take j c) + (hits (take k (drop j c)) + hits (drop k (drop j c)))"
    by (metis append_take_drop_id hits_simps(3))
  then show ?thesis using hits_simps(4) by (metis add_increasing add_increasing2 order_refl)
qed

lemma small_part: "small_counters c \<Longrightarrow> small_counters (take k (drop j c))"
  using hits_part[of k j c] by (auto simp: small_counters_def dest!: in_set_takeD in_set_dropD)

lemma tiempo: "(sum_list (map ucast c) :: 64 word) = word_of_int (hits c)"
proof (induction c)
  case (Cons x c)
  have "(ucast x :: 64 word) = word_of_int (uint x)" by simp
  with Cons show ?case by (simp only: list.map sum_list.Cons hits_simps of_int_add)
qed simp

lemma sint_64: "0 \<le> h \<Longrightarrow> h < 2 ^ 63 \<Longrightarrow> sint (word_of_int h :: 64 word) = h"
  unfolding sint_sbintrunc' by (intro signed_take_bit_int_eq_self) auto

lemma small_sint:
  assumes "small_counters c" "x \<in> set c"
  shows "sint x = uint x"
proof -
  have "uint x < 2 ^ 31" using assms by (simp add: small_counters_def)
  then have "signed_take_bit 31 (uint x) = uint x" by (intro signed_take_bit_int_eq_self) (use uint_ge_0[of x] in linarith)+
  then show ?thesis by (simp add: sint_uint)
qed

lemma record_hits_ok:
  assumes "small_counters c" "ps_type s = Some t"
  shows "record_hits c s = Some (s\<lparr>ps_list := foldl (\<lambda>l e. insert_entry e l) (ps_list s) (hit_entry (ps_cur s) t (ps_cname s) c),
           ps_total := ps_total s + word_of_int (hits c)\<rparr>)"
proof -
  have h: "sint (word_of_int (hits c) :: 64 word) = hits c"
    using assms(1) hits_simps(4)[of c] by (intro sint_64) (auto simp: small_counters_def)
  then have "(word_of_int (hits c) :: 64 word) = 0 \<longleftrightarrow> hits c = 0" by (metis sint_0 of_int_0)
  then show ?thesis using assms(2) h by (simp add: record_hits_def tiempo hit_entry_def do_symbol_def Let_def)
qed

lemma cdiv_exact: "0 < k \<Longrightarrow> cdiv (k * q) k = q"
  by (simp add: cdiv_def sgn_mult abs_mult sgn_mult_abs)

lemma int_div_exact: "0 < k \<Longrightarrow> is_int (k * q) \<Longrightarrow> int_div (k * q) k = Some q"
proof -
  assume k: "0 < k" and r: "is_int (k * q)"
  have "is_int q"
  proof (cases "0 \<le> q")
    case True
    then have "1 * q \<le> k * q" using k by (intro mult_right_mono) auto
    with r True show ?thesis unfolding is_int_def by linarith
  next
    case False
    then have "k * q \<le> 1 * q" using k by (intro mult_right_mono_neg) auto
    with r False show ?thesis unfolding is_int_def by linarith
  qed
  then show ?thesis using k by (simp add: int_div_def cdiv_exact)
qed

lemma is_int_sint: "is_int (sint (v :: 32 word))"
  using sint_range_size[of v] by (auto simp: is_int_def word_size)

lemma those_Some: "(\<And>x. x \<in> set xs \<Longrightarrow> f x \<noteq> None) \<Longrightarrow> those (map f xs) \<noteq> None"
  by (induction xs) (auto split: option.splits)

lemma fine_ok:
  assumes small: "small_counters c" and k: "0 < step" "int (length c) * step + addr \<le> 2 ^ 31 - 1" "int (length c) * step < 2 ^ 31" "is_int addr"
  shows "\<exists>ls :: 'l::len word pline list. show_finegrained_function c step func addr = Some ls"
proof -
  have tot: "sum_list (map sint c) = hits c"
    using small_sint[OF small] by (simp add: hits_def cong: map_cong)
  have cell: "(show_cell (hits c) step addr i (sint (c ! i)) :: 'l word pline option) \<noteq> None" if i: "i < length c" and nz: "hits c \<noteq> 0" for i
  proof -
    have pos: "0 < hits c" using nz hits_simps(4)[of c] by linarith
    have "sint (c ! i) = uint (c ! i)" using small_sint[OF small] i by simp
    then have "cmod (sint (c ! i) * 100) (hits c) = uint (c ! i) * 100 mod hits c" using cdiv_nonneg[of "uint (c ! i) * 100" "hits c"] pos by simp
    moreover have "0 \<le> uint (c ! i) * 100 mod hits c" "uint (c ! i) * 100 mod hits c < hits c" using pos by simp_all
    ultimately have m: "is_llong (cmod (sint (c ! i) * 100) (hits c) * 1000000)" using small unfolding is_llong_def small_counters_def by linarith
    have "int i * step \<le> int (length c) * step" using i k(1) by (intro mult_right_mono) auto
    moreover have "0 \<le> int i * step" using k(1) by simp
    ultimately have "is_int (int i * step)" "is_int (int i * step + addr)" using k unfolding is_int_def by linarith+
    with m show ?thesis by (simp add: show_cell_def)
  qed
  have "(those (map (\<lambda>i. show_cell (hits c) step addr i (sint (c ! i))) [0..<length c]) :: 'l word pline list option) \<noteq> None" if "hits c \<noteq> 0"
    using that by (intro those_Some) (simp_all add: cell)
  then show ?thesis by (auto simp: show_finegrained_function_def tot Let_def)
qed

text \<open>What a round does with the counters \<open>c\<close> of the current symbol.\<close>

definition counted :: "32 word list \<Rightarrow> char \<Rightarrow> 'l::len pstate \<Rightarrow> 'l pstate \<Rightarrow> bool" where
  "counted c t s s' =
     (ps_map s' = ps_map s \<and> ps_cur s' = ps_cur s \<and> ps_cname s' = ps_cname s \<and> ps_next s' = ps_next s \<and> ps_type s' = ps_type s \<and>
      ps_nname s' = ps_nname s \<and> \<not> ps_just s' \<and>
      ps_list s' = foldl (\<lambda>l e. insert_entry e l) (ps_list s) (hit_entry (ps_cur s) t (ps_cname s) c) \<and>
      ps_total s' = ps_total s + word_of_int (hits c))"

lemma round_symbol:
  fixes s :: "'l::len pstate"
  assumes st: "0 < step" "step dvd sint v" "step dvd sint v'" "step dvd sint off" "sint off \<le> sint v" "sint v < sint v'" "sint v' - sint off < 2 ^ 29"
    and s: "ps_cur s = v" "ps_next s = Some v'" "ps_type s = Some t'" "\<not> ps_just s"
    and c: "c = take (nat ((sint v' - sint v) div step)) (drop (nat ((sint v - sint off) div step)) cells)" and small: "small_counters cells"
  shows "\<exists>ls s2. counted c t' s s2 \<and>
           profile_round func step off (w # cells) s =
             (if int (length c) < (sint v' - sint v) div step then Some (False, ls, s2)
              else do { s3 \<leftarrow> advance s2; Some (True, ls, s3\<lparr>ps_cur := v'\<rparr>) })"
proof -
  obtain p p' p0 where pv: "sint v = step * p" "sint v' = step * p'" "sint off = step * p0" using st(2-4) by (auto elim!: dvdE)
  have diffs: "sint v' - sint v = step * (p' - p)" "sint v - sint off = step * (p - p0)" by (simp_all add: pv algebra_simps)
  have ord: "p < p'" "p0 \<le> p" using st(1,5,6) by (simp_all add: pv)
  have range: "is_int (sint v' - sint v)" "is_int (sint v - sint off)" using st(5-7) by (auto simp: is_int_def)
  have le: "1 * (p' - p) \<le> step * (p' - p)" using st(1) ord by (intro mult_right_mono) auto
  have k4: "is_int ((p' - p) * 4)" using le st(5-7) ord unfolding is_int_def diffs[symmetric] by simp
  have divs: "int_div (sint v' - sint v) step = Some (p' - p)" "int_div (sint v - sint off) step = Some (p - p0)"
    "int_div (sint v') step = Some p'" "int_div (sint v) step = Some p"
    using range is_int_sint[of v] is_int_sint[of v'] int_div_exact[OF st(1), of "p' - p"] int_div_exact[OF st(1), of "p - p0"]
      int_div_exact[OF st(1), of p] int_div_exact[OF st(1), of p']
    unfolding right_diff_distrib pv by simp_all
  have subs: "int_sub (sint v') (sint v) = Some (sint v' - sint v)" "int_sub (sint v) (sint off) = Some (sint v - sint off)"
    using range by (simp_all add: int_sub_def)
  have div_k: "(sint v' - sint v) div step = p' - p" "(sint v - sint off) div step = p - p0" using st(1) by (simp_all add: diffs)
  have c': "c = take (nat (p' - p)) (drop (nat (p - p0)) cells)" using c by (simp add: div_k)
  have rd: "read_cells (w # cells) (p - p0) (nat (p' - p)) pos = (c, Suc (nat (p - p0)) + length c)" for pos
    using ord by (simp add: read_cells_def c' Let_def nat_add_distrib)
  have smc: "small_counters c" using small unfolding c' by (rule small_part)
  have len: "int (length c) \<le> p' - p" using ord by (simp add: c')
  have mul: "int (length c) * step \<le> (p' - p) * step" using len st(1) by (intro mult_right_mono) auto
  then have bytes: "int (length c) * step \<le> sint v' - sint v" by (simp add: diffs mult.commute)
  obtain ls where ls: "(show_finegrained_function c step (ps_cname s) (sint v) :: 'l word pline list option) = Some ls"
    using fine_ok[OF smc st(1), of "sint v" "ps_cname s"] bytes st(5-7) is_int_sint[of v] is_int_sint[of v'] unfolding is_int_def by fastforce
  let ?here = "func = ps_cname s"
  let ?s1 = "s\<lparr>ps_found := ps_found s \<or> ?here, ps_just := ps_just s \<or> ?here, ps_end := (if ps_cname s = ''_etext'' then scast v' else ps_end s)\<rparr>"
  let ?s1' = "?s1\<lparr>ps_pos := Suc (nat (p - p0)) + length c, ps_just := False\<rparr>"
  have rec: "record_hits c ?s1' = Some (?s1'\<lparr>ps_list := foldl (\<lambda>l e. insert_entry e l) (ps_list s) (hit_entry v t' (ps_cname s) c),
           ps_total := ps_total s + word_of_int (hits c)\<rparr>)" (is "_ = Some ?s2")
    using record_hits_ok[OF smc, of ?s1' t'] s by simp
  have vv: "v' \<noteq> v" using st(6) by auto
  have more: "4 * int (length c) < (p' - p) * 4 \<longleftrightarrow> int (length c) < p' - p" by auto
  have out: "(if ps_just ?s1 then show_finegrained_function c step (ps_cname s) (sint v) else Some []) = Some (if ?here then ls else [])"
    using ls s(4) by simp
  have "profile_round func step off (w # cells) s =
      (if int (length c) < p' - p then Some (False, if ?here then ls else [], ?s2)
       else do { s3 \<leftarrow> advance ?s2; Some (True, if ?here then ls else [], s3\<lparr>ps_cur := v'\<rparr>) })"
    using ord k4 vv out rec unfolding profile_round_def s(1,2) Let_def more
    by (simp add: subs divs rd more del: of_nat_less_iff)
  moreover have "counted c t' s ?s2" using s by (simp add: counted_def)
  ultimately show ?thesis unfolding div_k by blast
qed

subsection \<open>The loop\<close>

text \<open>
  The specification: the counters are cut into consecutive segments, one for each symbol up to the next one's
  address; each segment with hits gives an entry. The type of an entry is that of the next symbol.
\<close>

fun segments :: "int \<Rightarrow> symbol list \<Rightarrow> 32 word list \<Rightarrow> 'l::len entry list" where
  "segments step ((v, t, n) # (v', t', n') # syms) cells =
     (let k = nat ((sint v' - sint v) div step) in
      hit_entry v t' n (take k cells) @ (if length cells < k then [] else segments step ((v', t', n') # syms) (drop k cells)))"
| "segments step _ cells = []"

text \<open>A System.map that fits the step: growing addresses, all of them multiples of the step, less than 512 MB in all.\<close>

definition kernel_map :: "int \<Rightarrow> 32 word \<Rightarrow> symbol list \<Rightarrow> bool" where
  "kernel_map step off syms =
     (0 < step \<and> step dvd sint off \<and>
      (\<forall>sy \<in> set syms. symbol_ok sy \<and> step dvd sint (fst sy) \<and> sint off \<le> sint (fst sy) \<and> sint (fst sy) - sint off < 2 ^ 29) \<and>
      sorted_wrt (\<lambda>a b. sint (fst a) < sint (fst b)) syms)"

definition at_symbol :: "'l::len pstate \<Rightarrow> symbol \<Rightarrow> symbol \<Rightarrow> symbol list \<Rightarrow> bool" where
  "at_symbol s sy sy' syms =
     (ps_cur s = fst sy \<and> ps_cname s = snd (snd sy) \<and> ps_next s = Some (fst sy') \<and> ps_type s = Some (fst (snd sy')) \<and>
      ps_nname s = Some (snd (snd sy')) \<and> ps_map s = map_text syms \<and> \<not> ps_just s)"

lemma advance_line:
  assumes "ps_map s = map_text ((v, t, n) # syms)" "symbol_ok (v, t, n)" "ps_nname s = Some nn"
  shows "advance s = Some (s\<lparr>ps_cname := nn, ps_map := map_text syms, ps_next := Some v, ps_type := Some t, ps_nname := Some n\<rparr>)"
  using assms scan_symbol_line[OF assms(2), of syms] by (simp add: advance_def)

lemma stuck_loop:
  "profile_loop func step off prof s = Some z \<Longrightarrow> ps_map s = [] \<Longrightarrow> ps_next s = Some (ps_cur s) \<Longrightarrow> ps_nname s \<noteq> None \<Longrightarrow> False"
proof -
  have "\<not> (ps_map s = [] \<and> ps_next s = Some (ps_cur s) \<and> ps_nname s \<noteq> None)" if "profile_loop func step off prof s = Some z" for s z
    using that
  proof (induction rule: profile_loop.raw_induct[rotated 1, consumes 1, case_names step])
    case (step f func st off prof s z)
    show ?case
    proof
      assume s: "ps_map s = [] \<and> ps_next s = Some (ps_cur s) \<and> ps_nname s \<noteq> None"
      from step(2) obtain more ls s1 where r: "profile_round func st off prof s = Some (more, ls, s1)"
        "more \<longrightarrow> f func st off prof s1 \<noteq> None" by (auto simp: bind_eq_Some_conv split: if_splits)
      have "more \<and> ps_map s1 = [] \<and> ps_next s1 = Some (ps_cur s1) \<and> ps_nname s1 \<noteq> None"
        using r(1) s by (auto simp: profile_round_def bind_eq_Some_conv advance_def Let_def)
      with r(2) step(1) show False by blast
    qed
  qed
  then show "profile_loop func step off prof s = Some z \<Longrightarrow> ps_map s = [] \<Longrightarrow> ps_next s = Some (ps_cur s) \<Longrightarrow> ps_nname s \<noteq> None \<Longrightarrow> False"
    by blast
qed

text \<open>The position after a segment.\<close>

lemma next_segment:
  assumes "kernel_map step off ((v, t, n) # (v', t', n') # syms)"
  shows "drop (nat ((sint v' - sint v) div step)) (drop (nat ((sint v - sint off) div step)) cells) = drop (nat ((sint v' - sint off) div step)) cells"
    "0 < (sint v' - sint v) div step" "kernel_map step off ((v', t', n') # syms)"
    "(x - sint v) div step = (sint v' - sint v) div step + (x - sint v') div step"
proof -
  have m: "0 < step" "step dvd sint off" "step dvd sint v" "step dvd sint v'" "sint off \<le> sint v" "sint v < sint v'"
    using assms by (auto simp: kernel_map_def)
  obtain p p' p0 where pv: "sint v = step * p" "sint v' = step * p'" "sint off = step * p0" using m(2-4) by (auto elim!: dvdE)
  have d: "(sint v' - sint v) div step = p' - p" "(sint v - sint off) div step = p - p0" "(sint v' - sint off) div step = p' - p0"
    using m(1) by (simp_all add: pv flip: right_diff_distrib)
  have ord: "p < p'" "p0 \<le> p" using m(1,5,6) by (simp_all add: pv)
  show "drop (nat ((sint v' - sint v) div step)) (drop (nat ((sint v - sint off) div step)) cells) = drop (nat ((sint v' - sint off) div step)) cells"
    using ord unfolding d by (simp add: flip: nat_add_distrib)
  show "0 < (sint v' - sint v) div step" using ord by (simp add: d)
  show "kernel_map step off ((v', t', n') # syms)" using assms by (auto simp: kernel_map_def)
  have x: "x - sint v = (x - sint v') + (p' - p) * step" by (simp add: pv algebra_simps)
  show "(x - sint v) div step = (sint v' - sint v) div step + (x - sint v') div step"
    unfolding d x using m(1) by simp
qed

text \<open>A round in the middle of a System.map.\<close>

lemma map_round:
  fixes s :: "'l::len pstate"
  assumes m: "kernel_map step off ((v, t, n) # (v', t', n') # syms)" and small: "small_counters cells" and s: "at_symbol s (v, t, n) (v', t', n') syms"
    and r: "r = drop (nat ((sint v - sint off) div step)) cells" and k: "k = nat ((sint v' - sint v) div step)"
  shows "\<exists>ls s2. counted (take k r) t' s s2 \<and>
           profile_round func step off (w # cells) s =
             (if length r < k then Some (False, ls, s2) else do { s3 \<leftarrow> advance s2; Some (True, ls, s3\<lparr>ps_cur := v'\<rparr>) })"
proof -
  have pos: "0 < (sint v' - sint v) div step" by (rule next_segment(2)[OF m])
  have st: "0 < step" "step dvd sint v" "step dvd sint v'" "step dvd sint off" "sint off \<le> sint v" "sint v < sint v'" "sint v' - sint off < 2 ^ 29"
    using m unfolding kernel_map_def by simp_all
  have s': "ps_cur s = v" "ps_next s = Some v'" "ps_type s = Some t'" "\<not> ps_just s" using s by (simp_all add: at_symbol_def)
  have "int (length (take k r)) < (sint v' - sint v) div step \<longleftrightarrow> length r < k" using pos by (auto simp: k)
  then show ?thesis using round_symbol[OF st s' _ small, of "take k r" func w] by (simp add: k r)
qed

definition reach :: "int \<Rightarrow> symbol list \<Rightarrow> int" where
  "reach step syms = (sint (fst (last syms)) - sint (fst (hd syms))) div step"

lemma loop_symbols:
  fixes s :: "'l::len pstate"
  assumes "kernel_map step off ((v, t, n) # (v', t', n') # syms)" "small_counters cells" "at_symbol s (v, t, n) (v', t', n') syms"
    and "r = drop (nat ((sint v - sint off) div step)) cells"
  shows "if int (length r) < reach step ((v, t, n) # (v', t', n') # syms)
     then \<exists>ls s'. profile_loop func step off (w # cells) s = Some (ls, s') \<and>
            ps_list s' = foldl (\<lambda>l e. insert_entry e l) (ps_list s) (segments step ((v, t, n) # (v', t', n') # syms) r) \<and>
            ps_total s' = ps_total s + word_of_int (hits r)
     else profile_loop func step off (w # cells) s = None"
  using assms
proof (induction syms arbitrary: v t n v' t' n' s r)
  case Nil
  let ?k = "nat ((sint v' - sint v) div step)"
  have pos: "0 < (sint v' - sint v) div step" by (rule next_segment(2)[OF Nil.prems(1)])
  obtain ls s2 where s2: "counted (take ?k r) t' s s2"
    "profile_round func step off (w # cells) s =
       (if length r < ?k then Some (False, ls, s2) else do { s3 \<leftarrow> advance s2; Some (True, ls, s3\<lparr>ps_cur := v'\<rparr>) })"
    using map_round[OF Nil.prems refl] by blast
  have s: "ps_cur s = v" "ps_cname s = n" using Nil.prems(3) by (simp_all add: at_symbol_def)
  show ?case
  proof (cases "length r < ?k")
    case True
    then have "int (length r) < reach step [(v, t, n), (v', t', n')]" using pos by (simp add: reach_def)
    moreover have "profile_loop func step off (w # cells) s = Some (ls, s2)"
      using s2(2) True by (simp add: profile_loop.simps[of func step off _ s])
    moreover have "ps_list s2 = foldl (\<lambda>l e. insert_entry e l) (ps_list s) (segments step [(v, t, n), (v', t', n')] r)"
      "ps_total s2 = ps_total s + word_of_int (hits r)" using s2(1) s True by (simp_all add: counted_def Let_def)
    ultimately show ?thesis by simp
  next
    case False
    then have n: "\<not> int (length r) < reach step [(v, t, n), (v', t', n')]" using pos by (simp add: reach_def)
    let ?s3 = "s2\<lparr>ps_cname := n', ps_map := []\<rparr>"
    have "advance s2 = Some ?s3" using s2(1) Nil.prems(3) by (simp add: advance_def counted_def at_symbol_def map_text_def)
    then have "profile_round func step off (w # cells) s = Some (True, ls, ?s3\<lparr>ps_cur := v'\<rparr>)" using s2(2) False by simp
    moreover have "profile_loop func step off (w # cells) (?s3\<lparr>ps_cur := v'\<rparr>) = None"
      using stuck_loop[of func step off "w # cells" "?s3\<lparr>ps_cur := v'\<rparr>"] s2(1) Nil.prems(3)
      by (cases "profile_loop func step off (w # cells) (?s3\<lparr>ps_cur := v'\<rparr>)") (auto simp: counted_def at_symbol_def)
    ultimately show ?thesis using n by (simp add: profile_loop.simps[of func step off _ s])
  qed
next
  case (Cons sy syms)
  obtain v2 t2 n2 where sy: "sy = (v2, t2, n2)" by (cases sy)
  let ?k = "nat ((sint v' - sint v) div step)" and ?m = "(v', t', n') # (v2, t2, n2) # syms"
  note prems = Cons.prems[unfolded sy]
  note seg = next_segment[OF prems(1)]
  have ok: "symbol_ok (v2, t2, n2)" using prems(1) by (simp add: kernel_map_def)
  obtain ls s2 where s2: "counted (take ?k r) t' s s2"
    "profile_round func step off (w # cells) s =
       (if length r < ?k then Some (False, ls, s2) else do { s3 \<leftarrow> advance s2; Some (True, ls, s3\<lparr>ps_cur := v'\<rparr>) })"
    using map_round[OF prems refl] by blast
  have s: "ps_cur s = v" "ps_cname s = n" using prems(3) by (simp_all add: at_symbol_def)
  have split: "reach step ((v, t, n) # ?m) = (sint v' - sint v) div step + reach step ?m"
    using seg(4)[of "sint (fst (last ?m))"] by (simp add: reach_def)
  have "0 \<le> reach step ?m"
  proof -
    have "sint v' < sint (fst (last ((v2, t2, n2) # syms)))"
      using seg(3) last_in_set[of "(v2, t2, n2) # syms"] by (simp add: kernel_map_def split: if_splits)
    then have "0 \<le> sint (fst (last ?m)) - sint v'" by simp
    moreover have "0 < step" using seg(3) by (simp add: kernel_map_def)
    ultimately show ?thesis unfolding reach_def list.sel fst_conv by (intro pos_imp_zdiv_nonneg_iff[THEN iffD2])
  qed
  show ?case
  proof (cases "length r < ?k")
    case True
    then have "int (length r) < reach step ((v, t, n) # ?m)" using split seg(2) \<open>0 \<le> reach step ?m\<close> by linarith
    moreover have "profile_loop func step off (w # cells) s = Some (ls, s2)"
      using s2(2) True by (simp add: profile_loop.simps[of func step off _ s])
    moreover have "ps_list s2 = foldl (\<lambda>l e. insert_entry e l) (ps_list s) (segments step ((v, t, n) # ?m) r)"
      "ps_total s2 = ps_total s + word_of_int (hits r)" using s2(1) s True by (simp_all add: counted_def Let_def)
    ultimately show ?thesis by (simp add: sy)
  next
    case False
    let ?s3 = "s2\<lparr>ps_cname := n', ps_map := map_text syms, ps_next := Some v2, ps_type := Some t2, ps_nname := Some n2, ps_cur := v'\<rparr>"
    have "advance s2 = Some (s2\<lparr>ps_cname := n', ps_map := map_text syms, ps_next := Some v2, ps_type := Some t2, ps_nname := Some n2\<rparr>)"
      using s2(1) prems(3) by (intro advance_line ok) (simp_all add: counted_def at_symbol_def)
    then have rd: "profile_round func step off (w # cells) s = Some (True, ls, ?s3)" using s2(2) False by simp
    have at: "at_symbol ?s3 (v', t', n') (v2, t2, n2) syms" using s2(1) prems(3) by (simp add: counted_def at_symbol_def)
    have rest: "drop ?k r = drop (nat ((sint v' - sint off) div step)) cells" unfolding prems(4) by (rule seg(1))
    note ih = Cons.IH[OF seg(3) prems(2) at rest]
    have iff: "int (length (drop ?k r)) < reach step ?m \<longleftrightarrow> int (length r) < reach step ((v, t, n) # ?m)"
      using False seg(2) unfolding split by auto
    have lst: "ps_list ?s3 = foldl (\<lambda>l e. insert_entry e l) (ps_list s) (hit_entry v t' n (take ?k r))"
      "ps_total ?s3 = ps_total s + word_of_int (hits (take ?k r))" using s2(1) s by (simp_all add: counted_def)
    have sum: "hits r = hits (take ?k r) + hits (drop ?k r)" by (metis append_take_drop_id hits_simps(3))
    have unf: "profile_loop func step off (w # cells) s =
        do { (ls', s4) \<leftarrow> profile_loop func step off (w # cells) ?s3; Some (ls @ ls', s4) }"
      using rd by (simp add: profile_loop.simps[of func step off _ s])
    show ?thesis
    proof (cases "int (length r) < reach step ((v, t, n) # ?m)")
      case True
      with ih iff obtain ls' s4 where l: "profile_loop func step off (w # cells) ?s3 = Some (ls', s4)"
        "ps_list s4 = foldl (\<lambda>l e. insert_entry e l) (ps_list ?s3) (segments step ?m (drop ?k r))"
        "ps_total s4 = ps_total ?s3 + word_of_int (hits (drop ?k r))" by (auto split: if_splits)
      have "ps_list s4 = foldl (\<lambda>l e. insert_entry e l) (ps_list s) (segments step ((v, t, n) # ?m) r)"
        using l(2) False unfolding lst by (simp add: Let_def)
      moreover have "ps_total s4 = ps_total s + word_of_int (hits r)" using l(3) unfolding lst sum by (simp add: add.assoc)
      ultimately show ?thesis using True l(1) unf by (simp add: sy)
    next
      case nomore: False
      with ih iff have "profile_loop func step off (w # cells) ?s3 = None" by (simp split: if_splits)
      with unf nomore show ?thesis by (simp add: sy)
    qed
  qed
qed

subsection \<open>The histogram of a run\<close>

lemma segments_time: "e \<in> set (segments step syms cells) \<Longrightarrow> 0 < en_time e \<and> en_time e \<le> hits cells"
proof (induction step syms cells rule: segments.induct)
  case (1 step v t n v' t' n' syms cells)
  let ?k = "nat ((sint v' - sint v) div step)"
  have sum: "hits cells = hits (take ?k cells) + hits (drop ?k cells)" by (metis append_take_drop_id hits_simps(3))
  have pos: "0 \<le> hits (take ?k cells)" "0 \<le> hits (drop ?k cells)" by simp_all
  consider "e \<in> set (hit_entry v t' n (take ?k cells) :: 'a entry list)"
    | "\<not> length cells < ?k" "e \<in> set (segments step ((v', t', n') # syms) (drop ?k cells))"
    using 1(2) by (auto simp: Let_def split: if_splits)
  then show ?case
  proof cases
    case 1
    then show ?thesis using sum pos by (auto simp: hit_entry_def less_le split: if_splits)
  next
    case 2
    from 1(1)[OF refl 2] show ?thesis using sum pos by linarith
  qed
qed simp_all

lemma segments_total:
  "kernel_map step off syms \<Longrightarrow> syms \<noteq> [] \<Longrightarrow> int (length cells) < reach step syms \<Longrightarrow>
   sum_list (map en_time (segments step syms cells)) = hits cells"
proof (induction step syms cells rule: segments.induct)
  case (1 step v t n v' t' n' syms cells)
  let ?k = "nat ((sint v' - sint v) div step)"
  note seg = next_segment[OF 1(2)]
  have sum: "hits cells = hits (take ?k cells) + hits (drop ?k cells)" by (metis append_take_drop_id hits_simps(3))
  show ?case
  proof (cases "length cells < ?k")
    case False
    have "reach step ((v, t, n) # (v', t', n') # syms) = (sint v' - sint v) div step + reach step ((v', t', n') # syms)"
      using seg(4)[of "sint (fst (last ((v', t', n') # syms)))"] by (simp add: reach_def)
    then have "int (length (drop ?k cells)) < reach step ((v', t', n') # syms)" using 1(4) seg(2) False by simp
    from 1(1)[OF refl False seg(3) _ this] show ?thesis using False by (simp add: Let_def hit_entry_def sum)
  qed (simp add: Let_def hit_entry_def)
qed (simp_all add: reach_def)

text \<open>The lines of an entry and of the histogram.\<close>

definition entry_lines :: "int \<Rightarrow> 'l::len entry \<Rightarrow> 'l word pline list" where
  "entry_lines tot e =
     (let q = en_time e * 10000 div tot in
      PEntry (en_time e) (q div 100) (q mod 100) (en_address e) (en_name e) #
      (if text_type (en_type e) then [] else [PConflict (en_type e) (en_name e)]))"

definition histogram_lines :: "int \<Rightarrow> 'l::len entry list \<Rightarrow> 'l word pline list" where
  "histogram_lines tot es =
     concat (map (entry_lines tot) es) @ [PTotal tot] @ (if list_ex (\<lambda>e. \<not> text_type (en_type e)) es then [PWarnType] else [])"

lemma show_symbols_ok:
  assumes tot: "sum_list (map en_time es) = tot" "tot * 10000 < 2 ^ 63" and es: "\<And>e. e \<in> set es \<Longrightarrow> 0 < en_time e \<and> en_time e \<le> tot" and nn: "0 \<le> tot"
  shows "show_symbols tot es = Some (histogram_lines tot es)"
proof -
  have "(\<forall>e \<in> set fs. 0 < en_time e \<and> en_time e \<le> tot) \<Longrightarrow> show_entries tot fs = Some (concat (map (entry_lines tot) fs))" for fs :: "'a entry list"
  proof (induction fs)
    case (Cons e fs)
    then have e: "0 < en_time e" "en_time e \<le> tot" by simp_all
    have "is_llong (en_time e * 10000)" using e tot(2) by (simp add: is_llong_def)
    moreover have "cdiv (en_time e * 10000) tot = en_time e * 10000 div tot" using e cdiv_nonneg by simp
    moreover have "0 \<le> en_time e * 10000 div tot" using e by (simp add: pos_imp_zdiv_nonneg_iff)
    ultimately show ?case using Cons e cdiv_nonneg[of "en_time e * 10000 div tot" 100] by (simp add: entry_lines_def Let_def)
  qed simp
  with es have "show_entries tot es = Some (concat (map (entry_lines tot) es))" by blast
  moreover have "is_llong tot" using tot(2) nn by (simp add: is_llong_def)
  ultimately show ?thesis using tot(1) by (simp add: show_symbols_def histogram_lines_def Let_def)
qed

text \<open>
  C35. On a System.map that fits the step, with fewer counters than its symbols span: the loop ends, every counter is
  attributed to exactly one symbol, in the order of the map, and the histogram is the stable sort of these by
  the number of hits, with the sum of all counters as its total and no warning about it. The type checked for a
  symbol is the one of the next symbol in the map.
\<close>
theorem profile_attributes_hits:
  fixes syms :: "symbol list"
  assumes m: "kernel_map (sint w) v ((v, t, n) # sy # syms)" and small: "small_counters cells"
    and ends: "int (length cells) < reach (sint w) ((v, t, n) # sy # syms)"
  shows "\<exists>s0 ls s'. profile_start (map_text ((v, t, n) # sy # syms)) = Some (Some v, s0) \<and>
           profile_histogram func (sint w) v (w # cells) s0 =
             Some (ls @ histogram_lines (hits cells) (sort_key en_time (segments (sint w) ((v, t, n) # sy # syms) cells) :: 'l::len entry list), s')"
proof -
  obtain v' t' n' where sy: "sy = (v', t', n')" by (cases sy)
  let ?es = "segments (sint w) ((v, t, n) # sy # syms) cells :: 'l entry list"
  have ok: "symbol_ok (v, t, n)" "symbol_ok (v', t', n')" using m by (simp_all add: kernel_map_def sy)
  obtain s0 :: "'l pstate" where s0: "profile_start (map_text ((v, t, n) # sy # syms)) = Some (Some v, s0)"
    "at_symbol s0 (v, t, n) (v', t', n') syms" "ps_list s0 = []" "ps_total s0 = 0"
    using profile_start_text[OF ok, of syms, where 'a = 'l] by (simp add: sy at_symbol_def)
  obtain ls s' where l: "profile_loop func (sint w) v (w # cells) s0 = Some (ls, s')"
    "ps_list s' = foldl (\<lambda>l e. insert_entry e l) (ps_list s0) ?es" "ps_total s' = ps_total s0 + word_of_int (hits cells)"
    using loop_symbols[OF m[unfolded sy] small s0(2), where r = cells and w = w and func = func] ends by (auto simp: sy)
  have list: "ps_list s' = sort_key en_time ?es" using insert_entries_sort[of "[]" ?es] l(2) s0(3) by simp
  have "hits cells < 2 ^ 63" "hits cells * 10000 < 2 ^ 63" using small hits_simps(4)[of cells] by (auto simp: small_counters_def)
  then have total: "sint (ps_total s') = hits cells" using l(3) s0(4) sint_64[of "hits cells"] by simp
  have "sum_list (map en_time (sort_key en_time ?es)) = sum_list (map en_time ?es)"
    by (metis mset_map mset_sort sum_mset_sum_list)
  then have "show_symbols (hits cells) (sort_key en_time ?es) = Some (histogram_lines (hits cells) (sort_key en_time ?es))"
    using segments_total[OF m _ ends] segments_time[of _ "sint w" "(v, t, n) # sy # syms" cells] \<open>hits cells * 10000 < 2 ^ 63\<close>
    by (intro show_symbols_ok) auto
  with l(1) total list have "profile_histogram func (sint w) v (w # cells) s0 =
      Some (ls @ histogram_lines (hits cells) (sort_key en_time ?es), s')" by (simp add: profile_histogram_def)
  with s0(1) show ?thesis by blast
qed

text \<open>
  C36. The main loop ends exactly when the counters run out before the symbols of the map: a profile that covers
  the whole of the map is read for ever, because at its end \<open>fscanf\<close> leaves the next symbol as it was.
\<close>
theorem profile_loop_ends_iff:
  fixes s0 :: "'l::len pstate"
  assumes m: "kernel_map (sint w) v ((v, t, n) # sy # syms)" and small: "small_counters cells"
    and s0: "profile_start (map_text ((v, t, n) # sy # syms)) = Some (Some v, s0)"
  shows "profile_loop func (sint w) v (w # cells) s0 \<noteq> None \<longleftrightarrow> int (length cells) < reach (sint w) ((v, t, n) # sy # syms)"
proof -
  obtain v' t' n' where sy: "sy = (v', t', n')" by (cases sy)
  have ok: "symbol_ok (v, t, n)" "symbol_ok (v', t', n')" using m by (simp_all add: kernel_map_def sy)
  have "at_symbol s0 (v, t, n) (v', t', n') syms" using profile_start_text[OF ok, of syms, where 'a = 'l] s0 by (auto simp: sy at_symbol_def)
  from loop_symbols[OF m[unfolded sy] small this, where r = cells and w = w and func = func] show ?thesis by (auto simp: sy split: if_splits)
qed

subsection \<open>Witnesses\<close>

definition kmap0 :: "symbol list" where
  "kmap0 = [(0x1000, CHR ''T'', ''_stext''), (0x1010, CHR ''T'', ''sys_open''), (0x1030, CHR ''A'', ''_etext''), (0x2000, CHR ''D'', ''data'')]"

lemma kmap0: "kernel_map (sint (16 :: 32 word)) 0x1000 kmap0" "small_counters [3, 0, 5]" "reach (sint (16 :: 32 word)) kmap0 = 256"
  by (simp_all add: kernel_map_def kmap0_def symbol_ok_def isspace_def small_counters_def reach_def)

text \<open>The type of \<open>sys_open\<close> is reported as that of \<open>_etext\<close>.\<close>

theorem profile_attributes_hits_witness:
  "\<exists>s0 ls s'. profile_start (map_text kmap0) = Some (Some 0x1000, s0) \<and>
     profile_histogram ''main'' 16 0x1000 [16, 3, 0, 5] s0 =
       Some (ls @ [PEntry 3 37 50 (0x1000 :: 64 word) ''stext'', PEntry 5 62 50 0x1010 ''sys_open'', PConflict (CHR ''A'') ''sys_open'', PTotal 8, PWarnType], s')"
proof -
  let ?es = "segments (sint (16 :: 32 word)) kmap0 [3, 0, 5] :: 64 entry list"
  have es: "?es = [\<lparr>en_time = 3, en_address = 0x1000, en_type = CHR ''T'', en_name = ''stext''\<rparr>,
      \<lparr>en_time = 5, en_address = 0x1010, en_type = CHR ''A'', en_name = ''sys_open''\<rparr>]"
    by (simp add: kmap0_def hit_entry_def symbol_name_def)
  have "histogram_lines (hits [3, 0, 5]) (sort_key en_time ?es) =
      [PEntry 3 37 50 0x1000 ''stext'', PEntry 5 62 50 0x1010 ''sys_open'', PConflict (CHR ''A'') ''sys_open'', PTotal 8, PWarnType]"
    unfolding es by (simp add: histogram_lines_def entry_lines_def text_type_def)
  then show ?thesis
    using profile_attributes_hits[where w = "16 :: 32 word" and func = "''main''", OF _ kmap0(2), where 'l = 64] kmap0 by (force simp: kmap0_def)
qed

theorem profile_loop_ends_iff_witness:
  "\<exists>s0 :: 64 pstate. profile_start (map_text kmap0) = Some (Some 0x1000, s0) \<and>
     profile_loop ''main'' 16 0x1000 [16, 3, 0, 5] s0 \<noteq> None \<and> profile_loop ''main'' 16 0x1000 (16 # replicate 256 1) s0 = None"
proof -
  have ok: "symbol_ok (0x1000, CHR ''T'', ''_stext'')" "symbol_ok (0x1010, CHR ''T'', ''sys_open'')" by (simp_all add: symbol_ok_def isspace_def)
  obtain s0 :: "64 pstate" where s0: "profile_start (map_text kmap0) = Some (Some 0x1000, s0)"
    using profile_start_text[OF ok, where 'a = 64] unfolding kmap0_def by blast
  have "hits (replicate n 1) = int n" for n by (induction n) simp_all
  then have "small_counters (replicate 256 1)" by (simp add: small_counters_def)
  note ends = profile_loop_ends_iff[OF kmap0(1)[unfolded kmap0_def] _ s0[unfolded kmap0_def], of _ "''main''", folded kmap0_def, unfolded kmap0(3)]
  show ?thesis using s0 ends[OF kmap0(2)] ends[OF \<open>small_counters (replicate 256 1)\<close>]
    by (intro exI[of _ s0] conjI) (simp_all del: not_None_eq)
qed

end
