(* ===== verification/Getifaddrs.thy ===== *)
theory Getifaddrs
  imports Prelude
begin

text \<open>
  The list of network interfaces, getifaddrs.c, for systems whose library has none, and the address parser
  of inet\_aton.c. The kernel's calls and the allocator are arguments, on a state of their own; the heap is
  the set of the blocks in use, so that a second \<open>free\<close> of a block is a crash. The sizes of the structures
  and the variants of \<open>struct sockaddr\<close> are arguments too.
\<close>

subsection \<open>The environment\<close>

datatype af = AF_INET_6 | AF_INET_4

datatype ioctl_req = SIOCGIFCONF | SIOCGIFFLAGS | SIOCGIF6CONF | SIOCGIF6FLAGS

text \<open>
  \<open>ga_sa_len\<close> is the length of an address as its first byte or \<open>SA_LEN\<close> tells, where addresses have
  a length. \<open>ioctl(fd, siocgifconf, &ifconf)\<close> gives an error, \<open>ifc_len\<close> and the contents of the buffer.
\<close>

record layout =
  ga_ifnamsiz :: nat
  ga_sockaddr :: nat
  ga_ifaddrs :: nat
  ga_sa_len :: "(char list \<Rightarrow> nat) option"

record 'o ga_calls =
  ga_alloc :: "nat \<Rightarrow> nat set \<Rightarrow> 'o \<Rightarrow> nat option \<times> 'o"
  ga_socket :: "af \<Rightarrow> 'o \<Rightarrow> (errno + int) \<times> 'o"
  ga_conf :: "int \<Rightarrow> ioctl_req \<Rightarrow> nat \<Rightarrow> 'o \<Rightarrow> (errno option \<times> int \<times> char list) \<times> 'o"
  ga_flags :: "int \<Rightarrow> ioctl_req \<Rightarrow> char list \<Rightarrow> 'o \<Rightarrow> (errno + 16 word) \<times> 'o"
  ga_close :: "int \<Rightarrow> 'o \<Rightarrow> 'o"

record 'o ga_world =
  gw_heap :: "nat set"
  gw_os :: 'o

definition ga_call :: "('o \<Rightarrow> 'a \<times> 'o) \<Rightarrow> 'o ga_world \<Rightarrow> 'a \<times> 'o ga_world" where
  "ga_call f w = (case f (gw_os w) of (a, x) \<Rightarrow> (a, w\<lparr>gw_os := x\<rparr>))"

definition ga_malloc :: "'o ga_calls \<Rightarrow> nat \<Rightarrow> 'o ga_world \<Rightarrow> nat option \<times> 'o ga_world" where
  "ga_malloc K n w = (case ga_call (ga_alloc K n (gw_heap w)) w of
     (None, w1) \<Rightarrow> (None, w1) | (Some a, w1) \<Rightarrow> (Some a, w1\<lparr>gw_heap := insert a (gw_heap w1)\<rparr>))"

text \<open>A block that is written to without a check.\<close>

definition ga_block :: "'o ga_calls \<Rightarrow> nat \<Rightarrow> 'o ga_world \<Rightarrow> (nat \<times> 'o ga_world) option" where
  "ga_block K n w = (case ga_malloc K n w of (None, w1) \<Rightarrow> None | (Some a, w1) \<Rightarrow> Some (a, w1))"

definition ga_free :: "nat option \<Rightarrow> 'o ga_world \<Rightarrow> 'o ga_world option" where
  "ga_free p w = (case p of None \<Rightarrow> Some w | Some a \<Rightarrow> do { assertion (a \<in> gw_heap w); Some (w\<lparr>gw_heap := gw_heap w - {a}\<rparr>) })"

subsection \<open>The list\<close>

text \<open>A node of the list; a pointer carries what it points to. The list of nodes stands for the links.\<close>

record ifaddrs =
  ifa_at :: nat
  ifa_name :: "(nat \<times> char list) option"
  ifa_flags :: "32 word"
  ifa_addr :: "nat \<times> char list"
  ifa_netmask :: "nat option"
  ifa_dstaddr :: "nat option"
  ifa_data :: "nat option"

text \<open>
  The buffer is doubled as long as the kernel fills it; the result is an error, or the length and the
  contents, with the buffer's block. An \<open>ioctl\<close> that fails with EINVAL counts as one that filled the buffer,
  if it leaves \<open>ifc_len\<close> alone.
\<close>

definition int_of_size :: "nat \<Rightarrow> int" where
  "int_of_size n = sint (of_nat n :: 32 word)"

partial_function (option) conf_loop ::
  "'o ga_calls \<Rightarrow> int \<Rightarrow> ioctl_req \<Rightarrow> nat \<Rightarrow> 'o ga_world \<Rightarrow> ((errno + int \<times> char list) \<times> nat option \<times> 'o ga_world) option" where
  "conf_loop K fd req buf_size w =
     (case ga_malloc K buf_size w of
        (None, w1) \<Rightarrow> Some (Inl ENOMEM, None, w1)
      | (Some b, w1) \<Rightarrow>
          (case ga_call (ga_conf K fd req buf_size) w1 of
             ((err, len, buf), w2) \<Rightarrow>
               if err \<noteq> None \<and> err \<noteq> Some EINVAL then Some (Inl (the err), Some b, w2)
               else if len < int_of_size buf_size then Some (Inr (len, buf), Some b, w2)
               else do { w3 \<leftarrow> ga_free (Some b) w2; conf_loop K fd req (2 * buf_size) w3 }))"

text \<open>\<open>strdup(ifr->ifr_name)\<close>: a name without an end runs into what follows it; a null result is kept.\<close>

definition ga_strdup :: "'o ga_calls \<Rightarrow> char list \<Rightarrow> 'o ga_world \<Rightarrow> ((nat \<times> char list) option \<times> 'o ga_world) option" where
  "ga_strdup K s w = do {
     assertion (NUL \<in> set s);
     let str = takeWhile (\<lambda>c. c \<noteq> NUL) s;
     let (a, w1) = ga_malloc K (length str + 1) w;
     Some (map_option (\<lambda>a. (a, str)) a, w1)
   }"

text \<open>The walk over the records in the buffer, 114-171; a read behind the buffer is undefined.\<close>

partial_function (option) ifreq_walk ::
  "'o ga_calls \<Rightarrow> layout \<Rightarrow> int \<Rightarrow> ioctl_req \<Rightarrow> nat \<Rightarrow> char list \<Rightarrow> int \<Rightarrow> nat \<Rightarrow> 'o ga_world \<Rightarrow>
   ((errno + ifaddrs list) \<times> 'o ga_world) option" where
  "ifreq_walk K L fd req ifreq_sz buf len p w =
     (if \<not> int p < len then Some (Inr [], w)
      else do {
        assertion (p + ga_ifnamsiz L \<le> length buf);
        let sa = drop (p + ga_ifnamsiz L) buf;
        let salen = (case ga_sa_len L of None \<Rightarrow> ga_sockaddr L | Some f \<Rightarrow> f sa);
        let sz = (case ga_sa_len L of None \<Rightarrow> ifreq_sz | Some f \<Rightarrow> max ifreq_sz (ga_ifnamsiz L + f sa));
        let (r, w1) = ga_call (ga_flags K fd req (take (ga_ifnamsiz L) (drop p buf))) w;
        case r of
          Inl e \<Rightarrow> Some (Inl e, w1)
        | Inr fl \<Rightarrow> do {
            (a, w2) \<leftarrow> ga_block K (ga_ifaddrs L) w1;
            (nm, w3) \<leftarrow> ga_strdup K (drop p buf) w2;
            (b, w4) \<leftarrow> ga_block K salen w3;
            assertion (salen \<le> length sa);
            (rest, w5) \<leftarrow> ifreq_walk K L fd req ifreq_sz buf len (p + sz) w4;
            let node = \<lparr>ifa_at = a, ifa_name = nm, ifa_flags = scast fl, ifa_addr = (b, take salen sa),
                        ifa_netmask = None, ifa_dstaddr = None, ifa_data = None\<rparr>;
            Some (case rest of Inl e \<Rightarrow> Inl e | Inr ns \<Rightarrow> Inr (node # ns), w5)
          }
      })"

text \<open>
  \<open>getifaddrs2\<close>. In the result None is a pointer without a value: \<open>start\<close> is stored into by the first node
  only.
\<close>

definition getifaddrs2 ::
  "'o ga_calls \<Rightarrow> layout \<Rightarrow> af \<Rightarrow> ioctl_req \<Rightarrow> ioctl_req \<Rightarrow> nat \<Rightarrow> 'o ga_world \<Rightarrow> ((errno + ifaddrs list option) \<times> 'o ga_world) option" where
  "getifaddrs2 K L a conf flags ifreq_sz w =
     (case ga_call (ga_socket K a) w of
        (Inl e, w1) \<Rightarrow> Some (Inl e, w1)
      | (Inr fd, w1) \<Rightarrow> do {
          (r, b, w2) \<leftarrow> conf_loop K fd conf 8192 w1;
          (r2, w3) \<leftarrow> (case r of Inl e \<Rightarrow> Some (Inl e, w2) | Inr (len, buf) \<Rightarrow> ifreq_walk K L fd flags ifreq_sz buf len 0 w2);
          w4 \<leftarrow> ga_free b (w3\<lparr>gw_os := ga_close K fd (gw_os w3)\<rparr>);
          Some (case r2 of Inl e \<Rightarrow> Inl e | Inr ns \<Rightarrow> Inr (if ns = [] then None else Some ns), w4)
        })"

text \<open>The attempts that are compiled in, in order, and \<open>getifaddrs\<close>; the first error number is ENXIO.\<close>

definition attempts :: "bool \<Rightarrow> bool \<Rightarrow> bool \<Rightarrow> nat \<Rightarrow> nat \<Rightarrow> (af \<times> ioctl_req \<times> ioctl_req \<times> nat) list" where
  "attempts has_if6 ipv6 ipv4 in6_ifreq_sz ifreq_sz =
     (if has_if6 then [(AF_INET_6, SIOCGIF6CONF, SIOCGIF6FLAGS, in6_ifreq_sz)] else []) @
     (if ipv6 then [(AF_INET_6, SIOCGIFCONF, SIOCGIFFLAGS, ifreq_sz)] else []) @
     (if ipv4 then [(AF_INET_4, SIOCGIFCONF, SIOCGIFFLAGS, ifreq_sz)] else [])"

fun getifaddrs ::
  "'o ga_calls \<Rightarrow> layout \<Rightarrow> (af \<times> ioctl_req \<times> ioctl_req \<times> nat) list \<Rightarrow> errno \<Rightarrow> 'o ga_world \<Rightarrow>
   ((errno + ifaddrs list option) \<times> 'o ga_world) option" where
  "getifaddrs K L [] err w = Some (Inl err, w)"
| "getifaddrs K L ((a, conf, flags, sz) # atts) err w = do {
     (r, w1) \<leftarrow> getifaddrs2 K L a conf flags sz w;
     case r of Inl e \<Rightarrow> getifaddrs K L atts e w1 | Inr x \<Rightarrow> Some (Inr x, w1)
   }"

fun freeifaddrs :: "ifaddrs list \<Rightarrow> 'o ga_world \<Rightarrow> 'o ga_world option" where
  "freeifaddrs [] w = Some w"
| "freeifaddrs (p # ps) w = do {
     w1 \<leftarrow> ga_free (map_option fst (ifa_name p)) w;
     w2 \<leftarrow> ga_free (Some (fst (ifa_addr p))) w1;
     w3 \<leftarrow> ga_free (ifa_dstaddr p) w2;
     w4 \<leftarrow> ga_free (ifa_netmask p) w3;
     w5 \<leftarrow> ga_free (ifa_data p) w4;
     w6 \<leftarrow> ga_free (Some (ifa_at p)) w5;
     freeifaddrs ps w6
   }"

text \<open>
  inet\_aton.c: \<open>inet_addr\<close> is the library's; its error value is also the address 255.255.255.255.
\<close>

definition inet_aton :: "(char list \<Rightarrow> 32 word) \<Rightarrow> char list \<Rightarrow> 32 word \<times> bool" where
  "inet_aton inet_addr cp = (let a = inet_addr cp in (a, a \<noteq> -1))"

subsection \<open>The heap\<close>

definition alloc_fresh :: "'o ga_calls \<Rightarrow> bool" where
  "alloc_fresh K = (\<forall>n H x a. fst (ga_alloc K n H x) = Some a \<longrightarrow> a \<notin> H)"

definition name_block :: "ifaddrs \<Rightarrow> nat list" where
  "name_block p = (case ifa_name p of None \<Rightarrow> [] | Some (a, s) \<Rightarrow> [a])"

definition node_blocks :: "ifaddrs \<Rightarrow> nat list" where
  "node_blocks p = name_block p @ [fst (ifa_addr p), ifa_at p]"

definition list_ok :: "nat set \<Rightarrow> ifaddrs list \<Rightarrow> bool" where
  "list_ok H ns = (distinct (concat (map node_blocks ns)) \<and> set (concat (map node_blocks ns)) \<inter> H = {} \<and>
     (\<forall>p \<in> set ns. ifa_netmask p = None \<and> ifa_dstaddr p = None \<and> ifa_data p = None))"

lemma list_ok_Cons:
  assumes "list_ok (H \<union> set (node_blocks p)) ns" "distinct (node_blocks p)" "set (node_blocks p) \<inter> H = {}"
    "ifa_netmask p = None" "ifa_dstaddr p = None" "ifa_data p = None"
  shows "list_ok H (p # ns)"
  using assms by (auto simp: list_ok_def)

lemma ga_call_heap [simp]: "gw_heap (snd (ga_call f w)) = gw_heap w"
  by (simp add: ga_call_def split_beta)

lemma ga_malloc_heap:
  assumes "alloc_fresh K" "ga_malloc K n w = (r, w')"
  shows "case r of None \<Rightarrow> gw_heap w' = gw_heap w | Some a \<Rightarrow> a \<notin> gw_heap w \<and> gw_heap w' = insert a (gw_heap w)"
proof -
  have "fst (ga_call (ga_alloc K n (gw_heap w)) w) = Some a \<Longrightarrow> a \<notin> gw_heap w" for a
    using assms(1) by (simp add: ga_call_def alloc_fresh_def split_beta)
  then show ?thesis using assms(2) ga_call_heap[of "ga_alloc K n (gw_heap w)" w]
    by (auto simp: ga_malloc_def split_beta split: option.splits prod.splits)
qed

lemma ga_block_heap: "alloc_fresh K \<Longrightarrow> ga_block K n w = Some (a, w') \<Longrightarrow> a \<notin> gw_heap w \<and> gw_heap w' = insert a (gw_heap w)"
  using ga_malloc_heap[of K n w "Some a" w'] by (auto simp: ga_block_def split: prod.splits option.splits)

lemma ga_strdup_heap:
  assumes "alloc_fresh K" "ga_strdup K s w = Some (nm, w')"
  shows "(case nm of None \<Rightarrow> gw_heap w' = gw_heap w | Some (a, t) \<Rightarrow> a \<notin> gw_heap w \<and> gw_heap w' = insert a (gw_heap w))"
proof -
  obtain a w1 where m: "ga_malloc K (length (takeWhile (\<lambda>c. c \<noteq> NUL) s) + 1) w = (a, w1)" by fastforce
  then show ?thesis using assms(2) ga_malloc_heap[OF assms(1) m] by (cases a) (auto simp: ga_strdup_def bind_eq_Some_conv Let_def)
qed

lemma ifreq_walk_heap:
  "ifreq_walk K L fd req sz buf len p w = Some (r, w') \<Longrightarrow> alloc_fresh K \<Longrightarrow>
   case r of Inl e \<Rightarrow> gw_heap w \<subseteq> gw_heap w'
   | Inr ns \<Rightarrow> list_ok (gw_heap w) ns \<and> gw_heap w' = gw_heap w \<union> set (concat (map node_blocks ns))"
proof -
  have "alloc_fresh K \<longrightarrow> (case fst z of Inl e \<Rightarrow> gw_heap w \<subseteq> gw_heap (snd z)
     | Inr ns \<Rightarrow> list_ok (gw_heap w) ns \<and> gw_heap (snd z) = gw_heap w \<union> set (concat (map node_blocks ns)))"
    if "ifreq_walk K L fd req sz buf len p w = Some z" for p w z
    using that
  proof (induction rule: ifreq_walk.raw_induct[rotated 1, consumes 1, case_names step])
    case (step f K L fd req sz buf len p w z)
    show ?case
    proof (cases "int p < len")
      case False
      then show ?thesis using step(2) by (auto simp: list_ok_def)
    next
      case True
      show ?thesis
      proof
        assume fr: "alloc_fresh K"
        let ?sa = "drop (p + ga_ifnamsiz L) buf"
        obtain q w1 where fl: "ga_call (ga_flags K fd req (take (ga_ifnamsiz L) (drop p buf))) w = (q, w1)" by fastforce
        have h1: "gw_heap w1 = gw_heap w" using ga_call_heap[of "ga_flags K fd req (take (ga_ifnamsiz L) (drop p buf))" w] by (simp add: fl)
        show "case fst z of Inl e \<Rightarrow> gw_heap w \<subseteq> gw_heap (snd z)
           | Inr ns \<Rightarrow> list_ok (gw_heap w) ns \<and> gw_heap (snd z) = gw_heap w \<union> set (concat (map node_blocks ns))"
        proof (cases q)
          case (Inl e)
          then show ?thesis using step(2) True fl h1 by (auto simp: bind_eq_Some_conv Let_def)
        next
          case (Inr b)
          obtain a w2 nm w3 c w4 rest w5 p' k where
            s: "ga_block K (ga_ifaddrs L) w1 = Some (a, w2)" "ga_strdup K (drop p buf) w2 = Some (nm, w3)" "ga_block K k w3 = Some (c, w4)"
              "f K L fd req sz buf len p' w4 = Some (rest, w5)"
              "z = (case rest of Inl e \<Rightarrow> Inl e | Inr ns \<Rightarrow> Inr (\<lparr>ifa_at = a, ifa_name = nm, ifa_flags = scast b, ifa_addr = (c, take k ?sa),
                        ifa_netmask = None, ifa_dstaddr = None, ifa_data = None\<rparr> # ns), w5)"
            using step(2) True fl unfolding Inr by (auto simp: bind_eq_Some_conv Let_def)
          note ih = step(1)[OF s(4), THEN mp, OF fr, unfolded fst_conv snd_conv]
          note heap = h1 ga_block_heap[OF fr s(1)] ga_strdup_heap[OF fr s(2)] ga_block_heap[OF fr s(3)]
          show ?thesis
          proof (cases rest)
            case (Inl e)
            then show ?thesis using ih heap unfolding s(5) by (auto split: option.splits)
          next
            case (Inr ns)
            let ?p = "\<lparr>ifa_at = a, ifa_name = nm, ifa_flags = scast b, ifa_addr = (c, take k ?sa), ifa_netmask = None, ifa_dstaddr = None, ifa_data = None\<rparr> :: ifaddrs"
            have p: "gw_heap w4 = gw_heap w \<union> set (node_blocks ?p)" "distinct (node_blocks ?p)" "set (node_blocks ?p) \<inter> gw_heap w = {}"
              using heap by (cases nm; auto simp: node_blocks_def name_block_def)+
            have rest: "list_ok (gw_heap w \<union> set (node_blocks ?p)) ns" "gw_heap w5 = gw_heap w \<union> set (node_blocks ?p) \<union> set (concat (map node_blocks ns))"
              using ih unfolding Inr by (simp_all add: p(1))
            have "list_ok (gw_heap w) (?p # ns)" using rest(1) p(2,3) by (rule list_ok_Cons) simp_all
            then show ?thesis using rest(2) unfolding s(5) Inr by (simp add: Un_assoc)
          qed
        qed
      qed
    qed
  qed
  from this[of p w "(r, w')", unfolded fst_conv snd_conv] show "ifreq_walk K L fd req sz buf len p w = Some (r, w') \<Longrightarrow> alloc_fresh K \<Longrightarrow>
   case r of Inl e \<Rightarrow> gw_heap w \<subseteq> gw_heap w'
   | Inr ns \<Rightarrow> list_ok (gw_heap w) ns \<and> gw_heap w' = gw_heap w \<union> set (concat (map node_blocks ns))" by simp
qed

lemma conf_loop_heap:
  "conf_loop K fd req n w = Some (r, b, w') \<Longrightarrow> alloc_fresh K \<Longrightarrow>
   case b of None \<Rightarrow> gw_heap w' = gw_heap w | Some a \<Rightarrow> a \<notin> gw_heap w \<and> gw_heap w' = insert a (gw_heap w)"
proof -
  have "alloc_fresh K \<longrightarrow> (case fst (snd z) of None \<Rightarrow> gw_heap (snd (snd z)) = gw_heap w
      | Some a \<Rightarrow> a \<notin> gw_heap w \<and> gw_heap (snd (snd z)) = insert a (gw_heap w))"
    if "conf_loop K fd req n w = Some z" for n w z
    using that
  proof (induction rule: conf_loop.raw_induct[rotated 1, consumes 1, case_names step])
    case (step f K fd req n w z)
    show ?case
    proof
      assume fr: "alloc_fresh K"
      obtain r w1 where m: "ga_malloc K n w = (r, w1)" by fastforce
      show "case fst (snd z) of None \<Rightarrow> gw_heap (snd (snd z)) = gw_heap w
        | Some a \<Rightarrow> a \<notin> gw_heap w \<and> gw_heap (snd (snd z)) = insert a (gw_heap w)"
      proof (cases r)
        case None
        then show ?thesis using step(2) ga_malloc_heap[OF fr m] m by auto
      next
        case (Some b)
        obtain err len buf w2 where c: "ga_call (ga_conf K fd req n) w1 = ((err, len, buf), w2)" by (metis prod_cases3 surj_pair)
        have h: "b \<notin> gw_heap w" "gw_heap w2 = insert b (gw_heap w)"
          using ga_malloc_heap[OF fr m] ga_call_heap[of "ga_conf K fd req n" w1] by (simp_all add: Some c)
        then have "ga_free (Some b) w2 = Some (w2\<lparr>gw_heap := gw_heap w\<rparr>)" by (simp add: ga_free_def)
        then show ?thesis using step(2) step(1)[of K fd req "2 * n" "w2\<lparr>gw_heap := gw_heap w\<rparr>" z] fr m c h unfolding Some
          by (auto split: if_splits cong: option.case_cong)
      qed
    qed
  qed
  from this[of n w "(r, b, w')", unfolded fst_conv snd_conv] show "conf_loop K fd req n w = Some (r, b, w') \<Longrightarrow> alloc_fresh K \<Longrightarrow>
   case b of None \<Rightarrow> gw_heap w' = gw_heap w | Some a \<Rightarrow> a \<notin> gw_heap w \<and> gw_heap w' = insert a (gw_heap w)" by simp
qed

lemma freeifaddrs_list:
  "list_ok H ns \<Longrightarrow> set (concat (map node_blocks ns)) \<subseteq> gw_heap w \<Longrightarrow>
   freeifaddrs ns w = Some (w\<lparr>gw_heap := gw_heap w - set (concat (map node_blocks ns))\<rparr>)"
proof (induction ns arbitrary: w)
  case (Cons p ns)
  let ?w = "w\<lparr>gw_heap := gw_heap w - set (node_blocks p)\<rparr>"
  have ok: "list_ok H ns" "set (concat (map node_blocks ns)) \<subseteq> gw_heap ?w" using Cons.prems by (auto simp: list_ok_def)
  have nulls: "ifa_netmask p = None" "ifa_dstaddr p = None" "ifa_data p = None" and d: "distinct (node_blocks p)"
    using Cons.prems(1) by (simp_all add: list_ok_def)
  have sub: "set (node_blocks p) \<subseteq> gw_heap w" using Cons.prems(2) by simp
  have "freeifaddrs (p # ns) w = freeifaddrs ns ?w"
  proof (cases "ifa_name p")
    case None
    have "gw_heap w - {b} - {c} = gw_heap w - {b, c}" for b c by auto
    with None sub d nulls show ?thesis by (simp add: node_blocks_def name_block_def ga_free_def)
  next
    case (Some q)
    obtain a str where q: "q = (a, str)" by (cases q)
    have "gw_heap w - {a} - {b} - {c} = gw_heap w - {a, b, c}" for b c by auto
    with Some sub d nulls show ?thesis by (simp add: q node_blocks_def name_block_def ga_free_def)
  qed
  with Cons.IH[OF ok] show ?case by (simp add: Diff_eq Int_assoc Compl_Un)
qed simp

subsection \<open>The interfaces\<close>

text \<open>
  An interface as the kernel reports it: its name, its address and its flags; the record of it in the
  buffer; and what the list says of it.
\<close>

type_synonym iface = "char list \<times> char list \<times> 16 word"

definition padded_name :: "layout \<Rightarrow> char list \<Rightarrow> char list" where
  "padded_name L n = n @ replicate (ga_ifnamsiz L - length n) NUL"

definition ifreq_of :: "layout \<Rightarrow> nat \<Rightarrow> iface \<Rightarrow> char list" where
  "ifreq_of L sz = (\<lambda>(n, a, f). padded_name L n @ a @ replicate (sz - ga_ifnamsiz L - ga_sockaddr L) NUL)"

definition view :: "ifaddrs \<Rightarrow> char list option \<times> char list \<times> 32 word" where
  "view p = (map_option snd (ifa_name p), snd (ifa_addr p), ifa_flags p)"

definition iface_view :: "iface \<Rightarrow> char list option \<times> char list \<times> 32 word" where
  "iface_view = (\<lambda>(n, a, f). (Some n, a, scast f))"

definition iface_ok :: "layout \<Rightarrow> iface \<Rightarrow> bool" where
  "iface_ok L = (\<lambda>(n, a, f). length n < ga_ifnamsiz L \<and> NUL \<notin> set n \<and> length a = ga_sockaddr L)"

text \<open>
  Linux, as netdevice(7) describes it: the interfaces that do not fit the buffer are skipped, and that
  cannot be told from the answer. The allocator does not fail.
\<close>

definition linux :: "'o ga_calls \<Rightarrow> layout \<Rightarrow> nat \<Rightarrow> iface list \<Rightarrow> bool" where
  "linux K L sz ifs =
     (ga_sa_len L = None \<and> ga_ifnamsiz L + ga_sockaddr L \<le> sz \<and> 0 < ga_ifnamsiz L \<and> list_all (iface_ok L) ifs \<and> sz * length ifs < 2 ^ 30 \<and>
      (\<forall>n H x. finite H \<longrightarrow> fst (ga_alloc K n H x) \<noteq> None) \<and> alloc_fresh K \<and>
      (\<forall>x. \<exists>fd. fst (ga_socket K AF_INET_4 x) = Inr fd) \<and>
      (\<forall>fd n x. let m = min (length ifs) (n div sz) in
         fst (ga_conf K fd SIOCGIFCONF n x) =
           (None, int (sz * m), concat (map (ifreq_of L sz) (take m ifs)) @ replicate (n - sz * m) NUL)) \<and>
      (\<forall>fd x. list_all (\<lambda>(n, a, f). fst (ga_flags K fd SIOCGIFFLAGS (padded_name L n) x) = Inr f) ifs))"

lemma linuxD:
  assumes "linux K L sz ifs"
  shows "ga_sa_len L = None" "ga_ifnamsiz L + ga_sockaddr L \<le> sz" "0 < ga_ifnamsiz L" "i \<in> set ifs \<Longrightarrow> iface_ok L i" "sz * length ifs < 2 ^ 30"
    "finite H \<Longrightarrow> fst (ga_alloc K n H x) \<noteq> None" "alloc_fresh K" "\<exists>fd. fst (ga_socket K AF_INET_4 x) = Inr fd"
    "fst (ga_conf K fd SIOCGIFCONF n x) =
       (None, int (sz * min (length ifs) (n div sz)),
        concat (map (ifreq_of L sz) (take (min (length ifs) (n div sz)) ifs)) @ replicate (n - sz * min (length ifs) (n div sz)) NUL)"
    "(nm, a, f) \<in> set ifs \<Longrightarrow> fst (ga_flags K fd SIOCGIFFLAGS (padded_name L nm) x) = Inr f"
  using assms unfolding linux_def Let_def list_all_iff by (elim conjE, blast)+

lemma ga_call_fst: "fst (f (gw_os w)) = r \<Longrightarrow> \<exists>w'. ga_call f w = (r, w') \<and> gw_heap w' = gw_heap w"
  by (auto simp: ga_call_def split_beta)

lemma malloc_linux:
  assumes lx: "linux K L sz ifs" and fin: "finite (gw_heap w)"
  shows "\<exists>a w'. ga_malloc K n w = (Some a, w') \<and> finite (gw_heap w')"
proof -
  obtain a where "fst (ga_alloc K n (gw_heap w) (gw_os w)) = Some a" using linuxD(6)[OF lx fin] by blast
  then obtain w' where "ga_call (ga_alloc K n (gw_heap w)) w = (Some a, w')" using ga_call_fst[of "ga_alloc K n (gw_heap w)" w] by blast
  then have m: "ga_malloc K n w = (Some a, w'\<lparr>gw_heap := insert a (gw_heap w')\<rparr>)" by (simp add: ga_malloc_def)
  then show ?thesis using fin ga_malloc_heap[OF linuxD(7)[OF lx] m] by simp
qed

lemma block_linux: "linux K L sz ifs \<Longrightarrow> finite (gw_heap w) \<Longrightarrow> \<exists>a w'. ga_block K n w = Some (a, w') \<and> finite (gw_heap w')"
  using malloc_linux[of K L sz ifs w n] by (auto simp: ga_block_def)

lemma ifreq_length: "iface_ok L i \<Longrightarrow> ga_ifnamsiz L + ga_sockaddr L \<le> sz \<Longrightarrow> length (ifreq_of L sz i) = sz"
  by (cases i) (auto simp: iface_ok_def ifreq_of_def padded_name_def)

lemma ifreqs_length:
  "list_all (iface_ok L) ifs \<Longrightarrow> ga_ifnamsiz L + ga_sockaddr L \<le> sz \<Longrightarrow> length (concat (map (ifreq_of L sz) ifs)) = sz * length ifs"
  by (induction ifs) (simp_all add: ifreq_length)

lemma walk_linux:
  assumes lx: "linux K L sz all" and sub: "set ifs \<subseteq> set all" and fin: "finite (gw_heap w)"
  shows "\<exists>ns w'. ifreq_walk K L fd SIOCGIFFLAGS sz (pre @ concat (map (ifreq_of L sz) ifs) @ post) (int (length pre + sz * length ifs)) (length pre) w =
           Some (Inr ns, w') \<and> map view ns = map iface_view ifs"
  using sub fin
proof (induction ifs arbitrary: pre w)
  case Nil
  show ?case by (subst ifreq_walk.simps) simp
next
  case (Cons i ifs)
  obtain n a f where i: "i = (n, a, f)" by (cases i)
  note L = linuxD(2,3,1)[OF lx]
  have iok: "iface_ok L i" using linuxD(4)[OF lx] Cons.prems by simp
  have ok: "length n < ga_ifnamsiz L" "NUL \<notin> set n" "length a = ga_sockaddr L" using iok by (simp_all add: i iface_ok_def)
  let ?rest = "concat (map (ifreq_of L sz) ifs) @ post"
  let ?buf = "pre @ concat (map (ifreq_of L sz) (i # ifs)) @ post" and ?len = "int (length pre + sz * length (i # ifs))"
  have buf: "?buf = (pre @ ifreq_of L sz i) @ ?rest" by simp
  have len: "?len = int (length (pre @ ifreq_of L sz i) + sz * length ifs)" using ifreq_length[OF iok L(1)] by simp
  have next_p: "length pre + sz = length (pre @ ifreq_of L sz i)" using ifreq_length[OF iok L(1)] by simp
  have pn: "length (padded_name L n) = ga_ifnamsiz L" using ok by (simp add: padded_name_def)
  have at: "drop (length pre) ?buf = padded_name L n @ a @ replicate (sz - ga_ifnamsiz L - ga_sockaddr L) NUL @ ?rest"
    by (simp add: i ifreq_of_def)
  have "drop (length pre + ga_ifnamsiz L) ?buf = drop (ga_ifnamsiz L) (drop (length pre) ?buf)" unfolding drop_drop by (simp only: add.commute)
  then have sa: "drop (length pre + ga_ifnamsiz L) ?buf = a @ replicate (sz - ga_ifnamsiz L - ga_sockaddr L) NUL @ ?rest"
    unfolding at using pn by simp
  have nm: "take (ga_ifnamsiz L) (drop (length pre) ?buf) = padded_name L n" using at pn by simp
  have bounds: "length pre + ga_ifnamsiz L \<le> length ?buf" "ga_sockaddr L \<le> length (drop (length pre + ga_ifnamsiz L) ?buf)"
    using L(1) ok ifreq_length[OF iok L(1)] sa by simp_all
  have "fst (ga_flags K fd SIOCGIFFLAGS (padded_name L n) (gw_os w)) = Inr f"
    by (rule linuxD(10)[OF lx]) (use Cons.prems in \<open>auto simp: i\<close>)
  then obtain w1 where fl: "ga_call (ga_flags K fd SIOCGIFFLAGS (padded_name L n)) w = (Inr f, w1)" "finite (gw_heap w1)"
    using Cons.prems(2) ga_call_fst[of "ga_flags K fd SIOCGIFFLAGS (padded_name L n)" w] by metis
  obtain p1 w2 where b1: "ga_block K (ga_ifaddrs L) w1 = Some (p1, w2)" "finite (gw_heap w2)" using block_linux[OF lx fl(2)] by blast
  have str: "NUL \<in> set (drop (length pre) ?buf)" "takeWhile (\<lambda>c. c \<noteq> NUL) (drop (length pre) ?buf) = n"
  proof -
    obtain k where k: "ga_ifnamsiz L - length n = Suc k" using ok(1) by (metis Suc_diff_Suc)
    show "NUL \<in> set (drop (length pre) ?buf)" unfolding at by (simp add: padded_name_def k)
    have "takeWhile (\<lambda>c. c \<noteq> NUL) (n @ NUL # xs) = n" for xs using ok(2) by (subst takeWhile_append2) auto
    then show "takeWhile (\<lambda>c. c \<noteq> NUL) (drop (length pre) ?buf) = n" unfolding at by (simp add: padded_name_def k)
  qed
  obtain p2 w3 where "ga_malloc K (length n + 1) w2 = (Some p2, w3)" and f3: "finite (gw_heap w3)" using malloc_linux[OF lx b1(2)] by blast
  then have sd: "ga_strdup K (drop (length pre) ?buf) w2 = Some (Some (p2, n), w3)" using str by (simp add: ga_strdup_def Let_def)
  obtain p3 w4 where b3: "ga_block K (ga_sockaddr L) w3 = Some (p3, w4)" "finite (gw_heap w4)" using block_linux[OF lx f3] by blast
  obtain ns w5 where ih: "ifreq_walk K L fd SIOCGIFFLAGS sz ?buf ?len (length pre + sz) w4 = Some (Inr ns, w5)" "map view ns = map iface_view ifs"
    using Cons.IH[OF _ b3(2), of "pre @ ifreq_of L sz i"] Cons.prems unfolding buf len next_p by auto
  have "0 < sz" using L by linarith
  then have lt: "int (length pre) < ?len" by (simp add: add_pos_nonneg)
  have "take (ga_sockaddr L) (drop (length pre + ga_ifnamsiz L) ?buf) = a" unfolding sa using ok(3) by simp
  then have "ifreq_walk K L fd SIOCGIFFLAGS sz ?buf ?len (length pre) w =
      Some (Inr (\<lparr>ifa_at = p1, ifa_name = Some (p2, n), ifa_flags = scast f, ifa_addr = (p3, a), ifa_netmask = None, ifa_dstaddr = None, ifa_data = None\<rparr> # ns), w5)"
    using lt bounds fl(1) b1(1) sd b3(1) ih(1) L(3) nm
    by (subst ifreq_walk.simps) (simp del: concat.simps list.map append_assoc length_append list.size)
  moreover have "view \<lparr>ifa_at = p1, ifa_name = Some (p2, n), ifa_flags = scast f, ifa_addr = (p3, a), ifa_netmask = None, ifa_dstaddr = None, ifa_data = None\<rparr> =
      iface_view i" by (simp add: view_def iface_view_def i)
  ultimately show ?case using ih(2) by (intro exI conjI) (assumption, simp)
qed

text \<open>What of the interfaces ends up in the buffer: all of them only if the records fill the first buffer exactly.\<close>

definition listed :: "nat \<Rightarrow> 'a list \<Rightarrow> 'a list" where
  "listed sz ifs = (if sz dvd 8192 then ifs else take (8192 div sz) ifs)"

lemma int_of_size: "n < 2 ^ 31 \<Longrightarrow> int_of_size n = int n"
proof -
  assume n: "n < 2 ^ 31"
  have "sint (of_int (int n) :: 32 word) = signed_take_bit 31 (int n)" unfolding sint_sbintrunc' by simp
  then have "int_of_size n = signed_take_bit 31 (int n)" by (simp only: int_of_size_def of_int_of_nat_eq)
  also have "\<dots> = int n" using n by (intro signed_take_bit_int_eq_self) auto
  finally show ?thesis .
qed

lemma conf_loop_linux:
  assumes lx: "linux K L sz ifs" and n: "n < 2 ^ 31" "0 < n" and dv: "sz dvd n \<or> n = 8192" and fin: "finite (gw_heap w)"
  shows "\<exists>b w' k. conf_loop K fd SIOCGIFCONF n w =
           Some (Inr (int (sz * length (if sz dvd n then ifs else take (n div sz) ifs)),
             concat (map (ifreq_of L sz) (if sz dvd n then ifs else take (n div sz) ifs)) @ replicate k NUL), Some b, w')"
  using n dv fin
proof (induction "2 ^ 31 - n" arbitrary: n w rule: less_induct)
  case less
  let ?m = "min (length ifs) (n div sz)"
  have sz: "0 < sz" using linuxD(2,3)[OF lx] by linarith
  note sz = sz linuxD(5)[OF lx] and fr = linuxD(7)[OF lx]
  obtain b w1 where m: "ga_malloc K n w = (Some b, w1)" "finite (gw_heap w1)" using malloc_linux[OF lx less.prems(4)] by blast
  obtain w2 where c: "ga_call (ga_conf K fd SIOCGIFCONF n) w1 =
      ((None, int (sz * ?m), concat (map (ifreq_of L sz) (take ?m ifs)) @ replicate (n - sz * ?m) NUL), w2)" "gw_heap w2 = gw_heap w1"
    using ga_call_fst[of "ga_conf K fd SIOCGIFCONF n" w1, OF linuxD(9)[OF lx]] by blast
  have i: "int_of_size n = int n" using less.prems(1) by (rule int_of_size)
  show ?case
  proof (cases "sz * ?m < n")
    case True
    have got: "take ?m ifs = (if sz dvd n then ifs else take (n div sz) ifs)"
    proof (cases "sz dvd n")
      case True
      then have "?m \<noteq> n div sz" using \<open>sz * ?m < n\<close> by auto
      with True show ?thesis by (simp add: min_def split: if_splits)
    qed (auto simp: min_def)
    have "?m = length (take ?m ifs)" by simp
    also have "\<dots> = length (if sz dvd n then ifs else take (n div sz) ifs)" by (rule arg_cong[OF got])
    finally have len: "?m = length (if sz dvd n then ifs else take (n div sz) ifs)" .
    have "int (sz * ?m) < int_of_size n" unfolding i using True by (simp only: of_nat_less_iff)
    then have "conf_loop K fd SIOCGIFCONF n w =
        Some (Inr (int (sz * ?m), concat (map (ifreq_of L sz) (take ?m ifs)) @ replicate (n - sz * ?m) NUL), Some b, w2)"
      using m(1) c(1) by (subst conf_loop.simps) (simp del: of_nat_mult of_nat_min)
    from this[unfolded got, unfolded len] show ?thesis by blast
  next
    case False
    have le: "sz * (n div sz) \<le> n" by simp
    have "sz * ?m \<le> sz * (n div sz)" by simp
    with False le have eq: "sz * (n div sz) = n" by linarith
    then have dvd: "sz dvd n" by (metis dvd_triv_left)
    have "sz * ?m \<le> sz * length ifs" by simp
    with False sz(2) have n30: "n < 2 ^ 30" by linarith
    have "b \<in> gw_heap w1" using ga_malloc_heap[OF fr m(1)] by simp
    then have f: "ga_free (Some b) w2 = Some (w2\<lparr>gw_heap := gw_heap w2 - {b}\<rparr>)" by (simp add: ga_free_def c(2))
    have "2 ^ 31 - 2 * n < 2 ^ 31 - n" "2 * n < 2 ^ 31" "0 < 2 * n" "sz dvd 2 * n \<or> 2 * n = 8192" using less.prems(2) n30 dvd by auto
    moreover have "finite (gw_heap (w2\<lparr>gw_heap := gw_heap w2 - {b}\<rparr>))" using m(2) c(2) by simp
    ultimately have ih: ?thesis if "conf_loop K fd SIOCGIFCONF n w = conf_loop K fd SIOCGIFCONF (2 * n) (w2\<lparr>gw_heap := gw_heap w2 - {b}\<rparr>)"
      using less.hyps[of "2 * n" "w2\<lparr>gw_heap := gw_heap w2 - {b}\<rparr>"] dvd unfolding that by (simp del: of_nat_mult)
    have "\<not> int (sz * ?m) < int_of_size n" unfolding i of_nat_less_iff by (rule False)
    then have "conf_loop K fd SIOCGIFCONF n w = conf_loop K fd SIOCGIFCONF (2 * n) (w2\<lparr>gw_heap := gw_heap w2 - {b}\<rparr>)"
      using m(1) c(1) f by (subst conf_loop.simps) (simp del: of_nat_mult of_nat_min)
    then show ?thesis by (rule ih)
  qed
qed

lemma getifaddrs2_linux:
  assumes lx: "linux K L sz ifs" and fin: "finite (gw_heap w)"
  shows "\<exists>ns w'. getifaddrs2 K L AF_INET_4 SIOCGIFCONF SIOCGIFFLAGS sz w = Some (Inr (if ns = [] then None else Some ns), w') \<and>
           map view ns = map iface_view (listed sz ifs)"
proof -
  have "\<exists>fd. fst (ga_socket K AF_INET_4 (gw_os w)) = Inr fd" by (rule linuxD[OF lx])
  then obtain fd w1 where s: "ga_call (ga_socket K AF_INET_4) w = (Inr fd, w1)" "finite (gw_heap w1)"
    using fin ga_call_fst[of "ga_socket K AF_INET_4" w] by metis
  have conf_first: "\<exists>b w2 k. conf_loop K fd SIOCGIFCONF 8192 w1 =
      Some (Inr (int (sz * length (listed sz ifs)), concat (map (ifreq_of L sz) (listed sz ifs)) @ replicate k NUL), Some b, w2)"
    unfolding listed_def by (rule conf_loop_linux[OF lx _ _ _ s(2)]) simp_all
  obtain b w2 k where c: "conf_loop K fd SIOCGIFCONF 8192 w1 =
      Some (Inr (int (sz * length (listed sz ifs)), concat (map (ifreq_of L sz) (listed sz ifs)) @ replicate k NUL), Some b, w2)"
    using conf_first by blast
  have "set (listed sz ifs) \<subseteq> set ifs" by (auto simp: listed_def dest: in_set_takeD)
  moreover have "finite (gw_heap w2)" using conf_loop_heap[OF c linuxD(7)[OF lx]] s(2) by simp
  ultimately have w2: "set (listed sz ifs) \<subseteq> set ifs" "finite (gw_heap w2)" by simp_all
  from walk_linux[OF lx w2, of fd "[]" "replicate k NUL"] obtain ns w3 where
    v: "ifreq_walk K L fd SIOCGIFFLAGS sz (concat (map (ifreq_of L sz) (listed sz ifs)) @ replicate k NUL) (int (sz * length (listed sz ifs))) 0 w2 =
      Some (Inr ns, w3)" "map view ns = map iface_view (listed sz ifs)" by auto
  note fr = linuxD(7)[OF lx]
  have "b \<in> gw_heap w2" using conf_loop_heap[OF c fr] by simp
  then have "b \<in> gw_heap w3" using ifreq_walk_heap[OF v(1) fr] by simp
  then obtain w4 where "ga_free (Some b) (w3\<lparr>gw_os := ga_close K fd (gw_os w3)\<rparr>) = Some w4" by (simp add: ga_free_def)
  then have "getifaddrs2 K L AF_INET_4 SIOCGIFCONF SIOCGIFFLAGS sz w = Some (Inr (if ns = [] then None else Some ns), w4)"
    using s(1) c v(1) by (simp add: getifaddrs2_def)
  with v(2) show ?thesis by blast
qed

text \<open>What \<open>getifaddrs2\<close> leaves on the heap: the blocks of the list, and nothing else.\<close>

lemma getifaddrs2_heap:
  assumes fr: "alloc_fresh K" and g: "getifaddrs2 K L a conf flags sz w = Some (Inr (Some ns), w')"
  shows "\<exists>H. list_ok H ns \<and> gw_heap w' = gw_heap w \<union> set (concat (map node_blocks ns)) \<and> set (concat (map node_blocks ns)) \<inter> gw_heap w = {}"
proof -
  obtain q w1 where s: "ga_call (ga_socket K a) w = (q, w1)" by fastforce
  have h1: "gw_heap w1 = gw_heap w" using ga_call_heap[of "ga_socket K a" w] by (simp add: s)
  obtain fd where q: "q = Inr fd" using g s by (cases q) (simp_all add: getifaddrs2_def)
  obtain r b w2 where c: "conf_loop K fd conf 8192 w1 = Some (r, b, w2)" using g s by (auto simp: getifaddrs2_def q bind_eq_Some_conv)
  obtain len buf where r: "r = Inr (len, buf)" using g s c by (cases r) (auto simp: getifaddrs2_def q bind_eq_Some_conv)
  obtain z w3 where v: "ifreq_walk K L fd flags sz buf len 0 w2 = Some (z, w3)" using g s c by (auto simp: getifaddrs2_def q r bind_eq_Some_conv)
  have z: "z = Inr ns" using g s c v by (cases z) (auto simp: getifaddrs2_def q r bind_eq_Some_conv split: if_splits)
  have f: "ga_free b (w3\<lparr>gw_os := ga_close K fd (gw_os w3)\<rparr>) = Some w'" using g s c v by (auto simp: getifaddrs2_def q r bind_eq_Some_conv)
  have l: "list_ok (gw_heap w2) ns" "gw_heap w3 = gw_heap w2 \<union> set (concat (map node_blocks ns))"
    using ifreq_walk_heap[OF v fr] by (simp_all add: z)
  let ?B = "set (concat (map node_blocks ns))"
  have dis: "?B \<inter> gw_heap w2 = {}" using l(1) by (simp add: list_ok_def)
  have w': "gw_heap w' = gw_heap w \<union> ?B" "?B \<inter> gw_heap w = {}"
    using conf_loop_heap[OF c fr] f dis l(2) h1 by (cases b; auto simp: ga_free_def)+
  then show ?thesis using l(1) by blast
qed

subsection \<open>Properties\<close>

text \<open>
  On Linux the call succeeds, with the interfaces in the kernel's order, their names, addresses and flags. The
  list is complete if the size of a record divides 8192; with records of another size (40 bytes on 64-bit
  Linux) those that do not fit the first buffer are left out and nobody is told. Without interfaces
  the list that is returned is a pointer that was never set.
\<close>
theorem interfaces_listed:
  assumes lx: "linux K L sz ifs" and fin: "finite (gw_heap w)"
  shows "\<exists>r w'. getifaddrs K L (attempts False False True s6 sz) (EOTHER 6) w = Some (Inr r, w') \<and>
           (case r of None \<Rightarrow> listed sz ifs = [] | Some ns \<Rightarrow> map view ns = map iface_view (listed sz ifs))"
proof -
  obtain ns w' where g: "getifaddrs2 K L AF_INET_4 SIOCGIFCONF SIOCGIFFLAGS sz w = Some (Inr (if ns = [] then None else Some ns), w')"
    "map view ns = map iface_view (listed sz ifs)" using getifaddrs2_linux[OF lx fin] by blast
  then show ?thesis by (intro exI[of _ "if ns = [] then None else Some ns"] exI[of _ w']) (auto simp: attempts_def)
qed


text \<open>
  \<open>freeifaddrs\<close> frees every block of the list once, and after it the heap is what it was before
  \<open>getifaddrs2\<close>: the buffers and the list are all given back.
\<close>
theorem interfaces_freed:
  assumes fr: "alloc_fresh K" and g: "getifaddrs2 K L a conf flags sz w = Some (Inr (Some ns), w')"
  shows "\<exists>w''. freeifaddrs ns w' = Some w'' \<and> gw_heap w'' = gw_heap w"
proof -
  let ?B = "set (concat (map node_blocks ns))"
  obtain H where h: "list_ok H ns" "gw_heap w' = gw_heap w \<union> ?B" "?B \<inter> gw_heap w = {}" using getifaddrs2_heap[OF fr g] by blast
  then have "freeifaddrs ns w' = Some (w'\<lparr>gw_heap := gw_heap w' - ?B\<rparr>)" by (intro freeifaddrs_list) auto
  moreover have "gw_heap w' - ?B = gw_heap w" using h by auto
  ultimately show ?thesis by simp
qed

subsection \<open>Witnesses\<close>

text \<open>A machine with two interfaces, and records of 32 bytes.\<close>

definition lay0 :: layout where
  "lay0 = \<lparr>ga_ifnamsiz = 16, ga_sockaddr = 16, ga_ifaddrs = 56, ga_sa_len = None\<rparr>"

definition ifs0 :: "iface list" where
  "ifs0 = [(''lo'', replicate 16 (CHR 0x02), 0x49), (''eth0'', replicate 16 (CHR 0x03), 0x1043)]"

definition kern0 :: "nat \<Rightarrow> iface list \<Rightarrow> unit ga_calls" where
  "kern0 sz ifs = \<lparr>ga_alloc = (\<lambda>n H x. (if finite H then Some (Suc (Max (insert 0 H))) else None, x)),
     ga_socket = (\<lambda>a x. (Inr 3, x)),
     ga_conf = (\<lambda>fd req n x. let m = min (length ifs) (n div sz) in
       ((None, int (sz * m), concat (map (ifreq_of lay0 sz) (take m ifs)) @ replicate (n - sz * m) NUL), x)),
     ga_flags = (\<lambda>fd req nm x. (case find (\<lambda>(n, a, f). padded_name lay0 n = nm) ifs of None \<Rightarrow> Inl EINVAL | Some (n, a, f) \<Rightarrow> Inr f, x)),
     ga_close = (\<lambda>fd x. x)\<rparr>"

lemma alloc0_fresh: "alloc_fresh (kern0 sz ifs)"
proof -
  have "Suc (Max (insert 0 H)) \<notin> H" if "finite H" for H :: "nat set"
  proof
    assume "Suc (Max (insert 0 H)) \<in> H"
    then have "Suc (Max (insert 0 H)) \<le> Max (insert 0 H)" using that by (intro Max_ge) auto
    then show False by simp
  qed
  then show ?thesis by (simp add: alloc_fresh_def kern0_def)
qed

lemma linux0: "linux (kern0 32 ifs0) lay0 32 ifs0" "linux (kern0 40 (replicate 300 (ifs0 ! 0))) lay0 40 (replicate 300 (ifs0 ! 0))"
proof -
  have k: "(\<forall>n H x. finite H \<longrightarrow> fst (ga_alloc (kern0 sz ifs) n H x) \<noteq> None)"
    "(\<forall>fd n x. let m = min (length ifs) (n div sz) in
         fst (ga_conf (kern0 sz ifs) fd SIOCGIFCONF n x) =
           (None, int (sz * m), concat (map (ifreq_of lay0 sz) (take m ifs)) @ replicate (n - sz * m) NUL))" for sz ifs
    by (simp_all add: kern0_def Let_def)
  note defs = lay0_def ifs0_def iface_ok_def padded_name_def kern0_def
  show "linux (kern0 32 ifs0) lay0 32 ifs0"
    unfolding linux_def by (intro conjI k alloc0_fresh; simp add: defs)
  have all: "list_all P (replicate 300 i) = P i" for P and i :: iface by (simp add: list_all_iff)
  have find: "find P (replicate 300 i) = (if P i then Some i else find P (replicate 299 i))" for P and i :: iface
    using replicate_Suc[of 299 i] by simp
  show "linux (kern0 40 (replicate 300 (ifs0 ! 0))) lay0 40 (replicate 300 (ifs0 ! 0))"
    unfolding linux_def all by (intro conjI k alloc0_fresh; simp add: defs find)
qed

text \<open>On 64-bit Linux, a machine with 300 interfaces shows 204 of them.\<close>

theorem interfaces_listed_witness:
  "\<exists>ns w'. getifaddrs (kern0 40 (replicate 300 (ifs0 ! 0))) lay0 (attempts False False True 44 40) (EOTHER 6) \<lparr>gw_heap = {}, gw_os = ()\<rparr> =
     Some (Inr (Some ns), w') \<and> map view ns = replicate 204 (Some ''lo'', replicate 16 (CHR 0x02), 0x49)"
proof -
  have l: "listed 40 (replicate 300 i) = replicate 204 i" for i :: iface by (simp add: listed_def)
  obtain r w' where "getifaddrs (kern0 40 (replicate 300 (ifs0 ! 0))) lay0 (attempts False False True 44 40) (EOTHER 6) \<lparr>gw_heap = {}, gw_os = ()\<rparr> = Some (Inr r, w')"
    "case r of None \<Rightarrow> replicate 204 (ifs0 ! 0) = [] | Some ns \<Rightarrow> map view ns = map iface_view (replicate 204 (ifs0 ! 0))"
    using interfaces_listed[OF linux0(2), of "\<lparr>gw_heap = {}, gw_os = ()\<rparr>" 44, unfolded l] by auto
  then show ?thesis by (cases r) (auto simp: iface_view_def ifs0_def)
qed

theorem interfaces_freed_witness:
  "\<exists>ns w' w''. getifaddrs2 (kern0 32 ifs0) lay0 AF_INET_4 SIOCGIFCONF SIOCGIFFLAGS 32 \<lparr>gw_heap = {7}, gw_os = ()\<rparr> = Some (Inr (Some ns), w') \<and>
     length ns = 2 \<and> freeifaddrs ns w' = Some w'' \<and> gw_heap w'' = {7}"
proof -
  obtain ns w' where g: "getifaddrs2 (kern0 32 ifs0) lay0 AF_INET_4 SIOCGIFCONF SIOCGIFFLAGS 32 \<lparr>gw_heap = {7}, gw_os = ()\<rparr> =
      Some (Inr (if ns = [] then None else Some ns), w')" "map view ns = map iface_view (listed 32 ifs0)"
    using getifaddrs2_linux[OF linux0(1), of "\<lparr>gw_heap = {7}, gw_os = ()\<rparr>"] by auto
  from arg_cong[OF g(2), of length] have len: "length ns = 2" by (simp add: listed_def ifs0_def)
  then have g': "getifaddrs2 (kern0 32 ifs0) lay0 AF_INET_4 SIOCGIFCONF SIOCGIFFLAGS 32 \<lparr>gw_heap = {7}, gw_os = ()\<rparr> = Some (Inr (Some ns), w')"
    using g(1) by auto
  from interfaces_freed[OF alloc0_fresh g'] g' len show ?thesis by auto
qed

end
