(* ===== verification/Local_addrs.thy ===== *)
theory Local_addrs
  imports Getifaddrs Bench
begin

text \<open>
  The pool of local addresses: \<open>getLocalAddrs\<close> of CorbaPlatoon\_impl.cc, which main of bench.cc repeats, on top
  of the interface list of getifaddrs.c. It is shown to build what \<open>local_addrs\<close> of Bench says, from
  the interfaces of the machine.
\<close>

subsection \<open>getLocalAddrs\<close>

text \<open>
  \<open>((struct sockaddr_in *) p->ifa_addr)->sin_addr.s_addr\<close> on a little-endian machine: the bytes 4 to 7
  of whatever the address is; a read behind the block is undefined.
\<close>

definition sin_addr_at :: "char list \<Rightarrow> 32 word" where
  "sin_addr_at bs = of_nat (of_char (bs ! 4) + of_char (bs ! 5) * 2 ^ 8 + of_char (bs ! 6) * 2 ^ 16 + of_char (bs ! 7) * 2 ^ 24)"

definition read_sin_addr :: "char list \<Rightarrow> 32 word option" where
  "read_sin_addr bs = (if 8 \<le> length bs then Some (sin_addr_at bs) else None)"

text \<open>The two loops, over the \<open>ifa_addr\<close> of the nodes: null, or the bytes it points to.\<close>

fun count_addrs :: "char list option list \<Rightarrow> nat \<Rightarrow> nat" where
  "count_addrs [] i = i"
| "count_addrs (None # ps) i = count_addrs ps i"
| "count_addrs (Some bs # ps) i = count_addrs ps (i + 1)"

fun copy_addrs :: "char list option list \<Rightarrow> sockaddr_in list \<Rightarrow> nat \<Rightarrow> (nat \<times> sockaddr_in list) option" where
  "copy_addrs [] arr i = Some (i, arr)"
| "copy_addrs (None # ps) arr i = copy_addrs ps arr i"
| "copy_addrs (Some bs # ps) arr i = do {
     a \<leftarrow> read_sin_addr bs;
     if a = localhost then copy_addrs ps arr i
     else do {
       arr1 \<leftarrow> wr arr i \<lparr>sin_family = AF_INET, s_addr = a, sin_port = 0\<rparr>;
       copy_addrs ps arr1 (i + 1)
     }
   }"

definition zero_addr :: sockaddr_in where
  "zero_addr = \<lparr>sin_family = 0, s_addr = 0, sin_port = 0\<rparr>"

text \<open>
  The result of \<open>getifaddrs\<close> is not looked at: after an error, and where the list is a pointer without a
  value, the loops follow a wild pointer. A null array is written to like any other. The result is the number
  of addresses and the array; the list is not freed.
\<close>

definition getLocalAddrs ::
  "'o ga_calls \<Rightarrow> layout \<Rightarrow> (af \<times> ioctl_req \<times> ioctl_req \<times> nat) list \<Rightarrow> 'o ga_world \<Rightarrow> ((nat \<times> sockaddr_in list) \<times> 'o ga_world) option" where
  "getLocalAddrs K L atts w = do {
     (r, w1) \<leftarrow> getifaddrs K L atts (EOTHER 6) w;
     addrs \<leftarrow> (case r of Inl e \<Rightarrow> None | Inr p \<Rightarrow> p);
     let ps = map (\<lambda>p. Some (snd (ifa_addr p))) addrs;
     let n = count_addrs ps 0;
     let (b, w2) = ga_malloc K (n * ga_sockaddr L) w1;
     res \<leftarrow> copy_addrs ps (if b = None then [] else replicate n zero_addr) 0;
     Some (res, w2)
   }"

subsection \<open>The pool\<close>

lemma count_addrs: "count_addrs ps i = i + length (List.map_filter (\<lambda>p. p) ps)"
  by (induction ps i rule: count_addrs.induct) (simp_all add: List.map_filter_def)

lemma local_addrs_Cons:
  "local_addrs [] = []" "local_addrs (None # ifs) = local_addrs ifs"
  "local_addrs (Some a # ifs) = (if a = localhost then [] else [\<lparr>sin_family = AF_INET, s_addr = a, sin_port = 0\<rparr>]) @ local_addrs ifs"
  by (simp_all add: local_addrs_def List.map_filter_def)

text \<open>The array is long enough, is filled from the front, and what is behind the addresses keeps its value.\<close>

lemma copy_addrs:
  "\<forall>bs \<in> set (List.map_filter (\<lambda>p. p) ps). 8 \<le> length bs \<Longrightarrow> i + length (List.map_filter (\<lambda>p. p) ps) \<le> length arr \<Longrightarrow>
   let ls = local_addrs (map (map_option sin_addr_at) ps) in
     copy_addrs ps arr i = Some (i + length ls, take i arr @ ls @ drop (i + length ls) arr)"
proof (induction ps arr i rule: copy_addrs.induct)
  case (3 bs ps arr i)
  let ?a = "sin_addr_at bs" and ?ls = "local_addrs (map (map_option sin_addr_at) ps)"
  have r: "read_sin_addr bs = Some ?a" using 3(3) by (simp add: read_sin_addr_def List.map_filter_def)
  have pre: "\<forall>bs \<in> set (List.map_filter (\<lambda>p. p) ps). 8 \<le> length bs" "Suc (i + length (List.map_filter (\<lambda>p. p) ps)) \<le> length arr"
    using 3(3,4) by (simp_all add: List.map_filter_def)
  show ?case
  proof (cases "?a = localhost")
    case True
    then show ?thesis using 3(1)[OF r True] pre r by (simp add: local_addrs_Cons Let_def)
  next
    case False
    let ?v = "\<lparr>sin_family = AF_INET, s_addr = ?a, sin_port = 0\<rparr>"
    have w: "wr arr i ?v = Some (arr[i := ?v])" using pre(2) by (simp add: wr_def)
    have "copy_addrs ps (arr[i := ?v]) (i + 1) =
        Some (i + 1 + length ?ls, take (i + 1) (arr[i := ?v]) @ ?ls @ drop (i + 1 + length ?ls) (arr[i := ?v]))"
      using 3(2)[OF r False w] pre by (simp add: Let_def)
    moreover have "take (i + 1) (arr[i := ?v]) = take i arr @ [?v]" using pre(2) by (simp add: take_Suc_conv_app_nth)
    ultimately show ?thesis using False r w by (simp add: local_addrs_Cons)
  qed
qed (simp_all add: local_addrs_Cons List.map_filter_def Let_def)

subsection \<open>Properties\<close>

definition iface_addr :: "iface \<Rightarrow> 32 word option" where
  "iface_addr = (\<lambda>(n, a, f). Some (sin_addr_at a))"

text \<open>
  C37. On Linux \<open>getLocalAddrs\<close>, with the interface list of getifaddrs.c, stays inside its array and yields the pool
  that the load test is set up with: the addresses of the interfaces that are listed, in their order, without the
  loopback one; the rest of the array is zero. Without an interface it follows a pointer that was never
  set.
\<close>
theorem local_pool_from_interfaces:
  assumes lx: "linux K L sz ifs" and fin: "finite (gw_heap w)" and sa: "8 \<le> ga_sockaddr L"
  shows "if listed sz ifs = [] then getLocalAddrs K L (attempts False False True s6 sz) w = None
         else let ls = local_addrs (map iface_addr (listed sz ifs)) in
           \<exists>w'. getLocalAddrs K L (attempts False False True s6 sz) w =
             Some ((length ls, ls @ replicate (length (listed sz ifs) - length ls) zero_addr), w')"
proof -
  obtain ns w1 where g: "getifaddrs2 K L AF_INET_4 SIOCGIFCONF SIOCGIFFLAGS sz w = Some (Inr (if ns = [] then None else Some ns), w1)"
    "map view ns = map iface_view (listed sz ifs)" using getifaddrs2_linux[OF lx fin] by blast
  then have got: "getifaddrs K L (attempts False False True s6 sz) (EOTHER 6) w = Some (Inr (if ns = [] then None else Some ns), w1)"
    by (simp add: attempts_def)
  have none: "listed sz ifs = [] \<longleftrightarrow> ns = []" using g(2) by (metis map_is_Nil_conv)
  show ?thesis
  proof (cases "ns = []")
    case True
    then show ?thesis using got none by (simp add: getLocalAddrs_def)
  next
    case False
    let ?ps = "map (\<lambda>p. Some (snd (ifa_addr p))) ns" and ?l = "listed sz ifs"
    have addrs: "map (\<lambda>p. snd (ifa_addr p)) ns = map (\<lambda>(n, a, f). a) ?l"
      using arg_cong[OF g(2), of "map (\<lambda>(n, a, f). a)"] by (simp add: view_def iface_view_def comp_def split_beta)
    have ps: "?ps = map (\<lambda>(n, a, f). Some a) ?l" using arg_cong[OF addrs, of "map Some"] by (simp add: comp_def split_beta)
    have mf: "List.map_filter (\<lambda>p. p) ?ps = map (\<lambda>(n, a, f). a) ?l" unfolding addrs[symmetric] by (simp add: List.map_filter_def comp_def)
    have sub: "set ?l \<subseteq> set ifs" by (auto simp: listed_def dest: in_set_takeD)
    have long: "\<forall>bs \<in> set (List.map_filter (\<lambda>p. p) ?ps). 8 \<le> length bs"
      unfolding mf using sub linuxD(4)[OF lx] sa by (fastforce simp: iface_ok_def)
    have c: "count_addrs ?ps 0 = length ?l" by (simp add: count_addrs mf)
    have pool: "map (map_option sin_addr_at) ?ps = map iface_addr ?l" unfolding ps by (simp add: iface_addr_def split_beta comp_def)
    have "finite (gw_heap w1)" using getifaddrs2_heap[OF linuxD(7)[OF lx] g(1)[unfolded if_not_P[OF False]]] fin by auto
    then obtain b w2 where m: "ga_malloc K (length ?l * ga_sockaddr L) w1 = (Some b, w2)" using malloc_linux[OF lx] by blast
    note cp = copy_addrs[OF long, of 0 "replicate (length ?l) zero_addr", unfolded mf pool Let_def]
    then show ?thesis using got False none m by (simp add: getLocalAddrs_def c Let_def)
  qed
qed

text \<open>A machine with a loopback interface and a network card.\<close>

definition sa0 :: "nat list \<Rightarrow> char list" where
  "sa0 ip = [CHR 0x02, NUL, NUL, NUL] @ map char_of ip @ replicate 8 NUL"

definition ifs1 :: "iface list" where
  "ifs1 = [(''lo'', sa0 [127, 0, 0, 1], 0x49), (''eth0'', sa0 [192, 168, 0, 7], 0x1043)]"

lemma linux1: "linux (kern0 32 ifs1) lay0 32 ifs1"
proof -
  note defs = lay0_def ifs1_def iface_ok_def padded_name_def kern0_def sa0_def
  have k: "(\<forall>n H x. finite H \<longrightarrow> fst (ga_alloc (kern0 32 ifs1) n H x) \<noteq> None)"
    "(\<forall>fd n x. let m = min (length ifs1) (n div 32) in
         fst (ga_conf (kern0 32 ifs1) fd SIOCGIFCONF n x) =
           (None, int (32 * m), concat (map (ifreq_of lay0 32) (take m ifs1)) @ replicate (n - 32 * m) NUL))"
    by (simp_all add: kern0_def Let_def)
  show ?thesis unfolding linux_def by (intro conjI k alloc0_fresh; simp add: defs)
qed

theorem local_pool_from_interfaces_witness:
  "\<exists>w'. getLocalAddrs (kern0 32 ifs1) lay0 (attempts False False True 44 32) \<lparr>gw_heap = {7}, gw_os = ()\<rparr> =
     Some ((1, [\<lparr>sin_family = AF_INET, s_addr = htonl (MAKE_INT32 192 168 0 7), sin_port = 0\<rparr>, zero_addr]), w')"
proof -
  have l: "listed 32 ifs1 = ifs1" by (simp add: listed_def)
  have addr: "sin_addr_at (sa0 [127, 0, 0, 1]) = localhost" "sin_addr_at (sa0 [192, 168, 0, 7]) = htonl (MAKE_INT32 192 168 0 7)"
    "htonl (MAKE_INT32 192 168 0 7) \<noteq> localhost"
    by (simp_all add: sin_addr_at_def sa0_def localhost_def htonl_def MAKE_INT32_def uchar_def)
  have ls: "local_addrs (map iface_addr (listed 32 ifs1)) = [\<lparr>sin_family = AF_INET, s_addr = htonl (MAKE_INT32 192 168 0 7), sin_port = 0\<rparr>]"
    unfolding l by (simp add: ifs1_def iface_addr_def addr local_addrs_Cons del: One_nat_def)
  show ?thesis
    using local_pool_from_interfaces[OF linux1, of "\<lparr>gw_heap = {7}, gw_os = ()\<rparr>" 44]
    unfolding ls unfolding l by (simp add: ifs1_def lay0_def)
qed

end
