(* ===== verification/Spec2Isabelle.thy ===== *)
theory Spec2Isabelle
  imports Prelude Cstring Interfaces Eclock Heap_order Sked Nbbio Ftp_proto Poller_base Poller_poll
    Poller_select Ftp_pipe Ftp_pipe_proofs Ftp_pipe_data Platoon Robouser Rampup Farm Poller_sigio_props
    Poller_sigfd Poller_devpoll_events Poller_kqueue_props
    Options Event_loop Bench Frames User_frame Population Platoon_reset Seating Corba_platoon Corba_bench Dklimits Poller_bench
    Profile Getifaddrs Local_addrs
begin

text \<open>
  Verification library of dkftpbench (directory dkftpbench-0.45), an FTP load generator: one process
  keeps thousands of simulated users, each of which logs in to a server, fetches a file at a limited
  bandwidth and starts again.

  \<^bold>\<open>The program.\<close> \<open>main\<close> of bench.cc, or a remote controller through the server of CorbaPlatoon\_impl.cc, sets up
  an event queue (Sked), a poller (one of six back ends) and a \<open>Platoon\<close>, and then loops: run the due
  events, hand each ready descriptor to its client, sleep until the next event. The clients of the poller
  are the users' FTP connections (ftp\_client\_pipe), each of which couples a byte buffer (nbbio), the
  protocol engine (ftp\_client\_proto) and two sockets; the clients of the queue are the platoon, which
  starts users until its targets are met, the users, and the connections, which sleep when they
  are ahead of their bandwidth. A connection calls its user back (\<open>handle_data_io\<close>, \<open>ftpCmdDone\<close>); a user
  that fails puts itself on the platoon's list of the dead, which the main loop reaps.

  \<^bold>\<open>Theories and sources.\<close>

  \<^item> Prelude: outcomes, array reads and writes, return codes. Cstring: the string functions of the C
    library that are used, on arrays of characters. Interfaces: the contracts as locales, with the lemmas of their
    clients proved inside: \<open>timer_queue\<close> (interpreted on Sked), \<open>bounded_fifo\<close> (on Nbbio), \<open>monitor\<close>,
    the tables of watched descriptors, and \<open>event_queue\<close>, \<open>safe_event_queue\<close> and \<open>dispatcher\<close>, the
    delivery of events while clients are deleted (on the back ends), and \<open>phase_server\<close>, a server with a
    protocol (on Corba\_platoon).
  \<^item> Eclock (eclock.h): \<open>clock_t\<close> is a word of a parameter width \<open>'w\<close>; comparison wraps.
  \<^item> Heap\_order and Sked (Sked.h, Sked.cc): the 1-based heap \<open>m_records\<close> and the members \<open>skedIndex\<close> of
    the clients, as a function. The abstraction \<open>schedule\<close> is the map from queued clients to times.
  \<^item> Nbbio (nbbio.h, nbbio.cc): the circular buffer; its abstraction is the list of bytes in it.
  \<^item> Ftp\_proto (ftp\_client\_proto.h, ftp\_client\_proto.cc): the stack of states, the command lines and the
    replies.
  \<^item> Poller\_base (Poller.h, Poller.cc), Poller\_poll, Poller\_select, Poller\_devpoll, Poller\_kqueue, Poller\_sigio,
    Poller\_sigfd and the theories named after them with a suffix: the wake-up pipe and the back ends, each
    with the record of its members and one definition per method.
  \<^item> Ftp\_pipe, Ftp\_pipe\_proofs, Ftp\_pipe\_data (ftp\_client\_pipe.h, ftp\_client\_pipe.cc): the connection.
  \<^item> Platoon and Robouser (Platoon.h, robouser.h, robouser.cc), Rampup (Platoon.cc), Farm and Platoon\_reset:
    the heap of users, the operations of user and platoon, and the invariant \<open>farm_ok\<close> of all of them and the
    queue.
  \<^item> Options, Event\_loop and Bench (bench.cc, CHECK.cc): the command line, the parts of the main loop that the
    programs share, and the program.
  \<^item> Frames: what the operations of a connection leave alone, as a locale (\<open>calls_keep\<close>). User\_frame: what all
    operations of the program keep, as a locale (\<open>users_keep\<close>, with \<open>calls_keep\<close> of the calls of platoon and users as
    sublocales), on the calls that return. Population interprets it with the invariant \<open>population\<close> of the
    numbers of users, Seating with \<open>seated\<close>, that every user has a slot of the table.
  \<^item> Corba\_platoon (CorbaPlatoon\_impl.cc) and Corba\_bench (corbaftpbench.cc): the server and its controller.
  \<^item> Dklimits (dklimits.c) and Poller\_bench (Poller\_bench.cc): the two measuring programs. Profile (profile.c):
    the reader of the kernel's profile, on the words of the profile and the characters of System.map.
    Getifaddrs (getifaddrs.c, inet\_aton.c): the list of interfaces, on a heap of blocks. Local\_addrs
    (CorbaPlatoon\_impl.cc, bench.cc): the pool of local addresses that is made from it.

  A class is a record of its members, with a prefix for the \<open>m_\<close> of the source; an operation takes it, and
  what it changes around it, and returns them. A failed assertion, an access outside an array, a null pointer,
  a use after free, an overflow that is undefined and a call that never returns are None. \<open>exit\<close> is a
  result of its own (\<open>outcome\<close>) in the theories on the programs. Integers are kept at their width
  where they wrap (\<open>clock_t\<close>, masks, addresses, the conversions of the options and of the messages).

  \<^bold>\<open>What is proved.\<close>

  \<^item> Queue: every operation keeps the heap and the back links and does to \<open>schedule\<close> what its name says;
    \<open>runAll\<close> calls, each time, the least of what is due, for all callbacks that keep the queue well-formed, and
    ends when they queue nothing that is due.
  \<^item> Buffer: refinement of a bounded queue, the line reader against a splitter of lists, round trip of lines.
  \<^item> Protocol engine: no sequence of calls and replies makes it leave its arrays or its stack; it follows a
    state machine; the parser of PASV replies inverts their format.
  \<^item> Back ends: each refines a plain map of watched descriptors and delivers the ready ones exactly once, while
    the handlers delete descriptors; for \<open>poll\<close> also while the handlers call the other operations.
  \<^item> Connection: the handler of the control socket ends on every stream of replies and fails no assertion; a
    transfer stays below its rate, whatever events arrive; sleeping, waking, hang-up and shutdown.
  \<^item> Load generator: the ramp-up ends and starts exactly as many users as the targets and the table allow, \<open>reap\<close> and \<open>reset\<close> free exactly what they should,
    a read is counted; all keep the invariant \<open>farm_ok\<close>.
  \<^item> Programs: the options that pass are well typed, the set-up establishes \<open>farm_ok\<close>, the main loop
    ends exactly after a quiet time and fails when all users are dead, the sleep is exact to a millisecond;
    the server refines a machine of phases, and with any of its own work in between a reset leaves no user; the
    controller sends exactly what the protocol asks for; a benchmark ends and reports what it measured. In every run of bench.cc there are never more users than asked for, and
    the reported numbers stay within that, without any assumption on the servers or the system.
  \<^item> Kernel profile: the symbols get exactly the counters between their addresses, sorted stably; the loop
    ends exactly when the counters run out before System.map. Interfaces: what is listed on Linux, and that
    \<open>freeifaddrs\<close> gives all of it back. The loops of \<open>getLocalAddrs\<close> over it stay in their array and give the
    pool that the set-up of the load test is proved for.
  \<^item> Failures of the code, each on the model of the code as it is: see the theorems on double free, stale
    timers, descriptor 0, lost clients, a test end beyond \<open>2^31\<close> ticks, overdue events of the server; the
    type of a symbol of the profile is that of the next one, and a list of interfaces may be cut short.

  \<^bold>\<open>Loops.\<close> There is no fuel. Loops that end have a measure; \<open>partial_function\<close> is used for those that need not:
  \<open>runAll\<close>, the loops of the connection, \<open>service\<close>, the main loops, \<open>iterate\<close>,
  \<open>await_connects\<close>, the loop of the profile reader and those of \<open>getifaddrs2\<close>. That \<open>runAll\<close>, the control
  handler, the ramp-up and \<open>iterate\<close> end is a theorem; a main loop
  is meant to run for ever without a duration, and its theorem says exactly when it is left.

  \<^bold>\<open>Parameters.\<close> System calls, the clock, \<open>malloc\<close> and \<open>realloc\<close>, the ORB and the back end seen by the
  connections are arguments that act on a state of their own. What is assumed of them is named:
  \<open>sys_ok\<close> (memory is found, the clock stays in a half-range window at a base \<open>b\<close>, new objects are at unused addresses),
  \<open>server_env\<close>, \<open>limited\<close> (a table of descriptors), \<open>linux\<close> (the answer to SIOCGIFCONF), \<open>kernel_map\<close> (symbols at
  multiples of the step). Every theorem with a hypothesis has an instance, with
  concrete functions for them, named after it with \<open>_witness\<close>.

  \<^bold>\<open>Open.\<close> That a whole round of the main loop keeps \<open>farm_ok\<close> does not hold of the code as it is, since a user that
  is reported two errors is freed twice; the theorems on the rounds speak of what is observed between
  them, or of the calls that return (\<open>population\<close>, \<open>seated\<close>). So \<open>perform_work\<close> on an active platoon is not proved to
  return, and the sessions of a server that contain it are those whose calls return.

  \<^bold>\<open>Not modelled.\<close> Messages printed (dprint.cc and the \<open>printf\<close>s) and the signal handler of SIGINT, which change
  no state; the ORB and the name service of the two CORBA programs; the kernel profile of Poller\_bench.cc; the
  rounding of \<open>double\<close> in its result. The \<open>_test\<close> programs test the components above.
\<close>

end
